(* ===== verification/Prelude.thy ===== *)
theory Prelude
  imports Main "HOL-Library.Word" "HOL-Library.Monad_Syntax"
begin

text \<open>
  Shared vocabulary of the development.

  \<^item> Type names for the machine integers of the sources: \<open>UInt\<close> is 32 bits wide, \<open>UWord\<close>,
    \<open>Addr\<close> and \<open>ULong\<close> 64 bits (the amd64 target); \<open>UChar\<close> is a byte. A \<open>HChar\<close> is a
    \<^typ>\<open>char\<close>; its unsigned reading (the cast to \<open>UChar\<close> the sources make before they
    compare) is \<open>of_char\<close>.
  \<^item> \<open>vg_assert\<close>: the assertion of the core. An operation that can fail an assertion, panic or
    read outside its buffer returns an option, and \<open>None\<close> is that failure; the option monad
    sequences such operations.
  \<^item> Generic facts on options and lists that several components use, collected in
    \<open>opt_simps\<close>.
  \<^item> The locale \<open>comparator\<close>: what the sources expect of a three-way comparison function
    (\<open>kCmp\<close>, \<open>cmpFn\<close>, \<open>compar\<close>), with the order it induces.
\<close>

unbundle bit_operations_syntax

section \<open>Machine types\<close>

type_synonym UChar = "8 word"
type_synonym UInt = "32 word"
type_synonym ULong = "64 word"
type_synonym UWord = "64 word"
type_synonym Addr = UWord

abbreviation NUL :: char where
  "NUL \<equiv> CHR 0x00"

section \<open>Assertions\<close>

named_theorems opt_simps \<open>rewriting of option-monad code\<close>

definition vg_assert :: "bool \<Rightarrow> unit option" where
  "vg_assert b = (if b then Some () else None)"

lemma vg_assert_bind [opt_simps]: "(vg_assert b \<bind> f) = (if b then f () else None)"
  by (simp add: vg_assert_def)

lemma vg_assert_True [simp]: "b \<Longrightarrow> (vg_assert b \<bind> f) = f ()"
  by (simp add: vg_assert_def)

lemma vg_assert_False [simp]: "\<not> b \<Longrightarrow> (vg_assert b \<bind> f) = None"
  by (simp add: vg_assert_def)

lemma bind_SomeE:
  assumes "(m \<bind> f) = Some y"
  obtains x where "m = Some x" and "f x = Some y"
  using assms by (cases m) auto

lemma bind_eq_SomeI [intro]: "m = Some x \<Longrightarrow> f x = Some y \<Longrightarrow> (m \<bind> f) = Some y"
  by simp

section \<open>Lists\<close>

lemma find_append:
  "List.find P (xs @ ys) = (case List.find P xs of None \<Rightarrow> List.find P ys | Some x \<Rightarrow> Some x)"
  by (induction xs) auto

lemma find_SomeD: "List.find P xs = Some x \<Longrightarrow> x \<in> set xs \<and> P x"
  by (induction xs) (auto split: if_splits)

lemma find_NoneD: "List.find P xs = None \<Longrightarrow> x \<in> set xs \<Longrightarrow> \<not> P x"
  by (induction xs) (auto split: if_splits)

section \<open>Three-way comparison functions\<close>

locale comparator =
  fixes cmp :: "'a \<Rightarrow> 'a \<Rightarrow> int"
  assumes cmp_refl [simp]: "cmp a a = 0"
    and cmp_antisym: "cmp a b < 0 \<longleftrightarrow> cmp b a > 0"
    and cmp_trans: "cmp a b \<le> 0 \<Longrightarrow> cmp b c \<le> 0 \<Longrightarrow> cmp a c \<le> 0"
begin

lemma cmp_zero_sym: "cmp a b = 0 \<longleftrightarrow> cmp b a = 0"
  using cmp_antisym [of a b] cmp_antisym [of b a] by linarith

lemma cmp_le_ge: "cmp a b \<le> 0 \<longleftrightarrow> cmp b a \<ge> 0"
  using cmp_antisym [of b a] by linarith

lemma cmp_total: "cmp a b \<le> 0 \<or> cmp b a \<le> 0"
  using cmp_antisym [of a b] by linarith

lemma cmp_less_le_trans: "cmp a b < 0 \<Longrightarrow> cmp b c \<le> 0 \<Longrightarrow> cmp a c < 0"
proof -
  assume ab: "cmp a b < 0" and bc: "cmp b c \<le> 0"
  have ac: "cmp a c \<le> 0" using cmp_trans [of a b c] ab bc by simp
  moreover have "cmp a c \<noteq> 0"
  proof
    assume "cmp a c = 0"
    then have "cmp c a \<le> 0" using cmp_zero_sym [of a c] by simp
    with bc have "cmp b a \<le> 0" by (rule cmp_trans)
    with ab show False using cmp_antisym [of a b] by simp
  qed
  ultimately show ?thesis by simp
qed

lemma cmp_le_less_trans: "cmp a b \<le> 0 \<Longrightarrow> cmp b c < 0 \<Longrightarrow> cmp a c < 0"
proof -
  assume ab: "cmp a b \<le> 0" and bc: "cmp b c < 0"
  have "cmp a c \<le> 0" using cmp_trans [of a b c] ab bc by simp
  moreover have "cmp a c \<noteq> 0"
  proof
    assume "cmp a c = 0"
    then have "cmp c a \<le> 0" using cmp_zero_sym [of a c] by simp
    from this ab have "cmp c b \<le> 0" by (rule cmp_trans)
    with bc show False using cmp_antisym [of b c] by simp
  qed
  ultimately show ?thesis by simp
qed

lemma cmp_less_trans: "cmp a b < 0 \<Longrightarrow> cmp b c < 0 \<Longrightarrow> cmp a c < 0"
  using cmp_less_le_trans by fastforce

lemma cmp_zero_left: "cmp a b = 0 \<Longrightarrow> cmp a c < 0 \<longleftrightarrow> cmp b c < 0"
  using cmp_le_less_trans [of b a c] cmp_le_less_trans [of a b c] cmp_zero_sym [of a b] by auto

lemma cmp_zero_trans: "cmp a b = 0 \<Longrightarrow> cmp b c = 0 \<Longrightarrow> cmp a c = 0"
  using cmp_trans [of a b c] cmp_trans [of c b a] cmp_zero_sym cmp_le_ge by force

end

section \<open>Word maps\<close>

text \<open>The interface of a mutable map from words to words: insertion tells whether the key was
  there, deletion returns the value it removed. The containers that offer it differ in how they
  store the map; a client sees only \<open>look\<close>.\<close>

datatype word_op = OpAdd UWord UWord | OpDel UWord

datatype word_res = Added bool | Deleted "UWord option"

fun run_ops :: "('m \<Rightarrow> UWord \<Rightarrow> UWord \<Rightarrow> ('m \<times> bool) option)
    \<Rightarrow> ('m \<Rightarrow> UWord \<Rightarrow> ('m \<times> UWord option) option)
    \<Rightarrow> 'm \<Rightarrow> word_op list \<Rightarrow> ('m \<times> word_res list) option" where
  "run_ops add del m [] = Some (m, [])"
| "run_ops add del m (OpAdd k v # ops) =
     do { (m', b) \<leftarrow> add m k v; (m'', rs) \<leftarrow> run_ops add del m' ops; Some (m'', Added b # rs) }"
| "run_ops add del m (OpDel k # ops) =
     do { (m', x) \<leftarrow> del m k; (m'', rs) \<leftarrow> run_ops add del m' ops; Some (m'', Deleted x # rs) }"

text \<open>The same sequence on the mathematical map.\<close>

fun spec_ops :: "(UWord \<rightharpoonup> UWord) \<Rightarrow> word_op list \<Rightarrow> (UWord \<rightharpoonup> UWord) \<times> word_res list" where
  "spec_ops f [] = (f, [])"
| "spec_ops f (OpAdd k v # ops) =
     (let (g, rs) = spec_ops (f(k \<mapsto> v)) ops in (g, Added (f k \<noteq> None) # rs))"
| "spec_ops f (OpDel k # ops) =
     (let (g, rs) = spec_ops (f(k := None)) ops in (g, Deleted (f k) # rs))"

locale word_map =
  fixes invar :: "'m \<Rightarrow> bool"
    and look :: "'m \<Rightarrow> UWord \<Rightarrow> UWord option"
    and add :: "'m \<Rightarrow> UWord \<Rightarrow> UWord \<Rightarrow> ('m \<times> bool) option"
    and del :: "'m \<Rightarrow> UWord \<Rightarrow> ('m \<times> UWord option) option"
  assumes add_law: "invar m \<Longrightarrow>
      \<exists>m'. add m k v = Some (m', look m k \<noteq> None) \<and> invar m' \<and> look m' = (look m)(k \<mapsto> v)"
    and del_law: "invar m \<Longrightarrow>
      \<exists>m'. del m k = Some (m', look m k) \<and> invar m' \<and> look m' = (look m)(k := None)"
begin

lemma run_refines:
  "invar m \<Longrightarrow> \<exists>m'. run_ops add del m ops = Some (m', snd (spec_ops (look m) ops))
     \<and> invar m' \<and> look m' = fst (spec_ops (look m) ops)"
proof (induction ops arbitrary: m)
  case Nil
  then show ?case by simp
next
  case (Cons op ops)
  show ?case
  proof (cases op)
    case (OpAdd k v)
    obtain m1 where m1: "add m k v = Some (m1, look m k \<noteq> None)" "invar m1"
      "look m1 = (look m)(k \<mapsto> v)"
      using add_law [OF Cons.prems] by blast
    from Cons.IH [OF m1(2)] obtain m2 where
      "run_ops add del m1 ops = Some (m2, snd (spec_ops ((look m)(k \<mapsto> v)) ops))" "invar m2"
      "look m2 = fst (spec_ops ((look m)(k \<mapsto> v)) ops)"
      unfolding m1(3) by blast
    with m1(1) show ?thesis by (simp add: OpAdd case_prod_beta del: fun_upd_apply)
  next
    case (OpDel k)
    obtain m1 where m1: "del m k = Some (m1, look m k)" "invar m1" "look m1 = (look m)(k := None)"
      using del_law [OF Cons.prems] by blast
    from Cons.IH [OF m1(2)] obtain m2 where
      "run_ops add del m1 ops = Some (m2, snd (spec_ops ((look m)(k := None)) ops))" "invar m2"
      "look m2 = fst (spec_ops ((look m)(k := None)) ops)"
      unfolding m1(3) by blast
    with m1(1) show ?thesis by (simp add: OpDel case_prod_beta del: fun_upd_apply)
  qed
qed

end

end
