(* ===== verification/SeqMatch.thy ===== *)
theory SeqMatch
  imports Prelude
begin

text \<open>
  The sequence matcher of \<open>coregrind/m_seqmatch.c\<close> and its specialisation to strings.
  \<open>generic_match\<close> follows the C function: it works on indices into the pattern and the
  input, checks its assertions at every (tail) call and takes either a plain input array or
  an input completer, which produces the input lazily. \<open>ma\<close> is the specification that the
  source gives in a comment, as a recursive function on lists.

  A completer may never run out of input, so the C loop need not end; \<open>generic_match\<close> is a
  \<open>partial_function\<close> whose outer option is \<open>None\<close> when it does not return. An assertion
  failure is the returned value \<open>None\<close>.
\<close>

section \<open>The matcher\<close>

text \<open>The arguments of the C function that its recursive calls pass on unchanged.\<close>

record ('p, 'i) matcher =
  matchAll :: bool
  patt :: "'p list"
  input :: "'i list"
  pIsStar :: "'p \<Rightarrow> bool"
  pIsQuery :: "'p \<Rightarrow> bool"
  pattEQinp :: "'p \<Rightarrow> 'i option \<Rightarrow> nat \<Rightarrow> bool option"
  completer :: "(nat \<Rightarrow> bool) option"

definition gm_asserts :: "('p, 'i) matcher \<Rightarrow> nat \<Rightarrow> nat \<Rightarrow> bool" where
  "gm_asserts m ixPatt ixInput =
     (length (patt m) < 1000000
      \<and> (completer m \<noteq> None \<or> length (input m) < 1000000)
      \<and> ixPatt \<le> length (patt m)
      \<and> (completer m \<noteq> None \<or> ixInput \<le> length (input m)))"

definition gm_haveInput :: "('p, 'i) matcher \<Rightarrow> nat \<Rightarrow> bool" where
  "gm_haveInput m ixInput =
     (case completer m of Some haveInputInpC \<Rightarrow> haveInputInpC ixInput
                        | None \<Rightarrow> ixInput < length (input m))"

definition gm_currInput :: "('p, 'i) matcher \<Rightarrow> nat \<Rightarrow> 'i option" where
  "gm_currInput m ixInput =
     (if gm_haveInput m ixInput \<and> completer m = None then Some (input m ! ixInput) else None)"

partial_function (option) generic_match ::
  "('p, 'i) matcher \<Rightarrow> nat \<Rightarrow> nat \<Rightarrow> bool option option" where
  "generic_match m ixPatt ixInput =
    (if \<not> gm_asserts m ixPatt ixInput then Some None
     else
       let havePatt = (ixPatt < length (patt m));
           haveInput = gm_haveInput m ixInput;
           currPatt = patt m ! ixPatt
       in if havePatt \<and> pIsStar m currPatt then
            (if haveInput then
               generic_match m (ixPatt + 1) ixInput \<bind>
               (\<lambda>r. case r of None \<Rightarrow> Some None
                  | Some b \<Rightarrow> if b then Some (Some True)
                              else generic_match m ixPatt (ixInput + 1))
             else generic_match m (ixPatt + 1) ixInput)
          else if havePatt \<and> pIsQuery m currPatt then
            (if haveInput then generic_match m (ixPatt + 1) (ixInput + 1)
             else Some (Some False))
          else if havePatt \<and> haveInput then
            (case pattEQinp m currPatt (gm_currInput m ixInput) ixInput of
               None \<Rightarrow> Some None
             | Some b \<Rightarrow> if \<not> b then Some (Some False)
                         else generic_match m (ixPatt + 1) (ixInput + 1))
          else if havePatt \<and> \<not> haveInput then Some (Some False)
          else if \<not> havePatt \<and> haveInput then Some (Some (\<not> matchAll m))
          else Some (Some True))"

definition charIsStar :: "char \<Rightarrow> bool" where
  "charIsStar p = (p = CHR ''*'')"

definition charIsQuery :: "char \<Rightarrow> bool" where
  "charIsQuery p = (p = CHR ''?'')"

text \<open>The current input is \<open>NULL\<close> only with a completer, which \<open>string_match\<close> does not use;
  a read through it would be a crash.\<close>

definition char_p_EQ_i :: "char \<Rightarrow> char option \<Rightarrow> nat \<Rightarrow> bool option" where
  "char_p_EQ_i p c ixcV =
     (case c of None \<Rightarrow> None
      | Some c \<Rightarrow> do { vg_assert (p \<noteq> CHR ''*'' \<and> p \<noteq> CHR ''?''); Some (p = c) })"

text \<open>Both arguments are given by their characters up to the terminator, so their
  \<open>strlen\<close> is the length of the list.\<close>

definition string_matcher :: "string \<Rightarrow> string \<Rightarrow> (char, char) matcher" where
  "string_matcher p i =
     \<lparr>matchAll = True, patt = p, input = i, pIsStar = charIsStar, pIsQuery = charIsQuery,
      pattEQinp = char_p_EQ_i, completer = None\<rparr>"

definition string_match :: "string \<Rightarrow> string \<Rightarrow> bool option option" where
  "string_match p i = generic_match (string_matcher p i) 0 0"

section \<open>The specification in the source's comment\<close>

function ma :: "bool \<Rightarrow> ('p \<Rightarrow> bool) \<Rightarrow> ('p \<Rightarrow> bool) \<Rightarrow> ('p \<Rightarrow> 'i \<Rightarrow> bool) \<Rightarrow> 'p list \<Rightarrow> 'i list
    \<Rightarrow> bool" where
  "ma mall star query eq [] [] = True"
| "ma mall star query eq [] (x # xs) = (\<not> mall)"
| "ma mall star query eq (p # ps) [] =
     (if star p then ma mall star query eq ps [] else False)"
| "ma mall star query eq (p # ps) (x # xs) =
     (if star p then ma mall star query eq ps (x # xs) \<or> ma mall star query eq (p # ps) xs
      else if query p then ma mall star query eq ps xs
      else eq p x \<and> ma mall star query eq ps xs)"
  by pat_completeness auto
termination
  by (relation "measure (\<lambda>(mall, star, query, eq, ps, xs). length ps + length xs)") auto

section \<open>The matcher implements the specification\<close>

text \<open>The input a matcher works on: its array, or what its completer produces.\<close>

definition input_is :: "('p, 'i) matcher \<Rightarrow> 'i list \<Rightarrow> bool" where
  "input_is m xs =
     (case completer m of None \<Rightarrow> input m = xs \<and> length xs < 1000000
      | Some have \<Rightarrow> (\<forall>i. have i = (i < length xs)))"

text \<open>The comparison callback decides \<open>eq\<close> on the literal elements of the pattern.\<close>

definition eq_is :: "('p, 'i) matcher \<Rightarrow> 'i list \<Rightarrow> ('p \<Rightarrow> 'i \<Rightarrow> bool) \<Rightarrow> bool" where
  "eq_is m xs eq =
     (\<forall>p \<in> set (patt m). \<forall>i < length xs. \<not> pIsStar m p \<longrightarrow> \<not> pIsQuery m p \<longrightarrow>
        pattEQinp m p (if completer m = None then Some (xs ! i) else None) i = Some (eq p (xs ! i)))"

abbreviation ma_of :: "('p, 'i) matcher \<Rightarrow> ('p \<Rightarrow> 'i \<Rightarrow> bool) \<Rightarrow> 'p list \<Rightarrow> 'i list \<Rightarrow> bool" where
  "ma_of m \<equiv> ma (matchAll m) (pIsStar m) (pIsQuery m)"

lemma input_is_have [simp]: "input_is m xs \<Longrightarrow> gm_haveInput m i = (i < length xs)"
  by (auto simp: input_is_def gm_haveInput_def split: option.splits)

lemma input_is_asserts:
  "input_is m xs \<Longrightarrow> length (patt m) < 1000000 \<Longrightarrow> ip \<le> length (patt m) \<Longrightarrow> ii \<le> length xs
     \<Longrightarrow> gm_asserts m ip ii"
  by (auto simp: input_is_def gm_asserts_def split: option.splits)

lemma eq_is_curr:
  "input_is m xs \<Longrightarrow> eq_is m xs eq \<Longrightarrow> ip < length (patt m) \<Longrightarrow> ii < length xs
   \<Longrightarrow> \<not> pIsStar m (patt m ! ip) \<Longrightarrow> \<not> pIsQuery m (patt m ! ip)
   \<Longrightarrow> pattEQinp m (patt m ! ip) (gm_currInput m ii) ii = Some (eq (patt m ! ip) (xs ! ii))"
  unfolding eq_is_def
  by (drule bspec [of _ _ "patt m ! ip"])
     (auto simp: input_is_def gm_currInput_def gm_haveInput_def split: option.splits)

lemma generic_match_from:
  assumes inp: "input_is m xs" and n: "length (patt m) < 1000000" and eq: "eq_is m xs eq"
  shows "ip \<le> length (patt m) \<Longrightarrow> ii \<le> length xs \<Longrightarrow>
    generic_match m ip ii = Some (Some (ma_of m eq (drop ip (patt m)) (drop ii xs)))"
proof (induction "(length (patt m) - ip) + (length xs - ii)" arbitrary: ip ii rule: less_induct)
  case less
  have IH: "generic_match m ip' ii' = Some (Some (ma_of m eq (drop ip' (patt m)) (drop ii' xs)))"
    if "ip' \<le> length (patt m)" "ii' \<le> length xs"
      "(length (patt m) - ip') + (length xs - ii') < (length (patt m) - ip) + (length xs - ii)"
    for ip' ii'
    using less.hyps [of ip' ii'] that by simp
  have as: "gm_asserts m ip ii" using input_is_asserts [OF inp n] less.prems by simp
  have dp: "ip < length (patt m) \<Longrightarrow> drop ip (patt m) = patt m ! ip # drop (Suc ip) (patt m)"
    by (simp add: Cons_nth_drop_Suc)
  have dx: "ii < length xs \<Longrightarrow> drop ii xs = xs ! ii # drop (Suc ii) xs"
    by (simp add: Cons_nth_drop_Suc)
  consider "ip < length (patt m)" "ii < length xs" | "ip < length (patt m)" "\<not> ii < length xs"
    | "\<not> ip < length (patt m)" "ii < length xs" | "\<not> ip < length (patt m)" "\<not> ii < length xs"
    by blast
  then show ?case
  proof cases
    case 1
    then show ?thesis
      using as inp
      by (subst generic_match.simps)
         (simp add: Let_def dp dx IH eq_is_curr [OF inp eq] split: if_splits)
  next
    case 2
    then show ?thesis
      using as inp less.prems by (subst generic_match.simps) (simp add: Let_def dp IH)
  next
    case 3
    then show ?thesis
      using as inp by (subst generic_match.simps) (simp add: Let_def dx)
  next
    case 4
    then show ?thesis
      using as inp by (subst generic_match.simps) (simp add: Let_def)
  qed
qed

lemma generic_match_correct:
  "input_is m xs \<Longrightarrow> length (patt m) < 1000000 \<Longrightarrow> eq_is m xs eq \<Longrightarrow>
   generic_match m 0 0 = Some (Some (ma_of m eq (patt m) xs))"
  using generic_match_from [of m xs eq 0 0] by simp

text \<open>A star stands for any number of input elements, in both matching modes.\<close>

lemma ma_star:
  "star p \<Longrightarrow> ma mall star query eq (p # ps) xs
     = (\<exists>k \<le> length xs. ma mall star query eq ps (drop k xs))"
proof (induction xs)
  case Nil
  then show ?case by simp
next
  case (Cons x xs)
  have "(\<exists>k \<le> length (x # xs). ma mall star query eq ps (drop k (x # xs)))
      = (ma mall star query eq ps (x # xs)
         \<or> (\<exists>k \<le> length xs. ma mall star query eq ps (drop k xs)))"
    (is "?L = ?R")
  proof
    assume ?L
    then obtain k where "k \<le> length (x # xs)" "ma mall star query eq ps (drop k (x # xs))"
      by blast
    then show ?R by (cases k) auto
  next
    assume ?R
    then show ?L
    proof
      assume "ma mall star query eq ps (x # xs)"
      then show ?L by (intro exI [of _ 0]) simp
    next
      assume "\<exists>k \<le> length xs. ma mall star query eq ps (drop k xs)"
      then obtain k where "k \<le> length xs" "ma mall star query eq ps (drop k xs)" by blast
      then show ?L by (intro exI [of _ "Suc k"]) simp
    qed
  qed
  with Cons show ?case by simp
qed

text \<open>Without wildcards the whole-input mode is element-wise equality.\<close>

lemma ma_literal:
  "\<forall>p \<in> set ps. \<not> star p \<and> \<not> query p \<Longrightarrow> ma True star query eq ps xs = list_all2 eq ps xs"
  by (induction True star query eq ps xs rule: ma.induct) auto

lemma string_matcher_simps [simp]:
  "matchAll (string_matcher p i) = True" "patt (string_matcher p i) = p"
  "input (string_matcher p i) = i" "completer (string_matcher p i) = None"
  "pIsStar (string_matcher p i) = charIsStar" "pIsQuery (string_matcher p i) = charIsQuery"
  "pattEQinp (string_matcher p i) = char_p_EQ_i"
  by (simp_all add: string_matcher_def)

lemma string_matcher_ok:
  "length i < 1000000 \<Longrightarrow> input_is (string_matcher p i) i"
  "eq_is (string_matcher p i) i (=)"
  by (auto simp: input_is_def eq_is_def char_p_EQ_i_def charIsStar_def charIsQuery_def)

section \<open>Properties\<close>

text \<open>C6: The index-based matcher returns, without failing an assertion, exactly what the
  recursive specification in the comment of \<open>generic_match\<close> says, in both modes and for both
  ways of supplying the input (\<open>input_is\<close>: the array, or a completer for the same elements).\<close>

theorem generic_match_refines_ma:
  assumes "input_is m xs" and "length (patt m) < 1000000" and "eq_is m xs eq"
  shows "generic_match m 0 0
    = Some (Some (ma (matchAll m) (pIsStar m) (pIsQuery m) eq (patt m) xs))"
  using assms by (rule generic_match_correct)

text \<open>Witness: a lazily supplied input, matched in prefix mode.\<close>

theorem generic_match_refines_ma_witness:
  "generic_match (\<lparr>matchAll = False, patt = ''?b*'', input = [], pIsStar = charIsStar,
      pIsQuery = charIsQuery, pattEQinp = (\<lambda>p c i. Some (p = ''abc'' ! i)),
      completer = Some (\<lambda>i. i < 3)\<rparr> :: (char, char) matcher) 0 0 = Some (Some True)"
proof -
  let ?m = "\<lparr>matchAll = False, patt = ''?b*'', input = [], pIsStar = charIsStar,
      pIsQuery = charIsQuery, pattEQinp = (\<lambda>p c i. Some (p = ''abc'' ! i)),
      completer = Some (\<lambda>i. i < 3)\<rparr> :: (char, char) matcher"
  have "input_is ?m ''abc''" by (simp add: input_is_def numeral_3_eq_3)
  moreover have "eq_is ?m ''abc'' (=)" by (simp add: eq_is_def)
  ultimately have "generic_match ?m 0 0
      = Some (Some (ma False charIsStar charIsQuery (=) ''?b*'' ''abc''))"
    using generic_match_refines_ma [of ?m "''abc''" "(=)"] by simp
  then show ?thesis by (simp add: charIsStar_def charIsQuery_def)
qed

text \<open>C7: \<open>string_match\<close> on strings shorter than the matcher's limit: it returns, a leading
  star matches iff the rest of the pattern matches some suffix of the input, a leading
  question mark consumes exactly one character, and a pattern with neither wildcard matches
  only itself.\<close>

theorem string_match_glob:
  assumes "length p < 999999" and "length i < 1000000"
  shows "string_match (CHR ''*'' # p) i
           = Some (Some (\<exists>k \<le> length i. string_match p (drop k i) = Some (Some True)))
      \<and> string_match (CHR ''?'' # p) i
           = Some (Some (i \<noteq> [] \<and> string_match p (tl i) = Some (Some True)))
      \<and> (CHR ''*'' \<notin> set p \<and> CHR ''?'' \<notin> set p \<longrightarrow> string_match p i = Some (Some (p = i)))"
proof -
  have sm: "length q < 1000000 \<Longrightarrow> length j < 1000000 \<Longrightarrow>
      string_match q j = Some (Some (ma True charIsStar charIsQuery (=) q j))" for q j
    using generic_match_correct [OF string_matcher_ok(1) _ string_matcher_ok(2), of j q]
    by (simp add: string_match_def)
  have "string_match (CHR ''*'' # p) i
           = Some (Some (\<exists>k \<le> length i. string_match p (drop k i) = Some (Some True)))"
    using assms by (simp add: sm ma_star charIsStar_def)
  moreover have "string_match (CHR ''?'' # p) i
           = Some (Some (i \<noteq> [] \<and> string_match p (tl i) = Some (Some True)))"
    using assms by (cases i) (simp_all add: sm charIsStar_def charIsQuery_def)
  moreover have "CHR ''*'' \<notin> set p \<and> CHR ''?'' \<notin> set p \<longrightarrow>
      string_match p i = Some (Some (p = i))"
  proof
    assume "CHR ''*'' \<notin> set p \<and> CHR ''?'' \<notin> set p"
    then have "\<forall>c \<in> set p. \<not> charIsStar c \<and> \<not> charIsQuery c"
      by (auto simp: charIsStar_def charIsQuery_def)
    then show "string_match p i = Some (Some (p = i))"
      using assms by (simp add: sm ma_literal list_all2_eq)
  qed
  ultimately show ?thesis by blast
qed

text \<open>Witness: three of the test cases listed at the end of the source file.\<close>

theorem string_match_glob_witness:
  "string_match ''abc'' ''abc'' = Some (Some True)
   \<and> string_match ''?'' '''' = Some (Some False)
   \<and> string_match ''*'' ''abc'' = Some (Some True)"
proof -
  have a: "string_match ''abc'' ''abc'' = Some (Some True)"
    using string_match_glob [of "''abc''" "''abc''"] by simp
  have b: "string_match ''?'' '''' = Some (Some False)"
    using string_match_glob [of "''''" "''''"] by simp
  have e: "string_match '''' '''' = Some (Some True)"
    using string_match_glob [of "''''" "''''"] by simp
  have "\<exists>k \<le> length ''abc''. string_match '''' (drop k ''abc'') = Some (Some True)"
    by (rule exI [of _ 3]) (simp add: e)
  then have "string_match ''*'' ''abc'' = Some (Some True)"
    using string_match_glob [of "''''" "''abc''"] by simp
  with a b show ?thesis by simp
qed

end
