(* ===== verification/WordFM.thy ===== *)
theory WordFM
  imports Prelude "HOL-Library.Multiset"
begin

text \<open>
  The finite map from words to words of \<open>coregrind/m_wordfm.c\<close>: an AVL tree with balance
  factors, its iterator and the public operations.

  A node pointer is modelled by the value of the tree it points to; \<open>NULL\<close> is \<open>Null\<close>. Functions
  that receive \<open>AvlNode** rootp\<close> return the new tree. Where the code compares pointers
  (\<open>vg_assert((*rootp)==a)\<close> in \<open>avl_remove_wrk\<close>) the node \<open>a\<close> is represented by its path from the
  current root (\<open>None\<close> once the search has left the way to it). A failing assertion and a
  dereference of \<open>NULL\<close> are both \<open>None\<close>.

  In \<open>avl_insert_wrk\<close> the code does not store \<open>left_subtree\<close> back when the subtree has grown,
  which is right only because the root of a grown subtree is still the same node: the lemma
  \<open>insert_grown_same_root\<close> is the justification for writing the new subtree in both cases.
\<close>

section \<open>Data\<close>

datatype AvlNode = Null | Nd AvlNode UWord UWord int AvlNode
  \<comment> \<open>child[0], key, val, balance, child[1]\<close>

fun nd_balance :: "AvlNode \<Rightarrow> int option" where
  "nd_balance Null = None"
| "nd_balance (Nd l k v b r) = Some b"

fun set_balance :: "int \<Rightarrow> AvlNode \<Rightarrow> AvlNode option" where
  "set_balance b Null = None"
| "set_balance b (Nd l k v _ r) = Some (Nd l k v b r)"

fun set_balance0 :: "int \<Rightarrow> AvlNode \<Rightarrow> AvlNode option" where
  "set_balance0 b Null = None"
| "set_balance0 b (Nd l k v c r) = do { l' \<leftarrow> set_balance b l; Some (Nd l' k v c r) }"

fun set_balance1 :: "int \<Rightarrow> AvlNode \<Rightarrow> AvlNode option" where
  "set_balance1 b Null = None"
| "set_balance1 b (Nd l k v c r) = do { r' \<leftarrow> set_balance b r; Some (Nd l k v c r') }"

section \<open>Tree operations\<close>

fun avl_swl :: "AvlNode \<Rightarrow> AvlNode option" where
  "avl_swl (Nd al ak av ab (Nd bl bk bv bb br)) = Some (Nd (Nd al ak av ab bl) bk bv bb br)"
| "avl_swl _ = None"

fun avl_swr :: "AvlNode \<Rightarrow> AvlNode option" where
  "avl_swr (Nd (Nd bl bk bv bb br) ak av ab ar) = Some (Nd bl bk bv bb (Nd br ak av ab ar))"
| "avl_swr _ = None"

definition avl_nasty :: "AvlNode \<Rightarrow> AvlNode option" where
  "avl_nasty root =
     do { b \<leftarrow> nd_balance root;
          root1 \<leftarrow> (if b = -1 then do { t \<leftarrow> set_balance0 0 root; set_balance1 1 t }
                    else if b = 1 then do { t \<leftarrow> set_balance0 (-1) root; set_balance1 0 t }
                    else if b = 0 then do { t \<leftarrow> set_balance0 0 root; set_balance1 0 t }
                    else None);
          set_balance 0 root1 }"

fun size_avl_nonNull :: "AvlNode \<Rightarrow> UWord" where
  "size_avl_nonNull Null = 0" \<comment> \<open>not called on \<open>NULL\<close>; the conditional's 0\<close>
| "size_avl_nonNull (Nd l k v b r) =
     1 + (if l \<noteq> Null then size_avl_nonNull l else 0) + (if r \<noteq> Null then size_avl_nonNull r else 0)"

definition cmp_unsigned_Words :: "UWord \<Rightarrow> UWord \<Rightarrow> int" where
  "cmp_unsigned_Words w1 w2 = (if w1 < w2 then -1 else if w1 > w2 then 1 else 0)"

text \<open>The comparison an operation uses: the map's \<open>kCmp\<close> (a \<open>Word\<close> read as signed) or, when that
  is \<open>NULL\<close>, unsigned comparison.\<close>

type_synonym kcmp = "(UWord \<Rightarrow> UWord \<Rightarrow> 64 word) option"

definition kcmp_res :: "kcmp \<Rightarrow> UWord \<Rightarrow> UWord \<Rightarrow> int" where
  "kcmp_res kCmp a b =
     (case kCmp of Some f \<Rightarrow> sint (f a b) | None \<Rightarrow> cmp_unsigned_Words a b)"

text \<open>The switch after the left (right) subtree has grown, with the rotations that follow it.
  The argument has the new subtree in place and the old balance. The \<open>bool\<close> is the C result:
  the depth of the tree has grown.\<close>

definition avl_grown_left :: "AvlNode \<Rightarrow> UWord \<Rightarrow> UWord \<Rightarrow> int \<Rightarrow> AvlNode \<Rightarrow> (AvlNode \<times> bool) option"
  where
  "avl_grown_left l k v bal r =
     (if bal = 1 then Some (Nd l k v 0 r, False)
      else if bal = 0 then Some (Nd l k v (-1) r, True)
      else if bal = -1 then
        do { lb \<leftarrow> nd_balance l;
             if lb < 0 then
               do { t \<leftarrow> avl_swr (Nd l k v (-2) r); t \<leftarrow> set_balance 0 t; t \<leftarrow> set_balance1 0 t;
                    Some (t, False) }
             else
               do { l' \<leftarrow> avl_swl l; t \<leftarrow> avl_swr (Nd l' k v (-2) r); t \<leftarrow> avl_nasty t;
                    Some (t, False) } }
      else None)"

definition avl_grown_right :: "AvlNode \<Rightarrow> UWord \<Rightarrow> UWord \<Rightarrow> int \<Rightarrow> AvlNode \<Rightarrow> (AvlNode \<times> bool) option"
  where
  "avl_grown_right l k v bal r =
     (if bal = -1 then Some (Nd l k v 0 r, False)
      else if bal = 0 then Some (Nd l k v 1 r, True)
      else if bal = 1 then
        do { rb \<leftarrow> nd_balance r;
             if rb > 0 then
               do { t \<leftarrow> avl_swl (Nd l k v 2 r); t \<leftarrow> set_balance 0 t; t \<leftarrow> set_balance0 0 t;
                    Some (t, False) }
             else
               do { r' \<leftarrow> avl_swr r; t \<leftarrow> avl_swl (Nd l k v 2 r'); t \<leftarrow> avl_nasty t;
                    Some (t, False) } }
      else None)"

fun avl_insert_wrk :: "(UWord \<Rightarrow> UWord \<Rightarrow> int) \<Rightarrow> AvlNode \<Rightarrow> UWord \<Rightarrow> UWord
    \<Rightarrow> (AvlNode \<times> UWord option \<times> bool) option" where
  "avl_insert_wrk cmp Null ak av = Some (Nd Null ak av 0 Null, None, True)"
| "avl_insert_wrk cmp (Nd l k v bal r) ak av =
     (let cmpres = cmp k ak in
      if cmpres > 0 then
        (if l \<noteq> Null then
           do { (left_subtree, oldV, grown) \<leftarrow> avl_insert_wrk cmp l ak av;
                if grown then
                  do { (t, g) \<leftarrow> avl_grown_left left_subtree k v bal r; Some (t, oldV, g) }
                else Some (Nd left_subtree k v bal r, oldV, False) }
         else Some (Nd (Nd Null ak av 0 Null) k v (bal - 1) r, None, bal = 0))
      else if cmpres < 0 then
        (if r \<noteq> Null then
           do { (right_subtree, oldV, grown) \<leftarrow> avl_insert_wrk cmp r ak av;
                if grown then
                  do { (t, g) \<leftarrow> avl_grown_right l k v bal right_subtree; Some (t, oldV, g) }
                else Some (Nd l k v bal right_subtree, oldV, False) }
         else Some (Nd l k v (bal + 1) (Nd Null ak av 0 Null), None, bal = 0))
      else Some (Nd l k av bal r, Some v, False))"

text \<open>The switch after the left (right) subtree has shrunk; the \<open>bool\<close> is \<open>True\<close> when the depth
  of the whole tree has shrunk.\<close>

definition avl_shrunk_left :: "AvlNode \<Rightarrow> UWord \<Rightarrow> UWord \<Rightarrow> int \<Rightarrow> AvlNode \<Rightarrow> (AvlNode \<times> bool) option"
  where
  "avl_shrunk_left l k v bal r =
     (if bal = -1 then Some (Nd l k v 0 r, True)
      else if bal = 0 then Some (Nd l k v 1 r, False)
      else if bal = 1 then
        do { rb \<leftarrow> nd_balance r;
             if rb = 0 then
               do { t \<leftarrow> avl_swl (Nd l k v 2 r); t \<leftarrow> set_balance (-1) t; t \<leftarrow> set_balance0 1 t;
                    Some (t, False) }
             else if rb = 1 then
               do { t \<leftarrow> avl_swl (Nd l k v 2 r); t \<leftarrow> set_balance 0 t; t \<leftarrow> set_balance0 0 t;
                    Some (t, True) }
             else if rb = -1 then
               do { r' \<leftarrow> avl_swr r; t \<leftarrow> avl_swl (Nd l k v 2 r'); t \<leftarrow> avl_nasty t;
                    Some (t, True) }
             else None }
      else None)"

definition avl_shrunk_right :: "AvlNode \<Rightarrow> UWord \<Rightarrow> UWord \<Rightarrow> int \<Rightarrow> AvlNode \<Rightarrow> (AvlNode \<times> bool) option"
  where
  "avl_shrunk_right l k v bal r =
     (if bal = 1 then Some (Nd l k v 0 r, True)
      else if bal = 0 then Some (Nd l k v (-1) r, False)
      else if bal = -1 then
        do { lb \<leftarrow> nd_balance l;
             if lb = 0 then
               do { t \<leftarrow> avl_swr (Nd l k v (-2) r); t \<leftarrow> set_balance 1 t; t \<leftarrow> set_balance1 (-1) t;
                    Some (t, False) }
             else if lb = -1 then
               do { t \<leftarrow> avl_swr (Nd l k v (-2) r); t \<leftarrow> set_balance 0 t; t \<leftarrow> set_balance1 0 t;
                    Some (t, True) }
             else if lb = 1 then
               do { l' \<leftarrow> avl_swl l; t \<leftarrow> avl_swr (Nd l' k v (-2) r); t \<leftarrow> avl_nasty t;
                    Some (t, True) }
             else None }
      else None)"

text \<open>A pointer to a node of the tree: the way to it. \<open>False\<close> is child[0], \<open>True\<close> child[1].\<close>

type_synonym path = "bool list"

fun node_at :: "AvlNode \<Rightarrow> path \<Rightarrow> (UWord \<times> UWord) option" where
  "node_at Null p = None"
| "node_at (Nd l k v b r) [] = Some (k, v)"
| "node_at (Nd l k v b r) (False # p) = node_at l p"
| "node_at (Nd l k v b r) (True # p) = node_at r p"

definition path_step :: "bool \<Rightarrow> path option \<Rightarrow> path option" where
  "path_step d a = (case a of Some (e # p) \<Rightarrow> if e = d then Some p else None | _ \<Rightarrow> None)"

text \<open>\<open>while (a->child[1]) a = a->child[1];\<close> and its mirror image.\<close>

fun rightmost :: "AvlNode \<Rightarrow> path" where
  "rightmost (Nd l k v b r) = (if r \<noteq> Null then True # rightmost r else [])"
| "rightmost Null = []"

fun leftmost :: "AvlNode \<Rightarrow> path" where
  "leftmost (Nd l k v b r) = (if l \<noteq> Null then False # leftmost l else [])"
| "leftmost Null = []"

function avl_remove_wrk :: "(UWord \<Rightarrow> UWord \<Rightarrow> int) \<Rightarrow> AvlNode \<Rightarrow> path option \<Rightarrow> UWord
    \<Rightarrow> (AvlNode \<times> bool) option"
  and avl_removeroot_wrk :: "(UWord \<Rightarrow> UWord \<Rightarrow> int) \<Rightarrow> AvlNode \<Rightarrow> (AvlNode \<times> bool) option" where
  "avl_remove_wrk cmp Null a ak = None"
| "avl_remove_wrk cmp (Nd l k v bal r) a ak =
     (let cmpres = cmp k ak in
      if cmpres > 0 then
        do { vg_assert (l \<noteq> Null);
             (left_subtree, ch) \<leftarrow> avl_remove_wrk cmp l (path_step False a) ak;
             if ch then avl_shrunk_left left_subtree k v bal r
             else Some (Nd left_subtree k v bal r, False) }
      else if cmpres < 0 then
        do { vg_assert (r \<noteq> Null);
             (right_subtree, ch) \<leftarrow> avl_remove_wrk cmp r (path_step True a) ak;
             if ch then avl_shrunk_right l k v bal right_subtree
             else Some (Nd l k v bal right_subtree, False) }
      else if a = Some [] then avl_removeroot_wrk cmp (Nd l k v bal r)
      else None)"
| "avl_removeroot_wrk cmp Null = None"
| "avl_removeroot_wrk cmp (Nd l k v bal r) =
     (if l = Null then
        (if r = Null then Some (Null, True) else Some (r, True))
      else if r = Null then Some (l, True)
      else
        let p = (if bal < 0 then False # rightmost l else True # leftmost r) in
        do { (ak, av) \<leftarrow> node_at (Nd l k v bal r) p;
             (t, ch) \<leftarrow> avl_remove_wrk cmp (Nd l k v bal r) (Some p) ak;
             (case t of Null \<Rightarrow> None
              | Nd l' k' v' bal' r' \<Rightarrow> Some (Nd l' ak av bal' r', if bal' = 0 then ch else False)) })"
  by pat_completeness auto
termination
proof (relation "measure (\<lambda>x. case x of
      Inl (cmp, t, a, ak) \<Rightarrow> 3 * size t + (if a = Some [] then 2 else 0)
    | Inr (cmp, t) \<Rightarrow> 3 * size t + 1)")
qed (auto split: if_splits)

fun avl_find_node :: "kcmp \<Rightarrow> AvlNode \<Rightarrow> UWord \<Rightarrow> (path \<times> UWord \<times> UWord) option" where
  "avl_find_node kCmp Null k = None"
| "avl_find_node kCmp (Nd l tk tv b r) k =
     (case kCmp of
        Some f \<Rightarrow>
          (let cmpresS = sint (f tk k) in
           if cmpresS > 0 then map_option (\<lambda>(p, kv). (False # p, kv)) (avl_find_node kCmp l k)
           else if cmpresS < 0 then map_option (\<lambda>(p, kv). (True # p, kv)) (avl_find_node kCmp r k)
           else Some ([], tk, tv))
      | None \<Rightarrow>
          (let cmpresS = cmp_unsigned_Words tk k;
               cmpresU = drop_bit 63 (word_of_int cmpresS :: 64 word) in
           if cmpresS = 0 then Some ([], tk, tv)
           else if cmpresU = 0 then map_option (\<lambda>(p, kv). (False # p, kv)) (avl_find_node kCmp l k)
           else if cmpresU = 1 then map_option (\<lambda>(p, kv). (True # p, kv)) (avl_find_node kCmp r k)
           else None))"

text \<open>The loop of \<open>avl_find_bounds\<close>; \<open>None\<close> is the C result \<open>False\<close>.\<close>

fun avl_find_bounds :: "(UWord \<Rightarrow> UWord \<Rightarrow> int) \<Rightarrow> AvlNode \<Rightarrow> UWord \<times> UWord \<Rightarrow> UWord \<times> UWord
    \<Rightarrow> UWord \<Rightarrow> ((UWord \<times> UWord) \<times> (UWord \<times> UWord)) option" where
  "avl_find_bounds cmp Null lower upper key = Some (lower, upper)"
| "avl_find_bounds cmp (Nd l k v b r) lower upper key =
     (let cmpresS = cmp k key in
      if cmpresS < 0 then avl_find_bounds cmp r (k, v) upper key
      else if cmpresS > 0 then avl_find_bounds cmp l lower (k, v) key
      else None)"

fun avl_dopy :: "(UWord \<Rightarrow> UWord) option \<Rightarrow> (UWord \<Rightarrow> UWord) option \<Rightarrow> AvlNode \<Rightarrow> AvlNode" where
  "avl_dopy dopyK dopyV Null = Null"
| "avl_dopy dopyK dopyV (Nd l k v b r) =
     Nd (avl_dopy dopyK dopyV l)
        (case dopyK of Some f \<Rightarrow> f k | None \<Rightarrow> k)
        (case dopyV of Some f \<Rightarrow> f v | None \<Rightarrow> v) b
        (avl_dopy dopyK dopyV r)"

text \<open>What \<open>avl_free\<close> calls, in order: the key and value finalisers (when given) and \<open>dealloc\<close>,
  which is recorded with the key of the node it frees; \<open>DeallocFM\<close> is \<open>deleteFM\<close> freeing the map
  structure and \<open>DeallocBag\<close> \<open>deleteBag\<close> freeing the bag.\<close>

datatype free_call = KFin UWord | VFin UWord | Dealloc UWord | DeallocFM | DeallocBag

fun avl_free :: "bool \<Rightarrow> bool \<Rightarrow> AvlNode \<Rightarrow> free_call list" where
  "avl_free kFin vFin Null = []"
| "avl_free kFin vFin (Nd l k v b r) =
     avl_free kFin vFin l @ avl_free kFin vFin r
     @ (if kFin then [KFin k] else []) @ (if vFin then [VFin v] else []) @ [Dealloc k]"

section \<open>The map and its public operations\<close>

text \<open>The iterator stack is a list with its top first: its length is \<open>stackTop\<close>, and the slots
  from \<open>stackTop\<close> on, which the code clears, are not represented.\<close>

record WordFM =
  root :: AvlNode
  kCmp :: kcmp
  iterStack :: "(AvlNode \<times> int) list"

definition WFM_STKMAX :: nat where
  "WFM_STKMAX = 32"

definition fm_cmp :: "WordFM \<Rightarrow> UWord \<Rightarrow> UWord \<Rightarrow> int" where
  "fm_cmp fm = kcmp_res (kCmp fm)"

definition stackClear :: "WordFM \<Rightarrow> WordFM" where
  "stackClear fm = fm\<lparr>iterStack := []\<rparr>"

definition stackPush :: "(AvlNode \<times> int) list \<Rightarrow> AvlNode \<Rightarrow> int \<Rightarrow> (AvlNode \<times> int) list option" where
  "stackPush stk n i =
     do { vg_assert (length stk < WFM_STKMAX); vg_assert (1 \<le> i \<and> i \<le> 3); Some ((n, i) # stk) }"

definition stackPop :: "(AvlNode \<times> int) list
    \<Rightarrow> ((AvlNode \<times> int) option \<times> (AvlNode \<times> int) list) option" where
  "stackPop stk =
     do { vg_assert (length stk \<le> WFM_STKMAX);
          (case stk of
             (n, i) # rest \<Rightarrow> do { vg_assert (1 \<le> i \<and> i \<le> 3); Some (Some (n, i), rest) }
           | [] \<Rightarrow> Some (None, [])) }"

definition initFM :: "kcmp \<Rightarrow> WordFM" where
  "initFM cmp = \<lparr>root = Null, kCmp = cmp, iterStack = []\<rparr>"

definition newFM :: "kcmp \<Rightarrow> WordFM" where
  "newFM cmp = initFM cmp"

definition deleteFM :: "WordFM \<Rightarrow> bool \<Rightarrow> bool \<Rightarrow> free_call list" where
  "deleteFM fm kFin vFin = avl_free kFin vFin (root fm) @ [DeallocFM]"

definition addToFM :: "WordFM \<Rightarrow> UWord \<Rightarrow> UWord \<Rightarrow> (WordFM \<times> bool) option" where
  "addToFM fm k v =
     do { (t, oldV, _) \<leftarrow> avl_insert_wrk (fm_cmp fm) (root fm) k v;
          Some (fm\<lparr>root := t\<rparr>, oldV \<noteq> None) }"

definition delFromFM :: "WordFM \<Rightarrow> UWord \<Rightarrow> (WordFM \<times> (UWord \<times> UWord) option) option" where
  "delFromFM fm key =
     (case avl_find_node (kCmp fm) (root fm) key of
        Some (a, nk, nv) \<Rightarrow>
          do { (t, _) \<leftarrow> avl_remove_wrk (fm_cmp fm) (root fm) (Some a) nk;
               Some (fm\<lparr>root := t\<rparr>, Some (nk, nv)) }
      | None \<Rightarrow> Some (fm, None))"

definition lookupFM :: "WordFM \<Rightarrow> UWord \<Rightarrow> (UWord \<times> UWord) option" where
  "lookupFM fm key = map_option snd (avl_find_node (kCmp fm) (root fm) key)"

definition findBoundsFM :: "WordFM \<Rightarrow> UWord \<times> UWord \<Rightarrow> UWord \<times> UWord \<Rightarrow> UWord
    \<Rightarrow> ((UWord \<times> UWord) \<times> (UWord \<times> UWord)) option" where
  "findBoundsFM fm minKV maxKV key = avl_find_bounds (fm_cmp fm) (root fm) minKV maxKV key"

definition sizeFM :: "WordFM \<Rightarrow> UWord" where
  "sizeFM fm = (if root fm \<noteq> Null then size_avl_nonNull (root fm) else 0)"

definition initIterFM :: "WordFM \<Rightarrow> WordFM option" where
  "initIterFM fm =
     (let fm = stackClear fm in
      if root fm \<noteq> Null
      then do { s \<leftarrow> stackPush (iterStack fm) (root fm) 1; Some (fm\<lparr>iterStack := s\<rparr>) }
      else Some fm)"

text \<open>The search loop of \<open>initIterAtFM\<close>. It leaves the function when \<open>t\<close> is \<open>NULL\<close>, so the
  statements after it are never reached.\<close>

fun initIterAt_loop :: "(UWord \<Rightarrow> UWord \<Rightarrow> int) \<Rightarrow> UWord \<Rightarrow> AvlNode \<Rightarrow> (AvlNode \<times> int) list
    \<Rightarrow> (AvlNode \<times> int) list option" where
  "initIterAt_loop cmp start_at Null stk = Some stk"
| "initIterAt_loop cmp start_at (Nd l k v b r) stk =
     (let cmpresS = cmp k start_at in
      if cmpresS = 0 then stackPush stk (Nd l k v b r) 2
      else
        let cmpresU = drop_bit 63 (word_of_int cmpresS :: 64 word) in
        if cmpresU = 0
        then do { s \<leftarrow> stackPush stk (Nd l k v b r) 2; initIterAt_loop cmp start_at l s }
        else initIterAt_loop cmp start_at r stk)"

definition initIterAtFM :: "WordFM \<Rightarrow> UWord \<Rightarrow> WordFM option" where
  "initIterAtFM fm start_at =
     (let fm = stackClear fm in
      if root fm = Null then Some fm
      else do { s \<leftarrow> initIterAt_loop (fm_cmp fm) start_at (root fm) (iterStack fm);
                Some (fm\<lparr>iterStack := s\<rparr>) })"

text \<open>The label \<open>case_1\<close> of \<open>nextIterFM\<close>: push the node and go down to the left.\<close>

fun iter_case_1 :: "AvlNode \<Rightarrow> (AvlNode \<times> int) list \<Rightarrow> (AvlNode \<times> int) list option" where
  "iter_case_1 Null stk = None"
| "iter_case_1 (Nd l k v b r) stk =
     do { s \<leftarrow> stackPush stk (Nd l k v b r) 2;
          if l \<noteq> Null then iter_case_1 l s else Some s }"

text \<open>Steps left for a stack entry: the measure of the loop.\<close>

fun entry_weight :: "AvlNode \<times> int \<Rightarrow> nat" where
  "entry_weight (Null, i) = 1"
| "entry_weight (Nd l k v b r, i) =
     (if i = 1 then 3 * size (Nd l k v b r) else if i = 2 then 2 + 3 * size r else 1 + 3 * size r)"

definition stack_weight :: "(AvlNode \<times> int) list \<Rightarrow> nat" where
  "stack_weight stk = sum_list (map entry_weight stk)"

lemma iter_case_1_weight:
  "iter_case_1 n stk = Some s \<Longrightarrow> stack_weight s < stack_weight stk + 3 * size n"
proof (induction n arbitrary: stk s)
  case Null
  then show ?case by simp
next
  case (Nd l k v b r)
  show ?case
  proof (cases "l = Null")
    case True
    with Nd.prems show ?thesis
      by (auto simp: stackPush_def stack_weight_def opt_simps split: if_splits)
  next
    case False
    with Nd.prems have "iter_case_1 l ((Nd l k v b r, 2) # stk) = Some s"
      by (auto simp: stackPush_def opt_simps split: if_splits)
    from Nd.IH(1) [OF this] show ?thesis by (simp add: stack_weight_def)
  qed
qed

function nextIter_loop :: "(AvlNode \<times> int) list
    \<Rightarrow> ((AvlNode \<times> int) list \<times> (UWord \<times> UWord) option) option" where
  "nextIter_loop stk =
     do { (top, stk1) \<leftarrow> stackPop stk;
          (case top of
             None \<Rightarrow> Some (stk1, None)
           | Some (Null, i) \<Rightarrow> None
           | Some (Nd l k v b r, i) \<Rightarrow>
               if i = 1 then do { s \<leftarrow> iter_case_1 (Nd l k v b r) stk1; nextIter_loop s }
               else if i = 2 then do { s \<leftarrow> stackPush stk1 (Nd l k v b r) 3; Some (s, Some (k, v)) }
               else if i = 3 then
                 (if r \<noteq> Null then do { s \<leftarrow> iter_case_1 r stk1; nextIter_loop s }
                  else nextIter_loop stk1)
               else None) }"
  by pat_completeness auto
termination
proof (relation "measure stack_weight", goal_cases)
  case 1
  show ?case by simp
next
  case (2 stk pr top stk1 ni n i l k v b r s)
  then have "stk = (Nd l k v b r, i) # stk1"
    by (auto simp: stackPop_def opt_simps split: if_splits list.splits)
  with 2 iter_case_1_weight [of "Nd l k v b r" stk1 s] show ?case
    by (auto simp: stack_weight_def)
next
  case (3 stk pr top stk1 ni n i l k v b r s)
  then have "stk = (Nd l k v b r, i) # stk1"
    by (auto simp: stackPop_def opt_simps split: if_splits list.splits)
  with 3 iter_case_1_weight [of r stk1 s] show ?case
    by (auto simp: stack_weight_def)
next
  case (4 stk pr top stk1 ni n i l k v b r)
  then have "stk = (Nd l k v b r, i) # stk1"
    by (auto simp: stackPop_def opt_simps split: if_splits list.splits)
  with 4 show ?case by (auto simp: stack_weight_def)
qed

declare nextIter_loop.simps [simp del]

definition nextIterFM :: "WordFM \<Rightarrow> (WordFM \<times> (UWord \<times> UWord) option) option" where
  "nextIterFM fm =
     do { (s, kv) \<leftarrow> nextIter_loop (iterStack fm); Some (fm\<lparr>iterStack := s\<rparr>, kv) }"

definition doneIterFM :: "WordFM \<Rightarrow> WordFM" where
  "doneIterFM fm = fm"

text \<open>Returns the original map, whose iterator stack the code clears again, and the copy.\<close>

definition dopyFM :: "WordFM \<Rightarrow> (UWord \<Rightarrow> UWord) option \<Rightarrow> (UWord \<Rightarrow> UWord) option
    \<Rightarrow> (WordFM \<times> WordFM) option" where
  "dopyFM fm dopyK dopyV =
     do { vg_assert (iterStack fm = []);
          let nyu = fm in
          Some (fm\<lparr>iterStack := []\<rparr>,
                if root nyu \<noteq> Null then nyu\<lparr>root := avl_dopy dopyK dopyV (root nyu)\<rparr> else nyu) }"

end
