(* ===== verification/WordFM_Props.thy ===== *)
theory WordFM_Props
  imports WordFM
begin

text \<open>
  Correctness of the word map. The invariant is the AVL condition on the stored balance
  factors (\<open>avl\<close>) together with the order of the inorder list (\<open>ordered\<close>); both are kept by
  insertion and removal, no assertion fails, and the inorder list changes as a sorted
  association list does.
\<close>

section \<open>Invariant and abstraction\<close>

fun height :: "AvlNode \<Rightarrow> nat" where
  "height Null = 0"
| "height (Nd l k v b r) = Suc (max (height l) (height r))"

text \<open>The stored balance factor is the difference of the heights of the children.\<close>

definition bal_ok :: "int \<Rightarrow> nat \<Rightarrow> nat \<Rightarrow> bool" where
  "bal_ok b hl hr =
     (b = -1 \<and> hl = Suc hr \<or> b = 0 \<and> hl = hr \<or> b = 1 \<and> hr = Suc hl)"

fun avl :: "AvlNode \<Rightarrow> bool" where
  "avl Null = True"
| "avl (Nd l k v b r) = (bal_ok b (height l) (height r) \<and> avl l \<and> avl r)"

fun inorder :: "AvlNode \<Rightarrow> (UWord \<times> UWord) list" where
  "inorder Null = []"
| "inorder (Nd l k v b r) = inorder l @ (k, v) # inorder r"

definition ordered :: "('k \<Rightarrow> 'k \<Rightarrow> int) \<Rightarrow> ('k \<times> 'v) list \<Rightarrow> bool" where
  "ordered cmp xs = sorted_wrt (\<lambda>x y. cmp (fst x) (fst y) < 0) xs"

text \<open>Insertion into and lookup in an ordered association list.\<close>

fun ins_list :: "('k \<Rightarrow> 'k \<Rightarrow> int) \<Rightarrow> 'k \<Rightarrow> 'v \<Rightarrow> ('k \<times> 'v) list
    \<Rightarrow> ('k \<times> 'v) list" where
  "ins_list cmp k v [] = [(k, v)]"
| "ins_list cmp k v ((k', v') # xs) =
     (if cmp k' k < 0 then (k', v') # ins_list cmp k v xs
      else if cmp k' k = 0 then (k', v) # xs
      else (k, v) # (k', v') # xs)"

definition look_list :: "('k \<Rightarrow> 'k \<Rightarrow> int) \<Rightarrow> 'k \<Rightarrow> ('k \<times> 'v) list
    \<Rightarrow> ('k \<times> 'v) option" where
  "look_list cmp k xs = List.find (\<lambda>x. cmp (fst x) k = 0) xs"

definition del_list :: "('k \<Rightarrow> 'k \<Rightarrow> int) \<Rightarrow> 'k \<Rightarrow> ('k \<times> 'v) list
    \<Rightarrow> ('k \<times> 'v) list" where
  "del_list cmp k xs = filter (\<lambda>x. cmp (fst x) k \<noteq> 0) xs"

lemma look_list_SomeD: "look_list cmp k xs = Some x \<Longrightarrow> x \<in> set xs \<and> cmp (fst x) k = 0"
  by (induction xs) (auto simp: look_list_def split: if_splits)

section \<open>The rebalancing steps\<close>

lemma height_0 [simp]: "height t = 0 \<longleftrightarrow> t = Null"
  by (cases t) auto

lemma height_pos: "0 < height t \<longleftrightarrow> t \<noteq> Null"
  by (cases t) auto

lemma inorder_Null [simp]: "inorder t = [] \<longleftrightarrow> t = Null"
  by (cases t) auto

lemmas rot_simps = avl_nasty_def opt_simps Let_def

lemma bal_okE:
  assumes "bal_ok b hl hr"
  obtains (left) "b = -1" "hl = Suc hr" | (even) "b = 0" "hl = hr" | (right) "b = 1" "hr = Suc hl"
  using assms by (auto simp: bal_ok_def)

lemma bal_ok_simps [simp]:
  "bal_ok (-1) hl hr \<longleftrightarrow> hl = Suc hr" "bal_ok 0 hl hr \<longleftrightarrow> hl = hr" "bal_ok 1 hl hr \<longleftrightarrow> hr = Suc hl"
  by (auto simp: bal_ok_def)

lemma Nd_of_height: "height t = Suc n \<Longrightarrow> \<exists>l k v b r. t = Nd l k v b r"
  by (cases t) auto

text \<open>After the left subtree has grown by one the step restores the invariant and reports
  whether the whole tree has grown; the result of a growth is never balanced.\<close>

lemma grown_left:
  assumes "avl l" "avl r" "bal_ok bal hl (height r)" "height l = Suc hl"
    and "hl = 0 \<or> nd_balance l \<noteq> Some 0"
  shows "\<exists>t g. avl_grown_left l k v bal r = Some (t, g) \<and> avl t
     \<and> inorder t = inorder l @ (k, v) # inorder r
     \<and> height t = max hl (height r) + 1 + (if g then 1 else 0)
     \<and> (g \<longrightarrow> nd_balance t \<noteq> Some 0)"
  using assms(3)
proof (cases rule: bal_okE)
  case left
  obtain ll lk lv lb lr where l: "l = Nd ll lk lv lb lr"
    using Nd_of_height [OF assms(4)] by blast
  with assms(1) have "bal_ok lb (height ll) (height lr)" by simp
  then show ?thesis
  proof (cases rule: bal_okE)
    case left
    with \<open>bal = -1\<close> \<open>hl = Suc (height r)\<close> assms l show ?thesis
      by (auto simp: avl_grown_left_def)
  next
    case even
    with \<open>hl = Suc (height r)\<close> assms(5) l show ?thesis by simp
  next
    case right
    then obtain ml mk mv mb mr where lr: "lr = Nd ml mk mv mb mr"
      using Nd_of_height by blast
    then have "bal_ok mb (height ml) (height mr)" using assms(1) l by simp
    then show ?thesis
      using right \<open>bal = -1\<close> \<open>hl = Suc (height r)\<close> assms l lr
      by (cases rule: bal_okE) (auto simp: avl_grown_left_def rot_simps)
  qed
qed (use assms in \<open>auto simp: avl_grown_left_def\<close>)

lemma grown_right:
  assumes "avl l" "avl r" "bal_ok bal (height l) hr" "height r = Suc hr"
    and "hr = 0 \<or> nd_balance r \<noteq> Some 0"
  shows "\<exists>t g. avl_grown_right l k v bal r = Some (t, g) \<and> avl t
     \<and> inorder t = inorder l @ (k, v) # inorder r
     \<and> height t = max (height l) hr + 1 + (if g then 1 else 0)
     \<and> (g \<longrightarrow> nd_balance t \<noteq> Some 0)"
  using assms(3)
proof (cases rule: bal_okE)
  case right
  obtain rl rk rv rb rr where r: "r = Nd rl rk rv rb rr"
    using Nd_of_height [OF assms(4)] by blast
  with assms(2) have "bal_ok rb (height rl) (height rr)" by simp
  then show ?thesis
  proof (cases rule: bal_okE)
    case right
    with \<open>bal = 1\<close> \<open>hr = Suc (height l)\<close> assms r show ?thesis
      by (auto simp: avl_grown_right_def)
  next
    case even
    with \<open>hr = Suc (height l)\<close> assms(5) r show ?thesis by simp
  next
    case left
    then obtain ml mk mv mb mr where rl: "rl = Nd ml mk mv mb mr"
      using Nd_of_height by blast
    then have "bal_ok mb (height ml) (height mr)" using assms(2) r by simp
    then show ?thesis
      using left \<open>bal = 1\<close> \<open>hr = Suc (height l)\<close> assms r rl
      by (cases rule: bal_okE) (auto simp: avl_grown_right_def rot_simps)
  qed
qed (use assms in \<open>auto simp: avl_grown_right_def\<close>)

text \<open>After the left subtree has shrunk by one.\<close>

lemma shrunk_left:
  assumes "avl l" "avl r" "bal_ok bal (Suc (height l)) (height r)"
  shows "\<exists>t s. avl_shrunk_left l k v bal r = Some (t, s) \<and> avl t
     \<and> inorder t = inorder l @ (k, v) # inorder r
     \<and> height t + (if s then 1 else 0) = max (Suc (height l)) (height r) + 1"
  using assms(3)
proof (cases rule: bal_okE)
  case right
  then obtain rl rk rv rb rr where r: "r = Nd rl rk rv rb rr"
    using Nd_of_height by blast
  with assms(2) have "bal_ok rb (height rl) (height rr)" by simp
  then show ?thesis
  proof (cases rule: bal_okE)
    case left
    then obtain ml mk mv mb mr where rl: "rl = Nd ml mk mv mb mr"
      using Nd_of_height by blast
    then have "bal_ok mb (height ml) (height mr)" using assms(2) r by simp
    then show ?thesis
      using left right assms r rl
      by (cases rule: bal_okE) (auto simp: avl_shrunk_left_def rot_simps)
  qed (use right assms r in \<open>auto simp: avl_shrunk_left_def\<close>)
qed (use assms in \<open>auto simp: avl_shrunk_left_def\<close>)

lemma shrunk_right:
  assumes "avl l" "avl r" "bal_ok bal (height l) (Suc (height r))"
  shows "\<exists>t s. avl_shrunk_right l k v bal r = Some (t, s) \<and> avl t
     \<and> inorder t = inorder l @ (k, v) # inorder r
     \<and> height t + (if s then 1 else 0) = max (height l) (Suc (height r)) + 1"
  using assms(3)
proof (cases rule: bal_okE)
  case left
  then obtain ll lk lv lb lr where l: "l = Nd ll lk lv lb lr"
    using Nd_of_height by blast
  with assms(1) have "bal_ok lb (height ll) (height lr)" by simp
  then show ?thesis
  proof (cases rule: bal_okE)
    case right
    then obtain ml mk mv mb mr where lr: "lr = Nd ml mk mv mb mr"
      using Nd_of_height by blast
    then have "bal_ok mb (height ml) (height mr)" using assms(1) l by simp
    then show ?thesis
      using left right assms l lr
      by (cases rule: bal_okE) (auto simp: avl_shrunk_right_def rot_simps)
  qed (use left assms l in \<open>auto simp: avl_shrunk_right_def\<close>)
qed (use assms in \<open>auto simp: avl_shrunk_right_def\<close>)

section \<open>Ordered association lists\<close>

context comparator
begin

lemma ordered_append:
  "ordered cmp (xs @ ys) \<longleftrightarrow> ordered cmp xs \<and> ordered cmp ys
     \<and> (\<forall>x \<in> set xs. \<forall>y \<in> set ys. cmp (fst x) (fst y) < 0)"
  by (simp add: ordered_def sorted_wrt_append)

lemma ordered_Cons:
  "ordered cmp (x # xs) \<longleftrightarrow> ordered cmp xs \<and> (\<forall>y \<in> set xs. cmp (fst x) (fst y) < 0)"
  by (auto simp: ordered_def)

lemma ordered_Nil [simp]: "ordered cmp []"
  by (simp add: ordered_def)

lemma gt_flip: "cmp a b > 0 \<longleftrightarrow> cmp b a < 0"
  using cmp_antisym by blast

lemma ins_list_append_less:
  "\<forall>x \<in> set xs. cmp (fst x) k < 0 \<Longrightarrow> ins_list cmp k v (xs @ ys) = xs @ ins_list cmp k v ys"
  by (induction xs) auto

lemma ins_list_append_gt:
  "cmp (fst y) k > 0 \<Longrightarrow> ins_list cmp k v (xs @ y # ys) = ins_list cmp k v xs @ y # ys"
  by (induction xs; cases y) auto

lemma set_ins_list_keys: "fst ` set (ins_list cmp k v xs) \<subseteq> insert k (fst ` set xs)"
  by (induction xs) (force split: if_splits)+

lemma ordered_ins_list: "ordered cmp xs \<Longrightarrow> ordered cmp (ins_list cmp k v xs)"
proof (induction xs)
  case Nil
  then show ?case by (simp add: ordered_Cons)
next
  case (Cons x xs)
  obtain k' v' where x: "x = (k', v')" by fastforce
  have lt: "\<forall>y \<in> set xs. cmp k' (fst y) < 0" and o: "ordered cmp xs"
    using Cons.prems x by (auto simp: ordered_Cons)
  consider "cmp k' k < 0" | "cmp k' k = 0" | "cmp k' k > 0" by linarith
  then show ?case
  proof cases
    case 1
    have "\<forall>y \<in> set (ins_list cmp k v xs). cmp k' (fst y) < 0"
      using lt 1 set_ins_list_keys [of k v xs] by fastforce
    with 1 Cons o show ?thesis by (simp add: x ordered_Cons)
  next
    case 2
    with lt o show ?thesis by (simp add: x ordered_Cons)
  next
    case 3
    then have "cmp k k' < 0" by (simp add: gt_flip)
    with lt o show ?thesis
      using 3 cmp_less_trans [of k k'] by (auto simp: x ordered_Cons)
  qed
qed

lemma ordered_del_list: "ordered cmp xs \<Longrightarrow> ordered cmp (del_list cmp k xs)"
  by (simp add: ordered_def del_list_def sorted_wrt_filter)

lemma look_list_append:
  "look_list cmp k (xs @ ys) = (case look_list cmp k xs of None \<Rightarrow> look_list cmp k ys | Some x \<Rightarrow> Some x)"
  by (simp add: look_list_def find_append split: option.split)

lemma look_list_Nil [simp]: "look_list cmp k [] = None"
  by (simp add: look_list_def)

lemma look_list_Cons:
  "look_list cmp k (x # xs) = (if cmp (fst x) k = 0 then Some x else look_list cmp k xs)"
  by (simp add: look_list_def)

lemma look_list_less: "\<forall>x \<in> set xs. cmp (fst x) k < 0 \<Longrightarrow> look_list cmp k xs = None"
  by (force simp: look_list_def find_None_iff)

lemma look_list_gt: "\<forall>x \<in> set xs. cmp (fst x) k > 0 \<Longrightarrow> look_list cmp k xs = None"
  by (force simp: look_list_def find_None_iff)

lemma look_list_ins_list:
  assumes "ordered cmp xs"
  shows "look_list cmp q (ins_list cmp k v xs)
     = (if cmp k q = 0 then Some (case look_list cmp k xs of Some (k0, _) \<Rightarrow> (k0, v) | None \<Rightarrow> (k, v))
        else look_list cmp q xs)"
  using assms
proof (induction xs)
  case Nil
  then show ?case by (simp add: look_list_def)
next
  case (Cons x xs)
  obtain k' v' where x: "x = (k', v')" by fastforce
  have lt: "\<forall>y \<in> set xs. cmp k' (fst y) < 0" and IH: "look_list cmp q (ins_list cmp k v xs)
     = (if cmp k q = 0 then Some (case look_list cmp k xs of Some (k0, _) \<Rightarrow> (k0, v) | None \<Rightarrow> (k, v))
        else look_list cmp q xs)"
    using Cons by (auto simp: x ordered_Cons)
  consider "cmp k' k < 0" | "cmp k' k = 0" | "cmp k' k > 0" by linarith
  then show ?case
  proof cases
    case 1
    then have "cmp k q = 0 \<Longrightarrow> cmp k' q < 0" using cmp_less_le_trans [of k' k q] by simp
    with 1 IH show ?thesis by (auto simp: x look_list_def)
  next
    case 2
    then have "cmp k' q = 0 \<longleftrightarrow> cmp k q = 0"
      using cmp_zero_trans cmp_zero_sym by metis
    with 2 show ?thesis by (auto simp: x look_list_def)
  next
    case 3
    then have "cmp k k' < 0" by (simp add: gt_flip)
    then have "\<forall>y \<in> set xs. cmp k (fst y) < 0" using lt cmp_less_trans [of k k'] by auto
    then have "look_list cmp k xs = None"
      using 3 cmp_antisym by (fastforce simp: look_list_def find_None_iff)
    with 3 show ?thesis by (auto simp: x look_list_def)
  qed
qed

lemma look_list_del_list:
  "look_list cmp q (del_list cmp k xs) = (if cmp k q = 0 then None else look_list cmp q xs)"
proof -
  have "cmp k q = 0 \<Longrightarrow> cmp a q = 0 \<Longrightarrow> cmp a k = 0" for a
    using cmp_zero_trans cmp_zero_sym by metis
  moreover have "cmp a k = 0 \<Longrightarrow> cmp a q = 0 \<Longrightarrow> cmp k q = 0" for a
    using cmp_zero_trans cmp_zero_sym by metis
  ultimately show ?thesis
    by (induction xs) (auto simp: look_list_def del_list_def)
qed

end

section \<open>Insertion and removal\<close>

locale word_comparator = comparator cmp for cmp :: "UWord \<Rightarrow> UWord \<Rightarrow> int"
begin

lemma ordered_NdD:
  assumes "ordered cmp (inorder (Nd l k v b r))"
  shows "ordered cmp (inorder l)" "ordered cmp (inorder r)"
    "\<forall>x \<in> set (inorder l). cmp (fst x) k < 0" "\<forall>x \<in> set (inorder r). cmp k (fst x) < 0"
  using assms by (auto simp: ordered_append ordered_Cons)

lemma insert_correct:
  assumes "avl t" "ordered cmp (inorder t)"
  shows "\<exists>t' old g. avl_insert_wrk cmp t k v = Some (t', old, g) \<and> avl t'
     \<and> inorder t' = ins_list cmp k v (inorder t)
     \<and> old = map_option snd (look_list cmp k (inorder t))
     \<and> height t' = height t + (if g then 1 else 0)
     \<and> (g \<longrightarrow> t \<noteq> Null \<longrightarrow> nd_balance t' \<noteq> Some 0)"
  using assms
proof (induction t)
  case Null
  then show ?case by (auto simp: look_list_def)
next
  case (Nd l nk nv bal r)
  note o = ordered_NdD [OF Nd.prems(2)]
  have a: "avl l" "avl r" "bal_ok bal (height l) (height r)" using Nd.prems(1) by auto
  consider "cmp nk k > 0" | "cmp nk k < 0" | "cmp nk k = 0" by linarith
  then show ?case
  proof cases
    case 1
    then have kn: "cmp k nk < 0" by (simp add: gt_flip)
    have "\<forall>x \<in> set (inorder r). cmp (fst x) k > 0"
      using o(4) kn cmp_less_trans by (fastforce simp: gt_flip)
    then have lk: "look_list cmp k (inorder (Nd l nk nv bal r)) = look_list cmp k (inorder l)"
      using 1 by (simp add: look_list_append look_list_Cons look_list_gt split: option.split)
    have ins: "ins_list cmp k v (inorder (Nd l nk nv bal r))
        = ins_list cmp k v (inorder l) @ (nk, nv) # inorder r"
      using 1 by (simp add: ins_list_append_gt)
    obtain l' old g where l': "avl_insert_wrk cmp l k v = Some (l', old, g)" "avl l'"
      "inorder l' = ins_list cmp k v (inorder l)" "old = map_option snd (look_list cmp k (inorder l))"
      "height l' = height l + (if g then 1 else 0)"
      "g \<longrightarrow> l \<noteq> Null \<longrightarrow> nd_balance l' \<noteq> Some 0"
      using Nd.IH(1) [OF a(1) o(1)] by blast
    show ?thesis
    proof (cases "l = Null")
      case True
      with 1 a ins lk l'(3,4) show ?thesis by (auto simp: bal_ok_def)
    next
      case False
      show ?thesis
      proof (cases g)
        case True
        obtain t g' where t: "avl_grown_left l' nk nv bal r = Some (t, g')" "avl t"
          "inorder t = inorder l' @ (nk, nv) # inorder r"
          "height t = max (height l) (height r) + 1 + (if g' then 1 else 0)"
          "g' \<longrightarrow> nd_balance t \<noteq> Some 0"
          using grown_left [of l' r bal "height l" nk nv] l'(2,5,6) a(2,3) True False
          by auto
        have "avl_insert_wrk cmp (Nd l nk nv bal r) k v = Some (t, old, g')"
          using 1 False True l'(1) t(1) by simp
        then show ?thesis
          using t l' ins lk by (intro exI [of _ t] exI [of _ old] exI [of _ g'] conjI) auto
      next
        case ng: False
        with 1 False a l' ins lk show ?thesis by auto
      qed
    qed
  next
    case 2
    have ll: "\<forall>x \<in> set (inorder l). cmp (fst x) k < 0"
      using o(3) 2 cmp_less_trans by blast
    then have lk: "look_list cmp k (inorder (Nd l nk nv bal r)) = look_list cmp k (inorder r)"
      using 2 by (simp add: look_list_append look_list_Cons look_list_less)
    have ins: "ins_list cmp k v (inorder (Nd l nk nv bal r))
        = inorder l @ (nk, nv) # ins_list cmp k v (inorder r)"
      using 2 ll by (simp add: ins_list_append_less)
    obtain r' old g where r': "avl_insert_wrk cmp r k v = Some (r', old, g)" "avl r'"
      "inorder r' = ins_list cmp k v (inorder r)" "old = map_option snd (look_list cmp k (inorder r))"
      "height r' = height r + (if g then 1 else 0)"
      "g \<longrightarrow> r \<noteq> Null \<longrightarrow> nd_balance r' \<noteq> Some 0"
      using Nd.IH(2) [OF a(2) o(2)] by blast
    show ?thesis
    proof (cases "r = Null")
      case True
      with 2 a ins lk r'(3,4) show ?thesis by (auto simp: bal_ok_def)
    next
      case False
      show ?thesis
      proof (cases g)
        case True
        obtain t g' where t: "avl_grown_right l nk nv bal r' = Some (t, g')" "avl t"
          "inorder t = inorder l @ (nk, nv) # inorder r'"
          "height t = max (height l) (height r) + 1 + (if g' then 1 else 0)"
          "g' \<longrightarrow> nd_balance t \<noteq> Some 0"
          using grown_right [of l r' bal "height r" nk nv] r'(2,5,6) a(1,3) True False
          by auto
        have "avl_insert_wrk cmp (Nd l nk nv bal r) k v = Some (t, old, g')"
          using 2 False True r'(1) t(1) by simp
        then show ?thesis
          using t r' ins lk by (intro exI [of _ t] exI [of _ old] exI [of _ g'] conjI) auto
      next
        case ng: False
        with 2 False a r' ins lk show ?thesis by auto
      qed
    qed
  next
    case 3
    have ll: "\<forall>x \<in> set (inorder l). cmp (fst x) k < 0"
      using o(3) 3 cmp_less_le_trans by fastforce
    with 3 have "look_list cmp k (inorder (Nd l nk nv bal r)) = Some (nk, nv)"
      by (simp add: look_list_append look_list_Cons look_list_less)
    moreover have "ins_list cmp k v (inorder (Nd l nk nv bal r)) = inorder l @ (nk, v) # inorder r"
      using 3 ll by (simp add: ins_list_append_less)
    ultimately show ?thesis using 3 a by auto
  qed
qed

text \<open>Removal.\<close>

lemma del_list_append: "del_list cmp k (xs @ ys) = del_list cmp k xs @ del_list cmp k ys"
  by (simp add: del_list_def)

lemma del_list_less: "\<forall>x \<in> set xs. cmp (fst x) k < 0 \<Longrightarrow> del_list cmp k xs = xs"
  by (auto simp: del_list_def filter_id_conv)

lemma del_list_gt: "\<forall>x \<in> set xs. cmp k (fst x) < 0 \<Longrightarrow> del_list cmp k xs = xs"
  using cmp_antisym by (fastforce simp: del_list_def filter_id_conv)

lemma node_at_mem: "node_at t p = Some kv \<Longrightarrow> kv \<in> set (inorder t)"
  by (induction t p rule: node_at.induct) auto

lemma node_at_rightmost: "t \<noteq> Null \<Longrightarrow> node_at t (rightmost t) = Some (last (inorder t))"
  by (induction t rule: rightmost.induct) auto

lemma node_at_leftmost: "t \<noteq> Null \<Longrightarrow> node_at t (leftmost t) = Some (hd (inorder t))"
  by (induction t rule: leftmost.induct) auto

lemma remove_left_step:
  assumes "avl (Nd l k v bal r)" "cmp k ak > 0" "l \<noteq> Null"
    and "avl_remove_wrk cmp l (Some q) ak = Some (l', ch)" "avl l'"
    and "height l' + (if ch then 1 else 0) = height l"
  shows "\<exists>t s. avl_remove_wrk cmp (Nd l k v bal r) (Some (False # q)) ak = Some (t, s) \<and> avl t
     \<and> inorder t = inorder l' @ (k, v) # inorder r
     \<and> height t + (if s then 1 else 0) = height (Nd l k v bal r)
     \<and> (bal \<noteq> 1 \<longrightarrow> t = Nd l' k v (if ch then bal + 1 else bal) r \<and> s = (ch \<and> bal = -1))"
proof (cases ch)
  case True
  then have "bal_ok bal (Suc (height l')) (height r)" using assms by simp
  then obtain t s where ts: "avl_shrunk_left l' k v bal r = Some (t, s)" "avl t"
    "inorder t = inorder l' @ (k, v) # inorder r"
    "height t + (if s then 1 else 0) = max (Suc (height l')) (height r) + 1"
    using shrunk_left [of l' r bal] assms by force
  moreover have "bal \<noteq> 1 \<longrightarrow> t = Nd l' k v (bal + 1) r \<and> s = (bal = -1)"
    using ts(1) assms(1) by (auto simp: avl_shrunk_left_def bal_ok_def)
  ultimately show ?thesis using True assms by (auto simp: path_step_def)
next
  case False
  then show ?thesis using assms by (auto simp: path_step_def)
qed

lemma remove_right_step:
  assumes "avl (Nd l k v bal r)" "cmp k ak < 0" "r \<noteq> Null"
    and "avl_remove_wrk cmp r (Some q) ak = Some (r', ch)" "avl r'"
    and "height r' + (if ch then 1 else 0) = height r"
  shows "\<exists>t s. avl_remove_wrk cmp (Nd l k v bal r) (Some (True # q)) ak = Some (t, s) \<and> avl t
     \<and> inorder t = inorder l @ (k, v) # inorder r'
     \<and> height t + (if s then 1 else 0) = height (Nd l k v bal r)
     \<and> (bal \<noteq> -1 \<longrightarrow> t = Nd l k v (if ch then bal - 1 else bal) r' \<and> s = (ch \<and> bal = 1))"
proof (cases ch)
  case True
  then have "bal_ok bal (height l) (Suc (height r'))" using assms by simp
  then obtain t s where ts: "avl_shrunk_right l k v bal r' = Some (t, s)" "avl t"
    "inorder t = inorder l @ (k, v) # inorder r'"
    "height t + (if s then 1 else 0) = max (height l) (Suc (height r')) + 1"
    using shrunk_right [of l r' bal] assms by force
  moreover have "bal \<noteq> -1 \<longrightarrow> t = Nd l k v (bal - 1) r' \<and> s = (bal = 1)"
    using ts(1) assms(1) by (auto simp: avl_shrunk_right_def bal_ok_def)
  ultimately show ?thesis using True assms by (auto simp: path_step_def)
next
  case False
  then show ?thesis using assms by (auto simp: path_step_def)
qed

text \<open>What removing the node at \<open>p\<close> means, for a given tree.\<close>

definition removes :: "AvlNode \<Rightarrow> path \<Rightarrow> UWord \<Rightarrow> bool" where
  "removes t p ak \<longleftrightarrow> (\<exists>t' s. avl_remove_wrk cmp t (Some p) ak = Some (t', s) \<and> avl t'
     \<and> inorder t' = del_list cmp ak (inorder t)
     \<and> height t' + (if s then 1 else 0) = height t)"

lemma removeroot_correct:
  assumes "avl (Nd l k v bal r)" "ordered cmp (inorder (Nd l k v bal r))"
    and IHl: "\<And>q ak av. node_at l q = Some (ak, av) \<Longrightarrow> removes l q ak"
    and IHr: "\<And>q ak av. node_at r q = Some (ak, av) \<Longrightarrow> removes r q ak"
  shows "\<exists>t' s. avl_removeroot_wrk cmp (Nd l k v bal r) = Some (t', s) \<and> avl t'
     \<and> inorder t' = inorder l @ inorder r
     \<and> height t' + (if s then 1 else 0) = height (Nd l k v bal r)"
proof -
  note o = ordered_NdD [OF assms(2)]
  consider "l = Null" | "l \<noteq> Null" "r = Null" | "l \<noteq> Null" "r \<noteq> Null" "bal < 0"
    | "l \<noteq> Null" "r \<noteq> Null" "bal \<ge> 0" by linarith
  then show ?thesis
  proof cases
    case 1
    then show ?thesis using assms(1) by (cases "r = Null") auto
  next
    case 2
    then show ?thesis using assms(1) by auto
  next
    case 3
    then have b: "bal = -1" using assms(1) by (auto simp: bal_ok_def)
    obtain ak av where kv: "node_at l (rightmost l) = Some (ak, av)" "last (inorder l) = (ak, av)"
      using node_at_rightmost [of l] 3 by (cases "last (inorder l)") auto
    have split: "inorder l = butlast (inorder l) @ [(ak, av)]"
      using 3 kv by (metis append_butlast_last_id inorder_Null)
    have gt: "cmp k ak > 0" using o(3) node_at_mem [OF kv(1)] by (auto simp: gt_flip)
    have "del_list cmp ak (inorder l) = butlast (inorder l)"
    proof -
      have "ordered cmp (butlast (inorder l) @ [(ak, av)])" using o(1) split by simp
      then have "\<forall>x \<in> set (butlast (inorder l)). cmp (fst x) ak < 0" by (simp add: ordered_append)
      then show ?thesis by (subst split) (simp add: del_list_append del_list_less, simp add: del_list_def)
    qed
    then obtain l' ch where l': "avl_remove_wrk cmp l (Some (rightmost l)) ak = Some (l', ch)" "avl l'"
      "inorder l' = butlast (inorder l)" "height l' + (if ch then 1 else 0) = height l"
      using IHl [OF kv(1)] by (auto simp: removes_def)
    from remove_left_step [OF assms(1) gt 3(1) l'(1,2,4)] b
    have "avl_remove_wrk cmp (Nd l k v bal r) (Some (False # rightmost l)) ak
        = Some (Nd l' k v (if ch then 0 else -1) r, ch)"
      by (auto simp del: avl_remove_wrk.simps)
    with 3 b kv(1) l' assms(1) split show ?thesis by (auto simp del: avl_remove_wrk.simps)
  next
    case 4
    then have b: "bal = 0 \<or> bal = 1" using assms(1) by (auto simp: bal_ok_def)
    obtain ak av where kv: "node_at r (leftmost r) = Some (ak, av)" "hd (inorder r) = (ak, av)"
      using node_at_leftmost [of r] 4 by (cases "hd (inorder r)") auto
    have split: "inorder r = (ak, av) # tl (inorder r)"
      using 4 kv by (metis list.collapse inorder_Null)
    have lt: "cmp k ak < 0" using o(4) node_at_mem [OF kv(1)] by auto
    have "del_list cmp ak (inorder r) = tl (inorder r)"
    proof -
      have "ordered cmp ((ak, av) # tl (inorder r))" using o(2) split by simp
      then have "\<forall>x \<in> set (tl (inorder r)). cmp ak (fst x) < 0" by (simp add: ordered_Cons)
      then have "del_list cmp ak (tl (inorder r)) = tl (inorder r)" by (rule del_list_gt)
      then show ?thesis by (subst split) (simp add: del_list_def)
    qed
    then obtain r' ch where r': "avl_remove_wrk cmp r (Some (leftmost r)) ak = Some (r', ch)" "avl r'"
      "inorder r' = tl (inorder r)" "height r' + (if ch then 1 else 0) = height r"
      using IHr [OF kv(1)] by (auto simp: removes_def)
    from remove_right_step [OF assms(1) lt 4(2) r'(1,2,4)] b
    have "avl_remove_wrk cmp (Nd l k v bal r) (Some (True # leftmost r)) ak
        = Some (Nd l k v (if ch then bal - 1 else bal) r', ch \<and> bal = 1)"
      by (auto simp del: avl_remove_wrk.simps)
    with 4 b kv(1) r' assms(1) split show ?thesis
      by (cases ch) (auto simp del: avl_remove_wrk.simps)
  qed
qed

lemma remove_correct:
  assumes "avl t" "ordered cmp (inorder t)" "node_at t p = Some (ak, av)"
  shows "removes t p ak"
  using assms
proof (induction "size t" arbitrary: t p ak av rule: less_induct)
  case less
  obtain l k v bal r where t: "t = Nd l k v bal r" using less.prems(3) by (cases t) auto
  note o = ordered_NdD [OF less.prems(2) [unfolded t]]
  have av: "avl l" "avl r" using less.prems(1) t by auto
  have IHl: "removes l q ak'" if "node_at l q = Some (ak', av')" for q ak' av'
    using less.hyps [OF _ av(1) o(1) that] t by simp
  have IHr: "removes r q ak'" if "node_at r q = Some (ak', av')" for q ak' av'
    using less.hyps [OF _ av(2) o(2) that] t by simp
  consider "p = []" | q where "p = False # q" | q where "p = True # q"
    by (metis (full_types) list.exhaust)
  then show ?case
  proof cases
    case 1
    then have k: "ak = k" using less.prems(3) t by simp
    have "del_list cmp k (inorder t) = inorder l @ inorder r"
      using o by (simp add: t del_list_append del_list_less)
         (simp add: del_list_def filter_id_conv, use cmp_antisym in fastforce)
    with removeroot_correct [OF less.prems(1,2) [unfolded t] IHl IHr] 1 k t
    show ?thesis by (auto simp: removes_def)
  next
    case 2
    then have nl: "node_at l q = Some (ak, av)" using less.prems(3) t by simp
    have gt: "cmp k ak > 0" using o(3) node_at_mem [OF nl] by (auto simp: gt_flip)
    have ne: "l \<noteq> Null" using nl by auto
    have "\<forall>x \<in> set (inorder r). cmp ak (fst x) < 0"
      using o(4) gt cmp_less_trans by (fastforce simp: gt_flip)
    then have "del_list cmp ak (inorder t) = del_list cmp ak (inorder l) @ (k, v) # inorder r"
      using gt by (simp add: t del_list_append) (simp add: del_list_def filter_id_conv, use cmp_antisym in fastforce)
    then show ?thesis
      using IHl [OF nl] remove_left_step [OF less.prems(1) [unfolded t] gt ne] 2 t
      unfolding removes_def by metis
  next
    case 3
    then have nr: "node_at r q = Some (ak, av)" using less.prems(3) t by simp
    have lt: "cmp k ak < 0" using o(4) node_at_mem [OF nr] by auto
    have ne: "r \<noteq> Null" using nr by auto
    have "\<forall>x \<in> set (inorder l). cmp (fst x) ak < 0"
      using o(3) lt cmp_less_trans by blast
    then have "del_list cmp ak (inorder t) = inorder l @ (k, v) # del_list cmp ak (inorder r)"
      using lt by (simp add: t del_list_append del_list_less) (simp add: del_list_def)
    then show ?thesis
      using IHr [OF nr] remove_right_step [OF less.prems(1) [unfolded t] lt ne] 3 t
      unfolding removes_def by metis
  qed
qed

text \<open>Why it is enough for \<open>avl_insert_wrk\<close> not to write a grown subtree back: its root is the
  same node as before.\<close>

lemma insert_grown_same_root:
  "avl_insert_wrk cmp (Nd l k v b r) ak av = Some (t', old, True)
     \<Longrightarrow> \<exists>l' b' r'. t' = Nd l' k v b' r'"
  by (auto simp: Let_def avl_grown_left_def avl_grown_right_def rot_simps
      split: if_splits option.splits prod.splits elim!: bind_SomeE)

lemma find_bounds_correct:
  "ordered cmp (inorder t) \<Longrightarrow> avl_find_bounds cmp t lower upper key
     = (if look_list cmp key (inorder t) = None
        then Some (last (lower # filter (\<lambda>x. cmp (fst x) key < 0) (inorder t)),
                   hd (filter (\<lambda>x. cmp (fst x) key > 0) (inorder t) @ [upper]))
        else None)"
proof (induction t arbitrary: lower upper)
  case Null
  then show ?case by simp
next
  case (Nd l k v b r)
  note o = ordered_NdD [OF Nd.prems]
  consider "cmp k key < 0" | "cmp k key > 0" | "cmp k key = 0" by linarith
  then show ?case
  proof cases
    case 1
    then have lt: "\<forall>x \<in> set (inorder l). cmp (fst x) key < 0" using o(3) cmp_less_trans by blast
    then have "filter (\<lambda>x. cmp (fst x) key > 0) (inorder l) = []"
      by (force simp: filter_empty_conv)
    with 1 lt Nd.IH(2) [OF o(2)] show ?thesis
      by (simp add: look_list_append look_list_Cons look_list_less filter_id_conv)
  next
    case 2
    have gt: "\<forall>x \<in> set (inorder r). cmp (fst x) key > 0"
      using o(4) 2 cmp_less_trans by (fastforce simp: gt_flip)
    then have "filter (\<lambda>x. cmp (fst x) key < 0) (inorder r) = []"
      by (force simp: filter_empty_conv)
    with 2 gt Nd.IH(1) [OF o(1)] show ?thesis
      by (cases "filter (\<lambda>x. 0 < cmp (fst x) key) (inorder l)")
         (simp_all add: look_list_append look_list_Cons look_list_gt split: option.split)
  next
    case 3
    then show ?thesis by (simp add: look_list_append look_list_Cons split: option.split)
  qed
qed

end

section \<open>The comparison of a map\<close>

lemma cmp_unsigned_comparator: "comparator cmp_unsigned_Words"
  by unfold_locales (auto simp: cmp_unsigned_Words_def split: if_splits)

interpretation unsigned: word_comparator cmp_unsigned_Words
  by (intro word_comparator.intro cmp_unsigned_comparator)

lemma kcmp_res_None [simp]: "kcmp_res None = cmp_unsigned_Words"
  by (simp add: kcmp_res_def fun_eq_iff)

lemma kcmp_res_range: "- (2 ^ 63) \<le> kcmp_res c a b \<and> kcmp_res c a b < 2 ^ 63"
proof (cases c)
  case None
  then show ?thesis by (simp add: cmp_unsigned_Words_def)
next
  case (Some f)
  then show ?thesis
    using sint_ge [of "f a b"] sint_lt [of "f a b"] by (simp add: kcmp_res_def)
qed

text \<open>The shift by 63 that turns a negative comparison result into the child index 1.\<close>

lemma sign_bit_index:
  assumes "- (2 ^ 63) \<le> c" "c < 2 ^ 63"
  shows "drop_bit 63 (word_of_int c :: 64 word) = (if c < 0 then 1 else 0)"
proof -
  have c: "c = sint (word_of_int c :: 64 word)"
    using assms by (simp add: sint_sbintrunc' signed_take_bit_int_eq_self)
  have "bit (word_of_int c :: 64 word) 63 \<longleftrightarrow> c < 0"
    by (subst (2) c) (use bit_last_iff [of "word_of_int c :: 64 word"] in simp)
  moreover have "drop_bit 63 w = (if bit w 63 then 1 else 0)" for w :: "64 word"
  proof (rule bit_word_eqI)
    fix n
    show "bit (drop_bit 63 w) n = bit (if bit w 63 then 1 else 0 :: 64 word) n"
      by (cases n) (auto simp: bit_drop_bit_eq bit_1_iff dest: bit_imp_le_length)
  qed
  ultimately show ?thesis by simp
qed

lemma find_node_eq:
  "avl_find_node c (Nd l tk tv b r) k =
     (if kcmp_res c tk k > 0 then map_option (\<lambda>(p, kv). (False # p, kv)) (avl_find_node c l k)
      else if kcmp_res c tk k < 0 then map_option (\<lambda>(p, kv). (True # p, kv)) (avl_find_node c r k)
      else Some ([], tk, tv))"
proof (cases c)
  case None
  have "drop_bit 63 (word_of_int (cmp_unsigned_Words tk k) :: 64 word)
      = (if cmp_unsigned_Words tk k < 0 then 1 else 0)"
    by (rule sign_bit_index) (simp_all add: cmp_unsigned_Words_def)
  with None show ?thesis by (simp add: Let_def)
next
  case (Some f)
  then show ?thesis by (simp add: Let_def kcmp_res_def)
qed

declare avl_find_node.simps(2) [simp del]

lemma find_node_at: "avl_find_node c t k = Some (p, kv) \<Longrightarrow> node_at t p = Some kv"
  by (induction t arbitrary: p) (auto simp: find_node_eq split: if_splits)

lemma find_node_look:
  assumes "comparator (kcmp_res c)" "ordered (kcmp_res c) (inorder t)"
  shows "map_option snd (avl_find_node c t k) = look_list (kcmp_res c) k (inorder t)"
  using assms(2)
proof (induction t)
  case Null
  then show ?case by (simp add: look_list_def)
next
  case (Nd l tk tv b r)
  have wc: "word_comparator (kcmp_res c)" using assms(1) by (simp add: word_comparator_def)
  note o = word_comparator.ordered_NdD [OF wc Nd.prems]
  note lk = comparator.look_list_append [OF assms(1)] comparator.look_list_Cons [OF assms(1)]
    comparator.look_list_less [OF assms(1)] comparator.look_list_gt [OF assms(1)]
  consider "kcmp_res c tk k > 0" | "kcmp_res c tk k < 0" | "kcmp_res c tk k = 0" by linarith
  then show ?case
  proof cases
    case 1
    have "\<forall>x \<in> set (inorder r). kcmp_res c (fst x) k > 0"
      using o(4) 1 comparator.cmp_less_trans [OF assms(1)] comparator.gt_flip [OF assms(1)] by blast
    with 1 Nd.IH(1) [OF o(1)] show ?thesis
      by (auto simp: find_node_eq lk option.map_comp comp_def case_prod_beta split: option.split)
  next
    case 2
    then have "\<forall>x \<in> set (inorder l). kcmp_res c (fst x) k < 0"
      using o(3) comparator.cmp_less_trans [OF assms(1)] by blast
    with 2 Nd.IH(2) [OF o(2)] show ?thesis
      by (auto simp: find_node_eq lk option.map_comp comp_def case_prod_beta)
  next
    case 3
    then have "\<forall>x \<in> set (inorder l). kcmp_res c (fst x) k < 0"
      using o(3) comparator.cmp_less_le_trans [OF assms(1)] by fastforce
    with 3 show ?thesis by (simp add: find_node_eq lk)
  qed
qed

section \<open>The public operations\<close>

definition fm_list :: "WordFM \<Rightarrow> (UWord \<times> UWord) list" where
  "fm_list fm = inorder (root fm)"

definition fm_ok :: "WordFM \<Rightarrow> bool" where
  "fm_ok fm = (comparator (fm_cmp fm) \<and> avl (root fm) \<and> ordered (fm_cmp fm) (fm_list fm))"

lemma fm_cmp_root [simp]: "fm_cmp (fm\<lparr>root := t\<rparr>) = fm_cmp fm" "fm_cmp (fm\<lparr>iterStack := s\<rparr>) = fm_cmp fm"
  by (simp_all add: fm_cmp_def)

lemma fm_list_iter [simp]: "fm_list (fm\<lparr>iterStack := s\<rparr>) = fm_list fm"
  by (simp add: fm_list_def)

lemma fm_ok_iter [simp]: "fm_ok (fm\<lparr>iterStack := s\<rparr>) = fm_ok fm"
  by (simp add: fm_ok_def)

lemma fm_ok_wc: "fm_ok fm \<Longrightarrow> word_comparator (fm_cmp fm)"
  by (simp add: fm_ok_def word_comparator_def)

lemma fm_ok_comparator: "fm_ok fm \<Longrightarrow> comparator (fm_cmp fm)"
  by (simp add: fm_ok_def)

lemma lookupFM_list: "fm_ok fm \<Longrightarrow> lookupFM fm k = look_list (fm_cmp fm) k (fm_list fm)"
  by (simp add: lookupFM_def fm_ok_def fm_cmp_def fm_list_def find_node_look)

lemma addToFM_list:
  assumes "fm_ok fm"
  shows "\<exists>t. addToFM fm k v = Some (fm\<lparr>root := t\<rparr>, lookupFM fm k \<noteq> None) \<and> fm_ok (fm\<lparr>root := t\<rparr>)
     \<and> fm_list (fm\<lparr>root := t\<rparr>) = ins_list (fm_cmp fm) k v (fm_list fm)"
proof -
  have "avl (root fm)" "ordered (fm_cmp fm) (inorder (root fm))"
    using assms by (simp_all add: fm_ok_def fm_list_def)
  from word_comparator.insert_correct [OF fm_ok_wc [OF assms] this, of k v]
  obtain t old g where t: "avl_insert_wrk (fm_cmp fm) (root fm) k v = Some (t, old, g)" "avl t"
    "inorder t = ins_list (fm_cmp fm) k v (fm_list fm)"
    "old = map_option snd (look_list (fm_cmp fm) k (fm_list fm))"
    unfolding fm_list_def by blast
  moreover have "ordered (fm_cmp fm) (inorder t)"
    unfolding t(3)
    by (rule comparator.ordered_ins_list [OF fm_ok_comparator [OF assms]])
       (use assms in \<open>simp add: fm_ok_def\<close>)
  ultimately show ?thesis
    using assms by (intro exI [of _ t]) (auto simp: addToFM_def lookupFM_list fm_ok_def fm_list_def)
qed

lemma delFromFM_list:
  assumes "fm_ok fm"
  shows "\<exists>t. delFromFM fm k = Some (fm\<lparr>root := t\<rparr>, lookupFM fm k) \<and> fm_ok (fm\<lparr>root := t\<rparr>)
     \<and> fm_list (fm\<lparr>root := t\<rparr>) = del_list (fm_cmp fm) k (fm_list fm)"
proof (cases "avl_find_node (kCmp fm) (root fm) k")
  case None
  then have "look_list (fm_cmp fm) k (fm_list fm) = None"
    using assms by (simp flip: lookupFM_list add: lookupFM_def)
  then have "del_list (fm_cmp fm) k (fm_list fm) = fm_list fm"
    by (auto simp: look_list_def del_list_def find_None_iff filter_id_conv)
  with None assms show ?thesis
    by (intro exI [of _ "root fm"]) (simp add: delFromFM_def lookupFM_def)
next
  case (Some x)
  then obtain p nk nv where f: "avl_find_node (kCmp fm) (root fm) k = Some (p, nk, nv)"
    by (cases x) auto
  have at: "node_at (root fm) p = Some (nk, nv)" by (rule find_node_at [OF f])
  have av: "avl (root fm)" "ordered (fm_cmp fm) (inorder (root fm))"
    using assms by (simp_all add: fm_ok_def fm_list_def)
  have lk: "look_list (fm_cmp fm) k (fm_list fm) = Some (nk, nv)"
    using f assms by (simp flip: lookupFM_list add: lookupFM_def)
  then have z: "fm_cmp fm nk k = 0" by (auto dest: look_list_SomeD)
  have same: "fm_cmp fm a nk = 0 \<longleftrightarrow> fm_cmp fm a k = 0" for a
    using z comparator.cmp_zero_trans [OF fm_ok_comparator [OF assms]]
      comparator.cmp_zero_sym [OF fm_ok_comparator [OF assms]] by metis
  obtain t b where t: "avl_remove_wrk (fm_cmp fm) (root fm) (Some p) nk = Some (t, b)" "avl t"
    "inorder t = del_list (fm_cmp fm) nk (fm_list fm)"
    using word_comparator.remove_correct [OF fm_ok_wc [OF assms] av at]
    by (auto simp: word_comparator.removes_def [OF fm_ok_wc [OF assms]] fm_list_def)
  moreover have "del_list (fm_cmp fm) nk (fm_list fm) = del_list (fm_cmp fm) k (fm_list fm)"
    by (simp add: del_list_def same)
  moreover have "ordered (fm_cmp fm) (inorder t)"
    unfolding t(3)
    by (rule comparator.ordered_del_list [OF fm_ok_comparator [OF assms]])
       (use assms in \<open>simp add: fm_ok_def\<close>)
  ultimately show ?thesis
    using assms f by (intro exI [of _ t]) (auto simp: delFromFM_def lookupFM_def fm_ok_def fm_list_def)
qed

lemma newFM_ok: "comparator (kcmp_res c) \<Longrightarrow> fm_ok (newFM c)"
  by (simp add: newFM_def initFM_def fm_ok_def fm_cmp_def fm_list_def comparator.ordered_Nil)

lemma newFM_list [simp]: "fm_list (newFM c) = []"
  by (simp add: newFM_def initFM_def fm_list_def)

text \<open>With no \<open>kCmp\<close> the map is a word map in the sense of the interface.\<close>

definition fm_look :: "WordFM \<Rightarrow> UWord \<Rightarrow> UWord option" where
  "fm_look fm k = map_option snd (lookupFM fm k)"

definition fm_del :: "WordFM \<Rightarrow> UWord \<Rightarrow> (WordFM \<times> UWord option) option" where
  "fm_del fm k = map_option (\<lambda>(m, kv). (m, map_option snd kv)) (delFromFM fm k)"

definition fm_plain :: "WordFM \<Rightarrow> bool" where
  "fm_plain fm = (kCmp fm = None \<and> fm_ok fm)"

lemma cmp_unsigned_zero [simp]: "cmp_unsigned_Words a b = 0 \<longleftrightarrow> a = b"
  by (auto simp: cmp_unsigned_Words_def)

lemma fm_plain_cmp: "fm_plain fm \<Longrightarrow> fm_cmp fm = cmp_unsigned_Words"
  by (simp add: fm_plain_def fm_cmp_def)

lemma look_unsigned_key: "look_list cmp_unsigned_Words k xs = Some (k', v) \<Longrightarrow> k' = k"
  by (drule look_list_SomeD) simp

lemma look_ins_unsigned:
  "ordered cmp_unsigned_Words xs \<Longrightarrow>
   look_list cmp_unsigned_Words q (ins_list cmp_unsigned_Words k v xs)
     = (if k = q then Some (k, v) else look_list cmp_unsigned_Words q xs)"
  by (auto simp: unsigned.look_list_ins_list dest: look_unsigned_key split: option.splits)

interpretation fm: word_map fm_plain fm_look addToFM fm_del
proof (unfold_locales, goal_cases)
  case (1 m k v)
  then have ok: "fm_ok m" and c: "fm_cmp m = cmp_unsigned_Words"
    by (simp_all add: fm_plain_def fm_cmp_def)
  have o: "ordered cmp_unsigned_Words (fm_list m)" using ok c by (simp add: fm_ok_def)
  obtain t where t: "addToFM m k v = Some (m\<lparr>root := t\<rparr>, lookupFM m k \<noteq> None)"
    "fm_ok (m\<lparr>root := t\<rparr>)" "fm_list (m\<lparr>root := t\<rparr>) = ins_list cmp_unsigned_Words k v (fm_list m)"
    using addToFM_list [OF ok, of k v] c by auto
  have "fm_look (m\<lparr>root := t\<rparr>) = (fm_look m)(k \<mapsto> v)"
    using t ok c o by (auto simp: fm_look_def lookupFM_list look_ins_unsigned)
  with t 1 show ?case by (auto simp: fm_plain_def fm_look_def)
next
  case (2 m k)
  then have ok: "fm_ok m" and c: "fm_cmp m = cmp_unsigned_Words"
    by (simp_all add: fm_plain_def fm_cmp_def)
  obtain t where t: "delFromFM m k = Some (m\<lparr>root := t\<rparr>, lookupFM m k)"
    "fm_ok (m\<lparr>root := t\<rparr>)" "fm_list (m\<lparr>root := t\<rparr>) = del_list cmp_unsigned_Words k (fm_list m)"
    using delFromFM_list [OF ok, of k] c by auto
  have "fm_look (m\<lparr>root := t\<rparr>) = (fm_look m)(k := None)"
    using t ok c by (auto simp: fm_look_def lookupFM_list unsigned.look_list_del_list)
  with t 2 show ?case by (auto simp: fm_plain_def fm_look_def fm_del_def)
qed

lemma size_avl_of_nat: "size_avl_nonNull t = of_nat (length (inorder t))"
  by (induction t) auto

lemma sizeFM_list: "sizeFM fm = of_nat (length (fm_list fm))"
  by (simp add: sizeFM_def fm_list_def size_avl_of_nat)

lemma kCmp_newFM: "kCmp (newFM c) = c"
  by (simp add: newFM_def initFM_def)

lemma fm_plain_new: "fm_plain (newFM None)"
  by (simp add: fm_plain_def newFM_ok cmp_unsigned_comparator kCmp_newFM)

lemma fm_look_new: "fm_look (newFM None) = Map.empty"
  by (simp add: fm_look_def lookupFM_def newFM_def initFM_def fun_eq_iff)

section \<open>Properties\<close>

text \<open>C8: Any sequence of insertions and deletions on a fresh map (unsigned word order) runs
  without failing an assertion and behaves, in every result it returns and in every later
  lookup, like the same sequence on a mathematical map.\<close>

theorem wordfm_refines_map:
  "\<exists>fm'. run_ops addToFM fm_del (newFM None) ops = Some (fm', snd (spec_ops Map.empty ops))
     \<and> fm_look fm' = fst (spec_ops Map.empty ops)"
  using fm.run_refines [OF fm_plain_new, of ops] by (auto simp: fm_look_new)

text \<open>For every comparison function that is a total preorder, insertion into a well-formed
  map fails no assertion, keeps the AVL and order invariant, reports whether an equal key was
  present, and changes the map at that key only: the old key is kept with the new value.\<close>

theorem addToFM_correct:
  assumes "fm_ok fm"
  shows "\<exists>fm'. addToFM fm k v = Some (fm', lookupFM fm k \<noteq> None) \<and> fm_ok fm'
     \<and> (\<forall>q. lookupFM fm' q =
          (if fm_cmp fm k q = 0
           then Some (case lookupFM fm k of Some (k0, _) \<Rightarrow> (k0, v) | None \<Rightarrow> (k, v))
           else lookupFM fm q))"
proof -
  obtain t where t: "addToFM fm k v = Some (fm\<lparr>root := t\<rparr>, lookupFM fm k \<noteq> None)"
    "fm_ok (fm\<lparr>root := t\<rparr>)" "fm_list (fm\<lparr>root := t\<rparr>) = ins_list (fm_cmp fm) k v (fm_list fm)"
    using addToFM_list [OF assms] by blast
  have "ordered (fm_cmp fm) (fm_list fm)" using assms by (simp add: fm_ok_def)
  note ins = comparator.look_list_ins_list [OF fm_ok_comparator [OF assms] this]
  show ?thesis
    by (intro exI [of _ "fm\<lparr>root := t\<rparr>"] conjI allI)
       (use t assms in \<open>simp_all add: lookupFM_list ins\<close>)
qed

text \<open>Deletion from a well-formed map, under the same conditions: it fails no assertion
  (in particular the node found by the search is the node the removal arrives at), keeps the
  invariant, returns the key and value that were stored, and removes exactly that entry.\<close>

theorem delFromFM_correct:
  assumes "fm_ok fm"
  shows "\<exists>fm'. delFromFM fm k = Some (fm', lookupFM fm k) \<and> fm_ok fm'
     \<and> (\<forall>q. lookupFM fm' q = (if fm_cmp fm k q = 0 then None else lookupFM fm q))"
proof -
  obtain t where t: "delFromFM fm k = Some (fm\<lparr>root := t\<rparr>, lookupFM fm k)"
    "fm_ok (fm\<lparr>root := t\<rparr>)" "fm_list (fm\<lparr>root := t\<rparr>) = del_list (fm_cmp fm) k (fm_list fm)"
    using delFromFM_list [OF assms] by blast
  show ?thesis
    by (intro exI [of _ "fm\<lparr>root := t\<rparr>"] conjI allI)
       (use t assms in \<open>simp_all add: lookupFM_list
          comparator.look_list_del_list [OF fm_ok_comparator [OF assms]]\<close>)
qed

text \<open>\<open>findBoundsFM\<close> on a key that is not in the map returns the entry with the greatest
  smaller key and the entry with the least greater key, or the supplied limits where there is
  none; on a key that is in the map it returns \<open>False\<close>.\<close>

theorem findBoundsFM_correct:
  assumes "fm_ok fm"
  shows "findBoundsFM fm minKV maxKV key =
     (if lookupFM fm key = None
      then Some (last (minKV # filter (\<lambda>x. fm_cmp fm (fst x) key < 0) (fm_list fm)),
                 hd (filter (\<lambda>x. fm_cmp fm (fst x) key > 0) (fm_list fm) @ [maxKV]))
      else None)"
  using assms word_comparator.find_bounds_correct [OF fm_ok_wc [OF assms], of "root fm"]
  by (simp add: findBoundsFM_def lookupFM_list fm_ok_def fm_list_def)

text \<open>Witnesses: maps with a boxed comparison that orders the keys downwards.\<close>

definition down :: "UWord \<Rightarrow> UWord \<Rightarrow> 64 word" where
  "down a b = (if b < a then -1 else if a < b then 1 else 0)"

lemma down_comparator: "comparator (kcmp_res (Some down))"
  by unfold_locales (auto simp: kcmp_res_def down_def split: if_splits)

definition down_fm :: WordFM where
  "down_fm = (newFM (Some down))\<lparr>root := Nd (Nd Null 9 90 0 Null) 5 50 0 (Nd Null 2 20 0 Null)\<rparr>"

lemma down_fm_ok: "fm_ok down_fm"
  by (simp add: fm_ok_def down_fm_def newFM_def initFM_def fm_cmp_def down_comparator fm_list_def
      ordered_def kcmp_res_def down_def)

theorem addToFM_correct_witness:
  "\<exists>fm'. addToFM down_fm 7 70 = Some (fm', False) \<and> fm_ok fm' \<and> lookupFM fm' 7 = Some (7, 70)
     \<and> lookupFM fm' 9 = Some (9, 90)"
proof -
  have "lookupFM down_fm 7 = None" "lookupFM down_fm 9 = Some (9, 90)"
    by (simp_all add: lookupFM_def down_fm_def newFM_def initFM_def find_node_eq kcmp_res_def down_def)
  moreover have "fm_cmp down_fm 7 7 = 0" "fm_cmp down_fm 7 9 \<noteq> 0"
    by (simp_all add: fm_cmp_def down_fm_def newFM_def initFM_def kcmp_res_def down_def)
  ultimately show ?thesis using addToFM_correct [OF down_fm_ok, of 7 70] by auto
qed

theorem delFromFM_correct_witness:
  "\<exists>fm'. delFromFM down_fm 5 = Some (fm', Some (5, 50)) \<and> fm_ok fm' \<and> lookupFM fm' 5 = None"
proof -
  have "lookupFM down_fm 5 = Some (5, 50)" "fm_cmp down_fm 5 5 = 0"
    by (simp_all add: lookupFM_def fm_cmp_def down_fm_def newFM_def initFM_def find_node_eq
        kcmp_res_def down_def)
  then show ?thesis using delFromFM_correct [OF down_fm_ok, of 5] by auto
qed

theorem findBoundsFM_correct_witness:
  "findBoundsFM down_fm (100, 0) (0, 0) 7 = Some ((9, 90), (5, 50))"
  by (subst findBoundsFM_correct [OF down_fm_ok])
     (simp add: lookupFM_def fm_cmp_def down_fm_def newFM_def initFM_def find_node_eq kcmp_res_def
       down_def fm_list_def)

end
