(* ===== verification/WordFM_Iter.thy ===== *)
theory WordFM_Iter
  imports WordFM_Props
begin

text \<open>
  The iterator of the word map, and how deep its fixed stack has to be. \<open>stk_list\<close> is what an
  iterator stack still has to deliver; \<open>stk_ok\<close> says that every entry fits under the limit with
  the whole path below it. A client loop over \<open>nextIterFM\<close> is \<open>iterate\<close>.
\<close>

section \<open>What a stack still delivers\<close>

fun entry_list :: "AvlNode \<times> int \<Rightarrow> (UWord \<times> UWord) list" where
  "entry_list (Null, i) = []"
| "entry_list (Nd l k v b r, i) =
     (if i = 1 then inorder (Nd l k v b r) else if i = 2 then (k, v) # inorder r else inorder r)"

definition stk_list :: "(AvlNode \<times> int) list \<Rightarrow> (UWord \<times> UWord) list" where
  "stk_list stk = concat (map entry_list stk)"

fun stk_ok :: "(AvlNode \<times> int) list \<Rightarrow> bool" where
  "stk_ok [] = True"
| "stk_ok ((n, i) # s) =
     (n \<noteq> Null \<and> 1 \<le> i \<and> i \<le> 3 \<and> length s + height n \<le> WFM_STKMAX \<and> stk_ok s)"

lemma stk_list_simps [simp]:
  "stk_list [] = []" "stk_list (e # s) = entry_list e @ stk_list s"
  by (simp_all add: stk_list_def)

lemma stk_ok_length: "stk_ok s \<Longrightarrow> length s \<le> WFM_STKMAX"
proof (cases s)
  case (Cons e s')
  assume "stk_ok s"
  moreover obtain n i where "e = (n, i)" by fastforce
  ultimately show ?thesis using Cons by (cases n) auto
qed simp

lemma stackPop_ok: "stk_ok ((n, i) # s) \<Longrightarrow> stackPop ((n, i) # s) = Some (Some (n, i), s)"
  using stk_ok_length [of "(n, i) # s"] by (simp add: stackPop_def opt_simps)

lemma case_1_correct:
  "n \<noteq> Null \<Longrightarrow> stk_ok s \<Longrightarrow> length s + height n \<le> WFM_STKMAX \<Longrightarrow>
   \<exists>l k v b r s'. iter_case_1 n s = Some ((Nd l k v b r, 2) # s') \<and> stk_ok ((Nd l k v b r, 2) # s')
     \<and> stk_list ((Nd l k v b r, 2) # s') = inorder n @ stk_list s"
proof (induction n arbitrary: s)
  case Null
  then show ?case by simp
next
  case (Nd l k v b r)
  have push: "stackPush s (Nd l k v b r) 2 = Some ((Nd l k v b r, 2) # s)"
    using Nd.prems by (simp add: stackPush_def opt_simps)
  show ?case
  proof (cases "l = Null")
    case True
    with push Nd.prems show ?thesis by simp
  next
    case False
    have "stk_ok ((Nd l k v b r, 2) # s)" using Nd.prems by simp
    moreover have "length ((Nd l k v b r, 2) # s) + height l \<le> WFM_STKMAX" using Nd.prems by simp
    ultimately show ?thesis
      using Nd.IH(1) [OF False, of "(Nd l k v b r, 2) # s"] push False by simp
  qed
qed

lemma nextIter_2:
  "stk_ok ((Nd l k v b r, 2) # s) \<Longrightarrow>
   nextIter_loop ((Nd l k v b r, 2) # s) = Some ((Nd l k v b r, 3) # s, Some (k, v))"
  by (subst nextIter_loop.simps) (simp add: stackPop_ok stackPush_def opt_simps)

lemma nextIter_correct:
  "stk_ok s \<Longrightarrow> \<exists>s'. nextIter_loop s = Some (s', case stk_list s of [] \<Rightarrow> None | x # _ \<Rightarrow> Some x)
     \<and> stk_ok s' \<and> stk_list s' = tl (stk_list s)"
proof (induction s rule: length_induct)
  case (1 s)
  show ?case
  proof (cases s)
    case Nil
    then show ?thesis
      by (subst nextIter_loop.simps) (simp add: stackPop_def opt_simps)
  next
    case (Cons e s1)
    obtain n i where e: "e = (n, i)" by fastforce
    have ok: "stk_ok ((n, i) # s1)" using 1(2) Cons e by simp
    then obtain l k v b r where n: "n = Nd l k v b r" by (cases n) auto
    note pop = stackPop_ok [OF ok [unfolded n]]
    consider "i = 1" | "i = 2" | "i = 3" "r = Null" | "i = 3" "r \<noteq> Null"
      using ok by force
    then show ?thesis
    proof cases
      case 1
      have "Nd l k v b r \<noteq> Null" "stk_ok s1" "length s1 + height (Nd l k v b r) \<le> WFM_STKMAX"
        using ok n by auto
      from case_1_correct [OF this] obtain l' k' v' b' r' s' where c:
        "iter_case_1 (Nd l k v b r) s1 = Some ((Nd l' k' v' b' r', 2) # s')"
        "stk_ok ((Nd l' k' v' b' r', 2) # s')"
        "stk_list ((Nd l' k' v' b' r', 2) # s') = inorder (Nd l k v b r) @ stk_list s1"
        by blast
      have "nextIter_loop s = Some ((Nd l' k' v' b' r', 3) # s', Some (k', v'))"
        unfolding Cons e n
        by (subst nextIter_loop.simps)
           (use pop c 1 nextIter_2 [OF c(2)] in \<open>simp del: iter_case_1.simps\<close>)
      moreover have "stk_list s = (k', v') # inorder r' @ stk_list s'"
        using c(3) 1 Cons e n by simp
      ultimately show ?thesis using c(2) by auto
    next
      case 2
      with ok Cons e n nextIter_2 [of l k v b r s1] show ?thesis by simp
    next
      case 3
      have IH: "\<exists>s'. nextIter_loop s1 = Some (s', case stk_list s1 of [] \<Rightarrow> None | x # _ \<Rightarrow> Some x)
          \<and> stk_ok s' \<and> stk_list s' = tl (stk_list s1)"
        using "1.IH" [rule_format, of s1] ok Cons by simp
      have "nextIter_loop s = nextIter_loop s1"
        unfolding Cons e n by (subst nextIter_loop.simps) (use pop 3 in simp)
      with IH 3 Cons e n show ?thesis by simp
    next
      case 4
      have "stk_ok s1" "length s1 + height r \<le> WFM_STKMAX" using ok n by auto
      from case_1_correct [OF 4(2) this] obtain l' k' v' b' r' s' where c:
        "iter_case_1 r s1 = Some ((Nd l' k' v' b' r', 2) # s')"
        "stk_ok ((Nd l' k' v' b' r', 2) # s')"
        "stk_list ((Nd l' k' v' b' r', 2) # s') = inorder r @ stk_list s1"
        by blast
      have "nextIter_loop s = Some ((Nd l' k' v' b' r', 3) # s', Some (k', v'))"
        unfolding Cons e n
        by (subst nextIter_loop.simps) (use pop c 4 nextIter_2 [OF c(2)] in simp)
      moreover have "stk_list s = (k', v') # inorder r' @ stk_list s'"
        using c(3) 4 Cons e n by simp
      ultimately show ?thesis using c(2) by auto
    qed
  qed
qed

section \<open>Whole iterations\<close>

text \<open>A client's loop \<open>while (VG_(nextIterFM)(fm, &k, &v)) ...\<close>, with the number of rounds
  bounded by \<open>n\<close>; it returns the map and what it has read. Running out of rounds is \<open>None\<close>.\<close>

fun iterate :: "nat \<Rightarrow> WordFM \<Rightarrow> (WordFM \<times> (UWord \<times> UWord) list) option" where
  "iterate 0 fm = None"
| "iterate (Suc n) fm =
     do { (fm', kv) \<leftarrow> nextIterFM fm;
          (case kv of None \<Rightarrow> Some (fm', [])
           | Some x \<Rightarrow> do { (fm'', xs) \<leftarrow> iterate n fm'; Some (fm'', x # xs) }) }"

lemma nextIterFM_correct:
  assumes "stk_ok (iterStack fm)"
  shows "\<exists>s. nextIterFM fm = Some (fm\<lparr>iterStack := s\<rparr>, case stk_list (iterStack fm) of [] \<Rightarrow> None | x # _ \<Rightarrow> Some x)
     \<and> stk_ok s \<and> stk_list s = tl (stk_list (iterStack fm))"
  using nextIter_correct [OF assms] by (auto simp: nextIterFM_def)

lemma iterate_correct:
  "stk_ok (iterStack fm) \<Longrightarrow> length (stk_list (iterStack fm)) < n \<Longrightarrow>
   \<exists>s. iterate n fm = Some (fm\<lparr>iterStack := s\<rparr>, stk_list (iterStack fm))"
proof (induction n arbitrary: fm)
  case 0
  then show ?case by simp
next
  case (Suc n)
  obtain s where s: "nextIterFM fm = Some (fm\<lparr>iterStack := s\<rparr>,
      case stk_list (iterStack fm) of [] \<Rightarrow> None | x # _ \<Rightarrow> Some x)" "stk_ok s"
    "stk_list s = tl (stk_list (iterStack fm))"
    using nextIterFM_correct [OF Suc.prems(1)] by blast
  show ?case
  proof (cases "stk_list (iterStack fm)")
    case Nil
    with s show ?thesis by auto
  next
    case (Cons x xs)
    with Suc.IH [of "fm\<lparr>iterStack := s\<rparr>"] Suc.prems s show ?thesis by auto
  qed
qed

lemma initIterFM_correct:
  assumes "height (root fm) \<le> WFM_STKMAX"
  shows "\<exists>s. initIterFM fm = Some (fm\<lparr>iterStack := s\<rparr>) \<and> stk_ok s \<and> stk_list s = fm_list fm"
proof (cases "root fm")
  case Null
  then show ?thesis
    by (auto simp: initIterFM_def stackClear_def fm_list_def intro!: exI [of _ "[]"])
next
  case (Nd l k v b r)
  with assms show ?thesis
    by (auto simp: initIterFM_def stackClear_def fm_list_def stackPush_def opt_simps WFM_STKMAX_def
        intro!: exI [of _ "[(root fm, 1)]"])
qed

lemma initIterAt_loop_correct:
  assumes "comparator cmp" "\<And>a b. - (2 ^ 63) \<le> cmp a b \<and> cmp a b < 2 ^ 63"
  shows "ordered cmp (inorder t) \<Longrightarrow> stk_ok stk \<Longrightarrow> length stk + height t \<le> WFM_STKMAX \<Longrightarrow>
    \<exists>s. initIterAt_loop cmp start t stk = Some s \<and> stk_ok s
      \<and> stk_list s = dropWhile (\<lambda>x. cmp (fst x) start < 0) (inorder t) @ stk_list stk"
proof (induction t arbitrary: stk)
  case Null
  then show ?case by simp
next
  case (Nd l k v b r)
  have wc: "word_comparator cmp" using assms(1) by (simp add: word_comparator_def)
  note o = word_comparator.ordered_NdD [OF wc Nd.prems(1)]
  note idx = sign_bit_index [of "cmp k start"]
  have push: "stackPush stk (Nd l k v b r) 2 = Some ((Nd l k v b r, 2) # stk)"
    using Nd.prems(3) by (simp add: stackPush_def opt_simps)
  have ok2: "stk_ok ((Nd l k v b r, 2) # stk)" using Nd.prems by simp
  consider "cmp k start = 0" | "cmp k start > 0" | "cmp k start < 0" by linarith
  then show ?case
  proof cases
    case 1
    then have "\<forall>x \<in> set (inorder l). cmp (fst x) start < 0"
      using o(3) comparator.cmp_less_le_trans [OF assms(1)] by fastforce
    then have "dropWhile (\<lambda>x. cmp (fst x) start < 0) (inorder (Nd l k v b r)) = (k, v) # inorder r"
      using 1 by (simp add: dropWhile_append)
    with 1 push ok2 show ?thesis by simp
  next
    case 2
    have dw: "dropWhile (\<lambda>x. cmp (fst x) start < 0) (inorder (Nd l k v b r))
        = dropWhile (\<lambda>x. cmp (fst x) start < 0) (inorder l) @ (k, v) # inorder r"
      using 2 by (simp add: dropWhile_append dropWhile_eq_Nil_conv)
    have "length ((Nd l k v b r, 2) # stk) + height l \<le> WFM_STKMAX" using Nd.prems(3) by simp
    from Nd.IH(1) [OF o(1) ok2 this] 2 push idx assms(2) [of k start] dw show ?thesis
      by (auto simp: Let_def)
  next
    case 3
    then have "\<forall>x \<in> set (inorder l). cmp (fst x) start < 0"
      using o(3) comparator.cmp_less_trans [OF assms(1)] by blast
    then have dw: "dropWhile (\<lambda>x. cmp (fst x) start < 0) (inorder (Nd l k v b r))
        = dropWhile (\<lambda>x. cmp (fst x) start < 0) (inorder r)"
      using 3 by (simp add: dropWhile_append)
    have "length stk + height r \<le> WFM_STKMAX" using Nd.prems(3) by simp
    from Nd.IH(2) [OF o(2) Nd.prems(2) this] 3 idx assms(2) [of k start] dw show ?thesis
      by (auto simp: Let_def)
  qed
qed

lemma initIterAtFM_correct:
  assumes "fm_ok fm" "height (root fm) \<le> WFM_STKMAX"
  shows "\<exists>s. initIterAtFM fm start = Some (fm\<lparr>iterStack := s\<rparr>) \<and> stk_ok s
     \<and> stk_list s = dropWhile (\<lambda>x. fm_cmp fm (fst x) start < 0) (fm_list fm)"
proof (cases "root fm = Null")
  case True
  then show ?thesis
    by (auto simp: initIterAtFM_def stackClear_def fm_list_def intro!: exI [of _ "[]"])
next
  case False
  have "comparator (fm_cmp fm)" "ordered (fm_cmp fm) (inorder (root fm))"
    using assms(1) by (simp_all add: fm_ok_def fm_list_def)
  then have "\<exists>s. initIterAt_loop (fm_cmp fm) start (root fm) [] = Some s \<and> stk_ok s
      \<and> stk_list s = dropWhile (\<lambda>x. fm_cmp fm (fst x) start < 0) (inorder (root fm)) @ stk_list []"
    using assms(2) kcmp_res_range [of "kCmp fm"]
    by (intro initIterAt_loop_correct) (simp_all add: fm_cmp_def)
  with False show ?thesis
    by (auto simp: initIterAtFM_def stackClear_def fm_list_def)
qed

section \<open>How many entries fit under the stack limit\<close>

text \<open>The fewest nodes of an AVL tree of height \<open>h\<close>.\<close>

fun min_nodes :: "nat \<Rightarrow> nat" where
  "min_nodes 0 = 0"
| "min_nodes (Suc 0) = 1"
| "min_nodes (Suc (Suc h)) = 1 + min_nodes (Suc h) + min_nodes h"

lemma min_nodes_Suc: "min_nodes h < min_nodes (Suc h)"
  by (induction h rule: min_nodes.induct) auto

lemma min_nodes_mono: "h \<le> h' \<Longrightarrow> min_nodes h \<le> min_nodes h'"
  by (induction h' rule: dec_induct) (auto intro: less_imp_le order_trans min_nodes_Suc)

lemma min_nodes_strict: "min_nodes h < min_nodes h' \<Longrightarrow> h < h'"
  using min_nodes_mono [of h' h] by linarith

lemma avl_min_nodes: "avl t \<Longrightarrow> min_nodes (height t) \<le> length (inorder t)"
proof (induction t)
  case Null
  then show ?case by simp
next
  case (Nd l k v b r)
  from Nd.prems have "bal_ok b (height l) (height r)" by simp
  then show ?case
  proof (cases rule: bal_okE)
    case left
    with Nd show ?thesis by simp
  next
    case even
    have "min_nodes (Suc (height r)) \<le> 1 + min_nodes (height r) + min_nodes (height r)"
    proof (cases "height r")
      case 0
      then show ?thesis by simp
    next
      case (Suc h)
      then show ?thesis using min_nodes_Suc [of h] by simp
    qed
    with Nd even show ?thesis by simp
  next
    case right
    with Nd show ?thesis by simp
  qed
qed

text \<open>Two consecutive values at a time, so that evaluation is linear.\<close>

fun min_nodes2 :: "nat \<Rightarrow> int \<times> int" where
  "min_nodes2 0 = (0, 1)"
| "min_nodes2 (Suc h) = (let (a, b) = min_nodes2 h in (b, 1 + b + a))"

lemma min_nodes2: "min_nodes2 h = (int (min_nodes h), int (min_nodes (Suc h)))"
  by (induction h) auto

lemma min_nodes_33: "min_nodes 33 = 9227464"
proof -
  have "fst (min_nodes2 33) = 9227464" by code_simp
  then have "int (min_nodes 33) = int 9227464" by (simp add: min_nodes2)
  then show ?thesis by (simp only: of_nat_eq_iff)
qed

lemma height_stkmax: "avl t \<Longrightarrow> length (inorder t) < 9227464 \<Longrightarrow> height t \<le> WFM_STKMAX"
  using avl_min_nodes [of t] min_nodes_strict [of "height t" 33] min_nodes_33
  by (simp add: WFM_STKMAX_def)

section \<open>A map that overflows the iterator stack\<close>

text \<open>The sparsest AVL tree of height \<open>h\<close>, with the keys from \<open>s\<close> on.\<close>

fun sparse_tree :: "nat \<Rightarrow> nat \<Rightarrow> AvlNode" where
  "sparse_tree 0 s = Null"
| "sparse_tree (Suc 0) s = Nd Null (of_nat s) 0 0 Null"
| "sparse_tree (Suc (Suc h)) s =
     Nd (sparse_tree (Suc h) s) (of_nat (s + min_nodes (Suc h))) 0 (-1)
        (sparse_tree h (s + min_nodes (Suc h) + 1))"

lemma sparse_height [simp]: "height (sparse_tree h s) = h"
  by (induction h s rule: sparse_tree.induct) auto

lemma sparse_avl: "avl (sparse_tree h s)"
  by (induction h s rule: sparse_tree.induct) auto

lemma sparse_inorder: "inorder (sparse_tree h s) = map (\<lambda>i. (of_nat i, 0)) [s..<s + min_nodes h]"
proof (induction h s rule: sparse_tree.induct)
  case (3 h s)
  have "[s..<s + min_nodes (Suc (Suc h))]
      = [s..<s + min_nodes (Suc h)] @ (s + min_nodes (Suc h))
        # [s + min_nodes (Suc h) + 1..<s + min_nodes (Suc h) + 1 + min_nodes h]"
  proof -
    have "[s..<s + min_nodes (Suc (Suc h))] = [s..<s + min_nodes (Suc h)]
        @ [s + min_nodes (Suc h)..<s + min_nodes (Suc h) + (1 + min_nodes h)]"
      using upt_add_eq_append [of s "s + min_nodes (Suc h)" "1 + min_nodes h"]
      by (simp add: ac_simps)
    then show ?thesis by (simp add: upt_conv_Cons)
  qed
  with 3 show ?case by simp
qed auto

lemma sparse_ordered:
  assumes "s + min_nodes h \<le> 2 ^ 64"
  shows "ordered cmp_unsigned_Words (inorder (sparse_tree h s))"
proof -
  have lt: "(of_nat i :: UWord) < of_nat j" if "i < j" "j < 2 ^ 64" for i j
    using that by (simp add: word_less_nat_alt unat_of_nat)
  have "sorted_wrt (\<lambda>i j. cmp_unsigned_Words (of_nat i) (of_nat j) < 0) [s..<s + min_nodes h]"
  proof (rule sorted_wrt_mono_rel [OF _ sorted_wrt_upt])
    fix i j
    assume "i \<in> set [s..<s + min_nodes h]" "j \<in> set [s..<s + min_nodes h]" "i < j"
    then show "cmp_unsigned_Words (of_nat i) (of_nat j) < 0"
      using lt [of i j] assms by (simp add: cmp_unsigned_Words_def)
  qed
  then show ?thesis by (simp add: sparse_inorder ordered_def sorted_wrt_map)
qed

fun spine :: "AvlNode \<Rightarrow> nat" where
  "spine Null = 0"
| "spine (Nd l k v b r) = Suc (spine l)"

lemma sparse_spine [simp]: "spine (sparse_tree h s) = h"
  by (induction h s rule: sparse_tree.induct) auto

lemma case_1_overflow: "WFM_STKMAX < length stk + spine n \<Longrightarrow> iter_case_1 n stk = None"
proof (induction n arbitrary: stk)
  case (Nd l k v b r)
  show ?case
  proof (cases "l = Null")
    case True
    with Nd.prems show ?thesis by (simp add: stackPush_def opt_simps)
  next
    case False
    with Nd.prems Nd.IH(1) [of "(Nd l k v b r, 2) # stk"] show ?thesis
      by (simp add: stackPush_def opt_simps)
  qed
qed simp

section \<open>Copying and freeing\<close>

lemma inorder_dopy:
  "inorder (avl_dopy dk dv t) =
     map (\<lambda>(k, v). (case dk of Some f \<Rightarrow> f k | None \<Rightarrow> k, case dv of Some f \<Rightarrow> f v | None \<Rightarrow> v)) (inorder t)"
  by (induction t) auto

lemma height_dopy [simp]: "height (avl_dopy dk dv t) = height t"
  by (induction t) auto

lemma avl_dopy_avl [simp]: "avl (avl_dopy dk dv t) = avl t"
  by (induction t) auto

text \<open>The entries in the order in which \<open>avl_free\<close> visits them, and its calls for one entry.\<close>

fun postorder_avl :: "AvlNode \<Rightarrow> (UWord \<times> UWord) list" where
  "postorder_avl Null = []"
| "postorder_avl (Nd l k v b r) = postorder_avl l @ postorder_avl r @ [(k, v)]"

definition entry_calls :: "bool \<Rightarrow> bool \<Rightarrow> UWord \<times> UWord \<Rightarrow> free_call list" where
  "entry_calls kf vf x =
     (if kf then [KFin (fst x)] else []) @ (if vf then [VFin (snd x)] else []) @ [Dealloc (fst x)]"

lemma postorder_mset: "mset (postorder_avl t) = mset (inorder t)"
  by (induction t) auto

lemma avl_free_postorder: "avl_free kf vf t = concat (map (entry_calls kf vf) (postorder_avl t))"
  by (induction t) (auto simp: entry_calls_def)

lemma dropWhile_filter:
  assumes "comparator cmp" "ordered cmp xs"
  shows "dropWhile (\<lambda>x. cmp (fst x) s < 0) xs = filter (\<lambda>x. cmp (fst x) s \<ge> 0) xs"
  using assms(2)
proof (induction xs)
  case (Cons x xs)
  show ?case
  proof (cases "cmp (fst x) s < 0")
    case True
    with Cons show ?thesis by (simp add: ordered_def)
  next
    case False
    have "cmp (fst y) s \<ge> 0" if "y \<in> set xs" for y
    proof (rule ccontr)
      assume "\<not> cmp (fst y) s \<ge> 0"
      moreover have "cmp (fst x) (fst y) < 0" using Cons.prems that by (auto simp: ordered_def)
      ultimately have "cmp (fst x) s < 0"
        using comparator.cmp_less_trans [OF assms(1), of "fst x" "fst y" s] by simp
      with False show False by simp
    qed
    with False show ?thesis by simp
  qed
qed simp

section \<open>Properties\<close>

text \<open>C9: On a well-formed map with fewer than 9227464 entries the iterator fails no assertion
  and a loop over \<open>nextIterFM\<close> delivers every entry exactly once, in the order of the keys.\<close>

theorem iteration_complete:
  assumes "fm_ok fm" and "length (fm_list fm) < 9227464"
  shows "\<exists>fm1 fm2. initIterFM fm = Some fm1
     \<and> iterate (Suc (length (fm_list fm))) fm1 = Some (fm2, fm_list fm)
     \<and> ordered (fm_cmp fm) (fm_list fm) \<and> root fm2 = root fm"
proof -
  have h: "height (root fm) \<le> WFM_STKMAX"
    using assms height_stkmax by (auto simp: fm_ok_def fm_list_def)
  obtain s where s: "initIterFM fm = Some (fm\<lparr>iterStack := s\<rparr>)" "stk_ok s" "stk_list s = fm_list fm"
    using initIterFM_correct [OF h] by blast
  then obtain s2 where "iterate (Suc (length (fm_list fm))) (fm\<lparr>iterStack := s\<rparr>)
      = Some (fm\<lparr>iterStack := s2\<rparr>, fm_list fm)"
    using iterate_correct [of "fm\<lparr>iterStack := s\<rparr>" "Suc (length (fm_list fm))"] by auto
  with s assms show ?thesis by (auto simp: fm_ok_def)
qed

text \<open>Iteration started with \<open>initIterAtFM\<close> delivers exactly the entries whose key is not
  smaller than the starting key, in order, for boxed and unboxed keys alike.\<close>

theorem iteration_from:
  assumes "fm_ok fm" and "length (fm_list fm) < 9227464"
  shows "\<exists>fm1 fm2. initIterAtFM fm start = Some fm1
     \<and> iterate (Suc (length (fm_list fm))) fm1
         = Some (fm2, filter (\<lambda>x. fm_cmp fm (fst x) start \<ge> 0) (fm_list fm))"
proof -
  have h: "height (root fm) \<le> WFM_STKMAX"
    using assms height_stkmax by (auto simp: fm_ok_def fm_list_def)
  let ?rest = "dropWhile (\<lambda>x. fm_cmp fm (fst x) start < 0) (fm_list fm)"
  obtain s where s: "initIterAtFM fm start = Some (fm\<lparr>iterStack := s\<rparr>)" "stk_ok s" "stk_list s = ?rest"
    using initIterAtFM_correct [OF assms(1) h] by blast
  have "length ?rest \<le> length (fm_list fm)" by (rule length_dropWhile_le)
  then obtain s2 where it: "iterate (Suc (length (fm_list fm))) (fm\<lparr>iterStack := s\<rparr>)
      = Some (fm\<lparr>iterStack := s2\<rparr>, ?rest)"
    using iterate_correct [of "fm\<lparr>iterStack := s\<rparr>" "Suc (length (fm_list fm))"] s by auto
  have "?rest = filter (\<lambda>x. fm_cmp fm (fst x) start \<ge> 0) (fm_list fm)"
    using assms(1) by (intro dropWhile_filter) (auto simp: fm_ok_def)
  with s it show ?thesis by auto
qed

text \<open>C10: The bound of the previous two properties is sharp: there is a well-formed map with
  9227464 entries (far fewer than the \<open>2**32\<close> that the comment at \<open>WFM_STKMAX\<close> promises) on which
  the first call of \<open>nextIterFM\<close> fails the assertion of \<open>stackPush\<close>.\<close>

theorem iteration_overflow:
  "\<exists>fm fm1. fm_ok fm \<and> kCmp fm = None \<and> length (fm_list fm) = 9227464
     \<and> initIterFM fm = Some fm1 \<and> nextIterFM fm1 = None"
proof -
  let ?t = "sparse_tree 33 0"
  let ?fm = "\<lparr>root = ?t, kCmp = None, iterStack = []\<rparr>"
  have cmp: "fm_cmp ?fm = cmp_unsigned_Words" by (simp add: fm_cmp_def kcmp_res_def fun_eq_iff)
  have sp: "spine ?t = 33" by simp
  then obtain l k v b r where t: "?t = Nd l k v b r" by (cases ?t) auto
  have "comparator cmp_unsigned_Words"
    using fm_plain_new by (simp add: fm_plain_def fm_ok_def fm_cmp_def kCmp_newFM kcmp_res_def [abs_def])
  then have "fm_ok ?fm" "length (fm_list ?fm) = 9227464"
    using sparse_ordered [of 0 33] sparse_avl [of 33 0]
    by (simp_all add: fm_ok_def cmp fm_list_def sparse_inorder min_nodes_33)
  moreover have "initIterFM ?fm = Some (?fm\<lparr>iterStack := [(?t, 1)]\<rparr>)"
    using t by (simp add: initIterFM_def stackClear_def stackPush_def WFM_STKMAX_def)
  moreover have "iter_case_1 ?t [] = None"
    using sp by (intro case_1_overflow) (simp add: WFM_STKMAX_def)
  then have "nextIterFM (?fm\<lparr>iterStack := [(?t, 1)]\<rparr>) = None"
    unfolding t
    by (simp add: nextIterFM_def nextIter_loop.simps stackPop_def WFM_STKMAX_def del: iter_case_1.simps)
  ultimately show ?thesis by (intro exI conjI) (assumption | simp)+
qed

text \<open>\<open>deleteFM\<close> frees every node and then the map, and calls each finaliser it is given
  exactly once per entry, on the entry's key or value, before it frees the node.\<close>

theorem deleteFM_calls:
  "\<exists>order. mset order = mset (fm_list fm)
     \<and> deleteFM fm kf vf = concat (map (entry_calls kf vf) order) @ [DeallocFM]"
  using postorder_mset avl_free_postorder by (auto simp: deleteFM_def fm_list_def)

text \<open>A copy made with \<open>dopyFM\<close> by functions that keep the comparison result is well formed
  and holds the copied entries; the original keeps its entries.\<close>

theorem dopyFM_correct:
  assumes "fm_ok fm" and "iterStack fm = []"
    and "\<And>a b. fm_cmp fm (dk a) (dk b) = fm_cmp fm a b"
  shows "\<exists>nyu. dopyFM fm (Some dk) (Some dv) = Some (fm, nyu) \<and> fm_ok nyu
     \<and> fm_list nyu = map (\<lambda>(k, v). (dk k, dv v)) (fm_list fm) \<and> kCmp nyu = kCmp fm"
proof -
  let ?n = "fm\<lparr>root := avl_dopy (Some dk) (Some dv) (root fm)\<rparr>"
  have l: "fm_list ?n = map (\<lambda>(k, v). (dk k, dv v)) (fm_list fm)"
    by (simp add: fm_list_def inorder_dopy)
  moreover have "fm_ok ?n"
    using assms l
    by (simp add: fm_ok_def ordered_def sorted_wrt_map case_prod_beta comp_def)
  moreover have "dopyFM fm (Some dk) (Some dv) = Some (fm, ?n)"
    using assms(2) by (cases fm) (simp add: dopyFM_def Let_def)
  ultimately show ?thesis by auto
qed

section \<open>Witnesses\<close>

theorem iteration_complete_witness:
  "\<exists>fm1 fm2. initIterFM down_fm = Some fm1 \<and> iterate 4 fm1 = Some (fm2, [(9, 90), (5, 50), (2, 20)])"
proof -
  have l: "fm_list down_fm = [(9, 90), (5, 50), (2, 20)]" by (simp add: down_fm_def fm_list_def)
  have "Suc (length (fm_list down_fm)) = 4" "length (fm_list down_fm) < 9227464"
    by (simp_all add: l)
  then show ?thesis using iteration_complete [OF down_fm_ok] l by metis
qed

theorem iteration_from_witness:
  "\<exists>fm1 fm2. initIterAtFM down_fm 7 = Some fm1 \<and> iterate 4 fm1 = Some (fm2, [(5, 50), (2, 20)])"
proof -
  have l: "fm_list down_fm = [(9, 90), (5, 50), (2, 20)]" by (simp add: down_fm_def fm_list_def)
  have "filter (\<lambda>x. fm_cmp down_fm (fst x) 7 \<ge> 0) (fm_list down_fm) = [(5, 50), (2, 20)]"
    unfolding l by (simp add: fm_cmp_def down_fm_def newFM_def initFM_def kcmp_res_def down_def)
  moreover have "Suc (length (fm_list down_fm)) = 4" by (simp add: l)
  moreover have "length (fm_list down_fm) < 9227464" by (simp add: l)
  ultimately show ?thesis using iteration_from [OF down_fm_ok, of 7] by (simp only:)
qed

theorem dopyFM_correct_witness:
  "\<exists>nyu. dopyFM down_fm (Some (\<lambda>k. k)) (Some (\<lambda>v. v + 1)) = Some (down_fm, nyu) \<and> fm_ok nyu
     \<and> fm_list nyu = [(9, 91), (5, 51), (2, 21)]"
proof -
  have l: "fm_list down_fm = [(9, 90), (5, 50), (2, 20)]" and s: "iterStack down_fm = []"
    by (simp_all add: down_fm_def fm_list_def newFM_def initFM_def)
  show ?thesis using dopyFM_correct [OF down_fm_ok s, of "\<lambda>k. k" "\<lambda>v. v + 1"] by (auto simp: l)
qed

end
