(* ===== verification/WordBag.thy ===== *)
theory WordBag
  imports WordFM_Iter "HOL-Library.Multiset"
begin

text \<open>
  The bag of words of \<open>coregrind/m_wordfm.c\<close>: a client of the finite map that stores for each
  element how often it is in the bag. The operations are those of the source, with their
  assertions; \<open>bag_mset\<close> is the multiset a bag stands for, and the property at the end says that
  any sequence of additions and deletions behaves like the one on multisets.
\<close>

section \<open>The operations\<close>

record WordBag =
  bag_fm :: WordFM

definition newBag :: WordBag where
  "newBag = \<lparr>bag_fm = newFM None\<rparr>"

definition deleteBag :: "WordBag \<Rightarrow> free_call list" where
  "deleteBag bag = deleteFM (bag_fm bag) False False @ [DeallocBag]"

definition addToBag :: "WordBag \<Rightarrow> UWord \<Rightarrow> WordBag option" where
  "addToBag bag w =
     (case lookupFM (bag_fm bag) w of
        Some (key, cnt) \<Rightarrow>
          do { vg_assert (key = w); vg_assert (cnt \<ge> 1);
               (fm, _) \<leftarrow> addToFM (bag_fm bag) w (cnt + 1);
               Some (bag\<lparr>bag_fm := fm\<rparr>) }
      | None \<Rightarrow> do { (fm, _) \<leftarrow> addToFM (bag_fm bag) w 1; Some (bag\<lparr>bag_fm := fm\<rparr>) })"

definition elemBag :: "WordBag \<Rightarrow> UWord \<Rightarrow> UWord option" where
  "elemBag bag w =
     (case lookupFM (bag_fm bag) w of
        Some (key, cnt) \<Rightarrow> do { vg_assert (key = w); vg_assert (cnt \<ge> 1); Some cnt }
      | None \<Rightarrow> Some 0)"

definition sizeUniqueBag :: "WordBag \<Rightarrow> UWord" where
  "sizeUniqueBag bag = sizeFM (bag_fm bag)"

fun sizeTotalBag_wrk :: "AvlNode \<Rightarrow> UWord option" where
  "sizeTotalBag_wrk Null = None"
| "sizeTotalBag_wrk (Nd l k v b r) =
     do { vg_assert (v \<ge> 1);
          w \<leftarrow> (if l \<noteq> Null then do { x \<leftarrow> sizeTotalBag_wrk l; Some (v + x) } else Some v);
          (if r \<noteq> Null then do { x \<leftarrow> sizeTotalBag_wrk r; Some (w + x) } else Some w) }"

definition sizeTotalBag :: "WordBag \<Rightarrow> UWord option" where
  "sizeTotalBag bag =
     (if root (bag_fm bag) \<noteq> Null then sizeTotalBag_wrk (root (bag_fm bag)) else Some 0)"

definition delFromBag :: "WordBag \<Rightarrow> UWord \<Rightarrow> (WordBag \<times> bool) option" where
  "delFromBag bag w =
     (case lookupFM (bag_fm bag) w of
        Some (key, cnt) \<Rightarrow>
          do { vg_assert (key = w); vg_assert (cnt \<ge> 1);
               if cnt > 1
               then do { (fm, _) \<leftarrow> addToFM (bag_fm bag) w (cnt - 1);
                         Some (bag\<lparr>bag_fm := fm\<rparr>, True) }
               else do { vg_assert (cnt = 1);
                         (fm, _) \<leftarrow> delFromFM (bag_fm bag) w;
                         Some (bag\<lparr>bag_fm := fm\<rparr>, True) } }
      | None \<Rightarrow> Some (bag, False))"

definition isEmptyBag :: "WordBag \<Rightarrow> bool" where
  "isEmptyBag bag = (sizeFM (bag_fm bag) = 0)"

definition isSingletonTotalBag :: "WordBag \<Rightarrow> bool option" where
  "isSingletonTotalBag bag =
     (if sizeFM (bag_fm bag) \<noteq> 1 then Some False
      else case root (bag_fm bag) of
             Null \<Rightarrow> None
           | Nd l k v b r \<Rightarrow> do { vg_assert (l = Null); vg_assert (r = Null); Some (v = 1) })"

definition anyElementOfBag :: "WordBag \<Rightarrow> UWord option" where
  "anyElementOfBag bag =
     (case root (bag_fm bag) of
        Null \<Rightarrow> None
      | Nd l k v b r \<Rightarrow> do { vg_assert (v \<ge> 1); Some k })"

definition initIterBag :: "WordBag \<Rightarrow> WordBag option" where
  "initIterBag bag = do { fm \<leftarrow> initIterFM (bag_fm bag); Some (bag\<lparr>bag_fm := fm\<rparr>) }"

definition nextIterBag :: "WordBag \<Rightarrow> (WordBag \<times> (UWord \<times> UWord) option) option" where
  "nextIterBag bag = do { (fm, kv) \<leftarrow> nextIterFM (bag_fm bag); Some (bag\<lparr>bag_fm := fm\<rparr>, kv) }"

definition doneIterBag :: "WordBag \<Rightarrow> WordBag" where
  "doneIterBag bag = bag\<lparr>bag_fm := doneIterFM (bag_fm bag)\<rparr>"

section \<open>The multiset of a bag\<close>

definition entries_mset :: "(UWord \<times> UWord) list \<Rightarrow> UWord multiset" where
  "entries_mset xs = (\<Sum>x\<leftarrow>xs. replicate_mset (unat (snd x)) (fst x))"

definition bag_mset :: "WordBag \<Rightarrow> UWord multiset" where
  "bag_mset bag = entries_mset (fm_list (bag_fm bag))"

definition bag_ok :: "WordBag \<Rightarrow> bool" where
  "bag_ok bag = (fm_plain (bag_fm bag) \<and> (\<forall>x \<in> set (fm_list (bag_fm bag)). snd x \<noteq> 0))"

lemma entries_mset_simps [simp]:
  "entries_mset [] = {#}"
  "entries_mset (x # xs) = replicate_mset (unat (snd x)) (fst x) + entries_mset xs"
  "entries_mset (xs @ ys) = entries_mset xs + entries_mset ys"
  by (simp_all add: entries_mset_def)

lemma look_list_unsigned:
  "look_list cmp_unsigned_Words k [] = None"
  "look_list cmp_unsigned_Words k (x # xs) =
     (if fst x = k then Some x else look_list cmp_unsigned_Words k xs)"
  by (simp_all add: look_list_def)

lemma ordered_unsigned_Cons:
  "ordered cmp_unsigned_Words (x # xs) \<longleftrightarrow>
     ordered cmp_unsigned_Words xs \<and> (\<forall>y \<in> set xs. fst x < fst y)"
  by (auto simp: ordered_def cmp_unsigned_Words_def split: if_splits)

lemma look_list_mem:
  assumes "ordered cmp_unsigned_Words xs"
  shows "look_list cmp_unsigned_Words k xs = Some (k, v) \<longleftrightarrow> (k, v) \<in> set xs"
  using assms
proof (induction xs)
  case (Cons x xs)
  then show ?case
    by (cases x) (auto simp: look_list_unsigned ordered_unsigned_Cons)
qed (simp add: look_list_unsigned)

lemma count_notin: "k \<notin> fst ` set xs \<Longrightarrow> count (entries_mset xs) k = 0"
  by (induction xs) auto

lemma count_entries:
  "ordered cmp_unsigned_Words xs \<Longrightarrow>
   count (entries_mset xs) k = (case look_list cmp_unsigned_Words k xs of None \<Rightarrow> 0 | Some x \<Rightarrow> unat (snd x))"
proof (induction xs)
  case (Cons x xs)
  then have "k \<notin> fst ` set xs" if "fst x = k"
    using that by (force simp: ordered_unsigned_Cons)
  with Cons show ?case
    by (auto simp: look_list_unsigned ordered_unsigned_Cons count_notin)
qed (simp add: look_list_unsigned)

lemma fm_look_list: "fm_plain fm \<Longrightarrow> fm_look fm k = map_option snd (look_list cmp_unsigned_Words k (fm_list fm))"
  by (auto simp: fm_look_def fm_plain_def fm_cmp_def lookupFM_list)

lemma fm_plain_ordered: "fm_plain fm \<Longrightarrow> ordered cmp_unsigned_Words (fm_list fm)"
  by (auto simp: fm_plain_def fm_ok_def fm_cmp_def)

lemma fm_look_mem: "fm_plain fm \<Longrightarrow> fm_look fm k = Some v \<longleftrightarrow> (k, v) \<in> set (fm_list fm)"
  using look_list_mem [OF fm_plain_ordered, of fm k v]
  by (auto simp: fm_look_list dest: look_unsigned_key)

lemma lookupFM_plain: "fm_plain fm \<Longrightarrow> lookupFM fm k = map_option (Pair k) (fm_look fm k)"
  by (cases "lookupFM fm k")
     (auto simp: fm_look_def fm_plain_def fm_cmp_def lookupFM_list dest: look_unsigned_key)

lemma word_ge_1: "(c :: UWord) \<ge> 1 \<longleftrightarrow> c \<noteq> 0"
  by (simp add: word_le_nat_alt Suc_le_eq unat_gt_0)

lemma bag_ok_look: "bag_ok bag \<longleftrightarrow> fm_plain (bag_fm bag) \<and> (\<forall>k. fm_look (bag_fm bag) k \<noteq> Some 0)"
  unfolding bag_ok_def by (force simp: fm_look_mem)

lemma bag_count:
  "bag_ok bag \<Longrightarrow> count (bag_mset bag) k = (case fm_look (bag_fm bag) k of None \<Rightarrow> 0 | Some c \<Rightarrow> unat c)"
  unfolding bag_mset_def bag_ok_def
  by (auto simp: count_entries fm_plain_ordered fm_look_list split: option.splits)

section \<open>Each operation on the multiset\<close>

lemma addToBag_mset:
  assumes "bag_ok bag" "count (bag_mset bag) w < 2 ^ 64 - 1"
  shows "\<exists>bag'. addToBag bag w = Some bag' \<and> bag_ok bag' \<and> bag_mset bag' = add_mset w (bag_mset bag)"
proof -
  let ?fm = "bag_fm bag"
  have p: "fm_plain ?fm" and nz: "\<And>k. fm_look ?fm k \<noteq> Some 0"
    using assms(1) by (auto simp: bag_ok_look)
  let ?c = "case fm_look ?fm w of None \<Rightarrow> 1 | Some c \<Rightarrow> c + 1"
  obtain fm' b where fm': "addToFM ?fm w ?c = Some (fm', b)" "fm_plain fm'"
    "fm_look fm' = (fm_look ?fm)(w \<mapsto> ?c)"
    using fm.add_law [OF p] by blast
  have un: "unat ?c = Suc (count (bag_mset bag) w)"
  proof (cases "fm_look ?fm w")
    case (Some c)
    then have "unat c < 2 ^ 64 - 1" using assms by (simp add: bag_count)
    then have "unat (c + 1) = unat c + 1"
      by (subst unat_plus_if_size) (simp add: word_size)
    with Some assms(1) show ?thesis by (simp add: bag_count)
  qed (use assms(1) in \<open>simp add: bag_count\<close>)
  then have "?c \<noteq> 0" by force
  with nz fm' have ok': "bag_ok (bag\<lparr>bag_fm := fm'\<rparr>)" by (auto simp: bag_ok_look)
  have "bag_mset (bag\<lparr>bag_fm := fm'\<rparr>) = add_mset w (bag_mset bag)"
    using un by (intro multiset_eqI) (auto simp: bag_count [OF ok'] bag_count [OF assms(1)] fm'(3))
  moreover have "addToBag bag w = Some (bag\<lparr>bag_fm := fm'\<rparr>)"
    using fm'(1) nz [of w]
    by (auto simp: addToBag_def lookupFM_plain [OF p] opt_simps word_ge_1 split: option.splits)
  ultimately show ?thesis using ok' by blast
qed

lemma delFromBag_mset:
  assumes "bag_ok bag"
  shows "\<exists>bag'. delFromBag bag w = Some (bag', w \<in># bag_mset bag) \<and> bag_ok bag'
     \<and> bag_mset bag' = bag_mset bag - {#w#}"
proof -
  let ?fm = "bag_fm bag"
  have p: "fm_plain ?fm" and nz: "\<And>k. fm_look ?fm k \<noteq> Some 0"
    using assms by (auto simp: bag_ok_look)
  show ?thesis
  proof (cases "fm_look ?fm w")
    case None
    with assms have "count (bag_mset bag) w = 0" by (simp add: bag_count)
    then have "w \<notin># bag_mset bag" by (simp add: not_in_iff)
    with None assms show ?thesis
      by (simp add: delFromBag_def lookupFM_plain [OF p] diff_single_trivial)
  next
    case (Some c)
    with nz [of w] have c: "c \<noteq> 0" by auto
    with Some assms have "w \<in># bag_mset bag" by (simp flip: count_greater_zero_iff add: bag_count unat_gt_0)
    moreover have "\<exists>fm'. delFromBag bag w = Some (bag\<lparr>bag_fm := fm'\<rparr>, True) \<and> fm_plain fm'
      \<and> fm_look fm' = (if c > 1 then (fm_look ?fm)(w \<mapsto> c - 1) else (fm_look ?fm)(w := None))"
    proof (cases "c > 1")
      case True
      with fm.add_law [OF p, of w "c - 1"] c Some show ?thesis
        by (auto simp: delFromBag_def lookupFM_plain [OF p] opt_simps word_ge_1)
    next
      case False
      moreover have "unat c \<noteq> 0" using c by (simp add: unsigned_eq_0_iff)
      ultimately have "unat c = 1" by (simp add: word_less_nat_alt)
      then have "c = 1" by (simp add: word_unat_eq_iff)
      with fm.del_law [OF p, of w] Some show ?thesis
        by (auto simp: delFromBag_def lookupFM_plain [OF p] opt_simps fm_del_def)
    qed
    then obtain fm' where fm': "delFromBag bag w = Some (bag\<lparr>bag_fm := fm'\<rparr>, True)" "fm_plain fm'"
      "fm_look fm' = (if c > 1 then (fm_look ?fm)(w \<mapsto> c - 1) else (fm_look ?fm)(w := None))"
      by blast
    have ok': "bag_ok (bag\<lparr>bag_fm := fm'\<rparr>)" using fm' nz by (auto simp: bag_ok_look)
    have "unat (c - 1) = unat c - 1" using c by (simp add: unat_minus_one)
    moreover have "unat c \<le> 1" if "\<not> c > 1" using that by (simp add: word_less_nat_alt)
    ultimately have "bag_mset (bag\<lparr>bag_fm := fm'\<rparr>) = bag_mset bag - {#w#}"
      using Some by (intro multiset_eqI) (auto simp: bag_count [OF ok'] bag_count [OF assms] fm'(3))
    with fm' ok' \<open>w \<in># bag_mset bag\<close> show ?thesis by auto
  qed
qed

lemma elemBag_mset: "bag_ok bag \<Longrightarrow> elemBag bag w = Some (of_nat (count (bag_mset bag) w))"
  by (auto simp: elemBag_def bag_count bag_ok_look lookupFM_plain opt_simps word_ge_1 split: option.splits)

lemma sizeTotalBag_wrk_mset:
  "t \<noteq> Null \<Longrightarrow> \<forall>x \<in> set (inorder t). snd x \<noteq> 0 \<Longrightarrow>
   sizeTotalBag_wrk t = Some (of_nat (size (entries_mset (inorder t))))"
proof (induction t)
  case (Nd l k v b r)
  then show ?case
    by (cases "l = Null"; cases "r = Null") (simp_all add: word_ge_1 algebra_simps)
qed simp

lemma sizeTotalBag_mset: "bag_ok bag \<Longrightarrow> sizeTotalBag bag = Some (of_nat (size (bag_mset bag)))"
  by (auto simp: sizeTotalBag_def bag_mset_def bag_ok_def fm_list_def sizeTotalBag_wrk_mset)

lemma set_entries: "\<forall>x \<in> set xs. snd x \<noteq> 0 \<Longrightarrow> set_mset (entries_mset xs) = fst ` set xs"
  by (induction xs) (auto simp: unsigned_eq_0_iff)

lemma ordered_distinct: "ordered cmp_unsigned_Words xs \<Longrightarrow> distinct (map fst xs)"
  by (induction xs) (force simp: ordered_unsigned_Cons)+

lemma unique_length: "bag_ok bag \<Longrightarrow> length (fm_list (bag_fm bag)) = card (set_mset (bag_mset bag))"
  using distinct_card [OF ordered_distinct, of "fm_list (bag_fm bag)"]
  by (simp add: bag_ok_def bag_mset_def set_entries fm_plain_ordered)

lemma newBag_mset: "bag_ok newBag" "bag_mset newBag = {#}"
  by (simp_all add: newBag_def bag_ok_def bag_mset_def fm_plain_new)

section \<open>Sequences of operations\<close>

datatype bag_op = BagAdd UWord | BagDel UWord

fun run_bag :: "WordBag \<Rightarrow> bag_op list \<Rightarrow> (WordBag \<times> bool list) option" where
  "run_bag bag [] = Some (bag, [])"
| "run_bag bag (BagAdd w # ops) = do { bag \<leftarrow> addToBag bag w; run_bag bag ops }"
| "run_bag bag (BagDel w # ops) =
     do { (bag, b) \<leftarrow> delFromBag bag w; (bag, bs) \<leftarrow> run_bag bag ops; Some (bag, b # bs) }"

fun spec_bag :: "UWord multiset \<Rightarrow> bag_op list \<Rightarrow> UWord multiset \<times> bool list" where
  "spec_bag M [] = (M, [])"
| "spec_bag M (BagAdd w # ops) = spec_bag (add_mset w M) ops"
| "spec_bag M (BagDel w # ops) = (let (M', bs) = spec_bag (M - {#w#}) ops in (M', (w \<in># M) # bs))"

lemma spec_bag_size: "size (fst (spec_bag M ops)) \<le> size M + length ops"
proof (induction M ops rule: spec_bag.induct)
  case (3 M w ops)
  have "size (M - {#w#}) \<le> size M" by (simp add: size_Diff_singleton_if)
  with 3 show ?case by (simp add: case_prod_beta)
qed auto

lemma run_bag_refines:
  "bag_ok bag \<Longrightarrow> size (bag_mset bag) + length ops < 2 ^ 64 \<Longrightarrow>
   \<exists>bag'. run_bag bag ops = Some (bag', snd (spec_bag (bag_mset bag) ops)) \<and> bag_ok bag'
     \<and> bag_mset bag' = fst (spec_bag (bag_mset bag) ops)"
proof (induction ops arbitrary: bag)
  case (Cons op ops)
  show ?case
  proof (cases op)
    case (BagAdd w)
    have "count (bag_mset bag) w < 2 ^ 64 - 1"
      using Cons.prems(2) count_le_size [of "bag_mset bag" w] by simp
    from addToBag_mset [OF Cons.prems(1) this] obtain bag1 where
      b: "addToBag bag w = Some bag1" "bag_ok bag1" "bag_mset bag1 = add_mset w (bag_mset bag)" by blast
    with Cons.IH [of bag1] Cons.prems(2) show ?thesis by (simp add: BagAdd)
  next
    case (BagDel w)
    obtain bag1 where b: "delFromBag bag w = Some (bag1, w \<in># bag_mset bag)" "bag_ok bag1"
      "bag_mset bag1 = bag_mset bag - {#w#}"
      using delFromBag_mset [OF Cons.prems(1)] by blast
    moreover have "size (bag_mset bag - {#w#}) \<le> size (bag_mset bag)"
      by (simp add: size_Diff_singleton_if)
    ultimately show ?thesis
      using Cons.IH [of bag1] Cons.prems(2) by (auto simp: BagDel case_prod_beta)
  qed
qed simp

lemma card_set_mset_le: "card (set_mset M) \<le> size M"
proof -
  have "card (set_mset M) = (\<Sum>x\<in>set_mset M. 1)" by simp
  also have "\<dots> \<le> (\<Sum>x\<in>set_mset M. count M x)" by (rule sum_mono) (simp add: Suc_le_eq)
  finally show ?thesis by (simp add: size_multiset_overloaded_eq)
qed

lemma isSingletonTotalBag_mset:
  assumes "bag_ok bag" and "card (set_mset (bag_mset bag)) < 2 ^ 64"
  shows "isSingletonTotalBag bag = Some (\<exists>w. bag_mset bag = {#w#})"
proof (cases "length (fm_list (bag_fm bag)) = 1")
  case True
  then obtain k v b where r: "root (bag_fm bag) = Nd Null k v b Null"
    by (cases "root (bag_fm bag)") (auto simp: fm_list_def)
  then have "bag_mset bag = replicate_mset (unat v) k" by (simp add: bag_mset_def fm_list_def)
  moreover have "(\<exists>w. replicate_mset (unat v) k = {#w#}) \<longleftrightarrow> unat v = 1"
  proof
    assume "\<exists>w. replicate_mset (unat v) k = {#w#}"
    then show "unat v = 1" by (metis size_replicate_mset size_single)
  qed auto
  ultimately show ?thesis
    using True r by (simp add: isSingletonTotalBag_def sizeFM_list word_unat_eq_iff)
next
  case False
  then have "sizeFM (bag_fm bag) \<noteq> 1"
    using assms by (simp add: sizeFM_list unique_length word_unat_eq_iff unat_of_nat)
  moreover have "bag_mset bag \<noteq> {#w#}" for w
    using False assms(1) by (auto simp: unique_length)
  ultimately show ?thesis by (simp add: isSingletonTotalBag_def)
qed

lemma anyElementOfBag_mset:
  assumes "bag_ok bag"
  shows "case anyElementOfBag bag of None \<Rightarrow> bag_mset bag = {#} | Some w \<Rightarrow> w \<in># bag_mset bag"
proof (cases "root (bag_fm bag)")
  case Null
  then show ?thesis by (simp add: anyElementOfBag_def bag_mset_def fm_list_def)
next
  case (Nd l k v b r)
  with assms have "v \<noteq> 0" by (auto simp: bag_ok_def fm_list_def)
  with Nd show ?thesis
    by (simp add: anyElementOfBag_def word_ge_1 bag_mset_def fm_list_def unsigned_eq_0_iff)
qed

section \<open>Properties\<close>

text \<open>C11: A sequence of fewer than \<open>2 ^ 64\<close> additions and deletions on a new bag fails no
  assertion, returns for every deletion whether the element was there, and leaves a bag on which
  every query agrees with the multiset the same sequence gives; \<open>anyElementOfBag\<close> fails its
  assertion on the empty bag only.\<close>

theorem wordbag_refines_multiset:
  assumes "length ops < 2 ^ 64"
  shows "\<exists>bag M. M = fst (spec_bag {#} ops)
     \<and> run_bag newBag ops = Some (bag, snd (spec_bag {#} ops))
     \<and> (\<forall>w. elemBag bag w = Some (of_nat (count M w)))
     \<and> sizeTotalBag bag = Some (of_nat (size M))
     \<and> sizeUniqueBag bag = of_nat (card (set_mset M))
     \<and> isEmptyBag bag = (M = {#})
     \<and> isSingletonTotalBag bag = Some (\<exists>w. M = {#w#})
     \<and> (case anyElementOfBag bag of None \<Rightarrow> M = {#} | Some w \<Rightarrow> w \<in># M)"
proof -
  let ?M = "fst (spec_bag {#} ops)"
  obtain bag where b: "run_bag newBag ops = Some (bag, snd (spec_bag {#} ops))" "bag_ok bag"
    "bag_mset bag = ?M"
    using run_bag_refines [of newBag ops] newBag_mset assms by auto
  have c: "card (set_mset ?M) < 2 ^ 64"
    using card_set_mset_le [of ?M] spec_bag_size [of "{#}" ops] assms by simp
  have "isEmptyBag bag = (?M = {#})"
    using c b(2,3) unique_length [OF b(2)]
    by (simp add: isEmptyBag_def sizeFM_list word_unat_eq_iff unat_of_nat)
  with b c anyElementOfBag_mset [OF b(2), unfolded b(3)] show ?thesis
    by (intro exI [of _ bag] exI [of _ ?M])
       (simp add: elemBag_mset sizeTotalBag_mset sizeUniqueBag_def sizeFM_list unique_length
         isSingletonTotalBag_mset)
qed

theorem wordbag_refines_multiset_witness:
  "\<exists>bag. run_bag newBag [BagAdd 7, BagAdd 7, BagAdd 3, BagDel 3, BagDel 3] = Some (bag, [True, False])
     \<and> elemBag bag 7 = Some 2 \<and> sizeTotalBag bag = Some 2 \<and> sizeUniqueBag bag = 1"
proof -
  let ?ops = "[BagAdd 7, BagAdd 7, BagAdd 3, BagDel 3, BagDel 3]"
  have "spec_bag {#} ?ops = ({#7, 7#}, [True, False])" by (simp add: add_mset_commute)
  then show ?thesis using wordbag_refines_multiset [of ?ops] by (auto simp del: run_bag.simps spec_bag.simps)
qed

end
