(* ===== verification/UDP_Base.thy ===== *)
theory UDP_Base
  imports Prelude
begin

text \<open>
  What the two programs of \<open>PA1/udp\<close> use of C and its library.

  \<^item> Arrays and heap blocks are lists of characters of their exact size; \<open>poke\<close> writes into
    one and fails (\<open>None\<close>) when the write leaves it. The stack region that holds the two
    control arrays \<open>seqstring\<close> and \<open>ackstring\<close> is one such list with the arrays at addresses
    that are a parameter, because \<open>sprintf\<close> writes nine bytes into these arrays of eight.
  \<^item> \<open>cs\<close> reads a C string: the characters up to the terminator. Where the code reads a string
    that may lack one, the model asks for it and fails otherwise.
  \<^item> \<open>strtol10\<close>, \<open>dec\<close> and \<open>fmt4\<close> are \<open>strtol(..., 10)\<close>, \<open>%d\<close> and \<open>%4d\<close>; \<open>fgets_take\<close> is one
    call of \<open>fgets\<close>.
  \<^item> Files: a directory maps names to contents.
\<close>

section \<open>Memory\<close>

text \<open>Buffer sizes are kept in an \<open>int\<close>.\<close>

abbreviation INT_MAX :: nat where
  "INT_MAX \<equiv> 2147483647"

definition cs :: "string \<Rightarrow> string" where
  "cs s = takeWhile (\<lambda>c. c \<noteq> NUL) s"

definition poke :: "string \<Rightarrow> nat \<Rightarrow> string \<Rightarrow> string option" where
  "poke mem off s =
     (if off + length s \<le> length mem
      then Some (take off mem @ s @ drop (off + length s) mem) else None)"

text \<open>An array of \<open>n\<close> bytes, zeroed and then filled from its start.\<close>

definition fill :: "nat \<Rightarrow> string \<Rightarrow> string" where
  "fill n s = take n (s @ replicate n NUL)"

lemma cs_append: "NUL \<notin> set s \<Longrightarrow> cs (s @ t) = s @ cs t"
  by (auto simp: cs_def takeWhile_append)

lemma cs_NUL [simp]: "cs (NUL # t) = []" "cs [] = []"
  by (simp_all add: cs_def)

lemma cs_id: "NUL \<notin> set s \<Longrightarrow> cs s = s"
  using cs_append [of s "[]"] by simp

lemma NUL_notin_cs [simp]: "NUL \<notin> set (cs s)"
  by (auto simp: cs_def dest: set_takeWhileD)

lemma cs_term: "NUL \<notin> set s \<Longrightarrow> cs (s @ NUL # t) = s"
  by (simp add: cs_append)

lemma cs_replicate: "NUL \<notin> set s \<Longrightarrow> cs (s @ replicate n NUL) = s"
  by (cases n) (simp_all add: cs_append cs_id)

lemma fill_short: "length s \<le> n \<Longrightarrow> fill n s = s @ replicate (n - length s) NUL"
  by (simp add: fill_def)

lemma length_fill [simp]: "length (fill n s) = n"
  by (simp add: fill_def)

lemma fill_fill [simp]: "fill n (fill n s) = fill n s"
  by (simp add: fill_def)

lemma cs_fill: "NUL \<notin> set s \<Longrightarrow> length s \<le> n \<Longrightarrow> cs (fill n s) = s"
  by (simp add: fill_short cs_replicate)

lemma fill_terminated: "length s < n \<Longrightarrow> NUL \<in> set (fill n s)"
  by (simp add: fill_short)

lemma poke_Some: "off + length s \<le> length mem \<Longrightarrow>
    poke mem off s = Some (take off mem @ s @ drop (off + length s) mem)"
  by (simp add: poke_def)

lemma poke_length: "poke mem off s = Some mem' \<Longrightarrow> length mem' = length mem"
  by (auto simp: poke_def split: if_splits)

text \<open>What a write leaves visible at another address: the three positions a later read can have.\<close>

lemma drop_poke_same: "poke mem off s = Some mem' \<Longrightarrow> drop off mem' = s @ drop (off + length s) mem"
  by (auto simp: poke_def split: if_splits)

lemma drop_poke_after:
  "poke mem off s = Some mem' \<Longrightarrow> off + length s \<le> a \<Longrightarrow> drop a mem' = drop a mem"
  by (auto simp: poke_def split: if_splits)

lemma take_poke_before: "poke mem off s = Some mem' \<Longrightarrow> a \<le> off \<Longrightarrow> take a mem' = take a mem"
  by (auto simp: poke_def min_def split: if_splits)

section \<open>Numbers as text\<close>

definition digit :: "nat \<Rightarrow> char" where
  "digit n = char_of (48 + n)"

definition is_digit :: "char \<Rightarrow> bool" where
  "is_digit c = (48 \<le> (of_char c :: nat) \<and> (of_char c :: nat) \<le> 57)"

definition digit_val :: "char \<Rightarrow> nat" where
  "digit_val c = of_char c - 48"

fun dec :: "nat \<Rightarrow> string" where
  "dec n = (if n < 10 then [digit n] else dec (n div 10) @ [digit (n mod 10)])"

declare dec.simps [simp del]

definition dec_int :: "int \<Rightarrow> string" where
  "dec_int i = (if i < 0 then CHR ''-'' # dec (nat (- i)) else dec (nat i))"

text \<open>\<open>%4d\<close>: at least four characters, padded with blanks on the left.\<close>

definition fmt4 :: "int \<Rightarrow> string" where
  "fmt4 i = replicate (4 - length (dec_int i)) CHR '' '' @ dec_int i"

definition is_space :: "char \<Rightarrow> bool" where
  "is_space c = (c = CHR '' '' \<or> (9 \<le> (of_char c :: nat) \<and> (of_char c :: nat) \<le> 13))"

definition digits_val :: "string \<Rightarrow> nat" where
  "digits_val s = foldl (\<lambda>n c. 10 * n + digit_val c) 0 s"

definition strtol10 :: "string \<Rightarrow> int" where
  "strtol10 s =
     (let s = dropWhile is_space s;
          (neg, s) = (case s of c # t \<Rightarrow> if c = CHR ''-'' then (True, t)
                                         else if c = CHR ''+'' then (False, t) else (False, s)
                      | [] \<Rightarrow> (False, s));
          v = int (digits_val (takeWhile is_digit s))
      in max (- (2 ^ 63)) (min (2 ^ 63 - 1) (if neg then - v else v)))"

lemma of_char_digit: "n < 10 \<Longrightarrow> (of_char (digit n) :: nat) = 48 + n"
  by (simp add: digit_def)

lemma digit_props: "n < 10 \<Longrightarrow> is_digit (digit n) \<and> digit_val (digit n) = n"
  by (simp add: is_digit_def digit_val_def of_char_digit)

lemma is_digit_not:
  assumes "is_digit c"
  shows "\<not> is_space c" "c \<noteq> CHR ''-''" "c \<noteq> CHR ''+''" "c \<noteq> NUL" "c \<noteq> CHR '' ''"
  using assms by (auto simp: is_digit_def is_space_def)

lemma dec_not_Nil [simp]: "dec n \<noteq> []"
  by (subst dec.simps) simp

lemma dec_digits: "\<forall>c \<in> set (dec n). is_digit c"
proof (induction n rule: dec.induct)
  case (1 n)
  show ?case
    by (subst dec.simps) (use 1 in \<open>simp add: digit_props\<close>)
qed

lemma dec_no_NUL [simp]: "NUL \<notin> set (dec n)" "CHR '' '' \<notin> set (dec n)"
  using dec_digits [of n] by (auto simp: is_digit_def)

lemma digits_val_dec: "digits_val (dec n) = n"
proof (induction n rule: dec.induct)
  case (1 n)
  show ?case
    by (subst dec.simps) (use 1 in \<open>simp add: digits_val_def digit_props\<close>)
qed

lemma takeWhile_dec:
  "\<not> is_digit c \<Longrightarrow> takeWhile is_digit (dec n @ c # t) = dec n" "takeWhile is_digit (dec n) = dec n"
  using dec_digits [of n] by (auto simp: takeWhile_append)

lemma strtol_dec_append:
  assumes "\<forall>c \<in> set pre. is_space c" and "n < 2 ^ 63" and "t = [] \<or> \<not> is_digit (hd t)"
  shows "strtol10 (pre @ dec n @ t) = int n"
proof -
  obtain d ds where d: "dec n = d # ds" "is_digit d"
    using dec_digits [of n] by (cases "dec n") auto
  then have "dropWhile is_space (pre @ dec n @ t) = dec n @ t"
    using assms(1) is_digit_not(1) by (simp add: dropWhile_append)
  moreover have "takeWhile is_digit (dec n @ t) = dec n"
    using assms(3) takeWhile_dec by (cases t) auto
  moreover have "digits_val (d # ds) = n" using digits_val_dec [of n] d(1) by simp
  ultimately show ?thesis
    using d is_digit_not [OF d(2)] assms(2) by (simp add: strtol10_def)
qed

lemma dec_length: "n < 10000 \<Longrightarrow> length (dec n) \<le> 4"
proof -
  have s: "length (dec n) = (if n < 10 then 1 else Suc (length (dec (n div 10))))" for n
    by (subst dec.simps) simp
  show "n < 10000 \<Longrightarrow> length (dec n) \<le> 4"
    by (simp add: s [of n] s [of "n div 10"] s [of "n div 10 div 10"] s [of "n div 10 div 10 div 10"])
qed

lemma fmt4_length: "n < 10000 \<Longrightarrow> length (fmt4 (int n)) = 4"
  using dec_length [of n] by (simp add: fmt4_def dec_int_def)

lemma fmt4_no_NUL: "NUL \<notin> set (fmt4 (int n))"
  by (auto simp: fmt4_def dec_int_def)

lemma strtol_fmt4:
  assumes "n < 10000" and "t = [] \<or> \<not> is_digit (hd t)"
  shows "strtol10 (fmt4 (int n) @ t) = int n"
  using strtol_dec_append [of "replicate (4 - length (dec n)) CHR '' ''" n t] assms
  by (simp add: fmt4_def dec_int_def is_space_def)

section \<open>Files\<close>

type_synonym dir = "string \<rightharpoonup> string"

text \<open>The name in the directory that a path relative to it means.\<close>

fun norm_path :: "string \<Rightarrow> string" where
  "norm_path (a # b # p) = (if a = CHR ''.'' \<and> b = CHR ''/'' then norm_path p else a # b # p)"
| "norm_path p = p"

text \<open>\<open>fgets\<close> with room for \<open>m\<close> characters: the line read and the rest of the file.\<close>

fun fgets_take :: "nat \<Rightarrow> string \<Rightarrow> string \<times> string" where
  "fgets_take 0 s = ([], s)"
| "fgets_take (Suc m) [] = ([], [])"
| "fgets_take (Suc m) (c # s) =
     (if c = CHR 0x0A then ([c], s) else let (l, r) = fgets_take m s in (c # l, r))"

lemma fgets_take_append: "fgets_take m s = (l, r) \<Longrightarrow> l @ r = s"
  by (induction m s arbitrary: l r rule: fgets_take.induct) (auto split: if_splits prod.splits)

lemma fgets_take_length: "fgets_take m s = (l, r) \<Longrightarrow> length l \<le> m"
  by (induction m s arbitrary: l r rule: fgets_take.induct) (auto split: if_splits prod.splits)

lemma fgets_take_progress: "fgets_take (Suc m) s = (l, r) \<Longrightarrow> s \<noteq> [] \<Longrightarrow> l \<noteq> []"
  by (cases s) (auto split: if_splits prod.splits)

lemma fgets_take_shorter: "fgets_take (Suc m) s = (l, r) \<Longrightarrow> s \<noteq> [] \<Longrightarrow> length r < length s"
  using fgets_take_append [of "Suc m" s l r] fgets_take_progress [of m s l r] by auto

lemma fgets_take_dec: "(l, r) = fgets_take m s \<Longrightarrow> m \<noteq> 0 \<Longrightarrow> s \<noteq> [] \<Longrightarrow> length r < length s"
  using fgets_take_shorter [of "m - 1" s l r] by (cases m) auto

section \<open>The surroundings of a process\<close>

text \<open>What a program relies on and does not control: where the compiler has put the two control
  arrays in the region \<open>stk\<close>, the contents of memory from \<open>malloc\<close>, the bytes that follow a string
  literal (the code sends 100 bytes from literals of ten) and a heap block of size 0, the output
  of \<open>/bin/ls\<close> and which files can be opened for writing.\<close>

record udp_env =
  seqA :: nat
  ackA :: nat
  uninit :: "nat \<Rightarrow> char"
  beyond :: string
  past_heap :: string
  ls_out :: "dir \<Rightarrow> string option"
  can_write :: "string \<Rightarrow> bool"

definition MAXBUFSIZE :: nat where
  "MAXBUFSIZE = 100"

definition framesize :: nat where
  "framesize = MAXBUFSIZE - 9"

definition lit100 :: "udp_env \<Rightarrow> string \<Rightarrow> string" where
  "lit100 e s = take MAXBUFSIZE (s @ NUL # beyond e)"

text \<open>The control part of a frame, built in the stack region: zero both arrays, print the
  sequence string and the acknowledgement into them, then \<open>snprintf\<close> the frame from what the
  address of \<open>seqstring\<close> reads.\<close>

definition make_frame :: "udp_env \<Rightarrow> string \<Rightarrow> int \<Rightarrow> string \<Rightarrow> (string \<times> string) option" where
  "make_frame e stk seq data =
     do { stk \<leftarrow> poke stk (seqA e) (replicate 8 NUL);
          stk \<leftarrow> poke stk (ackA e) (replicate 8 NUL);
          stk \<leftarrow> poke stk (seqA e) (''SEQ '' @ fmt4 seq @ [NUL]);
          stk \<leftarrow> poke stk (ackA e) (''ACK '' @ fmt4 seq @ [NUL]);
          vg_assert (NUL \<in> set (drop (seqA e) stk));
          Some (stk, fill MAXBUFSIZE (take (MAXBUFSIZE - 1) (cs (drop (seqA e) stk) @ cs data))) }"

text \<open>The control part of a received frame: the sequence number, and the acknowledgement printed
  over it.\<close>

definition read_seq :: "udp_env \<Rightarrow> string \<Rightarrow> string \<Rightarrow> (string \<times> int) option" where
  "read_seq e stk buffer =
     do { stk \<leftarrow> poke stk (seqA e) (replicate 8 NUL);
          stk \<leftarrow> poke stk (seqA e) (fill 8 (take 8 (cs buffer)));
          vg_assert (NUL \<in> set (drop (seqA e + 4) stk));
          Some (stk, strtol10 (cs (drop (seqA e + 4) stk))) }"

definition write_ack :: "udp_env \<Rightarrow> string \<Rightarrow> int \<Rightarrow> (string \<times> string) option" where
  "write_ack e stk seq =
     do { stk \<leftarrow> poke stk (seqA e) (replicate 8 NUL);
          stk \<leftarrow> poke stk (seqA e) (''ACK '' @ fmt4 seq @ [NUL]);
          Some (stk, take 8 (drop (seqA e) stk)) }"

text \<open>\<open>strcpy(data + seq * framesize, buffer + 8)\<close>.\<close>

definition store_frame :: "string \<Rightarrow> int \<Rightarrow> string \<Rightarrow> string option" where
  "store_frame data seq buffer =
     do { vg_assert (seq \<ge> 0); vg_assert (NUL \<in> set (drop 8 buffer));
          poke data (nat seq * framesize) (cs (drop 8 buffer) @ [NUL]) }"

definition next_seq :: "int \<Rightarrow> int" where
  "next_seq seq = (if seq = 9999 then 0 else seq + 1)"

end
