(* ===== verification/UDP_Server.thy ===== *)
theory UDP_Server
  imports UDP_Base
begin

text \<open>
  The file server \<open>PA1/udp/udp_server.c\<close>.

  The program blocks only in \<open>recvfrom\<close>. Its state between two datagrams is a record with the
  variables that live across them and the place where it waits (\<open>server_pc\<close>); \<open>server_recv\<close> is
  everything it does from the return of one \<open>recvfrom\<close> to the next call, and returns the
  datagrams it sends on the way. \<open>None\<close> is a write outside a heap block or array, a read of an
  unterminated array, or a write to a string literal.

  The functions that build a response (\<open>writegetresponse\<close>, \<open>writelsresponse\<close>) share the loop
  \<open>response_loop\<close>: they differ in the size of the line buffer only. The size of
  their block is an \<open>int\<close>: when the next size does not fit (with the terminator), the converted
  value is negative, \<open>realloc\<close> is asked for almost all of the address space and \<open>strcat\<close> writes
  through the null pointer it returns, so the result is \<open>None\<close>. Allocation of less than \<open>INT_MAX\<close>
  bytes succeeds.
\<close>

section \<open>Building responses\<close>

text \<open>The \<open>fgets\<close> loop. The line buffer has \<open>n + 3\<close> bytes, of which \<open>fgets\<close> may fill \<open>n + 1\<close> and a
  terminator; \<open>cap\<close> is the size of the block \<open>response\<close> points to.\<close>

function response_loop :: "nat \<Rightarrow> nat \<Rightarrow> nat \<Rightarrow> nat \<Rightarrow> string \<Rightarrow> string \<Rightarrow> string option" where
  "response_loop n str_size str_len cap response file =
     (if file = [] then Some response
      else
        let (line, rest) = fgets_take (Suc n) file;
            grow = str_len + (n + 3) > str_size;
            (str_size, cap) = (if grow then (str_len + 10 * (n + 3), str_len + 10 * (n + 3) + 1)
                               else (str_size, cap))
        in if (grow \<longrightarrow> str_size + 1 \<le> INT_MAX) \<and> length response + length (cs line) + 1 \<le> cap
           then response_loop n str_size (str_len + (n + 3)) cap (response @ cs line) rest
           else None)"
  by pat_completeness auto
termination
  by (relation "measure (\<lambda>(n, sz, len, cap, r, file). length file)")
     (auto dest: fgets_take_dec)

declare response_loop.simps [simp del]

text \<open>\<open>filename[strlen(filename) - 1] = 0\<close> on the string at index 4 of a command.\<close>

definition chop_newline :: "string \<Rightarrow> string" where
  "chop_newline request = request[3 + length (cs (drop 4 request)) := NUL]"

text \<open>The block for \<open>filepath\<close> has \<open>sizeof(curdir) + sizeof(filename) + 1\<close> bytes, the sizes of two
  pointers and one.\<close>

definition make_filepath :: "string \<Rightarrow> string option" where
  "make_filepath filename =
     do { vg_assert (length (''./'' @ filename) + 1 \<le> 8 + 8 + 1); Some (''./'' @ filename) }"

text \<open>Returns the command with the newline overwritten, the response and the value of the
  caller's \<open>response_len\<close>, which is 0 before the call: on a missing file the code assigns to the
  pointer and leaves it.\<close>

definition writegetresponse :: "dir \<Rightarrow> string \<Rightarrow> (string \<times> string \<times> nat) option" where
  "writegetresponse fs request =
     (let request = chop_newline request;
          filename = cs (drop 4 request) in
      do { filepath \<leftarrow> make_filepath filename;
           (case fs (norm_path filepath) of
              None \<Rightarrow> Some (request, ''FILE NOT FOUND: '' @ filename, 0)
            | Some contents \<Rightarrow>
                do { response \<leftarrow> response_loop 97 256 0 256 [] contents;
                     Some (request, response, length response) }) })"

text \<open>\<open>None\<close> in the result is the literal \<open>""\<close> returned when \<open>popen\<close> fails.\<close>

definition writelsresponse :: "udp_env \<Rightarrow> dir \<Rightarrow> (string option \<times> nat) option" where
  "writelsresponse e fs =
     (case ls_out e fs of
        None \<Rightarrow> Some (None, 0)
      | Some out \<Rightarrow> do { response \<leftarrow> response_loop 1032 256 0 256 [] out;
                       Some (Some response, length response) })"

section \<open>The state of \<open>main\<close>\<close>

datatype server_pc =
    SIdle                              \<comment> \<open>line 169: waiting for a command\<close>
  | SPut string int string             \<comment> \<open>line 212: filename, filesize, the block \<open>data\<close>\<close>
  | SStart string                      \<comment> \<open>line 279: the frame \<open>START n\<close> is out\<close>
  | SFrames nat string                 \<comment> \<open>line 315: offset of the frame that is out, and the frame\<close>
  | SDone                              \<comment> \<open>main has returned\<close>

record server =
  s_pc :: server_pc
  s_request :: string
  s_commandresponse :: string
  s_response :: "string option"
  s_response_len :: nat
  s_seq :: int
  s_stk :: string
  s_fs :: dir

text \<open>The head of the loop (lines 162 to 165); \<open>bzero\<close> on the literal faults.\<close>

definition server_top :: "server \<Rightarrow> server option" where
  "server_top s =
     (case s_response s of
        None \<Rightarrow> None
      | Some _ \<Rightarrow> Some (s\<lparr>s_pc := SIdle, s_request := replicate MAXBUFSIZE NUL, s_response_len := 0,
                          s_response := Some [], s_commandresponse := replicate MAXBUFSIZE NUL\<rparr>))"

definition server_init :: "string \<Rightarrow> dir \<Rightarrow> server" where
  "server_init stk fs =
     \<lparr>s_pc = SIdle, s_request = replicate MAXBUFSIZE NUL, s_commandresponse = replicate MAXBUFSIZE NUL,
      s_response = Some [], s_response_len = 0, s_seq = 0, s_stk = stk, s_fs = fs\<rparr>"

text \<open>The condition of the loop of \<open>put\<close>, which compares without sign, and what follows it.\<close>

definition put_check :: "udp_env \<Rightarrow> server \<Rightarrow> string \<Rightarrow> int \<Rightarrow> string \<Rightarrow> server option" where
  "put_check e s filename filesize data =
     do { vg_assert (NUL \<in> set data);
          if filesize < 0 \<or> int (length (cs data)) < filesize then Some (s\<lparr>s_pc := SPut filename filesize data\<rparr>)
          else server_top (if can_write e filename
                           then s\<lparr>s_fs := (s_fs s)(norm_path filename \<mapsto> cs data)\<rparr> else s) }"

text \<open>\<open>malloc(filesize + 1)\<close> and \<open>bzero(data, sizeof(data))\<close>, which clears the size of a pointer.\<close>

definition put_alloc :: "udp_env \<Rightarrow> int \<Rightarrow> string option" where
  "put_alloc e filesize =
     do { vg_assert (filesize + 1 \<ge> 0);
          poke (map (uninit e) [0..<nat (filesize + 1)]) 0 (replicate 8 NUL) }"

definition server_put :: "udp_env \<Rightarrow> server \<Rightarrow> server option" where
  "server_put e s =
     (let rest = cs (drop 4 (s_request s)) in
      if CHR '' '' \<notin> set rest then Some (s\<lparr>s_pc := SDone\<rparr>)
      else
        let filename = takeWhile (\<lambda>c. c \<noteq> CHR '' '') rest;
            filesize = strtol10 (drop (length filename) rest) in
        do { data \<leftarrow> put_alloc e filesize; put_check e s filename filesize data })"

definition start_frame :: "nat \<Rightarrow> string" where
  "start_frame response_len = fill MAXBUFSIZE (''START '' @ dec response_len)"

definition respond :: "server \<Rightarrow> (server \<times> string list) option" where
  "respond s =
     (let f = start_frame (s_response_len s) in Some (s\<lparr>s_pc := SStart f\<rparr>, [f]))"

text \<open>The condition of the loop over the frames, and the construction of the next frame.\<close>

definition server_frame :: "udp_env \<Rightarrow> server \<Rightarrow> nat \<Rightarrow> (server \<times> string list) option" where
  "server_frame e s i =
     (if i < s_response_len s then
        do { response \<leftarrow> s_response s;
             (stk, frame) \<leftarrow> make_frame e (s_stk s) (s_seq s) (drop i response);
             Some (s\<lparr>s_stk := stk, s_pc := SFrames i frame\<rparr>, [frame]) }
      else do { s \<leftarrow> server_top s; Some (s, []) })"

text \<open>The commands, after the acknowledgement has been sent.\<close>

definition server_command :: "udp_env \<Rightarrow> server \<Rightarrow> (server \<times> string list) option" where
  "server_command e s =
     (let c = cs (s_request s) in
      if take 4 c = ''get '' then
        do { (request, response, len) \<leftarrow> writegetresponse (s_fs s) (s_request s);
             respond (s\<lparr>s_request := request, s_response := Some response, s_response_len := len\<rparr>) }
      else if take 4 c = ''put '' then
        do { s \<leftarrow> server_put e s; Some (s, []) }
      else if take 2 c = ''ls'' then
        do { (response, len) \<leftarrow> writelsresponse e (s_fs s);
             respond (s\<lparr>s_response := response, s_response_len := len\<rparr>) }
      else if take 4 c = ''exit'' then
        Some (s\<lparr>s_pc := SDone\<rparr>, [lit100 e ''ACK EXIT''])
      else
        let response = ''NOT RECOGNIZED: '' @ take (MAXBUFSIZE - 17) c in
        respond (s\<lparr>s_response := Some response, s_response_len := length response\<rparr>))"

text \<open>One datagram.\<close>

definition server_recv :: "udp_env \<Rightarrow> server \<Rightarrow> string \<Rightarrow> (server \<times> string list) option" where
  "server_recv e s d =
     (let buffer = fill MAXBUFSIZE d in
      case s_pc s of
        SIdle \<Rightarrow>
          if cs buffer = [] then do { s \<leftarrow> server_top s; Some (s, []) }
          else
            do { vg_assert (NUL \<in> set buffer);
                 let commandresponse = fill MAXBUFSIZE (take (MAXBUFSIZE - 2) (''ACK '' @ cs buffer)) in
                 do { (s, out) \<leftarrow> server_command e
                        (s\<lparr>s_request := buffer, s_commandresponse := commandresponse\<rparr>);
                      Some (s, commandresponse # out) } }
      | SPut filename filesize data \<Rightarrow>
          if take 4 (cs (s_request s)) = take 4 (cs buffer) then
            do { s' \<leftarrow> put_check e s filename filesize data; Some (s', [s_commandresponse s]) }
          else
            do { (stk, seq) \<leftarrow> read_seq e (s_stk s) buffer;
                 data \<leftarrow> store_frame data seq buffer;
                 (stk, ack) \<leftarrow> write_ack e stk seq;
                 s' \<leftarrow> put_check e (s\<lparr>s_stk := stk, s_seq := seq\<rparr>) filename filesize data;
                 Some (s', [ack]) }
      | SStart frame \<Rightarrow>
          if take 9 (cs buffer) = ''ACK START'' then
            (if s_response_len s > 0 then server_frame e (s\<lparr>s_seq := 0\<rparr>) 0
             else do { s \<leftarrow> server_top s; Some (s, []) })
          else if cs buffer = cs (s_request s) then Some (s, [s_commandresponse s, frame])
          else Some (s, [frame])
      | SFrames i frame \<Rightarrow>
          if take 8 (cs buffer) = take 8 (cs (take 8 (drop (ackA e) (s_stk s)))) then
            server_frame e (s\<lparr>s_seq := next_seq (s_seq s)\<rparr>) (i + framesize)
          else Some (s, [frame])
      | SDone \<Rightarrow> Some (s, []))"

end
