(* ===== verification/UDP_Client.thy ===== *)
theory UDP_Client
  imports UDP_Server
begin

text \<open>
  The client \<open>PA1/udp/udp_client.c\<close>, modelled like the server: its state between two datagrams,
  \<open>client_recv\<close> for what it does with one, and \<open>client_next\<close> for the head of its loop, which
  reads commands from the standard input until one needs the network.
\<close>

section \<open>Reading the file of a \<open>put\<close>\<close>

text \<open>The \<open>fgets\<close> loop of \<open>writeputrequest\<close>: lines of at most 8 characters; \<open>cap\<close> is the size of the
  block \<open>request\<close> points to, 256 at first and \<open>str_size + 1\<close> after a \<open>realloc\<close>. \<open>str_size\<close> is an \<open>int\<close>,
  and doubling \<open>2 ^ 30\<close> overflows it.\<close>

function request_loop :: "nat \<Rightarrow> nat \<Rightarrow> string \<Rightarrow> string \<Rightarrow> string option" where
  "request_loop str_size cap request file =
     (if file = [] then Some request
      else
        let (line, rest) = fgets_take 8 file;
            grow = length request + length (cs line) > str_size;
            (str_size, cap) = (if grow then (str_size * 2, str_size * 2 + 1) else (str_size, cap))
        in if (grow \<longrightarrow> str_size \<le> INT_MAX) \<and> length request + length (cs line) + 1 \<le> cap
           then request_loop str_size cap (request @ cs line) rest
           else None)"
  by pat_completeness auto
termination
  by (relation "measure (\<lambda>(sz, cap, r, file). length file)")
     (auto dest: fgets_take_dec)

declare request_loop.simps [simp del]

text \<open>Returns the command with the newline overwritten, the contents and \<open>request_len\<close>, which is 0
  before the call and stays 0 when the file is missing.\<close>

definition writeputrequest :: "dir \<Rightarrow> string \<Rightarrow> (string \<times> string \<times> nat) option" where
  "writeputrequest fs command =
     (let command = chop_newline command;
          filename = cs (drop 4 command) in
      do { filepath \<leftarrow> make_filepath filename;
           (case fs (norm_path filepath) of
              None \<Rightarrow> Some (command, [], 0)
            | Some contents \<Rightarrow>
                do { request \<leftarrow> request_loop 256 256 [] contents;
                     Some (command, request, length request) }) })"

section \<open>The state of \<open>main\<close>\<close>

datatype client_pc =
    CAck                    \<comment> \<open>line 145: waiting for the acknowledgement of the command\<close>
  | CFrame nat string       \<comment> \<open>line 181: offset of the frame that is out, and the frame\<close>
  | CStart                  \<comment> \<open>line 212\<close>
  | CData int string        \<comment> \<open>line 229: filesize, the block \<open>data\<close>\<close>
  | CDone                   \<comment> \<open>end of the input\<close>

record client =
  c_pc :: client_pc
  c_stdin :: string
  c_command :: string
  c_request :: string
  c_request_len :: nat
  c_seq :: int
  c_stk :: string
  c_filename :: string
  c_fs :: dir
  c_says :: "string list"

text \<open>\<open>strcat(command, filesizestring)\<close>.\<close>

definition append_size :: "string \<Rightarrow> nat \<Rightarrow> string option" where
  "append_size command len =
     poke command (length (cs command)) (CHR '' '' # dec len @ [NUL])"

text \<open>\<open>sprintf(commandresponse, "%s%s", "ACK ", command)\<close> into 100 bytes.\<close>

definition expected_ack :: "string \<Rightarrow> string option" where
  "expected_ack command =
     do { vg_assert (length (''ACK '' @ cs command) + 1 \<le> MAXBUFSIZE); Some (''ACK '' @ cs command) }"

definition send_command :: "client \<Rightarrow> (client \<times> string list) option" where
  "send_command c =
     do { _ \<leftarrow> expected_ack (c_command c); Some (c\<lparr>c_pc := CAck\<rparr>, [c_command c]) }"

function client_next :: "client \<Rightarrow> (client \<times> string list) option" where
  "client_next c =
     (if c_stdin c = [] then Some (c\<lparr>c_pc := CDone\<rparr>, [])
      else
        let (line, rest) = fgets_take 99 (c_stdin c);
            c = c\<lparr>c_stdin := rest, c_request_len := 0\<rparr> in
        do { command \<leftarrow> poke (c_command c) 0 (line @ [NUL]);
             if take 4 (cs command) = ''put '' then
               do { (command, request, len) \<leftarrow> writeputrequest (c_fs c) command;
                    command \<leftarrow> append_size command len;
                    let c' = c\<lparr>c_command := command, c_request := request, c_request_len := len\<rparr> in
                    if take 4 (cs command) \<noteq> ''put '' \<or> len > 0 then send_command c'
                    else client_next c' }
             else send_command (c\<lparr>c_command := command\<rparr>) })"
  by pat_completeness auto
termination
  by (relation "measure (\<lambda>c. length (c_stdin c))")
     (auto dest: fgets_take_dec)

declare client_next.simps [simp del]

definition client_init :: "string \<Rightarrow> string \<Rightarrow> dir \<Rightarrow> string \<Rightarrow> client" where
  "client_init stk command fs inp =
     \<lparr>c_pc = CDone, c_stdin = inp, c_command = command, c_request = [], c_request_len = 0, c_seq = 0,
      c_stk = stk, c_filename = [], c_fs = fs, c_says = []\<rparr>"

text \<open>The condition of the loop over the frames of a \<open>put\<close>, and the construction of a frame.\<close>

definition client_frame :: "udp_env \<Rightarrow> client \<Rightarrow> nat \<Rightarrow> (client \<times> string list) option" where
  "client_frame e c i =
     (if i < c_request_len c then
        do { (stk, frame) \<leftarrow> make_frame e (c_stk c) (c_seq c) (drop i (c_request c));
             Some (c\<lparr>c_stk := stk, c_pc := CFrame i frame\<rparr>, [frame]) }
      else client_next c)"

text \<open>The condition of the loop that receives a response and what follows it. The length and the size
  are compared without sign, so a negative size counts as larger than every length. A block of
  size 0 reads what lies behind it.\<close>

definition client_check :: "udp_env \<Rightarrow> client \<Rightarrow> int \<Rightarrow> string \<Rightarrow> (client \<times> string list) option" where
  "client_check e c filesize data =
     do { vg_assert (NUL \<in> set data \<or> data = []);
          let str = (if data = [] then cs (past_heap e) else cs data) in
          if filesize < 0 \<or> int (length str) < filesize then Some (c\<lparr>c_pc := CData filesize data\<rparr>, [])
          else if take 4 (cs (c_command c)) = ''get '' then
            client_next (if can_write e (c_filename c)
                         then c\<lparr>c_fs := (c_fs c)(norm_path (c_filename c) \<mapsto> str)\<rparr> else c)
          else client_next (c\<lparr>c_says := c_says c @ [str]\<rparr>) }"

text \<open>The size in a \<open>START\<close> frame: a \<open>long\<close> stored in an \<open>int\<close>.\<close>

definition start_size :: "string \<Rightarrow> int" where
  "start_size buffer = signed_take_bit 31 (strtol10 (cs (drop 6 buffer)))"

text \<open>After the acknowledgement of the command: lines 151 to 207.\<close>

definition client_acked :: "udp_env \<Rightarrow> client \<Rightarrow> (client \<times> string list) option" where
  "client_acked e c =
     (if c_request_len c > 0 then client_frame e (c\<lparr>c_seq := 0\<rparr>) 0
      else if take 4 (cs (c_command c)) = ''get '' then
        do { vg_assert (length (cs (c_command c)) \<ge> 5);
             let filename = take (length (cs (c_command c)) - 5) (drop 4 (cs (c_command c))) in
             Some (c\<lparr>c_filename := filename, c_pc := CStart\<rparr>, []) }
      else Some (c\<lparr>c_pc := CStart\<rparr>, []))"

definition client_recv :: "udp_env \<Rightarrow> client \<Rightarrow> string \<Rightarrow> (client \<times> string list) option" where
  "client_recv e c d =
     (let buffer = fill MAXBUFSIZE d in
      case c_pc c of
        CAck \<Rightarrow>
          do { ack \<leftarrow> expected_ack (c_command c);
               if cs buffer = ack then client_acked e c else send_command c }
      | CFrame i frame \<Rightarrow>
          if take 8 (cs buffer) = take 8 (cs (take 8 (drop (ackA e) (c_stk c)))) then
            client_frame e (c\<lparr>c_seq := next_seq (c_seq c)\<rparr>) (i + framesize)
          else Some (c, [frame])
      | CStart \<Rightarrow>
          if take 6 (cs buffer) = ''START '' then
            (let filesize = start_size buffer in
             do { vg_assert (0 \<le> filesize \<and> filesize < 2 ^ 30);
                  (c, out) \<leftarrow> client_check e c filesize (replicate (nat (filesize * 2)) NUL);
                  Some (c, lit100 e ''ACK START'' # out) })
          else Some (c, [])
      | CData filesize data \<Rightarrow>
          if take 6 (cs buffer) = ''START '' then
            do { (c, out) \<leftarrow> client_check e c (start_size buffer) data;
                 Some (c, lit100 e ''ACK START'' # out) }
          else if take 4 (cs buffer) = ''SEQ '' then
            do { (stk, seq) \<leftarrow> read_seq e (c_stk c) buffer;
                 data \<leftarrow> store_frame data seq buffer;
                 (stk, ack) \<leftarrow> write_ack e stk seq;
                 (c, out) \<leftarrow> client_check e (c\<lparr>c_stk := stk, c_seq := seq\<rparr>) filesize data;
                 Some (c, ack # out) }
          else do { (c, out) \<leftarrow> client_check e c filesize data; Some (c, out) }
      | CDone \<Rightarrow> Some (c, []))"

end
