(* ===== verification/UDP_Frames.thy ===== *)
theory UDP_Frames
  imports UDP_Client
begin

text \<open>
  Facts on frames that server and client share: what a frame looks like on the wire when the
  control arrays do not touch, that the receiver reads back the sequence number, and how the
  block \<open>data\<close> grows by one frame. Then the two functions that read a body.
\<close>

section \<open>Control arrays that do not touch\<close>

text \<open>\<open>tx_ok\<close>: the nine bytes written at \<open>seqstring\<close> and at \<open>ackstring\<close> do not overlap. \<open>rx_ok\<close>: the
  byte after \<open>seqstring\<close> does not continue the four digits.\<close>

definition tx_ok :: "udp_env \<Rightarrow> string \<Rightarrow> bool" where
  "tx_ok e stk = ((seqA e + 9 \<le> ackA e \<or> ackA e + 9 \<le> seqA e)
     \<and> seqA e + 9 \<le> length stk \<and> ackA e + 9 \<le> length stk)"

definition rx_ok :: "udp_env \<Rightarrow> string \<Rightarrow> bool" where
  "rx_ok e stk = (seqA e + 9 \<le> length stk \<and> \<not> is_digit (stk ! (seqA e + 8))
     \<and> NUL \<in> set (drop (seqA e + 8) stk))"

definition data_frame :: "string \<Rightarrow> nat \<Rightarrow> string" where
  "data_frame body k = fill 100 (''SEQ '' @ fmt4 (int k) @ take 91 (drop (91 * k) body))"

definition ack_text :: "nat \<Rightarrow> string" where
  "ack_text k = ''ACK '' @ fmt4 (int k)"

lemma ack_text_props: "k < 10000 \<Longrightarrow> length (ack_text k) = 8" "NUL \<notin> set (ack_text k)"
  by (auto simp: ack_text_def fmt4_length fmt4_no_NUL)

lemma framesize_91 [simp]: "framesize = 91"
  by (simp add: framesize_def MAXBUFSIZE_def)

lemma make_frame_ok:
  assumes "tx_ok e stk" and "k < 10000" and "NUL \<notin> set body"
  shows "\<exists>stk'. make_frame e stk (int k) (drop (91 * k) body) = Some (stk', data_frame body k)
     \<and> length stk' = length stk \<and> take 8 (drop (ackA e) stk') = ack_text k"
proof -
  let ?s = "''SEQ '' @ fmt4 (int k) @ [NUL]" and ?a = "''ACK '' @ fmt4 (int k) @ [NUL]"
  have l: "length (fmt4 (int k)) = 4" using assms(2) by (rule fmt4_length)
  have fits: "seqA e + 9 \<le> length stk" "ackA e + 9 \<le> length stk"
    using assms(1) by (auto simp: tx_ok_def)
  obtain s1 where s1: "poke stk (seqA e) (replicate 8 NUL) = Some s1"
    using fits by (simp add: poke_def)
  obtain s2 where s2: "poke s1 (ackA e) (replicate 8 NUL) = Some s2"
    using fits poke_length [OF s1] by (simp add: poke_def)
  obtain s3 where s3: "poke s2 (seqA e) ?s = Some s3"
    using fits l poke_length [OF s1] poke_length [OF s2] by (simp add: poke_def)
  obtain s4 where s4: "poke s3 (ackA e) ?a = Some s4"
    using fits l poke_length [OF s1] poke_length [OF s2] poke_length [OF s3] by (simp add: poke_def)
  have len: "length s4 = length stk" "length s3 = length stk"
    using poke_length [OF s1] poke_length [OF s2] poke_length [OF s3] poke_length [OF s4] by simp_all
  have "\<exists>r. drop (seqA e) s4 = ?s @ r"
  proof (cases "seqA e + 9 \<le> ackA e")
    case True
    have "take (9 + seqA e) s4 = take (9 + seqA e) s3"
      using take_poke_before [OF s4, of "9 + seqA e"] True by (simp add: add.commute)
    then have "take 9 (drop (seqA e) s4) = take 9 (drop (seqA e) s3)"
      by (simp add: take_drop)
    also have "\<dots> = ?s" using drop_poke_same [OF s3] l by simp
    finally show ?thesis by (metis append_take_drop_id)
  next
    case False
    then have "ackA e + length ?a \<le> seqA e" using assms(1) l by (simp add: tx_ok_def)
    with drop_poke_after [OF s4] drop_poke_same [OF s3] show ?thesis by metis
  qed
  then obtain r where r: "drop (seqA e) s4 = ?s @ r" by blast
  then have "cs (drop (seqA e) s4) = ''SEQ '' @ fmt4 (int k)"
    using cs_term [of "''SEQ '' @ fmt4 (int k)" r] fmt4_no_NUL by simp
  moreover have "NUL \<in> set (drop (seqA e) s4)" using r by simp
  moreover have "cs (drop (91 * k) body) = drop (91 * k) body"
    using assms(3) by (intro cs_id) (auto dest: in_set_dropD)
  moreover have "take 8 (drop (ackA e) s4) = ack_text k"
    using drop_poke_same [OF s4] l by (simp add: ack_text_def)
  ultimately show ?thesis
    using s1 s2 s3 s4 len l by (simp add: make_frame_def data_frame_def MAXBUFSIZE_def)
qed

section \<open>Receiving a frame\<close>

lemma data_frame_parts:
  assumes "k < 10000" and "NUL \<notin> set body"
  shows "cs (data_frame body k) = ''SEQ '' @ fmt4 (int k) @ take 91 (drop (91 * k) body)"
    and "drop 8 (data_frame body k) = fill 92 (take 91 (drop (91 * k) body))"
    and "fill 100 (data_frame body k) = data_frame body k"
proof -
  have l: "length (fmt4 (int k)) = 4" using assms(1) by (rule fmt4_length)
  have "NUL \<notin> set (take 91 (drop (91 * k) body))"
    using assms(2) by (auto dest: in_set_takeD in_set_dropD)
  then show "cs (data_frame body k) = ''SEQ '' @ fmt4 (int k) @ take 91 (drop (91 * k) body)"
    using l fmt4_no_NUL [of k] by (simp add: data_frame_def cs_fill)
  show "drop 8 (data_frame body k) = fill 92 (take 91 (drop (91 * k) body))"
    using l by (simp add: data_frame_def fill_short)
  show "fill 100 (data_frame body k) = data_frame body k" by (simp add: data_frame_def)
qed

lemma chunk_no_NUL: "NUL \<notin> set body \<Longrightarrow> NUL \<notin> set (take n (drop m body))"
  by (auto dest: in_set_takeD in_set_dropD)

lemma read_seq_ok:
  assumes "rx_ok e stk" and "k < 10000" and "NUL \<notin> set body"
  shows "\<exists>stk'. read_seq e stk (data_frame body k) = Some (stk', int k) \<and> length stk' = length stk"
proof -
  let ?t = "''SEQ '' @ fmt4 (int k)"
  have l: "length (fmt4 (int k)) = 4" using assms(2) by (rule fmt4_length)
  have fits: "seqA e + 9 \<le> length stk" using assms(1) by (simp add: rx_ok_def)
  obtain s1 where s1: "poke stk (seqA e) (replicate 8 NUL) = Some s1"
    using fits by (simp add: poke_def)
  obtain s2 where s2: "poke s1 (seqA e) ?t = Some s2"
    using fits l poke_length [OF s1] by (simp add: poke_def)
  have d: "drop (seqA e) s2 = ?t @ drop (seqA e + 8) stk"
    using drop_poke_same [OF s2] drop_poke_after [OF s1, of "seqA e + 8"] l by simp
  have "drop (seqA e + 4) s2 = drop 4 (drop (seqA e) s2)" by (simp add: add.commute)
  also have "\<dots> = fmt4 (int k) @ drop (seqA e + 8) stk" by (simp add: d l)
  finally have d4: "drop (seqA e + 4) s2 = fmt4 (int k) @ drop (seqA e + 8) stk" .
  have "strtol10 (cs (drop (seqA e + 4) s2)) = int k"
  proof -
    have "drop (seqA e + 8) stk = stk ! (seqA e + 8) # drop (seqA e + 9) stk"
      using fits Cons_nth_drop_Suc [of "seqA e + 8" stk] by (simp add: add.commute)
    then have "cs (drop (seqA e + 8) stk) = [] \<or> \<not> is_digit (hd (cs (drop (seqA e + 8) stk)))"
      using assms(1) by (auto simp: rx_ok_def cs_def)
    then show ?thesis using assms(2) by (simp add: d4 cs_append fmt4_no_NUL strtol_fmt4)
  qed
  moreover have "NUL \<in> set (drop (seqA e + 4) s2)" using assms(1) by (simp add: d4 rx_ok_def)
  moreover have "fill 8 (take 8 (cs (data_frame body k))) = ?t"
    using l by (simp add: data_frame_parts [OF assms(2,3)] fill_def)
  ultimately show ?thesis
    using s1 s2 poke_length [OF s1] poke_length [OF s2] by (simp add: read_seq_def)
qed

lemma write_ack_ok:
  assumes "seqA e + 9 \<le> length stk" and "k < 10000"
  shows "\<exists>stk'. write_ack e stk (int k) = Some (stk', ack_text k) \<and> length stk' = length stk
     \<and> rx_ok e stk'"
proof -
  let ?t = "''ACK '' @ fmt4 (int k) @ [NUL]"
  have l: "length (fmt4 (int k)) = 4" using assms(2) by (rule fmt4_length)
  obtain s1 where s1: "poke stk (seqA e) (replicate 8 NUL) = Some s1"
    using assms(1) by (simp add: poke_def)
  obtain s2 where s2: "poke s1 (seqA e) ?t = Some s2"
    using assms(1) l poke_length [OF s1] by (simp add: poke_def)
  have len: "length s2 = length stk" using poke_length [OF s1] poke_length [OF s2] by simp
  have d: "drop (seqA e) s2 = ?t @ drop (seqA e + 9) s1" using drop_poke_same [OF s2] l by simp
  have "drop (seqA e + 8) s2 = drop 8 (drop (seqA e) s2)" by (simp add: add.commute)
  also have "\<dots> = NUL # drop (seqA e + 9) s1" by (simp add: d l)
  finally have d8: "drop (seqA e + 8) s2 = NUL # drop (seqA e + 9) s1" .
  then have "s2 ! (seqA e + 8) = NUL"
    using nth_via_drop by metis
  moreover have "\<not> is_digit NUL" by (simp add: is_digit_def)
  ultimately have "rx_ok e s2" using assms(1) len d8 by (simp add: rx_ok_def)
  then show ?thesis using s1 s2 len l d by (simp add: write_ack_def ack_text_def)
qed

text \<open>The block \<open>data\<close> holds the first \<open>k\<close> frames of the body and then a terminator.\<close>

definition holds :: "string \<Rightarrow> nat \<Rightarrow> string \<Rightarrow> bool" where
  "holds body k data = (cs data = take (91 * k) body \<and> NUL \<in> set data \<and> length body < length data)"

lemma cs_prefix: "NUL \<in> set data \<Longrightarrow> \<exists>r. data = cs data @ NUL # r"
proof (induction data)
  case (Cons c data)
  then show ?case by (cases "c = NUL") (auto simp: cs_def)
qed simp

lemma store_frame_ok:
  assumes "holds body k data" and "91 * k < length body" and "k < 10000" and "NUL \<notin> set body"
  shows "\<exists>data'. store_frame data (int k) (data_frame body k) = Some data' \<and> holds body (Suc k) data'
     \<and> length data' = length data"
proof -
  let ?c = "take 91 (drop (91 * k) body)"
  have cs: "cs (drop 8 (data_frame body k)) = ?c" "NUL \<in> set (drop 8 (data_frame body k))"
    using chunk_no_NUL [OF assms(4), of 91 "91 * k"]
    by (simp_all add: data_frame_parts [OF assms(3,4)] cs_fill fill_terminated)
  obtain r where r: "data = cs data @ NUL # r"
    using assms(1) cs_prefix [of data] unfolding holds_def by blast
  have pre: "take (91 * k) data = take (91 * k) body"
  proof -
    have "length (cs data) = 91 * k" using assms(1,2) by (simp add: holds_def)
    then have "take (91 * k) data = cs data" by (subst r) simp
    with assms(1) show ?thesis by (simp add: holds_def)
  qed
  have fits: "91 * k + length (?c @ [NUL]) \<le> length data"
    using assms(1,2) by (auto simp: holds_def)
  define data' where "data' = take (91 * k) body @ (?c @ [NUL]) @ drop (91 * k + length (?c @ [NUL])) data"
  have sf: "store_frame data (int k) (data_frame body k) = Some data'"
    using fits pre by (simp add: store_frame_def cs poke_def data'_def mult.commute)
  have "91 * Suc k = 91 * k + 91" by simp
  then have "take (91 * k) body @ ?c = take (91 * Suc k) body" by (simp only: take_add)
  then have d': "data' = take (91 * Suc k) body @ NUL # drop (91 * k + length (?c @ [NUL])) data"
    by (simp add: data'_def)
  have "length data' = length data"
    using sf fits by (auto simp: store_frame_def cs poke_def mult.commute)
  moreover have "holds body (Suc k) data'"
    using d' cs_term [of "take (91 * Suc k) body"] assms(1,4) \<open>length data' = length data\<close>
    by (auto simp: holds_def dest: in_set_takeD)
  ultimately show ?thesis using sf by blast
qed

lemma holds_0: "data = NUL # r \<Longrightarrow> length body < length data \<Longrightarrow> holds body 0 data"
  by (simp add: holds_def)

section \<open>Reading a file\<close>

lemma cs_length: "length (cs s) \<le> length s"
  by (simp add: cs_def length_takeWhile_le)

text \<open>The server's loop never leaves its block: the space it accounts per line is that of the
  line buffer, more than the line. The bound keeps the sizes below \<open>INT_MAX\<close>.\<close>

lemma response_loop_ok:
  "length response \<le> str_len \<Longrightarrow> str_size \<le> cap \<Longrightarrow>
   str_len + (n + 3) * length body + 10 * (n + 3) + 1 \<le> INT_MAX \<Longrightarrow>
   \<exists>r. response_loop n str_size str_len cap response body = Some r
     \<and> (NUL \<notin> set body \<longrightarrow> r = response @ body)"
proof (induction "length body" arbitrary: str_size str_len cap response body rule: less_induct)
  case less
  show ?case
  proof (cases "body = []")
    case True
    then show ?thesis by (simp add: response_loop.simps)
  next
    case False
    obtain line rest where lr: "fgets_take (Suc n) body = (line, rest)"
      by (cases "fgets_take (Suc n) body")
    let ?grow = "str_len + (n + 3) > str_size"
    let ?sz = "if ?grow then str_len + 10 * (n + 3) else str_size"
    let ?cap = "if ?grow then str_len + 10 * (n + 3) + 1 else cap"
    have app: "body = line @ rest" using fgets_take_append [OF lr] by simp
    have len: "length (cs line) \<le> Suc n"
      using fgets_take_length [OF lr] cs_length [of line] by simp
    have fits: "length response + length (cs line) + 1 \<le> ?cap" "?sz \<le> ?cap"
      using less.prems len by auto
    have sh: "length rest < length body" by (rule fgets_take_shorter [OF lr False])
    then have "(n + 3) * Suc (length rest) \<le> (n + 3) * length body" by (intro mult_le_mono2) simp
    then have "str_len + (n + 3) + (n + 3) * length rest + 10 * (n + 3) + 1 \<le> INT_MAX" using less.prems(3) by simp
    moreover have "length (response @ cs line) \<le> str_len + (n + 3)" using less.prems len by simp
    ultimately obtain r where
      r: "response_loop n ?sz (str_len + (n + 3)) ?cap (response @ cs line) rest = Some r"
         "NUL \<notin> set rest \<longrightarrow> r = (response @ cs line) @ rest"
      using less.hyps [OF sh _ fits(2)] by blast
    have "response_loop n str_size str_len cap response body
        = response_loop n ?sz (str_len + (n + 3)) ?cap (response @ cs line) rest"
      using False lr fits less.prems(3) by (cases ?grow) (subst response_loop.simps, simp add: Let_def)+
    moreover have "NUL \<notin> set body \<Longrightarrow> cs line = line" using app by (auto intro: cs_id)
    ultimately show ?thesis using r app by auto
  qed
qed

text \<open>Where the client's loop is after each line.\<close>

function line_ends :: "nat \<Rightarrow> string \<Rightarrow> nat list" where
  "line_ends off body =
     (if body = [] then []
      else let (line, rest) = fgets_take 8 body
           in (off + length line) # line_ends (off + length line) rest)"
  by pat_completeness auto
termination
  by (relation "measure (\<lambda>(off, body). length body)") (auto dest: fgets_take_dec)

declare line_ends.simps [simp del]

lemma line_ends_ge: "x \<in> set (line_ends off body) \<Longrightarrow> off \<le> x"
proof (induction off body rule: line_ends.induct)
  case (1 off body)
  show ?case
  proof (cases "body = []")
    case False
    obtain line rest where lr: "fgets_take 8 body = (line, rest)" by (cases "fgets_take 8 body")
    with 1(1) [OF False lr [symmetric] refl] 1(2) False show ?thesis
      by (subst (asm) line_ends.simps) auto
  qed (use 1 in \<open>simp add: line_ends.simps\<close>)
qed

lemma request_loop_unfold:
  assumes "fgets_take 8 body = (line, rest)" "body \<noteq> []" "NUL \<notin> set body"
  shows "request_loop sz cap request body =
     (if length request + length line > sz
      then if sz * 2 \<le> INT_MAX \<and> length request + length line + 1 \<le> sz * 2 + 1
           then request_loop (sz * 2) (sz * 2 + 1) (request @ line) rest else None
      else if length request + length line + 1 \<le> cap then request_loop sz cap (request @ line) rest
           else None)"
proof -
  have "cs line = line" using fgets_take_append [OF assms(1)] assms(3) by (auto intro: cs_id)
  with assms show ?thesis by (subst request_loop.simps) (simp add: Let_def)
qed

text \<open>Sizes are powers of two from 256 on: the loop succeeds up to \<open>2 ^ 30\<close> characters and
  overflows the size when there are more.\<close>

lemma double_fits: "k \<le> 30 \<Longrightarrow> (2 :: nat) ^ k * 2 \<le> INT_MAX \<longleftrightarrow> k < 30"
proof -
  assume "k \<le> 30"
  have "(2 :: nat) ^ k \<le> 2 ^ 29" if "k < 30" using that by (intro power_increasing) auto
  then show "(2 :: nat) ^ k * 2 \<le> INT_MAX \<longleftrightarrow> k < 30" using \<open>k \<le> 30\<close> by (cases "k = 30") auto
qed

lemma request_loop_grown:
  "NUL \<notin> set body \<Longrightarrow> 3 \<le> k \<Longrightarrow> k \<le> 30 \<Longrightarrow> length request \<le> 2 ^ k \<Longrightarrow>
   request_loop (2 ^ k) (2 ^ k + 1) request body =
     (if length request + length body \<le> 2 ^ 30 then Some (request @ body) else None)"
proof (induction "length body" arbitrary: body k request rule: less_induct)
  case less
  have le: "(2 :: nat) ^ k \<le> 2 ^ 30" "(8 :: nat) \<le> 2 ^ k"
    using less.prems(2,3) power_increasing [of k 30 "2 :: nat"] power_increasing [of 3 k "2 :: nat"] by simp_all
  show ?case
  proof (cases "body = []")
    case True
    then show ?thesis using less.prems(4) le(1) by (simp add: request_loop.simps)
  next
    case False
    obtain line rest where lr: "fgets_take 8 body = (line, rest)" by (cases "fgets_take 8 body")
    have app: "body = line @ rest" using fgets_take_append [OF lr] by simp
    have "length rest < length body" using lr False by (metis fgets_take_dec zero_neq_numeral)
    note ih = less.hyps [OF this]
    have len: "length line \<le> 8" by (rule fgets_take_length [OF lr])
    note unfold = request_loop_unfold [OF lr False less.prems(1)] double_fits [OF less.prems(3)]
    have nul: "NUL \<notin> set rest" using less.prems(1) app by simp
    show ?thesis
    proof (cases "length request + length line \<le> 2 ^ k")
      case True
      with ih [of k "request @ line"] less.prems nul app show ?thesis unfolding unfold by simp
    next
      case grow: False
      show ?thesis
      proof (cases "k < 30")
        case True
        with ih [of "Suc k" "request @ line"] less.prems nul app grow len le(2) show ?thesis
          unfolding unfold by (simp add: mult.commute)
      next
        case False
        with less.prems(3) have "k = 30" by simp
        with grow app show ?thesis unfolding unfold by simp
      qed
    qed
  qed
qed

lemma request_loop_first:
  "NUL \<notin> set body \<Longrightarrow> length request < 256 \<Longrightarrow>
   request_loop 256 256 request body =
     (if 256 \<in> set (line_ends (length request) body) \<or> 2 ^ 30 < length request + length body
      then None else Some (request @ body))"
proof (induction "length body" arbitrary: body request rule: less_induct)
  case less
  show ?case
  proof (cases "body = []")
    case True
    then show ?thesis using less.prems(2) by (simp add: request_loop.simps line_ends.simps)
  next
    case False
    obtain line rest where lr: "fgets_take 8 body = (line, rest)" by (cases "fgets_take 8 body")
    have app: "body = line @ rest" using fgets_take_append [OF lr] by simp
    have "length rest < length body" using lr False by (metis fgets_take_dec zero_neq_numeral)
    note ih = less.hyps [OF this]
    have len: "length line \<le> 8" by (rule fgets_take_length [OF lr])
    have ends: "line_ends (length request) body
        = (length request + length line) # line_ends (length request + length line) rest"
      using False lr by (subst line_ends.simps) simp
    consider "length request + length line < 256" | "length request + length line = 256"
      | "length request + length line > 256" by linarith
    then show ?thesis
    proof cases
      case 1
      with less.prems app ih [of "request @ line"] ends show ?thesis
        unfolding request_loop_unfold [OF lr False less.prems(1)] by simp
    next
      case 2
      with ends show ?thesis by (simp add: request_loop_unfold [OF lr False less.prems(1)])
    next
      case 3
      have "256 \<notin> set (line_ends (length request + length line) rest)"
        using line_ends_ge 3 by fastforce
      moreover have "request_loop 512 513 (request @ line) rest =
          (if length request + length body \<le> 2 ^ 30 then Some (request @ line @ rest) else None)"
        using request_loop_grown [of rest 9 "request @ line"] less.prems app len by (simp add: add.assoc)
      ultimately show ?thesis
        using 3 len less.prems(2) ends app
        unfolding request_loop_unfold [OF lr False less.prems(1)] by simp
    qed
  qed
qed

end
