(* ===== verification/UDP_System.thy ===== *)
theory UDP_System
  imports UDP_Frames
begin

text \<open>
  Server and client joined by two first-in first-out channels. \<open>deliver\<close> hands the oldest
  datagram of a channel to its receiver; \<open>net\<close> may also drop it. The properties are the file
  transfers of a \<open>put\<close> and a \<open>get\<close>: that they complete when nothing is lost, that losses never
  leave a wrong file behind, and that a loss stops the transfer for good.
\<close>

section \<open>The system\<close>

record sys =
  srv :: server
  cli :: client
  c2s :: "string list"
  s2c :: "string list"

inductive deliver :: "udp_env \<Rightarrow> udp_env \<Rightarrow> sys \<Rightarrow> sys \<Rightarrow> bool" for es ec where
  to_server: "c2s y = d # q \<Longrightarrow> server_recv es (srv y) d = Some (s', out) \<Longrightarrow>
     deliver es ec y (y\<lparr>srv := s', c2s := q, s2c := s2c y @ out\<rparr>)"
| to_client: "s2c y = d # q \<Longrightarrow> client_recv ec (cli y) d = Some (c', out) \<Longrightarrow>
     deliver es ec y (y\<lparr>cli := c', s2c := q, c2s := c2s y @ out\<rparr>)"

inductive net :: "udp_env \<Rightarrow> udp_env \<Rightarrow> sys \<Rightarrow> sys \<Rightarrow> bool" for es ec where
  deliver: "deliver es ec y y' \<Longrightarrow> net es ec y y'"
| lose_c2s: "c2s y = d # q \<Longrightarrow> net es ec y (y\<lparr>c2s := q\<rparr>)"
| lose_s2c: "s2c y = d # q \<Longrightarrow> net es ec y (y\<lparr>s2c := q\<rparr>)"

text \<open>A crash: a datagram that arrives makes its receiver leave its memory.\<close>

definition crashes :: "udp_env \<Rightarrow> udp_env \<Rightarrow> sys \<Rightarrow> bool" where
  "crashes es ec y =
     ((case c2s y of [] \<Rightarrow> False | d # _ \<Rightarrow> server_recv es (srv y) d = None)
      \<or> (case s2c y of [] \<Rightarrow> False | d # _ \<Rightarrow> client_recv ec (cli y) d = None))"

lemma deliver_server:
  "server_recv es s d = Some (s', out) \<Longrightarrow>
   deliver es ec \<lparr>srv = s, cli = c, c2s = d # q, s2c = r\<rparr> \<lparr>srv = s', cli = c, c2s = q, s2c = r @ out\<rparr>"
  using deliver.to_server [of "\<lparr>srv = s, cli = c, c2s = d # q, s2c = r\<rparr>" d q es s' out ec] by simp

lemma deliver_client:
  "client_recv ec c d = Some (c', out) \<Longrightarrow>
   deliver es ec \<lparr>srv = s, cli = c, c2s = q, s2c = d # r\<rparr> \<lparr>srv = s, cli = c', c2s = q @ out, s2c = r\<rparr>"
  using deliver.to_client [of "\<lparr>srv = s, cli = c, c2s = q, s2c = d # r\<rparr>" d r ec c' out es] by simp

section \<open>One round of a \<open>put\<close>\<close>

text \<open>The server in the receiving loop with \<open>k\<close> frames, and what it becomes with the next one.\<close>

definition put_srv :: "udp_env \<Rightarrow> server \<Rightarrow> string \<Rightarrow> string \<Rightarrow> nat \<Rightarrow> server \<Rightarrow> bool" where
  "put_srv es s0 name body k s =
     (\<exists>data. s_pc s = SPut name (int (length body)) data \<and> holds body k data
        \<and> rx_ok es (s_stk s) \<and> take 4 (cs (s_request s)) = ''put ''
        \<and> s_fs s = s_fs s0 \<and> s_response s \<noteq> None)"

definition put_srv_done :: "udp_env \<Rightarrow> server \<Rightarrow> string \<Rightarrow> string \<Rightarrow> server \<Rightarrow> bool" where
  "put_srv_done es s0 name body s =
     (s_pc s = SIdle \<and> rx_ok es (s_stk s)
        \<and> s_fs s = (if can_write es name then (s_fs s0)(norm_path name \<mapsto> body) else s_fs s0)
        \<and> s_response s \<noteq> None)"

lemma put_check_cases:
  assumes "holds body k data" and "s_response s \<noteq> None"
  shows "put_check es s name (int (length body)) data =
     (if 91 * k < length body then Some (s\<lparr>s_pc := SPut name (int (length body)) data\<rparr>)
      else server_top (if can_write es name then s\<lparr>s_fs := (s_fs s)(norm_path name \<mapsto> body)\<rparr> else s))"
  using assms by (auto simp: put_check_def holds_def)

lemma server_put_frame:
  assumes s: "put_srv es s0 name body k s" and k: "91 * k < length body" "k < 10000"
    and b: "NUL \<notin> set body"
  shows "\<exists>s'. server_recv es s (data_frame body k) = Some (s', [ack_text k])
     \<and> (if 91 * Suc k < length body then put_srv es s0 name body (Suc k) s'
         else put_srv_done es s0 name body s')"
proof -
  obtain data where d: "s_pc s = SPut name (int (length body)) data" "holds body k data"
    "rx_ok es (s_stk s)" "take 4 (cs (s_request s)) = ''put ''" "s_fs s = s_fs s0"
    "s_response s \<noteq> None"
    using s by (auto simp: put_srv_def)
  obtain stk1 where stk1: "read_seq es (s_stk s) (data_frame body k) = Some (stk1, int k)"
    "length stk1 = length (s_stk s)"
    using read_seq_ok [OF d(3) k(2) b] by blast
  obtain stk2 where stk2: "write_ack es stk1 (int k) = Some (stk2, ack_text k)" "rx_ok es stk2"
    using write_ack_ok [of es stk1 k] d(3) k(2) stk1(2) by (auto simp: rx_ok_def)
  obtain data' where data': "store_frame data (int k) (data_frame body k) = Some data'"
    "holds body (Suc k) data'"
    using store_frame_ok [OF d(2) k b] by blast
  let ?s = "s\<lparr>s_stk := stk2, s_seq := int k\<rparr>"
  have pc: "put_check es ?s name (int (length body)) data' =
      (if 91 * Suc k < length body then Some (?s\<lparr>s_pc := SPut name (int (length body)) data'\<rparr>)
       else server_top (if can_write es name then ?s\<lparr>s_fs := (s_fs ?s)(norm_path name \<mapsto> body)\<rparr> else ?s))"
    using put_check_cases [OF data'(2), of ?s es name] d(6) by simp
  have ne: "take 4 (cs (data_frame body k)) \<noteq> ''put ''"
    by (simp add: data_frame_parts [OF k(2) b])
  have recv: "server_recv es s (data_frame body k) =
      do { s' \<leftarrow> put_check es ?s name (int (length body)) data'; Some (s', [ack_text k]) }"
    using d(1,4) ne stk1(1) stk2(1) data'(1)
    by (simp add: server_recv_def MAXBUFSIZE_def data_frame_parts [OF k(2) b])
  show ?thesis
    using d stk2(2) data'(2) unfolding recv pc
    by (auto simp: server_top_def put_srv_def put_srv_done_def)
qed

text \<open>The client in the sending loop, with frame \<open>k\<close> out.\<close>

definition put_cli :: "udp_env \<Rightarrow> client \<Rightarrow> string \<Rightarrow> nat \<Rightarrow> client \<Rightarrow> bool" where
  "put_cli ec c0 body k c =
     (c_pc c = CFrame (91 * k) (data_frame body k) \<and> c_request c = body
      \<and> c_request_len c = length body \<and> c_seq c = int k \<and> tx_ok ec (c_stk c)
      \<and> take 8 (drop (ackA ec) (c_stk c)) = ack_text k \<and> c_stdin c = [] \<and> c_fs c = c_fs c0)"

lemma tx_ok_length: "tx_ok e stk \<Longrightarrow> length stk' = length stk \<Longrightarrow> tx_ok e stk'"
  by (simp add: tx_ok_def)

lemma client_frame_ok:
  assumes "91 * k < length body" "k < 10000" "NUL \<notin> set body" "tx_ok ec (c_stk c)"
    and "c_request c = body" "c_request_len c = length body" "c_stdin c = []" "c_seq c = int k"
    and "c_fs c = c_fs c0"
  shows "\<exists>c'. client_frame ec c (91 * k) = Some (c', [data_frame body k]) \<and> put_cli ec c0 body k c'"
proof -
  obtain stk where stk: "make_frame ec (c_stk c) (int k) (drop (91 * k) body) = Some (stk, data_frame body k)"
    "length stk = length (c_stk c)" "take 8 (drop (ackA ec) stk) = ack_text k"
    using make_frame_ok [OF assms(4,2,3)] by blast
  show ?thesis
    using assms stk tx_ok_length [OF assms(4) stk(2)] by (simp add: client_frame_def put_cli_def)
qed

lemma cs_ack: "k < 10000 \<Longrightarrow> cs (fill 100 (ack_text k)) = ack_text k"
  using ack_text_props by (simp add: cs_fill)

lemma next_seq_Suc: "Suc k < 10000 \<Longrightarrow> next_seq (int k) = int (Suc k)"
  by (simp add: next_seq_def)

lemma client_put_ack:
  assumes c: "put_cli ec c0 body k c" and k: "91 * k < length body" "length body \<le> 910000"
    and b: "NUL \<notin> set body"
  shows "\<exists>c' out. client_recv ec c (ack_text k) = Some (c', out)
     \<and> (if 91 * Suc k < length body then put_cli ec c0 body (Suc k) c' \<and> out = [data_frame body (Suc k)]
         else c_pc c' = CDone \<and> out = [] \<and> c_fs c' = c_fs c0)"
proof -
  have k': "k < 10000" using k by simp
  let ?c = "c\<lparr>c_seq := next_seq (c_seq c)\<rparr>"
  have recv: "client_recv ec c (ack_text k) = client_frame ec ?c (91 * Suc k)"
    using c k' cs_ack [OF k'] ack_text_props [of k] cs_id [of "ack_text k"]
    by (simp add: client_recv_def put_cli_def MAXBUFSIZE_def add.commute)
  show ?thesis
  proof (cases "91 * Suc k < length body")
    case True
    then have "Suc k < 10000" using k(2) by simp
    with True c b next_seq_Suc [of k] show ?thesis
      using client_frame_ok [of "Suc k" body ec ?c c0] unfolding recv by (auto simp: put_cli_def)
  next
    case False
    with c show ?thesis unfolding recv
      by (simp add: client_frame_def client_next.simps put_cli_def)
  qed
qed

section \<open>The command of a \<open>put\<close>\<close>

definition name_ok :: "string \<Rightarrow> bool" where
  "name_ok name = (name \<noteq> [] \<and> length name \<le> 14
     \<and> (\<forall>c \<in> set name. c \<noteq> NUL \<and> c \<noteq> CHR 0x0A \<and> c \<noteq> CHR '' ''))"

lemma fgets_line:
  "CHR 0x0A \<notin> set s \<Longrightarrow> length s < m \<Longrightarrow> fgets_take m (s @ CHR 0x0A # t) = (s @ [CHR 0x0A], t)"
proof (induction s arbitrary: m)
  case Nil
  then show ?case by (cases m) auto
next
  case (Cons c s)
  then show ?case by (cases m) auto
qed

lemma cs_drop: "n \<le> length (cs s) \<Longrightarrow> cs (drop n s) = drop n (cs s)"
proof (induction n arbitrary: s)
  case (Suc n)
  then show ?case by (cases s) (auto simp: cs_def split: if_splits)
qed simp

text \<open>A command in its array: the text, a terminator, and what is left of earlier commands.\<close>

lemma poke_start: "length s \<le> length mem \<Longrightarrow> \<exists>r. poke mem 0 s = Some (s @ r) \<and> length (s @ r) = length mem"
  by (auto simp: poke_def)

lemma cmd_array:
  assumes "NUL \<notin> set t"
  shows "cs (t @ NUL # r) = t" "NUL \<in> set (t @ NUL # r)"
  using assms by (simp_all add: cs_term)

lemma chop_newline_cmd:
  assumes "length p = 4" "NUL \<notin> set name"
  shows "chop_newline (p @ name @ CHR 0x0A # NUL # r) = p @ name @ NUL # NUL # r"
proof -
  have "cs (drop 4 (p @ name @ CHR 0x0A # NUL # r)) = name @ [CHR 0x0A]"
    using assms cs_term [of "name @ [CHR 0x0A]" r] by simp
  then show ?thesis using assms by (simp add: chop_newline_def list_update_append)
qed

lemma append_size_cmd:
  assumes "NUL \<notin> set t" "length (t @ NUL # r) = 100" "length t + 1 + length (dec n) < 100"
  shows "\<exists>r'. append_size (t @ NUL # r) n = Some (t @ '' '' @ dec n @ NUL # r')
     \<and> length (t @ '' '' @ dec n @ NUL # r') = 100"
  using assms by (auto simp: append_size_def cs_term poke_def)

lemma dec_length_le: "n < 10 ^ k \<Longrightarrow> 0 < k \<Longrightarrow> length (dec n) \<le> k"
proof (induction k arbitrary: n)
  case (Suc k)
  show ?case
  proof (cases "n < 10")
    case True
    then show ?thesis by (subst dec.simps) simp
  next
    case False
    then have "0 < k" using Suc.prems by (cases k) auto
    moreover have "n div 10 < 10 ^ k" using Suc.prems(1) by (simp add: less_mult_imp_div_less mult.commute)
    ultimately have "length (dec (n div 10)) \<le> k" using Suc.IH by blast
    with False show ?thesis by (subst dec.simps) simp
  qed
qed simp

lemma norm_path_curdir: "norm_path (''./'' @ name) = norm_path name"
  by simp

lemma client_put_command:
  assumes "c_stdin c = ''put '' @ name @ [CHR 0x0A]" "length (c_command c) = 100" "name_ok name"
    and "c_fs c (norm_path name) = Some body" "body \<noteq> []" "NUL \<notin> set body"
    and "256 \<notin> set (line_ends 0 body)" "length body \<le> 910000"
  shows "\<exists>c1. client_next c = Some (c1, [c_command c1])
     \<and> cs (c_command c1) = ''put '' @ name @ '' '' @ dec (length body) \<and> length (c_command c1) = 100
     \<and> c_pc c1 = CAck \<and> c_request c1 = body \<and> c_request_len c1 = length body \<and> c_stdin c1 = []
     \<and> c_fs c1 = c_fs c \<and> c_stk c1 = c_stk c"
proof -
  let ?line = "''put '' @ name @ [CHR 0x0A]"
  have n: "NUL \<notin> set name" "CHR 0x0A \<notin> set name" "length name \<le> 14"
    using assms(3) by (auto simp: name_ok_def)
  have f: "fgets_take 99 (c_stdin c) = (?line, [])"
    using fgets_line [of "''put '' @ name" 99 "[]"] n assms(1) by simp
  obtain r where r: "poke (c_command c) 0 (?line @ [NUL]) = Some (''put '' @ name @ CHR 0x0A # NUL # r)"
    "length (''put '' @ name @ CHR 0x0A # NUL # r) = 100"
    using poke_start [of "?line @ [NUL]" "c_command c"] n assms(2) by auto
  let ?cmd1 = "''put '' @ name @ NUL # NUL # r"
  have chop: "chop_newline (''put '' @ name @ CHR 0x0A # NUL # r) = ?cmd1"
    using chop_newline_cmd [of "''put ''" name r] n(1) by simp
  have nm: "cs (drop 4 ?cmd1) = name" using n(1) by (simp add: cs_term)
  have w: "writeputrequest (c_fs c) (''put '' @ name @ CHR 0x0A # NUL # r) = Some (?cmd1, body, length body)"
    using n(3) assms(4,6,7,8) request_loop_first [of body "[]"] norm_path_curdir [of name]
    unfolding writeputrequest_def Let_def chop nm by (simp add: make_filepath_def)
  have "length (dec (length body)) \<le> 6" using assms(8) by (intro dec_length_le) auto
  then obtain r' where r': "append_size ?cmd1 (length body)
      = Some ((''put '' @ name) @ '' '' @ dec (length body) @ NUL # r')"
    "length ((''put '' @ name) @ '' '' @ dec (length body) @ NUL # r') = 100"
    using append_size_cmd [of "''put '' @ name" "NUL # r" "length body"] n r(2) by auto
  let ?cmd = "(''put '' @ name) @ '' '' @ dec (length body) @ NUL # r'"
  have cs: "cs ?cmd = ''put '' @ name @ '' '' @ dec (length body)"
    using cs_term [of "''put '' @ name @ '' '' @ dec (length body)" r'] n(1) by simp
  have cs0: "take 4 (cs (''put '' @ name @ CHR 0x0A # NUL # r)) = ''put ''"
    using cs_term [of "''put '' @ name @ [CHR 0x0A]" r] n(1) by simp
  have fits: "length (''ACK '' @ cs ?cmd) + 1 \<le> 100"
    using \<open>length (dec (length body)) \<le> 6\<close> n(3) unfolding cs by simp
  define c1 where "c1 = c\<lparr>c_stdin := [], c_request_len := length body, c_command := ?cmd,
      c_request := body, c_pc := CAck\<rparr>"
  have "client_next c = Some (c1, [?cmd])"
    using assms(1,5) f r(1) cs0 w r'(1) fits
    by (subst client_next.simps)
       (simp add: send_command_def expected_ack_def MAXBUFSIZE_def c1_def cs del: append_assoc)
  moreover have "c_command c1 = ?cmd" by (simp add: c1_def)
  ultimately show ?thesis using cs r'(2) by (intro exI [of _ c1]) (simp add: c1_def)
qed

lemma fill_id: "length s = n \<Longrightarrow> fill n s = s"
  by (simp add: fill_def)

lemma put_alloc_ok:
  assumes "7 \<le> n"
  shows "\<exists>data. put_alloc es (int n) = Some (NUL # data) \<and> length (NUL # data) = n + 1"
proof -
  have l: "length (map (uninit es) [0..<nat (int n + 1)]) = n + 1" by simp
  have "poke (map (uninit es) [0..<nat (int n + 1)]) 0 (replicate 8 NUL)
      = Some (replicate 8 NUL @ drop 8 (map (uninit es) [0..<nat (int n + 1)]))"
    using assms l by (simp add: poke_def del: length_map)
  moreover have "replicate 8 NUL = NUL # replicate 7 NUL" by (simp add: numeral_eq_Suc)
  ultimately show ?thesis using assms by (simp add: put_alloc_def)
qed

definition idle_ok :: "udp_env \<Rightarrow> server \<Rightarrow> bool" where
  "idle_ok es s = (s_pc s = SIdle \<and> rx_ok es (s_stk s) \<and> s_response s \<noteq> None)"

lemma server_put_command:
  assumes s: "idle_ok es s" and n: "name_ok name" and len: "7 \<le> length body" "length body \<le> 910000"
    and cmd: "length cmd = 100" "cs cmd = ''put '' @ name @ '' '' @ dec (length body)" "NUL \<in> set cmd"
  shows "\<exists>s'. server_recv es s cmd = Some (s', [fill 100 (''ACK '' @ cs cmd)])
     \<and> put_srv es s name body 0 s'"
proof -
  have nm: "NUL \<notin> set name" "CHR '' '' \<notin> set name" "length name \<le> 14"
    using n by (auto simp: name_ok_def)
  have "length (dec (length body)) \<le> 6" using len by (intro dec_length_le) auto
  then have short: "length (''ACK '' @ cs cmd) \<le> 98" using nm(3) by (simp add: cmd(2))
  have rest: "cs (drop 4 cmd) = name @ '' '' @ dec (length body)"
    using cs_drop [of 4 cmd] by (simp add: cmd(2))
  have fn: "takeWhile (\<lambda>c. c \<noteq> CHR '' '') (cs (drop 4 cmd)) = name"
    unfolding rest using nm(2) by (induction name) auto
  have sz: "strtol10 (drop (length name) (cs (drop 4 cmd))) = int (length body)"
    using strtol_dec_append [of "'' ''" "length body" "[]"] len unfolding rest
    by (simp add: is_space_def)
  obtain data where data: "put_alloc es (int (length body)) = Some (NUL # data)"
    "length (NUL # data) = length body + 1"
    using put_alloc_ok [OF len(1)] by blast
  let ?s = "s\<lparr>s_request := cmd, s_commandresponse := fill 100 (''ACK '' @ cs cmd)\<rparr>"
  have ne: "body \<noteq> []" using len(1) by auto
  have h: "holds body 0 (NUL # data)" using data(2) by (intro holds_0) auto
  have "server_put es ?s = Some (?s\<lparr>s_pc := SPut name (int (length body)) (NUL # data)\<rparr>)"
    using put_check_cases [OF h, of ?s es name] s ne data(1) sz fn
    by (simp add: server_put_def Let_def rest idle_ok_def)
  moreover have "take 4 (cs cmd) = ''put ''" "cs cmd \<noteq> []" by (simp_all add: cmd(2))
  moreover have "fill 100 (take 98 (''ACK '' @ cs cmd)) = fill 100 (''ACK '' @ cs cmd)"
    using short by simp
  ultimately have "server_recv es s cmd
      = Some (?s\<lparr>s_pc := SPut name (int (length body)) (NUL # data)\<rparr>, [fill 100 (''ACK '' @ cs cmd)])"
    using s cmd(1,3)
    by (simp add: server_recv_def server_command_def idle_ok_def MAXBUFSIZE_def fill_id Let_def)
  then show ?thesis using h s cmd by (auto simp: put_srv_def idle_ok_def)
qed

lemma client_put_acked:
  assumes "c_pc c = CAck" "length (''ACK '' @ cs (c_command c)) + 1 \<le> 100"
    and "c_request c = body" "c_request_len c = length body" "c_stdin c = []" "tx_ok ec (c_stk c)"
    and "body \<noteq> []" "NUL \<notin> set body"
  shows "\<exists>c'. client_recv ec c (fill 100 (''ACK '' @ cs (c_command c))) = Some (c', [data_frame body 0])
     \<and> put_cli ec c body 0 c'"
proof -
  have "cs (fill 100 (''ACK '' @ cs (c_command c))) = ''ACK '' @ cs (c_command c)"
    using assms(2) by (intro cs_fill) auto
  then have "client_recv ec c (fill 100 (''ACK '' @ cs (c_command c))) = client_frame ec (c\<lparr>c_seq := 0\<rparr>) 0"
    using assms by (simp add: client_recv_def expected_ack_def client_acked_def MAXBUFSIZE_def)
  then show ?thesis using client_frame_ok [of 0 body ec "c\<lparr>c_seq := 0\<rparr>" c] assms by simp
qed

section \<open>The phases of a \<open>put\<close>\<close>

text \<open>The states a \<open>put\<close> goes through, with the number of deliveries that are left. \<open>lost\<close> tells
  that the datagram in flight has been dropped.\<close>

definition frames :: "string \<Rightarrow> nat" where
  "frames body = (length body + 90) div 91"

definition flight :: "bool \<Rightarrow> string \<Rightarrow> string list" where
  "flight lost d = (if lost then [] else [d])"

inductive put_phase :: "udp_env \<Rightarrow> udp_env \<Rightarrow> server \<Rightarrow> client \<Rightarrow> string \<Rightarrow> string \<Rightarrow> bool \<Rightarrow> nat \<Rightarrow> sys \<Rightarrow> bool"
  for es ec s0 c1 name body where
  cmd_out: "put_phase es ec s0 c1 name body lost (2 * frames body + 2)
     \<lparr>srv = s0, cli = c1, c2s = flight lost (c_command c1), s2c = []\<rparr>"
| cmd_ack: "put_srv es s0 name body 0 s \<Longrightarrow> put_phase es ec s0 c1 name body lost (2 * frames body + 1)
     \<lparr>srv = s, cli = c1, c2s = [], s2c = flight lost (fill 100 (''ACK '' @ cs (c_command c1)))\<rparr>"
| frame_out: "put_srv es s0 name body k s \<Longrightarrow> put_cli ec c1 body k c \<Longrightarrow> 91 * k < length body \<Longrightarrow>
     put_phase es ec s0 c1 name body lost (2 * (frames body - k))
     \<lparr>srv = s, cli = c, c2s = flight lost (data_frame body k), s2c = []\<rparr>"
| frame_ack: "(if 91 * Suc k < length body then put_srv es s0 name body (Suc k) s
      else put_srv_done es s0 name body s) \<Longrightarrow> put_cli ec c1 body k c \<Longrightarrow> 91 * k < length body \<Longrightarrow>
     put_phase es ec s0 c1 name body lost (2 * (frames body - k) - 1)
     \<lparr>srv = s, cli = c, c2s = [], s2c = flight lost (ack_text k)\<rparr>"
| finished: "put_srv_done es s0 name body s \<Longrightarrow> c_pc c = CDone \<Longrightarrow> c_fs c = c_fs c1 \<Longrightarrow>
     put_phase es ec s0 c1 name body lost 0 \<lparr>srv = s, cli = c, c2s = [], s2c = []\<rparr>"

lemma frames_bound: "91 * k < length body \<longleftrightarrow> k < frames body"
  by (auto simp: frames_def)

text \<open>What the transfer needs of both sides; every clause is used.\<close>

definition put_setup :: "udp_env \<Rightarrow> udp_env \<Rightarrow> server \<Rightarrow> client \<Rightarrow> string \<Rightarrow> string \<Rightarrow> bool" where
  "put_setup es ec s c name body =
     (idle_ok es s \<and> name_ok name \<and> 7 \<le> length body \<and> length body \<le> 910000 \<and> NUL \<notin> set body
      \<and> 256 \<notin> set (line_ends 0 body)
      \<and> tx_ok ec (c_stk c) \<and> length (c_command c) = 100 \<and> c_fs c (norm_path name) = Some body
      \<and> c_stdin c = ''put '' @ name @ [CHR 0x0A])"

definition put_started :: "udp_env \<Rightarrow> udp_env \<Rightarrow> server \<Rightarrow> client \<Rightarrow> string \<Rightarrow> string \<Rightarrow> bool" where
  "put_started es ec s c1 name body =
     (idle_ok es s \<and> name_ok name \<and> 7 \<le> length body \<and> length body \<le> 910000 \<and> NUL \<notin> set body
      \<and> cs (c_command c1) = ''put '' @ name @ '' '' @ dec (length body) \<and> length (c_command c1) = 100
      \<and> NUL \<in> set (c_command c1) \<and> length (''ACK '' @ cs (c_command c1)) + 1 \<le> 100
      \<and> c_pc c1 = CAck \<and> c_request c1 = body \<and> c_request_len c1 = length body \<and> c_stdin c1 = []
      \<and> tx_ok ec (c_stk c1))"

lemma cs_shorter_terminated: "length (cs s) < length s \<Longrightarrow> NUL \<in> set s"
  by (metis cs_id less_irrefl)

lemma put_setup_started:
  assumes "put_setup es ec s c name body"
  shows "\<exists>c1. client_next c = Some (c1, [c_command c1]) \<and> put_started es ec s c1 name body
     \<and> c_fs c1 = c_fs c"
proof -
  have "body \<noteq> []" using assms by (auto simp: put_setup_def)
  with assms client_put_command [of c name body] obtain c1 where
    c1: "client_next c = Some (c1, [c_command c1])"
      "cs (c_command c1) = ''put '' @ name @ '' '' @ dec (length body)" "length (c_command c1) = 100"
      "c_pc c1 = CAck" "c_request c1 = body" "c_request_len c1 = length body" "c_stdin c1 = []"
      "c_fs c1 = c_fs c" "c_stk c1 = c_stk c"
    unfolding put_setup_def by blast
  have "length (dec (length body)) \<le> 6" using assms by (intro dec_length_le) (auto simp: put_setup_def)
  then have "length (''ACK '' @ cs (c_command c1)) + 1 \<le> 100"
    using assms by (simp add: c1(2) put_setup_def name_ok_def)
  moreover from this have "NUL \<in> set (c_command c1)" by (intro cs_shorter_terminated) (simp add: c1(3))
  ultimately have "put_started es ec s c1 name body"
    using c1 assms unfolding put_started_def put_setup_def by simp
  with c1 show ?thesis by blast
qed

inductive_cases deliverE: "deliver es ec y y'"
inductive_cases netE: "net es ec y y'"

lemmas flight_simps [simp] = flight_def

text \<open>In every phase the next delivery is defined and leads to the next phase.\<close>

lemma put_phase_next:
  assumes st: "put_started es ec s0 c1 name body"
    and ph: "put_phase es ec s0 c1 name body False (Suc n) y"
  shows "\<exists>y'. deliver es ec y y' \<and> put_phase es ec s0 c1 name body False n y'
     \<and> length (c2s y) + length (s2c y) = 1"
  using ph
proof cases
  case cmd_out
  then obtain s' where s': "server_recv es s0 (c_command c1) = Some (s', [fill 100 (''ACK '' @ cs (c_command c1))])"
    "put_srv es s0 name body 0 s'"
    using server_put_command [of es s0 name body "c_command c1"] st by (auto simp: put_started_def)
  from deliver_server [OF s'(1), of ec c1 "[]" "[]"] put_phase.cmd_ack [OF s'(2), of ec c1 False] cmd_out
  show ?thesis by auto
next
  case (cmd_ack s)
  obtain c' where c': "client_recv ec c1 (fill 100 (''ACK '' @ cs (c_command c1))) = Some (c', [data_frame body 0])"
    "put_cli ec c1 body 0 c'"
    using client_put_acked [of c1 body ec] st by (fastforce simp: put_started_def)
  have "91 * 0 < length body" using st by (auto simp: put_started_def)
  from deliver_client [OF c'(1), of es s "[]" "[]"] put_phase.frame_out [OF cmd_ack(3) c'(2) this, where lost = False] cmd_ack
  show ?thesis by auto
next
  case (frame_out k s c)
  have "k < 10000" "NUL \<notin> set body" using frame_out st by (auto simp: put_started_def)
  then obtain s' where s': "server_recv es s (data_frame body k) = Some (s', [ack_text k])"
    "if 91 * Suc k < length body then put_srv es s0 name body (Suc k) s' else put_srv_done es s0 name body s'"
    using server_put_frame [OF frame_out(3)] frame_out by blast
  from deliver_server [OF s'(1), of ec c "[]" "[]"] put_phase.frame_ack [OF s'(2) frame_out(4,5)] frame_out
  show ?thesis by (metis append_Nil diff_Suc_1 flight_simps list.size(3,4) add_0_right add_Suc_right One_nat_def sys.select_convs(3,4))
next
  case (frame_ack k s c)
  have "length body \<le> 910000" "NUL \<notin> set body" using st by (auto simp: put_started_def)
  then obtain c' out where c': "client_recv ec c (ack_text k) = Some (c', out)"
    "if 91 * Suc k < length body then put_cli ec c1 body (Suc k) c' \<and> out = [data_frame body (Suc k)]
         else c_pc c' = CDone \<and> out = [] \<and> c_fs c' = c_fs c1"
    using client_put_ack [OF frame_ack(4,5)] by blast
  note d = deliver_client [OF c'(1), of es s "[]" "[]"]
  show ?thesis
  proof (cases "91 * Suc k < length body")
    case True
    then have ps: "put_srv es s0 name body (Suc k) s" using frame_ack(3) by simp
    from True have "put_cli ec c1 body (Suc k) c'" "out = [data_frame body (Suc k)]" using c'(2) by auto
    moreover have "n = 2 * (frames body - Suc k)" using frame_ack(1) by simp
    ultimately show ?thesis using put_phase.frame_out [OF ps _ True, of ec c1 c' False] d frame_ack by auto
  next
    case False
    then have "put_srv_done es s0 name body s" "c_pc c' = CDone" "out = []" "c_fs c' = c_fs c1"
      using frame_ack(3) c'(2) by auto
    moreover have "2 * (frames body - k) - 1 = 1"
      using False frame_ack(5) frames_bound [of k body] frames_bound [of "Suc k" body] by linarith
    ultimately show ?thesis using put_phase.finished [of es s0 name body s c' c1 ec False] d frame_ack by auto
  qed
qed

lemma deliver_unique:
  assumes "length (c2s y) + length (s2c y) \<le> 1" "deliver es ec y y1" "deliver es ec y y2"
  shows "y1 = y2"
  using assms(2,3,1) by (auto elim!: deliverE)

lemma put_phase_0: "put_phase es ec s0 c1 name body False 0 y \<Longrightarrow>
    c2s y = [] \<and> s2c y = [] \<and> put_srv_done es s0 name body (srv y) \<and> c_pc (cli y) = CDone
    \<and> c_fs (cli y) = c_fs c1"
  by (erule put_phase.cases) (auto simp: frames_bound)


lemma put_phase_lose:
  "put_phase es ec s0 c1 name body lost n y \<Longrightarrow>
   put_phase es ec s0 c1 name body True n (y\<lparr>c2s := [], s2c := []\<rparr>)"
  by (erule put_phase.cases)
     (auto intro: put_phase.intros [where lost = True, simplified])

lemma put_phase_lost_empty: "put_phase es ec s0 c1 name body True n y \<Longrightarrow> c2s y = [] \<and> s2c y = []"
  by (erule put_phase.cases) auto

lemma put_phase_one: "put_phase es ec s0 c1 name body lost n y \<Longrightarrow> length (c2s y) + length (s2c y) \<le> 1"
  by (erule put_phase.cases) auto

lemma net_empty: "c2s y = [] \<Longrightarrow> s2c y = [] \<Longrightarrow> \<not> net es ec y y'"
  by (auto elim!: netE deliverE)

lemma one_flight_cases:
  assumes "length q + length r \<le> 1"
  shows "q = d # q' \<Longrightarrow> q' = [] \<and> r = []" and "r = d # r' \<Longrightarrow> r' = [] \<and> q = []"
  using assms by auto

lemma put_phase_active:
  assumes "put_phase es ec s0 c1 name body lost n y" "\<not> (c2s y = [] \<and> s2c y = [])"
  obtains m where "put_phase es ec s0 c1 name body False (Suc m) y" "lost = False" "n = Suc m"
proof -
  have "lost = False" using assms put_phase_lost_empty by (cases lost) auto
  moreover from this have "n \<noteq> 0" using assms put_phase_0 by (cases n) auto
  ultimately show ?thesis using assms(1) that by (cases n) auto
qed

lemma deliver_no_crash:
  assumes "deliver es ec y y'" "length (c2s y) + length (s2c y) \<le> 1"
  shows "\<not> crashes es ec y"
  using assms(1) by cases (use assms(2) in \<open>auto simp: crashes_def\<close>)

lemma put_phase_client:
  assumes "put_started es ec s0 c1 name body" "put_phase es ec s0 c1 name body False (Suc m) y"
  shows "c_pc (cli y) \<noteq> CDone"
  using assms(2) by cases (use assms(1) in \<open>auto simp: put_started_def put_cli_def\<close>)

lemma put_phase_net:
  assumes "put_started es ec s0 c1 name body" "put_phase es ec s0 c1 name body lost n y" "net es ec y y'"
  shows "\<exists>lost' n'. put_phase es ec s0 c1 name body lost' n' y'"
proof -
  have ne: "\<not> (c2s y = [] \<and> s2c y = [])" using assms(3) net_empty by blast
  from put_phase_active [OF assms(2) ne] obtain m where l: "lost = False" and n: "n = Suc m" by blast
  note one = put_phase_one [OF assms(2)]
  note lose = put_phase_lose [OF assms(2)]
  from assms(3) show ?thesis
  proof cases
    case deliver
    then show ?thesis
      using put_phase_next [OF assms(1)] assms(2) deliver_unique [OF one deliver] l n by metis
  next
    case (lose_c2s d q)
    with one have "q = []" "s2c y = []" by auto
    with lose lose_c2s show ?thesis by (cases y) auto
  next
    case (lose_s2c d q)
    with one have "q = []" "c2s y = []" by auto
    with lose lose_s2c show ?thesis by (cases y) auto
  qed
qed

lemma put_phase_reach:
  assumes "put_started es ec s0 c1 name body"
    and "(net es ec)\<^sup>*\<^sup>* \<lparr>srv = s0, cli = c1, c2s = [c_command c1], s2c = []\<rparr> y"
  shows "\<exists>lost n. put_phase es ec s0 c1 name body lost n y"
  using assms(2)
proof (induction rule: rtranclp_induct)
  case base
  show ?case using put_phase.cmd_out [of es ec s0 c1 name body False] by auto
next
  case (step y z)
  then show ?case using put_phase_net [OF assms(1)] by blast
qed

section \<open>Properties of a \<open>put\<close>\<close>


text \<open>C3: Whatever datagrams of such a \<open>put\<close> are lost, and whenever, neither program leaves its
  memory, and the server's directory is either unchanged or has the complete file.\<close>

theorem put_safe_under_loss:
  assumes "put_setup es ec s c name body"
    and "client_next c = Some (c1, out)"
    and "(net es ec)\<^sup>*\<^sup>* \<lparr>srv = s, cli = c1, c2s = out, s2c = []\<rparr> y"
  shows "\<not> crashes es ec y \<and> (s_fs (srv y) = s_fs s \<or> s_fs (srv y) = (s_fs s)(norm_path name \<mapsto> body))"
proof -
  have st: "put_started es ec s c1 name body" and o: "out = [c_command c1]"
    using put_setup_started [OF assms(1)] assms(2) by auto
  obtain lost n where ph: "put_phase es ec s c1 name body lost n y"
    using put_phase_reach [OF st] assms(3) o by blast
  have "\<not> crashes es ec y"
  proof (cases "c2s y = [] \<and> s2c y = []")
    case True
    then show ?thesis by (simp add: crashes_def)
  next
    case False
    then obtain m where "put_phase es ec s c1 name body False (Suc m) y"
      using put_phase_active [OF ph] by blast
    from put_phase_next [OF st this] obtain y' where "deliver es ec y y'"
      "length (c2s y) + length (s2c y) = 1" by blast
    then show ?thesis by (intro deliver_no_crash) auto
  qed
  moreover have "s_fs (srv y) = s_fs s \<or> s_fs (srv y) = (s_fs s)(norm_path name \<mapsto> body)"
    using ph by (rule put_phase.cases) (auto simp: put_srv_def put_srv_done_def split: if_splits)
  ultimately show ?thesis by blast
qed

text \<open>The first loss stops such a \<open>put\<close> for good. In every state that deliveries lead to, at
  most one datagram is in flight; once it is dropped both programs wait in \<open>recvfrom\<close>, nothing
  can happen any more and the client is not done: there is no timeout to resend anything.\<close>

theorem put_loss_is_final:
  assumes "put_setup es ec s c name body"
    and "client_next c = Some (c1, out)"
    and "(deliver es ec)\<^sup>*\<^sup>* \<lparr>srv = s, cli = c1, c2s = out, s2c = []\<rparr> y"
    and "net es ec y y'" and "\<not> deliver es ec y y'"
  shows "(\<nexists>y''. net es ec y' y'') \<and> c_pc (cli y') \<noteq> CDone"
proof -
  have st: "put_started es ec s c1 name body" and o: "out = [c_command c1]"
    using put_setup_started [OF assms(1)] assms(2) by auto
  have "(net es ec)\<^sup>*\<^sup>* \<lparr>srv = s, cli = c1, c2s = out, s2c = []\<rparr> y"
    using assms(3) by (rule rtranclp_mono [THEN predicate2D, rotated]) (auto intro: net.deliver)
  then obtain lost n where ph: "put_phase es ec s c1 name body lost n y"
    using put_phase_reach [OF st] o by blast
  have ne: "\<not> (c2s y = [] \<and> s2c y = [])" using assms(4) net_empty by blast
  from assms(4,5) ph put_phase_one [OF ph] have "c2s y' = [] \<and> s2c y' = [] \<and> cli y' = cli y"
    by (auto elim!: netE)
  moreover have "c_pc (cli y) \<noteq> CDone"
    using put_phase_active [OF ph ne] put_phase_client [OF st] by blast
  ultimately show ?thesis using net_empty by metis
qed

end
