(* ===== verification/UDP_Get.thy ===== *)
theory UDP_Get
  imports UDP_System
begin

text \<open>
  The transfer of a \<open>get\<close>, over the system of \<open>UDP_System\<close>: one round, the phases, completion
  without loss, what a lost acknowledgement does, and a \<open>get\<close> of a file that does not exist.
\<close>

section \<open>One round of a \<open>get\<close>\<close>








section \<open>The command of a \<open>get\<close>\<close>

text \<open>Any command but a \<open>put\<close> is sent as it was typed.\<close>

lemma client_plain_command:
  assumes "c_stdin c = t @ CHR 0x0A # rest" "length (c_command c) = 100"
    and "NUL \<notin> set t" "CHR 0x0A \<notin> set t" "length t \<le> 94" "take 4 t \<noteq> ''put ''" "3 < length t"
  shows "\<exists>c1. client_next c = Some (c1, [c_command c1])
     \<and> cs (c_command c1) = t @ [CHR 0x0A] \<and> length (c_command c1) = 100 \<and> NUL \<in> set (c_command c1)
     \<and> c_pc c1 = CAck \<and> c_request_len c1 = 0 \<and> c_stdin c1 = rest \<and> c_fs c1 = c_fs c \<and> c_stk c1 = c_stk c"
proof -
  let ?line = "t @ [CHR 0x0A]"
  have f: "fgets_take 99 (c_stdin c) = (?line, rest)"
    using fgets_line [of t 99 rest] assms by simp
  obtain r where r: "poke (c_command c) 0 (?line @ [NUL]) = Some (?line @ NUL # r)"
    "length (?line @ NUL # r) = 100"
    using poke_start [of "?line @ [NUL]" "c_command c"] assms by auto
  have cs: "cs (?line @ NUL # r) = ?line" using cs_term [of ?line r] assms by simp
  define c1 where "c1 = c\<lparr>c_stdin := rest, c_request_len := 0, c_command := ?line @ NUL # r, c_pc := CAck\<rparr>"
  have "take 4 ?line \<noteq> ''put ''" using assms(6,7) by simp
  then have "client_next c = Some (c1, [?line @ NUL # r])"
    using assms(1,5) f r(1) cs
    by (subst client_next.simps)
       (simp add: send_command_def expected_ack_def MAXBUFSIZE_def c1_def del: append_assoc)
  then show ?thesis using r(2) cs by (intro exI [of _ c1]) (simp add: c1_def)
qed

lemma client_get_command:
  assumes "c_stdin c = ''get '' @ name @ [CHR 0x0A]" "length (c_command c) = 100" "name_ok name"
  shows "\<exists>c1. client_next c = Some (c1, [c_command c1])
     \<and> cs (c_command c1) = ''get '' @ name @ [CHR 0x0A] \<and> length (c_command c1) = 100
     \<and> NUL \<in> set (c_command c1)
     \<and> c_pc c1 = CAck \<and> c_request_len c1 = 0 \<and> c_stdin c1 = [] \<and> c_fs c1 = c_fs c \<and> c_stk c1 = c_stk c"
  using client_plain_command [of c "''get '' @ name" "[]"] assms by (auto simp: name_ok_def)

definition get_request :: "string \<Rightarrow> string \<Rightarrow> bool" where
  "get_request name cmd = (length cmd = 100 \<and> cs cmd = ''get '' @ name @ [CHR 0x0A] \<and> NUL \<in> set cmd)"

lemma cs_prefix_eq: "cs s = t \<Longrightarrow> NUL \<in> set s \<Longrightarrow> \<exists>r. s = t @ NUL # r"
  using cs_prefix [of s] by blast

lemma get_request_shape:
  assumes "get_request name cmd"
  shows "\<exists>r. cmd = ''get '' @ name @ CHR 0x0A # NUL # r"
proof -
  have "cs cmd = ''get '' @ name @ [CHR 0x0A]" "NUL \<in> set cmd"
    using assms by (simp_all add: get_request_def)
  from cs_prefix_eq [OF this] show ?thesis by simp
qed

lemma server_get_chop:
  assumes "get_request name cmd" "name_ok name"
  shows "cs (drop 4 (chop_newline cmd)) = name \<and> cs (chop_newline cmd) = ''get '' @ name"
proof -
  obtain r where r: "cmd = ''get '' @ name @ CHR 0x0A # NUL # r" using get_request_shape [OF assms(1)] by blast
  have n: "NUL \<notin> set name" using assms(2) by (auto simp: name_ok_def)
  have "chop_newline cmd = ''get '' @ name @ NUL # NUL # r"
    using chop_newline_cmd [of "''get ''" name r] n by (simp add: r)
  then show ?thesis using n cs_term [of "''get '' @ name" "NUL # r"] by (simp add: cs_term)
qed

lemma fill_ack_request:
  assumes "get_request name cmd" "name_ok name"
  shows "fill 100 (take 98 (''ACK '' @ cs cmd)) = fill 100 (''ACK '' @ cs cmd)"
    "length (''ACK '' @ cs cmd) + 1 \<le> 100"
proof -
  have "length (cs cmd) \<le> 19" using assms by (simp add: get_request_def name_ok_def)
  then show "fill 100 (take 98 (''ACK '' @ cs cmd)) = fill 100 (''ACK '' @ cs cmd)"
    "length (''ACK '' @ cs cmd) + 1 \<le> 100" by simp_all
qed

text \<open>The server's answer to a \<open>get\<close>, for a file that is there and for one that is not.\<close>

lemma server_get_command:
  assumes s: "s_pc s = SIdle" and cmd: "get_request name cmd" and n: "name_ok name"
    and resp: "(case s_fs s (norm_path name) of
          None \<Rightarrow> resp = ''FILE NOT FOUND: '' @ name \<and> len = 0
        | Some body \<Rightarrow> NUL \<notin> set body \<and> length body \<le> 910000 \<and> resp = body \<and> len = length body)"
  shows "server_recv es s cmd = Some (s\<lparr>s_request := chop_newline cmd,
        s_commandresponse := fill 100 (''ACK '' @ cs cmd), s_response := Some resp,
        s_response_len := len, s_pc := SStart (start_frame len)\<rparr>,
      [fill 100 (''ACK '' @ cs cmd), start_frame len])"
proof -
  have len: "length cmd = 100" "NUL \<in> set cmd" "cs cmd = ''get '' @ name @ [CHR 0x0A]"
    using cmd by (simp_all add: get_request_def)
  have nm: "cs (drop 4 (chop_newline cmd)) = name" using server_get_chop [OF cmd n] by simp
  have "length name \<le> 14" using n by (simp add: name_ok_def)
  then have path: "make_filepath name = Some (''./'' @ name)" by (simp add: make_filepath_def)
  have "writegetresponse (s_fs s) cmd = Some (chop_newline cmd, resp, len)"
  proof (cases "s_fs s (norm_path name)")
    case None
    with resp nm path norm_path_curdir [of name] show ?thesis by (simp add: writegetresponse_def Let_def)
  next
    case (Some body)
    then have "response_loop 97 256 0 256 [] body = Some body"
      using response_loop_ok [of "[]" 0 256 256 97 body] resp by auto
    with Some resp nm path norm_path_curdir [of name] show ?thesis
      by (simp add: writegetresponse_def Let_def)
  qed
  then show ?thesis
    using s len fill_ack_request [OF cmd n]
    by (simp add: server_recv_def server_command_def respond_def MAXBUFSIZE_def fill_id Let_def)
qed

section \<open>The start of the response\<close>

lemma cs_start_frame:
  assumes "n < 10 ^ 9"
  shows "cs (fill 100 (start_frame n)) = ''START '' @ dec n" and "start_size (start_frame n) = int n"
    and "fill 100 (start_frame n) = start_frame n"
proof -
  have l: "length (dec n) \<le> 9" using assms by (intro dec_length_le) auto
  show f: "fill 100 (start_frame n) = start_frame n" by (simp add: start_frame_def MAXBUFSIZE_def)
  show c: "cs (fill 100 (start_frame n)) = ''START '' @ dec n"
    unfolding f using l by (simp add: start_frame_def MAXBUFSIZE_def cs_fill)
  have "cs (drop 6 (start_frame n)) = dec n"
    using cs_drop [of 6 "start_frame n"] c unfolding f by simp
  moreover have "strtol10 (dec n) = int n"
    using strtol_dec_append [of "[]" n "[]"] assms by simp
  moreover have "signed_take_bit 31 (int n) = int n"
    using assms by (intro signed_take_bit_int_eq_self) auto
  ultimately show "start_size (start_frame n) = int n" by (simp add: start_size_def)
qed

lemma cs_lit: "take 9 (cs (fill MAXBUFSIZE (lit100 e ''ACK START''))) = ''ACK START''"
  by (simp add: fill_def lit100_def MAXBUFSIZE_def cs_def)

section \<open>The phases of a \<open>get\<close>\<close>

definition get_setup :: "udp_env \<Rightarrow> udp_env \<Rightarrow> server \<Rightarrow> client \<Rightarrow> string \<Rightarrow> string \<Rightarrow> bool" where
  "get_setup es ec s c name body =
     (s_pc s = SIdle \<and> tx_ok es (s_stk s) \<and> s_fs s (norm_path name) = Some body
      \<and> name_ok name \<and> body \<noteq> [] \<and> length body \<le> 910000 \<and> NUL \<notin> set body
      \<and> rx_ok ec (c_stk c) \<and> length (c_command c) = 100
      \<and> c_stdin c = ''get '' @ name @ [CHR 0x0A])"

definition get_started :: "udp_env \<Rightarrow> udp_env \<Rightarrow> server \<Rightarrow> client \<Rightarrow> string \<Rightarrow> string \<Rightarrow> bool" where
  "get_started es ec s c1 name body =
     (s_pc s = SIdle \<and> tx_ok es (s_stk s) \<and> s_fs s (norm_path name) = Some body
      \<and> name_ok name \<and> body \<noteq> [] \<and> length body \<le> 910000 \<and> NUL \<notin> set body
      \<and> rx_ok ec (c_stk c1) \<and> get_request name (c_command c1)
      \<and> c_pc c1 = CAck \<and> c_request_len c1 = 0 \<and> c_stdin c1 = [])"

lemma get_setup_started:
  assumes "get_setup es ec s c name body"
  shows "\<exists>c1. client_next c = Some (c1, [c_command c1]) \<and> get_started es ec s c1 name body
     \<and> c_fs c1 = c_fs c"
  using client_get_command [of c name] assms
  unfolding get_setup_def get_started_def get_request_def by metis

text \<open>The server after the command, and the client after the acknowledgement of the command.\<close>

definition get_srv_start :: "server \<Rightarrow> client \<Rightarrow> string \<Rightarrow> server" where
  "get_srv_start s c body = s\<lparr>s_request := chop_newline (c_command c),
     s_commandresponse := fill 100 (''ACK '' @ cs (c_command c)), s_response := Some body,
     s_response_len := length body, s_pc := SStart (start_frame (length body))\<rparr>"

definition get_cli_start :: "client \<Rightarrow> string \<Rightarrow> client" where
  "get_cli_start c name = c\<lparr>c_filename := name, c_pc := CStart\<rparr>"







lemma deliver_unique_one_way:
  assumes "c2s y = [] \<or> s2c y = []" "deliver es ec y y1" "deliver es ec y y2"
  shows "y1 = y2"
  using assms(2,3,1) by (auto elim!: deliverE)


lemma two_cycle:
  assumes "R a b" "R b a" "\<And>w. R a w \<Longrightarrow> w = b" "\<And>w. R b w \<Longrightarrow> w = a"
  shows "(R ^^ (2 * n)) a a \<and> (\<forall>y. (R ^^ (2 * n)) a y \<longrightarrow> y = a)"
proof (induction n)
  case (Suc n)
  have "(R ^^ 2) a w \<longleftrightarrow> w = a" for w
    by (simp add: numeral_2_eq_2 relcompp_apply) (metis assms)
  moreover have "R ^^ (2 * Suc n) = R ^^ (2 * n) OO R ^^ 2"
    using relpowp_add [of "2 * n" 2 R] by (simp add: add.commute)
  ultimately show ?case using Suc by (simp add: relcompp_apply) blast
qed simp

section \<open>Properties of a \<open>get\<close>\<close>


text \<open>C4: When the acknowledgement of a \<open>get\<close> is lost, the two programs resend to each other for
  ever: the client repeats the command at every \<open>START\<close> it is not waiting for, and the server does
  not recognise the repeated command, because \<open>writegetresponse\<close> has overwritten its newline.
  Two deliveries lead back to the same state, and no other delivery is possible.\<close>

theorem get_lost_ack_livelock:
  assumes "get_setup es ec s c name body"
  shows "\<exists>c1 y0 y1. client_next c = Some (c1, [c_command c1])
     \<and> (deliver es ec) \<lparr>srv = s, cli = c1, c2s = [c_command c1], s2c = []\<rparr> y0
     \<and> net es ec y0 y1 \<and> (deliver es ec ^^ (2 * n)) y1 y1
     \<and> (\<forall>y. (deliver es ec ^^ (2 * n)) y1 y \<longrightarrow> y = y1 \<and> c_pc (cli y) = CAck)"
proof -
  obtain c1 where c1: "client_next c = Some (c1, [c_command c1])" "get_started es ec s c1 name body"
    using get_setup_started [OF assms] by blast
  have g: "get_request name (c_command c1)" "name_ok name" "c_pc c1 = CAck" "length body < 10 ^ 9"
    using c1(2) by (simp_all add: get_started_def)
  let ?s = "get_srv_start s c1 body" and ?start = "start_frame (length body)"
  let ?y1 = "\<lparr>srv = ?s, cli = c1, c2s = [], s2c = [?start]\<rparr>"
  let ?z = "\<lparr>srv = ?s, cli = c1, c2s = [c_command c1], s2c = []\<rparr>"
  let ?ack = "fill 100 (''ACK '' @ cs (c_command c1))"
  have "server_recv es s (c_command c1) = Some (?s, [?ack, ?start])"
    using server_get_command [of s name "c_command c1" body "length body" es] c1(2)
    by (simp add: get_started_def get_srv_start_def)
  from deliver_server [OF this, of ec c1 "[]" "[]"]
  have d0: "deliver es ec \<lparr>srv = s, cli = c1, c2s = [c_command c1], s2c = []\<rparr>
      \<lparr>srv = ?s, cli = c1, c2s = [], s2c = [?ack, ?start]\<rparr>" by simp
  have n0: "net es ec \<lparr>srv = ?s, cli = c1, c2s = [], s2c = [?ack, ?start]\<rparr> ?y1"
    using net.lose_s2c [of "\<lparr>srv = ?s, cli = c1, c2s = [], s2c = [?ack, ?start]\<rparr>" ?ack "[?start]" es ec] by simp
  have "cs (fill 100 ?start) \<noteq> ''ACK '' @ cs (c_command c1)"
    by (simp only: cs_start_frame(1) [OF g(4)]) simp
  then have r1: "client_recv ec c1 ?start = Some (c1, [c_command c1])"
    using g(3) fill_ack_request(2) [OF g(1,2)]
    by (simp add: client_recv_def expected_ack_def send_command_def MAXBUFSIZE_def)
  have d1: "deliver es ec ?y1 ?z" using deliver_client [OF r1, of es ?s "[]" "[]"] by simp
  have cmd: "cs (fill 100 (c_command c1)) = ''get '' @ name @ [CHR 0x0A]"
    using g(1) by (simp add: get_request_def fill_id)
  have "cs (s_request ?s) = ''get '' @ name"
    using server_get_chop [OF g(1,2)] by (simp add: get_srv_start_def)
  moreover have "s_pc ?s = SStart ?start" by (simp add: get_srv_start_def)
  ultimately have "server_recv es ?s (c_command c1) = Some (?s, [?start])"
    by (simp add: server_recv_def MAXBUFSIZE_def cmd Let_def)
  from deliver_server [OF this, of ec c1 "[]" "[]"] have d2: "deliver es ec ?z ?y1" by simp
  have u1: "deliver es ec ?y1 w \<Longrightarrow> w = ?z" for w
    using deliver_unique_one_way [OF _ d1] by auto
  have u2: "deliver es ec ?z w \<Longrightarrow> w = ?y1" for w
    using deliver_unique_one_way [OF _ d2] by auto
  have "(deliver es ec ^^ (2 * n)) ?y1 ?y1" "(deliver es ec ^^ (2 * n)) ?y1 y \<Longrightarrow> y = ?y1" for y
    using two_cycle [of "deliver es ec" ?y1 ?z, OF d1 d2 u1 u2] by blast+
  then show ?thesis
    using c1(1) d0 n0 g(3)
    by (intro exI [of _ c1] exI conjI allI impI) (assumption | force)+
qed

text \<open>C5: A \<open>get\<close> of a file the server does not have never reports that: the server announces a
  response of length 0 (its \<open>response_len\<close> is never set), and the client creates a file with
  whatever the empty heap block reads.\<close>

theorem get_missing_file:
  assumes "s_pc s = SIdle" "s_fs s (norm_path name) = None" "name_ok name" "can_write ec name"
    and "length (c_command c) = 100" "c_stdin c = ''get '' @ name @ [CHR 0x0A]"
  shows "\<exists>c1 y. client_next c = Some (c1, [c_command c1])
     \<and> (deliver es ec ^^ 4) \<lparr>srv = s, cli = c1, c2s = [c_command c1], s2c = []\<rparr> y
     \<and> c_pc (cli y) = CDone \<and> s_pc (srv y) = SIdle \<and> c_says (cli y) = c_says c1
     \<and> c_fs (cli y) = (c_fs c)(norm_path name \<mapsto> cs (past_heap ec))"
proof -
  obtain c1 where c1: "client_next c = Some (c1, [c_command c1])" "get_request name (c_command c1)"
    "c_pc c1 = CAck" "c_request_len c1 = 0" "c_stdin c1 = []" "c_fs c1 = c_fs c"
    using client_get_command [OF assms(6,5,3)] unfolding get_request_def by blast
  have c: "cs (c_command c1) = ''get '' @ name @ [CHR 0x0A]" using c1(2) by (simp add: get_request_def)
  let ?ack = "fill 100 (''ACK '' @ cs (c_command c1))"
  let ?s = "s\<lparr>s_request := chop_newline (c_command c1), s_commandresponse := ?ack,
      s_response := Some (''FILE NOT FOUND: '' @ name), s_response_len := 0, s_pc := SStart (start_frame 0)\<rparr>"
  have r1: "server_recv es s (c_command c1) = Some (?s, [?ack, start_frame 0])"
    using server_get_command [OF assms(1) c1(2) assms(3), of "''FILE NOT FOUND: '' @ name" 0 es] assms(2)
    by simp
  have l: "length (''ACK '' @ cs (c_command c1)) + 1 \<le> 100" by (rule fill_ack_request(2) [OF c1(2) assms(3)])
  then have "cs ?ack = ''ACK '' @ cs (c_command c1)" by (intro cs_fill) auto
  with c1 l have r2: "client_recv ec c1 ?ack = Some (get_cli_start c1 name, [])"
    by (simp add: client_recv_def expected_ack_def client_acked_def MAXBUFSIZE_def get_cli_start_def c Let_def)
  let ?c = "(get_cli_start c1 name)\<lparr>c_fs := (c_fs c)(norm_path name \<mapsto> cs (past_heap ec)), c_pc := CDone\<rparr>"
  have st: "take 6 (cs (start_frame 0)) = ''START ''" "start_size (start_frame 0) = 0"
    "fill MAXBUFSIZE (start_frame 0) = start_frame 0"
    using cs_start_frame [of 0] by (simp_all add: MAXBUFSIZE_def)
  have r3: "client_recv ec (get_cli_start c1 name) (start_frame 0) = Some (?c, [lit100 ec ''ACK START''])"
    using st c1(5,6) assms(4)
    by (simp add: client_recv_def client_check_def client_next.simps get_cli_start_def c Let_def)
  obtain s' where r4: "server_recv es ?s (lit100 ec ''ACK START'') = Some (s', [])" "s_pc s' = SIdle"
    using cs_lit [of ec] by (simp add: server_recv_def server_top_def)
  have "(deliver es ec ^^ 4) \<lparr>srv = s, cli = c1, c2s = [c_command c1], s2c = []\<rparr>
      \<lparr>srv = s', cli = ?c, c2s = [], s2c = []\<rparr>"
    using deliver_server [OF r1, of ec c1 "[]" "[]"] deliver_client [OF r2, of es ?s "[]" "[start_frame 0]"]
      deliver_client [OF r3, of es ?s "[]" "[]"] deliver_server [OF r4(1), of ec ?c "[]" "[]"]
    by (simp add: eval_nat_numeral relcompp.simps) blast
  with c1(1) r4(2) show ?thesis
    by (intro exI [of _ c1] exI [of _ "\<lparr>srv = s', cli = ?c, c2s = [], s2c = []\<rparr>"])
       (simp add: get_cli_start_def)
qed

end
