(* ===== verification/UDP_Props.thy ===== *)
theory UDP_Props
  imports UDP_Get
begin

text \<open>
  Further properties of the two programs: the functions that read files, control arrays that
  touch, the wrap-around of sequence numbers and the end of a session; and the concrete system
  on which the properties of the transfers are witnessed.
\<close>

section \<open>Frames when the control arrays touch\<close>

lemma poke_fits: "off + length s \<le> length mem \<Longrightarrow> \<exists>mem'. poke mem off s = Some mem' \<and> length mem' = length mem"
  by (auto simp: poke_def)

text \<open>The four writes of \<open>make_frame\<close>, in a region that has room for them.\<close>

lemma make_frame_writes:
  assumes "seqA e + 9 \<le> length stk" "ackA e + 9 \<le> length stk" "k < 10000"
  obtains s2 s3 s4 where "length s2 = length stk"
    and "poke s2 (seqA e) (''SEQ '' @ fmt4 (int k) @ [NUL]) = Some s3"
    and "poke s3 (ackA e) (''ACK '' @ fmt4 (int k) @ [NUL]) = Some s4"
    and "NUL \<in> set (drop (seqA e) s4) \<Longrightarrow> make_frame e stk (int k) data =
      Some (s4, fill 100 (take 99 (cs (drop (seqA e) s4) @ cs data)))"
proof -
  have l: "length (fmt4 (int k)) = 4" using assms(3) by (rule fmt4_length)
  obtain s1 where s1: "poke stk (seqA e) (replicate 8 NUL) = Some s1" "length s1 = length stk"
    using poke_fits [of "seqA e" "replicate 8 NUL" stk] assms by auto
  obtain s2 where s2: "poke s1 (ackA e) (replicate 8 NUL) = Some s2" "length s2 = length stk"
    using poke_fits [of "ackA e" "replicate 8 NUL" s1] assms s1 by auto
  obtain s3 where s3: "poke s2 (seqA e) (''SEQ '' @ fmt4 (int k) @ [NUL]) = Some s3" "length s3 = length stk"
    using poke_fits [of "seqA e" "''SEQ '' @ fmt4 (int k) @ [NUL]" s2] assms l s2 by auto
  obtain s4 where s4: "poke s3 (ackA e) (''ACK '' @ fmt4 (int k) @ [NUL]) = Some s4"
    using poke_fits [of "ackA e" "''ACK '' @ fmt4 (int k) @ [NUL]" s3] assms l s3 by auto
  show thesis using that [OF s2(2) s3(1) s4] s1 s2 s3 s4 by (simp add: make_frame_def MAXBUFSIZE_def)
qed

text \<open>\<open>sprintf\<close> writes nine bytes into the arrays of eight. When the compiler puts \<open>ackstring\<close>
  right after \<open>seqstring\<close>, every frame carries the acknowledgement text in front of its data; when
  it puts them the other way round, the terminator of \<open>ackstring\<close> erases the sequence string and
  the frame is the bare data.\<close>

theorem adjacent_control_arrays:
  assumes "seqA e + 9 \<le> length stk" "ackA e + 9 \<le> length stk" "k < 10000"
  shows "(ackA e = seqA e + 8 \<longrightarrow> (\<exists>stk'. make_frame e stk (int k) data =
            Some (stk', fill 100 (take 99 (''SEQ '' @ fmt4 (int k) @ ''ACK '' @ fmt4 (int k) @ cs data)))))
     \<and> (seqA e = ackA e + 8 \<longrightarrow> (\<exists>stk'. make_frame e stk (int k) data = Some (stk', fill 100 (take 99 (cs data)))))"
proof (rule make_frame_writes [OF assms, of data], intro conjI impI)
  fix s2 s3 s4
  let ?f = "fmt4 (int k)"
  assume l2: "length s2 = length stk"
    and p3: "poke s2 (seqA e) (''SEQ '' @ ?f @ [NUL]) = Some s3"
    and p4: "poke s3 (ackA e) (''ACK '' @ ?f @ [NUL]) = Some s4"
    and mk: "NUL \<in> set (drop (seqA e) s4) \<Longrightarrow> make_frame e stk (int k) data =
      Some (s4, fill 100 (take 99 (cs (drop (seqA e) s4) @ cs data)))"
  have l: "length ?f = 4" using assms(3) by (rule fmt4_length)
  {
    assume a: "ackA e = seqA e + 8"
    have "drop (seqA e) s4 = take 8 (drop (seqA e) s3) @ ''ACK '' @ ?f @ NUL # drop (ackA e + 9) s3"
    proof -
      have "take (ackA e) s4 = take (ackA e) s3" using take_poke_before [OF p4] by simp
      then have "take 8 (drop (seqA e) s4) = take 8 (drop (seqA e) s3)"
        by (simp add: take_drop a add.commute)
      moreover have "drop 8 (drop (seqA e) s4) = ''ACK '' @ ?f @ NUL # drop (ackA e + 9) s3"
        using drop_poke_same [OF p4] l by (simp add: a add.commute)
      ultimately show ?thesis by (metis append_take_drop_id)
    qed
    moreover have "take 8 (drop (seqA e) s3) = ''SEQ '' @ ?f" using drop_poke_same [OF p3] l by simp
    ultimately have d: "drop (seqA e) s4 = (''SEQ '' @ ?f @ ''ACK '' @ ?f) @ NUL # drop (ackA e + 9) s3"
      by simp
    then have "cs (drop (seqA e) s4) = ''SEQ '' @ ?f @ ''ACK '' @ ?f"
      using cs_term [of "''SEQ '' @ ?f @ ''ACK '' @ ?f" "drop (ackA e + 9) s3"] fmt4_no_NUL by simp
    moreover have "NUL \<in> set (drop (seqA e) s4)" using d by simp
    ultimately show "\<exists>stk'. make_frame e stk (int k) data =
      Some (stk', fill 100 (take 99 (''SEQ '' @ ?f @ ''ACK '' @ ?f @ cs data)))" using mk by simp
  next
    assume a: "seqA e = ackA e + 8"
    have "drop (seqA e) s4 = drop 8 (drop (ackA e) s4)" by (simp add: a add.commute)
    also have "\<dots> = NUL # drop (ackA e + 9) s3" using drop_poke_same [OF p4] l by simp
    finally have "drop (seqA e) s4 = NUL # drop (ackA e + 9) s3" .
    then show "\<exists>stk'. make_frame e stk (int k) data = Some (stk', fill 100 (take 99 (cs data)))"
      using mk by simp
  }
qed

section \<open>Sequence numbers\<close>

text \<open>Sequence numbers wrap from 9999 to 0, and the receiver uses them as positions: the frame
  that follows the first 10000 of a longer file is stored over the first one, and the block then
  reads as that frame alone.\<close>

theorem sequence_wrap_overwrites:
  assumes "holds body 10000 data" "910000 < length body" "NUL \<notin> set body" "tx_ok e stk"
  shows "\<exists>stk' frame data'. make_frame e stk (next_seq 9999) (drop 910000 body) = Some (stk', frame)
     \<and> store_frame data 0 frame = Some data'
     \<and> cs data' = take 91 (drop 910000 body) \<and> int (length (cs data')) < int (length body)"
proof -
  let ?body = "drop 910000 body"
  have b: "NUL \<notin> set ?body" using assms(3) by (auto dest: in_set_dropD)
  obtain stk' where mk: "make_frame e stk 0 ?body = Some (stk', data_frame ?body 0)"
    using make_frame_ok [OF assms(4), of 0 ?body] b by auto
  have "holds ?body 0 (NUL # tl data)"
    using assms(1,2) by (intro holds_0) (auto simp: holds_def)
  have c: "cs (drop 8 (data_frame ?body 0)) = take 91 ?body" "NUL \<in> set (drop 8 (data_frame ?body 0))"
    using chunk_no_NUL [OF b, of 91 0]
    by (simp_all add: data_frame_parts [of 0, OF _ b] cs_fill fill_terminated)
  have fits: "length (take 91 ?body @ [NUL]) \<le> length data" using assms(1,2) by (auto simp: holds_def)
  then have "store_frame data 0 (data_frame ?body 0)
      = Some ((take 91 ?body @ [NUL]) @ drop (length (take 91 ?body @ [NUL])) data)"
    using c by (simp add: store_frame_def poke_def)
  moreover have "cs ((take 91 ?body @ [NUL]) @ drop (length (take 91 ?body @ [NUL])) data) = take 91 ?body"
    using chunk_no_NUL [OF b, of 91 0] by (simp add: cs_term)
  moreover have "next_seq 9999 = 0" by (simp add: next_seq_def)
  moreover have "length (take 91 ?body) < length body" using assms(2) by simp
  ultimately show ?thesis using mk by (metis of_nat_less_iff)
qed

section \<open>Reading files\<close>

text \<open>The server's reading loop never writes outside its block, whatever the file contains, and for a
  text file the response is the file and its length. It adds 100 to an \<open>int\<close> for every line, so the
  bound on the file is for the case that all lines are empty.\<close>

theorem writegetresponse_safe:
  assumes "cs (drop 4 (chop_newline request)) = name" "length name \<le> 14"
    and "fs (norm_path name) = Some body" "length body \<le> 21000000"
  shows "\<exists>response. writegetresponse fs request = Some (chop_newline request, response, length response)
     \<and> (NUL \<notin> set body \<longrightarrow> response = body)"
  using response_loop_ok [of "[]" 0 256 256 97 body] assms norm_path_curdir [of name]
  by (auto simp: writegetresponse_def Let_def make_filepath_def)

text \<open>C12: The client's reading loop fails for two kinds of text file. It leaves its block exactly when
  the reading positions after each \<open>fgets\<close> (8 characters or a line end) include 256, where the
  terminator is written one byte behind the 256 allocated; and it overflows the \<open>int\<close> that holds the
  size of the block exactly when there are more than \<open>2 ^ 30\<close> characters. Every other text file is
  read completely.\<close>

theorem writeputrequest_overflow:
  assumes "cs (drop 4 (chop_newline command)) = name" "length name \<le> 14"
    and "fs (norm_path name) = Some body" "NUL \<notin> set body"
  shows "writeputrequest fs command =
     (if 256 \<in> set (line_ends 0 body) \<or> 2 ^ 30 < length body then None else Some (chop_newline command, body, length body))"
  using request_loop_first [of body "[]"] assms norm_path_curdir [of name]
  by (simp add: writeputrequest_def Let_def make_filepath_def)

section \<open>The end of a session\<close>

text \<open>After \<open>exit\<close> the client waits for ever: the server acknowledges the command, sends
  \<open>ACK EXIT\<close> and returns; the client then waits for a \<open>START\<close> that nobody sends, with the rest of
  its input unread.\<close>

theorem exit_leaves_client_waiting:
  assumes "s_pc s = SIdle" "length (c_command c) = 100" "c_stdin c = ''exit'' @ CHR 0x0A # rest"
  shows "\<exists>c1 y. client_next c = Some (c1, [c_command c1])
     \<and> (deliver es ec ^^ 3) \<lparr>srv = s, cli = c1, c2s = [c_command c1], s2c = []\<rparr> y
     \<and> s_pc (srv y) = SDone \<and> c_pc (cli y) = CStart \<and> c_stdin (cli y) = rest \<and> (\<nexists>z. net es ec y z)"
proof -
  obtain c1 where c1: "client_next c = Some (c1, [c_command c1])" "cs (c_command c1) = ''exit'' @ [CHR 0x0A]"
    "length (c_command c1) = 100" "NUL \<in> set (c_command c1)" "c_pc c1 = CAck" "c_request_len c1 = 0"
    "c_stdin c1 = rest"
    using client_plain_command [OF assms(3,2)] by auto
  let ?ack = "fill 100 (''ACK exit'' @ [CHR 0x0A])"
  have ack: "cs ?ack = ''ACK exit'' @ [CHR 0x0A]" by (intro cs_fill) auto
  let ?s = "s\<lparr>s_request := c_command c1, s_commandresponse := ?ack, s_pc := SDone\<rparr>"
  have r1: "server_recv es s (c_command c1) = Some (?s, [?ack, lit100 es ''ACK EXIT''])"
    using assms(1) c1
    by (simp add: server_recv_def server_command_def MAXBUFSIZE_def fill_id Let_def)
  have r2: "client_recv ec c1 ?ack = Some (c1\<lparr>c_pc := CStart\<rparr>, [])"
    using c1 ack by (simp add: client_recv_def expected_ack_def client_acked_def MAXBUFSIZE_def)
  have "take 6 (cs (fill MAXBUFSIZE (lit100 es ''ACK EXIT''))) \<noteq> ''START ''"
    by (simp add: fill_def lit100_def MAXBUFSIZE_def cs_def)
  then have r3: "client_recv ec (c1\<lparr>c_pc := CStart\<rparr>) (lit100 es ''ACK EXIT'') = Some (c1\<lparr>c_pc := CStart\<rparr>, [])"
    by (simp add: client_recv_def Let_def)
  let ?y = "\<lparr>srv = ?s, cli = c1\<lparr>c_pc := CStart\<rparr>, c2s = [], s2c = []\<rparr>"
  have "(deliver es ec ^^ 3) \<lparr>srv = s, cli = c1, c2s = [c_command c1], s2c = []\<rparr> ?y"
    using deliver_server [OF r1, of ec c1 "[]" "[]"]
      deliver_client [OF r2, of es ?s "[]" "[lit100 es ''ACK EXIT'']"]
      deliver_client [OF r3, of es ?s "[]" "[]"]
    by (simp add: eval_nat_numeral relcompp.simps) blast
  moreover have "\<nexists>z. net es ec ?y z" using net_empty [of ?y es ec] by simp
  ultimately show ?thesis using c1 by (intro exI [of _ c1] exI [of _ ?y]) simp
qed

section \<open>Witnesses\<close>

text \<open>Arrays sixteen bytes apart, zeroed stack regions, and a directory with one file.\<close>

definition env0 :: udp_env where
  "env0 = \<lparr>seqA = 0, ackA = 16, uninit = (\<lambda>_. CHR ''x''), beyond = ''server'', past_heap = [],
     ls_out = (\<lambda>_. None), can_write = (\<lambda>_. True)\<rparr>"

definition stk0 :: string where
  "stk0 = replicate 32 NUL"

definition srv0 :: server where
  "srv0 = server_init stk0 [''g'' \<mapsto> ''remote text'']"

definition cli0 :: "string \<Rightarrow> client" where
  "cli0 inp = client_init stk0 (replicate 100 NUL) [''f'' \<mapsto> ''hello world''] inp"

lemma put_setup0: "put_setup env0 env0 srv0 (cli0 (''put f'' @ [CHR 0x0A])) ''f'' ''hello world''"
proof -
  have "set (line_ends 0 ''hello world'') = {8, 11}"
    by (simp add: line_ends.simps numeral_eq_Suc)
  then show ?thesis
    by (simp add: put_setup_def idle_ok_def srv0_def cli0_def server_init_def client_init_def rx_ok_def tx_ok_def
        env0_def stk0_def name_ok_def is_digit_def)
qed


theorem put_safe_under_loss_witness:
  "\<exists>c1 y. client_next (cli0 (''put f'' @ [CHR 0x0A])) = Some (c1, [c_command c1])
     \<and> net env0 env0 \<lparr>srv = srv0, cli = c1, c2s = [c_command c1], s2c = []\<rparr> y
     \<and> c2s y = [] \<and> \<not> crashes env0 env0 y"
proof -
  obtain c1 where c1: "client_next (cli0 (''put f'' @ [CHR 0x0A])) = Some (c1, [c_command c1])"
    using put_setup_started [OF put_setup0] by blast
  let ?y0 = "\<lparr>srv = srv0, cli = c1, c2s = [c_command c1], s2c = []\<rparr>"
  have n: "net env0 env0 ?y0 (?y0\<lparr>c2s := []\<rparr>)" by (rule net.lose_c2s) simp
  show ?thesis using put_safe_under_loss [OF put_setup0 c1 r_into_rtranclp [of "net env0 env0", OF n]] c1 n by fastforce
qed

theorem put_loss_is_final_witness:
  "\<exists>c1 y. client_next (cli0 (''put f'' @ [CHR 0x0A])) = Some (c1, [c_command c1])
     \<and> net env0 env0 \<lparr>srv = srv0, cli = c1, c2s = [c_command c1], s2c = []\<rparr> y
     \<and> (\<nexists>z. net env0 env0 y z)"
proof -
  obtain c1 where c1: "client_next (cli0 (''put f'' @ [CHR 0x0A])) = Some (c1, [c_command c1])"
    and st: "put_started env0 env0 srv0 c1 ''f'' ''hello world''"
    using put_setup_started [OF put_setup0] by blast
  let ?y0 = "\<lparr>srv = srv0, cli = c1, c2s = [c_command c1], s2c = []\<rparr>"
  have n: "net env0 env0 ?y0 (?y0\<lparr>c2s := []\<rparr>)" by (rule net.lose_c2s) simp
  obtain s' where "server_recv env0 srv0 (c_command c1) = Some (s', [fill 100 (''ACK '' @ cs (c_command c1))])"
    using server_put_command [of env0 srv0 "''f''" "''hello world''" "c_command c1"] st
    by (auto simp: put_started_def)
  then have "\<not> deliver env0 env0 ?y0 (?y0\<lparr>c2s := []\<rparr>)" by (auto elim!: deliverE)
  with put_loss_is_final [OF put_setup0 c1 rtranclp.rtrancl_refl n] c1 n show ?thesis by blast
qed

lemma get_setup0: "get_setup env0 env0 srv0 (cli0 (''get g'' @ [CHR 0x0A])) ''g'' ''remote text''"
  by (simp add: get_setup_def srv0_def cli0_def server_init_def client_init_def rx_ok_def tx_ok_def
      env0_def stk0_def name_ok_def is_digit_def)


theorem get_lost_ack_livelock_witness:
  "\<exists>y1. (deliver env0 env0 ^^ 20) y1 y1 \<and> c_pc (cli y1) = CAck"
  using get_lost_ack_livelock [OF get_setup0, of 10] by auto

theorem get_missing_file_witness:
  "\<exists>c1 y. client_next (cli0 (''get h'' @ [CHR 0x0A])) = Some (c1, [c_command c1])
     \<and> (deliver env0 env0 ^^ 4) \<lparr>srv = srv0, cli = c1, c2s = [c_command c1], s2c = []\<rparr> y
     \<and> c_fs (cli y) ''h'' = Some []"
proof -
  have "s_pc srv0 = SIdle" "s_fs srv0 (norm_path ''h'') = None" "name_ok ''h''" "can_write env0 ''h''"
    "length (c_command (cli0 (''get h'' @ [CHR 0x0A]))) = 100"
    "c_stdin (cli0 (''get h'' @ [CHR 0x0A])) = ''get '' @ ''h'' @ [CHR 0x0A]" "past_heap env0 = []"
    by (simp_all add: srv0_def server_init_def name_ok_def env0_def cli0_def client_init_def)
  with get_missing_file [of srv0 "''h''" env0 "cli0 (''get h'' @ [CHR 0x0A])" env0] obtain c1 y where
    "client_next (cli0 (''get h'' @ [CHR 0x0A])) = Some (c1, [c_command c1])"
    "(deliver env0 env0 ^^ 4) \<lparr>srv = srv0, cli = c1, c2s = [c_command c1], s2c = []\<rparr> y"
    "c_fs (cli y) = (c_fs (cli0 (''get h'' @ [CHR 0x0A])))(''h'' \<mapsto> [])" by auto
  then show ?thesis by (metis fun_upd_same)
qed

theorem adjacent_control_arrays_witness:
  "\<exists>stk'. make_frame (env0\<lparr>ackA := 8\<rparr>) stk0 7 ''abc'' =
     Some (stk', fill 100 (''SEQ '' @ fmt4 7 @ ''ACK '' @ fmt4 7 @ ''abc''))"
proof -
  have f: "length (fmt4 7) = 4" using fmt4_length [of 7] by simp
  have "cs ''abc'' = ''abc''" by (simp add: cs_def)
  then show ?thesis
    using adjacent_control_arrays [of "env0\<lparr>ackA := 8\<rparr>" stk0 7 "''abc''"] f by (simp add: env0_def stk0_def)
qed

theorem sequence_wrap_overwrites_witness:
  "\<exists>body data data' stk' frame. length body = 910001
     \<and> make_frame env0 stk0 (next_seq 9999) (drop 910000 body) = Some (stk', frame)
     \<and> store_frame data 0 frame = Some data' \<and> cs data' = ''a''"
proof -
  let ?body = "replicate 910001 CHR ''a''" and ?data = "replicate 910000 CHR ''a'' @ [NUL, NUL]"
  have "cs ?data = replicate 910000 CHR ''a''" by (intro cs_term) simp
  then have "holds ?body 10000 ?data" by (simp add: holds_def)
  moreover have "tx_ok env0 stk0" by (simp add: tx_ok_def env0_def stk0_def)
  moreover have "take 91 (drop 910000 ?body) = ''a''" by simp
  moreover have "910000 < length ?body" "NUL \<notin> set ?body" "length ?body = 910001" by simp_all
  ultimately show ?thesis
    using sequence_wrap_overwrites [of ?body ?data env0 stk0] by metis
qed

theorem writegetresponse_safe_witness:
  "writegetresponse [''g'' \<mapsto> ''remote text''] (fill 100 (''get g'' @ [CHR 0x0A]))
     = Some (chop_newline (fill 100 (''get g'' @ [CHR 0x0A])), ''remote text'', 11)"
proof -
  have "cs (drop 4 (chop_newline (fill 100 (''get g'' @ [CHR 0x0A])))) = ''g''"
    by (simp add: fill_def chop_newline_def cs_def numeral_eq_Suc)
  from writegetresponse_safe [OF this, of "[''g'' \<mapsto> ''remote text'']" "''remote text''"]
  show ?thesis by simp
qed

theorem writeputrequest_overflow_witness:
  "writeputrequest [''f'' \<mapsto> replicate 256 CHR ''a''] (fill 100 (''put f'' @ [CHR 0x0A])) = None"
proof -
  have "cs (drop 4 (chop_newline (fill 100 (''put f'' @ [CHR 0x0A])))) = ''f''"
    by (simp add: fill_def chop_newline_def cs_def numeral_eq_Suc)
  moreover have "256 \<in> set (line_ends 0 (replicate 256 CHR ''a''))" by code_simp
  ultimately show ?thesis
    using writeputrequest_overflow [of "fill 100 (''put f'' @ [CHR 0x0A])" "''f''"
        "[''f'' \<mapsto> replicate 256 CHR ''a'']" "replicate 256 CHR ''a''"] by simp
qed

theorem exit_leaves_client_waiting_witness:
  "\<exists>c1 y. client_next (cli0 (''exit'' @ CHR 0x0A # ''ls'')) = Some (c1, [c_command c1])
     \<and> (deliver env0 env0 ^^ 3) \<lparr>srv = srv0, cli = c1, c2s = [c_command c1], s2c = []\<rparr> y
     \<and> c_stdin (cli y) = ''ls'' \<and> (\<nexists>z. net env0 env0 y z)"
proof -
  have "s_pc srv0 = SIdle" "length (c_command (cli0 (''exit'' @ CHR 0x0A # ''ls''))) = 100"
    "c_stdin (cli0 (''exit'' @ CHR 0x0A # ''ls'')) = ''exit'' @ CHR 0x0A # ''ls''"
    by (simp_all add: srv0_def server_init_def cli0_def client_init_def)
  from exit_leaves_client_waiting [OF this, of env0 env0] show ?thesis by blast
qed

end
