(* ===== verification/CNum.thy ===== *)
theory CNum
  imports Prelude
begin

text \<open>
  Numbers in \<open>coregrind/m_libcbase.c\<close>: the conversions of text, the logarithms, the pseudo-random
  generator and the Adler-32 checksum.

  A \<open>const HChar*\<close> is the list of characters from the pointer on, up to and including the
  terminator and whatever follows it; advancing the pointer drops characters, and reading from
  the empty list is \<open>None\<close>. \<open>Long\<close> and \<open>ULong\<close> values are 64-bit words, on which the code's
  arithmetic wraps.
\<close>

section \<open>Characters\<close>

definition vg_isspace :: "char \<Rightarrow> bool" where
  "vg_isspace c = (c = CHR '' '' \<or> c = CHR 0x0A \<or> c = CHR 0x09 \<or> c = CHR 0x0C \<or> c = CHR 0x0B \<or> c = CHR 0x0D)"

definition in_range :: "char \<Rightarrow> char \<Rightarrow> char \<Rightarrow> bool" where
  "in_range lo hi c = ((of_char lo :: nat) \<le> of_char c \<and> (of_char c :: nat) \<le> of_char hi)"

definition vg_isdigit :: "char \<Rightarrow> bool" where
  "vg_isdigit c = in_range CHR ''0'' CHR ''9'' c"

definition is_dec_digit :: "char \<Rightarrow> nat option" where
  "is_dec_digit c =
     (if in_range CHR ''0'' CHR ''9'' c then Some (of_char c - of_char CHR ''0'') else None)"

definition is_hex_digit :: "char \<Rightarrow> nat option" where
  "is_hex_digit c =
     (if in_range CHR ''0'' CHR ''9'' c then Some (of_char c - of_char CHR ''0'')
      else if in_range CHR ''A'' CHR ''F'' c then Some (of_char c - of_char CHR ''A'' + 10)
      else if in_range CHR ''a'' CHR ''f'' c then Some (of_char c - of_char CHR ''a'' + 10)
      else None)"

section \<open>Text to numbers\<close>

fun skip_space :: "string \<Rightarrow> string option" where
  "skip_space [] = None"
| "skip_space (c # s) = (if vg_isspace c then skip_space s else Some (c # s))"

text \<open>The loop over the digits: the number, whether there was a digit, the first other character.\<close>

fun digit_loop :: "(char \<Rightarrow> nat option) \<Rightarrow> nat \<Rightarrow> ULong \<Rightarrow> bool \<Rightarrow> string
    \<Rightarrow> (ULong \<times> bool \<times> string) option" where
  "digit_loop isd base n converted [] = None"
| "digit_loop isd base n converted (c # s) =
     (case isd c of
        Some digit \<Rightarrow> digit_loop isd base (of_nat base * n + of_nat digit) True s
      | None \<Rightarrow> Some (n, converted, c # s))"

text \<open>\<open>if (*str == '-') ... else if (*str == '+') ...\<close>\<close>

definition take_sign :: "string \<Rightarrow> (bool \<times> string) option" where
  "take_sign s =
     (case s of
        [] \<Rightarrow> None
      | c # t \<Rightarrow> Some (if c = CHR ''-'' then (True, t) else if c = CHR ''+'' then (False, t) else (False, s)))"

definition take_plus :: "string \<Rightarrow> string option" where
  "take_plus s = (case s of [] \<Rightarrow> None | c # t \<Rightarrow> Some (if c = CHR ''+'' then t else s))"

text \<open>The leading \<open>0x\<close>, only when a hexadecimal digit follows it.\<close>

definition take_0x :: "string \<Rightarrow> string option" where
  "take_0x s =
     (case s of
        [] \<Rightarrow> None
      | a # t \<Rightarrow>
          if a \<noteq> CHR ''0'' then Some s
          else case t of
                 [] \<Rightarrow> None
               | b # u \<Rightarrow>
                   if b \<noteq> CHR ''x'' \<and> b \<noteq> CHR ''X'' then Some s
                   else case u of
                          [] \<Rightarrow> None
                        | c # _ \<Rightarrow> if is_hex_digit c \<noteq> None then Some u else Some s)"

definition strtoll10 :: "string \<Rightarrow> (ULong \<times> string) option" where
  "strtoll10 str0 =
     do { str \<leftarrow> skip_space str0;
          (neg, str) \<leftarrow> take_sign str;
          (n, converted, str) \<leftarrow> digit_loop is_dec_digit 10 0 False str;
          Some (if neg then - n else n, if converted then str else str0) }"

definition strtoull10 :: "string \<Rightarrow> (ULong \<times> string) option" where
  "strtoull10 str0 =
     do { str \<leftarrow> skip_space str0;
          str \<leftarrow> take_plus str;
          (n, converted, str) \<leftarrow> digit_loop is_dec_digit 10 0 False str;
          Some (n, if converted then str else str0) }"

definition strtoll16 :: "string \<Rightarrow> (ULong \<times> string) option" where
  "strtoll16 str0 =
     do { str \<leftarrow> skip_space str0;
          (neg, str) \<leftarrow> take_sign str;
          str \<leftarrow> take_0x str;
          (n, converted, str) \<leftarrow> digit_loop is_hex_digit 16 0 False str;
          Some (if neg then - n else n, if converted then str else str0) }"

definition strtoull16 :: "string \<Rightarrow> (ULong \<times> string) option" where
  "strtoull16 str0 =
     do { str \<leftarrow> skip_space str0;
          str \<leftarrow> take_plus str;
          str \<leftarrow> take_0x str;
          (n, converted, str) \<leftarrow> digit_loop is_hex_digit 16 0 False str;
          Some (n, if converted then str else str0) }"

section \<open>Logarithms and random numbers\<close>

definition vg_log2 :: "UInt \<Rightarrow> int" where
  "vg_log2 x = (case List.find (\<lambda>i. push_bit i 1 = x) [0..<32] of Some i \<Rightarrow> int i | None \<Rightarrow> -1)"

definition vg_log2_64 :: "ULong \<Rightarrow> int" where
  "vg_log2_64 x = (case List.find (\<lambda>i. push_bit i 1 = x) [0..<64] of Some i \<Rightarrow> int i | None \<Rightarrow> -1)"

text \<open>The caller's seed, when it gives one, and the function's own; both are returned.\<close>

definition vg_random :: "UInt option \<Rightarrow> UInt \<Rightarrow> UInt \<times> UInt option \<times> UInt" where
  "vg_random pSeed seed =
     (case pSeed of
        Some s \<Rightarrow> let s = 1103515245 * s + 12345 in (s, Some s, seed)
      | None \<Rightarrow> let s = 1103515245 * seed + 12345 in (s, None, s))"

section \<open>Adler-32\<close>

definition BASE :: nat where
  "BASE = 65521"

definition NMAX :: nat where
  "NMAX = 5552"

text \<open>\<open>if (a >= (BASE << k)) a -= (BASE << k)\<close>\<close>

definition mod_step :: "UInt \<Rightarrow> nat \<Rightarrow> UInt" where
  "mod_step a k = (if a \<ge> of_nat (BASE * 2 ^ k) then a - of_nat (BASE * 2 ^ k) else a)"

definition adler_MOD :: "UInt \<Rightarrow> UInt" where
  "adler_MOD a = foldl mod_step a (rev [0..<17])"

definition adler_MOD4 :: "UInt \<Rightarrow> UInt" where
  "adler_MOD4 a = foldl mod_step a (rev [0..<5])"

definition DO1 :: "UInt \<times> UInt \<Rightarrow> UChar \<Rightarrow> UInt \<times> UInt" where
  "DO1 = (\<lambda>(adler, sum2) x. let adler = adler + ucast x in (adler, sum2 + adler))"

definition DO16 :: "UInt \<times> UInt \<Rightarrow> UChar list \<Rightarrow> UInt \<times> UInt" where
  "DO16 st buf = foldl DO1 st (take 16 buf)"

text \<open>\<open>n\<close> rounds of sixteen bytes.\<close>

fun do16_loop :: "nat \<Rightarrow> UInt \<times> UInt \<Rightarrow> UChar list \<Rightarrow> (UInt \<times> UInt) \<times> UChar list" where
  "do16_loop 0 st buf = (st, buf)"
| "do16_loop (Suc n) st buf = do16_loop n (DO16 st buf) (drop 16 buf)"

function nmax_loop :: "UInt \<times> UInt \<Rightarrow> UChar list \<Rightarrow> (UInt \<times> UInt) \<times> UChar list" where
  "nmax_loop st buf =
     (if length buf \<ge> NMAX then
        (case do16_loop (NMAX div 16) st buf of
           ((adler, sum2), buf) \<Rightarrow> nmax_loop (adler_MOD adler, adler_MOD sum2) buf)
      else (st, buf))"
  by pat_completeness auto

lemma do16_loop_eq: "do16_loop n st buf = (foldl DO1 st (take (16 * n) buf), drop (16 * n) buf)"
proof (induction n arbitrary: st buf)
  case (Suc n)
  have "take (16 + 16 * n) buf = take 16 buf @ take (16 * n) (drop 16 buf)" by (rule take_add)
  with Suc show ?case by (simp add: DO16_def) (simp add: add.commute)
qed simp

termination nmax_loop
  by (relation "measure (\<lambda>(st, buf). length buf)") (auto simp: do16_loop_eq NMAX_def)

declare nmax_loop.simps [simp del]

definition adler_pack :: "UInt \<times> UInt \<Rightarrow> UInt" where
  "adler_pack = (\<lambda>(adler, sum2). adler OR push_bit 16 sum2)"

text \<open>The buffer is the list of its \<open>len\<close> bytes, \<open>None\<close> for \<open>NULL\<close>. With \<open>NULL\<close> the code reads
  \<open>buf[0]\<close> when \<open>len\<close> is 1.\<close>

definition adler32 :: "UInt \<Rightarrow> UChar list option \<Rightarrow> nat \<Rightarrow> UInt option" where
  "adler32 adler buf len =
     (let sum2 = drop_bit 16 adler AND 0xffff; adler = adler AND 0xffff; B = of_nat BASE in
      case buf of
        None \<Rightarrow> if len = 1 then None else Some 1
      | Some buf \<Rightarrow>
          if length buf < len then None
          else if len = 1 then
            let adler = adler + ucast (hd buf);
                adler = (if adler \<ge> B then adler - B else adler);
                sum2 = sum2 + adler;
                sum2 = (if sum2 \<ge> B then sum2 - B else sum2)
            in Some (adler_pack (adler, sum2))
          else if len < 16 then
            (case foldl DO1 (adler, sum2) (take len buf) of
               (adler, sum2) \<Rightarrow>
                 Some (adler_pack (if adler \<ge> B then adler - B else adler, adler_MOD4 sum2)))
          else
            (case nmax_loop (adler, sum2) (take len buf) of
               (st, buf) \<Rightarrow>
                 if buf \<noteq> [] then
                   (case do16_loop (length buf div 16) st buf of
                      (st, buf) \<Rightarrow>
                        case foldl DO1 st buf of
                          (adler, sum2) \<Rightarrow> Some (adler_pack (adler_MOD adler, adler_MOD sum2)))
                 else Some (adler_pack st)))"

section \<open>Lemmas on the conversions\<close>

definition digits_value :: "(char \<Rightarrow> nat option) \<Rightarrow> nat \<Rightarrow> nat \<Rightarrow> string \<Rightarrow> nat" where
  "digits_value isd base = foldl (\<lambda>n c. base * n + the (isd c))"

lemma digit_loop_digits:
  "\<forall>c \<in> set ds. isd c \<noteq> None \<Longrightarrow> isd c = None \<Longrightarrow>
   digit_loop isd base (of_nat n) conv (ds @ c # rest)
     = Some (of_nat (digits_value isd base n ds), conv \<or> ds \<noteq> [], c # rest)"
proof (induction ds arbitrary: n conv)
  case (Cons d ds)
  then obtain v where v: "isd d = Some v" by auto
  have "(of_nat base * of_nat n + of_nat v :: ULong) = of_nat (base * n + v)" by simp
  with Cons v show ?case by (simp add: digits_value_def del: of_nat_add of_nat_mult)
qed (simp add: digits_value_def)

lemma skip_space_ws:
  "\<forall>c \<in> set ws. vg_isspace c \<Longrightarrow> s \<noteq> [] \<Longrightarrow> \<not> vg_isspace (hd s) \<Longrightarrow> skip_space (ws @ s) = Some s"
  by (induction ws) (auto simp: neq_Nil_conv)

lemma dec_digit_not:
  assumes "is_dec_digit c \<noteq> None"
  shows "\<not> vg_isspace c" "c \<noteq> CHR ''-''" "c \<noteq> CHR ''+''"
  using assms by (auto simp: is_dec_digit_def in_range_def vg_isspace_def)

section \<open>Lemmas on the checksum\<close>

definition step_nat :: "nat \<Rightarrow> nat \<Rightarrow> nat" where
  "step_nat a k = (if a \<ge> BASE * 2 ^ k then a - BASE * 2 ^ k else a)"

lemma step_nat_mod: "step_nat a k mod BASE = a mod BASE"
  by (auto simp: step_nat_def mod_mult_self2 le_mod_geq) (metis le_add_diff_inverse2 mod_mult_self2)

lemma step_nat_less: "a < BASE * 2 ^ Suc k \<Longrightarrow> step_nat a k < BASE * 2 ^ k"
  by (auto simp: step_nat_def)

lemma steps_mod: "a < BASE * 2 ^ k \<Longrightarrow> foldl step_nat a (rev [0..<k]) = a mod BASE"
proof (induction k arbitrary: a)
  case (Suc k)
  from Suc.IH [OF step_nat_less [OF Suc.prems]] show ?case by (simp add: step_nat_mod)
qed (simp add: BASE_def)

lemma unat_mod_step:
  assumes "k \<le> 16"
  shows "unat (mod_step a k) = step_nat (unat a) k"
proof -
  have "(2::nat) ^ k \<le> 2 ^ 16" using assms by (intro power_increasing) auto
  then have "BASE * 2 ^ k < 2 ^ 32" by (simp add: BASE_def)
  then have u: "unat (of_nat (BASE * 2 ^ k) :: UInt) = BASE * 2 ^ k"
    by (simp add: unat_of_nat del: of_nat_mult)
  then show ?thesis
    by (simp add: mod_step_def step_nat_def word_le_nat_alt unat_sub_if_size)
qed

lemma unat_steps:
  "\<forall>k \<in> set ks. k \<le> 16 \<Longrightarrow> unat (foldl mod_step a ks) = foldl step_nat (unat a) ks"
  by (induction ks arbitrary: a) (simp_all add: unat_mod_step)

lemma unat_MOD: "unat (adler_MOD a) = unat a mod BASE"
proof -
  have "unat a < 2 ^ 32" using unsigned_less [of a] by simp
  then have "unat a < BASE * 2 ^ 17" by (simp add: BASE_def)
  from steps_mod [OF this] show ?thesis unfolding adler_MOD_def by (subst unat_steps) auto
qed

lemma unat_MOD4: "unat a < BASE * 2 ^ 5 \<Longrightarrow> unat (adler_MOD4 a) = unat a mod BASE"
  using steps_mod [of "unat a" 5] unfolding adler_MOD4_def by (subst unat_steps) auto

text \<open>The sums without any reduction, and with a reduction after every byte.\<close>

definition sum_step :: "nat \<times> nat \<Rightarrow> UChar \<Rightarrow> nat \<times> nat" where
  "sum_step = (\<lambda>(a, b) x. (a + unat x, b + (a + unat x)))"

definition adler_step :: "nat \<times> nat \<Rightarrow> UChar \<Rightarrow> nat \<times> nat" where
  "adler_step = (\<lambda>(a, b) x. ((a + unat x) mod BASE, (b + (a + unat x)) mod BASE))"

lemma DO1_of_nat:
  "foldl DO1 (of_nat a, of_nat b) xs = map_prod of_nat of_nat (foldl sum_step (a, b) xs)"
proof (induction xs arbitrary: a b)
  case (Cons x xs)
  have "DO1 (of_nat a, of_nat b) x = (of_nat (a + unat x), of_nat (b + (a + unat x)))"
    by (simp add: DO1_def Let_def)
  with Cons [of "a + unat x" "b + (a + unat x)"] show ?case by (simp add: sum_step_def)
qed simp

lemma sum_step_mod:
  "foldl adler_step (a mod BASE, b mod BASE) xs
     = (fst (foldl sum_step (a, b) xs) mod BASE, snd (foldl sum_step (a, b) xs) mod BASE)"
proof (induction xs arbitrary: a b)
  case (Cons x xs)
  have "adler_step (a mod BASE, b mod BASE) x = ((a + unat x) mod BASE, (b + (a + unat x)) mod BASE)"
    by (simp add: adler_step_def) (metis mod_add_left_eq mod_add_right_eq)
  with Cons [of "a + unat x" "b + (a + unat x)"] show ?case by (simp add: sum_step_def)
qed simp

lemma sum_bound:
  "fst (foldl sum_step (a, b) xs) \<le> a + 255 * length xs
   \<and> 2 * snd (foldl sum_step (a, b) xs) \<le> 2 * b + 2 * a * length xs + 255 * length xs * (length xs + 1)"
proof (induction xs arbitrary: a b)
  case (Cons x xs)
  have "unat x < 2 ^ 8" by (rule order_less_le_trans [OF unsigned_less]) simp
  then have x: "unat x \<le> 255" by simp
  have s: "sum_step (a, b) x = (a + unat x, b + (a + unat x))" by (simp add: sum_step_def)
  have "2 * snd (foldl sum_step (a + unat x, b + (a + unat x)) xs)
      \<le> 2 * (b + (a + unat x)) + 2 * (a + unat x) * length xs + 255 * length xs * (length xs + 1)"
    using Cons by blast
  also have "\<dots> \<le> 2 * (b + (a + 255)) + 2 * (a + 255) * length xs + 255 * length xs * (length xs + 1)"
    using x by (intro add_mono mult_mono) auto
  also have "\<dots> = 2 * b + 2 * a * length (x # xs) + 255 * length (x # xs) * (length (x # xs) + 1)"
    by (simp add: algebra_simps)
  finally have "2 * snd (foldl sum_step (a + unat x, b + (a + unat x)) xs) \<le> \<dots>" .
  moreover have "fst (foldl sum_step (a + unat x, b + (a + unat x)) xs) \<le> a + 255 * length (x # xs)"
    using Cons [of "a + unat x" "b + (a + unat x)"] x by simp
  ultimately show ?case by (simp add: s)
qed simp

lemma sum_bound_le:
  assumes "length xs \<le> N" "a < BASE" "b < BASE" "foldl sum_step (a, b) xs = (A, S)"
  shows "A \<le> 65520 + 255 * N" "2 * S \<le> 131040 + 131040 * N + 255 * (N * (N + 1))"
proof -
  have "length xs * (length xs + 1) \<le> N * (N + 1)" using assms(1) by (intro mult_mono) auto
  moreover have "a * length xs \<le> 65520 * N" using assms(1,2) by (intro mult_mono) (auto simp: BASE_def)
  moreover have "A \<le> a + 255 * length xs" "2 * S \<le> 2 * b + 2 * (a * length xs) + 255 * (length xs * (length xs + 1))"
    using sum_bound [of a b xs] assms(4) by (simp_all add: mult.assoc)
  moreover have "a \<le> 65520" "b \<le> 65520" using assms(2,3) by (simp_all add: BASE_def)
  ultimately show "A \<le> 65520 + 255 * N" "2 * S \<le> 131040 + 131040 * N + 255 * (N * (N + 1))"
    using assms(1) by linarith+
qed

lemma block_mod:
  assumes "a < BASE" "b < BASE" "length xs \<le> NMAX" "foldl DO1 (of_nat a, of_nat b) xs = (p, q)"
  shows "(adler_MOD p, adler_MOD q) = map_prod of_nat of_nat (foldl adler_step (a, b) xs)"
    and "unat p = fst (foldl sum_step (a, b) xs)" "unat q = snd (foldl sum_step (a, b) xs)"
proof -
  obtain A S where AS: "foldl sum_step (a, b) xs = (A, S)" by (cases "foldl sum_step (a, b) xs")
  have S: "A < 2 ^ 32" "S < 2 ^ 32"
    using sum_bound_le [OF assms(3,1,2) AS] by (simp_all add: NMAX_def)
  have pq: "p = of_nat A" "q = of_nat S" using DO1_of_nat [of a b xs] assms(4) AS by simp_all
  then show u: "unat p = fst (foldl sum_step (a, b) xs)" "unat q = snd (foldl sum_step (a, b) xs)"
    using S by (simp_all add: AS unat_of_nat)
  have "foldl adler_step (a, b) xs = (A mod BASE, S mod BASE)"
    using sum_step_mod [of a b xs] assms(1,2) by (simp add: AS)
  moreover have "adler_MOD p = of_nat (A mod BASE)" "adler_MOD q = of_nat (S mod BASE)"
    using unat_MOD [of p] unat_MOD [of q] u AS
    by (simp_all add: word_unat_eq_iff unat_of_nat) (simp_all add: BASE_def)
  ultimately show "(adler_MOD p, adler_MOD q) = map_prod of_nat of_nat (foldl adler_step (a, b) xs)" by simp
qed

lemma adler_step_less: "a < BASE \<Longrightarrow> b < BASE \<Longrightarrow> foldl adler_step (a, b) xs = (a', b') \<Longrightarrow> a' < BASE \<and> b' < BASE"
proof (induction xs arbitrary: a b)
  case (Cons x xs)
  have s: "adler_step (a, b) x = ((a + unat x) mod BASE, (b + (a + unat x)) mod BASE)"
    by (simp add: adler_step_def)
  have "0 < BASE" by (simp add: BASE_def)
  then show ?case using Cons.IH [of "(a + unat x) mod BASE" "(b + (a + unat x)) mod BASE"] Cons.prems(3)
    by (simp add: s)
qed simp

lemma nmax_loop_spec:
  assumes "a < BASE" "b < BASE"
  shows "\<exists>xs rest. buf = xs @ rest \<and> length rest < NMAX
     \<and> nmax_loop (of_nat a, of_nat b) buf = (map_prod of_nat of_nat (foldl adler_step (a, b) xs), rest)"
  using assms
proof (induction "length buf" arbitrary: buf a b rule: less_induct)
  case less
  show ?case
  proof (cases "length buf \<ge> NMAX")
    case True
    obtain p q where pq: "foldl DO1 (of_nat a, of_nat b) (take NMAX buf) = (p, q)"
      by (cases "foldl DO1 (of_nat a, of_nat b) (take NMAX buf)")
    obtain a' b' where ab: "foldl adler_step (a, b) (take NMAX buf) = (a', b')"
      by (cases "foldl adler_step (a, b) (take NMAX buf)")
    have m: "adler_MOD p = of_nat a'" "adler_MOD q = of_nat b'"
      using block_mod(1) [OF less.prems _ pq] ab by simp_all
    have l: "nmax_loop (of_nat a, of_nat b) buf = nmax_loop (of_nat a', of_nat b') (drop NMAX buf)"
      using True pq m by (subst nmax_loop.simps) (simp add: do16_loop_eq NMAX_def)
    have "length (drop NMAX buf) < length buf" using True by (simp add: NMAX_def)
    moreover have "a' < BASE" "b' < BASE" using adler_step_less [OF less.prems ab] by auto
    ultimately obtain xs rest where xs: "drop NMAX buf = xs @ rest" "length rest < NMAX"
      "nmax_loop (of_nat a', of_nat b') (drop NMAX buf)
         = (map_prod of_nat of_nat (foldl adler_step (a', b') xs), rest)"
      using less.hyps by blast
    have "buf = (take NMAX buf @ xs) @ rest" using xs(1) by (metis append_assoc append_take_drop_id)
    with xs l ab show ?thesis by (intro exI [of _ "take NMAX buf @ xs"] exI [of _ rest]) simp
  next
    case False
    then show ?thesis by (intro exI [of _ "[]"] exI [of _ buf]) (simp add: nmax_loop.simps)
  qed
qed

lemma adler_pack_of_nat:
  assumes "a < 2 ^ 16"
  shows "adler_pack (of_nat a, of_nat b) = of_nat (a + 65536 * b)"
proof -
  have "bit a n \<Longrightarrow> n < 16" for n
    using assms by (metis bit_take_bit_iff take_bit_nat_eq_self)
  then have "(of_nat a :: UInt) + push_bit 16 (of_nat b) = of_nat a OR push_bit 16 (of_nat b)"
    by (intro disjunctive_add) (force simp: bit_simps)
  then show ?thesis by (simp add: adler_pack_def push_bit_eq_mult mult.commute)
qed

lemma adler_unpack:
  assumes "a < 2 ^ 16" "b < 2 ^ 16"
  shows "(of_nat (a + 65536 * b) :: UInt) AND 0xffff = of_nat a"
    and "drop_bit 16 (of_nat (a + 65536 * b) :: UInt) AND 0xffff = of_nat b"
proof -
  have m: "w AND 0xffff = take_bit 16 w" for w :: UInt
    by (simp add: take_bit_eq_mask mask_eq_exp_minus_1)
  have u: "unat (of_nat (a + 65536 * b) :: UInt) = a + 65536 * b"
    using assms by (simp add: unat_of_nat del: of_nat_add of_nat_mult)
  show "(of_nat (a + 65536 * b) :: UInt) AND 0xffff = of_nat a"
    unfolding m word_unat_eq_iff unsigned_take_bit_eq u using assms
    by (simp add: take_bit_eq_mod unat_of_nat)
  show "drop_bit 16 (of_nat (a + 65536 * b) :: UInt) AND 0xffff = of_nat b"
    unfolding m word_unat_eq_iff unsigned_take_bit_eq unsigned_drop_bit_eq u using assms
    by (simp add: take_bit_eq_mod drop_bit_eq_div unat_of_nat)
qed

lemma cond_sub_mod:
  assumes "unat w = A" "A < 2 * BASE"
  shows "(if w \<ge> of_nat BASE then w - of_nat BASE else w) = (of_nat (A mod BASE) :: UInt)"
proof -
  have "mod_step w 0 = (if w \<ge> of_nat BASE then w - of_nat BASE else w)" by (simp add: mod_step_def)
  moreover have "unat (mod_step w 0) = A mod BASE"
    using steps_mod [of A 1] unat_mod_step [of 0 w] assms by simp
  moreover have "A mod BASE < 2 ^ 32" by (simp add: BASE_def)
  ultimately show ?thesis by (simp only: word_unat_eq_iff) (simp add: unat_of_nat)
qed

lemma MOD4_of_nat: "unat w = A \<Longrightarrow> A < BASE * 2 ^ 5 \<Longrightarrow> adler_MOD4 w = of_nat (A mod BASE)"
  using unat_MOD4 [of w] by (simp add: word_unat_eq_iff unat_of_nat BASE_def)

section \<open>Properties\<close>

text \<open>C14: The checksum, through its one-byte, short and blocked paths with deferred reductions by
  conditional subtraction, is Adler-32: two sums reduced modulo 65521 after every byte. No
  32-bit sum overflows between reductions.\<close>

theorem adler32_correct:
  assumes "a < BASE" "b < BASE" "length buf < 2 ^ 32"
  shows "adler32 (of_nat (a + 65536 * b)) (Some buf) (length buf)
     = Some (case foldl adler_step (a, b) buf of (a', b') \<Rightarrow> of_nat (a' + 65536 * b'))"
proof -
  obtain a' b' where ab: "foldl adler_step (a, b) buf = (a', b')" by (cases "foldl adler_step (a, b) buf")
  have less: "a' < BASE" "b' < BASE" using adler_step_less [OF assms(1,2) ab] by auto
  have small: "a < 2 ^ 16" "b < 2 ^ 16" "a' < 2 ^ 16" using assms less by (simp_all add: BASE_def)
  have pack: "adler_pack (of_nat a', of_nat b') = of_nat (a' + 65536 * b')"
    by (rule adler_pack_of_nat [OF small(3)])
  note unpack = adler_unpack [OF small(1,2)]
  consider "length buf = 1" | "length buf < 16" "length buf \<noteq> 1" | "16 \<le> length buf" by linarith
  then show ?thesis
  proof cases
    case 1
    then obtain x where x: "buf = [x]" by (cases buf) auto
    have "unat x < 2 ^ 8" by (rule order_less_le_trans [OF unsigned_less]) simp
    then have A: "(of_nat a + ucast x :: UInt) = of_nat (a + unat x)" "a + unat x < 2 * BASE"
      using assms(1) by (simp_all add: BASE_def)
    have "unat (of_nat (a + unat x) :: UInt) = a + unat x" using A(2) by (simp add: unat_of_nat BASE_def del: of_nat_add)
    note c1 = cond_sub_mod [OF this A(2)]
    have a': "a' = (a + unat x) mod BASE" "b' = (b + a') mod BASE"
      using ab by (auto simp: x adler_step_def mod_simps)
    have B: "b + a' < 2 * BASE" using assms(2) less(1) by simp
    have "unat (of_nat b + of_nat a' :: UInt) = b + a'" using B by (simp add: unat_of_nat BASE_def flip: of_nat_add)
    note c2 = cond_sub_mod [OF this B]
    define p q :: UInt where "p = (if of_nat a + ucast x \<ge> (of_nat BASE :: UInt) then of_nat a + ucast x - of_nat BASE else of_nat a + ucast x)"
      and "q = (if of_nat b + p \<ge> of_nat BASE then of_nat b + p - of_nat BASE else of_nat b + p)"
    have p: "p = of_nat a'" unfolding p_def A(1) c1 a'(1) by (rule refl)
    have q: "q = of_nat b'" unfolding q_def p c2 by (simp only: a'(2) [symmetric])
    have "adler32 (of_nat (a + 65536 * b)) (Some buf) (length buf) = Some (adler_pack (p, q))"
      unfolding adler32_def unpack Let_def by (simp add: x p_def q_def)
    then show ?thesis unfolding p q pack ab by simp
  next
    case 2
    obtain p q where pq: "foldl DO1 (of_nat a, of_nat b) buf = (p, q)"
      by (cases "foldl DO1 (of_nat a, of_nat b) buf")
    obtain A S where AS: "foldl sum_step (a, b) buf = (A, S)" by (cases "foldl sum_step (a, b) buf")
    have "length buf \<le> NMAX" using 2 by (simp add: NMAX_def)
    then have u: "unat p = A" "unat q = S" using block_mod(2,3) [OF assms(1,2) _ pq] AS by simp_all
    have "length buf \<le> 15" using 2 by simp
    from sum_bound_le [OF this assms(1,2) AS] have bd: "A < 2 * BASE" "S < BASE * 2 ^ 5"
      by (simp_all add: BASE_def)
    have m: "a' = A mod BASE" "b' = S mod BASE"
      using sum_step_mod [of a b buf] assms(1,2) AS ab by simp_all
    show ?thesis
      using pack 2 cond_sub_mod [OF u(1) bd(1)] MOD4_of_nat [OF u(2) bd(2)] m pq
      unfolding adler32_def unpack Let_def ab by simp
  next
    case 3
    obtain xs rest where xs: "buf = xs @ rest" "length rest < NMAX"
      "nmax_loop (of_nat a, of_nat b) buf = (map_prod of_nat of_nat (foldl adler_step (a, b) xs), rest)"
      using nmax_loop_spec [OF assms(1,2)] by blast
    obtain a1 b1 where ab1: "foldl adler_step (a, b) xs = (a1, b1)" by (cases "foldl adler_step (a, b) xs")
    have l1: "a1 < BASE" "b1 < BASE" using adler_step_less [OF assms(1,2) ab1] by auto
    obtain p q where pq: "foldl DO1 (of_nat a1, of_nat b1) rest = (p, q)"
      by (cases "foldl DO1 (of_nat a1, of_nat b1) rest")
    have r: "foldl adler_step (a1, b1) rest = (a', b')" using ab xs(1) ab1 by simp
    have md: "adler_MOD p = of_nat a'" "adler_MOD q = of_nat b'"
      using block_mod(1) [OF l1 _ pq] xs(2) r by simp_all
    have "foldl DO1 (foldl DO1 (of_nat a1, of_nat b1) (take (16 * (length rest div 16)) rest))
        (drop (16 * (length rest div 16)) rest) = (p, q)"
      by (simp only: foldl_append [symmetric] append_take_drop_id pq)
    then show ?thesis
      using 3 xs(3) ab1 pack md r
      unfolding adler32_def unpack Let_def ab by (auto simp: do16_loop_eq)
  qed
qed

theorem adler32_correct_witness:
  "adler32 1 (Some [0x57, 0x69, 0x6B, 0x69]) 4 = Some (0x03DA0195)"
proof -
  have "foldl adler_step (1, 0) [0x57, 0x69, 0x6B, 0x69] = (0x195, 0x3DA)"
    by (simp add: adler_step_def BASE_def)
  moreover have "length [0x57, 0x69, 0x6B, 0x69 :: UChar] = 4" by simp
  ultimately show ?thesis
    using adler32_correct [of 1 0 "[0x57, 0x69, 0x6B, 0x69]"] by (simp only:) (simp add: BASE_def)
qed

text \<open>On decimal text, optionally preceded by white space and a sign, \<open>strtoll10\<close> returns the
  value modulo \<open>2 ^ 64\<close> and the first character that is not a digit.\<close>

theorem strtoll10_correct:
  assumes "\<forall>c \<in> set ws. vg_isspace c" "sg \<in> {[], ''-'', ''+''}" "ds \<noteq> []"
    and "\<forall>d \<in> set ds. is_dec_digit d \<noteq> None" "is_dec_digit c = None"
  shows "strtoll10 (ws @ sg @ ds @ c # rest) =
     Some (of_int ((if sg = ''-'' then -1 else 1) * int (digits_value is_dec_digit 10 0 ds)), c # rest)"
proof -
  obtain d ds' where d: "ds = d # ds'" "is_dec_digit d \<noteq> None" using assms(3,4) by (cases ds) auto
  note nd = dec_digit_not [OF d(2)]
  have "skip_space (ws @ sg @ ds @ c # rest) = Some (sg @ ds @ c # rest)"
  proof (rule skip_space_ws [OF assms(1)])
    show "\<not> vg_isspace (hd (sg @ ds @ c # rest))"
      using assms(2) nd(1) by (auto simp: d(1)) (simp_all add: vg_isspace_def)
  qed simp
  moreover have "take_sign (sg @ ds @ c # rest) = Some (sg = ''-'', ds @ c # rest)"
    using assms(2) nd by (auto simp: take_sign_def d)
  ultimately show ?thesis
    using digit_loop_digits [OF assms(4,5), of 10 0 False rest] assms(3) by (simp add: strtoll10_def)
qed

theorem strtoll10_correct_witness: "strtoll10 ('' -42,'' @ [NUL]) = Some (-42, '','' @ [NUL])"
  using strtoll10_correct [of "'' ''" "''-''" "''42''" "CHR '',''" "[NUL]"]
  by (simp add: vg_isspace_def is_dec_digit_def in_range_def digits_value_def)

text \<open>On hexadecimal text with the prefix \<open>0x\<close> or \<open>0X\<close>, \<open>strtoull16\<close> returns the value modulo
  \<open>2 ^ 64\<close> and the first character that is no hexadecimal digit.\<close>

theorem strtoull16_correct:
  assumes "\<forall>c \<in> set ws. vg_isspace c" "sg \<in> {[], ''+''}" "pre \<in> {''0x'', ''0X''}" "ds \<noteq> []"
    and "\<forall>d \<in> set ds. is_hex_digit d \<noteq> None" "is_hex_digit c = None"
  shows "strtoull16 (ws @ sg @ pre @ ds @ c # rest) =
     Some (of_nat (digits_value is_hex_digit 16 0 ds), c # rest)"
proof -
  obtain d ds' where d: "ds = d # ds'" "is_hex_digit d \<noteq> None" using assms(4,5) by (cases ds) auto
  have "skip_space (ws @ sg @ pre @ ds @ c # rest) = Some (sg @ pre @ ds @ c # rest)"
  proof (rule skip_space_ws [OF assms(1)])
    show "\<not> vg_isspace (hd (sg @ pre @ ds @ c # rest))"
      using assms(2,3) by (auto simp: vg_isspace_def)
  qed simp
  moreover have "take_plus (sg @ pre @ ds @ c # rest) = Some (pre @ ds @ c # rest)"
    using assms(2,3) by (auto simp: take_plus_def)
  moreover have "take_0x (pre @ ds @ c # rest) = Some (ds @ c # rest)"
    using assms(3) d by (auto simp: take_0x_def)
  ultimately show ?thesis
    using digit_loop_digits [OF assms(5,6), of 16 0 False rest] assms(4) by (simp add: strtoull16_def)
qed

theorem strtoull16_correct_witness: "strtoull16 (''0xfF ok'' @ [NUL]) = Some (255, '' ok'' @ [NUL])"
  using strtoull16_correct [of "[]" "[]" "''0x''" "''fF''" "CHR '' ''" "''ok'' @ [NUL]"]
  by (simp add: is_hex_digit_def in_range_def digits_value_def)

end
