(* ===== verification/CString.thy ===== *)
theory CString
  imports CNum
begin

text \<open>
  The string functions of \<open>coregrind/m_libcbase.c\<close>.

  A pointer into a string is the list of characters from it on (see \<open>CNum\<close>): a C string \<open>s\<close> in
  memory is \<open>s @ NUL # r\<close>. A pointer that a function returns is again such a list, \<open>NULL\<close> is the
  inner \<open>None\<close>; the outer option is \<open>None\<close> when the function reads or writes outside its arrays.
  Functions that write receive the whole destination array and return it.
\<close>

section \<open>Lengths and copies\<close>

definition vg_tolower :: "char \<Rightarrow> char" where
  "vg_tolower c = (if in_range CHR ''A'' CHR ''Z'' c then char_of ((of_char c :: nat) - 65 + 97) else c)"

fun strlen :: "string \<Rightarrow> nat option" where
  "strlen [] = None"
| "strlen (c # s) = (if c \<noteq> NUL then map_option Suc (strlen s) else Some 0)"

fun strcpy :: "string \<Rightarrow> string \<Rightarrow> string option" where
  "strcpy dest [] = None"
| "strcpy [] (c # src) = None"
| "strcpy (d # dest) (c # src) =
     (if c \<noteq> NUL then map_option (Cons c) (strcpy dest src) else Some (NUL # dest))"

fun strcat :: "string \<Rightarrow> string \<Rightarrow> string option" where
  "strcat [] src = None"
| "strcat (d # dest) src =
     (if d \<noteq> NUL then map_option (Cons d) (strcat dest src) else strcpy (d # dest) src)"

text \<open>The copying loop of \<open>strncat\<close>: at most \<open>n\<close> characters, then the terminator. The source is read
  before \<open>n\<close> is tested.\<close>

fun strncat_copy :: "string \<Rightarrow> string \<Rightarrow> nat \<Rightarrow> string option" where
  "strncat_copy dest [] n = None"
| "strncat_copy [] (c # src) n = None"
| "strncat_copy (d # dest) (c # src) n =
     (if c \<noteq> NUL \<and> n > 0 then map_option (Cons c) (strncat_copy dest src (n - 1)) else Some (NUL # dest))"

fun strncat :: "string \<Rightarrow> string \<Rightarrow> nat \<Rightarrow> string option" where
  "strncat [] src n = None"
| "strncat (d # dest) src n =
     (if d \<noteq> NUL then map_option (Cons d) (strncat dest src n) else strncat_copy (d # dest) src n)"

fun strncpy :: "string \<Rightarrow> string \<Rightarrow> nat \<Rightarrow> string option" where
  "strncpy dest src 0 = Some dest"
| "strncpy dest [] (Suc n) = None"
| "strncpy [] (c # src) (Suc n) = None"
| "strncpy (d # dest) (c # src) (Suc n) =
     (if c = NUL
      then if n \<le> length dest then Some (NUL # replicate n NUL @ drop n dest) else None
      else map_option (Cons c) (strncpy dest src n))"

section \<open>Comparison\<close>

fun strcmp :: "string \<Rightarrow> string \<Rightarrow> int option" where
  "strcmp (a # s1) (b # s2) =
     (if (of_char a :: nat) < of_char b then Some (-1)
      else if (of_char a :: nat) > of_char b then Some 1
      else if a = NUL then Some 0
      else strcmp s1 s2)"
| "strcmp _ _ = None"

fun strcasecmp :: "string \<Rightarrow> string \<Rightarrow> int option" where
  "strcasecmp (a # s1) (b # s2) =
     (let c1 = of_char (vg_tolower a) :: nat; c2 = of_char (vg_tolower b) in
      if c1 < c2 then Some (-1) else if c1 > c2 then Some 1 else if c1 = 0 then Some 0
      else strcasecmp s1 s2)"
| "strcasecmp _ _ = None"

fun strncmp :: "string \<Rightarrow> string \<Rightarrow> nat \<Rightarrow> int option" where
  "strncmp s1 s2 0 = Some 0"
| "strncmp (a # s1) (b # s2) (Suc n) =
     (if (of_char a :: nat) < of_char b then Some (-1)
      else if (of_char a :: nat) > of_char b then Some 1
      else if a = NUL then Some 0
      else strncmp s1 s2 n)"
| "strncmp _ _ (Suc n) = None"

fun strncasecmp :: "string \<Rightarrow> string \<Rightarrow> nat \<Rightarrow> int option" where
  "strncasecmp s1 s2 0 = Some 0"
| "strncasecmp (a # s1) (b # s2) (Suc n) =
     (let c1 = of_char (vg_tolower a) :: nat; c2 = of_char (vg_tolower b) in
      if c1 < c2 then Some (-1) else if c1 > c2 then Some 1 else if c1 = 0 then Some 0
      else strncasecmp s1 s2 n)"
| "strncasecmp _ _ (Suc n) = None"

section \<open>Searching\<close>

fun strstr_loop :: "(string \<Rightarrow> string \<Rightarrow> nat \<Rightarrow> int option) \<Rightarrow> nat \<Rightarrow> string \<Rightarrow> string
    \<Rightarrow> string option option" where
  "strstr_loop cmp n [] needle = None"
| "strstr_loop cmp n (c # haystack) needle =
     (if c = NUL then Some None
      else do { r \<leftarrow> cmp (c # haystack) needle n;
                if r = 0 then Some (Some (c # haystack)) else strstr_loop cmp n haystack needle })"

definition strstr :: "string option \<Rightarrow> string \<Rightarrow> string option option" where
  "strstr haystack needle =
     (case haystack of
        None \<Rightarrow> Some None
      | Some h \<Rightarrow> do { n \<leftarrow> strlen needle; strstr_loop strncmp n h needle })"

definition strcasestr :: "string option \<Rightarrow> string \<Rightarrow> string option option" where
  "strcasestr haystack needle =
     (case haystack of
        None \<Rightarrow> Some None
      | Some h \<Rightarrow> do { n \<leftarrow> strlen needle; strstr_loop strncasecmp n h needle })"

fun strchr :: "string \<Rightarrow> char \<Rightarrow> string option option" where
  "strchr [] c = None"
| "strchr (a # s) c =
     (if a = c then Some (Some (a # s)) else if a = NUL then Some None else strchr s c)"

text \<open>\<open>while (--n > 0) if (s[n] == c) return s + n;\<close>\<close>

fun strrchr_loop :: "string \<Rightarrow> char \<Rightarrow> nat \<Rightarrow> string option" where
  "strrchr_loop s c n =
     (if n > 1 then if s ! (n - 1) = c then Some (drop (n - 1) s) else strrchr_loop s c (n - 1) else None)"

declare strrchr_loop.simps [simp del]

definition strrchr :: "string \<Rightarrow> char \<Rightarrow> string option option" where
  "strrchr s c = do { n \<leftarrow> strlen s; Some (strrchr_loop s c n) }"

text \<open>The inner loop of \<open>strpbrk\<close> and \<open>strspn\<close>: is the character in the C string \<open>accpt\<close>?\<close>

fun in_accept :: "char \<Rightarrow> string \<Rightarrow> bool option" where
  "in_accept c [] = None"
| "in_accept c (a # accpt) = (if a = NUL then Some False else if a = c then Some True else in_accept c accpt)"

fun strpbrk :: "string \<Rightarrow> string \<Rightarrow> string option option" where
  "strpbrk [] accpt = None"
| "strpbrk (c # s) accpt =
     (if c = NUL then Some None
      else do { b \<leftarrow> in_accept c accpt; if b then Some (Some (c # s)) else strpbrk s accpt })"

fun strspn :: "string \<Rightarrow> string \<Rightarrow> nat option" where
  "strspn [] accpt = None"
| "strspn (c # s) accpt =
     (if c = NUL then Some 0
      else do { b \<leftarrow> in_accept c accpt; if b then map_option Suc (strspn s accpt) else Some 0 })"

fun strcspn :: "string \<Rightarrow> string \<Rightarrow> nat option" where
  "strcspn [] reject = None"
| "strcspn (c # s) reject =
     (if c = NUL then Some 0
      else do { r \<leftarrow> strchr reject c; if r = None then map_option Suc (strcspn s reject) else Some 0 })"

section \<open>Tokens\<close>

text \<open>Returns the token and the new \<open>*saveptr\<close>. The token is the memory from its first character on,
  with the terminator the function writes over the delimiter.\<close>

definition strtok_end :: "string \<Rightarrow> string \<Rightarrow> (string option \<times> string) option" where
  "strtok_end s delim =
     (case s of
        [] \<Rightarrow> None
      | c # _ \<Rightarrow>
          if c = NUL then Some (None, s)
          else case strpbrk s delim of
                 None \<Rightarrow> None
               | Some None \<Rightarrow> do { n \<leftarrow> strlen s; Some (Some s, drop n s) }
               | Some (Some q) \<Rightarrow> Some (Some (take (length s - length q) s @ NUL # tl q), tl q))"

definition strtok_r :: "string option \<Rightarrow> string \<Rightarrow> string \<Rightarrow> (string option \<times> string) option" where
  "strtok_r s delim saveptr =
     (let s = (case s of Some s \<Rightarrow> s | None \<Rightarrow> saveptr) in
      do { k \<leftarrow> strspn s delim; strtok_end (drop k s) delim })"

text \<open>\<open>strtok\<close> keeps the pointer in the static variable \<open>olds\<close>.\<close>

definition strtok :: "string option \<Rightarrow> string \<Rightarrow> string \<Rightarrow> (string option \<times> string) option" where
  "strtok s delim olds = strtok_r s delim olds"

section \<open>Addresses and sets of names\<close>

definition isHex :: "char \<Rightarrow> bool" where
  "isHex c = (in_range CHR ''0'' CHR ''9'' c \<or> in_range CHR ''a'' CHR ''f'' c \<or> in_range CHR ''A'' CHR ''F'' c)"

definition fromHex :: "char \<Rightarrow> UInt" where
  "fromHex c =
     (if in_range CHR ''0'' CHR ''9'' c then of_char c - of_char CHR ''0''
      else if in_range CHR ''a'' CHR ''f'' c then 10 + of_char c - of_char CHR ''a''
      else if in_range CHR ''A'' CHR ''F'' c then 10 + of_char c - of_char CHR ''A''
      else 0)"

text \<open>The loop of \<open>parse_Addr\<close>: result, number of digits and position, \<open>Inl\<close> when there are more than
  16 digits.\<close>

fun parse_Addr_loop :: "string \<Rightarrow> UWord \<Rightarrow> nat \<Rightarrow> (string \<times> UWord + string \<times> UWord \<times> nat) option" where
  "parse_Addr_loop [] result used = None"
| "parse_Addr_loop (c # pc) result used =
     (if isHex c then
        let result = push_bit 4 result OR ucast (fromHex c) in
        if used + 1 > 16 then Some (Inl (pc, result)) else parse_Addr_loop pc result (used + 1)
      else Some (Inr (c # pc, result, used)))"

text \<open>The new \<open>*ppc\<close>, the new \<open>*result\<close> and the function's result.\<close>

definition parse_Addr :: "string \<Rightarrow> UWord \<Rightarrow> (string \<times> UWord \<times> bool) option" where
  "parse_Addr ppc result =
     (case ppc of
        [] \<Rightarrow> None
      | a # p \<Rightarrow>
          if a \<noteq> CHR ''0'' then Some (ppc, result, False)
          else case p of
                 [] \<Rightarrow> None
               | x # q \<Rightarrow>
                   if x \<noteq> CHR ''x'' then Some (p, result, False)
                   else case parse_Addr_loop q 0 0 of
                          None \<Rightarrow> None
                        | Some (Inl (pc, r)) \<Rightarrow> Some (pc, r, False)
                        | Some (Inr (pc, r, used)) \<Rightarrow> Some (pc, r, used \<noteq> 0))"

record enum_state =
  enum_set :: UInt
  all_set :: UInt
  word_nr :: nat
  known_words :: nat
  seen_all_kw :: bool
  seen_none_kw :: bool

lemma strpbrk_suffix: "strpbrk s accpt = Some (Some q) \<Longrightarrow> q \<noteq> [] \<and> length q \<le> length s"
  by (induction s) (auto split: if_splits bind_splits)

lemma strlen_pos: "strlen (c # s) = Some n \<Longrightarrow> c \<noteq> NUL \<Longrightarrow> 0 < n"
  by auto

lemma strtok_end_shorter:
  assumes "strtok_end s delim = Some (Some t, sp')"
  shows "length sp' < length s"
proof -
  obtain c u where s: "s = c # u" "c \<noteq> NUL"
    using assms by (auto simp: strtok_end_def split: list.splits if_splits)
  obtain p where p: "strpbrk s delim = Some p"
    using assms by (auto simp: strtok_end_def split: list.splits if_splits option.splits)
  show ?thesis
  proof (cases p)
    case None
    then obtain n where "strlen s = Some n" "sp' = drop n s"
      using assms p s(2) unfolding strtok_end_def s(1) by (auto elim!: bind_SomeE simp del: strlen.simps strpbrk.simps)
    then show ?thesis using strlen_pos [of c u n] s by simp
  next
    case (Some q)
    then have "sp' = tl q" using assms p s(2) unfolding strtok_end_def s(1) by (auto simp del: strpbrk.simps)
    with strpbrk_suffix [of s delim q] Some p show ?thesis by (cases q) auto
  qed
qed

lemma strtok_r_shorter:
  assumes "strtok_r None delim sp = Some (Some t, sp')"
  shows "length sp' < length sp"
proof -
  obtain k where "strtok_end (drop k sp) delim = Some (Some t, sp')"
    using assms by (auto simp: strtok_r_def elim!: bind_SomeE)
  from strtok_end_shorter [OF this] show ?thesis by simp
qed

abbreviation comma :: string where
  "comma \<equiv> '','' @ [NUL]"

text \<open>The loop over the known names for one word of the input: a name \<open>-\<close> reserves its bit. A shift
  of 32 or more is \<open>None\<close>.\<close>

function enum_tokens_loop :: "string \<Rightarrow> nat \<Rightarrow> string option \<Rightarrow> string \<Rightarrow> enum_state \<Rightarrow> enum_state option" where
  "enum_tokens_loop input_word token_nr None saveptr st = Some st"
| "enum_tokens_loop input_word token_nr (Some token) saveptr st =
     do { r \<leftarrow> strcmp token (''-'' @ [NUL]);
          st \<leftarrow> (if r \<noteq> 0 then
                  do { e \<leftarrow> strcmp input_word token;
                       vg_assert (token_nr < 32);
                       let bit = push_bit token_nr 1;
                           st = (if e = 0 then st\<lparr>enum_set := enum_set st OR bit,
                                               known_words := known_words st + 1\<rparr> else st)
                       in Some (st\<lparr>all_set := all_set st OR bit\<rparr>) }
                else Some st);
          (case strtok_r None comma saveptr of
             None \<Rightarrow> None
           | Some (token', saveptr') \<Rightarrow> enum_tokens_loop input_word (token_nr + 1) token' saveptr' st) }"
  by pat_completeness auto
termination
  by (relation "measure (\<lambda>(w, nr, t, sp, st). case t of None \<Rightarrow> 0 | Some _ \<Rightarrow> Suc (length sp))")
     (auto split: option.splits dest: strtok_r_shorter)

text \<open>The loop over the words of the input.\<close>

function enum_input_loop :: "string \<Rightarrow> bool \<Rightarrow> string option \<Rightarrow> string \<Rightarrow> enum_state \<Rightarrow> enum_state option" where
  "enum_input_loop tokens allow_all None saveptr st = Some st"
| "enum_input_loop tokens allow_all (Some input_word) saveptr st =
     do { let st = st\<lparr>word_nr := word_nr st + 1\<rparr>;
          a \<leftarrow> (if allow_all then strcmp input_word (''all'' @ [NUL]) else Some 1);
          n \<leftarrow> strcmp input_word (''none'' @ [NUL]);
          let st = (if a = 0 then st\<lparr>seen_all_kw := True, known_words := known_words st + 1\<rparr>
                    else if n = 0 then st\<lparr>seen_none_kw := True, known_words := known_words st + 1\<rparr>
                    else st);
          (token, tsave) \<leftarrow> strtok_r (Some tokens) comma [];
          st \<leftarrow> enum_tokens_loop input_word 0 token tsave (st\<lparr>all_set := 0\<rparr>);
          (case strtok_r None comma saveptr of
             None \<Rightarrow> None
           | Some (word', saveptr') \<Rightarrow> enum_input_loop tokens allow_all word' saveptr' st) }"
  by pat_completeness auto
termination
  by (relation "measure (\<lambda>(t, a, w, sp, st). case w of None \<Rightarrow> 0 | Some _ \<Rightarrow> Suc (length sp))")
     (auto split: option.splits dest: strtok_r_shorter)

declare enum_tokens_loop.simps(2) [simp del] enum_input_loop.simps(2) [simp del]

text \<open>The result and the final \<open>*enum_set\<close>.\<close>

definition enum_finish :: "enum_state \<Rightarrow> bool \<times> UInt" where
  "enum_finish st =
     (if known_words st \<noteq> word_nr st then (False, enum_set st)
      else if seen_all_kw st then
        (if seen_none_kw st \<or> enum_set st \<noteq> 0 then (False, enum_set st) else (True, all_set st))
      else if seen_none_kw st then
        (if seen_all_kw st \<or> enum_set st \<noteq> 0 then (False, enum_set st) else (True, 0))
      else if enum_set st = 0 then (False, enum_set st) else (True, enum_set st))"

text \<open>The copies of the two strings are made with \<open>strcpy\<close> into arrays of the right size, so they
  are the strings. \<open>None\<close> in the second component: \<open>*enum_set\<close> is not written.\<close>

definition parse_enum_set :: "string \<Rightarrow> bool \<Rightarrow> string \<Rightarrow> (bool \<times> UInt option) option" where
  "parse_enum_set tokens allow_all input =
     do { tokens_len \<leftarrow> strlen tokens;
          if tokens_len > 1000 then Some (False, None)
          else
            do { input_len \<leftarrow> strlen input;
                 if input_len > 1000 then Some (False, None)
                 else
                   do { tok_tokens \<leftarrow> strcpy (replicate (tokens_len + 1) NUL) tokens;
                        tok_input \<leftarrow> strcpy (replicate (input_len + 1) NUL) input;
                        (word, saveptr) \<leftarrow> strtok_r (Some tok_input) comma [];
                        st \<leftarrow> enum_input_loop tok_tokens allow_all word saveptr
                               \<lparr>enum_set = 0, all_set = 0, word_nr = 0, known_words = 0,
                                seen_all_kw = False, seen_none_kw = False\<rparr>;
                        (case enum_finish st of (b, e) \<Rightarrow> Some (b, Some e)) } } }"

end
