(* ===== verification/CString_Props.thy ===== *)
theory CString_Props
  imports CString "HOL-Library.Sublist"
begin

text \<open>
  What the string functions do on C strings: lengths, copies, comparison, search, and the two
  parsers built on \<open>strtok_r\<close>.
\<close>

section \<open>C strings\<close>

lemma strlen_cstr: "NUL \<notin> set s \<Longrightarrow> strlen (s @ NUL # r) = Some (length s)"
  by (induction s) auto

lemma strcpy_cstr:
  "NUL \<notin> set s \<Longrightarrow> length s < length dest \<Longrightarrow> strcpy dest (s @ NUL # r) = Some (s @ NUL # drop (length s + 1) dest)"
proof (induction s arbitrary: dest)
  case Nil
  then show ?case by (cases dest) auto
next
  case (Cons c s)
  then show ?case by (cases dest) auto
qed

section \<open>Comparison\<close>

text \<open>The lexicographic order of the bytes.\<close>

fun lex_cmp :: "string \<Rightarrow> string \<Rightarrow> int" where
  "lex_cmp [] [] = 0"
| "lex_cmp [] (b # t) = -1"
| "lex_cmp (a # s) [] = 1"
| "lex_cmp (a # s) (b # t) =
     (if (of_char a :: nat) < of_char b then -1 else if (of_char a :: nat) > of_char b then 1 else lex_cmp s t)"

lemma of_char_NUL: "(of_char c :: nat) = 0 \<longleftrightarrow> c = NUL"
  using of_char_eq_iff [of c NUL, where ?'a = nat] by simp

lemma strcmp_cstr:
  "NUL \<notin> set s \<Longrightarrow> NUL \<notin> set t \<Longrightarrow> strcmp (s @ NUL # r) (t @ NUL # q) = Some (lex_cmp s t)"
  by (induction s t rule: lex_cmp.induct) (auto simp: of_char_NUL)

lemma lex_cmp_0: "lex_cmp s t = 0 \<longleftrightarrow> s = t"
  by (induction s t rule: lex_cmp.induct) (auto simp: not_less_iff_gr_or_eq)

lemma lex_cmp_antisym: "lex_cmp s t < 0 \<longleftrightarrow> lex_cmp t s > 0"
  by (induction s t rule: lex_cmp.induct) auto

lemma lex_cmp_Cons_le:
  "lex_cmp (a # s) (b # t) \<le> 0 \<longleftrightarrow>
     (of_char a :: nat) < of_char b \<or> (of_char a :: nat) = of_char b \<and> lex_cmp s t \<le> 0"
  by auto

lemma lex_cmp_trans: "lex_cmp s t \<le> 0 \<Longrightarrow> lex_cmp t u \<le> 0 \<Longrightarrow> lex_cmp s u \<le> 0"
proof (induction s arbitrary: t u)
  case Nil
  then show ?case by (cases u) auto
next
  case (Cons a s)
  obtain b t' where t: "t = b # t'" using Cons.prems(1) by (cases t) auto
  obtain c u' where u: "u = c # u'" using Cons.prems(2) t by (cases u) auto
  show ?case
    using Cons.prems Cons.IH [of t' u'] unfolding t u lex_cmp_Cons_le by (elim disjE conjE) simp_all
qed

interpretation strcmp_order: comparator lex_cmp
proof (unfold_locales, goal_cases)
  case (1 a)
  show ?case by (simp only: lex_cmp_0)
next
  case (2 a b)
  show ?case by (rule lex_cmp_antisym)
next
  case (3 a b c)
  then show ?case by (rule lex_cmp_trans)
qed

lemma strcmp_lit: "NUL \<notin> set s \<Longrightarrow> NUL \<notin> set t \<Longrightarrow> \<exists>x. strcmp (s @ NUL # r) (t @ [NUL]) = Some x \<and> (x = 0 \<longleftrightarrow> s = t)"
  using strcmp_cstr [of s t r "[]"] lex_cmp_0 by auto

section \<open>Tokens\<close>

function comma_words :: "string \<Rightarrow> string list" where
  "comma_words s =
     (let t = dropWhile (\<lambda>c. c = CHR '','') s in
      if t = [] then [] else takeWhile (\<lambda>c. c \<noteq> CHR '','') t # comma_words (dropWhile (\<lambda>c. c \<noteq> CHR '','') t))"
  by pat_completeness auto
termination
proof (relation "measure length", goal_cases)
  case (2 s t)
  then obtain a u where t: "t = a # u" by (meson neq_Nil_conv)
  then have "a \<noteq> CHR '',''" using hd_dropWhile [of "\<lambda>c. c = CHR '',''" s] 2 by auto
  note t = t this
  have "length t \<le> length s" using 2 length_dropWhile_le by auto
  moreover have "length (dropWhile (\<lambda>c. c \<noteq> CHR '','') t) \<le> length u" using t length_dropWhile_le by auto
  ultimately show ?case using t by simp
qed simp

declare comma_words.simps [simp del]

lemma strspn_comma:
  "NUL \<notin> set s \<Longrightarrow> strspn (s @ NUL # r) comma = Some (length (takeWhile (\<lambda>c. c = CHR '','') s))"
  by (induction s) auto

lemma strpbrk_comma:
  "NUL \<notin> set s \<Longrightarrow> strpbrk (s @ NUL # r) comma =
     Some (if dropWhile (\<lambda>c. c \<noteq> CHR '','') s = [] then None else Some (dropWhile (\<lambda>c. c \<noteq> CHR '','') s @ NUL # r))"
  by (induction s) auto

lemma drop_takeWhile_length: "drop (length (takeWhile P s)) s = dropWhile P s"
  by (simp add: dropWhile_eq_drop)

lemma strtok_r_start: "strtok_r (Some s) delim sp = strtok_r None delim s"
  by (simp add: strtok_r_def)

lemma strtok_end_word:
  assumes "NUL \<notin> set t" "t \<noteq> []"
  shows "strtok_end (t @ NUL # r) comma =
     (case dropWhile (\<lambda>c. c \<noteq> CHR '','') t of
        [] \<Rightarrow> Some (Some (t @ NUL # r), NUL # r)
      | c # u \<Rightarrow> Some (Some (takeWhile (\<lambda>c. c \<noteq> CHR '','') t @ NUL # u @ NUL # r), u @ NUL # r))"
proof -
  let ?w = "takeWhile (\<lambda>c. c \<noteq> CHR '','') t" and ?u = "dropWhile (\<lambda>c. c \<noteq> CHR '','') t"
  obtain c t' where t: "t = c # t'" "c \<noteq> NUL" using assms by (cases t) auto
  note pb = strpbrk_comma [OF assms(1), of r] and sl = strlen_cstr [OF assms(1), of r]
  have e: "strtok_end (t @ NUL # r) comma =
      (case strpbrk (t @ NUL # r) comma of
         None \<Rightarrow> None
       | Some None \<Rightarrow> do { n \<leftarrow> strlen (t @ NUL # r); Some (Some (t @ NUL # r), drop n (t @ NUL # r)) }
       | Some (Some q) \<Rightarrow> Some (Some (take (length (t @ NUL # r) - length q) (t @ NUL # r) @ NUL # tl q), tl q))"
    unfolding t(1) strtok_end_def by (simp add: t(2) del: strpbrk.simps strlen.simps)
  show ?thesis
  proof (cases ?u)
    case Nil
    then show ?thesis unfolding e pb sl Nil by simp
  next
    case (Cons x u)
    then have tw: "t = ?w @ x # u" by (metis takeWhile_dropWhile_id)
    have "take (length (t @ NUL # r) - length (?u @ NUL # r)) (t @ NUL # r) = ?w"
      unfolding Cons by (subst tw, subst (2) tw) simp
    then show ?thesis unfolding e pb using Cons by simp
  qed
qed

lemma comma_words_comma: "comma_words (CHR '','' # u) = comma_words u"
  by (simp add: comma_words.simps [of "CHR '','' # u"] comma_words.simps [of u])

lemma strtok_words:
  assumes "NUL \<notin> set s"
  shows "case comma_words s of
       [] \<Rightarrow> strtok_r None comma (s @ NUL # r) = Some (None, NUL # r)
     | w # ws \<Rightarrow> \<exists>r' s'. strtok_r None comma (s @ NUL # r) = Some (Some (w @ NUL # r'), s' @ NUL # r)
          \<and> NUL \<notin> set w \<and> NUL \<notin> set s' \<and> comma_words s' = ws"
proof -
  let ?t = "dropWhile (\<lambda>c. c = CHR '','') s"
  let ?w = "takeWhile (\<lambda>c. c \<noteq> CHR '','') ?t" and ?u = "dropWhile (\<lambda>c. c \<noteq> CHR '','') ?t"
  have "drop (length (takeWhile (\<lambda>c. c = CHR '','') s)) (s @ NUL # r) = ?t @ NUL # r"
    using length_takeWhile_le [of "\<lambda>c. c = CHR '',''" s] by (simp add: drop_takeWhile_length)
  then have st: "strtok_r None comma (s @ NUL # r) = strtok_end (?t @ NUL # r) comma"
    using strspn_comma [OF assms, of r] by (simp add: strtok_r_def)
  have nt: "NUL \<notin> set ?t" using assms by (auto dest: set_dropWhileD)
  have nw: "NUL \<notin> set ?w" "NUL \<notin> set ?u" using nt by (auto dest: set_takeWhileD set_dropWhileD)
  show ?thesis
  proof (cases "?t = []")
    case True
    then have "comma_words s = []" by (subst comma_words.simps) (simp only: Let_def, simp)
    then show ?thesis unfolding st True by (simp add: strtok_end_def)
  next
    case False
    have cw: "comma_words s = ?w # comma_words ?u"
      using False by (subst comma_words.simps) (simp add: Let_def)
    note e = strtok_end_word [OF nt False, of r]
    show ?thesis
    proof (cases ?u)
      case Nil
      then have w: "?w = ?t" by (metis append_Nil2 takeWhile_dropWhile_id)
      show ?thesis
        unfolding cw st e Nil list.case w
      proof (rule exI [of _ r], rule exI [of _ "[]"], intro conjI)
        show "NUL \<notin> set ?t" by (rule nt)
      qed simp_all
    next
      case (Cons x u)
      then have "x = CHR '',''" using hd_dropWhile [of "\<lambda>c. c \<noteq> CHR '',''" ?t] by auto
      then have ce: "comma_words u = comma_words (x # u)" by (simp only: comma_words_comma)
      have nu: "NUL \<notin> set u" using nw(2) unfolding Cons by simp
      show ?thesis
        unfolding cw st e Cons list.case
        by (rule exI [of _ "u @ NUL # r"], rule exI [of _ u]) (intro conjI refl nw(1) nu ce)
    qed
  qed
qed

section \<open>Sets of names\<close>

text \<open>The bits of the names that satisfy \<open>P\<close>; the first name has bit \<open>nr\<close>.\<close>

fun mask_of :: "(string \<Rightarrow> bool) \<Rightarrow> nat \<Rightarrow> string list \<Rightarrow> UInt" where
  "mask_of P nr [] = 0"
| "mask_of P nr (t # ts) = (if P t then push_bit nr 1 else 0) OR mask_of P (Suc nr) ts"

definition tokens_abs :: "string \<Rightarrow> nat \<Rightarrow> string list \<Rightarrow> enum_state \<Rightarrow> enum_state" where
  "tokens_abs w nr ts st =
     st\<lparr>enum_set := enum_set st OR mask_of (\<lambda>t. t \<noteq> ''-'' \<and> t = w) nr ts,
        known_words := known_words st + length (filter (\<lambda>t. t \<noteq> ''-'' \<and> t = w) ts),
        all_set := all_set st OR mask_of (\<lambda>t. t \<noteq> ''-'') nr ts\<rparr>"

lemma tokens_abs_Nil [simp]: "tokens_abs w nr [] st = st"
  by (simp add: tokens_abs_def)

lemma enum_tokens_loop_abs:
  assumes "NUL \<notin> set w"
  shows "NUL \<notin> set s \<Longrightarrow> nr + length (comma_words s) \<le> 32 \<Longrightarrow>
    strtok_r None comma (s @ NUL # r) = Some (tok, sp) \<Longrightarrow>
    enum_tokens_loop (w @ NUL # q) nr tok sp st = Some (tokens_abs w nr (comma_words s) st)"
proof (induction "comma_words s" arbitrary: s nr tok sp st)
  case Nil
  from strtok_words [OF Nil(2), of r] Nil show ?case by auto
next
  case (Cons t ts)
  obtain r' s' where s': "tok = Some (t @ NUL # r')" "sp = s' @ NUL # r" "NUL \<notin> set t" "NUL \<notin> set s'"
    "comma_words s' = ts"
    using strtok_words [OF Cons.prems(1), of r] Cons(2) Cons.prems(3) by (auto split: list.splits)
  obtain tok' sp' where tok': "strtok_r None comma (s' @ NUL # r) = Some (tok', sp')"
    using strtok_words [OF s'(4), of r] by (auto split: list.splits)
  have lt: "nr < 32" using Cons.prems(2) Cons(2) by (metis add_leD1 add_Suc_right length_Cons less_eq_Suc_le not_less_eq_eq le_add1 le_trans Suc_le_eq)
  have IH: "enum_tokens_loop (w @ NUL # q) (nr + 1) tok' sp' st' = Some (tokens_abs w (nr + 1) ts st')" for st'
    using Cons(1) [OF s'(5) [symmetric] s'(4) _ tok'] Cons.prems(2) Cons(2) s'(5) by (metis add_Suc_right add_Suc add.commute length_Cons plus_1_eq_Suc)
  obtain x where x: "strcmp (t @ NUL # r') (''-'' @ [NUL]) = Some x" "x = 0 \<longleftrightarrow> t = ''-''"
    using strcmp_lit [OF s'(3), of "''-''"] by auto
  have y: "strcmp (w @ NUL # q) (t @ NUL # r') = Some (lex_cmp w t)" by (rule strcmp_cstr [OF assms s'(3)])
  show ?case
    unfolding s'(1,2) Cons(2) [symmetric] using x y lt IH tok'
    by (subst enum_tokens_loop.simps) (auto simp: lex_cmp_0 tokens_abs_def Let_def or.assoc)
qed

definition keyword_abs :: "bool \<Rightarrow> string \<Rightarrow> enum_state \<Rightarrow> enum_state" where
  "keyword_abs allow_all w st =
     (if allow_all \<and> w = ''all'' then st\<lparr>seen_all_kw := True, known_words := known_words st + 1\<rparr>
      else if w = ''none'' then st\<lparr>seen_none_kw := True, known_words := known_words st + 1\<rparr> else st)"

fun input_abs :: "string list \<Rightarrow> bool \<Rightarrow> string list \<Rightarrow> enum_state \<Rightarrow> enum_state" where
  "input_abs ts allow_all [] st = st"
| "input_abs ts allow_all (w # ws) st =
     input_abs ts allow_all ws
       (tokens_abs w 0 ts ((keyword_abs allow_all w (st\<lparr>word_nr := word_nr st + 1\<rparr>))\<lparr>all_set := 0\<rparr>))"

lemma enum_input_loop_abs:
  assumes ts: "NUL \<notin> set tokens" "length (comma_words tokens) \<le> 32"
  shows "NUL \<notin> set s \<Longrightarrow> strtok_r None comma (s @ NUL # r) = Some (word, sp) \<Longrightarrow>
    enum_input_loop (tokens @ NUL # q) allow_all word sp st
      = Some (input_abs (comma_words tokens) allow_all (comma_words s) st)"
proof (induction "comma_words s" arbitrary: s word sp st)
  case Nil
  from strtok_words [OF Nil(2), of r] Nil show ?case by auto
next
  case (Cons w ws)
  obtain r' s' where s': "word = Some (w @ NUL # r')" "sp = s' @ NUL # r" "NUL \<notin> set w" "NUL \<notin> set s'"
    "comma_words s' = ws"
    using strtok_words [OF Cons.prems(1), of r] Cons(2) Cons.prems(2) by (auto split: list.splits)
  obtain word' sp' where word': "strtok_r None comma (s' @ NUL # r) = Some (word', sp')"
    using strtok_words [OF s'(4), of r] by (auto split: list.splits)
  obtain tok tsp where tok: "strtok_r None comma (tokens @ NUL # q) = Some (tok, tsp)"
    using strtok_words [OF ts(1), of q] by (auto split: list.splits)
  note tl = enum_tokens_loop_abs [OF s'(3) ts(1) _ tok, of 0 r', simplified, OF ts(2)]
  note IH = Cons(1) [OF s'(5) [symmetric] s'(4) word', unfolded s'(5)]
  obtain x where x: "strcmp (w @ NUL # r') (''all'' @ [NUL]) = Some x" "x = 0 \<longleftrightarrow> w = ''all''"
    using strcmp_lit [OF s'(3), of "''all''"] by auto
  obtain y where y: "strcmp (w @ NUL # r') (''none'' @ [NUL]) = Some y" "y = 0 \<longleftrightarrow> w = ''none''"
    using strcmp_lit [OF s'(3), of "''none''"] by auto
  show ?case
    unfolding s'(1,2) Cons(2) [symmetric] using x y tl IH tok word'
    by (subst enum_input_loop.simps) (auto simp: keyword_abs_def Let_def strtok_r_start)
qed

lemma or_interchange: "(a OR b) OR (c OR d) = (a OR c) OR (b OR d)" for a b c d :: UInt
  by (simp only: or.assoc or.left_commute [of b c d])

lemma mask_of_or: "mask_of P nr ts OR mask_of Q nr ts = mask_of (\<lambda>t. P t \<or> Q t) nr ts"
proof (induction ts arbitrary: nr)
  case (Cons t ts)
  show ?case unfolding mask_of.simps
    by (subst or_interchange, subst Cons) (cases "P t"; cases "Q t"; simp)
qed simp

lemma mask_of_cong: "(\<And>t. t \<in> set ts \<Longrightarrow> P t = Q t) \<Longrightarrow> mask_of P nr ts = mask_of Q nr ts"
  by (induction ts arbitrary: nr) auto

lemma mask_of_0: "nr + length ts \<le> 32 \<Longrightarrow> mask_of P nr ts = 0 \<longleftrightarrow> (\<forall>t \<in> set ts. \<not> P t)"
proof (induction ts arbitrary: nr)
  case (Cons t ts)
  have "push_bit nr (1 :: UInt) \<noteq> 0" using Cons.prems by (simp add: push_bit_eq_mult)
  moreover have "a OR b = 0 \<longleftrightarrow> a = 0 \<and> b = 0" for a b :: UInt
    by (auto simp: or_eq_0_iff)
  ultimately show ?case using Cons by auto
qed simp

text \<open>How much one word adds to \<open>known_words\<close>.\<close>

definition known_count :: "string list \<Rightarrow> bool \<Rightarrow> string \<Rightarrow> nat" where
  "known_count ts allow_all w =
     (if allow_all \<and> w = ''all'' \<or> w = ''none'' then 1 else 0) + length (filter (\<lambda>t. t \<noteq> ''-'' \<and> t = w) ts)"

lemma input_abs_fields:
  "enum_set (input_abs ts allow_all ws st) = enum_set st OR mask_of (\<lambda>t. t \<noteq> ''-'' \<and> t \<in> set ws) 0 ts
   \<and> word_nr (input_abs ts allow_all ws st) = word_nr st + length ws
   \<and> known_words (input_abs ts allow_all ws st) = known_words st + sum_list (map (known_count ts allow_all) ws)
   \<and> seen_all_kw (input_abs ts allow_all ws st) = (seen_all_kw st \<or> allow_all \<and> ''all'' \<in> set ws)
   \<and> seen_none_kw (input_abs ts allow_all ws st) = (seen_none_kw st \<or> ''none'' \<in> set ws)
   \<and> (ws \<noteq> [] \<longrightarrow> all_set (input_abs ts allow_all ws st) = mask_of (\<lambda>t. t \<noteq> ''-'') 0 ts)"
proof (induction ws arbitrary: st)
  case Nil
  have "mask_of (\<lambda>t. False) n ts = 0" for n by (induction ts arbitrary: n) auto
  then show ?case by simp
next
  case (Cons w ws)
  have m: "(a OR mask_of (\<lambda>t. t \<noteq> ''-'' \<and> t = w) 0 ts) OR mask_of (\<lambda>t. t \<noteq> ''-'' \<and> t \<in> set ws) 0 ts
      = a OR mask_of (\<lambda>t. t \<noteq> ''-'' \<and> t \<in> set (w # ws)) 0 ts" for a
    unfolding or.assoc mask_of_or by (intro arg_cong2 [where f = "(OR)"] refl mask_of_cong) auto
  show ?case
  proof (cases ws)
    case Nil
    then show ?thesis using Cons [of "tokens_abs w 0 ts ((keyword_abs allow_all w (st\<lparr>word_nr := word_nr st + 1\<rparr>))\<lparr>all_set := 0\<rparr>)"] m
      by (auto simp: tokens_abs_def keyword_abs_def known_count_def)
  next
    case (Cons w' ws')
    then show ?thesis using Cons.IH [of "tokens_abs w 0 ts ((keyword_abs allow_all w (st\<lparr>word_nr := word_nr st + 1\<rparr>))\<lparr>all_set := 0\<rparr>)"] m
      by (auto simp: tokens_abs_def keyword_abs_def known_count_def)
  qed
qed

lemma known_count_1:
  assumes "distinct (filter (\<lambda>t. t \<noteq> ''-'') ts)" "''all'' \<notin> set ts" "''none'' \<notin> set ts"
  shows "known_count ts allow_all w =
    (if allow_all \<and> w = ''all'' \<or> w = ''none'' \<or> w \<in> set ts \<and> w \<noteq> ''-'' then 1 else 0)"
proof -
  have "length (filter (\<lambda>t. t \<noteq> ''-'' \<and> t = w) ts) = (if w \<in> set ts \<and> w \<noteq> ''-'' then 1 else 0)"
  proof (cases "w \<in> set ts \<and> w \<noteq> ''-''")
    case True
    have "distinct (filter (\<lambda>t. t = w) (filter (\<lambda>t. t \<noteq> ''-'') ts))"
      by (intro distinct_filter assms(1))
    from distinct_card [OF this] have "length (filter (\<lambda>t. t = w) (filter (\<lambda>t. t \<noteq> ''-'') ts)) =
        card (set (filter (\<lambda>t. t = w) (filter (\<lambda>t. t \<noteq> ''-'') ts)))" ..
    also have "set (filter (\<lambda>t. t = w) (filter (\<lambda>t. t \<noteq> ''-'') ts)) = {w}" using True by auto
    finally show ?thesis using True by simp
  next
    case False
    then have "filter (\<lambda>t. t \<noteq> ''-'' \<and> t = w) ts = []" by (auto simp: filter_empty_conv)
    with False show ?thesis by auto
  qed
  moreover have "w = ''all'' \<or> w = ''none'' \<Longrightarrow> w \<notin> set ts" using assms(2,3) by metis
  ultimately show ?thesis unfolding known_count_def by auto
qed

lemma sum_01_length:
  "sum_list (map (\<lambda>w. if P w then 1 else (0 :: nat)) ws) = length ws \<longleftrightarrow> (\<forall>w \<in> set ws. P w)"
proof -
  have "sum_list (map (\<lambda>w. if P w then 1 else (0 :: nat)) ws) \<le> length ws" for ws by (induction ws) auto
  then show ?thesis by (induction ws) (auto simp: Suc_le_eq [symmetric] dest: le_antisym, metis Suc_n_not_le_n)
qed

text \<open>What the option parser is to return for the names \<open>ts\<close> and the words \<open>ws\<close> of the input.\<close>

definition enum_spec :: "string list \<Rightarrow> bool \<Rightarrow> string list \<Rightarrow> bool \<times> UInt" where
  "enum_spec ts allow_all ws =
     (if allow_all \<and> set ws = {''all''} then (True, mask_of (\<lambda>t. t \<noteq> ''-'') 0 ts)
      else if set ws = {''none''} then (True, 0)
      else (ws \<noteq> [] \<and> set ws \<subseteq> set ts - {''-''}, mask_of (\<lambda>t. t \<noteq> ''-'' \<and> t \<in> set ws) 0 ts))"

lemma kw_mix:
  assumes "\<forall>w \<in> W. al \<and> w = A \<or> w = N \<or> w \<in> T \<and> w \<noteq> D"
  shows "\<forall>t \<in> T. \<not> (t \<noteq> D \<and> t \<in> W) \<Longrightarrow> \<not> (al \<and> A \<in> W) \<Longrightarrow> N \<notin> W \<Longrightarrow> W = {}"
    and "\<forall>t \<in> T. \<not> (t \<noteq> D \<and> t \<in> W) \<Longrightarrow> al \<and> A \<in> W \<Longrightarrow> \<not> (al \<and> W = {A}) \<Longrightarrow> N \<in> W"
    and "\<forall>t \<in> T. \<not> (t \<noteq> D \<and> t \<in> W) \<Longrightarrow> N \<in> W \<Longrightarrow> W \<noteq> {N} \<Longrightarrow> al \<and> A \<in> W"
    and "\<not> (al \<and> A \<in> W) \<Longrightarrow> N \<notin> W \<Longrightarrow> W \<subseteq> T - {D}"
  using assms by auto

lemma enum_finish_spec:
  assumes "length ts \<le> 32" "distinct (filter (\<lambda>t. t \<noteq> ''-'') ts)" "''all'' \<notin> set ts" "''none'' \<notin> set ts"
    and st: "enum_set st = mask_of (\<lambda>t. t \<noteq> ''-'' \<and> t \<in> set ws) 0 ts" "word_nr st = length ws"
      "known_words st = sum_list (map (known_count ts allow_all) ws)"
      "seen_all_kw st = (allow_all \<and> ''all'' \<in> set ws)" "seen_none_kw st = (''none'' \<in> set ws)"
      "ws \<noteq> [] \<longrightarrow> all_set st = mask_of (\<lambda>t. t \<noteq> ''-'') 0 ts"
  shows "enum_finish st = enum_spec ts allow_all ws"
proof -
  let ?P = "\<lambda>w. allow_all \<and> w = ''all'' \<or> w = ''none'' \<or> w \<in> set ts \<and> w \<noteq> ''-''"
  let ?m = "mask_of (\<lambda>t. t \<noteq> ''-'' \<and> t \<in> set ws) 0 ts"
  have kn: "known_words st = word_nr st \<longleftrightarrow> (\<forall>w \<in> set ws. ?P w)"
    unfolding st known_count_1 [OF assms(2-4)] by (rule sum_01_length)
  have m0: "?m = 0 \<longleftrightarrow> (\<forall>t \<in> set ts. \<not> (t \<noteq> ''-'' \<and> t \<in> set ws))"
    by (rule mask_of_0) (simp add: assms(1))
  consider (all) "allow_all" "set ws = {''all''}" | (none) "set ws = {''none''}"
    | (named) "ws \<noteq> []" "set ws \<subseteq> set ts - {''-''}"
    | (bad) "\<not> (allow_all \<and> set ws = {''all''})" "set ws \<noteq> {''none''}" "\<not> (ws \<noteq> [] \<and> set ws \<subseteq> set ts - {''-''})"
    by blast
  then show ?thesis
  proof cases
    case all
    have "?m = 0" by (rule m0 [THEN iffD2]) (use all assms(3) in auto)
    moreover have "\<forall>w \<in> set ws. ?P w" using all by simp
    moreover have "ws \<noteq> []" using all(2) by (metis empty_set insert_not_empty)
    ultimately show ?thesis using all st kn unfolding enum_finish_def enum_spec_def by simp
  next
    case none
    have "?m = 0" by (rule m0 [THEN iffD2]) (use none assms(4) in auto)
    moreover have "\<forall>w \<in> set ws. ?P w" using none by simp
    ultimately show ?thesis using none st kn unfolding enum_finish_def enum_spec_def by simp
  next
    case named
    obtain w where w: "w \<in> set ws" using named by (cases ws) auto
    then have "?m \<noteq> 0" unfolding m0 using named by blast
    moreover have "\<forall>w \<in> set ws. ?P w" using named by blast
    moreover have "''all'' \<notin> set ws" "''none'' \<notin> set ws" using named assms(3,4) by blast+
    ultimately show ?thesis using named st kn w unfolding enum_finish_def enum_spec_def by auto
  next
    case bad
    have "enum_finish st = (False, ?m)"
    proof (cases "\<forall>w \<in> set ws. ?P w")
      case True
      note mix = kw_mix [where W = "set ws" and T = "set ts", OF True]
      have k: "known_words st = word_nr st" using kn True by blast
      show ?thesis
      proof (cases "?m = 0")
        case True
        note free = m0 [THEN iffD1, OF True]
        have "(allow_all \<and> ''all'' \<in> set ws) = (''none'' \<in> set ws)"
          using mix(2) [OF free _ bad(1)] mix(3) [OF free _ bad(2)] by blast
        then show ?thesis by (simp only: enum_finish_def k st True) simp
      next
        case False
        have "allow_all \<and> ''all'' \<in> set ws \<or> ''none'' \<in> set ws"
          using mix(4) False m0 bad(3) by (metis list.set(1) equals0D)
        then show ?thesis by (simp only: enum_finish_def k st False) auto
      qed
    qed (use kn st in \<open>simp add: enum_finish_def\<close>)
    moreover have "enum_spec ts allow_all ws = (False, ?m)" unfolding enum_spec_def using bad by auto
    ultimately show ?thesis by simp
  qed
qed

text \<open>C15: \<open>parse_enum_set\<close> on the names \<open>comma_words tokens\<close> and the words \<open>comma_words input\<close> reads
  inside its buffers and returns: success with all the bits for \<open>all\<close> (where allowed), success with
  no bits for \<open>none\<close>, success with exactly the bits of the words if there is a word and all words are names, and
  failure in every other case (an unknown word, a reserved name, an empty input, or a mixture of the
  keywords with anything else).\<close>

theorem parse_enum_set_correct:
  assumes "NUL \<notin> set tokens" "NUL \<notin> set input" "length tokens \<le> 1000" "length input \<le> 1000"
    and "length (comma_words tokens) \<le> 32" "distinct (filter (\<lambda>t. t \<noteq> ''-'') (comma_words tokens))"
    and "''all'' \<notin> set (comma_words tokens)" "''none'' \<notin> set (comma_words tokens)"
  shows "\<exists>b e. parse_enum_set (tokens @ NUL # r) allow_all (input @ NUL # q) = Some (b, Some e)
    \<and> (b, e) = enum_spec (comma_words tokens) allow_all (comma_words input)"
proof -
  let ?st = "\<lparr>enum_set = 0, all_set = 0, word_nr = 0, known_words = 0, seen_all_kw = False, seen_none_kw = False\<rparr>"
  let ?st' = "input_abs (comma_words tokens) allow_all (comma_words input) ?st"
  obtain word sp where word: "strtok_r None comma (input @ [NUL]) = Some (word, sp)"
    using strtok_words [OF assms(2), of "[]"] by (auto split: list.splits)
  have cp: "strcpy (replicate (length s + 1) NUL) (s @ NUL # r) = Some (s @ [NUL])" if "NUL \<notin> set s" for s r
    using strcpy_cstr [OF that, of "replicate (length s + 1) NUL" r] by simp
  have "enum_input_loop (tokens @ [NUL]) allow_all word sp ?st = Some ?st'"
    using enum_input_loop_abs [OF assms(1,5,2) word] by simp
  moreover have "enum_finish ?st' = enum_spec (comma_words tokens) allow_all (comma_words input)"
    using input_abs_fields [of "comma_words tokens" allow_all "comma_words input" ?st] assms(5-8)
    by (intro enum_finish_spec) simp_all
  ultimately show ?thesis
    using assms(3,4) word cp [OF assms(1), of r] cp [OF assms(2), of q]
    by (simp add: parse_enum_set_def strlen_cstr [OF assms(1)] strlen_cstr [OF assms(2)] strtok_r_start split: prod.splits)
qed

theorem parse_enum_set_correct_witness:
  "\<exists>b e. parse_enum_set (''aa,-,b'' @ NUL # []) True (''b,aa'' @ NUL # []) = Some (b, Some e)
    \<and> (b, e) = enum_spec (comma_words ''aa,-,b'') True (comma_words ''b,aa'')"
proof (rule parse_enum_set_correct)
  have w: "comma_words ''aa,-,b'' = [''aa'', ''-'', ''b'']" by (simp add: comma_words.simps)
  show "length (comma_words ''aa,-,b'') \<le> 32" "distinct (filter (\<lambda>t. t \<noteq> ''-'') (comma_words ''aa,-,b''))"
    "''all'' \<notin> set (comma_words ''aa,-,b'')" "''none'' \<notin> set (comma_words ''aa,-,b'')"
    unfolding w by simp_all
qed simp_all

section \<open>Searching\<close>

lemma strncmp_prefix:
  "NUL \<notin> set h \<Longrightarrow> NUL \<notin> set n \<Longrightarrow>
     \<exists>x. strncmp (h @ NUL # r) (n @ NUL # q) (length n) = Some x \<and> (x = 0 \<longleftrightarrow> prefix n h)"
proof (induction n arbitrary: h)
  case (Cons c n)
  then show ?case by (cases h) (auto simp: of_char_NUL not_less_iff_gr_or_eq)
qed simp

lemma strstr_loop_Cons:
  assumes "NUL \<notin> set (c # h)" "NUL \<notin> set n"
  shows "strstr_loop strncmp (length n) ((c # h) @ NUL # r) (n @ NUL # q) =
     (if prefix n (c # h) then Some (Some ((c # h) @ NUL # r))
      else strstr_loop strncmp (length n) (h @ NUL # r) (n @ NUL # q))"
  using strncmp_prefix [OF assms, of r q] assms(1) by auto

lemma strstr_loop_none:
  "NUL \<notin> set h \<Longrightarrow> NUL \<notin> set n \<Longrightarrow> (\<forall>i < length h. \<not> prefix n (drop i h)) \<Longrightarrow>
     strstr_loop strncmp (length n) (h @ NUL # r) (n @ NUL # q) = Some None"
proof (induction h)
  case (Cons c h)
  have "\<not> prefix n (c # h)" using Cons.prems(3) by (metis drop0 length_greater_0_conv list.distinct(1))
  moreover have "\<forall>i < length h. \<not> prefix n (drop i h)"
    using Cons.prems(3) by (metis Suc_less_eq drop_Suc_Cons length_Cons)
  ultimately show ?case using Cons.IH Cons.prems strstr_loop_Cons [OF Cons.prems(1,2), of r q] by (simp del: strstr_loop.simps)
qed simp

lemma strstr_loop_some:
  "NUL \<notin> set h \<Longrightarrow> NUL \<notin> set n \<Longrightarrow> i < length h \<Longrightarrow> prefix n (drop i h) \<Longrightarrow>
     (\<forall>j < i. \<not> prefix n (drop j h)) \<Longrightarrow>
     strstr_loop strncmp (length n) (h @ NUL # r) (n @ NUL # q) = Some (Some (drop i h @ NUL # r))"
proof (induction h arbitrary: i)
  case (Cons c h)
  show ?case
  proof (cases i)
    case 0
    then show ?thesis using Cons.prems(4) strstr_loop_Cons [OF Cons.prems(1,2), of r q] by (simp del: strstr_loop.simps)
  next
    case (Suc k)
    have "\<not> prefix n (c # h)" using Cons.prems(5) unfolding Suc by (metis drop0 zero_less_Suc)
    moreover have "\<forall>j < k. \<not> prefix n (drop j h)"
      using Cons.prems(5) unfolding Suc by (metis Suc_less_eq drop_Suc_Cons)
    ultimately show ?thesis
      using Cons.IH [of k] Cons.prems strstr_loop_Cons [OF Cons.prems(1,2), of r q] Suc by (simp del: strstr_loop.simps)
  qed
qed simp

text \<open>\<open>strstr\<close> returns the first position of a non-empty string at which the needle is found,
  and \<open>NULL\<close> exactly when there is none.\<close>

theorem strstr_first:
  assumes "NUL \<notin> set haystack" "NUL \<notin> set needle"
  shows "(strstr (Some (haystack @ NUL # r)) (needle @ NUL # q) = Some None
      \<longleftrightarrow> (\<forall>i < length haystack. \<not> prefix needle (drop i haystack)))
    \<and> (\<forall>i < length haystack. prefix needle (drop i haystack) \<and> (\<forall>j < i. \<not> prefix needle (drop j haystack))
      \<longrightarrow> strstr (Some (haystack @ NUL # r)) (needle @ NUL # q) = Some (Some (drop i (haystack @ NUL # r))))"
proof -
  let ?P = "\<lambda>i. i < length haystack \<and> prefix needle (drop i haystack)"
  let ?l = "strstr_loop strncmp (length needle) (haystack @ NUL # r) (needle @ NUL # q)"
  have e: "strstr (Some (haystack @ NUL # r)) (needle @ NUL # q) = ?l"
    by (simp add: strstr_def strlen_cstr [OF assms(2)])
  have some: "?l = Some (Some (drop i (haystack @ NUL # r)))"
    if "?P i" "\<forall>j < i. \<not> prefix needle (drop j haystack)" for i
    using strstr_loop_some [OF assms, of i r q] that by simp
  have none: "\<forall>i. \<not> ?P i \<Longrightarrow> ?l = Some None" using strstr_loop_none [OF assms] by blast
  have "?l \<noteq> Some None" if "?P i" for i
  proof -
    let ?j = "LEAST i. ?P i"
    have "?P ?j" using that by (rule LeastI)
    moreover have "\<forall>k < ?j. \<not> prefix needle (drop k haystack)"
      using not_less_Least [of _ ?P] \<open>?P ?j\<close> by (meson order.strict_trans)
    ultimately have "?l = Some (Some (drop ?j (haystack @ NUL # r)))" by (rule some)
    then show ?thesis by simp
  qed
  with some none show ?thesis unfolding e by blast
qed

theorem strstr_first_witness:
  "strstr (Some (''xab'' @ NUL # [])) (''ab'' @ NUL # []) = Some (Some (''ab'' @ [NUL]))"
proof -
  have "\<forall>j < 1. \<not> prefix ''ab'' (drop j ''xab'')" by simp
  then show ?thesis
    using conjunct2 [OF strstr_first [of "''xab''" "''ab''" "[]" "[]"], THEN spec, of 1] by simp
qed

lemma strrchr_loop_spec:
  "n \<le> length s \<Longrightarrow> strrchr_loop s c n =
     (if \<exists>i. 0 < i \<and> i < n \<and> s ! i = c then Some (drop (GREATEST i. 0 < i \<and> i < n \<and> s ! i = c) s) else None)"
proof (induction n)
  case 0
  show ?case by (subst strrchr_loop.simps) simp
next
  case (Suc n)
  show ?case
  proof (cases "0 < n \<and> s ! n = c")
    case True
    then have "(GREATEST i. 0 < i \<and> i < Suc n \<and> s ! i = c) = n" by (intro Greatest_equality) auto
    with True show ?thesis by (subst strrchr_loop.simps) auto
  next
    case False
    then have "(0 < i \<and> i < Suc n \<and> s ! i = c) \<longleftrightarrow> (0 < i \<and> i < n \<and> s ! i = c)" for i
      by (auto simp: less_Suc_eq)
    with False Suc show ?thesis by (subst strrchr_loop.simps) (auto simp: strrchr_loop.simps [of s c 0])
  qed
qed

text \<open>\<open>strrchr\<close> returns the last occurrence of the character that is not the first character of
  the string: the first character is never compared, so a character that occurs only there is
  reported as missing.\<close>

theorem strrchr_skips_first:
  assumes "NUL \<notin> set s"
  shows "strrchr (s @ NUL # r) c = Some (if c \<in> set (tl s)
     then Some (drop (GREATEST i. 0 < i \<and> i < length s \<and> s ! i = c) s @ NUL # r) else None)"
proof -
  let ?Q = "\<lambda>i. 0 < i \<and> i < length s \<and> (s @ NUL # r) ! i = c"
  have q: "?Q i \<longleftrightarrow> 0 < i \<and> i < length s \<and> s ! i = c" for i by (auto simp: nth_append)
  have ex: "(\<exists>i. ?Q i) \<longleftrightarrow> c \<in> set (tl s)"
    unfolding q in_set_conv_nth by (cases s) (auto simp: gr0_conv_Suc)
  have "(GREATEST i. ?Q i) \<le> length s" if "\<exists>i. ?Q i"
  proof -
    from that obtain i where "?Q i" by (rule exE)
    then have "?Q (GREATEST i. ?Q i)" by (rule GreatestI_nat [where b = "length s"]) (elim conjE, rule less_imp_le)
    then show ?thesis by (intro less_imp_le) (elim conjE)
  qed
  then have "drop (GREATEST i. ?Q i) (s @ NUL # r) = drop (GREATEST i. ?Q i) s @ NUL # r" if "\<exists>i. ?Q i"
    using that by simp
  then have "strrchr_loop (s @ NUL # r) c (length s) =
      (if c \<in> set (tl s) then Some (drop (GREATEST i. ?Q i) s @ NUL # r) else None)"
    using ex by (subst strrchr_loop_spec) simp_all
  then show ?thesis unfolding q by (simp only: strrchr_def strlen_cstr [OF assms] bind.bind_lunit)
qed

theorem strrchr_skips_first_witness:
  "strrchr (''/a'' @ NUL # []) (CHR ''/'') = Some None"
  using strrchr_skips_first [of "''/a''" "[]" "CHR ''/''"] by simp

end
