(* ===== verification/CMem.thy ===== *)
theory CMem
  imports Prelude
begin

text \<open>
  The memory functions of \<open>coregrind/m_libcbase.c\<close>: \<open>memcpy\<close> with its aligned and unrolled loops,
  \<open>memmove\<close>, \<open>memset\<close> and \<open>memcmp\<close>.

  Memory maps addresses to bytes. A load and store of a \<open>UInt\<close> moves four bytes at once
  (\<open>move_blk 4\<close>); an assignment of bytes moves one. The theorems compare each function with the
  move or fill of the whole block in one step.
\<close>

type_synonym mem = "nat \<Rightarrow> UChar"

text \<open>Read \<open>n\<close> bytes at \<open>s\<close>, then write them at \<open>d\<close>.\<close>

definition move_blk :: "nat \<Rightarrow> mem \<Rightarrow> nat \<Rightarrow> nat \<Rightarrow> mem" where
  "move_blk n m d s = (\<lambda>a. if d \<le> a \<and> a < d + n then m (s + (a - d)) else m a)"

definition fill_blk :: "nat \<Rightarrow> UChar \<Rightarrow> mem \<Rightarrow> nat \<Rightarrow> mem" where
  "fill_blk n c m d = (\<lambda>a. if d \<le> a \<and> a < d + n then c else m a)"

section \<open>memcpy\<close>

function memcpy_words4 :: "mem \<Rightarrow> nat \<Rightarrow> nat \<Rightarrow> nat \<Rightarrow> mem \<times> nat \<times> nat \<times> nat" where
  "memcpy_words4 m d s sz =
     (if sz \<ge> 16
      then memcpy_words4
             (move_blk 4 (move_blk 4 (move_blk 4 (move_blk 4 m d s) (d + 4) (s + 4))
                (d + 8) (s + 8)) (d + 12) (s + 12)) (d + 16) (s + 16) (sz - 16)
      else (m, d, s, sz))"
  by pat_completeness auto
termination by (relation "measure (\<lambda>(m, d, s, sz). sz)") auto

function memcpy_words :: "mem \<Rightarrow> nat \<Rightarrow> nat \<Rightarrow> nat \<Rightarrow> mem \<times> nat \<times> nat \<times> nat" where
  "memcpy_words m d s sz =
     (if sz \<ge> 4 then memcpy_words (move_blk 4 m d s) (d + 4) (s + 4) (sz - 4) else (m, d, s, sz))"
  by pat_completeness auto
termination by (relation "measure (\<lambda>(m, d, s, sz). sz)") auto

function memcpy_bytes4 :: "mem \<Rightarrow> nat \<Rightarrow> nat \<Rightarrow> nat \<Rightarrow> mem \<times> nat \<times> nat \<times> nat" where
  "memcpy_bytes4 m d s sz =
     (if sz \<ge> 4
      then memcpy_bytes4
             (move_blk 1 (move_blk 1 (move_blk 1 (move_blk 1 m d s) (d + 1) (s + 1))
                (d + 2) (s + 2)) (d + 3) (s + 3)) (d + 4) (s + 4) (sz - 4)
      else (m, d, s, sz))"
  by pat_completeness auto
termination by (relation "measure (\<lambda>(m, d, s, sz). sz)") auto

fun memcpy_bytes :: "mem \<Rightarrow> nat \<Rightarrow> nat \<Rightarrow> nat \<Rightarrow> mem" where
  "memcpy_bytes m d s 0 = m"
| "memcpy_bytes m d s (Suc sz) = memcpy_bytes (move_blk 1 m d s) (d + 1) (s + 1) sz"

declare memcpy_words4.simps [simp del] memcpy_words.simps [simp del] memcpy_bytes4.simps [simp del]

definition memcpy_tail :: "mem \<Rightarrow> nat \<Rightarrow> nat \<Rightarrow> nat \<Rightarrow> mem" where
  "memcpy_tail m d s sz = (case memcpy_bytes4 m d s sz of (m, d, s, sz) \<Rightarrow> memcpy_bytes m d s sz)"

definition memcpy :: "mem \<Rightarrow> nat \<Rightarrow> nat \<Rightarrow> nat \<Rightarrow> mem" where
  "memcpy m dest src sz =
     (if dest mod 4 = 0 \<and> src mod 4 = 0 then
        (case memcpy_words4 m dest src sz of
           (m, d, s, sz) \<Rightarrow>
             if sz = 0 then m
             else case memcpy_words m d s sz of
                    (m, d, s, sz) \<Rightarrow> if sz = 0 then m else memcpy_tail m d s sz)
      else memcpy_tail m dest src sz)"

section \<open>memmove\<close>

definition memmove_up :: "mem \<Rightarrow> nat \<Rightarrow> nat \<Rightarrow> nat \<Rightarrow> mem" where
  "memmove_up m d s sz = foldl (\<lambda>m i. m(d + i := m (s + i))) m [0..<sz]"

definition memmove_down :: "mem \<Rightarrow> nat \<Rightarrow> nat \<Rightarrow> nat \<Rightarrow> mem" where
  "memmove_down m d s sz =
     foldl (\<lambda>m i. m(d + (sz - i - 1) := m (s + (sz - i - 1)))) m [0..<sz]"

definition memmove :: "mem \<Rightarrow> nat \<Rightarrow> nat \<Rightarrow> nat \<Rightarrow> mem" where
  "memmove m dest src sz =
     (if sz = 0 then m
      else if dest < src then memmove_up m dest src sz
      else if dest > src then memmove_down m dest src sz
      else m)"

section \<open>memset\<close>

text \<open>A little-endian store of a \<open>UInt\<close>.\<close>

definition store32 :: "mem \<Rightarrow> nat \<Rightarrow> UInt \<Rightarrow> mem" where
  "store32 m d w = m(d := ucast w, d + 1 := ucast (drop_bit 8 w), d + 2 := ucast (drop_bit 16 w),
     d + 3 := ucast (drop_bit 24 w))"

function memset_head :: "mem \<Rightarrow> nat \<Rightarrow> UChar \<Rightarrow> nat \<Rightarrow> mem \<times> nat \<times> nat" where
  "memset_head m d uc sz =
     (if d mod 4 \<noteq> 0 \<and> sz \<ge> 1 then memset_head (m(d := uc)) (d + 1) uc (sz - 1) else (m, d, sz))"
  by pat_completeness auto
termination by (relation "measure (\<lambda>(m, d, uc, sz). sz)") auto

function memset_words4 :: "mem \<Rightarrow> nat \<Rightarrow> UInt \<Rightarrow> nat \<Rightarrow> mem \<times> nat \<times> nat" where
  "memset_words4 m d c4 sz =
     (if sz \<ge> 16
      then memset_words4
             (store32 (store32 (store32 (store32 m d c4) (d + 4) c4) (d + 8) c4) (d + 12) c4)
             (d + 16) c4 (sz - 16)
      else (m, d, sz))"
  by pat_completeness auto
termination by (relation "measure (\<lambda>(m, d, c, sz). sz)") auto

function memset_words :: "mem \<Rightarrow> nat \<Rightarrow> UInt \<Rightarrow> nat \<Rightarrow> mem \<times> nat \<times> nat" where
  "memset_words m d c4 sz =
     (if sz \<ge> 4 then memset_words (store32 m d c4) (d + 4) c4 (sz - 4) else (m, d, sz))"
  by pat_completeness auto
termination by (relation "measure (\<lambda>(m, d, c, sz). sz)") auto

fun memset_bytes :: "mem \<Rightarrow> nat \<Rightarrow> UChar \<Rightarrow> nat \<Rightarrow> mem" where
  "memset_bytes m d uc 0 = m"
| "memset_bytes m d uc (Suc sz) = memset_bytes (m(d := uc)) (d + 1) uc sz"

declare memset_head.simps [simp del] memset_words4.simps [simp del] memset_words.simps [simp del]

definition spread4 :: "UChar \<Rightarrow> UInt" where
  "spread4 uc =
     (let c4 = ucast uc; c4 = c4 OR push_bit 8 c4 in c4 OR push_bit 16 c4)"

text \<open>The \<open>Int\<close> argument \<open>c\<close> is stored as a byte, in the first loop by way of \<open>uc\<close>, in the last
  directly.\<close>

definition memset :: "mem \<Rightarrow> nat \<Rightarrow> 32 word \<Rightarrow> nat \<Rightarrow> mem" where
  "memset m dest c sz =
     (let uc = ucast c :: UChar in
      case memset_head m dest uc sz of
        (m, d, sz) \<Rightarrow>
          if sz = 0 then m
          else
            let c4 = spread4 uc in
            case memset_words4 m d c4 sz of
              (m, d, sz) \<Rightarrow>
                case memset_words m d c4 sz of
                  (m, d, sz) \<Rightarrow> memset_bytes m d (ucast c) sz)"

section \<open>memcmp\<close>

fun memcmp :: "mem \<Rightarrow> nat \<Rightarrow> nat \<Rightarrow> nat \<Rightarrow> int" where
  "memcmp m p1 p2 0 = 0"
| "memcmp m p1 p2 (Suc n) =
     (let res = uint (m p1) - uint (m p2) in
      if res \<noteq> 0 then res else memcmp m (p1 + 1) (p2 + 1) n)"

section \<open>Block moves compose\<close>

lemma move_blk_0 [simp]: "move_blk 0 m d s = m"
  by (auto simp: move_blk_def fun_eq_iff)

text \<open>Copying upwards is right when the destination is not inside the source from above.\<close>

lemma move_blk_comp:
  assumes "d \<le> s \<or> s + (n + k) \<le> d"
  shows "move_blk k (move_blk n m d s) (d + n) (s + n) = move_blk (n + k) m d s"
  using assms by (auto simp: move_blk_def fun_eq_iff)

lemma move_blk_self [simp]: "move_blk n m d d = m"
  by (auto simp: move_blk_def fun_eq_iff)

lemma fill_blk_comp: "fill_blk k c (fill_blk n c m d) (d + n) = fill_blk (n + k) c m d"
  by (auto simp: fill_blk_def fun_eq_iff)

lemma fill_blk_0 [simp]: "fill_blk 0 c m d = m"
  by (auto simp: fill_blk_def fun_eq_iff)

definition forward_ok :: "nat \<Rightarrow> nat \<Rightarrow> nat \<Rightarrow> bool" where
  "forward_ok d s sz = (d \<le> s \<or> s + sz \<le> d)"

lemma forward_ok_step: "forward_ok d s sz \<Longrightarrow> n \<le> sz \<Longrightarrow> forward_ok (d + n) (s + n) (sz - n)"
  by (auto simp: forward_ok_def)

text \<open>The result of a loop that has copied some of the block: the rest is still to be done.\<close>

definition copied :: "mem \<Rightarrow> nat \<Rightarrow> nat \<Rightarrow> nat \<Rightarrow> mem \<times> nat \<times> nat \<times> nat \<Rightarrow> bool" where
  "copied m d s sz r = (\<exists>n \<le> sz. r = (move_blk n m d s, d + n, s + n, sz - n))"

lemma copied_refl: "copied m d s sz (m, d, s, sz)"
  by (auto simp: copied_def intro!: exI [of _ 0])

lemma copied_more:
  assumes "forward_ok d s sz" "k \<le> sz" "copied (move_blk k m d s) (d + k) (s + k) (sz - k) r"
  shows "copied m d s sz r"
proof -
  obtain n where n: "n \<le> sz - k" "r = (move_blk n (move_blk k m d s) (d + k) (s + k), d + k + n, s + k + n, sz - k - n)"
    using assms(3) by (auto simp: copied_def)
  have "move_blk n (move_blk k m d s) (d + k) (s + k) = move_blk (k + n) m d s"
    using assms(1,2) n(1) by (intro move_blk_comp) (auto simp: forward_ok_def)
  with n assms(2) show ?thesis unfolding copied_def by (intro exI [of _ "k + n"]) (auto simp: add.assoc)
qed

lemma four_words:
  assumes "forward_ok d s sz" "sz \<ge> 16"
  shows "move_blk 4 (move_blk 4 (move_blk 4 (move_blk 4 m d s) (d + 4) (s + 4)) (d + 8) (s + 8)) (d + 12) (s + 12)
     = move_blk 16 m d s"
  using assms move_blk_comp [of d s 4 4 m] move_blk_comp [of d s 8 4 m] move_blk_comp [of d s 12 4 m]
  by (auto simp: forward_ok_def)

lemma four_bytes:
  assumes "forward_ok d s sz" "sz \<ge> 4"
  shows "move_blk 1 (move_blk 1 (move_blk 1 (move_blk 1 m d s) (d + 1) (s + 1)) (d + 2) (s + 2)) (d + 3) (s + 3)
     = move_blk 4 m d s"
proof -
  have "d \<le> s \<or> s + 4 \<le> d" using assms by (auto simp: forward_ok_def)
  then show ?thesis
    using move_blk_comp [of d s 1 1 m] move_blk_comp [of d s 2 1 m] move_blk_comp [of d s 3 1 m]
    by (auto simp: numeral_2_eq_2 [symmetric] simp del: One_nat_def)
qed

lemma memcpy_words4_blk: "forward_ok d s sz \<Longrightarrow> copied m d s sz (memcpy_words4 m d s sz)"
proof (induction m d s sz rule: memcpy_words4.induct)
  case (1 m d s sz)
  show ?case
  proof (cases "sz \<ge> 16")
    case True
    with 1 forward_ok_step [OF 1(2) True] show ?thesis
      by (subst memcpy_words4.simps) (auto simp: four_words intro!: copied_more [of d s sz 16])
  qed (simp add: memcpy_words4.simps copied_refl)
qed

lemma memcpy_words_blk: "forward_ok d s sz \<Longrightarrow> copied m d s sz (memcpy_words m d s sz)"
proof (induction m d s sz rule: memcpy_words.induct)
  case (1 m d s sz)
  show ?case
  proof (cases "sz \<ge> 4")
    case True
    with 1 forward_ok_step [OF 1(2) True] show ?thesis
      by (subst memcpy_words.simps) (auto simp: intro!: copied_more [of d s sz 4])
  qed (simp add: memcpy_words.simps copied_refl)
qed

lemma memcpy_bytes4_blk: "forward_ok d s sz \<Longrightarrow> copied m d s sz (memcpy_bytes4 m d s sz)"
proof (induction m d s sz rule: memcpy_bytes4.induct)
  case (1 m d s sz)
  show ?case
  proof (cases "sz \<ge> 4")
    case True
    note eq = four_bytes [OF 1(2) True]
    have "copied (move_blk 4 m d s) (d + 4) (s + 4) (sz - 4) (memcpy_bytes4 (move_blk 4 m d s) (d + 4) (s + 4) (sz - 4))"
      using 1(1) [OF True] forward_ok_step [OF 1(2) True] unfolding eq by blast
    with copied_more [OF 1(2) True] True show ?thesis
      by (subst memcpy_bytes4.simps) (simp only: eq if_True)
  qed (simp add: memcpy_bytes4.simps copied_refl)
qed

lemma memcpy_bytes_blk: "forward_ok d s sz \<Longrightarrow> memcpy_bytes m d s sz = move_blk sz m d s"
proof (induction sz arbitrary: m d s)
  case (Suc sz)
  then show ?case
    using move_blk_comp [of d s 1 sz m] forward_ok_step [OF Suc.prems, of 1] by (auto simp: forward_ok_def)
qed simp

lemma copied_finish:
  assumes "forward_ok d s sz" "copied m d s sz (m', d', s', sz')"
  shows "forward_ok d' s' sz'" "move_blk sz' m' d' s' = move_blk sz m d s"
  using assms move_blk_comp [of d s "sz - sz'" sz' m] by (auto simp: copied_def forward_ok_def)

lemma memcpy_tail_blk:
  assumes "forward_ok d s sz"
  shows "memcpy_tail m d s sz = move_blk sz m d s"
  using memcpy_bytes4_blk [OF assms, of m] copied_finish [OF assms, of m]
  by (auto simp: memcpy_tail_def memcpy_bytes_blk split: prod.splits)

section \<open>memmove and memset\<close>

lemma memmove_up_blk: "d < s \<Longrightarrow> memmove_up m d s sz = move_blk sz m d s"
proof (induction sz)
  case (Suc sz)
  then show ?case by (auto simp: memmove_up_def move_blk_def fun_eq_iff)
qed (simp add: memmove_up_def)

lemma memmove_down_part:
  "s < d \<Longrightarrow> k \<le> sz \<Longrightarrow>
   foldl (\<lambda>m i. m(d + (sz - i - 1) := m (s + (sz - i - 1)))) m [0..<k]
     = move_blk k m (d + (sz - k)) (s + (sz - k))"
proof (induction k)
  case (Suc k)
  then show ?case by (auto simp: move_blk_def fun_eq_iff)
qed simp

lemma memset_store32:
  "store32 m d (spread4 uc) = fill_blk 4 uc m d"
proof -
  have "ucast (spread4 uc) = uc" "ucast (drop_bit 8 (spread4 uc)) = uc"
    "ucast (drop_bit 16 (spread4 uc)) = uc" "ucast (drop_bit 24 (spread4 uc)) = uc"
    by (rule bit_word_eqI, auto simp: spread4_def Let_def bit_simps dest: bit_imp_le_length)+
  then show ?thesis by (auto simp: store32_def fill_blk_def fun_eq_iff)
qed

lemma memset_head_blk:
  "\<exists>n \<le> sz. memset_head m d uc sz = (fill_blk n uc m d, d + n, sz - n)"
proof (induction m d uc sz rule: memset_head.induct)
  case (1 m d uc sz)
  show ?case
  proof (cases "d mod 4 \<noteq> 0 \<and> sz \<ge> 1")
    case True
    then obtain n where n: "n \<le> sz - 1"
      "memset_head (m(d := uc)) (d + 1) uc (sz - 1) = (fill_blk n uc (m(d := uc)) (d + 1), d + 1 + n, sz - 1 - n)"
      using 1 by blast
    have "m(d := uc) = fill_blk 1 uc m d" by (auto simp: fill_blk_def fun_eq_iff)
    with n fill_blk_comp [of n uc 1 m d] True show ?thesis
      by (intro exI [of _ "1 + n"]) (subst memset_head.simps, auto)
  next
    case False
    then show ?thesis by (intro exI [of _ 0]) (subst memset_head.simps, auto)
  qed
qed

lemma memset_words4_blk:
  "\<exists>n \<le> sz. memset_words4 m d (spread4 uc) sz = (fill_blk n uc m d, d + n, sz - n)"
proof (induction m d "spread4 uc" sz rule: memset_words4.induct)
  case (1 m d sz)
  show ?case
  proof (cases "sz \<ge> 16")
    case True
    have eq: "store32 (store32 (store32 (store32 m d (spread4 uc)) (d + 4) (spread4 uc)) (d + 8) (spread4 uc)) (d + 12) (spread4 uc)
        = fill_blk 16 uc m d"
      using fill_blk_comp [of 4 uc 4 m d] fill_blk_comp [of 4 uc 8 m d] fill_blk_comp [of 4 uc 12 m d]
      by (simp add: memset_store32)
    obtain n where n: "n \<le> sz - 16" "memset_words4 (fill_blk 16 uc m d) (d + 16) (spread4 uc) (sz - 16)
        = (fill_blk n uc (fill_blk 16 uc m d) (d + 16), d + 16 + n, sz - 16 - n)"
      using 1 [OF True] unfolding eq by blast
    then show ?thesis using True fill_blk_comp [of n uc 16 m d]
      by (intro exI [of _ "16 + n"]) (subst memset_words4.simps, auto simp: eq)
  next
    case False
    then show ?thesis by (intro exI [of _ 0]) (subst memset_words4.simps, auto)
  qed
qed

lemma memset_words_blk:
  "\<exists>n \<le> sz. memset_words m d (spread4 uc) sz = (fill_blk n uc m d, d + n, sz - n)"
proof (induction m d "spread4 uc" sz rule: memset_words.induct)
  case (1 m d sz)
  show ?case
  proof (cases "sz \<ge> 4")
    case True
    obtain n where n: "n \<le> sz - 4" "memset_words (fill_blk 4 uc m d) (d + 4) (spread4 uc) (sz - 4)
        = (fill_blk n uc (fill_blk 4 uc m d) (d + 4), d + 4 + n, sz - 4 - n)"
      using 1 [OF True] unfolding memset_store32 by blast
    then show ?thesis using True fill_blk_comp [of n uc 4 m d]
      by (intro exI [of _ "4 + n"]) (subst memset_words.simps, auto simp: memset_store32)
  next
    case False
    then show ?thesis by (intro exI [of _ 0]) (subst memset_words.simps, auto)
  qed
qed

lemma memset_bytes_blk: "memset_bytes m d uc sz = fill_blk sz uc m d"
proof (induction sz arbitrary: m d)
  case (Suc sz)
  have "m(d := uc) = fill_blk 1 uc m d" by (auto simp: fill_blk_def fun_eq_iff)
  with Suc fill_blk_comp [of sz uc 1 m d] show ?case by simp
qed simp

lemma memcmp_eq_0: "memcmp m p1 p2 n = 0 \<longleftrightarrow> (\<forall>i < n. m (p1 + i) = m (p2 + i))"
proof (induction n arbitrary: p1 p2)
  case (Suc n)
  then show ?case by (auto simp: Let_def less_Suc_eq_0_disj word_uint_eq_iff)
qed simp

section \<open>Properties\<close>

text \<open>C13: \<open>memcpy\<close>, through its aligned and its unaligned loops, copies exactly the block whenever the
  destination does not start inside the source: also for overlapping blocks with the
  destination below, which its callers rely on.\<close>

theorem memcpy_correct:
  assumes "dest \<le> src \<or> src + sz \<le> dest"
  shows "memcpy m dest src sz = move_blk sz m dest src"
proof -
  have f: "forward_ok dest src sz" using assms by (simp add: forward_ok_def)
  obtain m1 d1 s1 z1 where w4: "memcpy_words4 m dest src sz = (m1, d1, s1, z1)"
    by (cases "memcpy_words4 m dest src sz")
  obtain m2 d2 s2 z2 where w: "memcpy_words m1 d1 s1 z1 = (m2, d2, s2, z2)"
    by (cases "memcpy_words m1 d1 s1 z1")
  note f1 = copied_finish [OF f memcpy_words4_blk [OF f, of m, unfolded w4]]
  note f2 = copied_finish [OF f1(1) memcpy_words_blk [OF f1(1), of m1, unfolded w]]
  show ?thesis
    using f f1 f2 w4 w memcpy_tail_blk [OF f2(1), of m2] memcpy_tail_blk [OF f, of m]
    by (auto simp: memcpy_def)
qed

theorem memcpy_correct_witness:
  "memcpy (\<lambda>a. of_nat a) 8 12 21 10 = 14 \<and> memcpy (\<lambda>a. of_nat a) 8 12 21 29 = 29"
  using memcpy_correct [of 8 12 21 "\<lambda>a. of_nat a"] by (simp add: move_blk_def)

text \<open>\<open>memmove\<close> copies the block for every overlap.\<close>

theorem memmove_correct: "memmove m dest src sz = move_blk sz m dest src"
  using memmove_up_blk [of dest src m sz] memmove_down_part [of src dest sz sz m]
  by (auto simp: memmove_def memmove_down_def)

text \<open>\<open>memset\<close> stores the low byte of its argument in every byte of the block and nowhere else,
  for every alignment and size.\<close>

theorem memset_correct: "memset m dest c sz = fill_blk sz (ucast c) m dest"
proof -
  let ?uc = "ucast c :: UChar"
  obtain n1 where n1: "n1 \<le> sz" "memset_head m dest ?uc sz = (fill_blk n1 ?uc m dest, dest + n1, sz - n1)"
    using memset_head_blk by blast
  obtain n2 where n2: "n2 \<le> sz - n1" "memset_words4 (fill_blk n1 ?uc m dest) (dest + n1) (spread4 ?uc) (sz - n1)
      = (fill_blk n2 ?uc (fill_blk n1 ?uc m dest) (dest + n1), dest + n1 + n2, sz - n1 - n2)"
    using memset_words4_blk by blast
  obtain n3 where n3: "n3 \<le> sz - n1 - n2"
    "memset_words (fill_blk (n1 + n2) ?uc m dest) (dest + n1 + n2) (spread4 ?uc) (sz - n1 - n2)
      = (fill_blk n3 ?uc (fill_blk (n1 + n2) ?uc m dest) (dest + n1 + n2), dest + n1 + n2 + n3, sz - n1 - n2 - n3)"
    using memset_words_blk by blast
  have c: "fill_blk n2 ?uc (fill_blk n1 ?uc m dest) (dest + n1) = fill_blk (n1 + n2) ?uc m dest"
    "fill_blk n3 ?uc (fill_blk (n1 + n2) ?uc m dest) (dest + n1 + n2) = fill_blk (n1 + n2 + n3) ?uc m dest"
    "fill_blk (sz - n1 - n2 - n3) ?uc (fill_blk (n1 + n2 + n3) ?uc m dest) (dest + n1 + n2 + n3) = fill_blk sz ?uc m dest"
    using fill_blk_comp [of n2 ?uc n1 m dest] fill_blk_comp [of n3 ?uc "n1 + n2" m dest]
      fill_blk_comp [of "sz - n1 - n2 - n3" ?uc "n1 + n2 + n3" m dest] n1(1) n2(1) n3(1)
    by (simp_all add: add.assoc)
  show ?thesis
  proof (cases "sz - n1 = 0")
    case True
    with n1 show ?thesis by (simp add: memset_def)
  next
    case False
    then show ?thesis
      unfolding memset_def Let_def n1(2) n2(2) c(1) prod.case memset_bytes_blk n3(2) c(2) c(3) by simp
  qed
qed

end
