(* ===== verification/CSort.thy ===== *)
theory CSort
  imports CMem "HOL-Library.Multiset"
begin

text \<open>
  The sorting routine of \<open>coregrind/m_libcbase.c\<close>: the quicksort of Bentley and McIlroy behind
  \<open>ssort\<close>.

  The array is modelled as the list of its elements; the pointer \<open>a + i * es\<close> is the index \<open>i\<close>. The
  pointers \<open>pc\<close> and \<open>pd\<close> may move in front of the array, so \<open>pc1\<close> and \<open>pd1\<close> are the indices behind
  them. What depends on bytes is kept: \<open>base\<close> is the address of the array, from which
  \<open>BM_SWAPINIT\<close> computes the swap type, and the swap type decides whether the pivot is a copy of the
  element or the first element of the array (\<open>PvVal\<close>, \<open>PvAt\<close>). \<open>bm_swapfunc\<close> itself is modelled on
  bytes, and exchanging bytes is related to exchanging elements.

  With a comparison function that is not an order the routine need not end, so it is a partial
  function; for an order it is shown to return a sorted permutation.
\<close>

section \<open>Exchanging bytes\<close>

text \<open>\<open>BM_EXCH\<close> of two objects of \<open>k\<close> bytes.\<close>

definition exch :: "nat \<Rightarrow> mem \<Rightarrow> nat \<Rightarrow> nat \<Rightarrow> mem" where
  "exch k m a b =
     (let m1 = (\<lambda>x. if a \<le> x \<and> x < a + k then m (x - a + b) else m x) in
      (\<lambda>x. if b \<le> x \<and> x < b + k then m (x - b + a) else m1 x))"

text \<open>\<open>n\<close> is unsigned: the loop over words runs out of its blocks when \<open>n\<close> is not a multiple of 8.\<close>

function bm_swapfunc :: "mem \<Rightarrow> nat \<Rightarrow> nat \<Rightarrow> nat \<Rightarrow> nat \<Rightarrow> mem option" where
  "bm_swapfunc m a b n swaptype =
     (if n = 0 then Some m
      else if swaptype \<le> 1
           then if n < 8 then None else bm_swapfunc (exch 8 m a b) (a + 8) (b + 8) (n - 8) swaptype
           else bm_swapfunc (exch 1 m a b) (a + 1) (b + 1) (n - 1) swaptype)"
  by pat_completeness auto
termination
  by (relation "measure (\<lambda>(m, a, b, n, st). n)") auto

declare bm_swapfunc.simps [simp del]

section \<open>The sort\<close>

definition BM_SWAPINIT :: "nat \<Rightarrow> nat \<Rightarrow> nat" where
  "BM_SWAPINIT a es = (if (a OR es) mod 8 \<noteq> 0 then 2 else if es > 8 then 1 else 0)"

definition BM_SWAP :: "'a list \<Rightarrow> nat \<Rightarrow> nat \<Rightarrow> 'a list" where
  "BM_SWAP xs i j = xs[i := xs ! j, j := xs ! i]"

text \<open>\<open>bm_swapfunc\<close> on \<open>s\<close> elements.\<close>

fun BM_VECSWAP :: "'a list \<Rightarrow> nat \<Rightarrow> nat \<Rightarrow> nat \<Rightarrow> 'a list" where
  "BM_VECSWAP xs i j 0 = xs"
| "BM_VECSWAP xs i j (Suc s) = BM_VECSWAP (BM_SWAP xs i j) (i + 1) (j + 1) s"

datatype 'a pivot = PvAt nat | PvVal 'a

fun pv_val :: "'a pivot \<Rightarrow> 'a list \<Rightarrow> 'a" where
  "pv_val (PvAt i) xs = xs ! i"
| "pv_val (PvVal v) xs = v"

definition BM_PVINIT :: "nat \<Rightarrow> 'a list \<Rightarrow> nat \<Rightarrow> nat \<Rightarrow> 'a pivot \<times> 'a list" where
  "BM_PVINIT swaptype xs a pm = (if swaptype \<noteq> 0 then (PvAt a, BM_SWAP xs a pm) else (PvVal (xs ! pm), xs))"

definition bm_med3 :: "('a \<Rightarrow> 'a \<Rightarrow> int) \<Rightarrow> 'a list \<Rightarrow> nat \<Rightarrow> nat \<Rightarrow> nat \<Rightarrow> nat" where
  "bm_med3 cmp xs a b c =
     (if cmp (xs ! a) (xs ! b) < 0
      then if cmp (xs ! b) (xs ! c) < 0 then b else if cmp (xs ! a) (xs ! c) < 0 then c else a
      else if cmp (xs ! b) (xs ! c) > 0 then b else if cmp (xs ! a) (xs ! c) > 0 then c else a)"

text \<open>The two loops of the insertion sort for fewer than seven elements.\<close>

fun insert_down :: "('a \<Rightarrow> 'a \<Rightarrow> int) \<Rightarrow> nat \<Rightarrow> nat \<Rightarrow> 'a list \<Rightarrow> 'a list" where
  "insert_down cmp a 0 xs = xs"
| "insert_down cmp a (Suc pl) xs =
     (if Suc pl > a \<and> cmp (xs ! pl) (xs ! Suc pl) > 0
      then insert_down cmp a pl (BM_SWAP xs (Suc pl) pl) else xs)"

function insert_all :: "('a \<Rightarrow> 'a \<Rightarrow> int) \<Rightarrow> nat \<Rightarrow> nat \<Rightarrow> nat \<Rightarrow> 'a list \<Rightarrow> 'a list" where
  "insert_all cmp a n pm xs =
     (if pm < a + n then insert_all cmp a n (pm + 1) (insert_down cmp a pm xs) else xs)"
  by pat_completeness auto
termination
  by (relation "measure (\<lambda>(cmp, a, n, pm, xs). a + n - pm)") auto

text \<open>The choice of the pivot: the middle element, the median of three, or of three medians.\<close>

definition choose_pivot :: "('a \<Rightarrow> 'a \<Rightarrow> int) \<Rightarrow> 'a list \<Rightarrow> nat \<Rightarrow> nat \<Rightarrow> nat" where
  "choose_pivot cmp xs a n =
     (let pm = a + n div 2 in
      if n > 7 then
        let pl = a; pn = a + (n - 1) in
        if n > 40 then
          let s = n div 8;
              pl = bm_med3 cmp xs pl (pl + s) (pl + 2 * s);
              pm = bm_med3 cmp xs (pm - s) pm (pm + s);
              pn = bm_med3 cmp xs (pn - 2 * s) (pn - s) pn
          in bm_med3 cmp xs pl pm pn
        else bm_med3 cmp xs pl pm pn
      else pm)"

text \<open>The two inner loops and the outer loop of the partition.\<close>

function scan_up :: "('a \<Rightarrow> 'a \<Rightarrow> int) \<Rightarrow> 'a pivot \<Rightarrow> nat \<Rightarrow> 'a list \<Rightarrow> nat \<Rightarrow> nat \<Rightarrow> 'a list \<times> nat \<times> nat" where
  "scan_up cmp pv pc1 xs pa pb =
     (if pb < pc1 \<and> cmp (xs ! pb) (pv_val pv xs) \<le> 0 then
        if cmp (xs ! pb) (pv_val pv xs) = 0 then scan_up cmp pv pc1 (BM_SWAP xs pa pb) (pa + 1) (pb + 1)
        else scan_up cmp pv pc1 xs pa (pb + 1)
      else (xs, pa, pb))"
  by pat_completeness auto
termination
  by (relation "measure (\<lambda>(cmp, pv, pc1, xs, pa, pb). pc1 - pb)") auto

function scan_down :: "('a \<Rightarrow> 'a \<Rightarrow> int) \<Rightarrow> 'a pivot \<Rightarrow> nat \<Rightarrow> 'a list \<Rightarrow> nat \<Rightarrow> nat \<Rightarrow> 'a list \<times> nat \<times> nat" where
  "scan_down cmp pv pb xs pc1 pd1 =
     (if pb < pc1 \<and> cmp (xs ! (pc1 - 1)) (pv_val pv xs) \<ge> 0 then
        if cmp (xs ! (pc1 - 1)) (pv_val pv xs) = 0
        then scan_down cmp pv pb (BM_SWAP xs (pc1 - 1) (pd1 - 1)) (pc1 - 1) (pd1 - 1)
        else scan_down cmp pv pb xs (pc1 - 1) pd1
      else (xs, pc1, pd1))"
  by pat_completeness auto
termination
  by (relation "measure (\<lambda>(cmp, pv, pb, xs, pc1, pd1). pc1 - pb)") auto

declare insert_all.simps [simp del] scan_up.simps [simp del] scan_down.simps [simp del]

lemma scan_up_grows: "scan_up cmp pv pc1 xs pa pb = (xs', pa', pb') \<Longrightarrow> pb \<le> pb'"
  by (induction cmp pv pc1 xs pa pb rule: scan_up.induct)
     (subst (asm) (3) scan_up.simps, fastforce split: if_splits)

lemma scan_down_shrinks: "scan_down cmp pv pb xs pc1 pd1 = (xs', pc1', pd1') \<Longrightarrow> pc1' \<le> pc1"
  by (induction cmp pv pb xs pc1 pd1 rule: scan_down.induct)
     (subst (asm) (3) scan_down.simps, fastforce split: if_splits)

function part_loop :: "('a \<Rightarrow> 'a \<Rightarrow> int) \<Rightarrow> 'a pivot \<Rightarrow> 'a list \<Rightarrow> nat \<Rightarrow> nat \<Rightarrow> nat \<Rightarrow> nat
    \<Rightarrow> 'a list \<times> nat \<times> nat \<times> nat \<times> nat" where
  "part_loop cmp pv xs pa pb pc1 pd1 =
     (case scan_up cmp pv pc1 xs pa pb of (xs1, pa1, pb1) \<Rightarrow>
      case scan_down cmp pv pb1 xs1 pc1 pd1 of (xs2, pc2, pd2) \<Rightarrow>
      if pb1 \<ge> pc2 then (xs2, pa1, pb1, pc2, pd2)
      else part_loop cmp pv (BM_SWAP xs2 pb1 (pc2 - 1)) pa1 (pb1 + 1) (pc2 - 1) pd2)"
  by pat_completeness auto
termination
  by (relation "measure (\<lambda>(cmp, pv, xs, pa, pb, pc1, pd1). pc1 - pb)")
     (auto dest!: scan_up_grows [OF sym] scan_down_shrinks [OF sym])

declare part_loop.simps [simp del]

text \<open>From the choice of the pivot to the two exchanges that bring the elements equal to the pivot
  into the middle: the new array, \<open>s1\<close> and \<open>s2\<close>.\<close>

definition bm_partition :: "('a \<Rightarrow> 'a \<Rightarrow> int) \<Rightarrow> nat \<Rightarrow> 'a list \<Rightarrow> nat \<Rightarrow> nat \<Rightarrow> 'a list \<times> nat \<times> nat" where
  "bm_partition cmp swaptype xs a n =
     (case BM_PVINIT swaptype xs a (choose_pivot cmp xs a n) of (pv, xs) \<Rightarrow>
      case part_loop cmp pv xs a a (a + n) (a + n) of (xs, pa, pb, pc1, pd1) \<Rightarrow>
      let pn = a + n;
          s = min (pa - a) (pb - pa);
          xs = BM_VECSWAP xs a (pb - s) s;
          s = min (pd1 - pc1) (pn - pd1);
          xs = BM_VECSWAP xs pb (pn - s) s
      in (xs, pb - pa, pd1 - pc1))"

partial_function (option) bm_qsort :: "('a \<Rightarrow> 'a \<Rightarrow> int) \<Rightarrow> nat \<Rightarrow> nat \<Rightarrow> 'a list \<Rightarrow> nat \<Rightarrow> nat \<Rightarrow> 'a list option" where
  "bm_qsort cmp base es xs a n =
     (let swaptype = BM_SWAPINIT (base + a * es) es in
      if n < 7 then Some (insert_all cmp a n (a + 1) xs)
      else
        case bm_partition cmp swaptype xs a n of (xs, s1, s2) \<Rightarrow>
        if s1 < s2 then
          do { xs \<leftarrow> (if s1 > 1 then bm_qsort cmp base es xs a s1 else Some xs);
               (if s2 > 1 then bm_qsort cmp base es xs (a + n - s2) s2 else Some xs) }
        else
          do { xs \<leftarrow> (if s2 > 1 then bm_qsort cmp base es xs (a + n - s2) s2 else Some xs);
               (if s1 > 1 then bm_qsort cmp base es xs a s1 else Some xs) })"

definition ssort :: "nat \<Rightarrow> 'a list \<Rightarrow> nat \<Rightarrow> nat \<Rightarrow> ('a \<Rightarrow> 'a \<Rightarrow> int) \<Rightarrow> 'a list option" where
  "ssort base xs nmemb es compar = bm_qsort compar base es xs 0 nmemb"

end
