(* ===== verification/CSort_Props.thy ===== *)
theory CSort_Props
  imports CSort
begin

text \<open>
  The quicksort of \<open>CSort\<close> returns for every order and sorts: the insertion sort, the partition into
  smaller, equal and greater elements, and the recursion. Byte-wise exchange of disjoint elements is
  exchange of elements.
\<close>

section \<open>Exchanges\<close>

lemma length_swap [simp]: "length (BM_SWAP xs i j) = length xs"
  by (simp add: BM_SWAP_def)

lemma nth_swap:
  "i < length xs \<Longrightarrow> j < length xs \<Longrightarrow>
     BM_SWAP xs i j ! k = (if k = i then xs ! j else if k = j then xs ! i else xs ! k)"
  by (auto simp: BM_SWAP_def nth_list_update)

lemma mset_swap_list [simp]: "i < length xs \<Longrightarrow> j < length xs \<Longrightarrow> mset (BM_SWAP xs i j) = mset xs"
  unfolding BM_SWAP_def by (rule mset_swap)

lemma length_vecswap [simp]: "length (BM_VECSWAP xs i j s) = length xs"
  by (induction s arbitrary: xs i j) auto

lemma mset_vecswap [simp]:
  "i + s \<le> length xs \<Longrightarrow> j + s \<le> length xs \<Longrightarrow> mset (BM_VECSWAP xs i j s) = mset xs"
  by (induction s arbitrary: xs i j) auto

lemma vecswap_other:
  "i + s \<le> length xs \<Longrightarrow> j + s \<le> length xs \<Longrightarrow> \<not> (i \<le> k \<and> k < i + s) \<Longrightarrow> \<not> (j \<le> k \<and> k < j + s) \<Longrightarrow>
     BM_VECSWAP xs i j s ! k = xs ! k"
  by (induction s arbitrary: xs i j) (auto simp: nth_swap)

lemma vecswap_pair:
  "i + s \<le> j \<Longrightarrow> j + s \<le> length xs \<Longrightarrow> t < s \<Longrightarrow>
     BM_VECSWAP xs i j s ! (i + t) = xs ! (j + t) \<and> BM_VECSWAP xs i j s ! (j + t) = xs ! (i + t)"
proof (induction s arbitrary: xs i j t)
  case (Suc s)
  show ?case
  proof (cases t)
    case 0
    then show ?thesis using Suc.prems by (simp add: vecswap_other nth_swap)
  next
    case (Suc t')
    then show ?thesis
      using Suc.IH [of "i + 1" "j + 1" "BM_SWAP xs i j" t'] Suc.prems by (simp add: nth_swap)
  qed
qed simp

lemma nth_vecswap:
  assumes "i + s \<le> j" "j + s \<le> length xs"
  shows "BM_VECSWAP xs i j s ! k =
     (if i \<le> k \<and> k < i + s then xs ! (k - i + j) else if j \<le> k \<and> k < j + s then xs ! (k - j + i) else xs ! k)"
proof -
  have "BM_VECSWAP xs i j s ! k = xs ! (k - i + j)" if "i \<le> k" "k < i + s"
    using vecswap_pair [OF assms, of "k - i"] that by (simp add: add.commute)
  moreover have "BM_VECSWAP xs i j s ! k = xs ! (k - j + i)" if "j \<le> k" "k < j + s"
    using vecswap_pair [OF assms, of "k - j"] that by (simp add: add.commute)
  ultimately show ?thesis using vecswap_other [of i s xs j k] assms by simp
qed

text \<open>The part of the array that a call may change.\<close>

definition same_outside :: "nat \<Rightarrow> nat \<Rightarrow> 'a list \<Rightarrow> 'a list \<Rightarrow> bool" where
  "same_outside lo hi xs ys \<longleftrightarrow> length ys = length xs \<and> mset ys = mset xs \<and> (\<forall>k. k < lo \<or> hi \<le> k \<longrightarrow> ys ! k = xs ! k)"

lemma same_outside_refl [simp]: "same_outside lo hi xs xs"
  by (simp add: same_outside_def)

lemma same_outside_trans [trans]:
  "same_outside lo hi xs ys \<Longrightarrow> same_outside lo hi ys zs \<Longrightarrow> same_outside lo hi xs zs"
  by (auto simp: same_outside_def)

lemma same_outside_mono: "same_outside lo hi xs ys \<Longrightarrow> lo' \<le> lo \<Longrightarrow> hi \<le> hi' \<Longrightarrow> same_outside lo' hi' xs ys"
  by (auto simp: same_outside_def)

lemma same_outside_length: "same_outside lo hi xs ys \<Longrightarrow> length ys = length xs"
  by (simp add: same_outside_def)

lemma same_outside_swap:
  "lo \<le> i \<Longrightarrow> i < hi \<Longrightarrow> lo \<le> j \<Longrightarrow> j < hi \<Longrightarrow> hi \<le> length xs \<Longrightarrow> same_outside lo hi xs (BM_SWAP xs i j)"
  by (auto simp: same_outside_def nth_swap)

lemma same_outside_vecswap:
  "lo \<le> i \<Longrightarrow> i + s \<le> j \<Longrightarrow> j + s \<le> hi \<Longrightarrow> hi \<le> length xs \<Longrightarrow> same_outside lo hi xs (BM_VECSWAP xs i j s)"
  by (auto simp: same_outside_def nth_vecswap)

text \<open>The elements of a range are permuted as well.\<close>

lemma same_outside_range:
  assumes "same_outside lo hi xs ys" "hi \<le> length xs" "lo \<le> hi"
  shows "mset (take (hi - lo) (drop lo ys)) = mset (take (hi - lo) (drop lo xs))"
proof -
  have len: "length ys = length xs" and ms: "mset ys = mset xs"
    and eq: "\<And>k. k < lo \<or> hi \<le> k \<Longrightarrow> ys ! k = xs ! k" using assms(1) by (auto simp: same_outside_def)
  have split: "mset zs = mset (take lo zs) + mset (take (hi - lo) (drop lo zs)) + mset (drop hi zs)" for zs :: "'a list"
  proof -
    have "zs = take lo zs @ take (hi - lo) (drop lo zs) @ drop hi zs"
      using assms(3) by (metis append_take_drop_id drop_drop le_add_diff_inverse2)
    then show ?thesis by (metis mset_append union_assoc)
  qed
  have "take lo ys = take lo xs" using len eq assms by (intro nth_equalityI) auto
  moreover have "drop hi ys = drop hi xs" using len eq assms by (intro nth_equalityI) auto
  ultimately show ?thesis using split [of ys] split [of xs] ms by simp
qed

lemma range_elem:
  assumes "same_outside lo hi xs ys" "hi \<le> length xs" "lo \<le> k" "k < hi"
  obtains k' where "lo \<le> k'" "k' < hi" "ys ! k = xs ! k'"
proof -
  have len: "length ys = length xs" using assms(1) by (simp add: same_outside_def)
  have "ys ! k \<in> set (take (hi - lo) (drop lo ys))"
    unfolding in_set_conv_nth using assms len by (intro exI [of _ "k - lo"]) auto
  also have "\<dots> = set (take (hi - lo) (drop lo xs))"
    using same_outside_range [OF assms(1,2)] assms(3,4) by (metis le_trans less_imp_le mset_eq_setD)
  finally obtain i where "i < hi - lo" "ys ! k = xs ! (lo + i)"
    using assms(2) by (auto simp: in_set_conv_nth)
  then show thesis using that [of "lo + i"] by simp
qed

section \<open>Bytes and elements\<close>

lemma exch_self: "exch k m a a = m"
  by (intro ext) (simp add: exch_def Let_def)

lemma exch_sym: "a + k \<le> b \<Longrightarrow> exch k m b a = exch k m a b"
  by (intro ext) (simp add: exch_def Let_def)

lemma exch_at:
  assumes "a + k \<le> b"
  shows "t < k \<Longrightarrow> exch k m a b (a + t) = m (b + t)" "t < k \<Longrightarrow> exch k m a b (b + t) = m (a + t)"
    and "\<not> (a \<le> x \<and> x < a + k) \<Longrightarrow> \<not> (b \<le> x \<and> x < b + k) \<Longrightarrow> exch k m a b x = m x"
  using assms by (auto simp: exch_def Let_def add.commute)

lemma exch_split_le:
  assumes d: "a + (k + l) \<le> b"
  shows "exch l (exch k m a b) (a + k) (b + k) = exch (k + l) m a b"
proof (rule ext)
  fix x
  have d': "a + k \<le> b" "a + k + l \<le> b + k" using d by simp_all
  consider t where "x = a + t" "t < k" | t where "x = a + k + t" "t < l" | t where "x = b + t" "t < k"
    | t where "x = b + k + t" "t < l" | "\<not> (a \<le> x \<and> x < a + (k + l))" "\<not> (b \<le> x \<and> x < b + (k + l))"
    by (metis add.assoc add_less_cancel_left le_add_diff_inverse not_le)
  then show "exch l (exch k m a b) (a + k) (b + k) x = exch (k + l) m a b x"
  proof cases
    case 1
    then show ?thesis using d exch_at(3) [OF d'(2), of "a + t"] exch_at(1) [OF d'(1), of t] exch_at(1) [OF d, of t] by simp
  next
    case 2
    then show ?thesis using d exch_at(1) [OF d'(2), of t] exch_at(3) [OF d'(1), of "b + k + t"] exch_at(1) [OF d, of "k + t"]
      by (simp add: add.assoc)
  next
    case 3
    then show ?thesis using d exch_at(3) [OF d'(2), of "b + t"] exch_at(2) [OF d'(1), of t] exch_at(2) [OF d, of t] by simp
  next
    case 4
    then show ?thesis using d exch_at(2) [OF d'(2), of t] exch_at(3) [OF d'(1), of "a + k + t"] exch_at(2) [OF d, of "k + t"]
      by (simp add: add.assoc)
  next
    case 5
    then show ?thesis using d exch_at(3) [OF d'(2), of x] exch_at(3) [OF d'(1), of x] exch_at(3) [OF d, of x] by auto
  qed
qed

lemma exch_split:
  assumes "a = b \<or> a + (k + l) \<le> b \<or> b + (k + l) \<le> a"
  shows "exch l (exch k m a b) (a + k) (b + k) = exch (k + l) m a b"
  using assms
proof (elim disjE)
  assume "b + (k + l) \<le> a"
  then show ?thesis using exch_split_le [of b k l a m] by (simp add: exch_sym [of b k a] exch_sym [of "b + k" l "a + k"] exch_sym [of b "k + l" a])
qed (simp_all add: exch_self exch_split_le)

lemma exch_0: "exch 0 m a b = m"
  by (intro ext) (auto simp: exch_def Let_def)

text \<open>Both loops of \<open>bm_swapfunc\<close> exchange two blocks that are disjoint or the same.\<close>

lemma bm_swapfunc_exch:
  "a = b \<or> a + n \<le> b \<or> b + n \<le> a \<Longrightarrow> (swaptype \<le> 1 \<Longrightarrow> 8 dvd n) \<Longrightarrow>
     bm_swapfunc m a b n swaptype = Some (exch n m a b)"
proof (induction m a b n swaptype rule: bm_swapfunc.induct)
  case (1 m a b n swaptype)
  consider "n = 0" | "0 < n" "swaptype \<le> 1" | "0 < n" "\<not> swaptype \<le> 1" by linarith
  then show ?case
  proof cases
    case 1
    then show ?thesis by (simp add: bm_swapfunc.simps exch_0)
  next
    case 2
    then have n: "8 \<le> n" "8 dvd n - 8" using "1.prems"(2) by (auto simp: dvd_imp_le dvd_diff_nat)
    have "bm_swapfunc (exch 8 m a b) (a + 8) (b + 8) (n - 8) swaptype
        = Some (exch (n - 8) (exch 8 m a b) (a + 8) (b + 8))"
      using 2 n "1.prems" by (intro "1.IH"(1)) auto
    then show ?thesis
      using 2 n exch_split [of a b 8 "n - 8" m] "1.prems"(1) by (subst bm_swapfunc.simps) auto
  next
    case 3
    have "bm_swapfunc (exch 1 m a b) (a + 1) (b + 1) (n - 1) swaptype
        = Some (exch (n - 1) (exch 1 m a b) (a + 1) (b + 1))"
      using 3 "1.prems" by (intro "1.IH"(2)) auto
    then show ?thesis
      using 3 exch_split [of a b 1 "n - 1" m] "1.prems"(1) by (subst bm_swapfunc.simps) auto
  qed
qed

text \<open>The array of \<open>n\<close> elements of \<open>es\<close> bytes at \<open>base\<close>.\<close>

definition elems :: "nat \<Rightarrow> nat \<Rightarrow> nat \<Rightarrow> mem \<Rightarrow> UChar list list" where
  "elems base es n m = map (\<lambda>i. map (\<lambda>k. m (base + i * es + k)) [0..<es]) [0..<n]"

lemma elem_block:
  fixes base i j es k :: nat
  assumes "k < es"
  shows "base + i * es \<le> base + j * es + k \<and> base + j * es + k < base + i * es + es \<longleftrightarrow> i = j"
proof -
  have "(j * es + k) div es = j" using assms by simp
  moreover have "i * es \<le> j * es + k \<and> j * es + k < i * es + es \<longleftrightarrow> (j * es + k) div es = i"
    using assms by (metis add.commute div_nat_eqI div_times_less_eq_dividend dividend_less_div_times
        mult.commute mult_Suc not_less_zero zero_less_iff_neq_zero)
  ultimately show ?thesis by auto
qed

lemma exch_elem:
  assumes "k < es"
  shows "exch es m (base + i * es) (base + j * es) (base + l * es + k)
     = m (base + (if l = j then i else if l = i then j else l) * es + k)"
  unfolding exch_def Let_def elem_block [OF assms] by (simp add: add.commute add.left_commute)

lemma exch_elems:
  assumes "i < n" "j < n"
  shows "elems base es n (exch es m (base + i * es) (base + j * es)) = BM_SWAP (elems base es n m) i j"
proof (rule nth_equalityI)
  fix l assume "l < length (elems base es n (exch es m (base + i * es) (base + j * es)))"
  then have l: "l < n" by (simp add: elems_def)
  have "elems base es n (exch es m (base + i * es) (base + j * es)) ! l
      = map (\<lambda>k. m (base + (if l = j then i else if l = i then j else l) * es + k)) [0..<es]"
    using l by (simp add: elems_def exch_elem)
  also have "\<dots> = BM_SWAP (elems base es n m) i j ! l"
    using l assms by (subst nth_swap) (auto simp: elems_def)
  finally show "elems base es n (exch es m (base + i * es) (base + j * es)) ! l = BM_SWAP (elems base es n m) i j ! l" .
qed (simp add: elems_def)

text \<open>For every swap type that \<open>BM_SWAPINIT\<close> can compute, \<open>bm_swapfunc\<close> on the bytes of two
  elements of an array exchanges exactly these two elements.\<close>

theorem bm_swapfunc_elements:
  assumes "i < n" "j < n"
  shows "\<exists>m'. bm_swapfunc m (base + i * es) (base + j * es) es (BM_SWAPINIT (base + a * es) es) = Some m'
    \<and> elems base es n m' = BM_SWAP (elems base es n m) i j"
proof -
  have "base + i * es = base + j * es \<or> base + i * es + es \<le> base + j * es \<or> base + j * es + es \<le> base + i * es"
  proof (cases i j rule: linorder_cases)
    case less
    then have "(i + 1) * es \<le> j * es" by (intro mult_le_mono1) simp
    then show ?thesis by simp
  next
    case greater
    then have "(j + 1) * es \<le> i * es" by (intro mult_le_mono1) simp
    then show ?thesis by simp
  qed simp
  moreover have "8 dvd es" if "BM_SWAPINIT (base + a * es) es \<le> 1"
  proof -
    have "((base + a * es) OR es) mod 8 = 0" using that by (auto simp: BM_SWAPINIT_def split: if_splits)
    then have "take_bit 3 ((base + a * es) OR es) = 0" by (simp add: take_bit_eq_mod)
    then have "take_bit 3 es = 0" by (simp add: take_bit_or or_eq_0_iff)
    then show ?thesis by (simp add: take_bit_eq_mod mod_eq_0_iff_dvd)
  qed
  ultimately have "bm_swapfunc m (base + i * es) (base + j * es) es (BM_SWAPINIT (base + a * es) es)
      = Some (exch es m (base + i * es) (base + j * es))"
    by (rule bm_swapfunc_exch)
  with exch_elems [OF assms] show ?thesis by blast
qed

theorem bm_swapfunc_elements_witness:
  "\<exists>m'. bm_swapfunc (\<lambda>a. of_nat a) (64 + 0 * 16) (64 + 2 * 16) 16 (BM_SWAPINIT (64 + 0 * 16) 16) = Some m'
    \<and> elems 64 16 3 m' = BM_SWAP (elems 64 16 3 (\<lambda>a. of_nat a)) 0 2"
  by (rule bm_swapfunc_elements) simp_all

section \<open>Insertion sort\<close>

definition ord_on :: "('a \<Rightarrow> 'a \<Rightarrow> int) \<Rightarrow> nat \<Rightarrow> nat \<Rightarrow> 'a list \<Rightarrow> bool" where
  "ord_on cmp lo hi xs \<longleftrightarrow> (\<forall>i j. lo \<le> i \<and> i < j \<and> j < hi \<longrightarrow> cmp (xs ! i) (xs ! j) \<le> 0)"

text \<open>Sorted but for the element at \<open>pl\<close>, which may have to move down.\<close>

definition ord_but :: "('a \<Rightarrow> 'a \<Rightarrow> int) \<Rightarrow> nat \<Rightarrow> nat \<Rightarrow> nat \<Rightarrow> 'a list \<Rightarrow> bool" where
  "ord_but cmp lo hi pl xs \<longleftrightarrow>
     (\<forall>i j. lo \<le> i \<and> i < j \<and> j < hi \<and> j \<noteq> pl \<longrightarrow> cmp (xs ! i) (xs ! j) \<le> 0)"

lemma ord_butD: "ord_but cmp lo hi pl xs \<Longrightarrow> lo \<le> i \<Longrightarrow> i < j \<Longrightarrow> j < hi \<Longrightarrow> j \<noteq> pl \<Longrightarrow> cmp (xs ! i) (xs ! j) \<le> 0"
  by (simp add: ord_but_def)

context comparator
begin

lemma ord_but_swap:
  assumes "ord_but cmp lo hi (Suc pl) xs" "lo \<le> pl" "Suc pl < hi" "hi \<le> length xs"
    and gt: "cmp (xs ! pl) (xs ! Suc pl) > 0"
  shows "ord_but cmp lo hi pl (BM_SWAP xs (Suc pl) pl)"
  unfolding ord_but_def
proof (intro allI impI, elim conjE)
  fix i j assume ij: "lo \<le> i" "i < j" "j < hi" "j \<noteq> pl"
  note D = ord_butD [OF assms(1)]
  have le: "cmp (xs ! Suc pl) (xs ! pl) \<le> 0" using gt cmp_antisym [of "xs ! Suc pl" "xs ! pl"] by simp
  show "cmp (BM_SWAP xs (Suc pl) pl ! i) (BM_SWAP xs (Suc pl) pl ! j) \<le> 0"
  proof (cases "j = Suc pl")
    case True
    then show ?thesis using ij assms le D [of i pl] by (auto simp: nth_swap)
  next
    case False
    then show ?thesis using ij assms D [of i j] D [of pl j] D [of "Suc pl" j] by (auto simp: nth_swap)
  qed
qed

lemma ord_but_stop:
  assumes "ord_but cmp lo hi pl xs" "pl \<le> lo \<or> cmp (xs ! (pl - 1)) (xs ! pl) \<le> 0" "pl < hi"
  shows "ord_on cmp lo hi xs"
  unfolding ord_on_def
proof (intro allI impI, elim conjE)
  fix i j assume ij: "lo \<le> i" "i < j" "j < hi"
  note D = ord_butD [OF assms(1)]
  show "cmp (xs ! i) (xs ! j) \<le> 0"
  proof (cases "j = pl")
    case True
    then have le: "cmp (xs ! (pl - 1)) (xs ! pl) \<le> 0" using assms(2) ij by auto
    show ?thesis
    proof (cases "i = pl - 1")
      case False
      then have "cmp (xs ! i) (xs ! (pl - 1)) \<le> 0" using ij True by (intro D) auto
      then show ?thesis using cmp_trans le True by blast
    qed (use le True in simp)
  qed (use D ij in blast)
qed

lemma insert_down_sorts:
  "ord_but cmp a hi pl xs \<Longrightarrow> a \<le> pl \<Longrightarrow> pl < hi \<Longrightarrow> hi \<le> length xs \<Longrightarrow>
     ord_on cmp a hi (insert_down cmp a pl xs) \<and> same_outside a hi xs (insert_down cmp a pl xs)"
proof (induction pl arbitrary: xs)
  case 0
  then show ?case using ord_but_stop [of a hi 0 xs] by simp
next
  case (Suc pl)
  show ?case
  proof (cases "Suc pl > a \<and> cmp (xs ! pl) (xs ! Suc pl) > 0")
    case True
    then have ob: "ord_but cmp a hi pl (BM_SWAP xs (Suc pl) pl)"
      using ord_but_swap [of a hi pl xs] Suc.prems by simp
    have so: "same_outside a hi xs (BM_SWAP xs (Suc pl) pl)"
      using True Suc.prems by (intro same_outside_swap) auto
    show ?thesis
      using True Suc.IH [OF ob] Suc.prems same_outside_trans [OF so] by simp
  next
    case False
    then show ?thesis using ord_but_stop [OF Suc.prems(1) _ Suc.prems(3)] by auto
  qed
qed

lemma ord_on_next: "ord_on cmp a pm xs \<Longrightarrow> ord_but cmp a (Suc pm) pm xs"
  by (simp add: ord_on_def ord_but_def)

lemma insert_all_sorts:
  "ord_on cmp a pm xs \<Longrightarrow> a \<le> pm \<Longrightarrow> a + n \<le> length xs \<Longrightarrow>
     ord_on cmp a (max pm (a + n)) (insert_all cmp a n pm xs) \<and> same_outside a (a + n) xs (insert_all cmp a n pm xs)"
proof (induction "a + n - pm" arbitrary: pm xs rule: less_induct)
  case less
  show ?case
  proof (cases "pm < a + n")
    case True
    let ?ys = "insert_down cmp a pm xs"
    have ys: "ord_on cmp a (Suc pm) ?ys" "same_outside a (Suc pm) xs ?ys"
      using insert_down_sorts [OF ord_on_next [OF less.prems(1)]] less.prems True by auto
    have so: "same_outside a (a + n) xs ?ys" using ys(2) True by (elim same_outside_mono) auto
    have "ord_on cmp a (max (Suc pm) (a + n)) (insert_all cmp a n (Suc pm) ?ys)
        \<and> same_outside a (a + n) ?ys (insert_all cmp a n (Suc pm) ?ys)"
      using less.prems True ys(1) so by (intro less.hyps) (auto dest: same_outside_length)
    then show ?thesis using True same_outside_trans [OF so] by (subst (1 2) insert_all.simps) (auto simp: max_def)
  next
    case False
    then show ?thesis using less.prems by (subst (1 2) insert_all.simps) (auto simp: max_def)
  qed
qed

end

section \<open>Partition\<close>

text \<open>Equal, smaller, unknown, greater and equal elements in this order.\<close>

definition part_inv :: "('a \<Rightarrow> 'a \<Rightarrow> int) \<Rightarrow> 'a \<Rightarrow> nat \<Rightarrow> nat \<Rightarrow> 'a list \<Rightarrow> nat \<Rightarrow> nat \<Rightarrow> nat \<Rightarrow> nat \<Rightarrow> bool" where
  "part_inv cmp p lo hi xs pa pb pc1 pd1 \<longleftrightarrow>
     lo \<le> pa \<and> pa \<le> pb \<and> pb \<le> pc1 \<and> pc1 \<le> pd1 \<and> pd1 \<le> hi \<and> hi \<le> length xs
     \<and> (\<forall>k. lo \<le> k \<and> k < pa \<longrightarrow> cmp (xs ! k) p = 0) \<and> (\<forall>k. pa \<le> k \<and> k < pb \<longrightarrow> cmp (xs ! k) p < 0)
     \<and> (\<forall>k. pc1 \<le> k \<and> k < pd1 \<longrightarrow> cmp (xs ! k) p > 0) \<and> (\<forall>k. pd1 \<le> k \<and> k < hi \<longrightarrow> cmp (xs ! k) p = 0)"

text \<open>The pivot is \<open>p\<close>, and if it is the first element, that element stays.\<close>

fun pv_ok :: "'a pivot \<Rightarrow> 'a \<Rightarrow> nat \<Rightarrow> 'a list \<Rightarrow> nat \<Rightarrow> nat \<Rightarrow> nat \<Rightarrow> bool" where
  "pv_ok (PvVal v) p lo xs pa pb pc1 \<longleftrightarrow> v = p"
| "pv_ok (PvAt i) p lo xs pa pb pc1 \<longleftrightarrow> i = lo \<and> xs ! lo = p \<and> (pa = lo \<longrightarrow> pb = lo \<and> lo < pc1)"

fun pv_past :: "'a pivot \<Rightarrow> 'a \<Rightarrow> nat \<Rightarrow> 'a list \<Rightarrow> nat \<Rightarrow> bool" where
  "pv_past (PvVal v) p lo xs pa \<longleftrightarrow> v = p"
| "pv_past (PvAt i) p lo xs pa \<longleftrightarrow> i = lo \<and> xs ! lo = p \<and> lo < pa"

lemma pv_ok_val: "pv_ok pv p lo xs pa pb pc1 \<Longrightarrow> pv_val pv xs = p"
  by (cases pv) auto

lemma pv_past_val: "pv_past pv p lo xs pa \<Longrightarrow> pv_val pv xs = p"
  by (cases pv) auto

context comparator
begin

lemma part_inv_up_eq:
  assumes "part_inv cmp p lo hi xs pa pb pc1 pd1" "pb < pc1" "cmp (xs ! pb) p = 0"
  shows "part_inv cmp p lo hi (BM_SWAP xs pa pb) (pa + 1) (pb + 1) pc1 pd1"
proof -
  have lt: "pa < length xs" "pb < length xs" using assms(1,2) by (auto simp: part_inv_def)
  show ?thesis using assms unfolding part_inv_def by (auto simp: nth_swap [OF lt] less_Suc_eq)
qed

lemma part_inv_up_less:
  assumes "part_inv cmp p lo hi xs pa pb pc1 pd1" "pb < pc1" "cmp (xs ! pb) p < 0"
  shows "part_inv cmp p lo hi xs pa (pb + 1) pc1 pd1"
  using assms unfolding part_inv_def by (auto simp: less_Suc_eq)

lemma part_inv_down_eq:
  assumes "part_inv cmp p lo hi xs pa pb pc1 pd1" "pb < pc1" "cmp (xs ! (pc1 - 1)) p = 0"
  shows "part_inv cmp p lo hi (BM_SWAP xs (pc1 - 1) (pd1 - 1)) pa pb (pc1 - 1) (pd1 - 1)"
proof -
  obtain c where c: "pc1 = Suc c" using assms(2) by (cases pc1) auto
  obtain d where d: "pd1 = Suc d" using assms(1) c by (cases pd1) (auto simp: part_inv_def)
  have b: "lo \<le> pa" "pa \<le> pb" "pb \<le> c" "c \<le> d" "d < hi" "hi \<le> length xs"
    using assms(1,2) by (auto simp: part_inv_def c d)
  then have lt: "c < length xs" "d < length xs" by simp_all
  have G: "cmp (xs ! k) p > 0" if "c < k" "k \<le> d" for k using assms(1) that by (simp add: part_inv_def c d Suc_le_eq)
  have E: "cmp (xs ! k) p = 0" if "d < k" "k < hi" for k using assms(1) that by (simp add: part_inv_def c d Suc_le_eq)
  have L: "\<forall>k. lo \<le> k \<and> k < pa \<longrightarrow> cmp (xs ! k) p = 0" "\<forall>k. pa \<le> k \<and> k < pb \<longrightarrow> cmp (xs ! k) p < 0"
    using assms(1) by (simp_all add: part_inv_def)
  have 1: "cmp (BM_SWAP xs c d ! k) p > 0" if "c \<le> k" "k < d" for k
    using that G [of k] G [of d] by (cases "k = c") (simp_all add: nth_swap [OF lt])
  have 2: "cmp (BM_SWAP xs c d ! k) p = 0" if "d \<le> k" "k < hi" for k
    using that b(4) E [of k] assms(3) by (cases "k = d") (simp_all add: nth_swap [OF lt] c)
  have 3: "BM_SWAP xs c d ! k = xs ! k" if "k < c" for k using that b(4) by (simp add: nth_swap [OF lt])
  show ?thesis unfolding part_inv_def c d using b L 1 2 3 by auto
qed

lemma part_inv_down_greater:
  assumes "part_inv cmp p lo hi xs pa pb pc1 pd1" "pb < pc1" "cmp (xs ! (pc1 - 1)) p > 0"
  shows "part_inv cmp p lo hi xs pa pb (pc1 - 1) pd1"
proof -
  obtain c where c: "pc1 = Suc c" using assms(2) by (cases pc1) auto
  have "cmp (xs ! k) p > 0" if "c \<le> k" "k < pd1" for k
    using that assms(1,3) by (cases "k = c") (simp_all add: part_inv_def c)
  then show ?thesis using assms(1,2) unfolding part_inv_def c by auto
qed

lemma part_inv_exchange:
  assumes "part_inv cmp p lo hi xs pa pb pc1 pd1" "pb < pc1" "cmp (xs ! pb) p > 0" "cmp (xs ! (pc1 - 1)) p < 0"
  shows "part_inv cmp p lo hi (BM_SWAP xs pb (pc1 - 1)) pa (pb + 1) (pc1 - 1) pd1"
proof -
  obtain c where c: "pc1 = Suc c" using assms(2) by (cases pc1) auto
  have "pb \<noteq> c" using assms(3,4) c by auto
  then have b: "lo \<le> pa" "pa \<le> pb" "pb < c" "c < pd1" "pd1 \<le> hi" "hi \<le> length xs"
    using assms(1,2) by (auto simp: part_inv_def c)
  then have lt: "pb < length xs" "c < length xs" by simp_all
  have 1: "cmp (BM_SWAP xs pb c ! k) p > 0" if "c \<le> k" "k < pd1" for k
    using that b assms(1,3) by (cases "k = c") (simp_all add: nth_swap [OF lt] part_inv_def c)
  have 2: "cmp (BM_SWAP xs pb c ! k) p < 0" if "pa \<le> k" "k < pb + 1" for k
    using that b assms(1,4) by (cases "k = pb") (simp_all add: nth_swap [OF lt] part_inv_def c)
  have 3: "BM_SWAP xs pb c ! k = xs ! k" if "k < pb \<or> c < k" for k using that b by (auto simp: nth_swap [OF lt])
  show ?thesis using assms(1) b 1 2 3 unfolding part_inv_def c by auto
qed

lemma scan_up_inv:
  "part_inv cmp p lo hi xs pa pb pc1 pd1 \<Longrightarrow> pv_ok pv p lo xs pa pb pc1 \<Longrightarrow>
   scan_up cmp pv pc1 xs pa pb = (xs', pa', pb') \<Longrightarrow>
     part_inv cmp p lo hi xs' pa' pb' pc1 pd1 \<and> pv_past pv p lo xs' pa' \<and> same_outside lo hi xs xs'
     \<and> (pb' < pc1 \<longrightarrow> cmp (xs' ! pb') p > 0)"
proof (induction "pc1 - pb" arbitrary: xs pa pb rule: less_induct)
  case less
  note inv = less.prems(1) and ok = less.prems(2)
  note val = pv_ok_val [OF ok]
  have b: "lo \<le> pa" "pa \<le> pb" "pc1 \<le> hi" "hi \<le> length xs" using inv by (auto simp: part_inv_def)
  consider (eq) "pb < pc1" "cmp (xs ! pb) p = 0" | (ls) "pb < pc1" "cmp (xs ! pb) p < 0"
    | (stop) "\<not> (pb < pc1 \<and> cmp (xs ! pb) p \<le> 0)" by linarith
  then show ?case
  proof cases
    case eq
    have so: "same_outside lo hi xs (BM_SWAP xs pa pb)" using b eq by (intro same_outside_swap) auto
    have "pv_ok pv p lo (BM_SWAP xs pa pb) (pa + 1) (pb + 1) pc1"
      using ok b eq by (cases pv) (auto simp: nth_swap)
    moreover have "scan_up cmp pv pc1 (BM_SWAP xs pa pb) (pa + 1) (pb + 1) = (xs', pa', pb')"
      using less.prems(3) eq val by (subst (asm) scan_up.simps) simp
    moreover have "pc1 - (pb + 1) < pc1 - pb" using eq by simp
    ultimately show ?thesis
      using less.hyps part_inv_up_eq [OF inv eq] same_outside_trans [OF so] by blast
  next
    case ls
    have "pv_ok pv p lo xs pa (pb + 1) pc1" using ok b ls by (cases pv) auto
    moreover have "scan_up cmp pv pc1 xs pa (pb + 1) = (xs', pa', pb')"
      using less.prems(3) ls val by (subst (asm) scan_up.simps) simp
    moreover have "pc1 - (pb + 1) < pc1 - pb" using ls by simp
    ultimately show ?thesis using less.hyps part_inv_up_less [OF inv ls] by blast
  next
    case stop
    then have e: "xs' = xs" "pa' = pa" "pb' = pb" using less.prems(3) val by (subst (asm) scan_up.simps; auto)+
    have "pv_past pv p lo xs pa" using ok b stop by (cases pv) auto
    then show ?thesis using inv stop unfolding e by auto
  qed
qed

lemma scan_down_inv:
  "part_inv cmp p lo hi xs pa pb pc1 pd1 \<Longrightarrow> pv_past pv p lo xs pa \<Longrightarrow>
   scan_down cmp pv pb xs pc1 pd1 = (xs', pc1', pd1') \<Longrightarrow>
     part_inv cmp p lo hi xs' pa pb pc1' pd1' \<and> pv_past pv p lo xs' pa \<and> same_outside lo hi xs xs'
     \<and> (pb < pc1' \<longrightarrow> cmp (xs' ! (pc1' - 1)) p < 0) \<and> (\<forall>k < pc1'. xs' ! k = xs ! k) \<and> pc1' \<le> pc1"
proof (induction "pc1 - pb" arbitrary: xs pc1 pd1 rule: less_induct)
  case less
  note inv = less.prems(1) and ok = less.prems(2)
  note val = pv_past_val [OF ok]
  have b: "lo \<le> pa" "pa \<le> pb" "pc1 \<le> pd1" "pd1 \<le> hi" "hi \<le> length xs" using inv by (auto simp: part_inv_def)
  consider (eq) "pb < pc1" "cmp (xs ! (pc1 - 1)) p = 0" | (gr) "pb < pc1" "cmp (xs ! (pc1 - 1)) p > 0"
    | (stop) "\<not> (pb < pc1 \<and> cmp (xs ! (pc1 - 1)) p \<ge> 0)" by linarith
  then show ?case
  proof cases
    case eq
    let ?ys = "BM_SWAP xs (pc1 - 1) (pd1 - 1)"
    have so: "same_outside lo hi xs ?ys" using b eq by (intro same_outside_swap) auto
    have low: "\<forall>k < pc1 - 1. ?ys ! k = xs ! k" using b eq by (auto simp: nth_swap)
    have "pv_past pv p lo ?ys pa" using ok b eq low by (cases pv) auto
    moreover have "scan_down cmp pv pb ?ys (pc1 - 1) (pd1 - 1) = (xs', pc1', pd1')"
      using less.prems(3) eq val by (subst (asm) scan_down.simps) simp
    moreover have "pc1 - 1 - pb < pc1 - pb" using eq by simp
    ultimately have "part_inv cmp p lo hi xs' pa pb pc1' pd1' \<and> pv_past pv p lo xs' pa \<and> same_outside lo hi ?ys xs'
     \<and> (pb < pc1' \<longrightarrow> cmp (xs' ! (pc1' - 1)) p < 0) \<and> (\<forall>k < pc1'. xs' ! k = ?ys ! k) \<and> pc1' \<le> pc1 - 1"
      using less.hyps part_inv_down_eq [OF inv eq] by blast
    then show ?thesis using same_outside_trans [OF so] low by auto
  next
    case gr
    have "scan_down cmp pv pb xs (pc1 - 1) pd1 = (xs', pc1', pd1')"
      using less.prems(3) gr val by (subst (asm) scan_down.simps) simp
    moreover have "pc1 - 1 - pb < pc1 - pb" using gr by simp
    ultimately have "part_inv cmp p lo hi xs' pa pb pc1' pd1' \<and> pv_past pv p lo xs' pa \<and> same_outside lo hi xs xs'
     \<and> (pb < pc1' \<longrightarrow> cmp (xs' ! (pc1' - 1)) p < 0) \<and> (\<forall>k < pc1'. xs' ! k = xs ! k) \<and> pc1' \<le> pc1 - 1"
      using less.hyps part_inv_down_greater [OF inv gr] ok by blast
    then show ?thesis by auto
  next
    case stop
    then have e: "xs' = xs" "pc1' = pc1" "pd1' = pd1" using less.prems(3) val by (subst (asm) scan_down.simps; auto)+
    show ?thesis using inv ok stop unfolding e by auto
  qed
qed

lemma part_loop_inv:
  "part_inv cmp p lo hi xs pa pb pc1 pd1 \<Longrightarrow> pv_ok pv p lo xs pa pb pc1 \<Longrightarrow>
   part_loop cmp pv xs pa pb pc1 pd1 = (xs', pa', pb', pc1', pd1') \<Longrightarrow>
     part_inv cmp p lo hi xs' pa' pb' pc1' pd1' \<and> pb' = pc1' \<and> same_outside lo hi xs xs'"
proof (induction "pc1 - pb" arbitrary: xs pa pb pc1 pd1 rule: less_induct)
  case less
  obtain xs1 pa1 pb1 where up: "scan_up cmp pv pc1 xs pa pb = (xs1, pa1, pb1)" by (metis prod_cases3)
  obtain xs2 pc2 pd2 where dn: "scan_down cmp pv pb1 xs1 pc1 pd1 = (xs2, pc2, pd2)" by (metis prod_cases3)
  note up' = scan_up_inv [OF less.prems(1,2) up]
  then have dn': "part_inv cmp p lo hi xs2 pa1 pb1 pc2 pd2" "pv_past pv p lo xs2 pa1" "same_outside lo hi xs1 xs2"
    "pb1 < pc2 \<Longrightarrow> cmp (xs2 ! (pc2 - 1)) p < 0" "\<And>k. k < pc2 \<Longrightarrow> xs2 ! k = xs1 ! k" "pc2 \<le> pc1"
    using scan_down_inv [OF _ _ dn] by auto
  have so: "same_outside lo hi xs xs2" using up' same_outside_trans [OF _ dn'(3)] by blast
  have b: "lo \<le> pa1" "pa1 \<le> pb1" "pb1 \<le> pc2" "pc2 \<le> hi" "hi \<le> length xs2" using dn'(1) by (auto simp: part_inv_def)
  show ?case
  proof (cases "pb1 \<ge> pc2")
    case True
    then show ?thesis using less.prems(3) dn'(1) so b by (subst (asm) part_loop.simps) (auto simp add: up dn)
  next
    case False
    let ?ys = "BM_SWAP xs2 pb1 (pc2 - 1)"
    have gt: "cmp (xs2 ! pb1) p > 0" using up' dn'(5,6) False by simp
    have inv: "part_inv cmp p lo hi ?ys pa1 (pb1 + 1) (pc2 - 1) pd2"
      using False dn'(1,4) gt by (intro part_inv_exchange) auto
    have "pv_ok pv p lo ?ys pa1 (pb1 + 1) (pc2 - 1)" using dn'(2) b False by (cases pv) (auto simp: nth_swap)
    moreover have "pc2 - 1 - (pb1 + 1) < pc1 - pb"
      using scan_up_grows [OF up] dn'(6) False by simp
    moreover have "part_loop cmp pv ?ys pa1 (pb1 + 1) (pc2 - 1) pd2 = (xs', pa', pb', pc1', pd1')"
      using less.prems(3) False by (subst (asm) part_loop.simps) (simp add: up dn)
    ultimately have "part_inv cmp p lo hi xs' pa' pb' pc1' pd1' \<and> pb' = pc1' \<and> same_outside lo hi ?ys xs'"
      using less.hyps inv by blast
    moreover have "same_outside lo hi xs2 ?ys" using b False by (intro same_outside_swap) auto
    ultimately show ?thesis using so same_outside_trans by blast
  qed
qed

text \<open>Smaller elements, elements equal to the pivot, greater elements.\<close>

definition parted :: "nat \<Rightarrow> nat \<Rightarrow> nat \<Rightarrow> nat \<Rightarrow> 'a \<Rightarrow> 'a list \<Rightarrow> bool" where
  "parted a n s1 s2 p ys \<longleftrightarrow>
     (\<forall>k. a \<le> k \<and> k < a + s1 \<longrightarrow> cmp (ys ! k) p < 0)
     \<and> (\<forall>k. a + s1 \<le> k \<and> k < a + n - s2 \<longrightarrow> cmp (ys ! k) p = 0)
     \<and> (\<forall>k. a + n - s2 \<le> k \<and> k < a + n \<longrightarrow> cmp (ys ! k) p > 0)"

lemma vecswap_left:
  assumes "part_inv cmp p lo hi xs pa pb pb pd1"
  defines "s \<equiv> min (pa - lo) (pb - pa)"
  shows "lo \<le> k \<Longrightarrow> k < lo + (pb - pa) \<Longrightarrow> cmp (BM_VECSWAP xs lo (pb - s) s ! k) p < 0"
    and "lo + (pb - pa) \<le> k \<Longrightarrow> k < pb \<Longrightarrow> cmp (BM_VECSWAP xs lo (pb - s) s ! k) p = 0"
    and "pb \<le> k \<Longrightarrow> BM_VECSWAP xs lo (pb - s) s ! k = xs ! k"
proof -
  have b: "lo \<le> pa" "pa \<le> pb" "pb \<le> length xs" using assms(1) by (auto simp: part_inv_def)
  have E: "\<And>k. lo \<le> k \<Longrightarrow> k < pa \<Longrightarrow> cmp (xs ! k) p = 0" and L: "\<And>k. pa \<le> k \<Longrightarrow> k < pb \<Longrightarrow> cmp (xs ! k) p < 0"
    using assms(1) by (auto simp: part_inv_def)
  have sb: "lo + s \<le> pb - s" "pb - s + s \<le> length xs" using b unfolding s_def by auto
  note nv = nth_vecswap [OF sb]
  show "cmp (BM_VECSWAP xs lo (pb - s) s ! k) p < 0" if "lo \<le> k" "k < lo + (pb - pa)"
    unfolding nv using that b s_def by (auto intro!: L)
  show "cmp (BM_VECSWAP xs lo (pb - s) s ! k) p = 0" if "lo + (pb - pa) \<le> k" "k < pb"
    unfolding nv using that b s_def by (auto intro!: E simp: min_def split: if_splits)
  show "BM_VECSWAP xs lo (pb - s) s ! k = xs ! k" if "pb \<le> k" unfolding nv using that b sb by auto
qed

lemma vecswap_right:
  assumes "part_inv cmp p lo hi xs pa pb pb pd1" "\<And>k. pb \<le> k \<Longrightarrow> ys ! k = xs ! k" "length ys = length xs"
  defines "s \<equiv> min (pd1 - pb) (hi - pd1)"
  shows "pb \<le> k \<Longrightarrow> k < hi - (pd1 - pb) \<Longrightarrow> cmp (BM_VECSWAP ys pb (hi - s) s ! k) p = 0"
    and "hi - (pd1 - pb) \<le> k \<Longrightarrow> k < hi \<Longrightarrow> cmp (BM_VECSWAP ys pb (hi - s) s ! k) p > 0"
    and "k < pb \<Longrightarrow> BM_VECSWAP ys pb (hi - s) s ! k = ys ! k"
proof -
  have b: "pb \<le> pd1" "pd1 \<le> hi" "hi \<le> length ys" using assms(1,3) by (auto simp: part_inv_def)
  have G: "\<And>k. pb \<le> k \<Longrightarrow> k < pd1 \<Longrightarrow> cmp (ys ! k) p > 0" and E: "\<And>k. pd1 \<le> k \<Longrightarrow> k < hi \<Longrightarrow> cmp (ys ! k) p = 0"
    using assms(1,2) by (auto simp: part_inv_def)
  have sb: "pb + s \<le> hi - s" "hi - s + s \<le> length ys" using b unfolding s_def by auto
  note nv = nth_vecswap [OF sb]
  show "cmp (BM_VECSWAP ys pb (hi - s) s ! k) p = 0" if "pb \<le> k" "k < hi - (pd1 - pb)"
    unfolding nv using that b s_def by (auto intro!: E simp: min_def split: if_splits)
  show "cmp (BM_VECSWAP ys pb (hi - s) s ! k) p > 0" if "hi - (pd1 - pb) \<le> k" "k < hi"
    unfolding nv using that b s_def by (auto intro!: G simp: min_def split: if_splits)
  show "BM_VECSWAP ys pb (hi - s) s ! k = ys ! k" if "k < pb" unfolding nv using that sb by auto
qed

lemma med3_mem: "bm_med3 cmp xs a b c \<in> {a, b, c}"
  by (simp add: bm_med3_def)

lemma choose_pivot_range:
  assumes "0 < n"
  shows "a \<le> choose_pivot cmp xs a n \<and> choose_pivot cmp xs a n < a + n"
proof -
  have R: "a \<le> bm_med3 cmp xs i j k \<and> bm_med3 cmp xs i j k < a + n"
    if "a \<le> i \<and> i < a + n" "a \<le> j \<and> j < a + n" "a \<le> k \<and> k < a + n" for i j k
    using med3_mem [of xs i j k] that by auto
  have m: "a \<le> a + n div 2 \<and> a + n div 2 < a + n" and l: "a \<le> a \<and> a < a + n"
    and h: "a \<le> a + (n - 1) \<and> a + (n - 1) < a + n" using assms by auto
  define s where "s = n div 8"
  have s: "8 * s \<le> n" unfolding s_def by simp
  show ?thesis
    unfolding choose_pivot_def Let_def s_def [symmetric] using assms s m l h
    by (simp, intro conjI impI R) auto
qed

lemma same_outside_sym: "same_outside lo hi xs ys \<Longrightarrow> same_outside lo hi ys xs"
  by (simp add: same_outside_def)

lemma bm_partition_parts:
  assumes n: "0 < n" "a + n \<le> length xs" and r: "bm_partition cmp swaptype xs a n = (ys, s1, s2)"
  shows "same_outside a (a + n) xs ys \<and> s1 + s2 < n \<and> (\<exists>p. parted a n s1 s2 p ys)"
proof -
  let ?pm = "choose_pivot cmp xs a n"
  define p where "p = xs ! ?pm"
  obtain pv xs0 where pv: "BM_PVINIT swaptype xs a ?pm = (pv, xs0)" by fastforce
  obtain xs1 pa pb pc1 pd1 where pl: "part_loop cmp pv xs0 a a (a + n) (a + n) = (xs1, pa, pb, pc1, pd1)"
    by (metis prod_cases5)
  have pm: "a \<le> ?pm" "?pm < a + n" using choose_pivot_range [OF n(1)] by blast+
  have so0: "same_outside a (a + n) xs xs0"
    using pv pm n by (auto simp: BM_PVINIT_def split: if_splits intro!: same_outside_swap)
  have ok: "pv_ok pv p a xs0 a a (a + n)"
    using pv pm n by (auto simp: BM_PVINIT_def p_def nth_swap split: if_splits)
  have "part_inv cmp p a (a + n) xs0 a a (a + n) (a + n)"
    using n same_outside_length [OF so0] by (simp add: part_inv_def)
  from part_loop_inv [OF this ok pl] have inv: "part_inv cmp p a (a + n) xs1 pa pb pb pd1"
    and pc1: "pc1 = pb" and so1: "same_outside a (a + n) xs0 xs1" by auto
  have b: "a \<le> pa" "pa \<le> pb" "pb \<le> pd1" "pd1 \<le> a + n" "a + n \<le> length xs1" using inv by (auto simp: part_inv_def)
  define s t where "s = min (pa - a) (pb - pa)" and "t = min (pd1 - pb) (a + n - pd1)"
  define zs where "zs = BM_VECSWAP xs1 a (pb - s) s"
  have res: "ys = BM_VECSWAP zs pb (a + n - t) t" "s1 = pb - pa" "s2 = pd1 - pb"
    using r unfolding bm_partition_def by (auto simp add: pv pl pc1 Let_def s_def t_def zs_def)
  note left = vecswap_left [OF inv, folded s_def, folded zs_def]
  have lz: "length zs = length xs1" by (simp add: zs_def)
  note right = vecswap_right [OF inv left(3) lz, folded t_def, folded res(1)]
  have "same_outside a (a + n) xs1 zs" unfolding zs_def using b by (intro same_outside_vecswap) (auto simp: s_def)
  moreover have "same_outside a (a + n) zs ys" unfolding res(1) using b lz by (intro same_outside_vecswap) (auto simp: t_def)
  ultimately have so: "same_outside a (a + n) xs ys" using so0 so1 same_outside_trans by blast
  have e: "a + n - (pd1 - pb) = a + n - s2" using res by simp
  have pt: "parted a n s1 s2 p ys"
    unfolding parted_def
  proof (intro conjI allI impI; elim conjE)
    show "cmp (ys ! k) p < 0" if "a \<le> k" "k < a + s1" for k
      using left(1) [of k] right(3) [of k] that b res by simp
    show "cmp (ys ! k) p = 0" if "a + s1 \<le> k" "k < a + n - s2" for k
    proof (cases "k < pb")
      case True
      then show ?thesis using left(2) [of k] right(3) [of k] that res by simp
    next
      case False
      then show ?thesis using right(1) [of k] that e by simp
    qed
    show "cmp (ys ! k) p > 0" if "a + n - s2 \<le> k" "k < a + n" for k
      using right(2) [of k] that e by simp
  qed
  obtain k where k: "a \<le> k" "k < a + n" "p = ys ! k"
    using range_elem [OF same_outside_sym [OF so] _ pm] n same_outside_length [OF so] unfolding p_def by metis
  then have "cmp (ys ! k) p = 0" by simp
  then have "a + s1 \<le> k" "k < a + n - s2" using pt k unfolding parted_def by (metis less_irrefl not_le)+
  then have "s1 + s2 < n" by arith
  with so pt show ?thesis by blast
qed

end

section \<open>The recursion\<close>

text \<open>\<open>ys\<close> is \<open>xs\<close> with the range sorted.\<close>

definition sorts_range :: "('a \<Rightarrow> 'a \<Rightarrow> int) \<Rightarrow> nat \<Rightarrow> nat \<Rightarrow> 'a list \<Rightarrow> 'a list \<Rightarrow> bool" where
  "sorts_range cmp lo hi xs ys \<longleftrightarrow> same_outside lo hi xs ys \<and> ord_on cmp lo hi ys"

context comparator
begin

lemma ord_on_short: "n \<le> 1 \<Longrightarrow> ord_on cmp a (a + n) xs"
  by (auto simp: ord_on_def)

lemma parted_keep:
  assumes "parted a n s1 s2 p xs" "s1 + s2 \<le> n" "a + n \<le> length xs"
    and "same_outside lo hi xs ys" "(lo = a \<and> hi = a + s1) \<or> (lo = a + n - s2 \<and> hi = a + n)"
  shows "parted a n s1 s2 p ys"
proof -
  have "\<exists>k'. ys ! k = xs ! k' \<and> (if lo \<le> k \<and> k < hi then lo \<le> k' \<and> k' < hi else k' = k)" for k
  proof (cases "lo \<le> k \<and> k < hi")
    case True
    have "hi \<le> length xs" using assms by auto
    from range_elem [OF assms(4) this] True show ?thesis by metis
  qed (use assms(4) in \<open>auto simp: same_outside_def\<close>)
  then obtain f where f: "\<And>k. ys ! k = xs ! f k" "\<And>k. if lo \<le> k \<and> k < hi then lo \<le> f k \<and> f k < hi else f k = k"
    by metis
  have F: "a \<le> k \<and> k < a + s1 \<Longrightarrow> a \<le> f k \<and> f k < a + s1"
    "a + s1 \<le> k \<and> k < a + n - s2 \<Longrightarrow> a + s1 \<le> f k \<and> f k < a + n - s2"
    "a + n - s2 \<le> k \<and> k < a + n \<Longrightarrow> a + n - s2 \<le> f k \<and> f k < a + n" for k
    using f(2) [of k] assms(2,5) by (auto split: if_splits)
  show ?thesis using assms(1) F unfolding parted_def f(1) by blast
qed

lemma ord_glue:
  assumes pt: "parted a n s1 s2 p ys" and "ord_on cmp a (a + s1) ys" "ord_on cmp (a + n - s2) (a + n) ys" "s1 + s2 \<le> n"
  shows "ord_on cmp a (a + n) ys"
  unfolding ord_on_def
proof (intro allI impI, elim conjE)
  fix i j assume ij: "a \<le> i" "i < j" "j < a + n"
  show "cmp (ys ! i) (ys ! j) \<le> 0"
  proof (cases "j < a + s1 \<or> a + n - s2 \<le> i")
    case True
    then show ?thesis using assms(2,3) ij unfolding ord_on_def by blast
  next
    case False
    have "cmp (ys ! i) p \<le> 0" using pt ij False unfolding parted_def by (metis less_imp_le linorder_not_less order.refl)
    moreover have "cmp (ys ! j) p \<ge> 0" using pt ij False unfolding parted_def by (metis less_imp_le linorder_not_less order.refl order.strict_trans1)
    ultimately show ?thesis using cmp_trans cmp_le_ge by blast
  qed
qed

lemma ord_on_keep: "ord_on cmp lo hi xs \<Longrightarrow> same_outside l h xs ys \<Longrightarrow> hi \<le> l \<or> h \<le> lo \<Longrightarrow> ord_on cmp lo hi ys"
  unfolding ord_on_def same_outside_def by (metis le_trans less_imp_le order.strict_trans2 order.strict_trans1)

lemma sorts_parts:
  assumes "parted a n s1 s2 p ys" "s1 + s2 \<le> n" "a + n \<le> length ys"
    and "sorts_range cmp l1 h1 ys zs" "sorts_range cmp l2 h2 zs ws"
    and "l1 = a \<and> h1 = a + s1 \<and> l2 = a + n - s2 \<and> h2 = a + n \<or> l2 = a \<and> h2 = a + s1 \<and> l1 = a + n - s2 \<and> h1 = a + n"
  shows "sorts_range cmp a (a + n) ys ws"
proof -
  have so: "same_outside l1 h1 ys zs" "same_outside l2 h2 zs ws" and od: "ord_on cmp l1 h1 zs" "ord_on cmp l2 h2 ws"
    using assms(4,5) by (auto simp: sorts_range_def)
  have "same_outside a (a + n) ys zs" "same_outside a (a + n) zs ws"
    using so assms(2,6) by (auto elim: same_outside_mono)
  then have "same_outside a (a + n) ys ws" by (rule same_outside_trans)
  moreover have "parted a n s1 s2 p zs" using parted_keep [OF assms(1,2,3) so(1)] assms(6) by blast
  then have "parted a n s1 s2 p ws"
    using parted_keep [OF _ assms(2) _ so(2)] assms(3,6) same_outside_length [OF so(1)] by auto
  moreover have "h1 \<le> l2 \<or> h2 \<le> l1" using assms(2,6) by linarith
  then have "ord_on cmp l1 h1 ws" by (rule ord_on_keep [OF od(1) so(2)])
  ultimately show ?thesis using ord_glue od(2) assms(2,6) unfolding sorts_range_def by blast
qed

lemma bm_qsort_sorts:
  "a + n \<le> length xs \<Longrightarrow> \<exists>ys. bm_qsort cmp base es xs a n = Some ys \<and> sorts_range cmp a (a + n) xs ys"
proof (induction n arbitrary: xs a rule: less_induct)
  case (less n)
  show ?case
  proof (cases "n < 7")
    case True
    have "ord_on cmp a (max (a + 1) (a + n)) (insert_all cmp a n (a + 1) xs)
        \<and> same_outside a (a + n) xs (insert_all cmp a n (a + 1) xs)"
      using less.prems by (intro insert_all_sorts) (auto simp: ord_on_def)
    then have "sorts_range cmp a (a + n) xs (insert_all cmp a n (a + 1) xs)"
      by (auto simp: sorts_range_def ord_on_def)
    with True show ?thesis by (subst bm_qsort.simps) simp
  next
    case False
    obtain ys s1 s2 where pt: "bm_partition cmp (BM_SWAPINIT (base + a * es) es) xs a n = (ys, s1, s2)"
      by (metis prod_cases3)
    obtain p where so: "same_outside a (a + n) xs ys" and s: "s1 + s2 < n" and p: "parted a n s1 s2 p ys"
      using bm_partition_parts [OF _ less.prems pt] False by auto
    have len: "length ys = length xs" by (rule same_outside_length [OF so])
    let ?sort = "\<lambda>zs b m. if m > 1 then bm_qsort cmp base es zs b m else Some zs"
    have sub: "\<exists>ws. ?sort zs b m = Some ws \<and> sorts_range cmp b (b + m) zs ws"
      if "m \<le> s1 + s2" "b + m \<le> length zs" for zs b m
      using less.IH [of m b zs] that s ord_on_short [of m b zs] by (auto simp: sorts_range_def)
    have fin: "sorts_range cmp a (a + n) xs ws" if "sorts_range cmp a (a + n) ys ws" for ws
      using that so same_outside_trans unfolding sorts_range_def by blast
    have e: "a + n - s2 + s2 = a + n" using s by simp
    show ?thesis
    proof (cases "s1 < s2")
      case True
      obtain zs where zs: "?sort ys a s1 = Some zs" "sorts_range cmp a (a + s1) ys zs"
        using sub [of s1 a ys] less.prems len s by auto
      then have "length zs = length ys" by (simp add: sorts_range_def same_outside_def)
      then obtain ws where ws: "?sort zs (a + n - s2) s2 = Some ws" "sorts_range cmp (a + n - s2) (a + n) zs ws"
        using sub [of s2 "a + n - s2" zs] less.prems len s unfolding e by auto
      have "sorts_range cmp a (a + n) ys ws"
        using sorts_parts [OF p _ _ zs(2) ws(2)] less.prems len s by simp
      then show ?thesis using fin False True zs(1) ws(1) pt by (subst bm_qsort.simps) simp
    next
      case ge: False
      obtain zs where zs: "?sort ys (a + n - s2) s2 = Some zs" "sorts_range cmp (a + n - s2) (a + n) ys zs"
        using sub [of s2 "a + n - s2" ys] less.prems len s unfolding e by auto
      then have "length zs = length ys" by (simp add: sorts_range_def same_outside_def)
      then obtain ws where ws: "?sort zs a s1 = Some ws" "sorts_range cmp a (a + s1) zs ws"
        using sub [of s1 a zs] less.prems len s by auto
      have "sorts_range cmp a (a + n) ys ws"
        using sorts_parts [OF p _ _ zs(2) ws(2)] less.prems len s by simp
      then show ?thesis using fin False ge zs(1) ws(1) pt by (subst bm_qsort.simps) simp
    qed
  qed
qed

lemma ord_on_sorted: "ord_on cmp 0 (length xs) xs \<Longrightarrow> sorted_wrt (\<lambda>a b. cmp a b \<le> 0) xs"
  by (simp add: ord_on_def sorted_wrt_iff_nth_less)

end

text \<open>C16: for every order, every alignment and every element size, \<open>ssort\<close> returns, and the result is a
  sorted permutation of the array; with \<open>nmemb\<close> smaller than the array, the elements behind it are
  untouched.\<close>

theorem ssort_sorts:
  assumes "comparator compar" "nmemb \<le> length xs"
  shows "\<exists>ys. ssort base xs nmemb es compar = Some ys \<and> length ys = length xs
    \<and> mset (take nmemb ys) = mset (take nmemb xs) \<and> drop nmemb ys = drop nmemb xs
    \<and> sorted_wrt (\<lambda>a b. compar a b \<le> 0) (take nmemb ys)"
proof -
  obtain ys where ys: "ssort base xs nmemb es compar = Some ys" "sorts_range compar 0 nmemb xs ys"
    using comparator.bm_qsort_sorts [OF assms(1), of 0 nmemb xs base es] assms(2) by (auto simp: ssort_def)
  then have so: "same_outside 0 nmemb xs ys" and od: "ord_on compar 0 nmemb ys" by (auto simp: sorts_range_def)
  note len = same_outside_length [OF so]
  have "mset (take nmemb ys) = mset (take nmemb xs)" using same_outside_range [OF so assms(2)] by simp
  moreover have "drop nmemb ys = drop nmemb xs" using so len by (intro nth_equalityI) (auto simp: same_outside_def)
  moreover have "sorted_wrt (\<lambda>a b. compar a b \<le> 0) (take nmemb ys)"
    using od len assms(2) by (simp add: ord_on_def sorted_wrt_iff_nth_less)
  ultimately show ?thesis using ys(1) len by blast
qed

theorem ssort_sorts_witness:
  "\<exists>ys. ssort 64 [3, 1, 2, 9, 7, 5, 8, 0 :: int] 7 8 (\<lambda>a b. if a < b then -1 else if a > b then 1 else 0) = Some ys
    \<and> length ys = length [3, 1, 2, 9, 7, 5, 8, 0 :: int] \<and> mset (take 7 ys) = mset (take 7 [3, 1, 2, 9, 7, 5, 8, 0])
    \<and> drop 7 ys = drop 7 [3, 1, 2, 9, 7, 5, 8, 0]
    \<and> sorted_wrt (\<lambda>a b. (if a < b then -1 else if a > b then 1 else 0) \<le> (0 :: int)) (take 7 ys)"
  by (rule ssort_sorts) (unfold_locales, auto split: if_splits)

end
