(* ===== verification/XArray.thy ===== *)
theory XArray
  imports CSort_Props
begin

text \<open>
  The growable array of \<open>coregrind/m_xarray.c\<close>.

  The record has the fields of \<open>struct _XArray\<close> but for the allocator and the cost centre. \<open>arr\<close> is
  \<open>None\<close> for the null pointer and otherwise the allocated elements; an element that was never
  written is \<open>None\<close>, and reading it is a failure, as is a failing assertion (the outer \<open>None\<close>). The
  allocator does not fail and returns a non-null pointer also for a size of zero. Sizes and positions
  are far below the range of \<open>Word\<close>; arguments are integers because the assertions test for negative
  ones.
\<close>

section \<open>The data structure\<close>

record 'e XArray =
  cmpFn :: "('e \<Rightarrow> 'e \<Rightarrow> int) option"
  elemSzB :: nat
  arr :: "'e option list option"
  usedsizeE :: nat
  totsizeE :: nat
  sorted_flag :: bool

definition newXA :: "int \<Rightarrow> 'e XArray option" where
  "newXA sz =
     do { vg_assert (sz > 0);
          Some \<lparr>cmpFn = None, elemSzB = nat sz, arr = None, usedsizeE = 0, totsizeE = 0, sorted_flag = False\<rparr> }"

definition cloneXA :: "'e XArray \<Rightarrow> 'e XArray option" where
  "cloneXA xa =
     do { vg_assert (elemSzB xa \<ge> 1);
          Some (case arr xa of
                  None \<Rightarrow> xa
                | Some a \<Rightarrow> xa\<lparr>totsizeE := usedsizeE xa, arr := Some (take (usedsizeE xa) a)\<rparr>) }"

definition setCmpFnXA :: "'e XArray \<Rightarrow> ('e \<Rightarrow> 'e \<Rightarrow> int) \<Rightarrow> 'e XArray" where
  "setCmpFnXA xa compar = xa\<lparr>cmpFn := Some compar, sorted_flag := False\<rparr>"

text \<open>The element that \<open>indexXA\<close> points to.\<close>

definition indexXA :: "'e XArray \<Rightarrow> int \<Rightarrow> 'e option" where
  "indexXA xa n =
     do { vg_assert (0 \<le> n \<and> n < int (usedsizeE xa));
          a \<leftarrow> arr xa;
          (if nat n < length a then a ! nat n else None) }"

definition hintSizeXA :: "'e XArray \<Rightarrow> nat \<Rightarrow> 'e XArray option" where
  "hintSizeXA xa n =
     do { vg_assert (usedsizeE xa = 0);
          vg_assert (totsizeE xa = 0);
          vg_assert (arr xa = None);
          Some (xa\<lparr>arr := Some (replicate n None), totsizeE := n\<rparr>) }"

section \<open>Growing\<close>

definition newsz :: "'e XArray \<Rightarrow> nat" where
  "newsz xa =
     (if totsizeE xa = 0 then if elemSzB xa = 1 then 8 else if elemSzB xa = 2 then 4 else 2
      else 2 + (3 * totsizeE xa) div 2)"

text \<open>The elements in use are copied into the new block.\<close>

definition ensureSpaceXA :: "'e XArray \<Rightarrow> 'e XArray option" where
  "ensureSpaceXA xa =
     (if usedsizeE xa = totsizeE xa then
        do { vg_assert (totsizeE xa = 0 \<longrightarrow> arr xa = None);
             vg_assert (totsizeE xa > 0 \<longrightarrow> arr xa \<noteq> None);
             let old = (case arr xa of None \<Rightarrow> [] | Some a \<Rightarrow> take (usedsizeE xa) a);
             Some (xa\<lparr>arr := Some (old @ replicate (newsz xa - usedsizeE xa) None), totsizeE := newsz xa\<rparr>) }
      else Some xa)"

definition addToXA :: "'e XArray \<Rightarrow> 'e \<Rightarrow> ('e XArray \<times> nat) option" where
  "addToXA xa elem =
     do { vg_assert (usedsizeE xa \<le> totsizeE xa);
          xa \<leftarrow> ensureSpaceXA xa;
          vg_assert (usedsizeE xa < totsizeE xa);
          a \<leftarrow> arr xa;
          Some (xa\<lparr>arr := Some (a[usedsizeE xa := Some elem]), usedsizeE := usedsizeE xa + 1,
                   sorted_flag := False\<rparr>, usedsizeE xa) }"

fun addBytes_loop :: "'e XArray \<Rightarrow> 'e list \<Rightarrow> 'e XArray option" where
  "addBytes_loop xa [] = Some xa"
| "addBytes_loop xa (c # bytes) =
     do { xa \<leftarrow> ensureSpaceXA xa;
          vg_assert (usedsizeE xa < totsizeE xa);
          a \<leftarrow> arr xa;
          addBytes_loop (xa\<lparr>arr := Some (a[usedsizeE xa := Some c]), usedsizeE := usedsizeE xa + 1\<rparr>) bytes }"

definition addBytesToXA :: "'e XArray \<Rightarrow> 'e list \<Rightarrow> ('e XArray \<times> nat) option" where
  "addBytesToXA xa bytes =
     do { vg_assert (elemSzB xa = 1);
          vg_assert (usedsizeE xa \<le> totsizeE xa);
          xa' \<leftarrow> addBytes_loop xa bytes;
          Some (xa'\<lparr>sorted_flag := False\<rparr>, usedsizeE xa) }"

definition add_char_to_XA :: "'e \<Rightarrow> 'e XArray \<Rightarrow> 'e XArray option" where
  "add_char_to_XA c dst = map_option fst (addBytesToXA dst [c])"

section \<open>Sorting and searching\<close>

text \<open>The elements in use.\<close>

definition used_elems :: "'e XArray \<Rightarrow> 'e list option" where
  "used_elems xa =
     (case arr xa of
        None \<Rightarrow> if usedsizeE xa = 0 then Some [] else None
      | Some a \<Rightarrow> if usedsizeE xa \<le> length a \<and> None \<notin> set (take (usedsizeE xa) a)
                  then Some (map the (take (usedsizeE xa) a)) else None)"

text \<open>\<open>base\<close> is the address of the block.\<close>

definition sortXA :: "nat \<Rightarrow> 'e XArray \<Rightarrow> 'e XArray option" where
  "sortXA base xa =
     do { compar \<leftarrow> cmpFn xa;
          es \<leftarrow> used_elems xa;
          ys \<leftarrow> ssort base es (usedsizeE xa) (elemSzB xa) compar;
          Some (xa\<lparr>arr := map_option (\<lambda>a. map Some ys @ drop (usedsizeE xa) a) (arr xa), sorted_flag := True\<rparr>) }"

text \<open>The loops that widen the range of equal elements.\<close>

fun widen_down :: "('k \<Rightarrow> 'e \<Rightarrow> int) \<Rightarrow> 'e XArray \<Rightarrow> 'k \<Rightarrow> nat \<Rightarrow> nat option" where
  "widen_down cmp xa key 0 = Some 0"
| "widen_down cmp xa key (Suc i) =
     do { e \<leftarrow> indexXA xa (int i);
          if cmp key e = 0 then widen_down cmp xa key i else Some (Suc i) }"

function widen_up :: "('k \<Rightarrow> 'e \<Rightarrow> int) \<Rightarrow> 'e XArray \<Rightarrow> 'k \<Rightarrow> nat \<Rightarrow> nat option" where
  "widen_up cmp xa key i =
     (if i + 1 < usedsizeE xa then
        do { e \<leftarrow> indexXA xa (int i + 1);
             if cmp key e = 0 then widen_up cmp xa key (i + 1) else Some i }
      else Some i)"
  by pat_completeness auto
termination
  by (relation "measure (\<lambda>(cmp, xa, key, i). usedsizeE xa - i)") auto

declare widen_up.simps [simp del]

text \<open>\<open>Some None\<close> for \<open>False\<close>, \<open>Some (Some (first, last))\<close> for \<open>True\<close>. The two results are computed
  whether or not the caller passes pointers for them; computing them changes nothing.\<close>

function lookup_loop :: "('k \<Rightarrow> 'e \<Rightarrow> int) \<Rightarrow> 'e XArray \<Rightarrow> 'k \<Rightarrow> int \<Rightarrow> int \<Rightarrow> (nat \<times> nat) option option" where
  "lookup_loop cmp xa key lo hi =
     (if lo > hi then Some None
      else
        do { let mid = (lo + hi) div 2;
             midv \<leftarrow> indexXA xa mid;
             let cres = cmp key midv;
             (if cres < 0 then lookup_loop cmp xa key lo (mid - 1)
              else if cres > 0 then lookup_loop cmp xa key (mid + 1) hi
              else
                do { l \<leftarrow> indexXA xa lo;
                     vg_assert (cmp key l \<ge> 0);
                     h \<leftarrow> indexXA xa hi;
                     vg_assert (cmp key h \<le> 0);
                     first \<leftarrow> widen_down cmp xa key (nat mid);
                     last \<leftarrow> widen_up cmp xa key (nat mid);
                     Some (Some (first, last)) }) })"
  by pat_completeness auto
termination
  by (relation "measure (\<lambda>(cmp, xa, key, lo, hi). nat (hi - lo + 1))") auto

declare lookup_loop.simps [simp del]

definition lookupXA_UNSAFE :: "'e XArray \<Rightarrow> 'k \<Rightarrow> ('k \<Rightarrow> 'e \<Rightarrow> int) \<Rightarrow> (nat \<times> nat) option option" where
  "lookupXA_UNSAFE xa key cmp = lookup_loop cmp xa key 0 (int (usedsizeE xa) - 1)"

definition lookupXA :: "'e XArray \<Rightarrow> 'e \<Rightarrow> (nat \<times> nat) option option" where
  "lookupXA xa key =
     do { compar \<leftarrow> cmpFn xa; vg_assert (sorted_flag xa); lookupXA_UNSAFE xa key compar }"

section \<open>Removing and inserting\<close>

definition sizeXA :: "'e XArray \<Rightarrow> nat" where
  "sizeXA xa = usedsizeE xa"

definition dropTailXA :: "'e XArray \<Rightarrow> int \<Rightarrow> 'e XArray option" where
  "dropTailXA xa n =
     do { vg_assert (n \<ge> 0); vg_assert (n \<le> int (usedsizeE xa));
          Some (xa\<lparr>usedsizeE := usedsizeE xa - nat n\<rparr>) }"

text \<open>Copying \<open>k\<close> elements inside the block from position \<open>s\<close> to position \<open>d\<close>.\<close>

definition move_elems :: "'e option list \<Rightarrow> nat \<Rightarrow> nat \<Rightarrow> nat \<Rightarrow> 'e option list option" where
  "move_elems a d s k =
     (if d + k \<le> length a \<and> s + k \<le> length a
      then Some (take d a @ take k (drop s a) @ drop (d + k) a) else None)"

definition dropHeadXA :: "'e XArray \<Rightarrow> int \<Rightarrow> 'e XArray option" where
  "dropHeadXA xa n =
     do { vg_assert (n \<ge> 0); vg_assert (n \<le> int (usedsizeE xa));
          if n = 0 then Some xa
          else if nat n = usedsizeE xa then Some (xa\<lparr>usedsizeE := 0\<rparr>)
          else do { vg_assert (n > 0); vg_assert (int (usedsizeE xa) - n > 0);
                    a \<leftarrow> arr xa;
                    a \<leftarrow> move_elems a 0 (nat n) (usedsizeE xa - nat n);
                    Some (xa\<lparr>arr := Some a, usedsizeE := usedsizeE xa - nat n\<rparr>) } }"

definition removeIndexXA :: "'e XArray \<Rightarrow> int \<Rightarrow> 'e XArray option" where
  "removeIndexXA xa n =
     do { vg_assert (n \<ge> 0); vg_assert (n < int (usedsizeE xa));
          xa \<leftarrow> (if nat n + 1 < usedsizeE xa
                 then do { a \<leftarrow> arr xa;
                           a \<leftarrow> move_elems a (nat n) (nat n + 1) (usedsizeE xa - nat n - 1);
                           Some (xa\<lparr>arr := Some a\<rparr>) }
                 else Some xa);
          Some (xa\<lparr>usedsizeE := usedsizeE xa - 1\<rparr>) }"

definition insertIndexXA :: "'e XArray \<Rightarrow> int \<Rightarrow> 'e \<Rightarrow> 'e XArray option" where
  "insertIndexXA xa n elem =
     do { vg_assert (n \<ge> 0); vg_assert (n \<le> int (usedsizeE xa));
          vg_assert (usedsizeE xa \<le> totsizeE xa);
          xa \<leftarrow> ensureSpaceXA xa;
          vg_assert (usedsizeE xa < totsizeE xa);
          a \<leftarrow> arr xa;
          a \<leftarrow> (if nat n < usedsizeE xa then move_elems a (nat n + 1) (nat n) (usedsizeE xa - nat n) else Some a);
          Some (xa\<lparr>arr := Some (a[nat n := Some elem]), usedsizeE := usedsizeE xa + 1, sorted_flag := False\<rparr>) }"

definition getContentsXA_UNSAFE :: "'e XArray \<Rightarrow> 'e option list option \<times> nat" where
  "getContentsXA_UNSAFE xa = (arr xa, usedsizeE xa)"

text \<open>\<open>deleteXA\<close>: the blocks it frees, the element block first.\<close>

datatype xa_block = ElemBlock | HeaderBlock

definition deleteXA :: "'e XArray \<Rightarrow> xa_block list" where
  "deleteXA xa = (if arr xa \<noteq> None then [ElemBlock] else []) @ [HeaderBlock]"

end
