(* ===== verification/XArray_Props.thy ===== *)
theory XArray_Props
  imports XArray
begin

text \<open>
  The growable array against lists: an interface for arrays with insertion and removal by index
  (\<open>growable_array\<close>), its interpretation by the operations of \<open>XArray\<close>, the binary search on a sorted
  array, and the one case in which a well-formed array fails an assertion.
\<close>

section \<open>The interface\<close>

datatype 'e xa_op = XaAdd 'e | XaInsert int 'e | XaRemove int | XaDropTail int | XaDropHead int

text \<open>The operations on lists; \<open>None\<close> is a position outside the list.\<close>

fun list_op :: "'e list \<Rightarrow> 'e xa_op \<Rightarrow> 'e list option" where
  "list_op l (XaAdd e) = Some (l @ [e])"
| "list_op l (XaInsert n e) =
     (if 0 \<le> n \<and> n \<le> int (length l) then Some (take (nat n) l @ e # drop (nat n) l) else None)"
| "list_op l (XaRemove n) =
     (if 0 \<le> n \<and> n < int (length l) then Some (take (nat n) l @ drop (nat n + 1) l) else None)"
| "list_op l (XaDropTail n) = (if 0 \<le> n \<and> n \<le> int (length l) then Some (take (length l - nat n) l) else None)"
| "list_op l (XaDropHead n) = (if 0 \<le> n \<and> n \<le> int (length l) then Some (drop (nat n) l) else None)"

fun run_xa :: "('x \<Rightarrow> 'e xa_op \<Rightarrow> 'x option) \<Rightarrow> 'x \<Rightarrow> 'e xa_op list \<Rightarrow> 'x option" where
  "run_xa step x [] = Some x"
| "run_xa step x (op # ops) = do { x' \<leftarrow> step x op; run_xa step x' ops }"

locale growable_array =
  fixes invar :: "'x \<Rightarrow> bool"
    and abs :: "'x \<Rightarrow> 'e list"
    and get :: "'x \<Rightarrow> int \<Rightarrow> 'e option"
    and step :: "'x \<Rightarrow> 'e xa_op \<Rightarrow> 'x option"
  assumes get_law: "invar x \<Longrightarrow> get x n = (if 0 \<le> n \<and> n < int (length (abs x)) then Some (abs x ! nat n) else None)"
    and step_ok: "invar x \<Longrightarrow> list_op (abs x) op = Some l \<Longrightarrow> \<exists>x'. step x op = Some x' \<and> invar x' \<and> abs x' = l"
    and step_fails: "invar x \<Longrightarrow> list_op (abs x) op = None \<Longrightarrow> step x op = None"
begin

lemma run_refines:
  "invar x \<Longrightarrow> case run_xa list_op (abs x) ops of
       None \<Rightarrow> run_xa step x ops = None
     | Some l \<Rightarrow> \<exists>x'. run_xa step x ops = Some x' \<and> invar x' \<and> abs x' = l"
proof (induction ops arbitrary: x)
  case (Cons op ops)
  show ?case
  proof (cases "list_op (abs x) op")
    case None
    then show ?thesis using step_fails [OF Cons.prems] by simp
  next
    case (Some l)
    then obtain x' where x': "step x op = Some x'" "invar x'" "abs x' = l" using step_ok [OF Cons.prems] by blast
    from Cons.IH [OF x'(2)] show ?thesis using x' Some by (simp split: option.splits)
  qed
qed simp

end

section \<open>Well-formed arrays\<close>

definition xa_ok :: "'e XArray \<Rightarrow> bool" where
  "xa_ok xa \<longleftrightarrow> 1 \<le> elemSzB xa \<and>
     (case arr xa of
        None \<Rightarrow> usedsizeE xa = 0 \<and> totsizeE xa = 0
      | Some a \<Rightarrow> totsizeE xa = length a \<and> usedsizeE xa \<le> totsizeE xa \<and> 0 < totsizeE xa
                  \<and> None \<notin> set (take (usedsizeE xa) a))"

definition contents :: "'e XArray \<Rightarrow> 'e list" where
  "contents xa = (case arr xa of None \<Rightarrow> [] | Some a \<Rightarrow> map the (take (usedsizeE xa) a))"

lemma length_contents [simp]: "xa_ok xa \<Longrightarrow> length (contents xa) = usedsizeE xa"
  by (auto simp: xa_ok_def contents_def split: option.splits)

lemma contents_empty: "xa_ok xa \<Longrightarrow> usedsizeE xa = 0 \<Longrightarrow> contents xa = []"
  by (auto simp: contents_def split: option.splits)

lemma map_Some_the: "None \<notin> set xs \<Longrightarrow> map Some (map the xs) = xs"
  by (induction xs) auto

lemma xa_okI:
  assumes "1 \<le> elemSzB xa" "arr xa = Some a" "totsizeE xa = length a" "a \<noteq> []"
    and "usedsizeE xa = length l" "\<exists>r. a = map Some l @ r"
  shows "xa_ok xa \<and> contents xa = l"
proof -
  obtain r where r: "a = map Some l @ r" using assms(6) by blast
  then have "take (length l) a = map Some l" by simp
  then show ?thesis using assms r by (auto simp: xa_ok_def contents_def comp_def)
qed

lemma xa_ok_arr:
  assumes "xa_ok xa" "arr xa = Some a"
  obtains r where "a = map Some (contents xa) @ r" "totsizeE xa = length a" "usedsizeE xa = length (contents xa)" "a \<noteq> []"
proof -
  have a: "totsizeE xa = length a" "usedsizeE xa \<le> length a" "0 < length a" "None \<notin> set (take (usedsizeE xa) a)"
    using assms by (auto simp: xa_ok_def)
  have "map Some (contents xa) = take (usedsizeE xa) a"
    unfolding contents_def assms(2) option.case by (rule map_Some_the [OF a(4)])
  then have "a = map Some (contents xa) @ drop (usedsizeE xa) a" by simp
  then show thesis using that a assms(1) by (metis length_contents length_greater_0_conv)
qed

lemma xa_ok_elem: "xa_ok xa \<Longrightarrow> 1 \<le> elemSzB xa"
  by (simp add: xa_ok_def)

lemma newXA_ok: "0 < sz \<Longrightarrow> \<exists>xa. newXA sz = Some xa \<and> xa_ok xa \<and> contents xa = []"
  by (simp add: newXA_def xa_ok_def contents_def)

lemma indexXA_contents:
  assumes "xa_ok xa"
  shows "indexXA xa n = (if 0 \<le> n \<and> n < int (length (contents xa)) then Some (contents xa ! nat n) else None)"
proof (cases "0 \<le> n \<and> n < int (length (contents xa))")
  case True
  then have ne: "usedsizeE xa \<noteq> 0" using assms by auto
  then obtain a where a: "arr xa = Some a" using assms by (auto simp: xa_ok_def split: option.splits)
  obtain r where r: "a = map Some (contents xa) @ r" by (rule xa_ok_arr [OF assms a])
  have "nat n < length (contents xa)" using True by auto
  then have "nat n < length a" "a ! nat n = Some (contents xa ! nat n)" unfolding r by (simp_all add: nth_append)
  with True assms a show ?thesis by (simp add: indexXA_def)
qed (use assms in \<open>auto simp: indexXA_def\<close>)

lemma ensureSpaceXA_ok:
  assumes "xa_ok xa"
  obtains xa' a e where "ensureSpaceXA xa = Some xa'" "arr xa' = Some a" "totsizeE xa' = length a"
    "elemSzB xa' = elemSzB xa" "usedsizeE xa' = length (contents xa)" "a = map Some (contents xa) @ e" "e \<noteq> []"
    "cmpFn xa' = cmpFn xa"
proof (cases "usedsizeE xa = totsizeE xa")
  case True
  have gt: "newsz xa > usedsizeE xa" using True by (auto simp: newsz_def)
  show thesis
  proof (cases "arr xa")
    case None
    then have "usedsizeE xa = 0" "totsizeE xa = 0" "contents xa = []" using assms by (auto simp: xa_ok_def contents_def)
    then show thesis using that True None gt by (simp add: ensureSpaceXA_def)
  next
    case (Some a)
    obtain r where r: "a = map Some (contents xa) @ r" "totsizeE xa = length a" "usedsizeE xa = length (contents xa)" "a \<noteq> []"
      by (rule xa_ok_arr [OF assms Some])
    then have "r = []" using True by simp
    then have "take (usedsizeE xa) a = map Some (contents xa)" using r by simp
    then show thesis using that True Some gt r by (simp add: ensureSpaceXA_def)
  qed
next
  case False
  then obtain a where a: "arr xa = Some a" using assms by (auto simp: xa_ok_def split: option.splits)
  obtain r where r: "a = map Some (contents xa) @ r" "totsizeE xa = length a" "usedsizeE xa = length (contents xa)"
    by (rule xa_ok_arr [OF assms a])
  then have "r \<noteq> []" using False by auto
  then show thesis using that False a r by (simp add: ensureSpaceXA_def)
qed

lemma addToXA_ok:
  assumes "xa_ok xa"
  shows "\<exists>xa'. addToXA xa e = Some (xa', length (contents xa)) \<and> xa_ok xa' \<and> contents xa' = contents xa @ [e]"
proof -
  obtain xa' a r where x: "ensureSpaceXA xa = Some xa'" "arr xa' = Some a" "totsizeE xa' = length a"
    "elemSzB xa' = elemSzB xa" "usedsizeE xa' = length (contents xa)" "a = map Some (contents xa) @ r" "r \<noteq> []"
    by (rule ensureSpaceXA_ok [OF assms])
  obtain x0 r' where r: "r = x0 # r'" using x(7) by (cases r) auto
  have le: "usedsizeE xa \<le> totsizeE xa" using assms by (auto simp: xa_ok_def split: option.splits)
  let ?y = "xa'\<lparr>arr := Some (a[usedsizeE xa' := Some e]), usedsizeE := usedsizeE xa' + 1, sorted_flag := False\<rparr>"
  have "xa_ok ?y \<and> contents ?y = contents xa @ [e]"
    using x r xa_ok_elem [OF assms] by (intro xa_okI [of _ "a[usedsizeE xa' := Some e]"]) (auto simp: list_update_append)
  then show ?thesis using x r le by (simp add: addToXA_def)
qed

lemma move_elems_up:
  "move_elems (l @ m @ x # r) (length l + 1) (length l) (length m) = Some (l @ hd (m @ [x]) # m @ r)"
  by (cases m) (simp_all add: move_elems_def)

lemma insertIndexXA_ok:
  assumes "xa_ok xa" "0 \<le> n" "n \<le> int (length (contents xa))"
  shows "\<exists>xa'. insertIndexXA xa n e = Some xa' \<and> xa_ok xa'
    \<and> contents xa' = take (nat n) (contents xa) @ e # drop (nat n) (contents xa)"
proof -
  obtain xa' a r where x: "ensureSpaceXA xa = Some xa'" "arr xa' = Some a" "totsizeE xa' = length a"
    "elemSzB xa' = elemSzB xa" "usedsizeE xa' = length (contents xa)" "a = map Some (contents xa) @ r" "r \<noteq> []"
    by (rule ensureSpaceXA_ok [OF assms(1)])
  obtain x0 r' where r: "r = x0 # r'" using x(7) by (cases r) auto
  have le: "usedsizeE xa \<le> totsizeE xa" using assms(1) by (auto simp: xa_ok_def split: option.splits)
  have n: "nat n \<le> length (contents xa)" using assms by simp
  let ?l = "map Some (take (nat n) (contents xa))" and ?m = "map Some (drop (nat n) (contents xa))"
  have a: "a = ?l @ ?m @ x0 # r'" using x(6) r by (metis append.assoc append_take_drop_id map_append)
  have lm: "length ?l = nat n" "length ?m = length (contents xa) - nat n" using n by simp_all
  define b where "b = (if nat n < length (contents xa) then ?l @ hd (?m @ [x0]) # ?m @ r' else a)"
  have mv: "(if nat n < usedsizeE xa' then move_elems a (nat n + 1) (nat n) (usedsizeE xa' - nat n) else Some a) = Some b"
    using move_elems_up [of ?l ?m x0 r'] lm x(5) a by (simp add: b_def)
  have "b[nat n := Some e] = ?l @ Some e # ?m @ r'"
  proof (cases "nat n < length (contents xa)")
    case False
    then have "?m = []" by simp
    then show ?thesis using False lm a by (simp add: b_def list_update_append)
  qed (use lm in \<open>simp add: b_def list_update_append\<close>)
  then have bl: "b[nat n := Some e] = map Some (take (nat n) (contents xa) @ e # drop (nat n) (contents xa)) @ r'" by simp
  have lb: "length b = length a" using a by (auto simp: b_def)
  let ?y = "xa'\<lparr>arr := Some (b[nat n := Some e]), usedsizeE := usedsizeE xa' + 1, sorted_flag := False\<rparr>"
  have "xa_ok ?y \<and> contents ?y = take (nat n) (contents xa) @ e # drop (nat n) (contents xa)"
  proof (rule xa_okI [where a = "b[nat n := Some e]"])
    show "\<exists>r. b[nat n := Some e] = map Some (take (nat n) (contents xa) @ e # drop (nat n) (contents xa)) @ r"
      using bl by blast
    show "b[nat n := Some e] \<noteq> []" unfolding bl by simp
  qed (use x n lb xa_ok_elem [OF assms(1)] in auto)
  moreover have "insertIndexXA xa n e = Some ?y"
  proof -
    have "usedsizeE xa' < totsizeE xa'" using x r by simp
    then show ?thesis using x(1,2) mv assms le by (simp add: insertIndexXA_def)
  qed
  ultimately show ?thesis by blast
qed

lemma shrink_ok:
  assumes "xa_ok xa" "arr xa = Some a" "length b = length a" "b = map Some l @ r"
  shows "xa_ok (xa\<lparr>arr := Some b, usedsizeE := length l\<rparr>) \<and> contents (xa\<lparr>arr := Some b, usedsizeE := length l\<rparr>) = l"
proof (rule xa_okI [where a = b])
  show "b \<noteq> []" using assms by (auto simp: xa_ok_def)
qed (use assms in \<open>auto simp: xa_ok_def\<close>)

lemma drop_elems_ok:
  assumes "xa_ok xa" "n \<le> length (contents xa)"
  shows "xa_ok (xa\<lparr>usedsizeE := usedsizeE xa - n\<rparr>)
    \<and> contents (xa\<lparr>usedsizeE := usedsizeE xa - n\<rparr>) = take (length (contents xa) - n) (contents xa)"
proof (cases "arr xa")
  case None
  then show ?thesis using assms by (auto simp: xa_ok_def contents_def)
next
  case (Some a)
  have "take (usedsizeE xa - n) (take (usedsizeE xa) a) = take (usedsizeE xa - n) a" by simp
  then show ?thesis using assms Some
    by (auto simp: xa_ok_def contents_def take_map dest: in_set_takeD)
       (metis in_set_takeD diff_le_self take_take min.absorb1)
qed

lemma dropTailXA_ok:
  assumes "xa_ok xa" "0 \<le> n" "n \<le> int (length (contents xa))"
  shows "\<exists>xa'. dropTailXA xa n = Some xa' \<and> xa_ok xa' \<and> contents xa' = take (length (contents xa) - nat n) (contents xa)"
  using drop_elems_ok [OF assms(1), of "nat n"] assms by (auto simp: dropTailXA_def)

lemma dropHeadXA_ok:
  assumes "xa_ok xa" "0 \<le> n" "n \<le> int (length (contents xa))"
  shows "\<exists>xa'. dropHeadXA xa n = Some xa' \<and> xa_ok xa' \<and> contents xa' = drop (nat n) (contents xa)"
proof -
  consider "n = 0" | "n \<noteq> 0" "nat n = usedsizeE xa" | "0 < n" "nat n < usedsizeE xa" using assms by fastforce
  then show ?thesis
  proof cases
    case 1
    then show ?thesis using assms by (simp add: dropHeadXA_def)
  next
    case 2
    then show ?thesis using assms drop_elems_ok [OF assms(1), of "usedsizeE xa"] by (simp add: dropHeadXA_def)
  next
    case 3
    then obtain a where a: "arr xa = Some a" using assms(1) by (auto simp: xa_ok_def split: option.splits)
    obtain r where r: "a = map Some (contents xa) @ r" by (rule xa_ok_arr [OF assms(1) a])
    let ?k = "usedsizeE xa - nat n"
    have mv: "move_elems a 0 (nat n) ?k = Some (map Some (drop (nat n) (contents xa)) @ drop ?k a)"
      using 3 r assms(1) by (simp add: move_elems_def drop_map take_map)
    have "xa_ok (xa\<lparr>arr := Some (map Some (drop (nat n) (contents xa)) @ drop ?k a), usedsizeE := length (drop (nat n) (contents xa))\<rparr>)
        \<and> contents (xa\<lparr>arr := Some (map Some (drop (nat n) (contents xa)) @ drop ?k a), usedsizeE := length (drop (nat n) (contents xa))\<rparr>)
          = drop (nat n) (contents xa)"
      using assms(1) r by (intro shrink_ok [OF assms(1) a]) auto
    then show ?thesis using 3 a mv assms by (simp add: dropHeadXA_def)
  qed
qed

lemma removeIndexXA_ok:
  assumes "xa_ok xa" "0 \<le> n" "n < int (length (contents xa))"
  shows "\<exists>xa'. removeIndexXA xa n = Some xa' \<and> xa_ok xa' \<and> contents xa' = take (nat n) (contents xa) @ drop (nat n + 1) (contents xa)"
proof (cases "nat n + 1 < usedsizeE xa")
  case True
  then obtain a where a: "arr xa = Some a" using assms(1) by (auto simp: xa_ok_def split: option.splits)
  obtain r where r: "a = map Some (contents xa) @ r" by (rule xa_ok_arr [OF assms(1) a])
  let ?l = "take (nat n) (contents xa) @ drop (nat n + 1) (contents xa)"
  let ?b = "map Some ?l @ drop (usedsizeE xa - 1) a"
  have mv: "move_elems a (nat n) (nat n + 1) (usedsizeE xa - nat n - 1) = Some ?b"
    using True r assms(1) by (simp add: move_elems_def drop_map take_map)
  have ln: "length ?l = usedsizeE xa - 1" using True assms(1) by simp
  have "xa_ok (xa\<lparr>arr := Some ?b, usedsizeE := length ?l\<rparr>) \<and> contents (xa\<lparr>arr := Some ?b, usedsizeE := length ?l\<rparr>) = ?l"
    using assms(1) r ln True by (intro shrink_ok [OF assms(1) a]) auto
  then show ?thesis unfolding ln using True a mv assms by (simp add: removeIndexXA_def)
next
  case False
  then have e: "nat n = length (contents xa) - 1" "length (contents xa) > 0" using assms by auto
  then show ?thesis using drop_elems_ok [OF assms(1), of 1] False assms by (auto simp: removeIndexXA_def)
qed

fun xa_step :: "'e XArray \<Rightarrow> 'e xa_op \<Rightarrow> 'e XArray option" where
  "xa_step xa (XaAdd e) = map_option fst (addToXA xa e)"
| "xa_step xa (XaInsert n e) = insertIndexXA xa n e"
| "xa_step xa (XaRemove n) = removeIndexXA xa n"
| "xa_step xa (XaDropTail n) = dropTailXA xa n"
| "xa_step xa (XaDropHead n) = dropHeadXA xa n"

interpretation xarray: growable_array xa_ok contents indexXA xa_step
proof (unfold_locales, goal_cases)
  case (1 x n)
  then show ?case by (rule indexXA_contents)
next
  case (2 x op l)
  show ?case
  proof (cases op)
    case (XaAdd e)
    then show ?thesis using 2 addToXA_ok [of x e] by auto
  next
    case (XaInsert n e)
    then show ?thesis using 2 insertIndexXA_ok [of x n e] by (simp split: if_splits)
  next
    case (XaRemove n)
    then show ?thesis using 2 removeIndexXA_ok [of x n] by (simp split: if_splits)
  next
    case (XaDropTail n)
    then show ?thesis using 2 dropTailXA_ok [of x n] by (simp split: if_splits)
  next
    case (XaDropHead n)
    then show ?thesis using 2 dropHeadXA_ok [of x n] by (simp split: if_splits)
  qed
next
  case (3 x op)
  then show ?case
    by (cases op)
       (auto simp: insertIndexXA_def removeIndexXA_def dropTailXA_def dropHeadXA_def split: if_splits)
qed

text \<open>C17: every sequence of additions, insertions, removals and drops on a new array behaves as on lists:
  it fails exactly where a position is outside the list, otherwise the array is well formed, holds the
  list, and \<open>indexXA\<close> and \<open>sizeXA\<close> read it.\<close>

theorem xarray_refines_list:
  assumes "0 < sz"
  shows "\<exists>xa. newXA sz = Some xa
    \<and> (case run_xa list_op [] ops of
         None \<Rightarrow> run_xa xa_step xa ops = None
       | Some l \<Rightarrow> (\<exists>xa'. run_xa xa_step xa ops = Some xa' \<and> xa_ok xa' \<and> sizeXA xa' = length l
            \<and> (\<forall>n. indexXA xa' n = (if 0 \<le> n \<and> n < int (length l) then Some (l ! nat n) else None))))"
proof -
  obtain xa :: "'a XArray" where xa: "newXA sz = Some xa" "xa_ok xa" "contents xa = []" using newXA_ok [OF assms] by blast
  have "sizeXA xa' = length l
      \<and> (\<forall>n. indexXA xa' n = (if 0 \<le> n \<and> n < int (length l) then Some (l ! nat n) else None))"
    if "xa_ok xa'" "contents xa' = l" for xa' :: "'a XArray" and l
    using that indexXA_contents [OF that(1)] length_contents [OF that(1)] by (auto simp: sizeXA_def)
  with xarray.run_refines [OF xa(2), of ops] xa show ?thesis by (fastforce split: option.splits)
qed

text \<open>A run that succeeds, and two that end with a position outside the list.\<close>

theorem xarray_refines_list_witness:
  "(\<exists>xa xa'. newXA 4 = Some xa \<and> run_xa xa_step xa [XaAdd (7 :: nat), XaInsert 0 5, XaAdd 9, XaRemove 1, XaDropHead 1] = Some xa'
      \<and> sizeXA xa' = 1 \<and> indexXA xa' 0 = Some 9 \<and> indexXA xa' 1 = None)
   \<and> (\<exists>xa. newXA 4 = Some xa \<and> run_xa xa_step xa [XaAdd (7 :: nat), XaRemove 1] = None)
   \<and> (\<exists>xa. newXA 4 = Some xa \<and> run_xa xa_step xa [XaAdd (7 :: nat), XaDropTail 2] = None)"
  using xarray_refines_list [of 4 "[XaAdd (7 :: nat), XaInsert 0 5, XaAdd 9, XaRemove 1, XaDropHead 1]"]
    xarray_refines_list [of 4 "[XaAdd (7 :: nat), XaRemove 1]"] xarray_refines_list [of 4 "[XaAdd (7 :: nat), XaDropTail 2]"]
  by auto

section \<open>Copies\<close>

lemma addBytes_loop_ok:
  "xa_ok xa \<Longrightarrow> \<exists>xa'. addBytes_loop xa bs = Some xa' \<and> xa_ok xa' \<and> contents xa' = contents xa @ bs"
proof (induction bs arbitrary: xa)
  case (Cons b bs)
  obtain xa' a r where x: "ensureSpaceXA xa = Some xa'" "arr xa' = Some a" "totsizeE xa' = length a"
    "elemSzB xa' = elemSzB xa" "usedsizeE xa' = length (contents xa)" "a = map Some (contents xa) @ r" "r \<noteq> []"
    by (rule ensureSpaceXA_ok [OF Cons.prems])
  obtain x0 r' where r: "r = x0 # r'" using x(7) by (cases r) auto
  let ?y = "xa'\<lparr>arr := Some (a[usedsizeE xa' := Some b]), usedsizeE := usedsizeE xa' + 1\<rparr>"
  have "xa_ok ?y \<and> contents ?y = contents xa @ [b]"
    using x r xa_ok_elem [OF Cons.prems] by (intro xa_okI [of _ "a[usedsizeE xa' := Some b]"]) (auto simp: list_update_append)
  with Cons.IH [of ?y] x r show ?case by simp
qed simp

lemma addBytesToXA_ok:
  assumes "xa_ok xa" "elemSzB xa = 1"
  shows "\<exists>xa'. addBytesToXA xa bs = Some (xa', length (contents xa)) \<and> xa_ok xa' \<and> contents xa' = contents xa @ bs"
proof -
  obtain xa' where xa': "addBytes_loop xa bs = Some xa'" "xa_ok xa'" "contents xa' = contents xa @ bs"
    using addBytes_loop_ok [OF assms(1)] by blast
  have "usedsizeE xa \<le> totsizeE xa" using assms(1) by (auto simp: xa_ok_def split: option.splits)
  moreover have "xa_ok (xa'\<lparr>sorted_flag := False\<rparr>) \<and> contents (xa'\<lparr>sorted_flag := False\<rparr>) = contents xa'"
    using xa'(2) by (auto simp add: xa_ok_def contents_def split: option.splits)
  ultimately show ?thesis using xa' assms by (simp add: addBytesToXA_def)
qed

text \<open>A clone has the same contents. It is well formed, and additions to it succeed, unless the
  original has a block but no elements: then the clone has a block of size zero, and the first
  addition to it fails the assertion at the start of \<open>ensureSpaceXA\<close>.\<close>

theorem cloneXA_then_add:
  assumes "xa_ok xa"
  shows "\<exists>nyu. cloneXA xa = Some nyu \<and> contents nyu = contents xa
    \<and> (addToXA nyu e = None \<longleftrightarrow> arr xa \<noteq> None \<and> usedsizeE xa = 0)"
proof -
  have el: "1 \<le> elemSzB xa" by (rule xa_ok_elem [OF assms])
  show ?thesis
  proof (cases "arr xa")
    case None
    have "addToXA xa e \<noteq> None" using addToXA_ok [OF assms, of e] by (metis option.distinct(1))
    with None el show ?thesis by (intro exI [of _ xa]) (simp add: cloneXA_def)
  next
    case (Some a)
    let ?n = "xa\<lparr>totsizeE := usedsizeE xa, arr := Some (take (usedsizeE xa) a)\<rparr>"
    have c: "cloneXA xa = Some ?n" using el Some by (simp add: cloneXA_def)
    have ct: "contents ?n = contents xa" using Some by (simp add: contents_def)
    show ?thesis
    proof (cases "usedsizeE xa = 0")
      case True
      then have "addToXA ?n e = None" by (simp add: addToXA_def ensureSpaceXA_def)
      then show ?thesis using c ct Some True by (intro exI [of _ ?n]) simp
    next
      case False
      then have "xa_ok ?n" using el assms Some by (auto simp: xa_ok_def)
      from addToXA_ok [OF this, of e] have "addToXA ?n e \<noteq> None" by (metis option.distinct(1))
      then show ?thesis using c ct False by (intro exI [of _ ?n]) simp
    qed
  qed
qed

theorem cloneXA_then_add_witness:
  "\<exists>nyu. cloneXA \<lparr>cmpFn = None, elemSzB = 8, arr = Some [Some (1 :: nat), None], usedsizeE = 0, totsizeE = 2, sorted_flag = False\<rparr> = Some nyu
    \<and> addToXA nyu 5 = None"
  using cloneXA_then_add [of "\<lparr>cmpFn = None, elemSzB = 8, arr = Some [Some (1 :: nat), None], usedsizeE = 0, totsizeE = 2, sorted_flag = False\<rparr>" 5]
  by (auto simp: xa_ok_def)

section \<open>Binary search\<close>

definition key_sorted :: "('k \<Rightarrow> 'e \<Rightarrow> int) \<Rightarrow> 'k \<Rightarrow> 'e list \<Rightarrow> bool" where
  "key_sorted cmp key xs \<longleftrightarrow> (\<forall>i j. i \<le> j \<and> j < length xs \<longrightarrow>
     (cmp key (xs ! i) \<le> 0 \<longrightarrow> cmp key (xs ! j) \<le> 0) \<and> (cmp key (xs ! i) < 0 \<longrightarrow> cmp key (xs ! j) < 0))"

lemma key_sortedD:
  assumes "key_sorted cmp key xs" "i \<le> j" "j < length xs"
  shows "cmp key (xs ! i) \<le> 0 \<Longrightarrow> cmp key (xs ! j) \<le> 0" "cmp key (xs ! i) < 0 \<Longrightarrow> cmp key (xs ! j) < 0"
  using assms unfolding key_sorted_def by blast+

text \<open>What a search is to return: nothing, or the range of all equal elements.\<close>

definition search_result :: "('k \<Rightarrow> 'e \<Rightarrow> int) \<Rightarrow> 'k \<Rightarrow> 'e list \<Rightarrow> (nat \<times> nat) option \<Rightarrow> bool" where
  "search_result cmp key xs r \<longleftrightarrow>
     (case r of
        None \<Rightarrow> \<forall>e \<in> set xs. cmp key e \<noteq> 0
      | Some (f, l) \<Rightarrow> f \<le> l \<and> l < length xs \<and> (\<forall>i < length xs. cmp key (xs ! i) = 0 \<longleftrightarrow> f \<le> i \<and> i \<le> l))"

lemma widen_down_ok:
  assumes "xa_ok xa"
  shows "i < length (contents xa) \<Longrightarrow> cmp key (contents xa ! i) = 0 \<Longrightarrow>
    \<exists>f \<le> i. widen_down cmp xa key i = Some f \<and> (\<forall>k. f \<le> k \<and> k \<le> i \<longrightarrow> cmp key (contents xa ! k) = 0)
      \<and> (0 < f \<longrightarrow> cmp key (contents xa ! (f - 1)) \<noteq> 0)"
proof (induction i)
  case (Suc i)
  have ix: "indexXA xa (int i) = Some (contents xa ! i)" using Suc.prems indexXA_contents [OF assms, of "int i"] by simp
  show ?case
  proof (cases "cmp key (contents xa ! i) = 0")
    case True
    then obtain f where "f \<le> i" "widen_down cmp xa key i = Some f"
      "\<forall>k. f \<le> k \<and> k \<le> i \<longrightarrow> cmp key (contents xa ! k) = 0" "0 < f \<longrightarrow> cmp key (contents xa ! (f - 1)) \<noteq> 0"
      using Suc by auto
    then show ?thesis using ix True Suc.prems by (auto simp: le_Suc_eq)
  next
    case False
    then show ?thesis using ix Suc.prems by (auto simp: le_Suc_eq)
  qed
qed auto

lemma widen_up_ok:
  assumes "xa_ok xa"
  shows "i < length (contents xa) \<Longrightarrow> cmp key (contents xa ! i) = 0 \<Longrightarrow>
    \<exists>l. i \<le> l \<and> l < length (contents xa) \<and> widen_up cmp xa key i = Some l
      \<and> (\<forall>k. i \<le> k \<and> k \<le> l \<longrightarrow> cmp key (contents xa ! k) = 0)
      \<and> (l + 1 < length (contents xa) \<longrightarrow> cmp key (contents xa ! (l + 1)) \<noteq> 0)"
proof (induction "length (contents xa) - i" arbitrary: i rule: less_induct)
  case less
  show ?case
  proof (cases "i + 1 < length (contents xa) \<and> cmp key (contents xa ! (i + 1)) = 0")
    case True
    have ix: "indexXA xa (int i + 1) = Some (contents xa ! (i + 1))"
      using True indexXA_contents [OF assms, of "int i + 1"] by (simp add: nat_add_distrib)
    obtain l where l: "i + 1 \<le> l" "l < length (contents xa)" "widen_up cmp xa key (i + 1) = Some l"
      "\<forall>k. i + 1 \<le> k \<and> k \<le> l \<longrightarrow> cmp key (contents xa ! k) = 0"
      "l + 1 < length (contents xa) \<longrightarrow> cmp key (contents xa ! (l + 1)) \<noteq> 0"
      using less.hyps [of "i + 1"] True less.prems(1) by (metis diff_less_mono2 less_add_one)
    have "cmp key (contents xa ! k) = 0" if "i \<le> k" "k \<le> l" for k
      using l(4) that less.prems(2) by (cases "k = i") auto
    then show ?thesis using l True ix assms by (intro exI [of _ l]) (subst widen_up.simps, auto)
  next
    case False
    have "i + 1 < length (contents xa) \<Longrightarrow> indexXA xa (int i + 1) = Some (contents xa ! (i + 1))"
      using indexXA_contents [OF assms, of "int i + 1"] by (simp add: nat_add_distrib)
    then show ?thesis using False less.prems assms by (intro exI [of _ i]) (subst widen_up.simps, auto simp: le_antisym)
  qed
qed

lemma widened_range:
  assumes ks: "key_sorted cmp key xs" and m: "m < length xs" "cmp key (xs ! m) = 0"
    and f: "f \<le> m" "\<forall>k. f \<le> k \<and> k \<le> m \<longrightarrow> cmp key (xs ! k) = 0" "0 < f \<longrightarrow> cmp key (xs ! (f - 1)) \<noteq> 0"
    and l: "m \<le> l" "l < length xs" "\<forall>k. m \<le> k \<and> k \<le> l \<longrightarrow> cmp key (xs ! k) = 0"
      "l + 1 < length xs \<longrightarrow> cmp key (xs ! (l + 1)) \<noteq> 0"
  shows "search_result cmp key xs (Some (f, l))"
proof -
  have "f \<le> i \<and> i \<le> l" if "i < length xs" "cmp key (xs ! i) = 0" for i
  proof (rule ccontr)
    assume "\<not> (f \<le> i \<and> i \<le> l)"
    then consider "i < f" | "l < i" by linarith
    then show False
    proof cases
      case 1
      then have f0: "0 < f" "i \<le> f - 1" "f - 1 < length xs" using f(1) m(1) by auto
      have "cmp key (xs ! (f - 1)) \<le> 0" using key_sortedD(1) [OF ks f0(2,3)] that by simp
      moreover have "\<not> cmp key (xs ! (f - 1)) < 0"
        using key_sortedD(2) [OF ks _ m(1), of "f - 1"] f(1) m(2) f0 by (metis diff_le_self le_trans less_irrefl)
      ultimately show False using f(3) f0(1) by simp
    next
      case 2
      then have l1: "l + 1 \<le> i" "l + 1 < length xs" using that by auto
      have "cmp key (xs ! (l + 1)) \<le> 0" using key_sortedD(1) [OF ks, of m "l + 1"] l(1) l1 m by simp
      moreover have "\<not> cmp key (xs ! (l + 1)) < 0" using key_sortedD(2) [OF ks l1(1)] that by auto
      ultimately show False using l(4) l1 by simp
    qed
  qed
  moreover have "cmp key (xs ! i) = 0" if "f \<le> i" "i \<le> l" for i using f(2) l(3) that by (meson linear)
  ultimately show ?thesis using f(1) l(1,2) by (auto simp: search_result_def)
qed

lemma lookup_loop_ok:
  assumes ok: "xa_ok xa" and ks: "key_sorted cmp key (contents xa)"
  shows "0 \<le> lo \<Longrightarrow> hi < int (length (contents xa)) \<Longrightarrow>
    (\<forall>i. int i < lo \<longrightarrow> i < length (contents xa) \<longrightarrow> cmp key (contents xa ! i) > 0) \<Longrightarrow>
    (\<forall>i. hi < int i \<longrightarrow> i < length (contents xa) \<longrightarrow> cmp key (contents xa ! i) < 0) \<Longrightarrow>
    \<exists>r. lookup_loop cmp xa key lo hi = Some r \<and> search_result cmp key (contents xa) r"
proof (induction "nat (hi - lo + 1)" arbitrary: lo hi rule: less_induct)
  case less
  let ?xs = "contents xa"
  show ?case
  proof (cases "lo > hi")
    case True
    have "cmp key (?xs ! i) \<noteq> 0" if "i < length ?xs" for i
      using less.prems(3,4) that True by (cases "int i < lo") (auto dest: spec [of _ i])
    then have "search_result cmp key ?xs None" by (auto simp: search_result_def in_set_conv_nth)
    then show ?thesis using True by (subst lookup_loop.simps) simp
  next
    case False
    define mid where "mid = (lo + hi) div 2"
    have mid: "lo \<le> mid" "mid \<le> hi" "0 \<le> mid" "mid < int (length ?xs)" using False less.prems unfolding mid_def by auto
    define m where "m = nat mid"
    have m: "m < length ?xs" "mid = int m" using mid by (auto simp: m_def)
    have ix: "indexXA xa n = Some (?xs ! nat n)" if "0 \<le> n" "n < int (length ?xs)" for n
      using that indexXA_contents [OF ok, of n] by simp
    have step: "lookup_loop cmp xa key lo hi =
        (if cmp key (?xs ! m) < 0 then lookup_loop cmp xa key lo (mid - 1)
         else if cmp key (?xs ! m) > 0 then lookup_loop cmp xa key (mid + 1) hi
         else do { l \<leftarrow> indexXA xa lo; vg_assert (cmp key l \<ge> 0);
                   h \<leftarrow> indexXA xa hi; vg_assert (cmp key h \<le> 0);
                   first \<leftarrow> widen_down cmp xa key m; last \<leftarrow> widen_up cmp xa key m; Some (Some (first, last)) })"
      using False ix [of mid] mid by (subst lookup_loop.simps) (simp add: mid_def m_def Let_def)
    consider (l) "cmp key (?xs ! m) < 0" | (g) "cmp key (?xs ! m) > 0" | (e) "cmp key (?xs ! m) = 0" by linarith
    then show ?thesis
    proof cases
      case l
      have "\<forall>i. mid - 1 < int i \<longrightarrow> i < length ?xs \<longrightarrow> cmp key (?xs ! i) < 0"
        using key_sortedD(2) [OF ks, of m] l m by auto
      then have "\<exists>r. lookup_loop cmp xa key lo (mid - 1) = Some r \<and> search_result cmp key ?xs r"
        using less.prems mid by (intro less.hyps) auto
      then show ?thesis using l unfolding step by simp
    next
      case g
      have "\<forall>i. int i < mid + 1 \<longrightarrow> i < length ?xs \<longrightarrow> cmp key (?xs ! i) > 0"
        using key_sortedD(1) [OF ks, of _ m] g m by (meson int_ops(4) linorder_not_less of_nat_less_iff verit_comp_simplify1(3) zle_add1_eq_le)
      then have "\<exists>r. lookup_loop cmp xa key (mid + 1) hi = Some r \<and> search_result cmp key ?xs r"
        using less.prems mid by (intro less.hyps) auto
      then show ?thesis using g unfolding step by simp
    next
      case e
      obtain f where f: "f \<le> m" "widen_down cmp xa key m = Some f" "\<forall>k. f \<le> k \<and> k \<le> m \<longrightarrow> cmp key (?xs ! k) = 0"
        "0 < f \<longrightarrow> cmp key (?xs ! (f - 1)) \<noteq> 0" using widen_down_ok [of xa m cmp key, OF ok m(1) e] by blast
      obtain l where l: "m \<le> l" "l < length ?xs" "widen_up cmp xa key m = Some l" "\<forall>k. m \<le> k \<and> k \<le> l \<longrightarrow> cmp key (?xs ! k) = 0"
        "l + 1 < length ?xs \<longrightarrow> cmp key (?xs ! (l + 1)) \<noteq> 0" using widen_up_ok [of xa m cmp key, OF ok m(1) e] by blast
      have "\<not> cmp key (?xs ! nat lo) < 0" using key_sortedD(2) [OF ks _ m(1), of "nat lo"] e m(2) mid(1) by (metis less_irrefl nat_int nat_mono)
      moreover have "cmp key (?xs ! nat hi) \<le> 0" using key_sortedD(1) [OF ks, of m "nat hi"] e m mid less.prems by auto
      ultimately have "lookup_loop cmp xa key lo hi = Some (Some (f, l))"
        using e f(2) l(3) ix [of lo] ix [of hi] mid less.prems unfolding step by simp
      then show ?thesis using widened_range [OF ks m(1) e f(1,3,4) l(1,2,4,5)] by blast
    qed
  qed
qed

lemma used_elems_contents:
  assumes "xa_ok xa"
  shows "used_elems xa = Some (contents xa)"
  using assms by (auto simp: used_elems_def xa_ok_def contents_def split: option.splits)

lemma sortXA_ok:
  assumes "xa_ok xa" "cmpFn xa = Some compar" "comparator compar"
  shows "\<exists>xa'. sortXA base xa = Some xa' \<and> xa_ok xa' \<and> mset (contents xa') = mset (contents xa)
    \<and> sorted_wrt (\<lambda>a b. compar a b \<le> 0) (contents xa') \<and> cmpFn xa' = Some compar \<and> sorted_flag xa'"
proof -
  have len: "usedsizeE xa = length (contents xa)" using assms(1) by simp
  obtain ys where ys: "ssort base (contents xa) (usedsizeE xa) (elemSzB xa) compar = Some ys"
    "length ys = length (contents xa)" "mset ys = mset (contents xa)" "sorted_wrt (\<lambda>a b. compar a b \<le> 0) ys"
    using comparator.bm_qsort_sorts [OF assms(3), of 0 "usedsizeE xa" "contents xa" base "elemSzB xa"]
      comparator.ord_on_sorted [OF assms(3)] len
    by (auto simp: ssort_def sorts_range_def same_outside_def)
  let ?y = "xa\<lparr>arr := map_option (\<lambda>a. map Some ys @ drop (usedsizeE xa) a) (arr xa), sorted_flag := True\<rparr>"
  have so: "sortXA base xa = Some ?y" using assms ys(1) by (simp add: sortXA_def used_elems_contents)
  have "xa_ok ?y \<and> contents ?y = ys"
  proof (cases "arr xa")
    case None
    then have "ys = []" using ys(2) len assms(1) by (simp add: xa_ok_def)
    then show ?thesis using None assms(1) by (simp add: xa_ok_def contents_def)
  next
    case (Some a)
    have u: "usedsizeE xa \<le> length a" "totsizeE xa = length a" "a \<noteq> []" using assms(1) Some by (auto simp: xa_ok_def)
    show ?thesis
      using u Some ys(2) len xa_ok_elem [OF assms(1)]
      by (intro xa_okI [where a = "map Some ys @ drop (usedsizeE xa) a"]) auto
  qed
  then show ?thesis using so ys assms(2) by (intro exI [of _ ?y]) simp
qed

context comparator
begin

lemma sorted_key_sorted:
  assumes "sorted_wrt (\<lambda>a b. cmp a b \<le> 0) xs"
  shows "key_sorted cmp key xs"
  unfolding key_sorted_def
proof (intro allI impI, elim conjE)
  fix i j assume ij: "i \<le> j" "j < length xs"
  have le: "cmp (xs ! i) (xs ! j) \<le> 0"
    using assms ij by (cases "i = j") (auto simp: sorted_wrt_iff_nth_less)
  show "(cmp key (xs ! i) \<le> 0 \<longrightarrow> cmp key (xs ! j) \<le> 0) \<and> (cmp key (xs ! i) < 0 \<longrightarrow> cmp key (xs ! j) < 0)"
    using cmp_trans [OF _ le] cmp_less_le_trans [OF _ le] by blast
qed

end

text \<open>C18: after \<open>setCmpFnXA\<close> with an order and \<open>sortXA\<close>, the array holds the same elements in order, and
  every \<open>lookupXA\<close> returns without a failing assertion: nothing if no element is equal to the key, and
  otherwise exactly the range of the equal elements.\<close>

theorem sortXA_lookupXA:
  assumes "xa_ok xa" "comparator compar"
  shows "\<exists>xa'. sortXA base (setCmpFnXA xa compar) = Some xa' \<and> xa_ok xa' \<and> mset (contents xa') = mset (contents xa)
    \<and> sorted_wrt (\<lambda>a b. compar a b \<le> 0) (contents xa')
    \<and> (\<forall>key. \<exists>r. lookupXA xa' key = Some r \<and> search_result compar key (contents xa') r)"
proof -
  let ?x = "setCmpFnXA xa compar"
  have x: "xa_ok ?x" "contents ?x = contents xa" "cmpFn ?x = Some compar"
    using assms(1) by (auto simp: xa_ok_def contents_def setCmpFnXA_def split: option.splits)
  obtain xa' where y: "sortXA base ?x = Some xa'" "xa_ok xa'" "mset (contents xa') = mset (contents xa)"
    "sorted_wrt (\<lambda>a b. compar a b \<le> 0) (contents xa')" "cmpFn xa' = Some compar" "sorted_flag xa'"
    using sortXA_ok [OF x(1,3) assms(2), of base] x(2) by auto
  have "\<exists>r. lookupXA xa' key = Some r \<and> search_result compar key (contents xa') r" for key
  proof -
    have "\<exists>r. lookup_loop compar xa' key 0 (int (usedsizeE xa') - 1) = Some r \<and> search_result compar key (contents xa') r"
      using y(2) comparator.sorted_key_sorted [OF assms(2) y(4)] by (intro lookup_loop_ok) auto
    then show ?thesis using y(5,6) by (simp add: lookupXA_def lookupXA_UNSAFE_def)
  qed
  with y show ?thesis by blast
qed

theorem sortXA_lookupXA_witness:
  "\<exists>xa'. sortXA 64 (setCmpFnXA \<lparr>cmpFn = None, elemSzB = 8, arr = Some [Some 5, Some 3, None], usedsizeE = 2, totsizeE = 3, sorted_flag = False\<rparr>
        (\<lambda>a b :: int. if a < b then -1 else if a > b then 1 else 0)) = Some xa'
    \<and> mset (contents xa') = {#5, 3#}"
proof -
  have "comparator (\<lambda>a b :: int. if a < b then -1 else if a > b then 1 else 0)"
    by unfold_locales (auto split: if_splits)
  from sortXA_lookupXA [OF _ this, of "\<lparr>cmpFn = None, elemSzB = 8, arr = Some [Some 5, Some 3, None], usedsizeE = 2, totsizeE = 3, sorted_flag = False\<rparr>" 64]
  show ?thesis by (auto simp: xa_ok_def contents_def)
qed

end
