(* ===== verification/RangeMap.thy ===== *)
theory RangeMap
  imports XArray_Props
begin

text \<open>
  The map from ranges of words to words of \<open>coregrind/m_rangemap.c\<close>, a client of the growable array.

  The first part translates the source. The second part shows that the ranges always partition the
  words, and that a sequence of bindings behaves like updates of a function on words. \<open>None\<close> is a
  failing assertion or the panic in \<open>find\<close>.
\<close>

section \<open>The data structure\<close>

record Range =
  key_min :: UWord
  key_max :: UWord
  val :: UWord

record RangeMap =
  ranges :: "Range XArray"

text \<open>Writing through a pointer into the array.\<close>

definition storeXA :: "'e XArray \<Rightarrow> int \<Rightarrow> ('e \<Rightarrow> 'e) \<Rightarrow> 'e XArray option" where
  "storeXA xa n f =
     do { e \<leftarrow> indexXA xa n; Some (xa\<lparr>arr := map_option (\<lambda>a. a[nat n := Some (f e)]) (arr xa)\<rparr>) }"

definition newRangeMap :: "UWord \<Rightarrow> RangeMap option" where
  "newRangeMap initialVal =
     do { xa \<leftarrow> newXA 24;
          (xa, i) \<leftarrow> addToXA xa \<lparr>key_min = 0, key_max = - 1, val = initialVal\<rparr>;
          vg_assert (i = 0);
          vg_assert (sizeXA xa = 1);
          Some \<lparr>ranges = xa\<rparr> }"

section \<open>Helper functions\<close>

lemma removeIndexXA_size: "removeIndexXA xa n = Some xa' \<Longrightarrow> usedsizeE xa' = usedsizeE xa - 1 \<and> 0 \<le> n \<and> n < int (usedsizeE xa)"
  by (auto simp: removeIndexXA_def vg_assert_bind elim!: bind_SomeE split: if_splits)

lemma storeXA_size: "storeXA xa n f = Some xa' \<Longrightarrow> usedsizeE xa' = usedsizeE xa"
  by (auto simp: storeXA_def elim!: bind_SomeE)

text \<open>When two neighbours are merged, the index is decremented and incremented again.\<close>

function preen_loop :: "Range XArray \<Rightarrow> nat \<Rightarrow> Range XArray option" where
  "preen_loop xa i =
     (if int i < int (sizeXA xa) - 1 then
        do { rng0 \<leftarrow> indexXA xa (int i);
             rng1 \<leftarrow> indexXA xa (int i + 1);
             (if val rng0 \<noteq> val rng1 then preen_loop xa (i + 1)
              else do { xa1 \<leftarrow> storeXA xa (int i) (\<lambda>r. r\<lparr>key_max := key_max rng1\<rparr>);
                        xa2 \<leftarrow> removeIndexXA xa1 (int i + 1);
                        preen_loop xa2 i }) }
      else Some xa)"
  by pat_completeness auto
termination
  by (relation "measure (\<lambda>(xa, i). usedsizeE xa - i)")
     (auto simp: sizeXA_def dest!: removeIndexXA_size storeXA_size)

declare preen_loop.simps [simp del]

definition preen :: "RangeMap \<Rightarrow> RangeMap option" where
  "preen rm = do { xa \<leftarrow> preen_loop (ranges rm) 0; Some (rm\<lparr>ranges := xa\<rparr>) }"

function find_loop :: "Range XArray \<Rightarrow> UWord \<Rightarrow> int \<Rightarrow> int \<Rightarrow> int option" where
  "find_loop xa key lo hi =
     (if lo > hi then None
      else
        do { let mid = (lo + hi) div 2;
             mid_rng \<leftarrow> indexXA xa mid;
             (if key < key_min mid_rng then find_loop xa key lo (mid - 1)
              else if key > key_max mid_rng then find_loop xa key (mid + 1) hi
              else Some mid) })"
  by pat_completeness auto
termination
  by (relation "measure (\<lambda>(xa, key, lo, hi). nat (hi - lo + 1))") auto

declare find_loop.simps [simp del]

definition find :: "RangeMap \<Rightarrow> UWord \<Rightarrow> int option" where
  "find rm key = find_loop (ranges rm) key 0 (int (sizeXA (ranges rm)))"

definition split_at :: "RangeMap \<Rightarrow> UWord \<Rightarrow> RangeMap option" where
  "split_at rm key =
     do { i \<leftarrow> find rm key;
          rng_i0 \<leftarrow> indexXA (ranges rm) i;
          (if key_min rng_i0 = key then Some rm
           else do { xa \<leftarrow> insertIndexXA (ranges rm) (i + 1) rng_i0;
                     xa \<leftarrow> storeXA xa i (\<lambda>r. r\<lparr>key_max := key - 1\<rparr>);
                     xa \<leftarrow> storeXA xa (i + 1) (\<lambda>r. r\<lparr>key_min := key\<rparr>);
                     Some (rm\<lparr>ranges := xa\<rparr>) }) }"

section \<open>Operations\<close>

function bind_loop :: "Range XArray \<Rightarrow> UWord \<Rightarrow> int \<Rightarrow> int \<Rightarrow> Range XArray option" where
  "bind_loop xa v i iMax =
     (if i \<le> iMax then do { xa \<leftarrow> storeXA xa i (\<lambda>r. r\<lparr>val := v\<rparr>); bind_loop xa v (i + 1) iMax } else Some xa)"
  by pat_completeness auto
termination
  by (relation "measure (\<lambda>(xa, v, i, iMax). nat (iMax - i + 1))") auto

declare bind_loop.simps [simp del]

definition bindRangeMap :: "RangeMap \<Rightarrow> UWord \<Rightarrow> UWord \<Rightarrow> UWord \<Rightarrow> RangeMap option" where
  "bindRangeMap rm kmin kmax v =
     do { vg_assert (kmin \<le> kmax);
          rm \<leftarrow> split_at rm kmin;
          rm \<leftarrow> (if kmax < - 1 then split_at rm (kmax + 1) else Some rm);
          iMin \<leftarrow> find rm kmin;
          iMax \<leftarrow> find rm kmax;
          xa \<leftarrow> bind_loop (ranges rm) v iMin iMax;
          preen (rm\<lparr>ranges := xa\<rparr>) }"

definition lookupRangeMap :: "RangeMap \<Rightarrow> UWord \<Rightarrow> (UWord \<times> UWord \<times> UWord) option" where
  "lookupRangeMap rm key =
     do { i \<leftarrow> find rm key;
          rng \<leftarrow> indexXA (ranges rm) i;
          Some (key_min rng, key_max rng, val rng) }"

text \<open>The number of ranges is a word that is returned in 32 bits.\<close>

definition sizeRangeMap :: "RangeMap \<Rightarrow> UInt" where
  "sizeRangeMap rm = of_nat (sizeXA (ranges rm))"

definition indexRangeMap :: "RangeMap \<Rightarrow> int \<Rightarrow> (UWord \<times> UWord \<times> UWord) option" where
  "indexRangeMap rm ix =
     do { rng \<leftarrow> indexXA (ranges rm) ix; Some (key_min rng, key_max rng, val rng) }"

text \<open>The blocks that are freed, in order.\<close>

datatype rm_block = ArrayBlock xa_block | RangeMapBlock

definition deleteRangeMap :: "RangeMap \<Rightarrow> rm_block list" where
  "deleteRangeMap rm = map ArrayBlock (deleteXA (ranges rm)) @ [RangeMapBlock]"

section \<open>Partitions of the words\<close>

abbreviation rlo :: "Range \<Rightarrow> nat" where
  "rlo r \<equiv> unat (key_min r)"

abbreviation rhi :: "Range \<Rightarrow> nat" where
  "rhi r \<equiv> unat (key_max r)"

text \<open>Non-empty ranges without gaps from \<open>lo\<close> up to but not including \<open>hi\<close>.\<close>

fun chain :: "nat \<Rightarrow> Range list \<Rightarrow> nat \<Rightarrow> bool" where
  "chain lo [] hi \<longleftrightarrow> lo = hi"
| "chain lo (r # rs) hi \<longleftrightarrow> rlo r = lo \<and> lo \<le> rhi r \<and> chain (rhi r + 1) rs hi"

lemma chain_append: "chain lo (xs @ ys) hi \<longleftrightarrow> (\<exists>m. chain lo xs m \<and> chain m ys hi)"
  by (induction xs arbitrary: lo) auto

lemma chain_le: "chain lo rs hi \<Longrightarrow> lo \<le> hi"
proof (induction rs arbitrary: lo)
  case (Cons r rs)
  have "rhi r + 1 \<le> hi" using Cons by simp
  then show ?case using Cons.prems by simp
qed simp

lemma chain_bounds: "chain lo rs hi \<Longrightarrow> r \<in> set rs \<Longrightarrow> lo \<le> rlo r \<and> rlo r \<le> rhi r \<and> rhi r < hi"
proof (induction rs arbitrary: lo)
  case (Cons r' rs)
  have "rhi r' + 1 \<le> hi" using chain_le Cons.prems(1) by auto
  then show ?case using Cons by fastforce
qed simp

lemma chain_sorted:
  assumes "chain lo rs hi" "i < j" "j < length rs"
  shows "rhi (rs ! i) < rlo (rs ! j)"
proof -
  have rs: "rs = take i rs @ rs ! i # drop (Suc i) rs" using assms by (simp add: id_take_nth_drop)
  then obtain m where "chain m (rs ! i # drop (Suc i) rs) hi" using assms(1) chain_append by metis
  then have "chain (rhi (rs ! i) + 1) (drop (Suc i) rs) hi" by simp
  moreover have "rs ! j \<in> set (drop (Suc i) rs)"
    using assms(2,3) by (auto simp: in_set_conv_nth intro!: exI [of _ "j - Suc i"])
  ultimately show ?thesis using chain_bounds by fastforce
qed

lemma chain_next:
  assumes "chain lo rs hi" "Suc i < length rs"
  shows "rlo (rs ! Suc i) = rhi (rs ! i) + 1"
proof -
  have rs: "rs = take i rs @ rs ! i # rs ! Suc i # drop (Suc (Suc i)) rs"
    using assms by (metis Cons_nth_drop_Suc Suc_lessD id_take_nth_drop)
  then obtain m where "chain m (rs ! i # rs ! Suc i # drop (Suc (Suc i)) rs) hi" using assms(1) chain_append by metis
  then show ?thesis by simp
qed

lemma chain_find:
  "chain lo rs hi \<Longrightarrow> lo \<le> k \<Longrightarrow> k < hi \<Longrightarrow> \<exists>i < length rs. rlo (rs ! i) \<le> k \<and> k \<le> rhi (rs ! i)"
proof (induction rs arbitrary: lo)
  case (Cons r rs)
  show ?case
  proof (cases "k \<le> rhi r")
    case True
    then show ?thesis using Cons.prems by (intro exI [of _ 0]) simp
  next
    case False
    then obtain i where "i < length rs" "rlo (rs ! i) \<le> k \<and> k \<le> rhi (rs ! i)"
      using Cons.IH [of "rhi r + 1"] Cons.prems by auto
    then show ?thesis by (intro exI [of _ "Suc i"]) simp
  qed
qed simp

text \<open>The ranges partition all words.\<close>

definition covers :: "Range list \<Rightarrow> bool" where
  "covers rs \<longleftrightarrow> chain 0 rs (2 ^ 64)"

definition maps :: "Range list \<Rightarrow> (UWord \<Rightarrow> UWord) \<Rightarrow> bool" where
  "maps rs f \<longleftrightarrow> (\<forall>r \<in> set rs. \<forall>k. key_min r \<le> k \<and> k \<le> key_max r \<longrightarrow> f k = val r)"

definition distinct_neighbours :: "Range list \<Rightarrow> bool" where
  "distinct_neighbours rs \<longleftrightarrow> (\<forall>i. Suc i < length rs \<longrightarrow> val (rs ! i) \<noteq> val (rs ! Suc i))"

text \<open>The word map \<open>rm\<close> represents the function \<open>f\<close>.\<close>

definition rm_is :: "RangeMap \<Rightarrow> (UWord \<Rightarrow> UWord) \<Rightarrow> bool" where
  "rm_is rm f \<longleftrightarrow> xa_ok (ranges rm) \<and> covers (contents (ranges rm)) \<and> maps (contents (ranges rm)) f"

definition in_range_of :: "Range \<Rightarrow> UWord \<Rightarrow> bool" where
  "in_range_of r k \<longleftrightarrow> key_min r \<le> k \<and> k \<le> key_max r"

lemma covers_nonempty: "covers rs \<Longrightarrow> rs \<noteq> []"
  by (auto simp: covers_def)

section \<open>Searching\<close>

lemma index_ok: "xa_ok xa \<Longrightarrow> i < length (contents xa) \<Longrightarrow> indexXA xa (int i) = Some (contents xa ! i)"
  using xarray.get_law [of xa "int i"] by simp

lemma find_loop_ok:
  assumes ok: "xa_ok xa" and cov: "covers (contents xa)"
    and i: "i < length (contents xa)" "in_range_of (contents xa ! i) key"
  shows "0 \<le> lo \<Longrightarrow> lo \<le> int i \<Longrightarrow> int i \<le> hi \<Longrightarrow> hi \<le> int (length (contents xa)) \<Longrightarrow> find_loop xa key lo hi = Some (int i)"
proof (induction "nat (hi - lo + 1)" arbitrary: lo hi rule: less_induct)
  case less
  let ?rs = "contents xa"
  define m where "m = nat ((lo + hi) div 2)"
  have m: "(lo + hi) div 2 = int m" "lo \<le> int m" "int m \<le> hi" using less.prems by (auto simp: m_def)
  have lt: "m < length ?rs" using less.prems i(1) m(1) by linarith
  have step: "find_loop xa key lo hi =
      (if key < key_min (?rs ! m) then find_loop xa key lo (int m - 1)
       else if key > key_max (?rs ! m) then find_loop xa key (int m + 1) hi else Some (int m))"
    using less.prems m index_ok [OF ok lt] by (subst find_loop.simps) (simp add: Let_def)
  have so: "rhi (?rs ! a) < rlo (?rs ! b)" if "a < b" "b < length ?rs" for a b
    using chain_sorted cov that unfolding covers_def by blast
  have k: "rlo (?rs ! i) \<le> unat key" "unat key \<le> rhi (?rs ! i)" using i(2) by (auto simp: in_range_of_def word_le_nat_alt)
  have wf: "rlo (?rs ! a) \<le> rhi (?rs ! a)" if "a < length ?rs" for a
    using chain_bounds [of 0 ?rs "2 ^ 64" "?rs ! a"] cov that unfolding covers_def by simp
  show ?case
  proof (cases i m rule: linorder_cases)
    case less
    then have "key < key_min (?rs ! m)" using so [of i m] lt k by (simp add: word_less_nat_alt)
    then show ?thesis unfolding step using less.hyps [of "int m - 1" lo] less less.prems m by auto
  next
    case equal
    then show ?thesis unfolding step using k by (simp add: word_less_nat_alt)
  next
    case greater
    then have "key_max (?rs ! m) < key" using so [of m i] i(1) k by (simp add: word_less_nat_alt)
    moreover have "\<not> key < key_min (?rs ! m)" using calculation wf [OF lt] by (simp add: word_less_nat_alt)
    ultimately show ?thesis unfolding step using less.hyps [of hi "int m + 1"] greater less.prems m by auto
  qed
qed

lemma find_ok:
  assumes "xa_ok (ranges rm)" "covers (contents (ranges rm))"
  obtains i where "find rm key = Some (int i)" "i < length (contents (ranges rm))"
    "in_range_of (contents (ranges rm) ! i) key"
proof -
  obtain i where i: "i < length (contents (ranges rm))" "rlo (contents (ranges rm) ! i) \<le> unat key"
    "unat key \<le> rhi (contents (ranges rm) ! i)"
    using chain_find [of 0 "contents (ranges rm)" "2 ^ 64" "unat key"] assms(2) unsigned_less [of key]
    unfolding covers_def by auto
  then have "in_range_of (contents (ranges rm) ! i) key" by (simp add: in_range_of_def word_le_nat_alt)
  moreover from this have "find rm key = Some (int i)"
    using find_loop_ok [OF assms i(1)] i(1) assms(1) by (simp add: find_def sizeXA_def)
  ultimately show thesis using that i(1) by blast
qed

lemma storeXA_ok:
  assumes "xa_ok xa" "i < length (contents xa)"
  shows "\<exists>xa'. storeXA xa (int i) f = Some xa' \<and> xa_ok xa' \<and> contents xa' = (contents xa)[i := f (contents xa ! i)]"
proof -
  obtain a where a: "arr xa = Some a" using assms by (auto simp: xa_ok_def contents_def split: option.splits)
  obtain r where r: "a = map Some (contents xa) @ r" "totsizeE xa = length a" "usedsizeE xa = length (contents xa)" "a \<noteq> []"
    by (rule xa_ok_arr [OF assms(1) a])
  let ?y = "xa\<lparr>arr := Some (a[i := Some (f (contents xa ! i))])\<rparr>"
  have u: "a[i := Some (f (contents xa ! i))] = map Some ((contents xa)[i := f (contents xa ! i)]) @ r"
    using assms(2) by (subst r(1)) (simp add: list_update_append map_update)
  have "xa_ok ?y \<and> contents ?y = (contents xa)[i := f (contents xa ! i)]"
    using r xa_ok_elem [OF assms(1)] u by (intro xa_okI [where a = "a[i := Some (f (contents xa ! i))]"]) auto
  then show ?thesis using a index_ok [OF assms] by (simp add: storeXA_def)
qed

section \<open>Splitting\<close>

text \<open>Splitting the range \<open>r\<close> at \<open>key\<close>.\<close>

definition split_list :: "Range list \<Rightarrow> nat \<Rightarrow> UWord \<Rightarrow> Range list" where
  "split_list rs i key = take i rs @ (rs ! i)\<lparr>key_max := key - 1\<rparr> # (rs ! i)\<lparr>key_min := key\<rparr> # drop (Suc i) rs"

lemma split_updates:
  assumes "i < length rs"
  shows "((take (i + 1) rs @ rs ! i # drop (i + 1) rs)[i := (rs ! i)\<lparr>key_max := key - 1\<rparr>])[i + 1 := (rs ! i)\<lparr>key_min := key\<rparr>]
    = split_list rs i key"
  using assms by (simp add: split_list_def take_Suc_conv_app_nth list_update_append)

lemma unat_pred: "key \<noteq> 0 \<Longrightarrow> unat (key - 1 :: UWord) = unat key - 1"
  by (simp add: unat_minus_one)

lemma split_list_ok:
  assumes "covers rs" "maps rs f" "i < length rs" "in_range_of (rs ! i) key" "key_min (rs ! i) \<noteq> key"
  shows "covers (split_list rs i key)" "maps (split_list rs i key) f"
    "\<exists>j < length (split_list rs i key). key_min (split_list rs i key ! j) = key"
    "\<And>k. \<exists>j < length rs. key_min (rs ! j) = k \<Longrightarrow> \<exists>j < length (split_list rs i key). key_min (split_list rs i key ! j) = k"
proof -
  let ?r = "rs ! i"
  have rs: "rs = take i rs @ ?r # drop (Suc i) rs" using assms(3) by (rule id_take_nth_drop)
  have k: "key_min ?r < key" "key \<le> key_max ?r" using assms(4,5) by (auto simp: in_range_of_def)
  then have k': "rlo ?r < unat key" "unat key \<le> rhi ?r" by (simp_all add: word_less_nat_alt word_le_nat_alt)
  then have nz: "key \<noteq> 0" by auto
  obtain m where m: "chain 0 (take i rs) m" "chain m (?r # drop (Suc i) rs) (2 ^ 64)"
    using assms(1) rs chain_append unfolding covers_def by metis
  have "chain m (?r\<lparr>key_max := key - 1\<rparr> # ?r\<lparr>key_min := key\<rparr> # drop (Suc i) rs) (2 ^ 64)"
    using m(2) k' nz by (simp add: unat_pred)
  then show "covers (split_list rs i key)" using m(1) unfolding covers_def split_list_def chain_append by blast
  have ri: "?r \<in> set rs" using assms(3) by simp
  have old: "f k = val ?r" if "key_min ?r \<le> k" "k \<le> key_max ?r" for k
    using assms(2) ri that unfolding maps_def by blast
  have "key - 1 \<le> key" using nz by (simp add: word_le_nat_alt unat_pred)
  then have le: "key - 1 \<le> key_max ?r" using k(2) by (rule order.trans)
  have sub: "r \<in> set rs" if "r \<in> set (take i rs) \<or> r \<in> set (drop (Suc i) rs)" for r
    using that by (auto dest: in_set_takeD in_set_dropD)
  show "maps (split_list rs i key) f"
    unfolding maps_def
  proof (intro ballI allI impI)
    fix r l assume r: "r \<in> set (split_list rs i key)" and l: "key_min r \<le> l \<and> l \<le> key_max r"
    from r consider "r = ?r\<lparr>key_max := key - 1\<rparr>" | "r = ?r\<lparr>key_min := key\<rparr>" | "r \<in> set rs"
      unfolding split_list_def using sub by auto
    then show "f l = val r"
    proof cases
      case 1
      have "l \<le> key_max ?r" using l le unfolding 1 by (simp, meson order.trans)
      then show ?thesis using old [of l] l unfolding 1 by simp
    next
      case 2
      have "key_min ?r \<le> l" using l k(1) unfolding 2 by (simp, meson order.trans less_imp_le)
      then show ?thesis using old [of l] l unfolding 2 by simp
    next
      case 3
      then show ?thesis using assms(2) l unfolding maps_def by blast
    qed
  qed
  have key: "set (map key_min (split_list rs i key)) = insert key (set (map key_min rs))"
    using arg_cong [OF rs, of "\<lambda>l. set (map key_min l)"] by (auto simp: split_list_def)
  have ex: "(\<exists>j < length xs. key_min (xs ! j) = k) \<longleftrightarrow> k \<in> set (map key_min xs)" for xs k
    unfolding set_map image_iff Bex_def in_set_conv_nth by blast
  show "\<exists>j < length (split_list rs i key). key_min (split_list rs i key ! j) = key"
    unfolding ex key by simp
  show "\<exists>j < length (split_list rs i key). key_min (split_list rs i key ! j) = k"
    if "\<exists>j < length rs. key_min (rs ! j) = k" for k
    using that unfolding ex key by simp
qed

definition starts :: "RangeMap \<Rightarrow> UWord \<Rightarrow> bool" where
  "starts rm k \<longleftrightarrow> (\<exists>j < length (contents (ranges rm)). key_min (contents (ranges rm) ! j) = k)"

lemma split_at_ok:
  assumes "rm_is rm f"
  shows "\<exists>rm'. split_at rm key = Some rm' \<and> rm_is rm' f \<and> starts rm' key \<and> (\<forall>k. starts rm k \<longrightarrow> starts rm' k)"
proof -
  have ok: "xa_ok (ranges rm)" and cov: "covers (contents (ranges rm))" and mp: "maps (contents (ranges rm)) f"
    using assms by (auto simp: rm_is_def)
  let ?rs = "contents (ranges rm)"
  obtain i where i: "find rm key = Some (int i)" "i < length ?rs" "in_range_of (?rs ! i) key" by (rule find_ok [OF ok cov])
  show ?thesis
  proof (cases "key_min (?rs ! i) = key")
    case True
    then have "split_at rm key = Some rm" using i index_ok [OF ok i(2)] by (simp add: split_at_def)
    then show ?thesis using assms True i(2) by (intro exI [of _ rm]) (auto simp: starts_def)
  next
    case False
    obtain xa1 where x1: "insertIndexXA (ranges rm) (int i + 1) (?rs ! i) = Some xa1" "xa_ok xa1"
      "contents xa1 = take (i + 1) ?rs @ ?rs ! i # drop (i + 1) ?rs"
      using insertIndexXA_ok [OF ok, of "int i + 1" "?rs ! i"] i(2) by (auto simp: nat_add_distrib)
    have n1: "contents xa1 ! i = ?rs ! i" "contents xa1 ! (i + 1) = ?rs ! i" "i + 1 < length (contents xa1)"
      using i(2) by (auto simp: x1(3) nth_append min_def)
    obtain xa2 where x2: "storeXA xa1 (int i) (\<lambda>r. r\<lparr>key_max := key - 1\<rparr>) = Some xa2" "xa_ok xa2"
      "contents xa2 = (contents xa1)[i := (?rs ! i)\<lparr>key_max := key - 1\<rparr>]"
      using storeXA_ok [OF x1(2), of i "\<lambda>r. r\<lparr>key_max := key - 1\<rparr>"] n1 by auto
    obtain xa3 where x3: "storeXA xa2 (int i + 1) (\<lambda>r. r\<lparr>key_min := key\<rparr>) = Some xa3" "xa_ok xa3"
      "contents xa3 = (contents xa2)[i + 1 := (?rs ! i)\<lparr>key_min := key\<rparr>]"
      using storeXA_ok [OF x2(2), of "i + 1" "\<lambda>r. r\<lparr>key_min := key\<rparr>"] n1 x2(3) by (auto simp: add.commute)
    have c: "contents xa3 = split_list ?rs i key" unfolding x3(3) x2(3) x1(3) by (rule split_updates [OF i(2)])
    have "split_at rm key = Some (rm\<lparr>ranges := xa3\<rparr>)"
      using False i(1) index_ok [OF ok i(2)] x1(1) x2(1) x3(1) by (simp add: split_at_def)
    then show ?thesis
      using split_list_ok [OF cov mp i(2,3) False] x3(2) c
      by (intro exI [of _ "rm\<lparr>ranges := xa3\<rparr>"]) (simp add: rm_is_def starts_def)
  qed
qed

section \<open>Binding\<close>

lemma bind_loop_ok:
  "xa_ok xa \<Longrightarrow> j < length (contents xa) \<Longrightarrow> i \<le> Suc j \<Longrightarrow>
    \<exists>xa'. bind_loop xa v (int i) (int j) = Some xa' \<and> xa_ok xa' \<and> length (contents xa') = length (contents xa)
      \<and> (\<forall>k < length (contents xa). contents xa' ! k = (if i \<le> k \<and> k \<le> j then (contents xa ! k)\<lparr>val := v\<rparr> else contents xa ! k))"
proof (induction "Suc j - i" arbitrary: xa i)
  case 0
  then show ?case by (subst bind_loop.simps) auto
next
  case (Suc d)
  then have ij: "i \<le> j" by simp
  obtain xa1 where x1: "storeXA xa (int i) (\<lambda>r. r\<lparr>val := v\<rparr>) = Some xa1" "xa_ok xa1"
    "contents xa1 = (contents xa)[i := (contents xa ! i)\<lparr>val := v\<rparr>]"
    using storeXA_ok [OF Suc.prems(1), of i "\<lambda>r. r\<lparr>val := v\<rparr>"] Suc.prems ij by auto
  have "d = Suc j - Suc i" "j < length (contents xa1)" "Suc i \<le> Suc j" using Suc x1(3) ij by auto
  from Suc.hyps(1) [OF this(1) x1(2) this(2,3)] obtain xa2 where x2: "bind_loop xa1 v (int (Suc i)) (int j) = Some xa2" "xa_ok xa2"
    "length (contents xa2) = length (contents xa1)"
    "\<And>k. k < length (contents xa1) \<Longrightarrow> contents xa2 ! k = (if Suc i \<le> k \<and> k \<le> j then (contents xa1 ! k)\<lparr>val := v\<rparr> else contents xa1 ! k)"
    by blast
  have "contents xa2 ! k = (if i \<le> k \<and> k \<le> j then (contents xa ! k)\<lparr>val := v\<rparr> else contents xa ! k)"
    if "k < length (contents xa)" for k
    using x2(4) [of k] that ij x1(3) by (cases "k = i") auto
  moreover have "bind_loop xa v (int i) (int j) = Some xa2"
    using ij x1(1) x2(1) by (subst bind_loop.simps) (simp add: add.commute)
  ultimately show ?case using x2(2,3) x1(3) by auto
qed

lemma chain_same_keys:
  "chain lo rs hi \<Longrightarrow> length rs' = length rs \<Longrightarrow> (\<And>k. k < length rs \<Longrightarrow> key_min (rs' ! k) = key_min (rs ! k) \<and> key_max (rs' ! k) = key_max (rs ! k))
    \<Longrightarrow> chain lo rs' hi"
proof (induction rs arbitrary: lo rs')
  case (Cons r rs)
  obtain r' t where t: "rs' = r' # t" using Cons.prems(2) by (cases rs') auto
  have "key_min r' = key_min r" "key_max r' = key_max r" using Cons.prems(3) [of 0] t by auto
  moreover have "chain (rhi r + 1) t hi"
  proof (rule Cons.IH)
    show "key_min (t ! k) = key_min (rs ! k) \<and> key_max (t ! k) = key_max (rs ! k)" if "k < length rs" for k
      using Cons.prems(3) [of "Suc k"] that t by simp
  qed (use Cons.prems t in simp_all)
  ultimately show ?case using Cons.prems(1) t by simp
qed simp

lemma bound_maps:
  assumes cov: "covers rs" and mp: "maps rs f" and i: "i < length rs" "key_min (rs ! i) = kmin"
    and j: "j < length rs" "key_max (rs ! j) = kmax" and len: "length rs' = length rs"
    and nth: "\<And>k. k < length rs \<Longrightarrow> rs' ! k = (if i \<le> k \<and> k \<le> j then (rs ! k)\<lparr>val := v\<rparr> else rs ! k)"
  shows "covers rs'" "maps rs' (\<lambda>k. if kmin \<le> k \<and> k \<le> kmax then v else f k)"
proof -
  show "covers rs'" using chain_same_keys [OF _ len, of 0 "2 ^ 64"] cov nth unfolding covers_def by simp
  have so: "rhi (rs ! a) < rlo (rs ! b)" if "a < b" "b < length rs" for a b
    using chain_sorted cov that unfolding covers_def by blast
  have wf: "rlo (rs ! a) \<le> rhi (rs ! a)" if "a < length rs" for a
    using chain_bounds [of 0 rs "2 ^ 64" "rs ! a"] cov that unfolding covers_def by simp
  show "maps rs' (\<lambda>k. if kmin \<le> k \<and> k \<le> kmax then v else f k)"
    unfolding maps_def
  proof (intro ballI allI impI)
    fix r k assume "r \<in> set rs'" and k: "key_min r \<le> k \<and> k \<le> key_max r"
    then obtain n where n: "n < length rs" "r = rs' ! n" using len by (auto simp: in_set_conv_nth)
    have kb: "rlo (rs ! n) \<le> unat k" "unat k \<le> rhi (rs ! n)"
      using k n nth [of n] by (auto simp: word_le_nat_alt split: if_splits)
    have km: "kmin \<le> k \<longleftrightarrow> rlo (rs ! i) \<le> unat k" "k \<le> kmax \<longleftrightarrow> unat k \<le> rhi (rs ! j)"
      using i(2) j(2) by (auto simp: word_le_nat_alt)
    show "(if kmin \<le> k \<and> k \<le> kmax then v else f k) = val r"
    proof (cases "i \<le> n \<and> n \<le> j")
      case True
      have "rlo (rs ! i) \<le> unat k" using True kb so [of i n] n wf [of i] i by (cases "i = n") auto
      moreover have "unat k \<le> rhi (rs ! j)" using True kb so [of n j] j wf [of j] by (cases "n = j") auto
      ultimately show ?thesis using km True n nth [of n] by simp
    next
      case False
      have "\<not> (kmin \<le> k \<and> k \<le> kmax)"
      proof (cases "n < i")
        case True
        then show ?thesis using so [of n i] i kb km by auto
      next
        case nf: False
        then have "j < n" using False by simp
        then show ?thesis using so [of j n] n kb km by auto
      qed
      moreover have "f k = val (rs ! n)"
        using mp n(1) kb unfolding maps_def by (simp add: word_le_nat_alt)
      ultimately show ?thesis using False n nth [of n] by auto
    qed
  qed
qed

section \<open>Merging neighbours\<close>

definition merge_at :: "Range list \<Rightarrow> nat \<Rightarrow> Range list" where
  "merge_at rs i = take i rs @ (rs ! i)\<lparr>key_max := key_max (rs ! Suc i)\<rparr> # drop (i + 2) rs"

lemma merge_at_updates:
  assumes "Suc i < length rs"
  shows "take (i + 1) (rs[i := r]) @ drop (i + 1 + 1) (rs[i := r]) = take i rs @ r # drop (i + 2) rs"
  using assms by (simp add: take_Suc_conv_app_nth)

lemma merge_at_ok:
  assumes "covers rs" "maps rs f" "Suc i < length rs" "val (rs ! i) = val (rs ! Suc i)"
  shows "covers (merge_at rs i)" "maps (merge_at rs i) f"
proof -
  have rs: "rs = take i rs @ rs ! i # rs ! Suc i # drop (i + 2) rs"
    using assms(3) by (metis Cons_nth_drop_Suc Suc_lessD id_take_nth_drop add_2_eq_Suc')
  obtain m where m: "chain 0 (take i rs) m" "chain m (rs ! i # rs ! Suc i # drop (i + 2) rs) (2 ^ 64)"
    using assms(1) rs chain_append unfolding covers_def by metis
  then show "covers (merge_at rs i)" unfolding covers_def merge_at_def chain_append by auto
  have next_lo: "rlo (rs ! Suc i) = rhi (rs ! i) + 1" using m(2) by simp
  show "maps (merge_at rs i) f"
    unfolding maps_def
  proof (intro ballI allI impI)
    fix r k assume r: "r \<in> set (merge_at rs i)" and k: "key_min r \<le> k \<and> k \<le> key_max r"
    have in_rs: "rs ! i \<in> set rs" "rs ! Suc i \<in> set rs" using assms(3) by auto
    consider "r \<in> set rs" | "r = (rs ! i)\<lparr>key_max := key_max (rs ! Suc i)\<rparr>"
      using r unfolding merge_at_def by (auto dest: in_set_takeD in_set_dropD)
    then show "f k = val r"
    proof cases
      case 1
      then show ?thesis using assms(2) k unfolding maps_def by blast
    next
      case 2
      then have "key_min (rs ! i) \<le> k \<and> k \<le> key_max (rs ! i) \<or> key_min (rs ! Suc i) \<le> k \<and> k \<le> key_max (rs ! Suc i)"
        using k next_lo by (auto simp: word_le_nat_alt)
      then show ?thesis using assms(2,4) in_rs 2 unfolding maps_def by (elim disjE) auto
    qed
  qed
qed

lemma merge_at_nth:
  assumes "Suc i < length rs"
  shows "length (merge_at rs i) = length rs - 1" "j < i \<Longrightarrow> merge_at rs i ! j = rs ! j" "val (merge_at rs i ! i) = val (rs ! i)"
  using assms by (auto simp: merge_at_def nth_append)

lemma preen_loop_ok:
  "xa_ok xa \<Longrightarrow> covers (contents xa) \<Longrightarrow> maps (contents xa) f \<Longrightarrow>
   (\<forall>j < i. Suc j < length (contents xa) \<longrightarrow> val (contents xa ! j) \<noteq> val (contents xa ! Suc j)) \<Longrightarrow>
   \<exists>xa'. preen_loop xa i = Some xa' \<and> xa_ok xa' \<and> covers (contents xa') \<and> maps (contents xa') f \<and> distinct_neighbours (contents xa')"
proof (induction "usedsizeE xa - i" arbitrary: xa i rule: less_induct)
  case less
  let ?rs = "contents xa"
  have len: "length ?rs = usedsizeE xa" using less.prems(1) by simp
  show ?case
  proof (cases "Suc i < length ?rs")
    case False
    then have "distinct_neighbours ?rs" using less.prems(4) unfolding distinct_neighbours_def by auto
    moreover have "preen_loop xa i = Some xa" using False len by (subst preen_loop.simps) (auto simp: sizeXA_def)
    ultimately show ?thesis using less.prems by blast
  next
    case True
    have ix: "indexXA xa (int i) = Some (?rs ! i)" "indexXA xa (int i + 1) = Some (?rs ! Suc i)"
      using index_ok [OF less.prems(1), of i] index_ok [OF less.prems(1), of "Suc i"] True by (auto simp: add.commute)
    show ?thesis
    proof (cases "val (?rs ! i) = val (?rs ! Suc i)")
      case False
      have "\<forall>j < i + 1. Suc j < length ?rs \<longrightarrow> val (?rs ! j) \<noteq> val (?rs ! Suc j)"
        using less.prems(4) False by (auto simp: less_Suc_eq)
      moreover have "usedsizeE xa - (i + 1) < usedsizeE xa - i" using True len by simp
      ultimately obtain xa' where "preen_loop xa (i + 1) = Some xa'" "xa_ok xa'"
        "covers (contents xa')" "maps (contents xa') f" "distinct_neighbours (contents xa')"
        using less.hyps less.prems(1-3) by meson
      moreover have "preen_loop xa i = preen_loop xa (i + 1)"
        using True False ix len by (subst preen_loop.simps) (simp add: sizeXA_def)
      ultimately show ?thesis by auto
    next
      case eq: True
      obtain xa1 where x1: "storeXA xa (int i) (\<lambda>r. r\<lparr>key_max := key_max (?rs ! Suc i)\<rparr>) = Some xa1" "xa_ok xa1"
        "contents xa1 = ?rs[i := (?rs ! i)\<lparr>key_max := key_max (?rs ! Suc i)\<rparr>]"
        using storeXA_ok [OF less.prems(1), of i "\<lambda>r. r\<lparr>key_max := key_max (?rs ! Suc i)\<rparr>"] True by auto
      have nat1: "nat (int i + 1) = i + 1" by simp
      obtain xa2 where x2: "removeIndexXA xa1 (int i + 1) = Some xa2" "xa_ok xa2" "contents xa2 = merge_at ?rs i"
        using removeIndexXA_ok [OF x1(2), of "int i + 1"] True x1(3)
        unfolding nat1 x1(3) merge_at_updates [OF True] merge_at_def by auto
      note m = merge_at_nth [OF True]
      have "val (contents xa2 ! j) \<noteq> val (contents xa2 ! Suc j)" if "j < i" for j
        using less.prems(4) that m True unfolding x2(3) by (cases "Suc j = i") auto
      moreover have "usedsizeE xa2 - i < usedsizeE xa - i" using length_contents [OF x2(2)] x2(3) m(1) len True by simp
      ultimately have "\<exists>xa'. preen_loop xa2 i = Some xa' \<and> xa_ok xa' \<and> covers (contents xa') \<and> maps (contents xa') f
          \<and> distinct_neighbours (contents xa')"
        using less.hyps x2 merge_at_ok [OF less.prems(2,3) True eq] by metis
      moreover have "preen_loop xa i = preen_loop xa2 i"
        using True eq ix len x1(1) x2(1) by (subst preen_loop.simps) (simp add: sizeXA_def)
      ultimately show ?thesis by simp
    qed
  qed
qed

section \<open>The range map as a function\<close>

lemma covers_unique:
  assumes "covers rs" "a < length rs" "b < length rs" "in_range_of (rs ! a) k" "in_range_of (rs ! b) k"
  shows "a = b"
proof -
  have "rhi (rs ! x) < rlo (rs ! y)" if "x < y" "y < length rs" for x y
    using chain_sorted assms(1) that unfolding covers_def by blast
  moreover have "rlo (rs ! a) \<le> unat k" "unat k \<le> rhi (rs ! a)" "rlo (rs ! b) \<le> unat k" "unat k \<le> rhi (rs ! b)"
    using assms(4,5) by (auto simp: in_range_of_def word_le_nat_alt)
  ultimately show ?thesis using assms(2,3) by (metis leD le_less_trans linorder_neqE_nat order.strict_trans1)
qed

lemma covers_range_ok: "covers rs \<Longrightarrow> i < length rs \<Longrightarrow> key_min (rs ! i) \<le> key_max (rs ! i)"
  using chain_bounds [of 0 rs "2 ^ 64" "rs ! i"] by (simp add: covers_def word_le_nat_alt)

text \<open>What a binding keeps: a map that represents a function, in normal form.\<close>

definition rm_repr :: "RangeMap \<Rightarrow> (UWord \<Rightarrow> UWord) \<Rightarrow> bool" where
  "rm_repr rm f \<longleftrightarrow> rm_is rm f \<and> distinct_neighbours (contents (ranges rm))"

lemma word_less_minus_one: "(k :: UWord) < - 1 \<Longrightarrow> unat (k + 1) = unat k + 1"
  by (simp add: word_less_nat_alt unat_word_ariths unsigned_minus_1_eq_mask mask_eq_exp_minus_1)

lemma bind_bounds:
  assumes cov: "covers rs" and i: "i < length rs" "in_range_of (rs ! i) kmin" and a: "a < length rs" "key_min (rs ! a) = kmin"
    and j: "j < length rs" "in_range_of (rs ! j) kmax" and b: "kmax < - 1 \<Longrightarrow> \<exists>b < length rs. key_min (rs ! b) = kmax + 1"
    and le: "kmin \<le> kmax"
  shows "key_min (rs ! i) = kmin" "key_max (rs ! j) = kmax" "i \<le> Suc j"
proof -
  have "in_range_of (rs ! a) kmin" using a covers_range_ok [OF cov a(1)] by (simp add: in_range_of_def)
  then have "i = a" using covers_unique [OF cov i(1) a(1) i(2)] by blast
  then show "key_min (rs ! i) = kmin" using a by simp
  show "key_max (rs ! j) = kmax"
  proof (rule ccontr)
    assume ne: "key_max (rs ! j) \<noteq> kmax"
    then have lt: "kmax < key_max (rs ! j)" using j(2) by (auto simp: in_range_of_def)
    then have m: "kmax < - 1" by (metis order.strict_trans1 word_n1_ge less_le_not_le not_less)
    then obtain b where b: "b < length rs" "key_min (rs ! b) = kmax + 1" using b by blast
    have "in_range_of (rs ! j) (kmax + 1)"
      using lt j(2) word_less_minus_one [OF m] by (simp add: in_range_of_def word_le_nat_alt word_less_nat_alt)
    moreover have "in_range_of (rs ! b) (kmax + 1)" using b covers_range_ok [OF cov b(1)] by (simp add: in_range_of_def)
    ultimately have "j = b" using covers_unique [OF cov j(1) b(1)] by blast
    then show False using b(2) j(2) word_less_minus_one [OF m] by (simp add: in_range_of_def word_le_nat_alt)
  qed
  show "i \<le> Suc j"
  proof (rule ccontr)
    assume "\<not> i \<le> Suc j"
    then have "rhi (rs ! j) < rlo (rs ! i)" using chain_sorted [of 0 rs "2 ^ 64" j i] cov i(1) by (simp add: covers_def)
    then show False using i(2) j(2) le unfolding in_range_of_def word_le_nat_alt by linarith
  qed
qed

lemma bindRangeMap_ok:
  assumes "rm_is rm f" "kmin \<le> kmax"
  shows "\<exists>rm'. bindRangeMap rm kmin kmax v = Some rm' \<and> rm_repr rm' (\<lambda>k. if kmin \<le> k \<and> k \<le> kmax then v else f k)"
proof -
  obtain rm1 where r1: "split_at rm kmin = Some rm1" "rm_is rm1 f" "starts rm1 kmin"
    using split_at_ok [OF assms(1), of kmin] by blast
  obtain rm2 where r2: "(if kmax < - 1 then split_at rm1 (kmax + 1) else Some rm1) = Some rm2" "rm_is rm2 f"
    "starts rm2 kmin" "kmax < - 1 \<Longrightarrow> starts rm2 (kmax + 1)"
  proof (cases "kmax < - 1")
    case True
    obtain rm2 where "split_at rm1 (kmax + 1) = Some rm2" "rm_is rm2 f" "starts rm2 (kmax + 1)" "starts rm2 kmin"
      using split_at_ok [OF r1(2), of "kmax + 1"] r1(3) by meson
    then show thesis using that True by simp
  next
    case False
    then show thesis using that r1 by auto
  qed
  let ?rs = "contents (ranges rm2)"
  have ok: "xa_ok (ranges rm2)" and cov: "covers ?rs" and mp: "maps ?rs f" using r2(2) by (auto simp: rm_is_def)
  obtain i where i: "find rm2 kmin = Some (int i)" "i < length ?rs" "in_range_of (?rs ! i) kmin" by (rule find_ok [OF ok cov])
  obtain j where j: "find rm2 kmax = Some (int j)" "j < length ?rs" "in_range_of (?rs ! j) kmax" by (rule find_ok [OF ok cov])
  obtain a where a: "a < length ?rs" "key_min (?rs ! a) = kmin" using r2(3) by (auto simp: starts_def)
  note bb = bind_bounds [OF cov i(2,3) a j(2,3) r2(4) [unfolded starts_def] assms(2)]
  obtain xa where xa: "bind_loop (ranges rm2) v (int i) (int j) = Some xa" "xa_ok xa" "length (contents xa) = length ?rs"
    "\<And>k. k < length ?rs \<Longrightarrow> contents xa ! k = (if i \<le> k \<and> k \<le> j then (?rs ! k)\<lparr>val := v\<rparr> else ?rs ! k)"
    using bind_loop_ok [OF ok j(2) bb(3), of v] by blast
  note bm = bound_maps [OF cov mp i(2) bb(1) j(2) bb(2) xa(3,4)]
  obtain xa' where x': "preen_loop xa 0 = Some xa'" "xa_ok xa'" "covers (contents xa')"
    "maps (contents xa') (\<lambda>k. if kmin \<le> k \<and> k \<le> kmax then v else f k)" "distinct_neighbours (contents xa')"
    using preen_loop_ok [OF xa(2) bm] by auto
  have "bindRangeMap rm kmin kmax v = Some (rm2\<lparr>ranges := xa'\<rparr>)"
    using assms(2) r1(1) r2(1) i(1) j(1) xa(1) x'(1) by (simp add: bindRangeMap_def preen_def)
  then show ?thesis using x' by (intro exI [of _ "rm2\<lparr>ranges := xa'\<rparr>"]) (simp add: rm_repr_def rm_is_def)
qed

lemma newRangeMap_ok: "\<exists>rm. newRangeMap v = Some rm \<and> rm_repr rm (\<lambda>_. v)"
proof -
  obtain xa0 :: "Range XArray" where x0: "newXA 24 = Some xa0" "xa_ok xa0" "contents xa0 = []" using newXA_ok [of 24] by auto
  let ?r = "\<lparr>key_min = 0, key_max = - 1, val = v\<rparr>"
  obtain xa where xa: "addToXA xa0 ?r = Some (xa, 0)" "xa_ok xa" "contents xa = [?r]"
    using addToXA_ok [OF x0(2), of ?r] x0(3) by auto
  have "sizeXA xa = 1" using length_contents [OF xa(2)] xa(3) by (simp add: sizeXA_def)
  then have "newRangeMap v = Some \<lparr>ranges = xa\<rparr>" using x0(1) xa(1) by (simp add: newRangeMap_def)
  moreover have "rm_repr \<lparr>ranges = xa\<rparr> (\<lambda>_. v)"
    using xa(2) unfolding rm_repr_def rm_is_def
    by (simp add: xa(3) covers_def maps_def distinct_neighbours_def unsigned_minus_1_eq_mask mask_eq_exp_minus_1)
  ultimately show ?thesis by blast
qed

lemma lookup_repr:
  assumes "rm_repr rm f"
  shows "\<exists>lo hi. lookupRangeMap rm key = Some (lo, hi, f key) \<and> lo \<le> key \<and> key \<le> hi
    \<and> (\<forall>k. lo \<le> k \<and> k \<le> hi \<longrightarrow> f k = f key)
    \<and> (lo \<noteq> 0 \<longrightarrow> f (lo - 1) \<noteq> f key) \<and> (hi \<noteq> - 1 \<longrightarrow> f (hi + 1) \<noteq> f key)"
proof -
  let ?rs = "contents (ranges rm)"
  have ok: "xa_ok (ranges rm)" and cov: "covers ?rs" and mp: "maps ?rs f" and dn: "distinct_neighbours ?rs"
    using assms by (auto simp: rm_repr_def rm_is_def)
  obtain i where i: "find rm key = Some (int i)" "i < length ?rs" "in_range_of (?rs ! i) key" by (rule find_ok [OF ok cov])
  have f: "f k = val (?rs ! j)" if "j < length ?rs" "in_range_of (?rs ! j) k" for j k
    using mp that unfolding maps_def in_range_of_def by simp
  let ?lo = "key_min (?rs ! i)" and ?hi = "key_max (?rs ! i)"
  have fk: "f key = val (?rs ! i)" by (rule f [OF i(2,3)])
  have "lookupRangeMap rm key = Some (?lo, ?hi, f key)"
    using i(1) index_ok [OF ok i(2)] fk by (simp add: lookupRangeMap_def)
  moreover have "?lo \<le> key" "key \<le> ?hi" using i(3) by (auto simp: in_range_of_def)
  moreover have "f k = f key" if "?lo \<le> k" "k \<le> ?hi" for k using f [OF i(2), of k] that fk by (simp add: in_range_of_def)
  moreover have "f (?lo - 1) \<noteq> f key" if "?lo \<noteq> 0"
  proof -
    have "i \<noteq> 0"
    proof
      assume "i = 0"
      then have "rlo (?rs ! i) = 0" using cov i(2) by (cases ?rs) (auto simp: covers_def)
      then show False using that by (simp add: unat_eq_zero)
    qed
    then obtain j where j: "i = Suc j" by (cases i) auto
    have nx: "rlo (?rs ! i) = rhi (?rs ! j) + 1" using chain_next cov i(2) unfolding j covers_def by blast
    have "unat (?lo - 1) = rhi (?rs ! j)" using unat_pred [OF that] nx by simp
    then have "in_range_of (?rs ! j) (?lo - 1)"
      using covers_range_ok [OF cov, of j] i(2) j by (simp add: in_range_of_def word_le_nat_alt)
    then have "f (?lo - 1) = val (?rs ! j)" using f i(2) j by simp
    then show ?thesis using fk dn i(2) unfolding j distinct_neighbours_def by metis
  qed
  moreover have "f (?hi + 1) \<noteq> f key" if "?hi \<noteq> - 1"
  proof -
    have lt: "?hi < - 1" using that by (metis order_le_neq_trans word_n1_ge word_order.extremum)
    have si: "Suc i < length ?rs"
    proof (rule ccontr)
      assume "\<not> Suc i < length ?rs"
      then have e: "i = length ?rs - 1" using i(2) by simp
      have "?rs = take i ?rs @ [?rs ! i]" using i(2) e by (metis append_butlast_last_id butlast_conv_take last_conv_nth list.size(3) not_less_zero)
      then obtain m where "chain m [?rs ! i] (2 ^ 64)" using cov chain_append unfolding covers_def by metis
      then have "rhi (?rs ! i) + 1 = 2 ^ 64" by simp
      moreover have "unat (?hi + 1) < 2 ^ 64" using unsigned_less [of "?hi + 1"] by simp
      ultimately show False using word_less_minus_one [OF lt] by simp
    qed
    have "rlo (?rs ! Suc i) = rhi (?rs ! i) + 1" using chain_next cov si unfolding covers_def by blast
    then have "in_range_of (?rs ! Suc i) (?hi + 1)"
      using word_less_minus_one [OF lt] covers_range_ok [OF cov si] by (simp add: in_range_of_def word_le_nat_alt)
    then have "f (?hi + 1) = val (?rs ! Suc i)" using f si by simp
    then show ?thesis using fk dn si unfolding distinct_neighbours_def by metis
  qed
  ultimately show ?thesis by blast
qed

fun run_binds :: "RangeMap \<Rightarrow> (UWord \<times> UWord \<times> UWord) list \<Rightarrow> RangeMap option" where
  "run_binds rm [] = Some rm"
| "run_binds rm ((kmin, kmax, v) # bs) = do { rm \<leftarrow> bindRangeMap rm kmin kmax v; run_binds rm bs }"

fun spec_binds :: "(UWord \<Rightarrow> UWord) \<Rightarrow> (UWord \<times> UWord \<times> UWord) list \<Rightarrow> UWord \<Rightarrow> UWord" where
  "spec_binds f [] = f"
| "spec_binds f ((kmin, kmax, v) # bs) = spec_binds (\<lambda>k. if kmin \<le> k \<and> k \<le> kmax then v else f k) bs"

lemma run_binds_ok:
  "rm_repr rm f \<Longrightarrow> (\<forall>(kmin, kmax, v) \<in> set bs. kmin \<le> kmax) \<Longrightarrow> \<exists>rm'. run_binds rm bs = Some rm' \<and> rm_repr rm' (spec_binds f bs)"
proof (induction bs arbitrary: rm f)
  case (Cons b bs)
  obtain kmin kmax v where b: "b = (kmin, kmax, v)" by (metis prod_cases3)
  have "kmin \<le> kmax" using Cons.prems(2) b by simp
  then obtain rm1 where "bindRangeMap rm kmin kmax v = Some rm1" "rm_repr rm1 (\<lambda>k. if kmin \<le> k \<and> k \<le> kmax then v else f k)"
    using bindRangeMap_ok Cons.prems(1) unfolding rm_repr_def by blast
  then show ?case using Cons.IH [of rm1] Cons.prems(2) unfolding b by simp
qed simp

text \<open>C19: on a new range map, a sequence of bindings of non-empty ranges fails no assertion and never
  panics; the map then represents the updated function: a lookup returns the value of the function
  and the largest interval around the key on which the function is constant.\<close>

theorem rangemap_refines_function:
  assumes "\<forall>(kmin, kmax, v) \<in> set bs. kmin \<le> kmax"
  shows "\<exists>rm rm'. newRangeMap v0 = Some rm \<and> run_binds rm bs = Some rm' \<and>
    (let f = spec_binds (\<lambda>_. v0) bs in
     \<forall>key. \<exists>lo hi. lookupRangeMap rm' key = Some (lo, hi, f key) \<and> lo \<le> key \<and> key \<le> hi
       \<and> (\<forall>k. lo \<le> k \<and> k \<le> hi \<longrightarrow> f k = f key)
       \<and> (lo \<noteq> 0 \<longrightarrow> f (lo - 1) \<noteq> f key) \<and> (hi \<noteq> - 1 \<longrightarrow> f (hi + 1) \<noteq> f key))"
proof -
  obtain rm where rm: "newRangeMap v0 = Some rm" "rm_repr rm (\<lambda>_. v0)" using newRangeMap_ok by blast
  obtain rm' where rm': "run_binds rm bs = Some rm'" "rm_repr rm' (spec_binds (\<lambda>_. v0) bs)"
    using run_binds_ok [OF rm(2) assms] by blast
  show ?thesis using rm(1) rm'(1) lookup_repr [OF rm'(2)] unfolding Let_def by blast
qed

theorem rangemap_refines_function_witness:
  "\<exists>rm rm'. newRangeMap 0 = Some rm \<and> run_binds rm [(5, 9, 1), (7, - 1, 2)] = Some rm' \<and>
    (let f = spec_binds (\<lambda>_. 0) [(5, 9, 1), (7, - 1, 2)] in
     \<forall>key. \<exists>lo hi. lookupRangeMap rm' key = Some (lo, hi, f key) \<and> lo \<le> key \<and> key \<le> hi
       \<and> (\<forall>k. lo \<le> k \<and> k \<le> hi \<longrightarrow> f k = f key)
       \<and> (lo \<noteq> 0 \<longrightarrow> f (lo - 1) \<noteq> f key) \<and> (hi \<noteq> - 1 \<longrightarrow> f (hi + 1) \<noteq> f key))"
  by (rule rangemap_refines_function) simp

end
