(* ===== verification/HashTable.thy ===== *)
theory HashTable
  imports Prelude "HOL-Library.Multiset"
begin

text \<open>
  The separately chained hash table of \<open>coregrind/m_hashtable.c\<close>.

  A node is its key with a payload; a chain is the list of its nodes, and a pointer to a node of a
  chain is the rest of the chain from that node on. The number of elements has 32 bits and wraps. The
  table is compared with the multiset of its nodes: the code does not detect duplicate keys.
\<close>

section \<open>The data structure\<close>

type_synonym 'a hnode = "UWord \<times> 'a"

record 'a VgHashTable =
  n_chains :: nat
  n_elements :: UInt
  iterNode :: "'a hnode list"
  iterChain :: nat
  chains :: "'a hnode list list"
  iterOK :: bool

definition primes :: "nat list" where
  "primes = [769, 1543, 3079, 6151, 12289, 24593, 49157, 98317, 196613, 393241, 786433, 1572869,
     3145739, 6291469, 12582917, 25165843, 50331653, 100663319, 201326611, 402653189]"

definition CHAIN_NO :: "UWord \<Rightarrow> nat \<Rightarrow> nat" where
  "CHAIN_NO key n = unat key mod n"

definition HT_construct :: "'a VgHashTable" where
  "HT_construct =
     \<lparr>n_chains = primes ! 0, n_elements = 0, iterNode = [], iterChain = 0,
      chains = replicate (primes ! 0) [], iterOK = True\<rparr>"

definition HT_count_nodes :: "'a VgHashTable \<Rightarrow> UInt" where
  "HT_count_nodes table = n_elements table"

section \<open>Growing\<close>

text \<open>Moving the nodes of one chain to the front of their new chains.\<close>

fun rehash_chain :: "nat \<Rightarrow> 'a hnode list \<Rightarrow> 'a hnode list list \<Rightarrow> 'a hnode list list" where
  "rehash_chain n [] cs = cs"
| "rehash_chain n (node # rest) cs =
     (let chain = CHAIN_NO (fst node) n in rehash_chain n rest (cs[chain := node # cs ! chain]))"

fun rehash :: "nat \<Rightarrow> 'a hnode list list \<Rightarrow> 'a hnode list list \<Rightarrow> 'a hnode list list" where
  "rehash n [] cs = cs"
| "rehash n (c # old) cs = rehash n old (rehash_chain n c cs)"

definition new_size :: "nat \<Rightarrow> nat" where
  "new_size old_chains =
     (case List.find (\<lambda>p. p > old_chains + 1) primes of Some p \<Rightarrow> p | None \<Rightarrow> old_chains + 1)"

definition resize :: "'a VgHashTable \<Rightarrow> 'a VgHashTable option" where
  "resize table =
     (let old_chains = n_chains table in
      if old_chains = last primes then Some table
      else
        do { vg_assert (old_chains \<ge> hd primes \<and> old_chains < last primes);
             let new_chains = new_size old_chains;
             vg_assert (new_chains > old_chains);
             vg_assert (new_chains > hd primes \<and> new_chains \<le> last primes);
             Some (table\<lparr>n_chains := new_chains,
                         chains := rehash new_chains (chains table) (replicate new_chains [])\<rparr>) })"

section \<open>Operations\<close>

definition HT_add_node :: "'a VgHashTable \<Rightarrow> 'a hnode \<Rightarrow> 'a VgHashTable option" where
  "HT_add_node table node =
     do { let chain = CHAIN_NO (fst node) (n_chains table);
          let table = table\<lparr>chains := (chains table)[chain := node # chains table ! chain],
                            n_elements := n_elements table + 1\<rparr>;
          table \<leftarrow> (if unat (n_elements table) > n_chains table then resize table else Some table);
          Some (table\<lparr>iterOK := False\<rparr>) }"

text \<open>The four search loops: by key, and by key and comparison.\<close>

definition HT_lookup :: "'a VgHashTable \<Rightarrow> UWord \<Rightarrow> 'a hnode option" where
  "HT_lookup table key = List.find (\<lambda>cur. key = fst cur) (chains table ! CHAIN_NO key (n_chains table))"

definition HT_gen_lookup :: "'a VgHashTable \<Rightarrow> 'a hnode \<Rightarrow> ('a hnode \<Rightarrow> 'a hnode \<Rightarrow> int) \<Rightarrow> 'a hnode option" where
  "HT_gen_lookup table hnode cmp =
     List.find (\<lambda>cur. fst hnode = fst cur \<and> cmp hnode cur = 0)
       (chains table ! CHAIN_NO (fst hnode) (n_chains table))"

fun unlink :: "('a hnode \<Rightarrow> bool) \<Rightarrow> 'a hnode list \<Rightarrow> ('a hnode list \<times> 'a hnode) option" where
  "unlink P [] = None"
| "unlink P (cur # rest) =
     (if P cur then Some (rest, cur) else map_option (\<lambda>(c, n). (cur # c, n)) (unlink P rest))"

definition remove_from :: "'a VgHashTable \<Rightarrow> nat \<Rightarrow> ('a hnode \<Rightarrow> bool) \<Rightarrow> 'a VgHashTable \<times> 'a hnode option" where
  "remove_from table chain P =
     (let table = table\<lparr>iterOK := False\<rparr> in
      case unlink P (chains table ! chain) of
        None \<Rightarrow> (table, None)
      | Some (c, n) \<Rightarrow> (table\<lparr>chains := (chains table)[chain := c], n_elements := n_elements table - 1\<rparr>, Some n))"

definition HT_remove :: "'a VgHashTable \<Rightarrow> UWord \<Rightarrow> 'a VgHashTable \<times> 'a hnode option" where
  "HT_remove table key = remove_from table (CHAIN_NO key (n_chains table)) (\<lambda>cur. key = fst cur)"

definition HT_gen_remove :: "'a VgHashTable \<Rightarrow> 'a hnode \<Rightarrow> ('a hnode \<Rightarrow> 'a hnode \<Rightarrow> int)
    \<Rightarrow> 'a VgHashTable \<times> 'a hnode option" where
  "HT_gen_remove table hnode cmp =
     remove_from table (CHAIN_NO (fst hnode) (n_chains table)) (\<lambda>cur. fst hnode = fst cur \<and> cmp hnode cur = 0)"

text \<open>The array and its size; \<open>None\<close> when the loop fills more or fewer entries than were allocated.\<close>

definition HT_to_array :: "'a VgHashTable \<Rightarrow> ('a hnode list \<times> UInt) option" where
  "HT_to_array table =
     (if n_elements table = 0 then Some ([], 0)
      else do { vg_assert (length (concat (chains table)) = unat (n_elements table));
                Some (concat (chains table), n_elements table) })"

definition HT_ResetIter :: "'a VgHashTable \<Rightarrow> 'a VgHashTable" where
  "HT_ResetIter table = table\<lparr>iterNode := [], iterChain := 0, iterOK := True\<rparr>"

text \<open>The loop that looks for the next chain that is not empty.\<close>

function next_chain :: "'a VgHashTable \<Rightarrow> nat \<Rightarrow> nat option" where
  "next_chain table i =
     (if i < n_chains table then if chains table ! i \<noteq> [] then Some i else next_chain table (i + 1) else None)"
  by pat_completeness auto
termination
  by (relation "measure (\<lambda>(t, i). n_chains t - i)") auto

declare next_chain.simps [simp del]

definition HT_Next :: "'a VgHashTable \<Rightarrow> ('a VgHashTable \<times> 'a hnode option) option" where
  "HT_Next table =
     do { vg_assert (iterOK table);
          if iterNode table \<noteq> [] \<and> tl (iterNode table) \<noteq> []
          then Some (table\<lparr>iterNode := tl (iterNode table)\<rparr>, Some (hd (tl (iterNode table))))
          else case next_chain table (iterChain table) of
                 None \<Rightarrow> Some (table, None)
               | Some i \<Rightarrow> Some (table\<lparr>iterNode := chains table ! i, iterChain := i + 1\<rparr>, Some (hd (chains table ! i))) }"

text \<open>\<open>HT_destruct\<close> calls \<open>freenode_fn\<close> on these nodes in this order.\<close>

definition HT_destruct :: "'a VgHashTable \<Rightarrow> 'a hnode list" where
  "HT_destruct table = concat (chains table)"

section \<open>The invariant\<close>

definition placed :: "nat \<Rightarrow> 'a hnode list list \<Rightarrow> bool" where
  "placed n cs \<longleftrightarrow> length cs = n \<and> (\<forall>i < n. \<forall>node \<in> set (cs ! i). CHAIN_NO (fst node) n = i)"

definition ht_mset :: "'a VgHashTable \<Rightarrow> 'a hnode multiset" where
  "ht_mset t = mset (concat (chains t))"

definition ht_ok :: "'a VgHashTable \<Rightarrow> bool" where
  "ht_ok t \<longleftrightarrow> n_chains t \<in> set primes \<and> placed (n_chains t) (chains t) \<and> unat (n_elements t) = size (ht_mset t)"

lemma primes_pos: "n \<in> set primes \<Longrightarrow> 0 < n"
  by (auto simp: primes_def)

lemma chain_no_less: "0 < n \<Longrightarrow> CHAIN_NO k n < n"
  by (simp add: CHAIN_NO_def)

lemma mset_concat_update:
  "i < length cs \<Longrightarrow> mset (concat (cs[i := c])) + mset (cs ! i) = mset (concat cs) + mset c"
proof (induction cs arbitrary: i)
  case (Cons d cs)
  then show ?case by (cases i) (auto simp: ac_simps)
qed simp

lemma placed_cons:
  assumes "placed n cs" "CHAIN_NO (fst node) n < n"
  shows "placed n (cs[CHAIN_NO (fst node) n := node # cs ! CHAIN_NO (fst node) n])"
  using assms unfolding placed_def by (auto simp: nth_list_update)

lemma mset_concat_cons:
  assumes "i < length cs"
  shows "mset (concat (cs[i := node # cs ! i])) = add_mset node (mset (concat cs))"
  using mset_concat_update [OF assms, of "node # cs ! i"] by simp

lemma rehash_chain_ok:
  "placed n cs \<Longrightarrow> 0 < n \<Longrightarrow> placed n (rehash_chain n c cs) \<and> mset (concat (rehash_chain n c cs)) = mset c + mset (concat cs)"
proof (induction c arbitrary: cs)
  case (Cons node c)
  have lt: "CHAIN_NO (fst node) n < n" using Cons.prems(2) by (rule chain_no_less)
  have "CHAIN_NO (fst node) n < length cs" using lt Cons.prems(1) by (simp add: placed_def)
  from mset_concat_cons [OF this, of node] Cons.IH [OF placed_cons [OF Cons.prems(1) lt] Cons.prems(2)]
  show ?case by (simp add: Let_def)
qed simp

lemma rehash_ok:
  "placed n cs \<Longrightarrow> 0 < n \<Longrightarrow> placed n (rehash n old cs) \<and> mset (concat (rehash n old cs)) = mset (concat old) + mset (concat cs)"
proof (induction old arbitrary: cs)
  case (Cons c old)
  note r = rehash_chain_ok [OF Cons.prems, of c]
  show ?case using Cons.IH [of "rehash_chain n c cs"] r Cons.prems(2) by (simp add: ac_simps)
qed simp

lemma placed_empty: "placed n (replicate n [])"
  by (simp add: placed_def)

lemma new_size_ok: "n \<in> set primes \<Longrightarrow> n \<noteq> last primes \<Longrightarrow>
   new_size n \<in> set primes \<and> n < new_size n \<and> hd primes < new_size n \<and> new_size n \<le> last primes \<and> hd primes \<le> n \<and> n < last primes"
  unfolding primes_def by (auto simp: new_size_def primes_def)

lemma resize_ok:
  assumes "ht_ok t"
  shows "\<exists>t'. resize t = Some t' \<and> ht_ok t' \<and> ht_mset t' = ht_mset t \<and> n_elements t' = n_elements t"
proof (cases "n_chains t = last primes")
  case True
  then show ?thesis using assms by (simp add: resize_def)
next
  case False
  have pr: "n_chains t \<in> set primes" using assms by (simp add: ht_ok_def)
  let ?n = "new_size (n_chains t)"
  note ns = new_size_ok [OF pr False]
  let ?t = "t\<lparr>n_chains := ?n, chains := rehash ?n (chains t) (replicate ?n [])\<rparr>"
  have "placed ?n (rehash ?n (chains t) (replicate ?n [])) \<and>
      mset (concat (rehash ?n (chains t) (replicate ?n []))) = mset (concat (chains t)) + mset (concat (replicate ?n []))"
    using ns by (intro rehash_ok placed_empty primes_pos) blast
  moreover have "concat (replicate ?n []) = []" by simp
  ultimately have "ht_ok ?t \<and> ht_mset ?t = ht_mset t"
    using ns assms by (simp add: ht_ok_def ht_mset_def)
  moreover have "resize t = Some ?t" using False ns by (simp add: resize_def Let_def)
  ultimately show ?thesis by auto
qed

section \<open>Operations and the multiset\<close>

lemma HT_construct_ok: "ht_ok HT_construct" "ht_mset HT_construct = {#}"
  by (simp_all add: ht_ok_def HT_construct_def placed_empty ht_mset_def primes_def)

lemma HT_add_node_ok:
  assumes "ht_ok t" "size (ht_mset t) + 1 < 2 ^ 32"
  shows "\<exists>t'. HT_add_node t node = Some t' \<and> ht_ok t' \<and> ht_mset t' = add_mset node (ht_mset t) \<and> \<not> iterOK t'"
proof -
  let ?i = "CHAIN_NO (fst node) (n_chains t)"
  let ?t = "t\<lparr>chains := (chains t)[?i := node # chains t ! ?i], n_elements := n_elements t + 1\<rparr>"
  have pl: "placed (n_chains t) (chains t)" and pr: "n_chains t \<in> set primes" and
    ne: "unat (n_elements t) = size (ht_mset t)" using assms(1) by (auto simp: ht_ok_def)
  have lt: "?i < n_chains t" by (rule chain_no_less [OF primes_pos [OF pr]])
  have ms: "ht_mset ?t = add_mset node (ht_mset t)"
    using mset_concat_cons [of ?i "chains t" node] lt pl by (simp add: ht_mset_def placed_def)
  have "unat (n_elements t + 1) = unat (n_elements t) + 1"
    using assms(2) ne by (simp add: unat_word_ariths)
  then have ok: "ht_ok ?t" using placed_cons [OF pl lt] pr ne ms by (simp add: ht_ok_def)
  obtain t' where t': "(if unat (n_elements ?t) > n_chains ?t then resize ?t else Some ?t) = Some t'" "ht_ok t'"
    "ht_mset t' = ht_mset ?t"
    using resize_ok [OF ok] ok by (cases "unat (n_elements ?t) > n_chains ?t") auto
  have "ht_ok (t'\<lparr>iterOK := False\<rparr>) \<and> ht_mset (t'\<lparr>iterOK := False\<rparr>) = ht_mset t'"
    using t'(2) by (simp add: ht_ok_def ht_mset_def)
  moreover have "HT_add_node t node = Some (t'\<lparr>iterOK := False\<rparr>)" using t'(1) by (simp add: HT_add_node_def Let_def)
  ultimately show ?thesis using t'(3) ms by simp
qed

lemma placed_find:
  assumes "placed n cs" "0 < n"
  shows "node \<in># mset (concat cs) \<longleftrightarrow> node \<in> set (cs ! CHAIN_NO (fst node) n)"
proof
  assume "node \<in># mset (concat cs)"
  then obtain c where "c \<in> set cs" "node \<in> set c" by auto
  then obtain i where "i < n" "node \<in> set (cs ! i)" using assms(1) by (metis in_set_conv_nth placed_def)
  moreover from this have "CHAIN_NO (fst node) n = i" using assms(1) by (simp add: placed_def)
  ultimately show "node \<in> set (cs ! CHAIN_NO (fst node) n)" by simp
next
  assume "node \<in> set (cs ! CHAIN_NO (fst node) n)"
  moreover have "CHAIN_NO (fst node) n < length cs" using assms by (simp add: placed_def chain_no_less)
  ultimately show "node \<in># mset (concat cs)" by (auto intro: nth_mem)
qed

lemma ht_find:
  "ht_ok t \<Longrightarrow> node \<in># ht_mset t \<longleftrightarrow> node \<in> set (chains t ! CHAIN_NO (fst node) (n_chains t))"
  using placed_find primes_pos unfolding ht_ok_def ht_mset_def by blast

lemma HT_lookup_ok:
  assumes "ht_ok t"
  shows "case HT_lookup t key of None \<Rightarrow> \<forall>n \<in># ht_mset t. fst n \<noteq> key | Some n \<Rightarrow> n \<in># ht_mset t \<and> fst n = key"
proof (cases "HT_lookup t key")
  case None
  then show ?thesis using ht_find [OF assms] find_NoneD unfolding HT_lookup_def by fastforce
next
  case (Some n)
  from find_SomeD [OF Some [unfolded HT_lookup_def]] show ?thesis using Some ht_find [OF assms, of n] by auto
qed

lemma HT_gen_lookup_ok:
  assumes "ht_ok t"
  shows "case HT_gen_lookup t hnode cmp of
      None \<Rightarrow> \<forall>n \<in># ht_mset t. \<not> (fst hnode = fst n \<and> cmp hnode n = 0)
    | Some n \<Rightarrow> n \<in># ht_mset t \<and> fst hnode = fst n \<and> cmp hnode n = 0"
proof (cases "HT_gen_lookup t hnode cmp")
  case None
  then show ?thesis using ht_find [OF assms] find_NoneD unfolding HT_gen_lookup_def by fastforce
next
  case (Some n)
  from find_SomeD [OF Some [unfolded HT_gen_lookup_def]] show ?thesis using Some ht_find [OF assms, of n] by auto
qed

lemma unlink_spec:
  "case unlink P c of None \<Rightarrow> \<forall>n \<in> set c. \<not> P n | Some (c', n) \<Rightarrow> P n \<and> mset c = add_mset n (mset c')"
  by (induction c) (auto split: option.splits)

lemma unlink_subset: "unlink P c = Some (c', n) \<Longrightarrow> set c' \<subseteq> set c"
  by (induction c arbitrary: c') (auto split: if_splits)

lemma remove_from_ok:
  assumes "ht_ok t" "i < n_chains t" "\<And>n. P n \<Longrightarrow> CHAIN_NO (fst n) (n_chains t) = i"
    and "remove_from t i P = (t', r)"
  shows "ht_ok t' \<and> \<not> iterOK t' \<and>
    (case r of None \<Rightarrow> (\<forall>n \<in># ht_mset t. \<not> P n) \<and> ht_mset t' = ht_mset t
     | Some n \<Rightarrow> P n \<and> n \<in># ht_mset t \<and> ht_mset t' = ht_mset t - {#n#})"
proof -
  have pl: "placed (n_chains t) (chains t)" and pr: "n_chains t \<in> set primes" and
    ne: "unat (n_elements t) = size (ht_mset t)" using assms(1) by (auto simp: ht_ok_def)
  have len: "i < length (chains t)" using assms(2) pl by (simp add: placed_def)
  show ?thesis
  proof (cases "unlink P (chains t ! i)")
    case None
    then have e: "t' = t\<lparr>iterOK := False\<rparr>" "r = None" using assms(4) by (auto simp: remove_from_def Let_def)
    have "\<forall>n \<in># ht_mset t. \<not> P n"
    proof (intro ballI notI)
      fix n assume n: "n \<in># ht_mset t" "P n"
      then have "n \<in> set (chains t ! i)" using ht_find [OF assms(1)] assms(3) by blast
      then show False using unlink_spec [where P = P and c = "chains t ! i"] None n(2) by simp
    qed
    then show ?thesis using assms(1) e by (simp add: ht_ok_def ht_mset_def)
  next
    case (Some cn)
    then obtain c n where cn: "unlink P (chains t ! i) = Some (c, n)" by (cases cn) auto
    then have e: "t' = t\<lparr>iterOK := False, chains := (chains t)[i := c], n_elements := n_elements t - 1\<rparr>" "r = Some n"
      using assms(4) by (auto simp: remove_from_def Let_def)
    have P: "P n" and ms: "mset (chains t ! i) = add_mset n (mset c)" using unlink_spec [where P = P and c = "chains t ! i"] cn by auto
    have "n \<in> set (chains t ! i)" using ms by (metis set_mset_mset union_single_eq_member)
    then have mem: "n \<in># ht_mset t" using ht_find [OF assms(1)] assms(3) [OF P] by blast
    have "mset (concat ((chains t)[i := c])) + mset (chains t ! i) = mset (concat (chains t)) + mset c"
      by (rule mset_concat_update [OF len])
    then have m: "ht_mset t = add_mset n (ht_mset t')" using ms e(1) by (simp add: ht_mset_def)
    then have "ht_mset t' = ht_mset t - {#n#}" by simp
    moreover have "unat (n_elements t') = size (ht_mset t')"
    proof -
      have u: "unat (n_elements t) = size (ht_mset t') + 1" using ne m by simp
      then have "n_elements t \<noteq> 0" by (metis add_is_0 unsigned_0 zero_neq_one)
      moreover have "n_elements t' = n_elements t - 1" using e(1) by simp
      ultimately show ?thesis using u unat_minus_one [of "n_elements t"] by simp
    qed
    moreover have "placed (n_chains t) ((chains t)[i := c])"
      unfolding placed_def
    proof (intro conjI allI impI ballI)
      show "length ((chains t)[i := c]) = n_chains t" using pl by (simp add: placed_def)
      show "CHAIN_NO (fst nd) (n_chains t) = j" if "j < n_chains t" "nd \<in> set ((chains t)[i := c] ! j)" for j nd
        using pl unlink_subset [OF cn] that len unfolding placed_def by (cases "j = i") auto
    qed
    ultimately show ?thesis using P mem e pr by (simp add: ht_ok_def)
  qed
qed

lemma HT_remove_ok:
  assumes "ht_ok t" "HT_remove t key = (t', r)"
  shows "ht_ok t' \<and> \<not> iterOK t' \<and>
    (case r of None \<Rightarrow> (\<forall>n \<in># ht_mset t. fst n \<noteq> key) \<and> ht_mset t' = ht_mset t
     | Some n \<Rightarrow> fst n = key \<and> n \<in># ht_mset t \<and> ht_mset t' = ht_mset t - {#n#})"
proof -
  have "CHAIN_NO key (n_chains t) < n_chains t" using assms(1) primes_pos by (auto simp: ht_ok_def intro: chain_no_less)
  from remove_from_ok [OF assms(1) this, of "\<lambda>cur. key = fst cur" t' r] assms(2)
  show ?thesis by (auto simp: HT_remove_def split: option.splits)
qed

section \<open>Iteration\<close>

text \<open>What the iterator still has to deliver.\<close>

definition to_come :: "'a VgHashTable \<Rightarrow> 'a hnode list" where
  "to_come t = tl (iterNode t) @ concat (drop (iterChain t) (chains t))"

lemma next_chain_spec:
  assumes "length (chains t) = n_chains t"
  shows "case next_chain t i of
      None \<Rightarrow> concat (drop i (chains t)) = []
    | Some j \<Rightarrow> j < n_chains t \<and> chains t ! j \<noteq> [] \<and> concat (drop i (chains t)) = chains t ! j @ concat (drop (j + 1) (chains t))"
proof (induction "n_chains t - i" arbitrary: i rule: less_induct)
  case less
  show ?case
  proof (cases "i < n_chains t")
    case True
    then have d: "drop i (chains t) = chains t ! i # drop (i + 1) (chains t)" using assms by (simp add: Cons_nth_drop_Suc)
    show ?thesis
    proof (cases "chains t ! i = []")
      case empty: True
      have "n_chains t - (i + 1) < n_chains t - i" using True by simp
      note IH = less [OF this]
      have "concat (drop i (chains t)) = concat (drop (i + 1) (chains t))" using d empty by simp
      moreover have "next_chain t i = next_chain t (i + 1)" using True empty by (subst next_chain.simps) simp
      ultimately show ?thesis using IH by (simp only:)
    next
      case False
      then show ?thesis using True d by (subst next_chain.simps) simp
    qed
  qed (use assms in \<open>subst next_chain.simps, simp\<close>)
qed

lemma HT_Next_ok:
  assumes "length (chains t) = n_chains t" "iterOK t"
  shows "\<exists>t'. HT_Next t = Some (t', case to_come t of [] \<Rightarrow> None | n # _ \<Rightarrow> Some n) \<and> to_come t' = tl (to_come t)
    \<and> chains t' = chains t \<and> n_chains t' = n_chains t \<and> iterOK t'"
proof (cases "iterNode t \<noteq> [] \<and> tl (iterNode t) \<noteq> []")
  case True
  then obtain n c where "tl (iterNode t) = n # c" by (cases "tl (iterNode t)") auto
  then show ?thesis using True assms by (simp add: HT_Next_def to_come_def)
next
  case False
  then have e: "to_come t = concat (drop (iterChain t) (chains t))" by (auto simp: to_come_def)
  note nc = next_chain_spec [OF assms(1), of "iterChain t"]
  show ?thesis
  proof (cases "next_chain t (iterChain t)")
    case None
    then have "to_come t = []" using nc e by simp
    moreover have "HT_Next t = Some (t, None)" using False assms(2) None by (auto simp: HT_Next_def)
    ultimately show ?thesis using assms by simp
  next
    case (Some j)
    then obtain n c where c: "chains t ! j = n # c" using nc by (cases "chains t ! j") auto
    have tc: "to_come t = n # c @ concat (drop (j + 1) (chains t))" using nc e Some c by simp
    let ?t = "t\<lparr>iterNode := n # c, iterChain := j + 1\<rparr>"
    have "HT_Next t = Some (?t, Some n)" using False assms(2) Some c by (auto simp: HT_Next_def)
    moreover have "to_come ?t = c @ concat (drop (j + 1) (chains t))" by (simp add: to_come_def)
    ultimately show ?thesis using tc assms by simp
  qed
qed

fun run_next :: "nat \<Rightarrow> 'a VgHashTable \<Rightarrow> ('a VgHashTable \<times> 'a hnode option list) option" where
  "run_next 0 t = Some (t, [])"
| "run_next (Suc k) t = do { (t, r) \<leftarrow> HT_Next t; (t, rs) \<leftarrow> run_next k t; Some (t, r # rs) }"

lemma run_next_ok:
  "length (chains t) = n_chains t \<Longrightarrow> iterOK t \<Longrightarrow>
     \<exists>t'. run_next k t = Some (t', map Some (take k (to_come t)) @ replicate (k - length (to_come t)) None) \<and> chains t' = chains t"
proof (induction k arbitrary: t)
  case (Suc k)
  obtain t1 where t1: "HT_Next t = Some (t1, case to_come t of [] \<Rightarrow> None | n # _ \<Rightarrow> Some n)" "to_come t1 = tl (to_come t)"
    "chains t1 = chains t" "n_chains t1 = n_chains t" "iterOK t1"
    using HT_Next_ok [OF Suc.prems] by blast
  from Suc.IH [of t1] obtain t2 where
    "run_next k t1 = Some (t2, map Some (take k (tl (to_come t))) @ replicate (k - length (tl (to_come t))) None)" "chains t2 = chains t"
    using t1 Suc.prems by auto
  then show ?case using t1(1) by (cases "to_come t") auto
qed simp

text \<open>After \<open>HT_ResetIter\<close>, the calls of \<open>HT_Next\<close> deliver every node of the table exactly once, in
  the order of \<open>HT_to_array\<close>, then only \<open>NULL\<close>; after the table has been changed, \<open>HT_Next\<close> fails its
  assertion.\<close>

theorem HT_iteration:
  assumes "ht_ok t" "size (ht_mset t) + 1 < 2 ^ 32"
  shows "\<exists>t' ns. run_next k (HT_ResetIter t) = Some (t', map Some (take k ns) @ replicate (k - length ns) None)
    \<and> HT_to_array t = Some (ns, HT_count_nodes t) \<and> mset ns = ht_mset t \<and> ht_mset t' = ht_mset t
    \<and> HT_Next (fst (HT_remove t key)) = None \<and> (\<forall>t''. HT_add_node t node = Some t'' \<longrightarrow> HT_Next t'' = None)"
proof -
  have len: "length (chains t) = n_chains t" and ne: "unat (n_elements t) = size (ht_mset t)"
    using assms by (auto simp: ht_ok_def placed_def)
  let ?r = "HT_ResetIter t" and ?ns = "concat (chains t)"
  have "to_come ?r = ?ns" by (simp add: to_come_def HT_ResetIter_def)
  then obtain t' where t': "run_next k ?r = Some (t', map Some (take k ?ns) @ replicate (k - length ?ns) None)" "chains t' = chains t"
    using run_next_ok [of ?r k] len by (auto simp: HT_ResetIter_def)
  have "length ?ns = unat (n_elements t)" using ne by (metis ht_mset_def size_mset)
  moreover from this have "n_elements t = 0 \<Longrightarrow> ?ns = []" by simp
  ultimately have "HT_to_array t = Some (?ns, HT_count_nodes t)"
    by (auto simp: HT_to_array_def HT_count_nodes_def)
  moreover have "HT_Next (fst (HT_remove t key)) = None"
    using HT_remove_ok [OF assms(1), of key "fst (HT_remove t key)" "snd (HT_remove t key)"] by (simp add: HT_Next_def)
  moreover have "HT_Next t'' = None" if "HT_add_node t node = Some t''" for t''
    using HT_add_node_ok [OF assms, of node] that by (auto simp: HT_Next_def)
  ultimately show ?thesis using t' by (intro exI [of _ t'] exI [of _ ?ns]) (auto simp: ht_mset_def)
qed

theorem HT_iteration_witness:
  "\<exists>t' ns. run_next 5 (HT_ResetIter (HT_construct :: nat VgHashTable)) = Some (t', map Some (take 5 ns) @ replicate (5 - length ns) None)
    \<and> mset ns = {#}"
proof -
  have "size (ht_mset (HT_construct :: nat VgHashTable)) + 1 < 2 ^ 32" by (simp add: HT_construct_ok)
  from HT_iteration [OF HT_construct_ok(1) this, of 5 7 "(1, 2)"] show ?thesis
    unfolding HT_construct_ok(2) by blast
qed

section \<open>Sequences of operations\<close>

datatype 'a ht_op = HtAdd "'a hnode" | HtRemove UWord | HtLookup UWord

fun run_ht :: "'a VgHashTable \<Rightarrow> 'a ht_op list \<Rightarrow> ('a VgHashTable \<times> 'a hnode option list) option" where
  "run_ht t [] = Some (t, [])"
| "run_ht t (HtAdd n # ops) = do { t \<leftarrow> HT_add_node t n; (t, rs) \<leftarrow> run_ht t ops; Some (t, None # rs) }"
| "run_ht t (HtRemove k # ops) =
     do { let (t, r) = HT_remove t k; (t, rs) \<leftarrow> run_ht t ops; Some (t, r # rs) }"
| "run_ht t (HtLookup k # ops) = do { (t', rs) \<leftarrow> run_ht t ops; Some (t', HT_lookup t k # rs) }"

text \<open>The results that are allowed on the multiset \<open>M\<close> of nodes, with the final multiset. Which of
  several nodes with the same key is found is left open.\<close>

fun ht_trace :: "'a hnode multiset \<Rightarrow> 'a ht_op list \<Rightarrow> 'a hnode option list \<Rightarrow> 'a hnode multiset \<Rightarrow> bool" where
  "ht_trace M [] rs M' \<longleftrightarrow> rs = [] \<and> M' = M"
| "ht_trace M (op # ops) [] M' \<longleftrightarrow> False"
| "ht_trace M (HtAdd n # ops) (r # rs) M' \<longleftrightarrow> r = None \<and> ht_trace (add_mset n M) ops rs M'"
| "ht_trace M (HtRemove k # ops) (None # rs) M' \<longleftrightarrow> (\<forall>n \<in># M. fst n \<noteq> k) \<and> ht_trace M ops rs M'"
| "ht_trace M (HtRemove k # ops) (Some n # rs) M' \<longleftrightarrow> n \<in># M \<and> fst n = k \<and> ht_trace (M - {#n#}) ops rs M'"
| "ht_trace M (HtLookup k # ops) (None # rs) M' \<longleftrightarrow> (\<forall>n \<in># M. fst n \<noteq> k) \<and> ht_trace M ops rs M'"
| "ht_trace M (HtLookup k # ops) (Some n # rs) M' \<longleftrightarrow> n \<in># M \<and> fst n = k \<and> ht_trace M ops rs M'"

lemma run_ht_ok:
  "ht_ok t \<Longrightarrow> size (ht_mset t) + length ops < 2 ^ 32 \<Longrightarrow>
     \<exists>t' rs. run_ht t ops = Some (t', rs) \<and> ht_ok t' \<and> ht_trace (ht_mset t) ops rs (ht_mset t')"
proof (induction ops arbitrary: t)
  case (Cons op ops)
  show ?case
  proof (cases op)
    case (HtAdd n)
    obtain t1 where t1: "HT_add_node t n = Some t1" "ht_ok t1" "ht_mset t1 = add_mset n (ht_mset t)"
      using HT_add_node_ok [OF Cons.prems(1), of n] Cons.prems(2) by auto
    then show ?thesis using Cons.IH [OF t1(2)] Cons.prems(2) HtAdd by auto
  next
    case (HtRemove k)
    obtain t1 r where t1: "HT_remove t k = (t1, r)" by fastforce
    note ok = HT_remove_ok [OF Cons.prems(1) t1]
    have "size (ht_mset t1) \<le> size (ht_mset t)" using ok by (cases r) (auto intro: size_mset_mono)
    then obtain t' rs where "run_ht t1 ops = Some (t', rs)" "ht_ok t'" "ht_trace (ht_mset t1) ops rs (ht_mset t')"
      using Cons.IH [of t1] ok Cons.prems(2) by auto
    then show ?thesis using ok t1 HtRemove by (cases r) auto
  next
    case (HtLookup k)
    obtain t' rs where "run_ht t ops = Some (t', rs)" "ht_ok t'" "ht_trace (ht_mset t) ops rs (ht_mset t')"
      using Cons.IH [OF Cons.prems(1)] Cons.prems(2) by auto
    then show ?thesis using HT_lookup_ok [OF Cons.prems(1), of k] HtLookup by (cases "HT_lookup t k") auto
  qed
qed simp

text \<open>C20: fewer than $2^{32}$ additions, removals and lookups on a new table fail no assertion, resizing
  included; a removal or lookup returns a node of the table with the given key, and nothing only if
  there is none; the table holds exactly the nodes added and not removed, each as often as it was
  added.\<close>

theorem hashtable_refines_multiset:
  assumes "length ops < 2 ^ 32"
  shows "\<exists>t rs. run_ht HT_construct ops = Some (t, rs) \<and> ht_ok t \<and> ht_trace {#} ops rs (ht_mset t)
    \<and> unat (HT_count_nodes t) = size (ht_mset t) \<and> mset (HT_destruct t) = ht_mset t"
proof -
  obtain t rs where "run_ht HT_construct ops = Some (t, rs)" "ht_ok t" "ht_trace {#} ops rs (ht_mset t)"
    using run_ht_ok [OF HT_construct_ok(1), of ops] assms by (auto simp: HT_construct_ok(2))
  then show ?thesis by (intro exI [of _ t] exI [of _ rs]) (simp add: ht_ok_def HT_count_nodes_def HT_destruct_def ht_mset_def)
qed

theorem hashtable_refines_multiset_witness:
  "\<exists>t rs. run_ht HT_construct [HtAdd (3, 0 :: nat), HtLookup 3, HtRemove 3, HtRemove 3] = Some (t, rs)
    \<and> ht_trace {#} [HtAdd (3, 0 :: nat), HtLookup 3, HtRemove 3, HtRemove 3] rs (ht_mset t)"
  using hashtable_refines_multiset [of "[HtAdd (3, 0 :: nat), HtLookup 3, HtRemove 3, HtRemove 3]"] by force

end
