(* ===== verification/SparseWA.thy ===== *)
theory SparseWA
  imports Prelude
begin

text \<open>
  The sparse array of words of \<open>coregrind/m_sparsewa.c\<close>: a tree of eight levels with 256 children or
  entries in each node, indexed by the bytes of the key.

  The two node types are distinguished by their magic numbers in the source and by the constructor
  here. Pointers are the nodes they point to, \<open>NULL\<close> is \<open>None\<close>. The sources walk down in a loop and
  change the nodes in place; here the walk is a recursion that rebuilds the path. \<open>None\<close> in the
  result is a failing assertion. The theory shows that the array implements the interface of word
  maps, as the AVL tree of \<open>WordFM\<close> does.
\<close>

section \<open>The data structure\<close>

datatype swa_node =
  Level0 "UWord list" int "UChar list"
  | LevelN "swa_node option list" int int

record SWAStackElem =
  partial_key :: UWord
  curr_ix :: nat
  curr_nd :: swa_node
  resume_point :: int

record SparseWA =
  root :: "swa_node option"
  iterStack :: "SWAStackElem list"

section \<open>Bit arrays\<close>

definition swa_bitarray_read :: "UChar list \<Rightarrow> nat \<Rightarrow> bool" where
  "swa_bitarray_read a ix = (drop_bit (ix mod 8) (a ! (ix div 8)) AND 1 = 1)"

definition swa_bitarray_read_then_set :: "UChar list \<Rightarrow> nat \<Rightarrow> UChar list \<times> bool" where
  "swa_bitarray_read_then_set a ix =
     (let bix = ix div 8; off = ix mod 8; old = a ! bix; nyu = old OR push_bit off 1
      in (a[bix := nyu], drop_bit off old AND 1 = 1))"

definition swa_bitarray_read_then_clear :: "UChar list \<Rightarrow> nat \<Rightarrow> UChar list \<times> bool" where
  "swa_bitarray_read_then_clear a ix =
     (let bix = ix div 8; off = ix mod 8; old = a ! bix; nyu = old AND NOT (push_bit off 1)
      in (a[bix := nyu], drop_bit off old AND 1 = 1))"

section \<open>Allocation\<close>

definition swa_new_LevelN :: "int \<Rightarrow> swa_node" where
  "swa_new_LevelN level = LevelN (replicate 256 None) 0 level"

definition swa_new_Level0 :: swa_node where
  "swa_new_Level0 = Level0 (replicate 256 0) 0 (replicate 32 0)"

definition newSWA :: SparseWA where
  "newSWA = \<lparr>root = None, iterStack = []\<rparr>"

text \<open>\<open>(key >> (i*8)) & 0xFF\<close>.\<close>

definition key_ix :: "UWord \<Rightarrow> nat \<Rightarrow> nat" where
  "key_ix key i = unat (drop_bit (i * 8) key AND 0xFF)"

section \<open>Lookup\<close>

fun lookup_levels :: "nat \<Rightarrow> swa_node option \<Rightarrow> UWord \<Rightarrow> swa_node option option" where
  "lookup_levels 0 nd key = Some nd"
| "lookup_levels (Suc i) None key = Some None"
| "lookup_levels (Suc i) (Some (Level0 ws n bits)) key = None"
| "lookup_levels (Suc i) (Some (LevelN ch n l)) key =
     do { vg_assert (l = int (Suc i)); vg_assert (n > 0);
          lookup_levels i (ch ! key_ix key (Suc i)) key }"

definition lookupSWA :: "SparseWA \<Rightarrow> UWord \<Rightarrow> UWord option option" where
  "lookupSWA swa key =
     do { nd \<leftarrow> lookup_levels 7 (root swa) key;
          (case nd of
             None \<Rightarrow> Some None
           | Some (LevelN ch n l) \<Rightarrow> None
           | Some (Level0 ws n bits) \<Rightarrow>
               do { vg_assert (n > 0);
                    let ix = key_ix key 0;
                    Some (if swa_bitarray_read bits ix then Some (ws ! ix) else None) }) }"

section \<open>Insertion\<close>

fun add_level0 :: "swa_node \<Rightarrow> UWord \<Rightarrow> UWord \<Rightarrow> (swa_node \<times> bool) option" where
  "add_level0 (LevelN ch n l) key v = None"
| "add_level0 (Level0 ws n bits) key v =
     (let ix = key_ix key 0; (bits', already_present) = swa_bitarray_read_then_set bits ix;
          n' = (if already_present then n else n + 1)
      in do { vg_assert (n' \<ge> 1 \<and> n' \<le> 256);
              Some (Level0 (ws[ix := v]) n' bits', already_present) })"

text \<open>The node at level \<open>i\<close>; at level 1 the children are leaves.\<close>

fun add_levels :: "nat \<Rightarrow> swa_node \<Rightarrow> UWord \<Rightarrow> UWord \<Rightarrow> (swa_node \<times> bool) option" where
  "add_levels 0 nd key v = add_level0 nd key v"
| "add_levels (Suc i) (Level0 ws n bits) key v = None"
| "add_levels (Suc i) (LevelN ch n l) key v =
     do { vg_assert (l = int (Suc i));
          let ix = key_ix key (Suc i);
          let (c, n') = (case ch ! ix of
                           None \<Rightarrow> (if i = 0 then swa_new_Level0 else swa_new_LevelN (int i), n + 1)
                         | Some c \<Rightarrow> (c, n));
          vg_assert (n' \<ge> 1 \<and> n' \<le> 256);
          (c', already_present) \<leftarrow> add_levels i c key v;
          Some (LevelN (ch[ix := Some c']) n' l, already_present) }"

definition addToSWA :: "SparseWA \<Rightarrow> UWord \<Rightarrow> UWord \<Rightarrow> (SparseWA \<times> bool) option" where
  "addToSWA swa key v =
     do { let r = (case root swa of None \<Rightarrow> swa_new_LevelN 7 | Some r \<Rightarrow> r);
          (r', already_present) \<leftarrow> add_levels 7 r key v;
          Some (swa\<lparr>root := Some r'\<rparr>, already_present) }"

section \<open>Deletion\<close>

text \<open>\<open>Some None\<close>: the key is not there and nothing changes. \<open>Some (Some (nd', v))\<close>: the value that was
  removed, and the node, \<open>None\<close> if it became empty and was freed.\<close>

fun del_level0 :: "swa_node \<Rightarrow> UWord \<Rightarrow> (swa_node option \<times> UWord) option option" where
  "del_level0 (LevelN ch n l) key = None"
| "del_level0 (Level0 ws n bits) key =
     do { vg_assert (n > 0);
          let ix = key_ix key 0;
          let (bits', was) = swa_bitarray_read_then_clear bits ix;
          (if \<not> was then Some None
           else Some (Some (if n - 1 > 0 then Some (Level0 ws (n - 1) bits') else None, ws ! ix))) }"

fun del_levels :: "nat \<Rightarrow> swa_node option \<Rightarrow> UWord \<Rightarrow> (swa_node option \<times> UWord) option option" where
  "del_levels 0 None key = Some None"
| "del_levels 0 (Some nd) key = del_level0 nd key"
| "del_levels (Suc i) None key = Some None"
| "del_levels (Suc i) (Some (Level0 ws n bits)) key = None"
| "del_levels (Suc i) (Some (LevelN ch n l)) key =
     do { vg_assert (l = int (Suc i)); vg_assert (n > 0);
          let ix = key_ix key (Suc i);
          r \<leftarrow> del_levels i (ch ! ix) key;
          (case r of
             None \<Rightarrow> Some None
           | Some (Some c, v) \<Rightarrow> Some (Some (Some (LevelN (ch[ix := Some c]) n l), v))
           | Some (None, v) \<Rightarrow>
               do { vg_assert (ch ! ix \<noteq> None);
                    vg_assert (n - 1 \<ge> 0);
                    Some (Some (if n - 1 > 0 then Some (LevelN (ch[ix := None]) (n - 1) l) else None, v)) }) }"

definition delFromSWA :: "SparseWA \<Rightarrow> UWord \<Rightarrow> (SparseWA \<times> UWord option) option" where
  "delFromSWA swa key =
     do { r \<leftarrow> del_levels 7 (root swa) key;
          Some (case r of None \<Rightarrow> (swa, None) | Some (nd, v) \<Rightarrow> (swa\<lparr>root := nd\<rparr>, Some v)) }"

section \<open>Size and deletion of the whole array\<close>

fun swa_sizeSWA_wrk :: "swa_node \<Rightarrow> UWord" where
  "swa_sizeSWA_wrk (LevelN ch n l) =
     sum_list (map (\<lambda>c. case c of None \<Rightarrow> 0 | Some c \<Rightarrow> swa_sizeSWA_wrk c) ch)"
| "swa_sizeSWA_wrk (Level0 ws n bits) = of_int n"

definition sizeSWA :: "SparseWA \<Rightarrow> UWord" where
  "sizeSWA swa = (case root swa of None \<Rightarrow> 0 | Some r \<Rightarrow> swa_sizeSWA_wrk r)"

text \<open>The nodes in the order in which they are freed.\<close>

fun swa_deleteSWA_wrk :: "swa_node \<Rightarrow> swa_node list" where
  "swa_deleteSWA_wrk (LevelN ch n l) =
     concat (map (\<lambda>c. case c of None \<Rightarrow> [] | Some c \<Rightarrow> swa_deleteSWA_wrk c) ch) @ [LevelN ch n l]"
| "swa_deleteSWA_wrk (Level0 ws n bits) = [Level0 ws n bits]"

definition deleteSWA :: "SparseWA \<Rightarrow> swa_node list" where
  "deleteSWA swa = (case root swa of None \<Rightarrow> [] | Some r \<Rightarrow> swa_deleteSWA_wrk r)"

section \<open>Iteration\<close>

text \<open>The stack is a list with the top first; \<open>isUsed\<close> is its length.\<close>

definition swa_PUSH :: "SWAStackElem list \<Rightarrow> SWAStackElem \<Rightarrow> SWAStackElem list option" where
  "swa_PUSH stk e = do { vg_assert (length stk \<le> 7); Some (e # stk) }"

definition swa_POP :: "SWAStackElem list \<Rightarrow> (SWAStackElem \<times> SWAStackElem list) option" where
  "swa_POP stk = (case stk of [] \<Rightarrow> None | e # rest \<Rightarrow> do { vg_assert (length rest \<le> 7); Some (e, rest) })"

definition initIterSWA :: "SparseWA \<Rightarrow> SparseWA option" where
  "initIterSWA swa =
     (case root swa of
        None \<Rightarrow> Some (swa\<lparr>iterStack := []\<rparr>)
      | Some r \<Rightarrow>
          do { stk \<leftarrow> swa_PUSH [] \<lparr>partial_key = 0, curr_ix = 0, curr_nd = r, resume_point = 1\<rparr>;
               Some (swa\<lparr>iterStack := stk\<rparr>) })"

text \<open>Where the function is: at the label \<open>dispatch\<close>, at \<open>start_new_node\<close>, or at the test of one of the two
  loops, with the values of \<open>p_key\<close>, \<open>curr_ix\<close> and \<open>curr_nd\<close>.\<close>

datatype swa_ctl = Dispatch | StartNewNode UWord swa_node | LeafLoop UWord nat swa_node | NonLeafLoop UWord nat swa_node

partial_function (option) nextIter_run :: "swa_ctl \<Rightarrow> SWAStackElem list
    \<Rightarrow> (SWAStackElem list \<times> (UWord \<times> UWord) option) option" where
  "nextIter_run ctl stk =
     (case ctl of
        Dispatch \<Rightarrow>
          if stk = [] then Some ([], None)
          else do { (e, stk) \<leftarrow> swa_POP stk;
                    (if resume_point e = 1 then nextIter_run (StartNewNode (partial_key e) (curr_nd e)) stk
                     else if resume_point e = 2 then nextIter_run (LeafLoop (partial_key e) (curr_ix e + 1) (curr_nd e)) stk
                     else if resume_point e = 3 then nextIter_run (NonLeafLoop (partial_key e) (curr_ix e + 1) (curr_nd e)) stk
                     else None) }
      | StartNewNode p_key nd \<Rightarrow>
          (case nd of
             Level0 ws n bits \<Rightarrow> nextIter_run (LeafLoop p_key 0 nd) stk
           | LevelN ch n l \<Rightarrow> nextIter_run (NonLeafLoop p_key 0 nd) stk)
      | LeafLoop p_key ix nd \<Rightarrow>
          (case nd of
             LevelN ch n l \<Rightarrow> None
           | Level0 ws n bits \<Rightarrow>
               if ix < 256 then
                 if swa_bitarray_read bits ix then
                   do { stk \<leftarrow> swa_PUSH stk \<lparr>partial_key = p_key, curr_ix = ix, curr_nd = nd, resume_point = 2\<rparr>;
                        Some (stk, Some (push_bit 8 p_key + of_nat ix, ws ! ix)) }
                 else nextIter_run (LeafLoop p_key (ix + 1) nd) stk
               else nextIter_run Dispatch stk)
      | NonLeafLoop p_key ix nd \<Rightarrow>
          (case nd of
             Level0 ws n bits \<Rightarrow> None
           | LevelN ch n l \<Rightarrow>
               if ix < 256 then
                 (case ch ! ix of
                    Some c \<Rightarrow>
                      do { stk \<leftarrow> swa_PUSH stk \<lparr>partial_key = p_key, curr_ix = ix, curr_nd = nd, resume_point = 3\<rparr>;
                           nextIter_run (StartNewNode (push_bit 8 p_key + of_nat ix) c) stk }
                  | None \<Rightarrow> nextIter_run (NonLeafLoop p_key (ix + 1) nd) stk)
               else nextIter_run Dispatch stk))"

definition nextIterSWA :: "SparseWA \<Rightarrow> (SparseWA \<times> (UWord \<times> UWord) option) option" where
  "nextIterSWA swa = do { (stk, r) \<leftarrow> nextIter_run Dispatch (iterStack swa); Some (swa\<lparr>iterStack := stk\<rparr>, r) }"

section \<open>Bits and counts\<close>

definition used_bits :: "UChar list \<Rightarrow> bool list" where
  "used_bits bits = map (swa_bitarray_read bits) [0..<256]"

lemma length_used_bits [simp]: "length (used_bits bits) = 256"
  by (simp add: used_bits_def)

lemma used_bits_nth: "ix < 256 \<Longrightarrow> used_bits bits ! ix = swa_bitarray_read bits ix"
  by (simp add: used_bits_def)

lemma drop_bit_AND_1: "(drop_bit off (w :: UChar) AND 1 = 1) = bit w off"
  by (simp add: and_one_eq bit_iff_odd_drop_bit odd_iff_mod_2_eq_one)

lemma swa_read_bit: "swa_bitarray_read a ix = bit (a ! (ix div 8)) (ix mod 8)"
  by (simp add: swa_bitarray_read_def drop_bit_AND_1)

lemma same_bit: "(ix :: nat) div 8 = jx div 8 \<Longrightarrow> ix mod 8 = jx mod 8 \<longleftrightarrow> ix = jx"
  by (metis div_mult_mod_eq)

lemma read_then_set:
  assumes "length bits = 32" "ix < 256" "swa_bitarray_read_then_set bits ix = (bits', b)"
  shows "length bits' = 32" "used_bits bits' = (used_bits bits)[ix := True]" "b = used_bits bits ! ix"
proof -
  have e: "bits' = bits[ix div 8 := bits ! (ix div 8) OR push_bit (ix mod 8) 1]" "b = bit (bits ! (ix div 8)) (ix mod 8)"
    using assms(3) by (auto simp: swa_bitarray_read_then_set_def Let_def drop_bit_AND_1)
  show "length bits' = 32" using e assms by simp
  show "b = used_bits bits ! ix" using e assms by (simp add: used_bits_nth swa_read_bit)
  show "used_bits bits' = (used_bits bits)[ix := True]"
  proof (rule nth_equalityI)
    fix j assume "j < length (used_bits bits')"
    then have j: "j < 256" by simp
    have "swa_bitarray_read bits' j = (j = ix \<or> swa_bitarray_read bits j)"
    proof (cases "ix div 8 = j div 8")
      case True
      then have b: "bits' ! (j div 8) = bits ! (j div 8) OR push_bit (ix mod 8) 1" using e(1) assms(1) j by simp
      have "bit (push_bit (ix mod 8) 1 :: UChar) (j mod 8) \<longleftrightarrow> ix = j"
        using same_bit [OF True] by (auto simp add: bit_exp_iff)
      then show ?thesis unfolding swa_read_bit b by (auto simp: bit_or_iff)
    next
      case False
      then have "bits' ! (j div 8) = bits ! (j div 8)" using e(1) by simp
      then show ?thesis using False unfolding swa_read_bit by auto
    qed
    then show "used_bits bits' ! j = (used_bits bits)[ix := True] ! j"
      using j assms by (auto simp: used_bits_nth nth_list_update)
  qed simp
qed

lemma read_then_clear:
  assumes "length bits = 32" "ix < 256" "swa_bitarray_read_then_clear bits ix = (bits', b)"
  shows "length bits' = 32" "used_bits bits' = (used_bits bits)[ix := False]" "b = used_bits bits ! ix"
proof -
  have e: "bits' = bits[ix div 8 := bits ! (ix div 8) AND NOT (push_bit (ix mod 8) 1)]" "b = bit (bits ! (ix div 8)) (ix mod 8)"
    using assms(3) by (auto simp: swa_bitarray_read_then_clear_def Let_def drop_bit_AND_1)
  show "length bits' = 32" using e assms by simp
  show "b = used_bits bits ! ix" using e assms by (simp add: used_bits_nth swa_read_bit)
  show "used_bits bits' = (used_bits bits)[ix := False]"
  proof (rule nth_equalityI)
    fix j assume "j < length (used_bits bits')"
    then have j: "j < 256" by simp
    have "swa_bitarray_read bits' j = (j \<noteq> ix \<and> swa_bitarray_read bits j)"
    proof (cases "ix div 8 = j div 8")
      case True
      then have b: "bits' ! (j div 8) = bits ! (j div 8) AND NOT (push_bit (ix mod 8) 1)" using e(1) assms(1) j by simp
      have "bit (push_bit (ix mod 8) 1 :: UChar) (j mod 8) \<longleftrightarrow> ix = j"
        using same_bit [OF True] by (auto simp add: bit_exp_iff)
      then show ?thesis unfolding swa_read_bit b by (auto simp: bit_and_iff bit_not_iff)
    next
      case False
      then have "bits' ! (j div 8) = bits ! (j div 8)" using e(1) by simp
      then show ?thesis using False unfolding swa_read_bit by auto
    qed
    then show "used_bits bits' ! j = (used_bits bits)[ix := False] ! j"
      using j assms by (auto simp: used_bits_nth nth_list_update)
  qed simp
qed

definition cnt :: "('a \<Rightarrow> bool) \<Rightarrow> 'a list \<Rightarrow> int" where
  "cnt P xs = int (length (filter P xs))"

lemma cnt_update:
  "i < length xs \<Longrightarrow> cnt P (xs[i := x]) = cnt P xs - (if P (xs ! i) then 1 else 0) + (if P x then 1 else 0)"
proof (induction xs arbitrary: i)
  case (Cons y xs)
  show ?case
  proof (cases i)
    case 0
    then show ?thesis by (simp add: cnt_def)
  next
    case (Suc j)
    then show ?thesis using Cons.IH [of j] Cons.prems by (auto simp add: cnt_def split: if_splits)
  qed
qed simp

lemma cnt_bounds: "0 \<le> cnt P xs" "cnt P xs \<le> int (length xs)"
  by (simp_all add: cnt_def)

lemma cnt_pos: "0 < cnt P xs \<longleftrightarrow> (\<exists>i < length xs. P (xs ! i))"
  by (auto simp: cnt_def filter_empty_conv set_conv_nth)

section \<open>The invariant\<close>

text \<open>A node of level \<open>i\<close> with correct counts; \<open>swa_wf\<close> also requires that it is in use.\<close>

fun swa_pre :: "nat \<Rightarrow> swa_node \<Rightarrow> bool" where
  "swa_pre 0 (Level0 ws n bits) \<longleftrightarrow> length ws = 256 \<and> length bits = 32 \<and> n = cnt id (used_bits bits)"
| "swa_pre 0 (LevelN ch n l) \<longleftrightarrow> False"
| "swa_pre (Suc i) (Level0 ws n bits) \<longleftrightarrow> False"
| "swa_pre (Suc i) (LevelN ch n l) \<longleftrightarrow> length ch = 256 \<and> l = int (Suc i) \<and> n = cnt (\<lambda>c. c \<noteq> None) ch
     \<and> (\<forall>ix < 256. \<forall>c. ch ! ix = Some c \<longrightarrow> swa_pre i c \<and> (case c of Level0 _ m _ \<Rightarrow> m > 0 | LevelN _ m _ \<Rightarrow> m > 0))"

definition in_use :: "swa_node \<Rightarrow> bool" where
  "in_use nd = (case nd of Level0 _ m _ \<Rightarrow> m > 0 | LevelN _ m _ \<Rightarrow> m > 0)"

definition swa_wf :: "nat \<Rightarrow> swa_node \<Rightarrow> bool" where
  "swa_wf i nd \<longleftrightarrow> swa_pre i nd \<and> in_use nd"

fun swa_look :: "nat \<Rightarrow> swa_node \<Rightarrow> UWord \<Rightarrow> UWord option" where
  "swa_look 0 (Level0 ws n bits) key = (if used_bits bits ! key_ix key 0 then Some (ws ! key_ix key 0) else None)"
| "swa_look (Suc i) (LevelN ch n l) key = (case ch ! key_ix key (Suc i) of None \<Rightarrow> None | Some c \<Rightarrow> swa_look i c key)"
| "swa_look _ _ _ = None"

lemma key_ix_less: "key_ix key i < 256"
proof -
  have "drop_bit (i * 8) key AND 0xFF \<le> (0xFF :: UWord)" by (rule word_and_le1)
  then show ?thesis unfolding key_ix_def by (simp add: word_le_nat_alt)
qed

text \<open>Keys with the same bytes up to level \<open>i\<close>.\<close>

definition same_upto :: "nat \<Rightarrow> UWord \<Rightarrow> UWord \<Rightarrow> bool" where
  "same_upto i k k' \<longleftrightarrow> (\<forall>j \<le> i. key_ix k j = key_ix k' j)"

lemma same_upto_Suc: "same_upto (Suc i) k k' \<longleftrightarrow> key_ix k (Suc i) = key_ix k' (Suc i) \<and> same_upto i k k'"
  unfolding same_upto_def using le_Suc_eq by auto

lemma key_ix_bit: "n < 8 \<Longrightarrow> bit (key_ix k j) n = bit k (j * 8 + n)"
proof -
  assume n: "n < 8"
  have m: "(0xFF :: UWord) = mask 8" by (simp add: mask_eq_exp_minus_1)
  have "bit (key_ix k j) n = bit (drop_bit (j * 8) k AND mask 8) n"
    unfolding key_ix_def m by (simp add: bit_unsigned_iff)
  also have "\<dots> = bit k (j * 8 + n)" using n by (auto simp: bit_and_iff bit_mask_iff bit_drop_bit_eq)
  finally show ?thesis .
qed

lemma same_upto_7: "same_upto 7 k k' \<longleftrightarrow> k = k'"
proof
  assume s: "same_upto 7 k k'"
  show "k = k'"
  proof (rule bit_word_eqI)
    fix n assume n: "n < LENGTH(64)"
    then have "n div 8 \<le> 7" by simp
    then have e: "key_ix k (n div 8) = key_ix k' (n div 8)" using s by (simp add: same_upto_def)
    have "bit k n = bit (key_ix k (n div 8)) (n mod 8)" using key_ix_bit [of "n mod 8" k "n div 8"] by simp
    also have "\<dots> = bit k' n" unfolding e using key_ix_bit [of "n mod 8" k' "n div 8"] by simp
    finally show "bit k n = bit k' n" .
  qed
qed (simp add: same_upto_def)

lemma swa_wf_LevelN:
  "swa_wf (Suc i) (LevelN ch n l) \<longleftrightarrow> length ch = 256 \<and> l = int (Suc i) \<and> n = cnt (\<lambda>c. c \<noteq> None) ch \<and> n > 0
     \<and> (\<forall>ix < 256. \<forall>c. ch ! ix = Some c \<longrightarrow> swa_wf i c)"
  by (auto simp: swa_wf_def in_use_def)

lemma swa_pre_LevelN:
  "swa_pre (Suc i) (LevelN ch n l) \<longleftrightarrow> length ch = 256 \<and> l = int (Suc i) \<and> n = cnt (\<lambda>c. c \<noteq> None) ch
     \<and> (\<forall>ix < 256. \<forall>c. ch ! ix = Some c \<longrightarrow> swa_wf i c)"
  by (simp add: swa_wf_def in_use_def)

lemma swa_pre_cases_Suc:
  assumes "swa_pre (Suc i) nd"
  obtains ch n where "nd = LevelN ch n (int (Suc i))"
  using assms by (cases nd) auto

lemma swa_pre_cases_0:
  assumes "swa_pre 0 nd"
  obtains ws n bits where "nd = Level0 ws n bits" "length ws = 256" "length bits = 32" "n = cnt id (used_bits bits)"
  using assms by (cases nd) auto

lemma new_nodes:
  "swa_pre 0 swa_new_Level0" "swa_look 0 swa_new_Level0 key = None"
  "swa_pre (Suc i) (swa_new_LevelN (int (Suc i)))" "swa_look (Suc i) (swa_new_LevelN l) key = None"
proof -
  have "\<not> swa_bitarray_read (replicate 32 0) ix" if "ix < 256" for ix
    using that by (simp add: swa_read_bit)
  then have "used_bits (replicate 32 0) = replicate 256 False" by (auto simp: used_bits_def intro: nth_equalityI)
  then show "swa_pre 0 swa_new_Level0" "swa_look 0 swa_new_Level0 key = None"
    using key_ix_less [of key 0] by (simp_all add: swa_new_Level0_def cnt_def)
  show "swa_pre (Suc i) (swa_new_LevelN (int (Suc i)))" "swa_look (Suc i) (swa_new_LevelN l) key = None"
    using key_ix_less [of key "Suc i"] by (simp_all add: swa_new_LevelN_def cnt_def)
qed

lemma children_update:
  assumes "length ch = 256" "\<And>ix c. ix < 256 \<Longrightarrow> ch ! ix = Some c \<Longrightarrow> W c" "\<And>c. x = Some c \<Longrightarrow> W c"
  shows "\<forall>ix < 256. \<forall>c. ch[jx := x] ! ix = Some c \<longrightarrow> W c"
proof (intro allI impI)
  show "W c" if "ix < 256" "ch[jx := x] ! ix = Some c" for ix c
    using assms that by (cases "ix = jx") auto
qed

section \<open>Lookup and insertion\<close>

lemma lookup_levels_ok:
  "(\<And>nd'. nd = Some nd' \<Longrightarrow> swa_wf i nd') \<Longrightarrow>
     \<exists>r. lookup_levels i nd key = Some r \<and> (\<forall>l. r = Some l \<longrightarrow> swa_wf 0 l)
       \<and> (case nd of None \<Rightarrow> None | Some nd \<Rightarrow> swa_look i nd key) = (case r of None \<Rightarrow> None | Some l \<Rightarrow> swa_look 0 l key)"
proof (induction i arbitrary: nd)
  case 0
  then show ?case by auto
next
  case (Suc i)
  show ?case
  proof (cases nd)
    case None
    then show ?thesis by simp
  next
    case (Some nd')
    then obtain ch n where nd': "nd' = LevelN ch n (int (Suc i))" "swa_wf (Suc i) nd'"
      using Suc.prems swa_pre_cases_Suc unfolding swa_wf_def by blast
    have wf: "n > 0" "\<And>c. ch ! key_ix key (Suc i) = Some c \<Longrightarrow> swa_wf i c"
      using nd'(2) key_ix_less [of key "Suc i"] unfolding nd'(1) swa_wf_LevelN by auto
    obtain r where "lookup_levels i (ch ! key_ix key (Suc i)) key = Some r" "\<forall>l. r = Some l \<longrightarrow> swa_wf 0 l"
      "(case ch ! key_ix key (Suc i) of None \<Rightarrow> None | Some nd \<Rightarrow> swa_look i nd key) = (case r of None \<Rightarrow> None | Some l \<Rightarrow> swa_look 0 l key)"
      using Suc.IH [OF wf(2)] by blast
    then show ?thesis using Some nd'(1) wf(1) by simp
  qed
qed

definition swa_ok :: "SparseWA \<Rightarrow> bool" where
  "swa_ok swa \<longleftrightarrow> (\<forall>r. root swa = Some r \<longrightarrow> swa_wf 7 r)"

definition swa_map :: "SparseWA \<Rightarrow> UWord \<Rightarrow> UWord option" where
  "swa_map swa key = (case root swa of None \<Rightarrow> None | Some r \<Rightarrow> swa_look 7 r key)"

lemma lookupSWA_ok:
  assumes "swa_ok swa"
  shows "lookupSWA swa key = Some (swa_map swa key)"
proof -
  have "\<And>nd'. root swa = Some nd' \<Longrightarrow> swa_wf 7 nd'" using assms by (simp add: swa_ok_def)
  from lookup_levels_ok [of "root swa" 7 key, OF this] obtain r where r: "lookup_levels 7 (root swa) key = Some r"
    "\<And>l. r = Some l \<Longrightarrow> swa_wf 0 l" "swa_map swa key = (case r of None \<Rightarrow> None | Some l \<Rightarrow> swa_look 0 l key)"
    unfolding swa_map_def by blast
  show ?thesis
  proof (cases r)
    case (Some l)
    have w: "swa_pre 0 l" "in_use l" using r(2) [OF Some] by (simp_all add: swa_wf_def)
    obtain ws n bits where l: "l = Level0 ws n bits" by (rule swa_pre_cases_0 [OF w(1)])
    moreover have "n > 0" using w(2) unfolding l in_use_def by simp
    moreover note Some
    ultimately have "l = Level0 ws n bits" "n > 0" by simp_all
    then show ?thesis using r Some key_ix_less [of key 0] by (simp add: lookupSWA_def used_bits_nth Let_def)
  qed (use r in \<open>simp add: lookupSWA_def\<close>)
qed

lemma add_level0_ok:
  assumes "swa_pre 0 nd"
  shows "\<exists>nd'. add_level0 nd key v = Some (nd', swa_look 0 nd key \<noteq> None) \<and> swa_wf 0 nd'
    \<and> (\<forall>k. swa_look 0 nd' k = (if same_upto 0 key k then Some v else swa_look 0 nd k))"
proof -
  obtain ws n bits where nd: "nd = Level0 ws n bits" "length ws = 256" "length bits = 32" "n = cnt id (used_bits bits)"
    by (rule swa_pre_cases_0 [OF assms])
  let ?ix = "key_ix key 0"
  have ix: "?ix < 256" by (rule key_ix_less)
  obtain bits' b where sb: "swa_bitarray_read_then_set bits ?ix = (bits', b)" by fastforce
  note rs = read_then_set [OF nd(3) ix sb]
  define n' where "n' = (if b then n else n + 1)"
  have n': "n' = cnt id (used_bits bits')"
    using cnt_update [of ?ix "used_bits bits" id True] ix rs nd(4) by (simp add: n'_def)
  have "0 < cnt id (used_bits bits')" unfolding cnt_pos using rs(2) ix by (intro exI [of _ ?ix]) simp
  then have bd: "1 \<le> n'" "n' \<le> 256" using n' cnt_bounds(2) [of id "used_bits bits'"] by simp_all
  let ?nd = "Level0 (ws[?ix := v]) n' bits'"
  have "swa_wf 0 ?nd" using nd rs n' bd by (simp add: swa_wf_def in_use_def)
  moreover have "swa_look 0 ?nd k = (if same_upto 0 key k then Some v else swa_look 0 nd k)" for k
    using nd rs ix key_ix_less [of k 0] by (auto simp: same_upto_def nth_list_update)
  moreover have "add_level0 nd key v = Some (?nd, b)"
    unfolding nd(1) add_level0.simps Let_def sb prod.case n'_def [symmetric] using bd by simp
  moreover have "swa_look 0 nd key \<noteq> None \<longleftrightarrow> b" using nd(1) rs(3) by simp
  ultimately show ?thesis by blast
qed

lemma add_levels_ok:
  "swa_pre i nd \<Longrightarrow> \<exists>nd'. add_levels i nd key v = Some (nd', swa_look i nd key \<noteq> None) \<and> swa_wf i nd'
     \<and> (\<forall>k. swa_look i nd' k = (if same_upto i key k then Some v else swa_look i nd k))"
proof (induction i arbitrary: nd)
  case 0
  then show ?case using add_level0_ok by simp
next
  case (Suc i)
  obtain ch n where nd: "nd = LevelN ch n (int (Suc i))" by (rule swa_pre_cases_Suc [OF Suc.prems])
  have pre: "length ch = 256" "n = cnt (\<lambda>c. c \<noteq> None) ch" "\<And>ix c. ix < 256 \<Longrightarrow> ch ! ix = Some c \<Longrightarrow> swa_wf i c"
    using Suc.prems unfolding nd swa_pre_LevelN by auto
  let ?ix = "key_ix key (Suc i)"
  have ix: "?ix < 256" by (rule key_ix_less)
  define c where "c = (case ch ! ?ix of None \<Rightarrow> if i = 0 then swa_new_Level0 else swa_new_LevelN (int i) | Some c \<Rightarrow> c)"
  define n' where "n' = (case ch ! ?ix of None \<Rightarrow> n + 1 | Some c \<Rightarrow> n)"
  have "swa_pre i c \<and> (\<forall>k. swa_look i c k = (case ch ! ?ix of None \<Rightarrow> None | Some c \<Rightarrow> swa_look i c k))"
    using pre(3) [OF ix] new_nodes by (cases i) (auto simp: c_def swa_wf_def split: option.splits)
  then have c: "swa_pre i c" "\<And>k. swa_look i c k = (case ch ! ?ix of None \<Rightarrow> None | Some c \<Rightarrow> swa_look i c k)" by auto
  obtain c' where c': "add_levels i c key v = Some (c', swa_look i c key \<noteq> None)" "swa_wf i c'"
    "\<And>k. swa_look i c' k = (if same_upto i key k then Some v else swa_look i c k)"
    using Suc.IH [OF c(1)] by blast
  let ?ch = "ch[?ix := Some c']"
  have n': "n' = cnt (\<lambda>c. c \<noteq> None) ?ch"
    using cnt_update [of ?ix ch "\<lambda>c. c \<noteq> None" "Some c'"] ix pre by (auto simp: n'_def split: option.splits)
  have "0 < cnt (\<lambda>c. c \<noteq> None) ?ch" unfolding cnt_pos using ix pre(1) by (intro exI [of _ ?ix]) simp
  then have bd: "1 \<le> n'" "n' \<le> 256" using n' cnt_bounds(2) [of "\<lambda>c. c \<noteq> None" ?ch] pre(1) by simp_all
  let ?nd = "LevelN ?ch n' (int (Suc i))"
  have "swa_wf (Suc i) ?nd" unfolding swa_wf_LevelN using pre(1) n' bd c'(2)
    children_update [where W = "swa_wf i" and x = "Some c'" and jx = ?ix, OF pre(1,3)] by simp
  moreover have "swa_look (Suc i) ?nd k = (if same_upto (Suc i) key k then Some v else swa_look (Suc i) nd k)" for k
    using c'(3) c(2) ix pre(1) by (auto simp: nd same_upto_Suc nth_list_update)
  moreover have "swa_look (Suc i) nd key = swa_look i c key" unfolding nd c(2) by simp
  moreover have "add_levels (Suc i) nd key v = Some (?nd, swa_look i c key \<noteq> None)"
  proof -
    have e: "(case ch ! ?ix of None \<Rightarrow> (if i = 0 then swa_new_Level0 else swa_new_LevelN (int i), n + 1) | Some c \<Rightarrow> (c, n)) = (c, n')"
      by (simp add: c_def n'_def split: option.splits)
    show ?thesis unfolding nd add_levels.simps Let_def e using c'(1) bd by simp
  qed
  ultimately show ?case by auto
qed

lemma addToSWA_ok:
  assumes "swa_ok swa"
  shows "\<exists>swa'. addToSWA swa key v = Some (swa', swa_map swa key \<noteq> None) \<and> swa_ok swa' \<and> swa_map swa' = (swa_map swa)(key \<mapsto> v)"
proof -
  define r where "r = (case root swa of None \<Rightarrow> swa_new_LevelN 7 | Some r \<Rightarrow> r)"
  have n7: "swa_pre 7 (swa_new_LevelN 7)" "swa_look 7 (swa_new_LevelN 7) k = None" for k
    using new_nodes(3) [of 6] new_nodes(4) [of 6 7 k] by (simp_all add: numeral_eq_Suc)
  have r: "swa_pre 7 r" "\<And>k. swa_look 7 r k = swa_map swa k"
    using assms n7 by (auto simp: r_def swa_ok_def swa_map_def swa_wf_def split: option.splits)
  obtain r' where r': "add_levels 7 r key v = Some (r', swa_look 7 r key \<noteq> None)" "swa_wf 7 r'"
    "\<And>k. swa_look 7 r' k = (if same_upto 7 key k then Some v else swa_look 7 r k)"
    using add_levels_ok [OF r(1)] by blast
  have "swa_map (swa\<lparr>root := Some r'\<rparr>) = (swa_map swa)(key \<mapsto> v)"
    using r'(3) r(2) by (auto simp: swa_map_def same_upto_7 fun_eq_iff)
  then show ?thesis
    using r' r(2) by (intro exI [of _ "swa\<lparr>root := Some r'\<rparr>"]) (simp add: addToSWA_def r_def [symmetric] swa_ok_def)
qed

section \<open>Deletion\<close>

text \<open>What a deletion in a subtree may return.\<close>

definition del_result :: "nat \<Rightarrow> swa_node option \<Rightarrow> UWord \<Rightarrow> (swa_node option \<times> UWord) option \<Rightarrow> bool" where
  "del_result i nd key r \<longleftrightarrow>
     (let look = (\<lambda>nd k. case nd of None \<Rightarrow> None | Some nd \<Rightarrow> swa_look i nd k) in
      case r of
        None \<Rightarrow> look nd key = None
      | Some (nd', v) \<Rightarrow> nd \<noteq> None \<and> look nd key = Some v \<and> (\<forall>c. nd' = Some c \<longrightarrow> swa_wf i c)
          \<and> (\<forall>k. look nd' k = (if same_upto i key k then None else look nd k)))"

lemma del_level0_ok:
  assumes "swa_wf 0 nd"
  shows "\<exists>r. del_level0 nd key = Some r \<and> del_result 0 (Some nd) key r"
proof -
  obtain ws n bits where nd: "nd = Level0 ws n bits" "length ws = 256" "length bits = 32" "n = cnt id (used_bits bits)"
    using assms swa_pre_cases_0 unfolding swa_wf_def by blast
  have pos: "n > 0" using assms nd(1) by (simp add: swa_wf_def in_use_def)
  let ?ix = "key_ix key 0"
  have ix: "?ix < 256" by (rule key_ix_less)
  obtain bits' b where sb: "swa_bitarray_read_then_clear bits ?ix = (bits', b)" by fastforce
  note rs = read_then_clear [OF nd(3) ix sb]
  show ?thesis
  proof (cases b)
    case False
    then show ?thesis using nd(1) pos sb rs(3) by (simp add: del_result_def)
  next
    case True
    have n': "n - 1 = cnt id (used_bits bits')"
      using cnt_update [of ?ix "used_bits bits" id False] ix rs nd(4) True by simp
    have look: "swa_look 0 (Level0 ws (n - 1) bits') k = (if same_upto 0 key k then None else swa_look 0 nd k)" for k
      using nd rs ix key_ix_less [of k 0] by (auto simp: same_upto_def nth_list_update)
    have none: "swa_look 0 (Level0 ws (n - 1) bits') k = None" if "\<not> n - 1 > 0" for k
    proof -
      have "\<not> 0 < cnt id (used_bits bits')" using that n' by simp
      then show ?thesis using key_ix_less [of k 0] unfolding cnt_pos by auto
    qed
    have "del_level0 nd key = Some (Some (if n - 1 > 0 then Some (Level0 ws (n - 1) bits') else None, ws ! ?ix))"
      using nd(1) pos sb True by simp
    moreover have "del_result 0 (Some nd) key (Some (if n - 1 > 0 then Some (Level0 ws (n - 1) bits') else None, ws ! ?ix))"
    proof (cases "n - 1 > 0")
      case pos: True
      have "swa_wf 0 (Level0 ws (n - 1) bits')" using nd rs(1) n' pos by (simp add: swa_wf_def in_use_def)
      moreover have "swa_look 0 nd key = Some (ws ! ?ix)" using nd(1) rs(3) True by simp
      ultimately show ?thesis using look pos by (simp add: del_result_def del: swa_look.simps)
    next
      case False
      have "swa_look 0 nd key = Some (ws ! ?ix)" using nd(1) rs(3) True by simp
      moreover have "\<not> same_upto 0 key k \<Longrightarrow> swa_look 0 nd k = None" for k
        using look [of k] none [OF False, of k] by (simp del: swa_look.simps)
      ultimately show ?thesis using False by (simp add: del_result_def del: swa_look.simps)
    qed
    ultimately show ?thesis by blast
  qed
qed

lemma del_levels_ok:
  "(\<And>nd'. nd = Some nd' \<Longrightarrow> swa_wf i nd') \<Longrightarrow> \<exists>r. del_levels i nd key = Some r \<and> del_result i nd key r"
proof (induction i arbitrary: nd)
  case 0
  then show ?case using del_level0_ok by (cases nd) (auto simp: del_result_def)
next
  case (Suc i)
  show ?case
  proof (cases nd)
    case None
    then show ?thesis by (simp add: del_result_def)
  next
    case (Some nd0)
    then obtain ch n where nd0: "nd0 = LevelN ch n (int (Suc i))" "swa_wf (Suc i) nd0"
      using Suc.prems swa_pre_cases_Suc unfolding swa_wf_def by blast
    have wf: "length ch = 256" "n = cnt (\<lambda>c. c \<noteq> None) ch" "n > 0" "\<And>ix c. ix < 256 \<Longrightarrow> ch ! ix = Some c \<Longrightarrow> swa_wf i c"
      using nd0(2) unfolding nd0(1) swa_wf_LevelN by auto
    let ?ix = "key_ix key (Suc i)"
    have ix: "?ix < 256" by (rule key_ix_less)
    obtain r where r: "del_levels i (ch ! ?ix) key = Some r" "del_result i (ch ! ?ix) key r"
      using Suc.IH [OF wf(4) [OF ix]] by blast
    show ?thesis
    proof (cases r)
      case None
      then show ?thesis using Some nd0(1) wf(3) r by (simp add: del_result_def)
    next
      case r': (Some p)
      obtain nd' v where p: "p = (nd', v)" by fastforce
      have ch: "ch ! ?ix \<noteq> None" and v: "(case ch ! ?ix of None \<Rightarrow> None | Some c \<Rightarrow> swa_look i c key) = Some v"
        and sub: "\<And>c. nd' = Some c \<Longrightarrow> swa_wf i c"
        and lk: "\<And>k. (case nd' of None \<Rightarrow> None | Some c \<Rightarrow> swa_look i c k)
          = (if same_upto i key k then None else case ch ! ?ix of None \<Rightarrow> None | Some c \<Rightarrow> swa_look i c k)"
        using r(2) unfolding r' p by (auto simp: del_result_def)
      let ?ch = "ch[?ix := nd']"
      define n' where "n' = (if nd' = None then n - 1 else n)"
      have n': "n' = cnt (\<lambda>c. c \<noteq> None) ?ch"
        using cnt_update [of ?ix ch "\<lambda>c. c \<noteq> None" nd'] ix wf ch by (simp add: n'_def)
      have look: "swa_look (Suc i) (LevelN ?ch m l) k = (if same_upto (Suc i) key k then None else swa_look (Suc i) nd0 k)" for k m l
        using lk [of k] ix wf(1) by (auto simp: nd0(1) same_upto_Suc nth_list_update)
      have none: "swa_look (Suc i) (LevelN ?ch m l) k = None" if "\<not> n' > 0" for k m l
      proof -
        have "\<not> 0 < cnt (\<lambda>c. c \<noteq> None) ?ch" using that n' by simp
        then have "?ch ! key_ix k (Suc i) = None" using key_ix_less [of k "Suc i"] wf(1) unfolding cnt_pos by auto
        then show ?thesis by simp
      qed
      have w: "swa_wf (Suc i) (LevelN ?ch n' (int (Suc i)))" if "n' > 0"
        unfolding swa_wf_LevelN using that n' wf(1) children_update [OF wf(1,4) sub] by simp
      have nn: "0 \<le> n'" using n' cnt_bounds(1) by metis
      have "del_levels (Suc i) nd key = Some (Some (if n' > 0 then Some (LevelN ?ch n' (int (Suc i))) else None, v))"
      proof (cases nd')
        case None
        then show ?thesis unfolding Some nd0(1) using wf(3) r(1) r' p ch nn by (simp add: n'_def)
      next
        case c: (Some c)
        then have "n' = n" by (simp add: n'_def)
        then show ?thesis unfolding Some nd0(1) using wf(3) r(1) r' p c by simp
      qed
      moreover have "swa_look (Suc i) nd0 key = Some v" unfolding nd0(1) using v by simp
      then have "del_result (Suc i) nd key (Some (if n' > 0 then Some (LevelN ?ch n' (int (Suc i))) else None, v))"
      proof (cases "n' > 0")
        case True
        then show ?thesis using w look \<open>swa_look (Suc i) nd0 key = Some v\<close> unfolding Some
          by (simp add: del_result_def del: swa_look.simps)
      next
        case False
        have "\<not> same_upto (Suc i) key k \<Longrightarrow> swa_look (Suc i) nd0 k = None" for k
          using look [of 0 0 k] none [OF False, of 0 0 k] by (simp del: swa_look.simps)
        then show ?thesis using False \<open>swa_look (Suc i) nd0 key = Some v\<close> unfolding Some
          by (simp add: del_result_def del: swa_look.simps)
      qed
      ultimately show ?thesis by blast
    qed
  qed
qed

lemma delFromSWA_ok:
  assumes "swa_ok swa"
  shows "\<exists>swa'. delFromSWA swa key = Some (swa', swa_map swa key) \<and> swa_ok swa' \<and> swa_map swa' = (swa_map swa)(key := None)"
proof -
  have "\<And>nd'. root swa = Some nd' \<Longrightarrow> swa_wf 7 nd'" using assms by (simp add: swa_ok_def)
  from del_levels_ok [of "root swa" 7 key, OF this] obtain r where r: "del_levels 7 (root swa) key = Some r" "del_result 7 (root swa) key r"
    by blast
  show ?thesis
  proof (cases r)
    case None
    then have "swa_map swa key = None" using r(2) by (simp add: del_result_def swa_map_def)
    then show ?thesis using r(1) None assms by (simp add: delFromSWA_def fun_upd_idem)
  next
    case (Some p)
    obtain nd' v where p: "p = (nd', v)" by fastforce
    have d: "swa_map swa key = Some v" "\<And>c. nd' = Some c \<Longrightarrow> swa_wf 7 c"
      "\<And>k. (case nd' of None \<Rightarrow> None | Some c \<Rightarrow> swa_look 7 c k) = (if key = k then None else swa_map swa k)"
      using r(2) unfolding Some p by (auto simp: del_result_def swa_map_def same_upto_7)
    have "swa_map (swa\<lparr>root := nd'\<rparr>) = (swa_map swa)(key := None)"
      using d(3) by (auto simp: swa_map_def fun_eq_iff)
    then show ?thesis using r(1) Some p d by (intro exI [of _ "swa\<lparr>root := nd'\<rparr>"]) (simp add: delFromSWA_def swa_ok_def)
  qed
qed

interpretation swa: word_map swa_ok swa_map addToSWA delFromSWA
  using addToSWA_ok delFromSWA_ok by unfold_locales auto

text \<open>C21: every sequence of insertions and deletions on a new sparse array fails no assertion and has the
  results and the contents of the same sequence on a mathematical map, and every lookup then returns
  the value of that map.\<close>

theorem sparsewa_refines_map:
  "\<exists>swa. run_ops addToSWA delFromSWA newSWA ops = Some (swa, snd (spec_ops Map.empty ops))
    \<and> (\<forall>key. lookupSWA swa key = Some (fst (spec_ops Map.empty ops) key))"
proof -
  have new: "swa_ok newSWA" "swa_map newSWA = Map.empty" by (auto simp: swa_ok_def swa_map_def newSWA_def)
  from swa.run_refines [OF new(1), of ops] obtain s where "run_ops addToSWA delFromSWA newSWA ops = Some (s, snd (spec_ops Map.empty ops))"
    "swa_ok s" "swa_map s = fst (spec_ops Map.empty ops)" unfolding new(2) by blast
  then show ?thesis using lookupSWA_ok by metis
qed

end
