(* ===== verification/SparseWA_Iter.thy ===== *)
theory SparseWA_Iter
  imports SparseWA
begin

text \<open>
  The iterator of the sparse array: it delivers every entry once, by increasing key, and its stack
  of eight elements suffices.
\<close>

section \<open>The entries of a subtree\<close>

definition leaf_rem :: "UWord \<Rightarrow> UWord list \<Rightarrow> UChar list \<Rightarrow> nat \<Rightarrow> (UWord \<times> UWord) list" where
  "leaf_rem p ws bits ix =
     map (\<lambda>j. (push_bit 8 p + of_nat j, ws ! j)) (filter (swa_bitarray_read bits) [ix..<256])"

fun entries :: "nat \<Rightarrow> UWord \<Rightarrow> swa_node \<Rightarrow> (UWord \<times> UWord) list" where
  "entries 0 p (Level0 ws n bits) = leaf_rem p ws bits 0"
| "entries (Suc i) p (LevelN ch n l) =
     concat (map (\<lambda>j. case ch ! j of None \<Rightarrow> [] | Some c \<Rightarrow> entries i (push_bit 8 p + of_nat j) c) [0..<256])"
| "entries _ _ _ = []"

definition nonleaf_rem :: "nat \<Rightarrow> UWord \<Rightarrow> swa_node option list \<Rightarrow> nat \<Rightarrow> (UWord \<times> UWord) list" where
  "nonleaf_rem i p ch ix =
     concat (map (\<lambda>j. case ch ! j of None \<Rightarrow> [] | Some c \<Rightarrow> entries i (push_bit 8 p + of_nat j) c) [ix..<256])"

lemma leaf_rem_step:
  "ix < 256 \<Longrightarrow> leaf_rem p ws bits ix =
     (if swa_bitarray_read bits ix then [(push_bit 8 p + of_nat ix, ws ! ix)] else []) @ leaf_rem p ws bits (ix + 1)"
  by (simp add: leaf_rem_def upt_conv_Cons)

lemma nonleaf_rem_step:
  "ix < 256 \<Longrightarrow> nonleaf_rem i p ch ix =
     (case ch ! ix of None \<Rightarrow> [] | Some c \<Rightarrow> entries i (push_bit 8 p + of_nat ix) c) @ nonleaf_rem i p ch (ix + 1)"
  by (simp add: nonleaf_rem_def upt_conv_Cons)

lemma rem_end: "\<not> ix < 256 \<Longrightarrow> leaf_rem p ws bits ix = []" "\<not> ix < 256 \<Longrightarrow> nonleaf_rem i p ch ix = []"
  by (simp_all add: leaf_rem_def nonleaf_rem_def)

lemma entries_0: "entries 0 p (Level0 ws n bits) = leaf_rem p ws bits 0"
  by simp

lemma entries_Suc: "entries (Suc i) p (LevelN ch n l) = nonleaf_rem i p ch 0"
  by (simp add: nonleaf_rem_def)

section \<open>What the stack still holds\<close>

fun frame_rem :: "nat \<Rightarrow> SWAStackElem \<Rightarrow> (UWord \<times> UWord) list" where
  "frame_rem i e =
     (if resume_point e = 1 then entries i (partial_key e) (curr_nd e)
      else case curr_nd e of
             Level0 ws n bits \<Rightarrow> leaf_rem (partial_key e) ws bits (curr_ix e + 1)
           | LevelN ch n l \<Rightarrow> nonleaf_rem (i - 1) (partial_key e) ch (curr_ix e + 1))"

fun stack_rem :: "nat \<Rightarrow> SWAStackElem list \<Rightarrow> (UWord \<times> UWord) list" where
  "stack_rem i [] = []"
| "stack_rem i (e # stk) = frame_rem i e @ stack_rem (Suc i) stk"

text \<open>The frames are nodes of consecutive levels up to the root at level 7; \<open>i\<close> is the level of the top.\<close>

fun stack_ok :: "nat \<Rightarrow> SWAStackElem list \<Rightarrow> bool" where
  "stack_ok i [] \<longleftrightarrow> True"
| "stack_ok i (e # stk) \<longleftrightarrow> swa_wf i (curr_nd e) \<and> (resume_point e = 1 \<or> resume_point e = (if i = 0 then 2 else 3))
     \<and> i + length stk = 7 \<and> stack_ok (Suc i) stk"

text \<open>A run delivers the first of the entries \<open>xs\<close>, and the stack keeps the others.\<close>

definition delivers :: "swa_ctl \<Rightarrow> SWAStackElem list \<Rightarrow> (UWord \<times> UWord) list \<Rightarrow> bool" where
  "delivers ctl stk xs \<longleftrightarrow>
     (\<exists>i stk'. nextIter_run ctl stk = Some (stk', case xs of [] \<Rightarrow> None | x # _ \<Rightarrow> Some x)
        \<and> stack_ok i stk' \<and> stack_rem i stk' = tl xs)"

lemma deliversI:
  "nextIter_run ctl stk = Some (stk', Some x) \<Longrightarrow> stack_ok i stk' \<Longrightarrow> stack_rem i stk' = xs \<Longrightarrow> delivers ctl stk (x # xs)"
  by (auto simp: delivers_def)

lemma delivers_cong: "nextIter_run ctl stk = nextIter_run ctl' stk' \<Longrightarrow> delivers ctl' stk' xs \<Longrightarrow> delivers ctl stk xs"
  by (simp add: delivers_def)

section \<open>The loops\<close>

lemma leaf_loop_step:
  "ix < 256 \<Longrightarrow> \<not> swa_bitarray_read bits ix \<Longrightarrow>
     nextIter_run (LeafLoop p ix (Level0 ws n bits)) stk = nextIter_run (LeafLoop p (ix + 1) (Level0 ws n bits)) stk"
  "\<not> ix < 256 \<Longrightarrow> nextIter_run (LeafLoop p ix (Level0 ws n bits)) stk = nextIter_run Dispatch stk"
  by (subst nextIter_run.simps, simp)+

lemma leaf_loop:
  assumes "swa_wf 0 nd" "nd = Level0 ws n bits" "length stk = 7" "stack_ok 1 stk"
  shows "(leaf_rem p ws bits ix = [] \<longrightarrow> nextIter_run (LeafLoop p ix nd) stk = nextIter_run Dispatch stk)
    \<and> (leaf_rem p ws bits ix \<noteq> [] \<longrightarrow> delivers (LeafLoop p ix nd) stk (leaf_rem p ws bits ix @ stack_rem 1 stk))"
proof (induction "256 - ix" arbitrary: ix)
  case 0
  then show ?case using leaf_loop_step(2) assms(2) by (simp add: rem_end)
next
  case (Suc d)
  then have ix: "ix < 256" "d = 256 - (ix + 1)" by simp_all
  show ?case
  proof (cases "swa_bitarray_read bits ix")
    case True
    let ?e = "\<lparr>partial_key = p, curr_ix = ix, curr_nd = nd, resume_point = 2\<rparr>"
    have "nextIter_run (LeafLoop p ix nd) stk = Some (?e # stk, Some (push_bit 8 p + of_nat ix, ws ! ix))"
      using True ix(1) assms(2,3) by (subst nextIter_run.simps) (simp add: swa_PUSH_def)
    then have "delivers (LeafLoop p ix nd) stk ((push_bit 8 p + of_nat ix, ws ! ix) # leaf_rem p ws bits (ix + 1) @ stack_rem 1 stk)"
      by (rule deliversI [where i = 0]) (use assms in simp_all)
    then show ?thesis using True ix(1) by (simp add: leaf_rem_step)
  next
    case False
    have e: "nextIter_run (LeafLoop p ix nd) stk = nextIter_run (LeafLoop p (ix + 1) nd) stk"
      unfolding assms(2) by (rule leaf_loop_step(1) [OF ix(1) False])
    have "leaf_rem p ws bits ix = leaf_rem p ws bits (ix + 1)" using False ix(1) by (simp add: leaf_rem_step)
    then show ?thesis using Suc.hyps(1) [OF ix(2)] e delivers_cong [OF e] by simp
  qed
qed

lemma nonleaf_loop_step:
  "ix < 256 \<Longrightarrow> ch ! ix = None \<Longrightarrow>
     nextIter_run (NonLeafLoop p ix (LevelN ch n l)) stk = nextIter_run (NonLeafLoop p (ix + 1) (LevelN ch n l)) stk"
  "\<not> ix < 256 \<Longrightarrow> nextIter_run (NonLeafLoop p ix (LevelN ch n l)) stk = nextIter_run Dispatch stk"
  by (subst nextIter_run.simps, simp)+

lemma nonleaf_loop:
  assumes sub: "\<And>p c stk. swa_wf i c \<Longrightarrow> i + length stk = 7 \<Longrightarrow> stack_ok (Suc i) stk \<Longrightarrow>
      entries i p c \<noteq> [] \<and> delivers (StartNewNode p c) stk (entries i p c @ stack_rem (Suc i) stk)"
    and nd: "swa_wf (Suc i) nd" "nd = LevelN ch n l" and stk: "Suc i + length stk = 7" "stack_ok (Suc (Suc i)) stk"
  shows "(nonleaf_rem i p ch ix = [] \<longrightarrow> nextIter_run (NonLeafLoop p ix nd) stk = nextIter_run Dispatch stk)
    \<and> (nonleaf_rem i p ch ix \<noteq> [] \<longrightarrow> delivers (NonLeafLoop p ix nd) stk (nonleaf_rem i p ch ix @ stack_rem (Suc (Suc i)) stk))"
proof (induction "256 - ix" arbitrary: ix)
  case 0
  then show ?case using nonleaf_loop_step(2) nd(2) by (simp add: rem_end)
next
  case (Suc d)
  then have ix: "ix < 256" "d = 256 - (ix + 1)" by simp_all
  show ?case
  proof (cases "ch ! ix")
    case (Some c)
    let ?e = "\<lparr>partial_key = p, curr_ix = ix, curr_nd = nd, resume_point = 3\<rparr>" and ?p = "push_bit 8 p + of_nat ix"
    have c: "swa_wf i c" using nd ix(1) Some by (simp add: swa_wf_LevelN)
    have e: "nextIter_run (NonLeafLoop p ix nd) stk = nextIter_run (StartNewNode ?p c) (?e # stk)"
      using Some ix(1) nd(2) stk(1) by (subst nextIter_run.simps) (simp add: swa_PUSH_def)
    have "entries i ?p c \<noteq> [] \<and> delivers (StartNewNode ?p c) (?e # stk) (entries i ?p c @ stack_rem (Suc i) (?e # stk))"
      using c nd(1) stk by (intro sub) simp_all
    moreover have "stack_rem (Suc i) (?e # stk) = nonleaf_rem i p ch (ix + 1) @ stack_rem (Suc (Suc i)) stk"
      using nd(2) by simp
    ultimately show ?thesis using delivers_cong [OF e] Some ix(1) by (simp add: nonleaf_rem_step)
  next
    case None
    have e: "nextIter_run (NonLeafLoop p ix nd) stk = nextIter_run (NonLeafLoop p (ix + 1) nd) stk"
      unfolding nd(2) by (rule nonleaf_loop_step(1) [OF ix(1) None])
    have "nonleaf_rem i p ch ix = nonleaf_rem i p ch (ix + 1)" using None ix(1) by (simp add: nonleaf_rem_step)
    then show ?thesis using Suc.hyps(1) [OF ix(2)] e delivers_cong [OF e] by simp
  qed
qed

section \<open>Starting a node\<close>

lemma leaf_nonempty:
  assumes "swa_wf 0 (Level0 ws n bits)"
  shows "leaf_rem p ws bits 0 \<noteq> []"
proof -
  have "0 < cnt id (used_bits bits)" using assms by (simp add: swa_wf_def in_use_def)
  then obtain j where "j < 256" "swa_bitarray_read bits j" unfolding cnt_pos by (auto simp: used_bits_nth)
  then show ?thesis by (auto simp: leaf_rem_def filter_empty_conv)
qed

lemma start_new_node:
  "swa_wf i nd \<Longrightarrow> i + length stk = 7 \<Longrightarrow> stack_ok (Suc i) stk \<Longrightarrow>
     entries i p nd \<noteq> [] \<and> delivers (StartNewNode p nd) stk (entries i p nd @ stack_rem (Suc i) stk)"
proof (induction i arbitrary: p nd stk)
  case 0
  obtain ws n bits where nd: "nd = Level0 ws n bits" using 0(1) swa_pre_cases_0 unfolding swa_wf_def by metis
  have e: "nextIter_run (StartNewNode p nd) stk = nextIter_run (LeafLoop p 0 nd) stk"
    unfolding nd by (subst nextIter_run.simps) simp
  show ?case
    using leaf_loop [OF 0(1) nd, of stk p 0] leaf_nonempty [of ws n bits p] 0 delivers_cong [OF e] by (simp add: nd)
next
  case (Suc i)
  obtain ch n where nd: "nd = LevelN ch n (int (Suc i))" using Suc.prems(1) swa_pre_cases_Suc unfolding swa_wf_def by metis
  have e: "nextIter_run (StartNewNode p nd) stk = nextIter_run (NonLeafLoop p 0 nd) stk"
    unfolding nd by (subst nextIter_run.simps) simp
  have "0 < cnt (\<lambda>c. c \<noteq> None) ch" "length ch = 256" using Suc.prems(1) unfolding nd swa_wf_LevelN by auto
  then obtain j c where j: "j < 256" "ch ! j = Some c" unfolding cnt_pos by auto
  have wc: "swa_wf i c" using Suc.prems(1) j unfolding nd swa_wf_LevelN by blast
  let ?e = "\<lparr>partial_key = p, curr_ix = 0, curr_nd = nd, resume_point = 3\<rparr>"
  have "entries i (push_bit 8 p + of_nat j) c \<noteq> []"
    using Suc.IH [OF wc, of "?e # stk"] Suc.prems by simp
  then have ne: "nonleaf_rem i p ch 0 \<noteq> []" using j by (auto simp: nonleaf_rem_def intro!: bexI [of _ j])
  from nonleaf_loop [OF Suc.IH Suc.prems(1) nd Suc.prems(2,3), of p 0] ne
  have "delivers (NonLeafLoop p 0 nd) stk (nonleaf_rem i p ch 0 @ stack_rem (Suc (Suc i)) stk)" by blast
  then show ?case using ne delivers_cong [OF e] unfolding nd entries_Suc by simp
qed

lemma dispatch_pop:
  assumes "stack_ok i (e # stk)"
  shows "nextIter_run Dispatch (e # stk) =
    (if resume_point e = 1 then nextIter_run (StartNewNode (partial_key e) (curr_nd e)) stk
     else if i = 0 then nextIter_run (LeafLoop (partial_key e) (curr_ix e + 1) (curr_nd e)) stk
     else nextIter_run (NonLeafLoop (partial_key e) (curr_ix e + 1) (curr_nd e)) stk)"
  using assms by (subst nextIter_run.simps) (auto simp: swa_POP_def)

lemma dispatch_ok: "stack_ok i stk \<Longrightarrow> delivers Dispatch stk (stack_rem i stk)"
proof (induction stk arbitrary: i)
  case Nil
  then show ?case unfolding delivers_def by (subst nextIter_run.simps) (auto intro!: exI [of _ "[]"])
next
  case (Cons e stk)
  note pop = dispatch_pop [OF Cons.prems]
  have wf: "swa_wf i (curr_nd e)" and len: "i + length stk = 7" and ok: "stack_ok (Suc i) stk" using Cons.prems by auto
  note IH = Cons.IH [OF ok]
  show ?case
  proof (cases "resume_point e = 1")
    case True
    then have p: "nextIter_run Dispatch (e # stk) = nextIter_run (StartNewNode (partial_key e) (curr_nd e)) stk"
      using pop by simp
    show ?thesis using start_new_node [OF wf len ok, of "partial_key e"] delivers_cong [OF p] True by simp
  next
    case r: False
    show ?thesis
    proof (cases i)
      case 0
      obtain ws n bits where nd: "curr_nd e = Level0 ws n bits" using wf 0 swa_pre_cases_0 unfolding swa_wf_def by metis
      have e: "nextIter_run Dispatch (e # stk) = nextIter_run (LeafLoop (partial_key e) (curr_ix e + 1) (curr_nd e)) stk"
        using pop r 0 by simp
      have rm: "stack_rem i (e # stk) = leaf_rem (partial_key e) ws bits (curr_ix e + 1) @ stack_rem (Suc i) stk"
        using r nd by simp
      note l = leaf_loop [OF wf [unfolded 0] nd, of stk "partial_key e" "curr_ix e + 1"]
      show ?thesis
      proof (cases "leaf_rem (partial_key e) ws bits (curr_ix e + 1) = []")
        case True
        then have "nextIter_run Dispatch (e # stk) = nextIter_run Dispatch stk" using l e len ok 0 by simp
        from delivers_cong [OF this IH] show ?thesis unfolding rm True by simp
      next
        case False
        then show ?thesis using l len ok 0 delivers_cong [OF e] unfolding rm by simp
      qed
    next
      case (Suc j)
      obtain ch n where nd: "curr_nd e = LevelN ch n (int (Suc j))" using wf Suc swa_pre_cases_Suc unfolding swa_wf_def by metis
      have e: "nextIter_run Dispatch (e # stk) = nextIter_run (NonLeafLoop (partial_key e) (curr_ix e + 1) (curr_nd e)) stk"
        using pop r Suc by simp
      have rm: "stack_rem i (e # stk) = nonleaf_rem j (partial_key e) ch (curr_ix e + 1) @ stack_rem (Suc i) stk"
        using r nd Suc by simp
      note l = nonleaf_loop [OF start_new_node wf [unfolded Suc] nd, of stk "partial_key e" "curr_ix e + 1"]
      show ?thesis
      proof (cases "nonleaf_rem j (partial_key e) ch (curr_ix e + 1) = []")
        case True
        then have "nextIter_run Dispatch (e # stk) = nextIter_run Dispatch stk" using l e len ok Suc by simp
        from delivers_cong [OF this IH] show ?thesis unfolding rm True by simp
      next
        case False
        then show ?thesis using l len ok Suc delivers_cong [OF e] unfolding rm by simp
      qed
    qed
  qed
qed

section \<open>The entries are the map\<close>

lemma unat_push:
  assumes "unat (p :: UWord) * 256 + j < 2 ^ 64"
  shows "unat (push_bit 8 p + of_nat j) = unat p * 256 + j"
proof -
  have "push_bit 8 p = p * 256" by (simp add: push_bit_eq_mult)
  then show ?thesis using assms by (simp add: unat_word_ariths unat_of_nat mult.commute)
qed

lemma key_ix_div: "key_ix k i = unat k div 256 ^ i mod 256"
proof -
  have "(0xFF :: UWord) = mask 8" by (simp add: mask_eq_exp_minus_1)
  then have "key_ix k i = unat (take_bit 8 (drop_bit (i * 8) k))" by (simp add: key_ix_def take_bit_eq_mask)
  also have "\<dots> = take_bit 8 (drop_bit (i * 8) (take_bit 64 (unat k)))"
    by (simp add: unsigned_take_bit_eq unsigned_drop_bit_eq)
  also have "take_bit 64 (unat k) = unat k" by (rule take_bit_nat_eq_self) (use unsigned_less [of k] in simp)
  also have "take_bit 8 (drop_bit (i * 8) (unat k)) = unat k div (2 ^ (i * 8)) mod 2 ^ 8" by (simp only: take_bit_eq_mod drop_bit_eq_div)
  also have "(2 :: nat) ^ (i * 8) = 256 ^ i" by (simp add: power_mult mult.commute [of i])
  finally show ?thesis by simp
qed

lemma div_mod_eq_iff: "(\<exists>j < 256. P j \<and> q = p * 256 + j \<and> Q j) \<longleftrightarrow> q div 256 = p \<and> P (q mod 256) \<and> Q (q mod (256 :: nat))"
proof
  assume "q div 256 = p \<and> P (q mod 256) \<and> Q (q mod 256)"
  then show "\<exists>j < 256. P j \<and> q = p * 256 + j \<and> Q j" by (intro exI [of _ "q mod 256"]) auto
qed auto

lemma push_key:
  assumes "(unat p + 1) * 256 ^ Suc i \<le> 2 ^ 64" "j < 256"
  shows "unat (push_bit 8 p + of_nat j :: UWord) = unat p * 256 + j"
    "(unat (push_bit 8 p + of_nat j :: UWord) + 1) * 256 ^ i \<le> 2 ^ 64"
proof -
  have le: "unat p * 256 + j + 1 \<le> (unat p + 1) * 256" using assms(2) by simp
  have "(256 :: nat) \<le> 256 ^ Suc i" by simp
  then have "(unat p + 1) * 256 \<le> (unat p + 1) * 256 ^ Suc i" by (rule mult_le_mono2)
  then have "unat p * 256 + j < 2 ^ 64" using le assms(1) by linarith
  then show e: "unat (push_bit 8 p + of_nat j :: UWord) = unat p * 256 + j" by (rule unat_push)
  have "(unat p * 256 + j + 1) * 256 ^ i \<le> (unat p + 1) * 256 * 256 ^ i" using le by (rule mult_le_mono1)
  also have "\<dots> \<le> 2 ^ 64" using assms(1) by (simp only: power_Suc mult.assoc)
  finally show "(unat (push_bit 8 p + of_nat j :: UWord) + 1) * 256 ^ i \<le> 2 ^ 64" unfolding e .
qed

lemma entries_mem:
  "swa_wf i nd \<Longrightarrow> (unat p + 1) * 256 ^ Suc i \<le> 2 ^ 64 \<Longrightarrow>
     (k, v) \<in> set (entries i p nd) \<longleftrightarrow> unat k div 256 ^ Suc i = unat p \<and> swa_look i nd k = Some v"
proof (induction i arbitrary: p nd)
  case 0
  obtain ws n bits where nd: "nd = Level0 ws n bits" using 0(1) swa_pre_cases_0 unfolding swa_wf_def by metis
  have "(k, v) \<in> set (entries 0 p nd) \<longleftrightarrow> (\<exists>j < 256. swa_bitarray_read bits j \<and> k = push_bit 8 p + of_nat j \<and> v = ws ! j)"
    unfolding nd by (auto simp: leaf_rem_def)
  also have "\<dots> \<longleftrightarrow> (\<exists>j < 256. swa_bitarray_read bits j \<and> unat k = unat p * 256 + j \<and> v = ws ! j)"
    using push_key(1) [OF 0(2)] by (auto simp: word_unat_eq_iff)
  also have "\<dots> \<longleftrightarrow> unat k div 256 = unat p \<and> swa_bitarray_read bits (unat k mod 256) \<and> v = ws ! (unat k mod 256)"
    by (auto intro!: exI [of _ "unat k mod 256"]) (metis div_mult_mod_eq mult.commute)+
  also have "\<dots> \<longleftrightarrow> unat k div 256 ^ Suc 0 = unat p \<and> swa_look 0 nd k = Some v"
    by (auto simp: nd used_bits_nth key_ix_div)
  finally show ?case .
next
  case (Suc i)
  obtain ch n where nd: "nd = LevelN ch n (int (Suc i))" using Suc.prems(1) swa_pre_cases_Suc unfolding swa_wf_def by metis
  have wf: "\<And>j c. j < 256 \<Longrightarrow> ch ! j = Some c \<Longrightarrow> swa_wf i c" using Suc.prems(1) unfolding nd swa_wf_LevelN by blast
  let ?q = "unat k div 256 ^ Suc i"
  have q: "unat k div 256 ^ Suc (Suc i) = ?q div 256" by (simp only: power_Suc2 [of _ "Suc i"] div_mult2_eq)
  have "(k, v) \<in> set (entries (Suc i) p nd) \<longleftrightarrow>
      (\<exists>j < 256. \<exists>c. ch ! j = Some c \<and> (k, v) \<in> set (entries i (push_bit 8 p + of_nat j) c))"
    unfolding nd by (auto split: option.splits) (metis atLeastLessThan_iff bot_nat_0.extremum option.exhaust)+
  also have "\<dots> \<longleftrightarrow> (\<exists>j < 256. \<exists>c. ch ! j = Some c \<and> ?q = unat p * 256 + j \<and> swa_look i c k = Some v)"
    using Suc.IH wf push_key [OF Suc.prems(2)] by metis
  also have "\<dots> \<longleftrightarrow> ?q div 256 = unat p \<and> (\<exists>c. ch ! (?q mod 256) = Some c \<and> swa_look i c k = Some v)"
    using div_mod_eq_iff [of "\<lambda>j. True" ?q "unat p" "\<lambda>j. \<exists>c. ch ! j = Some c \<and> swa_look i c k = Some v"] by auto
  also have "\<dots> \<longleftrightarrow> unat k div 256 ^ Suc (Suc i) = unat p \<and> swa_look (Suc i) nd k = Some v"
    unfolding q nd by (auto simp: key_ix_div split: option.splits)
  finally show ?case .
qed

lemma sorted_wrt_concat_blocks:
  assumes "\<And>j. j < n \<Longrightarrow> sorted_wrt R (f j)" "\<And>a b x y. a < b \<Longrightarrow> b < n \<Longrightarrow> x \<in> set (f a) \<Longrightarrow> y \<in> set (f b) \<Longrightarrow> R x y"
  shows "sorted_wrt R (concat (map f [0..<n]))"
  using assms
proof (induction n)
  case (Suc n)
  have "sorted_wrt R (concat (map f [0..<n]))" using Suc.prems by (intro Suc.IH) auto
  then show ?case using Suc.prems by (auto simp: sorted_wrt_append)
qed simp

lemma entries_sorted:
  "swa_wf i nd \<Longrightarrow> (unat p + 1) * 256 ^ Suc i \<le> 2 ^ 64 \<Longrightarrow> sorted_wrt (\<lambda>x y. fst x < fst y) (entries i p nd)"
proof (induction i arbitrary: p nd)
  case 0
  obtain ws n bits where nd: "nd = Level0 ws n bits" using 0(1) swa_pre_cases_0 unfolding swa_wf_def by metis
  have "sorted_wrt (<) (filter (swa_bitarray_read bits) [0..<256])" by (simp add: sorted_wrt_filter)
  then have "sorted_wrt (\<lambda>a b. push_bit 8 p + of_nat a < (push_bit 8 p + of_nat b :: UWord)) (filter (swa_bitarray_read bits) [0..<256])"
    by (rule sorted_wrt_mono_rel [rotated]) (auto simp: word_less_nat_alt push_key(1) [OF 0(2)])
  then show ?case unfolding nd entries_0 leaf_rem_def by (simp add: sorted_wrt_map)
next
  case (Suc i)
  obtain ch n where nd: "nd = LevelN ch n (int (Suc i))" using Suc.prems(1) swa_pre_cases_Suc unfolding swa_wf_def by metis
  have wf: "\<And>j c. j < 256 \<Longrightarrow> ch ! j = Some c \<Longrightarrow> swa_wf i c" using Suc.prems(1) unfolding nd swa_wf_LevelN by blast
  let ?f = "\<lambda>j. case ch ! j of None \<Rightarrow> [] | Some c \<Rightarrow> entries i (push_bit 8 p + of_nat j) c"
  have mem: "unat k div 256 ^ Suc i = unat p * 256 + j" if "j < 256" "(k, v) \<in> set (?f j)" for j k v
    using that entries_mem [OF wf push_key(2) [OF Suc.prems(2)], of j] push_key(1) [OF Suc.prems(2), of j]
    by (auto split: option.splits)
  show ?case
    unfolding nd entries.simps
  proof (rule sorted_wrt_concat_blocks)
    show "sorted_wrt (\<lambda>x y. fst x < fst y) (?f j)" if "j < 256" for j
      using Suc.IH [OF wf push_key(2) [OF Suc.prems(2)], of j] that by (auto split: option.splits)
    show "fst x < fst y" if ab: "a < b" "b < 256" "x \<in> set (?f a)" "y \<in> set (?f b)" for a b x y
    proof -
      have "unat (fst x) div 256 ^ Suc i < unat (fst y) div 256 ^ Suc i"
        using mem [of a "fst x" "snd x"] mem [of b "fst y" "snd y"] ab by simp
      then have "unat (fst x) < unat (fst y)" by (metis div_le_mono leD le_less_linear)
      then show ?thesis by (simp add: word_less_nat_alt)
    qed
  qed
qed

section \<open>Complete iterations\<close>

fun run_iter :: "nat \<Rightarrow> SparseWA \<Rightarrow> (SparseWA \<times> (UWord \<times> UWord) option list) option" where
  "run_iter 0 swa = Some (swa, [])"
| "run_iter (Suc n) swa = do { (swa, r) \<leftarrow> nextIterSWA swa; (swa, rs) \<leftarrow> run_iter n swa; Some (swa, r # rs) }"

lemma run_iter_ok:
  "stack_ok i (iterStack swa) \<Longrightarrow> stack_rem i (iterStack swa) = xs \<Longrightarrow>
     \<exists>swa'. run_iter n swa = Some (swa', map Some (take n xs) @ replicate (n - length xs) None)"
proof (induction n arbitrary: i swa xs)
  case (Suc n)
  obtain j stk where d: "nextIter_run Dispatch (iterStack swa) = Some (stk, case xs of [] \<Rightarrow> None | x # _ \<Rightarrow> Some x)"
    "stack_ok j stk" "stack_rem j stk = tl xs"
    using dispatch_ok [OF Suc.prems(1)] unfolding Suc.prems(2) delivers_def by blast
  have "\<exists>swa'. run_iter n (swa\<lparr>iterStack := stk\<rparr>) = Some (swa', map Some (take n (tl xs)) @ replicate (n - length (tl xs)) None)"
    using d by (intro Suc.IH) simp_all
  then show ?case using d(1) by (cases xs) (auto simp: nextIterSWA_def)
qed simp

lemma of_nat_sum_list: "of_nat (sum_list ns) = (sum_list (map of_nat ns) :: 'a :: semiring_1)"
  by (induction ns) simp_all

lemma size_entries: "swa_wf i nd \<Longrightarrow> swa_sizeSWA_wrk nd = of_nat (length (entries i p nd))"
proof (induction i arbitrary: p nd)
  case 0
  obtain ws n bits where nd: "nd = Level0 ws n bits" using 0 swa_pre_cases_0 unfolding swa_wf_def by metis
  have "used_bits bits = map (swa_bitarray_read bits) [0..<256]" by (rule nth_equalityI) (simp_all add: used_bits_nth)
  then have "cnt id (used_bits bits) = int (length (filter (swa_bitarray_read bits) [0..<256]))"
    by (simp add: cnt_def filter_map comp_def)
  then show ?case using 0 unfolding nd swa_wf_def by (simp add: leaf_rem_def)
next
  case (Suc i)
  obtain ch n where nd: "nd = LevelN ch n (int (Suc i))" using Suc.prems swa_pre_cases_Suc unfolding swa_wf_def by metis
  have ch: "length ch = 256" "\<And>j c. j < 256 \<Longrightarrow> ch ! j = Some c \<Longrightarrow> swa_wf i c"
    using Suc.prems unfolding nd swa_wf_LevelN by blast+
  let ?sz = "\<lambda>c. case c of None \<Rightarrow> 0 | Some c \<Rightarrow> swa_sizeSWA_wrk c"
  have "map ?sz ch = map (\<lambda>j. ?sz (ch ! j)) [0..<256]" by (rule nth_equalityI) (simp_all add: ch(1))
  also have "\<dots> = map (\<lambda>j. of_nat (length (case ch ! j of None \<Rightarrow> [] | Some c \<Rightarrow> entries i (push_bit 8 p + of_nat j) c))) [0..<256]"
    by (rule map_cong) (auto split: option.splits dest: ch(2) intro: Suc.IH)
  finally show ?case unfolding nd by (simp add: length_concat comp_def of_nat_sum_list)
qed

text \<open>After \<open>initIterSWA\<close>, the calls of \<open>nextIterSWA\<close> return, and deliver every entry of the array
  exactly once by increasing key, as many as \<open>sizeSWA\<close> says (as a word), then nothing more. The iterator's stack of eight elements never
  overflows.\<close>

theorem sparsewa_iteration:
  assumes "swa_ok swa"
  shows "\<exists>xs swa0. initIterSWA swa = Some swa0 \<and> sorted_wrt (<) (map fst xs)
    \<and> (\<forall>k v. (k, v) \<in> set xs \<longleftrightarrow> lookupSWA swa k = Some (Some v)) \<and> sizeSWA swa = of_nat (length xs)
    \<and> (\<forall>n. \<exists>swa'. run_iter n swa0 = Some (swa', map Some (take n xs) @ replicate (n - length xs) None))"
proof (cases "root swa")
  case None
  have "\<exists>swa'. run_iter n (swa\<lparr>iterStack := []\<rparr>) = Some (swa', map Some (take n []) @ replicate (n - length ([] :: (UWord \<times> UWord) list)) None)" for n
    by (rule run_iter_ok [of 0]) simp_all
  moreover have "lookupSWA swa k = Some None" for k using lookupSWA_ok [OF assms] None by (simp add: swa_map_def)
  ultimately show ?thesis using None by (intro exI [of _ "[]"] exI [of _ "swa\<lparr>iterStack := []\<rparr>"]) (simp add: initIterSWA_def sizeSWA_def)
next
  case (Some r)
  let ?e = "\<lparr>partial_key = 0, curr_ix = 0, curr_nd = r, resume_point = 1\<rparr>" and ?xs = "entries 7 0 r"
  let ?s = "swa\<lparr>iterStack := [?e]\<rparr>"
  have wf: "swa_wf 7 r" using assms Some by (simp add: swa_ok_def)
  have b: "(unat (0 :: UWord) + 1) * 256 ^ Suc 7 \<le> 2 ^ 64" by simp
  have "initIterSWA swa = Some ?s" using Some by (simp add: initIterSWA_def swa_PUSH_def)
  moreover have "sorted_wrt (<) (map fst ?xs)" using entries_sorted [OF wf b] by (simp add: sorted_wrt_map)
  moreover have "(k, v) \<in> set ?xs \<longleftrightarrow> lookupSWA swa k = Some (Some v)" for k v
  proof -
    have "unat k < 256 ^ Suc 7" using unsigned_less [of k] by simp
    then have "unat k div 256 ^ Suc 7 = 0" by (rule div_less)
    then show ?thesis using entries_mem [OF wf b, of k v] lookupSWA_ok [OF assms, of k] Some by (simp add: swa_map_def)
  qed
  moreover have "sizeSWA swa = of_nat (length ?xs)" using size_entries [OF wf, of 0] Some by (simp add: sizeSWA_def)
  moreover have "\<exists>swa'. run_iter n ?s = Some (swa', map Some (take n ?xs) @ replicate (n - length ?xs) None)" for n
    by (rule run_iter_ok [of 7]) (use wf in simp_all)
  ultimately show ?thesis by blast
qed

theorem sparsewa_iteration_witness:
  "\<exists>swa swa0 swa'. addToSWA newSWA 5 7 = Some (swa, False) \<and> initIterSWA swa = Some swa0
    \<and> run_iter 2 swa0 = Some (swa', [Some (5, 7), None]) \<and> sizeSWA swa = 1"
proof -
  have new: "swa_ok newSWA" "swa_map newSWA = Map.empty" by (auto simp: swa_ok_def swa_map_def newSWA_def)
  from addToSWA_ok [OF new(1), of 5 7] obtain swa where swa: "addToSWA newSWA 5 7 = Some (swa, False)" "swa_ok swa"
    "swa_map swa = [5 \<mapsto> 7]" unfolding new(2) by auto
  from sparsewa_iteration [OF swa(2)] obtain xs swa0 where xs: "initIterSWA swa = Some swa0" "sorted_wrt (<) (map fst xs)"
    "\<And>k v. (k, v) \<in> set xs \<longleftrightarrow> lookupSWA swa k = Some (Some v)" "sizeSWA swa = of_nat (length xs)"
    "\<And>n. \<exists>swa'. run_iter n swa0 = Some (swa', map Some (take n xs) @ replicate (n - length xs) None)" by blast
  have "set xs = {(5, 7)}" using xs(3) lookupSWA_ok [OF swa(2)] swa(3) by (auto split: if_splits)
  moreover have "distinct xs" using xs(2) by (meson distinct_map strict_sorted_iff)
  ultimately have "xs = [(5, 7)]" by (cases xs; cases "tl xs") auto
  then show ?thesis using swa(1) xs(1,4) xs(5) [of 2] by (auto simp: numeral_2_eq_2)
qed

end
