(* ===== verification/PoolAlloc.thy ===== *)
theory PoolAlloc
  imports XArray_Props
begin

text \<open>
  The pool allocator of \<open>coregrind/m_poolalloc.c\<close>.

  The free elements form a list that is threaded through their first words, so the model has a
  memory of words: \<open>None\<close> is an address that is not allocated, and a read or write there is a failure,
  as is a failing assertion. \<open>alloc_fn\<close> is represented by the address of the block it returns, an
  argument of the operations that may need a new pool; \<open>free_fn\<close> by the list of the addresses it is
  called with, of which those for the array of the pools and for the record itself are left out: both have no
  address in the model. A word is kept per address, and words at overlapping addresses do not interfere; the allocator's own
  reads and writes are all at multiples of eight. The record has the fields of \<open>struct _PoolAlloc\<close> but for the two functions and the cost
  centre.
\<close>

section \<open>Memory\<close>

type_synonym wmem = "Addr \<rightharpoonup> UWord"

definition load_word :: "wmem \<Rightarrow> Addr \<Rightarrow> UWord option" where
  "load_word m a = (if a = 0 then None else m a)"

definition store_word :: "wmem \<Rightarrow> Addr \<Rightarrow> UWord \<Rightarrow> wmem option" where
  "store_word m a v = (if a = 0 \<or> m a = None then None else Some (m(a \<mapsto> v)))"

text \<open>The bytes of a block, and the memory after it was allocated; what it holds is not known.\<close>

definition in_block :: "Addr \<Rightarrow> UWord \<Rightarrow> Addr \<Rightarrow> bool" where
  "in_block p sz a = (unat p \<le> unat a \<and> unat a < unat p + unat sz)"

definition alloc_block :: "wmem \<Rightarrow> Addr \<Rightarrow> UWord \<Rightarrow> wmem" where
  "alloc_block m p sz = (\<lambda>a. if in_block p sz a then Some 0xDEAD else m a)"

section \<open>The allocator\<close>

record PoolAlloc =
  nrRef :: UWord
  pa_elemSzB :: UWord
  nPerPool :: UWord
  pools :: "Addr XArray"
  nextFree :: Addr

definition newPA :: "UWord \<Rightarrow> UWord \<Rightarrow> PoolAlloc option" where
  "newPA sz n =
     do { vg_assert (sz mod 8 = 0);
          vg_assert (sz \<ge> 8);
          vg_assert (n \<ge> 100);
          xa \<leftarrow> newXA 8;
          Some \<lparr>nrRef = 0, pa_elemSzB = sz, nPerPool = n, pools = xa, nextFree = 0\<rparr> }"

text \<open>The loop over the pools, from index \<open>i\<close> on: what is freed, in order.\<close>

function delete_pools :: "Addr XArray \<Rightarrow> nat \<Rightarrow> Addr list option" where
  "delete_pools xa i =
     (if i < sizeXA xa then
        do { p \<leftarrow> indexXA xa (int i); ps \<leftarrow> delete_pools xa (i + 1); Some (p # ps) }
      else Some [])"
  by pat_completeness auto
termination
  by (relation "measure (\<lambda>(xa, i). sizeXA xa - i)") auto

declare delete_pools.simps [simp del]

text \<open>The array and the record are freed after the pools; the pools are what is returned.\<close>

definition deletePA :: "PoolAlloc \<Rightarrow> Addr list option" where
  "deletePA pa = do { vg_assert (nrRef pa = 0); delete_pools (pools pa) 0 }"

text \<open>The loop that threads the free list through a new pool, from the last element to the first.\<close>

fun pal_thread :: "Addr \<Rightarrow> UWord \<Rightarrow> nat \<Rightarrow> wmem \<Rightarrow> Addr \<Rightarrow> (wmem \<times> Addr) option" where
  "pal_thread pool sz 0 m nf = Some (m, nf)"
| "pal_thread pool sz (Suc i) m nf =
     (let elem = pool + of_nat i * sz in
      do { vg_assert (elem mod 8 = 0);
           m \<leftarrow> store_word m elem nf;
           pal_thread pool sz i m elem })"

definition pal_add_new_pool :: "Addr \<Rightarrow> wmem \<Rightarrow> PoolAlloc \<Rightarrow> (wmem \<times> PoolAlloc) option" where
  "pal_add_new_pool pool m pa =
     do { vg_assert (nextFree pa = 0);
          let m = alloc_block m pool (pa_elemSzB pa * nPerPool pa);
          (m, nf) \<leftarrow> pal_thread pool (pa_elemSzB pa) (unat (nPerPool pa)) m (nextFree pa);
          (xa, _) \<leftarrow> addToXA (pools pa) pool;
          Some (m, pa\<lparr>pools := xa, nextFree := nf\<rparr>) }"

definition sizePA :: "PoolAlloc \<Rightarrow> UWord" where
  "sizePA pa = nPerPool pa * of_nat (sizeXA (pools pa))"

definition allocEltPA :: "Addr \<Rightarrow> wmem \<Rightarrow> PoolAlloc \<Rightarrow> (wmem \<times> PoolAlloc \<times> Addr) option" where
  "allocEltPA pool m pa =
     do { (m, pa) \<leftarrow> (if nextFree pa = 0 then pal_add_new_pool pool m pa else Some (m, pa));
          let elem = nextFree pa;
          nxt \<leftarrow> load_word m elem;
          m \<leftarrow> store_word m elem 0;
          Some (m, pa\<lparr>nextFree := nxt\<rparr>, elem) }"

definition freeEltPA :: "wmem \<Rightarrow> PoolAlloc \<Rightarrow> Addr \<Rightarrow> (wmem \<times> PoolAlloc) option" where
  "freeEltPA m pa p =
     do { m \<leftarrow> store_word m p (nextFree pa);
          Some (m, pa\<lparr>nextFree := p\<rparr>) }"

definition addRefPA :: "PoolAlloc \<Rightarrow> PoolAlloc" where
  "addRefPA pa = pa\<lparr>nrRef := nrRef pa + 1\<rparr>"

text \<open>The result is the new count and, when that is zero, what was freed.\<close>

definition releasePA :: "PoolAlloc \<Rightarrow> (PoolAlloc \<times> UWord \<times> Addr list) option" where
  "releasePA pa =
     do { vg_assert (nrRef pa > 0);
          let pa = pa\<lparr>nrRef := nrRef pa - 1\<rparr>;
          freed \<leftarrow> (if nrRef pa = 0 then deletePA pa else Some []);
          Some (pa, nrRef pa, freed) }"


section \<open>Elements\<close>

text \<open>A block that can hold the elements of a pool, and the elements in it.\<close>

definition pool_fits :: "UWord \<Rightarrow> nat \<Rightarrow> Addr \<Rightarrow> bool" where
  "pool_fits sz n pool = (pool \<noteq> 0 \<and> 8 dvd unat pool \<and> unat pool + n * unat sz < 2 ^ 64)"

definition pool_elems :: "UWord \<Rightarrow> nat \<Rightarrow> Addr \<Rightarrow> Addr list" where
  "pool_elems sz n pool = map (\<lambda>i. pool + of_nat i * sz) [0..<n]"

definition blocks_apart :: "nat \<Rightarrow> Addr \<Rightarrow> Addr \<Rightarrow> bool" where
  "blocks_apart len p q = (unat p + len \<le> unat q \<or> unat q + len \<le> unat p)"

lemma unat_offset:
  assumes "pool_fits sz n pool" "i \<le> n"
  shows "unat (of_nat i * sz) = i * unat sz" "unat pool + i * unat sz < 2 ^ 64"
proof -
  have le: "i * unat sz \<le> n * unat sz" using assms(2) by simp
  show lt: "unat pool + i * unat sz < 2 ^ 64" using le assms(1) unfolding pool_fits_def by linarith
  have "of_nat i * sz = of_nat (i * unat sz)" by simp
  then show "unat (of_nat i * sz) = i * unat sz"
    using lt by (simp only: unat_of_nat) (simp add: take_bit_nat_eq_self)
qed

lemma elem_unat: "pool_fits sz n pool \<Longrightarrow> i \<le> n \<Longrightarrow> unat (pool + of_nat i * sz) = unat pool + i * unat sz"
  using unat_offset [of sz n pool i] by (simp add: unat_word_ariths)

lemma pool_elemsE:
  assumes "pool_fits sz n pool" "a \<in> set (pool_elems sz n pool)"
  obtains i where "i < n" "a = pool + of_nat i * sz" "unat a = unat pool + i * unat sz"
proof -
  from assms(2) obtain i where i: "i < n" "a = pool + of_nat i * sz" by (auto simp: pool_elems_def)
  with elem_unat [OF assms(1), of i] show ?thesis by (intro that [of i]) auto
qed

lemma pool_elems_nonzero:
  assumes "pool_fits sz n pool" "a \<in> set (pool_elems sz n pool)"
  shows "a \<noteq> 0"
proof
  assume "a = 0"
  with pool_elemsE [OF assms] have "unat pool = 0" by (metis add_is_0 unsigned_0)
  then show False using assms(1) by (simp add: pool_fits_def unat_eq_0)
qed

lemma elem_inj:
  assumes "pool_fits sz n pool" "0 < unat sz" "i < n" "j < n"
  shows "pool + of_nat i * sz = pool + of_nat j * sz \<longleftrightarrow> i = j"
proof
  assume "pool + of_nat i * sz = pool + of_nat j * sz"
  then have "unat pool + i * unat sz = unat pool + j * unat sz"
    using elem_unat [OF assms(1), of i] elem_unat [OF assms(1), of j] assms(3,4) by (metis less_imp_le)
  then have "i * unat sz = j * unat sz" by (simp only: add_left_cancel)
  then show "i = j" using assms(2) by (metis less_irrefl mult_right_cancel)
qed simp

lemma distinct_pool_elems:
  assumes "pool_fits sz n pool" "0 < unat sz"
  shows "distinct (pool_elems sz n pool)"
  using elem_inj [OF assms] by (auto simp only: pool_elems_def distinct_map set_upt distinct_upt atLeastLessThan_iff intro!: inj_onI)

lemma steps_apart: "i \<noteq> j \<Longrightarrow> i * s + s \<le> j * s \<or> j * s + s \<le> i * (s :: nat)"
  by (metis add.commute linorder_neqE_nat mult_Suc mult_le_mono1 Suc_leI)

text \<open>Two different elements do not overlap, in one pool or in two.\<close>

lemma elems_apart:
  assumes "pool_fits sz n p" "a \<in> set (pool_elems sz n p)" "pool_fits sz n q" "b \<in> set (pool_elems sz n q)"
    and "p = q \<or> blocks_apart (n * unat sz) p q" "a \<noteq> b"
  shows "blocks_apart (unat sz) a b"
proof -
  obtain i j where i: "i < n" "a = p + of_nat i * sz" "unat a = unat p + i * unat sz"
    and j: "j < n" "b = q + of_nat j * sz" "unat b = unat q + j * unat sz"
    using pool_elemsE [OF assms(1,2)] pool_elemsE [OF assms(3,4)] by metis
  have le: "i * unat sz + unat sz \<le> n * unat sz" "j * unat sz + unat sz \<le> n * unat sz"
    using i(1) j(1) by (metis add.commute mult_Suc mult_le_mono1 Suc_leI)+
  show ?thesis
  proof (cases "p = q")
    case True
    with i j assms(6) have "i \<noteq> j" by auto
    from steps_apart [OF this, of "unat sz"] show ?thesis using i j True by (auto simp: blocks_apart_def)
  next
    case False
    with assms(5) le show ?thesis unfolding blocks_apart_def i(3) j(3) by linarith
  qed
qed

section \<open>The free list\<close>

fun flist :: "wmem \<Rightarrow> Addr \<Rightarrow> Addr list \<Rightarrow> bool" where
  "flist m p [] = (p = 0)"
| "flist m p (a # as) = (p = a \<and> a \<noteq> 0 \<and> (\<exists>q. m a = Some q \<and> flist m q as))"

lemma flist_cong: "\<forall>a \<in> set as. m' a = m a \<Longrightarrow> flist m' p as = flist m p as"
  by (induction as arbitrary: p) auto

lemma flist_upd [simp]: "a \<notin> set as \<Longrightarrow> flist (m(a \<mapsto> v)) p as = flist m p as"
  by (rule flist_cong) auto

lemma flist_0: "flist m 0 as \<longleftrightarrow> as = []"
  by (cases as) auto

lemma pal_thread_ok:
  assumes "pool_fits sz n pool" "8 dvd unat sz" "0 < unat sz"
  shows "k \<le> n \<Longrightarrow> \<forall>i < n. m (pool + of_nat i * sz) \<noteq> None \<Longrightarrow> flist m nf fl
    \<Longrightarrow> set (pool_elems sz n pool) \<inter> set fl \<subseteq> (\<lambda>i. pool + of_nat i * sz) ` {k..<n} \<Longrightarrow>
    \<exists>m' nf'. pal_thread pool sz k m nf = Some (m', nf') \<and> flist m' nf' (map (\<lambda>i. pool + of_nat i * sz) [0..<k] @ fl)
      \<and> (\<forall>a. a \<notin> set (pool_elems sz k pool) \<longrightarrow> m' a = m a) \<and> dom m' = dom m"
proof (induction k arbitrary: m nf fl)
  case 0
  then show ?case by simp
next
  case (Suc k)
  let ?e = "pool + of_nat k * sz"
  have k: "k < n" using Suc.prems(1) by simp
  have u: "unat ?e = unat pool + k * unat sz" using elem_unat [OF assms(1), of k] k by simp
  have "8 dvd unat ?e" using assms(1,2) by (simp add: u pool_fits_def)
  then have al: "?e mod 8 = 0" by (simp add: word_arith_nat_mod dvd_eq_mod_eq_0)
  have e: "?e \<in> set (pool_elems sz n pool)" using k by (auto simp: pool_elems_def)
  have nz: "?e \<noteq> 0" by (rule pool_elems_nonzero [OF assms(1) e])
  have inj: "pool + of_nat i * sz = ?e \<longleftrightarrow> i = k" if "i < n" for i
    by (rule elem_inj [OF assms(1,3) that k])
  have ne: "?e \<notin> set fl"
  proof
    assume "?e \<in> set fl"
    with e Suc.prems(4) have "?e \<in> (\<lambda>i. pool + of_nat i * sz) ` {Suc k..<n}" by blast
    then obtain i where "Suc k \<le> i" "i < n" "?e = pool + of_nat i * sz" by (auto simp del: add_left_cancel)
    with inj [of i] show False by simp
  qed
  have st: "store_word m ?e nf = Some (m(?e \<mapsto> nf))" using nz Suc.prems(2) k by (auto simp: store_word_def)
  have fl: "flist (m(?e \<mapsto> nf)) ?e (?e # fl)" using nz ne Suc.prems(3) by simp
  have "set (pool_elems sz n pool) \<inter> set (?e # fl) \<subseteq> (\<lambda>i. pool + of_nat i * sz) ` {k..<n}"
    using Suc.prems(4) k by fastforce
  moreover have "\<forall>i < n. (m(?e \<mapsto> nf)) (pool + of_nat i * sz) \<noteq> None" using Suc.prems(2) by simp
  moreover have "k \<le> n" using k by simp
  ultimately obtain m' nf' where r:
    "pal_thread pool sz k (m(?e \<mapsto> nf)) ?e = Some (m', nf')"
    "flist m' nf' (map (\<lambda>i. pool + of_nat i * sz) [0..<k] @ ?e # fl)"
    "\<forall>a. a \<notin> set (pool_elems sz k pool) \<longrightarrow> m' a = (m(?e \<mapsto> nf)) a" "dom m' = dom (m(?e \<mapsto> nf))"
    using Suc.IH [OF _ _ fl] by blast
  have "dom (m(?e \<mapsto> nf)) = dom m" using Suc.prems(2) k by auto
  moreover have "m' a = m a" if "a \<notin> set (pool_elems sz (Suc k) pool)" for a
    using r(3) that by (auto simp: pool_elems_def)
  ultimately show ?case using r(1,2,4) al st by auto
qed


section \<open>Invariant\<close>

text \<open>The addresses of all elements; \<open>live\<close> are those handed out and not given back.\<close>

definition all_elems :: "PoolAlloc \<Rightarrow> Addr set" where
  "all_elems pa = (\<Union>p \<in> set (contents (pools pa)). set (pool_elems (pa_elemSzB pa) (unat (nPerPool pa)) p))"

definition pool_size :: "PoolAlloc \<Rightarrow> nat" where
  "pool_size pa = unat (nPerPool pa) * unat (pa_elemSzB pa)"

text \<open>What \<open>alloc_fn\<close> promises of the block it returns: it fits, and it is apart from the blocks it returned before.\<close>

definition new_pool_ok :: "PoolAlloc \<Rightarrow> Addr \<Rightarrow> bool" where
  "new_pool_ok pa pool = (pool_fits (pa_elemSzB pa) (unat (nPerPool pa)) pool
     \<and> (\<forall>p \<in> set (contents (pools pa)). blocks_apart (pool_size pa) p pool))"

definition pools_ok :: "PoolAlloc \<Rightarrow> bool" where
  "pools_ok pa = (xa_ok (pools pa) \<and> 8 dvd unat (pa_elemSzB pa) \<and> 0 < unat (pa_elemSzB pa)
     \<and> (\<forall>p \<in> set (contents (pools pa)). pool_fits (pa_elemSzB pa) (unat (nPerPool pa)) p)
     \<and> sorted_wrt (blocks_apart (pool_size pa)) (contents (pools pa)))"

definition pa_inv :: "wmem \<Rightarrow> PoolAlloc \<Rightarrow> Addr set \<Rightarrow> bool" where
  "pa_inv m pa live = (pools_ok pa \<and> 0 < unat (nPerPool pa) \<and> all_elems pa \<subseteq> dom m
     \<and> (\<exists>fl. flist m (nextFree pa) fl \<and> distinct fl \<and> set fl \<inter> live = {} \<and> set fl \<union> live = all_elems pa))"

lemma blocks_apart_sym: "blocks_apart n p q = blocks_apart n q p"
  by (auto simp: blocks_apart_def)

lemma pools_apart:
  assumes "sorted_wrt (blocks_apart n) ps" "p \<in> set ps" "q \<in> set ps"
  shows "p = q \<or> blocks_apart n p q"
  using assms by (induction ps) (auto simp: blocks_apart_sym)

lemma pa_inv_apart:
  assumes "pools_ok pa" "a \<in> all_elems pa" "b \<in> all_elems pa" "a \<noteq> b"
  shows "blocks_apart (unat (pa_elemSzB pa)) a b"
proof -
  from assms(2,3) obtain p q where p: "p \<in> set (contents (pools pa))" "a \<in> set (pool_elems (pa_elemSzB pa) (unat (nPerPool pa)) p)"
    and q: "q \<in> set (contents (pools pa))" "b \<in> set (pool_elems (pa_elemSzB pa) (unat (nPerPool pa)) q)"
    by (auto simp: all_elems_def)
  have "p = q \<or> blocks_apart (unat (nPerPool pa) * unat (pa_elemSzB pa)) p q"
    by (rule pools_apart [OF _ p(1) q(1)]) (use assms(1) in \<open>simp add: pools_ok_def pool_size_def\<close>)
  moreover have "\<forall>p \<in> set (contents (pools pa)). pool_fits (pa_elemSzB pa) (unat (nPerPool pa)) p"
    using assms(1) by (simp add: pools_ok_def)
  ultimately show ?thesis using elems_apart [OF _ p(2) _ q(2) _ assms(4)] p(1) q(1) by blast
qed

lemma all_elems_nonzero: "pools_ok pa \<Longrightarrow> a \<in> all_elems pa \<Longrightarrow> a \<noteq> 0"
  using pool_elems_nonzero by (fastforce simp: all_elems_def pools_ok_def)

lemma all_elems_aligned:
  assumes "pools_ok pa" "a \<in> all_elems pa"
  shows "8 dvd unat a"
proof -
  from assms obtain p where p: "pool_fits (pa_elemSzB pa) (unat (nPerPool pa)) p" "a \<in> set (pool_elems (pa_elemSzB pa) (unat (nPerPool pa)) p)"
    by (auto simp: all_elems_def pools_ok_def)
  have "8 dvd unat p" "8 dvd unat (pa_elemSzB pa)" using p(1) assms(1) by (simp_all add: pool_fits_def pools_ok_def)
  then show ?thesis using pool_elemsE [OF p] by (metis dvd_add dvd_mult)
qed

lemma in_block_pool:
  assumes "pool_fits sz n pool" "0 < unat sz" "a \<in> set (pool_elems sz n pool)"
  shows "in_block pool (sz * of_nat n) a"
proof -
  obtain i where i: "i < n" "unat a = unat pool + i * unat sz" by (rule pool_elemsE [OF assms(1,3)])
  have "i * unat sz < n * unat sz" using i(1) assms(2) by simp
  moreover have "unat (sz * of_nat n) = n * unat sz"
    using unat_offset(1) [OF assms(1), of n] by (simp add: mult.commute)
  ultimately show ?thesis using i(2) by (simp add: in_block_def)
qed


text \<open>The bytes of an element lie in the block of its pool.\<close>

lemma in_block_elem:
  assumes "pool_fits sz n pool" "e \<in> set (pool_elems sz n pool)" "in_block e sz a"
  shows "unat pool \<le> unat a \<and> unat a < unat pool + n * unat sz"
proof -
  obtain i where i: "i < n" "unat e = unat pool + i * unat sz" by (rule pool_elemsE [OF assms(1,2)])
  have "Suc i * unat sz \<le> n * unat sz" using i(1) by (intro mult_le_mono1) simp
  then show ?thesis using assms(3) i(2) by (simp add: in_block_def)
qed

lemma new_pool_apart:
  assumes "pools_ok pa" "new_pool_ok pa pool" "e \<in> all_elems pa" "in_block e (pa_elemSzB pa) a"
  shows "\<not> in_block pool (pa_elemSzB pa * nPerPool pa) a"
proof -
  obtain p where p: "p \<in> set (contents (pools pa))" "e \<in> set (pool_elems (pa_elemSzB pa) (unat (nPerPool pa)) p)"
    using assms(3) by (auto simp: all_elems_def)
  have f: "pool_fits (pa_elemSzB pa) (unat (nPerPool pa)) p" using assms(1) p(1) by (simp add: pools_ok_def)
  have g: "pool_fits (pa_elemSzB pa) (unat (nPerPool pa)) pool" using assms(2) by (simp add: new_pool_ok_def)
  have ap: "blocks_apart (pool_size pa) p pool" using assms(2) p(1) by (simp add: new_pool_ok_def)
  have "unat (pa_elemSzB pa * nPerPool pa) = pool_size pa"
    using unat_offset(1) [OF g, of "unat (nPerPool pa)"] by (simp add: pool_size_def mult.commute)
  with in_block_elem [OF f p(2) assms(4)] ap show ?thesis by (auto simp: in_block_def blocks_apart_def pool_size_def)
qed

lemma in_block_self: "0 < unat sz \<Longrightarrow> in_block e sz e"
  by (simp add: in_block_def)

lemma add_new_pool_ok:
  assumes inv: "pa_inv m pa live" and nf: "nextFree pa = 0" and new: "new_pool_ok pa pool"
  shows "\<exists>m' pa'. pal_add_new_pool pool m pa = Some (m', pa') \<and> pa_inv m' pa' live \<and> nextFree pa' \<noteq> 0
    \<and> pa_elemSzB pa' = pa_elemSzB pa \<and> nPerPool pa' = nPerPool pa \<and> contents (pools pa') = contents (pools pa) @ [pool]
    \<and> (\<forall>e \<in> live. \<forall>a. in_block e (pa_elemSzB pa) a \<longrightarrow> m' a = m a)"
proof -
  let ?sz = "pa_elemSzB pa" and ?n = "unat (nPerPool pa)"
  let ?m = "alloc_block m pool (?sz * nPerPool pa)"
  have ok: "pools_ok pa" "0 < ?n" "all_elems pa \<subseteq> dom m" "live = all_elems pa" using inv nf by (auto simp: pa_inv_def flist_0)
  have sz: "8 dvd unat ?sz" "0 < unat ?sz" "xa_ok (pools pa)" using ok(1) by (auto simp: pools_ok_def)
  have fit: "pool_fits ?sz ?n pool" using new by (simp add: new_pool_ok_def)
  have blk: "in_block pool (?sz * nPerPool pa) a" if "a \<in> set (pool_elems ?sz ?n pool)" for a
    using in_block_pool [OF fit sz(2) that] by simp
  have al: "\<forall>i < ?n. ?m (pool + of_nat i * ?sz) \<noteq> None" using blk by (auto simp: alloc_block_def pool_elems_def)
  from pal_thread_ok [OF fit sz(1,2) order_refl al, of 0 "[]"] obtain m' nf' where t:
    "pal_thread pool ?sz ?n ?m 0 = Some (m', nf')" "flist m' nf' (pool_elems ?sz ?n pool)"
    "\<forall>a. a \<notin> set (pool_elems ?sz ?n pool) \<longrightarrow> m' a = ?m a" "dom m' = dom ?m"
    by (auto simp: pool_elems_def)
  from addToXA_ok [OF sz(3), of pool] obtain xa i where x: "addToXA (pools pa) pool = Some (xa, i)" "xa_ok xa"
    "contents xa = contents (pools pa) @ [pool]" by auto
  let ?pa = "pa\<lparr>pools := xa, nextFree := nf'\<rparr>"
  have r: "pal_add_new_pool pool m pa = Some (m', ?pa)" by (simp add: pal_add_new_pool_def nf t(1) x(1))
  have all: "all_elems ?pa = all_elems pa \<union> set (pool_elems ?sz ?n pool)" by (auto simp: all_elems_def x(3))
  have "set (pool_elems ?sz ?n pool) \<inter> live = {}"
    using new_pool_apart [OF ok(1) new] blk in_block_self [OF sz(2)] ok(4) by blast
  moreover have "pools_ok ?pa" using ok(1) new x by (simp add: pools_ok_def pool_size_def new_pool_ok_def sorted_wrt_append)
  moreover have "all_elems ?pa \<subseteq> dom m'" using ok(3) blk unfolding t(4) all by (auto simp: alloc_block_def)
  ultimately have "pa_inv m' ?pa live"
    unfolding pa_inv_def using t(2) ok(2,4) distinct_pool_elems [OF fit sz(2)]
    by (intro conjI exI [of _ "pool_elems ?sz ?n pool"]) (auto simp: all)
  moreover have "nf' \<noteq> 0" using t(2) ok(2) by (auto simp: flist_0 pool_elems_def)
  moreover have "m' a = m a" if "e \<in> live" "in_block e ?sz a" for e a
  proof -
    have "\<not> in_block pool (?sz * nPerPool pa) a" using new_pool_apart [OF ok(1) new] that ok(4) by blast
    moreover from this have "a \<notin> set (pool_elems ?sz ?n pool)" using blk by blast
    ultimately show ?thesis using t(3) by (simp add: alloc_block_def)
  qed
  ultimately show ?thesis using r x(3) by auto
qed


lemma blocks_apart_notin: "blocks_apart (unat sz) e f \<Longrightarrow> in_block f sz a \<Longrightarrow> \<not> in_block e sz a"
  by (auto simp: blocks_apart_def in_block_def)

lemma allocEltPA_ok:
  assumes inv: "pa_inv m pa live" and new: "nextFree pa = 0 \<longrightarrow> new_pool_ok pa pool"
  shows "\<exists>m' pa' e. allocEltPA pool m pa = Some (m', pa', e) \<and> pa_inv m' pa' (insert e live) \<and> e \<notin> live
    \<and> pa_elemSzB pa' = pa_elemSzB pa \<and> (\<forall>f \<in> live. \<forall>a. in_block f (pa_elemSzB pa) a \<longrightarrow> m' a = m a)"
proof -
  obtain m1 pa1 where 1: "(if nextFree pa = 0 then pal_add_new_pool pool m pa else Some (m, pa)) = Some (m1, pa1)"
    "pa_inv m1 pa1 live" "nextFree pa1 \<noteq> 0" "pa_elemSzB pa1 = pa_elemSzB pa"
    "\<forall>f \<in> live. \<forall>a. in_block f (pa_elemSzB pa) a \<longrightarrow> m1 a = m a"
  proof (cases "nextFree pa = 0")
    case True
    from new True have "new_pool_ok pa pool" by simp
    from add_new_pool_ok [OF inv True this] True that show thesis by auto
  next
    case False
    with inv that show thesis by auto
  qed
  from 1(2) obtain fl where fl: "flist m1 (nextFree pa1) fl" "distinct fl" "set fl \<inter> live = {}" "set fl \<union> live = all_elems pa1"
    and ok: "pools_ok pa1" "0 < unat (nPerPool pa1)" "all_elems pa1 \<subseteq> dom m1" by (auto simp: pa_inv_def)
  then obtain e fl' where e: "fl = e # fl'" using 1(3) by (cases fl) auto
  with fl(1) obtain q where q: "nextFree pa1 = e" "e \<noteq> 0" "m1 e = Some q" "flist m1 q fl'" by auto
  let ?m = "m1(e \<mapsto> 0)" and ?pa = "pa1\<lparr>nextFree := q\<rparr>"
  have all: "all_elems ?pa = all_elems pa1" by (simp add: all_elems_def)
  have "allocEltPA pool m pa = Some (?m, ?pa, e)"
    by (simp add: allocEltPA_def 1(1) q load_word_def store_word_def)
  moreover have "pa_inv ?m ?pa (insert e live)"
    unfolding pa_inv_def all using ok q fl(2-4) e by (auto simp: pools_ok_def pool_size_def intro!: exI [of _ fl'])
  moreover have "?m a = m a" if f: "f \<in> live" "in_block f (pa_elemSzB pa) a" for f a
  proof -
    have "f \<in> all_elems pa1" "e \<in> all_elems pa1" "f \<noteq> e" using f(1) fl(3,4) e by auto
    then have "\<not> in_block e (pa_elemSzB pa1) a"
      using pa_inv_apart [OF ok(1)] blocks_apart_notin f(2) 1(4) by metis
    then have "a \<noteq> e" using in_block_self ok(1) by (auto simp: pools_ok_def)
    then show ?thesis using 1(5) f by simp
  qed
  ultimately show ?thesis using fl(3) e 1(4) by auto
qed

lemma freeEltPA_ok:
  assumes inv: "pa_inv m pa live" and e: "e \<in> live"
  shows "\<exists>m' pa'. freeEltPA m pa e = Some (m', pa') \<and> pa_inv m' pa' (live - {e}) \<and> pa_elemSzB pa' = pa_elemSzB pa
    \<and> (\<forall>a. a \<noteq> e \<longrightarrow> m' a = m a)"
proof -
  from inv obtain fl where fl: "flist m (nextFree pa) fl" "distinct fl" "set fl \<inter> live = {}" "set fl \<union> live = all_elems pa"
    and ok: "pools_ok pa" "0 < unat (nPerPool pa)" "all_elems pa \<subseteq> dom m" by (auto simp: pa_inv_def)
  let ?m = "m(e \<mapsto> nextFree pa)" and ?pa = "pa\<lparr>nextFree := e\<rparr>"
  have m: "e \<noteq> 0" "m e \<noteq> None" using e fl(4) ok(1,3) all_elems_nonzero by blast+
  have all: "all_elems ?pa = all_elems pa" by (simp add: all_elems_def)
  have ne: "e \<notin> set fl" using e fl(3) by blast
  have "freeEltPA m pa e = Some (?m, ?pa)" using m by (simp add: freeEltPA_def store_word_def)
  moreover have "pa_inv ?m ?pa (live - {e})"
    unfolding pa_inv_def all using ok m e fl ne by (auto simp: pools_ok_def pool_size_def intro!: exI [of _ "e # fl"])
  ultimately show ?thesis by auto
qed

lemma write_live_ok:
  assumes inv: "pa_inv m pa live" and e: "e \<in> live" "in_block e (pa_elemSzB pa) a" "m a \<noteq> None"
  shows "pa_inv (m(a \<mapsto> v)) pa live"
proof -
  from inv obtain fl where fl: "flist m (nextFree pa) fl" "distinct fl" "set fl \<inter> live = {}" "set fl \<union> live = all_elems pa"
    and ok: "pools_ok pa" "0 < unat (nPerPool pa)" "all_elems pa \<subseteq> dom m" by (auto simp: pa_inv_def)
  have "a \<notin> set fl"
  proof
    assume a: "a \<in> set fl"
    then have "blocks_apart (unat (pa_elemSzB pa)) a e" using pa_inv_apart [OF ok(1)] e(1) fl(3,4) by blast
    then have "\<not> in_block a (pa_elemSzB pa) a" using blocks_apart_notin e(2) by blast
    then show False using in_block_self ok(1) by (simp add: pools_ok_def)
  qed
  then show ?thesis unfolding pa_inv_def using fl ok by (intro conjI exI [of _ fl]) auto
qed


section \<open>Clients\<close>

text \<open>What a client does: it takes elements, gives them back, and writes into those it has. The state
  has the elements the client holds and, as a ghost, what it has written; the address of a write is
  in an element it holds.\<close>

datatype pa_op = PA_alloc Addr | PA_free Addr | PA_write Addr UWord

record pa_client =
  cl_mem :: wmem
  cl_pa :: PoolAlloc
  cl_live :: "Addr set"
  cl_written :: "Addr \<rightharpoonup> UWord"

definition forget :: "UWord \<Rightarrow> Addr \<Rightarrow> (Addr \<rightharpoonup> UWord) \<Rightarrow> (Addr \<rightharpoonup> UWord)" where
  "forget sz e w = (\<lambda>a. if in_block e sz a then None else w a)"

fun pa_step :: "pa_op \<Rightarrow> pa_client \<Rightarrow> pa_client option" where
  "pa_step (PA_alloc pool) c =
     do { (m, pa, e) \<leftarrow> allocEltPA pool (cl_mem c) (cl_pa c);
          Some \<lparr>cl_mem = m, cl_pa = pa, cl_live = insert e (cl_live c), cl_written = cl_written c\<rparr> }"
| "pa_step (PA_free e) c =
     do { (m, pa) \<leftarrow> freeEltPA (cl_mem c) (cl_pa c) e;
          Some \<lparr>cl_mem = m, cl_pa = pa, cl_live = cl_live c - {e}, cl_written = forget (pa_elemSzB pa) e (cl_written c)\<rparr> }"
| "pa_step (PA_write a v) c =
     do { m \<leftarrow> store_word (cl_mem c) a v;
          Some (c\<lparr>cl_mem := m, cl_written := (cl_written c)(a \<mapsto> v)\<rparr>) }"

fun pa_legal :: "pa_op \<Rightarrow> pa_client \<Rightarrow> bool" where
  "pa_legal (PA_alloc pool) c = (nextFree (cl_pa c) = 0 \<longrightarrow> new_pool_ok (cl_pa c) pool)"
| "pa_legal (PA_free e) c = (e \<in> cl_live c)"
| "pa_legal (PA_write a v) c = (a \<noteq> 0 \<and> cl_mem c a \<noteq> None \<and> (\<exists>e \<in> cl_live c. in_block e (pa_elemSzB (cl_pa c)) a))"

fun pa_run :: "pa_op list \<Rightarrow> pa_client \<Rightarrow> pa_client option" where
  "pa_run [] c = Some c"
| "pa_run (x # xs) c = do { c \<leftarrow> pa_step x c; pa_run xs c }"

fun all_legal :: "pa_op list \<Rightarrow> pa_client \<Rightarrow> bool" where
  "all_legal [] c = True"
| "all_legal (x # xs) c = (pa_legal x c \<and> (case pa_step x c of None \<Rightarrow> True | Some c' \<Rightarrow> all_legal xs c'))"

definition client_inv :: "pa_client \<Rightarrow> bool" where
  "client_inv c = (pa_inv (cl_mem c) (cl_pa c) (cl_live c)
     \<and> (\<forall>a v. cl_written c a = Some v \<longrightarrow> cl_mem c a = Some v \<and> (\<exists>e \<in> cl_live c. in_block e (pa_elemSzB (cl_pa c)) a)))"

lemma pa_step_ok:
  assumes "client_inv c" "pa_legal x c"
  shows "\<exists>c'. pa_step x c = Some c' \<and> client_inv c' \<and> pa_elemSzB (cl_pa c') = pa_elemSzB (cl_pa c)"
proof (cases x)
  case (PA_alloc pool)
  have inv: "pa_inv (cl_mem c) (cl_pa c) (cl_live c)" using assms(1) by (simp add: client_inv_def)
  have "nextFree (cl_pa c) = 0 \<longrightarrow> new_pool_ok (cl_pa c) pool" using assms(2) PA_alloc by simp
  from allocEltPA_ok [OF inv this] obtain m' pa' e where a: "allocEltPA pool (cl_mem c) (cl_pa c) = Some (m', pa', e)"
    "pa_inv m' pa' (insert e (cl_live c))" "pa_elemSzB pa' = pa_elemSzB (cl_pa c)"
    "\<forall>f \<in> cl_live c. \<forall>a. in_block f (pa_elemSzB (cl_pa c)) a \<longrightarrow> m' a = cl_mem c a" by blast
  then show ?thesis using assms(1) PA_alloc by (force simp: client_inv_def)
next
  case (PA_free e)
  have inv: "pa_inv (cl_mem c) (cl_pa c) (cl_live c)" using assms(1) by (simp add: client_inv_def)
  have e: "e \<in> cl_live c" using assms(2) PA_free by simp
  from freeEltPA_ok [OF inv e] obtain m' pa' where f: "freeEltPA (cl_mem c) (cl_pa c) e = Some (m', pa')"
    "pa_inv m' pa' (cl_live c - {e})" "pa_elemSzB pa' = pa_elemSzB (cl_pa c)" "\<forall>a. a \<noteq> e \<longrightarrow> m' a = cl_mem c a" by blast
  have "in_block e (pa_elemSzB (cl_pa c)) e" using inv in_block_self by (simp add: pa_inv_def pools_ok_def)
  then have keep: "a \<noteq> e \<and> w a = Some v" if "forget (pa_elemSzB (cl_pa c)) e w a = Some v" for a v w
    using that by (auto simp: forget_def split: if_splits)
  let ?c = "\<lparr>cl_mem = m', cl_pa = pa', cl_live = cl_live c - {e}, cl_written = forget (pa_elemSzB pa') e (cl_written c)\<rparr>"
  have "m' a = Some v \<and> (\<exists>g \<in> cl_live c - {e}. in_block g (pa_elemSzB pa') a)"
    if w: "forget (pa_elemSzB pa') e (cl_written c) a = Some v" for a v
  proof -
    have a: "a \<noteq> e" "cl_written c a = Some v" using keep w f(3) by auto
    then obtain g where "cl_mem c a = Some v" "g \<in> cl_live c" "in_block g (pa_elemSzB (cl_pa c)) a"
      using assms(1) by (auto simp: client_inv_def)
    moreover have "g \<noteq> e" using w calculation(3) f(3) by (auto simp: forget_def)
    ultimately show ?thesis using f(3,4) a(1) by auto
  qed
  then have "client_inv ?c" using f(2) by (simp add: client_inv_def)
  then show ?thesis using PA_free f(1,3) by simp
next
  case (PA_write a v)
  then have l: "a \<noteq> 0" "cl_mem c a \<noteq> None" "\<exists>e \<in> cl_live c. in_block e (pa_elemSzB (cl_pa c)) a" using assms(2) by auto
  then have "pa_inv ((cl_mem c)(a \<mapsto> v)) (cl_pa c) (cl_live c)" using write_live_ok assms(1) by (auto simp: client_inv_def)
  then show ?thesis using l assms(1) PA_write by (auto simp: client_inv_def store_word_def)
qed

lemma pa_run_ok: "client_inv c \<Longrightarrow> all_legal xs c \<Longrightarrow> \<exists>c'. pa_run xs c = Some c' \<and> client_inv c' \<and> pa_elemSzB (cl_pa c') = pa_elemSzB (cl_pa c)"
proof (induction xs arbitrary: c)
  case Nil
  then show ?case by simp
next
  case (Cons x xs)
  obtain c1 where 1: "pa_step x c = Some c1" "client_inv c1" "pa_elemSzB (cl_pa c1) = pa_elemSzB (cl_pa c)"
    using pa_step_ok [OF Cons.prems(1)] Cons.prems(2) by auto
  with Cons.IH [of c1] Cons.prems(2) show ?case by auto
qed

lemma newPA_inv:
  assumes "newPA sz n = Some pa"
  shows "pa_inv m pa {} \<and> pa_elemSzB pa = sz \<and> nPerPool pa = n"
proof -
  have a: "sz mod 8 = 0" "8 \<le> sz" "100 \<le> n" using assms by (auto simp: newPA_def elim!: bind_SomeE split: if_splits simp: vg_assert_def)
  obtain xa where x: "newXA 8 = Some xa" "xa_ok xa" "contents xa = ([] :: Addr list)" using newXA_ok [of 8] by auto
  have pa: "pa = \<lparr>nrRef = 0, pa_elemSzB = sz, nPerPool = n, pools = xa, nextFree = 0\<rparr>" using assms a x(1) by (simp add: newPA_def)
  have "8 dvd unat sz" using arg_cong [OF a(1), of unat] by (simp add: unat_mod dvd_eq_mod_eq_0)
  moreover have "0 < unat sz" "0 < unat n" using a(2,3) by (auto simp: word_le_nat_alt)
  ultimately show ?thesis using x by (simp add: pa pa_inv_def pools_ok_def all_elems_def)
qed

text \<open>C22: A client of a new pool allocator that frees and writes only what it holds is always served, as long as
  the underlying allocator returns aligned blocks apart from one another: no assertion fails and no access
  leaves the pools. The elements it holds never overlap, and what it wrote into them is still there.\<close>

theorem pool_client_safe:
  assumes "newPA sz n = Some pa" "all_legal ops \<lparr>cl_mem = m, cl_pa = pa, cl_live = {}, cl_written = Map.empty\<rparr>"
  shows "\<exists>c. pa_run ops \<lparr>cl_mem = m, cl_pa = pa, cl_live = {}, cl_written = Map.empty\<rparr> = Some c
    \<and> (\<forall>e \<in> cl_live c. e \<noteq> 0 \<and> 8 dvd unat e) \<and> (\<forall>e \<in> cl_live c. \<forall>f \<in> cl_live c. e \<noteq> f \<longrightarrow> blocks_apart (unat sz) e f)
    \<and> cl_written c \<subseteq>\<^sub>m cl_mem c"
proof -
  let ?c = "\<lparr>cl_mem = m, cl_pa = pa, cl_live = {}, cl_written = Map.empty\<rparr>"
  have "client_inv ?c" using newPA_inv [OF assms(1)] by (simp add: client_inv_def)
  from pa_run_ok [OF this assms(2)] obtain c where c: "pa_run ops ?c = Some c" "client_inv c" "pa_elemSzB (cl_pa c) = sz"
    using newPA_inv [OF assms(1)] by auto
  then have ok: "pools_ok (cl_pa c)" "cl_live c \<subseteq> all_elems (cl_pa c)" by (auto simp: client_inv_def pa_inv_def)
  have "cl_written c \<subseteq>\<^sub>m cl_mem c" using c(2) by (auto simp: client_inv_def map_le_def)
  then show ?thesis using c ok pa_inv_apart [OF ok(1)] all_elems_nonzero [OF ok(1)] all_elems_aligned [OF ok(1)] by blast
qed


definition ex_pa :: PoolAlloc where
  "ex_pa = the (newPA 16 100)"

lemma ex_pa_new: "newPA 16 100 = Some ex_pa"
  by code_simp

lemma ex_pa_legal: "all_legal [PA_alloc 4096] \<lparr>cl_mem = Map.empty, cl_pa = ex_pa, cl_live = {}, cl_written = Map.empty\<rparr>"
  by (auto simp: ex_pa_def newPA_def newXA_def new_pool_ok_def pool_fits_def contents_def split: option.split)

theorem pool_client_safe_witness:
  "\<exists>c. pa_run [PA_alloc 4096] \<lparr>cl_mem = Map.empty, cl_pa = ex_pa, cl_live = {}, cl_written = Map.empty\<rparr> = Some c
     \<and> 0 \<notin> cl_live c"
  using pool_client_safe [OF ex_pa_new ex_pa_legal] by blast

end
