(* ===== verification/OSet.thy ===== *)
theory OSet
  imports PoolAlloc WordFM_Iter
begin

text \<open>
  The ordered set of \<open>coregrind/m_oset.c\<close>: an AVL tree whose nodes carry the user's elements.

  The nodes are in a heap, because the code works on the links between them: it exchanges nodes
  in place, finds the node to remove by its address, and in \<open>avl_insert\<close> relies on the root of a
  subtree that has grown being the same node as before. An address that is not allocated is \<open>None\<close>,
  as is a failing assertion. A variable \<open>AvlNode** root\<close> is a place: the root of the (sub)tree at
  hand or a field of a node.

  An element is the contents of the memory behind a node; the code's pointer to an element is the
  address of its node plus the size of a node. What lies at \<open>keyOff\<close> in an element is a function of
  the element, and the first word at a key is a function of the key. \<open>alloc_fn\<close> is represented by the
  address it returns, an argument, and \<open>free_fn\<close> by removing the node from the heap. With a
  pool, nodes come from the pool allocator and go back to it; the pools are found by their address.
\<close>

section \<open>Data\<close>

record 'e OSetNode =
  nleft :: Addr
  nright :: Addr
  nbalance :: int
  nmagic :: "16 word"
  nelem :: 'e

type_synonym 'e nheap = "Addr \<rightharpoonup> 'e OSetNode"

definition STACK_MAX :: nat where
  "STACK_MAX = 32"

definition OSET_MAGIC :: "16 word" where
  "OSET_MAGIC = 0x5b1f"

definition sizeof_AvlNode :: UWord where
  "sizeof_AvlNode = 24"

record ('k, 'e) OSet =
  keyOff :: UWord
  key_at :: "'e \<Rightarrow> 'k"
  key_word :: "'k \<Rightarrow> UWord"
  os_cmp :: "('k \<Rightarrow> 'e \<Rightarrow> 64 word) option"
  node_pa :: Addr
  maxEltSize :: UWord
  nElems :: UInt
  os_root :: Addr
  os_stack :: "(Addr \<times> int) list"

text \<open>The memory the operations work on: the nodes, the pool allocators and the words of the pools.\<close>

record 'e omem =
  nodes :: "'e nheap"
  pas :: "Addr \<rightharpoonup> PoolAlloc"
  pmem :: wmem

definition deref :: "'e nheap \<Rightarrow> Addr \<Rightarrow> 'e OSetNode option" where
  "deref h p = (if p = 0 then None else h p)"

definition upd_node :: "'e nheap \<Rightarrow> Addr \<Rightarrow> ('e OSetNode \<Rightarrow> 'e OSetNode) \<Rightarrow> 'e nheap option" where
  "upd_node h p f = do { n \<leftarrow> deref h p; Some (h(p \<mapsto> f n)) }"

section \<open>Helper operations\<close>

definition node_of_elem :: "'e nheap \<Rightarrow> Addr \<Rightarrow> Addr option" where
  "node_of_elem h e =
     (let p = e - sizeof_AvlNode in
      do { n \<leftarrow> deref h p; vg_assert (nmagic n = OSET_MAGIC); Some p })"

definition elem_of_node :: "'e nheap \<Rightarrow> Addr \<Rightarrow> Addr option" where
  "elem_of_node h p = do { n \<leftarrow> deref h p; vg_assert (nmagic n = OSET_MAGIC); Some (p + sizeof_AvlNode) }"

text \<open>The element behind a node, with and without the check of the magic number.\<close>

definition elem_at :: "'e nheap \<Rightarrow> Addr \<Rightarrow> 'e option" where
  "elem_at h p = do { _ \<leftarrow> elem_of_node h p; n \<leftarrow> deref h p; Some (nelem n) }"

definition elem_of_node_no_check :: "'e nheap \<Rightarrow> Addr \<Rightarrow> 'e option" where
  "elem_of_node_no_check h p = do { n \<leftarrow> deref h p; Some (nelem n) }"

definition slow_key_of_node :: "('k, 'e) OSet \<Rightarrow> 'e nheap \<Rightarrow> Addr \<Rightarrow> 'k option" where
  "slow_key_of_node t h n = map_option (key_at t) (elem_at h n)"

text \<open>With no comparison function \<open>keyOff\<close> is zero: the key is the element.\<close>

definition fast_key_of_node :: "('k, 'e) OSet \<Rightarrow> 'e nheap \<Rightarrow> Addr \<Rightarrow> 'k option" where
  "fast_key_of_node t h n = map_option (key_at t) (elem_at h n)"

definition fast_cmp :: "('k, 'e) OSet \<Rightarrow> 'k \<Rightarrow> 'e nheap \<Rightarrow> Addr \<Rightarrow> int option" where
  "fast_cmp t k h n =
     do { e \<leftarrow> elem_at h n;
          let w1 = key_word t k;
          let w2 = key_word t (key_at t e);
          Some (if w1 > w2 then 1 else if w1 < w2 then -1 else 0) }"

definition slow_cmp :: "('k \<Rightarrow> 'e \<Rightarrow> 64 word) \<Rightarrow> 'k \<Rightarrow> 'e nheap \<Rightarrow> Addr \<Rightarrow> int option" where
  "slow_cmp cmp k h n = do { e \<leftarrow> elem_at h n; Some (sint (cmp k e)) }"

text \<open>The places a \<open>AvlNode**\<close> points to, with the root of the tree at hand.\<close>

datatype place = Root | LeftOf Addr | RightOf Addr

type_synonym 'e tstate = "'e nheap \<times> Addr"

fun get_place :: "place \<Rightarrow> 'e tstate \<Rightarrow> Addr option" where
  "get_place Root (h, r) = Some r"
| "get_place (LeftOf p) (h, r) = map_option nleft (deref h p)"
| "get_place (RightOf p) (h, r) = map_option nright (deref h p)"

fun set_place :: "place \<Rightarrow> Addr \<Rightarrow> 'e tstate \<Rightarrow> 'e tstate option" where
  "set_place Root x (h, r) = Some (h, x)"
| "set_place (LeftOf p) x (h, r) = do { h \<leftarrow> upd_node h p (nleft_update (\<lambda>_. x)); Some (h, r) }"
| "set_place (RightOf p) x (h, r) = do { h \<leftarrow> upd_node h p (nright_update (\<lambda>_. x)); Some (h, r) }"

definition oset_swl :: "place \<Rightarrow> 'e tstate \<Rightarrow> 'e tstate option" where
  "oset_swl pl s =
     do { a \<leftarrow> get_place pl s;
          na \<leftarrow> deref (fst s) a;
          let b = nright na;
          (h, r) \<leftarrow> set_place pl b s;
          nb \<leftarrow> deref h b;
          h \<leftarrow> upd_node h a (nright_update (\<lambda>_. nleft nb));
          h \<leftarrow> upd_node h b (nleft_update (\<lambda>_. a));
          Some (h, r) }"

definition oset_swr :: "place \<Rightarrow> 'e tstate \<Rightarrow> 'e tstate option" where
  "oset_swr pl s =
     do { a \<leftarrow> get_place pl s;
          na \<leftarrow> deref (fst s) a;
          let b = nleft na;
          (h, r) \<leftarrow> set_place pl b s;
          nb \<leftarrow> deref h b;
          h \<leftarrow> upd_node h a (nleft_update (\<lambda>_. nright nb));
          h \<leftarrow> upd_node h b (nright_update (\<lambda>_. a));
          Some (h, r) }"

text \<open>\<open>root->balance = b\<close>, \<open>root->left->balance = b\<close> and \<open>root->right->balance = b\<close>.\<close>

definition set_bal :: "Addr \<Rightarrow> int \<Rightarrow> 'e nheap \<Rightarrow> 'e nheap option" where
  "set_bal p b h = upd_node h p (nbalance_update (\<lambda>_. b))"

definition set_bal_left :: "Addr \<Rightarrow> int \<Rightarrow> 'e nheap \<Rightarrow> 'e nheap option" where
  "set_bal_left p b h = do { n \<leftarrow> deref h p; set_bal (nleft n) b h }"

definition set_bal_right :: "Addr \<Rightarrow> int \<Rightarrow> 'e nheap \<Rightarrow> 'e nheap option" where
  "set_bal_right p b h = do { n \<leftarrow> deref h p; set_bal (nright n) b h }"

definition oset_nasty :: "Addr \<Rightarrow> 'e nheap \<Rightarrow> 'e nheap option" where
  "oset_nasty p h =
     do { n \<leftarrow> deref h p;
          h \<leftarrow> (if nbalance n = -1 then do { h \<leftarrow> set_bal_left p 0 h; set_bal_right p 1 h }
                else if nbalance n = 1 then do { h \<leftarrow> set_bal_left p (-1) h; set_bal_right p 0 h }
                else if nbalance n = 0 then do { h \<leftarrow> set_bal_left p 0 h; set_bal_right p 0 h }
                else Some h);
          set_bal p 0 h }"

text \<open>The iterator stack is a list with its top first; the slots above the top are not represented.\<close>

definition oset_stackClear :: "('k, 'e) OSet \<Rightarrow> ('k, 'e) OSet" where
  "oset_stackClear t = t\<lparr>os_stack := []\<rparr>"

definition oset_stackPush :: "(Addr \<times> int) list \<Rightarrow> Addr \<Rightarrow> int \<Rightarrow> (Addr \<times> int) list option" where
  "oset_stackPush stk n i =
     do { vg_assert (length stk < STACK_MAX); vg_assert (1 \<le> i \<and> i \<le> 3); Some ((n, i) # stk) }"

definition oset_stackPop :: "(Addr \<times> int) list \<Rightarrow> ((Addr \<times> int) option \<times> (Addr \<times> int) list) option" where
  "oset_stackPop stk =
     do { vg_assert (length stk \<le> STACK_MAX);
          (case stk of
             (n, i) # rest \<Rightarrow> do { vg_assert (1 \<le> i \<and> i \<le> 3); Some (Some (n, i), rest) }
           | [] \<Rightarrow> Some (None, [])) }"

section \<open>Creation and nodes\<close>

definition OSetGen_Create :: "UWord \<Rightarrow> ('e \<Rightarrow> 'k) \<Rightarrow> ('k \<Rightarrow> UWord) \<Rightarrow> ('k \<Rightarrow> 'e \<Rightarrow> 64 word) option
    \<Rightarrow> ('k, 'e) OSet option" where
  "OSetGen_Create off key kw cmp =
     do { vg_assert (cmp = None \<longrightarrow> off = 0);
          Some \<lparr>keyOff = off, key_at = key, key_word = kw, os_cmp = cmp, node_pa = 0, maxEltSize = 0,
                nElems = 0, os_root = 0, os_stack = []\<rparr> }"

definition round8 :: "UWord \<Rightarrow> UWord" where
  "round8 sz = (sz + 7) AND NOT 7"

text \<open>\<open>q\<close> is the address of the new pool allocator.\<close>

definition OSetGen_Create_With_Pool :: "UWord \<Rightarrow> ('e \<Rightarrow> 'k) \<Rightarrow> ('k \<Rightarrow> UWord) \<Rightarrow> ('k \<Rightarrow> 'e \<Rightarrow> 64 word) option
    \<Rightarrow> UWord \<Rightarrow> UWord \<Rightarrow> Addr \<Rightarrow> 'e omem \<Rightarrow> ('e omem \<times> ('k, 'e) OSet) option" where
  "OSetGen_Create_With_Pool off key kw cmp poolSize maxSz q m =
     do { t \<leftarrow> OSetGen_Create off key kw cmp;
          vg_assert (poolSize > 0);
          vg_assert (maxSz > 0);
          pa \<leftarrow> newPA (sizeof_AvlNode + round8 maxSz) poolSize;
          Some (m\<lparr>pas := (pas m)(q \<mapsto> addRefPA pa)\<rparr>, t\<lparr>maxEltSize := maxSz, node_pa := q\<rparr>) }"

definition OSetGen_EmptyClone :: "('k, 'e) OSet \<Rightarrow> 'e omem \<Rightarrow> ('e omem \<times> ('k, 'e) OSet) option" where
  "OSetGen_EmptyClone os m =
     do { m \<leftarrow> (if node_pa os \<noteq> 0 then
                  do { pa \<leftarrow> pas m (node_pa os); Some (m\<lparr>pas := (pas m)(node_pa os \<mapsto> addRefPA pa)\<rparr>) }
                else Some m);
          Some (m, os\<lparr>nElems := 0, os_root := 0, os_stack := []\<rparr>) }"

definition OSetWord_Create :: "(UWord, UWord) OSet option" where
  "OSetWord_Create = OSetGen_Create 0 (\<lambda>e. e) (\<lambda>k. k) None"

text \<open>A new node at the address \<open>p\<close> that the allocator returned, or from the pool (where \<open>p\<close> is the address of a
  new pool if one is needed); \<open>z\<close> is an element of zero bytes.\<close>

definition new_node :: "'e \<Rightarrow> 'e OSetNode" where
  "new_node z = \<lparr>nleft = 0, nright = 0, nbalance = 0, nmagic = OSET_MAGIC, nelem = z\<rparr>"

definition OSetGen_AllocNode :: "('k, 'e) OSet \<Rightarrow> UWord \<Rightarrow> Addr \<Rightarrow> 'e \<Rightarrow> 'e omem \<Rightarrow> ('e omem \<times> Addr) option" where
  "OSetGen_AllocNode t elemSize p z m =
     do { vg_assert (elemSize > 0);
          (m, n) \<leftarrow> (if node_pa t \<noteq> 0 then
                       do { vg_assert (elemSize \<le> maxEltSize t);
                            pa \<leftarrow> pas m (node_pa t);
                            (wm, pa, n) \<leftarrow> allocEltPA p (pmem m) pa;
                            Some (m\<lparr>pas := (pas m)(node_pa t \<mapsto> pa), pmem := wm\<rparr>, n) }
                     else Some (m, p));
          let m = m\<lparr>nodes := (nodes m)(n \<mapsto> new_node z)\<rparr>;
          e \<leftarrow> elem_of_node (nodes m) n;
          Some (m, e) }"

text \<open>Freeing a node, to the pool or to \<open>free_fn\<close>; a node that is not allocated cannot be freed.\<close>

definition free_node :: "('k, 'e) OSet \<Rightarrow> Addr \<Rightarrow> 'e omem \<Rightarrow> 'e omem option" where
  "free_node t n m =
     do { _ \<leftarrow> deref (nodes m) n;
          m \<leftarrow> (if node_pa t \<noteq> 0 then
                  do { pa \<leftarrow> pas m (node_pa t);
                       (wm, pa) \<leftarrow> freeEltPA (pmem m) pa n;
                       Some (m\<lparr>pas := (pas m)(node_pa t \<mapsto> pa), pmem := wm\<rparr>) }
                else Some m);
          Some (m\<lparr>nodes := (nodes m)(n := None)\<rparr>) }"

definition OSetGen_FreeNode :: "('k, 'e) OSet \<Rightarrow> Addr \<Rightarrow> 'e omem \<Rightarrow> 'e omem option" where
  "OSetGen_FreeNode t e m = do { n \<leftarrow> node_of_elem (nodes m) e; free_node t n m }"

text \<open>The loop of \<open>OSetGen_Destroy\<close>; \<open>sz\<close> counts the nodes freed.\<close>

partial_function (option) destroy_loop :: "('k, 'e) OSet \<Rightarrow> (Addr \<times> int) list \<Rightarrow> UWord \<Rightarrow> 'e omem
    \<Rightarrow> ('e omem \<times> UWord) option" where
  "destroy_loop t stk sz m =
     do { (top, stk) \<leftarrow> oset_stackPop stk;
          case top of
            None \<Rightarrow> Some (m, sz)
          | Some (n, i) \<Rightarrow>
              if i = 1 then
                do { stk \<leftarrow> oset_stackPush stk n 2;
                     nd \<leftarrow> deref (nodes m) n;
                     stk \<leftarrow> (if nleft nd \<noteq> 0 then oset_stackPush stk (nleft nd) 1 else Some stk);
                     destroy_loop t stk sz m }
              else if i = 2 then
                do { stk \<leftarrow> oset_stackPush stk n 3;
                     nd \<leftarrow> deref (nodes m) n;
                     stk \<leftarrow> (if nright nd \<noteq> 0 then oset_stackPush stk (nright nd) 1 else Some stk);
                     destroy_loop t stk sz m }
              else
                do { m \<leftarrow> free_node t n m; destroy_loop t stk (sz + 1) m } }"

text \<open>The last reference to a pool frees all its nodes with it: \<open>q\<close> lists the pools that were freed.\<close>

definition OSetGen_Destroy :: "('k, 'e) OSet \<Rightarrow> 'e omem \<Rightarrow> ('e omem \<times> Addr list) option" where
  "OSetGen_Destroy t m =
     do { (m, refs, q) \<leftarrow> (if node_pa t = 0 then Some (m, 1, [])
                           else do { pa \<leftarrow> pas m (node_pa t);
                                     (pa, refs, q) \<leftarrow> releasePA pa;
                                     Some (m\<lparr>pas := (pas m)(node_pa t \<mapsto> pa)\<rparr>, refs, q) });
          if node_pa t = 0 \<or> refs > 0 then
            do { stk \<leftarrow> (if os_root t \<noteq> 0 then oset_stackPush [] (os_root t) 1 else Some []);
                 (m, sz) \<leftarrow> destroy_loop t stk 0 m;
                 vg_assert (sz = ucast (nElems t));
                 Some (m, q) }
          else Some (m\<lparr>pas := (pas m)(node_pa t := None)\<rparr>, q) }"

section \<open>Insertion\<close>

definition cmp_key_root :: "('k, 'e) OSet \<Rightarrow> 'e nheap \<Rightarrow> Addr \<Rightarrow> Addr \<Rightarrow> int option" where
  "cmp_key_root t h rt n =
     (case os_cmp t of
        Some f \<Rightarrow> do { k \<leftarrow> slow_key_of_node t h n; slow_cmp f k h rt }
      | None \<Rightarrow> do { k \<leftarrow> fast_key_of_node t h n; fast_cmp t k h rt })"

text \<open>What follows when the left (right) subtree has grown.\<close>

definition oset_grown_left :: "'e nheap \<Rightarrow> Addr \<Rightarrow> ('e nheap \<times> Addr \<times> bool) option" where
  "oset_grown_left h rt =
     do { n \<leftarrow> deref h rt;
          h \<leftarrow> set_bal rt (nbalance n - 1) h;
          if nbalance n = 1 then Some (h, rt, False)
          else if nbalance n = 0 then Some (h, rt, True)
          else do { l \<leftarrow> deref h (nleft n);
                    if nbalance l < 0 then
                      do { (h, rt) \<leftarrow> oset_swr Root (h, rt);
                           h \<leftarrow> set_bal rt 0 h;
                           h \<leftarrow> set_bal_right rt 0 h;
                           Some (h, rt, False) }
                    else
                      do { (h, rt) \<leftarrow> oset_swl (LeftOf rt) (h, rt);
                           (h, rt) \<leftarrow> oset_swr Root (h, rt);
                           h \<leftarrow> oset_nasty rt h;
                           Some (h, rt, False) } } }"

definition oset_grown_right :: "'e nheap \<Rightarrow> Addr \<Rightarrow> ('e nheap \<times> Addr \<times> bool) option" where
  "oset_grown_right h rt =
     do { n \<leftarrow> deref h rt;
          h \<leftarrow> set_bal rt (nbalance n + 1) h;
          if nbalance n = -1 then Some (h, rt, False)
          else if nbalance n = 0 then Some (h, rt, True)
          else do { r \<leftarrow> deref h (nright n);
                    if nbalance r > 0 then
                      do { (h, rt) \<leftarrow> oset_swl Root (h, rt);
                           h \<leftarrow> set_bal rt 0 h;
                           h \<leftarrow> set_bal_left rt 0 h;
                           Some (h, rt, False) }
                    else
                      do { (h, rt) \<leftarrow> oset_swr (RightOf rt) (h, rt);
                           (h, rt) \<leftarrow> oset_swl Root (h, rt);
                           h \<leftarrow> oset_nasty rt h;
                           Some (h, rt, False) } } }"

partial_function (option) oset_insert :: "('k, 'e) OSet \<Rightarrow> 'e nheap \<Rightarrow> Addr \<Rightarrow> Addr
    \<Rightarrow> ('e nheap \<times> Addr \<times> bool) option" where
  "oset_insert t h rt n =
     do { cmpres \<leftarrow> cmp_key_root t h rt n;
          rn \<leftarrow> deref h rt;
          if cmpres < 0 then
            (if nleft rn \<noteq> 0 then
               do { (h, left_root, grown) \<leftarrow> oset_insert t h (nleft rn) n;
                    if grown then oset_grown_left h rt
                    else do { h \<leftarrow> upd_node h rt (nleft_update (\<lambda>_. left_root)); Some (h, rt, False) } }
             else
               do { h \<leftarrow> upd_node h rt (nleft_update (\<lambda>_. n));
                    h \<leftarrow> set_bal rt (nbalance rn - 1) h;
                    Some (h, rt, nbalance rn = 0) })
          else if cmpres > 0 then
            (if nright rn \<noteq> 0 then
               do { (h, right_root, grown) \<leftarrow> oset_insert t h (nright rn) n;
                    if grown then oset_grown_right h rt
                    else do { h \<leftarrow> upd_node h rt (nright_update (\<lambda>_. right_root)); Some (h, rt, False) } }
             else
               do { h \<leftarrow> upd_node h rt (nright_update (\<lambda>_. n));
                    h \<leftarrow> set_bal rt (nbalance rn + 1) h;
                    Some (h, rt, nbalance rn = 0) })
          else None }"

definition OSetGen_Insert :: "('k, 'e) OSet \<Rightarrow> Addr \<Rightarrow> 'e omem \<Rightarrow> ('e omem \<times> ('k, 'e) OSet) option" where
  "OSetGen_Insert t e m =
     do { n \<leftarrow> node_of_elem (nodes m) e;
          h \<leftarrow> upd_node (nodes m) n (\<lambda>x. x\<lparr>nleft := 0, nright := 0, nbalance := 0\<rparr>);
          (h, rt) \<leftarrow> (if os_root t = 0 then Some (h, n)
                        else do { (h, rt, _) \<leftarrow> oset_insert t h (os_root t) n; Some (h, rt) });
          Some (m\<lparr>nodes := h\<rparr>, t\<lparr>os_root := rt, nElems := nElems t + 1, os_stack := []\<rparr>) }"

text \<open>\<open>*node = val\<close>: the client's write into an element.\<close>

definition write_elem :: "Addr \<Rightarrow> 'e \<Rightarrow> 'e omem \<Rightarrow> 'e omem option" where
  "write_elem e x m =
     do { h \<leftarrow> upd_node (nodes m) (e - sizeof_AvlNode) (nelem_update (\<lambda>_. x)); Some (m\<lparr>nodes := h\<rparr>) }"

definition OSetWord_Insert :: "(UWord, UWord) OSet \<Rightarrow> UWord \<Rightarrow> Addr \<Rightarrow> UWord omem
    \<Rightarrow> (UWord omem \<times> (UWord, UWord) OSet) option" where
  "OSetWord_Insert t val p m =
     do { (m, e) \<leftarrow> OSetGen_AllocNode t 8 p 0 m;
          m \<leftarrow> write_elem e val m;
          OSetGen_Insert t e m }"

section \<open>Lookup\<close>

partial_function (option) oset_lookup :: "('k, 'e) OSet \<Rightarrow> 'e nheap \<Rightarrow> 'k \<Rightarrow> Addr \<Rightarrow> Addr option" where
  "oset_lookup t h k cur =
     (if cur = 0 then Some 0
      else case os_cmp t of
        Some f \<Rightarrow>
          do { cmpres \<leftarrow> slow_cmp f k h cur;
               n \<leftarrow> deref h cur;
               if cmpres < 0 then oset_lookup t h k (nleft n)
               else if cmpres > 0 then oset_lookup t h k (nright n)
               else Some cur }
      | None \<Rightarrow>
          do { e \<leftarrow> elem_of_node_no_check h cur;
               n \<leftarrow> deref h cur;
               let w1 = key_word t k;
          let w2 = key_word t (key_at t e);
               if w1 < w2 then oset_lookup t h k (nleft n)
               else if w1 > w2 then oset_lookup t h k (nright n)
               else Some cur })"

definition OSetGen_Lookup :: "('k, 'e) OSet \<Rightarrow> 'k \<Rightarrow> 'e omem \<Rightarrow> Addr option" where
  "OSetGen_Lookup t k m =
     do { n \<leftarrow> oset_lookup t (nodes m) k (os_root t);
          if n \<noteq> 0 then elem_of_node (nodes m) n else Some 0 }"

definition OSetGen_LookupWithCmp :: "('k, 'e) OSet \<Rightarrow> 'k \<Rightarrow> ('k \<Rightarrow> 'e \<Rightarrow> 64 word) option \<Rightarrow> 'e omem
    \<Rightarrow> (('k, 'e) OSet \<times> Addr) option" where
  "OSetGen_LookupWithCmp t k cmp m =
     (let tmpcmp = os_cmp t; t = t\<lparr>os_cmp := cmp\<rparr> in
      do { e \<leftarrow> OSetGen_Lookup t k m; Some (t\<lparr>os_cmp := tmpcmp\<rparr>, e) })"

definition OSetGen_Contains :: "('k, 'e) OSet \<Rightarrow> 'k \<Rightarrow> 'e omem \<Rightarrow> bool option" where
  "OSetGen_Contains t k m = do { e \<leftarrow> OSetGen_Lookup t k m; Some (0 \<noteq> e) }"

definition OSetWord_Contains :: "(UWord, UWord) OSet \<Rightarrow> UWord \<Rightarrow> UWord omem \<Rightarrow> bool option" where
  "OSetWord_Contains t val m = do { e \<leftarrow> OSetGen_Lookup t val m; Some (0 \<noteq> e) }"


section \<open>Deletion\<close>

text \<open>What follows when the left (right) subtree has shrunk.\<close>

definition oset_shrunk_left :: "'e nheap \<Rightarrow> Addr \<Rightarrow> ('e nheap \<times> Addr \<times> bool) option" where
  "oset_shrunk_left h rt =
     do { n \<leftarrow> deref h rt;
          h \<leftarrow> set_bal rt (nbalance n + 1) h;
          if nbalance n = -1 then Some (h, rt, True)
          else if nbalance n = 0 then Some (h, rt, False)
          else do { r \<leftarrow> deref h (nright n);
                    if nbalance r = 0 then
                      do { (h, rt) \<leftarrow> oset_swl Root (h, rt);
                           h \<leftarrow> set_bal rt (-1) h;
                           h \<leftarrow> set_bal_left rt 1 h;
                           Some (h, rt, False) }
                    else if nbalance r = 1 then
                      do { (h, rt) \<leftarrow> oset_swl Root (h, rt);
                           h \<leftarrow> set_bal rt 0 h;
                           h \<leftarrow> set_bal_left rt 0 h;
                           Some (h, rt, True) }
                    else
                      do { (h, rt) \<leftarrow> oset_swr (RightOf rt) (h, rt);
                           (h, rt) \<leftarrow> oset_swl Root (h, rt);
                           h \<leftarrow> oset_nasty rt h;
                           Some (h, rt, True) } } }"

definition oset_shrunk_right :: "'e nheap \<Rightarrow> Addr \<Rightarrow> ('e nheap \<times> Addr \<times> bool) option" where
  "oset_shrunk_right h rt =
     do { n \<leftarrow> deref h rt;
          h \<leftarrow> set_bal rt (nbalance n - 1) h;
          if nbalance n = 1 then Some (h, rt, True)
          else if nbalance n = 0 then Some (h, rt, False)
          else do { l \<leftarrow> deref h (nleft n);
                    if nbalance l = 0 then
                      do { (h, rt) \<leftarrow> oset_swr Root (h, rt);
                           h \<leftarrow> set_bal rt 1 h;
                           h \<leftarrow> set_bal_right rt (-1) h;
                           Some (h, rt, False) }
                    else if nbalance l = -1 then
                      do { (h, rt) \<leftarrow> oset_swr Root (h, rt);
                           h \<leftarrow> set_bal rt 0 h;
                           h \<leftarrow> set_bal_right rt 0 h;
                           Some (h, rt, True) }
                    else
                      do { (h, rt) \<leftarrow> oset_swl (LeftOf rt) (h, rt);
                           (h, rt) \<leftarrow> oset_swr Root (h, rt);
                           h \<leftarrow> oset_nasty rt h;
                           Some (h, rt, True) } } }"

text \<open>\<open>while (n->right) n = n->right;\<close> and its mirror image.\<close>

partial_function (option) oset_rightmost :: "'e nheap \<Rightarrow> Addr \<Rightarrow> Addr option" where
  "oset_rightmost h n = do { x \<leftarrow> deref h n; if nright x \<noteq> 0 then oset_rightmost h (nright x) else Some n }"

partial_function (option) oset_leftmost :: "'e nheap \<Rightarrow> Addr \<Rightarrow> Addr option" where
  "oset_leftmost h n = do { x \<leftarrow> deref h n; if nleft x \<noteq> 0 then oset_leftmost h (nleft x) else Some n }"

text \<open>\<open>avl_remove\<close> and \<open>avl_removeroot\<close> call each other: here they are one function, whose flag says which of the
  two it is; \<open>n\<close> is not used by \<open>avl_removeroot\<close>.\<close>

partial_function (option) oset_remove_wrk :: "('k, 'e) OSet \<Rightarrow> bool \<Rightarrow> 'e nheap \<Rightarrow> Addr \<Rightarrow> Addr
    \<Rightarrow> ('e nheap \<times> Addr \<times> bool) option" where
  "oset_remove_wrk t is_removeroot h rt n =
     (if is_removeroot then
        do { rn \<leftarrow> deref h rt;
             if nleft rn = 0 then
               (if nright rn = 0 then Some (h, 0, True) else Some (h, nright rn, True))
             else if nright rn = 0 then Some (h, nleft rn, True)
             else
               do { n \<leftarrow> (if nbalance rn < 0 then oset_rightmost h (nleft rn) else oset_leftmost h (nright rn));
                    (h, rt, ch) \<leftarrow> oset_remove_wrk t False h rt n;
                    rn \<leftarrow> deref h rt;
                    h \<leftarrow> upd_node h n (\<lambda>x. x\<lparr>nleft := nleft rn, nright := nright rn, nbalance := nbalance rn\<rparr>);
                    Some (h, n, if nbalance rn = 0 then ch else False) } }
      else
        do { cmpres \<leftarrow> cmp_key_root t h rt n;
             rn \<leftarrow> deref h rt;
             if cmpres < 0 then
               do { vg_assert (nleft rn \<noteq> 0);
                    (h, left_root, ch) \<leftarrow> oset_remove_wrk t False h (nleft rn) n;
                    h \<leftarrow> upd_node h rt (nleft_update (\<lambda>_. left_root));
                    if ch then oset_shrunk_left h rt else Some (h, rt, False) }
             else if cmpres > 0 then
               do { vg_assert (nright rn \<noteq> 0);
                    (h, right_root, ch) \<leftarrow> oset_remove_wrk t False h (nright rn) n;
                    h \<leftarrow> upd_node h rt (nright_update (\<lambda>_. right_root));
                    if ch then oset_shrunk_right h rt else Some (h, rt, False) }
             else
               do { vg_assert (rt = n); oset_remove_wrk t True h rt n } })"

definition oset_remove :: "('k, 'e) OSet \<Rightarrow> 'e nheap \<Rightarrow> Addr \<Rightarrow> Addr \<Rightarrow> ('e nheap \<times> Addr \<times> bool) option" where
  "oset_remove t h rt n = oset_remove_wrk t False h rt n"

definition oset_removeroot :: "('k, 'e) OSet \<Rightarrow> 'e nheap \<Rightarrow> Addr \<Rightarrow> ('e nheap \<times> Addr \<times> bool) option" where
  "oset_removeroot t h rt = oset_remove_wrk t True h rt 0"

definition OSetGen_Remove :: "('k, 'e) OSet \<Rightarrow> 'k \<Rightarrow> 'e omem \<Rightarrow> ('e omem \<times> ('k, 'e) OSet \<times> Addr) option" where
  "OSetGen_Remove t k m =
     do { n \<leftarrow> oset_lookup t (nodes m) k (os_root t);
          if n \<noteq> 0 then
            do { (h, rt, _) \<leftarrow> oset_remove t (nodes m) (os_root t) n;
                 e \<leftarrow> elem_of_node h n;
                 Some (m\<lparr>nodes := h\<rparr>, t\<lparr>os_root := rt, nElems := nElems t - 1, os_stack := []\<rparr>, e) }
          else Some (m, t, 0) }"

definition OSetWord_Remove :: "(UWord, UWord) OSet \<Rightarrow> UWord \<Rightarrow> UWord omem
    \<Rightarrow> (UWord omem \<times> (UWord, UWord) OSet \<times> bool) option" where
  "OSetWord_Remove t val m =
     do { (m, t, e) \<leftarrow> OSetGen_Remove t val m;
          if e \<noteq> 0 then do { m \<leftarrow> OSetGen_FreeNode t e m; Some (m, t, True) }
          else Some (m, t, False) }"

section \<open>Iterator\<close>

definition OSetGen_ResetIter :: "('k, 'e) OSet \<Rightarrow> ('k, 'e) OSet option" where
  "OSetGen_ResetIter t =
     (let t = oset_stackClear t in
      if os_root t \<noteq> 0
      then do { s \<leftarrow> oset_stackPush (os_stack t) (os_root t) 1; Some (t\<lparr>os_stack := s\<rparr>) }
      else Some t)"

text \<open>The label \<open>case_1\<close>.\<close>

partial_function (option) oset_case_1 :: "'e nheap \<Rightarrow> Addr \<Rightarrow> (Addr \<times> int) list \<Rightarrow> (Addr \<times> int) list option" where
  "oset_case_1 h n stk =
     do { s \<leftarrow> oset_stackPush stk n 2;
          x \<leftarrow> deref h n;
          if nleft x \<noteq> 0 then oset_case_1 h (nleft x) s else Some s }"

partial_function (option) oset_next_loop :: "'e nheap \<Rightarrow> (Addr \<times> int) list
    \<Rightarrow> ((Addr \<times> int) list \<times> Addr) option" where
  "oset_next_loop h stk =
     do { (top, stk1) \<leftarrow> oset_stackPop stk;
          case top of
            None \<Rightarrow> Some (stk1, 0)
          | Some (n, i) \<Rightarrow>
              if i = 1 then do { s \<leftarrow> oset_case_1 h n stk1; oset_next_loop h s }
              else if i = 2 then do { s \<leftarrow> oset_stackPush stk1 n 3; e \<leftarrow> elem_of_node h n; Some (s, e) }
              else do { x \<leftarrow> deref h n;
                        if nright x \<noteq> 0 then do { s \<leftarrow> oset_case_1 h (nright x) stk1; oset_next_loop h s }
                        else oset_next_loop h stk1 } }"

definition OSetGen_Next :: "('k, 'e) OSet \<Rightarrow> 'e omem \<Rightarrow> (('k, 'e) OSet \<times> Addr) option" where
  "OSetGen_Next t m =
     do { (s, e) \<leftarrow> oset_next_loop (nodes m) (os_stack t); Some (t\<lparr>os_stack := s\<rparr>, e) }"

text \<open>\<open>None\<close> in the result is the C result \<open>False\<close>.\<close>

definition OSetWord_Next :: "(UWord, UWord) OSet \<Rightarrow> UWord omem \<Rightarrow> ((UWord, UWord) OSet \<times> UWord option) option" where
  "OSetWord_Next t m =
     do { (t, e) \<leftarrow> OSetGen_Next t m;
          if e \<noteq> 0 then do { v \<leftarrow> elem_of_node_no_check (nodes m) (e - sizeof_AvlNode); Some (t, Some v) }
          else Some (t, None) }"

text \<open>The search loop of \<open>OSetGen_ResetIterAt\<close>.\<close>

partial_function (option) oset_resetAt_loop :: "('k, 'e) OSet \<Rightarrow> 'e nheap \<Rightarrow> 'k \<Rightarrow> Addr \<Rightarrow> (Addr \<times> int) list
    \<Rightarrow> (Addr \<times> int) list option" where
  "oset_resetAt_loop t h k n stk =
     (if n = 0 then Some stk
      else
        do { c \<leftarrow> (case os_cmp t of Some f \<Rightarrow> slow_cmp f k h n | None \<Rightarrow> fast_cmp t k h n);
             let cmpresS = (if c < 0 then 1 else if c > 0 then -1 else c);
             if cmpresS = 0 then oset_stackPush stk n 2
             else
               do { let cmpresU = drop_bit 63 (word_of_int cmpresS :: 64 word);
                    vg_assert (cmpresU = 0 \<or> cmpresU = 1);
                    stk \<leftarrow> (if cmpresU = 0 then oset_stackPush stk n 2 else Some stk);
                    x \<leftarrow> deref h n;
                    oset_resetAt_loop t h k (if cmpresU = 0 then nleft x else nright x) stk } })"

definition OSetGen_ResetIterAt :: "('k, 'e) OSet \<Rightarrow> 'k \<Rightarrow> 'e omem \<Rightarrow> ('k, 'e) OSet option" where
  "OSetGen_ResetIterAt t k m =
     (let t = oset_stackClear t in
      if os_root t = 0 then Some t
      else do { s \<leftarrow> oset_resetAt_loop t (nodes m) k (os_root t) (os_stack t); Some (t\<lparr>os_stack := s\<rparr>) })"

section \<open>Size\<close>

definition OSetGen_Size :: "('k, 'e) OSet \<Rightarrow> UInt" where
  "OSetGen_Size t = nElems t"

definition OSetWord_Size :: "(UWord, UWord) OSet \<Rightarrow> int" where
  "OSetWord_Size t = uint (OSetGen_Size t)"

declare oset_insert.simps [code] oset_lookup.simps [code] oset_remove_wrk.simps [code] oset_rightmost.simps [code]
  oset_leftmost.simps [code] oset_case_1.simps [code] oset_next_loop.simps [code] oset_resetAt_loop.simps [code]
  destroy_loop.simps [code]

end
