(* ===== verification/OSet_Props.thy ===== *)
theory OSet_Props
  imports OSet
begin

text \<open>
  The ordered set on its heap refines the AVL tree of \<open>WordFM\<close> whose keys are the addresses of the nodes, compared
  by the elements behind them. So the invariant, the order and the balance come from the lemmas on that tree;
  what is shown here is that the links in the heap are those of the tree at all times, that nothing outside the
  tree is touched, and what this means for the operations a client calls.
\<close>

section \<open>A tree in the heap\<close>

text \<open>\<open>el\<close> gives the element of each address; the tree has the address as its key and no value.\<close>

fun rep :: "(Addr \<Rightarrow> 'e) \<Rightarrow> 'e nheap \<Rightarrow> Addr \<Rightarrow> AvlNode \<Rightarrow> bool" where
  "rep el h p Null = (p = 0)"
| "rep el h p (Nd l a v b r) = (p = a \<and> a \<noteq> 0 \<and> v = 0
     \<and> (\<exists>n. h a = Some n \<and> nbalance n = b \<and> nmagic n = OSET_MAGIC \<and> nelem n = el a
        \<and> rep el h (nleft n) l \<and> rep el h (nright n) r))"

abbreviation addrs :: "AvlNode \<Rightarrow> Addr set" where
  "addrs t \<equiv> fst ` set (inorder t)"

abbreviation dist :: "AvlNode \<Rightarrow> bool" where
  "dist t \<equiv> distinct (map fst (inorder t))"

definition agree_off :: "Addr set \<Rightarrow> 'e nheap \<Rightarrow> 'e nheap \<Rightarrow> bool" where
  "agree_off A h h' = (\<forall>a. a \<notin> A \<longrightarrow> h' a = h a)"

lemma agree_off_refl [simp]: "agree_off A h h"
  by (simp add: agree_off_def)

lemma agree_off_trans: "agree_off A h h1 \<Longrightarrow> agree_off B h1 h2 \<Longrightarrow> A \<subseteq> C \<Longrightarrow> B \<subseteq> C \<Longrightarrow> agree_off C h h2"
  by (fastforce simp: agree_off_def)

lemma agree_off_upd: "agree_off A h h' \<Longrightarrow> a \<in> A \<Longrightarrow> agree_off A h (h'(a := x))"
  by (simp add: agree_off_def)

lemma addrs_Nd: "addrs (Nd l k v b r) = insert k (addrs l \<union> addrs r)"
  by auto

lemma rep_cong: "\<forall>a \<in> addrs t. h' a = h a \<Longrightarrow> rep el h' p t = rep el h p t"
  by (induction t arbitrary: p) auto

lemma rep_agree: "agree_off A h h' \<Longrightarrow> addrs t \<inter> A = {} \<Longrightarrow> rep el h p t \<Longrightarrow> rep el h' p t"
  by (subst rep_cong [of _ h' h]) (auto simp: agree_off_def)

lemma rep_upd [simp]: "a \<notin> addrs t \<Longrightarrow> rep el (h(a := x)) p t = rep el h p t"
  by (rule rep_cong) auto

lemma rep_0 [simp]: "rep el h 0 t \<longleftrightarrow> t = Null"
  by (cases t) auto

lemma rep_nonzero: "rep el h p t \<Longrightarrow> p \<noteq> 0 \<longleftrightarrow> t \<noteq> Null"
  by (cases t) auto

lemma rep_inorder_0: "rep el h p t \<Longrightarrow> (a, v) \<in> set (inorder t) \<Longrightarrow> a \<noteq> 0 \<and> v = 0 \<and> h a \<noteq> None"
  by (induction t arbitrary: p) auto

lemma deref_nonzero [simp]: "p \<noteq> 0 \<Longrightarrow> deref h p = h p"
  by (simp add: deref_def)

lemma upd_node_Some: "p \<noteq> 0 \<Longrightarrow> h p = Some n \<Longrightarrow> upd_node h p f = Some (h(p \<mapsto> f n))"
  by (simp add: upd_node_def)

lemmas bal_defs = set_bal_def set_bal_left_def set_bal_right_def upd_node_def Let_def

section \<open>Rebalancing\<close>

text \<open>A step on the heap does what a step on the tree does.\<close>

definition step_refines :: "(Addr \<Rightarrow> 'e) \<Rightarrow> 'e nheap \<Rightarrow> Addr set \<Rightarrow> (AvlNode \<times> bool) option
    \<Rightarrow> ('e nheap \<times> Addr \<times> bool) option \<Rightarrow> bool" where
  "step_refines el h A spec impl \<longleftrightarrow> (\<forall>t g. spec = Some (t, g) \<longrightarrow>
     (\<exists>h' p. impl = Some (h', p, g) \<and> rep el h' p t \<and> agree_off A h h'))"

lemma grown_left_refines:
  assumes "rep el h p (Nd l k v bal r)" "dist (Nd l k v bal r)"
  shows "step_refines el h (addrs (Nd l k v bal r)) (avl_grown_left l k v bal r) (oset_grown_left h p)"
  unfolding step_refines_def
proof (intro allI impI)
  fix t g
  assume s: "avl_grown_left l k v bal r = Some (t, g)"
  obtain n where n: "p = k" "k \<noteq> 0" "v = 0" "h k = Some n" "nbalance n = bal" "nmagic n = OSET_MAGIC" "nelem n = el k"
    "rep el h (nleft n) l" "rep el h (nright n) r" using assms(1) by auto
  consider "bal = 1" | "bal = 0" | "bal = -1" using s by (auto simp: avl_grown_left_def split: if_splits)
  then show "\<exists>h' p'. oset_grown_left h p = Some (h', p', g) \<and> rep el h' p' t \<and> agree_off (addrs (Nd l k v bal r)) h h'"
  proof cases
    case 1
    then show ?thesis using s n assms(2) by (auto simp: avl_grown_left_def oset_grown_left_def bal_defs agree_off_def)
  next
    case 2
    then show ?thesis using s n assms(2) by (auto simp: avl_grown_left_def oset_grown_left_def bal_defs agree_off_def)
  next
    case 3
    then obtain ll lk lv lb lr where c: "l = Nd ll lk lv lb lr" using s by (cases l) (auto simp: avl_grown_left_def)
    consider "lb < 0" | "lb \<ge> 0" using s 3 c by (auto simp: avl_grown_left_def split: if_splits)
    then show ?thesis
    proof cases
      case 1
      then show ?thesis using \<open>bal = -1\<close> s n assms(2) c
        by (auto simp: avl_grown_left_def oset_grown_left_def bal_defs oset_swr_def oset_swl_def agree_off_def)
    next
      case 2
      then obtain ml mk mv mb mr where m: "lr = Nd ml mk mv mb mr" using \<open>bal = -1\<close> s c by (cases lr) (auto simp: avl_grown_left_def)
      then show ?thesis using \<open>bal = -1\<close> s n assms(2) c 2
        by (auto simp: avl_grown_left_def oset_grown_left_def bal_defs oset_swr_def oset_swl_def rot_simps oset_nasty_def agree_off_def split: if_splits)
    qed
  qed
qed

lemma grown_right_refines:
  assumes "rep el h p (Nd l k v bal r)" "dist (Nd l k v bal r)"
  shows "step_refines el h (addrs (Nd l k v bal r)) (avl_grown_right l k v bal r) (oset_grown_right h p)"
  unfolding step_refines_def
proof (intro allI impI)
  fix t g
  assume s: "avl_grown_right l k v bal r = Some (t, g)"
  obtain n where n: "p = k" "k \<noteq> 0" "v = 0" "h k = Some n" "nbalance n = bal" "nmagic n = OSET_MAGIC" "nelem n = el k"
    "rep el h (nleft n) l" "rep el h (nright n) r" using assms(1) by auto
  consider "bal = -1" | "bal = 0" | "bal = 1" using s by (auto simp: avl_grown_right_def split: if_splits)
  then show "\<exists>h' p'. oset_grown_right h p = Some (h', p', g) \<and> rep el h' p' t \<and> agree_off (addrs (Nd l k v bal r)) h h'"
  proof cases
    case 1
    then show ?thesis using s n assms(2) by (auto simp: avl_grown_right_def oset_grown_right_def bal_defs agree_off_def)
  next
    case 2
    then show ?thesis using s n assms(2) by (auto simp: avl_grown_right_def oset_grown_right_def bal_defs agree_off_def)
  next
    case 3
    then obtain rl rk rv rb rr where c: "r = Nd rl rk rv rb rr" using s by (cases r) (auto simp: avl_grown_right_def)
    consider "rb > 0" | "rb \<le> 0" using s 3 c by (auto simp: avl_grown_right_def split: if_splits)
    then show ?thesis
    proof cases
      case 1
      then show ?thesis using \<open>bal = 1\<close> s n assms(2) c
        by (auto simp: avl_grown_right_def oset_grown_right_def bal_defs oset_swr_def oset_swl_def agree_off_def)
    next
      case 2
      then obtain ml mk mv mb mr where m: "rl = Nd ml mk mv mb mr" using \<open>bal = 1\<close> s c by (cases rl) (auto simp: avl_grown_right_def)
      then show ?thesis using \<open>bal = 1\<close> s n assms(2) c 2
        by (auto simp: avl_grown_right_def oset_grown_right_def bal_defs oset_swr_def oset_swl_def rot_simps oset_nasty_def agree_off_def split: if_splits)
    qed
  qed
qed

lemma shrunk_left_refines:
  assumes "rep el h p (Nd l k v bal r)" "dist (Nd l k v bal r)"
  shows "step_refines el h (addrs (Nd l k v bal r)) (avl_shrunk_left l k v bal r) (oset_shrunk_left h p)"
  unfolding step_refines_def
proof (intro allI impI)
  fix t g
  assume s: "avl_shrunk_left l k v bal r = Some (t, g)"
  obtain n where n: "p = k" "k \<noteq> 0" "v = 0" "h k = Some n" "nbalance n = bal" "nmagic n = OSET_MAGIC" "nelem n = el k"
    "rep el h (nleft n) l" "rep el h (nright n) r" using assms(1) by auto
  consider "bal = -1" | "bal = 0" | "bal = 1" using s by (auto simp: avl_shrunk_left_def split: if_splits)
  then show "\<exists>h' p'. oset_shrunk_left h p = Some (h', p', g) \<and> rep el h' p' t \<and> agree_off (addrs (Nd l k v bal r)) h h'"
  proof cases
    case 1
    then show ?thesis using s n assms(2) by (auto simp: avl_shrunk_left_def oset_shrunk_left_def bal_defs agree_off_def)
  next
    case 2
    then show ?thesis using s n assms(2) by (auto simp: avl_shrunk_left_def oset_shrunk_left_def bal_defs agree_off_def)
  next
    case 3
    then obtain rl rk rv rb rr where c: "r = Nd rl rk rv rb rr" using s by (cases r) (auto simp: avl_shrunk_left_def)
    consider "rb = 0" | "rb = 1" | "rb = -1" using s 3 c by (auto simp: avl_shrunk_left_def split: if_splits)
    then show ?thesis
    proof cases
      case 1
      then show ?thesis using \<open>bal = 1\<close> s n assms(2) c
        by (auto simp: avl_shrunk_left_def oset_shrunk_left_def bal_defs oset_swr_def oset_swl_def agree_off_def)
    next
      case 2
      then show ?thesis using \<open>bal = 1\<close> s n assms(2) c
        by (auto simp: avl_shrunk_left_def oset_shrunk_left_def bal_defs oset_swr_def oset_swl_def agree_off_def)
    next
      case 3
      then obtain ml mk mv mb mr where m: "rl = Nd ml mk mv mb mr" using \<open>bal = 1\<close> s c by (cases rl) (auto simp: avl_shrunk_left_def)
      then show ?thesis using \<open>bal = 1\<close> s n assms(2) c 3
        by (auto simp: avl_shrunk_left_def oset_shrunk_left_def bal_defs oset_swr_def oset_swl_def rot_simps oset_nasty_def agree_off_def split: if_splits)
    qed
  qed
qed

lemma shrunk_right_refines:
  assumes "rep el h p (Nd l k v bal r)" "dist (Nd l k v bal r)"
  shows "step_refines el h (addrs (Nd l k v bal r)) (avl_shrunk_right l k v bal r) (oset_shrunk_right h p)"
  unfolding step_refines_def
proof (intro allI impI)
  fix t g
  assume s: "avl_shrunk_right l k v bal r = Some (t, g)"
  obtain n where n: "p = k" "k \<noteq> 0" "v = 0" "h k = Some n" "nbalance n = bal" "nmagic n = OSET_MAGIC" "nelem n = el k"
    "rep el h (nleft n) l" "rep el h (nright n) r" using assms(1) by auto
  consider "bal = 1" | "bal = 0" | "bal = -1" using s by (auto simp: avl_shrunk_right_def split: if_splits)
  then show "\<exists>h' p'. oset_shrunk_right h p = Some (h', p', g) \<and> rep el h' p' t \<and> agree_off (addrs (Nd l k v bal r)) h h'"
  proof cases
    case 1
    then show ?thesis using s n assms(2) by (auto simp: avl_shrunk_right_def oset_shrunk_right_def bal_defs agree_off_def)
  next
    case 2
    then show ?thesis using s n assms(2) by (auto simp: avl_shrunk_right_def oset_shrunk_right_def bal_defs agree_off_def)
  next
    case 3
    then obtain ll lk lv lb lr where c: "l = Nd ll lk lv lb lr" using s by (cases l) (auto simp: avl_shrunk_right_def)
    consider "lb = 0" | "lb = -1" | "lb = 1" using s 3 c by (auto simp: avl_shrunk_right_def split: if_splits)
    then show ?thesis
    proof cases
      case 1
      then show ?thesis using \<open>bal = -1\<close> s n assms(2) c
        by (auto simp: avl_shrunk_right_def oset_shrunk_right_def bal_defs oset_swr_def oset_swl_def agree_off_def)
    next
      case 2
      then show ?thesis using \<open>bal = -1\<close> s n assms(2) c
        by (auto simp: avl_shrunk_right_def oset_shrunk_right_def bal_defs oset_swr_def oset_swl_def agree_off_def)
    next
      case 3
      then obtain ml mk mv mb mr where m: "lr = Nd ml mk mv mb mr" using \<open>bal = -1\<close> s c by (cases lr) (auto simp: avl_shrunk_right_def)
      then show ?thesis using \<open>bal = -1\<close> s n assms(2) c 3
        by (auto simp: avl_shrunk_right_def oset_shrunk_right_def bal_defs oset_swr_def oset_swl_def rot_simps oset_nasty_def agree_off_def split: if_splits)
    qed
  qed
qed


lemma grown_inorder:
  "avl_grown_left l k v bal r = Some (t, g) \<Longrightarrow> inorder t = inorder l @ (k, v) # inorder r"
  "avl_grown_right l k v bal r = Some (t, g) \<Longrightarrow> inorder t = inorder l @ (k, v) # inorder r"
  by (auto simp: avl_grown_left_def avl_grown_right_def rot_simps split: if_splits elim!: bind_SomeE avl_swl.elims avl_swr.elims)

lemma shrunk_inorder:
  "avl_shrunk_left l k v bal r = Some (t, g) \<Longrightarrow> inorder t = inorder l @ (k, v) # inorder r"
  "avl_shrunk_right l k v bal r = Some (t, g) \<Longrightarrow> inorder t = inorder l @ (k, v) # inorder r"
  by (auto simp: avl_shrunk_left_def avl_shrunk_right_def rot_simps split: if_splits elim!: bind_SomeE avl_swl.elims avl_swr.elims)


section \<open>Comparison\<close>

text \<open>How a key compares to an element, and how two nodes compare; the tree's comparison takes the node first.\<close>

definition kcmp :: "('k, 'e) OSet \<Rightarrow> 'k \<Rightarrow> 'e \<Rightarrow> int" where
  "kcmp t k e = (case os_cmp t of Some f \<Rightarrow> sint (f k e) | None \<Rightarrow> cmp_unsigned_Words (key_word t k) (key_word t (key_at t e)))"

definition acmp :: "('k, 'e) OSet \<Rightarrow> (Addr \<Rightarrow> 'e) \<Rightarrow> Addr \<Rightarrow> Addr \<Rightarrow> int" where
  "acmp t el a b = - kcmp t (key_at t (el b)) (el a)"

definition good_node :: "(Addr \<Rightarrow> 'e) \<Rightarrow> 'e nheap \<Rightarrow> Addr \<Rightarrow> bool" where
  "good_node el h p = (p \<noteq> 0 \<and> (\<exists>n. h p = Some n \<and> nmagic n = OSET_MAGIC \<and> nelem n = el p))"

lemma rep_good: "rep el h p t \<Longrightarrow> a \<in> addrs t \<Longrightarrow> good_node el h a"
proof (induction t arbitrary: p)
  case (Nd l k v b r)
  then show ?case by (auto simp: good_node_def [of _ _ k])
qed simp

lemma rep_root_good: "rep el h p (Nd l k v b r) \<Longrightarrow> good_node el h p"
  by (auto simp: good_node_def)

lemma elem_at_good: "good_node el h p \<Longrightarrow> elem_at h p = Some (el p)"
  by (auto simp: good_node_def elem_at_def elem_of_node_def)

lemma elem_of_node_good: "good_node el h p \<Longrightarrow> elem_of_node h p = Some (p + sizeof_AvlNode)"
  by (auto simp: good_node_def elem_of_node_def)

lemma slow_cmp_good: "good_node el h p \<Longrightarrow> slow_cmp f k h p = Some (sint (f k (el p)))"
  by (simp add: slow_cmp_def elem_at_good)

lemma fast_cmp_good: "good_node el h p \<Longrightarrow> fast_cmp t k h p = Some (cmp_unsigned_Words (key_word t k) (key_word t (key_at t (el p))))"
  by (simp add: fast_cmp_def elem_at_good cmp_unsigned_Words_def Let_def not_less_iff_gr_or_eq)

lemma cmp_key_root_good:
  "good_node el h p \<Longrightarrow> good_node el h n \<Longrightarrow> cmp_key_root t h p n = Some (- acmp t el p n)"
  by (auto simp: cmp_key_root_def acmp_def kcmp_def slow_key_of_node_def fast_key_of_node_def elem_at_good slow_cmp_good
      fast_cmp_good split: option.splits)

section \<open>Insertion\<close>

lemma insert_mset:
  "avl_insert_wrk cmp T n 0 = Some (T', None, g) \<Longrightarrow> mset (inorder T') = add_mset (n, 0) (mset (inorder T))"
proof (induction T arbitrary: T' g)
  case Null
  then show ?case by auto
next
  case (Nd l k v b r)
  then show ?case
    by (auto simp: Let_def dest!: grown_inorder split: if_splits elim!: bind_SomeE)
qed

lemma insert_addrs:
  assumes "avl_insert_wrk cmp T n 0 = Some (T', None, g)"
  shows "addrs T' = insert n (addrs T)" "dist T' \<longleftrightarrow> n \<notin> addrs T \<and> dist T"
proof -
  have m: "mset (map fst (inorder T')) = mset (n # map fst (inorder T))" using insert_mset [OF assms] by simp
  show "addrs T' = insert n (addrs T)" using mset_eq_setD [OF m] by simp
  show "dist T' \<longleftrightarrow> n \<notin> addrs T \<and> dist T" using mset_eq_imp_distinct_iff [OF m] by simp
qed

lemma insert_grown_root:
  "avl_insert_wrk cmp (Nd l k v b r) ak av = Some (t', old, True) \<Longrightarrow> \<exists>l' b' r'. t' = Nd l' k v b' r'"
  by (auto simp: Let_def avl_grown_left_def avl_grown_right_def rot_simps split: if_splits option.splits prod.splits elim!: bind_SomeE)

text \<open>A node that is not in the tree and has no links.\<close>

definition lone_node :: "(Addr \<Rightarrow> 'e) \<Rightarrow> 'e nheap \<Rightarrow> Addr \<Rightarrow> bool" where
  "lone_node el h n = (n \<noteq> 0 \<and> h n = Some (new_node (el n)))"

lemma lone_good: "lone_node el h n \<Longrightarrow> good_node el h n"
  by (simp add: lone_node_def good_node_def new_node_def)

lemma lone_rep: "lone_node el h n \<Longrightarrow> rep el h n (Nd Null n 0 0 Null)"
  by (simp add: lone_node_def new_node_def)

lemma lone_upd: "a \<noteq> n \<Longrightarrow> lone_node el (h(a := x)) n = lone_node el h n"
  by (simp add: lone_node_def)

lemma insert_refines:
  assumes "avl_insert_wrk (acmp t el) T n 0 = Some (T', None, g)" "rep el h p T" "dist T" "T \<noteq> Null"
    and "n \<notin> addrs T" "lone_node el h n"
  shows "\<exists>h' p'. oset_insert t h p n = Some (h', p', g) \<and> rep el h' p' T' \<and> agree_off (insert n (addrs T)) h h'"
  using assms
proof (induction T arbitrary: h p T' g)
  case Null
  then show ?case by simp
next
  case (Nd l k v b r)
  obtain x where x: "p = k" "k \<noteq> 0" "v = 0" "h k = Some x" "nbalance x = b" "nmagic x = OSET_MAGIC" "nelem x = el k"
    "rep el h (nleft x) l" "rep el h (nright x) r" using Nd.prems(2) by auto
  have nk: "n \<noteq> k" "n \<notin> addrs l" "n \<notin> addrs r" using Nd.prems(5) by auto
  have d: "dist l" "dist r" "k \<notin> addrs l" "k \<notin> addrs r" "addrs l \<inter> addrs r = {}" using Nd.prems(3) by auto
  have c: "cmp_key_root t h p n = Some (- acmp t el k n)"
    using cmp_key_root_good rep_root_good [OF Nd.prems(2)] lone_good [OF Nd.prems(6)] x(1) by blast
  consider (left) "acmp t el k n > 0" | (right) "acmp t el k n < 0" using Nd.prems(1) by (fastforce simp: Let_def)
  then show ?case
  proof cases
    case left
    show ?thesis
    proof (cases "l = Null")
      case True
      have "nleft x = 0" using x(8) True by simp
      then show ?thesis
        using Nd.prems(1,6) left True x c nk d lone_rep [OF Nd.prems(6)]
        by (subst oset_insert.simps) (auto simp: Let_def bal_defs agree_off_def)
    next
      case False
      then have nz: "nleft x \<noteq> 0" using x(8) rep_nonzero by blast
      obtain l' gr where i: "avl_insert_wrk (acmp t el) l n 0 = Some (l', None, gr)"
        and T': "if gr then avl_grown_left l' k v b r = Some (T', g) else T' = Nd l' k v b r \<and> \<not> g"
        using Nd.prems(1) left False by (auto simp: Let_def elim!: bind_SomeE split: if_splits prod.splits)
      from Nd.IH(1) [OF i x(8) d(1) False nk(2) Nd.prems(6)] obtain h1 lp where
        h1: "oset_insert t h (nleft x) n = Some (h1, lp, gr)" "rep el h1 lp l'" "agree_off (insert n (addrs l)) h h1" by blast
      have k: "h1 k = Some x" using h1(3) d(3) nk(1) x(4) by (auto simp: agree_off_def)
      have r: "rep el h1 (nright x) r" using rep_agree [OF h1(3) _ x(9)] d(5) nk(3) by auto
      have a': "addrs l' = insert n (addrs l)" "dist l'" using insert_addrs [OF i] nk(2) d(1) by simp_all
      have ag: "agree_off (insert n (addrs (Nd l k v b r))) h h1" using h1(3) by (auto simp: agree_off_def)
      show ?thesis
      proof (cases gr)
        case True
        then have "lp = nleft x" using insert_grown_root i False x(8) h1(2) by (cases l) fastforce+
        then have rp: "rep el h1 k (Nd l' k v b r)" using k x h1(2) r by auto
        have dd: "dist (Nd l' k v b r)" using a' d nk by auto
        obtain h' p' where "oset_grown_left h1 k = Some (h', p', g)" "rep el h' p' T'" "agree_off (addrs (Nd l' k v b r)) h1 h'"
          using grown_left_refines [OF rp dd] T' True by (auto simp: step_refines_def)
        moreover from this(3) have "agree_off (insert n (addrs (Nd l k v b r))) h h'"
          by (rule agree_off_trans [OF ag]) (unfold addrs_Nd a', auto)
        ultimately show ?thesis using c left x(1,2,4) nz h1(1) True by (subst oset_insert.simps) simp
      next
        case ng: False
        let ?h = "h1(k \<mapsto> x\<lparr>nleft := lp\<rparr>)"
        have "rep el ?h k T'" using ng T' x h1(2) r a' d nk by auto
        moreover have "agree_off (insert n (addrs (Nd l k v b r))) h ?h" by (rule agree_off_upd [OF ag]) simp
        ultimately show ?thesis using c left x(1,2,4) nz h1(1) ng T' k
          by (subst oset_insert.simps) (simp add: upd_node_def)
      qed
    qed
  next
    case right
    show ?thesis
    proof (cases "r = Null")
      case True
      have "nright x = 0" using x(9) True by simp
      then show ?thesis
        using Nd.prems(1,6) right True x c nk d lone_rep [OF Nd.prems(6)]
        by (subst oset_insert.simps) (auto simp: Let_def bal_defs agree_off_def)
    next
      case False
      then have nz: "nright x \<noteq> 0" using x(9) rep_nonzero by blast
      obtain r' gr where i: "avl_insert_wrk (acmp t el) r n 0 = Some (r', None, gr)"
        and T': "if gr then avl_grown_right l k v b r' = Some (T', g) else T' = Nd l k v b r' \<and> \<not> g"
        using Nd.prems(1) right False by (auto simp: Let_def elim!: bind_SomeE split: if_splits prod.splits)
      from Nd.IH(2) [OF i x(9) d(2) False nk(3) Nd.prems(6)] obtain h1 rp where
        h1: "oset_insert t h (nright x) n = Some (h1, rp, gr)" "rep el h1 rp r'" "agree_off (insert n (addrs r)) h h1" by blast
      have k: "h1 k = Some x" using h1(3) d(4) nk(1) x(4) by (auto simp: agree_off_def)
      have l: "rep el h1 (nleft x) l" using rep_agree [OF h1(3) _ x(8)] d(5) nk(2) by auto
      have a': "addrs r' = insert n (addrs r)" "dist r'" using insert_addrs [OF i] nk(3) d(2) by simp_all
      have ag: "agree_off (insert n (addrs (Nd l k v b r))) h h1" using h1(3) by (auto simp: agree_off_def)
      show ?thesis
      proof (cases gr)
        case True
        then have "rp = nright x" using insert_grown_root i False x(9) h1(2) by (cases r) fastforce+
        then have rr: "rep el h1 k (Nd l k v b r')" using k x h1(2) l by auto
        have dd: "dist (Nd l k v b r')" using a' d nk by auto
        obtain h' p' where "oset_grown_right h1 k = Some (h', p', g)" "rep el h' p' T'" "agree_off (addrs (Nd l k v b r')) h1 h'"
          using grown_right_refines [OF rr dd] T' True by (auto simp: step_refines_def)
        moreover from this(3) have "agree_off (insert n (addrs (Nd l k v b r))) h h'"
          by (rule agree_off_trans [OF ag]) (unfold addrs_Nd a', auto)
        ultimately show ?thesis using c right x(1,2,4) nz h1(1) True by (subst oset_insert.simps) simp
      next
        case ng: False
        let ?h = "h1(k \<mapsto> x\<lparr>nright := rp\<rparr>)"
        have "rep el ?h k T'" using ng T' x h1(2) l a' d nk by auto
        moreover have "agree_off (insert n (addrs (Nd l k v b r))) h ?h" by (rule agree_off_upd [OF ag]) simp
        ultimately show ?thesis using c right x(1,2,4) nz h1(1) ng T' k
          by (subst oset_insert.simps) (simp add: upd_node_def)
      qed
    qed
  qed
qed

end
