(* ===== verification/OSet_Remove.thy ===== *)
theory OSet_Remove
  imports OSet_Props
begin

text \<open>
  Deletion from the ordered set: the node is found by its address, and the node that takes the place of a removed
  one keeps its own address. The refinement of the tree operation goes by induction on the size of the tree, like
  the recursion of \<open>avl_remove\<close> and \<open>avl_removeroot\<close>.
\<close>

lemma insert_dup_refines:
  assumes "avl_insert_wrk (acmp t el) T n 0 = Some (T', Some w, g)" "rep el h p T" "lone_node el h n"
  shows "oset_insert t h p n = None"
  using assms
proof (induction T arbitrary: h p T' g)
  case Null
  then show ?case by simp
next
  case (Nd l k v b r)
  obtain x where x: "p = k" "k \<noteq> 0" "h k = Some x" "rep el h (nleft x) l" "rep el h (nright x) r" using Nd.prems(2) by auto
  have c: "cmp_key_root t h p n = Some (- acmp t el k n)"
    using cmp_key_root_good rep_root_good [OF Nd.prems(2)] lone_good [OF Nd.prems(3)] x(1) by blast
  consider (left) l' g' where "acmp t el k n > 0" "l \<noteq> Null" "avl_insert_wrk (acmp t el) l n 0 = Some (l', Some w, g')"
    | (right) r' g' where "acmp t el k n < 0" "r \<noteq> Null" "avl_insert_wrk (acmp t el) r n 0 = Some (r', Some w, g')"
    | (eq) "acmp t el k n = 0"
    using Nd.prems(1) by (fastforce simp: Let_def split: if_splits elim!: bind_SomeE)
  then show ?case
  proof cases
    case left
    then show ?thesis using Nd.IH(1) [OF left(3) x(4) Nd.prems(3)] x c rep_nonzero [OF x(4)] by (subst oset_insert.simps) simp
  next
    case right
    then show ?thesis using Nd.IH(2) [OF right(3) x(5) Nd.prems(3)] x c rep_nonzero [OF x(5)] by (subst oset_insert.simps) simp
  next
    case eq
    then show ?thesis using x c by (subst oset_insert.simps) simp
  qed
qed

lemma rightmost_ok:
  "rep el h p T \<Longrightarrow> T \<noteq> Null \<Longrightarrow> \<exists>m. oset_rightmost h p = Some m \<and> node_at T (rightmost T) = Some (m, 0)"
proof (induction T arbitrary: p)
  case (Nd l k v b r)
  then obtain x where x: "p = k" "k \<noteq> 0" "v = 0" "h k = Some x" "rep el h (nright x) r" by auto
  then show ?case using Nd.IH(2) [OF x(5)] rep_nonzero [OF x(5)] by (subst oset_rightmost.simps) auto
qed simp

lemma leftmost_ok:
  "rep el h p T \<Longrightarrow> T \<noteq> Null \<Longrightarrow> \<exists>m. oset_leftmost h p = Some m \<and> node_at T (leftmost T) = Some (m, 0)"
proof (induction T arbitrary: p)
  case (Nd l k v b r)
  then obtain x where x: "p = k" "k \<noteq> 0" "v = 0" "h k = Some x" "rep el h (nleft x) l" by auto
  then show ?case using Nd.IH(1) [OF x(5)] rep_nonzero [OF x(5)] by (subst oset_leftmost.simps) auto
qed simp

lemma remove_None: "avl_remove_wrk cmp T None ak = None"
  by (induction T) (auto simp: Let_def path_step_def opt_simps)

text \<open>What the removal of \<open>n\<close> from the subtree \<open>T\<close> does to the heap, for a result of the tree operation.\<close>

definition removal :: "(Addr \<Rightarrow> 'e) \<Rightarrow> 'e nheap \<Rightarrow> AvlNode \<Rightarrow> AvlNode \<times> bool \<Rightarrow> ('e nheap \<times> Addr \<times> bool) option \<Rightarrow> bool" where
  "removal el h T res impl \<longleftrightarrow> (\<exists>h' p'. impl = Some (h', p', snd res) \<and> rep el h' p' (fst res) \<and> agree_off (addrs T) h h'
     \<and> (\<forall>a \<in> addrs T. good_node el h' a))"

definition remove_refines :: "('k, 'e) OSet \<Rightarrow> (Addr \<Rightarrow> 'e) \<Rightarrow> AvlNode \<Rightarrow> bool" where
  "remove_refines t el T \<longleftrightarrow> (\<forall>h p q n res. avl_remove_wrk (acmp t el) T (Some q) n = Some res \<longrightarrow> node_at T q = Some (n, 0)
     \<longrightarrow> rep el h p T \<longrightarrow> dist T \<longrightarrow> removal el h T res (oset_remove_wrk t False h p n))"

lemma good_upd_links:
  assumes "h k = Some x" "\<And>a. a \<in> A \<Longrightarrow> good_node el h a" "nmagic y = nmagic x" "nelem y = nelem x"
  shows "\<forall>a \<in> A. good_node el (h(k \<mapsto> y)) a"
  using assms by (fastforce simp: good_node_def)

lemma del_list_addrs:
  "addrs T' \<subseteq> addrs T \<and> (dist T \<longrightarrow> dist T')" if "inorder T' = del_list cmp n (inorder T)"
  using that by (auto simp: del_list_def distinct_map_filter)


lemma dist_Nd: "dist (Nd l k v b r) \<longleftrightarrow> dist l \<and> dist r \<and> k \<notin> addrs l \<and> k \<notin> addrs r \<and> addrs l \<inter> addrs r = {}"
  by auto

lemma disjoint_mono: "A \<subseteq> B \<Longrightarrow> B \<inter> C = {} \<Longrightarrow> A \<inter> C = {}"
  by blast

lemma good_cong: "h' a = h a \<Longrightarrow> good_node el h' a = good_node el h a"
  by (simp add: good_node_def)

text \<open>A rebalancing step after a removal.\<close>

lemma removal_step:
  assumes "step_refines el h1 (addrs T1) (Some res) impl" "addrs (fst res) = addrs T1" "addrs T1 \<subseteq> addrs T"
    and "agree_off (addrs T) h h1" "\<forall>a \<in> addrs T. good_node el h1 a"
  shows "removal el h T res impl"
proof -
  obtain h' p' where h': "impl = Some (h', p', snd res)" "rep el h' p' (fst res)" "agree_off (addrs T1) h1 h'"
    using assms(1) by (cases res) (auto simp: step_refines_def)
  have "good_node el h' a" if "a \<in> addrs T" for a
  proof (cases "a \<in> addrs T1")
    case True
    then show ?thesis using rep_good [OF h'(2)] assms(2) by blast
  next
    case False
    then have "h' a = h1 a" using h'(3) unfolding agree_off_def by blast
    then show ?thesis using assms(5) that good_cong by blast
  qed
  moreover have "agree_off (addrs T) h h'" by (rule agree_off_trans [OF assms(4) h'(3)]) (use assms(3) in auto)
  ultimately show ?thesis using h' by (simp add: removal_def)
qed

lemma agree_good:
  assumes "agree_off A h h'" "\<forall>a \<in> A. good_node el h' a" "rep el h p T" "a \<in> addrs T"
  shows "good_node el h' a"
proof (cases "a \<in> A")
  case False
  then have "h' a = h a" using assms(1) by (simp add: agree_off_def)
  then show ?thesis using rep_good [OF assms(3,4)] good_cong by blast
qed (use assms(2) in blast)

lemma removal_left:
  assumes IH: "remove_refines t el l" and wc: "word_comparator (acmp t el)"
    and T: "avl (Nd l k v b r)" "ordered (acmp t el) (inorder (Nd l k v b r))" "dist (Nd l k v b r)"
    and rp: "rep el h p (Nd l k v b r)" and q: "node_at l q = Some (n, 0)" and c: "acmp t el k n > 0"
    and res: "avl_remove_wrk (acmp t el) (Nd l k v b r) (Some (False # q)) n = Some res"
  shows "removal el h (Nd l k v b r) res (oset_remove_wrk t False h p n)"
proof -
  obtain x where x: "p = k" "k \<noteq> 0" "v = 0" "h k = Some x" "nbalance x = b" "nmagic x = OSET_MAGIC" "nelem x = el k"
    "rep el h (nleft x) l" "rep el h (nright x) r" using rp by auto
  have d: "dist l" "k \<notin> addrs l" "k \<notin> addrs r" "addrs l \<inter> addrs r = {}" using T(3) by auto
  have n: "n \<in> addrs l" using word_comparator.node_at_mem [OF wc q] by force
  then have nn: "l \<noteq> Null" by auto
  have ck: "cmp_key_root t h p n = Some (- acmp t el k n)"
    using cmp_key_root_good rep_root_good [OF rp] rep_good [OF x(8) n] x(1) by blast
  have o: "avl l" "ordered (acmp t el) (inorder l)" using T(1) word_comparator.ordered_NdD(1) [OF wc T(2)] by auto
  obtain l' ch where i: "avl_remove_wrk (acmp t el) l (Some q) n = Some (l', ch)" "inorder l' = del_list (acmp t el) n (inorder l)"
    using word_comparator.remove_correct [OF wc o q] by (auto simp: word_comparator.removes_def [OF wc])
  have e: "if ch then avl_shrunk_left l' k v b r = Some res else res = (Nd l' k v b r, False)"
    using res c nn i(1) by (auto simp: Let_def path_step_def split: if_splits)
  have "removal el h l (l', ch) (oset_remove_wrk t False h (nleft x) n)"
    using IH i(1) q x(8) d(1) by (simp add: remove_refines_def)
  then obtain h1 sp where h1: "oset_remove_wrk t False h (nleft x) n = Some (h1, sp, ch)" "rep el h1 sp l'" "agree_off (addrs l) h h1"
    "\<forall>a \<in> addrs l. good_node el h1 a" by (auto simp: removal_def)
  have k: "h1 k = Some x" using h1(3) d(2,3) x(4) by (auto simp: agree_off_def)
  have s: "addrs l' \<subseteq> addrs l" "dist l'" using del_list_addrs [OF i(2)] d(1) by auto
  then have ks: "k \<notin> addrs l'" using d(2,3) by blast
  let ?h = "h1(k \<mapsto> x\<lparr>nleft := sp\<rparr>)"
  have "rep el ?h (nright x) r" using rep_agree [OF h1(3) _ x(9)] d(2-4) by auto
  moreover have "rep el ?h sp l'" using h1(2) ks by simp
  ultimately have rp1: "rep el ?h k (Nd l' k v b r)" using x by auto
  have dd: "dist (Nd l' k v b r)" using s ks d(2-4) disjoint_mono [OF s(1)] T(3) by (simp only: dist_Nd simp_thms)
  have ag: "agree_off (addrs (Nd l k v b r)) h ?h" using h1(3) by (auto simp: agree_off_def)
  have gd: "\<forall>a \<in> addrs (Nd l k v b r). good_node el ?h a"
    by (rule good_upd_links [of h1 k x, OF k]) (simp_all add: agree_good [OF h1(3,4) rp] del: inorder.simps)
  have step: "oset_remove_wrk t False h p n = (if ch then oset_shrunk_left ?h k else Some (?h, k, False))"
    using ck c x(1,2,4) h1(1) k rep_nonzero [OF x(8)] nn by (subst oset_remove_wrk.simps) (simp add: upd_node_def)
  show ?thesis
  proof (cases ch)
    case True
    then have e: "avl_shrunk_left l' k v b r = Some (fst res, snd res)" using e by simp
    have ad: "addrs (fst res) = addrs (Nd l' k v b r)" using shrunk_inorder(1) [OF e] by auto
    have sub: "addrs (Nd l' k v b r) \<subseteq> addrs (Nd l k v b r)" using s(1) unfolding addrs_Nd by auto
    have "step_refines el ?h (addrs (Nd l' k v b r)) (Some res) (oset_shrunk_left ?h k)" using shrunk_left_refines [OF rp1 dd] e by simp
    from removal_step [OF this ad sub ag gd] show ?thesis using step True by simp
  next
    case False
    then show ?thesis using e step rp1 ag gd by (simp add: removal_def)
  qed
qed

lemma removal_right:
  assumes IH: "remove_refines t el r" and wc: "word_comparator (acmp t el)"
    and T: "avl (Nd l k v b r)" "ordered (acmp t el) (inorder (Nd l k v b r))" "dist (Nd l k v b r)"
    and rp: "rep el h p (Nd l k v b r)" and q: "node_at r q = Some (n, 0)" and c: "acmp t el k n < 0"
    and res: "avl_remove_wrk (acmp t el) (Nd l k v b r) (Some (True # q)) n = Some res"
  shows "removal el h (Nd l k v b r) res (oset_remove_wrk t False h p n)"
proof -
  obtain x where x: "p = k" "k \<noteq> 0" "v = 0" "h k = Some x" "nbalance x = b" "nmagic x = OSET_MAGIC" "nelem x = el k"
    "rep el h (nleft x) l" "rep el h (nright x) r" using rp by auto
  have d: "dist r" "k \<notin> addrs l" "k \<notin> addrs r" "addrs l \<inter> addrs r = {}" using T(3) by auto
  have n: "n \<in> addrs r" using word_comparator.node_at_mem [OF wc q] by force
  then have nn: "r \<noteq> Null" by auto
  have ck: "cmp_key_root t h p n = Some (- acmp t el k n)"
    using cmp_key_root_good rep_root_good [OF rp] rep_good [OF x(9) n] x(1) by blast
  have o: "avl r" "ordered (acmp t el) (inorder r)" using T(1) word_comparator.ordered_NdD(2) [OF wc T(2)] by auto
  obtain r' ch where i: "avl_remove_wrk (acmp t el) r (Some q) n = Some (r', ch)" "inorder r' = del_list (acmp t el) n (inorder r)"
    using word_comparator.remove_correct [OF wc o q] by (auto simp: word_comparator.removes_def [OF wc])
  have e: "if ch then avl_shrunk_right l k v b r' = Some res else res = (Nd l k v b r', False)"
    using res c nn i(1) by (auto simp: Let_def path_step_def split: if_splits)
  have "removal el h r (r', ch) (oset_remove_wrk t False h (nright x) n)"
    using IH i(1) q x(9) d(1) by (simp add: remove_refines_def)
  then obtain h1 sp where h1: "oset_remove_wrk t False h (nright x) n = Some (h1, sp, ch)" "rep el h1 sp r'" "agree_off (addrs r) h h1"
    "\<forall>a \<in> addrs r. good_node el h1 a" by (auto simp: removal_def)
  have k: "h1 k = Some x" using h1(3) d(2,3) x(4) by (auto simp: agree_off_def)
  have s: "addrs r' \<subseteq> addrs r" "dist r'" using del_list_addrs [OF i(2)] d(1) by auto
  then have ks: "k \<notin> addrs r'" using d(2,3) by blast
  let ?h = "h1(k \<mapsto> x\<lparr>nright := sp\<rparr>)"
  have "rep el ?h (nleft x) l" using rep_agree [OF h1(3) _ x(8)] d(2-4) by auto
  moreover have "rep el ?h sp r'" using h1(2) ks by simp
  ultimately have rp1: "rep el ?h k (Nd l k v b r')" using x by auto
  have dd: "dist (Nd l k v b r')" using s ks d(2-4) disjoint_mono [OF s(1), of "addrs l"] T(3) by (simp only: dist_Nd Int_commute simp_thms)
  have ag: "agree_off (addrs (Nd l k v b r)) h ?h" using h1(3) by (auto simp: agree_off_def)
  have gd: "\<forall>a \<in> addrs (Nd l k v b r). good_node el ?h a"
    by (rule good_upd_links [of h1 k x, OF k]) (simp_all add: agree_good [OF h1(3,4) rp] del: inorder.simps)
  have step: "oset_remove_wrk t False h p n = (if ch then oset_shrunk_right ?h k else Some (?h, k, False))"
    using ck c x(1,2,4) h1(1) k rep_nonzero [OF x(9)] nn by (subst oset_remove_wrk.simps) (simp add: upd_node_def)
  show ?thesis
  proof (cases ch)
    case True
    then have e: "avl_shrunk_right l k v b r' = Some (fst res, snd res)" using e by simp
    have ad: "addrs (fst res) = addrs (Nd l k v b r')" using shrunk_inorder(2) [OF e] by auto
    have sub: "addrs (Nd l k v b r') \<subseteq> addrs (Nd l k v b r)" using s(1) unfolding addrs_Nd by auto
    have "step_refines el ?h (addrs (Nd l k v b r')) (Some res) (oset_shrunk_right ?h k)" using shrunk_right_refines [OF rp1 dd] e by simp
    from removal_step [OF this ad sub ag gd] show ?thesis using step True by simp
  next
    case False
    then show ?thesis using e step rp1 ag gd by (simp add: removal_def)
  qed
qed

lemma removeroot_refines:
  assumes IH: "remove_refines t el l" "remove_refines t el r" and wc: "word_comparator (acmp t el)"
    and T: "avl (Nd l k v b r)" "ordered (acmp t el) (inorder (Nd l k v b r))" "dist (Nd l k v b r)"
    and rp: "rep el h p (Nd l k v b r)"
    and res: "avl_removeroot_wrk (acmp t el) (Nd l k v b r) = Some res"
  shows "removal el h (Nd l k v b r) res (oset_remove_wrk t True h p n)"
proof -
  let ?T = "Nd l k v b r"
  obtain x where x: "p = k" "k \<noteq> 0" "v = 0" "h k = Some x" "nbalance x = b" "nmagic x = OSET_MAGIC" "nelem x = el k"
    "rep el h (nleft x) l" "rep el h (nright x) r" using rp by auto
  have gd: "\<forall>a \<in> addrs ?T. good_node el h a" using rep_good [OF rp] by blast
  show ?thesis
  proof (cases "l = Null \<or> r = Null")
    case True
    then show ?thesis using res x gd rep_nonzero [OF x(8)] rep_nonzero [OF x(9)]
      by (subst oset_remove_wrk.simps) (auto simp: removal_def)
  next
    case False
    let ?q = "if b < 0 then False # rightmost l else True # leftmost r"
    obtain m where m: "(if b < 0 then oset_rightmost h (nleft x) else oset_leftmost h (nright x)) = Some m"
      "node_at ?T ?q = Some (m, 0)" "if b < 0 then node_at l (rightmost l) = Some (m, 0) else node_at r (leftmost r) = Some (m, 0)"
      using rightmost_ok [OF x(8)] leftmost_ok [OF x(9)] False by (cases "b < 0") auto
    obtain T1 ch where i: "avl_remove_wrk (acmp t el) ?T (Some ?q) m = Some (T1, ch)" "inorder T1 = del_list (acmp t el) m (inorder ?T)"
      using word_comparator.remove_correct [OF wc T(1,2) m(2)] by (auto simp: word_comparator.removes_def [OF wc])
    obtain l' k' v' b' r' where T1: "T1 = Nd l' k' v' b' r'" "res = (Nd l' m 0 b' r', if b' = 0 then ch else False)"
      using res False m(2) i(1) by (auto simp del: avl_remove_wrk.simps split: AvlNode.splits)
    have o: "\<forall>y \<in> set (inorder l). acmp t el (fst y) k < 0" "\<forall>y \<in> set (inorder r). acmp t el k (fst y) < 0"
      using word_comparator.ordered_NdD(3,4) [OF wc T(2)] by auto
    have "removal el h ?T (T1, ch) (oset_remove_wrk t False h p m)"
    proof (cases "b < 0")
      case True
      then have q: "node_at l (rightmost l) = Some (m, 0)" "?q = False # rightmost l" using m(3) by auto
      have "acmp t el m k < 0" using o(1) word_comparator.node_at_mem [OF wc q(1)] by force
      then have "acmp t el k m > 0" using comparator.cmp_antisym [of "acmp t el"] wc by (simp add: word_comparator_def)
      from removal_left [OF IH(1) wc T rp q(1) this] i(1) show ?thesis unfolding q(2) by blast
    next
      case False
      then have q: "node_at r (leftmost r) = Some (m, 0)" "?q = True # leftmost r" using m(3) by auto
      have "acmp t el k m < 0" using o(2) word_comparator.node_at_mem [OF wc q(1)] by force
      from removal_right [OF IH(2) wc T rp q(1) this] i(1) show ?thesis unfolding q(2) by blast
    qed
    then obtain h1 p1 where h1: "oset_remove_wrk t False h p m = Some (h1, p1, ch)" "rep el h1 p1 T1" "agree_off (addrs ?T) h h1"
      "\<forall>a \<in> addrs ?T. good_node el h1 a" by (auto simp: removal_def)
    from h1(2) obtain y where y: "p1 = k'" "k' \<noteq> 0" "h1 k' = Some y" "nbalance y = b'" "rep el h1 (nleft y) l'" "rep el h1 (nright y) r'"
      unfolding T1(1) by auto
    have mT: "m \<in> addrs ?T" using word_comparator.node_at_mem [OF wc m(2)] by force
    have "m \<notin> addrs T1" using comparator.cmp_refl [of "acmp t el" m] wc by (auto simp: i(2) del_list_def word_comparator_def)
    then have ml: "m \<notin> addrs l'" "m \<notin> addrs r'" by (auto simp: T1(1))
    obtain z where z: "m \<noteq> 0" "h1 m = Some z" "nmagic z = OSET_MAGIC" "nelem z = el m" using h1(4) mT by (auto simp: good_node_def)
    let ?h = "h1(m \<mapsto> z\<lparr>nleft := nleft y, nright := nright y, nbalance := b'\<rparr>)"
    have "rep el ?h m (Nd l' m 0 b' r')" using z y ml by auto
    moreover have "agree_off (addrs ?T) h ?h" by (rule agree_off_upd [OF h1(3) mT])
    moreover have "\<forall>a \<in> addrs ?T. good_node el ?h a" 
      by (rule good_upd_links [of h1 m z, OF z(2)]) (simp_all add: h1(4) del: inorder.simps)
    moreover have "oset_remove_wrk t True h p n = Some (?h, m, if b' = 0 then ch else False)"
      using x(1,2,4,5) m(1) h1(1) y z False rep_nonzero [OF x(8)] rep_nonzero [OF x(9)]
      by (subst oset_remove_wrk.simps) (simp add: upd_node_def)
    ultimately show ?thesis by (simp add: removal_def T1(2))
  qed
qed

lemma remove_refines_all:
  assumes wc: "word_comparator (acmp t el)"
  shows "avl T \<Longrightarrow> ordered (acmp t el) (inorder T) \<Longrightarrow> remove_refines t el T"
proof (induction T)
  case Null
  then show ?case by (simp add: remove_refines_def)
next
  case (Nd l k v b r)
  let ?T = "Nd l k v b r"
  have IH: "remove_refines t el l" "remove_refines t el r"
    using Nd word_comparator.ordered_NdD(1,2) [OF wc Nd.prems(2)] by auto
  show ?case
    unfolding remove_refines_def
  proof (intro allI impI)
    fix h p q n res
    assume a: "avl_remove_wrk (acmp t el) ?T (Some q) n = Some res" "node_at ?T q = Some (n, 0)" "rep el h p ?T" "dist ?T"
    have n: "good_node el h n" using rep_good [OF a(3)] word_comparator.node_at_mem [OF wc a(2)] by (metis fst_conv imageI)
    consider (left) q' where "q = False # q'" "acmp t el k n > 0" | (right) q' where "q = True # q'" "acmp t el k n < 0"
      | (root) "q = []" "acmp t el k n = 0" "avl_removeroot_wrk (acmp t el) ?T = Some res"
      using a(1) by (cases q) (auto simp: Let_def path_step_def remove_None split: if_splits)
    then show "removal el h ?T res (oset_remove_wrk t False h p n)"
    proof cases
      case left
      then have "node_at l q' = Some (n, 0)" using a(2) by simp
      from removal_left [OF IH(1) wc Nd.prems a(4,3) this left(2)] a(1) show ?thesis unfolding left(1) by blast
    next
      case right
      then have "node_at r q' = Some (n, 0)" using a(2) by simp
      from removal_right [OF IH(2) wc Nd.prems a(4,3) this right(2)] a(1) show ?thesis unfolding right(1) by blast
    next
      case root
      have nk: "n = k" "p = k" "k \<noteq> 0" using a(2,3) root(1) by auto
      obtain x where x: "h k = Some x" using a(3) by auto
      have "cmp_key_root t h p n = Some 0"
        using cmp_key_root_good [OF rep_root_good [OF a(3)] n, of t] root(2) nk by simp
      then have "oset_remove_wrk t False h p n = oset_remove_wrk t True h p n"
        using nk x by (subst oset_remove_wrk.simps) simp
      then show ?thesis using removeroot_refines [OF IH wc Nd.prems a(4,3) root(3)] by simp
    qed
  qed
qed

end
