(* ===== verification/OSet_Ops.thy ===== *)
theory OSet_Ops
  imports OSet_Remove
begin

text \<open>
  The operations of the ordered set as its clients see them. The state of a set is the list of its nodes with their
  elements, in the order of the keys (\<open>oset_repr\<close>); \<open>lawful\<close> says that the comparison of a key with an element is
  that of the key with the element's key in a total preorder \<open>kc\<close>.
\<close>

section \<open>The list a set stands for\<close>

definition lawful :: "('k, 'e) OSet \<Rightarrow> ('k \<Rightarrow> 'k \<Rightarrow> int) \<Rightarrow> bool" where
  "lawful t kc \<longleftrightarrow> comparator kc \<and> (\<forall>k e. kcmp t k e = kc k (key_at t e))"

definition opairs :: "(Addr \<Rightarrow> 'e) \<Rightarrow> AvlNode \<Rightarrow> (Addr \<times> 'e) list" where
  "opairs el T = map (\<lambda>(a, v). (a, el a)) (inorder T)"

definition oset_tree :: "('k, 'e) OSet \<Rightarrow> 'e nheap \<Rightarrow> (Addr \<Rightarrow> 'e) \<Rightarrow> AvlNode \<Rightarrow> bool" where
  "oset_tree t h el T \<longleftrightarrow> rep el h (os_root t) T \<and> dist T \<and> avl T \<and> ordered (acmp t el) (inorder T)
     \<and> (\<forall>a \<in> addrs T. a + sizeof_AvlNode \<noteq> 0)"

definition oset_repr :: "('k, 'e) OSet \<Rightarrow> 'e nheap \<Rightarrow> (Addr \<times> 'e) list \<Rightarrow> bool" where
  "oset_repr t h xs \<longleftrightarrow> (\<exists>el T. oset_tree t h el T \<and> xs = opairs el T) \<and> nElems t = of_nat (length xs)"

definition ins_pairs :: "('k \<Rightarrow> 'k \<Rightarrow> int) \<Rightarrow> ('e \<Rightarrow> 'k) \<Rightarrow> Addr \<times> 'e \<Rightarrow> (Addr \<times> 'e) list \<Rightarrow> (Addr \<times> 'e) list" where
  "ins_pairs kc key x xs = filter (\<lambda>y. kc (key (snd y)) (key (snd x)) < 0) xs @ x # filter (\<lambda>y. kc (key (snd y)) (key (snd x)) > 0) xs"

definition find_pair :: "('k \<Rightarrow> 'k \<Rightarrow> int) \<Rightarrow> ('e \<Rightarrow> 'k) \<Rightarrow> 'k \<Rightarrow> (Addr \<times> 'e) list \<Rightarrow> (Addr \<times> 'e) option" where
  "find_pair kc key k xs = List.find (\<lambda>y. kc k (key (snd y)) = 0) xs"

definition del_pairs :: "('k \<Rightarrow> 'k \<Rightarrow> int) \<Rightarrow> ('e \<Rightarrow> 'k) \<Rightarrow> 'k \<Rightarrow> (Addr \<times> 'e) list \<Rightarrow> (Addr \<times> 'e) list" where
  "del_pairs kc key k xs = filter (\<lambda>y. kc k (key (snd y)) \<noteq> 0) xs"

lemma acmp_kc: "lawful t kc \<Longrightarrow> acmp t el a b = - kc (key_at t (el b)) (key_at t (el a))"
  by (simp add: lawful_def acmp_def)

lemma kc_flip: "lawful t kc \<Longrightarrow> kc a b > 0 \<longleftrightarrow> kc b a < 0"
  using comparator.cmp_antisym by (fastforce simp: lawful_def)

lemma lawful_acmp:
  assumes "lawful t kc"
  shows "word_comparator (acmp t el)"
proof -
  have c: "comparator kc" using assms by (simp add: lawful_def)
  show ?thesis
  proof (unfold_locales, unfold acmp_kc [OF assms])
    fix a b c
    show "- kc (key_at t (el a)) (key_at t (el a)) = 0" using comparator.cmp_refl [OF c] by simp
    show "- kc (key_at t (el b)) (key_at t (el a)) < 0 \<longleftrightarrow> - kc (key_at t (el a)) (key_at t (el b)) > 0"
      using comparator.cmp_antisym [OF c] by simp
    show "- kc (key_at t (el b)) (key_at t (el a)) \<le> 0 \<Longrightarrow> - kc (key_at t (el c)) (key_at t (el b)) \<le> 0
        \<Longrightarrow> - kc (key_at t (el c)) (key_at t (el a)) \<le> 0"
      using comparator.cmp_le_ge [OF c] comparator.cmp_trans [OF c] by simp
  qed
qed


lemma opairs_simps [simp]:
  "opairs el Null = []" "opairs el (Nd l a v b r) = opairs el l @ (a, el a) # opairs el r"
  by (simp_all add: opairs_def)

lemma fst_opairs: "map fst (opairs el T) = map fst (inorder T)" "fst ` set (opairs el T) = addrs T"
  by (auto simp: opairs_def case_prod_beta image_image)

lemma length_opairs [simp]: "length (opairs el T) = length (inorder T)"
  by (simp add: opairs_def)

lemma opairs_cong: "\<forall>a \<in> addrs T. el' a = el a \<Longrightarrow> opairs el' T = opairs el T"
  by (auto simp: opairs_def)

lemma rep_el_cong: "\<forall>a \<in> addrs T. el' a = el a \<Longrightarrow> rep el' h p T = rep el h p T"
  by (induction T arbitrary: p) auto

lemma ordered_el_cong:
  assumes "\<forall>a \<in> addrs T. el' a = el a"
  shows "ordered (acmp t el') (inorder T) = ordered (acmp t el) (inorder T)"
proof -
  have "acmp t el' (fst x) (fst y) = acmp t el (fst x) (fst y)" if "x \<in> set (inorder T)" "y \<in> set (inorder T)" for x y
    using assms that by (auto simp: acmp_def)
  then show ?thesis unfolding ordered_def by (auto intro: sorted_wrt_mono_rel [rotated])
qed

lemma oset_tree_el:
  assumes "\<forall>a \<in> addrs T. el' a = el a"
  shows "oset_tree t h el' T = oset_tree t h el T"
  by (simp add: oset_tree_def rep_el_cong [OF assms] ordered_el_cong [OF assms])

lemma kcmp_update [simp]:
  "kcmp (t\<lparr>os_root := p\<rparr>) = kcmp t" "kcmp (t\<lparr>nElems := x\<rparr>) = kcmp t" "kcmp (t\<lparr>os_stack := s\<rparr>) = kcmp t"
  by (simp_all add: fun_eq_iff kcmp_def split: option.split)

lemma acmp_update [simp]:
  "acmp (t\<lparr>os_root := p\<rparr>) = acmp t" "acmp (t\<lparr>nElems := x\<rparr>) = acmp t" "acmp (t\<lparr>os_stack := s\<rparr>) = acmp t"
  by (simp_all add: fun_eq_iff acmp_def)

lemma oset_tree_update [simp]:
  "oset_tree (t\<lparr>nElems := x\<rparr>) h el T = oset_tree t h el T" "oset_tree (t\<lparr>os_stack := s\<rparr>) h el T = oset_tree t h el T"
  by (simp_all add: oset_tree_def)

lemma lawful_update [simp]:
  "lawful (t\<lparr>os_root := p\<rparr>) kc = lawful t kc" "lawful (t\<lparr>nElems := x\<rparr>) kc = lawful t kc" "lawful (t\<lparr>os_stack := s\<rparr>) kc = lawful t kc"
  by (simp_all add: lawful_def)

text \<open>The keys are strictly increasing.\<close>

lemma opairs_sorted:
  assumes "lawful t kc" "ordered (acmp t el) (inorder T)"
  shows "sorted_wrt (\<lambda>x y. kc (key_at t (snd x)) (key_at t (snd y)) < 0) (opairs el T)"
  using assms(2) by (simp add: opairs_def ordered_def sorted_wrt_map case_prod_beta acmp_kc [OF assms(1)] kc_flip [OF assms(1)])

section \<open>Lookup\<close>

lemma lookup_step:
  assumes "rep el h p (Nd l a v b r)" "h a = Some n"
  shows "oset_lookup t h k p = (if kcmp t k (el a) < 0 then oset_lookup t h k (nleft n)
    else if kcmp t k (el a) > 0 then oset_lookup t h k (nright n) else Some a)"
proof -
  have n: "p = a" "a \<noteq> 0" "nelem n = el a" using assms by auto
  show ?thesis
  proof (cases "os_cmp t")
    case None
    then show ?thesis using n assms(2)
      by (subst oset_lookup.simps) (auto simp: elem_of_node_no_check_def kcmp_def cmp_unsigned_Words_def Let_def)
  next
    case (Some f)
    then show ?thesis using n assms(2) slow_cmp_good [OF rep_root_good [OF assms(1)], of f k]
      by (subst oset_lookup.simps) (auto simp: kcmp_def Let_def)
  qed
qed

lemma find_pair_None: "\<forall>y \<in> set xs. kc k (key (snd y)) \<noteq> 0 \<Longrightarrow> find_pair kc key k xs = None"
  by (auto simp: find_pair_def find_None_iff)

lemma lookup_refines:
  assumes "lawful t kc" "rep el h p T" "ordered (acmp t el) (inorder T)"
  shows "oset_lookup t h k p = Some (case find_pair kc (key_at t) k (opairs el T) of None \<Rightarrow> 0 | Some (a, _) \<Rightarrow> a)"
  using assms(2,3)
proof (induction T arbitrary: p)
  case Null
  then show ?case by (subst oset_lookup.simps) (simp add: find_pair_def)
next
  case (Nd l a v b r)
  let ?key = "\<lambda>y. key_at t (snd y)"
  note lw = assms(1)
  have c: "comparator kc" using lw by (simp add: lawful_def)
  obtain n where n: "p = a" "a \<noteq> 0" "h a = Some n" "rep el h (nleft n) l" "rep el h (nright n) r" using Nd.prems(1) by auto
  have o: "ordered (acmp t el) (inorder l)" "ordered (acmp t el) (inorder r)"
    using word_comparator.ordered_NdD(1,2) [OF lawful_acmp [OF lw] Nd.prems(2)] by auto
  have s: "\<forall>y \<in> set (opairs el l). kc (?key y) (key_at t (el a)) < 0" "\<forall>y \<in> set (opairs el r). kc (key_at t (el a)) (?key y) < 0"
    using opairs_sorted [OF lw Nd.prems(2)] by (auto simp: sorted_wrt_append)
  have k: "kcmp t k (el a) = kc k (key_at t (el a))" using lw by (simp add: lawful_def)
  note st = lookup_step [OF Nd.prems(1) n(3), of t k, unfolded k]
  consider (lt) "kc k (key_at t (el a)) < 0" | (gt) "kc k (key_at t (el a)) > 0" | (eq) "kc k (key_at t (el a)) = 0" by linarith
  then show ?case
  proof cases
    case lt
    then have "kc k (?key y) < 0" if "y \<in> set (opairs el r)" for y
      using s(2) that comparator.cmp_less_trans [OF c] by blast
    then have "find_pair kc (key_at t) k (opairs el r) = None" by (intro find_pair_None) force
    then show ?thesis using Nd.IH(1) [OF n(4) o(1)] st lt by (simp add: find_pair_def find_append split: option.splits)
  next
    case gt
    then have "kc (?key y) k < 0" if "y \<in> set (opairs el l)" for y
      using s(1) that comparator.cmp_less_trans [OF c] comparator.cmp_antisym [OF c] by blast
    then have "find_pair kc (key_at t) k (opairs el l) = None"
      using comparator.cmp_antisym [OF c] by (intro find_pair_None) fastforce
    then show ?thesis using Nd.IH(2) [OF n(5) o(2)] st gt by (simp add: find_pair_def find_append)
  next
    case eq
    have "kc k (?key y) \<noteq> 0" if y: "y \<in> set (opairs el l)" for y
    proof
      assume "kc k (?key y) = 0"
      then have "kc (?key y) (key_at t (el a)) = 0"
        using eq comparator.cmp_zero_sym [OF c] comparator.cmp_zero_trans [OF c] by blast
      then show False using s(1) y by fastforce
    qed
    then have "find_pair kc (key_at t) k (opairs el l) = None" by (intro find_pair_None) blast
    then show ?thesis using st eq by (simp add: find_pair_def find_append)
  qed
qed


section \<open>Insertion and removal\<close>

lemma ins_list_split:
  assumes "comparator cmp" "ordered cmp xs" "look_list cmp k xs = None"
  shows "ins_list cmp k v xs = filter (\<lambda>x. cmp (fst x) k < 0) xs @ (k, v) # filter (\<lambda>x. cmp (fst x) k > 0) xs"
  using assms(2,3)
proof (induction xs)
  case Nil
  then show ?case by simp
next
  case (Cons x xs)
  obtain a w where x: "x = (a, w)" by fastforce
  have "cmp a k \<noteq> 0" "look_list cmp k xs = None" "ordered cmp xs" using Cons.prems x by (auto simp: look_list_def ordered_def split: if_splits)
  moreover have gt: "cmp (fst y) k > 0" if "cmp a k > 0" "y \<in> set xs" for y
  proof -
    have "cmp a (fst y) < 0" using Cons.prems(1) that(2) x by (auto simp: ordered_def)
    then have "cmp k (fst y) < 0" using that(1) comparator.cmp_less_trans [OF assms(1)] comparator.cmp_antisym [OF assms(1)] by blast
    then show ?thesis using comparator.cmp_antisym [OF assms(1)] by blast
  qed
  moreover have "filter (\<lambda>y. cmp (fst y) k < 0) xs = [] \<and> filter (\<lambda>y. cmp (fst y) k > 0) xs = xs" if "cmp a k > 0"
    using gt [OF that] by (force simp: filter_id_conv filter_empty_conv)
  ultimately show ?case using Cons.IH x by auto
qed

lemma length_ins_list: "look_list cmp k xs = None \<Longrightarrow> length (ins_list cmp k v xs) = Suc (length xs)"
  by (induction cmp k v xs rule: ins_list.induct) (auto simp: look_list_def)

lemma look_find:
  assumes "lawful t kc"
  shows "look_list (acmp t el) n (inorder T) = None \<longleftrightarrow> find_pair kc (key_at t) (key_at t (el n)) (opairs el T) = None"
  by (auto simp: look_list_def find_pair_def find_None_iff opairs_def acmp_kc [OF assms])

lemma ins_pairs_refines:
  assumes "lawful t kc" "ordered (acmp t el) (inorder T)" "look_list (acmp t el) n (inorder T) = None"
    and "inorder T' = ins_list (acmp t el) n 0 (inorder T)"
  shows "opairs el T' = ins_pairs kc (key_at t) (n, el n) (opairs el T)"
proof -
  have "comparator (acmp t el)" using lawful_acmp [OF assms(1)] by (simp add: word_comparator_def)
  from ins_list_split [OF this assms(2,3)] show ?thesis
    by (simp add: opairs_def assms(4) ins_pairs_def filter_map o_def case_prod_beta acmp_kc [OF assms(1)] kc_flip [OF assms(1)])
qed

text \<open>Insertion on the heap for a lone node, into an empty tree or another.\<close>

lemma insert_any:
  assumes lw: "lawful t kc" and T: "oset_tree t h el T" and n: "n \<notin> addrs T" "lone_node el h n" "n + sizeof_AvlNode \<noteq> 0"
    and new: "look_list (acmp t el) n (inorder T) = None"
  shows "\<exists>h' p T'. (if os_root t = 0 then Some (h, n) else do { (h, rt, _) \<leftarrow> oset_insert t h (os_root t) n; Some (h, rt) }) = Some (h', p)
    \<and> oset_tree (t\<lparr>os_root := p\<rparr>) h' el T' \<and> inorder T' = ins_list (acmp t el) n 0 (inorder T) \<and> agree_off (insert n (addrs T)) h h'"
proof -
  have t: "rep el h (os_root t) T" "dist T" "avl T" "ordered (acmp t el) (inorder T)" using T by (auto simp: oset_tree_def)
  have wc: "word_comparator (acmp t el)" by (rule lawful_acmp [OF lw])
  then have c: "comparator (acmp t el)" by (simp add: word_comparator_def)
  obtain T' g where i: "avl_insert_wrk (acmp t el) T n 0 = Some (T', None, g)" "avl T'" "inorder T' = ins_list (acmp t el) n 0 (inorder T)"
    using word_comparator.insert_correct [OF wc t(3,4), of n 0] new by auto
  have d: "dist T'" "addrs T' = insert n (addrs T)" using insert_addrs [OF i(1)] n(1) t(2) by auto
  have o: "ordered (acmp t el) (inorder T')" unfolding i(3) by (rule comparator.ordered_ins_list [OF c t(4)])
  obtain h' p where h': "(if os_root t = 0 then Some (h, n) else do { (h, rt, _) \<leftarrow> oset_insert t h (os_root t) n; Some (h, rt) }) = Some (h', p)"
    "rep el h' p T'" "agree_off (insert n (addrs T)) h h'"
  proof (cases "T = Null")
    case True
    then have "os_root t = 0" "T' = Nd Null n 0 0 Null" using t(1) i(1) by auto
    then show thesis using that [of h n] lone_rep [OF n(2)] by simp
  next
    case False
    then have "os_root t \<noteq> 0" using rep_nonzero [OF t(1)] by simp
    then show thesis using that insert_refines [OF i(1) t(1,2) False n(1,2)] by auto
  qed
  moreover have "\<forall>a \<in> addrs T'. a + sizeof_AvlNode \<noteq> 0" using T n(3) unfolding d(2) oset_tree_def by blast
  ultimately have "oset_tree (t\<lparr>os_root := p\<rparr>) h' el T'" using d(1) i(2) o by (simp add: oset_tree_def)
  then show ?thesis using h' i(3) by blast
qed

lemma OSetGen_Insert_ok:
  assumes lw: "lawful t kc" and r: "oset_repr t (nodes m) xs"
    and n: "n \<noteq> 0" "n + sizeof_AvlNode \<noteq> 0" "nodes m n = Some nd" "nmagic nd = OSET_MAGIC" "n \<notin> fst ` set xs"
  shows "if find_pair kc (key_at t) (key_at t (nelem nd)) xs = None
    then \<exists>h' p. OSetGen_Insert t (n + sizeof_AvlNode) m
        = Some (m\<lparr>nodes := h'\<rparr>, t\<lparr>os_root := p, nElems := nElems t + 1, os_stack := []\<rparr>)
      \<and> oset_repr (t\<lparr>os_root := p, nElems := nElems t + 1, os_stack := []\<rparr>) h' (ins_pairs kc (key_at t) (n, nelem nd) xs)
      \<and> agree_off (insert n (fst ` set xs)) (nodes m) h'
    else OSetGen_Insert t (n + sizeof_AvlNode) m = None"
proof -
  obtain el0 T where T0: "oset_tree t (nodes m) el0 T" "xs = opairs el0 T" "nElems t = of_nat (length xs)"
    using r by (auto simp: oset_repr_def)
  define el where "el = el0(n := nelem nd)"
  define h1 where "h1 = (nodes m)(n \<mapsto> new_node (nelem nd))"
  have nT: "n \<notin> addrs T" using n(5) T0(2) fst_opairs(2) by metis
  have el: "\<forall>a \<in> addrs T. el a = el0 a" using nT by (auto simp: el_def)
  have xs: "xs = opairs el T" using T0(2) opairs_cong [OF el] by simp
  have "oset_tree t (nodes m) el T" using T0(1) oset_tree_el [OF el] by blast
  then have T: "oset_tree t h1 el T" using nT by (simp add: oset_tree_def h1_def)
  have lone: "lone_node el h1 n" using n(1) by (simp add: lone_node_def h1_def el_def)
  have nd: "nd\<lparr>nleft := 0, nright := 0, nbalance := 0\<rparr> = new_node (nelem nd)" using n(4) by (cases nd) (simp add: new_node_def)
  have st: "OSetGen_Insert t (n + sizeof_AvlNode) m = do {
      (h, rt) \<leftarrow> (if os_root t = 0 then Some (h1, n) else do { (h, rt, _) \<leftarrow> oset_insert t h1 (os_root t) n; Some (h, rt) });
      Some (m\<lparr>nodes := h\<rparr>, t\<lparr>os_root := rt, nElems := nElems t + 1, os_stack := []\<rparr>) }"
    using n(1,3,4) nd by (simp add: OSetGen_Insert_def node_of_elem_def upd_node_def h1_def)
  have lf: "look_list (acmp t el) n (inorder T) = None \<longleftrightarrow> find_pair kc (key_at t) (key_at t (nelem nd)) xs = None"
    using look_find [OF lw, of el n T] xs by (simp add: el_def)
  show ?thesis
  proof (cases "find_pair kc (key_at t) (key_at t (nelem nd)) xs = None")
    case True
    then have new: "look_list (acmp t el) n (inorder T) = None" using lf by simp
    from insert_any [OF lw T nT lone n(2) new] obtain h' p T' where i:
      "(if os_root t = 0 then Some (h1, n) else do { (h, rt, _) \<leftarrow> oset_insert t h1 (os_root t) n; Some (h, rt) }) = Some (h', p)"
      "oset_tree (t\<lparr>os_root := p\<rparr>) h' el T'" "inorder T' = ins_list (acmp t el) n 0 (inorder T)" "agree_off (insert n (addrs T)) h1 h'" by blast
    have op: "opairs el T' = ins_pairs kc (key_at t) (n, nelem nd) xs"
      using ins_pairs_refines [OF lw _ new i(3)] T xs by (simp add: oset_tree_def el_def)
    have len: "length (ins_pairs kc (key_at t) (n, nelem nd) xs) = Suc (length xs)"
      using length_ins_list [OF new, of 0] arg_cong [OF op, of length] by (simp add: i(3) xs)
    have "agree_off (insert n (fst ` set xs)) (nodes m) h'" using i(4) xs fst_opairs(2) [of el T] by (auto simp: agree_off_def h1_def)
    moreover have "oset_repr (t\<lparr>os_root := p, nElems := nElems t + 1, os_stack := []\<rparr>) h' (ins_pairs kc (key_at t) (n, nelem nd) xs)"
      unfolding oset_repr_def
    proof (intro conjI exI)
      show "oset_tree (t\<lparr>os_root := p, nElems := nElems t + 1, os_stack := []\<rparr>) h' el T'" using i(2) by simp
      show "ins_pairs kc (key_at t) (n, nelem nd) xs = opairs el T'" using op by simp
    qed (use len T0(3) in simp)
    ultimately show ?thesis using True unfolding st i(1) by (auto intro!: exI [of _ h'] exI [of _ p])
  next
    case False
    then obtain w where w: "look_list (acmp t el) n (inorder T) = Some w" using lf by auto
    then have nn: "T \<noteq> Null" by (auto simp: look_list_def)
    have o: "rep el h1 (os_root t) T" "avl T" "ordered (acmp t el) (inorder T)" using T by (auto simp: oset_tree_def)
    obtain T' g where "avl_insert_wrk (acmp t el) T n 0 = Some (T', Some (snd w), g)"
      using word_comparator.insert_correct [OF lawful_acmp [OF lw] o(2,3), of n 0] w by auto
    from insert_dup_refines [OF this o(1) lone] have "oset_insert t h1 (os_root t) n = None" .
    moreover have "os_root t \<noteq> 0" using rep_nonzero [OF o(1)] nn by simp
    ultimately show ?thesis using False st by simp
  qed
qed


definition elem_ptr :: "(Addr \<times> 'e) option \<Rightarrow> Addr" where
  "elem_ptr x = (case x of None \<Rightarrow> 0 | Some (a, _) \<Rightarrow> a + sizeof_AvlNode)"

lemma oset_repr_addr:
  assumes "oset_repr t h xs" "(a, e) \<in> set xs"
  shows "a \<noteq> 0" "a + sizeof_AvlNode \<noteq> 0" "\<exists>n. h a = Some n \<and> nmagic n = OSET_MAGIC \<and> nelem n = e"
proof -
  obtain el T where T: "oset_tree t h el T" "xs = opairs el T" using assms(1) by (auto simp: oset_repr_def)
  have a: "a \<in> addrs T" "e = el a" using assms(2) unfolding T(2) by (force simp: opairs_def)+
  then have "good_node el h a" using rep_good T(1) unfolding oset_tree_def by blast
  then show "a \<noteq> 0" "\<exists>n. h a = Some n \<and> nmagic n = OSET_MAGIC \<and> nelem n = e" using a(2) by (auto simp: good_node_def)
  show "a + sizeof_AvlNode \<noteq> 0" using T(1) a(1) unfolding oset_tree_def by blast
qed

lemma oset_lookup_repr:
  assumes "lawful t kc" "oset_repr t h xs"
  shows "oset_lookup t h k (os_root t) = Some (case find_pair kc (key_at t) k xs of None \<Rightarrow> 0 | Some (a, _) \<Rightarrow> a)"
  using assms(2) lookup_refines [OF assms(1)] by (auto simp: oset_repr_def oset_tree_def)

lemma OSetGen_Lookup_ok:
  assumes "lawful t kc" "oset_repr t (nodes m) xs"
  shows "OSetGen_Lookup t k m = Some (elem_ptr (find_pair kc (key_at t) k xs))"
proof (cases "find_pair kc (key_at t) k xs")
  case None
  then show ?thesis using oset_lookup_repr [OF assms, of k] by (simp add: OSetGen_Lookup_def elem_ptr_def)
next
  case (Some x)
  obtain a e where x: "x = (a, e)" by fastforce
  have "(a, e) \<in> set xs" using Some x by (auto simp: find_pair_def dest: find_SomeD)
  from oset_repr_addr [OF assms(2) this] show ?thesis
    using oset_lookup_repr [OF assms, of k] Some x by (auto simp: OSetGen_Lookup_def elem_ptr_def elem_of_node_def)
qed

lemma del_pairs_refines:
  assumes "lawful t kc" "find_pair kc (key_at t) k (opairs el T) = Some (n, el n)" "inorder T' = del_list (acmp t el) n (inorder T)"
  shows "opairs el T' = del_pairs kc (key_at t) k (opairs el T)"
proof -
  have c: "comparator kc" using assms(1) by (simp add: lawful_def)
  have "kc k (key_at t (el n)) = 0" using find_SomeD [OF assms(2) [unfolded find_pair_def]] by simp
  then have "acmp t el a n \<noteq> 0 \<longleftrightarrow> kc k (key_at t (el a)) \<noteq> 0" for a
    using comparator.cmp_zero_trans [OF c] comparator.cmp_zero_sym [OF c] unfolding acmp_kc [OF assms(1)] by (metis neg_0_equal_iff_equal)
  then show ?thesis by (simp add: opairs_def assms(3) del_list_def del_pairs_def filter_map o_def case_prod_beta)
qed

lemma node_at_exists: "(a, v) \<in> set (inorder T) \<Longrightarrow> \<exists>q w. node_at T q = Some (a, w) \<and> (a, w) \<in> set (inorder T)"
proof (induction T)
  case (Nd l k v' b r)
  then consider "a = k" | "(a, v) \<in> set (inorder l)" | "(a, v) \<in> set (inorder r)" by auto
  then show ?case
  proof cases
    case 1
    then show ?thesis by (auto intro!: exI [of _ "[]"])
  next
    case 2
    with Nd.IH(1) obtain q w where "node_at l q = Some (a, w)" "(a, w) \<in> set (inorder l)" by blast
    then show ?thesis by (auto intro!: exI [of _ "False # q"])
  next
    case 3
    with Nd.IH(2) obtain q w where "node_at r q = Some (a, w)" "(a, w) \<in> set (inorder r)" by blast
    then show ?thesis by (auto intro!: exI [of _ "True # q"])
  qed
qed simp

lemma length_del_list:
  assumes "comparator cmp"
  shows "ordered cmp xs \<Longrightarrow> (n, v) \<in> set xs \<Longrightarrow> Suc (length (del_list cmp n xs)) = length xs"
proof (induction xs)
  case (Cons x xs)
  have less: "cmp (fst x) (fst y) < 0" if "y \<in> set xs" for y using Cons.prems(1) that by (auto simp: ordered_def)
  show ?case
  proof (cases "x = (n, v)")
    case True
    then have "del_list cmp n xs = xs"
      using less comparator.cmp_antisym [OF assms] by (fastforce simp: del_list_def filter_id_conv)
    then show ?thesis using True comparator.cmp_refl [OF assms] by (simp add: del_list_def)
  next
    case False
    then have "(n, v) \<in> set xs" using Cons.prems(2) by auto
    then show ?thesis using Cons.IH Cons.prems(1) less [of "(n, v)"] by (auto simp: del_list_def ordered_def)
  qed
qed simp

lemma OSetGen_Remove_found:
  assumes lw: "lawful t kc" and r: "oset_repr t (nodes m) xs" and f: "find_pair kc (key_at t) k xs = Some (n, e)"
  shows "\<exists>h' p. OSetGen_Remove t k m
      = Some (m\<lparr>nodes := h'\<rparr>, t\<lparr>os_root := p, nElems := nElems t - 1, os_stack := []\<rparr>, n + sizeof_AvlNode)
    \<and> oset_repr (t\<lparr>os_root := p, nElems := nElems t - 1, os_stack := []\<rparr>) h' (del_pairs kc (key_at t) k xs)
    \<and> agree_off (fst ` set xs) (nodes m) h' \<and> (\<exists>nd. h' n = Some nd \<and> nmagic nd = OSET_MAGIC \<and> nelem nd = e)
    \<and> Suc (length (del_pairs kc (key_at t) k xs)) = length xs"
proof -
  obtain el T where T: "oset_tree t (nodes m) el T" "xs = opairs el T" "nElems t = of_nat (length xs)" using r by (auto simp: oset_repr_def)
  have t: "rep el (nodes m) (os_root t) T" "dist T" "avl T" "ordered (acmp t el) (inorder T)" using T(1) by (auto simp: oset_tree_def)
  have wc: "word_comparator (acmp t el)" by (rule lawful_acmp [OF lw])
  then have c: "comparator (acmp t el)" by (simp add: word_comparator_def)
  have ne: "(n, e) \<in> set xs" using f by (auto simp: find_pair_def dest: find_SomeD)
  then have e: "e = el n" "n \<in> addrs T" unfolding T(2) by (force simp: opairs_def)+
  then obtain v where v: "(n, v) \<in> set (inorder T)" by auto
  from node_at_exists [OF this] obtain q where q: "node_at T q = Some (n, 0)" using rep_inorder_0 [OF t(1)] by blast
  obtain T' s where i: "avl_remove_wrk (acmp t el) T (Some q) n = Some (T', s)" "avl T'" "inorder T' = del_list (acmp t el) n (inorder T)"
    using word_comparator.remove_correct [OF wc t(3,4) q] by (auto simp: word_comparator.removes_def [OF wc])
  have "removal el (nodes m) T (T', s) (oset_remove_wrk t False (nodes m) (os_root t) n)"
    using remove_refines_all [OF wc t(3,4)] i(1) q t(1,2) unfolding remove_refines_def by blast
  then obtain h' p where h': "oset_remove_wrk t False (nodes m) (os_root t) n = Some (h', p, s)" "rep el h' p T'" "agree_off (addrs T) (nodes m) h'"
    "\<forall>a \<in> addrs T. good_node el h' a"
    by (auto simp: removal_def)
  have g: "good_node el h' n" using h'(4) e(2) by blast
  have op: "opairs el T' = del_pairs kc (key_at t) k xs" using del_pairs_refines [OF lw _ i(3)] f e(1) T(2) by blast
  have da: "addrs T' \<subseteq> addrs T" "dist T'" using del_list_addrs [OF i(3)] t(2) by auto
  have "\<forall>a \<in> addrs T'. a + sizeof_AvlNode \<noteq> 0" using T(1) da(1) unfolding oset_tree_def by blast
  then have "oset_tree (t\<lparr>os_root := p\<rparr>) h' el T'"
    using h'(2) da(2) i(2,3) comparator.ordered_del_list [OF c t(4), of n] by (simp add: oset_tree_def)
  moreover have len: "Suc (length (del_pairs kc (key_at t) k xs)) = length xs"
    using length_del_list [OF c t(4) v] arg_cong [OF op, of length] by (simp add: T(2) i(3))
  moreover have "nElems t - 1 = of_nat (length (del_pairs kc (key_at t) k xs))" using T(3) len by (metis add_diff_cancel_left' of_nat_Suc)
  ultimately have "oset_repr (t\<lparr>os_root := p, nElems := nElems t - 1, os_stack := []\<rparr>) h' (del_pairs kc (key_at t) k xs)"
    unfolding oset_repr_def using op by (intro conjI exI [of _ el] exI [of _ T']) auto
  moreover have "OSetGen_Remove t k m
      = Some (m\<lparr>nodes := h'\<rparr>, t\<lparr>os_root := p, nElems := nElems t - 1, os_stack := []\<rparr>, n + sizeof_AvlNode)"
    using oset_lookup_repr [OF lw r, of k] f h'(1) elem_of_node_good [OF g] oset_repr_addr(1) [OF r ne]
    by (simp add: OSetGen_Remove_def oset_remove_def)
  moreover have "agree_off (fst ` set xs) (nodes m) h'" using h'(3) fst_opairs(2) [of el T] T(2) by simp
  ultimately show ?thesis using g e(1) len by (auto simp: good_node_def)
qed

lemma OSetGen_Remove_absent:
  "lawful t kc \<Longrightarrow> oset_repr t (nodes m) xs \<Longrightarrow> find_pair kc (key_at t) k xs = None \<Longrightarrow> OSetGen_Remove t k m = Some (m, t, 0)"
  using oset_lookup_repr [of t kc "nodes m" xs k] by (simp add: OSetGen_Remove_def)

end
