(* ===== verification/OSet_Iter.thy ===== *)
theory OSet_Iter
  imports OSet_Ops
begin

text \<open>
  The iterator of the ordered set and its destruction, both with the stack of 32 entries. The iterator refines that
  of the word map's tree: their stacks hold the same nodes. Destruction frees every node exactly once, children
  before their parent, and needs of the allocator only what the locale \<open>node_store\<close> states; the plain
  allocator and the pool are its two instances.
\<close>

section \<open>The iterator\<close>

definition stk_rel :: "(Addr \<Rightarrow> 'e) \<Rightarrow> 'e nheap \<Rightarrow> (Addr \<times> int) list \<Rightarrow> (AvlNode \<times> int) list \<Rightarrow> bool" where
  "stk_rel el h = list_all2 (\<lambda>x y. rep el h (fst x) (fst y) \<and> snd x = snd y)"

lemma stk_rel_simps [simp]:
  "stk_rel el h [] ts \<longleftrightarrow> ts = []" "stk_rel el h hs [] \<longleftrightarrow> hs = []"
  "stk_rel el h ((p, i) # hs) ((T, j) # ts) \<longleftrightarrow> rep el h p T \<and> i = j \<and> stk_rel el h hs ts"
  by (auto simp: stk_rel_def)

lemma stk_rel_ConsE:
  assumes "stk_rel el h hs ((T, i) # ts)"
  obtains p hs' where "hs = (p, i) # hs'" "rep el h p T" "stk_rel el h hs' ts"
  using assms by (auto simp: stk_rel_def list_all2_Cons2)

lemma stk_rel_length: "stk_rel el h hs ts \<Longrightarrow> length hs = length ts"
  by (simp add: stk_rel_def list_all2_lengthD)

lemma push_refines:
  assumes "stk_rel el h hs ts" "rep el h p T" "stackPush ts T i = Some ts'"
  shows "oset_stackPush hs p i = Some ((p, i) # hs) \<and> ts' = (T, i) # ts"
  using assms(3) stk_rel_length [OF assms(1)]
  by (auto simp: stackPush_def oset_stackPush_def STACK_MAX_def WFM_STKMAX_def opt_simps split: if_splits)

lemma case_1_refines:
  "rep el h p T \<Longrightarrow> stk_rel el h hs ts \<Longrightarrow> iter_case_1 T ts = Some ts'
    \<Longrightarrow> \<exists>hs'. oset_case_1 h p hs = Some hs' \<and> stk_rel el h hs' ts'"
proof (induction T arbitrary: p hs ts)
  case Null
  then show ?case by simp
next
  case (Nd l k v b r)
  obtain x where x: "p = k" "k \<noteq> 0" "h k = Some x" "rep el h (nleft x) l" using Nd.prems(1) by auto
  obtain s where s: "stackPush ts (Nd l k v b r) 2 = Some s" using Nd.prems(3) by (auto elim: bind_SomeE)
  note pr = push_refines [OF Nd.prems(2,1) s]
  have rel: "stk_rel el h ((p, 2) # hs) s" using pr Nd.prems(1,2) by simp
  show ?case
  proof (cases "l = Null")
    case True
    then show ?thesis using pr rel x s Nd.prems(3) by (subst oset_case_1.simps) auto
  next
    case False
    then have "iter_case_1 l s = Some ts'" using Nd.prems(3) s by simp
    from Nd.IH(1) [OF x(4) rel this] show ?thesis
      using pr x rep_nonzero [OF x(4)] False by (subst oset_case_1.simps) auto
  qed
qed

lemma pop_refines:
  assumes "stk_rel el h hs ts" "stackPop ts = Some (tp, ts1)"
  shows "(ts = [] \<and> tp = None \<and> ts1 = [] \<and> oset_stackPop hs = Some (None, []))
    \<or> (\<exists>T i p hs1. ts = (T, i) # ts1 \<and> tp = Some (T, i) \<and> hs = (p, i) # hs1 \<and> 1 \<le> i \<and> i \<le> 3
        \<and> oset_stackPop hs = Some (Some (p, i), hs1) \<and> rep el h p T \<and> stk_rel el h hs1 ts1)"
proof (cases ts)
  case Nil
  then show ?thesis using assms by (auto simp: stackPop_def oset_stackPop_def opt_simps split: if_splits)
next
  case (Cons e ts')
  obtain T i where e: "e = (T, i)" by fastforce
  obtain p hs' where hs: "hs = (p, i) # hs'" "rep el h p T" "stk_rel el h hs' ts'"
    by (rule stk_rel_ConsE [OF assms(1) [unfolded Cons e]])
  then show ?thesis using assms(2) Cons e stk_rel_length [OF hs(3)]
    by (auto simp: stackPop_def oset_stackPop_def opt_simps STACK_MAX_def WFM_STKMAX_def split: if_splits)
qed

definition iter_ptr :: "(Addr \<times> UWord) option \<Rightarrow> Addr" where
  "iter_ptr x = (case x of None \<Rightarrow> 0 | Some (a, _) \<Rightarrow> a + sizeof_AvlNode)"

lemma next_refines:
  "stk_rel el h hs ts \<Longrightarrow> nextIter_loop ts = Some (ts', r)
    \<Longrightarrow> \<exists>hs'. oset_next_loop h hs = Some (hs', iter_ptr r) \<and> stk_rel el h hs' ts'"
proof (induction ts arbitrary: hs rule: nextIter_loop.induct)
  case (1 ts)
  obtain tp ts1 where pop: "stackPop ts = Some (tp, ts1)"
    using "1.prems"(2) by (subst (asm) nextIter_loop.simps) (auto elim: bind_SomeE)
  note nx = "1.prems"(2) [unfolded nextIter_loop.simps [of ts] pop bind.simps prod.case]
  consider (empty) "ts = []" "tp = None" "ts1 = []" "oset_stackPop hs = Some (None, [])"
    | (entry) T i p hs1 where "tp = Some (T, i)" "1 \<le> i" "i \<le> 3" "oset_stackPop hs = Some (Some (p, i), hs1)" "rep el h p T" "stk_rel el h hs1 ts1"
    using pop_refines [OF "1.prems"(1) pop] by blast
  then show ?case
  proof cases
    case empty
    then show ?thesis using nx by (subst oset_next_loop.simps) (auto simp: iter_ptr_def)
  next
    case entry
    obtain l k v b r' where T: "T = Nd l k v b r'" using nx entry(1) by (cases T) auto
    obtain x where x: "p = k" "k \<noteq> 0" "h k = Some x" "rep el h (nleft x) l" "rep el h (nright x) r'" using entry(5) T by auto
    have i: "i = 1 \<or> i = 2 \<or> i = 3" using entry(2,3) by auto
    then show ?thesis
    proof (elim disjE)
      assume i1: "i = 1"
      obtain s where s: "iter_case_1 T ts1 = Some s" "nextIter_loop s = Some (ts', r)"
        using nx entry(1) T i1 by (auto simp del: iter_case_1.simps elim!: bind_SomeE)
      obtain hs2 where h2: "oset_case_1 h p hs1 = Some hs2" "stk_rel el h hs2 s" using case_1_refines [OF entry(5,6) s(1)] by blast
      from "1.IH"(1) [OF pop refl entry(1) refl T i1 _ h2(2)] s T obtain hs3 where
        "oset_next_loop h hs2 = Some (hs3, iter_ptr r)" "stk_rel el h hs3 ts'" by blast
      then show ?thesis using entry(4) i1 h2(1) by (subst oset_next_loop.simps) auto
    next
      assume i2: "i = 2"
      obtain s where s: "stackPush ts1 T 3 = Some s" "ts' = s" "r = Some (k, v)"
        using nx entry(1) T i2 by (auto elim: bind_SomeE)
      note pr = push_refines [OF entry(6,5) s(1)]
      have "elem_of_node h p = Some (p + sizeof_AvlNode)" using elem_of_node_good rep_root_good entry(5) T by blast
      then show ?thesis using entry i2 pr s x(1) by (subst oset_next_loop.simps) (auto simp: iter_ptr_def)
    next
      assume i3: "i = 3"
      show ?thesis
      proof (cases "r' = Null")
        case True
        then have n: "nextIter_loop ts1 = Some (ts', r)" using nx entry(1) T i3 by simp
        from "1.IH"(3) [OF pop refl entry(1) refl T _ _ i3 _ entry(6) n] True i3 obtain hs3 where
          "oset_next_loop h hs1 = Some (hs3, iter_ptr r)" "stk_rel el h hs3 ts'" by auto
        then show ?thesis using entry(4) i3 x rep_nonzero [OF x(5)] True by (subst oset_next_loop.simps) auto
      next
        case False
        obtain s where s: "iter_case_1 r' ts1 = Some s" "nextIter_loop s = Some (ts', r)"
          using nx entry(1) T i3 False by (auto simp del: iter_case_1.simps elim!: bind_SomeE)
        obtain hs2 where h2: "oset_case_1 h (nright x) hs1 = Some hs2" "stk_rel el h hs2 s" using case_1_refines [OF x(5) entry(6) s(1)] by blast
        from "1.IH"(2) [OF pop refl entry(1) refl T _ _ i3 False s(1) h2(2) s(2)] i3 obtain hs3 where
          "oset_next_loop h hs2 = Some (hs3, iter_ptr r)" "stk_rel el h hs3 ts'" by auto
        then show ?thesis using entry(4) i3 h2(1) x rep_nonzero [OF x(5)] False by (subst oset_next_loop.simps) auto
      qed
    qed
  qed
qed


text \<open>A client's loop over \<open>OSetGen_Next\<close> with at most \<open>n\<close> rounds: the elements it is given, in order. Running out
  of rounds is \<open>None\<close>.\<close>

fun oset_iterate :: "nat \<Rightarrow> ('k, 'e) OSet \<Rightarrow> 'e omem \<Rightarrow> (('k, 'e) OSet \<times> Addr list) option" where
  "oset_iterate 0 t m = None"
| "oset_iterate (Suc n) t m =
     do { (t, e) \<leftarrow> OSetGen_Next t m;
          if e = 0 then Some (t, []) else do { (t, es) \<leftarrow> oset_iterate n t m; Some (t, e # es) } }"

lemma iterate_stack:
  assumes "\<forall>x \<in> set (stk_list ts). fst x + sizeof_AvlNode \<noteq> 0"
  shows "stk_rel el (nodes m) (os_stack t) ts \<Longrightarrow> stk_ok ts \<Longrightarrow> length (stk_list ts) < n \<Longrightarrow>
    \<exists>s. oset_iterate n t m = Some (t\<lparr>os_stack := s\<rparr>, map (\<lambda>x. fst x + sizeof_AvlNode) (stk_list ts))"
  using assms
proof (induction n arbitrary: t ts)
  case 0
  then show ?case by simp
next
  case (Suc n)
  obtain ts' where n: "nextIter_loop ts = Some (ts', case stk_list ts of [] \<Rightarrow> None | x # _ \<Rightarrow> Some x)" "stk_ok ts'"
    "stk_list ts' = tl (stk_list ts)" using nextIter_correct [OF Suc.prems(2)] by blast
  obtain hs' where h: "oset_next_loop (nodes m) (os_stack t) = Some (hs', iter_ptr (case stk_list ts of [] \<Rightarrow> None | x # _ \<Rightarrow> Some x))"
    "stk_rel el (nodes m) hs' ts'" using next_refines [OF Suc.prems(1) n(1)] by blast
  show ?case
  proof (cases "stk_list ts")
    case Nil
    then show ?thesis using h by (auto simp: OSetGen_Next_def iter_ptr_def)
  next
    case (Cons x xs)
    have "stk_rel el (nodes m) (os_stack (t\<lparr>os_stack := hs'\<rparr>)) ts'" using h(2) by simp
    moreover have "length (stk_list ts') < n" "\<forall>x \<in> set (stk_list ts'). fst x + sizeof_AvlNode \<noteq> 0"
      using Suc.prems(3,4) Cons n(3) by auto
    ultimately obtain s where "oset_iterate n (t\<lparr>os_stack := hs'\<rparr>) m
        = Some (t\<lparr>os_stack := s\<rparr>, map (\<lambda>x. fst x + sizeof_AvlNode) (stk_list ts'))"
      using Suc.IH [of "t\<lparr>os_stack := hs'\<rparr>" ts'] n(2) by auto
    then show ?thesis using h(1) Cons n(3) Suc.prems(4) by (auto simp: OSetGen_Next_def iter_ptr_def split: prod.splits)
  qed
qed

definition ptrs :: "(Addr \<times> 'e) list \<Rightarrow> Addr list" where
  "ptrs xs = map (\<lambda>x. fst x + sizeof_AvlNode) xs"

lemma ptrs_opairs: "ptrs (opairs el T) = map (\<lambda>x. fst x + sizeof_AvlNode) (inorder T)"
  by (simp add: ptrs_def opairs_def case_prod_beta)

lemma repr_tree:
  assumes "oset_repr t h xs" "length xs < 9227464"
  obtains el T where "oset_tree t h el T" "xs = opairs el T" "height T \<le> WFM_STKMAX"
  using assms height_stkmax by (fastforce simp: oset_repr_def oset_tree_def)

lemma iterate_repr:
  assumes "oset_repr t (nodes m) xs" "length xs < 9227464"
  shows "\<exists>t1 s. OSetGen_ResetIter t = Some t1 \<and> oset_iterate (Suc (length xs)) t1 m = Some (t\<lparr>os_stack := s\<rparr>, ptrs xs)"
proof -
  obtain el T where T: "oset_tree t (nodes m) el T" "xs = opairs el T" "height T \<le> WFM_STKMAX" by (rule repr_tree [OF assms])
  have t: "rep el (nodes m) (os_root t) T" "\<forall>a \<in> addrs T. a + sizeof_AvlNode \<noteq> 0" using T(1) by (auto simp: oset_tree_def)
  let ?ts = "if T = Null then [] else [(T, 1)]" and ?hs = "if T = Null then [] else [(os_root t, 1)]"
  have r: "OSetGen_ResetIter t = Some (t\<lparr>os_stack := ?hs\<rparr>)"
    using rep_nonzero [OF t(1)] by (auto simp: OSetGen_ResetIter_def oset_stackClear_def oset_stackPush_def opt_simps STACK_MAX_def)
  have l: "stk_list ?ts = inorder T" by (cases T) auto
  have ok: "stk_ok ?ts" using T(3) by simp
  have rel: "stk_rel el (nodes m) (os_stack (t\<lparr>os_stack := ?hs\<rparr>)) ?ts" using t(1) by simp
  have a: "\<forall>x \<in> set (stk_list ?ts). fst x + sizeof_AvlNode \<noteq> 0" using t(2) unfolding l by auto
  have "length (stk_list ?ts) < Suc (length xs)" using T(2) unfolding l by simp
  from iterate_stack [OF a rel ok this] show ?thesis using r l T(2) ptrs_opairs [of el T] by auto
qed

lemma resetAt_refines:
  assumes "lawful t kc"
  shows "rep el h p T \<Longrightarrow> ordered (acmp t el) (inorder T) \<Longrightarrow> stk_rel el h hs ts \<Longrightarrow> stk_ok ts
    \<Longrightarrow> length ts + height T \<le> WFM_STKMAX \<Longrightarrow>
    \<exists>hs' ts'. oset_resetAt_loop t h k p hs = Some hs' \<and> stk_rel el h hs' ts' \<and> stk_ok ts'
      \<and> stk_list ts' = filter (\<lambda>x. kc k (key_at t (el (fst x))) \<le> 0) (inorder T) @ stk_list ts"
proof (induction T arbitrary: p hs ts)
  case Null
  then show ?case by (subst oset_resetAt_loop.simps) auto
next
  case (Nd l a v b r)
  let ?key = "\<lambda>x. key_at t (el (fst x))" and ?ka = "key_at t (el a)"
  note lw = assms(1)
  have c: "comparator kc" using lw by (simp add: lawful_def)
  obtain x where x: "p = a" "a \<noteq> 0" "h a = Some x" "rep el h (nleft x) l" "rep el h (nright x) r" using Nd.prems(1) by auto
  have o: "ordered (acmp t el) (inorder l)" "ordered (acmp t el) (inorder r)"
    using word_comparator.ordered_NdD(1,2) [OF lawful_acmp [OF lw] Nd.prems(2)] by auto
  have s: "\<forall>y \<in> set (inorder l). kc (?key y) ?ka < 0" "\<forall>y \<in> set (inorder r). kc ?ka (?key y) < 0"
    using word_comparator.ordered_NdD(3,4) [OF lawful_acmp [OF lw] Nd.prems(2)] by (auto simp: acmp_kc [OF lw] kc_flip [OF lw])
  have cmp: "(case os_cmp t of Some f \<Rightarrow> slow_cmp f k h p | None \<Rightarrow> fast_cmp t k h p) = Some (kc k ?ka)"
    using slow_cmp_good [OF rep_root_good [OF Nd.prems(1)], of _ k] fast_cmp_good [OF rep_root_good [OF Nd.prems(1)], of t k] x(1) lw
    by (auto simp: lawful_def kcmp_def split: option.splits)
  have push: "oset_stackPush hs p 2 = Some ((p, 2) # hs)"
    using stk_rel_length [OF Nd.prems(3)] Nd.prems(5) by (simp add: oset_stackPush_def opt_simps STACK_MAX_def WFM_STKMAX_def)
  have rel: "stk_rel el h ((p, 2) # hs) ((Nd l a v b r, 2) # ts)" using Nd.prems(1,3) by simp
  have ok: "stk_ok ((Nd l a v b r, 2) # ts)" using Nd.prems(4,5) by simp
  have i: "drop_bit 63 (word_of_int (- 1) :: 64 word) = 1" "drop_bit 63 (word_of_int 1 :: 64 word) = 0"
    using sign_bit_index [of "-1"] sign_bit_index [of 1] by simp_all
  have all_r: "filter (\<lambda>x. kc k (?key x) \<le> 0) (inorder r) = inorder r" if "kc k ?ka \<le> 0"
    using s(2) comparator.cmp_le_less_trans [OF c that] by (auto simp: filter_id_conv intro: less_imp_le)
  have none_l: "filter (\<lambda>x. kc k (?key x) \<le> 0) (inorder l) = []" if "kc k ?ka \<ge> 0"
  proof -
    have "kc ?ka k \<le> 0" using that comparator.cmp_le_ge [OF c] by simp
    then have "kc (?key y) k < 0" if "y \<in> set (inorder l)" for y using s(1) that comparator.cmp_less_le_trans [OF c] by blast
    then show ?thesis using comparator.cmp_antisym [OF c] by (fastforce simp: filter_empty_conv)
  qed
  consider (eq) "kc k ?ka = 0" | (lt) "kc k ?ka < 0" | (gt) "kc k ?ka > 0" by linarith
  then show ?case
  proof cases
    case eq
    then show ?thesis using cmp push rel ok all_r none_l x(1,2)
      by (subst oset_resetAt_loop.simps) (auto intro!: exI [of _ "(Nd l a v b r, 2) # ts"])
  next
    case lt
    have len: "length ((Nd l a v b r, 2 :: int) # ts) + height l \<le> WFM_STKMAX" using Nd.prems(5) by simp
    from Nd.IH(1) [OF x(4) o(1) rel ok len] obtain hs' ts' where r: "oset_resetAt_loop t h k (nleft x) ((p, 2) # hs) = Some hs'"
      "stk_rel el h hs' ts'" "stk_ok ts'" "stk_list ts' = filter (\<lambda>x. kc k (?key x) \<le> 0) (inorder l) @ (a, v) # inorder r @ stk_list ts" by auto
    have "oset_resetAt_loop t h k p hs = Some hs'"
      using cmp push r(1) x lt i(2) by (subst oset_resetAt_loop.simps) (simp add: Let_def)
    then show ?thesis using r all_r lt by auto
  next
    case gt
    have len: "length ts + height r \<le> WFM_STKMAX" using Nd.prems(5) by simp
    from Nd.IH(2) [OF x(5) o(2) Nd.prems(3,4) len] obtain hs' ts' where r: "oset_resetAt_loop t h k (nright x) hs = Some hs'"
      "stk_rel el h hs' ts'" "stk_ok ts'" "stk_list ts' = filter (\<lambda>x. kc k (?key x) \<le> 0) (inorder r) @ stk_list ts" by auto
    have "oset_resetAt_loop t h k p hs = Some hs'"
      using cmp r(1) x gt i(1) by (subst oset_resetAt_loop.simps) (simp add: Let_def)
    then show ?thesis using r none_l gt by auto
  qed
qed

lemma iterate_from_repr:
  assumes lw: "lawful t kc" and r: "oset_repr t (nodes m) xs" "length xs < 9227464"
  shows "\<exists>t1 s. OSetGen_ResetIterAt t k m = Some t1 \<and> oset_iterate (Suc (length xs)) t1 m
    = Some (t\<lparr>os_stack := s\<rparr>, ptrs (filter (\<lambda>x. kc k (key_at t (snd x)) \<le> 0) xs))"
proof -
  obtain el T where T: "oset_tree t (nodes m) el T" "xs = opairs el T" "height T \<le> WFM_STKMAX" by (rule repr_tree [OF r])
  have t: "rep el (nodes m) (os_root t) T" "ordered (acmp t el) (inorder T)" "\<forall>a \<in> addrs T. a + sizeof_AvlNode \<noteq> 0"
    using T(1) by (auto simp: oset_tree_def)
  let ?t = "t\<lparr>os_stack := []\<rparr>"
  have "lawful ?t kc" "ordered (acmp ?t el) (inorder T)" using lw t(2) by simp_all
  from resetAt_refines [OF this(1) t(1) this(2), of "[]" "[]" k] obtain hs ts where s:
    "oset_resetAt_loop ?t (nodes m) k (os_root t) [] = Some hs" "stk_rel el (nodes m) hs ts" "stk_ok ts"
    "stk_list ts = filter (\<lambda>x. kc k (key_at t (el (fst x))) \<le> 0) (inorder T)" using T(3) by auto
  have rs: "OSetGen_ResetIterAt t k m = Some (t\<lparr>os_stack := hs\<rparr>)"
  proof (cases "os_root t = 0")
    case True
    then show ?thesis using s(1) by (subst (asm) oset_resetAt_loop.simps) (simp add: OSetGen_ResetIterAt_def oset_stackClear_def)
  next
    case False
    then show ?thesis using s(1) by (simp add: OSetGen_ResetIterAt_def oset_stackClear_def)
  qed
  have a: "\<forall>x \<in> set (stk_list ts). fst x + sizeof_AvlNode \<noteq> 0" using t(3) by (auto simp: s(4))
  have rel: "stk_rel el (nodes m) (os_stack (t\<lparr>os_stack := hs\<rparr>)) ts" using s(2) by simp
  have "length (stk_list ts) < Suc (length xs)" using T(2) by (simp add: s(4) le_imp_less_Suc)
  from iterate_stack [OF a rel s(3) this] show ?thesis
    using rs by (auto simp: s(4) T(2) ptrs_def opairs_def filter_map o_def case_prod_beta)
qed

end
