(* ===== verification/OSet_Destroy.thy ===== *)
theory OSet_Destroy
  imports OSet_Iter
begin

text \<open>
  Destruction of the ordered set: every node is freed exactly once, children before their parent. It needs of the
  allocator only what the locale \<open>node_store\<close> states; the plain allocator and the pool are its two instances.
\<close>

section \<open>Freeing a tree\<close>

lemma restrict_UNIV [simp]: "f |` UNIV = f"
  by (simp add: restrict_map_def)

locale node_store =
  fixes t :: "('k, 'e) OSet" and inv :: "'e omem \<Rightarrow> Addr set \<Rightarrow> bool"
  assumes free_law: "inv m S \<Longrightarrow> n \<in> S \<Longrightarrow> n \<noteq> 0 \<Longrightarrow> nodes m n \<noteq> None \<Longrightarrow>
    \<exists>m'. free_node t n m = Some m' \<and> nodes m' = (nodes m)(n := None) \<and> inv m' (S - {n})"
begin

lemma pop_push:
  assumes "length stk < STACK_MAX" "1 \<le> i" "i \<le> 3"
  shows "oset_stackPop ((p, i) # stk) = Some (Some (p, i), stk)" "oset_stackPush stk p i = Some ((p, i) # stk)"
  using assms by (simp_all add: oset_stackPop_def oset_stackPush_def opt_simps)

lemma destroy_tree:
  "rep el (nodes m) p T \<Longrightarrow> T \<noteq> Null \<Longrightarrow> dist T \<Longrightarrow> length stk + height T \<le> STACK_MAX \<Longrightarrow> inv m S \<Longrightarrow> addrs T \<subseteq> S \<Longrightarrow>
   \<exists>m'. destroy_loop t ((p, 1) # stk) sz m = destroy_loop t stk (sz + of_nat (length (inorder T))) m'
     \<and> nodes m' = nodes m |` (- addrs T) \<and> inv m' (S - addrs T)"
proof (induction T arbitrary: m p stk sz S)
  case Null
  then show ?case by simp
next
  case (Nd l k v b r)
  obtain x where x: "p = k" "k \<noteq> 0" "nodes m k = Some x" "rep el (nodes m) (nleft x) l" "rep el (nodes m) (nright x) r"
    using Nd.prems(1) by auto
  have d: "dist l" "dist r" "k \<notin> addrs l" "k \<notin> addrs r" "addrs l \<inter> addrs r = {}" using Nd.prems(3) by auto
  have S: "addrs l \<subseteq> S" "addrs r \<subseteq> S" "k \<in> S" using Nd.prems(6) by auto
  have len: "length stk < STACK_MAX" "length ((p, 2 :: int) # stk) + height l \<le> STACK_MAX"
    "length ((p, 3 :: int) # stk) + height r \<le> STACK_MAX" using Nd.prems(4) by auto
  note pp = pop_push [OF len(1)]
  text \<open>Down to the left.\<close>
  obtain m1 where m1: "destroy_loop t ((p, 1) # stk) sz m = destroy_loop t ((p, 2) # stk) (sz + of_nat (length (inorder l))) m1"
    "nodes m1 = nodes m |` (- addrs l)" "inv m1 (S - addrs l)"
  proof (cases "l = Null")
    case True
    have "destroy_loop t ((p, 1) # stk) sz m = destroy_loop t ((p, 2) # stk) sz m"
      using pp x True by (subst destroy_loop.simps) simp
    then show thesis using that [of m] True Nd.prems(5) by simp
  next
    case False
    then have nl: "nleft x \<noteq> 0" using rep_nonzero [OF x(4)] by simp
    have pl: "oset_stackPush ((p, 2) # stk) (nleft x) 1 = Some ((nleft x, 1) # (p, 2) # stk)"
      using len(2) False height_pos [of l] by (simp add: oset_stackPush_def opt_simps)
    have "destroy_loop t ((p, 1) # stk) sz m = destroy_loop t ((nleft x, 1) # (p, 2) # stk) sz m"
      using pp x nl pl by (subst destroy_loop.simps) simp
    then show thesis using Nd.IH(1) [OF x(4) False d(1) len(2) Nd.prems(5) S(1)] that by auto
  qed
  have "agree_off (addrs l) (nodes m) (nodes m1)" by (simp add: m1(2) agree_off_def)
  then have k1: "rep el (nodes m1) (nright x) r" using rep_agree x(5) d(5) by blast
  have k1': "nodes m1 k = Some x" using x(3) d(3) by (simp add: m1(2))
  text \<open>Down to the right.\<close>
  let ?sz = "sz + of_nat (length (inorder l))"
  have S1: "addrs r \<subseteq> S - addrs l" using S(2) d(5) by blast
  obtain m2 where m2: "destroy_loop t ((p, 2) # stk) ?sz m1 = destroy_loop t ((p, 3) # stk) (?sz + of_nat (length (inorder r))) m2"
    "nodes m2 = nodes m1 |` (- addrs r)" "inv m2 (S - addrs l - addrs r)"
  proof (cases "r = Null")
    case True
    have "destroy_loop t ((p, 2) # stk) ?sz m1 = destroy_loop t ((p, 3) # stk) ?sz m1"
      using pp x(1,2,5) k1' True by (subst destroy_loop.simps) simp
    then show thesis using that [of m1] True m1(3) by simp
  next
    case False
    then have nr: "nright x \<noteq> 0" using rep_nonzero [OF x(5)] by simp
    have pr: "oset_stackPush ((p, 3) # stk) (nright x) 1 = Some ((nright x, 1) # (p, 3) # stk)"
      using len(3) False height_pos [of r] by (simp add: oset_stackPush_def opt_simps)
    have "destroy_loop t ((p, 2) # stk) ?sz m1 = destroy_loop t ((nright x, 1) # (p, 3) # stk) ?sz m1"
      using pp x(1,2) k1' nr pr by (subst destroy_loop.simps) simp
    then show thesis using Nd.IH(2) [OF k1 False d(2) len(3) m1(3) S1] that by auto
  qed
  text \<open>The node itself.\<close>
  have k2: "nodes m2 k \<noteq> None" "k \<in> S - addrs l - addrs r" using k1' S(3) d(3,4) by (auto simp: m2(2) restrict_map_def)
  obtain m3 where m3: "free_node t k m2 = Some m3" "nodes m3 = (nodes m2)(k := None)" "inv m3 (S - addrs l - addrs r - {k})"
    using free_law [OF m2(3) k2(2) x(2) k2(1)] by blast
  let ?sz2 = "?sz + of_nat (length (inorder r))"
  have "destroy_loop t ((p, 3) # stk) ?sz2 m2 = destroy_loop t stk (?sz2 + 1) m3"
    using pp x(1) m3(1) by (subst destroy_loop.simps) simp
  moreover have "?sz2 + 1 = sz + of_nat (length (inorder (Nd l k v b r)))" by simp
  moreover have "nodes m3 = nodes m |` (- addrs (Nd l k v b r))"
    unfolding m3(2) m2(2) m1(2) addrs_Nd by (auto simp: restrict_map_def fun_eq_iff)
  moreover have "S - addrs l - addrs r - {k} = S - addrs (Nd l k v b r)" unfolding addrs_Nd by blast
  ultimately show ?case using m1(1) m2(1) m3(3) by metis
qed

lemma destroy_all:
  assumes "oset_repr t (nodes m) xs" "length xs < 9227464" "inv m S" "fst ` set xs \<subseteq> S"
  shows "\<exists>stk m'. (if os_root t \<noteq> 0 then oset_stackPush [] (os_root t) 1 else Some []) = Some stk
    \<and> destroy_loop t stk 0 m = Some (m', ucast (nElems t)) \<and> nodes m' = nodes m |` (- fst ` set xs) \<and> inv m' (S - fst ` set xs)"
proof -
  obtain el T where T: "oset_tree t (nodes m) el T" "xs = opairs el T" "height T \<le> WFM_STKMAX" by (rule repr_tree [OF assms(1,2)])
  have r: "rep el (nodes m) (os_root t) T" "dist T" using T(1) by (auto simp: oset_tree_def)
  have ad: "fst ` set xs = addrs T" using T(2) fst_opairs(2) by metis
  have e: "destroy_loop t [] sz m' = Some (m', sz)" for sz m'
    by (subst destroy_loop.simps) (simp add: oset_stackPop_def opt_simps)
  have "(of_nat (length xs) :: UWord) = ucast (of_nat (length xs) :: UInt)" using assms(2) by (simp add: unsigned_of_nat take_bit_nat_eq_self)
  then have n: "(of_nat (length xs) :: UWord) = ucast (nElems t)" using assms(1) by (simp add: oset_repr_def)
  show ?thesis
  proof (cases "T = Null")
    case True
    then show ?thesis using r(1) e n assms(3) T(2) by (auto simp: ad)
  next
    case False
    have len: "length [] + height T \<le> STACK_MAX" using T(3) by (simp add: STACK_MAX_def WFM_STKMAX_def)
    obtain m' where "destroy_loop t [(os_root t, 1)] 0 m = destroy_loop t [] (0 + of_nat (length (inorder T))) m'"
      "nodes m' = nodes m |` (- addrs T)" "inv m' (S - addrs T)"
      using destroy_tree [OF r(1) False r(2) len assms(3), of 0] assms(4) ad by metis
    then show ?thesis using rep_nonzero [OF r(1)] False e n unfolding ad
      by (auto simp: T(2) oset_stackPush_def opt_simps STACK_MAX_def)
  qed
qed

end

section \<open>The two allocators\<close>

interpretation plain_nodes: node_store t "\<lambda>m S. node_pa t = 0 \<and> pas m = P \<and> pmem m = W" for t P W
proof (unfold_locales, goal_cases)
  case (1 m S n)
  then show ?case by (intro exI [of _ "m\<lparr>nodes := (nodes m)(n := None)\<rparr>"]) (auto simp: free_node_def)
qed

interpretation pool_nodes: node_store t
  "\<lambda>m S. node_pa t \<noteq> 0 \<and> (\<exists>pa. pas m (node_pa t) = Some pa \<and> pa_inv (pmem m) pa S \<and> nrRef pa = c)" for t c
proof (unfold_locales, goal_cases)
  case (1 m S n)
  then obtain pa where pa: "pas m (node_pa t) = Some pa" "pa_inv (pmem m) pa S" "nrRef pa = c" by auto
  obtain m' pa' where f: "freeEltPA (pmem m) pa n = Some (m', pa')" "pa_inv m' pa' (S - {n})"
    using freeEltPA_ok [OF pa(2) 1(2)] by blast
  have "nrRef pa' = c" using f(1) pa(3) by (auto simp: freeEltPA_def elim!: bind_SomeE)
  then show ?case using 1 pa f by (auto simp: free_node_def)
qed

end
