(* ===== verification/OSet_Spec.thy ===== *)
theory OSet_Spec
  imports OSet_Destroy
begin

text \<open>
  What the ordered set promises its clients: the operations of \<open>OSetGen\<close> for every lawful comparison, sequences of
  operations of \<open>OSetWord\<close> against a set of words, and destruction with and without a pool.
\<close>

section \<open>Words\<close>

text \<open>A client of \<open>OSetWord\<close>. An insertion is given the address that the allocator returns.\<close>

datatype ow_op = OW_Insert UWord Addr | OW_Remove UWord | OW_Contains UWord | OW_Size | OW_Iterate

datatype ow_res = OW_Done | OW_Bool bool | OW_Int int | OW_Words "UWord list"

type_synonym ow_state = "UWord omem \<times> (UWord, UWord) OSet"

text \<open>The loop \<open>while (OSetWord_Next(t, &w)) ...\<close> with at most \<open>n\<close> rounds.\<close>

fun ow_words :: "nat \<Rightarrow> (UWord, UWord) OSet \<Rightarrow> UWord omem \<Rightarrow> ((UWord, UWord) OSet \<times> UWord list) option" where
  "ow_words 0 t m = None"
| "ow_words (Suc n) t m =
     do { (t, w) \<leftarrow> OSetWord_Next t m;
          (case w of None \<Rightarrow> Some (t, []) | Some v \<Rightarrow> do { (t, vs) \<leftarrow> ow_words n t m; Some (t, v # vs) }) }"

fun ow_step :: "ow_op \<Rightarrow> ow_state \<Rightarrow> (ow_state \<times> ow_res) option" where
  "ow_step (OW_Insert v p) (m, t) = do { s \<leftarrow> OSetWord_Insert t v p m; Some (s, OW_Done) }"
| "ow_step (OW_Remove v) (m, t) = do { (m, t, b) \<leftarrow> OSetWord_Remove t v m; Some ((m, t), OW_Bool b) }"
| "ow_step (OW_Contains v) (m, t) = do { b \<leftarrow> OSetWord_Contains t v m; Some ((m, t), OW_Bool b) }"
| "ow_step OW_Size (m, t) = Some ((m, t), OW_Int (OSetWord_Size t))"
| "ow_step OW_Iterate (m, t) =
     do { t \<leftarrow> OSetGen_ResetIter t;
          (t, ws) \<leftarrow> ow_words (Suc (nat (OSetWord_Size t))) t m;
          Some ((m, t), OW_Words ws) }"

fun ow_run :: "ow_op list \<Rightarrow> ow_state \<Rightarrow> (ow_state \<times> ow_res list) option" where
  "ow_run [] s = Some (s, [])"
| "ow_run (x # xs) s = do { (s, r) \<leftarrow> ow_step x s; (s, rs) \<leftarrow> ow_run xs s; Some (s, r # rs) }"

text \<open>What the allocator promises: a new address, not null, of a block that does not end at the end of memory.\<close>

definition fresh_addr :: "'e omem \<Rightarrow> Addr \<Rightarrow> bool" where
  "fresh_addr m p = (p \<noteq> 0 \<and> p + sizeof_AvlNode \<noteq> 0 \<and> nodes m p = None)"

fun ow_legal :: "ow_op list \<Rightarrow> ow_state \<Rightarrow> bool" where
  "ow_legal [] s = True"
| "ow_legal (x # xs) s = ((case x of OW_Insert v p \<Rightarrow> fresh_addr (fst s) p | _ \<Rightarrow> True)
     \<and> (case ow_step x s of None \<Rightarrow> True | Some (s', _) \<Rightarrow> ow_legal xs s'))"

text \<open>The same on a set of words: inserting a member is an error.\<close>

fun set_step :: "ow_op \<Rightarrow> UWord set \<Rightarrow> (UWord set \<times> ow_res) option" where
  "set_step (OW_Insert v p) S = (if v \<in> S then None else Some (insert v S, OW_Done))"
| "set_step (OW_Remove v) S = Some (S - {v}, OW_Bool (v \<in> S))"
| "set_step (OW_Contains v) S = Some (S, OW_Bool (v \<in> S))"
| "set_step OW_Size S = Some (S, OW_Int (int (card S)))"
| "set_step OW_Iterate S = Some (S, OW_Words (sorted_list_of_set S))"

fun set_run :: "ow_op list \<Rightarrow> UWord set \<Rightarrow> (UWord set \<times> ow_res list) option" where
  "set_run [] S = Some (S, [])"
| "set_run (x # xs) S = do { (S, r) \<leftarrow> set_step x S; (S, rs) \<leftarrow> set_run xs S; Some (S, r # rs) }"

text \<open>A set of words in memory; \<open>h0\<close> are the nodes that are not the set's.\<close>

definition word_set :: "UWord nheap \<Rightarrow> UWord omem \<Rightarrow> (UWord, UWord) OSet \<Rightarrow> UWord set \<Rightarrow> bool" where
  "word_set h0 m t S \<longleftrightarrow> os_cmp t = None \<and> key_at t = (\<lambda>e. e) \<and> key_word t = (\<lambda>k. k) \<and> node_pa t = 0
     \<and> (\<exists>xs. oset_repr t (nodes m) xs \<and> snd ` set xs = S \<and> fst ` set xs \<inter> dom h0 = {} \<and> nodes m |` (- fst ` set xs) = h0)"

abbreviation wcmp :: "UWord \<Rightarrow> UWord \<Rightarrow> int" where
  "wcmp \<equiv> cmp_unsigned_Words"

lemma word_lawful: "os_cmp t = None \<Longrightarrow> key_at t = (\<lambda>e. e) \<Longrightarrow> key_word t = (\<lambda>k. k) \<Longrightarrow> lawful t wcmp"
  using cmp_unsigned_comparator by (simp add: lawful_def kcmp_def)

lemma find_pair_word:
  "find_pair wcmp (\<lambda>e. e) v xs = None \<longleftrightarrow> v \<notin> snd ` set xs"
  "find_pair wcmp (\<lambda>e. e) v xs = Some (a, e) \<Longrightarrow> (a, e) \<in> set xs \<and> e = v"
  by (force simp: find_pair_def find_None_iff, auto simp: find_pair_def dest: find_SomeD)

lemma repr_sorted:
  assumes "lawful t kc" "oset_repr t h xs"
  shows "sorted_wrt (\<lambda>x y. kc (key_at t (snd x)) (key_at t (snd y)) < 0) xs" "distinct (map fst xs)"
  using assms(2) opairs_sorted [OF assms(1)] by (auto simp: oset_repr_def oset_tree_def fst_opairs(1))

lemma repr_words:
  assumes "lawful t wcmp" "key_at t = (\<lambda>e. e)" "oset_repr t h xs"
  shows "map snd xs = sorted_list_of_set (snd ` set xs)" "length xs = card (snd ` set xs)"
proof -
  have "sorted_wrt (\<lambda>x y. wcmp (snd x) (snd y) < 0) xs" using repr_sorted(1) [OF assms(1,3)] assms(2) by simp
  then have "sorted_wrt (\<lambda>x y. snd x < snd y) xs"
    by (rule sorted_wrt_mono_rel [rotated]) (simp add: cmp_unsigned_Words_def split: if_splits)
  then have "sorted_wrt (<) (map snd xs)" by (simp only: sorted_wrt_map)
  then have s: "sorted (map snd xs) \<and> distinct (map snd xs)" by (simp only: strict_sorted_iff)
  then show "map snd xs = sorted_list_of_set (snd ` set xs)"
    by (metis image_set sorted_list_of_set.idem_if_sorted_distinct)
  show "length xs = card (snd ` set xs)" using s by (metis distinct_card image_set length_map)
qed

lemma oset_repr_frame:
  assumes "\<forall>a \<in> fst ` set xs. h' a = h a" "oset_repr t h xs"
  shows "oset_repr t h' xs"
proof -
  obtain el T where T: "oset_tree t h el T" "xs = opairs el T" using assms(2) by (auto simp: oset_repr_def)
  have "rep el h' (os_root t) T = rep el h (os_root t) T" using assms(1) unfolding T(2) fst_opairs by (rule rep_cong)
  then show ?thesis using T assms(2) by (auto simp: oset_repr_def oset_tree_def)
qed

lemma repr_nodes: "oset_repr t h xs \<Longrightarrow> fst ` set xs \<subseteq> dom h"
  using oset_repr_addr(3) by fastforce

lemma new_node_sel [simp]: "nelem (new_node v) = v" "nmagic (new_node v) = OSET_MAGIC"
  by (simp_all add: new_node_def)

lemma new_node_upd: "(new_node z)\<lparr>nelem := v\<rparr> = new_node v"
  by (simp add: new_node_def)

lemma frame_insert:
  assumes "h |` (- A) = h0" "h p = None" "agree_off (insert p A) (h(p \<mapsto> x)) h'"
  shows "h' |` (- insert p A) = h0"
proof (rule ext)
  fix a
  show "(h' |` (- insert p A)) a = h0 a"
    using fun_cong [OF assms(1), of a] assms(2,3) by (cases "a = p"; cases "a \<in> A") (auto simp: agree_off_def restrict_map_def)
qed

lemma frame_remove:
  assumes "h |` (- insert n A) = h0" "agree_off (insert n A) h h'"
  shows "(h'(n := None)) |` (- A) = h0"
proof (rule ext)
  fix a
  show "((h'(n := None)) |` (- A)) a = h0 a"
    using fun_cong [OF assms(1), of a] assms(2) by (cases "a = n"; cases "a \<in> A") (auto simp: agree_off_def restrict_map_def)
qed

lemma ow_insert:
  assumes w: "word_set h0 m t S" and p: "fresh_addr m p"
  shows "if v \<in> S then OSetWord_Insert t v p m = None
    else \<exists>m' t'. OSetWord_Insert t v p m = Some (m', t') \<and> word_set h0 m' t' (insert v S)"
proof -
  obtain xs where x: "oset_repr t (nodes m) xs" "snd ` set xs = S" "fst ` set xs \<inter> dom h0 = {}" "nodes m |` (- fst ` set xs) = h0"
    and t: "os_cmp t = None" "key_at t = (\<lambda>e. e)" "key_word t = (\<lambda>k. k)" "node_pa t = 0" using w by (auto simp: word_set_def)
  have p': "p \<noteq> 0" "p + sizeof_AvlNode \<noteq> 0" "nodes m p = None" using p by (auto simp: fresh_addr_def)
  have px: "p \<notin> fst ` set xs" using repr_nodes [OF x(1)] p'(3) by blast
  let ?m = "m\<lparr>nodes := (nodes m)(p \<mapsto> new_node v)\<rparr>"
  have st: "OSetWord_Insert t v p m = OSetGen_Insert t (p + sizeof_AvlNode) ?m"
    using t(4) p'(1) by (simp add: OSetWord_Insert_def OSetGen_AllocNode_def elem_of_node_def write_elem_def upd_node_def Let_def new_node_upd)
  have r: "oset_repr t (nodes ?m) xs" using px by (intro oset_repr_frame [OF _ x(1)]) auto
  note ins = OSetGen_Insert_ok [OF word_lawful [OF t(1-3)] r p'(1,2), of "new_node v"]
  have k: "find_pair wcmp (key_at t) (key_at t (nelem (new_node v))) xs = None \<longleftrightarrow> v \<notin> S"
    using find_pair_word(1) [of v xs] x(2) by (simp add: t(2))
  show ?thesis
  proof (cases "v \<in> S")
    case True
    then show ?thesis using ins k st px by simp
  next
    case False
    let ?xs = "ins_pairs wcmp (\<lambda>e. e) (p, v) xs"
    obtain h' q where i: "OSetGen_Insert t (p + sizeof_AvlNode) ?m = Some (?m\<lparr>nodes := h'\<rparr>, t\<lparr>os_root := q, nElems := nElems t + 1, os_stack := []\<rparr>)"
      "oset_repr (t\<lparr>os_root := q, nElems := nElems t + 1, os_stack := []\<rparr>) h' ?xs"
      "agree_off (insert p (fst ` set xs)) (nodes ?m) h'"
      using ins k px False by (auto simp: t(2))
    have "\<forall>y \<in> set xs. wcmp (snd y) v < 0 \<or> wcmp (snd y) v > 0"
      using False x(2) by (auto simp: cmp_unsigned_Words_def)
    then have set: "set ?xs = insert (p, v) (set xs)" by (auto simp: ins_pairs_def)
    have "p \<notin> dom h0" using fun_cong [OF x(4), of p] p'(3) by (auto simp: restrict_map_def split: if_splits)
    then have "fst ` set ?xs \<inter> dom h0 = {}" using x(3) by (simp add: set)
    moreover have "h' |` (- fst ` set ?xs) = h0"
      using frame_insert [OF x(4) p'(3), of "new_node v" h'] i(3) by (simp add: set)
    moreover have "snd ` set ?xs = insert v S" using x(2) by (simp add: set)
    ultimately have "word_set h0 (?m\<lparr>nodes := h'\<rparr>) (t\<lparr>os_root := q, nElems := nElems t + 1, os_stack := []\<rparr>) (insert v S)"
      using t i(2) unfolding word_set_def by (intro conjI exI [of _ ?xs]) simp_all
    then show ?thesis using st i(1) False by simp
  qed
qed

lemma ow_remove:
  assumes w: "word_set h0 m t S"
  shows "\<exists>m' t'. OSetWord_Remove t v m = Some (m', t', v \<in> S) \<and> word_set h0 m' t' (S - {v})"
proof -
  obtain xs where x: "oset_repr t (nodes m) xs" "snd ` set xs = S" "fst ` set xs \<inter> dom h0 = {}" "nodes m |` (- fst ` set xs) = h0"
    and t: "os_cmp t = None" "key_at t = (\<lambda>e. e)" "key_word t = (\<lambda>k. k)" "node_pa t = 0" using w by (auto simp: word_set_def)
  note lw = word_lawful [OF t(1-3)]
  show ?thesis
  proof (cases "find_pair wcmp (key_at t) v xs")
    case None
    then show ?thesis using OSetGen_Remove_absent [OF lw x(1) None] find_pair_word(1) [of v xs] x(2) w
      by (simp add: OSetWord_Remove_def t(2))
  next
    case (Some y)
    obtain n e where y: "y = (n, e)" by fastforce
    then have ne: "(n, v) \<in> set xs" "e = v" using find_pair_word(2) [of v xs n e] Some t(2) by auto
    let ?xs = "del_pairs wcmp (\<lambda>e. e) v xs"
    obtain h' q nd where r: "OSetGen_Remove t v m
        = Some (m\<lparr>nodes := h'\<rparr>, t\<lparr>os_root := q, nElems := nElems t - 1, os_stack := []\<rparr>, n + sizeof_AvlNode)"
      "oset_repr (t\<lparr>os_root := q, nElems := nElems t - 1, os_stack := []\<rparr>) h' ?xs" "agree_off (fst ` set xs) (nodes m) h'"
      "h' n = Some nd" "nmagic nd = OSET_MAGIC" using OSetGen_Remove_found [OF lw x(1), of v n e] Some y t(2) by auto
    note n = oset_repr_addr [OF x(1) ne(1)]
    let ?h = "h'(n := None)"
    have set: "set ?xs = {y \<in> set xs. snd y \<noteq> v}" by (auto simp: del_pairs_def)
    have d: "distinct (map fst xs)" by (rule repr_sorted(2) [OF lw x(1)])
    have nx: "n \<notin> fst ` set ?xs" using eq_key_imp_eq_value [OF d ne(1)] by (auto simp: set)
    have ad: "insert n (fst ` set ?xs) = fst ` set xs"
    proof -
      have "y = (n, v)" if "y \<in> set xs" "snd y = v" for y
      proof -
        have "distinct (map snd xs)" using repr_words(1) [OF lw t(2) x(1)] by simp
        then show ?thesis using that ne(1) inj_onD [of snd "set xs" y "(n, v)"] by (auto simp: distinct_map)
      qed
      then have "set xs = insert (n, v) (set ?xs)" using ne(1) unfolding set by blast
      then show ?thesis by simp
    qed
    have "oset_repr (t\<lparr>os_root := q, nElems := nElems t - 1, os_stack := []\<rparr>) ?h ?xs"
      using nx by (intro oset_repr_frame [OF _ r(2)]) auto
    moreover have "snd ` set ?xs = S - {v}" using x(2) by (force simp: set)
    moreover have "fst ` set ?xs \<inter> dom h0 = {}" using x(3) by (auto simp: set)
    moreover have "?h |` (- fst ` set ?xs) = h0"
      using x(4) r(3) unfolding ad [symmetric] by (rule frame_remove)
    ultimately have "word_set h0 (m\<lparr>nodes := ?h\<rparr>) (t\<lparr>os_root := q, nElems := nElems t - 1, os_stack := []\<rparr>) (S - {v})"
      using t unfolding word_set_def by (intro conjI exI [of _ ?xs]) simp_all
    moreover have "v \<in> S" using ne(1) x(2) by force
    ultimately show ?thesis using r(1,4,5) n(1,2) t(4)
      by (simp add: OSetWord_Remove_def OSetGen_FreeNode_def node_of_elem_def free_node_def)
  qed
qed

lemma ow_contains:
  assumes "word_set h0 m t S"
  shows "OSetWord_Contains t v m = Some (v \<in> S)"
proof -
  obtain xs where x: "oset_repr t (nodes m) xs" "snd ` set xs = S"
    and t: "os_cmp t = None" "key_at t = (\<lambda>e. e)" "key_word t = (\<lambda>k. k)" using assms by (auto simp: word_set_def)
  note l = OSetGen_Lookup_ok [OF word_lawful [OF t] x(1), of v]
  show ?thesis
  proof (cases "find_pair wcmp (\<lambda>e. e) v xs")
    case None
    then show ?thesis using l t(2) find_pair_word(1) [of v xs] x(2) by (simp add: OSetWord_Contains_def elem_ptr_def)
  next
    case (Some y)
    obtain a e where y: "y = (a, e)" by fastforce
    have "(a, e) \<in> set xs \<and> e = v" using find_pair_word(2) Some y by blast
    then have "v \<in> S" "a + sizeof_AvlNode \<noteq> 0" using oset_repr_addr(2) [OF x(1)] x(2) by force+
    then show ?thesis using l t(2) Some y by (simp add: OSetWord_Contains_def elem_ptr_def)
  qed
qed

lemma ow_words_iterate:
  "oset_iterate n t m = Some (t', es) \<Longrightarrow> \<forall>e \<in> set es. deref (nodes m) (e - sizeof_AvlNode) \<noteq> None
    \<Longrightarrow> ow_words n t m = Some (t', map (\<lambda>e. nelem (the (deref (nodes m) (e - sizeof_AvlNode)))) es)"
proof (induction n arbitrary: t es)
  case (Suc n)
  obtain t1 e where n: "OSetGen_Next t m = Some (t1, e)" using Suc.prems(1) by (auto elim: bind_SomeE)
  show ?case
  proof (cases "e = 0")
    case True
    then show ?thesis using Suc.prems(1) n by (simp add: OSetWord_Next_def)
  next
    case False
    then obtain es1 where es: "es = e # es1" "oset_iterate n t1 m = Some (t', es1)"
      using Suc.prems(1) n by (auto elim: bind_SomeE)
    then show ?thesis using Suc.IH [OF es(2)] Suc.prems(2) False n
      by (auto simp: OSetWord_Next_def elem_of_node_no_check_def)
  qed
qed simp

lemma ow_size:
  assumes "word_set h0 m t S" "card S < 9227464"
  shows "OSetWord_Size t = int (card S)"
proof -
  obtain xs where x: "oset_repr t (nodes m) xs" "snd ` set xs = S"
    and t: "os_cmp t = None" "key_at t = (\<lambda>e. e)" "key_word t = (\<lambda>k. k)" using assms by (auto simp: word_set_def)
  have "nElems t = of_nat (card S)" using repr_words(2) [OF word_lawful [OF t] t(2) x(1)] x by (simp add: oset_repr_def)
  then show ?thesis using assms(2) by (simp add: OSetWord_Size_def OSetGen_Size_def unsigned_of_nat take_bit_nat_eq_self)
qed

lemma ow_iterate:
  assumes w: "word_set h0 m t S" "card S < 9227464"
  shows "\<exists>s. ow_step OW_Iterate (m, t) = Some ((m, t\<lparr>os_stack := s\<rparr>), OW_Words (sorted_list_of_set S))"
proof -
  obtain xs where x: "oset_repr t (nodes m) xs" "snd ` set xs = S"
    and t: "os_cmp t = None" "key_at t = (\<lambda>e. e)" "key_word t = (\<lambda>k. k)" using w by (auto simp: word_set_def)
  have xs: "map snd xs = sorted_list_of_set S" "length xs = card S" using repr_words [OF word_lawful [OF t] t(2) x(1)] x(2) by auto
  then obtain t1 s where 1: "OSetGen_ResetIter t = Some t1" "oset_iterate (Suc (card S)) t1 m = Some (t\<lparr>os_stack := s\<rparr>, ptrs xs)"
    using iterate_repr [OF x(1)] w(2) by auto
  have d: "deref (nodes m) (fst y) = nodes m (fst y) \<and> nodes m (fst y) \<noteq> None \<and> nelem (the (nodes m (fst y))) = snd y"
    if "y \<in> set xs" for y
    using oset_repr_addr [OF x(1), of "fst y" "snd y"] that by (auto simp: deref_def)
  have "ow_words (Suc (card S)) t1 m
      = Some (t\<lparr>os_stack := s\<rparr>, map (\<lambda>e. nelem (the (deref (nodes m) (e - sizeof_AvlNode)))) (ptrs xs))"
    using d by (intro ow_words_iterate [OF 1(2)]) (auto simp: ptrs_def)
  also have "map (\<lambda>e. nelem (the (deref (nodes m) (e - sizeof_AvlNode)))) (ptrs xs) = map snd xs"
    using d by (auto simp: ptrs_def)
  finally have ws: "ow_words (Suc (card S)) t1 m = Some (t\<lparr>os_stack := s\<rparr>, sorted_list_of_set S)" by (simp only: xs(1))
  have "nElems t1 = nElems t" using 1(1) by (auto simp: OSetGen_ResetIter_def oset_stackClear_def Let_def elim!: bind_SomeE split: if_splits)
  then have "nat (OSetWord_Size t1) = card S" using ow_size [OF w] by (simp add: OSetWord_Size_def OSetGen_Size_def)
  then show ?thesis using 1(1) ws by (intro exI [of _ s]) (simp del: ow_words.simps)
qed

lemma ow_stack: "word_set h0 m t S \<Longrightarrow> word_set h0 m (t\<lparr>os_stack := s\<rparr>) S"
  by (simp add: word_set_def oset_repr_def)

lemma word_set_finite: "word_set h0 m t S \<Longrightarrow> finite S"
  by (auto simp: word_set_def)

lemma ow_step_refines:
  assumes w: "word_set h0 m t S" "card S < 9227464" and l: "\<forall>v p. x = OW_Insert v p \<longrightarrow> fresh_addr m p"
  shows "case set_step x S of None \<Rightarrow> ow_step x (m, t) = None
    | Some (S', r) \<Rightarrow> card S' \<le> Suc (card S) \<and> (\<exists>m' t'. ow_step x (m, t) = Some ((m', t'), r) \<and> word_set h0 m' t' S')"
proof (cases x)
  case (OW_Insert v p)
  then show ?thesis using ow_insert [OF w(1), of p v] l card_insert_le_m1 [of "Suc (card S)" S v] by (auto split: if_splits)
next
  case (OW_Remove v)
  then show ?thesis using ow_remove [OF w(1), of v] card_Diff1_le [of S v] by auto
next
  case (OW_Contains v)
  then show ?thesis using ow_contains [OF w(1)] w(1) by auto
next
  case OW_Size
  then show ?thesis using ow_size [OF w] w(1) by auto
next
  case OW_Iterate
  obtain s where "ow_step OW_Iterate (m, t) = Some ((m, t\<lparr>os_stack := s\<rparr>), OW_Words (sorted_list_of_set S))"
    using ow_iterate [OF w] by blast
  then show ?thesis using OW_Iterate ow_stack [OF w(1), of s] by (auto simp del: ow_step.simps)
qed

lemma ow_run_refines:
  "word_set h0 m t S \<Longrightarrow> card S + length xs < 9227464 \<Longrightarrow> ow_legal xs (m, t) \<Longrightarrow>
    case set_run xs S of None \<Rightarrow> ow_run xs (m, t) = None
    | Some (S', rs) \<Rightarrow> card S' \<le> card S + length xs \<and> (\<exists>m' t'. ow_run xs (m, t) = Some ((m', t'), rs) \<and> word_set h0 m' t' S')"
proof (induction xs arbitrary: m t S)
  case (Cons x xs)
  have l: "\<forall>v p. x = OW_Insert v p \<longrightarrow> fresh_addr m p" using Cons.prems(3) by auto
  have c: "card S < 9227464" using Cons.prems(2) by simp
  note st = ow_step_refines [OF Cons.prems(1) c l]
  show ?case
  proof (cases "set_step x S")
    case None
    then show ?thesis using st by simp
  next
    case (Some y)
    obtain S1 r where y: "y = (S1, r)" by fastforce
    obtain m1 t1 where 1: "ow_step x (m, t) = Some ((m1, t1), r)" "word_set h0 m1 t1 S1" "card S1 \<le> Suc (card S)"
      using st Some y by auto
    have "card S1 + length xs < 9227464" "ow_legal xs (m1, t1)" using Cons.prems(2,3) 1(1,3) by simp_all
    from Cons.IH [OF 1(2) this] show ?thesis using Some y 1(1,3) by (auto split: option.splits)
  qed
qed simp

lemma restrict_map_le: "h |` A = h0 \<Longrightarrow> h0 \<subseteq>\<^sub>m h"
  by (auto simp: map_le_def restrict_map_def split: if_splits)

lemma word_set_create:
  assumes "OSetWord_Create = Some t"
  shows "word_set (nodes m) m t {}"
proof -
  have t: "t = \<lparr>keyOff = 0, key_at = (\<lambda>e. e), key_word = (\<lambda>k. k), os_cmp = None, node_pa = 0, maxEltSize = 0,
      nElems = 0, os_root = 0, os_stack = []\<rparr>"
    using assms by (simp add: OSetWord_Create_def OSetGen_Create_def)
  have "oset_tree t (nodes m) (\<lambda>_. 0) Null" by (simp add: oset_tree_def t ordered_def)
  then have "oset_repr t (nodes m) []" unfolding oset_repr_def by (intro conjI exI [of _ "\<lambda>_. 0"] exI [of _ Null]) (simp_all add: t)
  then show ?thesis by (auto simp: word_set_def t intro!: exI [of _ "[]"])
qed

text \<open>C23: Any sequence of OSetWord insertions, removals, membership tests, size queries and complete iterations
  behaves as the same sequence on a mathematical set of words: it fails exactly when a member is inserted
  again, and otherwise returns the same answers, iterations in increasing order. Nodes that are not
  the set's are not touched. The bound is the number of elements for which the iterator's stack suffices.\<close>

theorem osetword_refines_set:
  assumes "OSetWord_Create = Some t" "ow_legal ops (m, t)" "length ops < 9227464"
  shows "case set_run ops {} of None \<Rightarrow> ow_run ops (m, t) = None
    | Some (S, rs) \<Rightarrow> \<exists>m' t'. ow_run ops (m, t) = Some ((m', t'), rs) \<and> nodes m \<subseteq>\<^sub>m nodes m'"
proof -
  have frame: "nodes m \<subseteq>\<^sub>m nodes m'" if w: "word_set (nodes m) m' t' S" for m' t' S
    using w restrict_map_le unfolding word_set_def by metis
  show ?thesis
    using ow_run_refines [OF word_set_create [OF assms(1), of m] _ assms(2)] assms(3) frame
    by (auto split: option.splits)
qed

definition ow_example :: "ow_op list" where
  "ow_example = [OW_Insert 7 64, OW_Insert 3 128, OW_Insert 5 192, OW_Remove 7, OW_Contains 3, OW_Size, OW_Iterate]"

definition ow_start :: ow_state where
  "ow_start = (\<lparr>nodes = Map.empty, pas = Map.empty, pmem = Map.empty\<rparr>, the OSetWord_Create)"

lemma ow_start_create: "OSetWord_Create = Some (snd ow_start)"
  by code_simp

lemma ow_example_legal: "ow_legal ow_example ow_start"
  by code_simp

lemma ow_example_set: "map_option snd (set_run ow_example {})
    = Some [OW_Done, OW_Done, OW_Done, OW_Bool True, OW_Bool True, OW_Int 2, OW_Words [3, 5]]"
  by code_simp

theorem osetword_refines_set_witness:
  "map_option snd (ow_run ow_example ow_start)
    = Some [OW_Done, OW_Done, OW_Done, OW_Bool True, OW_Bool True, OW_Int 2, OW_Words [3, 5]]"
  using osetword_refines_set [OF ow_start_create, of ow_example "fst ow_start"] ow_example_legal ow_example_set
  by (auto simp: ow_example_def split: option.splits)

section \<open>Elements with any lawful comparison\<close>

text \<open>A client of \<open>OSetGen\<close>: it allocates a node of an element of \<open>sz\<close> bytes, writes the element, inserts it; removes by key and
  frees the node; looks up; iterates from a key on. \<open>z\<close> is the element of zero bytes that a new node holds.\<close>

datatype ('k, 'e) og_op = OG_Insert UWord Addr 'e | OG_Remove 'k | OG_Lookup 'k | OG_From 'k

datatype og_res = OG_Done | OG_Ptr Addr | OG_Ptrs "Addr list"

type_synonym ('k, 'e) og_state = "'e omem \<times> ('k, 'e) OSet"

fun og_step :: "'e \<Rightarrow> ('k, 'e) og_op \<Rightarrow> ('k, 'e) og_state \<Rightarrow> (('k, 'e) og_state \<times> og_res) option" where
  "og_step z (OG_Insert sz p v) (m, t) =
     do { (m, e) \<leftarrow> OSetGen_AllocNode t sz p z m;
          m \<leftarrow> write_elem e v m;
          s \<leftarrow> OSetGen_Insert t e m;
          Some (s, OG_Done) }"
| "og_step z (OG_Remove k) (m, t) =
     do { (m, t, e) \<leftarrow> OSetGen_Remove t k m;
          m \<leftarrow> (if e \<noteq> 0 then OSetGen_FreeNode t e m else Some m);
          Some ((m, t), OG_Ptr e) }"
| "og_step z (OG_Lookup k) (m, t) = do { e \<leftarrow> OSetGen_Lookup t k m; Some ((m, t), OG_Ptr e) }"
| "og_step z (OG_From k) (m, t) =
     do { t \<leftarrow> OSetGen_ResetIterAt t k m;
          (t, es) \<leftarrow> oset_iterate (Suc (unat (OSetGen_Size t))) t m;
          Some ((m, t), OG_Ptrs es) }"

fun og_run :: "'e \<Rightarrow> ('k, 'e) og_op list \<Rightarrow> ('k, 'e) og_state \<Rightarrow> (('k, 'e) og_state \<times> og_res list) option" where
  "og_run z [] s = Some (s, [])"
| "og_run z (x # xs) s = do { (s, r) \<leftarrow> og_step z x s; (s, rs) \<leftarrow> og_run z xs s; Some (s, r # rs) }"

fun og_legal :: "'e \<Rightarrow> ('k, 'e) og_op list \<Rightarrow> ('k, 'e) og_state \<Rightarrow> bool" where
  "og_legal z [] s = True"
| "og_legal z (x # xs) s = ((case x of OG_Insert sz p v \<Rightarrow> 0 < sz \<and> fresh_addr (fst s) p | _ \<Rightarrow> True)
     \<and> (case og_step z x s of None \<Rightarrow> True | Some (s', _) \<Rightarrow> og_legal z xs s'))"

text \<open>The same on a list of nodes and elements in the order of the keys.\<close>

fun sl_step :: "('k \<Rightarrow> 'k \<Rightarrow> int) \<Rightarrow> ('e \<Rightarrow> 'k) \<Rightarrow> ('k, 'e) og_op \<Rightarrow> (Addr \<times> 'e) list \<Rightarrow> ((Addr \<times> 'e) list \<times> og_res) option" where
  "sl_step kc key (OG_Insert sz p v) xs =
     (if find_pair kc key (key v) xs = None then Some (ins_pairs kc key (p, v) xs, OG_Done) else None)"
| "sl_step kc key (OG_Remove k) xs = Some (del_pairs kc key k xs, OG_Ptr (elem_ptr (find_pair kc key k xs)))"
| "sl_step kc key (OG_Lookup k) xs = Some (xs, OG_Ptr (elem_ptr (find_pair kc key k xs)))"
| "sl_step kc key (OG_From k) xs = Some (xs, OG_Ptrs (ptrs (filter (\<lambda>x. kc k (key (snd x)) \<le> 0) xs)))"

fun sl_run :: "('k \<Rightarrow> 'k \<Rightarrow> int) \<Rightarrow> ('e \<Rightarrow> 'k) \<Rightarrow> ('k, 'e) og_op list \<Rightarrow> (Addr \<times> 'e) list \<Rightarrow> ((Addr \<times> 'e) list \<times> og_res list) option" where
  "sl_run kc key [] xs = Some (xs, [])"
| "sl_run kc key (x # ops) xs = do { (xs, r) \<leftarrow> sl_step kc key x xs; (xs, rs) \<leftarrow> sl_run kc key ops xs; Some (xs, r # rs) }"

definition gen_set :: "('k \<Rightarrow> 'k \<Rightarrow> int) \<Rightarrow> ('e \<Rightarrow> 'k) \<Rightarrow> 'e omem \<Rightarrow> ('k, 'e) OSet \<Rightarrow> (Addr \<times> 'e) list \<Rightarrow> bool" where
  "gen_set kc key m t xs \<longleftrightarrow> lawful t kc \<and> key_at t = key \<and> node_pa t = 0 \<and> oset_repr t (nodes m) xs"

lemma find_pair_mem: "find_pair kc key k xs = Some (n, e) \<Longrightarrow> (n, e) \<in> set xs"
  by (auto simp: find_pair_def dest: find_SomeD)

lemma og_insert:
  assumes g: "gen_set kc key m t xs" and p: "fresh_addr m p" "0 < sz"
  shows "if find_pair kc key (key v) xs = None
    then \<exists>m' t'. og_step z (OG_Insert sz p v) (m, t) = Some ((m', t'), OG_Done) \<and> gen_set kc key m' t' (ins_pairs kc key (p, v) xs)
    else og_step z (OG_Insert sz p v) (m, t) = None"
proof -
  have lw: "lawful t kc" and t: "key_at t = key" "node_pa t = 0" and r: "oset_repr t (nodes m) xs" using g by (auto simp: gen_set_def)
  have p': "p \<noteq> 0" "p + sizeof_AvlNode \<noteq> 0" "nodes m p = None" using p by (auto simp: fresh_addr_def)
  have px: "p \<notin> fst ` set xs" using repr_nodes [OF r] p'(3) by blast
  let ?m = "m\<lparr>nodes := (nodes m)(p \<mapsto> new_node v)\<rparr>"
  have st: "og_step z (OG_Insert sz p v) (m, t) = map_option (\<lambda>s. (s, OG_Done)) (OSetGen_Insert t (p + sizeof_AvlNode) ?m)"
    using t(2) p'(1) p(2) by (cases "OSetGen_Insert t (p + sizeof_AvlNode) ?m")
      (simp_all add: OSetGen_AllocNode_def elem_of_node_def write_elem_def upd_node_def Let_def new_node_upd)
  have r': "oset_repr t (nodes ?m) xs" using px by (intro oset_repr_frame [OF _ r]) auto
  note ins = OSetGen_Insert_ok [OF lw r' p'(1,2), of "new_node v"]
  show ?thesis
  proof (cases "find_pair kc key (key v) xs")
    case None
    then obtain h' q where "OSetGen_Insert t (p + sizeof_AvlNode) ?m = Some (?m\<lparr>nodes := h'\<rparr>, t\<lparr>os_root := q, nElems := nElems t + 1, os_stack := []\<rparr>)"
      "oset_repr (t\<lparr>os_root := q, nElems := nElems t + 1, os_stack := []\<rparr>) h' (ins_pairs kc key (p, v) xs)"
      using ins px by (auto simp: t(1))
    then show ?thesis using None st lw t by (simp add: gen_set_def)
  next
    case (Some y)
    then show ?thesis using ins px st by (simp add: t(1))
  qed
qed

lemma del_pairs_addr:
  assumes "lawful t kc" "oset_repr t h xs" "find_pair kc (key_at t) k xs = Some (n, e)"
  shows "n \<notin> fst ` set (del_pairs kc (key_at t) k xs)"
proof -
  have d: "distinct (map fst xs)" by (rule repr_sorted(2) [OF assms(1,2)])
  have "(n, e) \<in> set xs" "kc k (key_at t e) = 0" using assms(3) by (auto simp: find_pair_def dest: find_SomeD)
  then show ?thesis using eq_key_imp_eq_value [OF d] by (fastforce simp: del_pairs_def)
qed

lemma og_remove:
  assumes g: "gen_set kc key m t xs"
  shows "\<exists>m' t'. og_step z (OG_Remove k) (m, t) = Some ((m', t'), OG_Ptr (elem_ptr (find_pair kc key k xs)))
    \<and> gen_set kc key m' t' (del_pairs kc key k xs)"
proof -
  have lw: "lawful t kc" and t: "key_at t = key" "node_pa t = 0" and r: "oset_repr t (nodes m) xs" using g by (auto simp: gen_set_def)
  show ?thesis
  proof (cases "find_pair kc key k xs")
    case None
    then have "del_pairs kc key k xs = xs" by (auto simp: find_pair_def del_pairs_def find_None_iff intro: filter_True)
    then show ?thesis using OSetGen_Remove_absent [OF lw r, of k] None g by (simp add: t(1) elem_ptr_def)
  next
    case (Some y)
    obtain n e where y: "y = (n, e)" by fastforce
    have f: "find_pair kc (key_at t) k xs = Some (n, e)" using Some y t(1) by simp
    obtain h' q nd where rm: "OSetGen_Remove t k m
        = Some (m\<lparr>nodes := h'\<rparr>, t\<lparr>os_root := q, nElems := nElems t - 1, os_stack := []\<rparr>, n + sizeof_AvlNode)"
      "oset_repr (t\<lparr>os_root := q, nElems := nElems t - 1, os_stack := []\<rparr>) h' (del_pairs kc key k xs)"
      "h' n = Some nd" "nmagic nd = OSET_MAGIC" using OSetGen_Remove_found [OF lw r f] t(1) by auto
    have nx: "n \<notin> fst ` set (del_pairs kc key k xs)" using del_pairs_addr [OF lw r f] t(1) by simp
    note n = oset_repr_addr [OF r find_pair_mem [OF f]]
    have "oset_repr (t\<lparr>os_root := q, nElems := nElems t - 1, os_stack := []\<rparr>) (h'(n := None)) (del_pairs kc key k xs)"
      using nx by (intro oset_repr_frame [OF _ rm(2)]) auto
    then show ?thesis using rm(1,3,4) n(1,2) lw t Some y
      by (simp add: gen_set_def elem_ptr_def OSetGen_FreeNode_def node_of_elem_def free_node_def)
  qed
qed

lemma og_from:
  assumes g: "gen_set kc key m t xs" and b: "length xs < 9227464"
  shows "\<exists>s. og_step z (OG_From k) (m, t) = Some ((m, t\<lparr>os_stack := s\<rparr>), OG_Ptrs (ptrs (filter (\<lambda>x. kc k (key (snd x)) \<le> 0) xs)))"
proof -
  have lw: "lawful t kc" and t: "key_at t = key" and r: "oset_repr t (nodes m) xs" using g by (auto simp: gen_set_def)
  obtain t1 s where 1: "OSetGen_ResetIterAt t k m = Some t1"
    "oset_iterate (Suc (length xs)) t1 m = Some (t\<lparr>os_stack := s\<rparr>, ptrs (filter (\<lambda>x. kc k (key_at t (snd x)) \<le> 0) xs))"
    using iterate_from_repr [OF lw r b] by blast
  have "nElems t1 = nElems t"
    using 1(1) by (auto simp: OSetGen_ResetIterAt_def oset_stackClear_def Let_def elim!: bind_SomeE split: if_splits)
  then have "unat (OSetGen_Size t1) = length xs"
    using r b by (simp add: oset_repr_def OSetGen_Size_def unsigned_of_nat take_bit_nat_eq_self)
  then show ?thesis using 1 t by (intro exI [of _ s]) (simp del: oset_iterate.simps)
qed

lemma ins_pairs_length: "length (ins_pairs kc key x xs) \<le> Suc (length xs)"
proof -
  have "length (filter (\<lambda>y. kc (key (snd y)) (key (snd x)) < 0) xs) + length (filter (\<lambda>y. kc (key (snd y)) (key (snd x)) > 0) xs) \<le> length xs"
    by (induction xs) auto
  then show ?thesis by (simp add: ins_pairs_def)
qed

lemma og_step_refines:
  assumes g: "gen_set kc key m t xs" "length xs < 9227464" and l: "\<forall>sz v p. x = OG_Insert sz p v \<longrightarrow> 0 < sz \<and> fresh_addr m p"
  shows "case sl_step kc key x xs of None \<Rightarrow> og_step z x (m, t) = None
    | Some (xs', r) \<Rightarrow> length xs' \<le> Suc (length xs) \<and> (\<exists>m' t'. og_step z x (m, t) = Some ((m', t'), r) \<and> gen_set kc key m' t' xs')"
proof (cases x)
  case (OG_Insert sz p v)
  then show ?thesis using og_insert [OF g(1), of p sz v z] l ins_pairs_length [of kc key "(p, v)" xs] by (auto simp del: og_step.simps split: if_splits)
next
  case (OG_Remove k)
  then show ?thesis using og_remove [OF g(1), of z k] by (auto simp: del_pairs_def le_SucI simp del: og_step.simps)
next
  case (OG_Lookup k)
  then show ?thesis using OSetGen_Lookup_ok [of t kc m xs k] g(1) by (auto simp: gen_set_def)
next
  case (OG_From k)
  obtain s where s: "og_step z (OG_From k) (m, t) = Some ((m, t\<lparr>os_stack := s\<rparr>), OG_Ptrs (ptrs (filter (\<lambda>x. kc k (key (snd x)) \<le> 0) xs)))"
    using og_from [OF g] by blast
  have "gen_set kc key m (t\<lparr>os_stack := s\<rparr>) xs" using g(1) by (simp add: gen_set_def oset_repr_def)
  then show ?thesis using OG_From s by (auto simp del: og_step.simps)
qed

lemma og_run_refines:
  "gen_set kc key m t xs \<Longrightarrow> length xs + length ops < 9227464 \<Longrightarrow> og_legal z ops (m, t) \<Longrightarrow>
    case sl_run kc key ops xs of None \<Rightarrow> og_run z ops (m, t) = None
    | Some (xs', rs) \<Rightarrow> \<exists>m' t'. og_run z ops (m, t) = Some ((m', t'), rs) \<and> gen_set kc key m' t' xs'"
proof (induction ops arbitrary: m t xs)
  case (Cons x ops)
  have l: "\<forall>sz v p. x = OG_Insert sz p v \<longrightarrow> 0 < sz \<and> fresh_addr m p" using Cons.prems(3) by auto
  have c: "length xs < 9227464" using Cons.prems(2) by simp
  note st = og_step_refines [OF Cons.prems(1) c l, of z]
  show ?case
  proof (cases "sl_step kc key x xs")
    case None
    then show ?thesis using st by simp
  next
    case (Some y)
    obtain xs1 r where y: "y = (xs1, r)" by fastforce
    obtain m1 t1 where 1: "og_step z x (m, t) = Some ((m1, t1), r)" "gen_set kc key m1 t1 xs1" "length xs1 \<le> Suc (length xs)"
      using st Some y by auto
    have "length xs1 + length ops < 9227464" "og_legal z ops (m1, t1)" using Cons.prems(2,3) 1(1,3) by simp_all
    from Cons.IH [OF 1(2) this] show ?thesis using Some y 1(1) by (auto split: option.splits)
  qed
qed simp

lemma gen_set_create:
  assumes "OSetGen_Create off key kw cmp = Some t" "lawful t kc"
  shows "gen_set kc key m t []"
proof -
  have t: "t = \<lparr>keyOff = off, key_at = key, key_word = kw, os_cmp = cmp, node_pa = 0, maxEltSize = 0,
      nElems = 0, os_root = 0, os_stack = []\<rparr>"
    using assms(1) by (simp add: OSetGen_Create_def vg_assert_def split: if_splits)
  have "oset_tree t (nodes m) (\<lambda>_. undefined) Null" by (simp add: oset_tree_def t ordered_def)
  then have "oset_repr t (nodes m) []"
    unfolding oset_repr_def by (intro conjI exI [of _ "\<lambda>_. undefined"] exI [of _ Null]) (simp_all add: t)
  then show ?thesis using assms(2) by (simp add: gen_set_def t)
qed

text \<open>C24: For every comparison function that is an order of the keys, any sequence of OSetGen operations behaves as the
  same sequence on the list of the elements in key order: an insertion puts the client's node at its place and
  fails exactly when the key is there, removal and lookup return the address of the one element with the key or null, and an
  iteration from a key returns the elements that are not below it, in order.\<close>

theorem osetgen_refines_sorted_list:
  assumes "OSetGen_Create off key kw cmp = Some t" "lawful t kc" "og_legal z ops (m, t)" "length ops < 9227464"
  shows "case sl_run kc key ops [] of None \<Rightarrow> og_run z ops (m, t) = None
    | Some (xs, rs) \<Rightarrow> sorted_wrt (\<lambda>x y. kc (key (snd x)) (key (snd y)) < 0) xs
        \<and> (\<exists>m' t'. og_run z ops (m, t) = Some ((m', t'), rs) \<and> (\<forall>(a, e) \<in> set xs. map_option nelem (nodes m' a) = Some e))"
proof -
  have "sorted_wrt (\<lambda>x y. kc (key (snd x)) (key (snd y)) < 0) xs \<and> (\<forall>(a, e) \<in> set xs. map_option nelem (nodes m' a) = Some e)"
    if g: "gen_set kc key m' t' xs" for m' t' xs
    using g repr_sorted(1) [of t' kc "nodes m'" xs] oset_repr_addr(3) [of t' "nodes m'" xs] by (fastforce simp: gen_set_def)
  then show ?thesis
    using og_run_refines [OF gen_set_create [OF assms(1,2), of m] _ assms(3)] assms(4) by (fastforce split: option.splits)
qed

text \<open>Elements of a signed key and a number, compared as \<open>cmp_CodeLoc_LineCC\<close> compares lines, with a subtraction.\<close>

definition sub_cmp :: "32 word \<Rightarrow> 32 word \<times> nat \<Rightarrow> 64 word" where
  "sub_cmp k e = word_of_int (sint k - sint (fst e))"

definition sub_set :: "(32 word, 32 word \<times> nat) OSet" where
  "sub_set = the (OSetGen_Create 0 fst (\<lambda>k. 0) (Some sub_cmp))"

lemma sub_set_create: "OSetGen_Create 0 fst (\<lambda>k. 0) (Some sub_cmp) = Some sub_set"
  by (simp add: sub_set_def OSetGen_Create_def vg_assert_def)

lemma sub_set_lawful: "lawful sub_set (\<lambda>a b. sint a - sint b)"
proof -
  have "comparator (\<lambda>(a :: 32 word) b. sint a - sint b)" by unfold_locales auto
  moreover have "sint (sub_cmp k e) = sint k - sint (fst e)" for k e
  proof -
    have "\<bar>sint k - sint (fst e)\<bar> < 2 ^ 33" using sint_range_size [of k] sint_range_size [of "fst e"] by (auto simp: word_size)
    then show ?thesis by (simp only: sub_cmp_def sint_sbintrunc') (simp add: signed_take_bit_int_eq_self)
  qed
  ultimately show ?thesis by (simp add: lawful_def sub_set_def OSetGen_Create_def kcmp_def)
qed

definition og_example :: "(32 word, 32 word \<times> nat) og_op list" where
  "og_example = [OG_Insert 8 64 (5, 1), OG_Insert 8 128 (-3, 2), OG_Insert 8 192 (9, 3), OG_Lookup 9, OG_Remove (-3), OG_From 6, OG_Lookup (-3)]"

lemma og_example_legal: "og_legal (0, 0) og_example (\<lparr>nodes = Map.empty, pas = Map.empty, pmem = Map.empty\<rparr>, sub_set)"
  by code_simp

lemma og_example_list: "sl_run (\<lambda>a b. sint a - sint b) fst og_example []
    = Some ([(64, 5, 1), (192, 9, 3)], [OG_Done, OG_Done, OG_Done, OG_Ptr 216, OG_Ptr 152, OG_Ptrs [216], OG_Ptr 0])"
  by code_simp

theorem osetgen_refines_sorted_list_witness:
  "map_option snd (og_run (0, 0) og_example (\<lparr>nodes = Map.empty, pas = Map.empty, pmem = Map.empty\<rparr>, sub_set))
    = Some [OG_Done, OG_Done, OG_Done, OG_Ptr 216, OG_Ptr 152, OG_Ptrs [216], OG_Ptr 0]"
  using osetgen_refines_sorted_list [OF sub_set_create sub_set_lawful og_example_legal] og_example_list
  by (auto simp: og_example_def)

section \<open>Destruction\<close>

lemma destroy_plain:
  assumes "oset_repr t (nodes m) xs" "length xs < 9227464" "node_pa t = 0"
  shows "OSetGen_Destroy t m = Some (m\<lparr>nodes := nodes m |` (- fst ` set xs)\<rparr>, [])"
proof -
  obtain stk m' where 1: "(if os_root t \<noteq> 0 then oset_stackPush [] (os_root t) 1 else Some []) = Some stk"
    "destroy_loop t stk 0 m = Some (m', ucast (nElems t))" "nodes m' = nodes m |` (- fst ` set xs)" "pas m' = pas m" "pmem m' = pmem m"
    using plain_nodes.destroy_all [OF assms(1,2), of "pas m" "pmem m" "fst ` set xs"] assms(3) by auto
  have "m' = m\<lparr>nodes := nodes m |` (- fst ` set xs)\<rparr>" using 1(3-5) by simp
  then show ?thesis using 1(1,2) assms(3) by (simp add: OSetGen_Destroy_def)
qed

text \<open>C25: No node leaks and none is freed twice. After any sequence of operations on a set of words, the destruction returns, its
  assertion on the number of freed nodes holds, and the nodes that are allocated are exactly the ones from before the set was created.\<close>

theorem osetword_destroy_no_leak:
  assumes "OSetWord_Create = Some t" "ow_legal ops (m, t)" "length ops < 9227464" "ow_run ops (m, t) = Some ((m', t'), rs)"
  shows "\<exists>m''. OSetGen_Destroy t' m' = Some (m'', []) \<and> nodes m'' = nodes m"
proof -
  note run = ow_run_refines [OF word_set_create [OF assms(1), of m] _ assms(2)]
  obtain S where w: "word_set (nodes m) m' t' S" "card S < 9227464" using run assms(3,4) by (auto split: option.splits)
  then obtain xs where x: "oset_repr t' (nodes m') xs" "snd ` set xs = S" "nodes m' |` (- fst ` set xs) = nodes m"
    and t: "os_cmp t' = None" "key_at t' = (\<lambda>e. e)" "key_word t' = (\<lambda>k. k)" "node_pa t' = 0" by (auto simp: word_set_def)
  have "length xs < 9227464" using repr_words(2) [OF word_lawful [OF t(1-3)] t(2) x(1)] x(2) w(2) by simp
  then show ?thesis using destroy_plain [OF x(1) _ t(4)] x(3) by simp
qed

definition ow_final :: ow_state where
  "ow_final = fst (the (ow_run ow_example ow_start))"

lemma ow_final_run: "ow_run ow_example ow_start = Some (ow_final, snd (the (ow_run ow_example ow_start)))"
proof -
  have "ow_run ow_example ow_start \<noteq> None" by code_simp
  then show ?thesis by (auto simp: ow_final_def)
qed

theorem osetword_destroy_no_leak_witness:
  "\<exists>m. OSetGen_Destroy (snd ow_final) (fst ow_final) = Some (m, []) \<and> nodes m = Map.empty"
proof -
  have l: "length ow_example < 9227464" by (simp add: ow_example_def)
  have "ow_run ow_example (fst ow_start, snd ow_start) = Some ((fst ow_final, snd ow_final), snd (the (ow_run ow_example ow_start)))"
    using ow_final_run by simp
  moreover have "nodes (fst ow_start) = Map.empty" by (simp add: ow_start_def)
  ultimately show ?thesis
    using osetword_destroy_no_leak [OF ow_start_create _ l, of "fst ow_start" "fst ow_final" "snd ow_final"] ow_example_legal by auto
qed

text \<open>What \<open>deletePA\<close> frees.\<close>

lemma contents_length: "xa_ok xa \<Longrightarrow> length (contents xa) = sizeXA xa"
  by (auto simp: contents_def xa_ok_def sizeXA_def split: option.splits)

lemma delete_pools_contents: "i \<le> sizeXA xa \<Longrightarrow> xa_ok xa \<Longrightarrow> delete_pools xa i = Some (drop i (contents xa))"
proof (induction xa i rule: delete_pools.induct)
  case (1 xa i)
  show ?case
  proof (cases "i < sizeXA xa")
    case True
    have len: "length (contents xa) = sizeXA xa" by (rule contents_length [OF "1.prems"(2)])
    have "indexXA xa (int i) = Some (contents xa ! i)" using indexXA_contents [OF "1.prems"(2)] True by (simp add: len)
    then show ?thesis using "1.IH" [OF True] "1.prems" True by (subst delete_pools.simps) (simp add: Cons_nth_drop_Suc len)
  next
    case False
    have "length (contents xa) = sizeXA xa" by (rule contents_length [OF "1.prems"(2)])
    then show ?thesis using False "1.prems" by (subst delete_pools.simps) simp
  qed
qed

text \<open>C26: With a pool, a set that is not its last user gives every node back: the pool's other elements stay allocated, the set's
  nodes become free again, and the reference count drops by one. The last user frees exactly the blocks of the pool and the pool itself, without
  walking the tree. Destruction never fails.\<close>

theorem osetgen_destroy_pool:
  assumes "oset_repr t (nodes m) xs" "length xs < 9227464" "node_pa t \<noteq> 0" "pas m (node_pa t) = Some pa"
    and "pa_inv (pmem m) pa live" "fst ` set xs \<subseteq> live" "0 < nrRef pa"
  shows "if nrRef pa = 1
    then OSetGen_Destroy t m = Some (m\<lparr>pas := (pas m)(node_pa t := None)\<rparr>, contents (pools pa))
    else \<exists>m' pa'. OSetGen_Destroy t m = Some (m', []) \<and> nodes m' = nodes m |` (- fst ` set xs)
      \<and> pas m' (node_pa t) = Some pa' \<and> nrRef pa' = nrRef pa - 1 \<and> pa_inv (pmem m') pa' (live - fst ` set xs)"
proof (cases "nrRef pa = 1")
  case True
  have "deletePA (pa\<lparr>nrRef := 0\<rparr>) = Some (contents (pools pa))"
    using assms(5) delete_pools_contents [of 0 "pools pa"] by (simp add: deletePA_def pa_inv_def pools_ok_def)
  then have "releasePA pa = Some (pa\<lparr>nrRef := 0\<rparr>, 0, contents (pools pa))" using True by (simp add: releasePA_def)
  then show ?thesis using True assms(3,4) by (simp add: OSetGen_Destroy_def)
next
  case False
  let ?pa = "pa\<lparr>nrRef := nrRef pa - 1\<rparr>"
  let ?m = "m\<lparr>pas := (pas m)(node_pa t \<mapsto> ?pa)\<rparr>"
  have nz: "nrRef pa - 1 \<noteq> 0" "nrRef pa \<noteq> 0" using False assms(7) by auto
  then have rel: "releasePA pa = Some (?pa, nrRef pa - 1, [])" by (simp add: releasePA_def word_gt_0)
  have r: "oset_repr t (nodes ?m) xs" using assms(1) by simp
  have "pa_inv (pmem ?m) ?pa live" using assms(5) by (simp add: pa_inv_def pools_ok_def all_elems_def pool_size_def)
  then obtain stk m' pa' where "(if os_root t \<noteq> 0 then oset_stackPush [] (os_root t) 1 else Some []) = Some stk"
    "destroy_loop t stk 0 ?m = Some (m', ucast (nElems t))" "nodes m' = nodes ?m |` (- fst ` set xs)"
    "pas m' (node_pa t) = Some pa'" "pa_inv (pmem m') pa' (live - fst ` set xs)" "nrRef pa' = nrRef pa - 1"
    using pool_nodes.destroy_all [OF r assms(2), of live "nrRef pa - 1"] assms(3,6) by auto
  then show ?thesis using False rel nz assms(3,4) by (simp add: OSetGen_Destroy_def word_gt_0)
qed

text \<open>A set of one node in a pool of 100 elements of 32 bytes at 4096, with two users.\<close>

definition pool_example :: "wmem \<times> PoolAlloc \<times> Addr" where
  "pool_example = the (do { pa \<leftarrow> newPA 32 100; allocEltPA 4096 Map.empty (addRefPA (addRefPA pa)) })"

lemma pal_thread_first: "pal_thread pool sz k m nf = Some (m', nf') \<Longrightarrow> nf' = (if k = 0 then nf else pool)"
  by (induction pool sz k m nf rule: pal_thread.induct) (fastforce simp: Let_def elim!: bind_SomeE split: if_splits)+

lemma alloc_first:
  assumes "allocEltPA p m pa = Some (m', pa', e)"
  shows "nrRef pa' = nrRef pa" "nextFree pa = 0 \<Longrightarrow> 0 < unat (nPerPool pa) \<Longrightarrow> e = p"
  using assms by (auto simp: allocEltPA_def pal_add_new_pool_def Let_def elim!: bind_SomeE dest: pal_thread_first split: if_splits prod.splits)

lemma pa_inv_refs: "pa_inv m (pa\<lparr>nrRef := c\<rparr>) live = pa_inv m pa live"
  by (simp add: pa_inv_def pools_ok_def all_elems_def pool_size_def)

lemma pool_example_ok:
  "case pool_example of (wm, pa, n) \<Rightarrow> pa_inv wm pa {n} \<and> n = 4096 \<and> nrRef pa = 2"
proof -
  obtain pa0 where n: "newPA 32 100 = Some pa0" by (auto simp: newPA_def newXA_def)
  let ?pa = "addRefPA (addRefPA pa0)"
  have c: "contents (pools ?pa) = []" "nextFree ?pa = 0" "nrRef ?pa = 2" "pa_elemSzB ?pa = 32" "nPerPool ?pa = 100"
    using n by (auto simp: newPA_def newXA_def addRefPA_def contents_def split: option.splits)
  have inv: "pa_inv Map.empty ?pa {}"
    using newPA_inv [OF n, of Map.empty] by (simp add: addRefPA_def pa_inv_refs)
  have "new_pool_ok ?pa 4096" using c by (simp add: new_pool_ok_def pool_fits_def)
  from allocEltPA_ok [OF inv] this obtain wm pa e where a: "allocEltPA 4096 Map.empty ?pa = Some (wm, pa, e)" "pa_inv wm pa {e}" by blast
  have ex: "pool_example = (wm, pa, e)" using a(1) n by (simp add: pool_example_def)
  show ?thesis unfolding ex using a(2) c alloc_first [OF a(1)] by simp
qed

definition pool_set_example :: "(UWord, UWord) OSet" where
  "pool_set_example = \<lparr>keyOff = 0, key_at = (\<lambda>e. e), key_word = (\<lambda>k. k), os_cmp = None, node_pa = 8, maxEltSize = 8,
     nElems = 1, os_root = 4096, os_stack = []\<rparr>"

theorem osetgen_destroy_pool_witness:
  "\<exists>m'. OSetGen_Destroy pool_set_example \<lparr>nodes = [4096 \<mapsto> new_node 5], pas = [8 \<mapsto> fst (snd pool_example)], pmem = fst pool_example\<rparr>
     = Some (m', []) \<and> nodes m' = Map.empty \<and> map_option nrRef (pas m' 8) = Some 1"
proof -
  let ?t = pool_set_example and ?h = "[4096 \<mapsto> new_node 5]" and ?pa = "fst (snd pool_example)"
  let ?m = "\<lparr>nodes = ?h, pas = [8 \<mapsto> ?pa], pmem = fst pool_example\<rparr>"
  have "oset_tree ?t ?h (\<lambda>_. 5) (Nd Null 4096 0 0 Null)"
    by (simp add: oset_tree_def pool_set_example_def ordered_def new_node_def sizeof_AvlNode_def)
  then have r: "oset_repr ?t (nodes ?m) [(4096, 5)]"
    unfolding oset_repr_def by (intro conjI exI [of _ "\<lambda>_. 5"] exI [of _ "Nd Null 4096 0 0 Null"]) (simp_all add: pool_set_example_def)
  obtain wm pa n where ex: "pool_example = (wm, pa, n)" by (rule prod_cases3)
  have ok: "pa_inv wm pa {4096} \<and> nrRef pa = 2" using pool_example_ok unfolding ex by auto
  have p: "pas ?m (node_pa ?t) = Some ?pa" "pa_inv (pmem ?m) ?pa {4096}" "nrRef ?pa = 2"
    using ok unfolding ex by (simp_all add: pool_set_example_def)
  show ?thesis
    using osetgen_destroy_pool [OF r _ _ p(1,2)] p(3) by (auto simp: pool_set_example_def restrict_map_def fun_eq_iff)
qed

end
