(* ===== verification/WordSet.thy ===== *)
theory WordSet
  imports WordFM
begin

text \<open>
  The sets of words of Helgrind, \<open>helgrind/hg_wordset.c\<close>. A universe hands out small numbers for sets; equal sets have
  equal numbers. A set is a sorted vector of words on the heap; the vectors of a universe are numbered by the array
  \<open>ix2vec\<close>, and the map \<open>vec2ix\<close> (a \<open>WordFM\<close> whose comparison reads the vectors) finds the number of a vector with the
  same contents. Numbers of dead sets are kept in a list through \<open>ix2vec\<close> and used again. Four caches remember results.

  The heap maps addresses to vectors; the address of a new vector is an argument of the operations that allocate one. An
  entry of \<open>ix2vec\<close> is a pointer to a vector or, when the set is dead, a pointer into \<open>ix2vec\<close> itself or null: \<open>Link\<close>
  with the index it points to. The array \<open>words\<close> of a vector is a list, \<open>size\<close> its length; the part of \<open>ix2vec\<close> below
  \<open>ix2vec_used\<close> is a list. The allocator and the cost centre are left out of the record, and \<open>self\<close> is the address of the universe.
\<close>

section \<open>Caches\<close>

record WCacheEnt =
  arg1 :: UWord
  arg2 :: UWord
  res :: UWord

record WCache =
  ent :: "WCacheEnt list"
  dynMax :: UWord
  inUse :: UWord

definition N_WCACHE_STAT_MAX :: nat where
  "N_WCACHE_STAT_MAX = 32"

definition WCache_INIT :: "int \<Rightarrow> WCache \<Rightarrow> WCache option" where
  "WCache_INIT dynmax c =
     do { vg_assert (dynmax \<ge> 1);
          vg_assert (dynmax \<le> int N_WCACHE_STAT_MAX);
          Some (c\<lparr>dynMax := word_of_int dynmax, inUse := 0\<rparr>) }"

definition wcache_asserts :: "WCache \<Rightarrow> unit option" where
  "wcache_asserts c =
     do { vg_assert (dynMax c \<ge> 1);
          vg_assert (dynMax c \<le> of_nat N_WCACHE_STAT_MAX);
          vg_assert (inUse c \<le> dynMax c) }"

definition wcache_hit :: "UWord \<Rightarrow> UWord \<Rightarrow> WCacheEnt \<Rightarrow> bool" where
  "wcache_hit a1 a2 e = (arg1 e = a1 \<and> arg2 e = a2)"

text \<open>The result is the cache, in which a hit has moved one place to the front, and what the macro returns, if it does.\<close>

definition WCache_LOOKUP :: "WCache \<Rightarrow> UWord \<Rightarrow> UWord \<Rightarrow> (WCache \<times> UWord option) option" where
  "WCache_LOOKUP c a1 a2 =
     do { wcache_asserts c;
          if inUse c > 0 then
            if wcache_hit a1 a2 (ent c ! 0) then Some (c, Some (res (ent c ! 0)))
            else case find (\<lambda>i. wcache_hit a1 a2 (ent c ! i)) [1..<unat (inUse c)] of
                   Some i \<Rightarrow> Some (c\<lparr>ent := (ent c)[i - 1 := ent c ! i, i := ent c ! (i - 1)]\<rparr>, Some (res (ent c ! i)))
                 | None \<Rightarrow> Some (c, None)
          else Some (c, None) }"

text \<open>\<open>for (_i = n; _i >= 1; _i--) ent[_i] = ent[_i-1];\<close>\<close>

fun wcache_shift :: "nat \<Rightarrow> WCacheEnt list \<Rightarrow> WCacheEnt list" where
  "wcache_shift 0 es = es"
| "wcache_shift (Suc i) es = wcache_shift i (es[Suc i := es ! i])"

definition WCache_UPDATE :: "WCache \<Rightarrow> UWord \<Rightarrow> UWord \<Rightarrow> UWord \<Rightarrow> WCache option" where
  "WCache_UPDATE c a1 a2 r =
     do { wcache_asserts c;
          let n = (if inUse c < dynMax c then inUse c + 1 else inUse c);
          Some (c\<lparr>inUse := n, ent := (wcache_shift (unat (n - 1)) (ent c))[0 := \<lparr>arg1 = a1, arg2 = a2, res = r\<rparr>]\<rparr>) }"

section \<open>The universe\<close>

type_synonym WordSet = UInt

record WordVec =
  owner :: Addr
  words :: "UWord list"

type_synonym vheap = "Addr \<rightharpoonup> WordVec"

datatype ix_entry = WV Addr | Link "nat option"

record WordSetU =
  self :: Addr
  vec2ix :: WordFM
  ix2vec :: "ix_entry list"
  ix2vec_size :: UWord
  ix2vec_free :: "nat option"
  ws_empty :: WordSet
  cache_addTo :: WCache
  cache_delFrom :: WCache
  cache_intersect :: WCache
  cache_minus :: WCache
  n_add :: UWord
  n_add_uncached :: UWord
  n_del :: UWord
  n_del_uncached :: UWord
  n_die :: UWord
  n_union :: UWord
  n_intersect :: UWord
  n_intersect_uncached :: UWord
  n_minus :: UWord
  n_minus_uncached :: UWord
  n_elem :: UWord
  n_doubleton :: UWord
  n_isEmpty :: UWord
  n_isSingleton :: UWord
  n_anyElementOf :: UWord
  n_isSubsetOf :: UWord

definition ix2vec_used :: "WordSetU \<Rightarrow> UWord" where
  "ix2vec_used u = of_nat (length (ix2vec u))"

definition new_WV :: "WordSetU \<Rightarrow> Addr \<Rightarrow> UWord list \<Rightarrow> vheap \<Rightarrow> vheap" where
  "new_WV u p ws h = h(p \<mapsto> \<lparr>owner = self u, words = ws\<rparr>)"

definition delete_WV :: "Addr \<Rightarrow> vheap \<Rightarrow> vheap option" where
  "delete_WV p h = (case h p of None \<Rightarrow> None | Some _ \<Rightarrow> Some (h(p := None)))"

fun cmp_contents :: "UWord list \<Rightarrow> UWord list \<Rightarrow> int" where
  "cmp_contents (x # xs) (y # ys) = (if x = y then cmp_contents xs ys else if x < y then -1 else 1)"
| "cmp_contents _ _ = 0"

definition cmp_words :: "UWord list \<Rightarrow> UWord list \<Rightarrow> int" where
  "cmp_words v w = (if length v < length w then -1 else if length v > length w then 1 else cmp_contents v w)"

text \<open>The comparison is a function of the heap. It is not called on an address that is not allocated; there it is completed to an order.\<close>

definition cmp_WordVecs_for_FM :: "vheap \<Rightarrow> UWord \<Rightarrow> UWord \<Rightarrow> 64 word" where
  "cmp_WordVecs_for_FM h a b =
     (case (h a, h b) of
        (Some v, Some w) \<Rightarrow> word_of_int (cmp_words (words v) (words w))
      | (None, Some _) \<Rightarrow> -1
      | (Some _, None) \<Rightarrow> 1
      | (None, None) \<Rightarrow> 0)"

definition the_fm :: "vheap \<Rightarrow> WordSetU \<Rightarrow> WordFM" where
  "the_fm h u = (vec2ix u)\<lparr>kCmp := Some (cmp_WordVecs_for_FM h)\<rparr>"

text \<open>The new size is computed in a \<open>UInt\<close>; copying more entries than the new block has is a write outside it.\<close>

definition ensure_ix2vec_space :: "WordSetU \<Rightarrow> WordSetU option" where
  "ensure_ix2vec_space u =
     do { vg_assert (ix2vec_used u \<le> ix2vec_size u);
          if ix2vec_used u < ix2vec_size u then Some u
          else let new_sz = (ucast (2 * ix2vec_size u) :: UInt);
                   new_sz = (if new_sz = 0 then 1 else new_sz) in
               if ix2vec_size u \<le> ucast new_sz then Some (u\<lparr>ix2vec_size := ucast new_sz\<rparr>) else None }"

fun is_dead :: "WordSetU \<Rightarrow> ix_entry \<Rightarrow> bool" where
  "is_dead u (Link None) = True"
| "is_dead u (Link (Some i)) = (1 \<le> i \<and> i < unat (ix2vec_size u))"
| "is_dead u (WV a) = False"

definition deref_wv :: "vheap \<Rightarrow> ix_entry \<Rightarrow> (Addr \<times> WordVec) option" where
  "deref_wv h e = (case e of WV a \<Rightarrow> map_option (\<lambda>v. (a, v)) (h a) | Link _ \<Rightarrow> None)"

definition do_ix2vec :: "vheap \<Rightarrow> WordSetU \<Rightarrow> WordSet \<Rightarrow> (Addr \<times> WordVec) option" where
  "do_ix2vec h u ws =
     do { vg_assert (ix2vec_used u \<le> ix2vec_size u);
          vg_assert (ucast ws < ix2vec_used u);
          let wv = ix2vec u ! unat ws;
          vg_assert (wv \<noteq> Link None);
          vg_assert (\<not> is_dead u wv);
          (a, v) \<leftarrow> deref_wv h wv;
          vg_assert (owner v = self u);
          Some (a, v) }"

definition do_ix2vec_with_dead :: "vheap \<Rightarrow> WordSetU \<Rightarrow> WordSet \<Rightarrow> (Addr \<times> WordVec) option option" where
  "do_ix2vec_with_dead h u ws =
     do { vg_assert (ix2vec_used u \<le> ix2vec_size u);
          vg_assert (ucast ws < ix2vec_used u);
          let wv = ix2vec u ! unat ws;
          if is_dead u wv then Some None
          else do { (a, v) \<leftarrow> deref_wv h wv; vg_assert (owner v = self u); Some (Some (a, v)) } }"

definition add_or_dealloc_WordVec :: "vheap \<Rightarrow> WordSetU \<Rightarrow> Addr \<Rightarrow> (vheap \<times> WordSetU \<times> WordSet) option" where
  "add_or_dealloc_WordVec h u wv_new =
     do { v \<leftarrow> h wv_new;
          vg_assert (owner v = self u);
          case lookupFM (the_fm h u) wv_new of
            Some (wv_old, ix_old) \<Rightarrow>
              do { vg_assert (wv_old \<noteq> wv_new);
                   vg_assert (wv_old \<noteq> 0);
                   ov \<leftarrow> h wv_old;
                   vg_assert (owner ov = self u);
                   vg_assert (ix_old < ix2vec_used u);
                   vg_assert (ix2vec u ! unat ix_old = WV wv_old);
                   h \<leftarrow> delete_WV wv_new h;
                   Some (h, u, ucast ix_old) }
          | None \<Rightarrow>
              (case ix2vec_free u of
                 Some f \<Rightarrow>
                   do { vg_assert (is_dead u (Link (Some f)));
                        let ws = (of_nat f :: WordSet);
                        vg_assert (unat ws < length (ix2vec u));
                        let e = ix2vec u ! unat ws;
                        vg_assert (is_dead u e);
                        nxt \<leftarrow> (case e of Link n \<Rightarrow> Some n | WV _ \<Rightarrow> None);
                        (fm, _) \<leftarrow> addToFM (the_fm h u) wv_new (ucast ws);
                        Some (h, u\<lparr>ix2vec_free := nxt, ix2vec := (ix2vec u)[unat ws := WV wv_new], vec2ix := fm\<rparr>, ws) }
               | None \<Rightarrow>
                   do { u \<leftarrow> ensure_ix2vec_space u;
                        vg_assert (ix2vec_used u < ix2vec_size u);
                        (fm, _) \<leftarrow> addToFM (the_fm h u) wv_new (ix2vec_used u);
                        let u = u\<lparr>ix2vec := ix2vec u @ [WV wv_new], vec2ix := fm\<rparr>;
                        vg_assert (ix2vec_used u \<le> ix2vec_size u);
                        Some (h, u, ucast (ix2vec_used u - 1)) }) }"

definition zero_cache :: WCache where
  "zero_cache = \<lparr>ent = replicate N_WCACHE_STAT_MAX \<lparr>arg1 = 0, arg2 = 0, res = 0\<rparr>, dynMax = 0, inUse = 0\<rparr>"

text \<open>\<open>wsu\<close> and \<open>p\<close> are the addresses of the universe and of the empty vector.\<close>

definition newWordSetU :: "Addr \<Rightarrow> Addr \<Rightarrow> int \<Rightarrow> vheap \<Rightarrow> (vheap \<times> WordSetU) option" where
  "newWordSetU wsu p cacheSize h =
     do { c \<leftarrow> WCache_INIT cacheSize zero_cache;
          let u = \<lparr>self = wsu, vec2ix = newFM (Some (cmp_WordVecs_for_FM h)), ix2vec = [], ix2vec_size = 0, ix2vec_free = None,
                   ws_empty = 0, cache_addTo = c, cache_delFrom = c, cache_intersect = c, cache_minus = c,
                   n_add = 0, n_add_uncached = 0, n_del = 0, n_del_uncached = 0, n_die = 0, n_union = 0, n_intersect = 0,
                   n_intersect_uncached = 0, n_minus = 0, n_minus_uncached = 0, n_elem = 0, n_doubleton = 0, n_isEmpty = 0,
                   n_isSingleton = 0, n_anyElementOf = 0, n_isSubsetOf = 0\<rparr>;
          (h, u, ws) \<leftarrow> add_or_dealloc_WordVec (new_WV u p [] h) u p;
          Some (h, u\<lparr>ws_empty := ws\<rparr>) }"

text \<open>\<open>deleteFM\<close> calls \<open>delete_WV_for_FM\<close> on every key.\<close>

fun delete_all_WVs :: "free_call list \<Rightarrow> vheap \<Rightarrow> vheap option" where
  "delete_all_WVs [] h = Some h"
| "delete_all_WVs (KFin k # cs) h = do { h \<leftarrow> delete_WV k h; delete_all_WVs cs h }"
| "delete_all_WVs (c # cs) h = delete_all_WVs cs h"

definition deleteWordSetU :: "vheap \<Rightarrow> WordSetU \<Rightarrow> vheap option" where
  "deleteWordSetU h u = delete_all_WVs (deleteFM (the_fm h u) True False) h"

section \<open>Operations\<close>

definition emptyWS :: "WordSetU \<Rightarrow> WordSet" where
  "emptyWS u = ws_empty u"

definition isEmptyWS :: "vheap \<Rightarrow> WordSetU \<Rightarrow> WordSet \<Rightarrow> (WordSetU \<times> bool) option" where
  "isEmptyWS h u ws =
     do { (_, wv) \<leftarrow> do_ix2vec h u ws;
          let u = u\<lparr>n_isEmpty := n_isEmpty u + 1\<rparr>;
          if words wv = [] then do { vg_assert (ws = ws_empty u); Some (u, True) }
          else do { vg_assert (ws \<noteq> ws_empty u); Some (u, False) } }"

definition isSingletonWS :: "vheap \<Rightarrow> WordSetU \<Rightarrow> WordSet \<Rightarrow> UWord \<Rightarrow> (WordSetU \<times> bool) option" where
  "isSingletonWS h u ws w =
     (let u = u\<lparr>n_isSingleton := n_isSingleton u + 1\<rparr> in
      do { (_, wv) \<leftarrow> do_ix2vec h u ws;
           Some (u, length (words wv) = 1 \<and> words wv ! 0 = w) })"

definition cardinalityWS :: "vheap \<Rightarrow> WordSetU \<Rightarrow> WordSet \<Rightarrow> nat option" where
  "cardinalityWS h u ws = do { (_, wv) \<leftarrow> do_ix2vec h u ws; Some (length (words wv)) }"

definition anyElementOfWS :: "vheap \<Rightarrow> WordSetU \<Rightarrow> WordSet \<Rightarrow> (WordSetU \<times> UWord) option" where
  "anyElementOfWS h u ws =
     (let u = u\<lparr>n_anyElementOf := n_anyElementOf u + 1\<rparr> in
      do { (_, wv) \<leftarrow> do_ix2vec h u ws;
           vg_assert (length (words wv) \<ge> 1);
           Some (u, words wv ! 0) })"

definition cardinalityWSU :: "WordSetU \<Rightarrow> UWord" where
  "cardinalityWSU u = ix2vec_used u"

definition getPayloadWS :: "vheap \<Rightarrow> WordSetU \<Rightarrow> WordSet \<Rightarrow> UWord list option" where
  "getPayloadWS h u ws = do { (_, wv) \<leftarrow> do_ix2vec h u ws; Some (words wv) }"

definition dieWS :: "vheap \<Rightarrow> WordSetU \<Rightarrow> WordSet \<Rightarrow> (vheap \<times> WordSetU) option" where
  "dieWS h u ws =
     do { x \<leftarrow> do_ix2vec_with_dead h u ws;
          if ws = 0 then Some (h, u)
          else case x of
            None \<Rightarrow> Some (h, u)
          | Some (a, _) \<Rightarrow>
              do { let u = u\<lparr>n_die := n_die u + 1, ix2vec := (ix2vec u)[unat ws := Link (ix2vec_free u)], ix2vec_free := Some (unat ws)\<rparr>;
                   (fm, kv) \<leftarrow> delFromFM (the_fm h u) a;
                   (_, wv_ix) \<leftarrow> kv;
                   vg_assert (wv_ix \<noteq> 0);
                   vg_assert (wv_ix = ucast ws);
                   h \<leftarrow> delete_WV a h;
                   Some (h, u\<lparr>vec2ix := fm,
                     cache_addTo := (cache_addTo u)\<lparr>inUse := 0\<rparr>, cache_delFrom := (cache_delFrom u)\<lparr>inUse := 0\<rparr>,
                     cache_intersect := (cache_intersect u)\<lparr>inUse := 0\<rparr>, cache_minus := (cache_minus u)\<lparr>inUse := 0\<rparr>\<rparr>) } }"

definition plausibleWS :: "WordSetU \<Rightarrow> WordSet \<Rightarrow> bool" where
  "plausibleWS u ws = (\<not> ucast ws \<ge> ix2vec_used u)"

definition saneWS_SLOW :: "vheap \<Rightarrow> WordSetU \<Rightarrow> WordSet \<Rightarrow> bool option" where
  "saneWS_SLOW h u ws =
     (if ucast ws \<ge> ix2vec_used u then Some False
      else do { (_, wv) \<leftarrow> do_ix2vec h u ws;
                if owner wv \<noteq> self u then Some False
                else Some (list_all (\<lambda>i. words wv ! i < words wv ! (i + 1)) [0..<length (words wv) - 1]) })"

definition elemWS :: "vheap \<Rightarrow> WordSetU \<Rightarrow> WordSet \<Rightarrow> UWord \<Rightarrow> (WordSetU \<times> bool) option" where
  "elemWS h u ws w =
     do { (_, wv) \<leftarrow> do_ix2vec h u ws;
          Some (u\<lparr>n_elem := n_elem u + 1\<rparr>, list_ex (\<lambda>x. x = w) (words wv)) }"

definition doubletonWS :: "vheap \<Rightarrow> WordSetU \<Rightarrow> Addr \<Rightarrow> UWord \<Rightarrow> UWord \<Rightarrow> (vheap \<times> WordSetU \<times> WordSet) option" where
  "doubletonWS h u p w1 w2 =
     (let u = u\<lparr>n_doubleton := n_doubleton u + 1\<rparr> in
      if w1 = w2 then add_or_dealloc_WordVec (new_WV u p [w1] h) u p
      else if w1 < w2 then add_or_dealloc_WordVec (new_WV u p [w1, w2] h) u p
      else add_or_dealloc_WordVec (new_WV u p [w2, w1] h) u p)"

definition singletonWS :: "vheap \<Rightarrow> WordSetU \<Rightarrow> Addr \<Rightarrow> UWord \<Rightarrow> (vheap \<times> WordSetU \<times> WordSet) option" where
  "singletonWS h u p w = doubletonWS h u p w w"

text \<open>The new vector of \<open>addToWS\<close> for a word that is not in \<open>ws\<close>.\<close>

definition add_word :: "UWord list \<Rightarrow> UWord \<Rightarrow> UWord list option" where
  "add_word ws w =
     (let lo = takeWhile (\<lambda>x. x < w) ws; hi = drop (length lo) ws in
      do { vg_assert (list_all (\<lambda>x. x > w) hi);
           vg_assert (length (lo @ w # hi) = length ws + 1);
           Some (lo @ w # hi) })"

definition addToWS :: "vheap \<Rightarrow> WordSetU \<Rightarrow> Addr \<Rightarrow> WordSet \<Rightarrow> UWord \<Rightarrow> (vheap \<times> WordSetU \<times> WordSet) option" where
  "addToWS h u p ws w =
     (let u = u\<lparr>n_add := n_add u + 1\<rparr> in
      do { (c, hit) \<leftarrow> WCache_LOOKUP (cache_addTo u) (ucast ws) w;
           let u = u\<lparr>cache_addTo := c\<rparr>;
           case hit of
             Some r \<Rightarrow> Some (h, u, ucast r)
           | None \<Rightarrow>
               do { let u = u\<lparr>n_add_uncached := n_add_uncached u + 1\<rparr>;
                    (_, wv) \<leftarrow> do_ix2vec h u ws;
                    (h, u, result) \<leftarrow>
                      (if list_ex (\<lambda>x. x = w) (words wv) then Some (h, u, ws)
                       else do { new \<leftarrow> add_word (words wv) w;
                                 (h, u, r) \<leftarrow> add_or_dealloc_WordVec (new_WV u p new h) u p;
                                 vg_assert (r \<noteq> -1);
                                 Some (h, u, r) });
                    c \<leftarrow> WCache_UPDATE (cache_addTo u) (ucast ws) w (ucast result);
                    Some (h, u\<lparr>cache_addTo := c\<rparr>, result) } })"

text \<open>All words but the one at index \<open>i\<close>.\<close>

definition del_index :: "nat \<Rightarrow> UWord list \<Rightarrow> UWord list" where
  "del_index i ws = map (\<lambda>j. ws ! j) (filter (\<lambda>j. j \<noteq> i) [0..<length ws])"

definition delFromWS :: "vheap \<Rightarrow> WordSetU \<Rightarrow> Addr \<Rightarrow> WordSet \<Rightarrow> UWord \<Rightarrow> (vheap \<times> WordSetU \<times> WordSet) option" where
  "delFromWS h u p ws w =
     do { (_, wv) \<leftarrow> do_ix2vec h u ws;
          let u = u\<lparr>n_del := n_del u + 1\<rparr>;
          if words wv = [] then do { vg_assert (ws = ws_empty u); Some (h, u, ws) }
          else
            do { (c, hit) \<leftarrow> WCache_LOOKUP (cache_delFrom u) (ucast ws) w;
                 let u = u\<lparr>cache_delFrom := c\<rparr>;
                 case hit of
                   Some r \<Rightarrow> Some (h, u, ucast r)
                 | None \<Rightarrow>
                     do { let u = u\<lparr>n_del_uncached := n_del_uncached u + 1\<rparr>;
                          (h, u, result) \<leftarrow>
                            (case find (\<lambda>i. words wv ! i = w) [0..<length (words wv)] of
                               None \<Rightarrow> Some (h, u, ws)
                             | Some i \<Rightarrow>
                                 do { let new = del_index i (words wv);
                                      vg_assert (length new = length (words wv) - 1);
                                      (h, u, r) \<leftarrow> add_or_dealloc_WordVec (new_WV u p new h) u p;
                                      vg_assert (length (words wv) = 1 \<longrightarrow> r = ws_empty u);
                                      Some (h, u, r) });
                          c \<leftarrow> WCache_UPDATE (cache_delFrom u) (ucast ws) w (ucast result);
                          Some (h, u\<lparr>cache_delFrom := c\<rparr>, result) } } }"

text \<open>The two loops of \<open>unionWS\<close> walk along both vectors: the first counts, the second copies.\<close>

fun union_size :: "UWord list \<Rightarrow> UWord list \<Rightarrow> nat" where
  "union_size (x # xs) (y # ys) =
     1 + (if x < y then union_size xs (y # ys) else if x > y then union_size (x # xs) ys else union_size xs ys)"
| "union_size [] ys = length ys"
| "union_size xs [] = length xs"

fun union_words :: "UWord list \<Rightarrow> UWord list \<Rightarrow> UWord list" where
  "union_words (x # xs) (y # ys) =
     (if x < y then x # union_words xs (y # ys) else if x > y then y # union_words (x # xs) ys else x # union_words xs ys)"
| "union_words [] ys = ys"
| "union_words xs [] = xs"

definition unionWS :: "vheap \<Rightarrow> WordSetU \<Rightarrow> Addr \<Rightarrow> WordSet \<Rightarrow> WordSet \<Rightarrow> (vheap \<times> WordSetU \<times> WordSet) option" where
  "unionWS h u p ws1 ws2 =
     do { (_, wv1) \<leftarrow> do_ix2vec h u ws1;
          (_, wv2) \<leftarrow> do_ix2vec h u ws2;
          let u = u\<lparr>n_union := n_union u + 1\<rparr>;
          let sz = union_size (words wv1) (words wv2);
          let new = union_words (words wv1) (words wv2);
          vg_assert (length new = sz);
          add_or_dealloc_WordVec (new_WV u p new h) u p }"

fun inter_size :: "UWord list \<Rightarrow> UWord list \<Rightarrow> nat" where
  "inter_size (x # xs) (y # ys) =
     (if x < y then inter_size xs (y # ys) else if x > y then inter_size (x # xs) ys else 1 + inter_size xs ys)"
| "inter_size _ _ = 0"

fun inter_words :: "UWord list \<Rightarrow> UWord list \<Rightarrow> UWord list" where
  "inter_words (x # xs) (y # ys) =
     (if x < y then inter_words xs (y # ys) else if x > y then inter_words (x # xs) ys else x # inter_words xs ys)"
| "inter_words _ _ = []"

definition intersectWS :: "vheap \<Rightarrow> WordSetU \<Rightarrow> Addr \<Rightarrow> WordSet \<Rightarrow> WordSet \<Rightarrow> (vheap \<times> WordSetU \<times> WordSet) option" where
  "intersectWS h u p ws1 ws2 =
     (let u = u\<lparr>n_intersect := n_intersect u + 1\<rparr> in
      if ws1 = ws2 then Some (h, u, ws1)
      else
        (let (ws1, ws2) = (if ws1 > ws2 then (ws2, ws1) else (ws1, ws2)) in
         do { (c, hit) \<leftarrow> WCache_LOOKUP (cache_intersect u) (ucast ws1) (ucast ws2);
              let u = u\<lparr>cache_intersect := c\<rparr>;
              case hit of
                Some r \<Rightarrow> Some (h, u, ucast r)
              | None \<Rightarrow>
                  do { let u = u\<lparr>n_intersect_uncached := n_intersect_uncached u + 1\<rparr>;
                       (_, wv1) \<leftarrow> do_ix2vec h u ws1;
                       (_, wv2) \<leftarrow> do_ix2vec h u ws2;
                       let sz = inter_size (words wv1) (words wv2);
                       let new = inter_words (words wv1) (words wv2);
                       vg_assert (length new = sz);
                       (h, u, r) \<leftarrow> add_or_dealloc_WordVec (new_WV u p new h) u p;
                       vg_assert (sz = 0 \<longrightarrow> r = ws_empty u);
                       vg_assert (r \<noteq> -1);
                       c \<leftarrow> WCache_UPDATE (cache_intersect u) (ucast ws1) (ucast ws2) (ucast r);
                       Some (h, u\<lparr>cache_intersect := c\<rparr>, r) } }))"

fun minus_size :: "UWord list \<Rightarrow> UWord list \<Rightarrow> nat" where
  "minus_size (x # xs) (y # ys) =
     (if x < y then 1 + minus_size xs (y # ys) else if x > y then minus_size (x # xs) ys else minus_size xs ys)"
| "minus_size [] ys = 0"
| "minus_size xs [] = length xs"

fun minus_words :: "UWord list \<Rightarrow> UWord list \<Rightarrow> UWord list" where
  "minus_words (x # xs) (y # ys) =
     (if x < y then x # minus_words xs (y # ys) else if x > y then minus_words (x # xs) ys else minus_words xs ys)"
| "minus_words [] ys = []"
| "minus_words xs [] = xs"

definition minusWS :: "vheap \<Rightarrow> WordSetU \<Rightarrow> Addr \<Rightarrow> WordSet \<Rightarrow> WordSet \<Rightarrow> (vheap \<times> WordSetU \<times> WordSet) option" where
  "minusWS h u p ws1 ws2 =
     (let u = u\<lparr>n_minus := n_minus u + 1\<rparr> in
      do { (c, hit) \<leftarrow> WCache_LOOKUP (cache_minus u) (ucast ws1) (ucast ws2);
           let u = u\<lparr>cache_minus := c\<rparr>;
           case hit of
             Some r \<Rightarrow> Some (h, u, ucast r)
           | None \<Rightarrow>
               do { let u = u\<lparr>n_minus_uncached := n_minus_uncached u + 1\<rparr>;
                    (_, wv1) \<leftarrow> do_ix2vec h u ws1;
                    (_, wv2) \<leftarrow> do_ix2vec h u ws2;
                    let sz = minus_size (words wv1) (words wv2);
                    let new = minus_words (words wv1) (words wv2);
                    vg_assert (length new = sz);
                    (h, u, r) \<leftarrow> add_or_dealloc_WordVec (new_WV u p new h) u p;
                    vg_assert (sz = 0 \<longrightarrow> r = ws_empty u);
                    vg_assert (r \<noteq> -1);
                    c \<leftarrow> WCache_UPDATE (cache_minus u) (ucast ws1) (ucast ws2) (ucast r);
                    Some (h, u\<lparr>cache_minus := c\<rparr>, r) } })"

definition isSubsetOf :: "vheap \<Rightarrow> WordSetU \<Rightarrow> Addr \<Rightarrow> WordSet \<Rightarrow> WordSet \<Rightarrow> (vheap \<times> WordSetU \<times> bool) option" where
  "isSubsetOf h u p small big =
     (let u = u\<lparr>n_isSubsetOf := n_isSubsetOf u + 1\<rparr> in
      do { (h, u, r) \<leftarrow> intersectWS h u p small big;
           Some (h, u, small = r) })"

end
