(* ===== verification/WordSet_Props.thy ===== *)
theory WordSet_Props
  imports WordSet WordFM_Iter
begin

text \<open>
  What the word sets of Helgrind promise: numbers of sets stand for finite sets of words, equal sets have equal numbers, the
  operations are those of sets, and a number keeps its meaning until its set dies.
\<close>

section \<open>The order of vectors\<close>

lemma cmp_contents_range: "cmp_contents v w \<in> {-1, 0, 1}"
  by (induction v w rule: cmp_contents.induct) auto

lemma cmp_contents_0: "length v = length w \<Longrightarrow> cmp_contents v w = 0 \<longleftrightarrow> v = w"
  by (induction v w rule: cmp_contents.induct) auto

lemma cmp_contents_flip: "cmp_contents w v = - cmp_contents v w"
  by (induction v w rule: cmp_contents.induct) (auto split: list.splits)

lemma cmp_contents_trans:
  "length v = length w \<Longrightarrow> length w = length x \<Longrightarrow> cmp_contents v w \<le> 0 \<Longrightarrow> cmp_contents w x \<le> 0 \<Longrightarrow> cmp_contents v x \<le> 0"
proof (induction v w arbitrary: x rule: cmp_contents.induct)
  case (1 a as b bs)
  then obtain c cs where x: "x = c # cs" by (cases x) auto
  show ?case using "1.IH" [of cs] "1.prems" unfolding x by (auto split: if_splits)
qed auto

lemma cmp_words_0: "cmp_words v w = 0 \<longleftrightarrow> v = w"
  using cmp_contents_0 [of v w] by (auto simp: cmp_words_def)

lemma cmp_words_flip: "cmp_words w v = - cmp_words v w"
  by (simp add: cmp_words_def cmp_contents_flip [of w v])

lemma cmp_words_antisym: "cmp_words v w < 0 \<longleftrightarrow> cmp_words w v > 0"
  by (simp add: cmp_words_flip [of w v])

lemma cmp_words_range: "cmp_words v w \<in> {-1, 0, 1}"
  using cmp_contents_range [of v w] by (auto simp: cmp_words_def)

lemma cmp_words_trans: "cmp_words v w \<le> 0 \<Longrightarrow> cmp_words w x \<le> 0 \<Longrightarrow> cmp_words v x \<le> 0"
  using cmp_contents_trans [of v w x] by (auto simp: cmp_words_def split: if_splits)

definition wvcmp :: "vheap \<Rightarrow> UWord \<Rightarrow> UWord \<Rightarrow> int" where
  "wvcmp h a b =
     (case (h a, h b) of
        (Some v, Some w) \<Rightarrow> cmp_words (words v) (words w)
      | (None, Some _) \<Rightarrow> -1
      | (Some _, None) \<Rightarrow> 1
      | (None, None) \<Rightarrow> 0)"

lemma sint_cmp: "sint (cmp_WordVecs_for_FM h a b) = wvcmp h a b"
proof -
  have "sint (word_of_int x :: 64 word) = x" if "x \<in> {-1, 0, 1}" for x using that by auto
  then show ?thesis using cmp_words_range by (simp add: cmp_WordVecs_for_FM_def wvcmp_def split: option.split)
qed

interpretation vec_order: comparator "wvcmp h" for h
proof (unfold_locales, goal_cases)
  case (1 a)
  then show ?case by (simp add: wvcmp_def cmp_words_0 split: option.split)
next
  case (2 a b)
  show ?case by (simp add: wvcmp_def cmp_words_antisym split: option.split)
next
  case (3 a b c)
  then show ?case using cmp_words_trans by (auto simp: wvcmp_def split: option.splits)
qed

lemma fm_cmp_the [simp]: "fm_cmp (the_fm h u) = wvcmp h"
  by (simp add: fm_cmp_def the_fm_def kcmp_res_def sint_cmp fun_eq_iff)

lemma fm_list_the [simp]: "fm_list (the_fm h u) = fm_list (vec2ix u)"
  by (simp add: the_fm_def fm_list_def)

lemma fm_ok_the: "fm_ok (the_fm h u) \<longleftrightarrow> avl (root (vec2ix u)) \<and> ordered (wvcmp h) (fm_list (vec2ix u))"
  by (simp add: fm_ok_def vec_order.comparator_axioms) (simp add: the_fm_def)

lemma ordered_heap:
  assumes "\<forall>x \<in> set xs. h' (fst x) = h (fst x)"
  shows "ordered (wvcmp h') xs = ordered (wvcmp h) xs"
proof -
  have "wvcmp h' (fst x) (fst y) = wvcmp h (fst x) (fst y)" if "x \<in> set xs" "y \<in> set xs" for x y
    using assms that by (simp add: wvcmp_def)
  then show ?thesis unfolding ordered_def by (auto intro: sorted_wrt_mono_rel [rotated])
qed

section \<open>Sorted vectors as sets\<close>

abbreviation sorted_vec :: "UWord list \<Rightarrow> bool" where
  "sorted_vec \<equiv> sorted_wrt (<)"

lemma sorted_vec_unique: "sorted_vec v \<Longrightarrow> sorted_vec w \<Longrightarrow> set v = set w \<Longrightarrow> v = w"
  by (metis strict_sorted_iff sorted_distinct_set_unique)

lemma add_word_ok:
  assumes "sorted_vec ws" "w \<notin> set ws"
  shows "\<exists>new. add_word ws w = Some new \<and> sorted_vec new \<and> set new = insert w (set ws)"
proof -
  define lo where "lo = takeWhile (\<lambda>x. x < w) ws"
  define hi where "hi = dropWhile (\<lambda>x. x < w) ws"
  have ws: "lo @ hi = ws" by (simp add: lo_def hi_def)
  have hi_drop: "drop (length lo) ws = hi" by (simp add: ws [symmetric])
  have lo: "\<forall>x \<in> set lo. x < w" unfolding lo_def using set_takeWhileD by metis
  have s: "sorted_vec (lo @ hi)" "w \<notin> set (lo @ hi)" using assms unfolding ws by blast+
  have hi: "\<forall>x \<in> set hi. w < x"
  proof (cases hi)
    case (Cons y ys)
    have "\<not> y < w" using hd_dropWhile [of "\<lambda>x. x < w" ws] Cons unfolding hi_def by simp
    then have "w < y" using s(2) Cons by auto
    then show ?thesis using s(1) Cons by (auto simp: sorted_wrt_append)
  qed simp
  have "length (lo @ w # hi) = length (lo @ hi) + 1" by simp
  then have "length (lo @ w # hi) = length ws + 1" by (simp only: ws)
  then have "add_word ws w = Some (lo @ w # hi)"
    unfolding add_word_def Let_def lo_def [symmetric] hi_drop using hi by (simp only: list_all_iff vg_assert_bind) simp
  moreover have "sorted_vec (lo @ w # hi)" using s lo hi by (auto simp: sorted_wrt_append)
  moreover have "set (lo @ w # hi) = insert w (set (lo @ hi))" by simp
  ultimately show ?thesis unfolding ws by blast
qed

lemma del_index_take: "i < length ws \<Longrightarrow> del_index i ws = take i ws @ drop (Suc i) ws"
proof -
  assume i: "i < length ws"
  have u: "[0..<length ws] = [0..<i] @ i # [Suc i..<length ws]" using i upt_add_eq_append [of 0 i "length ws - i"] by (simp add: upt_conv_Cons)
  have f: "filter (\<lambda>j. j \<noteq> i) [0..<i] = [0..<i]" "filter (\<lambda>j. j \<noteq> i) [Suc i..<length ws] = [Suc i..<length ws]" by (simp_all add: filter_id_conv)
  have m: "map ((!) ws) [0..<i] = take i ws" "map ((!) ws) [Suc i..<length ws] = drop (Suc i) ws"
    using i by (intro nth_equalityI; simp)+
  show ?thesis by (simp add: del_index_def u f m)
qed

lemma del_index_ok:
  assumes "sorted_vec ws" "i < length ws"
  shows "sorted_vec (del_index i ws)" "set (del_index i ws) = set ws - {ws ! i}" "length (del_index i ws) = length ws - 1"
proof -
  have ws: "ws = take i ws @ ws ! i # drop (Suc i) ws" by (rule id_take_nth_drop [OF assms(2)])
  have s: "sorted_vec (take i ws @ ws ! i # drop (Suc i) ws)" using assms(1) ws by simp
  then show "sorted_vec (del_index i ws)" by (simp add: del_index_take [OF assms(2)] sorted_wrt_append)
  have "ws ! i \<notin> set (take i ws) \<union> set (drop (Suc i) ws)" using s by (auto simp: sorted_wrt_append)
  moreover have "set ws = insert (ws ! i) (set (take i ws) \<union> set (drop (Suc i) ws))" by (subst ws) auto
  ultimately show "set (del_index i ws) = set ws - {ws ! i}" by (simp add: del_index_take [OF assms(2)])
  show "length (del_index i ws) = length ws - 1" using assms(2) by (simp add: del_index_take)
qed

text \<open>Where the walk along two sorted vectors stands.\<close>

lemma sorted_heads:
  assumes "sorted_vec (x # xs)" "sorted_vec (y # ys)"
  shows "x < y \<Longrightarrow> x \<notin> set (y # ys) \<and> (\<forall>z \<in> set (y # ys). x < z)" "y < x \<Longrightarrow> y \<notin> set (x # xs) \<and> (\<forall>z \<in> set (x # xs). y < z)"
    "\<forall>z \<in> set xs. x < z" "\<forall>z \<in> set ys. y < z" "x \<notin> set xs" "y \<notin> set ys"
  using assms by (auto dest: less_trans)

lemma union_ok:
  "sorted_vec v \<Longrightarrow> sorted_vec w \<Longrightarrow> sorted_vec (union_words v w) \<and> set (union_words v w) = set v \<union> set w
    \<and> length (union_words v w) = union_size v w"
proof (induction v w rule: union_words.induct)
  case (1 x xs y ys)
  note h = sorted_heads [OF "1.prems"]
  consider (lt) "x < y" | (gt) "y < x" | (eq) "x = y" by fastforce
  then show ?case
  proof cases
    case lt
    then have "sorted_vec (union_words xs (y # ys)) \<and> set (union_words xs (y # ys)) = set xs \<union> set (y # ys)
      \<and> length (union_words xs (y # ys)) = union_size xs (y # ys)" using "1.IH"(1) "1.prems" by simp
    then show ?thesis using lt h(1) [OF lt] h(3) by auto
  next
    case gt
    then have "sorted_vec (union_words (x # xs) ys) \<and> set (union_words (x # xs) ys) = set (x # xs) \<union> set ys
      \<and> length (union_words (x # xs) ys) = union_size (x # xs) ys" using "1.IH"(2) "1.prems" by simp
    then show ?thesis using gt h(2) [OF gt] h(4) by auto
  next
    case eq
    then have "sorted_vec (union_words xs ys) \<and> set (union_words xs ys) = set xs \<union> set ys
      \<and> length (union_words xs ys) = union_size xs ys" using "1.IH"(3) "1.prems" by simp
    then show ?thesis using eq h(3,4) by auto
  qed
qed auto

lemma inter_ok:
  "sorted_vec v \<Longrightarrow> sorted_vec w \<Longrightarrow> sorted_vec (inter_words v w) \<and> set (inter_words v w) = set v \<inter> set w
    \<and> length (inter_words v w) = inter_size v w"
proof (induction v w rule: inter_words.induct)
  case (1 x xs y ys)
  note h = sorted_heads [OF "1.prems"]
  consider (lt) "x < y" | (gt) "y < x" | (eq) "x = y" by fastforce
  then show ?case
  proof cases
    case lt
    then have "sorted_vec (inter_words xs (y # ys)) \<and> set (inter_words xs (y # ys)) = set xs \<inter> set (y # ys)
      \<and> length (inter_words xs (y # ys)) = inter_size xs (y # ys)" using "1.IH"(1) "1.prems" by simp
    moreover have "set (x # xs) \<inter> set (y # ys) = set xs \<inter> set (y # ys)" using h(1) [OF lt] by simp
    ultimately show ?thesis using lt by simp
  next
    case gt
    then have "sorted_vec (inter_words (x # xs) ys) \<and> set (inter_words (x # xs) ys) = set (x # xs) \<inter> set ys
      \<and> length (inter_words (x # xs) ys) = inter_size (x # xs) ys" using "1.IH"(2) "1.prems" by simp
    moreover have "set (x # xs) \<inter> set (y # ys) = set (x # xs) \<inter> set ys" using h(2) [OF gt] by simp
    ultimately show ?thesis using gt less_not_sym [OF gt] by simp
  next
    case eq
    then have "sorted_vec (inter_words xs ys) \<and> set (inter_words xs ys) = set xs \<inter> set ys
      \<and> length (inter_words xs ys) = inter_size xs ys" using "1.IH"(3) "1.prems" by simp
    then show ?thesis using eq h(3-6) by auto
  qed
qed auto

lemma minus_ok:
  "sorted_vec v \<Longrightarrow> sorted_vec w \<Longrightarrow> sorted_vec (minus_words v w) \<and> set (minus_words v w) = set v - set w
    \<and> length (minus_words v w) = minus_size v w"
proof (induction v w rule: minus_words.induct)
  case (1 x xs y ys)
  note h = sorted_heads [OF "1.prems"]
  consider (lt) "x < y" | (gt) "y < x" | (eq) "x = y" by fastforce
  then show ?case
  proof cases
    case lt
    then have "sorted_vec (minus_words xs (y # ys)) \<and> set (minus_words xs (y # ys)) = set xs - set (y # ys)
      \<and> length (minus_words xs (y # ys)) = minus_size xs (y # ys)" using "1.IH"(1) "1.prems" by simp
    then show ?thesis using lt h(1) [OF lt] h(3) by auto
  next
    case gt
    then have "sorted_vec (minus_words (x # xs) ys) \<and> set (minus_words (x # xs) ys) = set (x # xs) - set ys
      \<and> length (minus_words (x # xs) ys) = minus_size (x # xs) ys" using "1.IH"(2) "1.prems" by simp
    moreover have "set (x # xs) - set (y # ys) = set (x # xs) - set ys" using h(2) [OF gt] by auto
    ultimately show ?thesis using gt less_not_sym [OF gt] by simp
  next
    case eq
    then have "sorted_vec (minus_words xs ys) \<and> set (minus_words xs ys) = set xs - set ys
      \<and> length (minus_words xs ys) = minus_size xs ys" using "1.IH"(3) "1.prems" by simp
    moreover have "set (x # xs) - set (y # ys) = set xs - set ys" using h(5) eq by auto
    ultimately show ?thesis using eq by simp
  qed
qed auto

section \<open>The invariant\<close>

text \<open>The set that a number stands for.\<close>

definition vec_at :: "vheap \<Rightarrow> WordSetU \<Rightarrow> nat \<Rightarrow> (Addr \<times> WordVec) option" where
  "vec_at h u i = (if i < length (ix2vec u) then deref_wv h (ix2vec u ! i) else None)"

definition sem :: "vheap \<Rightarrow> WordSetU \<Rightarrow> nat \<Rightarrow> UWord set option" where
  "sem h u i = map_option (\<lambda>x. set (words (snd x))) (vec_at h u i)"

text \<open>The list of the free numbers.\<close>

fun fchain :: "ix_entry list \<Rightarrow> nat option \<Rightarrow> nat list \<Rightarrow> bool" where
  "fchain es s [] \<longleftrightarrow> s = None"
| "fchain es s (i # is) \<longleftrightarrow> s = Some i \<and> 1 \<le> i \<and> i < length es \<and> (\<exists>n. es ! i = Link n \<and> fchain es n is)"

definition vecs_ok :: "vheap \<Rightarrow> WordSetU \<Rightarrow> bool" where
  "vecs_ok h u \<longleftrightarrow>
     (\<forall>i < length (ix2vec u). \<forall>a. ix2vec u ! i = WV a \<longrightarrow> a \<noteq> 0 \<and> (\<exists>v. h a = Some v \<and> owner v = self u \<and> sorted_vec (words v)))
     \<and> (\<forall>i j a b. vec_at h u i = Some a \<longrightarrow> vec_at h u j = Some b \<longrightarrow> words (snd a) = words (snd b) \<longrightarrow> i = j)"

definition map_ok :: "vheap \<Rightarrow> WordSetU \<Rightarrow> bool" where
  "map_ok h u \<longleftrightarrow> fm_ok (the_fm h u)
     \<and> (\<forall>a x. (a, x) \<in> set (fm_list (vec2ix u)) \<longleftrightarrow> (\<exists>i < length (ix2vec u). ix2vec u ! i = WV a \<and> x = of_nat i))"

definition free_ok :: "WordSetU \<Rightarrow> bool" where
  "free_ok u \<longleftrightarrow> (\<exists>fs. fchain (ix2vec u) (ix2vec_free u) fs \<and> distinct fs
     \<and> set fs = {i. i < length (ix2vec u) \<and> (\<exists>n. ix2vec u ! i = Link n)})"

definition size_ok :: "WordSetU \<Rightarrow> bool" where
  "size_ok u \<longleftrightarrow> length (ix2vec u) \<le> unat (ix2vec_size u) \<and> unat (ix2vec_size u) < 2 ^ 32 \<and> length (ix2vec u) \<le> 2 ^ 31"

definition core_ok :: "vheap \<Rightarrow> WordSetU \<Rightarrow> bool" where
  "core_ok h u \<longleftrightarrow> vecs_ok h u \<and> map_ok h u \<and> free_ok u \<and> size_ok u"

lemma vec_at_Some:
  assumes "vec_at h u i = Some (a, v)"
  shows "i < length (ix2vec u)" "ix2vec u ! i = WV a" "h a = Some v"
  using assms by (auto simp: vec_at_def deref_wv_def split: if_splits ix_entry.splits)

lemma vec_at_WV: "i < length (ix2vec u) \<Longrightarrow> ix2vec u ! i = WV a \<Longrightarrow> h a = Some v \<Longrightarrow> vec_at h u i = Some (a, v)"
  by (simp add: vec_at_def deref_wv_def)

lemma vecs_okD:
  assumes "vecs_ok h u" "vec_at h u i = Some (a, v)"
  shows "a \<noteq> 0" "owner v = self u" "sorted_vec (words v)"
  using assms vec_at_Some [OF assms(2)] by (auto simp: vecs_ok_def)

lemma vecs_ok_entry: "vecs_ok h u \<Longrightarrow> i < length (ix2vec u) \<Longrightarrow> ix2vec u ! i = WV a
    \<Longrightarrow> a \<noteq> 0 \<and> (\<exists>v. h a = Some v \<and> owner v = self u \<and> sorted_vec (words v))"
  unfolding vecs_ok_def by blast

lemma entry_WV: "vecs_ok h u \<Longrightarrow> i < length (ix2vec u) \<Longrightarrow> ix2vec u ! i = WV a \<Longrightarrow> \<exists>v. vec_at h u i = Some (a, v)"
  using vecs_ok_entry [of h u i a] vec_at_WV [of i u a h] by blast

text \<open>Equal sets have equal numbers.\<close>

lemma sem_inj:
  assumes "vecs_ok h u" "sem h u i = Some S" "sem h u j = Some S"
  shows "i = j"
proof -
  obtain a v b w where x: "vec_at h u i = Some (a, v)" "set (words v) = S" "vec_at h u j = Some (b, w)" "set (words w) = S"
    using assms(2,3) by (auto simp: sem_def)
  have "words v = words w" using sorted_vec_unique vecs_okD(3) [OF assms(1)] x by metis
  then show ?thesis using assms(1) x by (auto simp: vecs_ok_def)
qed

lemma used_unat: "size_ok u \<Longrightarrow> unat (ix2vec_used u) = length (ix2vec u)"
  by (simp add: size_ok_def ix2vec_used_def unsigned_of_nat take_bit_nat_eq_self)

lemma used_le: "size_ok u \<Longrightarrow> ix2vec_used u \<le> ix2vec_size u"
  using used_unat by (simp add: word_le_nat_alt size_ok_def)

lemma unat_ucast_up: "unat (ucast (x :: UInt) :: UWord) = unat x"
  by (simp add: unsigned_ucast_eq take_bit_nat_eq_self_iff order_less_trans [OF unsigned_less])

lemma do_ix2vec_ok:
  assumes "core_ok h u" "vec_at h u (unat ws) = Some (a, v)"
  shows "do_ix2vec h u ws = Some (a, v)"
proof -
  have s: "size_ok u" and v: "vecs_ok h u" using assms(1) by (auto simp: core_ok_def)
  have "ucast ws < ix2vec_used u" using vec_at_Some(1) [OF assms(2)] used_unat [OF s] by (simp add: word_less_nat_alt unat_ucast_up)
  then show ?thesis
    using used_le [OF s] vec_at_Some [OF assms(2)] vecs_okD(2) [OF v assms(2)] by (simp add: do_ix2vec_def opt_simps deref_wv_def)
qed

lemma sem_do_ix2vec:
  assumes "core_ok h u" "sem h u (unat ws) = Some S"
  obtains a v where "do_ix2vec h u ws = Some (a, v)" "set (words v) = S" "sorted_vec (words v)" "vec_at h u (unat ws) = Some (a, v)"
proof -
  obtain a v where x: "vec_at h u (unat ws) = Some (a, v)" "set (words v) = S" using assms(2) by (auto simp: sem_def)
  then show thesis using that [of a v] do_ix2vec_ok [OF assms(1) x(1)] vecs_okD(3) [of h u, OF _ x(1)] assms(1) by (simp add: core_ok_def)
qed

section \<open>Finding and adding a vector\<close>

text \<open>What an operation that only adds numbers does to the meaning of the others.\<close>

definition live :: "vheap \<Rightarrow> WordSetU \<Rightarrow> Addr set" where
  "live h u = {a. \<exists>i v. vec_at h u i = Some (a, v)}"

definition extends :: "vheap \<Rightarrow> WordSetU \<Rightarrow> vheap \<Rightarrow> WordSetU \<Rightarrow> bool" where
  "extends h u h' u' \<longleftrightarrow> (\<forall>i S. sem h u i = Some S \<longrightarrow> sem h' u' i = Some S)
     \<and> length (ix2vec u') \<le> Suc (length (ix2vec u)) \<and> (\<forall>a. h a \<noteq> None \<longrightarrow> h' a = h a)
     \<and> h' |` (- live h' u') = h |` (- live h u)"

definition same_ctl :: "WordSetU \<Rightarrow> WordSetU \<Rightarrow> bool" where
  "same_ctl u u' \<longleftrightarrow> self u' = self u \<and> ws_empty u' = ws_empty u \<and> cache_addTo u' = cache_addTo u \<and> cache_delFrom u' = cache_delFrom u
     \<and> cache_intersect u' = cache_intersect u \<and> cache_minus u' = cache_minus u"

lemma look_new:
  assumes v: "vecs_ok h u" and m: "map_ok h u" and p: "h p = None" and h': "h' = h(p \<mapsto> x)"
  shows "fm_ok (the_fm h' u)" "lookupFM (the_fm h' u) p = None \<Longrightarrow> vec_at h u i = Some (a, w) \<Longrightarrow> words w \<noteq> words x"
    "lookupFM (the_fm h' u) p = Some (b, y) \<Longrightarrow> \<exists>i w. y = of_nat i \<and> vec_at h u i = Some (b, w) \<and> words w = words x"
proof -
  have keys: "fst y \<noteq> p \<and> (\<exists>v. h (fst y) = Some v)" if "y \<in> set (fm_list (vec2ix u))" for y
  proof -
    have "(fst y, snd y) \<in> set (fm_list (vec2ix u))" using that by simp
    then obtain i where "i < length (ix2vec u)" "ix2vec u ! i = WV (fst y)" using m unfolding map_ok_def by blast
    then have "\<exists>v. h (fst y) = Some v" using vecs_ok_entry [OF v] by blast
    then show ?thesis using p by auto
  qed
  have "ordered (wvcmp h') (fm_list (vec2ix u)) = ordered (wvcmp h) (fm_list (vec2ix u))"
    using keys h' by (intro ordered_heap) auto
  then show ok: "fm_ok (the_fm h' u)" using m by (simp add: map_ok_def fm_ok_the)
  have look: "lookupFM (the_fm h' u) p = look_list (wvcmp h') p (fm_list (vec2ix u))" using lookupFM_list [OF ok, of p] by simp
  have cmp: "wvcmp h' (fst y) p = cmp_words (words v) (words x)" if "h (fst y) = Some v" "fst y \<noteq> p" for y v
    using that h' by (simp add: wvcmp_def)
  {
    assume n: "lookupFM (the_fm h' u) p = None" and i: "vec_at h u i = Some (a, w)"
    have "(a, of_nat i) \<in> set (fm_list (vec2ix u))" using m vec_at_Some [OF i] unfolding map_ok_def by blast
    then have "wvcmp h' a p \<noteq> 0" using n unfolding look look_list_def by (force simp: find_None_iff)
    moreover have "a \<noteq> p" using vec_at_Some(3) [OF i] p by auto
    ultimately show "words w \<noteq> words x" using cmp [of "(a, 0)" w] vec_at_Some(3) [OF i] by (simp add: cmp_words_0)
  }
  {
    assume s: "lookupFM (the_fm h' u) p = Some (b, y)"
    then have b: "(b, y) \<in> set (fm_list (vec2ix u))" "wvcmp h' b p = 0" unfolding look by (auto dest: look_list_SomeD)
    then obtain i where i: "i < length (ix2vec u)" "ix2vec u ! i = WV b" "y = of_nat i" using m unfolding map_ok_def by blast
    obtain w where w: "vec_at h u i = Some (b, w)" using entry_WV [OF v i(1,2)] by blast
    have "words w = words x" using cmp [of "(b, y)" w] vec_at_Some(3) [OF w] keys [OF b(1)] b(2) by (simp add: cmp_words_0)
    then show "\<exists>i w. y = of_nat i \<and> vec_at h u i = Some (b, w) \<and> words w = words x" using i(3) w by blast
  }
qed

lemma set_ins_list: "look_list cmp k xs = None \<Longrightarrow> set (ins_list cmp k v xs) = insert (k, v) (set xs)"
  by (induction cmp k v xs rule: ins_list.induct) (auto simp: look_list_def split: if_splits)

text \<open>The vector \<open>x\<close> at the address \<open>p\<close> gets the number \<open>f\<close>, which is new or was free.\<close>

definition put_at :: "WordSetU \<Rightarrow> nat \<Rightarrow> Addr \<Rightarrow> WordSetU \<Rightarrow> bool" where
  "put_at u f p u' \<longleftrightarrow> f < length (ix2vec u') \<and> ix2vec u' ! f = WV p \<and> self u' = self u
     \<and> (\<forall>k. k \<noteq> f \<longrightarrow> (k < length (ix2vec u') \<longleftrightarrow> k < length (ix2vec u)) \<and> (k < length (ix2vec u) \<longrightarrow> ix2vec u' ! k = ix2vec u ! k))
     \<and> (\<forall>a. f < length (ix2vec u) \<longrightarrow> ix2vec u ! f \<noteq> WV a)"

lemma put_vec_at:
  assumes v: "vecs_ok h u" and p: "h p = None" and u': "put_at u f p u'"
  shows "vec_at (h(p \<mapsto> x)) u' k = (if k = f then Some (p, x) else vec_at h u k)"
proof (cases "k = f")
  case True
  then show ?thesis using u' by (simp add: put_at_def vec_at_def deref_wv_def)
next
  case False
  have "deref_wv (h(p \<mapsto> x)) (ix2vec u ! k) = deref_wv h (ix2vec u ! k)" if k: "k < length (ix2vec u)"
  proof (cases "ix2vec u ! k")
    case (WV a)
    then have "a \<noteq> p" using vecs_ok_entry [OF v k WV] p by auto
    then show ?thesis using WV by (simp add: deref_wv_def)
  qed (simp add: deref_wv_def)
  then show ?thesis using u' False by (auto simp: put_at_def vec_at_def)
qed

lemma vec_at_free: "put_at u f p u' \<Longrightarrow> vec_at h u f = None"
  by (auto simp: put_at_def vec_at_def deref_wv_def split: ix_entry.split)

lemma put_vecs_ok:
  assumes v: "vecs_ok h u" and p: "h p = None" "p \<noteq> 0" and x: "owner x = self u" "sorted_vec (words x)" and u': "put_at u f p u'"
    and new: "\<And>i a w. vec_at h u i = Some (a, w) \<Longrightarrow> words w \<noteq> words x"
  shows "vecs_ok (h(p \<mapsto> x)) u'"
proof -
  have at: "vec_at (h(p \<mapsto> x)) u' k = (if k = f then Some (p, x) else vec_at h u k)" for k by (rule put_vec_at [OF v p(1) u'])
  have "i = j" if "vec_at (h(p \<mapsto> x)) u' i = Some a" "vec_at (h(p \<mapsto> x)) u' j = Some b" "words (snd a) = words (snd b)" for i j a b
  proof -
    have "words (snd a) = words x" if "i = f" using at [of i] \<open>vec_at (h(p \<mapsto> x)) u' i = Some a\<close> that by auto
    moreover have "words (snd b) = words x" if "j = f" using at [of j] \<open>vec_at (h(p \<mapsto> x)) u' j = Some b\<close> that by auto
    moreover have "words (snd a) \<noteq> words x" if "i \<noteq> f" using at [of i] new [of i "fst a" "snd a"] \<open>vec_at (h(p \<mapsto> x)) u' i = Some a\<close> that by auto
    moreover have "words (snd b) \<noteq> words x" if "j \<noteq> f" using at [of j] new [of j "fst b" "snd b"] \<open>vec_at (h(p \<mapsto> x)) u' j = Some b\<close> that by auto
    moreover have "i = j" if "i \<noteq> f" "j \<noteq> f"
    proof -
      have "vec_at h u i = Some a" "vec_at h u j = Some b" using at [of i] at [of j] \<open>vec_at _ u' i = Some a\<close> \<open>vec_at _ u' j = Some b\<close> that by auto
      then show ?thesis using v \<open>words (snd a) = words (snd b)\<close> unfolding vecs_ok_def by blast
    qed
    ultimately show ?thesis using that(3) by metis
  qed
  moreover have "a \<noteq> 0 \<and> (\<exists>v. (h(p \<mapsto> x)) a = Some v \<and> owner v = self u' \<and> sorted_vec (words v))"
    if i: "i < length (ix2vec u')" "ix2vec u' ! i = WV a" for i a
  proof (cases "i = f")
    case True
    then have "a = p" using i u' by (simp add: put_at_def)
    then show ?thesis using p x u' by (simp add: put_at_def)
  next
    case False
    then have "i < length (ix2vec u)" "ix2vec u ! i = WV a" "self u' = self u" using u' i unfolding put_at_def by metis+
    then show ?thesis using vecs_ok_entry [OF v, of i a] p(1) by auto
  qed
  ultimately show ?thesis unfolding vecs_ok_def by blast
qed

lemma put_map_ok:
  assumes v: "vecs_ok h u" and m: "map_ok h u" and p: "h p = None" and u': "put_at u f p u'"
    and look: "lookupFM (the_fm (h(p \<mapsto> x)) u) p = None"
  shows "\<exists>t b. addToFM (the_fm (h(p \<mapsto> x)) u) p (of_nat f) = Some (t, b) \<and> (vec2ix u' = t \<longrightarrow> map_ok (h(p \<mapsto> x)) u')"
proof -
  let ?h = "h(p \<mapsto> x)"
  have ok: "fm_ok (the_fm ?h u)" using look_new(1) [OF v m p] by simp
  obtain t where t: "addToFM (the_fm ?h u) p (of_nat f) = Some ((the_fm ?h u)\<lparr>root := t\<rparr>, lookupFM (the_fm ?h u) p \<noteq> None)"
    "fm_ok ((the_fm ?h u)\<lparr>root := t\<rparr>)" "fm_list ((the_fm ?h u)\<lparr>root := t\<rparr>) = ins_list (wvcmp ?h) p (of_nat f) (fm_list (vec2ix u))"
    using addToFM_list [OF ok, of p "of_nat f"] by auto
  have set: "set (fm_list ((the_fm ?h u)\<lparr>root := t\<rparr>)) = insert (p, of_nat f) (set (fm_list (vec2ix u)))"
    unfolding t(3) using look lookupFM_list [OF ok, of p] by (intro set_ins_list) simp
  have "map_ok ?h u'" if e: "vec2ix u' = (the_fm ?h u)\<lparr>root := t\<rparr>"
  proof -
    have "fm_ok (the_fm ?h u')" using t(2) e by (simp add: fm_ok_the fm_ok_def) (simp add: the_fm_def)
    moreover have "(a, y) \<in> set (fm_list (vec2ix u')) \<longleftrightarrow> (\<exists>i < length (ix2vec u'). ix2vec u' ! i = WV a \<and> y = of_nat i)" for a y
    proof -
      have "(a, y) \<in> set (fm_list (vec2ix u')) \<longleftrightarrow> (a = p \<and> y = of_nat f) \<or> (\<exists>i < length (ix2vec u). ix2vec u ! i = WV a \<and> y = of_nat i)"
        unfolding e set using m by (auto simp: map_ok_def)
      also have "\<dots> \<longleftrightarrow> (\<exists>i < length (ix2vec u'). ix2vec u' ! i = WV a \<and> y = of_nat i)"
        using u' unfolding put_at_def by (metis ix_entry.inject(1))
      finally show ?thesis .
    qed
    ultimately show ?thesis by (simp add: map_ok_def)
  qed
  then show ?thesis using t(1) by blast
qed

lemma put_sem:
  assumes "vecs_ok h u" "h p = None" "put_at u f p u'"
  shows "sem (h(p \<mapsto> x)) u' k = (if k = f then Some (set (words x)) else sem h u k)" "sem h u f = None"
  using put_vec_at [OF assms] vec_at_free [OF assms(3)] by (auto simp: sem_def)

lemma fchain_cong: "\<forall>i \<in> set fs. i < length es' \<and> es' ! i = es ! i \<Longrightarrow> fchain es s fs \<Longrightarrow> fchain es' s fs"
  by (induction fs arbitrary: s) auto

lemma put_core:
  assumes c: "core_ok h u" and p: "h p = None" "p \<noteq> 0" and x: "owner x = self u" "sorted_vec (words x)" and u': "put_at u f p u'"
    and look: "lookupFM (the_fm (h(p \<mapsto> x)) u) p = None"
    and fm: "addToFM (the_fm (h(p \<mapsto> x)) u) p (of_nat f) = Some (vec2ix u', b)"
    and r: "free_ok u'" "size_ok u'" "length (ix2vec u') \<le> Suc (length (ix2vec u))"
  shows "core_ok (h(p \<mapsto> x)) u' \<and> sem (h(p \<mapsto> x)) u' f = Some (set (words x)) \<and> extends h u (h(p \<mapsto> x)) u'"
proof -
  have v: "vecs_ok h u" and m: "map_ok h u" using c by (auto simp: core_ok_def)
  have new: "words w \<noteq> words x" if "vec_at h u i = Some (a, w)" for i a w
    by (rule look_new(2) [OF v m p(1) refl look that])
  have "vecs_ok (h(p \<mapsto> x)) u'" by (rule put_vecs_ok [OF v p x u' new])
  moreover have "map_ok (h(p \<mapsto> x)) u'" using put_map_ok [OF v m p(1) u' look] fm by auto
  moreover have "extends h u (h(p \<mapsto> x)) u'"
  proof -
    note at = put_vec_at [OF v p(1) u', of x]
    have "a \<in> live (h(p \<mapsto> x)) u' \<longleftrightarrow> a = p \<or> a \<in> live h u" for a
    proof
      assume "a \<in> live (h(p \<mapsto> x)) u'"
      then show "a = p \<or> a \<in> live h u" by (auto simp: live_def at split: if_splits)
    next
      assume "a = p \<or> a \<in> live h u"
      then show "a \<in> live (h(p \<mapsto> x)) u'"
      proof
        assume "a = p"
        then show ?thesis using at [of f] by (auto simp: live_def)
      next
        assume "a \<in> live h u"
        then obtain i w where i: "vec_at h u i = Some (a, w)" by (auto simp: live_def)
        then have "i \<noteq> f" using vec_at_free [OF u', of h] by auto
        then show ?thesis using at [of i] i by (auto simp: live_def)
      qed
    qed
    then have "live (h(p \<mapsto> x)) u' = insert p (live h u)" by blast
    then have "(h(p \<mapsto> x)) |` (- live (h(p \<mapsto> x)) u') = h |` (- live h u)"
      using p(1) by (auto simp: restrict_map_def fun_eq_iff)
    then show ?thesis
      using put_sem(1) [OF v p(1) u', of x] put_sem(2) [OF v p(1) u'] r(3) p(1) by (auto simp: extends_def)
  qed
  ultimately show ?thesis using r(1,2) put_sem(1) [OF v p(1) u', of x f] by (simp add: core_ok_def)
qed

lemma add_or_dealloc_ok:
  assumes c: "core_ok h u" and p: "h p = None" "p \<noteq> 0" and ws: "sorted_vec ws" and n: "length (ix2vec u) < 2 ^ 31"
  shows "\<exists>h' u' r. add_or_dealloc_WordVec (new_WV u p ws h) u p = Some (h', u', r) \<and> core_ok h' u' \<and> sem h' u' (unat r) = Some (set ws)
    \<and> extends h u h' u' \<and> same_ctl u u' \<and> unat r < 2 ^ 31"
proof -
  have v: "vecs_ok h u" and m: "map_ok h u" and f: "free_ok u" and s: "size_ok u" using c by (auto simp: core_ok_def)
  let ?x = "\<lparr>owner = self u, words = ws\<rparr>"
  let ?h = "h(p \<mapsto> ?x)"
  have h: "new_WV u p ws h = ?h" by (simp add: new_WV_def)
  show ?thesis
  proof (cases "lookupFM (the_fm ?h u) p")
    case (Some y)
    obtain b y0 where y: "y = (b, y0)" by fastforce
    obtain i w where i: "y0 = of_nat i" "vec_at h u i = Some (b, w)" "words w = ws"
      using look_new(3) [OF v m p(1) refl, where x = ?x and b = b and y = y0] Some y by auto
    note at = vec_at_Some [OF i(2)]
    have i31: "i < 2 ^ 31" using at(1) n by simp
    have u: "unat (of_nat i :: UWord) = i" "unat (ucast (of_nat i :: UWord) :: WordSet) = i"
      using i31 by (simp_all add: unsigned_of_nat take_bit_nat_eq_self unsigned_ucast_eq)
    have "b \<noteq> p" using at(3) p(1) by auto
    have "of_nat i < ix2vec_used u" using at(1) used_unat [OF s] u(1) by (simp add: word_less_nat_alt)
    moreover have "delete_WV p ?h = Some h" using p(1) by (simp add: delete_WV_def fun_upd_idem)
    ultimately have "add_or_dealloc_WordVec ?h u p = Some (h, u, ucast (of_nat i :: UWord))"
      using Some y i(1) at \<open>b \<noteq> p\<close> vecs_okD [OF v i(2)] u(1) by (simp add: add_or_dealloc_WordVec_def opt_simps)
    moreover have "sem h u i = Some (set ws)" using i(2,3) by (simp add: sem_def)
    ultimately show ?thesis using c i31 u(2) by (auto simp: h extends_def same_ctl_def)
  next
    case None
    show ?thesis
    proof (cases "ix2vec_free u")
      case (Some k)
      obtain fs where fs: "fchain (ix2vec u) (Some k) fs" "distinct fs" "set fs = {i. i < length (ix2vec u) \<and> (\<exists>n. ix2vec u ! i = Link n)}"
        using f Some by (auto simp: free_ok_def)
      obtain js l where k: "fs = k # js" "1 \<le> k" "k < length (ix2vec u)" "ix2vec u ! k = Link l" "fchain (ix2vec u) l js"
        using fs(1) by (cases fs) auto
      have k31: "k < 2 ^ 31" using k(3) n by simp
      have uk: "unat (of_nat k :: WordSet) = k" "ucast (of_nat k :: WordSet) = (of_nat k :: UWord)"
        using k31 by (simp_all add: word_unat_eq_iff unat_ucast_up unsigned_of_nat take_bit_nat_eq_self)
      define u1 where "u1 = u\<lparr>ix2vec_free := l, ix2vec := (ix2vec u)[k := WV p]\<rparr>"
      have pa: "put_at u k p (u1\<lparr>vec2ix := t\<rparr>)" for t using k(3,4) by (auto simp: put_at_def u1_def)
      obtain t b where t: "addToFM (the_fm ?h u) p (of_nat k) = Some (t, b)"
        using put_map_ok [OF v m p(1) pa None] by blast
      have dead: "is_dead u (Link (Some k))" using k(2,3) s by (auto simp: size_ok_def)
      have dead': "is_dead u (Link l)"
      proof (cases l)
        case (Some q)
        then have "q \<in> set fs" using k(1,5) by (cases js) auto
        moreover have "1 \<le> q" using k(5) Some by (cases js) auto
        ultimately show ?thesis using fs(3) s Some by (auto simp: size_ok_def)
      qed simp
      have "k \<notin> set js" using fs(2) k(1) by simp
      have "set js \<subseteq> {i. i < length (ix2vec u) \<and> (\<exists>n. ix2vec u ! i = Link n)}" unfolding fs(3) [symmetric] k(1) by auto
      then have js: "\<forall>i \<in> set js. i < length (ix2vec u1) \<and> ix2vec u1 ! i = ix2vec u ! i"
        using \<open>k \<notin> set js\<close> by (auto simp: u1_def) (metis nth_list_update_neq)
      then have "fchain (ix2vec u1) l js" by (rule fchain_cong [OF _ k(5)])
      moreover have "set js = {i. i < length (ix2vec u1) \<and> (\<exists>n. ix2vec u1 ! i = Link n)}"
      proof -
        have "set js = set fs - {k}" using fs(2) k(1) by auto
        also have "\<dots> = {i. i < length (ix2vec u1) \<and> (\<exists>n. ix2vec u1 ! i = Link n)}"
          unfolding fs(3) using k(3) by (auto simp: u1_def nth_list_update)
        finally show ?thesis .
      qed
      ultimately have "free_ok (u1\<lparr>vec2ix := t\<rparr>)" using fs(2) k(1) unfolding free_ok_def by (intro exI [of _ js]) (auto simp: u1_def)
      moreover have "size_ok (u1\<lparr>vec2ix := t\<rparr>)" using s by (simp add: size_ok_def u1_def)
      moreover have "addToFM (the_fm ?h u) p (of_nat k) = Some (vec2ix (u1\<lparr>vec2ix := t\<rparr>), b)" using t by simp
      ultimately have core: "core_ok ?h (u1\<lparr>vec2ix := t\<rparr>) \<and> sem ?h (u1\<lparr>vec2ix := t\<rparr>) k = Some (set ws) \<and> extends h u ?h (u1\<lparr>vec2ix := t\<rparr>)"
        using put_core [OF c p _ _ pa None, of t b] ws by (simp add: u1_def)
      have "add_or_dealloc_WordVec ?h u p = Some (?h, u1\<lparr>vec2ix := t\<rparr>, of_nat k)"
        using None Some dead dead' k(3,4) t uk by (simp add: add_or_dealloc_WordVec_def opt_simps u1_def)
      then show ?thesis using core k31 uk(1) by (auto simp: h same_ctl_def u1_def)
    next
      case n0: None
      let ?n = "length (ix2vec u)"
      have un: "unat (ix2vec_used u) = ?n" by (rule used_unat [OF s])
      obtain z where z: "ensure_ix2vec_space u = Some (u\<lparr>ix2vec_size := z\<rparr>)" "?n < unat z" "unat z < 2 ^ 32"
      proof (cases "ix2vec_used u < ix2vec_size u")
        case True
        then show thesis using that [of "ix2vec_size u"] un used_le [OF s] s
          by (simp add: ensure_ix2vec_space_def opt_simps word_less_nat_alt size_ok_def)
      next
        case False
        then have sz: "unat (ix2vec_size u) = ?n" using un s by (simp add: word_less_nat_alt size_ok_def)
        let ?new = "ucast (2 * ix2vec_size u) :: UInt"
        have new: "unat ?new = 2 * ?n" using sz n by (simp add: unsigned_ucast_eq unat_word_ariths take_bit_nat_eq_self)
        let ?z = "ucast (if ?new = 0 then 1 else ?new) :: UWord"
        have "unat ?z = (if ?n = 0 then 1 else 2 * ?n)" using new by (auto simp: unat_ucast_up unat_eq_0)
        then show thesis using that [of ?z] n sz un used_le [OF s] False
          by (auto simp: ensure_ix2vec_space_def opt_simps Let_def word_le_nat_alt)
      qed
      define u1 where "u1 = u\<lparr>ix2vec_size := z, ix2vec := ix2vec u @ [WV p]\<rparr>"
      have pa: "put_at u ?n p (u1\<lparr>vec2ix := t\<rparr>)" for t by (auto simp: put_at_def u1_def nth_append)
      obtain t b where t: "addToFM (the_fm ?h u) p (of_nat ?n) = Some (t, b)"
        using put_map_ok [OF v m p(1) pa None] by blast
      have "free_ok (u1\<lparr>vec2ix := t\<rparr>)"
      proof -
        obtain fs where fs: "fchain (ix2vec u) None fs" "set fs = {i. i < ?n \<and> (\<exists>n. ix2vec u ! i = Link n)}" using f n0 by (auto simp: free_ok_def)
        then have "fs = []" by (cases fs) auto
        then have "\<And>i l. i < ?n \<Longrightarrow> ix2vec u ! i \<noteq> Link l" using fs(2) by auto
        then show ?thesis using n0 unfolding free_ok_def by (intro exI [of _ "[]"]) (auto simp: u1_def nth_append less_Suc_eq)
      qed
      moreover have "size_ok (u1\<lparr>vec2ix := t\<rparr>)" using s z n by (simp add: size_ok_def u1_def)
      moreover have "addToFM (the_fm ?h u) p (of_nat ?n) = Some (vec2ix (u1\<lparr>vec2ix := t\<rparr>), b)" using t by simp
      ultimately have core: "core_ok ?h (u1\<lparr>vec2ix := t\<rparr>) \<and> sem ?h (u1\<lparr>vec2ix := t\<rparr>) ?n = Some (set ws) \<and> extends h u ?h (u1\<lparr>vec2ix := t\<rparr>)"
        using put_core [OF c p _ _ pa None, of t b] ws by (simp add: u1_def)
      have fm: "the_fm ?h (u\<lparr>ix2vec_size := z\<rparr>) = the_fm ?h u" by (simp add: the_fm_def)
      have rr: "unat (ucast (ix2vec_used (u1\<lparr>vec2ix := t\<rparr>) - 1) :: WordSet) = ?n"
        using n by (simp add: ix2vec_used_def u1_def unsigned_ucast_eq unsigned_of_nat take_bit_nat_eq_self)
      have "?n < 2 ^ 64" "Suc ?n < 2 ^ 64" using n by simp_all
      then have "unat (1 + of_nat ?n :: UWord) = Suc ?n" by (simp add: unat_word_ariths unsigned_of_nat take_bit_nat_eq_self)
      then have "ix2vec_used u < z" "ix2vec_used (u1\<lparr>vec2ix := t\<rparr>) \<le> z"
        using z(2) un by (simp_all add: word_less_nat_alt word_le_nat_alt ix2vec_used_def u1_def unsigned_of_nat take_bit_nat_eq_self)
      then have "add_or_dealloc_WordVec ?h u p = Some (?h, u1\<lparr>vec2ix := t\<rparr>, ucast (ix2vec_used (u1\<lparr>vec2ix := t\<rparr>) - 1))"
        using None n0 z(1) t fm by (simp add: add_or_dealloc_WordVec_def opt_simps ix2vec_used_def u1_def)
      then show ?thesis using core n rr by (auto simp: h same_ctl_def u1_def)
    qed
  qed
qed

section \<open>Caches\<close>

definition cache_ok :: "(UWord \<Rightarrow> UWord \<Rightarrow> UWord \<Rightarrow> bool) \<Rightarrow> WCache \<Rightarrow> bool" where
  "cache_ok P c \<longleftrightarrow> length (ent c) = N_WCACHE_STAT_MAX \<and> 1 \<le> unat (dynMax c) \<and> unat (dynMax c) \<le> N_WCACHE_STAT_MAX
     \<and> inUse c \<le> dynMax c \<and> (\<forall>i < unat (inUse c). P (arg1 (ent c ! i)) (arg2 (ent c ! i)) (res (ent c ! i)))"

lemma cache_asserts: "cache_ok P c \<Longrightarrow> wcache_asserts c = Some ()"
  by (simp add: cache_ok_def wcache_asserts_def vg_assert_def word_le_nat_alt N_WCACHE_STAT_MAX_def)

lemma cache_mono: "cache_ok P c \<Longrightarrow> (\<And>a b r. P a b r \<Longrightarrow> Q a b r) \<Longrightarrow> cache_ok Q c"
  by (simp add: cache_ok_def)

lemma cache_clear: "cache_ok P c \<Longrightarrow> cache_ok Q (c\<lparr>inUse := 0\<rparr>)"
  by (simp add: cache_ok_def)

lemma lookup_cache:
  assumes c: "cache_ok P c"
  shows "\<exists>c' r. WCache_LOOKUP c a b = Some (c', r) \<and> cache_ok P c' \<and> (\<forall>x. r = Some x \<longrightarrow> P a b x)"
proof -
  have P: "P (arg1 (ent c ! i)) (arg2 (ent c ! i)) (res (ent c ! i))" if "i < unat (inUse c)" for i using c that by (simp add: cache_ok_def)
  have hit: "P a b (res (ent c ! i))" if "i < unat (inUse c)" "wcache_hit a b (ent c ! i)" for i
    using P [OF that(1)] that(2) by (simp add: wcache_hit_def)
  consider (empty) "inUse c = 0" | (first) "inUse c > 0" "wcache_hit a b (ent c ! 0)" | (miss) "inUse c > 0" "\<not> wcache_hit a b (ent c ! 0)"
    by (auto simp: word_gt_0)
  then show ?thesis
  proof cases
    case empty
    then show ?thesis using c cache_asserts [OF c] by (simp add: WCache_LOOKUP_def)
  next
    case first
    then show ?thesis using c cache_asserts [OF c] hit [of 0] by (simp add: WCache_LOOKUP_def word_less_nat_alt)
  next
    case miss
    show ?thesis
    proof (cases "find (\<lambda>i. wcache_hit a b (ent c ! i)) [1..<unat (inUse c)]")
      case None
      then show ?thesis using c cache_asserts [OF c] miss by (simp add: WCache_LOOKUP_def)
    next
      case (Some i)
      then have i: "1 \<le> i" "i < unat (inUse c)" "wcache_hit a b (ent c ! i)" by (auto dest!: find_SomeD)
      let ?c = "c\<lparr>ent := (ent c)[i - 1 := ent c ! i, i := ent c ! (i - 1)]\<rparr>"
      have len: "i < length (ent c)" using i(2) c by (simp add: cache_ok_def word_le_nat_alt)
      have "P (arg1 (ent ?c ! j)) (arg2 (ent ?c ! j)) (res (ent ?c ! j))" if "j < unat (inUse c)" for j
        using P [OF that] P [of i] P [of "i - 1"] i(1,2) len by (auto simp: nth_list_update)
      then have "cache_ok P ?c" using c by (simp add: cache_ok_def)
      then show ?thesis using cache_asserts [OF c] miss Some hit [OF i(2,3)] by (simp add: WCache_LOOKUP_def)
    qed
  qed
qed

lemma shift_length [simp]: "length (wcache_shift n es) = length es"
  by (induction n es rule: wcache_shift.induct) auto

lemma shift_nth: "n < length es \<Longrightarrow> j < length es \<Longrightarrow> wcache_shift n es ! j = (if 1 \<le> j \<and> j \<le> n then es ! (j - 1) else es ! j)"
  by (induction n es arbitrary: j rule: wcache_shift.induct) (auto simp: nth_list_update)

lemma update_cache:
  assumes c: "cache_ok P c" and r: "P a b r"
  shows "\<exists>c'. WCache_UPDATE c a b r = Some c' \<and> cache_ok P c'"
proof -
  let ?n = "if inUse c < dynMax c then inUse c + 1 else inUse c"
  have d: "1 \<le> unat (dynMax c)" "unat (dynMax c) \<le> 32" "unat (inUse c) \<le> unat (dynMax c)" "length (ent c) = 32"
    using c by (simp_all add: cache_ok_def word_le_nat_alt N_WCACHE_STAT_MAX_def)
  have "unat (inUse c + 1) = unat (inUse c) + 1" using d by (simp add: unat_word_ariths)
  then have n: "unat ?n = (if unat (inUse c) < unat (dynMax c) then unat (inUse c) + 1 else unat (inUse c))" by (simp add: word_less_nat_alt)
  then have n1: "1 \<le> unat ?n" "unat ?n \<le> unat (dynMax c)" "unat ?n \<le> Suc (unat (inUse c))" using d by auto
  have "?n \<noteq> 0"
  proof
    assume "?n = 0"
    then have "unat ?n = 0" by (simp only: unsigned_0)
    then show False using n1(1) by linarith
  qed
  then have pred: "unat (?n - 1) = unat ?n - 1" by (rule unat_minus_one)
  let ?e = "\<lparr>arg1 = a, arg2 = b, res = r\<rparr>"
  let ?es = "(wcache_shift (unat (?n - 1)) (ent c))[0 := ?e]"
  have "P (arg1 (?es ! i)) (arg2 (?es ! i)) (res (?es ! i))" if i: "i < unat ?n" for i
  proof (cases "i = 0")
    case True
    then show ?thesis using r d by simp
  next
    case False
    then have "?es ! i = ent c ! (i - 1)" using i n1 d pred shift_nth [of "unat (?n - 1)" "ent c" i] by simp
    moreover have "i - 1 < unat (inUse c)" using i n1(3) False by linarith
    ultimately show ?thesis using c by (simp add: cache_ok_def)
  qed
  then have "cache_ok P (c\<lparr>inUse := ?n, ent := ?es\<rparr>)" using c n1(2) by (simp add: cache_ok_def word_le_nat_alt)
  then show ?thesis using cache_asserts [OF c] unfolding WCache_UPDATE_def Let_def by simp
qed

section \<open>The operations\<close>

abbreviation sw :: "vheap \<Rightarrow> WordSetU \<Rightarrow> UWord \<Rightarrow> UWord set option" where
  "sw h u a \<equiv> sem h u (unat a)"

text \<open>What the caches remember.\<close>

definition is_add :: "vheap \<Rightarrow> WordSetU \<Rightarrow> UWord \<Rightarrow> UWord \<Rightarrow> UWord \<Rightarrow> bool" where
  "is_add h u a w r \<longleftrightarrow> (\<exists>S. sw h u a = Some S \<and> sw h u r = Some (insert w S))"

definition is_del :: "vheap \<Rightarrow> WordSetU \<Rightarrow> UWord \<Rightarrow> UWord \<Rightarrow> UWord \<Rightarrow> bool" where
  "is_del h u a w r \<longleftrightarrow> (\<exists>S. sw h u a = Some S \<and> sw h u r = Some (S - {w}))"

definition is_bin :: "(UWord set \<Rightarrow> UWord set \<Rightarrow> UWord set) \<Rightarrow> vheap \<Rightarrow> WordSetU \<Rightarrow> UWord \<Rightarrow> UWord \<Rightarrow> UWord \<Rightarrow> bool" where
  "is_bin f h u a b r \<longleftrightarrow> (\<exists>S T. sw h u a = Some S \<and> sw h u b = Some T \<and> sw h u r = Some (f S T))"

definition caches_ok :: "vheap \<Rightarrow> WordSetU \<Rightarrow> bool" where
  "caches_ok h u \<longleftrightarrow> cache_ok (is_add h u) (cache_addTo u) \<and> cache_ok (is_del h u) (cache_delFrom u)
     \<and> cache_ok (is_bin (\<inter>) h u) (cache_intersect u) \<and> cache_ok (is_bin (-) h u) (cache_minus u)"

definition wsu_ok :: "vheap \<Rightarrow> WordSetU \<Rightarrow> bool" where
  "wsu_ok h u \<longleftrightarrow> core_ok h u \<and> caches_ok h u \<and> ws_empty u = 0 \<and> sem h u 0 = Some {}"

text \<open>Statistics and caches have no influence on the meaning.\<close>

definition same_core :: "WordSetU \<Rightarrow> WordSetU \<Rightarrow> bool" where
  "same_core u u' \<longleftrightarrow> self u' = self u \<and> vec2ix u' = vec2ix u \<and> ix2vec u' = ix2vec u \<and> ix2vec_size u' = ix2vec_size u
     \<and> ix2vec_free u' = ix2vec_free u"

lemma core_sem: "same_core u u' \<Longrightarrow> sem h u' = sem h u"
  by (simp add: same_core_def sem_def vec_at_def fun_eq_iff)

lemma core_cong: "same_core u u' \<Longrightarrow> core_ok h u' = core_ok h u"
  by (simp add: same_core_def core_ok_def vecs_ok_def vec_at_def map_ok_def fm_ok_the free_ok_def size_ok_def)

lemma core_caches: "same_core u u' \<Longrightarrow> is_add h u' = is_add h u" "same_core u u' \<Longrightarrow> is_del h u' = is_del h u"
    "same_core u u' \<Longrightarrow> is_bin f h u' = is_bin f h u"
  using core_sem [of u u' h] by (simp_all add: is_add_def is_del_def is_bin_def fun_eq_iff)

lemma core_live: "same_core u u' \<Longrightarrow> live h u' = live h u"
  by (simp add: same_core_def live_def vec_at_def)

lemma core_extends: "same_core u u1 \<Longrightarrow> extends h u1 h' u' \<Longrightarrow> extends h u h' u'" "same_core u' u2 \<Longrightarrow> extends h u h' u' \<Longrightarrow> extends h u h' u2"
  using core_sem [of u u1] core_sem [of u' u2] core_live [of u u1] core_live [of u' u2] by (simp_all add: extends_def same_core_def)

lemma extends_refl: "same_core u u' \<Longrightarrow> extends h u h u'"
  using core_sem [of u u' h] core_live [of u u' h] by (simp add: extends_def same_core_def)

lemma extends_facts:
  assumes "extends h u h' u'"
  shows "is_add h u a w r \<Longrightarrow> is_add h' u' a w r" "is_del h u a w r \<Longrightarrow> is_del h' u' a w r" "is_bin f h u a b r \<Longrightarrow> is_bin f h' u' a b r"
  using assms unfolding extends_def is_add_def is_del_def is_bin_def by blast+

lemma sem_bound: "core_ok h u \<Longrightarrow> sem h u i = Some S \<Longrightarrow> i < 2 ^ 31"
  by (auto simp: core_ok_def size_ok_def sem_def vec_at_def split: if_splits)

lemma unat_back: "core_ok h u \<Longrightarrow> sw h u x = Some S \<Longrightarrow> unat (ucast x :: WordSet) = unat x"
  using sem_bound [of h u "unat x" S] by (simp add: unsigned_ucast_eq take_bit_nat_eq_self)

lemma caches_extends: "caches_ok h u \<Longrightarrow> extends h u h' u' \<Longrightarrow> same_ctl u u' \<Longrightarrow> caches_ok h' u'"
  unfolding caches_ok_def same_ctl_def using cache_mono extends_facts by metis

text \<open>The part that all operations that may allocate a vector share.\<close>

lemma new_vector:
  assumes w: "wsu_ok h u" and p: "h p = None" "p \<noteq> 0" and ws: "sorted_vec ws" and n: "length (ix2vec u) < 2 ^ 31"
  shows "\<exists>h' u' r. add_or_dealloc_WordVec (new_WV u p ws h) u p = Some (h', u', r) \<and> wsu_ok h' u' \<and> extends h u h' u'
    \<and> sem h' u' (unat r) = Some (set ws) \<and> r \<noteq> - 1 \<and> (ws = [] \<longrightarrow> r = ws_empty u')"
proof -
  have c: "core_ok h u" using w by (simp add: wsu_ok_def)
  obtain h' u' r where a: "add_or_dealloc_WordVec (new_WV u p ws h) u p = Some (h', u', r)" "core_ok h' u'"
    "sem h' u' (unat r) = Some (set ws)" "extends h u h' u'" "same_ctl u u'" "unat r < 2 ^ 31"
    using add_or_dealloc_ok [OF c p ws n] by blast
  have z: "ws_empty u' = 0" using a(5) w by (simp add: same_ctl_def wsu_ok_def)
  have s0: "sem h' u' 0 = Some {}" using a(4) w by (simp add: extends_def wsu_ok_def)
  have "r \<noteq> - 1"
  proof
    assume "r = - 1"
    then have "unat r = 2 ^ 32 - 1" by (simp add: unsigned_minus_1_eq_mask mask_eq_exp_minus_1)
    then show False using a(6) by simp
  qed
  moreover have "ws = [] \<longrightarrow> r = ws_empty u'"
  proof
    assume "ws = []"
    then have "unat r = 0" using a(2,3) s0 by (intro sem_inj [of h' u']) (auto simp: core_ok_def)
    then show "r = ws_empty u'" using z by (simp add: unat_eq_0)
  qed
  moreover have "wsu_ok h' u'" using a(2) z s0 caches_extends [OF _ a(4,5)] w by (simp add: wsu_ok_def)
  ultimately show ?thesis using a(1,3,4) by blast
qed

text \<open>Changing statistics and caches.\<close>

lemma wsu_change:
  assumes "wsu_ok h u" "same_core u u'" "ws_empty u' = ws_empty u"
    and "cache_ok (is_add h u) (cache_addTo u')" "cache_ok (is_del h u) (cache_delFrom u')"
    and "cache_ok (is_bin (\<inter>) h u) (cache_intersect u')" "cache_ok (is_bin (-) h u) (cache_minus u')"
  shows "wsu_ok h u'"
  using assms core_cong [OF assms(2)] core_sem [OF assms(2)] core_caches [OF assms(2)] by (simp add: wsu_ok_def caches_ok_def)

lemma wsu_caches:
  assumes "wsu_ok h u"
  shows "cache_ok (is_add h u) (cache_addTo u)" "cache_ok (is_del h u) (cache_delFrom u)"
    "cache_ok (is_bin (\<inter>) h u) (cache_intersect u)" "cache_ok (is_bin (-) h u) (cache_minus u)"
  using assms by (simp_all add: wsu_ok_def caches_ok_def)

lemma wsu_sem:
  assumes "wsu_ok h u" "sem h u (unat ws) = Some S"
  obtains a v where "do_ix2vec h u ws = Some (a, v)" "set (words v) = S" "sorted_vec (words v)"
proof -
  have "core_ok h u" using assms(1) by (simp add: wsu_ok_def)
  from sem_do_ix2vec [OF this assms(2)] show thesis using that by blast
qed

lemma result_sem: "wsu_ok h u \<Longrightarrow> sw h u x = Some S \<Longrightarrow> sem h u (unat (ucast x :: WordSet)) = Some S"
  using unat_back [of h u x S] by (simp add: wsu_ok_def)

lemma addToWS_ok:
  assumes w: "wsu_ok h u" and S: "sem h u (unat ws) = Some S" and p: "h p = None" "p \<noteq> 0" and n: "length (ix2vec u) < 2 ^ 31"
  shows "\<exists>h' u' r. addToWS h u p ws x = Some (h', u', r) \<and> wsu_ok h' u' \<and> extends h u h' u' \<and> sem h' u' (unat r) = Some (insert x S)"
proof -
  obtain c hit where c: "WCache_LOOKUP (cache_addTo u) (ucast ws) x = Some (c, hit)" "cache_ok (is_add h u) c"
    "\<forall>y. hit = Some y \<longrightarrow> is_add h u (ucast ws) x y" using lookup_cache [OF wsu_caches(1) [OF w]] by blast
  define u1 where "u1 = u\<lparr>n_add := n_add u + 1, cache_addTo := c\<rparr>"
  define u2 where "u2 = u1\<lparr>n_add_uncached := n_add_uncached u1 + 1\<rparr>"
  have sc: "same_core u u1" "same_core u u2" by (simp_all add: same_core_def u1_def u2_def)
  have ok: "wsu_ok h u1" "wsu_ok h u2" using c(2) wsu_caches [OF w] sc by (auto simp: u1_def u2_def intro!: wsu_change [OF w])
  show ?thesis
  proof (cases hit)
    case (Some y)
    then have "sw h u1 y = Some (insert x S)" using c(3) S core_sem [OF sc(1)] by (auto simp: is_add_def unat_ucast_up)
    then show ?thesis using c(1) Some ok(1) extends_refl [OF sc(1)] result_sem [OF ok(1)] by (simp add: addToWS_def u1_def)
  next
    case None
    obtain a v where v: "do_ix2vec h u2 ws = Some (a, v)" "set (words v) = S" "sorted_vec (words v)"
      using wsu_sem [OF ok(2)] S core_sem [OF sc(2)] by metis
    show ?thesis
    proof (cases "x \<in> S")
      case True
      then have "is_add h u (ucast ws) x (ucast ws)" using S by (simp add: is_add_def unat_ucast_up insert_absorb)
      then obtain c' where c': "WCache_UPDATE c (ucast ws) x (ucast ws) = Some c'" "cache_ok (is_add h u) c'" using update_cache [OF c(2)] by blast
      let ?u = "u2\<lparr>cache_addTo := c'\<rparr>"
      have s: "same_core u ?u" using sc(2) by (simp add: same_core_def)
      have "wsu_ok h ?u" using c'(2) wsu_caches [OF w] s by (auto simp: u1_def u2_def intro!: wsu_change [OF w])
      moreover have "addToWS h u p ws x = Some (h, ?u, ws)"
        using c(1) None v c'(1) True by (simp add: addToWS_def u1_def u2_def list_ex_iff)
      ultimately show ?thesis using extends_refl [OF s] S True core_sem [OF s] by (simp add: insert_absorb)
    next
      case False
      obtain new where new: "add_word (words v) x = Some new" "sorted_vec new" "set new = insert x S"
        using add_word_ok [OF v(3)] False v(2) by blast
      have "length (ix2vec u2) < 2 ^ 31" using n by (simp add: u1_def u2_def)
      from new_vector [OF ok(2) p new(2) this] obtain h' u' r where r: "add_or_dealloc_WordVec (new_WV u2 p new h) u2 p = Some (h', u', r)"
        "wsu_ok h' u'" "extends h u2 h' u'" "sem h' u' (unat r) = Some (set new)" "r \<noteq> - 1" by blast
      have e: "extends h u h' u'" by (rule core_extends(1) [OF sc(2) r(3)])
      have "is_add h' u' (ucast ws) x (ucast r)" using e S r(4) new(3) by (auto simp: is_add_def unat_ucast_up extends_def)
      then obtain c' where c': "WCache_UPDATE (cache_addTo u') (ucast ws) x (ucast r) = Some c'" "cache_ok (is_add h' u') c'"
        using update_cache [OF wsu_caches(1) [OF r(2)]] by blast
      let ?u = "u'\<lparr>cache_addTo := c'\<rparr>"
      have s: "same_core u' ?u" by (simp add: same_core_def)
      have "wsu_ok h' ?u" using c'(2) wsu_caches [OF r(2)] s by (auto intro!: wsu_change [OF r(2)])
      moreover have "addToWS h u p ws x = Some (h', ?u, r)"
        using c(1) None v r(1,5) c'(1) False new(1) by (simp add: addToWS_def u1_def u2_def list_ex_iff)
      ultimately show ?thesis using core_extends(2) [OF s e] r(4) new(3) core_sem [OF s] by simp
    qed
  qed
qed

lemma find_index:
  "find (\<lambda>i. ws ! i = x) [0..<length ws] = None \<longleftrightarrow> x \<notin> set ws"
  "find (\<lambda>i. ws ! i = x) [0..<length ws] = Some i \<Longrightarrow> i < length ws \<and> ws ! i = x"
  by (auto simp: find_None_iff in_set_conv_nth dest: find_SomeD)

lemma delFromWS_ok:
  assumes w: "wsu_ok h u" and S: "sem h u (unat ws) = Some S" and p: "h p = None" "p \<noteq> 0" and n: "length (ix2vec u) < 2 ^ 31"
  shows "\<exists>h' u' r. delFromWS h u p ws x = Some (h', u', r) \<and> wsu_ok h' u' \<and> extends h u h' u' \<and> sem h' u' (unat r) = Some (S - {x})"
proof -
  obtain c hit where c: "WCache_LOOKUP (cache_delFrom u) (ucast ws) x = Some (c, hit)" "cache_ok (is_del h u) c"
    "\<forall>y. hit = Some y \<longrightarrow> is_del h u (ucast ws) x y" using lookup_cache [OF wsu_caches(2) [OF w]] by blast
  define u0 where "u0 = u\<lparr>n_del := n_del u + 1\<rparr>"
  define u1 where "u1 = u0\<lparr>cache_delFrom := c\<rparr>"
  define u2 where "u2 = u1\<lparr>n_del_uncached := n_del_uncached u1 + 1\<rparr>"
  have sc: "same_core u u0" "same_core u u1" "same_core u u2" by (simp_all add: same_core_def u0_def u1_def u2_def)
  have ok: "wsu_ok h u0" "wsu_ok h u1" "wsu_ok h u2"
    using c(2) wsu_caches [OF w] sc by (auto simp: u0_def u1_def u2_def intro!: wsu_change [OF w])
  obtain a v where v: "do_ix2vec h u ws = Some (a, v)" "set (words v) = S" "sorted_vec (words v)" by (rule wsu_sem [OF w S])
  show ?thesis
  proof (cases "words v = []")
    case True
    then have "unat ws = 0" using S v(2) w sem_inj [of h u "unat ws" "{}" 0] by (auto simp: wsu_ok_def core_ok_def)
    then have "ws = ws_empty u" using w by (simp add: unat_eq_0 wsu_ok_def)
    then have "delFromWS h u p ws x = Some (h, u0, ws)" using v True by (simp add: delFromWS_def u0_def opt_simps)
    then show ?thesis using ok(1) extends_refl [OF sc(1)] S core_sem [OF sc(1)] v(2) True by auto
  next
    case ne: False
    show ?thesis
    proof (cases hit)
      case (Some y)
      then have "sw h u1 y = Some (S - {x})" using c(3) S core_sem [OF sc(2)] by (auto simp: is_del_def unat_ucast_up)
      then show ?thesis using c(1) Some ok(2) ne v extends_refl [OF sc(2)] result_sem [OF ok(2)] by (simp add: delFromWS_def u0_def u1_def)
    next
      case None
      show ?thesis
      proof (cases "find (\<lambda>i. words v ! i = x) [0..<length (words v)]")
        case n0: None
        then have x: "S - {x} = S" using find_index(1) [of "words v" x] v(2) by auto
        then have "is_del h u (ucast ws) x (ucast ws)" using S by (simp add: is_del_def unat_ucast_up)
        then obtain c' where c': "WCache_UPDATE c (ucast ws) x (ucast ws) = Some c'" "cache_ok (is_del h u) c'" using update_cache [OF c(2)] by blast
        let ?u = "u2\<lparr>cache_delFrom := c'\<rparr>"
        have s: "same_core u ?u" using sc(3) by (simp add: same_core_def)
        have "wsu_ok h ?u" using c'(2) wsu_caches [OF w] s by (auto simp: u0_def u1_def u2_def intro!: wsu_change [OF w])
        moreover have "delFromWS h u p ws x = Some (h, ?u, ws)"
          using c(1) None v n0 c'(1) ne by (simp add: delFromWS_def u0_def u1_def u2_def)
        ultimately show ?thesis using extends_refl [OF s] S x core_sem [OF s] by simp
      next
        case (Some i)
        note i = find_index(2) [OF Some]
        note d = del_index_ok [OF v(3), of i]
        have set: "set (del_index i (words v)) = S - {x}" using d(2) i v(2) by simp
        have "length (ix2vec u2) < 2 ^ 31" using n by (simp add: u0_def u1_def u2_def)
        from new_vector [OF ok(3) p d(1) this] i obtain h' u' r where
          r: "add_or_dealloc_WordVec (new_WV u2 p (del_index i (words v)) h) u2 p = Some (h', u', r)"
            "wsu_ok h' u'" "extends h u2 h' u'" "sem h' u' (unat r) = Some (S - {x})" "del_index i (words v) = [] \<longrightarrow> r = ws_empty u'"
          unfolding set by blast
        have e: "extends h u h' u'" by (rule core_extends(1) [OF sc(3) r(3)])
        have "is_del h' u' (ucast ws) x (ucast r)" using e S r(4) by (auto simp: is_del_def unat_ucast_up extends_def)
        then obtain c' where c': "WCache_UPDATE (cache_delFrom u') (ucast ws) x (ucast r) = Some c'" "cache_ok (is_del h' u') c'"
          using update_cache [OF wsu_caches(2) [OF r(2)]] by blast
        let ?u = "u'\<lparr>cache_delFrom := c'\<rparr>"
        have s: "same_core u' ?u" by (simp add: same_core_def)
        have "wsu_ok h' ?u" using c'(2) wsu_caches [OF r(2)] s by (auto intro!: wsu_change [OF r(2)])
        moreover have one: "length (words v) = 1 \<longrightarrow> r = ws_empty u'" using r(5) d(3) i by auto
        moreover have "delFromWS h u p ws x = Some (h', ?u, r)"
          using c(1) None v r(1) c'(1) ne Some i d(3) one by (simp add: delFromWS_def u0_def u1_def u2_def opt_simps)
        ultimately show ?thesis using core_extends(2) [OF s e] r(4) core_sem [OF s] by simp
      qed
    qed
  qed
qed

lemma unionWS_ok:
  assumes w: "wsu_ok h u" and S: "sem h u (unat ws1) = Some S" "sem h u (unat ws2) = Some T"
    and p: "h p = None" "p \<noteq> 0" and n: "length (ix2vec u) < 2 ^ 31"
  shows "\<exists>h' u' r. unionWS h u p ws1 ws2 = Some (h', u', r) \<and> wsu_ok h' u' \<and> extends h u h' u' \<and> sem h' u' (unat r) = Some (S \<union> T)"
proof -
  define u1 where "u1 = u\<lparr>n_union := n_union u + 1\<rparr>"
  have sc: "same_core u u1" by (simp add: same_core_def u1_def)
  have ok: "wsu_ok h u1" using wsu_caches [OF w] sc by (auto simp: u1_def intro!: wsu_change [OF w])
  obtain a v b v' where v: "do_ix2vec h u ws1 = Some (a, v)" "set (words v) = S" "sorted_vec (words v)"
    "do_ix2vec h u ws2 = Some (b, v')" "set (words v') = T" "sorted_vec (words v')" using wsu_sem [OF w S(1)] wsu_sem [OF w S(2)] by metis
  note un = union_ok [OF v(3,6)]
  have "length (ix2vec u1) < 2 ^ 31" using n by (simp add: u1_def)
  from new_vector [OF ok p _ this, of "union_words (words v) (words v')"] un obtain h' u' r where
    r: "add_or_dealloc_WordVec (new_WV u1 p (union_words (words v) (words v')) h) u1 p = Some (h', u', r)"
      "wsu_ok h' u'" "extends h u1 h' u'" "sem h' u' (unat r) = Some (set (union_words (words v) (words v')))" by blast
  have "unionWS h u p ws1 ws2 = Some (h', u', r)" using v r(1) un by (simp add: unionWS_def u1_def opt_simps)
  then show ?thesis using r core_extends(1) [OF sc r(3)] un v by auto
qed

lemma doubletonWS_ok:
  assumes w: "wsu_ok h u" and p: "h p = None" "p \<noteq> 0" and n: "length (ix2vec u) < 2 ^ 31"
  shows "\<exists>h' u' r. doubletonWS h u p x y = Some (h', u', r) \<and> wsu_ok h' u' \<and> extends h u h' u' \<and> sem h' u' (unat r) = Some {x, y}"
proof -
  define u1 where "u1 = u\<lparr>n_doubleton := n_doubleton u + 1\<rparr>"
  have sc: "same_core u u1" by (simp add: same_core_def u1_def)
  have ok: "wsu_ok h u1" using wsu_caches [OF w] sc by (auto simp: u1_def intro!: wsu_change [OF w])
  define new where "new = (if x = y then [x] else if x < y then [x, y] else [y, x])"
  have new: "sorted_vec new" "set new = {x, y}" by (auto simp: new_def)
  have "length (ix2vec u1) < 2 ^ 31" using n by (simp add: u1_def)
  from new_vector [OF ok p new(1) this] obtain h' u' r where
    r: "add_or_dealloc_WordVec (new_WV u1 p new h) u1 p = Some (h', u', r)" "wsu_ok h' u'" "extends h u1 h' u'" "sem h' u' (unat r) = Some {x, y}"
    unfolding new(2) by blast
  have "doubletonWS h u p x y = add_or_dealloc_WordVec (new_WV u1 p new h) u1 p" by (simp add: doubletonWS_def u1_def new_def Let_def)
  then show ?thesis using r core_extends(1) [OF sc r(3)] by auto
qed

lemma intersect_ordered:
  assumes w: "wsu_ok h u" and S: "sem h u (unat ws1) = Some S" "sem h u (unat ws2) = Some T" and lt: "ws1 < ws2"
    and p: "h p = None" "p \<noteq> 0" and n: "length (ix2vec u) < 2 ^ 31"
  shows "\<exists>h' u' r. intersectWS h u p ws1 ws2 = Some (h', u', r) \<and> intersectWS h u p ws2 ws1 = Some (h', u', r)
    \<and> wsu_ok h' u' \<and> extends h u h' u' \<and> sem h' u' (unat r) = Some (S \<inter> T)"
proof -
  have ord: "ws1 \<noteq> ws2" "\<not> ws2 < ws1" using lt by auto
  obtain c hit where c: "WCache_LOOKUP (cache_intersect u) (ucast ws1) (ucast ws2) = Some (c, hit)" "cache_ok (is_bin (\<inter>) h u) c"
    "\<forall>y. hit = Some y \<longrightarrow> is_bin (\<inter>) h u (ucast ws1) (ucast ws2) y" using lookup_cache [OF wsu_caches(3) [OF w]] by blast
  define u1 where "u1 = u\<lparr>n_intersect := n_intersect u + 1, cache_intersect := c\<rparr>"
  define u2 where "u2 = u1\<lparr>n_intersect_uncached := n_intersect_uncached u1 + 1\<rparr>"
  have sc: "same_core u u1" "same_core u u2" by (simp_all add: same_core_def u1_def u2_def)
  have ok: "wsu_ok h u1" "wsu_ok h u2" using c(2) wsu_caches [OF w] sc by (auto simp: u1_def u2_def intro!: wsu_change [OF w])
  show ?thesis
  proof (cases hit)
    case (Some y)
    then have "sw h u1 y = Some (S \<inter> T)" using c(3) S core_sem [OF sc(1)] by (auto simp: is_bin_def unat_ucast_up)
    then show ?thesis using c(1) Some ok(1) extends_refl [OF sc(1)] result_sem [OF ok(1)] ord lt by (simp add: intersectWS_def u1_def)
  next
    case None
    obtain a v b v' where v: "do_ix2vec h u2 ws1 = Some (a, v)" "set (words v) = S" "sorted_vec (words v)"
      "do_ix2vec h u2 ws2 = Some (b, v')" "set (words v') = T" "sorted_vec (words v')"
      using wsu_sem [OF ok(2)] S core_sem [OF sc(2)] by metis
    let ?new = "inter_words (words v) (words v')"
    note new = inter_ok [OF v(3,6)]
    have "length (ix2vec u2) < 2 ^ 31" using n by (simp add: u1_def u2_def)
    from new_vector [OF ok(2) p _ this, of ?new] new obtain h' u' r where r: "add_or_dealloc_WordVec (new_WV u2 p ?new h) u2 p = Some (h', u', r)"
      "wsu_ok h' u'" "extends h u2 h' u'" "sem h' u' (unat r) = Some (set ?new)" "r \<noteq> - 1" "?new = [] \<longrightarrow> r = ws_empty u'" by blast
    have e: "extends h u h' u'" by (rule core_extends(1) [OF sc(2) r(3)])
    have st: "set ?new = S \<inter> T" using new v by simp
    have "is_bin (\<inter>) h' u' (ucast ws1) (ucast ws2) (ucast r)" using e S r(4) st by (auto simp: is_bin_def unat_ucast_up extends_def)
    then obtain c' where c': "WCache_UPDATE (cache_intersect u') (ucast ws1) (ucast ws2) (ucast r) = Some c'" "cache_ok (is_bin (\<inter>) h' u') c'"
      using update_cache [OF wsu_caches(3) [OF r(2)]] by blast
    let ?u = "u'\<lparr>cache_intersect := c'\<rparr>"
    have s: "same_core u' ?u" by (simp add: same_core_def)
    have z: "inter_size (words v) (words v') = 0 \<longrightarrow> r = ws_empty u'" using r(6) new by auto
    have "wsu_ok h' ?u" using c'(2) wsu_caches [OF r(2)] s by (auto intro!: wsu_change [OF r(2)])
    moreover have "intersectWS h u p ws1 ws2 = Some (h', ?u, r)" "intersectWS h u p ws2 ws1 = Some (h', ?u, r)"
      using c(1) None v r(1,5) c'(1) new z ord lt by (simp_all add: intersectWS_def u1_def u2_def opt_simps)
    ultimately show ?thesis using core_extends(2) [OF s e] r(4) st core_sem [OF s] by simp
  qed
qed

lemma intersectWS_ok:
  assumes w: "wsu_ok h u" and S: "sem h u (unat ws1) = Some S" "sem h u (unat ws2) = Some T"
    and p: "h p = None" "p \<noteq> 0" and n: "length (ix2vec u) < 2 ^ 31"
  shows "\<exists>h' u' r. intersectWS h u p ws1 ws2 = Some (h', u', r) \<and> wsu_ok h' u' \<and> extends h u h' u' \<and> sem h' u' (unat r) = Some (S \<inter> T)"
proof -
  consider (lt) "ws1 < ws2" | (gt) "ws2 < ws1" | (eq) "ws1 = ws2" by fastforce
  then show ?thesis
  proof cases
    case lt
    then show ?thesis using intersect_ordered [OF w S lt p n] by blast
  next
    case gt
    then show ?thesis using intersect_ordered [OF w S(2,1) gt p n] by (auto simp: Int_commute)
  next
    case eq
    let ?u = "u\<lparr>n_intersect := n_intersect u + 1\<rparr>"
    have sc: "same_core u ?u" by (simp add: same_core_def)
    have "wsu_ok h ?u" using wsu_caches [OF w] sc by (auto intro!: wsu_change [OF w])
    moreover have "intersectWS h u p ws1 ws2 = Some (h, ?u, ws1)" using eq by (simp add: intersectWS_def)
    ultimately show ?thesis using extends_refl [OF sc] S eq core_sem [OF sc] by simp
  qed
qed

lemma minusWS_ok:
  assumes w: "wsu_ok h u" and S: "sem h u (unat ws1) = Some S" "sem h u (unat ws2) = Some T"
    and p: "h p = None" "p \<noteq> 0" and n: "length (ix2vec u) < 2 ^ 31"
  shows "\<exists>h' u' r. minusWS h u p ws1 ws2 = Some (h', u', r) \<and> wsu_ok h' u' \<and> extends h u h' u' \<and> sem h' u' (unat r) = Some (S - T)"
proof -
  obtain c hit where c: "WCache_LOOKUP (cache_minus u) (ucast ws1) (ucast ws2) = Some (c, hit)" "cache_ok (is_bin (-) h u) c"
    "\<forall>y. hit = Some y \<longrightarrow> is_bin (-) h u (ucast ws1) (ucast ws2) y" using lookup_cache [OF wsu_caches(4) [OF w]] by blast
  define u1 where "u1 = u\<lparr>n_minus := n_minus u + 1, cache_minus := c\<rparr>"
  define u2 where "u2 = u1\<lparr>n_minus_uncached := n_minus_uncached u1 + 1\<rparr>"
  have sc: "same_core u u1" "same_core u u2" by (simp_all add: same_core_def u1_def u2_def)
  have ok: "wsu_ok h u1" "wsu_ok h u2" using c(2) wsu_caches [OF w] sc by (auto simp: u1_def u2_def intro!: wsu_change [OF w])
  show ?thesis
  proof (cases hit)
    case (Some y)
    then have "sw h u1 y = Some (S - T)" using c(3) S core_sem [OF sc(1)] by (auto simp: is_bin_def unat_ucast_up)
    then show ?thesis using c(1) Some ok(1) extends_refl [OF sc(1)] result_sem [OF ok(1)] by (simp add: minusWS_def u1_def)
  next
    case None
    obtain a v b v' where v: "do_ix2vec h u2 ws1 = Some (a, v)" "set (words v) = S" "sorted_vec (words v)"
      "do_ix2vec h u2 ws2 = Some (b, v')" "set (words v') = T" "sorted_vec (words v')"
      using wsu_sem [OF ok(2)] S core_sem [OF sc(2)] by metis
    let ?new = "minus_words (words v) (words v')"
    note new = minus_ok [OF v(3,6)]
    have "length (ix2vec u2) < 2 ^ 31" using n by (simp add: u1_def u2_def)
    from new_vector [OF ok(2) p _ this, of ?new] new obtain h' u' r where r: "add_or_dealloc_WordVec (new_WV u2 p ?new h) u2 p = Some (h', u', r)"
      "wsu_ok h' u'" "extends h u2 h' u'" "sem h' u' (unat r) = Some (set ?new)" "r \<noteq> - 1" "?new = [] \<longrightarrow> r = ws_empty u'" by blast
    have e: "extends h u h' u'" by (rule core_extends(1) [OF sc(2) r(3)])
    have st: "set ?new = S - T" using new v by simp
    have "is_bin (-) h' u' (ucast ws1) (ucast ws2) (ucast r)" using e S r(4) st by (auto simp: is_bin_def unat_ucast_up extends_def)
    then obtain c' where c': "WCache_UPDATE (cache_minus u') (ucast ws1) (ucast ws2) (ucast r) = Some c'" "cache_ok (is_bin (-) h' u') c'"
      using update_cache [OF wsu_caches(4) [OF r(2)]] by blast
    let ?u = "u'\<lparr>cache_minus := c'\<rparr>"
    have s: "same_core u' ?u" by (simp add: same_core_def)
    have z: "minus_size (words v) (words v') = 0 \<longrightarrow> r = ws_empty u'" using r(6) new by auto
    have "wsu_ok h' ?u" using c'(2) wsu_caches [OF r(2)] s by (auto intro!: wsu_change [OF r(2)])
    moreover have "minusWS h u p ws1 ws2 = Some (h', ?u, r)"
      using c(1) None v r(1,5) c'(1) new z by (simp add: minusWS_def u1_def u2_def opt_simps)
    ultimately show ?thesis using core_extends(2) [OF s e] r(4) st core_sem [OF s] by simp
  qed
qed

lemma isSubsetOf_ok:
  assumes w: "wsu_ok h u" and S: "sem h u (unat ws1) = Some S" "sem h u (unat ws2) = Some T"
    and p: "h p = None" "p \<noteq> 0" and n: "length (ix2vec u) < 2 ^ 31"
  shows "\<exists>h' u'. isSubsetOf h u p ws1 ws2 = Some (h', u', S \<subseteq> T) \<and> wsu_ok h' u' \<and> extends h u h' u'"
proof -
  let ?u = "u\<lparr>n_isSubsetOf := n_isSubsetOf u + 1\<rparr>"
  have sc: "same_core u ?u" by (simp add: same_core_def)
  have ok: "wsu_ok h ?u" using wsu_caches [OF w] sc by (auto intro!: wsu_change [OF w])
  have "length (ix2vec ?u) < 2 ^ 31" "sem h ?u (unat ws1) = Some S" "sem h ?u (unat ws2) = Some T" using n S core_sem [OF sc] by simp_all
  from intersectWS_ok [OF ok this(2,3) p this(1)] obtain h' u' r where
    r: "intersectWS h ?u p ws1 ws2 = Some (h', u', r)" "wsu_ok h' u'" "extends h ?u h' u'" "sem h' u' (unat r) = Some (S \<inter> T)" by blast
  have S': "sem h' u' (unat ws1) = Some S" using r(3) S(1) core_sem [OF sc] by (simp add: extends_def)
  have "ws1 = r \<longleftrightarrow> S \<subseteq> T"
  proof
    assume "ws1 = r"
    then show "S \<subseteq> T" using S' r(4) by auto
  next
    assume "S \<subseteq> T"
    then have "sem h' u' (unat r) = Some S" using r(4) by (simp add: Int_absorb2)
    then have "unat ws1 = unat r" using sem_inj [of h' u' "unat ws1" S "unat r"] S' r(2) by (simp add: wsu_ok_def core_ok_def)
    then show "ws1 = r" by (simp only: word_unat_eq_iff)
  qed
  then show ?thesis using r core_extends(1) [OF sc r(3)] by (simp add: isSubsetOf_def)
qed

section \<open>Dead sets\<close>

lemma lookup_live:
  assumes c: "core_ok h u" and a: "vec_at h u i = Some (a, v)"
  shows "lookupFM (the_fm h u) a = Some (a, of_nat i)"
proof -
  have v: "vecs_ok h u" and m: "map_ok h u" using c by (auto simp: core_ok_def)
  have ok: "fm_ok (the_fm h u)" using m by (simp add: map_ok_def)
  have look: "lookupFM (the_fm h u) a = look_list (wvcmp h) a (fm_list (vec2ix u))" using lookupFM_list [OF ok, of a] by simp
  have mem: "(a, of_nat i) \<in> set (fm_list (vec2ix u))" using m vec_at_Some [OF a] unfolding map_ok_def by blast
  have "look_list (wvcmp h) a (fm_list (vec2ix u)) \<noteq> None"
  proof
    assume "look_list (wvcmp h) a (fm_list (vec2ix u)) = None"
    then have "wvcmp h a a \<noteq> 0" using mem unfolding look_list_def find_None_iff by (metis fst_conv)
    then show False by simp
  qed
  then obtain b y where b: "look_list (wvcmp h) a (fm_list (vec2ix u)) = Some (b, y)" by auto
  then have bm: "(b, y) \<in> set (fm_list (vec2ix u))" "wvcmp h b a = 0" by (auto dest: look_list_SomeD)
  then obtain j where j: "j < length (ix2vec u)" "ix2vec u ! j = WV b" "y = of_nat j" using m unfolding map_ok_def by blast
  obtain w where w: "vec_at h u j = Some (b, w)" using entry_WV [OF v j(1,2)] by blast
  have "words w = words v" using bm(2) vec_at_Some(3) [OF w] vec_at_Some(3) [OF a] by (simp add: wvcmp_def cmp_words_0)
  moreover have "\<forall>i j a b. vec_at h u i = Some a \<longrightarrow> vec_at h u j = Some b \<longrightarrow> words (snd a) = words (snd b) \<longrightarrow> i = j"
    using v unfolding vecs_ok_def by blast
  ultimately have "j = i" using w a by (metis snd_conv)
  then show ?thesis using look b j w a by simp
qed

lemma die_core:
  assumes c: "core_ok h u" and a: "vec_at h u k = Some (a, v)" and k: "1 \<le> k"
    and u': "self u' = self u" "ix2vec u' = (ix2vec u)[k := Link (ix2vec_free u)]" "ix2vec_free u' = Some k" "ix2vec_size u' = ix2vec_size u"
    and fm: "fm_ok ((the_fm h u)\<lparr>root := t\<rparr>)" "fm_list ((the_fm h u)\<lparr>root := t\<rparr>) = del_list (wvcmp h) a (fm_list (vec2ix u))"
      "vec2ix u' = (the_fm h u)\<lparr>root := t\<rparr>"
  shows "core_ok (h(a := None)) u' \<and> (\<forall>i. sem (h(a := None)) u' i = (if i = k then None else sem h u i))
    \<and> (h(a := None)) |` (- live (h(a := None)) u') = h |` (- live h u)"
proof -
  have v: "vecs_ok h u" and m: "map_ok h u" and f: "free_ok u" and s: "size_ok u" using c by (auto simp: core_ok_def)
  note ak = vec_at_Some [OF a]
  have inj: "i = j" if "vec_at h u i = Some x" "vec_at h u j = Some y" "words (snd x) = words (snd y)" for i j x y
    using v that unfolding vecs_ok_def by blast
  have other: "b \<noteq> a" if "i \<noteq> k" "i < length (ix2vec u)" "ix2vec u ! i = WV b" for i b
    using entry_WV [OF v that(2,3)] inj [OF _ a] ak(3) that(1) vec_at_Some(3) by fastforce
  have at: "vec_at (h(a := None)) u' i = (if i = k then None else vec_at h u i)" for i
    using other [of i] ak(1) by (auto simp: vec_at_def deref_wv_def u'(2) split: ix_entry.split)
  have "vecs_ok (h(a := None)) u'"
  proof -
    have "i = j" if "vec_at (h(a := None)) u' i = Some x" "vec_at (h(a := None)) u' j = Some y" "words (snd x) = words (snd y)" for i j x y
      using that inj [of i x j y] by (simp add: at split: if_splits)
    moreover have "b \<noteq> 0 \<and> (\<exists>w. (h(a := None)) b = Some w \<and> owner w = self u' \<and> sorted_vec (words w))"
      if i: "i < length (ix2vec u')" "ix2vec u' ! i = WV b" for i b
    proof -
      have "i \<noteq> k" using i ak(1) u'(2) by (auto simp: nth_list_update)
      then have "i < length (ix2vec u)" "ix2vec u ! i = WV b" using i u'(2) by (simp_all add: nth_list_update)
      then show ?thesis using vecs_ok_entry [OF v, of i b] other [OF \<open>i \<noteq> k\<close>] u'(1) by auto
    qed
    ultimately show ?thesis unfolding vecs_ok_def by blast
  qed
  moreover have "map_ok (h(a := None)) u'"
  proof -
    have set: "(b, y) \<in> set (fm_list (vec2ix u')) \<longleftrightarrow> (\<exists>i < length (ix2vec u). i \<noteq> k \<and> ix2vec u ! i = WV b \<and> y = of_nat i)" for b y
    proof -
      have "wvcmp h b a = 0 \<longleftrightarrow> i = k" if i: "i < length (ix2vec u)" "ix2vec u ! i = WV b" for i
      proof -
        obtain w where w: "vec_at h u i = Some (b, w)" using entry_WV [OF v i] by blast
        have "wvcmp h b a = 0 \<longleftrightarrow> words w = words v" using vec_at_Some(3) [OF w] ak(3) by (simp add: wvcmp_def cmp_words_0)
        then show ?thesis using inj [OF w a] w a by auto
      qed
      then show ?thesis using m unfolding fm(2,3) map_ok_def by (auto simp: del_list_def)
    qed
    have "b \<noteq> a" if "(b, y) \<in> set (fm_list (vec2ix u'))" for b y using that other unfolding set by blast
    then have "\<forall>x \<in> set (fm_list (vec2ix u')). fst x \<noteq> a" by (metis prod.collapse)
    then have "\<forall>x \<in> set (fm_list (vec2ix u')). (h(a := None)) (fst x) = h (fst x)" by simp
    from ordered_heap [where h' = "h(a := None)" and h = h, OF this] have "ordered (wvcmp (h(a := None))) (fm_list (vec2ix u'))"
      using fm(1,3) by (simp add: fm_ok_def)
    moreover have "avl (root (vec2ix u'))" using fm(1,3) by (simp add: fm_ok_def)
    ultimately have "fm_ok (the_fm (h(a := None)) u')" unfolding fm_ok_the by blast
    moreover have "(\<exists>i < length (ix2vec u'). ix2vec u' ! i = WV b \<and> y = of_nat i)
      \<longleftrightarrow> (\<exists>i < length (ix2vec u). i \<noteq> k \<and> ix2vec u ! i = WV b \<and> y = of_nat i)" for b and y :: UWord
      unfolding u'(2) using ak(1) by (intro ex_cong1) (auto simp: nth_list_update)
    ultimately show ?thesis unfolding map_ok_def set by blast
  qed
  moreover have "free_ok u'"
  proof -
    obtain fs where fs: "fchain (ix2vec u) (ix2vec_free u) fs" "distinct fs" "set fs = {i. i < length (ix2vec u) \<and> (\<exists>n. ix2vec u ! i = Link n)}"
      using f by (auto simp: free_ok_def)
    have nk: "k \<notin> set fs" using ak(2) unfolding fs(3) by auto
    have "i < length (ix2vec u') \<and> ix2vec u' ! i = ix2vec u ! i" if "i \<in> set fs" for i
    proof -
      have "i \<noteq> k" "i < length (ix2vec u)" using nk that fs(3) by auto
      then show ?thesis by (simp add: u'(2))
    qed
    then have "\<forall>i \<in> set fs. i < length (ix2vec u') \<and> ix2vec u' ! i = ix2vec u ! i" by blast
    then have "fchain (ix2vec u') (ix2vec_free u) fs" by (rule fchain_cong [OF _ fs(1)])
    then have "fchain (ix2vec u') (Some k) (k # fs)" using k ak(1) by (auto simp: u'(2))
    moreover have "insert k (set fs) = {i. i < length (ix2vec u') \<and> (\<exists>n. ix2vec u' ! i = Link n)}"
      unfolding fs(3) u'(2) using ak(1) by (auto simp: nth_list_update)
    ultimately show ?thesis using fs(2) nk u'(3) unfolding free_ok_def by (intro exI [of _ "k # fs"]) simp
  qed
  moreover have "size_ok u'" using s u' by (simp add: size_ok_def)
  moreover have "(h(a := None)) |` (- live (h(a := None)) u') = h |` (- live h u)"
  proof -
    have "b \<in> live h u \<longleftrightarrow> b = a \<or> b \<in> live (h(a := None)) u'" for b
    proof
      assume "b \<in> live h u"
      then obtain i w where i: "vec_at h u i = Some (b, w)" by (auto simp: live_def)
      then show "b = a \<or> b \<in> live (h(a := None)) u'" using a at [of i] by (cases "i = k") (auto simp: live_def)
    next
      assume "b = a \<or> b \<in> live (h(a := None)) u'"
      then show "b \<in> live h u" using a by (auto simp: live_def at split: if_splits)
    qed
    then have "live h u = insert a (live (h(a := None)) u')" by blast
    then show ?thesis by (auto simp: restrict_map_def fun_eq_iff)
  qed
  ultimately show ?thesis using at by (simp add: core_ok_def sem_def)
qed

lemma with_dead_ok:
  assumes "core_ok h u" "unat ws < length (ix2vec u)"
  shows "do_ix2vec_with_dead h u ws = Some (vec_at h u (unat ws))"
proof -
  have s: "size_ok u" and v: "vecs_ok h u" and f: "free_ok u" using assms(1) by (auto simp: core_ok_def)
  have lt: "ucast ws < ix2vec_used u" using assms(2) used_unat [OF s] by (simp add: word_less_nat_alt unat_ucast_up)
  show ?thesis
  proof (cases "ix2vec u ! unat ws")
    case (WV a)
    obtain w where "vec_at h u (unat ws) = Some (a, w)" using entry_WV [OF v assms(2) WV] by blast
    then show ?thesis using lt used_le [OF s] WV vec_at_Some(3) [of h u "unat ws" a w] vecs_okD(2) [OF v, of "unat ws" a w] by (simp add: do_ix2vec_with_dead_def opt_simps deref_wv_def)
  next
    case (Link l)
    obtain fs where fs: "fchain (ix2vec u) (ix2vec_free u) fs" "set fs = {i. i < length (ix2vec u) \<and> (\<exists>n. ix2vec u ! i = Link n)}"
      using f by (auto simp: free_ok_def)
    have "\<forall>q. l = Some q \<longrightarrow> 1 \<le> q \<and> q < length (ix2vec u)" if "fchain (ix2vec u) st gs" "unat ws \<in> set gs" for st gs
      using that
    proof (induction gs arbitrary: st)
      case (Cons g gs)
      show ?case
      proof (cases "g = unat ws")
        case True
        then show ?thesis using Cons.prems(1) Link by (cases gs) auto
      next
        case False
        then show ?thesis using Cons by auto
      qed
    qed simp
    moreover have "unat ws \<in> set fs" using Link assms(2) unfolding fs(2) by auto
    ultimately have "\<forall>q. l = Some q \<longrightarrow> 1 \<le> q \<and> q < length (ix2vec u)" using fs(1) by blast
    then have "is_dead u (Link l)" using s by (cases l) (auto simp: size_ok_def)
    then show ?thesis using lt used_le [OF s] Link assms(2) by (simp add: do_ix2vec_with_dead_def opt_simps vec_at_def deref_wv_def)
  qed
qed

lemma dieWS_ok:
  assumes w: "wsu_ok h u" and S: "sem h u (unat ws) = Some S" and ws: "ws \<noteq> 0"
  shows "\<exists>h' u'. dieWS h u ws = Some (h', u') \<and> wsu_ok h' u' \<and> (\<forall>i. sem h' u' i = (if i = unat ws then None else sem h u i))
    \<and> length (ix2vec u') = length (ix2vec u) \<and> h' |` (- live h' u') = h |` (- live h u)"
proof -
  have c: "core_ok h u" using w by (simp add: wsu_ok_def)
  obtain a v where a: "vec_at h u (unat ws) = Some (a, v)" using S by (auto simp: sem_def)
  note ak = vec_at_Some [OF a]
  have k: "1 \<le> unat ws" using ws by (metis less_one linorder_not_le unat_eq_0)
  let ?u = "u\<lparr>n_die := n_die u + 1, ix2vec := (ix2vec u)[unat ws := Link (ix2vec_free u)], ix2vec_free := Some (unat ws)\<rparr>"
  have tf: "the_fm h ?u = the_fm h u" by (simp add: the_fm_def)
  have ok: "fm_ok (the_fm h u)" using c by (simp add: core_ok_def map_ok_def)
  obtain t where t: "delFromFM (the_fm h u) a = Some ((the_fm h u)\<lparr>root := t\<rparr>, lookupFM (the_fm h u) a)"
    "fm_ok ((the_fm h u)\<lparr>root := t\<rparr>)" "fm_list ((the_fm h u)\<lparr>root := t\<rparr>) = del_list (wvcmp h) a (fm_list (vec2ix u))"
    using delFromFM_list [OF ok, of a] by auto
  let ?u' = "?u\<lparr>vec2ix := (the_fm h u)\<lparr>root := t\<rparr>, cache_addTo := (cache_addTo u)\<lparr>inUse := 0\<rparr>, cache_delFrom := (cache_delFrom u)\<lparr>inUse := 0\<rparr>,
    cache_intersect := (cache_intersect u)\<lparr>inUse := 0\<rparr>, cache_minus := (cache_minus u)\<lparr>inUse := 0\<rparr>\<rparr>"
  have d: "core_ok (h(a := None)) ?u' \<and> (\<forall>i. sem (h(a := None)) ?u' i = (if i = unat ws then None else sem h u i))
    \<and> (h(a := None)) |` (- live (h(a := None)) ?u') = h |` (- live h u)"
    by (rule die_core [OF c a k _ _ _ _ t(2,3)]) simp_all
  have cc: "cache_ok P (x\<lparr>inUse := 0\<rparr>)" if "cache_ok Q x" for P Q x using cache_clear [OF that] .
  have "wsu_ok (h(a := None)) ?u'"
    using d w k by (auto simp: wsu_ok_def caches_ok_def intro: cc)
  moreover have "dieWS h u ws = Some (h(a := None), ?u')"
  proof -
    have "ucast ws \<noteq> (0 :: UWord)" using ws by (metis unat_eq_0 unat_ucast_up)
    moreover have "(of_nat (unat ws) :: UWord) = ucast ws" by (simp add: word_unat_eq_iff unat_ucast_up unsigned_of_nat take_bit_nat_eq_self_iff order_less_trans [OF unsigned_less])
    ultimately show ?thesis using with_dead_ok [OF c ak(1)] a ws t(1) lookup_live [OF c a] ak(3)
      by (simp add: dieWS_def tf opt_simps delete_WV_def)
  qed
  ultimately show ?thesis using d by auto
qed

end
