(* ===== verification/WordSet_Spec.thy ===== *)
theory WordSet_Spec
  imports WordSet_Props
begin

text \<open>
  Sequences of operations on a universe of word sets against mathematical sets. A client holds numbers of sets; beside the run
  there is a table of what each number it holds stands for.
\<close>

section \<open>Clients\<close>

datatype ws_op = WS_Doubleton UWord UWord | WS_Add WordSet UWord | WS_Del WordSet UWord
  | WS_Union WordSet WordSet | WS_Intersect WordSet WordSet | WS_Minus WordSet WordSet | WS_Die WordSet
  | WS_Elem WordSet UWord | WS_Subset WordSet WordSet | WS_Card WordSet | WS_IsEmpty WordSet
  | WS_IsSingleton WordSet UWord | WS_Any WordSet | WS_Payload WordSet

datatype ws_res = WR_Set WordSet | WR_Bool bool | WR_Card nat | WR_Word UWord | WR_Words "UWord list" | WR_Done

type_synonym ws_state = "vheap \<times> WordSetU"

text \<open>\<open>p\<close> is the address of the new vector, if the operation makes one.\<close>

fun ws_step :: "ws_op \<Rightarrow> Addr \<Rightarrow> ws_state \<Rightarrow> (ws_state \<times> ws_res) option" where
  "ws_step (WS_Doubleton x y) p (h, u) = do { (h, u, r) \<leftarrow> doubletonWS h u p x y; Some ((h, u), WR_Set r) }"
| "ws_step (WS_Add a x) p (h, u) = do { (h, u, r) \<leftarrow> addToWS h u p a x; Some ((h, u), WR_Set r) }"
| "ws_step (WS_Del a x) p (h, u) = do { (h, u, r) \<leftarrow> delFromWS h u p a x; Some ((h, u), WR_Set r) }"
| "ws_step (WS_Union a b) p (h, u) = do { (h, u, r) \<leftarrow> unionWS h u p a b; Some ((h, u), WR_Set r) }"
| "ws_step (WS_Intersect a b) p (h, u) = do { (h, u, r) \<leftarrow> intersectWS h u p a b; Some ((h, u), WR_Set r) }"
| "ws_step (WS_Minus a b) p (h, u) = do { (h, u, r) \<leftarrow> minusWS h u p a b; Some ((h, u), WR_Set r) }"
| "ws_step (WS_Die a) p (h, u) = do { s \<leftarrow> dieWS h u a; Some (s, WR_Done) }"
| "ws_step (WS_Elem a x) p (h, u) = do { (u, b) \<leftarrow> elemWS h u a x; Some ((h, u), WR_Bool b) }"
| "ws_step (WS_Subset a b) p (h, u) = do { (h, u, r) \<leftarrow> isSubsetOf h u p a b; Some ((h, u), WR_Bool r) }"
| "ws_step (WS_Card a) p (h, u) = do { n \<leftarrow> cardinalityWS h u a; Some ((h, u), WR_Card n) }"
| "ws_step (WS_IsEmpty a) p (h, u) = do { (u, b) \<leftarrow> isEmptyWS h u a; Some ((h, u), WR_Bool b) }"
| "ws_step (WS_IsSingleton a x) p (h, u) = do { (u, b) \<leftarrow> isSingletonWS h u a x; Some ((h, u), WR_Bool b) }"
| "ws_step (WS_Any a) p (h, u) = do { (u, w) \<leftarrow> anyElementOfWS h u a; Some ((h, u), WR_Word w) }"
| "ws_step (WS_Payload a) p (h, u) = do { ws \<leftarrow> getPayloadWS h u a; Some ((h, u), WR_Words ws) }"

fun ws_run :: "(ws_op \<times> Addr) list \<Rightarrow> ws_state \<Rightarrow> (ws_state \<times> ws_res list) option" where
  "ws_run [] s = Some (s, [])"
| "ws_run ((x, p) # xs) s = do { (s, r) \<leftarrow> ws_step x p s; (s, rs) \<leftarrow> ws_run xs s; Some (s, r # rs) }"

text \<open>What the numbers that the client holds stand for.\<close>

type_synonym ghost = "WordSet \<rightharpoonup> UWord set"

text \<open>A number that the client holds may be returned again, but only for the set it stands for.\<close>

fun gives :: "ghost \<Rightarrow> UWord set \<Rightarrow> ws_res \<Rightarrow> ghost option" where
  "gives g S (WR_Set k) = (if g k = None \<or> g k = Some S then Some (g(k \<mapsto> S)) else None)"
| "gives g S _ = None"

definition answers :: "ghost \<Rightarrow> bool \<Rightarrow> ghost option" where
  "answers g b = (if b then Some g else None)"

fun spec_step :: "ghost \<Rightarrow> ws_op \<Rightarrow> ws_res \<Rightarrow> ghost option" where
  "spec_step g (WS_Doubleton x y) r = gives g {x, y} r"
| "spec_step g (WS_Add a x) r = gives g (insert x (the (g a))) r"
| "spec_step g (WS_Del a x) r = gives g (the (g a) - {x}) r"
| "spec_step g (WS_Union a b) r = gives g (the (g a) \<union> the (g b)) r"
| "spec_step g (WS_Intersect a b) r = gives g (the (g a) \<inter> the (g b)) r"
| "spec_step g (WS_Minus a b) r = gives g (the (g a) - the (g b)) r"
| "spec_step g (WS_Die a) r = (if r = WR_Done then Some (g(a := None)) else None)"
| "spec_step g (WS_Elem a x) r = answers g (r = WR_Bool (x \<in> the (g a)))"
| "spec_step g (WS_Subset a b) r = answers g (r = WR_Bool (the (g a) \<subseteq> the (g b)))"
| "spec_step g (WS_Card a) r = answers g (r = WR_Card (card (the (g a))))"
| "spec_step g (WS_IsEmpty a) r = answers g (r = WR_Bool (the (g a) = {}))"
| "spec_step g (WS_IsSingleton a x) r = answers g (r = WR_Bool (the (g a) = {x}))"
| "spec_step g (WS_Any a) r = answers g (case r of WR_Word w \<Rightarrow> w \<in> the (g a) | _ \<Rightarrow> False)"
| "spec_step g (WS_Payload a) r = answers g (r = WR_Words (sorted_list_of_set (the (g a))))"

fun spec_run :: "ghost \<Rightarrow> (ws_op \<times> Addr) list \<Rightarrow> ws_res list \<Rightarrow> ghost option" where
  "spec_run g [] [] = Some g"
| "spec_run g ((x, p) # xs) (r # rs) = do { g \<leftarrow> spec_step g x r; spec_run g xs rs }"
| "spec_run g _ _ = None"

text \<open>The client uses numbers it holds, lets only other sets than the empty one die, and asks for an element of sets that have one. The allocator
  returns addresses that are not allocated.\<close>

fun op_legal :: "ghost \<Rightarrow> ws_op \<Rightarrow> bool" where
  "op_legal g (WS_Doubleton x y) = True"
| "op_legal g (WS_Add a x) = (g a \<noteq> None)"
| "op_legal g (WS_Del a x) = (g a \<noteq> None)"
| "op_legal g (WS_Union a b) = (g a \<noteq> None \<and> g b \<noteq> None)"
| "op_legal g (WS_Intersect a b) = (g a \<noteq> None \<and> g b \<noteq> None)"
| "op_legal g (WS_Minus a b) = (g a \<noteq> None \<and> g b \<noteq> None)"
| "op_legal g (WS_Die a) = (g a \<noteq> None \<and> g a \<noteq> Some {})"
| "op_legal g (WS_Elem a x) = (g a \<noteq> None)"
| "op_legal g (WS_Subset a b) = (g a \<noteq> None \<and> g b \<noteq> None)"
| "op_legal g (WS_Card a) = (g a \<noteq> None)"
| "op_legal g (WS_IsEmpty a) = (g a \<noteq> None)"
| "op_legal g (WS_IsSingleton a x) = (g a \<noteq> None)"
| "op_legal g (WS_Any a) = (g a \<noteq> None \<and> g a \<noteq> Some {})"
| "op_legal g (WS_Payload a) = (g a \<noteq> None)"

fun ws_legal :: "ghost \<Rightarrow> (ws_op \<times> Addr) list \<Rightarrow> ws_state \<Rightarrow> bool" where
  "ws_legal g [] s = True"
| "ws_legal g ((x, p) # xs) s = (op_legal g x \<and> p \<noteq> 0 \<and> fst s p = None
     \<and> (case ws_step x p s of None \<Rightarrow> True | Some (s', r) \<Rightarrow>
          (case spec_step g x r of None \<Rightarrow> True | Some g' \<Rightarrow> ws_legal g' xs s')))"

section \<open>Queries\<close>

lemma card_words: "sorted_vec v \<Longrightarrow> length v = card (set v)"
  by (metis distinct_card strict_sorted_iff)

lemma words_sorted: "sorted_vec v \<Longrightarrow> v = sorted_list_of_set (set v)"
  by (metis sorted_list_of_set.idem_if_sorted_distinct strict_sorted_iff)

lemma is_dead_stat: "is_dead (u\<lparr>n_isSingleton := k\<rparr>) e = is_dead u e" "is_dead (u\<lparr>n_anyElementOf := k\<rparr>) e = is_dead u e"
  by (cases "(u, e)" rule: is_dead.cases; simp)+

lemma query_ok:
  assumes w: "wsu_ok h u" and S: "sem h u (unat a) = Some S"
  shows "\<exists>u'. elemWS h u a x = Some (u', x \<in> S) \<and> wsu_ok h u' \<and> same_core u u'"
    "cardinalityWS h u a = Some (card S)"
    "getPayloadWS h u a = Some (sorted_list_of_set S)"
    "\<exists>u'. isEmptyWS h u a = Some (u', S = {}) \<and> wsu_ok h u' \<and> same_core u u'"
    "\<exists>u'. isSingletonWS h u a x = Some (u', S = {x}) \<and> wsu_ok h u' \<and> same_core u u'"
    "S \<noteq> {} \<Longrightarrow> \<exists>u' y. anyElementOfWS h u a = Some (u', y) \<and> y \<in> S \<and> wsu_ok h u' \<and> same_core u u'"
proof -
  obtain p v where v: "do_ix2vec h u a = Some (p, v)" "set (words v) = S" "sorted_vec (words v)" by (rule wsu_sem [OF w S])
  have chg: "wsu_ok h u'" if "same_core u u'" "ws_empty u' = ws_empty u" "cache_addTo u' = cache_addTo u" "cache_delFrom u' = cache_delFrom u"
    "cache_intersect u' = cache_intersect u" "cache_minus u' = cache_minus u" for u'
    using wsu_caches [OF w] that by (auto intro: wsu_change [OF w])
  show "\<exists>u'. elemWS h u a x = Some (u', x \<in> S) \<and> wsu_ok h u' \<and> same_core u u'"
    using v by (auto simp: elemWS_def list_ex_iff same_core_def intro!: chg)
  show "cardinalityWS h u a = Some (card S)" using v card_words [OF v(3)] by (simp add: cardinalityWS_def)
  show "getPayloadWS h u a = Some (sorted_list_of_set S)" using v words_sorted [OF v(3)] by (simp add: getPayloadWS_def)
  have e: "a = ws_empty u \<longleftrightarrow> S = {}"
  proof -
    have c: "vecs_ok h u" "sem h u 0 = Some {}" "ws_empty u = 0" using w by (simp_all add: wsu_ok_def core_ok_def)
    have "unat a = 0" if "S = {}" using sem_inj [OF c(1)] S c(2) that by blast
    moreover have "S = {}" if "unat a = 0" using S c(2) that by simp
    ultimately show ?thesis using c(3) by (metis unat_eq_0)
  qed
  show "\<exists>u'. isEmptyWS h u a = Some (u', S = {}) \<and> wsu_ok h u' \<and> same_core u u'"
    using v e by (auto simp: isEmptyWS_def same_core_def opt_simps intro!: chg)
  have do: "do_ix2vec h (u\<lparr>n_isSingleton := k\<rparr>) a = do_ix2vec h u a" "do_ix2vec h (u\<lparr>n_anyElementOf := k\<rparr>) a = do_ix2vec h u a" for k
    by (simp_all add: do_ix2vec_def ix2vec_used_def is_dead_stat)
  have "length (words v) = 1 \<and> words v ! 0 = x \<longleftrightarrow> S = {x}"
  proof
    assume "length (words v) = 1 \<and> words v ! 0 = x"
    then show "S = {x}" using v(2) by (cases "words v") auto
  next
    assume s: "S = {x}"
    then have "length (words v) = 1" using card_words [OF v(3)] v(2) by simp
    then show "length (words v) = 1 \<and> words v ! 0 = x" using v(2) s by (cases "words v") auto
  qed
  then show "\<exists>u'. isSingletonWS h u a x = Some (u', S = {x}) \<and> wsu_ok h u' \<and> same_core u u'"
    using v do by (auto simp: isSingletonWS_def Let_def same_core_def intro!: chg)
  assume ne: "S \<noteq> {}"
  then have "words v \<noteq> []" using v(2) by auto
  then have "words v ! 0 \<in> S" "1 \<le> length (words v)" using v(2) by (auto simp: Suc_le_eq)
  then show "\<exists>u' y. anyElementOfWS h u a = Some (u', y) \<and> y \<in> S \<and> wsu_ok h u' \<and> same_core u u'"
    using v do by (auto simp: anyElementOfWS_def Let_def same_core_def opt_simps intro!: chg)
qed

section \<open>Creation\<close>

lemma create_ok:
  assumes new: "newWordSetU wsu p n h = Some (h', u)" and p: "h p = None" "p \<noteq> 0"
  shows "wsu_ok h' u \<and> length (ix2vec u) = 1 \<and> h' |` (- live h' u) = h"
proof -
  have n: "1 \<le> n" "n \<le> 32" using new by (auto simp: newWordSetU_def WCache_INIT_def N_WCACHE_STAT_MAX_def vg_assert_def split: if_splits)
  define c where "c = zero_cache\<lparr>dynMax := word_of_int n, inUse := 0\<rparr>"
  define u0 where "u0 = \<lparr>self = wsu, vec2ix = newFM (Some (cmp_WordVecs_for_FM h)), ix2vec = [], ix2vec_size = 0, ix2vec_free = None,
                   ws_empty = 0, cache_addTo = c, cache_delFrom = c, cache_intersect = c, cache_minus = c,
                   n_add = 0, n_add_uncached = 0, n_del = 0, n_del_uncached = 0, n_die = 0, n_union = 0, n_intersect = 0,
                   n_intersect_uncached = 0, n_minus = 0, n_minus_uncached = 0, n_elem = 0, n_doubleton = 0, n_isEmpty = 0,
                   n_isSingleton = 0, n_anyElementOf = 0, n_isSubsetOf = 0\<rparr>"
  have "uint (word_of_int n :: UWord) = n" using n by (simp add: uint_word_of_int_eq take_bit_int_eq_self)
  then have "unat (word_of_int n :: UWord) = nat n" by (simp add: unat_eq_nat_uint)
  then have cok: "cache_ok P c" for P using n by (simp add: cache_ok_def c_def zero_cache_def N_WCACHE_STAT_MAX_def) linarith
  have core: "core_ok h u0"
    by (auto simp: core_ok_def vecs_ok_def vec_at_def map_ok_def free_ok_def size_ok_def fm_ok_the u0_def newFM_def initFM_def fm_list_def ordered_def
        intro!: exI [of _ "[]"])
  have "new_WV u0 p [] h = h(p \<mapsto> \<lparr>owner = self u0, words = []\<rparr>)" by (simp add: new_WV_def)
  obtain h1 u1 r where a: "add_or_dealloc_WordVec (new_WV u0 p [] h) u0 p = Some (h1, u1, r)" "core_ok h1 u1" "sem h1 u1 (unat r) = Some {}"
    "extends h u0 h1 u1" "same_ctl u0 u1"
    using add_or_dealloc_ok [OF core p, of "[]"] by (auto simp: u0_def)
  have len: "length (ix2vec u1) \<le> 1" using a(4) by (simp add: extends_def u0_def)
  have "unat r < length (ix2vec u1)" using a(3) by (auto simp: sem_def vec_at_def split: if_splits)
  then have "unat r = 0" "length (ix2vec u1) = 1" using len by linarith+
  then have r: "r = 0" "length (ix2vec u1) = 1" by (simp_all only: unat_eq_0)
  have "newWordSetU wsu p n h = Some (h1, u1\<lparr>ws_empty := r\<rparr>)"
    using a(1) n by (simp add: newWordSetU_def WCache_INIT_def N_WCACHE_STAT_MAX_def opt_simps u0_def c_def Let_def)
  then have u: "h' = h1" "u = u1\<lparr>ws_empty := 0\<rparr>" using new r(1) by simp_all
  have sc: "same_core u1 u" by (simp add: same_core_def u(2))
  have "core_ok h' u" "sem h' u 0 = Some {}" using a(2,3) r(1) core_cong [OF sc, of h'] core_sem [OF sc, of h'] u(1) by simp_all
  moreover have "caches_ok h' u" using a(5) cok by (simp add: caches_ok_def same_ctl_def u(2) u0_def)
  moreover have "h' |` (- live h' u) = h"
  proof -
    have "live h u0 = {}" by (simp add: live_def vec_at_def u0_def)
    then have "h |` (- live h u0) = h" by (simp add: restrict_map_def)
    then show ?thesis using a(4) core_live [OF sc, of h'] u(1) by (simp add: extends_def)
  qed
  ultimately show ?thesis using r(2) u by (simp add: wsu_ok_def)
qed

section \<open>Runs\<close>

definition holds_in :: "ghost \<Rightarrow> vheap \<Rightarrow> WordSetU \<Rightarrow> bool" where
  "holds_in g h u \<longleftrightarrow> (\<forall>k S. g k = Some S \<longrightarrow> sem h u (unat k) = Some S)"

lemma holds_extends: "holds_in g h u \<Longrightarrow> extends h u h' u' \<Longrightarrow> holds_in g h' u'"
  by (simp add: holds_in_def extends_def)

lemma holds_core: "holds_in g h u \<Longrightarrow> same_core u u' \<Longrightarrow> holds_in g h u'"
  using core_sem [of u u' h] by (simp add: holds_in_def)

lemma gives_ok:
  assumes "holds_in g h u" "extends h u h' u'" "sem h' u' (unat r) = Some S"
  shows "\<exists>g'. gives g S (WR_Set r) = Some g' \<and> holds_in g' h' u'"
proof -
  have "g r = None \<or> g r = Some S" using holds_extends [OF assms(1,2)] assms(3) by (cases "g r") (auto simp: holds_in_def)
  then show ?thesis using holds_extends [OF assms(1,2)] assms(3) by (auto simp: holds_in_def)
qed

text \<open>What holds after a step that is allowed.\<close>

definition step_ok :: "ghost \<Rightarrow> ws_op \<Rightarrow> Addr \<Rightarrow> vheap \<Rightarrow> WordSetU \<Rightarrow> bool" where
  "step_ok g x p h u \<longleftrightarrow> (\<exists>h' u' r g'. ws_step x p (h, u) = Some ((h', u'), r) \<and> spec_step g x r = Some g' \<and> holds_in g' h' u'
     \<and> wsu_ok h' u' \<and> length (ix2vec u') \<le> Suc (length (ix2vec u)) \<and> h' |` (- live h' u') = h |` (- live h u))"

lemma step_okI:
  assumes "holds_in g h u" "ws_step x p (h, u) = Some ((h', u'), WR_Set r)" "wsu_ok h' u'" "extends h u h' u'" "sem h' u' (unat r) = Some S"
    and "spec_step g x (WR_Set r) = gives g S (WR_Set r)"
  shows "step_ok g x p h u"
proof -
  obtain g' where "gives g S (WR_Set r) = Some g'" "holds_in g' h' u'" using gives_ok [OF assms(1,4,5)] by blast
  moreover have "length (ix2vec u') \<le> Suc (length (ix2vec u))" "h' |` (- live h' u') = h |` (- live h u)"
    using assms(4) by (simp_all add: extends_def)
  ultimately show ?thesis using assms(2,3,6) unfolding step_ok_def by metis
qed

lemma query_okI:
  assumes "holds_in g h u" "ws_step x p (h, u) = Some ((h, u'), r)" "wsu_ok h u'" "same_core u u'" "spec_step g x r = Some g"
  shows "step_ok g x p h u"
  using assms holds_core [OF assms(1,4)] core_live [OF assms(4), of h] unfolding step_ok_def same_core_def by (metis le_SucI order_refl)

lemma step_correct:
  assumes w: "wsu_ok h u" and g: "holds_in g h u" and l: "op_legal g x" and p: "h p = None" "p \<noteq> 0" and n: "length (ix2vec u) < 2 ^ 31"
  shows "step_ok g x p h u"
proof -
  have S: "\<exists>S. g a = Some S \<and> sem h u (unat a) = Some S" if "g a \<noteq> None" for a using g that by (auto simp: holds_in_def)
  show ?thesis
  proof (cases x)
    case (WS_Doubleton y z)
    then show ?thesis using doubletonWS_ok [OF w p n, of y z] step_okI [OF g, of x p] by auto
  next
    case (WS_Add a y)
    then obtain V where "g a = Some V" "sem h u (unat a) = Some V" using S [of a] l by auto
    then show ?thesis using WS_Add addToWS_ok [OF w _ p n, of a V y] step_okI [OF g, of x p] by auto
  next
    case (WS_Del a y)
    then obtain V where "g a = Some V" "sem h u (unat a) = Some V" using S [of a] l by auto
    then show ?thesis using WS_Del delFromWS_ok [OF w _ p n, of a V y] step_okI [OF g, of x p] by auto
  next
    case (WS_Union a b)
    then obtain V W where "g a = Some V" "sem h u (unat a) = Some V" "g b = Some W" "sem h u (unat b) = Some W" using S [of a] S [of b] l by auto
    then show ?thesis using WS_Union unionWS_ok [OF w _ _ p n, of a V b W] step_okI [OF g, of x p] by auto
  next
    case (WS_Intersect a b)
    then obtain V W where "g a = Some V" "sem h u (unat a) = Some V" "g b = Some W" "sem h u (unat b) = Some W" using S [of a] S [of b] l by auto
    then show ?thesis using WS_Intersect intersectWS_ok [OF w _ _ p n, of a V b W] step_okI [OF g, of x p] by auto
  next
    case (WS_Minus a b)
    then obtain V W where "g a = Some V" "sem h u (unat a) = Some V" "g b = Some W" "sem h u (unat b) = Some W" using S [of a] S [of b] l by auto
    then show ?thesis using WS_Minus minusWS_ok [OF w _ _ p n, of a V b W] step_okI [OF g, of x p] by auto
  next
    case (WS_Die a)
    then obtain V where V: "g a = Some V" "sem h u (unat a) = Some V" "V \<noteq> {}" using S [of a] l by auto
    then have "a \<noteq> 0" using w by (auto simp: wsu_ok_def)
    then obtain h' u' where d: "dieWS h u a = Some (h', u')" "wsu_ok h' u'" "\<forall>i. sem h' u' i = (if i = unat a then None else sem h u i)"
      "length (ix2vec u') = length (ix2vec u)" "h' |` (- live h' u') = h |` (- live h u)" using dieWS_ok [OF w V(2)] by blast
    have "k = a" if "unat k = unat a" for k using that by (simp only: word_unat_eq_iff)
    then have "holds_in (g(a := None)) h' u'" using g d(3) by (auto simp: holds_in_def)
    then show ?thesis using WS_Die d unfolding step_ok_def by auto
  next
    case (WS_Elem a y)
    then obtain V where "g a = Some V" "sem h u (unat a) = Some V" using S [of a] l by auto
    then show ?thesis using WS_Elem query_ok(1) [OF w, of a V y] query_okI [OF g, of x p] by (auto simp: answers_def)
  next
    case (WS_Subset a b)
    then obtain V W where V: "g a = Some V" "sem h u (unat a) = Some V" "g b = Some W" "sem h u (unat b) = Some W" using S [of a] S [of b] l by auto
    then obtain h' u' where "isSubsetOf h u p a b = Some (h', u', V \<subseteq> W)" "wsu_ok h' u'" "extends h u h' u'"
      using isSubsetOf_ok [OF w _ _ p n, of a V b W] by blast
    then show ?thesis using WS_Subset V holds_extends [OF g, of h' u'] unfolding step_ok_def by (auto simp: answers_def extends_def)
  next
    case (WS_Card a)
    then obtain V where "g a = Some V" "sem h u (unat a) = Some V" using S [of a] l by auto
    then show ?thesis using WS_Card w query_ok(2) [OF w, of a V] query_okI [OF g, of x p u] by (auto simp: answers_def same_core_def)
  next
    case (WS_IsEmpty a)
    then obtain V where "g a = Some V" "sem h u (unat a) = Some V" using S [of a] l by auto
    then show ?thesis using WS_IsEmpty query_ok(4) [OF w, of a V] query_okI [OF g, of x p] by (auto simp: answers_def)
  next
    case (WS_IsSingleton a y)
    then obtain V where "g a = Some V" "sem h u (unat a) = Some V" using S [of a] l by auto
    then show ?thesis using WS_IsSingleton query_ok(5) [OF w, of a V y] query_okI [OF g, of x p] by (auto simp: answers_def)
  next
    case (WS_Any a)
    then obtain V where "g a = Some V" "sem h u (unat a) = Some V" "V \<noteq> {}" using S [of a] l by auto
    then show ?thesis using WS_Any query_ok(6) [OF w, of a V] query_okI [OF g, of x p] by (auto simp: answers_def)
  next
    case (WS_Payload a)
    then obtain V where "g a = Some V" "sem h u (unat a) = Some V" using S [of a] l by auto
    then show ?thesis using WS_Payload w query_ok(3) [OF w, of a V] query_okI [OF g, of x p u] by (auto simp: answers_def same_core_def)
  qed
qed

lemma run_correct:
  "wsu_ok h u \<Longrightarrow> holds_in g h u \<Longrightarrow> ws_legal g ops (h, u) \<Longrightarrow> length (ix2vec u) + length ops < 2 ^ 31 \<Longrightarrow>
    \<exists>h' u' rs g'. ws_run ops (h, u) = Some ((h', u'), rs) \<and> spec_run g ops rs = Some g' \<and> holds_in g' h' u' \<and> wsu_ok h' u'
      \<and> h' |` (- live h' u') = h |` (- live h u)"
proof (induction ops arbitrary: h u g)
  case (Cons y ops)
  obtain x p where y: "y = (x, p)" by fastforce
  have l: "op_legal g x" "p \<noteq> 0" "h p = None" using Cons.prems(3) y by simp_all
  have n: "length (ix2vec u) < 2 ^ 31" using Cons.prems(4) by simp
  obtain h1 u1 r g1 where s: "ws_step x p (h, u) = Some ((h1, u1), r)" "spec_step g x r = Some g1" "holds_in g1 h1 u1" "wsu_ok h1 u1"
    "length (ix2vec u1) \<le> Suc (length (ix2vec u))" "h1 |` (- live h1 u1) = h |` (- live h u)" using step_correct [OF Cons.prems(1,2) l(1,3,2) n] unfolding step_ok_def by blast
  have "ws_legal g1 ops (h1, u1)" using Cons.prems(3) y s(1,2) by simp
  moreover have "length (ix2vec u1) + length ops < 2 ^ 31" using s(5) Cons.prems(4) by simp
  ultimately obtain h' u' rs g' where "ws_run ops (h1, u1) = Some ((h', u'), rs)" "spec_run g1 ops rs = Some g'" "holds_in g' h' u'" "wsu_ok h' u'"
    "h' |` (- live h' u') = h1 |` (- live h1 u1)"
    using Cons.IH [OF s(4,3)] by blast
  then show ?case using y s(1,2,6) by auto
qed auto

section \<open>Deletion\<close>

lemma delete_keys:
  "distinct (map fst xs) \<Longrightarrow> \<forall>x \<in> set xs. h (fst x) \<noteq> None \<Longrightarrow>
    delete_all_WVs (concat (map (entry_calls True False) xs) @ [DeallocFM]) h = Some (h |` (- fst ` set xs))"
proof (induction xs arbitrary: h)
  case Nil
  then show ?case by (simp add: restrict_map_def)
next
  case (Cons x xs)
  let ?h = "h(fst x := None)"
  have "delete_WV (fst x) h = Some ?h" using Cons.prems(2) by (auto simp: delete_WV_def)
  moreover have "\<forall>y \<in> set xs. ?h (fst y) \<noteq> None"
  proof
    fix y assume y: "y \<in> set xs"
    then have "fst y \<noteq> fst x" using Cons.prems(1) by (metis distinct.simps(2) image_eqI image_set list.simps(9))
    then show "?h (fst y) \<noteq> None" using Cons.prems(2) y by simp
  qed
  moreover have r: "?h |` (- fst ` set xs) = h |` (- fst ` set (x # xs))" by (auto simp: restrict_map_def fun_eq_iff)
  ultimately have "delete_all_WVs (concat (map (entry_calls True False) xs) @ [DeallocFM]) ?h = Some (h |` (- fst ` set (x # xs)))"
    using Cons.prems(1) unfolding r [symmetric] by (intro Cons.IH) simp_all
  moreover have "entry_calls True False x = [KFin (fst x), Dealloc (fst x)]" by (simp add: entry_calls_def)
  ultimately show ?case using \<open>delete_WV (fst x) h = Some ?h\<close> by simp
qed

lemma distinct_neq: "sorted_wrt (\<lambda>x y. x \<noteq> y) xs \<Longrightarrow> distinct xs"
  by (induction xs) auto

lemma delete_ok:
  assumes "core_ok h u"
  shows "deleteWordSetU h u = Some (h |` (- live h u))"
proof -
  have v: "vecs_ok h u" and m: "map_ok h u" using assms by (auto simp: core_ok_def)
  let ?xs = "postorder_avl (root (the_fm h u))"
  have p: "mset ?xs = mset (fm_list (vec2ix u))" using postorder_mset by (metis fm_list_def fm_list_the)
  then have set: "set ?xs = set (fm_list (vec2ix u))" by (metis set_mset_mset)
  have "distinct (map fst (fm_list (vec2ix u)))"
  proof -
    have "ordered (wvcmp h) (fm_list (vec2ix u))" using m by (simp add: map_ok_def fm_ok_the)
    then have "sorted_wrt (\<lambda>x y. x \<noteq> y) (map fst (fm_list (vec2ix u)))"
      unfolding ordered_def sorted_wrt_map by (rule sorted_wrt_mono_rel [rotated]) auto
    then show ?thesis by (rule distinct_neq)
  qed
  then have d: "distinct (map fst ?xs)" using p by (metis mset_eq_imp_distinct_iff mset_map)
  have "a \<in> fst ` set ?xs \<longleftrightarrow> a \<in> live h u" for a
  proof -
    have "a \<in> fst ` set ?xs \<longleftrightarrow> (\<exists>i < length (ix2vec u). ix2vec u ! i = WV a)"
      unfolding set using m by (force simp: map_ok_def image_iff)
    also have "\<dots> \<longleftrightarrow> a \<in> live h u" using entry_WV [OF v] vec_at_Some by (fastforce simp: live_def)
    finally show ?thesis .
  qed
  then have fst: "fst ` set ?xs = live h u" by blast
  have "\<forall>x \<in> set ?xs. h (fst x) \<noteq> None"
  proof
    fix x assume "x \<in> set ?xs"
    then have "fst x \<in> live h u" using fst by blast
    then show "h (fst x) \<noteq> None" using vec_at_Some(3) by (fastforce simp: live_def)
  qed
  from delete_keys [OF d this] show ?thesis by (simp add: deleteWordSetU_def deleteFM_def avl_free_postorder fst)
qed

section \<open>Results\<close>

text \<open>C27: Every sequence of operations on a new universe of word sets that uses the numbers it was given returns, fails no assertion, and
  gives the answers of the operations on sets: unions, intersections, differences, additions, removals, membership, inclusion,
  cardinality, elements in order. A number keeps its meaning until its set dies, whatever the caches remember and
  whichever numbers are used again, and two numbers that the client holds are equal exactly when their sets are.\<close>

theorem wordsets_refine_sets:
  assumes "newWordSetU wsu p n h = Some (h0, u0)" "h p = None" "p \<noteq> 0"
    and "ws_legal [0 \<mapsto> {}] ops (h0, u0)" "length ops < 2147483647"
  shows "\<exists>h' u' rs g. ws_run ops (h0, u0) = Some ((h', u'), rs) \<and> spec_run [0 \<mapsto> {}] ops rs = Some g \<and> inj_on g (dom g)"
proof -
  note c = create_ok [OF assms(1-3)]
  have "holds_in [0 \<mapsto> {}] h0 u0" using c by (simp add: holds_in_def wsu_ok_def)
  then obtain h' u' rs g where r: "ws_run ops (h0, u0) = Some ((h', u'), rs)" "spec_run [0 \<mapsto> {}] ops rs = Some g"
    "holds_in g h' u'" "wsu_ok h' u'" using run_correct [of h0 u0 "[0 \<mapsto> {}]" ops] c assms(4,5) by auto
  have "vecs_ok h' u'" using r(4) by (simp add: wsu_ok_def core_ok_def)
  then have "inj_on g (dom g)" using r(3) sem_inj by (intro inj_onI) (auto simp: holds_in_def word_unat_eq_iff)
  then show ?thesis using r by blast
qed

text \<open>C28: No vector leaks and none is freed twice: when the universe is deleted after any such sequence, the heap is what it was before the universe was
  created. This covers the vectors that turn out to exist already, those of dead sets and those still alive.\<close>

theorem wordsets_no_leak:
  assumes "newWordSetU wsu p n h = Some (h0, u0)" "h p = None" "p \<noteq> 0"
    and "ws_legal [0 \<mapsto> {}] ops (h0, u0)" "length ops < 2147483647" "ws_run ops (h0, u0) = Some ((h', u'), rs)"
  shows "deleteWordSetU h' u' = Some h"
proof -
  note c = create_ok [OF assms(1-3)]
  have "holds_in [0 \<mapsto> {}] h0 u0" using c by (simp add: holds_in_def wsu_ok_def)
  then have "wsu_ok h' u' \<and> h' |` (- live h' u') = h0 |` (- live h0 u0)"
    using run_correct [of h0 u0 "[0 \<mapsto> {}]" ops] c assms(4-6) by auto
  then show ?thesis using delete_ok [of h' u'] c by (simp add: wsu_ok_def)
qed

definition ws_example :: "(ws_op \<times> Addr) list" where
  "ws_example = [(WS_Doubleton 5 3, 100), (WS_Add 1 9, 200), (WS_Doubleton 9 3, 300), (WS_Intersect 2 3, 400), (WS_Intersect 3 2, 500),
     (WS_Die 1, 500), (WS_Minus 2 3, 500), (WS_Subset 1 2, 600), (WS_Payload 2, 600), (WS_Union 1 3, 600)]"

definition ws_start :: ws_state where
  "ws_start = the (newWordSetU 8 16 4 Map.empty)"

lemma ws_start_new: "newWordSetU 8 16 4 Map.empty = Some (fst ws_start, snd ws_start)"
proof -
  have "newWordSetU 8 16 4 Map.empty \<noteq> None" by code_simp
  then show ?thesis by (auto simp: ws_start_def)
qed

lemma ws_example_legal: "ws_legal [0 \<mapsto> {}] ws_example ws_start"
  by code_simp

theorem wordsets_refine_sets_witness:
  "\<exists>s rs g. ws_run ws_example ws_start = Some (s, rs) \<and> spec_run [0 \<mapsto> {}] ws_example rs = Some g \<and> inj_on g (dom g)"
  using wordsets_refine_sets [OF ws_start_new, of ws_example] ws_example_legal by (fastforce simp: ws_example_def)

definition ws_final :: ws_state where
  "ws_final = fst (the (ws_run ws_example ws_start))"

lemma ws_final_run: "ws_run ws_example (fst ws_start, snd ws_start) = Some ((fst ws_final, snd ws_final), snd (the (ws_run ws_example ws_start)))"
proof -
  have "ws_run ws_example ws_start \<noteq> None" by code_simp
  then show ?thesis by (auto simp: ws_final_def)
qed

theorem wordsets_no_leak_witness: "deleteWordSetU (fst ws_final) (snd ws_final) = Some Map.empty"
  using wordsets_no_leak [OF ws_start_new _ _ _ _ ws_final_run] ws_example_legal by (simp add: ws_example_def)

end
