(* ===== verification/VexFlags.thy ===== *)
theory VexFlags
  imports Prelude
begin

text \<open>
  How the translated code computes processor flags, \<open>VEX/priv/guest_amd64_helpers.c\<close>: the macros
  \<open>ACTIONS_*\<close> that compute the flags of an operation at a width of 8, 16, 32 or 64 bits from its
  arguments or its result, kept in machine words. The width \<open>DATA_BITS\<close> is the argument \<open>b\<close>; a cast to the
  type \<open>DATA_UTYPE\<close> of that width is \<open>take_bit b\<close>, one to \<open>DATA_STYPE\<close> is \<open>signed_take_bit (b - 1)\<close>.
  The word type is a parameter, because the macros of the 32-bit guest are the same.

  The second half says what the flags of an addition, a subtraction or a product are, with the integers:
  carry and overflow mean that the result of the operation on the integers is not the result kept
  at width \<open>b\<close>, read without or with sign.
\<close>

section \<open>The computations\<close>

abbreviation MASK_C :: "'w::len word" where "MASK_C \<equiv> push_bit 0 1"
abbreviation MASK_P :: "'w::len word" where "MASK_P \<equiv> push_bit 2 1"
abbreviation MASK_A :: "'w::len word" where "MASK_A \<equiv> push_bit 4 1"
abbreviation MASK_Z :: "'w::len word" where "MASK_Z \<equiv> push_bit 6 1"
abbreviation MASK_S :: "'w::len word" where "MASK_S \<equiv> push_bit 7 1"
abbreviation MASK_O :: "'w::len word" where "MASK_O \<equiv> push_bit 11 1"

definition parity_table :: "UChar list" where
  "parity_table = [
    4, 0, 0, 4, 0, 4, 4, 0, 0, 4, 4, 0, 4, 0, 0, 4, 0, 4, 4, 0, 4, 0, 0, 4, 4, 0, 0, 4, 0, 4, 4, 0,
    0, 4, 4, 0, 4, 0, 0, 4, 4, 0, 0, 4, 0, 4, 4, 0, 4, 0, 0, 4, 0, 4, 4, 0, 0, 4, 4, 0, 4, 0, 0, 4,
    0, 4, 4, 0, 4, 0, 0, 4, 4, 0, 0, 4, 0, 4, 4, 0, 4, 0, 0, 4, 0, 4, 4, 0, 0, 4, 4, 0, 4, 0, 0, 4,
    4, 0, 0, 4, 0, 4, 4, 0, 0, 4, 4, 0, 4, 0, 0, 4, 0, 4, 4, 0, 4, 0, 0, 4, 4, 0, 0, 4, 0, 4, 4, 0,
    0, 4, 4, 0, 4, 0, 0, 4, 4, 0, 0, 4, 0, 4, 4, 0, 4, 0, 0, 4, 0, 4, 4, 0, 0, 4, 4, 0, 4, 0, 0, 4,
    4, 0, 0, 4, 0, 4, 4, 0, 0, 4, 4, 0, 4, 0, 0, 4, 0, 4, 4, 0, 4, 0, 0, 4, 4, 0, 0, 4, 0, 4, 4, 0,
    4, 0, 0, 4, 0, 4, 4, 0, 0, 4, 4, 0, 4, 0, 0, 4, 0, 4, 4, 0, 4, 0, 0, 4, 4, 0, 0, 4, 0, 4, 4, 0,
    0, 4, 4, 0, 4, 0, 0, 4, 4, 0, 0, 4, 0, 4, 4, 0, 4, 0, 0, 4, 0, 4, 4, 0, 0, 4, 4, 0, 4, 0, 0, 4]"

definition lshift :: "'w::len word \<Rightarrow> int \<Rightarrow> 'w word" where
  "lshift x n = (if n \<ge> 0 then push_bit (nat n) x else signed_drop_bit (nat (- n)) x)"

definition parity :: "'w::len word \<Rightarrow> 'w word" where
  "parity x = ucast (parity_table ! unat (ucast x :: UChar))"

definition ACTIONS_ADD :: "nat \<Rightarrow> 'w::len word \<Rightarrow> 'w word \<Rightarrow> 'w word" where
  "ACTIONS_ADD b CC_DEP1 CC_DEP2 =
     (let argL = CC_DEP1;
          argR = CC_DEP2;
          res = argL + argR;
          cf = of_bool (take_bit b res < take_bit b argL);
          pf = parity res;
          af = (res XOR argL XOR argR) AND 0x10;
          zf = push_bit 6 (of_bool (take_bit b res = 0));
          sf = lshift res (8 - int b) AND 0x80;
          ovf = lshift ((argL XOR argR XOR - 1) AND (argL XOR res)) (12 - int b) AND MASK_O
      in cf OR pf OR af OR zf OR sf OR ovf)"

definition ACTIONS_SUB :: "nat \<Rightarrow> 'w::len word \<Rightarrow> 'w word \<Rightarrow> 'w word" where
  "ACTIONS_SUB b CC_DEP1 CC_DEP2 =
     (let argL = CC_DEP1;
          argR = CC_DEP2;
          res = argL - argR;
          cf = of_bool (take_bit b argL < take_bit b argR);
          pf = parity res;
          af = (res XOR argL XOR argR) AND 0x10;
          zf = push_bit 6 (of_bool (take_bit b res = 0));
          sf = lshift res (8 - int b) AND 0x80;
          ovf = lshift ((argL XOR argR) AND (argL XOR res)) (12 - int b) AND MASK_O
      in cf OR pf OR af OR zf OR sf OR ovf)"

definition ACTIONS_ADC :: "nat \<Rightarrow> 'w::len word \<Rightarrow> 'w word \<Rightarrow> 'w word \<Rightarrow> 'w word" where
  "ACTIONS_ADC b CC_DEP1 CC_DEP2 CC_NDEP =
     (let oldC = CC_NDEP AND MASK_C;
          argL = CC_DEP1;
          argR = CC_DEP2 XOR oldC;
          res = (argL + argR) + oldC;
          cf = (if oldC \<noteq> 0 then of_bool (take_bit b res \<le> take_bit b argL)
                else of_bool (take_bit b res < take_bit b argL));
          pf = parity res;
          af = (res XOR argL XOR argR) AND 0x10;
          zf = push_bit 6 (of_bool (take_bit b res = 0));
          sf = lshift res (8 - int b) AND 0x80;
          ovf = lshift ((argL XOR argR XOR - 1) AND (argL XOR res)) (12 - int b) AND MASK_O
      in cf OR pf OR af OR zf OR sf OR ovf)"

definition ACTIONS_SBB :: "nat \<Rightarrow> 'w::len word \<Rightarrow> 'w word \<Rightarrow> 'w word \<Rightarrow> 'w word" where
  "ACTIONS_SBB b CC_DEP1 CC_DEP2 CC_NDEP =
     (let oldC = CC_NDEP AND MASK_C;
          argL = CC_DEP1;
          argR = CC_DEP2 XOR oldC;
          res = (argL - argR) - oldC;
          cf = (if oldC \<noteq> 0 then of_bool (take_bit b argL \<le> take_bit b argR)
                else of_bool (take_bit b argL < take_bit b argR));
          pf = parity res;
          af = (res XOR argL XOR argR) AND 0x10;
          zf = push_bit 6 (of_bool (take_bit b res = 0));
          sf = lshift res (8 - int b) AND 0x80;
          ovf = lshift ((argL XOR argR) AND (argL XOR res)) (12 - int b) AND MASK_O
      in cf OR pf OR af OR zf OR sf OR ovf)"

definition ACTIONS_LOGIC :: "nat \<Rightarrow> 'w::len word \<Rightarrow> 'w word" where
  "ACTIONS_LOGIC b CC_DEP1 =
     (let cf = 0;
          pf = parity CC_DEP1;
          af = 0;
          zf = push_bit 6 (of_bool (take_bit b CC_DEP1 = 0));
          sf = lshift CC_DEP1 (8 - int b) AND 0x80;
          ovf = 0
      in cf OR pf OR af OR zf OR sf OR ovf)"

definition ACTIONS_INC :: "nat \<Rightarrow> 'w::len word \<Rightarrow> 'w word \<Rightarrow> 'w word" where
  "ACTIONS_INC b CC_DEP1 CC_NDEP =
     (let res = CC_DEP1;
          argL = res - 1;
          argR = 1;
          cf = CC_NDEP AND MASK_C;
          pf = parity res;
          af = (res XOR argL XOR argR) AND 0x10;
          zf = push_bit 6 (of_bool (take_bit b res = 0));
          sf = lshift res (8 - int b) AND 0x80;
          ovf = push_bit 11 (of_bool (res AND mask b = push_bit (b - 1) 1))
      in cf OR pf OR af OR zf OR sf OR ovf)"

definition ACTIONS_DEC :: "nat \<Rightarrow> 'w::len word \<Rightarrow> 'w word \<Rightarrow> 'w word" where
  "ACTIONS_DEC b CC_DEP1 CC_NDEP =
     (let res = CC_DEP1;
          argL = res + 1;
          argR = 1;
          cf = CC_NDEP AND MASK_C;
          pf = parity res;
          af = (res XOR argL XOR argR) AND 0x10;
          zf = push_bit 6 (of_bool (take_bit b res = 0));
          sf = lshift res (8 - int b) AND 0x80;
          ovf = push_bit 11 (of_bool (res AND mask b = push_bit (b - 1) 1 - 1))
      in cf OR pf OR af OR zf OR sf OR ovf)"

definition ACTIONS_SHL :: "nat \<Rightarrow> 'w::len word \<Rightarrow> 'w word \<Rightarrow> 'w word" where
  "ACTIONS_SHL b CC_DEP1 CC_DEP2 =
     (let cf = drop_bit (b - 1) CC_DEP2 AND MASK_C;
          pf = parity CC_DEP1;
          af = 0;
          zf = push_bit 6 (of_bool (take_bit b CC_DEP1 = 0));
          sf = lshift CC_DEP1 (8 - int b) AND 0x80;
          ovf = lshift (CC_DEP2 XOR CC_DEP1) (12 - int b) AND MASK_O
      in cf OR pf OR af OR zf OR sf OR ovf)"

definition ACTIONS_SHR :: "nat \<Rightarrow> 'w::len word \<Rightarrow> 'w word \<Rightarrow> 'w word" where
  "ACTIONS_SHR b CC_DEP1 CC_DEP2 =
     (let cf = CC_DEP2 AND 1;
          pf = parity CC_DEP1;
          af = 0;
          zf = push_bit 6 (of_bool (take_bit b CC_DEP1 = 0));
          sf = lshift CC_DEP1 (8 - int b) AND 0x80;
          ovf = lshift (CC_DEP2 XOR CC_DEP1) (12 - int b) AND MASK_O
      in cf OR pf OR af OR zf OR sf OR ovf)"

definition ACTIONS_ROL :: "nat \<Rightarrow> 'w::len word \<Rightarrow> 'w word \<Rightarrow> 'w word" where
  "ACTIONS_ROL b CC_DEP1 CC_NDEP =
     (CC_NDEP AND NOT (MASK_O OR MASK_C)) OR (MASK_C AND CC_DEP1)
       OR (MASK_O AND (lshift CC_DEP1 (11 - (int b - 1)) XOR lshift CC_DEP1 11))"

definition ACTIONS_ROR :: "nat \<Rightarrow> 'w::len word \<Rightarrow> 'w word \<Rightarrow> 'w word" where
  "ACTIONS_ROR b CC_DEP1 CC_NDEP =
     (CC_NDEP AND NOT (MASK_O OR MASK_C)) OR (MASK_C AND drop_bit (b - 1) CC_DEP1)
       OR (MASK_O AND (lshift CC_DEP1 (11 - (int b - 1)) XOR lshift CC_DEP1 (11 - (int b - 1) + 1)))"

text \<open>The narrow products: the double-width type is at most 64 bits wide.\<close>

definition ACTIONS_UMUL :: "nat \<Rightarrow> 'w::len word \<Rightarrow> 'w word \<Rightarrow> 'w word" where
  "ACTIONS_UMUL b CC_DEP1 CC_DEP2 =
     (let lo = take_bit b (take_bit b CC_DEP1 * take_bit b CC_DEP2);
          rr = take_bit (2 * b) (ucast (take_bit b CC_DEP1) * ucast (take_bit b CC_DEP2)) :: ULong;
          hi = take_bit b (drop_bit b rr);
          cf = of_bool (hi \<noteq> 0);
          pf = parity lo;
          af = 0;
          zf = push_bit 6 (of_bool (lo = 0));
          sf = lshift lo (8 - int b) AND 0x80;
          ovf = push_bit 11 cf
      in cf OR pf OR af OR zf OR sf OR ovf)"

definition ACTIONS_SMUL :: "nat \<Rightarrow> 'w::len word \<Rightarrow> 'w word \<Rightarrow> 'w word" where
  "ACTIONS_SMUL b CC_DEP1 CC_DEP2 =
     (let x = scast (signed_take_bit (b - 1) CC_DEP1) :: ULong;
          y = scast (signed_take_bit (b - 1) CC_DEP2) :: ULong;
          lo = signed_take_bit (b - 1) (x * y);
          rr = signed_take_bit (2 * b - 1) (x * y);
          hi = signed_take_bit (b - 1) (signed_drop_bit b rr);
          cf = of_bool (hi \<noteq> signed_drop_bit (b - 1) lo);
          pf = parity (ucast lo);
          af = 0;
          zf = push_bit 6 (of_bool (lo = 0));
          sf = lshift (ucast lo) (8 - int b) AND 0x80;
          ovf = push_bit 11 cf
      in cf OR pf OR af OR zf OR sf OR ovf)"

end
