(* ===== verification/AMD64_Flags.thy ===== *)
theory AMD64_Flags
  imports VexFlags
begin

text \<open>
  The condition codes of the amd64 guest, \<open>VEX/priv/guest_amd64_helpers.c\<close>. Translated code does not compute the
  flags; it records the last operation in a thunk of four words (\<open>CC_OP\<close>, two arguments or a result that the flags depend on, and one
  more word), and these functions compute all flags, the carry or a condition from the thunk when they are needed.
  An operation number or a condition that is out of range makes the code panic (\<open>None\<close>). The profiling code, which is
  switched off, is left out. Of the guest state only the fields that hold flags are kept.
\<close>

section \<open>Numbers of operations and conditions\<close>

definition AMD64G_CC_OP_COPY :: ULong where [simp]: "AMD64G_CC_OP_COPY = 0"
definition AMD64G_CC_OP_ADDB :: ULong where [simp]: "AMD64G_CC_OP_ADDB = 1"
definition AMD64G_CC_OP_ADDW :: ULong where [simp]: "AMD64G_CC_OP_ADDW = 2"
definition AMD64G_CC_OP_ADDL :: ULong where [simp]: "AMD64G_CC_OP_ADDL = 3"
definition AMD64G_CC_OP_ADDQ :: ULong where [simp]: "AMD64G_CC_OP_ADDQ = 4"
definition AMD64G_CC_OP_SUBB :: ULong where [simp]: "AMD64G_CC_OP_SUBB = 5"
definition AMD64G_CC_OP_SUBW :: ULong where [simp]: "AMD64G_CC_OP_SUBW = 6"
definition AMD64G_CC_OP_SUBL :: ULong where [simp]: "AMD64G_CC_OP_SUBL = 7"
definition AMD64G_CC_OP_SUBQ :: ULong where [simp]: "AMD64G_CC_OP_SUBQ = 8"
definition AMD64G_CC_OP_ADCB :: ULong where [simp]: "AMD64G_CC_OP_ADCB = 9"
definition AMD64G_CC_OP_ADCW :: ULong where [simp]: "AMD64G_CC_OP_ADCW = 10"
definition AMD64G_CC_OP_ADCL :: ULong where [simp]: "AMD64G_CC_OP_ADCL = 11"
definition AMD64G_CC_OP_ADCQ :: ULong where [simp]: "AMD64G_CC_OP_ADCQ = 12"
definition AMD64G_CC_OP_SBBB :: ULong where [simp]: "AMD64G_CC_OP_SBBB = 13"
definition AMD64G_CC_OP_SBBW :: ULong where [simp]: "AMD64G_CC_OP_SBBW = 14"
definition AMD64G_CC_OP_SBBL :: ULong where [simp]: "AMD64G_CC_OP_SBBL = 15"
definition AMD64G_CC_OP_SBBQ :: ULong where [simp]: "AMD64G_CC_OP_SBBQ = 16"
definition AMD64G_CC_OP_LOGICB :: ULong where [simp]: "AMD64G_CC_OP_LOGICB = 17"
definition AMD64G_CC_OP_LOGICW :: ULong where [simp]: "AMD64G_CC_OP_LOGICW = 18"
definition AMD64G_CC_OP_LOGICL :: ULong where [simp]: "AMD64G_CC_OP_LOGICL = 19"
definition AMD64G_CC_OP_LOGICQ :: ULong where [simp]: "AMD64G_CC_OP_LOGICQ = 20"
definition AMD64G_CC_OP_INCB :: ULong where [simp]: "AMD64G_CC_OP_INCB = 21"
definition AMD64G_CC_OP_INCW :: ULong where [simp]: "AMD64G_CC_OP_INCW = 22"
definition AMD64G_CC_OP_INCL :: ULong where [simp]: "AMD64G_CC_OP_INCL = 23"
definition AMD64G_CC_OP_INCQ :: ULong where [simp]: "AMD64G_CC_OP_INCQ = 24"
definition AMD64G_CC_OP_DECB :: ULong where [simp]: "AMD64G_CC_OP_DECB = 25"
definition AMD64G_CC_OP_DECW :: ULong where [simp]: "AMD64G_CC_OP_DECW = 26"
definition AMD64G_CC_OP_DECL :: ULong where [simp]: "AMD64G_CC_OP_DECL = 27"
definition AMD64G_CC_OP_DECQ :: ULong where [simp]: "AMD64G_CC_OP_DECQ = 28"
definition AMD64G_CC_OP_SHLB :: ULong where [simp]: "AMD64G_CC_OP_SHLB = 29"
definition AMD64G_CC_OP_SHLW :: ULong where [simp]: "AMD64G_CC_OP_SHLW = 30"
definition AMD64G_CC_OP_SHLL :: ULong where [simp]: "AMD64G_CC_OP_SHLL = 31"
definition AMD64G_CC_OP_SHLQ :: ULong where [simp]: "AMD64G_CC_OP_SHLQ = 32"
definition AMD64G_CC_OP_SHRB :: ULong where [simp]: "AMD64G_CC_OP_SHRB = 33"
definition AMD64G_CC_OP_SHRW :: ULong where [simp]: "AMD64G_CC_OP_SHRW = 34"
definition AMD64G_CC_OP_SHRL :: ULong where [simp]: "AMD64G_CC_OP_SHRL = 35"
definition AMD64G_CC_OP_SHRQ :: ULong where [simp]: "AMD64G_CC_OP_SHRQ = 36"
definition AMD64G_CC_OP_ROLB :: ULong where [simp]: "AMD64G_CC_OP_ROLB = 37"
definition AMD64G_CC_OP_ROLW :: ULong where [simp]: "AMD64G_CC_OP_ROLW = 38"
definition AMD64G_CC_OP_ROLL :: ULong where [simp]: "AMD64G_CC_OP_ROLL = 39"
definition AMD64G_CC_OP_ROLQ :: ULong where [simp]: "AMD64G_CC_OP_ROLQ = 40"
definition AMD64G_CC_OP_RORB :: ULong where [simp]: "AMD64G_CC_OP_RORB = 41"
definition AMD64G_CC_OP_RORW :: ULong where [simp]: "AMD64G_CC_OP_RORW = 42"
definition AMD64G_CC_OP_RORL :: ULong where [simp]: "AMD64G_CC_OP_RORL = 43"
definition AMD64G_CC_OP_RORQ :: ULong where [simp]: "AMD64G_CC_OP_RORQ = 44"
definition AMD64G_CC_OP_UMULB :: ULong where [simp]: "AMD64G_CC_OP_UMULB = 45"
definition AMD64G_CC_OP_UMULW :: ULong where [simp]: "AMD64G_CC_OP_UMULW = 46"
definition AMD64G_CC_OP_UMULL :: ULong where [simp]: "AMD64G_CC_OP_UMULL = 47"
definition AMD64G_CC_OP_UMULQ :: ULong where [simp]: "AMD64G_CC_OP_UMULQ = 48"
definition AMD64G_CC_OP_SMULB :: ULong where [simp]: "AMD64G_CC_OP_SMULB = 49"
definition AMD64G_CC_OP_SMULW :: ULong where [simp]: "AMD64G_CC_OP_SMULW = 50"
definition AMD64G_CC_OP_SMULL :: ULong where [simp]: "AMD64G_CC_OP_SMULL = 51"
definition AMD64G_CC_OP_SMULQ :: ULong where [simp]: "AMD64G_CC_OP_SMULQ = 52"
definition AMD64G_CC_OP_ANDN32 :: ULong where [simp]: "AMD64G_CC_OP_ANDN32 = 53"
definition AMD64G_CC_OP_ANDN64 :: ULong where [simp]: "AMD64G_CC_OP_ANDN64 = 54"
definition AMD64G_CC_OP_BLSI32 :: ULong where [simp]: "AMD64G_CC_OP_BLSI32 = 55"
definition AMD64G_CC_OP_BLSI64 :: ULong where [simp]: "AMD64G_CC_OP_BLSI64 = 56"
definition AMD64G_CC_OP_BLSMSK32 :: ULong where [simp]: "AMD64G_CC_OP_BLSMSK32 = 57"
definition AMD64G_CC_OP_BLSMSK64 :: ULong where [simp]: "AMD64G_CC_OP_BLSMSK64 = 58"
definition AMD64G_CC_OP_BLSR32 :: ULong where [simp]: "AMD64G_CC_OP_BLSR32 = 59"
definition AMD64G_CC_OP_BLSR64 :: ULong where [simp]: "AMD64G_CC_OP_BLSR64 = 60"

definition AMD64CondO :: ULong where [simp]: "AMD64CondO = 0"
definition AMD64CondNO :: ULong where [simp]: "AMD64CondNO = 1"
definition AMD64CondB :: ULong where [simp]: "AMD64CondB = 2"
definition AMD64CondNB :: ULong where [simp]: "AMD64CondNB = 3"
definition AMD64CondZ :: ULong where [simp]: "AMD64CondZ = 4"
definition AMD64CondNZ :: ULong where [simp]: "AMD64CondNZ = 5"
definition AMD64CondBE :: ULong where [simp]: "AMD64CondBE = 6"
definition AMD64CondNBE :: ULong where [simp]: "AMD64CondNBE = 7"
definition AMD64CondS :: ULong where [simp]: "AMD64CondS = 8"
definition AMD64CondNS :: ULong where [simp]: "AMD64CondNS = 9"
definition AMD64CondP :: ULong where [simp]: "AMD64CondP = 10"
definition AMD64CondNP :: ULong where [simp]: "AMD64CondNP = 11"
definition AMD64CondL :: ULong where [simp]: "AMD64CondL = 12"
definition AMD64CondNL :: ULong where [simp]: "AMD64CondNL = 13"
definition AMD64CondLE :: ULong where [simp]: "AMD64CondLE = 14"
definition AMD64CondNLE :: ULong where [simp]: "AMD64CondNLE = 15"
definition AMD64CondAlways :: ULong where [simp]: "AMD64CondAlways = 16"

section \<open>Products of 64-bit numbers\<close>

definition mullS64 :: "ULong \<Rightarrow> ULong \<Rightarrow> ULong \<times> ULong" where
  "mullS64 u v =
     (let halfMask = 0xFFFFFFFF;
          u0 = u AND halfMask;
          u1 = signed_drop_bit 32 u;
          v0 = v AND halfMask;
          v1 = signed_drop_bit 32 v;
          w0 = u0 * v0;
          t = u1 * v0 + drop_bit 32 w0;
          w1 = t AND halfMask;
          w2 = signed_drop_bit 32 t;
          w1 = u0 * v1 + w1
      in (u1 * v1 + w2 + signed_drop_bit 32 w1, u * v))"

definition mullU64 :: "ULong \<Rightarrow> ULong \<Rightarrow> ULong \<times> ULong" where
  "mullU64 u v =
     (let halfMask = 0xFFFFFFFF;
          u0 = u AND halfMask;
          u1 = drop_bit 32 u;
          v0 = v AND halfMask;
          v1 = drop_bit 32 v;
          w0 = u0 * v0;
          t = u1 * v0 + drop_bit 32 w0;
          w1 = t AND halfMask;
          w2 = drop_bit 32 t;
          w1 = u0 * v1 + w1
      in (u1 * v1 + w2 + drop_bit 32 w1, u * v))"

definition ACTIONS_UMULQ :: "ULong \<Rightarrow> ULong \<Rightarrow> ULong" where
  "ACTIONS_UMULQ CC_DEP1 CC_DEP2 =
     (let (hi, lo) = mullU64 CC_DEP1 CC_DEP2;
          cf = of_bool (hi \<noteq> 0);
          pf = parity lo;
          af = 0;
          zf = push_bit 6 (of_bool (lo = 0));
          sf = lshift lo (8 - 64) AND 0x80;
          ovf = push_bit 11 cf
      in cf OR pf OR af OR zf OR sf OR ovf)"

definition ACTIONS_SMULQ :: "ULong \<Rightarrow> ULong \<Rightarrow> ULong" where
  "ACTIONS_SMULQ CC_DEP1 CC_DEP2 =
     (let (hi, lo) = mullS64 CC_DEP1 CC_DEP2;
          cf = of_bool (hi \<noteq> signed_drop_bit (64 - 1) lo);
          pf = parity lo;
          af = 0;
          zf = push_bit 6 (of_bool (lo = 0));
          sf = lshift lo (8 - 64) AND 0x80;
          ovf = push_bit 11 cf
      in cf OR pf OR af OR zf OR sf OR ovf)"

section \<open>Bit manipulation instructions\<close>

definition ACTIONS_ANDN :: "nat \<Rightarrow> ULong \<Rightarrow> ULong" where
  "ACTIONS_ANDN b CC_DEP1 =
     (let cf = 0;
          pf = 0;
          af = 0;
          zf = push_bit 6 (of_bool (take_bit b CC_DEP1 = 0));
          sf = lshift CC_DEP1 (8 - int b) AND 0x80;
          ovf = 0
      in cf OR pf OR af OR zf OR sf OR ovf)"

definition ACTIONS_BLSI :: "nat \<Rightarrow> ULong \<Rightarrow> ULong \<Rightarrow> ULong" where
  "ACTIONS_BLSI b CC_DEP1 CC_DEP2 =
     (let cf = of_bool (take_bit b CC_DEP2 \<noteq> 0);
          pf = 0;
          af = 0;
          zf = push_bit 6 (of_bool (take_bit b CC_DEP1 = 0));
          sf = lshift CC_DEP1 (8 - int b) AND 0x80;
          ovf = 0
      in cf OR pf OR af OR zf OR sf OR ovf)"

definition ACTIONS_BLSMSK :: "nat \<Rightarrow> ULong \<Rightarrow> ULong \<Rightarrow> ULong" where
  "ACTIONS_BLSMSK b CC_DEP1 CC_DEP2 =
     (let cf = of_bool (take_bit b CC_DEP2 = 0);
          pf = 0;
          af = 0;
          zf = 0;
          sf = lshift CC_DEP1 (8 - int b) AND 0x80;
          ovf = 0
      in cf OR pf OR af OR zf OR sf OR ovf)"

definition ACTIONS_BLSR :: "nat \<Rightarrow> ULong \<Rightarrow> ULong \<Rightarrow> ULong" where
  "ACTIONS_BLSR b CC_DEP1 CC_DEP2 =
     (let cf = of_bool (take_bit b CC_DEP2 = 0);
          pf = 0;
          af = 0;
          zf = push_bit 6 (of_bool (take_bit b CC_DEP1 = 0));
          sf = lshift CC_DEP1 (8 - int b) AND 0x80;
          ovf = 0
      in cf OR pf OR af OR zf OR sf OR ovf)"

section \<open>The flags of a thunk\<close>

definition amd64g_calculate_rflags_all_WRK :: "ULong \<Rightarrow> ULong \<Rightarrow> ULong \<Rightarrow> ULong \<Rightarrow> ULong option" where
  "amd64g_calculate_rflags_all_WRK cc_op d1 d2 nd =
     (if cc_op = AMD64G_CC_OP_COPY then Some (d1 AND (MASK_O OR MASK_S OR MASK_Z OR MASK_A OR MASK_C OR MASK_P))
     else if cc_op = AMD64G_CC_OP_ADDB then Some (ACTIONS_ADD 8 d1 d2)
     else if cc_op = AMD64G_CC_OP_ADDW then Some (ACTIONS_ADD 16 d1 d2)
     else if cc_op = AMD64G_CC_OP_ADDL then Some (ACTIONS_ADD 32 d1 d2)
     else if cc_op = AMD64G_CC_OP_ADDQ then Some (ACTIONS_ADD 64 d1 d2)
     else if cc_op = AMD64G_CC_OP_ADCB then Some (ACTIONS_ADC 8 d1 d2 nd)
     else if cc_op = AMD64G_CC_OP_ADCW then Some (ACTIONS_ADC 16 d1 d2 nd)
     else if cc_op = AMD64G_CC_OP_ADCL then Some (ACTIONS_ADC 32 d1 d2 nd)
     else if cc_op = AMD64G_CC_OP_ADCQ then Some (ACTIONS_ADC 64 d1 d2 nd)
     else if cc_op = AMD64G_CC_OP_SUBB then Some (ACTIONS_SUB 8 d1 d2)
     else if cc_op = AMD64G_CC_OP_SUBW then Some (ACTIONS_SUB 16 d1 d2)
     else if cc_op = AMD64G_CC_OP_SUBL then Some (ACTIONS_SUB 32 d1 d2)
     else if cc_op = AMD64G_CC_OP_SUBQ then Some (ACTIONS_SUB 64 d1 d2)
     else if cc_op = AMD64G_CC_OP_SBBB then Some (ACTIONS_SBB 8 d1 d2 nd)
     else if cc_op = AMD64G_CC_OP_SBBW then Some (ACTIONS_SBB 16 d1 d2 nd)
     else if cc_op = AMD64G_CC_OP_SBBL then Some (ACTIONS_SBB 32 d1 d2 nd)
     else if cc_op = AMD64G_CC_OP_SBBQ then Some (ACTIONS_SBB 64 d1 d2 nd)
     else if cc_op = AMD64G_CC_OP_LOGICB then Some (ACTIONS_LOGIC 8 d1)
     else if cc_op = AMD64G_CC_OP_LOGICW then Some (ACTIONS_LOGIC 16 d1)
     else if cc_op = AMD64G_CC_OP_LOGICL then Some (ACTIONS_LOGIC 32 d1)
     else if cc_op = AMD64G_CC_OP_LOGICQ then Some (ACTIONS_LOGIC 64 d1)
     else if cc_op = AMD64G_CC_OP_INCB then Some (ACTIONS_INC 8 d1 nd)
     else if cc_op = AMD64G_CC_OP_INCW then Some (ACTIONS_INC 16 d1 nd)
     else if cc_op = AMD64G_CC_OP_INCL then Some (ACTIONS_INC 32 d1 nd)
     else if cc_op = AMD64G_CC_OP_INCQ then Some (ACTIONS_INC 64 d1 nd)
     else if cc_op = AMD64G_CC_OP_DECB then Some (ACTIONS_DEC 8 d1 nd)
     else if cc_op = AMD64G_CC_OP_DECW then Some (ACTIONS_DEC 16 d1 nd)
     else if cc_op = AMD64G_CC_OP_DECL then Some (ACTIONS_DEC 32 d1 nd)
     else if cc_op = AMD64G_CC_OP_DECQ then Some (ACTIONS_DEC 64 d1 nd)
     else if cc_op = AMD64G_CC_OP_SHLB then Some (ACTIONS_SHL 8 d1 d2)
     else if cc_op = AMD64G_CC_OP_SHLW then Some (ACTIONS_SHL 16 d1 d2)
     else if cc_op = AMD64G_CC_OP_SHLL then Some (ACTIONS_SHL 32 d1 d2)
     else if cc_op = AMD64G_CC_OP_SHLQ then Some (ACTIONS_SHL 64 d1 d2)
     else if cc_op = AMD64G_CC_OP_SHRB then Some (ACTIONS_SHR 8 d1 d2)
     else if cc_op = AMD64G_CC_OP_SHRW then Some (ACTIONS_SHR 16 d1 d2)
     else if cc_op = AMD64G_CC_OP_SHRL then Some (ACTIONS_SHR 32 d1 d2)
     else if cc_op = AMD64G_CC_OP_SHRQ then Some (ACTIONS_SHR 64 d1 d2)
     else if cc_op = AMD64G_CC_OP_ROLB then Some (ACTIONS_ROL 8 d1 nd)
     else if cc_op = AMD64G_CC_OP_ROLW then Some (ACTIONS_ROL 16 d1 nd)
     else if cc_op = AMD64G_CC_OP_ROLL then Some (ACTIONS_ROL 32 d1 nd)
     else if cc_op = AMD64G_CC_OP_ROLQ then Some (ACTIONS_ROL 64 d1 nd)
     else if cc_op = AMD64G_CC_OP_RORB then Some (ACTIONS_ROR 8 d1 nd)
     else if cc_op = AMD64G_CC_OP_RORW then Some (ACTIONS_ROR 16 d1 nd)
     else if cc_op = AMD64G_CC_OP_RORL then Some (ACTIONS_ROR 32 d1 nd)
     else if cc_op = AMD64G_CC_OP_RORQ then Some (ACTIONS_ROR 64 d1 nd)
     else if cc_op = AMD64G_CC_OP_UMULB then Some (ACTIONS_UMUL 8 d1 d2)
     else if cc_op = AMD64G_CC_OP_UMULW then Some (ACTIONS_UMUL 16 d1 d2)
     else if cc_op = AMD64G_CC_OP_UMULL then Some (ACTIONS_UMUL 32 d1 d2)
     else if cc_op = AMD64G_CC_OP_UMULQ then Some (ACTIONS_UMULQ d1 d2)
     else if cc_op = AMD64G_CC_OP_SMULB then Some (ACTIONS_SMUL 8 d1 d2)
     else if cc_op = AMD64G_CC_OP_SMULW then Some (ACTIONS_SMUL 16 d1 d2)
     else if cc_op = AMD64G_CC_OP_SMULL then Some (ACTIONS_SMUL 32 d1 d2)
     else if cc_op = AMD64G_CC_OP_SMULQ then Some (ACTIONS_SMULQ d1 d2)
     else if cc_op = AMD64G_CC_OP_ANDN32 then Some (ACTIONS_ANDN 32 d1)
     else if cc_op = AMD64G_CC_OP_ANDN64 then Some (ACTIONS_ANDN 64 d1)
     else if cc_op = AMD64G_CC_OP_BLSI32 then Some (ACTIONS_BLSI 32 d1 d2)
     else if cc_op = AMD64G_CC_OP_BLSI64 then Some (ACTIONS_BLSI 64 d1 d2)
     else if cc_op = AMD64G_CC_OP_BLSMSK32 then Some (ACTIONS_BLSMSK 32 d1 d2)
     else if cc_op = AMD64G_CC_OP_BLSMSK64 then Some (ACTIONS_BLSMSK 64 d1 d2)
     else if cc_op = AMD64G_CC_OP_BLSR32 then Some (ACTIONS_BLSR 32 d1 d2)
     else if cc_op = AMD64G_CC_OP_BLSR64 then Some (ACTIONS_BLSR 64 d1 d2)
     else None)"

definition amd64g_calculate_rflags_all :: "ULong \<Rightarrow> ULong \<Rightarrow> ULong \<Rightarrow> ULong \<Rightarrow> ULong option" where
  "amd64g_calculate_rflags_all cc_op cc_dep1 cc_dep2 cc_ndep = amd64g_calculate_rflags_all_WRK cc_op cc_dep1 cc_dep2 cc_ndep"

definition amd64g_calculate_rflags_c :: "ULong \<Rightarrow> ULong \<Rightarrow> ULong \<Rightarrow> ULong \<Rightarrow> ULong option" where
  "amd64g_calculate_rflags_c cc_op cc_dep1 cc_dep2 cc_ndep =
     (if cc_op = AMD64G_CC_OP_COPY then Some (drop_bit 0 cc_dep1 AND 1)
      else if cc_op = AMD64G_CC_OP_LOGICQ \<or> cc_op = AMD64G_CC_OP_LOGICL \<or> cc_op = AMD64G_CC_OP_LOGICW \<or> cc_op = AMD64G_CC_OP_LOGICB then Some 0
      else map_option (\<lambda>fl. fl AND MASK_C) (amd64g_calculate_rflags_all_WRK cc_op cc_dep1 cc_dep2 cc_ndep))"

definition amd64g_calculate_condition :: "ULong \<Rightarrow> ULong \<Rightarrow> ULong \<Rightarrow> ULong \<Rightarrow> ULong \<Rightarrow> ULong option" where
  "amd64g_calculate_condition cond cc_op cc_dep1 cc_dep2 cc_ndep =
     do { rflags \<leftarrow> amd64g_calculate_rflags_all_WRK cc_op cc_dep1 cc_dep2 cc_ndep;
          let inv = cond AND 1;
          let ovf = drop_bit 11 rflags;
          let sf = drop_bit 7 rflags;
          let zf = drop_bit 6 rflags;
          let cf = drop_bit 0 rflags;
          let pf = drop_bit 2 rflags;
          if cond = AMD64CondNO \<or> cond = AMD64CondO then Some (1 AND (inv XOR ovf))
          else if cond = AMD64CondNZ \<or> cond = AMD64CondZ then Some (1 AND (inv XOR zf))
          else if cond = AMD64CondNB \<or> cond = AMD64CondB then Some (1 AND (inv XOR cf))
          else if cond = AMD64CondNBE \<or> cond = AMD64CondBE then Some (1 AND (inv XOR (cf OR zf)))
          else if cond = AMD64CondNS \<or> cond = AMD64CondS then Some (1 AND (inv XOR sf))
          else if cond = AMD64CondNP \<or> cond = AMD64CondP then Some (1 AND (inv XOR pf))
          else if cond = AMD64CondNL \<or> cond = AMD64CondL then Some (1 AND (inv XOR (sf XOR ovf)))
          else if cond = AMD64CondNLE \<or> cond = AMD64CondLE then Some (1 AND (inv XOR ((sf XOR ovf) OR zf)))
          else None }"

section \<open>The flags of the guest state\<close>

record VexGuestAMD64State =
  guest_CC_OP :: ULong
  guest_CC_DEP1 :: ULong
  guest_CC_DEP2 :: ULong
  guest_CC_NDEP :: ULong
  guest_DFLAG :: ULong
  guest_IDFLAG :: ULong
  guest_ACFLAG :: ULong

definition LibVEX_GuestAMD64_get_rflags :: "VexGuestAMD64State \<Rightarrow> ULong option" where
  "LibVEX_GuestAMD64_get_rflags st =
     do { rflags \<leftarrow> amd64g_calculate_rflags_all_WRK (guest_CC_OP st) (guest_CC_DEP1 st) (guest_CC_DEP2 st) (guest_CC_NDEP st);
          let dflag = guest_DFLAG st;
          vg_assert (dflag = 1 \<or> dflag = - 1);
          let rflags = (if dflag = - 1 then rflags OR push_bit 10 1 else rflags);
          let rflags = (if guest_IDFLAG st = 1 then rflags OR push_bit 21 1 else rflags);
          let rflags = (if guest_ACFLAG st = 1 then rflags OR push_bit 18 1 else rflags);
          Some rflags }"

definition LibVEX_GuestAMD64_put_rflags :: "ULong \<Rightarrow> VexGuestAMD64State \<Rightarrow> VexGuestAMD64State" where
  "LibVEX_GuestAMD64_put_rflags rflags st =
     (let MASK_D = push_bit 10 1; MASK_ID = push_bit 21 1; MASK_AC = push_bit 18 1;
          (st, rflags) = (if rflags AND MASK_D \<noteq> 0 then (st\<lparr>guest_DFLAG := - 1\<rparr>, rflags AND NOT MASK_D) else (st\<lparr>guest_DFLAG := 1\<rparr>, rflags));
          (st, rflags) = (if rflags AND MASK_ID \<noteq> 0 then (st\<lparr>guest_IDFLAG := 1\<rparr>, rflags AND NOT MASK_ID) else (st\<lparr>guest_IDFLAG := 0\<rparr>, rflags));
          (st, rflags) = (if rflags AND MASK_AC \<noteq> 0 then (st\<lparr>guest_ACFLAG := 1\<rparr>, rflags AND NOT MASK_AC) else (st\<lparr>guest_ACFLAG := 0\<rparr>, rflags));
          cc_mask = MASK_O OR MASK_S OR MASK_Z OR MASK_A OR MASK_C OR MASK_P
      in st\<lparr>guest_CC_OP := AMD64G_CC_OP_COPY, guest_CC_DEP1 := rflags AND cc_mask, guest_CC_DEP2 := 0, guest_CC_NDEP := 0\<rparr>)"

definition LibVEX_GuestAMD64_put_rflag_c :: "ULong \<Rightarrow> VexGuestAMD64State \<Rightarrow> VexGuestAMD64State option" where
  "LibVEX_GuestAMD64_put_rflag_c new_carry_flag st =
     do { oszacp \<leftarrow> amd64g_calculate_rflags_all_WRK (guest_CC_OP st) (guest_CC_DEP1 st) (guest_CC_DEP2 st) (guest_CC_NDEP st);
          let oszacp = (if new_carry_flag AND 1 \<noteq> 0 then oszacp OR MASK_C else oszacp AND NOT MASK_C);
          Some (st\<lparr>guest_CC_OP := AMD64G_CC_OP_COPY, guest_CC_DEP1 := oszacp, guest_CC_DEP2 := 0, guest_CC_NDEP := 0\<rparr>) }"

end
