(* ===== verification/VexFlags_Props.thy ===== *)
theory VexFlags_Props
  imports VexFlags
begin

text \<open>
  What the flags of arithmetic are, and that the macros compute them. A flag word is the packing of six truth
  values; the specification of an operation reads its operands as integers.
\<close>

section \<open>Flags as truth values\<close>

record flags =
  fO :: bool
  fS :: bool
  fZ :: bool
  fA :: bool
  fP :: bool
  fC :: bool

definition pack :: "flags \<Rightarrow> 'w::len word" where
  "pack f = of_bool (fC f) OR push_bit 2 (of_bool (fP f)) OR push_bit 4 (of_bool (fA f))
     OR push_bit 6 (of_bool (fZ f)) OR push_bit 7 (of_bool (fS f)) OR push_bit 11 (of_bool (fO f))"

definition even_parity :: "int \<Rightarrow> bool" where
  "even_parity r = even (card {i \<in> {..<8}. bit r i})"

text \<open>The flags of a sum with carry and of a difference with borrow, and the flags that a result alone determines.\<close>

definition add_flags :: "nat \<Rightarrow> int \<Rightarrow> int \<Rightarrow> int \<Rightarrow> flags" where
  "add_flags b x y k = \<lparr>
     fO = (signed_take_bit (b - 1) (x + y + k) \<noteq> signed_take_bit (b - 1) x + signed_take_bit (b - 1) y + k),
     fS = (signed_take_bit (b - 1) (x + y + k) < 0),
     fZ = (take_bit b (x + y + k) = 0),
     fA = (take_bit 4 (x + y + k) \<noteq> take_bit 4 x + take_bit 4 y + k),
     fP = even_parity (x + y + k),
     fC = (take_bit b (x + y + k) \<noteq> take_bit b x + take_bit b y + k)\<rparr>"

definition sub_flags :: "nat \<Rightarrow> int \<Rightarrow> int \<Rightarrow> int \<Rightarrow> flags" where
  "sub_flags b x y k = \<lparr>
     fO = (signed_take_bit (b - 1) (x - y - k) \<noteq> signed_take_bit (b - 1) x - signed_take_bit (b - 1) y - k),
     fS = (signed_take_bit (b - 1) (x - y - k) < 0),
     fZ = (take_bit b (x - y - k) = 0),
     fA = (take_bit 4 (x - y - k) \<noteq> take_bit 4 x - take_bit 4 y - k),
     fP = even_parity (x - y - k),
     fC = (take_bit b (x - y - k) \<noteq> take_bit b x - take_bit b y - k)\<rparr>"

definition result_flags :: "nat \<Rightarrow> int \<Rightarrow> bool \<Rightarrow> bool \<Rightarrow> bool \<Rightarrow> flags" where
  "result_flags b r ovf af cf = \<lparr>fO = ovf, fS = (signed_take_bit (b - 1) r < 0), fZ = (take_bit b r = 0),
     fA = af, fP = even_parity r, fC = cf\<rparr>"

section \<open>Bits of words\<close>

lemma and_pow: "x AND push_bit k 1 = push_bit k (of_bool (bit x k))" for x :: "'w::len word"
  by (rule bit_word_eqI) (auto simp: bit_simps)

lemma bit_lshift:
  assumes "1 \<le> b" "b \<le> LENGTH('w)" "k < LENGTH('w)"
  shows "bit (lshift x (1 + int k - int b)) k = bit (x :: 'w::len word) (b - 1)"
proof (cases "b \<le> Suc k")
  case True
  then have "nat (1 + int k - int b) = Suc k - b" "k - (Suc k - b) = b - 1" "Suc k - b \<le> k" "0 \<le> 1 + int k - int b"
    using assms(1) by auto
  then show ?thesis using assms by (simp add: lshift_def bit_push_bit_iff)
next
  case False
  then have "nat (int b - (1 + int k)) = b - Suc k" by simp
  then show ?thesis using False assms by (simp add: lshift_def bit_signed_drop_bit_iff)
qed

lemma sf_mask: "lshift x (8 - int b) AND 0x80 = push_bit 7 (of_bool (bit x (b - 1)))"
  if "8 \<le> b" "b \<le> LENGTH('w)" for x :: "'w::len word"
  using bit_lshift [of b 7 x] that and_pow [of "lshift x (8 - int b)" 7] by (simp add: push_bit_of_1)

lemma of_mask: "lshift x (12 - int b) AND MASK_O = push_bit 11 (of_bool (bit x (b - 1)))"
  if "8 \<le> b" "b \<le> LENGTH('w)" "16 \<le> LENGTH('w)" for x :: "'w::len word"
  using bit_lshift [of b 11 x] that by (simp only: and_pow) simp

lemma af_mask: "x AND 0x10 = push_bit 4 (of_bool (bit x 4))" for x :: "'w::len word"
  using and_pow [of x 4] by (simp add: push_bit_of_1)

fun parity_rows :: "int \<Rightarrow> UChar list \<Rightarrow> bool" where
  "parity_rows i [] = True"
| "parity_rows i (x # xs) = (x = (if even (i + i div 2 + i div 4 + i div 8 + i div 16 + i div 32 + i div 64 + i div 128) then 4 else 0)
     \<and> parity_rows (i + 1) xs)"

lemma parity_rows_nth: "parity_rows i xs \<Longrightarrow> n < length xs \<Longrightarrow>
    xs ! n = (if even ((i + int n) + (i + int n) div 2 + (i + int n) div 4 + (i + int n) div 8 + (i + int n) div 16
       + (i + int n) div 32 + (i + int n) div 64 + (i + int n) div 128) then 4 else 0)"
proof (induction xs arbitrary: i n)
  case (Cons x xs)
  then show ?case
  proof (cases n)
    case (Suc m)
    then show ?thesis using Cons.IH [of "i + 1" m] Cons.prems by (simp add: algebra_simps)
  qed simp
qed simp

lemma parity_table_rows: "parity_rows 0 parity_table" "length parity_table = 256"
  by (simp_all add: parity_table_def)

lemma card_bits8: "even (card {i \<in> {..<8}. bit r i}) \<longleftrightarrow>
    even (r + r div 2 + r div 4 + r div 8 + r div 16 + r div 32 + r div 64 + r div 128)" for r :: int
proof -
  have u: "{..<8} = {0, 1, 2, 3, 4, 5, 6, 7::nat}" by auto
  have "card {i \<in> {..<8}. bit r i} = (\<Sum>i<8. of_bool (bit r i))" by (simp add: Int_def conj_commute)
  also have "\<dots> = of_bool (bit r 0) + of_bool (bit r 1) + of_bool (bit r 2) + of_bool (bit r 3) + of_bool (bit r 4)
      + of_bool (bit r 5) + of_bool (bit r 6) + of_bool (bit r 7)"
    unfolding u by simp
  finally have c: "card {i \<in> {..<8}. bit r i} = \<dots>" .
  have b: "bit r 0 = odd r" "bit r 1 = odd (r div 2)" "bit r 2 = odd (r div 4)" "bit r 3 = odd (r div 8)" "bit r 4 = odd (r div 16)"
    "bit r 5 = odd (r div 32)" "bit r 6 = odd (r div 64)" "bit r 7 = odd (r div 128)"
    by (simp_all add: bit_iff_odd)
  have e: "even (of_bool P :: nat) = (\<not> P)" for P by simp
  show ?thesis unfolding c b by (simp only: even_add e not_not)
qed

lemma parity_eq: "parity x = push_bit 2 (of_bool (even_parity (uint x)))"
  if "8 \<le> LENGTH('w)" for x :: "'w::len word"
proof -
  let ?n = "unat (ucast x :: UChar)"
  have "?n < 256" using unsigned_less [of "ucast x :: UChar"] by simp
  then have t: "parity_table ! ?n = (if even (card {i \<in> {..<8}. bit (int ?n) i}) then 4 else 0)"
    using parity_rows_nth [OF parity_table_rows(1), of ?n] unfolding card_bits8 parity_table_rows(2) by simp
  have e: "{i \<in> {..<8}. bit (int ?n) i} = {i \<in> {..<8}. bit (uint x) i}"
    using that by (auto simp: bit_simps)
  show ?thesis unfolding parity_def t even_parity_def e by (simp add: push_bit_of_1)
qed

section \<open>Carries\<close>

lemma signed_take_bit_split: "signed_take_bit n x = take_bit n x - 2 ^ n * of_bool (bit x n)" for x :: int
  by (simp add: signed_take_bit_eq_take_bit_minus take_bit_Suc_from_most)


text \<open>Every result below a power of two is the exact one up to a carry, and a carry into a bit flips it.\<close>

lemma div_carry: "(s :: int) div m = of_bool (m \<le> s)" if "0 < m" "0 \<le> s" "s < 2 * m"
  using that by (cases "m \<le> s") (auto simp: div_pos_pos_trivial intro: int_div_pos_eq [where r = "s - m"])

lemma div_borrow: "(s :: int) div m = - of_bool (s < 0)" if "- m \<le> s" "s < m"
  using that by (cases "s < 0") (auto simp: div_pos_pos_trivial intro: int_div_pos_eq [where r = "s + m"])

lemma add_exact:
  fixes x y k :: int
  assumes k: "k = 0 \<or> k = 1"
  shows "take_bit n (x + y + k) = take_bit n x + take_bit n y + k - 2 ^ n * of_bool (2 ^ n \<le> take_bit n x + take_bit n y + k)"
  "bit (x + y + k) n = ((bit x n \<noteq> bit y n) \<noteq> (2 ^ n \<le> take_bit n x + take_bit n y + k))"
proof -
  let ?s = "take_bit n x + take_bit n y + k"
  have x: "x = take_bit n x + 2 ^ n * (x div 2 ^ n)" and y: "y = take_bit n y + 2 ^ n * (y div 2 ^ n)"
    by (simp_all add: take_bit_eq_mod)
  have b: "0 \<le> ?s" "?s < 2 * 2 ^ n"
    using k take_bit_int_less_exp [of n x] take_bit_int_less_exp [of n y] take_bit_nonnegative [of n x] take_bit_nonnegative [of n y] by linarith+
  have e: "x + y + k = ?s + 2 ^ n * (x div 2 ^ n + y div 2 ^ n)" using x y by (simp add: algebra_simps)
  have d: "(x + y + k) div 2 ^ n = of_bool (2 ^ n \<le> ?s) + (x div 2 ^ n + y div 2 ^ n)"
    by (subst e) (simp add: div_carry [OF _ b])
  show "bit (x + y + k) n = ((bit x n \<noteq> bit y n) \<noteq> (2 ^ n \<le> ?s))"
    by (auto simp: bit_iff_odd d)
  have "take_bit n (x + y + k) = (x + y + k) - 2 ^ n * ((x + y + k) div 2 ^ n)" by (simp add: take_bit_eq_mod minus_mult_div_eq_mod)
  then show "take_bit n (x + y + k) = ?s - 2 ^ n * of_bool (2 ^ n \<le> ?s)" using e d by (simp add: algebra_simps)
qed

lemma sub_exact:
  fixes x y k :: int
  assumes k: "k = 0 \<or> k = 1"
  shows "take_bit n (x - y - k) = take_bit n x - take_bit n y - k + 2 ^ n * of_bool (take_bit n x - take_bit n y - k < 0)"
  "bit (x - y - k) n = ((bit x n \<noteq> bit y n) \<noteq> (take_bit n x - take_bit n y - k < 0))"
proof -
  let ?s = "take_bit n x - take_bit n y - k"
  have x: "x = take_bit n x + 2 ^ n * (x div 2 ^ n)" and y: "y = take_bit n y + 2 ^ n * (y div 2 ^ n)"
    by (simp_all add: take_bit_eq_mod)
  have b: "- (2 ^ n) \<le> ?s" "?s < 2 ^ n"
    using k take_bit_int_less_exp [of n x] take_bit_int_less_exp [of n y] take_bit_nonnegative [of n x] take_bit_nonnegative [of n y] by linarith+
  have e: "x - y - k = ?s + 2 ^ n * (x div 2 ^ n - y div 2 ^ n)" using x y by (simp add: algebra_simps)
  have d: "(x - y - k) div 2 ^ n = - of_bool (?s < 0) + (x div 2 ^ n - y div 2 ^ n)"
    by (subst e) (simp add: div_borrow [OF b])
  show "bit (x - y - k) n = ((bit x n \<noteq> bit y n) \<noteq> (?s < 0))"
    by (auto simp: bit_iff_odd d)
  have "take_bit n (x - y - k) = (x - y - k) - 2 ^ n * ((x - y - k) div 2 ^ n)" by (simp only: take_bit_eq_mod minus_mult_div_eq_mod)
  also have "\<dots> = ?s + 2 ^ n * (x div 2 ^ n - y div 2 ^ n) - 2 ^ n * (- of_bool (?s < 0) + (x div 2 ^ n - y div 2 ^ n))"
    unfolding d using e by linarith
  also have "\<dots> = ?s + 2 ^ n * of_bool (?s < 0)" by (simp add: algebra_simps)
  finally show "take_bit n (x - y - k) = ?s + 2 ^ n * of_bool (?s < 0)" .
qed


lemma add_overflow:
  fixes x y k :: int
  assumes k: "k = 0 \<or> k = 1"
  shows "(signed_take_bit n (x + y + k) \<noteq> signed_take_bit n x + signed_take_bit n y + k)
    = (bit x n = bit y n \<and> bit x n \<noteq> bit (x + y + k) n)"
  using add_exact [OF k, where n = n and x = x and y = y] by (cases "bit x n"; cases "bit y n"; cases "bit (x + y + k) n") (simp_all add: signed_take_bit_split)

lemma sub_overflow:
  fixes x y k :: int
  assumes k: "k = 0 \<or> k = 1"
  shows "(signed_take_bit n (x - y - k) \<noteq> signed_take_bit n x - signed_take_bit n y - k)
    = (bit x n \<noteq> bit y n \<and> bit x n \<noteq> bit (x - y - k) n)"
  using sub_exact [OF k, where n = n and x = x and y = y] by (cases "bit x n"; cases "bit y n"; cases "bit (x - y - k) n") (simp_all add: signed_take_bit_split)

lemma add_carry_out:
  fixes x y :: int
  shows "(take_bit b (x + y) < take_bit b x) = (take_bit b (x + y) \<noteq> take_bit b x + take_bit b y)"
    "(take_bit b (x + y + 1) \<le> take_bit b x) = (take_bit b (x + y + 1) \<noteq> take_bit b x + take_bit b y + 1)"
proof -
  note b = take_bit_int_less_exp [of b y] take_bit_nonnegative [of b y]
  show "(take_bit b (x + y) < take_bit b x) = (take_bit b (x + y) \<noteq> take_bit b x + take_bit b y)"
    using add_exact(1) [where k = 0 and n = b and x = x and y = y] b by (simp add: of_bool_def split: if_splits)
  show "(take_bit b (x + y + 1) \<le> take_bit b x) = (take_bit b (x + y + 1) \<noteq> take_bit b x + take_bit b y + 1)"
  proof (cases "2 ^ b \<le> take_bit b x + take_bit b y + 1")
    case True
    then have "take_bit b (x + y + 1) = take_bit b x + take_bit b y + 1 - 2 ^ b"
      using add_exact(1) [where k = 1 and n = b and x = x and y = y] by simp
    then show ?thesis using b by linarith
  next
    case False
    then have "take_bit b (x + y + 1) = take_bit b x + take_bit b y + 1"
      using add_exact(1) [where k = 1 and n = b and x = x and y = y] by simp
    then show ?thesis using b by linarith
  qed
qed

lemma sub_borrow_out:
  fixes x y :: int
  shows "(take_bit b x < take_bit b y) = (take_bit b (x - y) \<noteq> take_bit b x - take_bit b y)"
    "(take_bit b x \<le> take_bit b y) = (take_bit b (x - y - 1) \<noteq> take_bit b x - take_bit b y - 1)"
  using sub_exact(1) [where k = 0 and n = b and x = x and y = y] sub_exact(1) [where k = 1 and n = b and x = x and y = y] by (auto simp: of_bool_def)

section \<open>Words as integers\<close>

text \<open>A word that is the image of an integer has its low bits.\<close>

lemma word_of_int_low:
  fixes w :: "'w::len word"
  assumes "w = word_of_int z" "b \<le> LENGTH('w)"
  shows "take_bit b (uint w) = take_bit b z" "n < b \<Longrightarrow> bit w n = bit z n" "8 \<le> b \<Longrightarrow> even_parity (uint w) = even_parity z"
proof -
  show "take_bit b (uint w) = take_bit b z" using assms by (simp add: uint_word_of_int_eq min_def)
  show bit: "n < b \<Longrightarrow> bit w n = bit z n" for n using assms by (simp add: bit_simps)
  assume "8 \<le> b"
  then have "{i \<in> {..<8}. bit (uint w) i} = {i \<in> {..<8}. bit z i}" using bit using assms(2) by (auto simp: bit_uint_iff)
  then show "even_parity (uint w) = even_parity z" by (simp only: even_parity_def)
qed

lemma take_bit_word_cmp:
  fixes v w :: "'w::len word"
  shows "(take_bit b v < take_bit b w) = (take_bit b (uint v) < take_bit b (uint w))"
    "(take_bit b v \<le> take_bit b w) = (take_bit b (uint v) \<le> take_bit b (uint w))"
    "(take_bit b v = 0) = (take_bit b (uint v) = 0)"
  by (simp_all add: word_less_def word_le_def unsigned_take_bit_eq flip: uint_0_iff)


section \<open>The macros\<close>

text \<open>Each component of the flag word of a result \<open>res\<close> that is the image of the integer \<open>z\<close>.\<close>

lemma result_parts:
  fixes res :: "'w::len word"
  assumes "8 \<le> b" "b \<le> LENGTH('w)" "res = word_of_int z"
  shows "parity res = push_bit 2 (of_bool (even_parity z))"
    "push_bit 6 (of_bool (take_bit b res = 0)) = (push_bit 6 (of_bool (take_bit b z = 0)) :: 'w word)"
    "lshift res (8 - int b) AND 0x80 = push_bit 7 (of_bool (signed_take_bit (b - 1) z < 0))"
proof -
  note low = word_of_int_low [OF assms(3,2)]
  show "parity res = push_bit 2 (of_bool (even_parity z))" using parity_eq [of res] low(3) assms by simp
  show "push_bit 6 (of_bool (take_bit b res = 0)) = (push_bit 6 (of_bool (take_bit b z = 0)) :: 'w word)"
    by (simp only: take_bit_word_cmp low(1))
  have "bit res (b - 1) = (signed_take_bit (b - 1) z < 0)" using low(2) [of "b - 1"] assms(1) by simp
  then show "lshift res (8 - int b) AND 0x80 = push_bit 7 (of_bool (signed_take_bit (b - 1) z < 0))"
    using sf_mask [OF assms(1,2), of res] by simp
qed

lemma uint_images: "x + y = word_of_int (uint x + uint y + 0)" "x - y = word_of_int (uint x - uint y - 0)"
    "x + y + 1 = word_of_int (uint x + uint y + 1)" "x - y - 1 = word_of_int (uint x - uint y - 1)"
  for x y :: "'w::len word"
  by simp_all

lemma overflow_bits:
  fixes x y r :: "'w::len word"
  assumes "n < LENGTH('w)"
  shows "bit ((x XOR y XOR - 1) AND (x XOR r)) n = (bit (uint x) n = bit (uint y) n \<and> bit (uint x) n \<noteq> bit r n)"
    "bit ((x XOR y) AND (x XOR r)) n = (bit (uint x) n \<noteq> bit (uint y) n \<and> bit (uint x) n \<noteq> bit r n)"
    "bit (r XOR x XOR y) n = (bit r n \<noteq> (bit (uint x) n \<noteq> bit (uint y) n))"
  using assms by (auto simp: bit_xor_iff bit_and_iff bit_not_iff bit_uint_iff)

lemma add_parts:
  fixes x y r :: "'w::len word"
  assumes b: "8 \<le> b" "b \<le> LENGTH('w)" and w: "16 \<le> LENGTH('w)" and k: "k = 0 \<or> k = 1"
    and r: "r = word_of_int (uint x + uint y + k)"
  shows "(r XOR x XOR y) AND 0x10 = push_bit 4 (of_bool (fA (add_flags b (uint x) (uint y) k)))"
    "lshift ((x XOR y XOR - 1) AND (x XOR r)) (12 - int b) AND MASK_O = push_bit 11 (of_bool (fO (add_flags b (uint x) (uint y) k)))"
proof -
  let ?z = "uint x + uint y + k"
  have bits: "bit r 4 = bit ?z 4" "bit r (b - 1) = bit ?z (b - 1)" and n: "b - 1 < LENGTH('w)" "4 < LENGTH('w)"
    using word_of_int_low(2) [OF r b(2)] b by auto
  have "bit (r XOR x XOR y) 4 = (2 ^ 4 \<le> take_bit 4 (uint x) + take_bit 4 (uint y) + k)"
    unfolding overflow_bits(3) [OF n(2)] bits(1) using add_exact(2) [OF k, where n = 4 and x = "uint x" and y = "uint y"] by blast
  also have "\<dots> = fA (add_flags b (uint x) (uint y) k)"
    using add_exact(1) [OF k, where n = 4 and x = "uint x" and y = "uint y"] by (simp add: add_flags_def)
  finally show "(r XOR x XOR y) AND 0x10 = push_bit 4 (of_bool (fA (add_flags b (uint x) (uint y) k)))"
    by (simp only: af_mask)
  have "bit ((x XOR y XOR - 1) AND (x XOR r)) (b - 1) = fO (add_flags b (uint x) (uint y) k)"
    unfolding overflow_bits(1) [OF n(1)] bits(2) by (simp only: add_flags_def flags.simps add_overflow [OF k])
  then show "lshift ((x XOR y XOR - 1) AND (x XOR r)) (12 - int b) AND MASK_O = push_bit 11 (of_bool (fO (add_flags b (uint x) (uint y) k)))"
    by (simp only: of_mask [OF b w])
qed

lemma sub_parts:
  fixes x y r :: "'w::len word"
  assumes b: "8 \<le> b" "b \<le> LENGTH('w)" and w: "16 \<le> LENGTH('w)" and k: "k = 0 \<or> k = 1"
    and r: "r = word_of_int (uint x - uint y - k)"
  shows "(r XOR x XOR y) AND 0x10 = push_bit 4 (of_bool (fA (sub_flags b (uint x) (uint y) k)))"
    "lshift ((x XOR y) AND (x XOR r)) (12 - int b) AND MASK_O = push_bit 11 (of_bool (fO (sub_flags b (uint x) (uint y) k)))"
proof -
  let ?z = "uint x - uint y - k"
  have bits: "bit r 4 = bit ?z 4" "bit r (b - 1) = bit ?z (b - 1)" and n: "b - 1 < LENGTH('w)" "4 < LENGTH('w)"
    using word_of_int_low(2) [OF r b(2)] b by auto
  have "bit (r XOR x XOR y) 4 = (take_bit 4 (uint x) - take_bit 4 (uint y) - k < 0)"
    unfolding overflow_bits(3) [OF n(2)] bits(1) using sub_exact(2) [OF k, where n = 4 and x = "uint x" and y = "uint y"] by blast
  also have "\<dots> = fA (sub_flags b (uint x) (uint y) k)"
    using sub_exact(1) [OF k, where n = 4 and x = "uint x" and y = "uint y"] by (simp add: sub_flags_def)
  finally show "(r XOR x XOR y) AND 0x10 = push_bit 4 (of_bool (fA (sub_flags b (uint x) (uint y) k)))"
    by (simp only: af_mask)
  have "bit ((x XOR y) AND (x XOR r)) (b - 1) = fO (sub_flags b (uint x) (uint y) k)"
    unfolding overflow_bits(2) [OF n(1)] bits(2) by (simp only: sub_flags_def flags.simps sub_overflow [OF k])
  then show "lshift ((x XOR y) AND (x XOR r)) (12 - int b) AND MASK_O = push_bit 11 (of_bool (fO (sub_flags b (uint x) (uint y) k)))"
    by (simp only: of_mask [OF b w])
qed

lemma ACTIONS_ADD_flags:
  fixes x y :: "'w::len word"
  assumes b: "8 \<le> b" "b \<le> LENGTH('w)" and w: "16 \<le> LENGTH('w)"
  shows "ACTIONS_ADD b x y = pack (add_flags b (uint x) (uint y) 0)"
proof -
  have cf: "(take_bit b (x + y) < take_bit b x) = fC (add_flags b (uint x) (uint y) 0)"
    by (simp only: take_bit_word_cmp word_of_int_low(1) [OF uint_images(1) b(2)] add_flags_def flags.simps add_0_right add_carry_out(1))
  show ?thesis
    unfolding ACTIONS_ADD_def Let_def cf add_parts [OF b w disjI1 [OF refl] uint_images(1)] result_parts [OF b uint_images(1)]
    by (simp only: pack_def add_flags_def flags.simps)
qed

lemma ACTIONS_SUB_flags:
  fixes x y :: "'w::len word"
  assumes b: "8 \<le> b" "b \<le> LENGTH('w)" and w: "16 \<le> LENGTH('w)"
  shows "ACTIONS_SUB b x y = pack (sub_flags b (uint x) (uint y) 0)"
proof -
  have cf: "(take_bit b x < take_bit b y) = fC (sub_flags b (uint x) (uint y) 0)"
    by (simp only: take_bit_word_cmp sub_flags_def flags.simps diff_0_right sub_borrow_out(1))
  show ?thesis
    unfolding ACTIONS_SUB_def Let_def cf sub_parts [OF b w disjI1 [OF refl] uint_images(2)] result_parts [OF b uint_images(2)]
    by (simp only: pack_def sub_flags_def flags.simps)
qed

lemma old_carry: "of_bool c AND MASK_C = (of_bool c :: 'w::len word)" "(y XOR of_bool c) XOR of_bool c = (y :: 'w::len word)"
  by (simp_all add: xor.assoc)

lemma ACTIONS_ADC_flags:
  fixes x y :: "'w::len word"
  assumes b: "8 \<le> b" "b \<le> LENGTH('w)" and w: "16 \<le> LENGTH('w)"
  shows "ACTIONS_ADC b x (y XOR of_bool c) (of_bool c) = pack (add_flags b (uint x) (uint y) (of_bool c))"
proof (cases c)
  case False
  then have "ACTIONS_ADC b x (y XOR of_bool c) (of_bool c) = ACTIONS_ADD b x y"
    by (simp add: ACTIONS_ADC_def ACTIONS_ADD_def Let_def)
  then show ?thesis using ACTIONS_ADD_flags [OF assms, of x y] False by simp
next
  case True
  then have c: "of_bool c = (1 :: 'w word)" "of_bool c = (1 :: int)" by simp_all
  have cf: "(take_bit b (x + y + 1) \<le> take_bit b x) = fC (add_flags b (uint x) (uint y) 1)"
    by (simp only: take_bit_word_cmp word_of_int_low(1) [OF uint_images(3) b(2)] add_flags_def flags.simps add_carry_out(2))
  show ?thesis
    unfolding ACTIONS_ADC_def Let_def old_carry
    unfolding c cf add_parts [OF b w disjI2 [OF refl] uint_images(3)] result_parts [OF b uint_images(3)]
    by (simp only: pack_def add_flags_def flags.simps) simp
qed

lemma ACTIONS_SBB_flags:
  fixes x y :: "'w::len word"
  assumes b: "8 \<le> b" "b \<le> LENGTH('w)" and w: "16 \<le> LENGTH('w)"
  shows "ACTIONS_SBB b x (y XOR of_bool c) (of_bool c) = pack (sub_flags b (uint x) (uint y) (of_bool c))"
proof (cases c)
  case False
  then have "ACTIONS_SBB b x (y XOR of_bool c) (of_bool c) = ACTIONS_SUB b x y"
    by (simp add: ACTIONS_SBB_def ACTIONS_SUB_def Let_def)
  then show ?thesis using ACTIONS_SUB_flags [OF assms, of x y] False by simp
next
  case True
  then have c: "of_bool c = (1 :: 'w word)" "of_bool c = (1 :: int)" by simp_all
  have cf: "(take_bit b x \<le> take_bit b y) = fC (sub_flags b (uint x) (uint y) 1)"
    by (simp only: take_bit_word_cmp sub_flags_def flags.simps sub_borrow_out(2))
  show ?thesis
    unfolding ACTIONS_SBB_def Let_def old_carry
    unfolding c cf sub_parts [OF b w disjI2 [OF refl] uint_images(4)] result_parts [OF b uint_images(4)]
    by (simp only: pack_def sub_flags_def flags.simps) simp
qed


subsection \<open>Operations known by their result\<close>

lemma ACTIONS_LOGIC_flags:
  fixes r :: "'w::len word"
  assumes b: "8 \<le> b" "b \<le> LENGTH('w)"
  shows "ACTIONS_LOGIC b r = pack (result_flags b (uint r) False False False)"
proof -
  have r: "r = word_of_int (uint r)" by simp
  show ?thesis
    unfolding ACTIONS_LOGIC_def Let_def result_parts [OF b r]
    by (simp add: pack_def result_flags_def)
qed

text \<open>A step by one overflows at one result only.\<close>

lemma take_bit_top: "take_bit b z = (2 ^ (b - 1) * of_bool (bit z (b - 1)) + take_bit (b - 1) z :: int)" if "1 \<le> b"
  using take_bit_Suc_from_most [of "b - 1" z] that by simp

lemma inc_overflow:
  assumes "2 \<le> b"
  shows "fO (add_flags b x 1 0) = (take_bit b (x + 1) = 2 ^ (b - 1))"
proof -
  let ?n = "b - 1"
  note e = add_exact [where k = 0 and n = ?n and x = x and y = 1]
  have b: "\<not> bit (1 :: int) ?n" "take_bit ?n (1 :: int) = 1" "1 \<le> b" using assms by (auto simp: bit_1_iff take_bit_of_1)
  have t: "0 \<le> take_bit ?n x" "take_bit ?n x < 2 ^ ?n" by simp_all
  have "fO (add_flags b x 1 0) = (\<not> bit x ?n \<and> bit (x + 1) ?n)"
    using add_overflow [where k = 0 and n = ?n and x = x and y = 1] b(1) by (auto simp: add_flags_def)
  also have "\<dots> = (bit (x + 1) ?n \<and> take_bit ?n (x + 1) = 0)"
  proof (cases "2 ^ ?n \<le> take_bit ?n x + 1")
    case True
    then have "take_bit ?n (x + 1) = take_bit ?n x + 1 - 2 ^ ?n" using e(1) b(2) by simp
    then have "take_bit ?n (x + 1) = 0" using True t by linarith
    then show ?thesis using e(2) b True by auto
  next
    case False
    then have "take_bit ?n (x + 1) = take_bit ?n x + 1" using e(1) b(2) by simp
    then have "take_bit ?n (x + 1) \<noteq> 0" using t by linarith
    then show ?thesis using e(2) b False by auto
  qed
  also have "\<dots> = (take_bit b (x + 1) = 2 ^ ?n)"
    using take_bit_top [OF b(3), of "x + 1"] less_imp_neq [OF take_bit_int_less_exp [of ?n "x + 1"]] by (cases "bit (x + 1) ?n") simp_all
  finally show ?thesis .
qed

lemma dec_overflow:
  assumes "2 \<le> b"
  shows "fO (sub_flags b x 1 0) = (take_bit b (x - 1) = 2 ^ (b - 1) - 1)"
proof -
  let ?n = "b - 1"
  note e = sub_exact [where k = 0 and n = ?n and x = x and y = 1]
  have b: "\<not> bit (1 :: int) ?n" "take_bit ?n (1 :: int) = 1" "1 \<le> b" using assms by (auto simp: bit_1_iff take_bit_of_1)
  have t: "0 \<le> take_bit ?n x" "take_bit ?n x < 2 ^ ?n" "take_bit ?n (x - 1) < 2 ^ ?n" "0 \<le> take_bit ?n (x - 1)" by simp_all
  have "fO (sub_flags b x 1 0) = (bit x ?n \<and> \<not> bit (x - 1) ?n)"
    using sub_overflow [where k = 0 and n = ?n and x = x and y = 1] b(1) by (auto simp: sub_flags_def)
  also have "\<dots> = (\<not> bit (x - 1) ?n \<and> take_bit ?n (x - 1) = 2 ^ ?n - 1)"
  proof (cases "take_bit ?n x < 1")
    case True
    then have "take_bit ?n (x - 1) = take_bit ?n x - 1 + 2 ^ ?n" using e(1) b(2) by simp
    then have "take_bit ?n (x - 1) = 2 ^ ?n - 1" using True t by linarith
    then show ?thesis using e(2) b True by auto
  next
    case False
    then have "take_bit ?n (x - 1) = take_bit ?n x - 1" using e(1) b(2) by simp
    then have "take_bit ?n (x - 1) \<noteq> 2 ^ ?n - 1" using t by linarith
    then show ?thesis using e(2) b False by auto
  qed
  also have "\<dots> = (take_bit b (x - 1) = 2 ^ ?n - 1)"
  proof -
    have "take_bit ?n (x - 1) \<noteq> - 1" using t(4) by linarith
    then show ?thesis using take_bit_top [OF b(3), of "x - 1"] by (cases "bit (x - 1) ?n") simp_all
  qed
  finally show ?thesis .
qed

lemma masked_eq: "(r AND mask b = push_bit (b - 1) 1) = (take_bit b (uint r) = 2 ^ (b - 1))"
    "(r AND mask b = push_bit (b - 1) 1 - 1) = (take_bit b (uint r) = 2 ^ (b - 1) - 1)"
  if "1 \<le> b" "b \<le> LENGTH('w)" for r :: "'w::len word"
proof -
  have n: "b - 1 < LENGTH('w)" using that by simp
  have "(2 :: int) ^ (b - 1) < 2 ^ LENGTH('w)" using n by simp
  then have "uint (push_bit (b - 1) 1 :: 'w word) = 2 ^ (b - 1)"
    by (simp only: unsigned_push_bit_eq) (simp add: push_bit_of_1 take_bit_int_eq_self)
  moreover have "push_bit (b - 1) 1 - 1 = (mask (b - 1) :: 'w word)" by (simp add: mask_eq_exp_minus_1 push_bit_of_1)
  then have "uint (push_bit (b - 1) 1 - 1 :: 'w word) = 2 ^ (b - 1) - 1"
    using n by (simp only: uint_mask_eq) (simp add: min_def mask_eq_exp_minus_1)
  ultimately have u: "uint (push_bit (b - 1) 1 :: 'w word) = 2 ^ (b - 1)" "uint (push_bit (b - 1) 1 - 1 :: 'w word) = 2 ^ (b - 1) - 1"
    by simp_all
  show "(r AND mask b = push_bit (b - 1) 1) = (take_bit b (uint r) = 2 ^ (b - 1))"
    using u(1) by (simp add: word_uint_eq_iff unsigned_take_bit_eq flip: take_bit_eq_mask)
  show "(r AND mask b = push_bit (b - 1) 1 - 1) = (take_bit b (uint r) = 2 ^ (b - 1) - 1)"
    by (simp only: word_uint_eq_iff take_bit_eq_mask [symmetric] unsigned_take_bit_eq u(2))
qed

lemma mask_C: "x AND MASK_C = of_bool (bit x 0)" for x :: "'w::len word"
  using and_pow [of x 0] by simp

lemma ACTIONS_INC_flags:
  fixes x :: "'w::len word"
  assumes b: "8 \<le> b" "b \<le> LENGTH('w)" and w: "16 \<le> LENGTH('w)"
  shows "ACTIONS_INC b (x + 1) old = pack ((add_flags b (uint x) 1 0)\<lparr>fC := bit old 0\<rparr>)"
proof -
  have r: "x + 1 = word_of_int (uint x + uint (1 :: 'w word) + 0)" by simp
  have ovf: "(x + 1 AND mask b = push_bit (b - 1) 1) = fO (add_flags b (uint x) 1 0)"
    using inc_overflow [of b "uint x"] masked_eq(1) [of b "x + 1"] word_of_int_low(1) [OF r b(2)] b by simp
  have l: "x + 1 - 1 = x" by simp
  show ?thesis
    unfolding ACTIONS_INC_def Let_def l add_parts(1) [OF b w disjI1 [OF refl] r] result_parts [OF b r] ovf mask_C
    by (simp add: pack_def add_flags_def)
qed

lemma ACTIONS_DEC_flags:
  fixes x :: "'w::len word"
  assumes b: "8 \<le> b" "b \<le> LENGTH('w)" and w: "16 \<le> LENGTH('w)"
  shows "ACTIONS_DEC b (x - 1) old = pack ((sub_flags b (uint x) 1 0)\<lparr>fC := bit old 0\<rparr>)"
proof -
  have r: "x - 1 = word_of_int (uint x - uint (1 :: 'w word) - 0)" by simp
  have ovf: "(x - 1 AND mask b = push_bit (b - 1) 1 - 1) = fO (sub_flags b (uint x) 1 0)"
    using dec_overflow [of b "uint x"] masked_eq(2) [of b "x - 1"] word_of_int_low(1) [OF r b(2)] b by simp
  have l: "x - 1 + 1 = x" by simp
  show ?thesis
    unfolding ACTIONS_DEC_def Let_def l sub_parts(1) [OF b w disjI1 [OF refl] r] result_parts [OF b r] ovf mask_C
    by (simp add: pack_def sub_flags_def)
qed


subsection \<open>Shifts and rotations\<close>

lemma ACTIONS_SHL_flags:
  fixes r r' :: "'w::len word"
  assumes b: "8 \<le> b" "b \<le> LENGTH('w)" and w: "16 \<le> LENGTH('w)"
  shows "ACTIONS_SHL b r r' = pack (result_flags b (uint r) (bit r' (b - 1) \<noteq> bit r (b - 1)) False (bit r' (b - 1)))"
proof -
  have r: "r = word_of_int (uint r)" by simp
  have cf: "drop_bit (b - 1) r' AND MASK_C = of_bool (bit r' (b - 1))" by (simp only: mask_C) (simp add: bit_simps)
  have o: "bit (r' XOR r) (b - 1) = (bit r' (b - 1) \<noteq> bit r (b - 1))" by (simp add: bit_xor_iff)
  show ?thesis
    unfolding ACTIONS_SHL_def Let_def result_parts [OF b r] cf of_mask [OF b w] o
    by (simp only: pack_def result_flags_def flags.simps of_bool_eq push_bit_of_0 or.right_neutral)
qed

lemma ACTIONS_SHR_flags:
  fixes r r' :: "'w::len word"
  assumes b: "8 \<le> b" "b \<le> LENGTH('w)" and w: "16 \<le> LENGTH('w)"
  shows "ACTIONS_SHR b r r' = pack (result_flags b (uint r) (bit r' (b - 1) \<noteq> bit r (b - 1)) False (bit r' 0))"
proof -
  have r: "r = word_of_int (uint r)" by simp
  have cf: "r' AND 1 = of_bool (bit r' 0)" using mask_C [of r'] by simp
  have o: "bit (r' XOR r) (b - 1) = (bit r' (b - 1) \<noteq> bit r (b - 1))" by (simp add: bit_xor_iff)
  show ?thesis
    unfolding ACTIONS_SHR_def Let_def result_parts [OF b r] cf of_mask [OF b w] o
    by (simp only: pack_def result_flags_def flags.simps of_bool_eq push_bit_of_0 or.right_neutral)
qed

text \<open>A rotation keeps the flag word but for the carry and the overflow.\<close>

lemma flag_bit: "bit (push_bit k (of_bool p) :: 'w::len word) n = (n = k \<and> p \<and> k < LENGTH('w))"
  by (auto simp: bit_push_bit_iff bit_1_iff)

lemma mask_bit: "bit (push_bit k 1 :: 'w::len word) n = (n = k \<and> k < LENGTH('w))"
  using flag_bit [of k True n, where 'w = 'w] by simp

lemma pack_bits:
  fixes f :: flags
  assumes "12 \<le> LENGTH('w)"
  shows "bit (pack f :: 'w::len word) n = (n = 0 \<and> fC f \<or> n = 2 \<and> fP f \<or> n = 4 \<and> fA f \<or> n = 6 \<and> fZ f \<or> n = 7 \<and> fS f \<or> n = 11 \<and> fO f)"
proof -
  have "pack f = (push_bit 0 (of_bool (fC f)) OR push_bit 2 (of_bool (fP f)) OR push_bit 4 (of_bool (fA f))
     OR push_bit 6 (of_bool (fZ f)) OR push_bit 7 (of_bool (fS f)) OR push_bit 11 (of_bool (fO f)) :: 'w word)"
    by (simp only: pack_def push_bit_0_id id_apply)
  then show ?thesis using assms by (simp only: bit_or_iff flag_bit) auto
qed

lemma rotated_flags:
  fixes x y :: "'w::len word"
  assumes "12 \<le> LENGTH('w)"
  shows "(pack f AND NOT (MASK_O OR MASK_C)) OR (MASK_C AND x) OR (MASK_O AND y) = pack (f\<lparr>fC := bit x 0, fO := bit y 11\<rparr>)"
proof (rule bit_word_eqI)
  fix n assume n: "n < LENGTH('w)"
  have w: "0 < LENGTH('w)" "11 < LENGTH('w)" using assms by auto
  show "bit ((pack f AND NOT (MASK_O OR MASK_C)) OR (MASK_C AND x) OR (MASK_O AND y)) n
      = bit (pack (f\<lparr>fC := bit x 0, fO := bit y 11\<rparr>) :: 'w word) n"
    unfolding bit_or_iff bit_and_iff bit_not_iff mask_bit pack_bits [OF assms]
    using n w by (cases "n = 0"; cases "n = 11") simp_all
qed

lemma ACTIONS_ROL_flags:
  fixes r :: "'w::len word"
  assumes b: "8 \<le> b" "b \<le> LENGTH('w)" and w: "16 \<le> LENGTH('w)"
  shows "ACTIONS_ROL b r (pack f) = pack (f\<lparr>fC := bit r 0, fO := (bit r (b - 1) \<noteq> bit r 0)\<rparr>)"
proof -
  have "bit (lshift r (11 - (int b - 1))) 11 = bit r (b - 1)" "bit (lshift r 11) 11 = bit r 0"
    using bit_lshift [of b 11 r] bit_lshift [of 1 11 r] b w by (simp_all add: algebra_simps)
  then have "bit (lshift r (11 - (int b - 1)) XOR lshift r 11) 11 = (bit r (b - 1) \<noteq> bit r 0)" by (simp add: bit_xor_iff)
  moreover have "12 \<le> LENGTH('w)" using w by simp
  ultimately show ?thesis by (simp only: ACTIONS_ROL_def rotated_flags)
qed

lemma ACTIONS_ROR_flags:
  fixes r :: "'w::len word"
  assumes b: "8 \<le> b" "b \<le> LENGTH('w)" and w: "16 \<le> LENGTH('w)"
  shows "ACTIONS_ROR b r (pack f) = pack (f\<lparr>fC := bit r (b - 1), fO := (bit r (b - 1) \<noteq> bit r (b - 2))\<rparr>)"
proof -
  have "bit (lshift r (11 - (int b - 1))) 11 = bit r (b - 1)" "bit (lshift r (11 - (int b - 1) + 1)) 11 = bit r (b - 2)"
    using bit_lshift [of b 11 r] bit_lshift [of "b - 1" 11 r] b w by (simp_all add: algebra_simps of_nat_diff numeral_2_eq_2)
  then have o: "bit (lshift r (11 - (int b - 1)) XOR lshift r (11 - (int b - 1) + 1)) 11 = (bit r (b - 1) \<noteq> bit r (b - 2))"
    by (simp add: bit_xor_iff)
  have c: "bit (drop_bit (b - 1) r) 0 = bit r (b - 1)" by (simp add: bit_simps)
  have "12 \<le> LENGTH('w)" using w by simp
  then show ?thesis by (simp only: ACTIONS_ROR_def rotated_flags o c)
qed


subsection \<open>Products\<close>

text \<open>Carry and overflow of a product say that it does not fit in the width of the operands.\<close>

definition umul_flags :: "nat \<Rightarrow> int \<Rightarrow> int \<Rightarrow> flags" where
  "umul_flags b x y =
     (let p = take_bit b x * take_bit b y; big = (take_bit b p \<noteq> p) in result_flags b p big False big)"

definition smul_flags :: "nat \<Rightarrow> int \<Rightarrow> int \<Rightarrow> flags" where
  "smul_flags b x y =
     (let p = signed_take_bit (b - 1) x * signed_take_bit (b - 1) y; big = (signed_take_bit (b - 1) p \<noteq> p)
      in result_flags b p big False big)"

text \<open>The flag word of a product from its low part; the narrow part may be kept with or without sign.\<close>

lemma product_parts:
  fixes lo :: "'w::len word"
  assumes "8 \<le> b" "b \<le> LENGTH('w)" "lo = word_of_int z" "take_bit b z = take_bit b p" "(lo = 0) = (take_bit b p = 0)"
  shows "of_bool c OR parity lo OR 0 OR push_bit 6 (of_bool (lo = 0)) OR (lshift lo (8 - int b) AND 0x80) OR push_bit 11 (of_bool c)
    = pack (result_flags b p c False c)"
proof -
  have i: "bit z i = bit p i" if "i < b" for i using assms(4) that by (auto simp: bit_eq_iff bit_take_bit_iff)
  then have "{i \<in> {..<8}. bit z i} = {i \<in> {..<8}. bit p i}" using assms(1) by auto
  then have "even_parity z = even_parity p" by (simp only: even_parity_def)
  moreover have "(signed_take_bit (b - 1) z < 0) = (signed_take_bit (b - 1) p < 0)" using i [of "b - 1"] assms(1) by simp
  ultimately show ?thesis
    unfolding result_parts(1,3) [OF assms(1-3)] assms(5)
    by (simp add: pack_def result_flags_def)
qed

lemma high_part:
  fixes r :: ULong
  assumes "uint r = p" "0 \<le> p" "p < 2 ^ b * 2 ^ b"
  shows "uint (take_bit b (drop_bit b r)) = p div 2 ^ b"
proof -
  have "2 ^ b * (p div 2 ^ b) \<le> p" by (simp flip: minus_mod_eq_mult_div)
  then have "2 ^ b * (p div 2 ^ b) < 2 ^ b * 2 ^ b" using assms(3) by linarith
  then have "p div 2 ^ b < 2 ^ b" by simp
  then have "take_bit b (drop_bit b p) = p div 2 ^ b"
    using assms(2) by (simp add: take_bit_int_eq_self pos_imp_zdiv_nonneg_iff drop_bit_eq_div)
  moreover have "take_bit 64 p = p" using assms(1,2) unsigned_less [of r] by (intro take_bit_int_eq_self) auto
  ultimately show ?thesis using assms(1) by (simp add: unsigned_take_bit_eq unsigned_drop_bit_eq)
qed

lemma ACTIONS_UMUL_flags:
  fixes x y :: "'w::len word"
  assumes b: "8 \<le> b" "b \<le> LENGTH('w)" "b \<le> 32"
  shows "ACTIONS_UMUL b x y = pack (umul_flags b (uint x) (uint y))"
proof -
  let ?X = "take_bit b (uint x)" and ?Y = "take_bit b (uint y)"
  let ?p = "?X * ?Y"
  let ?lo = "take_bit b (take_bit b x * take_bit b y)"
  let ?rr = "take_bit (2 * b) (ucast (take_bit b x) * ucast (take_bit b y)) :: ULong"
  have l: "uint ?lo = take_bit b ?p"
    using b by (simp add: unsigned_take_bit_eq uint_mult_lem uint_word_ariths take_bit_eq_mod [symmetric] min_def del: mult.commute)
  have "0 \<le> ?X" "?X < 2 ^ b" "0 \<le> ?Y" "?Y < 2 ^ b" by simp_all
  then have p: "0 \<le> ?p" "?p < 2 ^ b * 2 ^ b" by (simp_all only: mult_nonneg_nonneg mult_strict_mono')
  then have p2: "?p < 2 ^ (2 * b)" by (simp only: mult_2 power_add)
  have "(2 :: int) ^ (2 * b) \<le> 2 ^ 64" using b by (intro power_increasing) auto
  then have "?p mod 18446744073709551616 = ?p" using p(1) p2 by (intro mod_pos_pos_trivial) simp_all
  then have "uint ?rr = take_bit (2 * b) ?p"
    using b by (simp add: unsigned_take_bit_eq uint_word_ariths unsigned_ucast_eq min_def)
  then have "uint ?rr = ?p" using p(1) p2 by (simp add: take_bit_int_eq_self)
  then have u: "uint (take_bit b (drop_bit b ?rr)) = ?p div 2 ^ b" using high_part p by blast
  have "(?p div 2 ^ b = 0) = (take_bit b ?p = ?p)"
    using p(1) by (auto simp: take_bit_int_eq_self_iff zdiv_eq_0_iff dest: order.strict_trans2)
  then have hi: "(take_bit b (drop_bit b ?rr) \<noteq> 0) = (take_bit b ?p \<noteq> ?p)"
    using u uint_0_iff [of "take_bit b (drop_bit b ?rr)"] by simp
  have z: "?lo = word_of_int (take_bit b ?p)" using l by (metis word_of_int_uint)
  have "(?lo = 0) = (take_bit b ?p = 0)" using l by (metis uint_0_iff)
  note parts = product_parts [OF b(1,2) z _ this]
  show ?thesis unfolding ACTIONS_UMUL_def Let_def hi umul_flags_def using parts by simp
qed


text \<open>A signed product fits when its high part repeats the sign of the low part.\<close>

lemma signed_take_bit_bounds: "- (2 ^ n) \<le> signed_take_bit n z" "signed_take_bit n z < 2 ^ n" for z :: int
  by simp_all

lemma signed_product_fits:
  fixes p :: int
  assumes "1 \<le> b"
  shows "(p div 2 ^ b \<noteq> - of_bool (signed_take_bit (b - 1) p < 0)) = (signed_take_bit (b - 1) p \<noteq> p)"
proof -
  obtain n where n: "b = Suc n" using assms by (cases b) auto
  let ?t = "take_bit n p" and ?s = "bit p n"
  have t: "0 \<le> ?t" "?t < 2 ^ n" by simp_all
  have "p = 2 ^ b * (p div 2 ^ b) + take_bit b p" by (simp add: take_bit_eq_mod)
  also have "take_bit b p = 2 ^ n * of_bool ?s + ?t" by (simp add: n take_bit_Suc_from_most)
  finally have p: "p = 2 ^ b * (p div 2 ^ b) + 2 ^ n * of_bool ?s + ?t" by simp
  have s: "signed_take_bit n p = ?t - 2 ^ n * of_bool ?s" "(signed_take_bit n p < 0) = ?s" by (simp_all add: signed_take_bit_split)
  have "(signed_take_bit n p = p) = (2 ^ b * (p div 2 ^ b + of_bool ?s) = 0)"
    unfolding s(1) by (subst (3) p) (auto simp: n algebra_simps)
  also have "\<dots> = (p div 2 ^ b = - of_bool ?s)" by auto
  finally show ?thesis using s(2) by (simp add: n)
qed

lemma signed_take_bit_image: "signed_take_bit n (word_of_int z :: ULong) = word_of_int (signed_take_bit n z)" if "n < 64"
  using that by (intro bit_word_eqI) (simp add: bit_signed_take_bit_iff bit_word_of_int_iff min_def)

lemma signed_drop_bit_image:
  assumes "- (2 ^ 63) \<le> z" "z < 2 ^ 63"
  shows "signed_drop_bit n (word_of_int z :: ULong) = word_of_int (z div 2 ^ n)"
proof -
  have "sint (word_of_int z :: ULong) = z" using assms by (simp add: sint_sbintrunc' signed_take_bit_int_eq_self)
  then have "sint (signed_drop_bit n (word_of_int z :: ULong)) = z div 2 ^ n"
    by (simp add: sint_signed_drop_bit_eq drop_bit_eq_div)
  then have "word_of_int (sint (signed_drop_bit n (word_of_int z :: ULong))) = (word_of_int (z div 2 ^ n) :: ULong)" by (rule arg_cong)
  then show ?thesis by (simp only: of_int_sint scast_id id_apply)
qed

lemma word_of_int_inj:
  assumes "- (2 ^ 63) \<le> y" "y < 2 ^ 63" "- (2 ^ 63) \<le> z" "z < 2 ^ 63"
  shows "((word_of_int y :: ULong) = word_of_int z) = (y = z)"
proof -
  have "sint (word_of_int y :: ULong) = y" "sint (word_of_int z :: ULong) = z"
    using assms by (simp_all add: sint_sbintrunc' signed_take_bit_int_eq_self)
  then show ?thesis by metis
qed

lemma scast_image: "(scast (signed_take_bit n v) :: ULong) = word_of_int (signed_take_bit n (uint v))"
  if "n < LENGTH('w)" "LENGTH('w) \<le> 64" for v :: "'w::len word"
  using that by (intro bit_word_eqI) (auto simp: bit_signed_iff bit_signed_take_bit_iff bit_uint_iff bit_word_of_int_iff min_def)

lemma div_signed_bounds:
  fixes z :: int
  assumes "- (2 ^ m) \<le> z" "z < 2 ^ m" "m \<le> n + k"
  shows "- (2 ^ k) \<le> z div 2 ^ n" "z div 2 ^ n < 2 ^ k"
proof -
  have "(2 :: int) ^ m \<le> 2 ^ n * 2 ^ k" using assms(3) by (simp flip: power_add)
  then have z: "2 ^ n * (- (2 ^ k)) \<le> z" "z < 2 ^ n * 2 ^ k" using assms(1,2) by simp_all
  have "z = 2 ^ n * (z div 2 ^ n) + z mod 2 ^ n" "0 \<le> z mod 2 ^ n" "z mod 2 ^ n < 2 ^ n" by simp_all
  then have q: "2 ^ n * (z div 2 ^ n) \<le> z" "z < 2 ^ n * (z div 2 ^ n + 1)" unfolding distrib_left by linarith+
  have "2 ^ n * (z div 2 ^ n) < 2 ^ n * 2 ^ k" using q(1) z(2) by linarith
  then show "z div 2 ^ n < 2 ^ k" by simp
  have "2 ^ n * (- (2 ^ k)) < 2 ^ n * (z div 2 ^ n + 1)" using q(2) z(1) by linarith
  then have "- (2 ^ k) < z div 2 ^ n + 1" by (simp only: mult_less_cancel_left_pos zero_less_power zero_less_numeral)
  then show "- (2 ^ k) \<le> z div 2 ^ n" by simp
qed

lemma signed_sign: "signed_take_bit n z div 2 ^ n = - of_bool (signed_take_bit n z < 0)" for z :: int
  using div_borrow [of "2 ^ n" "signed_take_bit n z"] by simp

lemma ACTIONS_SMUL_flags:
  fixes x y :: "'w::len word"
  assumes b: "8 \<le> b" "b \<le> LENGTH('w)" "b \<le> 32" and w: "LENGTH('w) \<le> 64"
  shows "ACTIONS_SMUL b x y = pack (smul_flags b (uint x) (uint y))"
proof -
  let ?X = "signed_take_bit (b - 1) (uint x)" and ?Y = "signed_take_bit (b - 1) (uint y)"
  let ?p = "?X * ?Y"
  let ?x = "scast (signed_take_bit (b - 1) x) :: ULong" and ?y = "scast (signed_take_bit (b - 1) y) :: ULong"
  let ?rr = "signed_take_bit (2 * b - 1) (?x * ?y)" and ?lo = "signed_take_bit (b - 1) (?x * ?y)"
  have n: "b - 1 < LENGTH('w)" using b by simp
  have p: "?x * ?y = word_of_int ?p" by (simp only: scast_image [OF n w] of_int_mult)
  have "\<bar>?X\<bar> \<le> 2 ^ (b - 1)" "\<bar>?Y\<bar> \<le> 2 ^ (b - 1)"
    using signed_take_bit_bounds [of "b - 1" "uint x"] signed_take_bit_bounds [of "b - 1" "uint y"] by linarith+
  then have "\<bar>?X\<bar> * \<bar>?Y\<bar> \<le> 2 ^ (b - 1) * 2 ^ (b - 1)" by (intro mult_mono) simp_all
  also have "\<dots> = (2 :: int) ^ (2 * b - 2)" using b by (simp add: mult_2 algebra_simps flip: power_add)
  also have "\<dots> < 2 ^ (2 * b - 1)" using b by (intro power_strict_increasing) auto
  finally have pb: "- (2 ^ (2 * b - 1)) \<le> ?p" "?p < 2 ^ (2 * b - 1)" by (simp_all flip: abs_mult)
  have "(2 :: int) ^ (2 * b - 1) \<le> 2 ^ 63" using b by (intro power_increasing) auto
  then have p63: "- (2 ^ 63) \<le> ?p" "?p < 2 ^ 63" using pb by linarith+
  have rr: "?rr = word_of_int ?p" using b pb by (simp only: p) (simp add: signed_take_bit_image signed_take_bit_int_eq_self del: of_int_mult)
  have lo: "?lo = word_of_int (signed_take_bit (b - 1) ?p)" using b by (simp only: p) (simp add: signed_take_bit_image del: of_int_mult)
  have q: "- (2 ^ (b - 1)) \<le> ?p div 2 ^ b" "?p div 2 ^ b < 2 ^ (b - 1)" using div_signed_bounds [OF pb, of b "b - 1"] b by simp_all
  have "signed_take_bit (b - 1) (signed_drop_bit b ?rr) = word_of_int (?p div 2 ^ b)"
    unfolding rr signed_drop_bit_image [OF p63] using b q by (simp add: signed_take_bit_image signed_take_bit_int_eq_self)
  moreover have "(2 :: int) ^ (b - 1) \<le> 2 ^ 63" using b by (intro power_increasing) auto
  then have l63: "- (2 ^ 63) \<le> signed_take_bit (b - 1) ?p" "signed_take_bit (b - 1) ?p < 2 ^ 63" "- (2 ^ 63) \<le> ?p div 2 ^ b" "?p div 2 ^ b < 2 ^ 63"
    using signed_take_bit_bounds [of "b - 1" ?p] q by linarith+
  have "signed_drop_bit (b - 1) ?lo = word_of_int (- of_bool (signed_take_bit (b - 1) ?p < 0))"
    unfolding lo signed_drop_bit_image [OF l63(1,2)] signed_sign ..
  ultimately have cf: "(signed_take_bit (b - 1) (signed_drop_bit b ?rr) \<noteq> signed_drop_bit (b - 1) ?lo) = (signed_take_bit (b - 1) ?p \<noteq> ?p)"
    using word_of_int_inj [of "?p div 2 ^ b" "- of_bool (signed_take_bit (b - 1) ?p < 0)"] l63(3,4) signed_product_fits [of b ?p] b by simp
  let ?z = "signed_take_bit (b - 1) ?p"
  obtain m where m: "b = Suc m" using b by (cases b) auto
  have lo': "(ucast ?lo :: 'w word) = word_of_int ?z"
    unfolding lo using w by (intro bit_word_eqI) (simp add: bit_unsigned_iff bit_word_of_int_iff del: of_int_mult)
  have t: "take_bit b ?z = take_bit b ?p" by (simp add: m take_bit_signed_take_bit)
  have z0: "(?z = 0) = (take_bit b ?p = 0)"
    using signed_take_bit_eq_iff_take_bit_eq [of m ?p 0] by (simp add: m)
  have lo0: "(?lo = 0) = (take_bit b ?p = 0)" unfolding lo using word_of_int_inj [of ?z 0] l63(1,2) z0 by simp
  have "(word_of_int ?z = (0 :: 'w word)) = (take_bit b ?p = 0)"
  proof
    assume "word_of_int ?z = (0 :: 'w word)"
    then have "take_bit LENGTH('w) ?z = 0" by (simp only: word_of_int_eq_0_iff take_bit_eq_0_iff)
    then have "take_bit b (take_bit LENGTH('w) ?z) = 0" by simp
    then show "take_bit b ?p = 0" using t b by (simp add: min_def)
  next
    assume "take_bit b ?p = 0"
    then have "?z = 0" using z0 by blast
    then show "word_of_int ?z = (0 :: 'w word)" by (simp only: of_int_0)
  qed
  then have lo0': "((ucast ?lo :: 'w word) = 0) = (take_bit b ?p = 0)" by (simp only: lo')
  show ?thesis
    unfolding ACTIONS_SMUL_def Let_def cf smul_flags_def lo0 lo0' [symmetric]
    by (rule product_parts [OF b(1,2) lo' t lo0'])
qed

end
