(* ===== verification/AMD64_Flags_Props.thy ===== *)
theory AMD64_Flags_Props
  imports AMD64_Flags VexFlags_Props
begin

text \<open>
  The amd64 condition codes compute what the instruction set defines: the flags of every kind of thunk,
  with the products of 64-bit numbers from 32-bit halves, the conditions, and the flags register of the guest state.
\<close>

section \<open>Products from halves\<close>

lemma half_mask: "u AND 0xFFFFFFFF = take_bit 32 u" for u :: ULong
proof -
  have "(0xFFFFFFFF :: ULong) = mask 32" by (simp add: mask_eq_exp_minus_1)
  then show ?thesis by (simp only: take_bit_eq_mask)
qed

text \<open>A product of two numbers split at bit \<open>n\<close>, accumulated from the right.\<close>

lemma long_product:
  fixes u v :: int and n :: nat
  defines "w0 \<equiv> take_bit n u * take_bit n v"
  defines "t \<equiv> (u div 2 ^ n) * take_bit n v + w0 div 2 ^ n"
  defines "w1 \<equiv> take_bit n u * (v div 2 ^ n) + take_bit n t"
  shows "(u div 2 ^ n) * (v div 2 ^ n) + t div 2 ^ n + w1 div 2 ^ n = (u * v) div (2 ^ n * 2 ^ n)"
proof -
  let ?m = "2 ^ n :: int"
  define U1 V1 U0 V0 where d: "U1 = u div ?m" "V1 = v div ?m" "U0 = take_bit n u" "V0 = take_bit n v"
  have u: "u = ?m * U1 + U0" and v: "v = ?m * V1 + V0" by (simp_all add: d take_bit_eq_mod)
  have t: "t = ?m * (t div ?m) + take_bit n t" and w0: "w0 = ?m * (w0 div ?m) + w0 mod ?m" and w1: "w1 = ?m * (w1 div ?m) + w1 mod ?m"
    by (simp_all add: take_bit_eq_mod)
  have "u * v = ?m * ?m * (U1 * V1) + ?m * (U1 * V0 + U0 * V1) + U0 * V0" unfolding u v by (simp add: algebra_simps)
  also have "U0 * V0 = ?m * (w0 div ?m) + w0 mod ?m" using w0 by (simp add: w0_def d)
  also have "?m * ?m * (U1 * V1) + ?m * (U1 * V0 + U0 * V1) + (?m * (w0 div ?m) + w0 mod ?m)
      = ?m * ?m * (U1 * V1) + ?m * (t + U0 * V1) + w0 mod ?m" by (simp add: t_def d algebra_simps)
  also have "t + U0 * V1 = ?m * (t div ?m) + w1" using t by (simp add: w1_def d)
  also have "?m * ?m * (U1 * V1) + ?m * (?m * (t div ?m) + w1) + w0 mod ?m
      = ?m * ?m * (U1 * V1 + t div ?m) + ?m * w1 + w0 mod ?m" by (simp add: algebra_simps)
  also have "\<dots> = ?m * ?m * (U1 * V1 + t div ?m) + ?m * (?m * (w1 div ?m) + w1 mod ?m) + w0 mod ?m" by (simp only: w1 [symmetric])
  also have "\<dots> = ?m * ?m * (U1 * V1 + t div ?m + w1 div ?m) + (?m * (w1 mod ?m) + w0 mod ?m)" by (simp only: algebra_simps)
  finally have e: "u * v = ?m * ?m * (U1 * V1 + t div ?m + w1 div ?m) + (?m * (w1 mod ?m) + w0 mod ?m)" .
  have b: "0 \<le> w1 mod ?m" "w1 mod ?m \<le> ?m - 1" "0 \<le> w0 mod ?m" "w0 mod ?m < ?m" by simp_all
  then have "?m * (w1 mod ?m) \<le> ?m * (?m - 1)" by (intro mult_left_mono) simp_all
  then have "?m * (w1 mod ?m) + w0 mod ?m < ?m * ?m" using b unfolding right_diff_distrib by linarith
  moreover have "0 \<le> ?m * (w1 mod ?m) + w0 mod ?m" using b by simp
  ultimately have "(u * v) div (?m * ?m) = U1 * V1 + t div ?m + w1 div ?m"
    unfolding e by (subst div_mult_self4 [of "?m * ?m"]) (simp_all add: div_pos_pos_trivial)
  then show ?thesis by (simp add: d)
qed


lemma signed_halves: "signed_drop_bit 32 u = word_of_int (sint u div 2 ^ 32)" "take_bit 32 u = (word_of_int (take_bit 32 (sint u)) :: ULong)"
  for u :: ULong
proof -
  have "sint u \<ge> - (2 ^ 63)" "sint u < 2 ^ 63" using sint_ge [of u] sint_lt [of u] by simp_all
  from signed_drop_bit_image [OF this] show "signed_drop_bit 32 u = word_of_int (sint u div 2 ^ 32)" by simp
  show "take_bit 32 u = (word_of_int (take_bit 32 (sint u)) :: ULong)"
    by (intro bit_word_eqI) (auto simp: bit_take_bit_iff bit_word_of_int_iff bit_sint_iff)
qed

lemma drop_bit_image:
  assumes "0 \<le> z" "z < 2 ^ 64"
  shows "drop_bit n (word_of_int z :: ULong) = word_of_int (z div 2 ^ n)"
proof -
  have u: "uint (word_of_int z :: ULong) = z" using assms by (simp add: uint_word_of_int_eq take_bit_int_eq_self)
  have "uint (drop_bit n (word_of_int z :: ULong)) = z div 2 ^ n"
    by (simp only: unsigned_drop_bit_eq u) (use assms in \<open>simp add: take_bit_int_eq_self drop_bit_eq_div\<close>)
  then have "word_of_int (uint (drop_bit n (word_of_int z :: ULong))) = (word_of_int (z div 2 ^ n) :: ULong)" by (rule arg_cong)
  then show ?thesis by (simp only: word_of_int_uint)
qed

lemma product_bounds:
  fixes x y :: int
  assumes "a \<le> x" "x \<le> a'" "0 \<le> y" "y \<le> c" "a \<le> 0" "0 \<le> a'"
  shows "a * c \<le> x * y" "x * y \<le> a' * c"
proof -
  have "a * c \<le> a * y" using assms by (intro mult_left_mono_neg)
  also have "\<dots> \<le> x * y" using assms by (intro mult_right_mono)
  finally show "a * c \<le> x * y" .
  have "x * y \<le> a' * y" using assms by (intro mult_right_mono)
  also have "\<dots> \<le> a' * c" using assms by (intro mult_left_mono)
  finally show "x * y \<le> a' * c" .
qed

lemma mullS64_correct: "sint (fst (mullS64 u v)) = (sint u * sint v) div 2 ^ 64" "snd (mullS64 u v) = u * v"
proof -
  let ?m = "2 ^ 32 :: int"
  define U1 V1 U0 V0 where d: "U1 = sint u div ?m" "V1 = sint v div ?m" "U0 = take_bit 32 (sint u)" "V0 = take_bit 32 (sint v)"
  define w0 t w1 where e: "w0 = U0 * V0" "t = U1 * V0 + w0 div ?m" "w1 = U0 * V1 + take_bit 32 t"
  have s: "- (2 ^ 63) \<le> sint x \<and> sint x < 2 ^ 63" for x :: ULong using sint_ge [of x] sint_lt [of x] by simp
  have b1: "- (2 ^ 31) \<le> U1" "U1 < 2 ^ 31" "- (2 ^ 31) \<le> V1" "V1 < 2 ^ 31"
    unfolding d using div_signed_bounds [of 63 "sint u" 32 31] div_signed_bounds [of 63 "sint v" 32 31] s by simp_all
  have b0: "0 \<le> U0" "U0 \<le> 2 ^ 32 - 1" "0 \<le> V0" "V0 \<le> 2 ^ 32 - 1"
    unfolding d using take_bit_int_less_exp [of 32 "sint u"] take_bit_int_less_exp [of 32 "sint v"] by simp_all
  show "snd (mullS64 u v) = u * v" by (simp add: mullS64_def Let_def)
  have w0: "0 \<le> w0" "w0 \<le> (2 ^ 32 - 1) * (2 ^ 32 - 1)" unfolding e using product_bounds [of 0 U0 "2 ^ 32 - 1" V0 "2 ^ 32 - 1"] b0 by simp_all
  then have w0d: "0 \<le> w0 div ?m" "w0 div ?m \<le> 2 ^ 32 - 1" using div_signed_bounds [of 64 w0 32 32] by (simp_all add: pos_imp_zdiv_nonneg_iff)
  have "- (2 ^ 31) * (2 ^ 32 - 1) \<le> U1 * V0" "U1 * V0 \<le> (2 ^ 31 - 1) * (2 ^ 32 - 1)"
    using product_bounds [of "- (2 ^ 31)" U1 "2 ^ 31 - 1" V0 "2 ^ 32 - 1"] b1 b0 by simp_all
  then have t: "- (2 ^ 63) \<le> t" "t < 2 ^ 63" unfolding e(2) using w0d by simp_all
  have td: "0 \<le> take_bit 32 t" "take_bit 32 t \<le> 2 ^ 32 - 1" using take_bit_int_less_exp [of 32 t] by simp_all
  have "- (2 ^ 31) * (2 ^ 32 - 1) \<le> V1 * U0" "V1 * U0 \<le> (2 ^ 31 - 1) * (2 ^ 32 - 1)"
    using product_bounds [of "- (2 ^ 31)" V1 "2 ^ 31 - 1" U0 "2 ^ 32 - 1"] b1 b0 by simp_all
  moreover obtain r where r: "r = take_bit 32 t" by blast
  ultimately have w1: "- (2 ^ 63) \<le> w1" "w1 < 2 ^ 63" unfolding e(3) mult.commute [of U0] using td unfolding r [symmetric] by simp_all
  note h = signed_halves [of u, folded d] signed_halves [of v, folded d]
  have i0: "take_bit 32 u * take_bit 32 v = word_of_int w0" by (simp add: h e)
  have "drop_bit 32 (word_of_int w0 :: ULong) = word_of_int (w0 div ?m)" using w0 by (intro drop_bit_image) simp_all
  then have it: "signed_drop_bit 32 u * take_bit 32 v + drop_bit 32 (take_bit 32 u * take_bit 32 v) = word_of_int t"
    by (simp add: h i0 e)
  have "take_bit 32 (word_of_int t :: ULong) = word_of_int (take_bit 32 t)"
    by (intro bit_word_eqI) (auto simp: bit_take_bit_iff bit_word_of_int_iff)
  then have i1: "take_bit 32 u * signed_drop_bit 32 v + take_bit 32 (word_of_int t) = word_of_int w1"
    by (simp add: h e)
  have hi: "fst (mullS64 u v) = word_of_int (U1 * V1 + t div ?m + w1 div ?m)"
    unfolding mullS64_def Let_def half_mask it i1 fst_conv signed_drop_bit_image [OF t] signed_drop_bit_image [OF w1]
    by (simp add: h)
  also have "U1 * V1 + t div ?m + w1 div ?m = (sint u * sint v) div 2 ^ 64"
    using long_product [of "sint u" 32 "sint v"] by (simp add: d e)
  finally have hi: "fst (mullS64 u v) = word_of_int ((sint u * sint v) div 2 ^ 64)" .
  have "\<bar>sint u\<bar> \<le> 2 ^ 63" "\<bar>sint v\<bar> \<le> 2 ^ 63" using s [of u] s [of v] by linarith+
  then have "\<bar>sint u\<bar> * \<bar>sint v\<bar> \<le> 2 ^ 63 * 2 ^ 63" by (intro mult_mono) simp_all
  then have p: "- (2 ^ 127) \<le> sint u * sint v" "sint u * sint v < 2 ^ 127" by (simp_all flip: abs_mult)
  show "sint (fst (mullS64 u v)) = (sint u * sint v) div 2 ^ 64"
    unfolding hi using div_signed_bounds [OF p, of 64 63] by (simp add: sint_sbintrunc' signed_take_bit_int_eq_self)
qed


lemma mullU64_correct: "uint (fst (mullU64 u v)) = (uint u * uint v) div 2 ^ 64" "snd (mullU64 u v) = u * v"
proof -
  let ?m = "2 ^ 32 :: int"
  define U1 V1 U0 V0 where d: "U1 = uint u div ?m" "V1 = uint v div ?m" "U0 = take_bit 32 (uint u)" "V0 = take_bit 32 (uint v)"
  define w0 t w1 where e: "w0 = U0 * V0" "t = U1 * V0 + w0 div ?m" "w1 = U0 * V1 + take_bit 32 t"
  have s: "0 \<le> uint x \<and> uint x < 2 ^ 64" for x :: ULong using unsigned_less [of x] by simp
  have b1: "0 \<le> U1" "U1 \<le> 2 ^ 32 - 1" "0 \<le> V1" "V1 \<le> 2 ^ 32 - 1"
    unfolding d using div_signed_bounds [of 64 "uint u" 32 32] div_signed_bounds [of 64 "uint v" 32 32] s [of u] s [of v]
    by (simp_all add: pos_imp_zdiv_nonneg_iff)
  have b0: "0 \<le> U0" "U0 \<le> 2 ^ 32 - 1" "0 \<le> V0" "V0 \<le> 2 ^ 32 - 1"
    unfolding d using take_bit_int_less_exp [of 32 "uint u"] take_bit_int_less_exp [of 32 "uint v"] by simp_all
  have w0: "0 \<le> w0" "w0 \<le> (2 ^ 32 - 1) * (2 ^ 32 - 1)"
    unfolding e(1) using product_bounds [of 0 U0 "2 ^ 32 - 1" V0 "2 ^ 32 - 1"] b0 by simp_all
  then have w0d: "0 \<le> w0 div ?m" "w0 div ?m \<le> 2 ^ 32 - 1"
    using div_signed_bounds [of 64 w0 32 32] by (simp_all add: pos_imp_zdiv_nonneg_iff)
  have "0 \<le> U1 * V0" "U1 * V0 \<le> (2 ^ 32 - 1) * (2 ^ 32 - 1)"
    using product_bounds [of 0 U1 "2 ^ 32 - 1" V0 "2 ^ 32 - 1"] b1 b0 by simp_all
  then have t: "0 \<le> t" "t < 2 ^ 64" unfolding e(2) using w0d by simp_all
  have td: "0 \<le> take_bit 32 t" "take_bit 32 t \<le> 2 ^ 32 - 1" using take_bit_int_less_exp [of 32 t] by simp_all
  have "0 \<le> V1 * U0" "V1 * U0 \<le> (2 ^ 32 - 1) * (2 ^ 32 - 1)"
    using product_bounds [of 0 V1 "2 ^ 32 - 1" U0 "2 ^ 32 - 1"] b1 b0 by simp_all
  moreover obtain r where r: "r = take_bit 32 t" by blast
  ultimately have w1: "0 \<le> w1" "w1 < 2 ^ 64" unfolding e(3) mult.commute [of U0] using td unfolding r [symmetric] by simp_all
  have h: "drop_bit 32 u = word_of_int U1" "take_bit 32 u = word_of_int U0" "drop_bit 32 v = word_of_int V1" "take_bit 32 v = word_of_int V0"
    unfolding d using drop_bit_image [of "uint u" 32] drop_bit_image [of "uint v" 32] s
    by (simp_all add: unsigned_take_bit_eq flip: word_uint_eq_iff) (simp_all add: word_uint_eq_iff unsigned_take_bit_eq uint_word_of_int_eq)
  have i0: "take_bit 32 u * take_bit 32 v = word_of_int w0" by (simp add: h e)
  have "drop_bit 32 (word_of_int w0 :: ULong) = word_of_int (w0 div ?m)" using w0 by (intro drop_bit_image) simp_all
  then have it: "drop_bit 32 u * take_bit 32 v + drop_bit 32 (take_bit 32 u * take_bit 32 v) = word_of_int t"
    by (simp add: h i0 e)
  have "take_bit 32 (word_of_int t :: ULong) = word_of_int (take_bit 32 t)"
    by (intro bit_word_eqI) (auto simp: bit_take_bit_iff bit_word_of_int_iff)
  then have i1: "take_bit 32 u * drop_bit 32 v + take_bit 32 (word_of_int t) = word_of_int w1"
    by (simp add: h e)
  have "fst (mullU64 u v) = word_of_int (U1 * V1 + t div ?m + w1 div ?m)"
    unfolding mullU64_def Let_def half_mask it i1 fst_conv drop_bit_image [OF t] drop_bit_image [OF w1]
    by (simp add: h)
  also have "U1 * V1 + t div ?m + w1 div ?m = (uint u * uint v) div 2 ^ 64"
    using long_product [of "uint u" 32 "uint v"] by (simp add: d e)
  finally have hi: "fst (mullU64 u v) = word_of_int ((uint u * uint v) div 2 ^ 64)" .
  have "uint u * uint v \<le> (2 ^ 64 - 1) * (2 ^ 64 - 1)"
    using product_bounds [of 0 "uint u" "2 ^ 64 - 1" "uint v" "2 ^ 64 - 1"] s [of u] s [of v] by simp
  then have p: "uint u * uint v < 2 ^ 128" by (rule le_less_trans) simp
  have "- (2 ^ 128) \<le> uint u * uint v" by (rule order_trans [of _ 0]) simp_all
  from div_signed_bounds(2) [OF this p, of 64 64] have "(uint u * uint v) div 2 ^ 64 < 2 ^ 64" by simp
  then have "take_bit 64 ((uint u * uint v) div 2 ^ 64) = (uint u * uint v) div 2 ^ 64"
    by (intro take_bit_int_eq_self) (simp_all add: pos_imp_zdiv_nonneg_iff)
  then show "uint (fst (mullU64 u v)) = (uint u * uint v) div 2 ^ 64"
    unfolding hi by (simp add: uint_word_of_int_eq)
  show "snd (mullU64 u v) = u * v" by (simp add: mullU64_def Let_def)
qed


lemma quad_signed: "signed_take_bit (64 - 1) (uint x) = sint x" for x :: ULong
  by (simp add: sint_uint)

lemma ACTIONS_UMULQ_flags: "ACTIONS_UMULQ x y = pack (umul_flags 64 (uint x) (uint y))"
proof -
  let ?p = "uint x * uint y"
  have t: "take_bit 64 (uint w) = uint w" for w :: ULong using uint_lt2p [of w] by (simp add: take_bit_int_eq_self)
  have "0 \<le> ?p" by simp
  then have "(?p div 2 ^ 64 \<noteq> 0) = (take_bit 64 ?p \<noteq> ?p)"
    by (auto simp: take_bit_int_eq_self_iff zdiv_eq_0_iff)
  moreover have "(fst (mullU64 x y) = 0) = (?p div 2 ^ 64 = 0)" using mullU64_correct(1) [of x y] by (simp add: uint_0_iff [symmetric])
  ultimately have cf: "(fst (mullU64 x y) \<noteq> 0) = (take_bit 64 ?p \<noteq> ?p)" by blast
  have z: "x * y = word_of_int ?p" "take_bit 64 ?p = take_bit 64 ?p" by simp_all
  have l: "(x * y = 0) = (take_bit 64 ?p = 0)" by (simp add: uint_0_iff [symmetric] uint_word_ariths take_bit_eq_mod)
  have m: "mullU64 x y = (fst (mullU64 x y), x * y)" using mullU64_correct(2) [of x y] by (metis prod.collapse)
  have b: "8 \<le> (64 :: nat)" "64 \<le> LENGTH(64)" by simp_all
  show ?thesis
    unfolding ACTIONS_UMULQ_def by (subst m) (use product_parts [OF b z l, of "take_bit 64 ?p \<noteq> ?p"] in
      \<open>simp only: case_prod_conv Let_def cf umul_flags_def t of_nat_numeral\<close>)
qed

lemma ACTIONS_SMULQ_flags: "ACTIONS_SMULQ x y = pack (smul_flags 64 (uint x) (uint y))"
proof -
  let ?p = "sint x * sint y"
  have z: "x * y = word_of_int ?p" "take_bit 64 ?p = take_bit 64 ?p" by simp_all
  have s: "- (2 ^ 63) \<le> sint w" "sint w < 2 ^ 63" for w :: ULong using sint_ge [of w] sint_lt [of w] by simp_all
  have "sint (x * y) = signed_take_bit 63 ?p" by (simp add: sint_word_ariths)
  then have "sint (signed_drop_bit (64 - 1) (x * y)) = - of_bool (signed_take_bit 63 ?p < 0)"
    using signed_sign [of 63 ?p] by (simp add: sint_signed_drop_bit_eq drop_bit_eq_div)
  moreover have "sint (fst (mullS64 x y)) = ?p div 2 ^ 64" by (rule mullS64_correct)
  moreover have "(fst (mullS64 x y) = signed_drop_bit (64 - 1) (x * y)) = (sint (fst (mullS64 x y)) = sint (signed_drop_bit (64 - 1) (x * y)))"
    by (simp add: word_eq_iff_signed)
  ultimately have cf: "(fst (mullS64 x y) \<noteq> signed_drop_bit (64 - 1) (x * y)) = (signed_take_bit (64 - 1) ?p \<noteq> ?p)"
    using signed_product_fits [of 64 ?p] by simp
  have l: "(x * y = 0) = (take_bit 64 ?p = 0)" unfolding z(1) by (simp only: word_of_int_eq_0_iff take_bit_eq_0_iff) simp
  have m: "mullS64 x y = (fst (mullS64 x y), x * y)" using mullS64_correct(2) [of x y] by (metis prod.collapse)
  have b: "8 \<le> (64 :: nat)" "64 \<le> LENGTH(64)" by simp_all
  show ?thesis
    unfolding ACTIONS_SMULQ_def by (subst m) (use product_parts [OF b z l, of "signed_take_bit (64 - 1) ?p \<noteq> ?p"] in
      \<open>simp only: case_prod_conv Let_def cf smul_flags_def quad_signed of_nat_numeral\<close>)
qed


section \<open>Thunks\<close>

text \<open>
  The operations after which a thunk is left, with their operands, and the thunk as the table of field usages in
  \<open>guest_amd64_defs.h\<close> prescribes it. Shifts have a count of at least one (with a count of zero no thunk is written);
  rotations, logic and the bit manipulation instructions are given by their result.
\<close>

datatype opsize = SzB | SzW | SzL | SzQ

fun bits :: "opsize \<Rightarrow> nat" where
  "bits SzB = 8" | "bits SzW = 16" | "bits SzL = 32" | "bits SzQ = 64"

fun szix :: "opsize \<Rightarrow> ULong" where
  "szix SzB = 0" | "szix SzW = 1" | "szix SzL = 2" | "szix SzQ = 3"

datatype flag_op =
    F_copy flags
  | F_add opsize ULong ULong
  | F_adc opsize ULong ULong bool
  | F_sub opsize ULong ULong
  | F_sbb opsize ULong ULong bool
  | F_logic opsize ULong
  | F_inc opsize ULong bool
  | F_dec opsize ULong bool
  | F_shl opsize ULong nat
  | F_shr opsize ULong nat
  | F_sar opsize ULong nat
  | F_rol opsize ULong flags
  | F_ror opsize ULong flags
  | F_umul opsize ULong ULong
  | F_smul opsize ULong ULong
  | F_andn bool ULong
  | F_blsi bool ULong ULong
  | F_blsmsk bool ULong ULong
  | F_blsr bool ULong ULong

fun thunk :: "flag_op \<Rightarrow> ULong \<times> ULong \<times> ULong \<times> ULong" where
  "thunk (F_copy f) = (AMD64G_CC_OP_COPY, pack f, 0, 0)"
| "thunk (F_add s x y) = (AMD64G_CC_OP_ADDB + szix s, x, y, 0)"
| "thunk (F_adc s x y c) = (AMD64G_CC_OP_ADCB + szix s, x, y XOR of_bool c, of_bool c)"
| "thunk (F_sub s x y) = (AMD64G_CC_OP_SUBB + szix s, x, y, 0)"
| "thunk (F_sbb s x y c) = (AMD64G_CC_OP_SBBB + szix s, x, y XOR of_bool c, of_bool c)"
| "thunk (F_logic s r) = (AMD64G_CC_OP_LOGICB + szix s, r, 0, 0)"
| "thunk (F_inc s x c) = (AMD64G_CC_OP_INCB + szix s, x + 1, 0, of_bool c)"
| "thunk (F_dec s x c) = (AMD64G_CC_OP_DECB + szix s, x - 1, 0, of_bool c)"
| "thunk (F_shl s x n) = (AMD64G_CC_OP_SHLB + szix s, push_bit n x, push_bit (n - 1) x, 0)"
| "thunk (F_shr s x n) = (AMD64G_CC_OP_SHRB + szix s, drop_bit n (take_bit (bits s) x), drop_bit (n - 1) (take_bit (bits s) x), 0)"
| "thunk (F_sar s x n) = (AMD64G_CC_OP_SHRB + szix s, signed_drop_bit n (signed_take_bit (bits s - 1) x),
     signed_drop_bit (n - 1) (signed_take_bit (bits s - 1) x), 0)"
| "thunk (F_rol s r f) = (AMD64G_CC_OP_ROLB + szix s, r, 0, pack f)"
| "thunk (F_ror s r f) = (AMD64G_CC_OP_RORB + szix s, r, 0, pack f)"
| "thunk (F_umul s x y) = (AMD64G_CC_OP_UMULB + szix s, x, y, 0)"
| "thunk (F_smul s x y) = (AMD64G_CC_OP_SMULB + szix s, x, y, 0)"
| "thunk (F_andn q r) = (AMD64G_CC_OP_ANDN32 + of_bool q, r, 0, 0)"
| "thunk (F_blsi q r x) = (AMD64G_CC_OP_BLSI32 + of_bool q, r, x, 0)"
| "thunk (F_blsmsk q r x) = (AMD64G_CC_OP_BLSMSK32 + of_bool q, r, x, 0)"
| "thunk (F_blsr q r x) = (AMD64G_CC_OP_BLSR32 + of_bool q, r, x, 0)"

text \<open>What the instruction set says of the flags; the flags it leaves undefined are those that the code chooses.\<close>

definition wide :: "bool \<Rightarrow> nat" where
  "wide q = (if q then 64 else 32)"

fun op_flags :: "flag_op \<Rightarrow> flags" where
  "op_flags (F_copy f) = f"
| "op_flags (F_add s x y) = add_flags (bits s) (uint x) (uint y) 0"
| "op_flags (F_adc s x y c) = add_flags (bits s) (uint x) (uint y) (of_bool c)"
| "op_flags (F_sub s x y) = sub_flags (bits s) (uint x) (uint y) 0"
| "op_flags (F_sbb s x y c) = sub_flags (bits s) (uint x) (uint y) (of_bool c)"
| "op_flags (F_logic s r) = result_flags (bits s) (uint r) False False False"
| "op_flags (F_inc s x c) = (add_flags (bits s) (uint x) 1 0)\<lparr>fC := c\<rparr>"
| "op_flags (F_dec s x c) = (sub_flags (bits s) (uint x) 1 0)\<lparr>fC := c\<rparr>"
| "op_flags (F_shl s x n) =
     (let last_out = n \<le> bits s \<and> bit x (bits s - n); top = n < bits s \<and> bit x (bits s - 1 - n)
      in result_flags (bits s) (uint (push_bit n x)) (last_out \<noteq> top) False last_out)"
| "op_flags (F_shr s x n) = result_flags (bits s) (uint (drop_bit n (take_bit (bits s) x)))
     (n = 1 \<and> bit x (bits s - 1)) False (n \<le> bits s \<and> bit x (n - 1))"
| "op_flags (F_sar s x n) = result_flags (bits s) (uint (signed_drop_bit n (signed_take_bit (bits s - 1) x)))
     False False (bit x (min (n - 1) (bits s - 1)))"
| "op_flags (F_rol s r f) = f\<lparr>fC := bit r 0, fO := (bit r (bits s - 1) \<noteq> bit r 0)\<rparr>"
| "op_flags (F_ror s r f) = f\<lparr>fC := bit r (bits s - 1), fO := (bit r (bits s - 1) \<noteq> bit r (bits s - 2))\<rparr>"
| "op_flags (F_umul s x y) = umul_flags (bits s) (uint x) (uint y)"
| "op_flags (F_smul s x y) = smul_flags (bits s) (uint x) (uint y)"
| "op_flags (F_andn q r) = (result_flags (wide q) (uint r) False False False)\<lparr>fP := False\<rparr>"
| "op_flags (F_blsi q r x) = (result_flags (wide q) (uint r) False False (take_bit (wide q) x \<noteq> 0))\<lparr>fP := False\<rparr>"
| "op_flags (F_blsmsk q r x) = (result_flags (wide q) (uint r) False False (take_bit (wide q) x = 0))\<lparr>fP := False, fZ := False\<rparr>"
| "op_flags (F_blsr q r x) = (result_flags (wide q) (uint r) False False (take_bit (wide q) x = 0))\<lparr>fP := False\<rparr>"

fun count_ok :: "flag_op \<Rightarrow> bool" where
  "count_ok (F_shl s x n) = (1 \<le> n)"
| "count_ok (F_shr s x n) = (1 \<le> n)"
| "count_ok (F_sar s x n) = (1 \<le> n)"
| "count_ok _ = True"

lemma bits_bounds: "8 \<le> bits s" "bits s \<le> LENGTH(64)" "16 \<le> LENGTH(64)" "s \<noteq> SzQ \<Longrightarrow> bits s \<le> 32"
  by (cases s; simp)+


lemma rflags_COPY: "amd64g_calculate_rflags_all_WRK AMD64G_CC_OP_COPY d1 d2 nd = Some (d1 AND (MASK_O OR MASK_S OR MASK_Z OR MASK_A OR MASK_C OR MASK_P))"
  by (simp add: amd64g_calculate_rflags_all_WRK_def)

lemma rflags_ADD: "amd64g_calculate_rflags_all_WRK (AMD64G_CC_OP_ADDB + szix s) d1 d2 nd = Some (ACTIONS_ADD (bits s) d1 d2)"
  by (cases s; simp add: amd64g_calculate_rflags_all_WRK_def)

lemma rflags_ADC: "amd64g_calculate_rflags_all_WRK (AMD64G_CC_OP_ADCB + szix s) d1 d2 nd = Some (ACTIONS_ADC (bits s) d1 d2 nd)"
  by (cases s; simp add: amd64g_calculate_rflags_all_WRK_def)

lemma rflags_SUB: "amd64g_calculate_rflags_all_WRK (AMD64G_CC_OP_SUBB + szix s) d1 d2 nd = Some (ACTIONS_SUB (bits s) d1 d2)"
  by (cases s; simp add: amd64g_calculate_rflags_all_WRK_def)

lemma rflags_SBB: "amd64g_calculate_rflags_all_WRK (AMD64G_CC_OP_SBBB + szix s) d1 d2 nd = Some (ACTIONS_SBB (bits s) d1 d2 nd)"
  by (cases s; simp add: amd64g_calculate_rflags_all_WRK_def)

lemma rflags_LOGIC: "amd64g_calculate_rflags_all_WRK (AMD64G_CC_OP_LOGICB + szix s) d1 d2 nd = Some (ACTIONS_LOGIC (bits s) d1)"
  by (cases s; simp add: amd64g_calculate_rflags_all_WRK_def)

lemma rflags_INC: "amd64g_calculate_rflags_all_WRK (AMD64G_CC_OP_INCB + szix s) d1 d2 nd = Some (ACTIONS_INC (bits s) d1 nd)"
  by (cases s; simp add: amd64g_calculate_rflags_all_WRK_def)

lemma rflags_DEC: "amd64g_calculate_rflags_all_WRK (AMD64G_CC_OP_DECB + szix s) d1 d2 nd = Some (ACTIONS_DEC (bits s) d1 nd)"
  by (cases s; simp add: amd64g_calculate_rflags_all_WRK_def)

lemma rflags_SHL: "amd64g_calculate_rflags_all_WRK (AMD64G_CC_OP_SHLB + szix s) d1 d2 nd = Some (ACTIONS_SHL (bits s) d1 d2)"
  by (cases s; simp add: amd64g_calculate_rflags_all_WRK_def)

lemma rflags_SHR: "amd64g_calculate_rflags_all_WRK (AMD64G_CC_OP_SHRB + szix s) d1 d2 nd = Some (ACTIONS_SHR (bits s) d1 d2)"
  by (cases s; simp add: amd64g_calculate_rflags_all_WRK_def)

lemma rflags_ROL: "amd64g_calculate_rflags_all_WRK (AMD64G_CC_OP_ROLB + szix s) d1 d2 nd = Some (ACTIONS_ROL (bits s) d1 nd)"
  by (cases s; simp add: amd64g_calculate_rflags_all_WRK_def)

lemma rflags_ROR: "amd64g_calculate_rflags_all_WRK (AMD64G_CC_OP_RORB + szix s) d1 d2 nd = Some (ACTIONS_ROR (bits s) d1 nd)"
  by (cases s; simp add: amd64g_calculate_rflags_all_WRK_def)

lemma rflags_UMUL: "amd64g_calculate_rflags_all_WRK (AMD64G_CC_OP_UMULB + szix s) d1 d2 nd = Some (if s = SzQ then ACTIONS_UMULQ d1 d2 else ACTIONS_UMUL (bits s) d1 d2)"
  by (cases s; simp add: amd64g_calculate_rflags_all_WRK_def)

lemma rflags_SMUL: "amd64g_calculate_rflags_all_WRK (AMD64G_CC_OP_SMULB + szix s) d1 d2 nd = Some (if s = SzQ then ACTIONS_SMULQ d1 d2 else ACTIONS_SMUL (bits s) d1 d2)"
  by (cases s; simp add: amd64g_calculate_rflags_all_WRK_def)

lemma rflags_ANDN: "amd64g_calculate_rflags_all_WRK (AMD64G_CC_OP_ANDN32 + of_bool q) d1 d2 nd = Some (ACTIONS_ANDN (wide q) d1)"
  by (cases q; simp add: amd64g_calculate_rflags_all_WRK_def wide_def)

lemma rflags_BLSI: "amd64g_calculate_rflags_all_WRK (AMD64G_CC_OP_BLSI32 + of_bool q) d1 d2 nd = Some (ACTIONS_BLSI (wide q) d1 d2)"
  by (cases q; simp add: amd64g_calculate_rflags_all_WRK_def wide_def)

lemma rflags_BLSMSK: "amd64g_calculate_rflags_all_WRK (AMD64G_CC_OP_BLSMSK32 + of_bool q) d1 d2 nd = Some (ACTIONS_BLSMSK (wide q) d1 d2)"
  by (cases q; simp add: amd64g_calculate_rflags_all_WRK_def wide_def)

lemma rflags_BLSR: "amd64g_calculate_rflags_all_WRK (AMD64G_CC_OP_BLSR32 + of_bool q) d1 d2 nd = Some (ACTIONS_BLSR (wide q) d1 d2)"
  by (cases q; simp add: amd64g_calculate_rflags_all_WRK_def wide_def)

lemmas rflags_of_op = rflags_COPY rflags_ADD rflags_ADC rflags_SUB rflags_SBB rflags_LOGIC rflags_INC rflags_DEC rflags_SHL rflags_SHR rflags_ROL rflags_ROR rflags_UMUL rflags_SMUL rflags_ANDN rflags_BLSI rflags_BLSMSK rflags_BLSR

lemma ACTIONS_BMI_flags:
  fixes r x :: ULong
  assumes b: "8 \<le> b" "b \<le> LENGTH(64)"
  shows "ACTIONS_ANDN b r = pack ((result_flags b (uint r) False False False)\<lparr>fP := False\<rparr>)"
    "ACTIONS_BLSI b r x = pack ((result_flags b (uint r) False False (take_bit b x \<noteq> 0))\<lparr>fP := False\<rparr>)"
    "ACTIONS_BLSMSK b r x = pack ((result_flags b (uint r) False False (take_bit b x = 0))\<lparr>fP := False, fZ := False\<rparr>)"
    "ACTIONS_BLSR b r x = pack ((result_flags b (uint r) False False (take_bit b x = 0))\<lparr>fP := False\<rparr>)"
proof -
  have r: "r = word_of_int (uint r)" by simp
  note parts = result_parts(2,3) [OF b r]
  show "ACTIONS_ANDN b r = pack ((result_flags b (uint r) False False False)\<lparr>fP := False\<rparr>)"
    unfolding ACTIONS_ANDN_def Let_def parts by (simp add: pack_def result_flags_def)
  show "ACTIONS_BLSI b r x = pack ((result_flags b (uint r) False False (take_bit b x \<noteq> 0))\<lparr>fP := False\<rparr>)"
    unfolding ACTIONS_BLSI_def Let_def parts by (simp add: pack_def result_flags_def)
  show "ACTIONS_BLSMSK b r x = pack ((result_flags b (uint r) False False (take_bit b x = 0))\<lparr>fP := False, fZ := False\<rparr>)"
    unfolding ACTIONS_BLSMSK_def Let_def parts by (simp add: pack_def result_flags_def)
  show "ACTIONS_BLSR b r x = pack ((result_flags b (uint r) False False (take_bit b x = 0))\<lparr>fP := False\<rparr>)"
    unfolding ACTIONS_BLSR_def Let_def parts by (simp add: pack_def result_flags_def)
qed

lemma copied_flags: "pack f AND (MASK_O OR MASK_S OR MASK_Z OR MASK_A OR MASK_C OR MASK_P) = (pack f :: ULong)"
proof (rule bit_word_eqI)
  fix n assume "n < LENGTH(64)"
  have p: "12 \<le> LENGTH(64)" by simp
  show "bit (pack f AND (MASK_O OR MASK_S OR MASK_Z OR MASK_A OR MASK_C OR MASK_P) :: ULong) n = bit (pack f :: ULong) n"
    unfolding bit_and_iff bit_or_iff mask_bit pack_bits [OF p] by auto
qed

text \<open>The bits that leave in a shift and those that become the sign.\<close>

lemma shifted_bits:
  fixes x :: ULong
  assumes "1 \<le> n" "8 \<le> b" "b \<le> 64"
  shows "bit (push_bit (n - 1) x) (b - 1) = (n \<le> b \<and> bit x (b - n))"
    "bit (push_bit n x) (b - 1) = (n < b \<and> bit x (b - 1 - n))"
    "bit (drop_bit (n - 1) (take_bit b x)) 0 = (n \<le> b \<and> bit x (n - 1))"
    "(bit (drop_bit (n - 1) (take_bit b x)) (b - 1) \<noteq> bit (drop_bit n (take_bit b x)) (b - 1)) = (n = 1 \<and> bit x (b - 1))"
    "bit (signed_drop_bit (n - 1) (signed_take_bit (b - 1) x)) 0 = bit x (min (n - 1) (b - 1))"
    "bit (signed_drop_bit (n - 1) (signed_take_bit (b - 1) x)) (b - 1) = bit (signed_drop_bit n (signed_take_bit (b - 1) x)) (b - 1)"
proof -
  obtain m where n: "n = Suc m" using assms(1) by (cases n) auto
  obtain c where b: "b = Suc c" "7 \<le> c" "c < 64" using assms(2,3) by (cases b) auto
  show "bit (push_bit n x) (b - 1) = (n < b \<and> bit x (b - 1 - n))"
    using b by (auto simp: bit_push_bit_iff simp del: push_bit_Suc)
  show "bit (push_bit (n - 1) x) (b - 1) = (n \<le> b \<and> bit x (b - n))"
    "bit (drop_bit (n - 1) (take_bit b x)) 0 = (n \<le> b \<and> bit x (n - 1))"
    using b by (auto simp: n bit_push_bit_iff bit_drop_bit_eq bit_take_bit_iff)
  show "(bit (drop_bit (n - 1) (take_bit b x)) (b - 1) \<noteq> bit (drop_bit n (take_bit b x)) (b - 1)) = (n = 1 \<and> bit x (b - 1))"
    using b by (cases m) (auto simp: n bit_drop_bit_eq bit_take_bit_iff)
  have i: "bit (signed_take_bit c x) j = bit x (min c j)" if "j < 64" for j
    using that b by (auto simp: bit_signed_take_bit_iff min_def)
  show "bit (signed_drop_bit (n - 1) (signed_take_bit (b - 1) x)) 0 = bit x (min (n - 1) (b - 1))"
    using b i [of m] i [of 63] by (auto simp: n bit_signed_drop_bit_iff min_def split: if_splits)
  have d: "bit (signed_drop_bit k (signed_take_bit c x)) c = bit x c" for k
    using b i [of "k + c"] i [of 63] by (auto simp: bit_signed_drop_bit_iff min_def split: if_splits)
  show "bit (signed_drop_bit (n - 1) (signed_take_bit (b - 1) x)) (b - 1) = bit (signed_drop_bit n (signed_take_bit (b - 1) x)) (b - 1)"
    using d [of m] d [of n] by (simp add: n b)
qed

lemma of_bool_bit0: "bit (of_bool c :: ULong) 0 = c"
  by simp

lemma umul_of_size: "(if s = SzQ then ACTIONS_UMULQ x y else ACTIONS_UMUL (bits s) x y) = pack (umul_flags (bits s) (uint x) (uint y))"
  and smul_of_size: "(if s = SzQ then ACTIONS_SMULQ x y else ACTIONS_SMUL (bits s) x y) = pack (smul_flags (bits s) (uint x) (uint y))"
  using ACTIONS_UMUL_flags [of "bits s" x y] ACTIONS_SMUL_flags [of "bits s" x y] bits_bounds(1,2,4) [of s]
  by (simp_all add: ACTIONS_UMULQ_flags ACTIONS_SMULQ_flags)

lemma wide_bounds: "8 \<le> wide q" "wide q \<le> LENGTH(64)"
  by (simp_all add: wide_def)

lemmas macro_flags = ACTIONS_ADD_flags [OF bits_bounds(1-3)] ACTIONS_ADC_flags [OF bits_bounds(1-3)] ACTIONS_SUB_flags [OF bits_bounds(1-3)]
  ACTIONS_SBB_flags [OF bits_bounds(1-3)] ACTIONS_LOGIC_flags [OF bits_bounds(1,2)] ACTIONS_INC_flags [OF bits_bounds(1-3)]
  ACTIONS_DEC_flags [OF bits_bounds(1-3)] ACTIONS_SHL_flags [OF bits_bounds(1-3)] ACTIONS_SHR_flags [OF bits_bounds(1-3)]
  ACTIONS_ROL_flags [OF bits_bounds(1-3)] ACTIONS_ROR_flags [OF bits_bounds(1-3)] umul_of_size smul_of_size ACTIONS_BMI_flags [OF wide_bounds]

lemmas thunk_simps = thunk.simps case_prod_conv amd64g_calculate_rflags_all_def rflags_of_op macro_flags op_flags.simps Let_def

section \<open>Properties\<close>

text \<open>C29: For every kind of thunk the flags are those that the instruction set defines for the operation that left it: carry and
  overflow of sums, differences and products at the width of the operands, with the carry in; what leaves a shift; and what a
  rotation or an increment keeps.\<close>

theorem thunk_flags:
  assumes "count_ok i"
  shows "(case thunk i of (cc_op, dep1, dep2, ndep) \<Rightarrow> amd64g_calculate_rflags_all cc_op dep1 dep2 ndep) = Some (pack (op_flags i))"
proof -
  have shifts: ?thesis if "i = F_shl s x n \<or> i = F_shr s x n \<or> i = F_sar s x n" for s x n
  proof -
    have n: "1 \<le> n" using that assms by auto
    have b: "8 \<le> bits s" "bits s \<le> 64" using bits_bounds(1,2) [of s] by simp_all
    show ?thesis using that by (elim disjE) (simp_all only: thunk_simps shifted_bits [OF n b] refl not_True_eq_False)
  qed
  show ?thesis
  proof (cases i)
    case (F_shl s x n) then show ?thesis using shifts by blast
  next
    case (F_shr s x n) then show ?thesis using shifts by blast
  next
    case (F_sar s x n) then show ?thesis using shifts by blast
  qed (simp_all only: thunk_simps copied_flags of_bool_bit0 if_False)
qed

lemma parity_example: "even_parity 0x182"
  by (simp only: even_parity_def card_bits8) simp

theorem thunk_flags_witness:
  "(case thunk (F_shl SzB 0xC1 1) of (cc_op, dep1, dep2, ndep) \<Rightarrow> amd64g_calculate_rflags_all cc_op dep1 dep2 ndep)
     = Some (pack \<lparr>fO = False, fS = True, fZ = False, fA = False, fP = True, fC = True\<rparr>)"
proof -
  have "op_flags (F_shl SzB 0xC1 1) = \<lparr>fO = False, fS = True, fZ = False, fA = False, fP = True, fC = True\<rparr>"
    using parity_example by (simp add: Let_def result_flags_def)
  then show ?thesis using thunk_flags [of "F_shl SzB 0xC1 1"] by simp
qed

end
