(* ===== verification/AMD64_Cond.thy ===== *)
theory AMD64_Cond
  imports AMD64_Flags_Props
begin

text \<open>
  Conditions of the amd64 guest: which flags each condition tests, what it says after a comparison, and that the flags
  register of the guest state can be read back.
\<close>

section \<open>Conditions\<close>

text \<open>The sixteen conditions come in pairs: an even one tests flags, the odd one after it is its negation.\<close>

definition cond_tests :: "nat \<Rightarrow> flags \<Rightarrow> bool" where
  "cond_tests k f =
     (if k = 0 then fO f
      else if k = 1 then fC f
      else if k = 2 then fZ f
      else if k = 3 then fC f \<or> fZ f
      else if k = 4 then fS f
      else if k = 5 then fP f
      else if k = 6 then fS f \<noteq> fO f
      else (fS f \<noteq> fO f) \<or> fZ f)"

definition cond_holds :: "ULong \<Rightarrow> flags \<Rightarrow> bool" where
  "cond_holds cond f = (cond_tests (unat cond div 2) f \<noteq> odd (unat cond))"

lemma low_bit: "1 AND x = of_bool (bit x 0)" for x :: ULong
  using mask_C [of x] by (simp add: and.commute)

lemma cond_cases: "cond = 0 \<or> cond = 1 \<or> cond = 2 \<or> cond = 3 \<or> cond = 4 \<or> cond = 5 \<or> cond = 6 \<or> cond = 7 \<or> cond = 8 \<or> cond = 9
    \<or> cond = 10 \<or> cond = 11 \<or> cond = 12 \<or> cond = 13 \<or> cond = 14 \<or> cond = 15" if "cond < 16" for cond :: ULong
proof -
  have c: "cond = of_nat (unat cond)" by simp
  have "unat cond < 16" using that by (simp add: word_less_nat_alt)
  then have "unat cond = 0 \<or> unat cond = 1 \<or> unat cond = 2 \<or> unat cond = 3 \<or> unat cond = 4 \<or> unat cond = 5 \<or> unat cond = 6 \<or> unat cond = 7
    \<or> unat cond = 8 \<or> unat cond = 9 \<or> unat cond = 10 \<or> unat cond = 11 \<or> unat cond = 12 \<or> unat cond = 13 \<or> unat cond = 14 \<or> unat cond = 15"
    by presburger
  then show ?thesis by (elim disjE) (subst c, simp)+
qed

lemma condition_of_flags:
  assumes "amd64g_calculate_rflags_all_WRK cc_op d1 d2 nd = Some (pack f)" "cond < 16"
  shows "amd64g_calculate_condition cond cc_op d1 d2 nd = Some (of_bool (cond_holds cond f))"
proof -
  have p: "12 \<le> LENGTH(64)" by simp
  have "bit (pack f :: ULong) 11 = fO f" "bit (pack f :: ULong) 7 = fS f" "bit (pack f :: ULong) 6 = fZ f" "bit (pack f :: ULong) 2 = fP f"
    "bit (pack f :: ULong) 0 = fC f"
    by (simp_all add: pack_bits [OF p])
  then show ?thesis
    using cond_cases [OF assms(2)]
    by (elim disjE)
      (simp_all add: amd64g_calculate_condition_def assms(1) Let_def low_bit cond_holds_def bit_xor_iff bit_or_iff bit_and_iff bit_drop_bit_eq cond_tests_def)
qed


section \<open>Comparisons\<close>

text \<open>What a condition says after the comparison of \<open>x\<close> with \<open>y\<close>, from the low \<open>b\<close> bits of both, read without sign (\<open>B\<close>,
  \<open>BE\<close>) or with sign (\<open>L\<close>, \<open>LE\<close>).\<close>

definition compares :: "nat \<Rightarrow> int \<Rightarrow> int \<Rightarrow> nat \<Rightarrow> bool" where
  "compares b x y k =
     (let sx = signed_take_bit (b - 1) x; sy = signed_take_bit (b - 1) y in
      if k = 0 then \<not> (- (2 ^ (b - 1)) \<le> sx - sy \<and> sx - sy < 2 ^ (b - 1))
      else if k = 1 then take_bit b x < take_bit b y
      else if k = 2 then take_bit b x = take_bit b y
      else if k = 3 then take_bit b x \<le> take_bit b y
      else if k = 4 then signed_take_bit (b - 1) (x - y) < 0
      else if k = 5 then even_parity (x - y)
      else if k = 6 then sx < sy
      else sx \<le> sy)"

lemma sub_signed_less:
  fixes x y :: int
  shows "(fS (sub_flags b x y 0) \<noteq> fO (sub_flags b x y 0)) = (signed_take_bit (b - 1) x < signed_take_bit (b - 1) y)"
proof -
  let ?n = "b - 1"
  have "fS (sub_flags b x y 0) = bit (x - y) ?n" by (simp add: sub_flags_def)
  moreover have "fO (sub_flags b x y 0) = (bit x ?n \<noteq> bit y ?n \<and> bit x ?n \<noteq> bit (x - y) ?n)"
    using sub_overflow [where k = 0 and n = ?n and x = x and y = y] by (simp add: sub_flags_def)
  moreover have "bit (x - y) ?n = ((bit x ?n \<noteq> bit y ?n) \<noteq> (take_bit ?n x - take_bit ?n y < 0))"
    using sub_exact(2) [where k = 0 and n = ?n and x = x and y = y] by simp
  moreover have "take_bit ?n x < 2 ^ ?n" "take_bit ?n y < 2 ^ ?n" "0 \<le> take_bit ?n x" "0 \<le> take_bit ?n y" by simp_all
  then have "take_bit ?n x - 2 ^ ?n < take_bit ?n y" "\<not> take_bit ?n x < take_bit ?n y - 2 ^ ?n" by linarith+
  ultimately show ?thesis
    by (cases "bit x ?n"; cases "bit y ?n") (simp_all add: signed_take_bit_split)
qed

lemma sub_zero: "fZ (sub_flags b x y 0) = (take_bit b x = take_bit b y)"
proof -
  have "(take_bit b (x - y) = 0) = (take_bit b x = take_bit b y)"
    by (simp add: take_bit_eq_mod mod_eq_dvd_iff mod_eq_0_iff_dvd)
  then show ?thesis by (simp add: sub_flags_def)
qed

lemma signed_equal: "(take_bit b x = take_bit b y) = (signed_take_bit (b - 1) x = signed_take_bit (b - 1) y)" if "1 \<le> b" for x y :: int
  using signed_take_bit_eq_iff_take_bit_eq [of "b - 1" x y] that by simp

lemma sub_compares:
  assumes "1 \<le> b"
  shows "cond_tests k (sub_flags b x y 0) = compares b x y k"
proof -
  have c: "fC (sub_flags b x y 0) = (take_bit b x < take_bit b y)" using sub_borrow_out(1) [of b x y] by (simp add: sub_flags_def)
  have "signed_take_bit (b - 1) (x - y) = signed_take_bit (b - 1) (signed_take_bit (b - 1) x - signed_take_bit (b - 1) y)"
    by (simp add: signed_take_bit_diff)
  then have o: "fO (sub_flags b x y 0) = (\<not> (- (2 ^ (b - 1)) \<le> signed_take_bit (b - 1) x - signed_take_bit (b - 1) y
      \<and> signed_take_bit (b - 1) x - signed_take_bit (b - 1) y < 2 ^ (b - 1)))"
    by (simp add: sub_flags_def signed_take_bit_int_eq_self_iff)
  have s: "fS (sub_flags b x y 0) = (signed_take_bit (b - 1) (x - y) < 0)" "fP (sub_flags b x y 0) = even_parity (x - y)"
    by (simp_all only: sub_flags_def flags.simps diff_0_right)
  have le: "(signed_take_bit (b - 1) x < signed_take_bit (b - 1) y \<or> take_bit b x = take_bit b y)
      = (signed_take_bit (b - 1) x \<le> signed_take_bit (b - 1) y)" unfolding signed_equal [OF assms] by linarith
  have be: "(take_bit b x < take_bit b y \<or> take_bit b x = take_bit b y) = (take_bit b x \<le> take_bit b y)" by linarith
  show ?thesis
    unfolding cond_tests_def sub_signed_less sub_zero c be le
    unfolding compares_def Let_def s o ..
qed

text \<open>C30: After a comparison each of the sixteen conditions says of the operands, at their width, what its name promises.\<close>

theorem conditions_after_compare:
  assumes "cond < 16"
  shows "amd64g_calculate_condition cond (AMD64G_CC_OP_SUBB + szix s) x y nd
    = Some (of_bool (compares (bits s) (uint x) (uint y) (unat cond div 2) \<noteq> odd (unat cond)))"
proof -
  have "amd64g_calculate_rflags_all_WRK (AMD64G_CC_OP_SUBB + szix s) x y nd = Some (pack (sub_flags (bits s) (uint x) (uint y) 0))"
    by (simp only: rflags_of_op macro_flags)
  from condition_of_flags [OF this assms] show ?thesis
    using sub_compares [of "bits s"] bits_bounds(1) [of s] by (simp add: cond_holds_def)
qed

theorem conditions_after_compare_witness:
  "amd64g_calculate_condition AMD64CondL AMD64G_CC_OP_SUBB 0xFF 0x100000001 0 = Some 1
   \<and> amd64g_calculate_condition AMD64CondB AMD64G_CC_OP_SUBB 0xFF 0x100000001 0 = Some 0"
  using conditions_after_compare [of AMD64CondL SzB "0xFF" "0x100000001" 0] conditions_after_compare [of AMD64CondB SzB "0xFF" "0x100000001" 0]
  by (simp add: compares_def signed_take_bit_eq_if_positive)


section \<open>The flags register of the guest\<close>

abbreviation MASK_D :: ULong where "MASK_D \<equiv> push_bit 10 1"
abbreviation MASK_AC :: ULong where "MASK_AC \<equiv> push_bit 18 1"
abbreviation MASK_ID :: ULong where "MASK_ID \<equiv> push_bit 21 1"
abbreviation OSZACP :: ULong where "OSZACP \<equiv> MASK_O OR MASK_S OR MASK_Z OR MASK_A OR MASK_C OR MASK_P"

lemma mask_test: "(x AND push_bit k 1 \<noteq> 0) = bit x k" for x :: ULong
  unfolding and_pow by (cases "bit x k") (auto dest: bit_imp_le_length simp: push_bit_of_1)

lemma get_of_copy:
  assumes "guest_CC_OP st = AMD64G_CC_OP_COPY" "guest_DFLAG st = (if d then - 1 else 1)"
    "guest_IDFLAG st = of_bool i" "guest_ACFLAG st = of_bool a"
  shows "LibVEX_GuestAMD64_get_rflags st = Some ((guest_CC_DEP1 st AND OSZACP)
    OR push_bit 10 (of_bool d) OR push_bit 21 (of_bool i) OR push_bit 18 (of_bool a))"
  unfolding LibVEX_GuestAMD64_get_rflags_def assms rflags_of_op(1)
  by (cases d; cases i; cases a) (simp_all add: Let_def or.assoc)

lemma cleared: "(fl AND NOT (push_bit k 1)) AND m = fl AND m" if "\<not> bit m k" for fl m :: ULong
  using that by (intro bit_word_eqI) (auto simp: bit_and_iff bit_not_iff bit_exp_iff)

lemma cleared_flags:
  fixes x :: ULong
  shows "bit (x AND NOT MASK_D) 21 = bit x 21" "bit (x AND NOT MASK_D) 18 = bit x 18" "bit (x AND NOT MASK_ID) 18 = bit x 18"
    "(x AND NOT MASK_D) AND OSZACP = x AND OSZACP" "(x AND NOT MASK_ID) AND OSZACP = x AND OSZACP" "(x AND NOT MASK_AC) AND OSZACP = x AND OSZACP"
proof -
  show "bit (x AND NOT MASK_D) 21 = bit x 21" "bit (x AND NOT MASK_D) 18 = bit x 18" "bit (x AND NOT MASK_ID) 18 = bit x 18"
    unfolding bit_and_iff bit_not_iff mask_bit by (auto dest: bit_imp_le_length)
  show "(x AND NOT MASK_D) AND OSZACP = x AND OSZACP" "(x AND NOT MASK_ID) AND OSZACP = x AND OSZACP" "(x AND NOT MASK_AC) AND OSZACP = x AND OSZACP"
    by (rule cleared; simp only: bit_or_iff mask_bit; simp)+
qed

text \<open>C31: The flags register that is written into the guest state is read back, as far as its bits are modelled.\<close>

theorem rflags_roundtrip:
  "LibVEX_GuestAMD64_get_rflags (LibVEX_GuestAMD64_put_rflags fl st) = Some (fl AND (OSZACP OR MASK_D OR MASK_ID OR MASK_AC))"
proof -
  let ?st = "LibVEX_GuestAMD64_put_rflags fl st"
  have st: "guest_CC_OP ?st = AMD64G_CC_OP_COPY \<and> guest_DFLAG ?st = (if bit fl 10 then - 1 else 1) \<and> guest_IDFLAG ?st = of_bool (bit fl 21)
    \<and> guest_ACFLAG ?st = of_bool (bit fl 18) \<and> guest_CC_DEP1 ?st = fl AND OSZACP"
    unfolding LibVEX_GuestAMD64_put_rflags_def Let_def
    by (cases "bit fl 10"; cases "bit fl 21"; cases "bit fl 18")
      (simp_all only: mask_test if_True if_False case_prod_conv cleared_flags of_bool_eq, simp_all)
  then have "guest_CC_DEP1 ?st AND OSZACP = fl AND OSZACP" by (simp only: and.assoc and.idem)
  with st have "LibVEX_GuestAMD64_get_rflags ?st = Some ((fl AND OSZACP) OR (fl AND MASK_D) OR (fl AND MASK_ID) OR (fl AND MASK_AC))"
    by (simp only: get_of_copy and_pow)
  then show ?thesis by (simp only: bit.conj_disj_distrib or.assoc)
qed

theorem rflags_roundtrip_carry:
  assumes "amd64g_calculate_rflags_all_WRK (guest_CC_OP st) (guest_CC_DEP1 st) (guest_CC_DEP2 st) (guest_CC_NDEP st) = Some (pack f)"
  shows "\<exists>st'. LibVEX_GuestAMD64_put_rflag_c c st = Some st'
    \<and> amd64g_calculate_rflags_all_WRK (guest_CC_OP st') (guest_CC_DEP1 st') (guest_CC_DEP2 st') (guest_CC_NDEP st') = Some (pack (f\<lparr>fC := odd c\<rparr>))"
proof -
  have p: "12 \<le> LENGTH(64)" by simp
  have "(c AND 1 \<noteq> 0) = odd c" using mask_test [of c 0] by (simp add: bit_0)
  moreover have "pack f OR MASK_C = (pack (f\<lparr>fC := True\<rparr>) :: ULong)" "pack f AND NOT MASK_C = (pack (f\<lparr>fC := False\<rparr>) :: ULong)"
    by (rule bit_word_eqI; unfold bit_or_iff bit_and_iff bit_not_iff mask_bit pack_bits [OF p]; auto)+
  ultimately have "(if c AND 1 \<noteq> 0 then pack f OR MASK_C else pack f AND NOT MASK_C) = (pack (f\<lparr>fC := odd c\<rparr>) :: ULong)" by simp
  moreover have "amd64g_calculate_rflags_all_WRK 0 (pack g) 0 0 = Some (pack g)" for g
    using rflags_of_op(1) [of "pack g" 0 0] by (simp only: AMD64G_CC_OP_COPY_def copied_flags)
  ultimately show ?thesis by (simp add: LibVEX_GuestAMD64_put_rflag_c_def assms Let_def)
qed

end
