(* ===== verification/CacheConf.thy ===== *)
theory CacheConf
  imports CString "HOL-Library.Signed_Division"
begin

text \<open>
  The configuration of Cachegrind's simulated caches, \<open>cachegrind/cg_arch.c\<close>: the checks, the
  command line options, and the adjustment of the last-level cache.

  \<open>Int\<close> is \<^typ>\<open>int\<close> with its range checked: a signed overflow or a division by zero is \<open>None\<close>.
  The numbers \<open>maybe_tweak_LLc\<close> computes in \<open>Double\<close> are quotients by a power of two of integers
  far below \<open>2 ^ 53\<close> unless a product has wrapped before; the model computes them exactly. Messages
  are left out; an invalid option ends the program, which is the value \<open>Inl\<close> of the message.
\<close>

section \<open>Signed arithmetic\<close>

definition int32 :: "int \<Rightarrow> int option" where
  "int32 x = (if - (2 ^ 31) \<le> x \<and> x < 2 ^ 31 then Some x else None)"

definition int_div :: "int \<Rightarrow> int \<Rightarrow> int option" where
  "int_div a b = (if b = 0 then None else int32 (a sdiv b))"

definition int_mod :: "int \<Rightarrow> int \<Rightarrow> int option" where
  "int_mod a b = (if b = 0 then None else do { _ \<leftarrow> int32 (a sdiv b); Some (a smod b) })"

section \<open>Checks\<close>

record cache_t =
  csize :: int
  assoc :: int
  line_size :: int

definition MIN_LINE_SIZE :: int where
  "MIN_LINE_SIZE = 16"

text \<open>\<open>Some None\<close> is the null pointer: the configuration is accepted.\<close>

definition check_cache :: "'a cache_t_scheme \<Rightarrow> string option option" where
  "check_cache cache =
     do { la \<leftarrow> int32 (line_size cache * assoc cache);
          r \<leftarrow> int_mod (csize cache) la;
          bad \<leftarrow> (if r \<noteq> 0 then Some True
                  else do { q \<leftarrow> int_div (csize cache) (line_size cache);
                            q \<leftarrow> int_div q (assoc cache);
                            Some (vg_log2 (word_of_int q) = -1) });
          if bad then Some (Some ''Cache set count is not a power of two.'')
          else if vg_log2 (word_of_int (line_size cache)) = -1
          then Some (Some ''Cache line size is not a power of two.'')
          else if line_size cache < MIN_LINE_SIZE then Some (Some ''Cache line size is too small.'')
          else if csize cache \<le> line_size cache then Some (Some ''Cache size <= line size.'')
          else do { q \<leftarrow> int_div (csize cache) (line_size cache);
                    if assoc cache > q then Some (Some ''Cache associativity > (size / line size).'')
                    else Some None } }"

section \<open>Options\<close>

text \<open>The result of \<open>strtoll10\<close> is a \<open>Long\<close>: the signed reading of the 64 bits.\<close>

definition parse_cache_opt :: "string \<Rightarrow> (string + cache_t) option" where
  "parse_cache_opt optval =
     do { (i1, endptr) \<leftarrow> strtoll10 optval;
          if hd endptr \<noteq> CHR '','' then Some (Inl ''Bad argument'')
          else
     do { (i2, endptr) \<leftarrow> strtoll10 (tl endptr);
          if hd endptr \<noteq> CHR '','' then Some (Inl ''Bad argument'')
          else
     do { (i3, endptr) \<leftarrow> strtoll10 (tl endptr);
          if hd endptr \<noteq> NUL then Some (Inl ''Bad argument'')
          else
            let cache = \<lparr>csize = signed_take_bit 31 (sint i1), assoc = signed_take_bit 31 (sint i2),
                         line_size = signed_take_bit 31 (sint i3)\<rparr> in
            if csize cache \<noteq> sint i1 \<or> assoc cache \<noteq> sint i2 \<or> line_size cache \<noteq> sint i3
            then Some (Inl ''One of the cache parameters was too large and overflowed.'')
            else do { checkRes \<leftarrow> check_cache cache;
                      Some (if checkRes = None then Inr cache else Inl ''Bad argument'') } } } }"

record clo_caches =
  clo_I1c :: cache_t
  clo_D1c :: cache_t
  clo_LLc :: cache_t

text \<open>\<open>VG_STR_CLO(arg, option, var)\<close>: the text behind \<open>option=\<close>.\<close>

definition STR_CLO :: "string \<Rightarrow> string \<Rightarrow> string option option" where
  "STR_CLO arg option =
     do { r \<leftarrow> strncmp arg (option @ ''='' @ [NUL]) (length option + 1);
          Some (if r = 0 then Some (drop (length option + 1) arg) else None) }"

definition set_clo :: "string \<Rightarrow> (cache_t \<Rightarrow> clo_caches) \<Rightarrow> (string + clo_caches \<times> bool) option" where
  "set_clo optval upd =
     do { r \<leftarrow> parse_cache_opt optval;
          Some (case r of Inl m \<Rightarrow> Inl m | Inr c \<Rightarrow> Inr (upd c, True)) }"

definition str_clo_cache_opt :: "string \<Rightarrow> clo_caches \<Rightarrow> (string + clo_caches \<times> bool) option" where
  "str_clo_cache_opt arg clo =
     do { i1 \<leftarrow> STR_CLO arg ''--I1'';
          (case i1 of
             Some s \<Rightarrow> set_clo s (\<lambda>c. clo\<lparr>clo_I1c := c\<rparr>)
           | None \<Rightarrow>
     do { d1 \<leftarrow> STR_CLO arg ''--D1'';
          (case d1 of
             Some s \<Rightarrow> set_clo s (\<lambda>c. clo\<lparr>clo_D1c := c\<rparr>)
           | None \<Rightarrow>
     do { l2 \<leftarrow> STR_CLO arg ''--L2'';
          ll \<leftarrow> (if l2 \<noteq> None then Some l2 else STR_CLO arg ''--LL'');
          (case ll of
             Some s \<Rightarrow> set_clo s (\<lambda>c. clo\<lparr>clo_LLc := c\<rparr>)
           | None \<Rightarrow> Some (Inr (clo, False))) }) }) }"

section \<open>The last-level cache\<close>

definition floor_power_of_2 :: "UInt \<Rightarrow> UInt" where
  "floor_power_of_2 x =
     (let x = x OR drop_bit 1 x;
          x = x OR drop_bit 2 x;
          x = x OR drop_bit 4 x;
          x = x OR drop_bit 8 x;
          x = x OR drop_bit 16 x
      in x - drop_bit 1 x)"

text \<open>\<open>(UInt)(0.5 + (Double)n / (Double)m * (Double)a)\<close>: the integer part of that number.\<close>

definition scale :: "UInt \<Rightarrow> UInt \<Rightarrow> UInt \<Rightarrow> UInt option" where
  "scale n m a =
     (let x = (2 * unat n * unat a + unat m) div (2 * unat m) in
      if x < 2 ^ 32 then Some (of_nat x) else None)"

text \<open>The new size and associativity are assigned to \<open>Int\<close>s.\<close>

definition maybe_tweak_LLc :: "cache_t \<Rightarrow> cache_t option" where
  "maybe_tweak_LLc LLc =
     (if csize LLc = 0 \<or> assoc LLc = 0 \<or> line_size LLc = 0 then Some LLc
      else
        do { vg_assert (csize LLc > 0 \<and> assoc LLc > 0 \<and> line_size LLc > 0);
             let old_size = word_of_int (csize LLc) :: UInt;
                 old_assoc = word_of_int (assoc LLc) :: UInt;
                 old_line_size = word_of_int (line_size LLc) :: UInt in
             do { vg_assert (old_assoc * old_line_size \<noteq> 0);
                  let old_nSets = old_size div (old_assoc * old_line_size) in
                  if old_nSets = 0 then Some LLc
                  else
                    do { (new_size, new_assoc) \<leftarrow>
                           (if vg_log2_64 (ucast old_nSets) \<noteq> -1
                            then Some (old_line_size * old_assoc * old_nSets, old_assoc)
                            else
                              let new_nSets = floor_power_of_2 old_nSets in
                              do { vg_assert (new_nSets > 0 \<and> new_nSets < old_nSets);
                                   new_assoc \<leftarrow> scale old_nSets new_nSets old_assoc;
                                   vg_assert (new_assoc \<ge> old_assoc);
                                   Some (old_line_size * new_assoc * new_nSets, new_assoc) });
                         if new_size = old_size \<and> new_assoc = old_assoc then Some LLc
                         else Some \<lparr>csize = sint new_size, assoc = sint new_assoc,
                                    line_size = sint old_line_size\<rparr> } } })"

section \<open>The whole configuration\<close>

text \<open>What the machine reports of its caches, in \<open>VexCacheInfo\<close>.\<close>

datatype VexCacheKind = INSN_CACHE | DATA_CACHE | UNIFIED_CACHE

record VexCache =
  kind :: VexCacheKind
  level :: UInt
  vsizeB :: UInt
  line_sizeB :: UInt
  vassoc :: UInt
  is_trace_cache :: bool

record VexCacheInfo =
  num_levels :: UInt
  caches :: "VexCache list"

definition locate_cache :: "VexCacheInfo \<Rightarrow> VexCacheKind \<Rightarrow> UInt \<Rightarrow> VexCache option" where
  "locate_cache ci k l = List.find (\<lambda>c. level c = l \<and> kind c = k) (caches ci)"

definition cache_of :: "UInt \<Rightarrow> UInt \<Rightarrow> UInt \<Rightarrow> cache_t" where
  "cache_of s a l = \<lparr>csize = sint s, assoc = sint a, line_size = sint l\<rparr>"

text \<open>The defaults are those of amd64.\<close>

definition configure_caches :: "VexCacheInfo \<Rightarrow> cache_t \<times> cache_t \<times> cache_t" where
  "configure_caches ci =
     (case (locate_cache ci INSN_CACHE 1, locate_cache ci DATA_CACHE 1,
            locate_cache ci UNIFIED_CACHE (num_levels ci)) of
        (Some i1, Some d1, Some ll) \<Rightarrow>
          ((if is_trace_cache i1
            then cache_of (if vsizeB i1 = 12 * 1024 \<or> vsizeB i1 = 16 * 1024 then 16 * 1024 else 32 * 1024)
                   (vassoc i1) 32
            else cache_of (vsizeB i1) (vassoc i1) (line_sizeB i1)),
           cache_of (vsizeB d1) (vassoc d1) (line_sizeB d1),
           cache_of (vsizeB ll) (vassoc ll) (line_sizeB ll))
      | _ \<Rightarrow> (cache_of 65536 2 64, cache_of 65536 2 64, cache_of 262144 8 64))"

definition check_cache_or_override :: "cache_t \<Rightarrow> bool \<Rightarrow> unit option" where
  "check_cache_or_override c clo_redefined =
     do { checkRes \<leftarrow> check_cache c; vg_assert (checkRes = None \<or> clo_redefined) }"

definition cache_DEFINED :: "cache_t \<Rightarrow> bool" where
  "cache_DEFINED L = (csize L \<noteq> -1 \<or> assoc L \<noteq> -1 \<or> line_size L \<noteq> -1)"

definition post_clo_init_configure_caches :: "VexCacheInfo \<Rightarrow> clo_caches \<Rightarrow> (cache_t \<times> cache_t \<times> cache_t) option" where
  "post_clo_init_configure_caches ci clo =
     (case configure_caches ci of (I1c, D1c, LLc) \<Rightarrow>
      do { LLc \<leftarrow> maybe_tweak_LLc LLc;
           check_cache_or_override I1c (cache_DEFINED (clo_I1c clo));
           check_cache_or_override D1c (cache_DEFINED (clo_D1c clo));
           check_cache_or_override LLc (cache_DEFINED (clo_LLc clo));
           Some (if cache_DEFINED (clo_I1c clo) then clo_I1c clo else I1c,
                 if cache_DEFINED (clo_D1c clo) then clo_D1c clo else D1c,
                 if cache_DEFINED (clo_LLc clo) then clo_LLc clo else LLc) })"

section \<open>Powers of two\<close>

lemma log2_iff: "vg_log2 w \<noteq> -1 \<longleftrightarrow> (\<exists>j < 32. w = 2 ^ j)"
proof
  assume "vg_log2 w \<noteq> -1"
  then obtain j where "List.find (\<lambda>i. push_bit i 1 = w) [0..<32] = Some j"
    by (auto simp: vg_log2_def split: option.splits)
  from find_SomeD [OF this] show "\<exists>j < 32. w = 2 ^ j" by (auto simp: push_bit_eq_mult)
next
  assume "\<exists>j < 32. w = 2 ^ j"
  then obtain j where "j < 32" "w = 2 ^ j" by blast
  then show "vg_log2 w \<noteq> -1"
    using find_NoneD [of "\<lambda>i. push_bit i 1 = w" "[0..<32]" j]
    by (auto simp: vg_log2_def push_bit_eq_mult split: option.splits)
qed

lemma log2_64_iff: "vg_log2_64 w \<noteq> -1 \<longleftrightarrow> (\<exists>j < 64. w = 2 ^ j)"
proof
  assume "vg_log2_64 w \<noteq> -1"
  then obtain j where "List.find (\<lambda>i. push_bit i 1 = w) [0..<64] = Some j"
    by (auto simp: vg_log2_64_def split: option.splits)
  from find_SomeD [OF this] show "\<exists>j < 64. w = 2 ^ j" by (auto simp: push_bit_eq_mult)
next
  assume "\<exists>j < 64. w = 2 ^ j"
  then obtain j where "j < 64" "w = 2 ^ j" by blast
  then show "vg_log2_64 w \<noteq> -1"
    using find_NoneD [of "\<lambda>i. push_bit i 1 = w" "[0..<64]" j]
    by (auto simp: vg_log2_64_def push_bit_eq_mult split: option.splits)
qed

lemma unat_of_nat32: "n < 2 ^ 32 \<Longrightarrow> unat (of_nat n :: UInt) = n"
  by (simp add: unat_of_nat take_bit_nat_eq_self)

lemma unat_exp:
  assumes "j < 32"
  shows "unat (2 ^ j :: UInt) = 2 ^ j"
proof -
  have "(2 :: nat) ^ j < 2 ^ 32" using assms by (rule power_strict_increasing) simp
  then show ?thesis using unat_of_nat32 [of "2 ^ j"] by (simp only: of_nat_power of_nat_numeral)
qed

lemma word_of_int_eq32:
  "0 \<le> x \<Longrightarrow> x < 2 ^ 32 \<Longrightarrow> 0 \<le> y \<Longrightarrow> y < 2 ^ 32 \<Longrightarrow> (word_of_int x :: UInt) = word_of_int y \<longleftrightarrow> x = y"
  by (simp add: word_of_int_eq_iff take_bit_int_eq_self)

lemma log2_value: "vg_log2 w \<noteq> -1 \<Longrightarrow> \<exists>i < 32. w = 2 ^ i \<and> vg_log2 w = int i"
proof -
  assume "vg_log2 w \<noteq> -1"
  then obtain i where i: "List.find (\<lambda>i. push_bit i 1 = w) [0..<32] = Some i" "vg_log2 w = int i"
    by (auto simp: vg_log2_def split: option.splits)
  then show ?thesis using find_SomeD [OF i(1)] by (auto simp: push_bit_eq_mult)
qed

lemma log2_exp: "j < 32 \<Longrightarrow> vg_log2 (2 ^ j) = int j"
proof -
  assume j: "j < 32"
  then have "vg_log2 (2 ^ j) \<noteq> -1" unfolding log2_iff by blast
  from log2_value [OF this] obtain i where i: "i < 32" "(2 :: UInt) ^ j = 2 ^ i" "vg_log2 (2 ^ j) = int i" by blast
  then have "(2 :: nat) ^ i = 2 ^ j" using j unat_exp [of i] unat_exp [of j] by simp
  then show ?thesis using i(3) by simp
qed

lemma log2_int: "0 < x \<Longrightarrow> x < 2 ^ 32 \<Longrightarrow> vg_log2 (word_of_int x) \<noteq> -1 \<longleftrightarrow> (\<exists>j. x = 2 ^ j)"
proof -
  assume x: "0 < x" "x < 2 ^ 32"
  have "(word_of_int x :: UInt) = 2 ^ j \<longleftrightarrow> x = 2 ^ j" if "j < 32" for j
  proof -
    have "(2 :: int) ^ j < 2 ^ 32" using that by (rule power_strict_increasing) simp
    then show ?thesis using x word_of_int_eq32 [of x "2 ^ j"] by (simp only: of_int_power of_int_numeral) simp
  qed
  moreover have "j < 32" if "x = 2 ^ j" for j
  proof (rule ccontr)
    assume "\<not> j < 32"
    then have "(2 :: int) ^ 32 \<le> 2 ^ j" by (intro power_increasing) simp_all
    then show False using x(2) that by simp
  qed
  ultimately show ?thesis unfolding log2_iff by blast
qed

section \<open>What the check accepts\<close>

text \<open>A power of two of sets of \<open>assoc\<close> lines, the lines a power of two and at least 16 bytes.\<close>

definition cache_geometry :: "'a cache_t_scheme \<Rightarrow> nat \<Rightarrow> nat \<Rightarrow> bool" where
  "cache_geometry c k j \<longleftrightarrow> 4 \<le> k \<and> line_size c = 2 ^ k \<and> 1 \<le> assoc c
     \<and> csize c = 2 ^ j * assoc c * line_size c \<and> line_size c < csize c \<and> csize c < 2 ^ 31"

definition int_fields :: "'a cache_t_scheme \<Rightarrow> bool" where
  "int_fields c \<longleftrightarrow> int32 (csize c) \<noteq> None \<and> int32 (assoc c) \<noteq> None \<and> int32 (line_size c) \<noteq> None"

lemma int32_Some: "int32 x = Some y \<longleftrightarrow> y = x \<and> - (2 ^ 31) \<le> x \<and> x < 2 ^ 31"
  by (auto simp: int32_def)

lemma sdiv_pos: "0 \<le> a \<Longrightarrow> 0 < b \<Longrightarrow> a sdiv b = a div (b :: int)"
  by (cases "a = 0") (simp_all add: signed_divide_int_def)

lemma sdiv_neg: "0 \<le> a \<Longrightarrow> b < 0 \<Longrightarrow> a sdiv b = - (a div - (b :: int))"
  by (cases "a = 0") (simp_all add: signed_divide_int_def)

lemma smod_pos: "0 \<le> a \<Longrightarrow> 0 < b \<Longrightarrow> a smod b = a mod (b :: int)"
  by (cases "a = 0") (simp_all add: signed_modulo_int_def)

lemma log2_neg: "- (2 ^ 31) < x \<Longrightarrow> x \<le> 0 \<Longrightarrow> vg_log2 (word_of_int x) = -1"
proof (rule ccontr)
  assume x: "- (2 ^ 31) < x" "x \<le> 0" and l: "vg_log2 (word_of_int x) \<noteq> -1"
  show False
  proof (cases "x = 0")
    case True
    then show False using l unat_exp unfolding log2_iff by force
  next
    case False
    have "(word_of_int (x + 2 ^ 32) :: UInt) = word_of_int x" by (simp add: word_of_int_eq_iff take_bit_eq_mod)
    then have "vg_log2 (word_of_int (x + 2 ^ 32)) \<noteq> -1" using l by (simp only:) simp
    then obtain j where j: "x + 2 ^ 32 = 2 ^ j" using log2_int [of "x + 2 ^ 32"] x False by auto
    show False
    proof (cases "j \<le> 31")
      case True
      then have "(2 :: int) ^ j \<le> 2 ^ 31" by (intro power_increasing) simp_all
      then show False using j x by simp
    next
      case False
      then have "(2 :: int) ^ 32 \<le> 2 ^ j" by (intro power_increasing) simp_all
      then show False using j x \<open>x \<noteq> 0\<close> by simp
    qed
  qed
qed

lemma exp_ge_16: "16 \<le> (2 :: int) ^ k \<Longrightarrow> 4 \<le> k"
proof (rule ccontr)
  assume k: "16 \<le> (2 :: int) ^ k" "\<not> 4 \<le> k"
  then have "(2 :: int) ^ k \<le> 2 ^ 3" by (intro power_increasing) simp_all
  then show False using k(1) by simp
qed

lemma check_cache_sound:
  assumes "check_cache c = Some None" "int_fields c"
  shows "\<exists>k j. cache_geometry c k j"
proof -
  let ?l = "line_size c" and ?s = "csize c" and ?a = "assoc c"
  have rng: "?s < 2 ^ 31" "?l < 2 ^ 31" using assms(2) by (auto simp: int_fields_def int32_def split: if_splits)
  from assms(1) obtain q1 q2 where
    la: "?l * ?a \<noteq> 0" "?s smod (?l * ?a) = 0" and
    q: "int_div ?s ?l = Some q1" "int_div q1 ?a = Some q2" "vg_log2 (word_of_int q2) \<noteq> -1" and
    l: "vg_log2 (word_of_int ?l) \<noteq> -1" "16 \<le> ?l" "?l < ?s" "?a \<le> q1"
    by (auto simp: check_cache_def int_mod_def int32_Some MIN_LINE_SIZE_def not_le not_less elim!: bind_SomeE split: if_splits)
  obtain k where k: "?l = 2 ^ k" using log2_int [of ?l] l(1,2) rng(2) by auto
  have q1: "q1 = ?s div ?l" using q(1) l(2,3) by (auto simp: int_div_def int32_Some sdiv_pos split: if_splits)
  have q1r: "1 \<le> q1" "q1 < 2 ^ 31"
    using l(2,3) rng(1) zdiv_mono2 [of ?s 1 ?l] zdiv_mono1 [of ?l ?s ?l] unfolding q1 by auto
  have a: "0 < ?a"
  proof (rule ccontr)
    assume "\<not> 0 < ?a"
    then have neg: "?a < 0" using la(1) by auto
    then have "q2 = - (q1 div - ?a)" using q(2) q1r by (auto simp: int_div_def int32_Some sdiv_neg split: if_splits)
    moreover have "0 \<le> q1 div - ?a" "q1 div - ?a \<le> q1"
      using neg q1r zdiv_mono2 [of q1 1 "- ?a"] by (simp_all add: pos_imp_zdiv_nonneg_iff)
    ultimately show False using q(3) log2_neg [of q2] q1r by simp
  qed
  have q2: "q2 = q1 div ?a" using q(2) a q1r by (auto simp: int_div_def int32_Some sdiv_pos split: if_splits)
  have "0 < q2" "q2 < 2 ^ 32"
    using l(4) a q1r zdiv_mono1 [of ?a q1 ?a] zdiv_mono2 [of q1 1 ?a] unfolding q2 by auto
  then obtain j where j: "q2 = 2 ^ j" using q(3) log2_int [of q2] by auto
  have "?s mod (?l * ?a) = 0" using la(2) smod_pos [of ?s "?l * ?a"] l(2,3) a by simp
  then obtain m where m: "?s = ?l * ?a * m" by (meson dvdE mod_eq_0_iff_dvd)
  have "q1 = ?a * m" using l(2) by (simp add: q1 m mult.assoc)
  then have "q2 = m" using a by (simp add: q2)
  then have "?s = q2 * ?a * ?l" by (simp add: m)
  then show ?thesis unfolding cache_geometry_def using k j exp_ge_16 [of k] l rng a by auto
qed

lemma check_cache_complete:
  assumes "cache_geometry c k j"
  shows "check_cache c = Some None"
proof -
  let ?l = "line_size c" and ?s = "csize c" and ?a = "assoc c"
  note g = assms [unfolded cache_geometry_def]
  have "(2 :: int) ^ 4 \<le> 2 ^ k" using g by (intro power_increasing) simp_all
  then have l: "16 \<le> ?l" using g by simp
  have s: "?s = ?l * ?a * 2 ^ j" using g by simp
  have lp: "0 < ?l * ?a" using l g by simp
  then have le: "?l * ?a \<le> ?s" unfolding s by (simp add: mult_le_cancel_left1)
  have sdiv: "?s div (?l * ?a) = 2 ^ j" "?s div ?l = ?a * 2 ^ j" using l g lp by (simp_all add: s)
  have "0 \<le> ?a * 2 ^ j" using g by simp
  then have bnd: "?a * 2 ^ j \<le> ?s" unfolding s using l mult_right_mono [of 1 ?l "?a * 2 ^ j"] by (simp add: mult.assoc)
  have aj: "?a \<le> ?a * 2 ^ j" "2 ^ j \<le> ?a * 2 ^ j" using g by (simp_all add: mult_le_cancel_left1 mult_le_cancel_right1)
  have r: "0 \<le> x \<Longrightarrow> x \<le> ?s \<Longrightarrow> int32 x = Some x" for x
    unfolding int32_Some using g by (auto intro: order_trans [of _ 0] le_less_trans [of _ ?s])
  have "int32 (?l * ?a) = Some (?l * ?a)" using lp le by (intro r) simp_all
  moreover have "int_mod ?s (?l * ?a) = Some 0"
  proof -
    have "?s sdiv (?l * ?a) = 2 ^ j" using lp le sdiv_pos [of ?s "?l * ?a"] sdiv(1) by linarith
    moreover have "?s smod (?l * ?a) = 0" using lp le smod_pos [of ?s "?l * ?a"] by (simp add: s)
    moreover have "int32 (2 ^ j) = Some (2 ^ j)" using order_trans [OF aj(2) bnd] by (intro r) simp_all
    ultimately show ?thesis using lp by (auto simp: int_mod_def)
  qed
  moreover have "int_div ?s ?l = Some (?a * 2 ^ j)"
    using l le lp r [OF \<open>0 \<le> ?a * 2 ^ j\<close> bnd] sdiv_pos [of ?s ?l] sdiv(2) by (simp add: int_div_def)
  moreover have "int_div (?a * 2 ^ j) ?a = Some (2 ^ j)"
    using g r [OF _ order_trans [OF aj(2) bnd]] sdiv_pos [of "?a * 2 ^ j" ?a] by (simp add: int_div_def)
  moreover have "vg_log2 (word_of_int (2 ^ j)) \<noteq> -1"
  proof -
    have "int32 (2 ^ j) = Some (2 ^ j)" using order_trans [OF aj(2) bnd] by (intro r) simp_all
    then have "(2 :: int) ^ j < 2 ^ 32" unfolding int32_Some by simp
    moreover have "(0 :: int) < 2 ^ j" by simp
    ultimately show ?thesis using log2_int [of "2 ^ j"] by blast
  qed
  moreover have "vg_log2 (word_of_int ?l) \<noteq> -1" using log2_int [of ?l] l g by auto
  moreover have "\<not> ?s \<le> ?l" "\<not> ?a > ?a * 2 ^ j" using g aj(1) by linarith+
  ultimately show ?thesis using l by (simp add: check_cache_def MIN_LINE_SIZE_def)
qed

section \<open>Rounding down to a power of two\<close>

definition smeared :: "UInt \<Rightarrow> nat \<Rightarrow> UInt \<Rightarrow> bool" where
  "smeared x s y \<longleftrightarrow> (\<forall>i. bit y i \<longleftrightarrow> (\<exists>d < s. bit x (i + d)))"

lemma smear_step: "smeared x s y \<Longrightarrow> smeared x (2 * s) (y OR drop_bit s y)"
  unfolding smeared_def
proof (intro allI)
  fix i
  assume h: "\<forall>i. bit y i \<longleftrightarrow> (\<exists>d < s. bit x (i + d))"
  have "bit (y OR drop_bit s y) i \<longleftrightarrow> bit y i \<or> bit y (s + i)" by (simp add: bit_or_iff bit_drop_bit_eq)
  also have "\<dots> \<longleftrightarrow> (\<exists>d < s. bit x (i + d)) \<or> (\<exists>d < s. bit x (i + (s + d)))" using h by (simp add: add.left_commute add.commute)
  also have "\<dots> \<longleftrightarrow> (\<exists>d < 2 * s. bit x (i + d))"
  proof
    assume "\<exists>d < 2 * s. bit x (i + d)"
    then obtain d where d: "d < 2 * s" "bit x (i + d)" by blast
    show "(\<exists>d < s. bit x (i + d)) \<or> (\<exists>d < s. bit x (i + (s + d)))"
    proof (cases "d < s")
      case False
      then have "d - s < s" "bit x (i + (s + (d - s)))" using d by simp_all
      then show ?thesis by blast
    qed (use d in blast)
  next
    assume "(\<exists>d < s. bit x (i + d)) \<or> (\<exists>d < s. bit x (i + (s + d)))"
    then show "\<exists>d < 2 * s. bit x (i + d)"
    proof (elim disjE exE conjE)
      fix d assume "d < s" "bit x (i + d)"
      then show ?thesis by (intro exI [of _ d]) simp
    next
      fix d assume "d < s" "bit x (i + (s + d))"
      then show ?thesis by (intro exI [of _ "s + d"]) simp
    qed
  qed
  finally show "bit (y OR drop_bit s y) i \<longleftrightarrow> (\<exists>d < 2 * s. bit x (i + d))" .
qed

lemma floor_power_of_2_exp:
  assumes "2 ^ n \<le> unat x" "unat x < 2 ^ Suc n" "n < 32"
  shows "floor_power_of_2 x = 2 ^ n"
proof -
  define y where "y = (let x = x OR drop_bit 1 x; x = x OR drop_bit 2 x; x = x OR drop_bit 4 x; x = x OR drop_bit 8 x
    in x OR drop_bit 16 x)"
  have "smeared x 1 x" by (simp add: smeared_def)
  then have sm: "smeared x 32 y" unfolding y_def Let_def using smear_step [of x] by (metis mult_2 numeral_Bit0 one_add_one)
  have hi: "bit x i \<Longrightarrow> i \<le> n" for i
  proof (rule ccontr)
    assume b: "bit x i" "\<not> i \<le> n"
    then have "bit (unat x) i" by (simp add: bit_unsigned_iff)
    moreover have "unat x < 2 ^ i" using assms(2) b(2) by (metis Suc_leI less_le_trans not_le one_le_numeral power_increasing)
    ultimately show False by (metis bit_nat_def bit_iff_odd div_less even_zero)
  qed
  have "unat x div 2 ^ n = 1" using assms(1,2) by (intro div_nat_eqI) simp_all
  then have "bit (unat x) n" by (simp add: bit_iff_odd)
  then have lo: "bit x n" by (simp add: bit_unsigned_iff)
  have "y = mask (Suc n)"
  proof (rule bit_word_eqI)
    fix i
    assume "i < LENGTH(32)"
    have "bit y i \<longleftrightarrow> (\<exists>d < 32. bit x (i + d))" using sm by (simp add: smeared_def)
    also have "\<dots> \<longleftrightarrow> i \<le> n" using hi lo assms(3) by (metis add.commute le_add1 le_add_diff_inverse less_imp_diff_less order_trans)
    finally show "bit y i \<longleftrightarrow> bit (mask (Suc n) :: UInt) i" using \<open>i < LENGTH(32)\<close> by (simp add: bit_mask_iff less_Suc_eq_le)
  qed
  moreover have "drop_bit 1 (mask (Suc n)) = (mask n :: UInt)" using assms(3)
    by (intro bit_word_eqI) (auto simp: bit_drop_bit_eq bit_mask_iff)
  moreover have "floor_power_of_2 x = y - drop_bit 1 y" by (simp only: floor_power_of_2_def y_def Let_def)
  ultimately show ?thesis by (simp add: mask_eq_exp_minus_1)
qed

section \<open>The adjustment of the last-level cache\<close>

lemma unat_word_of_int32: "0 \<le> x \<Longrightarrow> x < 2 ^ 32 \<Longrightarrow> unat (word_of_int x :: UInt) = nat x"
  by (simp add: unat_eq_nat_uint uint_word_of_int_eq take_bit_int_eq_self)

lemma unat_mult32: "unat a * unat b < 2 ^ 32 \<Longrightarrow> unat (a * b :: UInt) = unat a * unat b"
  by (simp add: unat_word_ariths)

lemma sint_small: "unat (w :: UInt) < 2 ^ 31 \<Longrightarrow> sint w = int (unat w)"
proof -
  assume w: "unat w < 2 ^ 31"
  have "0 \<le> uint w" by simp
  then have "- (2 ^ 31) \<le> uint w" by (rule order_trans [rotated]) simp
  moreover have "int (unat w) < int (2 ^ 31)" using w by (simp only: of_nat_less_iff)
  then have "uint w < 2 ^ 31" by simp
  ultimately have "signed_take_bit 31 (uint w) = uint w" by (rule signed_take_bit_int_eq_self)
  then show ?thesis by (simp add: sint_uint)
qed

text \<open>What the code computes, in natural numbers: \<open>n\<close> sets, of which the power of two \<open>2 ^ p\<close> below
  is kept, and the ways per set scaled and rounded.\<close>

definition scaled :: "nat \<Rightarrow> nat \<Rightarrow> nat \<Rightarrow> nat" where
  "scaled n m a = (2 * n * a + m) div (2 * m)"

lemma scaled_bounds:
  assumes "0 < m" "m \<le> n" "0 < a"
  shows "a \<le> scaled n m a" "2 * (scaled n m a * m) \<le> 3 * (n * a)"
proof -
  have "2 * m * a \<le> 2 * n * a" using assms(2) by simp
  then have "2 * m * a \<le> 2 * n * a + m" by (rule trans_le_add1)
  then have "a * (2 * m) div (2 * m) \<le> (2 * n * a + m) div (2 * m)" by (intro div_le_mono) (simp add: mult.commute mult.left_commute)
  then show "a \<le> scaled n m a" using assms(1) by (simp add: scaled_def)
  have "scaled n m a * (2 * m) \<le> 2 * n * a + m" unfolding scaled_def by (rule div_times_less_eq_dividend)
  moreover have "m \<le> n * a" using assms(2,3) by (metis le_trans mult.right_neutral mult_le_mono2 Suc_leI One_nat_def)
  ultimately show "2 * (scaled n m a * m) \<le> 3 * (n * a)" by (simp add: mult.commute mult.left_commute)
qed

lemma floor_power: "0 < (n :: nat) \<Longrightarrow> \<exists>p. 2 ^ p \<le> n \<and> n < 2 ^ Suc p"
proof (induction n rule: less_induct)
  case (less n)
  show ?case
  proof (cases "n = 1")
    case True
    then show ?thesis by (intro exI [of _ 0]) simp
  next
    case False
    then obtain p where "2 ^ p \<le> n div 2" "n div 2 < 2 ^ Suc p" using less.IH [of "n div 2"] less.prems by auto
    then show ?thesis by (intro exI [of _ "Suc p"]) auto
  qed
qed

lemma tweak_cases:
  assumes "0 < S" "S < 2 ^ 32" "0 < A" "0 < L" "A * L \<le> S" "unat s = S" "unat a = A" "unat l = L"
  shows "unat (a * l :: UInt) = A * L" "a * l \<noteq> 0" "unat (s div (a * l)) = S div (A * L)" "s div (a * l) \<noteq> 0"
proof -
  show al: "unat (a * l) = A * L" using assms by (simp add: unat_mult32)
  then show "a * l \<noteq> 0" using assms by (metis less_numeral_extra(3) mult_pos_pos unat_0)
  show d: "unat (s div (a * l)) = S div (A * L)" using assms al by (simp add: unat_div)
  have "0 < S div (A * L)" using assms by (simp add: div_greater_zero_iff)
  then show "s div (a * l) \<noteq> 0" using d by (metis less_numeral_extra(3) unat_0)
qed

lemma geometry_nat:
  assumes "4 \<le> k" "csize c = int S" "assoc c = int A" "line_size c = 2 ^ k" "1 \<le> A" "S = 2 ^ p * A * 2 ^ k" "2 ^ k < S" "S < 2 ^ 31"
  shows "check_cache c = Some None"
proof (rule check_cache_complete [of c k p])
  have "int S = 2 ^ p * int A * 2 ^ k" by (simp add: assms(6))
  moreover have "(2 :: int) ^ k < int S" using assms(7) by (metis of_nat_less_iff of_nat_numeral of_nat_power)
  moreover have "int S < 2 ^ 31" using assms(8) by simp
  ultimately show "cache_geometry c k p" using assms(1-5) by (simp add: cache_geometry_def)
qed

lemma tweak_pow2:
  assumes "vg_log2_64 (ucast (n :: UInt)) \<noteq> -1"
  shows "\<exists>p. unat n = 2 ^ p"
proof -
  obtain j where j: "j < 64" "(ucast n :: ULong) = 2 ^ j" using assms unfolding log2_64_iff by blast
  have "(2 :: nat) ^ j < 2 ^ 64" using j(1) by (rule power_strict_increasing) simp
  then have "unat (of_nat (2 ^ j) :: ULong) = 2 ^ j" by (simp only: unat_of_nat) (simp add: take_bit_nat_eq_self)
  moreover have "unat n < 2 ^ 64" using unsigned_less [of n] by (rule less_trans) simp
  then have "unat (ucast n :: ULong) = unat n" by (simp add: unsigned_ucast_eq take_bit_nat_eq_self)
  ultimately show ?thesis using j(2) by (metis of_nat_numeral of_nat_power)
qed

lemma tweak_no_pow2:
  assumes "vg_log2_64 (ucast (n :: UInt)) = -1" "n \<noteq> 0" "unat n < 2 ^ 31"
  shows "\<exists>p < 32. floor_power_of_2 n = 2 ^ p \<and> 2 ^ p < unat n"
proof -
  have "0 < unat n" using assms(2) by (simp add: unat_gt_0)
  from floor_power [OF this] obtain p where p: "2 ^ p \<le> unat n" "unat n < 2 ^ Suc p" by blast
  have p31: "p < 32"
  proof (rule ccontr)
    assume "\<not> p < 32"
    then have "(2 :: nat) ^ 31 \<le> 2 ^ p" by (intro power_increasing) simp_all
    then show False using p(1) assms(3) by linarith
  qed
  have "unat n \<noteq> 2 ^ p"
  proof
    assume "unat n = 2 ^ p"
    then have "n = 2 ^ p" using unat_exp [OF p31] by (simp add: word_unat_eq_iff)
    moreover have "(ucast (2 ^ p :: UInt) :: ULong) = 2 ^ p" using p31
      by (intro bit_word_eqI) (auto simp: bit_ucast_iff bit_exp_iff)
    ultimately have "\<exists>j < 64. (ucast n :: ULong) = 2 ^ j" using p31 by (intro exI [of _ p]) simp
    then show False using assms(1) unfolding log2_64_iff [symmetric] by blast
  qed
  then show ?thesis using floor_power_of_2_exp [OF p p31] p(1) p31 by (intro exI [of _ p]) simp
qed

lemma scale_scaled:
  assumes "scaled (unat n) (unat m) (unat a) < 2 ^ 32"
  shows "\<exists>x. scale n m a = Some x \<and> unat x = scaled (unat n) (unat m) (unat a)"
  using assms unat_of_nat32 [OF assms] by (simp add: scale_def scaled_def Let_def)

text \<open>The values that are assigned.\<close>

definition tweak_assign :: "cache_t \<Rightarrow> UInt \<Rightarrow> UInt \<Rightarrow> cache_t" where
  "tweak_assign c ns na =
     (if ns = word_of_int (csize c) \<and> na = word_of_int (assoc c) then c
      else \<lparr>csize = sint ns, assoc = sint na, line_size = sint (word_of_int (line_size c) :: UInt)\<rparr>)"

lemma tweak_assign:
  assumes "0 \<le> csize c" "csize c < 2 ^ 31" "0 \<le> assoc c" "assoc c < 2 ^ 31" "0 \<le> line_size c" "line_size c < 2 ^ 31"
    and "unat ns < 2 ^ 31" "unat na < 2 ^ 31"
  shows "csize (tweak_assign c ns na) = int (unat ns)" "assoc (tweak_assign c ns na) = int (unat na)"
    "line_size (tweak_assign c ns na) = line_size c"
proof -
  have u: "unat (word_of_int x :: UInt) = nat x" "unat (word_of_int x :: UInt) < 2 ^ 31" if "0 \<le> x" "x < 2 ^ 31" for x
    using that by (simp_all add: unat_word_of_int32 nat_less_iff)
  then have w: "sint (word_of_int x :: UInt) = x" if "0 \<le> x" "x < 2 ^ 31" for x
    using that sint_small [OF u(2) [OF that]] u(1) [OF that] by simp
  show "csize (tweak_assign c ns na) = int (unat ns)" "assoc (tweak_assign c ns na) = int (unat na)"
    "line_size (tweak_assign c ns na) = line_size c"
    using assms w sint_small by (auto simp: tweak_assign_def uint_word_of_int_eq take_bit_int_eq_self)
qed

definition tweak_compute :: "UInt \<Rightarrow> UInt \<Rightarrow> UInt \<Rightarrow> (UInt \<times> UInt) option" where
  "tweak_compute n a l =
     (if vg_log2_64 (ucast n) \<noteq> -1 then Some (l * a * n, a)
      else let new_nSets = floor_power_of_2 n in
        do { vg_assert (new_nSets > 0 \<and> new_nSets < n); new_assoc \<leftarrow> scale n new_nSets a;
             vg_assert (new_assoc \<ge> a); Some (l * new_assoc * new_nSets, new_assoc) })"

lemma tweak_eq:
  assumes "0 < csize c" "0 < assoc c" "0 < line_size c"
    and "(word_of_int (assoc c) :: UInt) * word_of_int (line_size c) \<noteq> 0"
    and "(word_of_int (csize c) :: UInt) div (word_of_int (assoc c) * word_of_int (line_size c)) \<noteq> 0"
  shows "maybe_tweak_LLc c =
    tweak_compute (word_of_int (csize c) div (word_of_int (assoc c) * word_of_int (line_size c)))
      (word_of_int (assoc c)) (word_of_int (line_size c)) \<bind> (\<lambda>(ns, na). Some (tweak_assign c ns na))"
  using assms unfolding maybe_tweak_LLc_def tweak_compute_def tweak_assign_def Let_def
  by (simp add: if_distrib [of Some] cong: if_cong)

lemma unat_mult3:
  assumes "unat l * unat a * unat n < 2 ^ 32" "0 < unat n"
  shows "unat (l * a * n :: UInt) = unat l * unat a * unat n"
proof -
  have "unat l * unat a \<le> unat l * unat a * unat n" using assms(2) by simp
  then have "unat (l * a) = unat l * unat a" using assms(1) by (intro unat_mult32) (rule le_less_trans)
  then show ?thesis using assms(1) unat_mult32 [of "l * a" n] by simp
qed

lemma tweak_compute_ok:
  assumes "unat n = N" "unat a = A" "unat l = L" "0 < N" "0 < A" "0 < L" "N * (A * L) \<le> 2 ^ 30"
  shows "\<exists>ns na p. tweak_compute n a l = Some (ns, na) \<and> unat ns = 2 ^ p * unat na * L \<and> A \<le> unat na
    \<and> 2 * (2 ^ p * unat na) \<le> 3 * (N * A) \<and> (1 < N * A \<longrightarrow> 1 < 2 ^ p * unat na)"
proof (cases "vg_log2_64 (ucast n) = -1")
  case False
  then obtain p where p: "N = 2 ^ p" using tweak_pow2 assms(1) by metis
  have "L * A * N < 2 ^ 32" using assms(7) by (simp add: mult.commute mult.left_commute)
  then have "unat (l * a * n) = 2 ^ p * A * L" using unat_mult3 [of l a n] assms p by (simp add: mult.commute mult.left_commute)
  then show ?thesis using False assms(2) p by (intro exI [of _ "l * a * n"] exI [of _ a] exI [of _ p]) (simp add: tweak_compute_def)
next
  case True
  have "N \<le> N * (A * L)" using assms(5,6) by simp
  then have "N \<le> 2 ^ 30" using assms(7) by (rule order_trans)
  then have "unat n < 2 ^ 31" "n \<noteq> 0" using assms(1,4) by auto
  from tweak_no_pow2 [OF True this(2,1)] obtain p where p: "p < 32" "floor_power_of_2 n = 2 ^ p" "2 ^ p < N" using assms(1) by blast
  have m: "unat (2 ^ p :: UInt) = 2 ^ p" using unat_exp [OF p(1)] .
  let ?A = "scaled N (2 ^ p) A"
  have sc: "A \<le> ?A" "2 * (?A * 2 ^ p) \<le> 3 * (N * A)" using scaled_bounds [of "2 ^ p" N A] p(3) assms(5) by simp_all
  have "2 * (?A * 2 ^ p) * L \<le> 3 * (N * A) * L" using sc(2) by (rule mult_le_mono1)
  then have "2 * (L * ?A * 2 ^ p) \<le> 3 * (N * (A * L))" by (simp only: mult.assoc mult.commute mult.left_commute)
  moreover have "X < 2 ^ 32" if "2 * X \<le> 3 * Y" "Y \<le> 2 ^ 30" for X Y :: nat using that by simp
  ultimately have lt: "L * ?A * 2 ^ p < 2 ^ 32" using assms(7) by blast
  have "?A \<le> L * ?A * 2 ^ p" using assms(6) by (metis le_add1 mult.assoc mult.commute mult_eq_if mult_is_0 neq0_conv power_not_zero zero_neq_numeral order_trans)
  then have "?A < 2 ^ 32" using lt by (rule le_less_trans)
  then obtain x where x: "scale n (2 ^ p) a = Some x" "unat x = ?A" using scale_scaled [of n "2 ^ p" a] m assms(1,2) by auto
  have "unat (l * x * 2 ^ p) = L * ?A * 2 ^ p" using unat_mult3 [of l x "2 ^ p"] lt m x(2) assms(3) by simp
  moreover have "(0 :: UInt) < 2 ^ p" "2 ^ p < n" "a \<le> x"
    using m p(3) assms(1,2) x(2) sc(1) by (simp_all add: word_less_nat_alt word_le_nat_alt)
  then have "tweak_compute n a l = Some (l * x * 2 ^ p, x)" using True p(2) x(1) by (simp add: tweak_compute_def)
  moreover have "1 < 2 ^ p * ?A" if "1 < N * A"
  proof (cases p)
    case 0
    then show ?thesis using that by (simp add: scaled_def)
  next
    case (Suc q)
    have "(2 :: nat) ^ 1 \<le> 2 ^ p" using Suc by (intro power_increasing) simp_all
    moreover have "1 \<le> ?A" using sc(1) assms(5) by simp
    ultimately have "2 ^ 1 * 1 \<le> 2 ^ p * ?A" by (rule mult_le_mono)
    then show ?thesis by simp
  qed
  ultimately show ?thesis using x(2) sc
    by (intro exI [of _ "l * x * 2 ^ p"] exI [of _ x] exI [of _ p]) (simp add: mult.commute mult.left_commute)
qed

lemma tweak_finish:
  assumes c: "csize c = int S" "assoc c = int A" "line_size c = 2 ^ k" and "4 \<le> k" "0 < A" "S \<le> 2 ^ 30" "A \<le> S" "2 ^ k \<le> S"
    and n: "unat ns = 2 ^ p * unat na * 2 ^ k" "A \<le> unat na" "2 * unat ns \<le> 3 * S" "1 < 2 ^ p * unat na"
  shows "check_cache (tweak_assign c ns na) = Some None \<and> line_size (tweak_assign c ns na) = line_size c
    \<and> assoc c \<le> assoc (tweak_assign c ns na) \<and> 2 * csize (tweak_assign c ns na) \<le> 3 * csize c"
proof -
  have lt: "int x < 2 ^ 31" if "x \<le> S" for x
  proof -
    have "x < 2 ^ 31" using that assms(6) by simp
    then show ?thesis by simp
  qed
  have "line_size c = int (2 ^ k)" using c(3) by simp
  then have rng: "0 \<le> csize c" "csize c < 2 ^ 31" "0 \<le> assoc c" "assoc c < 2 ^ 31" "0 \<le> line_size c" "line_size c < 2 ^ 31"
    using c lt [of S] lt [of A] lt [of "2 ^ k"] assms(7,8) by (simp_all only: of_nat_0_le_iff order_refl)
  have b31: "unat ns < 2 ^ 31" using n(3) assms(6) by simp
  have "1 * 1 \<le> 2 ^ p * (2 ^ k :: nat)" by (intro mult_le_mono) simp_all
  then have "unat na * 1 \<le> unat na * (2 ^ p * 2 ^ k)" by (intro mult_le_mono2) simp
  then have "unat na \<le> unat ns" using n(1) by (simp add: mult.commute mult.left_commute)
  then have a31: "unat na < 2 ^ 31" using b31 by (rule le_less_trans)
  note t = tweak_assign [OF rng b31 a31]
  have "2 ^ k < unat ns" using n(1,4) by simp
  then have "check_cache (tweak_assign c ns na) = Some None"
    using geometry_nat [of k "tweak_assign c ns na" "unat ns" "unat na" p] t n(1,2) c(3) assms(4,5) b31 by simp
  moreover have "assoc c \<le> assoc (tweak_assign c ns na)" unfolding t c using n(2) by (simp only: of_nat_le_iff)
  moreover have "int (2 * unat ns) \<le> int (3 * S)" using n(3) by (simp only: of_nat_le_iff)
  then have "2 * csize (tweak_assign c ns na) \<le> 3 * csize c" unfolding t c by simp
  ultimately show ?thesis using t(3) by blast
qed

text \<open>For an auto-detected last-level cache of at most \<open>2 ^ 30\<close> bytes with lines of a power of
  two, \<open>maybe_tweak_LLc\<close> fails no assertion and yields a configuration the simulator accepts, with
  the same line size, at least as many ways and at most half as many bytes again.\<close>

theorem maybe_tweak_LLc_accepted:
  assumes "0 < assoc c" "line_size c = 2 ^ k" "4 \<le> k" "assoc c * line_size c \<le> csize c"
    and "2 * line_size c \<le> csize c" "csize c \<le> 2 ^ 30"
  shows "\<exists>c'. maybe_tweak_LLc c = Some c' \<and> check_cache c' = Some None \<and> line_size c' = line_size c
    \<and> assoc c \<le> assoc c' \<and> 2 * csize c' \<le> 3 * csize c"
proof -
  define S A where d: "S = nat (csize c)" "A = nat (assoc c)"
  let ?L = "2 ^ k :: nat"
  have lp: "line_size c = int ?L" "0 < line_size c" using assms(2) by simp_all
  have "0 < csize c" using assms(5) lp(2) by linarith
  then have i: "csize c = int S" "assoc c = int A" "0 < S" "0 < A" using assms(1) by (simp_all add: d)
  have "int (A * ?L) \<le> int S" "int (2 * ?L) \<le> int S" "int S \<le> int (2 ^ 30)" using assms(4,5,6) i lp by simp_all
  then have le: "A * ?L \<le> S" "2 * ?L \<le> S" "S \<le> 2 ^ 30" by (simp_all only: of_nat_le_iff)
  have "A \<le> A * ?L" by simp
  then have A: "A \<le> S" using le(1) by (rule order_trans)
  let ?s = "word_of_int (csize c) :: UInt" and ?a = "word_of_int (assoc c) :: UInt" and ?l = "word_of_int (line_size c) :: UInt"
  have u: "unat ?s = S" "unat ?a = A" "unat ?l = ?L"
    using unat_of_nat32 [of S] unat_of_nat32 [of A] unat_of_nat32 [of ?L] le A i lp by simp_all
  have "S < 2 ^ 32" using le by simp
  note tc = tweak_cases [OF i(3) this i(4) zero_less_power [OF zero_less_numeral] le(1) u]
  let ?n = "?s div (?a * ?l)" and ?N = "S div (A * ?L)"
  have N: "0 < ?N" "?N * (A * ?L) \<le> S" using le(1) i(4) by (simp_all add: div_greater_zero_iff)
  have NA: "1 < ?N * A"
  proof (cases "A = 1")
    case True
    have "2 \<le> S div ?L" using le(2) by (metis div_le_mono nonzero_mult_div_cancel_right power_not_zero zero_neq_numeral)
    then show ?thesis by (simp add: True)
  next
    case False
    then have "1 * 2 \<le> ?N * A" using N(1) i(4) by (intro mult_le_mono) simp_all
    then show ?thesis by simp
  qed
  have "?N * (A * ?L) \<le> 2 ^ 30" "0 < ?L" using order_trans [OF N(2) le(3)] by simp_all
  from tweak_compute_ok [OF tc(3) u(2,3) N(1) i(4) this(2,1)] NA obtain ns na p where
    r: "tweak_compute ?n ?a ?l = Some (ns, na)" "unat ns = 2 ^ p * unat na * ?L" "A \<le> unat na"
      "2 * (2 ^ p * unat na) \<le> 3 * (?N * A)" "1 < 2 ^ p * unat na"
    by blast
  have "2 * (2 ^ p * unat na) * ?L \<le> 3 * (?N * A) * ?L" using r(4) by (rule mult_le_mono1)
  then have "2 * unat ns \<le> 3 * (?N * (A * ?L))" using r(2) by (simp add: mult.assoc)
  also have "\<dots> \<le> 3 * S" using N(2) by (rule mult_le_mono2)
  finally have "2 * unat ns \<le> 3 * S" .
  then have "check_cache (tweak_assign c ns na) = Some None \<and> line_size (tweak_assign c ns na) = line_size c
    \<and> assoc c \<le> assoc (tweak_assign c ns na) \<and> 2 * csize (tweak_assign c ns na) \<le> 3 * csize c"
    using i le A r assms(2,3) by (intro tweak_finish) auto
  moreover have "maybe_tweak_LLc c = Some (tweak_assign c ns na)" using tweak_eq [of c] tc i lp r(1) by simp
  ultimately show ?thesis by blast
qed

text \<open>The 12 megabyte cache of the comment: 12288 sets become 8192 sets of 24 ways.\<close>

theorem maybe_tweak_LLc_accepted_witness:
  "\<exists>c'. maybe_tweak_LLc \<lparr>csize = 12582912, assoc = 16, line_size = 64\<rparr> = Some c' \<and> check_cache c' = Some None
    \<and> line_size c' = 64 \<and> 16 \<le> assoc c' \<and> 2 * csize c' \<le> 3 * 12582912"
  using maybe_tweak_LLc_accepted [of "\<lparr>csize = 12582912, assoc = 16, line_size = 64\<rparr>" 6] by simp

section \<open>Command line options\<close>

lemma parse_number:
  assumes "ds \<noteq> []" "\<forall>d \<in> set ds. is_dec_digit d \<noteq> None" "is_dec_digit c = None"
  shows "strtoll10 (ds @ c # rest) = Some (of_nat (digits_value is_dec_digit 10 0 ds), c # rest)"
  using strtoll10_correct [of "[]" "[]" ds c rest] assms by simp

lemma sint_of_nat64: "n < 2 ^ 31 \<Longrightarrow> sint (of_nat n :: 64 word) = int n"
proof -
  assume "n < 2 ^ 31"
  then have "- (2 ^ 63) \<le> int n" "int n < 2 ^ 63" by simp_all
  from signed_take_bit_int_eq_self [OF this] show ?thesis by (simp add: signed_of_nat)
qed

lemma signed_31: "n < 2 ^ 31 \<Longrightarrow> signed_take_bit 31 (int n) = int n"
  by (rule signed_take_bit_int_eq_self) simp_all

definition value_of :: "string \<Rightarrow> nat" where
  "value_of ds = digits_value is_dec_digit 10 0 ds"

definition number :: "string \<Rightarrow> bool" where
  "number ds \<longleftrightarrow> ds \<noteq> [] \<and> (\<forall>d \<in> set ds. is_dec_digit d \<noteq> None) \<and> value_of ds < 2 ^ 31"

lemma parse_number31:
  assumes "number ds" "is_dec_digit c = None"
  shows "\<exists>w. strtoll10 (ds @ c # rest) = Some (w, c # rest) \<and> sint w = int (value_of ds)
    \<and> signed_take_bit 31 (int (value_of ds)) = int (value_of ds)"
  using assms parse_number [of ds c rest] sint_of_nat64 [of "value_of ds"] signed_31 [of "value_of ds"]
  unfolding number_def value_of_def by auto

lemma no_digit: "is_dec_digit CHR '','' = None" "is_dec_digit NUL = None"
  by (simp_all add: is_dec_digit_def in_range_def)

text \<open>C40: An option value of three decimal numbers below \<open>2 ^ 31\<close> is accepted exactly when they describe a
  cache the simulator handles: a power of two of sets, a power of two of at least 16 bytes in a
  line, more than one line. The configuration returned is the one written. If the associativity or the line
  size is zero, the check divides by zero.\<close>

theorem parse_cache_opt_correct:
  assumes "number s" "number a" "number l"
  defines "c \<equiv> \<lparr>csize = int (value_of s), assoc = int (value_of a), line_size = int (value_of l)\<rparr>"
  shows "(\<forall>c'. parse_cache_opt (s @ '','' @ a @ '','' @ l @ [NUL]) = Some (Inr c') \<longleftrightarrow> c' = c \<and> (\<exists>k j. cache_geometry c k j))
    \<and> (value_of a = 0 \<or> value_of l = 0 \<longrightarrow> parse_cache_opt (s @ '','' @ a @ '','' @ l @ [NUL]) = None)"
proof -
  let ?opt = "s @ '','' @ a @ '','' @ l @ [NUL]"
  have fields: "int_fields c" using assms(1-3) by (simp add: int_fields_def int32_def c_def number_def)
  obtain w1 w2 w3 where
    "strtoll10 ?opt = Some (w1, '','' @ a @ '','' @ l @ [NUL])" "strtoll10 (a @ '','' @ l @ [NUL]) = Some (w2, '','' @ l @ [NUL])"
    "strtoll10 (l @ [NUL]) = Some (w3, [NUL])" and
    "sint w1 = int (value_of s)" "sint w2 = int (value_of a)" "sint w3 = int (value_of l)" and
    "signed_take_bit 31 (int (value_of s)) = int (value_of s)" "signed_take_bit 31 (int (value_of a)) = int (value_of a)"
    "signed_take_bit 31 (int (value_of l)) = int (value_of l)"
    using parse_number31 [OF assms(1) no_digit(1), of "a @ '','' @ l @ [NUL]"]
      parse_number31 [OF assms(2) no_digit(1), of "l @ [NUL]"] parse_number31 [OF assms(3) no_digit(2), of "[]"] by auto
  then have eq: "parse_cache_opt ?opt =
      do { checkRes \<leftarrow> check_cache c; Some (if checkRes = None then Inr c else Inl ''Bad argument'') }"
    by (simp add: parse_cache_opt_def c_def Let_def cong: if_cong)
  have "parse_cache_opt ?opt = Some (Inr c') \<longleftrightarrow> c' = c \<and> (\<exists>k j. cache_geometry c k j)" for c'
    using check_cache_sound [OF _ fields] check_cache_complete [of c] unfolding eq by (cases "check_cache c") auto
  moreover have "parse_cache_opt ?opt = None" if "value_of a = 0 \<or> value_of l = 0"
    unfolding eq check_cache_def using that by (auto simp: c_def int32_def int_mod_def)
  ultimately show ?thesis by blast
qed

theorem parse_cache_opt_correct_witness:
  "parse_cache_opt (''65536'' @ '','' @ ''2'' @ '','' @ ''64'' @ [NUL]) = Some (Inr \<lparr>csize = 65536, assoc = 2, line_size = 64\<rparr>)
    \<and> parse_cache_opt (''65536'' @ '','' @ ''0'' @ '','' @ ''64'' @ [NUL]) = None"
proof -
  have n: "number ''65536''" "number ''2''" "number ''64''" "number ''0''"
    by (simp_all add: number_def value_of_def digits_value_def is_dec_digit_def in_range_def)
  have v: "value_of ''65536'' = 65536" "value_of ''2'' = 2" "value_of ''64'' = 64" "value_of ''0'' = 0"
    by (simp_all add: value_of_def digits_value_def is_dec_digit_def in_range_def)
  have "cache_geometry \<lparr>csize = 65536, assoc = 2, line_size = 64\<rparr> 6 9" by (simp add: cache_geometry_def)
  then have "parse_cache_opt (''65536'' @ '','' @ ''2'' @ '','' @ ''64'' @ [NUL]) = Some (Inr \<lparr>csize = 65536, assoc = 2, line_size = 64\<rparr>)"
    using parse_cache_opt_correct [OF n(1,2,3)] unfolding v of_nat_numeral by blast
  moreover have "parse_cache_opt (''65536'' @ '','' @ ''0'' @ '','' @ ''64'' @ [NUL]) = None"
    using parse_cache_opt_correct [OF n(1,4,3)] unfolding v by blast
  ultimately show ?thesis ..
qed

text \<open>The overflow check of the options does not see a number that wraps at \<open>2 ^ 64\<close> in \<open>strtoll10\<close>: an absurd
  size is accepted as the small one it is congruent to.\<close>

theorem parse_cache_opt_wraps:
  "parse_cache_opt (''18446744073709617152,2,64'' @ [NUL]) = Some (Inr \<lparr>csize = 65536, assoc = 2, line_size = 64\<rparr>)"
proof -
  have d: "is_dec_digit CHR '','' = None" "is_dec_digit NUL = None" by (rule no_digit)+
  have 1: "strtoll10 (''18446744073709617152'' @ CHR '','' # ''2,64'' @ [NUL]) = Some (65536, CHR '','' # ''2,64'' @ [NUL])"
    by (subst parse_number) (simp_all add: d digits_value_def is_dec_digit_def in_range_def)
  have 2: "strtoll10 (''2'' @ CHR '','' # ''64'' @ [NUL]) = Some (2, CHR '','' # ''64'' @ [NUL])"
    by (subst parse_number) (simp_all add: d digits_value_def is_dec_digit_def in_range_def)
  have 3: "strtoll10 (''64'' @ NUL # []) = Some (64, NUL # [])"
    by (subst parse_number) (simp_all add: d digits_value_def is_dec_digit_def in_range_def)
  have "cache_geometry \<lparr>csize = 65536, assoc = 2, line_size = 64\<rparr> 6 9" by (simp add: cache_geometry_def)
  then have "check_cache \<lparr>csize = 65536, assoc = 2, line_size = 64\<rparr> = Some None" by (rule check_cache_complete)
  then show ?thesis using 1 2 3 by (simp add: parse_cache_opt_def)
qed

section \<open>The configuration the simulator gets\<close>

lemma int_fields_cache_of: "int_fields (cache_of s a l)"
proof -
  have "- (2 ^ 31) \<le> sint (w :: UInt)" "sint (w :: UInt) < 2 ^ 31" for w
    using sint_ge [of w] sint_lt [of w] by simp_all
  then show ?thesis by (simp add: int_fields_def cache_of_def int32_def)
qed

lemma int_fields_configure: "configure_caches ci = (i, d, l) \<Longrightarrow> int_fields i \<and> int_fields d \<and> int_fields l"
  by (auto simp: configure_caches_def int_fields_cache_of split: option.splits if_splits)

lemma int_fields_tweak: "maybe_tweak_LLc c = Some c' \<Longrightarrow> int_fields c \<Longrightarrow> int_fields c'"
  unfolding maybe_tweak_LLc_def Let_def
  using int_fields_cache_of [unfolded cache_of_def]
  by (auto elim!: bind_SomeE split: if_splits prod.splits)

lemma configured_geometry:
  assumes "post_clo_init_configure_caches ci clo = Some (i, d, l)"
    and "\<forall>c \<in> {clo_I1c clo, clo_D1c clo, clo_LLc clo}. cache_DEFINED c \<longrightarrow> (\<exists>k j. cache_geometry c k j)"
  shows "\<forall>c \<in> {i, d, l}. \<exists>k j. cache_geometry c k j"
proof -
  obtain i0 d0 l0 where c: "configure_caches ci = (i0, d0, l0)" by (cases "configure_caches ci") auto
  from assms(1) obtain l1 where l1: "maybe_tweak_LLc l0 = Some l1" and
    ch: "check_cache_or_override i0 (cache_DEFINED (clo_I1c clo)) \<noteq> None"
      "check_cache_or_override d0 (cache_DEFINED (clo_D1c clo)) \<noteq> None"
      "check_cache_or_override l1 (cache_DEFINED (clo_LLc clo)) \<noteq> None" and
    r: "i = (if cache_DEFINED (clo_I1c clo) then clo_I1c clo else i0)"
      "d = (if cache_DEFINED (clo_D1c clo) then clo_D1c clo else d0)"
      "l = (if cache_DEFINED (clo_LLc clo) then clo_LLc clo else l1)"
    unfolding post_clo_init_configure_caches_def c by (auto elim!: bind_SomeE)
  have f: "int_fields i0" "int_fields d0" "int_fields l1" using int_fields_configure [OF c] int_fields_tweak [OF l1] by simp_all
  have "\<exists>k j. cache_geometry c k j" if "check_cache_or_override c b \<noteq> None" "\<not> b" "int_fields c" for c b
    using that check_cache_sound [OF _ that(3)] 
    by (cases "check_cache c") (auto simp: check_cache_or_override_def vg_assert_def split: if_splits)
  then show ?thesis using ch f r assms(2) by auto
qed

text \<open>Whatever the machine reports and the options set, when the configuration succeeds every
  cache handed to the simulator has the geometry it relies on, provided each option was left out or accepted
  by \<open>parse_cache_opt\<close>.\<close>

theorem configuration_ok:
  assumes "post_clo_init_configure_caches ci clo = Some (i, d, l)"
    and "\<forall>c \<in> {clo_I1c clo, clo_D1c clo, clo_LLc clo}. cache_DEFINED c \<longrightarrow> (\<exists>k j. cache_geometry c k j)"
  shows "\<forall>c \<in> {i, d, l}. \<exists>k j. cache_geometry c k j"
  using assms by (rule configured_geometry)

theorem configuration_ok_witness:
  "(\<exists>k j. cache_geometry (cache_of 65536 2 64) k j) \<and> (\<exists>k j. cache_geometry (cache_of 262144 8 64) k j)"
proof -
  let ?u = "\<lparr>csize = -1, assoc = -1, line_size = -1\<rparr>"
  let ?clo = "\<lparr>clo_I1c = ?u, clo_D1c = ?u, clo_LLc = ?u\<rparr>"
  have "post_clo_init_configure_caches \<lparr>num_levels = 0, caches = []\<rparr> ?clo
    = Some (cache_of 65536 2 64, cache_of 65536 2 64, cache_of 262144 8 64)" by code_simp
  moreover have "\<forall>c \<in> {clo_I1c ?clo, clo_D1c ?clo, clo_LLc ?clo}. cache_DEFINED c \<longrightarrow> (\<exists>k j. cache_geometry c k j)"
    by (simp add: cache_DEFINED_def)
  ultimately have "\<forall>c \<in> {cache_of 65536 2 64, cache_of 65536 2 64, cache_of 262144 8 64}. \<exists>k j. cache_geometry c k j"
    by (rule configuration_ok)
  then show ?thesis by blast
qed

end
