(* ===== verification/CacheSim.thy ===== *)
theory CacheSim
  imports CacheConf
begin

text \<open>
  Cachegrind's cache simulator, \<open>cachegrind/cg_sim.c\<close>, on configurations that
  \<open>CacheConf\<close> accepts. A cache is one array of tags with \<open>assoc\<close> entries for each set, the most
  recently used first. The text \<open>desc_line\<close>, which is only printed, is left out. A set outside the
  array and an access to more than two lines are \<open>None\<close>.

  The theorems say that the simulator is a set-associative cache with replacement of the least
  recently used line, for every sequence of accesses, also those that straddle two lines, and
  that the shortcut for instruction reads within one line gives the same counts.
\<close>

section \<open>The simulator\<close>

record cache_t2 = cache_t +
  sets :: int
  sets_min_1 :: int
  line_size_bits :: int
  tag_shift :: int
  tags :: "UWord list"

definition cachesim_initcache :: "cache_t \<Rightarrow> cache_t2 option" where
  "cachesim_initcache config =
     do { q \<leftarrow> int_div (csize config) (line_size config);
          n \<leftarrow> int_div q (assoc config);
          Some \<lparr>csize = csize config, assoc = assoc config, line_size = line_size config,
                sets = n, sets_min_1 = n - 1,
                line_size_bits = vg_log2 (word_of_int (line_size config)),
                tag_shift = vg_log2 (word_of_int (line_size config)) + vg_log2 (word_of_int n),
                tags = replicate (nat (n * assoc config)) 0\<rparr> }"

text \<open>\<open>for (j = i; j > 0; j--) set[j] = set[j - 1]\<close>, with the set at index \<open>off\<close>.\<close>

fun shuffle_down :: "UWord list \<Rightarrow> nat \<Rightarrow> nat \<Rightarrow> UWord list" where
  "shuffle_down ts off 0 = ts"
| "shuffle_down ts off (Suc j) = shuffle_down (ts[off + Suc j := ts ! (off + j)]) off j"

definition cachesim_setref_is_miss :: "cache_t2 \<Rightarrow> UInt \<Rightarrow> UWord \<Rightarrow> (cache_t2 \<times> bool) option" where
  "cachesim_setref_is_miss c set_no tag =
     (let off = unat (set_no * word_of_int (assoc c)); n = nat (assoc c); ts = tags c in
      do { vg_assert (off + max 1 n \<le> length ts);
           if tag = ts ! off then Some (c, False)
           else
             case List.find (\<lambda>i. tag = ts ! (off + i)) [1..<n] of
               Some i \<Rightarrow> Some (c\<lparr>tags := (shuffle_down ts off i)[off := tag]\<rparr>, False)
             | None \<Rightarrow> Some (c\<lparr>tags := (shuffle_down ts off (n - 1))[off := tag]\<rparr>, True) })"

definition cachesim_ref_is_miss :: "cache_t2 \<Rightarrow> UWord \<Rightarrow> UChar \<Rightarrow> (cache_t2 \<times> bool) option" where
  "cachesim_ref_is_miss c a sz =
     (let block1 = drop_bit (nat (line_size_bits c)) a;
          block2 = drop_bit (nat (line_size_bits c)) (a + ucast sz - 1);
          set1 = ucast (block1 AND word_of_int (sets_min_1 c)) in
      if block1 = block2 then cachesim_setref_is_miss c set1 block1
      else if block1 + 1 = block2 then
        (let set2 = ucast (block2 AND word_of_int (sets_min_1 c)) in
         do { (c, miss1) \<leftarrow> cachesim_setref_is_miss c set1 block1;
              (c, miss2) \<leftarrow> cachesim_setref_is_miss c set2 block2;
              Some (c, if miss1 then True else miss2) })
      else None)"

text \<open>The three caches; a reference returns the caches and what is added to the two miss counts.\<close>

record cachesim =
  I1 :: cache_t2
  D1 :: cache_t2
  LL :: cache_t2

definition cachesim_initcaches :: "cache_t \<Rightarrow> cache_t \<Rightarrow> cache_t \<Rightarrow> cachesim option" where
  "cachesim_initcaches I1c D1c LLc =
     do { i \<leftarrow> cachesim_initcache I1c; d \<leftarrow> cachesim_initcache D1c; l \<leftarrow> cachesim_initcache LLc;
          Some \<lparr>I1 = i, D1 = d, LL = l\<rparr> }"

definition cachesim_I1_doref_Gen :: "cachesim \<Rightarrow> UWord \<Rightarrow> UChar \<Rightarrow> (cachesim \<times> bool \<times> bool) option" where
  "cachesim_I1_doref_Gen s a sz =
     do { (i, m1) \<leftarrow> cachesim_ref_is_miss (I1 s) a sz;
          if m1 then do { (l, mL) \<leftarrow> cachesim_ref_is_miss (LL s) a sz; Some (s\<lparr>I1 := i, LL := l\<rparr>, True, mL) }
          else Some (s\<lparr>I1 := i\<rparr>, False, False) }"

definition cachesim_I1_doref_NoX :: "cachesim \<Rightarrow> UWord \<Rightarrow> UChar \<Rightarrow> (cachesim \<times> bool \<times> bool) option" where
  "cachesim_I1_doref_NoX s a sz =
     (let block = drop_bit (nat (line_size_bits (I1 s))) a in
      do { (i, m1) \<leftarrow> cachesim_setref_is_miss (I1 s) (ucast (block AND word_of_int (sets_min_1 (I1 s)))) block;
           if m1
           then do { (l, mL) \<leftarrow> cachesim_setref_is_miss (LL s) (ucast (block AND word_of_int (sets_min_1 (LL s)))) block;
                     Some (s\<lparr>I1 := i, LL := l\<rparr>, True, mL) }
           else Some (s\<lparr>I1 := i\<rparr>, False, False) })"

definition cachesim_D1_doref :: "cachesim \<Rightarrow> UWord \<Rightarrow> UChar \<Rightarrow> (cachesim \<times> bool \<times> bool) option" where
  "cachesim_D1_doref s a sz =
     do { (d, m1) \<leftarrow> cachesim_ref_is_miss (D1 s) a sz;
          if m1 then do { (l, mL) \<leftarrow> cachesim_ref_is_miss (LL s) a sz; Some (s\<lparr>D1 := d, LL := l\<rparr>, True, mL) }
          else Some (s\<lparr>D1 := d\<rparr>, False, False) }"

definition cachesim_is_IrNoX :: "cachesim \<Rightarrow> UWord \<Rightarrow> UChar \<Rightarrow> bool" where
  "cachesim_is_IrNoX s a sz =
     (if line_size_bits (I1 s) \<noteq> line_size_bits (LL s) then False
      else drop_bit (nat (line_size_bits (I1 s))) a = drop_bit (nat (line_size_bits (I1 s))) (a + ucast sz - 1))"

section \<open>One set\<close>

text \<open>What a reference does to the ways of one set: the tag moves to the front, and the last way is
  dropped when it was not there.\<close>

definition touch :: "'a \<Rightarrow> 'a list \<Rightarrow> 'a list" where
  "touch t ws = (if t \<in> set ws then t # remove1 t ws else t # butlast ws)"

lemma length_touch [simp]: "ws \<noteq> [] \<Longrightarrow> length (touch t ws) = length ws"
  by (cases ws) (auto simp: touch_def length_remove1)

lemma shuffle_length [simp]: "length (shuffle_down ts off j) = length ts"
  by (induction j arbitrary: ts) auto

lemma shuffle_nth:
  "off + j < length ts \<Longrightarrow> k < length ts \<Longrightarrow>
     shuffle_down ts off j ! k = (if off < k \<and> k \<le> off + j then ts ! (k - 1) else ts ! k)"
proof (induction j arbitrary: ts)
  case (Suc j)
  have "shuffle_down (ts[off + Suc j := ts ! (off + j)]) off j ! k
    = (if off < k \<and> k \<le> off + j then ts[off + Suc j := ts ! (off + j)] ! (k - 1) else ts[off + Suc j := ts ! (off + j)] ! k)"
    using Suc by (intro Suc.IH) simp_all
  then show ?case using Suc.prems by (auto simp: nth_list_update)
qed auto

lemma shuffle_segment:
  assumes "off + n \<le> length ts" "j < n" "ws = take n (drop off ts)"
  shows "(shuffle_down ts off j)[off := t] = take off ts @ (t # take j ws @ drop (Suc j) ws) @ drop (off + n) ts"
proof (rule nth_equalityI)
  show "length ((shuffle_down ts off j)[off := t]) = length (take off ts @ (t # take j ws @ drop (Suc j) ws) @ drop (off + n) ts)"
    using assms by simp
  fix k
  assume "k < length ((shuffle_down ts off j)[off := t])"
  then have k: "k < length ts" by simp
  then have "(shuffle_down ts off j)[off := t] ! k = (if k = off then t else if off < k \<and> k \<le> off + j then ts ! (k - 1) else ts ! k)"
    using assms shuffle_nth [of off j ts k] by (simp add: nth_list_update)
  also have "\<dots> = (take off ts @ (t # take j ws @ drop (Suc j) ws) @ drop (off + n) ts) ! k"
    using assms k by (auto simp: nth_append nth_Cons' not_less)
  finally show "(shuffle_down ts off j)[off := t] ! k = (take off ts @ (t # take j ws @ drop (Suc j) ws) @ drop (off + n) ts) ! k" .
qed

lemma remove1_first:
  assumes "i < length ws" "ws ! i = t" "\<And>j. j < i \<Longrightarrow> ws ! j \<noteq> t"
  shows "remove1 t ws = take i ws @ drop (Suc i) ws"
proof -
  have "ws = take i ws @ t # drop (Suc i) ws" using assms by (metis id_take_nth_drop)
  moreover have "t \<notin> set (take i ws)" using assms by (auto simp: in_set_conv_nth)
  ultimately show ?thesis by (metis remove1.simps(2) remove1_append)
qed

lemma setref_touch:
  assumes "off = unat (set_no * word_of_int (assoc c))" "n = nat (assoc c)" "1 \<le> n" "off + n \<le> length (tags c)"
  defines "ws \<equiv> take n (drop off (tags c))"
  shows "cachesim_setref_is_miss c set_no tag =
    Some (c\<lparr>tags := take off (tags c) @ touch tag ws @ drop (off + n) (tags c)\<rparr>, tag \<notin> set ws)"
proof -
  let ?ts = "tags c"
  have len: "length ws = n" and nth: "\<And>i. i < n \<Longrightarrow> ws ! i = ?ts ! (off + i)" using assms(4) by (simp_all add: ws_def)
  have split: "?ts = take off ?ts @ ws @ drop (off + n) ?ts"
    unfolding ws_def by (metis append_take_drop_id drop_drop add.commute)
  note seg = shuffle_segment [OF assms(4) _ meta_eq_to_obj_eq [OF ws_def]]
  show ?thesis
  proof (cases "tag = ?ts ! off")
    case True
    then have "ws = tag # tl ws" using len nth [of 0] assms(3) by (cases ws) auto
    then have "touch tag ws = ws" "tag \<in> set ws" unfolding touch_def by (metis list.set_intros(1) remove1.simps(2))+
    then show ?thesis using True assms(1-4) split by (simp add: cachesim_setref_is_miss_def Let_def)
  next
    case not0: False
    show ?thesis
    proof (cases "List.find (\<lambda>i. tag = ?ts ! (off + i)) [1..<n]")
      case None
      have "tag \<noteq> ws ! i" if "i < n" for i using find_NoneD [OF None, of i] not0 nth [OF that] that by (cases i) auto
      then have "tag \<notin> set ws" using len by (auto simp: in_set_conv_nth)
      moreover have "take (n - 1) ws @ drop (Suc (n - 1)) ws = butlast ws" using len assms(3) by (simp add: butlast_conv_take)
      ultimately show ?thesis using None not0 assms(1-4) seg [of "n - 1" tag]
        by (simp add: cachesim_setref_is_miss_def Let_def touch_def)
    next
      case (Some i)
      obtain d where d: "d < n - 1" "tag = ?ts ! (off + i)" "i = 1 + d" "\<And>e. e < d \<Longrightarrow> tag \<noteq> ?ts ! (off + (1 + e))"
        using Some by (auto simp: find_Some_iff)
      then have i: "i < n" "ws ! i = tag" using nth [of i] by simp_all
      have "ws ! j \<noteq> tag" if "j < i" for j
      proof (cases j)
        case 0
        then show ?thesis using not0 nth [of 0] i(1) by auto
      next
        case (Suc e)
        then show ?thesis using that d(3) d(4) [of e] nth [of j] i(1) by auto
      qed
      then have "remove1 tag ws = take i ws @ drop (Suc i) ws" "tag \<in> set ws"
        using i len by (auto simp: remove1_first)
      then show ?thesis using Some not0 assms(1-4) seg [OF i(1), of tag]
        by (simp add: cachesim_setref_is_miss_def Let_def touch_def)
    qed
  qed
qed

section \<open>Least recently used\<close>

text \<open>The blocks of a history, most recent first, without repetitions; a set of \<open>n\<close> ways holds the
  first \<open>n\<close> of them, and zeros before it is full.\<close>

fun recent :: "'a list \<Rightarrow> 'a list" where
  "recent [] = []"
| "recent (t # h) = t # removeAll t (recent h)"

lemma set_recent [simp]: "set (recent h) = set h"
  by (induction h) auto

lemma distinct_recent: "distinct (recent h)"
  by (induction h) (simp_all add: distinct_removeAll)

lemma touch_take:
  assumes "1 \<le> n" "n \<le> length xs"
  shows "touch t (take n xs) = take n (t # remove1 t xs)"
proof -
  obtain m where n: "n = Suc m" using assms(1) by (cases n) auto
  have split: "remove1 t xs = (if t \<in> set (take n xs) then remove1 t (take n xs) @ drop n xs else take n xs @ remove1 t (drop n xs))"
    by (metis append_take_drop_id remove1_append)
  show ?thesis
  proof (cases "t \<in> set (take n xs)")
    case True
    then have "length (remove1 t (take n xs)) = m" using assms(2) by (simp add: length_remove1 n)
    then show ?thesis using True split by (simp add: touch_def n)
  next
    case False
    then show ?thesis using split assms(2) by (simp add: touch_def n butlast_take)
  qed
qed

lemma touch_recent:
  assumes "1 \<le> n"
  shows "touch t (take n (recent h @ replicate n z)) = take n (recent (t # h) @ replicate n z)"
proof -
  have "touch t (take n (recent h @ replicate n z)) = take n (t # remove1 t (recent h @ replicate n z))"
    using assms by (intro touch_take) simp_all
  also have "\<dots> = take n (t # removeAll t (recent h) @ replicate n z)"
  proof (cases "t \<in> set h")
    case True
    then show ?thesis using distinct_recent [of h] by (simp add: remove1_append distinct_remove1_removeAll)
  next
    case False
    obtain m where n: "n = Suc m" using assms by (cases n) auto
    have "take m (recent h @ replicate m z) = take m (recent h @ replicate (Suc m) z)"
      by (simp add: take_append min_def del: replicate_Suc)
    then show ?thesis using False by (cases "t = z") (simp_all add: n remove1_append remove1_idem removeAll_id)
  qed
  finally show ?thesis by simp
qed

text \<open>A block is found if fewer than \<open>n\<close> other blocks were used since it was; a block that was never
  used is found only if it has the number 0 and the set is not full.\<close>

definition lru_hit :: "nat \<Rightarrow> UWord list \<Rightarrow> UWord \<Rightarrow> bool" where
  "lru_hit n h t =
     (if t \<in> set h then card (set (takeWhile (\<lambda>x. x \<noteq> t) h)) < n else t = 0 \<and> card (set h) < n)"

lemma set_takeWhile_recent: "t \<in> set h \<Longrightarrow> set (takeWhile (\<lambda>x. x \<noteq> t) (recent h)) = set (takeWhile (\<lambda>x. x \<noteq> t) h)"
proof (induction h)
  case (Cons x h)
  show ?case
  proof (cases "x = t")
    case False
    have "set (takeWhile (\<lambda>y. y \<noteq> t) (removeAll x ys)) = set (takeWhile (\<lambda>y. y \<noteq> t) ys) - {x}" for ys
      using False by (induction ys) auto
    then show ?thesis using Cons False by auto
  qed simp
qed simp

lemma in_take_distinct: "distinct xs \<Longrightarrow> t \<in> set (take n xs) \<longleftrightarrow> t \<in> set xs \<and> length (takeWhile (\<lambda>x. x \<noteq> t) xs) < n"
proof (induction xs arbitrary: n)
  case (Cons x xs)
  then show ?case by (cases n) auto
qed simp

lemma hit_iff:
  assumes "1 \<le> n"
  shows "t \<in> set (take n (recent h @ replicate n 0)) \<longleftrightarrow> lru_hit n h t"
proof -
  have len: "length (recent h) = card (set h)" using distinct_card [OF distinct_recent [of h]] by simp
  have "t \<in> set (take n (recent h @ replicate n 0)) \<longleftrightarrow> t \<in> set (take n (recent h)) \<or> t = 0 \<and> card (set h) < n"
    using len by (auto simp: min_def)
  moreover have "t \<in> set (take n (recent h)) \<longleftrightarrow> t \<in> set h \<and> card (set (takeWhile (\<lambda>x. x \<noteq> t) h)) < n"
  proof (cases "t \<in> set h")
    case True
    have "length (takeWhile (\<lambda>x. x \<noteq> t) (recent h)) = card (set (takeWhile (\<lambda>x. x \<noteq> t) h))"
      using distinct_card [OF distinct_takeWhile [OF distinct_recent]] set_takeWhile_recent [OF True] by metis
    then show ?thesis using in_take_distinct [OF distinct_recent, of t n h] True by simp
  qed (auto dest: in_set_takeD)
  moreover have "card (set (takeWhile (\<lambda>x. x \<noteq> t) h)) \<le> card (set h)" by (intro card_mono) (auto dest: set_takeWhileD)
  ultimately show ?thesis by (auto simp: lru_hit_def)
qed

section \<open>One cache\<close>

definition set_of :: "nat \<Rightarrow> UWord \<Rightarrow> nat" where
  "set_of j b = unat b mod 2 ^ j"

definition ways :: "nat \<Rightarrow> nat \<Rightarrow> UWord list \<Rightarrow> nat \<Rightarrow> UWord list" where
  "ways j n h s = take n (recent (filter (\<lambda>b. set_of j b = s) h) @ replicate n 0)"

text \<open>A cache with lines of \<open>2 ^ k\<close> bytes and \<open>2 ^ j\<close> sets of \<open>n\<close> ways that has seen the blocks \<open>h\<close>.\<close>

definition cache_inv :: "cache_t2 \<Rightarrow> nat \<Rightarrow> nat \<Rightarrow> nat \<Rightarrow> UWord list \<Rightarrow> bool" where
  "cache_inv c k j n h \<longleftrightarrow> line_size_bits c = int k \<and> sets_min_1 c = 2 ^ j - 1 \<and> assoc c = int n \<and> 1 \<le> n
     \<and> 2 ^ j * n < 2 ^ 31 \<and> 4 \<le> k \<and> k < 31 \<and> tags c = concat (map (ways j n h) [0..<2 ^ j])"

lemma length_ways [simp]: "length (ways j n h s) = n"
  by (simp add: ways_def)

lemma ways_Nil: "ways j n [] s = replicate n 0"
  by (simp add: ways_def)

lemma ways_Cons: "1 \<le> n \<Longrightarrow> ways j n (b # h) s = (if set_of j b = s then touch b (ways j n h s) else ways j n h s)"
  unfolding ways_def using touch_recent [of n b "filter (\<lambda>b. set_of j b = s) h" 0]
  by (simp del: take_append recent.simps)

lemma concat_ways_length: "length (concat (map (ways j n h) xs)) = length xs * n"
  by (induction xs) simp_all

lemma concat_split:
  "s < N \<Longrightarrow> concat (map f [0..<N]) = concat (map f [0..<s]) @ f s @ concat (map f [Suc s..<N])"
proof -
  assume "s < N"
  then have "[0..<N] = [0..<s] @ s # [Suc s..<N]" by (metis less_imp_add_positive upt_add_eq_append upt_conv_Cons zero_le less_imp_le)
  then show ?thesis by simp
qed

lemma set_index:
  assumes "j < 32"
  shows "unat (ucast (b AND word_of_int (2 ^ j - 1)) :: UInt) = set_of j b"
proof -
  have "(word_of_int (2 ^ j - 1) :: UWord) = mask j" by (simp add: mask_eq_exp_minus_1)
  then have "b AND word_of_int (2 ^ j - 1) = take_bit j b" by (simp add: take_bit_eq_mask)
  moreover have "unat (take_bit j b) = take_bit j (unat b)" by (rule unsigned_take_bit_eq)
  then have "unat (take_bit j b) = set_of j b" by (simp only: take_bit_eq_mod set_of_def)
  moreover have "(2 :: nat) ^ j \<le> 2 ^ 32" using assms by (intro power_increasing) simp_all
  then have "set_of j b < 2 ^ 32" unfolding set_of_def by (intro less_le_trans [OF mod_less_divisor]) simp_all
  ultimately show ?thesis by (simp add: unsigned_ucast_eq take_bit_nat_eq_self)
qed

lemma set_of_less: "set_of j b < 2 ^ j"
  by (simp add: set_of_def)

lemma exp_bound: "2 ^ j * n < (2 :: nat) ^ 31 \<Longrightarrow> 1 \<le> n \<Longrightarrow> j < 32"
proof (rule ccontr)
  assume h: "2 ^ j * n < (2 :: nat) ^ 31" "1 \<le> n" "\<not> j < 32"
  have "(2 :: nat) ^ 31 \<le> 2 ^ j" using h(3) by (intro power_increasing) simp_all
  then have "2 ^ 31 * 1 \<le> 2 ^ j * n" using h(2) by (rule mult_le_mono)
  then show False using h(1) by simp
qed

lemma setref_inv:
  assumes inv: "cache_inv c k j n h"
  shows "\<exists>c'. cachesim_setref_is_miss c (ucast (b AND word_of_int (sets_min_1 c))) b
      = Some (c', \<not> lru_hit n (filter (\<lambda>x. set_of j x = set_of j b) h) b) \<and> cache_inv c' k j n (b # h)"
proof -
  let ?N = "2 ^ j :: nat" and ?s = "set_of j b" and ?f = "ways j n h"
  note i = inv [unfolded cache_inv_def]
  have j: "j < 32" using exp_bound i by blast
  have s: "?s < ?N" by (rule set_of_less)
  have "?s * n \<le> ?N * n" using s by simp
  also have "?N * n < 2 ^ 31" using i by blast
  finally have lt: "?s * n < 2 ^ 32" by simp
  have "1 * n \<le> ?N * n" by (intro mult_le_mono1) simp
  also have "?N * n < 2 ^ 31" using i by blast
  finally have n32: "n < 2 ^ 32" by simp
  let ?w = "ucast (b AND word_of_int (sets_min_1 c)) :: UInt"
  have w: "unat ?w = ?s" using set_index [OF j] i by simp
  have off: "unat (?w * word_of_int (assoc c)) = ?s * n"
    using unat_mult32 [of ?w "of_nat n"] unat_of_nat32 [OF n32] w lt i by simp
  define A C where ac: "A = concat (map ?f [0..<?s])" "C = concat (map ?f [Suc ?s..<?N])"
  have tags: "tags c = A @ ?f ?s @ C" using i concat_split [OF s, of ?f] by (simp add: ac)
  have la: "length A = ?s * n" using concat_ways_length [of j n h "[0..<?s]"] by (simp add: ac)
  have parts: "take n (drop (?s * n) (tags c)) = ?f ?s" "take (?s * n) (tags c) = A" "drop (?s * n + n) (tags c) = C"
    by (simp_all add: tags la)
  have "cachesim_setref_is_miss c ?w b = Some (c\<lparr>tags := A @ touch b (?f ?s) @ C\<rparr>, b \<notin> set (?f ?s))"
    using setref_touch [OF off [symmetric], of n b] i parts by (simp add: tags la)
  moreover have "b \<in> set (?f ?s) \<longleftrightarrow> lru_hit n (filter (\<lambda>x. set_of j x = ?s) h) b" using hit_iff i by (simp add: ways_def)
  moreover have "A = concat (map (ways j n (b # h)) [0..<?s])" "C = concat (map (ways j n (b # h)) [Suc ?s..<?N])"
    unfolding ac using i by (intro arg_cong [of _ _ concat] map_cong; simp add: ways_Cons)+
  then have "A @ touch b (?f ?s) @ C = concat (map (ways j n (b # h)) [0..<?N])"
    using concat_split [OF s, of "ways j n (b # h)"] i by (simp add: ways_Cons)
  then have "cache_inv (c\<lparr>tags := A @ touch b (?f ?s) @ C\<rparr>) k j n (b # h)" using i by (simp add: cache_inv_def)
  ultimately show ?thesis by auto
qed

section \<open>Accesses\<close>

text \<open>The blocks an access touches.\<close>

definition blocks_of :: "nat \<Rightarrow> UWord \<Rightarrow> UChar \<Rightarrow> UWord list" where
  "blocks_of k a sz =
     (let b1 = drop_bit k a; b2 = drop_bit k (a + ucast sz - 1) in if b1 = b2 then [b1] else [b1, b2])"

text \<open>An access that does not wrap and is no longer than a line.\<close>

definition valid_access :: "nat \<Rightarrow> UWord \<times> UChar \<Rightarrow> bool" where
  "valid_access k acc \<longleftrightarrow> 1 \<le> unat (snd acc) \<and> unat (snd acc) \<le> 2 ^ k \<and> unat (fst acc) + unat (snd acc) \<le> 2 ^ 64"

text \<open>The specification: what a history of blocks becomes, and whether one of the blocks is missing.\<close>

fun lru_blocks :: "nat \<Rightarrow> nat \<Rightarrow> UWord list \<Rightarrow> UWord list \<Rightarrow> UWord list \<times> bool" where
  "lru_blocks j n h [] = (h, False)"
| "lru_blocks j n h (b # bs) =
     (let (h', m) = lru_blocks j n (b # h) bs in
      (h', \<not> lru_hit n (filter (\<lambda>x. set_of j x = set_of j b) h) b \<or> m))"

fun lru_run :: "nat \<Rightarrow> nat \<Rightarrow> nat \<Rightarrow> UWord list \<Rightarrow> (UWord \<times> UChar) list \<Rightarrow> bool list" where
  "lru_run k j n h [] = []"
| "lru_run k j n h (acc # accs) =
     (let (h', m) = lru_blocks j n h (blocks_of k (fst acc) (snd acc)) in m # lru_run k j n h' accs)"

fun run_cache :: "cache_t2 \<Rightarrow> (UWord \<times> UChar) list \<Rightarrow> (cache_t2 \<times> bool list) option" where
  "run_cache c [] = Some (c, [])"
| "run_cache c (acc # accs) =
     do { (c, m) \<leftarrow> cachesim_ref_is_miss c (fst acc) (snd acc);
          (c, ms) \<leftarrow> run_cache c accs; Some (c, m # ms) }"

lemma second_block:
  assumes "valid_access k (a, sz)" "drop_bit k a \<noteq> drop_bit k (a + ucast sz - 1)"
  shows "drop_bit k a + 1 = drop_bit k (a + ucast sz - 1)"
proof -
  note v = assms(1) [unfolded valid_access_def fst_conv snd_conv]
  have sz: "unat (ucast sz :: UWord) = unat sz"
  proof -
    have "unat sz < 2 ^ 64" using unsigned_less [of sz] by (rule less_trans) simp
    then show ?thesis by (simp add: unsigned_ucast_eq take_bit_nat_eq_self)
  qed
  have e: "a + ucast sz - 1 = a + (ucast sz - 1)" by simp
  have "(ucast sz :: UWord) \<noteq> 0" using sz v by (metis not_one_le_zero unat_0)
  then have "unat (ucast sz - 1 :: UWord) = unat sz - 1" using sz by (simp add: unat_minus_one)
  then have last: "unat (a + ucast sz - 1) = unat a + (unat sz - 1)" 
  proof -
    have "unat a + (unat sz - 1) < 2 ^ 64" using v by linarith
    then show ?thesis unfolding e by (simp add: unat_word_ariths \<open>unat (ucast sz - 1) = unat sz - 1\<close> [simplified])
  qed
  have d: "unat (drop_bit k x) = unat x div 2 ^ k" for x :: UWord
    using unat_drop_bit_eq [of k x] drop_bit_eq_div [of k "unat x"] by (rule trans)
  have "unat (drop_bit k a) \<noteq> unat (drop_bit k (a + ucast sz - 1))" using assms(2) by (simp add: word_unat_eq_iff)
  moreover have "unat (drop_bit k (a + ucast sz - 1)) \<le> unat (drop_bit k a) + 1"
  proof -
    have "unat a + (unat sz - 1) \<le> unat a + 2 ^ k" using v by linarith
    then have "(unat a + (unat sz - 1)) div 2 ^ k \<le> (unat a + 2 ^ k) div 2 ^ k" by (rule div_le_mono)
    moreover have "(unat a + 2 ^ k) div 2 ^ k = unat a div 2 ^ k + 1" by (rule div_add_self2) simp
    ultimately show ?thesis unfolding d last by simp
  qed
  moreover have "unat (drop_bit k a) \<le> unat (drop_bit k (a + ucast sz - 1))" unfolding d last by (rule div_le_mono) simp
  ultimately have b2: "unat (drop_bit k (a + ucast sz - 1)) = unat (drop_bit k a) + 1" by simp
  moreover have "unat x < 2 ^ 64" for x :: UWord using unsigned_less [of x] by simp
  then have "unat (drop_bit k (a + ucast sz - 1)) < 2 ^ 64" .
  ultimately have "unat (drop_bit k a + 1) = unat (drop_bit k (a + ucast sz - 1))" by (simp add: unat_word_ariths)
  then show ?thesis by (simp only: word_unat_eq_iff)
qed

lemma ref_inv:
  assumes "cache_inv c k j n h" "valid_access k (a, sz)"
  shows "\<exists>c'. cachesim_ref_is_miss c a sz = Some (c', snd (lru_blocks j n h (blocks_of k a sz)))
    \<and> cache_inv c' k j n (fst (lru_blocks j n h (blocks_of k a sz)))"
proof -
  let ?b1 = "drop_bit k a" and ?b2 = "drop_bit k (a + ucast sz - 1)"
  have k: "nat (line_size_bits c) = k" using assms(1) by (simp add: cache_inv_def)
  from setref_inv [OF assms(1), of ?b1] obtain c1 where c1:
    "cachesim_setref_is_miss c (ucast (?b1 AND word_of_int (sets_min_1 c))) ?b1
      = Some (c1, \<not> lru_hit n (filter (\<lambda>x. set_of j x = set_of j ?b1) h) ?b1)" "cache_inv c1 k j n (?b1 # h)" by blast
  show ?thesis
  proof (cases "?b1 = ?b2")
    case True
    then show ?thesis using c1 by (simp add: cachesim_ref_is_miss_def k blocks_of_def Let_def)
  next
    case False
    from setref_inv [OF c1(2), of ?b2] obtain c2 where c2:
      "cachesim_setref_is_miss c1 (ucast (?b2 AND word_of_int (sets_min_1 c1))) ?b2
        = Some (c2, \<not> lru_hit n (filter (\<lambda>x. set_of j x = set_of j ?b2) (?b1 # h)) ?b2)" "cache_inv c2 k j n (?b2 # ?b1 # h)" by blast
    have "sets_min_1 c1 = sets_min_1 c" using assms(1) c1(2) by (simp add: cache_inv_def)
    then show ?thesis using False second_block [OF assms(2) False] c1(1) c2
      by (simp add: cachesim_ref_is_miss_def k blocks_of_def Let_def)
  qed
qed

lemma run_inv:
  "cache_inv c k j n h \<Longrightarrow> \<forall>acc \<in> set accs. valid_access k acc \<Longrightarrow>
     \<exists>c'. run_cache c accs = Some (c', lru_run k j n h accs)"
proof (induction accs arbitrary: c h)
  case (Cons acc accs)
  obtain a sz where acc: "acc = (a, sz)" by force
  from ref_inv [of c k j n h a sz] Cons.prems obtain c1 where
    c1: "cachesim_ref_is_miss c a sz = Some (c1, snd (lru_blocks j n h (blocks_of k a sz)))"
      "cache_inv c1 k j n (fst (lru_blocks j n h (blocks_of k a sz)))" by (auto simp: acc)
  from Cons.IH [OF c1(2)] Cons.prems obtain c2 where
    "run_cache c1 accs = Some (c2, lru_run k j n (fst (lru_blocks j n h (blocks_of k a sz))) accs)" by auto
  then show ?case using c1(1) by (simp add: acc case_prod_beta)
qed simp

lemma geometry_div:
  assumes "cache_geometry c k j"
  shows "int_div (csize c) (line_size c) = Some (assoc c * 2 ^ j)" "int_div (assoc c * 2 ^ j) (assoc c) = Some (2 ^ j)"
    "assoc c * 2 ^ j < 2 ^ 31" "k < 31"
proof -
  note g = assms [unfolded cache_geometry_def]
  have l: "1 \<le> line_size c" "0 \<le> assoc c * 2 ^ j" using g by simp_all
  have s: "csize c = line_size c * (assoc c * 2 ^ j)" using g by simp
  have "1 * (assoc c * 2 ^ j) \<le> csize c" unfolding s using l by (intro mult_right_mono) simp_all
  then have le: "assoc c * 2 ^ j \<le> csize c" by simp
  also have c31: "csize c < 2 ^ 31" using g by blast
  finally show lt: "assoc c * 2 ^ j < 2 ^ 31" .
  have r: "int32 x = Some x" if "0 \<le> x" "x < 2 ^ 31" for x
    unfolding int32_Some using that by (auto intro: order_trans [of _ 0])
  have "csize c sdiv line_size c = assoc c * 2 ^ j" using l s sdiv_pos [of "csize c" "line_size c"] by simp
  then show "int_div (csize c) (line_size c) = Some (assoc c * 2 ^ j)" using r [OF l(2) lt] l by (simp add: int_div_def)
  have "2 ^ j \<le> assoc c * 2 ^ j" using g by (simp add: mult_le_cancel_right1)
  then have "int32 (2 ^ j) = Some (2 ^ j)" using lt by (intro r) (simp, rule le_less_trans)
  then show "int_div (assoc c * 2 ^ j) (assoc c) = Some (2 ^ j)"
    using g sdiv_pos [of "assoc c * 2 ^ j" "assoc c"] by (simp add: int_div_def)
  show "k < 31"
  proof (rule ccontr)
    assume "\<not> k < 31"
    then have "(2 :: int) ^ 31 \<le> 2 ^ k" by (intro power_increasing) simp_all
    also have "(2 :: int) ^ k = line_size c" using g by simp
    also have "line_size c < csize c" using g by blast
    finally show False using c31 by (rule less_asym)
  qed
qed

lemma init_inv:
  assumes "cache_geometry config k j"
  shows "\<exists>c. cachesim_initcache config = Some c \<and> cache_inv c k j (nat (assoc config)) []"
proof -
  let ?n = "nat (assoc config)"
  note g = assms [unfolded cache_geometry_def] and d = geometry_div [OF assms]
  have "1 \<le> assoc config" using g by blast
  then have n: "int ?n = assoc config" "1 \<le> ?n" by simp_all
  have "vg_log2 (word_of_int (line_size config)) = int k" using log2_exp [of k] d(4) g by simp
  moreover have "int (2 ^ j * ?n) < int (2 ^ 31)" using d(3) n(1) by (simp add: mult.commute)
  then have "2 ^ j * ?n < 2 ^ 31" by (simp only: of_nat_less_iff)
  moreover have "nat (2 ^ j * assoc config) = 2 ^ j * ?n" using g by (simp add: nat_mult_distrib nat_power_eq)
  moreover have "concat (map (ways j ?n []) [0..<N]) = replicate (N * ?n) 0" for N
    by (induction N) (simp_all add: ways_Nil replicate_add [symmetric] add.commute)
  ultimately show ?thesis using d n g by (simp add: cachesim_initcache_def cache_inv_def)
qed

text \<open>C32: A simulated cache is a set-associative cache with least-recently-used replacement. For every accepted
  configuration and every sequence of accesses no longer than a line, the simulator reaches neither its panic
  nor a tag outside its array, and reports a miss exactly when one of the blocks of the access is
  not among the last \<open>assoc\<close> distinct blocks used in its set. (Block 0 counts as present in a
  set that is not full, because the tags start as zeros.)\<close>

theorem cache_is_lru:
  assumes "cache_geometry config k j" "\<forall>acc \<in> set accs. valid_access k acc"
  shows "\<exists>c c'. cachesim_initcache config = Some c
    \<and> run_cache c accs = Some (c', lru_run k j (nat (assoc config)) [] accs)"
  using init_inv [OF assms(1)] run_inv [OF _ assms(2)] by blast

text \<open>Two sets of two ways with lines of 16 bytes: the third line of a set evicts the first.\<close>

theorem cache_is_lru_witness:
  "\<exists>c c'. cachesim_initcache \<lparr>csize = 64, assoc = 2, line_size = 16\<rparr> = Some c
    \<and> run_cache c [(32, 4), (64, 4), (32, 4), (96, 4), (64, 4), (110, 4)]
        = Some (c', [True, True, False, True, True, True])"
proof -
  have "cache_geometry \<lparr>csize = 64, assoc = 2, line_size = 16\<rparr> 4 1" by (simp add: cache_geometry_def)
  moreover have "\<forall>acc \<in> set [(32, 4), (64, 4), (32, 4), (96, 4), (64, 4), (110, 4)]. valid_access 4 acc"
    by (simp add: valid_access_def)
  moreover have "lru_run 4 1 2 [] [(32, 4), (64, 4), (32, 4), (96, 4), (64, 4), (110, 4)] = [True, True, False, True, True, True]"
    by code_simp
  ultimately show ?thesis using cache_is_lru [of "\<lparr>csize = 64, assoc = 2, line_size = 16\<rparr>" 4 1] by fastforce
qed

section \<open>More ways, fewer misses\<close>

lemma lru_hit_mono: "n \<le> m \<Longrightarrow> lru_hit n h b \<Longrightarrow> lru_hit m h b"
  by (auto simp: lru_hit_def split: if_splits)

lemma lru_blocks_mono:
  "n \<le> m \<Longrightarrow> fst (lru_blocks j m h bs) = fst (lru_blocks j n h bs)
     \<and> (snd (lru_blocks j m h bs) \<longrightarrow> snd (lru_blocks j n h bs))"
  by (induction bs arbitrary: h) (auto simp: case_prod_beta dest: lru_hit_mono)

lemma lru_run_mono: "n \<le> m \<Longrightarrow> list_all2 (\<longrightarrow>) (lru_run k j m h accs) (lru_run k j n h accs)"
proof (induction accs arbitrary: h)
  case (Cons acc accs)
  then show ?case using lru_blocks_mono [of n m j h "blocks_of k (fst acc) (snd acc)"]
    by (auto simp: case_prod_beta)
qed simp

text \<open>Of two caches with the same sets and lines, the one with more ways misses only where the
  other one misses: adding ways never adds a miss.\<close>

theorem more_ways_fewer_misses:
  assumes "cache_geometry config k j" "cache_geometry config' k j" "assoc config \<le> assoc config'"
    and "\<forall>acc \<in> set accs. valid_access k acc"
    and "cachesim_initcache config = Some c" "run_cache c accs = Some (c1, ms)"
    and "cachesim_initcache config' = Some c'" "run_cache c' accs = Some (c1', ms')"
  shows "list_all2 (\<longrightarrow>) ms' ms"
proof -
  have "ms = lru_run k j (nat (assoc config)) [] accs"
    using init_inv [OF assms(1)] run_inv [OF _ assms(4)] assms(5,6) by fastforce
  moreover have "ms' = lru_run k j (nat (assoc config')) [] accs"
    using init_inv [OF assms(2)] run_inv [OF _ assms(4)] assms(7,8) by fastforce
  ultimately show ?thesis using lru_run_mono assms(3) by simp
qed

section \<open>The shortcut for instruction reads\<close>

text \<open>Where \<open>cachesim_is_IrNoX\<close> allows it, the shortcut does what the general function does.\<close>

lemma NoX_eq_Gen: "cachesim_is_IrNoX s a sz \<Longrightarrow> cachesim_I1_doref_NoX s a sz = cachesim_I1_doref_Gen s a sz"
proof -
  assume "cachesim_is_IrNoX s a sz"
  then have "cachesim_ref_is_miss c a sz =
      cachesim_setref_is_miss c (ucast (drop_bit (nat (line_size_bits (I1 s))) a AND word_of_int (sets_min_1 c)))
        (drop_bit (nat (line_size_bits (I1 s))) a)" if "line_size_bits c = line_size_bits (I1 s)" for c
    using that by (simp add: cachesim_is_IrNoX_def cachesim_ref_is_miss_def Let_def split: if_splits)
  moreover have "line_size_bits (LL s) = line_size_bits (I1 s)"
    using \<open>cachesim_is_IrNoX s a sz\<close> by (simp add: cachesim_is_IrNoX_def split: if_splits)
  ultimately show ?thesis by (simp add: cachesim_I1_doref_NoX_def cachesim_I1_doref_Gen_def Let_def cong: if_cong)
qed

end
