(* ===== verification/BranchPred.thy ===== *)
theory BranchPred
  imports Prelude
begin

text \<open>
  Cachegrind's branch predictors, \<open>cachegrind/cg_branchpred.c\<close>: the static variables as a record,
  the two prediction functions with their assertions. The number of low address bits that are zero is that of
  amd64. The specifications are a table of two-bit saturating counters indexed by the last seven
  outcomes and seven address bits, replayed from the whole history of branches, and the last
  target of an indirect branch with the same nine address bits.
\<close>

section \<open>The predictors\<close>

definition N_IADDR_LO_ZERO_BITS :: nat where
  "N_IADDR_LO_ZERO_BITS = 0"

definition N_HIST_BITS :: nat where
  "N_HIST_BITS = 7"

definition N_IADD_BITS :: nat where
  "N_IADD_BITS = 7"

definition N_BITS :: nat where
  "N_BITS = N_HIST_BITS + N_IADD_BITS"

definition N_BTAC_BITS :: nat where
  "N_BTAC_BITS = 9"

record bpred =
  shift_register :: UWord
  counters :: "UChar list"
  btac :: "UWord list"

definition bpred_init :: bpred where
  "bpred_init = \<lparr>shift_register = 0, counters = replicate (2 ^ N_BITS) 0, btac = replicate (2 ^ N_BTAC_BITS) 0\<rparr>"

text \<open>The saturating increment and decrement of a counter.\<close>

definition bump :: "bool \<Rightarrow> UChar \<Rightarrow> UChar" where
  "bump actually_taken c =
     (if actually_taken then (if c < 3 then c + 1 else c) else (if c > 0 then c - 1 else c))"

definition do_cond_branch_predict :: "bpred \<Rightarrow> UWord \<Rightarrow> int \<Rightarrow> (bpred \<times> ULong) option" where
  "do_cond_branch_predict s instr_addr takenW =
     (let hist_mask = push_bit N_HIST_BITS 1 - 1;
          iadd_mask = push_bit N_IADD_BITS 1 - 1;
          hist_bits = shift_register s AND hist_mask;
          iadd_bits = drop_bit N_IADDR_LO_ZERO_BITS instr_addr AND iadd_mask in
      do { vg_assert (hist_bits \<le> hist_mask);
           vg_assert (iadd_bits \<le> iadd_mask);
           let indx = push_bit N_IADD_BITS hist_bits OR iadd_bits in
           do { vg_assert (indx < push_bit N_BITS 1);
                vg_assert (takenW \<le> 1);
                let predicted_taken = counters s ! unat indx \<ge> 2;
                    actually_taken = takenW > 0;
                    mispredict = (actually_taken \<and> \<not> predicted_taken) \<or> (\<not> actually_taken \<and> predicted_taken);
                    sr = push_bit 1 (shift_register s) OR (if actually_taken then 1 else 0);
                    c' = bump actually_taken (counters s ! unat indx) in
                do { vg_assert (c' \<le> 3);
                     Some (s\<lparr>shift_register := sr, counters := (counters s)[unat indx := c']\<rparr>, if mispredict then 1 else 0) } } })"

definition do_ind_branch_predict :: "bpred \<Rightarrow> UWord \<Rightarrow> UWord \<Rightarrow> (bpred \<times> ULong) option" where
  "do_ind_branch_predict s instr_addr actual =
     (let indx = drop_bit N_IADDR_LO_ZERO_BITS instr_addr AND (push_bit N_BTAC_BITS 1 - 1) in
      do { vg_assert (indx < push_bit N_BTAC_BITS 1);
           Some (s\<lparr>btac := (btac s)[unat indx := actual]\<rparr>, if btac s ! unat indx \<noteq> actual then 1 else 0) })"

lemmas bp_consts = N_IADDR_LO_ZERO_BITS_def N_HIST_BITS_def N_IADD_BITS_def N_BITS_def N_BTAC_BITS_def

section \<open>Specification\<close>

text \<open>The branches executed so far, the most recent first: address and outcome.\<close>

type_synonym cond_trace = "(UWord \<times> bool) list"

definition history :: "cond_trace \<Rightarrow> bool list" where
  "history tr = take 7 (map snd tr @ replicate 7 False)"

fun saturate :: "bool \<Rightarrow> nat \<Rightarrow> nat" where
  "saturate True n = min 3 (n + 1)"
| "saturate False n = n - 1"

fun counter :: "bool list \<Rightarrow> UWord \<Rightarrow> cond_trace \<Rightarrow> nat" where
  "counter bs w [] = 0"
| "counter bs w ((a, taken) # tr) =
     (if history tr = bs \<and> take_bit 7 a = w then saturate taken (counter bs w tr) else counter bs w tr)"

definition spec_mispredict :: "cond_trace \<Rightarrow> UWord \<Rightarrow> bool \<Rightarrow> bool" where
  "spec_mispredict tr a taken \<longleftrightarrow> taken \<noteq> (2 \<le> counter (history tr) (take_bit 7 a) tr)"

lemma counter_le: "counter bs w tr \<le> 3"
proof (induction tr rule: counter.induct)
  case (2 bs w a taken tr)
  then show ?case by (cases taken) auto
qed simp

section \<open>The index\<close>

definition index_of :: "bool list \<Rightarrow> UWord \<Rightarrow> UWord" where
  "index_of bs w = push_bit 7 (horner_sum of_bool 2 bs) OR w"

lemma bit_index:
  assumes "length bs = 7" "take_bit 7 w = w"
  shows "bit (index_of bs w) i \<longleftrightarrow> (if i < 7 then bit w i else i < 14 \<and> bs ! (i - 7))"
proof (cases "i < 64")
  case True
  have "bit w i \<Longrightarrow> i < 7" using assms(2) by (metis bit_take_bit_iff)
  then show ?thesis using True assms(1)
    by (auto simp: index_of_def bit_or_iff bit_push_bit_iff bit_horner_sum_bit_iff)
next
  case False
  then show ?thesis using bit_imp_le_length [of "index_of bs w" i] by (auto simp: not_less)
qed

lemma index_inj:
  assumes "length bs = 7" "take_bit 7 w = w" "length bs' = 7" "take_bit 7 w' = w'"
  shows "index_of bs w = index_of bs' w' \<longleftrightarrow> bs = bs' \<and> w = w'"
proof
  assume eq: "index_of bs w = index_of bs' w'"
  have b: "(if i < 7 then bit w i else i < 14 \<and> bs ! (i - 7)) = (if i < 7 then bit w' i else i < 14 \<and> bs' ! (i - 7))" for i
    using bit_index [OF assms(1,2), of i] bit_index [OF assms(3,4), of i] eq by simp
  have "bs = bs'"
  proof (rule nth_equalityI)
    fix i
    assume "i < length bs"
    then show "bs ! i = bs' ! i" using b [of "i + 7"] assms(1) by simp
  qed (simp add: assms)
  moreover have "w = w'"
  proof (rule bit_word_eqI)
    fix i
    show "bit w i = bit w' i" using b [of i] assms(2,4) by (metis bit_take_bit_iff)
  qed
  ultimately show "bs = bs' \<and> w = w'" ..
qed simp

lemma index_bound:
  assumes "length bs = 7" "take_bit 7 w = w"
  shows "unat (index_of bs w) < 2 ^ 14"
proof -
  have "take_bit 14 (index_of bs w) = index_of bs w"
    by (rule bit_word_eqI) (auto simp: bit_take_bit_iff bit_index [OF assms])
  then have "unat (index_of bs w) = take_bit 14 (unat (index_of bs w))" by (metis unsigned_take_bit_eq)
  also have "\<dots> < 2 ^ 14" by (rule take_bit_nat_less_exp)
  finally show ?thesis .
qed

section \<open>Conditional branches\<close>

definition bp_inv :: "bpred \<Rightarrow> cond_trace \<Rightarrow> bool" where
  "bp_inv s tr \<longleftrightarrow> length (counters s) = 2 ^ 14
     \<and> (\<forall>i < 64. bit (shift_register s) i \<longleftrightarrow> i < length tr \<and> snd (tr ! i))
     \<and> (\<forall>bs w. length bs = 7 \<longrightarrow> take_bit 7 w = w \<longrightarrow> counters s ! unat (index_of bs w) = of_nat (counter bs w tr))"

lemma length_history [simp]: "length (history tr) = 7"
  by (simp add: history_def)

lemma hist_index:
  assumes "bp_inv s tr"
  shows "push_bit 7 (shift_register s AND mask 7) OR (a AND mask 7) = index_of (history tr) (take_bit 7 a)"
proof (rule bit_word_eqI)
  fix i
  assume i: "i < LENGTH(64)"
  have "history tr ! j \<longleftrightarrow> j < length tr \<and> snd (tr ! j)" if "j < 7" for j
    using that by (auto simp: history_def nth_append)
  then show "bit (push_bit 7 (shift_register s AND mask 7) OR (a AND mask 7)) i \<longleftrightarrow> bit (index_of (history tr) (take_bit 7 a)) i"
    using i assms by (auto simp: bit_index bit_or_iff bit_push_bit_iff bit_and_iff bit_mask_iff bit_take_bit_iff bp_inv_def)
qed

lemma of_nat_counter: "n \<le> 3 \<Longrightarrow> unat (of_nat n :: UChar) = n"
  by (simp add: unat_of_nat take_bit_nat_eq_self)

lemma saturate_word:
  assumes "n \<le> 3"
  shows "bump t (of_nat n) = of_nat (saturate t n)"
proof -
  consider "n = 0" | "n = 1" | "n = 2" | "n = 3" using assms by linarith
  then show ?thesis by cases (cases t; simp add: bump_def)+
qed

lemma bit_shift:
  assumes "i < 64"
  shows "bit (push_bit 1 x OR (if t then 1 else 0) :: UWord) i \<longleftrightarrow> (if i = 0 then t else bit x (i - 1))"
proof -
  have "bit (if t then 1 else 0 :: UWord) i \<longleftrightarrow> t \<and> i = 0" by (simp add: bit_1_iff)
  then show ?thesis using assms unfolding bit_or_iff bit_push_bit_iff by auto
qed

lemma cond_step:
  assumes inv: "bp_inv s tr" and t: "takenW = (if taken then 1 else 0)"
  shows "\<exists>s'. do_cond_branch_predict s a takenW = Some (s', if spec_mispredict tr a taken then 1 else 0)
    \<and> bp_inv s' ((a, taken) # tr) \<and> btac s' = btac s"
proof -
  let ?bs = "history tr" and ?w = "take_bit 7 a" and ?m = "mask 7 :: UWord"
  let ?ix = "index_of ?bs ?w" and ?n = "counter (history tr) (take_bit 7 a) tr"
  have w: "take_bit 7 ?w = ?w" by simp
  have ix: "unat ?ix < 2 ^ 14" using index_bound [OF length_history w] .
  have c: "counters s ! unat ?ix = of_nat ?n" "length (counters s) = 2 ^ 14" using inv w by (simp_all add: bp_inv_def)
  have m: "push_bit 7 1 - 1 = ?m" by (simp add: mask_eq_exp_minus_1)
  have n: "?n \<le> 3" "saturate taken ?n \<le> 3" using counter_le [of ?bs ?w tr] by (cases taken; simp)+
  let ?s' = "s\<lparr>shift_register := push_bit 1 (shift_register s) OR (if taken then 1 else 0),
      counters := (counters s)[unat ?ix := of_nat (saturate taken ?n)]\<rparr>"
  have "(2 \<le> (of_nat ?n :: UChar)) \<longleftrightarrow> 2 \<le> ?n" using of_nat_counter [OF n(1)] by (simp add: word_le_nat_alt)
  moreover have "(of_nat (saturate taken ?n) :: UChar) \<le> 3" using of_nat_counter [OF n(2)] n(2) by (simp add: word_le_nat_alt)
  moreover have "?ix < push_bit 14 1" using ix by (simp add: word_less_nat_alt)
  moreover have "a AND ?m \<le> ?m" "shift_register s AND ?m \<le> ?m" by (simp_all add: word_and_le1)
  ultimately have "do_cond_branch_predict s a takenW = Some (?s', if spec_mispredict tr a taken then 1 else 0)"
    using c saturate_word [OF n(1), of taken] hist_index [OF inv, of a] m
    by (cases taken) (simp_all add: do_cond_branch_predict_def bp_consts Let_def t spec_mispredict_def del: saturate.simps)
  moreover have "bp_inv ?s' ((a, taken) # tr)"
    unfolding bp_inv_def
  proof (intro conjI allI impI)
    fix i :: nat
    assume i: "i < 64"
    have "bit (shift_register ?s') i \<longleftrightarrow> (if i = 0 then taken else bit (shift_register s) (i - 1))"
      using bit_shift [OF i, of "shift_register s" taken] by simp
    then show "bit (shift_register ?s') i \<longleftrightarrow> i < length ((a, taken) # tr) \<and> snd (((a, taken) # tr) ! i)"
      using inv i by (cases i) (simp_all add: bp_inv_def)
  next
    fix bs w
    assume h: "length (bs :: bool list) = 7" "take_bit 7 (w :: UWord) = w"
    show "counters ?s' ! unat (index_of bs w) = of_nat (counter bs w ((a, taken) # tr))"
      using index_inj [OF length_history w h, of tr] c(2) ix h inv
      by (auto simp: bp_inv_def nth_list_update word_unat_eq_iff [symmetric])
  qed (simp add: c(2))
  ultimately show ?thesis by auto
qed

fun run_cond :: "bpred \<Rightarrow> (UWord \<times> bool) list \<Rightarrow> (bpred \<times> ULong list) option" where
  "run_cond s [] = Some (s, [])"
| "run_cond s ((a, taken) # bs) =
     do { (s, m) \<leftarrow> do_cond_branch_predict s a (if taken then 1 else 0);
          (s, ms) \<leftarrow> run_cond s bs; Some (s, m # ms) }"

fun spec_cond :: "cond_trace \<Rightarrow> (UWord \<times> bool) list \<Rightarrow> ULong list" where
  "spec_cond tr [] = []"
| "spec_cond tr ((a, taken) # bs) = (if spec_mispredict tr a taken then 1 else 0) # spec_cond ((a, taken) # tr) bs"

lemma run_cond_spec: "bp_inv s tr \<Longrightarrow> \<exists>s'. run_cond s bs = Some (s', spec_cond tr bs)"
proof (induction bs arbitrary: s tr)
  case (Cons b bs)
  obtain a taken where b: "b = (a, taken)" by force
  from cond_step [OF Cons.prems refl, of a taken] obtain s1 where
    s1: "do_cond_branch_predict s a (if taken then 1 else 0) = Some (s1, if spec_mispredict tr a taken then 1 else 0)"
      "bp_inv s1 ((a, taken) # tr)" by blast
  from Cons.IH [OF s1(2)] obtain s2 where "run_cond s1 bs = Some (s2, spec_cond ((a, taken) # tr) bs)" by blast
  then show ?case using s1(1) by (simp add: b)
qed simp

lemma bp_inv_init: "bp_inv bpred_init []"
  using index_bound by (auto simp: bp_inv_def bpred_init_def bp_consts)

section \<open>Indirect branches\<close>

fun last_target :: "(UWord \<times> UWord) list \<Rightarrow> UWord \<Rightarrow> UWord" where
  "last_target [] a = 0"
| "last_target ((b, dst) # tr) a = (if take_bit 9 b = take_bit 9 a then dst else last_target tr a)"

fun run_ind :: "bpred \<Rightarrow> (UWord \<times> UWord) list \<Rightarrow> (bpred \<times> ULong list) option" where
  "run_ind s [] = Some (s, [])"
| "run_ind s ((a, dst) # bs) =
     do { (s, m) \<leftarrow> do_ind_branch_predict s a dst; (s, ms) \<leftarrow> run_ind s bs; Some (s, m # ms) }"

fun spec_ind :: "(UWord \<times> UWord) list \<Rightarrow> (UWord \<times> UWord) list \<Rightarrow> ULong list" where
  "spec_ind tr [] = []"
| "spec_ind tr ((a, dst) # bs) = (if last_target tr a \<noteq> dst then 1 else 0) # spec_ind ((a, dst) # tr) bs"

definition ind_inv :: "bpred \<Rightarrow> (UWord \<times> UWord) list \<Rightarrow> bool" where
  "ind_inv s tr \<longleftrightarrow> length (btac s) = 2 ^ 9 \<and> (\<forall>a. btac s ! unat (take_bit 9 a) = last_target tr a)"

lemma ind_step:
  assumes "ind_inv s tr"
  shows "\<exists>s'. do_ind_branch_predict s a dst = Some (s', if last_target tr a \<noteq> dst then 1 else 0) \<and> ind_inv s' ((a, dst) # tr)"
proof -
  have m: "a AND 511 = take_bit 9 a" by (simp add: take_bit_eq_mask mask_eq_exp_minus_1)
  have "unat (take_bit 9 b) = take_bit 9 (unat b)" for b :: UWord by (rule unsigned_take_bit_eq)
  then have lt: "unat (take_bit 9 b) < 2 ^ 9" for b :: UWord by (simp only: take_bit_nat_less_exp)
  then have "take_bit 9 a < push_bit 9 1" by (simp add: word_less_nat_alt)
  then have "do_ind_branch_predict s a dst =
      Some (s\<lparr>btac := (btac s)[unat (take_bit 9 a) := dst]\<rparr>, if last_target tr a \<noteq> dst then 1 else 0)"
    using assms by (simp add: do_ind_branch_predict_def bp_consts Let_def m ind_inv_def)
  moreover have "ind_inv (s\<lparr>btac := (btac s)[unat (take_bit 9 a) := dst]\<rparr>) ((a, dst) # tr)"
    using assms lt [of a] by (auto simp: ind_inv_def nth_list_update word_unat_eq_iff [symmetric])
  ultimately show ?thesis by blast
qed

lemma run_ind_spec: "ind_inv s tr \<Longrightarrow> \<exists>s'. run_ind s bs = Some (s', spec_ind tr bs)"
proof (induction bs arbitrary: s tr)
  case (Cons b bs)
  obtain a dst where b: "b = (a, dst)" by force
  from ind_step [OF Cons.prems, of a dst] obtain s1 where
    s1: "do_ind_branch_predict s a dst = Some (s1, if last_target tr a \<noteq> dst then 1 else 0)" "ind_inv s1 ((a, dst) # tr)" by blast
  from Cons.IH [OF s1(2)] obtain s2 where "run_ind s1 bs = Some (s2, spec_ind ((a, dst) # tr) bs)" by blast
  then show ?case using s1(1) by (simp add: b)
qed simp

lemma ind_inv_init: "ind_inv bpred_init []"
proof -
  have "unat (take_bit 9 b) = take_bit 9 (unat b)" for b :: UWord by (rule unsigned_take_bit_eq)
  then have "unat (take_bit 9 b) < 2 ^ 9" for b :: UWord by (simp only: take_bit_nat_less_exp)
  then show ?thesis by (simp add: ind_inv_def bpred_init_def bp_consts)
qed

text \<open>C33: From the initial state, both predictors fail no assertion on any sequence of branches. The
  conditional predictor mispredicts exactly when the outcome differs from the two-bit counter that has seen the earlier
  branches with the same last seven outcomes and the same seven address bits; the indirect one
  when the target differs from the last one with the same nine address bits.\<close>

theorem branch_predictors_correct:
  "(\<exists>s'. run_cond bpred_init cs = Some (s', spec_cond [] cs)) \<and> (\<exists>s'. run_ind bpred_init is = Some (s', spec_ind [] is))"
  using run_cond_spec [OF bp_inv_init] run_ind_spec [OF ind_inv_init] by blast

end
