(* ===== verification/IR.thy ===== *)
theory IR
  imports Prelude "HOL-Library.Word"
begin

unbundle bit_operations_syntax

text \<open>
  The intermediate representation of VEX as far as the instrumentation of Cachegrind reads it:
  types, constants, expressions and statements of \<open>VEX/pub/libvex_ir.h\<close>, and the functions of
  \<open>VEX/priv/ir_defs.c\<close> on them. Callees, endianness, rounding and the guest-state
  effects of helper calls, which the instrumentation copies and never inspects, are numbers. Of
  the operators only those that the instrumentation builds have names. A type environment is the list
  of the types of the temporaries.
\<close>

section \<open>Data\<close>

datatype IRType =
    Ity_INVALID | Ity_I1 | Ity_I8 | Ity_I16 | Ity_I32 | Ity_I64 | Ity_I128 | Ity_F16 | Ity_F32 | Ity_F64
  | Ity_D32 | Ity_D64 | Ity_D128 | Ity_F128 | Ity_V128 | Ity_V256

datatype IRConst =
    Ico_U1 bool | Ico_U8 "8 word" | Ico_U16 "16 word" | Ico_U32 "32 word" | Ico_U64 "64 word"
  | Ico_F32 "32 word" | Ico_F32i "32 word" | Ico_F64 "64 word" | Ico_F64i "64 word"
  | Ico_V128 "16 word" | Ico_V256 "32 word"

datatype IROp = Iop_1Uto32 | Iop_1Uto64 | Iop_Xor32 | Iop_Xor64 | Iop_other nat

record IRRegArray =
  ra_base :: int
  ra_elemTy :: IRType
  ra_nElems :: int

type_synonym IRTemp = nat

datatype IRExpr =
    Iex_Binder int
  | Iex_Get int IRType
  | Iex_GetI IRRegArray IRExpr int
  | Iex_RdTmp IRTemp
  | Iex_Qop IROp IRExpr IRExpr IRExpr IRExpr
  | Iex_Triop IROp IRExpr IRExpr IRExpr
  | Iex_Binop IROp IRExpr IRExpr
  | Iex_Unop IROp IRExpr
  | Iex_Load nat IRType IRExpr
  | Iex_Const IRConst
  | Iex_ITE IRExpr IRExpr IRExpr
  | Iex_CCall nat IRType "IRExpr list"
  | Iex_VECRET
  | Iex_BBPTR

datatype IRJumpKind =
    Ijk_INVALID | Ijk_Boring | Ijk_Call | Ijk_Ret | Ijk_ClientReq | Ijk_Yield | Ijk_EmWarn | Ijk_EmFail
  | Ijk_NoDecode | Ijk_MapFail | Ijk_InvalICache | Ijk_FlushDCache | Ijk_NoRedir | Ijk_SigILL | Ijk_SigTRAP
  | Ijk_SigSEGV | Ijk_SigBUS | Ijk_SigFPE_IntDiv | Ijk_SigFPE_IntOvf | Ijk_Sys_syscall | Ijk_Sys_int32
  | Ijk_Sys_int128 | Ijk_Sys_int129 | Ijk_Sys_int130 | Ijk_Sys_int145 | Ijk_Sys_int210 | Ijk_Sys_sysenter

datatype IREffect = Ifx_None | Ifx_Read | Ifx_Write | Ifx_Modify

record IRDirty =
  d_cee :: nat
  d_guard :: IRExpr
  d_args :: "IRExpr list"
  d_tmp :: IRTemp
  d_mFx :: IREffect
  d_mAddr :: "IRExpr option"
  d_mSize :: int
  d_fxState :: "nat list"

record IRCAS =
  cas_oldHi :: IRTemp
  cas_oldLo :: IRTemp
  cas_end :: nat
  cas_addr :: IRExpr
  cas_expdHi :: "IRExpr option"
  cas_expdLo :: IRExpr
  cas_dataHi :: "IRExpr option"
  cas_dataLo :: IRExpr

record IRPutI =
  pi_descr :: IRRegArray
  pi_ix :: IRExpr
  pi_bias :: int
  pi_data :: IRExpr

record IRStoreG =
  sg_end :: nat
  sg_addr :: IRExpr
  sg_data :: IRExpr
  sg_guard :: IRExpr

datatype IRLoadGOp =
    ILGop_INVALID | ILGop_IdentV128 | ILGop_Ident64 | ILGop_Ident32 | ILGop_16Uto32 | ILGop_16Sto32
  | ILGop_8Uto32 | ILGop_8Sto32

record IRLoadG =
  lg_end :: nat
  lg_cvt :: IRLoadGOp
  lg_dst :: IRTemp
  lg_addr :: IRExpr
  lg_alt :: IRExpr
  lg_guard :: IRExpr

datatype IRStmt =
    Ist_NoOp
  | Ist_IMark "64 word" "32 word" "8 word"
  | Ist_AbiHint IRExpr int IRExpr
  | Ist_Put int IRExpr
  | Ist_PutI IRPutI
  | Ist_WrTmp IRTemp IRExpr
  | Ist_Store nat IRExpr IRExpr
  | Ist_LoadG IRLoadG
  | Ist_StoreG IRStoreG
  | Ist_CAS IRCAS
  | Ist_LLSC nat IRTemp IRExpr "IRExpr option"
  | Ist_Dirty IRDirty
  | Ist_MBE nat
  | Ist_Exit IRExpr IRConst IRJumpKind int

type_synonym IRTypeEnv = "IRType list"

record IRSB =
  tyenv :: IRTypeEnv
  stmts :: "IRStmt list"
  sb_next :: IRExpr
  jumpkind :: IRJumpKind

section \<open>Types\<close>

definition newIRTemp :: "IRTypeEnv \<Rightarrow> IRType \<Rightarrow> IRTypeEnv \<times> IRTemp" where
  "newIRTemp env ty = (env @ [ty], length env)"

definition typeOfIRTemp :: "IRTypeEnv \<Rightarrow> IRTemp \<Rightarrow> IRType option" where
  "typeOfIRTemp env tmp = do { vg_assert (tmp < length env); Some (env ! tmp) }"

fun typeOfIRConst :: "IRConst \<Rightarrow> IRType" where
  "typeOfIRConst (Ico_U1 _) = Ity_I1"
| "typeOfIRConst (Ico_U8 _) = Ity_I8"
| "typeOfIRConst (Ico_U16 _) = Ity_I16"
| "typeOfIRConst (Ico_U32 _) = Ity_I32"
| "typeOfIRConst (Ico_U64 _) = Ity_I64"
| "typeOfIRConst (Ico_F32 _) = Ity_F32"
| "typeOfIRConst (Ico_F32i _) = Ity_F32"
| "typeOfIRConst (Ico_F64 _) = Ity_F64"
| "typeOfIRConst (Ico_F64i _) = Ity_F64"
| "typeOfIRConst (Ico_V128 _) = Ity_V128"
| "typeOfIRConst (Ico_V256 _) = Ity_V256"

text \<open>The type of an atom. The instrumentation asks for the type of an expression only after a check that it
  is one.\<close>

fun typeOfIRAtom :: "IRTypeEnv \<Rightarrow> IRExpr \<Rightarrow> IRType option" where
  "typeOfIRAtom env (Iex_RdTmp t) = typeOfIRTemp env t"
| "typeOfIRAtom env (Iex_Const c) = Some (typeOfIRConst c)"
| "typeOfIRAtom env _ = None"

text \<open>The type of the result and of the argument of a converting load.\<close>

fun typeOfIRLoadGOp :: "IRLoadGOp \<Rightarrow> (IRType \<times> IRType) option" where
  "typeOfIRLoadGOp ILGop_IdentV128 = Some (Ity_V128, Ity_V128)"
| "typeOfIRLoadGOp ILGop_Ident64 = Some (Ity_I64, Ity_I64)"
| "typeOfIRLoadGOp ILGop_Ident32 = Some (Ity_I32, Ity_I32)"
| "typeOfIRLoadGOp ILGop_16Uto32 = Some (Ity_I32, Ity_I16)"
| "typeOfIRLoadGOp ILGop_16Sto32 = Some (Ity_I32, Ity_I16)"
| "typeOfIRLoadGOp ILGop_8Uto32 = Some (Ity_I32, Ity_I8)"
| "typeOfIRLoadGOp ILGop_8Sto32 = Some (Ity_I32, Ity_I8)"
| "typeOfIRLoadGOp ILGop_INVALID = None"

fun sizeofIRType :: "IRType \<Rightarrow> int option" where
  "sizeofIRType Ity_I8 = Some 1"
| "sizeofIRType Ity_I16 = Some 2"
| "sizeofIRType Ity_I32 = Some 4"
| "sizeofIRType Ity_I64 = Some 8"
| "sizeofIRType Ity_I128 = Some 16"
| "sizeofIRType Ity_F16 = Some 2"
| "sizeofIRType Ity_F32 = Some 4"
| "sizeofIRType Ity_F64 = Some 8"
| "sizeofIRType Ity_F128 = Some 16"
| "sizeofIRType Ity_D32 = Some 4"
| "sizeofIRType Ity_D64 = Some 8"
| "sizeofIRType Ity_D128 = Some 16"
| "sizeofIRType Ity_V128 = Some 16"
| "sizeofIRType Ity_V256 = Some 32"
| "sizeofIRType _ = None"

section \<open>Atoms and flat statements\<close>

definition isIRAtom :: "IRExpr \<Rightarrow> bool" where
  "isIRAtom e = (case e of Iex_RdTmp _ \<Rightarrow> True | Iex_Const _ \<Rightarrow> True | _ \<Rightarrow> False)"

definition is_IRExpr_VECRET_or_BBPTR :: "IRExpr \<Rightarrow> bool" where
  "is_IRExpr_VECRET_or_BBPTR e = (case e of Iex_VECRET \<Rightarrow> True | Iex_BBPTR \<Rightarrow> True | _ \<Rightarrow> False)"

definition isIRAtom_or_VECRET_or_BBPTR :: "IRExpr \<Rightarrow> bool" where
  "isIRAtom_or_VECRET_or_BBPTR e = (isIRAtom e \<or> is_IRExpr_VECRET_or_BBPTR e)"

text \<open>Equality of two IEEE numbers given by their bits, with \<open>e\<close> exponent and \<open>m\<close> mantissa bits:
  a NaN is not equal to anything, the two zeros are.\<close>

definition ieee_eq :: "nat \<Rightarrow> nat \<Rightarrow> 'a::len word \<Rightarrow> 'a word \<Rightarrow> bool" where
  "ieee_eq e m x y =
     (let abs = (\<lambda>w. w AND mask (e + m));
          nan = (\<lambda>w. push_bit m (mask e) < abs w) in
      \<not> nan x \<and> \<not> nan y \<and> (x = y \<or> abs x = 0 \<and> abs y = 0))"

definition eqIRConst :: "IRConst \<Rightarrow> IRConst \<Rightarrow> bool" where
  "eqIRConst c1 c2 =
     (case c1 of
        Ico_U1 a \<Rightarrow> (case c2 of Ico_U1 b \<Rightarrow> a = b | _ \<Rightarrow> False)
      | Ico_U8 a \<Rightarrow> (case c2 of Ico_U8 b \<Rightarrow> a = b | _ \<Rightarrow> False)
      | Ico_U16 a \<Rightarrow> (case c2 of Ico_U16 b \<Rightarrow> a = b | _ \<Rightarrow> False)
      | Ico_U32 a \<Rightarrow> (case c2 of Ico_U32 b \<Rightarrow> a = b | _ \<Rightarrow> False)
      | Ico_U64 a \<Rightarrow> (case c2 of Ico_U64 b \<Rightarrow> a = b | _ \<Rightarrow> False)
      | Ico_F32 a \<Rightarrow> (case c2 of Ico_F32 b \<Rightarrow> ieee_eq 8 23 a b | _ \<Rightarrow> False)
      | Ico_F32i a \<Rightarrow> (case c2 of Ico_F32i b \<Rightarrow> a = b | _ \<Rightarrow> False)
      | Ico_F64 a \<Rightarrow> (case c2 of Ico_F64 b \<Rightarrow> ieee_eq 11 52 a b | _ \<Rightarrow> False)
      | Ico_F64i a \<Rightarrow> (case c2 of Ico_F64i b \<Rightarrow> a = b | _ \<Rightarrow> False)
      | Ico_V128 a \<Rightarrow> (case c2 of Ico_V128 b \<Rightarrow> a = b | _ \<Rightarrow> False)
      | Ico_V256 a \<Rightarrow> (case c2 of Ico_V256 b \<Rightarrow> a = b | _ \<Rightarrow> False))"

definition eqIRAtom :: "IRExpr \<Rightarrow> IRExpr \<Rightarrow> bool option" where
  "eqIRAtom a1 a2 =
     do { vg_assert (isIRAtom a1);
          vg_assert (isIRAtom a2);
          Some (case (a1, a2) of
                  (Iex_RdTmp t1, Iex_RdTmp t2) \<Rightarrow> t1 = t2
                | (Iex_Const c1, Iex_Const c2) \<Rightarrow> eqIRConst c1 c2
                | _ \<Rightarrow> False) }"

fun flat_rhs :: "IRExpr \<Rightarrow> bool option" where
  "flat_rhs (Iex_Binder _) = Some True"
| "flat_rhs (Iex_Get _ _) = Some True"
| "flat_rhs (Iex_GetI _ ix _) = Some (isIRAtom ix)"
| "flat_rhs (Iex_RdTmp _) = Some True"
| "flat_rhs (Iex_Qop _ a b c d) = Some (isIRAtom a \<and> isIRAtom b \<and> isIRAtom c \<and> isIRAtom d)"
| "flat_rhs (Iex_Triop _ a b c) = Some (isIRAtom a \<and> isIRAtom b \<and> isIRAtom c)"
| "flat_rhs (Iex_Binop _ a b) = Some (isIRAtom a \<and> isIRAtom b)"
| "flat_rhs (Iex_Unop _ a) = Some (isIRAtom a)"
| "flat_rhs (Iex_Load _ _ addr) = Some (isIRAtom addr)"
| "flat_rhs (Iex_Const _) = Some True"
| "flat_rhs (Iex_CCall _ _ args) = Some (list_all isIRAtom args)"
| "flat_rhs (Iex_ITE c t f) = Some (isIRAtom c \<and> isIRAtom t \<and> isIRAtom f)"
| "flat_rhs Iex_VECRET = None"
| "flat_rhs Iex_BBPTR = None"

definition atom_or_null :: "IRExpr option \<Rightarrow> bool" where
  "atom_or_null e = (case e of None \<Rightarrow> True | Some e \<Rightarrow> isIRAtom e)"

fun isFlatIRStmt :: "IRStmt \<Rightarrow> bool option" where
  "isFlatIRStmt (Ist_AbiHint b _ nia) = Some (isIRAtom b \<and> isIRAtom nia)"
| "isFlatIRStmt (Ist_Put _ data) = Some (isIRAtom data)"
| "isFlatIRStmt (Ist_PutI puti) = Some (isIRAtom (pi_ix puti) \<and> isIRAtom (pi_data puti))"
| "isFlatIRStmt (Ist_WrTmp _ e) = flat_rhs e"
| "isFlatIRStmt (Ist_Store _ addr data) = Some (isIRAtom addr \<and> isIRAtom data)"
| "isFlatIRStmt (Ist_StoreG sg) = Some (isIRAtom (sg_addr sg) \<and> isIRAtom (sg_data sg) \<and> isIRAtom (sg_guard sg))"
| "isFlatIRStmt (Ist_LoadG lg) = Some (isIRAtom (lg_addr lg) \<and> isIRAtom (lg_alt lg) \<and> isIRAtom (lg_guard lg))"
| "isFlatIRStmt (Ist_CAS cas) =
     Some (isIRAtom (cas_addr cas) \<and> atom_or_null (cas_expdHi cas) \<and> isIRAtom (cas_expdLo cas)
       \<and> atom_or_null (cas_dataHi cas) \<and> isIRAtom (cas_dataLo cas))"
| "isFlatIRStmt (Ist_LLSC _ _ addr storedata) = Some (isIRAtom addr \<and> atom_or_null storedata)"
| "isFlatIRStmt (Ist_Dirty di) =
     Some (isIRAtom (d_guard di) \<and> list_all isIRAtom_or_VECRET_or_BBPTR (d_args di) \<and> atom_or_null (d_mAddr di))"
| "isFlatIRStmt Ist_NoOp = Some True"
| "isFlatIRStmt (Ist_IMark _ _ _) = Some True"
| "isFlatIRStmt (Ist_MBE _) = Some True"
| "isFlatIRStmt (Ist_Exit guard _ _ _) = Some (isIRAtom guard)"

section \<open>Facts\<close>

lemma isIRAtom_simps [simp]: "isIRAtom (Iex_RdTmp t)" "isIRAtom (Iex_Const c)"
  by (simp_all add: isIRAtom_def)

lemma typeOfIRAtom_atom: "typeOfIRAtom env e = Some ty \<Longrightarrow> isIRAtom e"
  by (cases e) auto

lemma typeOfIRTemp_append: "typeOfIRTemp env t = Some ty \<Longrightarrow> typeOfIRTemp (env @ env') t = Some ty"
  by (auto simp: typeOfIRTemp_def vg_assert_bind nth_append split: if_splits)

lemma typeOfIRAtom_append: "typeOfIRAtom env e = Some ty \<Longrightarrow> typeOfIRAtom (env @ env') e = Some ty"
  by (cases e) (auto simp: typeOfIRTemp_append)

lemma newIRTemp_type: "typeOfIRTemp (fst (newIRTemp env ty)) (snd (newIRTemp env ty)) = Some ty"
  by (simp add: newIRTemp_def typeOfIRTemp_def vg_assert_def)

text \<open>Sizes of types are between 1 and 32 bytes.\<close>

lemma sizeofIRType_bounds: "sizeofIRType ty = Some n \<Longrightarrow> 1 \<le> n \<and> n \<le> 32"
  by (cases ty) auto

text \<open>Atoms of the type of an address that compare equal are equal: only floating-point constants
  have different equal representations.\<close>

lemma eqIRAtom_iff:
  assumes "typeOfIRAtom env a = Some Ity_I64" "isIRAtom b"
  shows "eqIRAtom a b = Some (a = b)"
proof (cases a)
  case (Iex_Const c)
  then obtain w where c: "c = Ico_U64 w" using assms(1) by (cases c) auto
  show ?thesis
  proof (cases b)
    case (Iex_Const d)
    have "eqIRConst (Ico_U64 w) d = (Ico_U64 w = d)" by (cases d) (auto simp: eqIRConst_def)
    then show ?thesis by (simp add: eqIRAtom_def vg_assert_def c Iex_Const \<open>a = Iex_Const c\<close>)
  qed (use assms Iex_Const in \<open>auto simp: eqIRAtom_def vg_assert_def isIRAtom_def\<close>)
next
  case (Iex_RdTmp t)
  then show ?thesis using assms(2) by (cases b) (auto simp: eqIRAtom_def vg_assert_def isIRAtom_def)
qed (use assms in auto)

end
