(* ===== verification/Cachegrind.thy ===== *)
theory Cachegrind
  imports CacheSim BranchPred IR
begin

text \<open>
  The cost centres and the event queue of Cachegrind, \<open>cachegrind/cg_main.c\<close>: the helper functions
  that instrumented code calls, and the queue that turns the memory and branch events of a block
  into as few helper calls as it can.

  A pointer to an \<open>InstrInfo\<close> or a \<open>LineCC\<close> is a number; the nodes live in the two tables of the
  state. The caches and predictors are the state of \<open>CacheSim\<close> and \<open>BranchPred\<close>. The block under construction is
  a list of statements: calls of the helpers with their guard, and copied statements.
\<close>

section \<open>Cost centres\<close>

record CacheCC =
  cc_a :: ULong
  cc_m1 :: ULong
  cc_mL :: ULong

record BranchCC =
  bc_b :: ULong
  bc_mp :: ULong

record CodeLoc =
  loc_file :: string
  loc_fn :: string
  loc_line :: int

record LineCC =
  loc :: CodeLoc
  Ir :: CacheCC
  Dr :: CacheCC
  Dw :: CacheCC
  Bc :: BranchCC
  Bi :: BranchCC

record InstrInfo =
  instr_addr :: UWord
  instr_len :: UChar
  parent :: nat

record cg =
  sim :: cachesim
  bp :: bpred
  insns :: "nat \<Rightarrow> InstrInfo"
  lines :: "nat \<Rightarrow> LineCC"

definition on_parent :: "nat \<Rightarrow> (LineCC \<Rightarrow> LineCC) \<Rightarrow> cg \<Rightarrow> cg" where
  "on_parent n f s = (let p = parent (insns s n) in s\<lparr>lines := (lines s)(p := f (lines s p))\<rparr>)"

text \<open>The access and what the reference adds to the misses.\<close>

definition add_ref :: "bool \<times> bool \<Rightarrow> CacheCC \<Rightarrow> CacheCC" where
  "add_ref m c = c\<lparr>cc_m1 := cc_m1 c + (if fst m then 1 else 0), cc_mL := cc_mL c + (if snd m then 1 else 0), cc_a := cc_a c + 1\<rparr>"

section \<open>The helper functions\<close>

definition log_1Ir :: "nat \<Rightarrow> cg \<Rightarrow> cg option" where
  "log_1Ir n s = Some (on_parent n (\<lambda>l. l\<lparr>Ir := (Ir l)\<lparr>cc_a := cc_a (Ir l) + 1\<rparr>\<rparr>) s)"

definition log_2Ir :: "nat \<Rightarrow> nat \<Rightarrow> cg \<Rightarrow> cg option" where
  "log_2Ir n n2 s = do { s \<leftarrow> log_1Ir n s; log_1Ir n2 s }"

definition log_3Ir :: "nat \<Rightarrow> nat \<Rightarrow> nat \<Rightarrow> cg \<Rightarrow> cg option" where
  "log_3Ir n n2 n3 s = do { s \<leftarrow> log_1Ir n s; s \<leftarrow> log_1Ir n2 s; log_1Ir n3 s }"

definition log_1IrGen_0D_cache_access :: "nat \<Rightarrow> cg \<Rightarrow> cg option" where
  "log_1IrGen_0D_cache_access n s =
     do { (c, m) \<leftarrow> cachesim_I1_doref_Gen (sim s) (instr_addr (insns s n)) (instr_len (insns s n));
          Some (on_parent n (\<lambda>l. l\<lparr>Ir := add_ref m (Ir l)\<rparr>) (s\<lparr>sim := c\<rparr>)) }"

definition log_1IrNoX_0D_cache_access :: "nat \<Rightarrow> cg \<Rightarrow> cg option" where
  "log_1IrNoX_0D_cache_access n s =
     do { (c, m) \<leftarrow> cachesim_I1_doref_NoX (sim s) (instr_addr (insns s n)) (instr_len (insns s n));
          Some (on_parent n (\<lambda>l. l\<lparr>Ir := add_ref m (Ir l)\<rparr>) (s\<lparr>sim := c\<rparr>)) }"

definition log_2IrNoX_0D_cache_access :: "nat \<Rightarrow> nat \<Rightarrow> cg \<Rightarrow> cg option" where
  "log_2IrNoX_0D_cache_access n n2 s =
     do { s \<leftarrow> log_1IrNoX_0D_cache_access n s; log_1IrNoX_0D_cache_access n2 s }"

definition log_3IrNoX_0D_cache_access :: "nat \<Rightarrow> nat \<Rightarrow> nat \<Rightarrow> cg \<Rightarrow> cg option" where
  "log_3IrNoX_0D_cache_access n n2 n3 s =
     do { s \<leftarrow> log_1IrNoX_0D_cache_access n s; s \<leftarrow> log_1IrNoX_0D_cache_access n2 s; log_1IrNoX_0D_cache_access n3 s }"

text \<open>The size of a data access arrives as a \<open>Word\<close> and is passed on as a \<open>UChar\<close>.\<close>

definition log_0Ir_1Dr_cache_access :: "nat \<Rightarrow> UWord \<Rightarrow> int \<Rightarrow> cg \<Rightarrow> cg option" where
  "log_0Ir_1Dr_cache_access n data_addr data_size s =
     do { (c, m) \<leftarrow> cachesim_D1_doref (sim s) data_addr (word_of_int data_size);
          Some (on_parent n (\<lambda>l. l\<lparr>Dr := add_ref m (Dr l)\<rparr>) (s\<lparr>sim := c\<rparr>)) }"

definition log_0Ir_1Dw_cache_access :: "nat \<Rightarrow> UWord \<Rightarrow> int \<Rightarrow> cg \<Rightarrow> cg option" where
  "log_0Ir_1Dw_cache_access n data_addr data_size s =
     do { (c, m) \<leftarrow> cachesim_D1_doref (sim s) data_addr (word_of_int data_size);
          Some (on_parent n (\<lambda>l. l\<lparr>Dw := add_ref m (Dw l)\<rparr>) (s\<lparr>sim := c\<rparr>)) }"

definition log_1IrNoX_1Dr_cache_access :: "nat \<Rightarrow> UWord \<Rightarrow> int \<Rightarrow> cg \<Rightarrow> cg option" where
  "log_1IrNoX_1Dr_cache_access n data_addr data_size s =
     do { s \<leftarrow> log_1IrNoX_0D_cache_access n s; log_0Ir_1Dr_cache_access n data_addr data_size s }"

definition log_1IrNoX_1Dw_cache_access :: "nat \<Rightarrow> UWord \<Rightarrow> int \<Rightarrow> cg \<Rightarrow> cg option" where
  "log_1IrNoX_1Dw_cache_access n data_addr data_size s =
     do { s \<leftarrow> log_1IrNoX_0D_cache_access n s; log_0Ir_1Dw_cache_access n data_addr data_size s }"

definition log_cond_branch :: "nat \<Rightarrow> UWord \<Rightarrow> cg \<Rightarrow> cg option" where
  "log_cond_branch n taken s =
     do { (b, mp) \<leftarrow> do_cond_branch_predict (bp s) (instr_addr (insns s n)) (sint taken);
          Some (on_parent n (\<lambda>l. l\<lparr>Bc := (Bc l)\<lparr>bc_b := bc_b (Bc l) + 1, bc_mp := bc_mp (Bc l) + (1 AND mp)\<rparr>\<rparr>)
                  (s\<lparr>bp := b\<rparr>)) }"

definition log_ind_branch :: "nat \<Rightarrow> UWord \<Rightarrow> cg \<Rightarrow> cg option" where
  "log_ind_branch n actual_dst s =
     do { (b, mp) \<leftarrow> do_ind_branch_predict (bp s) (instr_addr (insns s n)) actual_dst;
          Some (on_parent n (\<lambda>l. l\<lparr>Bi := (Bi l)\<lparr>bc_b := bc_b (Bi l) + 1, bc_mp := bc_mp (Bi l) + (1 AND mp)\<rparr>\<rparr>)
                  (s\<lparr>bp := b\<rparr>)) }"

section \<open>Events\<close>

type_synonym IRAtom = IRExpr

datatype Event =
    Ev_IrNoX nat
  | Ev_IrGen nat
  | Ev_Dr nat IRAtom int
  | Ev_Dw nat IRAtom int
  | Ev_Dm nat IRAtom int
  | Ev_Bc nat IRAtom
  | Ev_Bi nat IRAtom

text \<open>A call of a helper with its arguments.\<close>

datatype helper =
    H_1Ir nat | H_2Ir nat nat | H_3Ir nat nat nat
  | H_1IrGen_0D nat | H_1IrNoX_0D nat | H_2IrNoX_0D nat nat | H_3IrNoX_0D nat nat nat
  | H_1IrNoX_1Dr nat IRAtom int | H_1IrNoX_1Dw nat IRAtom int
  | H_0Ir_1Dr nat IRAtom int | H_0Ir_1Dw nat IRAtom int
  | H_cond_branch nat IRAtom | H_ind_branch nat IRAtom

definition N_EVENTS :: nat where
  "N_EVENTS = 16"

text \<open>The helper for the event at the head of the list and as many following ones as it can
  cover, with their number.\<close>

definition flush_one :: "bool \<Rightarrow> Event list \<Rightarrow> (helper \<times> nat) option" where
  "flush_one clo_cache_sim evs =
     (case evs of
        [] \<Rightarrow> None
      | Ev_IrNoX n # rest \<Rightarrow>
          (case rest of
             Ev_Dr n2 ea szB # _ \<Rightarrow> do { vg_assert (n2 = n); Some (H_1IrNoX_1Dr n ea szB, 2) }
           | Ev_Dm n2 ea szB # _ \<Rightarrow> do { vg_assert (n2 = n); Some (H_1IrNoX_1Dr n ea szB, 2) }
           | Ev_Dw n2 ea szB # _ \<Rightarrow> do { vg_assert (n2 = n); Some (H_1IrNoX_1Dw n ea szB, 2) }
           | Ev_IrNoX n2 # Ev_IrNoX n3 # _ \<Rightarrow>
               Some (if clo_cache_sim then H_3IrNoX_0D n n2 n3 else H_3Ir n n2 n3, 3)
           | Ev_IrNoX n2 # _ \<Rightarrow> Some (if clo_cache_sim then H_2IrNoX_0D n n2 else H_2Ir n n2, 2)
           | _ \<Rightarrow> Some (if clo_cache_sim then H_1IrNoX_0D n else H_1Ir n, 1))
      | Ev_IrGen n # _ \<Rightarrow> Some (if clo_cache_sim then H_1IrGen_0D n else H_1Ir n, 1)
      | Ev_Dr n ea szB # _ \<Rightarrow> Some (H_0Ir_1Dr n ea szB, 1)
      | Ev_Dm n ea szB # _ \<Rightarrow> Some (H_0Ir_1Dr n ea szB, 1)
      | Ev_Dw n ea szB # _ \<Rightarrow> Some (H_0Ir_1Dw n ea szB, 1)
      | Ev_Bc n taken # _ \<Rightarrow> Some (H_cond_branch n taken, 1)
      | Ev_Bi n dst # _ \<Rightarrow> Some (H_ind_branch n dst, 1))"

lemma flush_one_pos: "flush_one b evs = Some (h, k) \<Longrightarrow> evs \<noteq> [] \<and> 0 < k \<and> k \<le> length evs"
  by (auto simp: flush_one_def vg_assert_def split: list.splits Event.splits if_splits)

text \<open>A statement of the new block: a helper call with its guard, when that is not the constant true, or
  another statement.\<close>

datatype ostmt = O_Call "IRAtom option" helper | O_Stmt IRStmt

function flush_loop :: "bool \<Rightarrow> Event list \<Rightarrow> ostmt list option" where
  "flush_loop clo_cache_sim evs =
     (if evs = [] then Some []
      else do { (h, k) \<leftarrow> flush_one clo_cache_sim evs;
                ds \<leftarrow> flush_loop clo_cache_sim (drop k evs);
                Some (O_Call None h # ds) })"
  by pat_completeness auto
termination
  by (relation "measure (\<lambda>(b, evs). length evs)") (auto dest: flush_one_pos)

declare flush_loop.simps [simp del]

text \<open>The nodes of a block are consecutive, the field \<open>instrs\<close> is the number of the first.\<close>

record SB_info =
  SB_addr :: UWord
  n_instrs :: int
  instrs :: nat

record CgState =
  events :: "Event list"
  sbInfo :: SB_info
  sbInfo_i :: int
  sbOut :: "ostmt list"
  sbOut_tyenv :: IRTypeEnv

definition flushEvents :: "bool \<Rightarrow> CgState \<Rightarrow> CgState option" where
  "flushEvents clo_cache_sim cgs =
     do { ds \<leftarrow> flush_loop clo_cache_sim (events cgs); Some (cgs\<lparr>events := [], sbOut := sbOut cgs @ ds\<rparr>) }"

record cg_options =
  clo_cache_sim :: bool
  clo_branch_sim :: bool
  min_line_size :: int

text \<open>Flush when the queue is full, then append.\<close>

definition add_event :: "cg_options \<Rightarrow> CgState \<Rightarrow> Event \<Rightarrow> CgState option" where
  "add_event opt cgs ev =
     do { cgs \<leftarrow> (if length (events cgs) = N_EVENTS then flushEvents (clo_cache_sim opt) cgs else Some cgs);
          vg_assert (length (events cgs) < N_EVENTS);
          Some (cgs\<lparr>events := events cgs @ [ev]\<rparr>) }"

text \<open>The parts of the tool's global state that live across blocks: the run-time state, the number of
  cost centres in the table, the strings, the blocks, the next free node and the statistics.\<close>

record cg_tool =
  cgst :: cg
  n_lines :: nat
  stringTable :: "string list"
  instrInfoTable :: "UWord \<Rightarrow> SB_info option"
  next_inode :: nat
  distinct_instrsGen :: int
  distinct_instrsNoX :: int
  full_debugs :: int
  file_line_debugs :: int
  fn_debugs :: int
  no_debugs :: int

definition addEvent_Ir :: "cg_options \<Rightarrow> cg_tool \<Rightarrow> CgState \<Rightarrow> nat \<Rightarrow> (cg_tool \<times> CgState) option" where
  "addEvent_Ir opt ct cgs inode =
     (let node = insns (cgst ct) inode;
          nox = cachesim_is_IrNoX (sim (cgst ct)) (instr_addr node) (instr_len node) in
      do { cgs \<leftarrow> add_event opt cgs (if nox then Ev_IrNoX inode else Ev_IrGen inode);
           Some (if nox then ct\<lparr>distinct_instrsNoX := distinct_instrsNoX ct + 1\<rparr>
                 else ct\<lparr>distinct_instrsGen := distinct_instrsGen ct + 1\<rparr>, cgs) })"

definition addEvent_Dr :: "cg_options \<Rightarrow> CgState \<Rightarrow> nat \<Rightarrow> int \<Rightarrow> IRAtom \<Rightarrow> CgState option" where
  "addEvent_Dr opt cgs inode datasize ea =
     do { vg_assert (isIRAtom ea);
          vg_assert (datasize \<ge> 1 \<and> datasize \<le> min_line_size opt);
          if \<not> clo_cache_sim opt then Some cgs else add_event opt cgs (Ev_Dr inode ea datasize) }"

text \<open>The test for merging a write into the last event, and the change of its tag.\<close>

definition mergeable :: "Event \<Rightarrow> nat \<Rightarrow> int \<Rightarrow> IRAtom \<Rightarrow> bool option" where
  "mergeable lastEvt inode datasize ea =
     (case lastEvt of
        Ev_Dr n ea' szB \<Rightarrow> if szB = datasize \<and> n = inode then eqIRAtom ea' ea else Some False
      | _ \<Rightarrow> Some False)"

definition retag_Dm :: "Event \<Rightarrow> Event" where
  "retag_Dm ev = (case ev of Ev_Dr n ea szB \<Rightarrow> Ev_Dm n ea szB | _ \<Rightarrow> ev)"

definition addEvent_Dw :: "cg_options \<Rightarrow> CgState \<Rightarrow> nat \<Rightarrow> int \<Rightarrow> IRAtom \<Rightarrow> CgState option" where
  "addEvent_Dw opt cgs inode datasize ea =
     do { vg_assert (isIRAtom ea);
          vg_assert (datasize \<ge> 1 \<and> datasize \<le> min_line_size opt);
          if \<not> clo_cache_sim opt then Some cgs
          else do { same \<leftarrow> (if events cgs = [] then Some False else mergeable (last (events cgs)) inode datasize ea);
                    if same then Some (cgs\<lparr>events := butlast (events cgs) @ [retag_Dm (last (events cgs))]\<rparr>)
                    else add_event opt cgs (Ev_Dw inode ea datasize) } }"

definition addEvent_D_guarded :: "cg_options \<Rightarrow> CgState \<Rightarrow> nat \<Rightarrow> int \<Rightarrow> IRAtom \<Rightarrow> IRAtom \<Rightarrow> bool \<Rightarrow> CgState option" where
  "addEvent_D_guarded opt cgs inode datasize ea guard isWrite =
     do { vg_assert (isIRAtom ea);
          vg_assert (isIRAtom guard);
          vg_assert (datasize \<ge> 1 \<and> datasize \<le> min_line_size opt);
          if \<not> clo_cache_sim opt then Some cgs
          else do { cgs \<leftarrow> flushEvents (clo_cache_sim opt) cgs;
                    vg_assert (events cgs = []);
                    Some (cgs\<lparr>sbOut := sbOut cgs @
                      [O_Call (Some guard) (if isWrite then H_0Ir_1Dw inode ea datasize else H_0Ir_1Dr inode ea datasize)]\<rparr>) } }"

definition addEvent_Bc :: "cg_options \<Rightarrow> CgState \<Rightarrow> nat \<Rightarrow> IRAtom \<Rightarrow> CgState option" where
  "addEvent_Bc opt cgs inode guard =
     do { vg_assert (isIRAtom guard);
          ty \<leftarrow> typeOfIRAtom (sbOut_tyenv cgs) guard;
          vg_assert (ty = Ity_I64);
          if \<not> clo_branch_sim opt then Some cgs else add_event opt cgs (Ev_Bc inode guard) }"

definition addEvent_Bi :: "cg_options \<Rightarrow> CgState \<Rightarrow> nat \<Rightarrow> IRAtom \<Rightarrow> CgState option" where
  "addEvent_Bi opt cgs inode whereTo =
     do { vg_assert (isIRAtom whereTo);
          ty \<leftarrow> typeOfIRAtom (sbOut_tyenv cgs) whereTo;
          vg_assert (ty = Ity_I64);
          if \<not> clo_branch_sim opt then Some cgs else add_event opt cgs (Ev_Bi inode whereTo) }"

end
