(* ===== verification/Cachegrind_Instr.thy ===== *)
theory Cachegrind_Instr
  imports Cachegrind
begin

text \<open>
  The tables and the instrumentation pass of Cachegrind, \<open>cachegrind/cg_main.c\<close>: cost centres of
  source lines, the blocks with their instructions, start-up and \<open>cg_instrument\<close>, statement by statement.

  The debug information is a parameter: what \<open>VG_(get_filename_linenum)\<close> and
  \<open>VG_(get_fnname)\<close> answer for an address. The three ordered sets are used through insertion and lookup by
  their key only, so their comparison functions count as equality of keys (that of the cost centres subtracts two line
  numbers as \<open>Int\<close>, which overflows only for lines of opposite sign beyond \<open>2 ^ 30\<close>); the tables are the numbered cost centres below \<open>n_lines\<close>, a list of strings and a map from addresses to blocks. The host is a
  64-bit one and the instruction sizes are those of amd64.
\<close>

section \<open>Source lines\<close>

record debug_info =
  get_filename_linenum :: "UWord \<Rightarrow> (string \<times> string \<times> UInt) option"
  get_fnname :: "UWord \<Rightarrow> string option"

definition get_perm_string :: "cg_tool \<Rightarrow> string \<Rightarrow> cg_tool \<times> string" where
  "get_perm_string ct s =
     (case find (\<lambda>x. x = s) (stringTable ct) of
        Some x \<Rightarrow> (ct, x)
      | None \<Rightarrow> (ct\<lparr>stringTable := stringTable ct @ [s]\<rparr>, s))"

text \<open>The directory, the file, the function and the line.\<close>

definition get_debug_info :: "debug_info \<Rightarrow> cg_tool \<Rightarrow> UWord \<Rightarrow> cg_tool \<times> string \<times> string \<times> string \<times> UInt" where
  "get_debug_info dbg ct iaddr =
     (let fl = get_filename_linenum dbg iaddr;
          f = get_fnname dbg iaddr;
          ct = (if fl \<noteq> None then if f \<noteq> None then ct\<lparr>full_debugs := full_debugs ct + 1\<rparr>
                                   else ct\<lparr>file_line_debugs := file_line_debugs ct + 1\<rparr>
                else if f \<noteq> None then ct\<lparr>fn_debugs := fn_debugs ct + 1\<rparr>
                else ct\<lparr>no_debugs := no_debugs ct + 1\<rparr>);
          fn = (case f of None \<Rightarrow> ''???'' | Some fn \<Rightarrow> fn) in
      case fl of None \<Rightarrow> (ct, '''', ''???'', fn, 0) | Some (filename, dir, line) \<Rightarrow> (ct, dir, filename, fn, line))"

definition zero_CC :: CacheCC where
  "zero_CC = \<lparr>cc_a = 0, cc_m1 = 0, cc_mL = 0\<rparr>"

definition zero_BC :: BranchCC where
  "zero_BC = \<lparr>bc_b = 0, bc_mp = 0\<rparr>"

definition get_lineCC :: "debug_info \<Rightarrow> cg_tool \<Rightarrow> UWord \<Rightarrow> cg_tool \<times> nat" where
  "get_lineCC dbg ct origAddr =
     (case get_debug_info dbg ct origAddr of (ct, dir, filename, fn, line) \<Rightarrow>
      let absfile = (if dir \<noteq> '''' then dir @ ''/'' @ filename else filename);
          l = \<lparr>loc_file = absfile, loc_fn = fn, loc_line = sint line\<rparr> in
      case find (\<lambda>i. loc (lines (cgst ct) i) = l) [0..<n_lines ct] of
        Some i \<Rightarrow> (ct, i)
      | None \<Rightarrow>
          (case get_perm_string ct absfile of (ct, pfile) \<Rightarrow>
           case get_perm_string ct fn of (ct, pfn) \<Rightarrow>
           let i = n_lines ct;
               lineCC = \<lparr>loc = \<lparr>loc_file = pfile, loc_fn = pfn, loc_line = sint line\<rparr>,
                         Ir = zero_CC, Dr = zero_CC, Dw = zero_CC, Bc = zero_BC, Bi = zero_BC\<rparr> in
           (ct\<lparr>cgst := (cgst ct)\<lparr>lines := (lines (cgst ct))(i := lineCC)\<rparr>, n_lines := i + 1\<rparr>, i)))"

section \<open>Blocks\<close>

definition is_IMark :: "IRStmt \<Rightarrow> bool" where
  "is_IMark st = (case st of Ist_IMark _ _ _ \<Rightarrow> True | _ \<Rightarrow> False)"

definition get_SB_info :: "cg_tool \<Rightarrow> IRSB \<Rightarrow> UWord \<Rightarrow> (cg_tool \<times> SB_info) option" where
  "get_SB_info ct sbIn origAddr =
     (let n = length (filter is_IMark (stmts sbIn)) in
      do { vg_assert (instrInfoTable ct origAddr = None);
           let info = \<lparr>SB_addr = origAddr, n_instrs = int n, instrs = next_inode ct\<rparr> in
           Some (ct\<lparr>instrInfoTable := (instrInfoTable ct)(origAddr := Some info), next_inode := next_inode ct + n\<rparr>, info) })"

definition setup_InstrInfo :: "debug_info \<Rightarrow> cg_tool \<Rightarrow> CgState \<Rightarrow> UWord \<Rightarrow> UInt \<Rightarrow> (cg_tool \<times> CgState \<times> nat) option" where
  "setup_InstrInfo dbg ct cgs addr len =
     do { vg_assert (sbInfo_i cgs \<ge> 0);
          vg_assert (sbInfo_i cgs < n_instrs (sbInfo cgs));
          let i_node = instrs (sbInfo cgs) + nat (sbInfo_i cgs) in
          case get_lineCC dbg ct addr of (ct, p) \<Rightarrow>
          Some (ct\<lparr>cgst := (cgst ct)\<lparr>insns := (insns (cgst ct))(i_node := \<lparr>instr_addr = addr, instr_len = ucast len, parent = p\<rparr>)\<rparr>\<rparr>,
                cgs\<lparr>sbInfo_i := sbInfo_i cgs + 1\<rparr>, i_node) }"

definition cg_discard_superblock_info :: "cg_tool \<Rightarrow> UWord list \<Rightarrow> cg_tool option" where
  "cg_discard_superblock_info ct vge_base =
     do { vg_assert (vge_base \<noteq> []);
          let orig_addr = hd vge_base in
          do { vg_assert (instrInfoTable ct orig_addr \<noteq> None);
               Some (ct\<lparr>instrInfoTable := (instrInfoTable ct)(orig_addr := None)\<rparr>) } }"

section \<open>The statements of a block\<close>

definition VG_MIN_INSTR_SZB :: UInt where
  "VG_MIN_INSTR_SZB = 1"

definition VG_MAX_INSTR_SZB :: UInt where
  "VG_MAX_INSTR_SZB = 16"

definition VG_CLREQ_SZB :: UInt where
  "VG_CLREQ_SZB = 19"

text \<open>The variables of the loop: the tool, the state of the instrumentation, the node of the current instruction, its
  address and size.\<close>

record loop_state =
  ls_tool :: cg_tool
  ls_cgs :: CgState
  curr_inode :: "nat option"
  cia :: UWord
  isize :: UInt

definition addStmtToIRSB :: "CgState \<Rightarrow> IRStmt \<Rightarrow> CgState" where
  "addStmtToIRSB cg st = cg\<lparr>sbOut := sbOut cg @ [O_Stmt st]\<rparr>"

definition on_cgs :: "loop_state \<Rightarrow> (CgState \<Rightarrow> nat \<Rightarrow> CgState option) \<Rightarrow> loop_state option" where
  "on_cgs ls f = do { n \<leftarrow> curr_inode ls; cg \<leftarrow> f (ls_cgs ls) n; Some (ls\<lparr>ls_cgs := cg\<rparr>) }"

definition fix_isize :: "UInt \<Rightarrow> UInt" where
  "fix_isize len = (if len = 0 then VG_MIN_INSTR_SZB else len)"

definition instrument_IMark :: "cg_options \<Rightarrow> debug_info \<Rightarrow> UWord \<Rightarrow> UInt \<Rightarrow> loop_state \<Rightarrow> loop_state option" where
  "instrument_IMark opt dbg addr len ls =
     (let sz = fix_isize len in
      do { vg_assert (VG_MIN_INSTR_SZB \<le> sz \<and> sz \<le> VG_MAX_INSTR_SZB \<or> VG_CLREQ_SZB = sz);
           (ct, cg, n) \<leftarrow> setup_InstrInfo dbg (ls_tool ls) (ls_cgs ls) addr sz;
           (ct, cg) \<leftarrow> addEvent_Ir opt ct cg n;
           Some \<lparr>ls_tool = ct, ls_cgs = cg, curr_inode = Some n, cia = addr, isize = sz\<rparr> })"

definition sizeofIRAtom :: "IRTypeEnv \<Rightarrow> IRExpr \<Rightarrow> int option" where
  "sizeofIRAtom env e = do { ty \<leftarrow> typeOfIRAtom env e; sizeofIRType ty }"

definition instrument_StoreG :: "cg_options \<Rightarrow> IRTypeEnv \<Rightarrow> IRStoreG \<Rightarrow> CgState \<Rightarrow> nat \<Rightarrow> CgState option" where
  "instrument_StoreG opt env sg cg n =
     do { ty \<leftarrow> typeOfIRAtom env (sg_data sg);
          vg_assert (ty \<noteq> Ity_INVALID);
          sz \<leftarrow> sizeofIRType ty;
          addEvent_D_guarded opt cg n sz (sg_addr sg) (sg_guard sg) True }"

definition instrument_LoadG :: "cg_options \<Rightarrow> IRLoadG \<Rightarrow> CgState \<Rightarrow> nat \<Rightarrow> CgState option" where
  "instrument_LoadG opt lg cg n =
     do { (typeWide, ty) \<leftarrow> typeOfIRLoadGOp (lg_cvt lg);
          vg_assert (ty \<noteq> Ity_INVALID);
          sz \<leftarrow> sizeofIRType ty;
          addEvent_D_guarded opt cg n sz (lg_addr lg) (lg_guard lg) False }"

definition instrument_Dirty :: "cg_options \<Rightarrow> IRDirty \<Rightarrow> CgState \<Rightarrow> nat \<Rightarrow> CgState option" where
  "instrument_Dirty opt d cg n =
     (if d_mFx d \<noteq> Ifx_None then
        do { mAddr \<leftarrow> d_mAddr d;
             vg_assert (d_mSize d \<noteq> 0);
             let dataSize = (if d_mSize d > min_line_size opt then min_line_size opt else d_mSize d) in
             do { cg \<leftarrow> (if d_mFx d = Ifx_Read \<or> d_mFx d = Ifx_Modify then addEvent_Dr opt cg n dataSize mAddr else Some cg);
                  if d_mFx d = Ifx_Write \<or> d_mFx d = Ifx_Modify then addEvent_Dw opt cg n dataSize mAddr else Some cg } }
      else do { vg_assert (d_mAddr d = None); vg_assert (d_mSize d = 0); Some cg })"

definition instrument_CAS :: "cg_options \<Rightarrow> IRTypeEnv \<Rightarrow> IRCAS \<Rightarrow> CgState \<Rightarrow> nat \<Rightarrow> CgState option" where
  "instrument_CAS opt env cas cg n =
     do { sz \<leftarrow> sizeofIRAtom env (cas_dataLo cas);
          let sz = (if cas_dataHi cas \<noteq> None then sz * 2 else sz);
              dataSize = (if sz > min_line_size opt then min_line_size opt else sz) in
          do { cg \<leftarrow> addEvent_Dr opt cg n dataSize (cas_addr cas);
               addEvent_Dw opt cg n dataSize (cas_addr cas) } }"

definition instrument_LLSC :: "cg_options \<Rightarrow> IRTypeEnv \<Rightarrow> IRTemp \<Rightarrow> IRExpr \<Rightarrow> IRExpr option \<Rightarrow> CgState \<Rightarrow> nat \<Rightarrow> CgState option" where
  "instrument_LLSC opt env res addr storedata cg n =
     (case storedata of
        None \<Rightarrow> do { ty \<leftarrow> typeOfIRTemp env res;
                     sz \<leftarrow> sizeofIRType ty;
                     cg \<leftarrow> addEvent_Dr opt cg n sz addr;
                     flushEvents (clo_cache_sim opt) cg }
      | Some e \<Rightarrow> do { sz \<leftarrow> sizeofIRAtom env e;
                       addEvent_Dw opt cg n sz addr })"

text \<open>The widened guard of a side exit, inverted when the exit goes to the next instruction.\<close>

definition widen_guard :: "IRType \<Rightarrow> IRExpr \<Rightarrow> bool \<Rightarrow> CgState \<Rightarrow> CgState \<times> IRTemp" where
  "widen_guard tyW g inverted cg =
     (let widen = (if tyW = Ity_I32 then Iop_1Uto32 else Iop_1Uto64);
          opXOR = (if tyW = Ity_I32 then Iop_Xor32 else Iop_Xor64);
          one = Iex_Const (if tyW = Ity_I32 then Ico_U32 1 else Ico_U64 1) in
      case newIRTemp (sbOut_tyenv cg) Ity_I1 of (env, guard1) \<Rightarrow>
      case newIRTemp env tyW of (env, guardW) \<Rightarrow>
      case newIRTemp env tyW of (env, guard) \<Rightarrow>
      let cg = cg\<lparr>sbOut_tyenv := env\<rparr>;
          cg = addStmtToIRSB cg (Ist_WrTmp guard1 g);
          cg = addStmtToIRSB cg (Ist_WrTmp guardW (Iex_Unop widen (Iex_RdTmp guard1)));
          cg = addStmtToIRSB cg (Ist_WrTmp guard
                 (if inverted then Iex_Binop opXOR (Iex_RdTmp guardW) one else Iex_RdTmp guardW)) in
      (cg, guard))"

definition side_exit_address :: "IRType \<Rightarrow> IRConst \<Rightarrow> UWord option" where
  "side_exit_address tyW dst =
     (if tyW = Ity_I32 then (case dst of Ico_U32 a \<Rightarrow> Some (ucast a) | _ \<Rightarrow> None)
      else if tyW = Ity_I64 then (case dst of Ico_U64 a \<Rightarrow> Some a | _ \<Rightarrow> None)
      else None)"

definition instrument_Exit :: "cg_options \<Rightarrow> IRType \<Rightarrow> UWord \<Rightarrow> IRExpr \<Rightarrow> IRConst \<Rightarrow> IRJumpKind \<Rightarrow> CgState \<Rightarrow> nat \<Rightarrow> CgState option" where
  "instrument_Exit opt hWordTy nia g dst jk cg n =
     do { cg \<leftarrow> (if jk = Ijk_Boring \<or> jk = Ijk_Call \<or> jk = Ijk_Ret then
                    do { sea \<leftarrow> side_exit_address hWordTy dst;
                         case widen_guard hWordTy g (nia = sea) cg of (cg, guard) \<Rightarrow>
                           addEvent_Bc opt cg n (Iex_RdTmp guard) }
                  else Some cg);
          flushEvents (clo_cache_sim opt) cg }"

definition instrument_stmt :: "cg_options \<Rightarrow> debug_info \<Rightarrow> IRTypeEnv \<Rightarrow> IRType \<Rightarrow> IRStmt \<Rightarrow> loop_state \<Rightarrow> loop_state option" where
  "instrument_stmt opt dbg env hWordTy st ls =
     do { flat \<leftarrow> isFlatIRStmt st;
          vg_assert flat;
          ls \<leftarrow> (case st of
                    Ist_IMark addr len delta \<Rightarrow> instrument_IMark opt dbg addr len ls
                  | Ist_WrTmp tmp data \<Rightarrow>
                      (case data of
                         Iex_Load en ty aexpr \<Rightarrow>
                           do { sz \<leftarrow> sizeofIRType ty; on_cgs ls (\<lambda>cg n. addEvent_Dr opt cg n sz aexpr) }
                       | _ \<Rightarrow> Some ls)
                  | Ist_Store en aexpr data \<Rightarrow>
                      do { sz \<leftarrow> sizeofIRAtom env data; on_cgs ls (\<lambda>cg n. addEvent_Dw opt cg n sz aexpr) }
                  | Ist_StoreG sg \<Rightarrow> on_cgs ls (instrument_StoreG opt env sg)
                  | Ist_LoadG lg \<Rightarrow> on_cgs ls (instrument_LoadG opt lg)
                  | Ist_Dirty d \<Rightarrow> on_cgs ls (instrument_Dirty opt d)
                  | Ist_CAS cas \<Rightarrow> on_cgs ls (instrument_CAS opt env cas)
                  | Ist_LLSC en res addr storedata \<Rightarrow> on_cgs ls (instrument_LLSC opt env res addr storedata)
                  | Ist_Exit g dst jk offsIP \<Rightarrow>
                      on_cgs ls (instrument_Exit opt hWordTy (cia ls + ucast (isize ls)) g dst jk)
                  | _ \<Rightarrow> Some ls);
          Some (ls\<lparr>ls_cgs := addStmtToIRSB (ls_cgs ls) st\<rparr>) }"

primrec instrument_loop :: "cg_options \<Rightarrow> debug_info \<Rightarrow> IRTypeEnv \<Rightarrow> IRType \<Rightarrow> IRStmt list \<Rightarrow> loop_state \<Rightarrow> loop_state option" where
  "instrument_loop opt dbg env hWordTy [] ls = Some ls"
| "instrument_loop opt dbg env hWordTy (st # sts) ls =
     do { ls \<leftarrow> instrument_stmt opt dbg env hWordTy st ls; instrument_loop opt dbg env hWordTy sts ls }"

text \<open>The result is the tool with its tables and the state whose \<open>sbOut\<close> is the new block; the address is that of the closure, which
  the code asserts to be the base of the first extent.\<close>

definition cg_instrument :: "cg_options \<Rightarrow> debug_info \<Rightarrow> cg_tool \<Rightarrow> UWord \<Rightarrow> IRSB \<Rightarrow> UWord \<Rightarrow> IRType \<Rightarrow> IRType
    \<Rightarrow> (cg_tool \<times> CgState) option" where
  "cg_instrument opt dbg ct readdr sbIn vge_base0 gWordTy hWordTy =
     do { vg_assert (gWordTy = hWordTy);
          let preamble = takeWhile (\<lambda>st. \<not> is_IMark st) (stmts sbIn);
              rest = dropWhile (\<lambda>st. \<not> is_IMark st) (stmts sbIn) in
          do { vg_assert (stmts sbIn \<noteq> []);
               vg_assert (rest \<noteq> []);
               (addr, len) \<leftarrow> (case hd rest of Ist_IMark addr len delta \<Rightarrow> Some (addr, len) | _ \<Rightarrow> None);
               vg_assert (readdr = vge_base0);
               (ct, info) \<leftarrow> get_SB_info ct sbIn readdr;
               ls \<leftarrow> instrument_loop opt dbg (tyenv sbIn) hWordTy rest
                       \<lparr>ls_tool = ct,
                        ls_cgs = \<lparr>events = [], sbInfo = info, sbInfo_i = 0, sbOut = map O_Stmt preamble, sbOut_tyenv = tyenv sbIn\<rparr>,
                        curr_inode = None, cia = addr, isize = fix_isize len\<rparr>;
               cg \<leftarrow> (if jumpkind sbIn = Ijk_Boring \<or> jumpkind sbIn = Ijk_Call then
                         (case sb_next sbIn of
                            Iex_Const _ \<Rightarrow> Some (ls_cgs ls)
                          | Iex_RdTmp _ \<Rightarrow> do { n \<leftarrow> curr_inode ls; addEvent_Bi opt (ls_cgs ls) n (sb_next sbIn) }
                          | _ \<Rightarrow> None)
                       else Some (ls_cgs ls));
               cg \<leftarrow> flushEvents (clo_cache_sim opt) cg;
               vg_assert (sbInfo_i cg = n_instrs (sbInfo cg));
               Some (ls_tool ls, cg) } }"

section \<open>Start-up\<close>

definition min_line_size_of :: "cache_t \<Rightarrow> cache_t \<Rightarrow> cache_t \<Rightarrow> int" where
  "min_line_size_of I1c D1c LLc =
     (let m = (if line_size I1c < line_size D1c then line_size I1c else line_size D1c) in
      if line_size LLc < m then line_size LLc else m)"

text \<open>The tables are empty, the caches as configured; \<open>None\<close> when the tool ends because a configured cache
  is refused or a line is shorter than the largest register.\<close>

definition cg_post_clo_init :: "VexCacheInfo \<Rightarrow> clo_caches \<Rightarrow> int \<Rightarrow> (int \<times> cg_tool) option" where
  "cg_post_clo_init ci clo largest_load_or_store_size =
     do { (I1c, D1c, LLc) \<leftarrow> post_clo_init_configure_caches ci clo;
          let m = min_line_size_of I1c D1c LLc in
          if m < largest_load_or_store_size then None
          else do { c \<leftarrow> cachesim_initcaches I1c D1c LLc;
                    Some (m, \<lparr>cgst = \<lparr>sim = c, bp = bpred_init,
                                     insns = (\<lambda>_. \<lparr>instr_addr = 0, instr_len = 0, parent = 0\<rparr>),
                                     lines = (\<lambda>_. \<lparr>loc = \<lparr>loc_file = '''', loc_fn = '''', loc_line = 0\<rparr>,
                                                   Ir = zero_CC, Dr = zero_CC, Dw = zero_CC, Bc = zero_BC, Bi = zero_BC\<rparr>)\<rparr>,
                              n_lines = 0, stringTable = [], instrInfoTable = (\<lambda>_. None), next_inode = 0,
                              distinct_instrsGen = 0, distinct_instrsNoX = 0,
                              full_debugs = 0, file_line_debugs = 0, fn_debugs = 0, no_debugs = 0\<rparr>) } }"

end
