(* ===== verification/Cachegrind_Queue.thy ===== *)
theory Cachegrind_Queue
  imports Cachegrind
begin

text \<open>
  The queue of Cachegrind is an optimisation: merging events into fewer helper calls, the shortcut for
  instruction reads within a line and the treatment of a read followed by a write as one access change the
  calls and not the statistics. The lemmas compare each operation of the queue with a specification that logs an access when
  it is added: the meaning of the emitted code together with the queued events changes
  as the specification says.
\<close>

section \<open>Execution of the emitted calls\<close>

fun exec_helper :: "(IRAtom \<Rightarrow> UWord) \<Rightarrow> helper \<Rightarrow> cg \<Rightarrow> cg option" where
  "exec_helper env (H_1Ir n) s = log_1Ir n s"
| "exec_helper env (H_2Ir n n2) s = log_2Ir n n2 s"
| "exec_helper env (H_3Ir n n2 n3) s = log_3Ir n n2 n3 s"
| "exec_helper env (H_1IrGen_0D n) s = log_1IrGen_0D_cache_access n s"
| "exec_helper env (H_1IrNoX_0D n) s = log_1IrNoX_0D_cache_access n s"
| "exec_helper env (H_2IrNoX_0D n n2) s = log_2IrNoX_0D_cache_access n n2 s"
| "exec_helper env (H_3IrNoX_0D n n2 n3) s = log_3IrNoX_0D_cache_access n n2 n3 s"
| "exec_helper env (H_1IrNoX_1Dr n ea sz) s = log_1IrNoX_1Dr_cache_access n (env ea) sz s"
| "exec_helper env (H_1IrNoX_1Dw n ea sz) s = log_1IrNoX_1Dw_cache_access n (env ea) sz s"
| "exec_helper env (H_0Ir_1Dr n ea sz) s = log_0Ir_1Dr_cache_access n (env ea) sz s"
| "exec_helper env (H_0Ir_1Dw n ea sz) s = log_0Ir_1Dw_cache_access n (env ea) sz s"
| "exec_helper env (H_cond_branch n t) s = log_cond_branch n (env t) s"
| "exec_helper env (H_ind_branch n d) s = log_ind_branch n (env d) s"

text \<open>A value of type \<open>I1\<close> is the lowest bit of the word that the valuation gives it.\<close>

definition holds :: "(IRAtom \<Rightarrow> UWord) \<Rightarrow> IRAtom \<Rightarrow> bool" where
  "holds env g = bit (env g) 0"

definition leaves :: "(IRAtom \<Rightarrow> UWord) \<Rightarrow> IRStmt \<Rightarrow> bool" where
  "leaves env st = (case st of Ist_Exit g _ _ _ \<Rightarrow> holds env g | _ \<Rightarrow> False)"

definition is_Exit :: "IRStmt \<Rightarrow> bool" where
  "is_Exit st = (case st of Ist_Exit _ _ _ _ \<Rightarrow> True | _ \<Rightarrow> False)"

lemma leaves_Exit: "leaves env st \<Longrightarrow> is_Exit st"
  by (auto simp: leaves_def is_Exit_def split: IRStmt.splits)

text \<open>The second component of a state says that the block has been left by a side exit; nothing is executed
  after that. The statements that are copied act on the guest only, whose values the valuation \<open>env\<close> gives; of them
  just the side exits matter here.\<close>

fun live :: "(cg \<Rightarrow> cg option) \<Rightarrow> cg \<times> bool \<Rightarrow> (cg \<times> bool) option" where
  "live f (s, x) = (if x then Some (s, x) else map_option (\<lambda>s. (s, False)) (f s))"

fun exec_out :: "(IRAtom \<Rightarrow> UWord) \<Rightarrow> ostmt \<Rightarrow> cg \<times> bool \<Rightarrow> (cg \<times> bool) option" where
  "exec_out env (O_Call None h) sx = live (exec_helper env h) sx"
| "exec_out env (O_Call (Some g) h) sx = live (\<lambda>s. if holds env g then exec_helper env h s else Some s) sx"
| "exec_out env (O_Stmt st) sx = Some (fst sx, snd sx \<or> leaves env st)"

fun exec_list :: "('a \<Rightarrow> 's \<Rightarrow> 's option) \<Rightarrow> 'a list \<Rightarrow> 's \<Rightarrow> 's option" where
  "exec_list f [] s = Some s"
| "exec_list f (x # xs) s = do { s \<leftarrow> f x s; exec_list f xs s }"

lemma bind_exec_Nil [simp]: "(m \<bind> exec_list f []) = m"
  by (cases m) simp_all

lemma exec_single [simp]: "exec_list f [x] = f x"
  by (rule ext) simp

lemma exec_list_append: "exec_list f (xs @ ys) s = (exec_list f xs s \<bind> exec_list f ys)"
proof (induction xs arbitrary: s)
  case (Cons x xs)
  then show ?case by (cases "f x s") simp_all
qed simp

lemma live_Some [simp]: "live Some sx = Some sx"
  by (cases sx) auto

lemma live_bind: "(live f sx \<bind> live g) = live (\<lambda>s. f s \<bind> g) sx"
proof (cases sx)
  case (Pair s x)
  then show ?thesis by (cases "f s") auto
qed

lemma exec_list_live: "exec_list (\<lambda>a. live (f a)) xs sx = live (exec_list f xs) sx"
proof (induction xs arbitrary: sx)
  case Nil
  then show ?case by (cases sx) auto
next
  case (Cons a xs)
  have "exec_list (\<lambda>a. live (f a)) (a # xs) sx = (live (f a) sx \<bind> live (exec_list f xs))"
    using Cons by (cases "live (f a) sx") simp_all
  also have "\<dots> = live (exec_list f (a # xs)) sx" unfolding live_bind by (cases sx) simp
  finally show ?case .
qed

section \<open>Execution of the events one by one\<close>

text \<open>The plain meaning of an event: an instruction read always takes the general path, a modify is
  a read.\<close>

fun exec_event :: "bool \<Rightarrow> (IRAtom \<Rightarrow> UWord) \<Rightarrow> Event \<Rightarrow> cg \<Rightarrow> cg option" where
  "exec_event cs env (Ev_IrNoX n) s = (if cs then log_1IrGen_0D_cache_access n s else log_1Ir n s)"
| "exec_event cs env (Ev_IrGen n) s = (if cs then log_1IrGen_0D_cache_access n s else log_1Ir n s)"
| "exec_event cs env (Ev_Dr n ea sz) s = log_0Ir_1Dr_cache_access n (env ea) sz s"
| "exec_event cs env (Ev_Dm n ea sz) s = log_0Ir_1Dr_cache_access n (env ea) sz s"
| "exec_event cs env (Ev_Dw n ea sz) s = log_0Ir_1Dw_cache_access n (env ea) sz s"
| "exec_event cs env (Ev_Bc n t) s = log_cond_branch n (env t) s"
| "exec_event cs env (Ev_Bi n d) s = log_ind_branch n (env d) s"

text \<open>What the shortcut relies on is fixed when the caches are initialised.\<close>

definition same_shape :: "cachesim \<Rightarrow> (nat \<Rightarrow> InstrInfo) \<Rightarrow> cg \<Rightarrow> bool" where
  "same_shape c is s \<longleftrightarrow> insns s = is \<and> line_size_bits (I1 (sim s)) = line_size_bits (I1 c)
     \<and> line_size_bits (LL (sim s)) = line_size_bits (LL c)"

lemma setref_shape: "cachesim_setref_is_miss c b t = Some (c', m) \<Longrightarrow> line_size_bits c' = line_size_bits c"
  by (auto simp: cachesim_setref_is_miss_def Let_def vg_assert_bind split: if_splits option.splits)

lemma ref_shape: "cachesim_ref_is_miss c a sz = Some (c', m) \<Longrightarrow> line_size_bits c' = line_size_bits c"
  by (auto simp: cachesim_ref_is_miss_def Let_def dest!: setref_shape split: if_splits elim!: bind_SomeE)

lemma I1_Gen_shape:
  "cachesim_I1_doref_Gen c a sz = Some (c', m) \<Longrightarrow>
     line_size_bits (I1 c') = line_size_bits (I1 c) \<and> line_size_bits (LL c') = line_size_bits (LL c)"
  by (auto simp: cachesim_I1_doref_Gen_def dest!: ref_shape split: if_splits elim!: bind_SomeE)

lemma D1_shape:
  "cachesim_D1_doref c a sz = Some (c', m) \<Longrightarrow>
     line_size_bits (I1 c') = line_size_bits (I1 c) \<and> line_size_bits (LL c') = line_size_bits (LL c)"
  by (auto simp: cachesim_D1_doref_def dest!: ref_shape split: if_splits elim!: bind_SomeE)

lemmas log_defs = log_1Ir_def log_1IrGen_0D_cache_access_def log_0Ir_1Dr_cache_access_def log_0Ir_1Dw_cache_access_def
  log_cond_branch_def log_ind_branch_def on_parent_def Let_def

lemma event_shape: "exec_event cs env ev s = Some s' \<Longrightarrow> same_shape c is s \<Longrightarrow> same_shape c is s'"
  by (cases ev) (auto simp: log_defs same_shape_def dest!: I1_Gen_shape D1_shape split: if_splits elim!: bind_SomeE)

definition nox_ok :: "cachesim \<Rightarrow> (nat \<Rightarrow> InstrInfo) \<Rightarrow> Event \<Rightarrow> bool" where
  "nox_ok c is ev = (case ev of Ev_IrNoX n \<Rightarrow> cachesim_is_IrNoX c (instr_addr (is n)) (instr_len (is n)) | _ \<Rightarrow> True)"

definition data_ev :: "Event \<Rightarrow> bool" where
  "data_ev ev = (case ev of Ev_Dr _ _ _ \<Rightarrow> True | Ev_Dw _ _ _ \<Rightarrow> True | Ev_Dm _ _ _ \<Rightarrow> True | _ \<Rightarrow> False)"

lemma NoX_log:
  assumes "same_shape c is s" "nox_ok c is (Ev_IrNoX n)"
  shows "log_1IrNoX_0D_cache_access n s = log_1IrGen_0D_cache_access n s"
proof -
  have "cachesim_is_IrNoX (sim s) (instr_addr (insns s n)) (instr_len (insns s n))"
    using assms by (simp add: same_shape_def nox_ok_def cachesim_is_IrNoX_def split: if_splits)
  then show ?thesis by (simp add: log_1IrNoX_0D_cache_access_def log_1IrGen_0D_cache_access_def NoX_eq_Gen)
qed

lemma NoX_bind:
  assumes "same_shape c is s" "nox_ok c is (Ev_IrNoX n)" "\<And>s'. same_shape c is s' \<Longrightarrow> f s' = g s'"
  shows "(log_1IrNoX_0D_cache_access n s \<bind> f) = (log_1IrGen_0D_cache_access n s \<bind> g)"
proof (cases "log_1IrGen_0D_cache_access n s")
  case (Some s')
  then have "same_shape c is s'" using event_shape [of True undefined "Ev_IrGen n" s s'] assms(1) by simp
  then show ?thesis using Some NoX_log [OF assms(1,2)] assms(3) by simp
qed (simp add: NoX_log [OF assms(1,2)])

lemmas helper_defs = log_2Ir_def log_3Ir_def log_2IrNoX_0D_cache_access_def log_3IrNoX_0D_cache_access_def
  log_1IrNoX_1Dr_cache_access_def log_1IrNoX_1Dw_cache_access_def

lemma flush_one_exec:
  assumes "flush_one cs evs = Some (h, k)" "same_shape c is s" "\<forall>ev \<in> set evs. nox_ok c is ev"
    and "\<not> cs \<longrightarrow> (\<forall>ev \<in> set evs. \<not> data_ev ev)"
  shows "exec_helper env h s = exec_list (exec_event cs env) (take k evs) s"
proof -
  obtain ev rest where evs: "evs = ev # rest" using flush_one_pos [OF assms(1)] by (cases evs) auto
  note sh = assms(2) and nox = assms(3) [unfolded evs]
  show ?thesis
  proof (cases "\<exists>n. ev = Ev_IrNoX n")
    case False
    then show ?thesis using assms(1) by (cases ev) (auto simp: evs flush_one_def)
  next
    case True
    then obtain n where ev: "ev = Ev_IrNoX n" by blast
    have n: "nox_ok c is (Ev_IrNoX n)" using nox ev by simp
    note nl = NoX_log [OF _ n] and nb = NoX_bind [OF sh n]
    show ?thesis
    proof (cases "rest = []")
      case True
      then show ?thesis using assms(1) nl [OF sh] by (auto simp: evs ev flush_one_def)
    next
      case False
      then obtain e2 rest2 where rest: "rest = e2 # rest2" by (cases rest) auto
      show ?thesis
      proof (cases e2)
        case (Ev_IrNoX n2)
        then have n2: "nox_ok c is (Ev_IrNoX n2)" using nox rest by simp
        show ?thesis
        proof (cases "\<exists>n3 rest3. rest2 = Ev_IrNoX n3 # rest3")
          case True
          then obtain n3 rest3 where r3: "rest2 = Ev_IrNoX n3 # rest3" by blast
          then have n3: "nox_ok c is (Ev_IrNoX n3)" using nox rest by simp
          have hk: "h = (if cs then H_3IrNoX_0D n n2 n3 else H_3Ir n n2 n3)" "k = 3"
            using assms(1) by (auto simp: evs ev rest Ev_IrNoX r3 flush_one_def)
          show ?thesis unfolding hk evs ev rest Ev_IrNoX r3
            by (auto simp: helper_defs log_1Ir_def numeral_3_eq_3 intro!: nb NoX_bind [OF _ n2] NoX_log [OF _ n3])
        next
          case False
          then have hk: "h = (if cs then H_2IrNoX_0D n n2 else H_2Ir n n2)" "k = 2"
            using assms(1) by (auto simp: evs ev rest Ev_IrNoX flush_one_def split: list.splits Event.splits)
          show ?thesis unfolding hk evs ev rest Ev_IrNoX
            by (auto simp: helper_defs log_1Ir_def numeral_2_eq_2 intro!: nb NoX_log [OF _ n2])
        qed
      next
        case (Ev_Dr n2 ea sz)
        then show ?thesis using assms(1,4)
          by (auto simp: evs ev rest flush_one_def vg_assert_bind helper_defs numeral_2_eq_2 data_ev_def intro!: nb split: if_splits)
      next
        case (Ev_Dw n2 ea sz)
        then show ?thesis using assms(1,4)
          by (auto simp: evs ev rest flush_one_def vg_assert_bind helper_defs numeral_2_eq_2 data_ev_def intro!: nb split: if_splits)
      next
        case (Ev_Dm n2 ea sz)
        then show ?thesis using assms(1,4)
          by (auto simp: evs ev rest flush_one_def vg_assert_bind helper_defs numeral_2_eq_2 data_ev_def intro!: nb split: if_splits)
      qed (use assms(1) nl [OF sh] in \<open>auto simp: evs ev rest flush_one_def\<close>)
    qed
  qed
qed

lemma exec_list_shape: "exec_list (exec_event cs env) evs s = Some s' \<Longrightarrow> same_shape c is s \<Longrightarrow> same_shape c is s'"
  by (induction evs arbitrary: s) (auto dest: event_shape elim!: bind_SomeE)

lemma live_shape: "live f sx = Some sx' \<Longrightarrow> (\<And>s s'. f s = Some s' \<Longrightarrow> same_shape c is s \<Longrightarrow> same_shape c is s') \<Longrightarrow>
   same_shape c is (fst sx) \<Longrightarrow> same_shape c is (fst sx')"
  by (cases sx) (auto split: if_splits)

lemma live_cong: "(\<And>s. s = fst sx \<Longrightarrow> f s = g s) \<Longrightarrow> live f sx = live g sx"
  by (cases sx) auto

lemma flush_loop_exec:
  "flush_loop cs evs = Some ds \<Longrightarrow> same_shape c is (fst sx) \<Longrightarrow> \<forall>ev \<in> set evs. nox_ok c is ev \<Longrightarrow>
   \<not> cs \<longrightarrow> (\<forall>ev \<in> set evs. \<not> data_ev ev) \<Longrightarrow>
   exec_list (exec_out env) ds sx = live (exec_list (exec_event cs env) evs) sx"
proof (induction cs evs arbitrary: ds sx rule: flush_loop.induct)
  case (1 cs evs)
  let ?E = "exec_list (exec_event cs env)"
  show ?case
  proof (cases "evs = []")
    case True
    then show ?thesis using 1(2) by (cases sx) (simp add: flush_loop.simps)
  next
    case False
    then obtain h k ds' where r: "flush_one cs evs = Some (h, k)" "flush_loop cs (drop k evs) = Some ds'" "ds = O_Call None h # ds'"
      using 1(2) by (auto simp: flush_loop.simps [of cs evs] elim!: bind_SomeE)
    have one: "live (exec_helper env h) sx = live (?E (take k evs)) sx"
      using flush_one_exec [OF r(1) 1(3,4,5)] by (intro live_cong) simp
    have "exec_list (exec_out env) ds' sx' = live (?E (drop k evs)) sx'" if "live (?E (take k evs)) sx = Some sx'" for sx'
    proof (rule 1(1) [OF False r(1) refl r(2)])
      show "same_shape c is (fst sx')" using that exec_list_shape 1(3) by (rule live_shape)
    qed (use 1(4,5) in \<open>meson in_set_dropD\<close>)+
    then have "(live (?E (take k evs)) sx \<bind> exec_list (exec_out env) ds') = (live (?E (take k evs)) sx \<bind> live (?E (drop k evs)))"
      by (cases "live (?E (take k evs)) sx") simp_all
    also have "\<dots> = live (?E (take k evs @ drop k evs)) sx" unfolding live_bind by (intro live_cong) (rule exec_list_append [symmetric])
    finally show ?thesis by (simp add: r(3) one)
  qed
qed

section \<open>The specification\<close>

text \<open>What a block does that the tool has to count, in the order of its statements, with the guards, branch
  outcomes and targets evaluated.\<close>

datatype access =
    A_Ir nat
  | A_Dr nat int IRAtom
  | A_Dw nat int IRAtom
  | A_guarded nat int IRAtom bool bool
  | A_Bc nat UWord
  | A_Bi nat UWord
  | A_flush
  | A_stmt bool

text \<open>The specification logs every access at once. It remembers the last access when that was an unconditional read with
  nothing in between, because a write to the same place by the same instruction then counts as
  part of it. \<open>A_flush\<close> marks the points where this memory ends, \<open>A_stmt\<close> a statement of the block, with \<open>True\<close> for
  one that leaves it.\<close>

type_synonym last_access = "(nat \<times> int \<times> IRAtom) option"

fun spec_r :: "cg_options \<Rightarrow> access \<Rightarrow> last_access \<Rightarrow> last_access" where
  "spec_r opt (A_Ir n) r = None"
| "spec_r opt (A_Dr n sz ea) r = (if clo_cache_sim opt then Some (n, sz, ea) else r)"
| "spec_r opt (A_Dw n sz ea) r = (if clo_cache_sim opt then None else r)"
| "spec_r opt (A_guarded n sz ea h w) r = (if clo_cache_sim opt then None else r)"
| "spec_r opt (A_Bc n w) r = (if clo_branch_sim opt then None else r)"
| "spec_r opt (A_Bi n w) r = (if clo_branch_sim opt then None else r)"
| "spec_r opt A_flush r = None"
| "spec_r opt (A_stmt x) r = r"

fun spec_f :: "cg_options \<Rightarrow> (IRAtom \<Rightarrow> UWord) \<Rightarrow> access \<Rightarrow> last_access \<Rightarrow> cg \<times> bool \<Rightarrow> (cg \<times> bool) option" where
  "spec_f opt env (A_Ir n) r = live (if clo_cache_sim opt then log_1IrGen_0D_cache_access n else log_1Ir n)"
| "spec_f opt env (A_Dr n sz ea) r = live (if clo_cache_sim opt then log_0Ir_1Dr_cache_access n (env ea) sz else Some)"
| "spec_f opt env (A_Dw n sz ea) r =
     live (if clo_cache_sim opt \<and> r \<noteq> Some (n, sz, ea) then log_0Ir_1Dw_cache_access n (env ea) sz else Some)"
| "spec_f opt env (A_guarded n sz ea h w) r =
     live (if clo_cache_sim opt \<and> h
           then if w then log_0Ir_1Dw_cache_access n (env ea) sz else log_0Ir_1Dr_cache_access n (env ea) sz else Some)"
| "spec_f opt env (A_Bc n w) r = live (if clo_branch_sim opt then log_cond_branch n w else Some)"
| "spec_f opt env (A_Bi n w) r = live (if clo_branch_sim opt then log_ind_branch n w else Some)"
| "spec_f opt env A_flush r = Some"
| "spec_f opt env (A_stmt x) r = (\<lambda>sx. Some (fst sx, snd sx \<or> x))"

fun spec_run :: "cg_options \<Rightarrow> (IRAtom \<Rightarrow> UWord) \<Rightarrow> access list \<Rightarrow> last_access \<Rightarrow> cg \<times> bool \<Rightarrow> (cg \<times> bool) option" where
  "spec_run opt env [] r sx = Some sx"
| "spec_run opt env (a # as) r sx = do { sx \<leftarrow> spec_f opt env a r sx; spec_run opt env as (spec_r opt a r) sx }"

definition spec_rs :: "cg_options \<Rightarrow> access list \<Rightarrow> last_access \<Rightarrow> last_access" where
  "spec_rs opt as r = fold (spec_r opt) as r"

lemma spec_rs_simps [simp]: "spec_rs opt [] r = r" "spec_rs opt (a # as) r = spec_rs opt as (spec_r opt a r)"
  by (simp_all add: spec_rs_def)

lemma spec_rs_append: "spec_rs opt (as @ bs) r = spec_rs opt bs (spec_rs opt as r)"
  by (simp add: spec_rs_def)

lemma spec_run_append: "spec_run opt env (as @ bs) r sx = (spec_run opt env as r sx \<bind> spec_run opt env bs (spec_rs opt as r))"
proof (induction as arbitrary: r sx)
  case (Cons a as)
  then show ?case by (cases "spec_f opt env a r sx") simp_all
qed simp

lemma bind_spec_Nil [simp]: "(m \<bind> spec_run opt env [] r) = m"
  by (cases m) simp_all

lemma spec_single [simp]: "spec_run opt env [a] r = spec_f opt env a r"
  by (rule ext) simp

section \<open>The queue\<close>

text \<open>The neighbours in the queue that the assertions of \<open>flushEvents\<close> look at.\<close>

definition follows :: "Event \<Rightarrow> Event \<Rightarrow> bool" where
  "follows e e' = (case (e, e') of
      (Ev_IrNoX n, Ev_Dr n2 _ _) \<Rightarrow> n2 = n | (Ev_IrNoX n, Ev_Dw n2 _ _) \<Rightarrow> n2 = n | (Ev_IrNoX n, Ev_Dm n2 _ _) \<Rightarrow> n2 = n
    | _ \<Rightarrow> True)"

lemma flush_one_total: "evs \<noteq> [] \<Longrightarrow> successively follows evs \<Longrightarrow> flush_one cs evs \<noteq> None"
  by (cases evs; cases "tl evs") (auto simp: flush_one_def follows_def split: list.splits Event.splits)

lemma flush_loop_total: "successively follows evs \<Longrightarrow> flush_loop cs evs \<noteq> None"
proof (induction cs evs rule: flush_loop.induct)
  case (1 cs evs)
  show ?case
  proof (cases "evs = []")
    case False
    then obtain h k where r: "flush_one cs evs = Some (h, k)" using flush_one_total 1(2) by fastforce
    have "successively follows (take k evs @ drop k evs)" using 1(2) by simp
    then have "successively follows (drop k evs)" unfolding successively_append_iff by blast
    then have "flush_loop cs (drop k evs) \<noteq> None" using 1(1) [OF False r refl] by blast
    then show ?thesis using r by (auto simp: flush_loop.simps [of cs evs])
  qed (simp add: flush_loop.simps)
qed

lemma NoX_shape:
  "cachesim_I1_doref_NoX c a sz = Some (c', m) \<Longrightarrow>
     line_size_bits (I1 c') = line_size_bits (I1 c) \<and> line_size_bits (LL c') = line_size_bits (LL c)"
  by (auto simp: cachesim_I1_doref_NoX_def Let_def dest!: setref_shape split: if_splits elim!: bind_SomeE)

lemma NoX_log_shape: "log_1IrNoX_0D_cache_access n s = Some s' \<Longrightarrow> same_shape c is s \<Longrightarrow> same_shape c is s'"
  by (auto simp: log_1IrNoX_0D_cache_access_def on_parent_def Let_def same_shape_def dest!: NoX_shape elim!: bind_SomeE)

lemma log_shapes:
  "log_1Ir n s = Some s' \<Longrightarrow> same_shape c is s \<Longrightarrow> same_shape c is s'"
  "log_1IrGen_0D_cache_access n s = Some s' \<Longrightarrow> same_shape c is s \<Longrightarrow> same_shape c is s'"
  "log_0Ir_1Dr_cache_access n a z s = Some s' \<Longrightarrow> same_shape c is s \<Longrightarrow> same_shape c is s'"
  "log_0Ir_1Dw_cache_access n a z s = Some s' \<Longrightarrow> same_shape c is s \<Longrightarrow> same_shape c is s'"
  "log_cond_branch n a s = Some s' \<Longrightarrow> same_shape c is s \<Longrightarrow> same_shape c is s'"
  "log_ind_branch n a s = Some s' \<Longrightarrow> same_shape c is s \<Longrightarrow> same_shape c is s'"
  using event_shape [of False undefined "Ev_IrGen n" s s'] event_shape [of True undefined "Ev_IrGen n" s s']
    event_shape [of True "\<lambda>_. a" "Ev_Dr n undefined z" s s'] event_shape [of True "\<lambda>_. a" "Ev_Dw n undefined z" s s']
    event_shape [of True "\<lambda>_. a" "Ev_Bc n undefined" s s'] event_shape [of True "\<lambda>_. a" "Ev_Bi n undefined" s s']
  by auto

lemma helper_shape: "exec_helper env h s = Some s' \<Longrightarrow> same_shape c is s \<Longrightarrow> same_shape c is s'"
  by (cases h) (auto simp: helper_defs elim!: bind_SomeE dest: log_shapes NoX_log_shape)

lemma out_shape: "exec_list (exec_out env) ds sx = Some sx' \<Longrightarrow> same_shape c is (fst sx) \<Longrightarrow> same_shape c is (fst sx')"
proof (induction ds arbitrary: sx)
  case (Cons d ds)
  from Cons.prems(1) obtain sx1 where s1: "exec_out env d sx = Some sx1" "exec_list (exec_out env) ds sx1 = Some sx'"
    by (auto elim!: bind_SomeE)
  have "same_shape c is (fst sx1)"
    using s1(1) Cons.prems(2)
    by (cases "(env, d, sx)" rule: exec_out.cases) (auto elim!: live_shape split: if_splits intro: helper_shape)
  then show ?case using Cons.IH s1(2) by blast
qed simp

text \<open>A valuation of the temporaries fits a block when it respects the constants and the assignments that the
  instrumentation makes.\<close>

fun eval :: "(IRAtom \<Rightarrow> UWord) \<Rightarrow> IRExpr \<Rightarrow> UWord option" where
  "eval env (Iex_RdTmp t) = Some (env (Iex_RdTmp t))"
| "eval env (Iex_Const c) = Some (env (Iex_Const c))"
| "eval env (Iex_Unop op a) = (if op = Iop_1Uto64 then Some (env a AND 1) else None)"
| "eval env (Iex_Binop op a b) = (if op = Iop_Xor64 then Some (env a XOR env b) else None)"
| "eval env e = None"

definition env_ok :: "(IRAtom \<Rightarrow> UWord) \<Rightarrow> ostmt list \<Rightarrow> bool" where
  "env_ok env out \<longleftrightarrow> (\<forall>w. env (Iex_Const (Ico_U64 w)) = w)
     \<and> (\<forall>t e v. O_Stmt (Ist_WrTmp t e) \<in> set out \<and> eval env e = Some v \<longrightarrow> env (Iex_RdTmp t) = v)"

lemma env_ok_append: "env_ok env (xs @ ys) \<Longrightarrow> env_ok env xs"
  by (auto simp: env_ok_def)

text \<open>What the queue and the code emitted so far mean.\<close>

definition meaning :: "bool \<Rightarrow> (IRAtom \<Rightarrow> UWord) \<Rightarrow> CgState \<Rightarrow> cg \<times> bool \<Rightarrow> (cg \<times> bool) option" where
  "meaning cs env cgs sx = (exec_list (exec_out env) (sbOut cgs) sx \<bind> live (exec_list (exec_event cs env) (events cgs)))"

definition last_read :: "Event list \<Rightarrow> last_access" where
  "last_read evs = (if evs = [] then None else case last evs of Ev_Dr n ea sz \<Rightarrow> Some (n, sz, ea) | _ \<Rightarrow> None)"

lemma last_read_simps [simp]: "last_read [] = None" "last_read (evs @ [ev]) = last_read [ev]"
  by (simp_all add: last_read_def)

definition read_atom :: "Event \<Rightarrow> bool" where
  "read_atom ev = (case ev of Ev_Dr _ ea _ \<Rightarrow> isIRAtom ea | _ \<Rightarrow> True)"

definition queue_inv :: "cg_options \<Rightarrow> cachesim \<Rightarrow> (nat \<Rightarrow> InstrInfo) \<Rightarrow> nat option \<Rightarrow> CgState \<Rightarrow> bool" where
  "queue_inv opt c is cur cgs \<longleftrightarrow> length (events cgs) \<le> N_EVENTS \<and> successively follows (events cgs)
     \<and> (\<forall>ev \<in> set (events cgs). nox_ok c is ev) \<and> (\<not> clo_cache_sim opt \<longrightarrow> (\<forall>ev \<in> set (events cgs). \<not> data_ev ev))
     \<and> (\<forall>ev \<in> set (events cgs). read_atom ev)
     \<and> (\<forall>n. events cgs \<noteq> [] \<and> last (events cgs) = Ev_IrNoX n \<longrightarrow> cur = Some n)"

lemma queue_inv_empty: "events cgs = [] \<Longrightarrow> queue_inv opt c is cur cgs"
  by (simp add: queue_inv_def)

text \<open>The block under construction only grows.\<close>

definition frame :: "CgState \<Rightarrow> CgState \<Rightarrow> bool" where
  "frame cgs cgs' \<longleftrightarrow> sbInfo cgs' = sbInfo cgs \<and> sbInfo_i cgs' = sbInfo_i cgs
     \<and> (\<exists>env. sbOut_tyenv cgs' = sbOut_tyenv cgs @ env) \<and> (\<exists>xs. sbOut cgs' = sbOut cgs @ xs)"

lemma frame_refl [simp]: "frame cgs cgs"
  by (simp add: frame_def)

lemma frame_trans: "frame a b \<Longrightarrow> frame b c \<Longrightarrow> frame a c"
  by (auto simp: frame_def)

lemma frame_env: "frame a b \<Longrightarrow> env_ok env (sbOut b) \<Longrightarrow> env_ok env (sbOut a)"
  by (auto simp: frame_def dest: env_ok_append)

lemma flush_ok:
  assumes "queue_inv opt c is cur cgs"
  shows "\<exists>ds. flushEvents (clo_cache_sim opt) cgs = Some (cgs\<lparr>events := [], sbOut := sbOut cgs @ ds\<rparr>)
    \<and> (\<forall>env sx. same_shape c is (fst sx) \<longrightarrow>
         exec_list (exec_out env) (sbOut cgs @ ds) sx = meaning (clo_cache_sim opt) env cgs sx)"
proof -
  note q = assms [unfolded queue_inv_def]
  obtain ds where ds: "flush_loop (clo_cache_sim opt) (events cgs) = Some ds" using flush_loop_total q by blast
  have "(exec_list (exec_out env) (sbOut cgs) sx \<bind> exec_list (exec_out env) ds) = meaning (clo_cache_sim opt) env cgs sx"
    if "same_shape c is (fst sx)" for env sx
  proof (cases "exec_list (exec_out env) (sbOut cgs) sx")
    case (Some s1)
    then have "same_shape c is (fst s1)" using that by (rule out_shape)
    then show ?thesis using Some flush_loop_exec [OF ds, of c "is" s1 env] q by (simp add: meaning_def)
  qed (simp add: meaning_def)
  then show ?thesis using ds by (intro exI [of _ ds]) (simp add: flushEvents_def exec_list_append)
qed

text \<open>The step from one state of the instrumentation to another does to the meaning what the accesses do in the
  specification.\<close>

definition emits :: "cg_options \<Rightarrow> cachesim \<Rightarrow> (nat \<Rightarrow> InstrInfo) \<Rightarrow> CgState \<Rightarrow> CgState
    \<Rightarrow> ((IRAtom \<Rightarrow> UWord) \<Rightarrow> access list) \<Rightarrow> bool" where
  "emits opt c is cgs cgs' as \<longleftrightarrow>
     (\<forall>env. env_ok env (sbOut cgs') \<longrightarrow> spec_rs opt (as env) (last_read (events cgs)) = last_read (events cgs')
       \<and> (\<forall>sx. same_shape c is (fst sx) \<longrightarrow> meaning (clo_cache_sim opt) env cgs' sx =
            (meaning (clo_cache_sim opt) env cgs sx \<bind> spec_run opt env (as env) (last_read (events cgs)))))"

lemma emitsD:
  assumes "emits opt c is cgs cgs' as" "env_ok env (sbOut cgs')"
  shows "spec_rs opt (as env) (last_read (events cgs)) = last_read (events cgs')"
    "same_shape c is (fst sx) \<Longrightarrow> meaning (clo_cache_sim opt) env cgs' sx =
       (meaning (clo_cache_sim opt) env cgs sx \<bind> spec_run opt env (as env) (last_read (events cgs)))"
  using assms unfolding emits_def by blast+

lemma emits_trans:
  assumes "emits opt c is c0 c1 as" "emits opt c is c1 c2 bs" "\<exists>xs. sbOut c2 = sbOut c1 @ xs"
  shows "emits opt c is c0 c2 (\<lambda>env. as env @ bs env)"
proof -
  let ?M = "meaning (clo_cache_sim opt)" and ?r = "last_read (events c0)"
  have e: "env_ok env (sbOut c1)" if "env_ok env (sbOut c2)" for env using assms(3) that env_ok_append by metis
  have r: "spec_rs opt (as env) ?r = last_read (events c1)" if "env_ok env (sbOut c2)" for env
    using emitsD(1) [OF assms(1) e [OF that]] .
  have "?M env c2 sx = (?M env c0 sx \<bind> spec_run opt env (as env @ bs env) ?r)"
    if "env_ok env (sbOut c2)" "same_shape c is (fst sx)" for env sx
  proof -
    have "?M env c2 sx = (?M env c0 sx \<bind> spec_run opt env (as env) ?r \<bind> spec_run opt env (bs env) (last_read (events c1)))"
      unfolding emitsD(2) [OF assms(2) that] emitsD(2) [OF assms(1) e [OF that(1)] that(2)] ..
    then show ?thesis by (cases "?M env c0 sx") (simp_all add: spec_run_append r [OF that(1)])
  qed
  moreover have "spec_rs opt (as env @ bs env) ?r = last_read (events c2)" if "env_ok env (sbOut c2)" for env
    using emitsD(1) [OF assms(2) that] r [OF that] by (simp add: spec_rs_append)
  ultimately show ?thesis by (simp add: emits_def)
qed

lemma emits_cong:
  "events c1 = events c0 \<Longrightarrow> sbOut c1 = sbOut c0 \<Longrightarrow> emits opt c is c1 c2 as \<Longrightarrow> emits opt c is c0 c2 as"
  by (simp add: emits_def meaning_def)

definition op_refines :: "cg_options \<Rightarrow> cachesim \<Rightarrow> (nat \<Rightarrow> InstrInfo) \<Rightarrow> nat option \<Rightarrow> CgState option \<Rightarrow> CgState
    \<Rightarrow> ((IRAtom \<Rightarrow> UWord) \<Rightarrow> access list) \<Rightarrow> bool" where
  "op_refines opt c is cur res cgs as \<longleftrightarrow>
     (\<exists>cgs'. res = Some cgs' \<and> queue_inv opt c is cur cgs' \<and> frame cgs cgs' \<and> emits opt c is cgs cgs' as)"

lemmas refines_defs = op_refines_def emits_def

lemma op_refines_cong:
  assumes "\<And>env. spec_run opt env (as env) (last_read (events cgs)) = spec_run opt env (bs env) (last_read (events cgs))"
    "\<And>env. spec_rs opt (as env) (last_read (events cgs)) = spec_rs opt (bs env) (last_read (events cgs))"
    "op_refines opt c is cur res cgs as"
  shows "op_refines opt c is cur res cgs bs"
  using assms(3) unfolding op_refines_def emits_def assms(1,2) .

lemma op_refines_seq:
  assumes "op_refines opt c is cur1 res cgs as"
    and "\<And>cgs'. res = Some cgs' \<Longrightarrow> queue_inv opt c is cur1 cgs' \<Longrightarrow> frame cgs cgs' \<Longrightarrow> op_refines opt c is cur2 (k cgs') cgs' bs"
  shows "op_refines opt c is cur2 (res \<bind> k) cgs (\<lambda>env. as env @ bs env)"
proof -
  from assms(1) obtain c1 where c1: "res = Some c1" "queue_inv opt c is cur1 c1" "frame cgs c1" "emits opt c is cgs c1 as"
    by (auto simp: op_refines_def)
  from assms(2) [OF c1(1-3)] obtain c2 where c2: "k c1 = Some c2" "queue_inv opt c is cur2 c2" "frame c1 c2" "emits opt c is c1 c2 bs"
    by (auto simp: op_refines_def)
  have "emits opt c is cgs c2 (\<lambda>env. as env @ bs env)" using c2(3) by (intro emits_trans [OF c1(4) c2(4)]) (simp add: frame_def)
  then show ?thesis using c1(1) c2(1,2) frame_trans [OF c1(3) c2(3)] by (auto simp: op_refines_def)
qed

text \<open>A step that leaves the queue alone and emits code that does nothing.\<close>

lemma op_refines_same:
  assumes "queue_inv opt c is cur cgs" "events cgs' = events cgs" "frame cgs cgs'"
    "\<And>env. exec_list (exec_out env) (sbOut cgs') = exec_list (exec_out env) (sbOut cgs)"
    "\<And>env r. spec_rs opt (as env) r = r" "\<And>env r sx. spec_run opt env (as env) r sx = Some sx"
  shows "op_refines opt c is cur (Some cgs') cgs as"
proof -
  have "(m \<bind> spec_run opt env (as env) r) = m" for m env r by (cases m) (simp_all add: assms(6))
  then show ?thesis using assms(1-5) by (auto simp: refines_defs queue_inv_def meaning_def)
qed

lemma flush_refines:
  assumes "queue_inv opt c is cur cgs"
  shows "op_refines opt c is cur' (flushEvents (clo_cache_sim opt) cgs) cgs (\<lambda>env. [A_flush])"
proof -
  from flush_ok [OF assms] obtain ds where ds: "flushEvents (clo_cache_sim opt) cgs = Some (cgs\<lparr>events := [], sbOut := sbOut cgs @ ds\<rparr>)"
    "\<And>env sx. same_shape c is (fst sx) \<Longrightarrow>
       exec_list (exec_out env) (sbOut cgs @ ds) sx = meaning (clo_cache_sim opt) env cgs sx" by blast
  have "(m \<bind> Some) = m" for m :: "(cg \<times> bool) option" by (cases m) simp_all
  moreover have "(m \<bind> live Some) = m" for m by (cases m) simp_all
  moreover have "exec_list (exec_event cs env) [] = Some" for cs env by (rule ext) simp
  ultimately show ?thesis using ds by (auto simp: refines_defs queue_inv_empty frame_def meaning_def)
qed

lemma flush_events: "flushEvents cs cgs = Some cgs' \<Longrightarrow> events cgs' = []"
  by (auto simp: flushEvents_def elim!: bind_SomeE)

lemma append_event_refines:
  assumes q: "queue_inv opt c is cur0 cgs" and lt: "length (events cgs) < N_EVENTS"
    and ev: "nox_ok c is ev" "\<not> clo_cache_sim opt \<longrightarrow> \<not> data_ev ev" "read_atom ev"
    and fol: "events cgs \<noteq> [] \<longrightarrow> follows (last (events cgs)) ev" and cur: "\<And>n. ev = Ev_IrNoX n \<Longrightarrow> cur = Some n"
    and r: "\<And>env. spec_r opt (a env) (last_read (events cgs)) = last_read [ev]"
    and f: "\<And>env. spec_f opt env (a env) (last_read (events cgs)) = live (exec_event (clo_cache_sim opt) env ev)"
  shows "op_refines opt c is cur (Some (cgs\<lparr>events := events cgs @ [ev]\<rparr>)) cgs (\<lambda>env. [a env])"
proof -
  have "meaning cs env (cgs\<lparr>events := events cgs @ [ev]\<rparr>) sx = (meaning cs env cgs sx \<bind> live (exec_event cs env ev))" for cs env sx
  proof (cases "exec_list (exec_out env) (sbOut cgs) sx")
    case (Some s1)
    have "live (exec_list (exec_event cs env) (events cgs @ [ev])) s1
        = (live (exec_list (exec_event cs env) (events cgs)) s1 \<bind> live (exec_event cs env ev))"
      unfolding live_bind by (intro live_cong) (simp add: exec_list_append)
    then show ?thesis using Some by (simp add: meaning_def)
  qed (simp add: meaning_def)
  moreover have "queue_inv opt c is cur (cgs\<lparr>events := events cgs @ [ev]\<rparr>)"
    using q ev fol cur lt by (auto simp: queue_inv_def successively_append_iff)
  ultimately show ?thesis using r f by (simp add: refines_defs frame_def)
qed

lemma add_refines:
  assumes q: "queue_inv opt c is cur0 cgs"
    and ev: "nox_ok c is ev" "\<not> clo_cache_sim opt \<longrightarrow> \<not> data_ev ev" "read_atom ev"
    and fol: "events cgs \<noteq> [] \<longrightarrow> follows (last (events cgs)) ev" and cur: "\<And>n. ev = Ev_IrNoX n \<Longrightarrow> cur = Some n"
    and r: "\<And>env r. spec_r opt (a env) r = last_read [ev]"
    and f: "\<And>env. spec_f opt env (a env) (last_read (events cgs)) = live (exec_event (clo_cache_sim opt) env ev)"
    and f0: "\<And>env. spec_f opt env (a env) None = live (exec_event (clo_cache_sim opt) env ev)"
  shows "op_refines opt c is cur (add_event opt cgs ev) cgs (\<lambda>env. [a env])"
proof (cases "length (events cgs) = N_EVENTS")
  case False
  then have lt: "length (events cgs) < N_EVENTS" using q by (simp add: queue_inv_def)
  then have "add_event opt cgs ev = Some (cgs\<lparr>events := events cgs @ [ev]\<rparr>)" using False by (simp add: add_event_def)
  then show ?thesis using append_event_refines [OF q lt ev fol cur] r f by simp
next
  case True
  define k where "k = (\<lambda>cgs :: CgState. do { vg_assert (length (events cgs) < N_EVENTS); Some (cgs\<lparr>events := events cgs @ [ev]\<rparr>) })"
  have "op_refines opt c is cur (flushEvents (clo_cache_sim opt) cgs \<bind> k) cgs (\<lambda>env. [A_flush] @ [a env])"
  proof (rule op_refines_seq [OF flush_refines [OF q]])
    fix cgs' assume "flushEvents (clo_cache_sim opt) cgs = Some cgs'" "queue_inv opt c is cur0 cgs'"
    then show "op_refines opt c is cur (k cgs') cgs' (\<lambda>env. [a env])"
      using append_event_refines [of opt c "is" cur0 cgs' ev cur a] flush_events [of "clo_cache_sim opt" cgs cgs'] ev cur r f0
      by (simp add: k_def N_EVENTS_def)
  qed
  moreover have "spec_run opt env ([A_flush] @ [a env]) (last_read (events cgs)) = spec_run opt env [a env] (last_read (events cgs))" for env
    by (rule ext) (simp add: f f0)
  moreover have "spec_rs opt ([A_flush] @ [a env]) r' = spec_rs opt [a env] r'" for env r' by (simp add: r)
  ultimately have "op_refines opt c is cur (flushEvents (clo_cache_sim opt) cgs \<bind> k) cgs (\<lambda>env. [a env])"
    by (rule op_refines_cong [rotated -1])
  then show ?thesis using True by (simp add: add_event_def k_def)
qed

section \<open>The operations of the queue\<close>

lemma follows_cur:
  assumes "queue_inv opt c is (Some n) cgs"
  shows "events cgs \<noteq> [] \<longrightarrow> follows (last (events cgs)) (Ev_Dr n ea sz)" "events cgs \<noteq> [] \<longrightarrow> follows (last (events cgs)) (Ev_Dw n ea sz)"
  using assms by (auto simp: queue_inv_def follows_def split: Event.splits)

lemma skip_refines:
  assumes "queue_inv opt c is cur cgs" "\<And>env r. spec_rs opt (as env) r = r" "\<And>env r sx. spec_run opt env (as env) r sx = Some sx"
  shows "op_refines opt c is cur (Some cgs) cgs as"
  using assms by (intro op_refines_same) auto

definition ir_event :: "cachesim \<Rightarrow> InstrInfo \<Rightarrow> nat \<Rightarrow> Event" where
  "ir_event c node n = (if cachesim_is_IrNoX c (instr_addr node) (instr_len node) then Ev_IrNoX n else Ev_IrGen n)"

lemma Ir_refines:
  assumes "queue_inv opt c is cur cgs"
  shows "op_refines opt c is (Some n) (add_event opt cgs (ir_event c (is n) n)) cgs (\<lambda>env. [A_Ir n])"
proof -
  have "exec_event cs env (ir_event c (is n) n) = (if cs then log_1IrGen_0D_cache_access n else log_1Ir n)" for cs env
    by (rule ext) (simp add: ir_event_def)
  then show ?thesis
    by (intro add_refines [OF assms])
      (auto simp: ir_event_def nox_ok_def data_ev_def read_atom_def follows_def last_read_def split: Event.splits if_splits)
qed

lemma Dr_refines:
  assumes q: "queue_inv opt c is (Some n) cgs" and ok: "isIRAtom ea" "1 \<le> sz" "sz \<le> min_line_size opt"
  shows "op_refines opt c is (Some n) (addEvent_Dr opt cgs n sz ea) cgs (\<lambda>env. [A_Dr n sz ea])"
proof (cases "clo_cache_sim opt")
  case True
  have "exec_event True env (Ev_Dr n ea sz) = log_0Ir_1Dr_cache_access n (env ea) sz" for env by (rule ext) simp
  then have "op_refines opt c is (Some n) (add_event opt cgs (Ev_Dr n ea sz)) cgs (\<lambda>env. [A_Dr n sz ea])"
    using True ok follows_cur [OF q] by (intro add_refines [OF q]) (auto simp: nox_ok_def read_atom_def last_read_def)
  then show ?thesis using ok True by (simp add: addEvent_Dr_def)
next
  case False
  then show ?thesis using ok by (auto intro!: skip_refines [OF q] simp: addEvent_Dr_def)
qed

lemma eqIRAtom_right:
  assumes "typeOfIRAtom te ea = Some Ity_I64" "isIRAtom e"
  shows "eqIRAtom e ea = Some (e = ea)"
proof -
  have "eqIRConst a b = eqIRConst b a" for a b
    by (cases a; cases b) (auto simp: eqIRConst_def ieee_eq_def Let_def)
  then have "eqIRAtom e ea = eqIRAtom ea e"
    using assms typeOfIRAtom_atom [OF assms(1)] by (cases e; cases ea) (auto simp: eqIRAtom_def isIRAtom_def)
  then show ?thesis using eqIRAtom_iff [OF assms] by auto
qed

lemma merge_refines:
  assumes q: "queue_inv opt c is cur cgs" and l: "events cgs \<noteq> []" "last (events cgs) = Ev_Dr n ea sz"
  shows "op_refines opt c is cur (Some (cgs\<lparr>events := butlast (events cgs) @ [Ev_Dm n ea sz]\<rparr>)) cgs (\<lambda>env. [A_Dw n sz ea])"
proof -
  obtain evs where e: "events cgs = evs @ [Ev_Dr n ea sz]" using l by (metis append_butlast_last_id)
  have "follows e (Ev_Dm n ea sz) = follows e (Ev_Dr n ea sz)" for e by (cases e) (auto simp: follows_def)
  then have "queue_inv opt c is cur (cgs\<lparr>events := evs @ [Ev_Dm n ea sz]\<rparr>)"
    using q by (auto simp: queue_inv_def e successively_append_iff nox_ok_def data_ev_def read_atom_def)
  moreover have "exec_event cs env (Ev_Dm n ea sz) = exec_event cs env (Ev_Dr n ea sz)" for cs env by (rule ext) simp
  then have "exec_list (exec_event cs env) (evs @ [Ev_Dm n ea sz]) = exec_list (exec_event cs env) (evs @ [Ev_Dr n ea sz])" for cs env
    by (intro ext) (simp only: exec_list_append exec_single)
  then have "meaning cs env (cgs\<lparr>events := evs @ [Ev_Dm n ea sz]\<rparr>) sx = meaning cs env cgs sx" for cs env sx
    by (simp add: meaning_def e)
  moreover have "clo_cache_sim opt" using q by (auto simp: queue_inv_def e data_ev_def)
  moreover have "(m \<bind> live Some) = m" for m by (cases m) simp_all
  ultimately show ?thesis by (simp add: refines_defs frame_def e) (simp add: last_read_def)
qed

lemma Dw_refines:
  assumes q: "queue_inv opt c is (Some n) cgs" and ty: "typeOfIRAtom te ea = Some Ity_I64" and sz: "1 \<le> sz" "sz \<le> min_line_size opt"
  shows "op_refines opt c is (Some n) (addEvent_Dw opt cgs n sz ea) cgs (\<lambda>env. [A_Dw n sz ea])"
proof (cases "clo_cache_sim opt")
  case cs: True
  let ?same = "last_read (events cgs) = Some (n, sz, ea)"
  have same: "(if events cgs = [] then Some False else mergeable (last (events cgs)) n sz ea) = Some ?same"
  proof (cases "events cgs = []")
    case False
    then have "read_atom (last (events cgs))" using q by (auto simp: queue_inv_def)
    then show ?thesis using False eqIRAtom_right [OF ty]
      by (auto simp: mergeable_def last_read_def read_atom_def split: Event.splits)
  qed simp
  have "exec_event True env (Ev_Dw n ea sz) = log_0Ir_1Dw_cache_access n (env ea) sz" for env by (rule ext) simp
  then have add: "\<not> ?same \<Longrightarrow> op_refines opt c is (Some n) (add_event opt cgs (Ev_Dw n ea sz)) cgs (\<lambda>env. [A_Dw n sz ea])"
    using cs follows_cur [OF q] by (intro add_refines [OF q]) (auto simp: nox_ok_def read_atom_def last_read_def)
  have mer: "?same \<Longrightarrow> op_refines opt c is (Some n)
      (Some (cgs\<lparr>events := butlast (events cgs) @ [retag_Dm (last (events cgs))]\<rparr>)) cgs (\<lambda>env. [A_Dw n sz ea])"
    using merge_refines [OF q, of n ea sz] by (auto simp: last_read_def retag_Dm_def split: if_splits Event.splits)
  have "addEvent_Dw opt cgs n sz ea = (if ?same then Some (cgs\<lparr>events := butlast (events cgs) @ [retag_Dm (last (events cgs))]\<rparr>)
      else add_event opt cgs (Ev_Dw n ea sz))"
    using typeOfIRAtom_atom [OF ty] sz cs unfolding addEvent_Dw_def same by simp
  then show ?thesis using add mer by simp
next
  case False
  then show ?thesis using typeOfIRAtom_atom [OF ty] sz by (auto intro!: skip_refines [OF q] simp: addEvent_Dw_def)
qed

lemma call_refines:
  assumes "queue_inv opt c is cur cgs" "events cgs = []"
    "\<And>env. spec_f opt env (a env) None = exec_out env (O_Call g h)" "\<And>env. spec_r opt (a env) None = None"
  shows "op_refines opt c is cur (Some (cgs\<lparr>sbOut := sbOut cgs @ [O_Call g h]\<rparr>)) cgs (\<lambda>env. [a env])"
proof -
  have n: "(m \<bind> live (exec_list (exec_event cs env) [])) = m" for m cs env
  proof (cases m)
    case (Some sx)
    then show ?thesis by (cases sx) simp
  qed simp
  then show ?thesis using assms
    by (auto simp: refines_defs queue_inv_empty frame_def meaning_def exec_list_append last_read_def)
qed

lemma guarded_refines:
  assumes q: "queue_inv opt c is cur cgs" and ok: "isIRAtom ea" "isIRAtom g" "1 \<le> sz" "sz \<le> min_line_size opt"
  shows "op_refines opt c is cur (addEvent_D_guarded opt cgs n sz ea g w) cgs (\<lambda>env. [A_guarded n sz ea (holds env g) w])"
proof (cases "clo_cache_sim opt")
  case True
  let ?h = "if w then H_0Ir_1Dw n ea sz else H_0Ir_1Dr n ea sz"
  define k where "k = (\<lambda>cgs :: CgState. do { vg_assert (events cgs = []); Some (cgs\<lparr>sbOut := sbOut cgs @ [O_Call (Some g) ?h]\<rparr>) })"
  have f: "spec_f opt env (A_guarded n sz ea (holds env g) w) None = exec_out env (O_Call (Some g) ?h)" for env
  proof (rule ext)
    show "spec_f opt env (A_guarded n sz ea (holds env g) w) None sx = exec_out env (O_Call (Some g) ?h) sx" for sx
      using True by (cases sx) (auto intro: live_cong)
  qed
  have "op_refines opt c is cur (flushEvents (clo_cache_sim opt) cgs \<bind> k) cgs (\<lambda>env. [A_flush] @ [A_guarded n sz ea (holds env g) w])"
  proof (rule op_refines_seq [OF flush_refines [OF q]])
    fix cgs' assume r: "flushEvents (clo_cache_sim opt) cgs = Some cgs'" "queue_inv opt c is cur cgs'"
    have "op_refines opt c is cur (Some (cgs'\<lparr>sbOut := sbOut cgs' @ [O_Call (Some g) ?h]\<rparr>)) cgs' (\<lambda>env. [A_guarded n sz ea (holds env g) w])"
      by (rule call_refines [OF r(2) flush_events [OF r(1)] f]) (simp add: True)
    then show "op_refines opt c is cur (k cgs') cgs' (\<lambda>env. [A_guarded n sz ea (holds env g) w])"
      using flush_events [OF r(1)] by (simp add: k_def)
  qed
  then have "op_refines opt c is cur (flushEvents (clo_cache_sim opt) cgs \<bind> k) cgs (\<lambda>env. [A_guarded n sz ea (holds env g) w])"
    by (rule op_refines_cong [rotated -1]) (auto intro!: ext simp: True)
  then show ?thesis using ok True by (simp add: addEvent_D_guarded_def k_def)
next
  case False
  then show ?thesis using ok by (auto intro!: skip_refines [OF q] simp: addEvent_D_guarded_def)
qed

lemma branch_refines:
  assumes q: "queue_inv opt c is cur cgs" and ty: "typeOfIRAtom (sbOut_tyenv cgs) a = Some Ity_I64"
  shows "op_refines opt c is cur (addEvent_Bc opt cgs n a) cgs (\<lambda>env. [A_Bc n (env a)])" (is ?Bc)
    "op_refines opt c is cur (addEvent_Bi opt cgs n a) cgs (\<lambda>env. [A_Bi n (env a)])" (is ?Bi)
proof -
  have e: "exec_event cs env (Ev_Bc n a) = log_cond_branch n (env a)" "exec_event cs env (Ev_Bi n a) = log_ind_branch n (env a)" for cs env
    by (rule ext, simp)+
  note s = nox_ok_def data_ev_def read_atom_def follows_def last_read_def
  have "?Bc \<and> ?Bi"
  proof (cases "clo_branch_sim opt")
    case True
    have "op_refines opt c is cur (add_event opt cgs (Ev_Bc n a)) cgs (\<lambda>env. [A_Bc n (env a)])"
      "op_refines opt c is cur (add_event opt cgs (Ev_Bi n a)) cgs (\<lambda>env. [A_Bi n (env a)])"
      by (intro add_refines [OF q]; auto simp: True s e split: Event.splits)+
    then show ?thesis using True ty typeOfIRAtom_atom [OF ty] by (simp add: addEvent_Bc_def addEvent_Bi_def)
  next
    case False
    then show ?thesis using ty typeOfIRAtom_atom [OF ty] by (auto intro!: skip_refines [OF q] simp: addEvent_Bc_def addEvent_Bi_def)
  qed
  then show ?Bc ?Bi by blast+
qed

end
