(* ===== verification/Cachegrind_Counts.thy ===== *)
theory Cachegrind_Counts
  imports Cachegrind_Queue
begin

text \<open>
  What the cost centres of Cachegrind count: the effect of the helper functions on the counters, and the
  counters after a run of instrumented code.
\<close>

section \<open>What the counters count\<close>

text \<open>The cost centre and the kind of an event.\<close>

datatype kind_of_event = K_Ir | K_Dr | K_Dw | K_Bc | K_Bi

fun kind_ev :: "Event \<Rightarrow> kind_of_event" where
  "kind_ev (Ev_IrNoX _) = K_Ir" | "kind_ev (Ev_IrGen _) = K_Ir" | "kind_ev (Ev_Dr _ _ _) = K_Dr" | "kind_ev (Ev_Dm _ _ _) = K_Dr"
| "kind_ev (Ev_Dw _ _ _) = K_Dw" | "kind_ev (Ev_Bc _ _) = K_Bc" | "kind_ev (Ev_Bi _ _) = K_Bi"

fun inode :: "Event \<Rightarrow> nat" where
  "inode (Ev_IrNoX n) = n" | "inode (Ev_IrGen n) = n" | "inode (Ev_Dr n _ _) = n" | "inode (Ev_Dm n _ _) = n"
| "inode (Ev_Dw n _ _) = n" | "inode (Ev_Bc n _) = n" | "inode (Ev_Bi n _) = n"

text \<open>The counters of a kind: accesses, first-level and last-level misses; for branches, the mispredictions
  stand for both.\<close>

fun counts :: "kind_of_event \<Rightarrow> LineCC \<Rightarrow> ULong \<times> ULong \<times> ULong" where
  "counts K_Ir l = (cc_a (Ir l), cc_m1 (Ir l), cc_mL (Ir l))"
| "counts K_Dr l = (cc_a (Dr l), cc_m1 (Dr l), cc_mL (Dr l))"
| "counts K_Dw l = (cc_a (Dw l), cc_m1 (Dw l), cc_mL (Dw l))"
| "counts K_Bc l = (bc_b (Bc l), bc_mp (Bc l), bc_mp (Bc l))"
| "counts K_Bi l = (bc_b (Bi l), bc_mp (Bi l), bc_mp (Bi l))"

definition bump_counts :: "bool \<times> bool \<Rightarrow> ULong \<times> ULong \<times> ULong \<Rightarrow> ULong \<times> ULong \<times> ULong" where
  "bump_counts m c = (fst c + 1, fst (snd c) + (if fst m then 1 else 0), snd (snd c) + (if snd m then 1 else 0))"

lemma ref_counts:
  "cachesim_I1_doref_Gen c a sz = Some (c', m) \<Longrightarrow> snd m \<longrightarrow> fst m"
  "cachesim_D1_doref c a sz = Some (c', m) \<Longrightarrow> snd m \<longrightarrow> fst m"
  by (auto simp: cachesim_I1_doref_Gen_def cachesim_D1_doref_def split: if_splits elim!: bind_SomeE)

lemma predict_bit:
  "do_cond_branch_predict b a t = Some (b', mp) \<Longrightarrow> mp = 0 \<or> mp = 1"
  "do_ind_branch_predict b a d = Some (b', mp) \<Longrightarrow> mp = 0 \<or> mp = 1"
  by (auto simp: do_cond_branch_predict_def do_ind_branch_predict_def Let_def elim!: bind_SomeE split: if_splits)

definition counts_step :: "(nat \<Rightarrow> LineCC) \<Rightarrow> (nat \<Rightarrow> LineCC) \<Rightarrow> nat \<Rightarrow> kind_of_event \<Rightarrow> bool" where
  "counts_step ls ls' p0 K0 \<longleftrightarrow> (\<exists>m1 mL. (mL \<longrightarrow> m1) \<and> (\<forall>p K. counts K (ls' p) =
     (if p = p0 \<and> K = K0 then bump_counts (m1, mL) (counts K (ls p)) else counts K (ls p))))"

lemma counts_step_parent:
  assumes "snd m \<longrightarrow> fst m" "\<And>l. counts K0 (f l) = bump_counts m (counts K0 l)" "\<And>l K. K \<noteq> K0 \<Longrightarrow> counts K (f l) = counts K l"
    "lines s1 = lines s" "insns s1 = insns s"
  shows "counts_step (lines s) (lines (on_parent n f s1)) (parent (insns s n)) K0"
  unfolding counts_step_def using assms
  by (intro exI [of _ "fst m"] exI [of _ "snd m"]) (auto simp: on_parent_def Let_def)

lemma counts_add_ref:
  assumes "snd m \<longrightarrow> fst m"
  shows "counts_step (lines s) (lines (on_parent n (\<lambda>l. l\<lparr>Ir := add_ref m (Ir l)\<rparr>) (s\<lparr>sim := c\<rparr>))) (parent (insns s n)) K_Ir"
    "counts_step (lines s) (lines (on_parent n (\<lambda>l. l\<lparr>Dr := add_ref m (Dr l)\<rparr>) (s\<lparr>sim := c\<rparr>))) (parent (insns s n)) K_Dr"
    "counts_step (lines s) (lines (on_parent n (\<lambda>l. l\<lparr>Dw := add_ref m (Dw l)\<rparr>) (s\<lparr>sim := c\<rparr>))) (parent (insns s n)) K_Dw"
proof -
  have "counts K (l\<lparr>Ir := add_ref m (Ir l)\<rparr>) = (if K = K_Ir then bump_counts m (counts K l) else counts K l)"
    "counts K (l\<lparr>Dr := add_ref m (Dr l)\<rparr>) = (if K = K_Dr then bump_counts m (counts K l) else counts K l)"
    "counts K (l\<lparr>Dw := add_ref m (Dw l)\<rparr>) = (if K = K_Dw then bump_counts m (counts K l) else counts K l)" for K l
    by (cases K; simp add: add_ref_def bump_counts_def)+
  note this [simp]
  show "counts_step (lines s) (lines (on_parent n (\<lambda>l. l\<lparr>Ir := add_ref m (Ir l)\<rparr>) (s\<lparr>sim := c\<rparr>))) (parent (insns s n)) K_Ir"
    "counts_step (lines s) (lines (on_parent n (\<lambda>l. l\<lparr>Dr := add_ref m (Dr l)\<rparr>) (s\<lparr>sim := c\<rparr>))) (parent (insns s n)) K_Dr"
    "counts_step (lines s) (lines (on_parent n (\<lambda>l. l\<lparr>Dw := add_ref m (Dw l)\<rparr>) (s\<lparr>sim := c\<rparr>))) (parent (insns s n)) K_Dw"
    by (rule counts_step_parent [where m = m]; simp add: assms del: counts.simps)+
qed

lemma counts_1Ir:
  "counts_step (lines s) (lines (on_parent n (\<lambda>l. l\<lparr>Ir := (Ir l)\<lparr>cc_a := cc_a (Ir l) + 1\<rparr>\<rparr>) s)) (parent (insns s n)) K_Ir"
proof (rule counts_step_parent [where m = "(False, False)"])
  show "counts K (l\<lparr>Ir := (Ir l)\<lparr>cc_a := cc_a (Ir l) + 1\<rparr>\<rparr>) = counts K l" if "K \<noteq> K_Ir" for K l using that by (cases K) simp_all
qed (simp_all add: bump_counts_def)

lemma counts_branch:
  assumes "mp = 0 \<or> mp = (1::ULong)"
  shows "counts_step (lines s) (lines (on_parent n (\<lambda>l. l\<lparr>Bc := (Bc l)\<lparr>bc_b := bc_b (Bc l) + 1, bc_mp := bc_mp (Bc l) + (1 AND mp)\<rparr>\<rparr>)
      (s\<lparr>bp := b\<rparr>))) (parent (insns s n)) K_Bc" (is ?Bc)
    "counts_step (lines s) (lines (on_parent n (\<lambda>l. l\<lparr>Bi := (Bi l)\<lparr>bc_b := bc_b (Bi l) + 1, bc_mp := bc_mp (Bi l) + (1 AND mp)\<rparr>\<rparr>)
      (s\<lparr>bp := b\<rparr>))) (parent (insns s n)) K_Bi" (is ?Bi)
proof -
  show ?Bc
  proof (rule counts_step_parent [where m = "(mp = 1, mp = 1)"])
    show "counts K (l\<lparr>Bc := (Bc l)\<lparr>bc_b := bc_b (Bc l) + 1, bc_mp := bc_mp (Bc l) + (1 AND mp)\<rparr>\<rparr>) = counts K l" if "K \<noteq> K_Bc" for K l
      using that by (cases K) simp_all
  qed (use assms in \<open>auto simp: bump_counts_def\<close>)
  show ?Bi
  proof (rule counts_step_parent [where m = "(mp = 1, mp = 1)"])
    show "counts K (l\<lparr>Bi := (Bi l)\<lparr>bc_b := bc_b (Bi l) + 1, bc_mp := bc_mp (Bi l) + (1 AND mp)\<rparr>\<rparr>) = counts K l" if "K \<noteq> K_Bi" for K l
      using that by (cases K) simp_all
  qed (use assms in \<open>auto simp: bump_counts_def\<close>)
qed

lemma event_counts:
  assumes "exec_event cs env ev s = Some s'"
  shows "insns s' = insns s \<and> counts_step (lines s) (lines s') (parent (insns s (inode ev))) (kind_ev ev)"
proof
  show "insns s' = insns s" using assms by (cases ev) (auto simp: log_defs split: if_splits elim!: bind_SomeE)
  show "counts_step (lines s) (lines s') (parent (insns s (inode ev))) (kind_ev ev)"
    using assms
    by (cases ev)
      (auto simp: log_1Ir_def log_1IrGen_0D_cache_access_def log_0Ir_1Dr_cache_access_def log_0Ir_1Dw_cache_access_def
        log_cond_branch_def log_ind_branch_def split: if_splits elim!: bind_SomeE
        dest!: ref_counts predict_bit intro: counts_add_ref counts_1Ir counts_branch)
qed

lemma NoX_counts:
  assumes "log_1IrNoX_0D_cache_access n s = Some s'"
  shows "insns s' = insns s \<and> counts_step (lines s) (lines s') (parent (insns s n)) K_Ir"
proof -
  from assms obtain c m where m: "cachesim_I1_doref_NoX (sim s) (instr_addr (insns s n)) (instr_len (insns s n)) = Some (c, m)"
    and s': "s' = on_parent n (\<lambda>l. l\<lparr>Ir := add_ref m (Ir l)\<rparr>) (s\<lparr>sim := c\<rparr>)"
    by (auto simp: log_1IrNoX_0D_cache_access_def elim!: bind_SomeE)
  have "snd m \<longrightarrow> fst m" using m by (auto simp: cachesim_I1_doref_NoX_def Let_def split: if_splits elim!: bind_SomeE)
  then show ?thesis unfolding s' using counts_add_ref(1) by (simp add: on_parent_def Let_def)
qed

text \<open>The accesses that a helper call stands for, each with its instruction.\<close>

fun accesses :: "helper \<Rightarrow> (nat \<times> kind_of_event) list" where
  "accesses (H_1Ir n) = [(n, K_Ir)]"
| "accesses (H_2Ir n n2) = [(n, K_Ir), (n2, K_Ir)]"
| "accesses (H_3Ir n n2 n3) = [(n, K_Ir), (n2, K_Ir), (n3, K_Ir)]"
| "accesses (H_1IrGen_0D n) = [(n, K_Ir)]"
| "accesses (H_1IrNoX_0D n) = [(n, K_Ir)]"
| "accesses (H_2IrNoX_0D n n2) = [(n, K_Ir), (n2, K_Ir)]"
| "accesses (H_3IrNoX_0D n n2 n3) = [(n, K_Ir), (n2, K_Ir), (n3, K_Ir)]"
| "accesses (H_1IrNoX_1Dr n _ _) = [(n, K_Ir), (n, K_Dr)]"
| "accesses (H_1IrNoX_1Dw n _ _) = [(n, K_Ir), (n, K_Dw)]"
| "accesses (H_0Ir_1Dr n _ _) = [(n, K_Dr)]"
| "accesses (H_0Ir_1Dw n _ _) = [(n, K_Dw)]"
| "accesses (H_cond_branch n _) = [(n, K_Bc)]"
| "accesses (H_ind_branch n _) = [(n, K_Bi)]"

text \<open>The accesses that the code makes up to the first side exit that is taken.\<close>

fun out_accesses :: "(IRAtom \<Rightarrow> UWord) \<Rightarrow> ostmt list \<Rightarrow> (nat \<times> kind_of_event) list" where
  "out_accesses env [] = []"
| "out_accesses env (O_Call None h # ds) = accesses h @ out_accesses env ds"
| "out_accesses env (O_Call (Some g) h # ds) = (if holds env g then accesses h else []) @ out_accesses env ds"
| "out_accesses env (O_Stmt st # ds) = (if leaves env st then [] else out_accesses env ds)"

definition accesses_of :: "(nat \<Rightarrow> InstrInfo) \<Rightarrow> nat \<Rightarrow> kind_of_event \<Rightarrow> (nat \<times> kind_of_event) list \<Rightarrow> nat" where
  "accesses_of is p K acc = length (filter (\<lambda>(n, k). parent (is n) = p \<and> k = K) acc)"

fun counted_as :: "nat \<Rightarrow> ULong \<times> ULong \<times> ULong \<Rightarrow> bool" where
  "counted_as k (a, m1, mL) \<longleftrightarrow> unat a = k \<and> mL \<le> m1 \<and> m1 \<le> a"

definition counted :: "cg \<Rightarrow> (nat \<times> kind_of_event) list \<Rightarrow> bool" where
  "counted s acc \<longleftrightarrow> length acc < 2 ^ 64 \<and> (\<forall>p K. counted_as (accesses_of (insns s) p K acc) (counts K (lines s p)))"

lemma counted_as_bump:
  assumes "counted_as k c" "Suc k < 2 ^ 64" "mL \<longrightarrow> m1"
  shows "counted_as (Suc k) (bump_counts (m1, mL) c)"
proof -
  obtain a x y where c: "c = (a, x, y)" by (cases c)
  have le: "unat y \<le> unat x" "unat x \<le> k" "unat a = k" using assms(1) by (auto simp: c word_le_nat_alt)
  have suc: "unat (z + 1) = Suc (unat z)" if "unat z \<le> k" for z :: ULong
    using that assms(2) by (simp add: unat_word_ariths)
  show ?thesis using le assms(3) suc [of a] suc [of x] suc [of y] by (auto simp: c bump_counts_def word_le_nat_alt)
qed

lemma counted_step:
  assumes "counted s acc" "Suc (length acc) < 2 ^ 64"
    "insns s' = insns s \<and> counts_step (lines s) (lines s') (parent (insns s n)) K0"
  shows "counted s' (acc @ [(n, K0)])"
proof -
  from assms(3) obtain m1 mL where m: "mL \<longrightarrow> m1" "\<And>p K. counts K (lines s' p) =
     (if p = parent (insns s n) \<and> K = K0 then bump_counts (m1, mL) (counts K (lines s p)) else counts K (lines s p))"
    by (auto simp: counts_step_def)
  have "counted_as (accesses_of (insns s') p K (acc @ [(n, K0)])) (counts K (lines s' p))" for p K
  proof -
    have "accesses_of (insns s) p K acc \<le> length acc" by (simp add: accesses_of_def)
    then have "Suc (accesses_of (insns s) p K acc) < 2 ^ 64" using assms(2) by linarith
    moreover have "counted_as (accesses_of (insns s) p K acc) (counts K (lines s p))" using assms(1) by (simp add: counted_def)
    moreover have "accesses_of (insns s') p K (acc @ [(n, K0)]) =
        (if p = parent (insns s n) \<and> K = K0 then Suc (accesses_of (insns s) p K acc) else accesses_of (insns s) p K acc)"
      using assms(3) by (auto simp: accesses_of_def)
    ultimately show ?thesis using m(1) by (auto simp: m(2) intro!: counted_as_bump)
  qed
  then show ?thesis using assms(2) by (simp add: counted_def)
qed

lemma counted_log:
  assumes "counted s acc" "Suc (length acc) < 2 ^ 64"
  shows "log_1Ir n s = Some s' \<Longrightarrow> counted s' (acc @ [(n, K_Ir)])"
    "log_1IrGen_0D_cache_access n s = Some s' \<Longrightarrow> counted s' (acc @ [(n, K_Ir)])"
    "log_1IrNoX_0D_cache_access n s = Some s' \<Longrightarrow> counted s' (acc @ [(n, K_Ir)])"
    "log_0Ir_1Dr_cache_access n a z s = Some s' \<Longrightarrow> counted s' (acc @ [(n, K_Dr)])"
    "log_0Ir_1Dw_cache_access n a z s = Some s' \<Longrightarrow> counted s' (acc @ [(n, K_Dw)])"
    "log_cond_branch n a s = Some s' \<Longrightarrow> counted s' (acc @ [(n, K_Bc)])"
    "log_ind_branch n a s = Some s' \<Longrightarrow> counted s' (acc @ [(n, K_Bi)])"
  using event_counts [of False undefined "Ev_IrGen n" s s'] event_counts [of True undefined "Ev_IrGen n" s s']
    event_counts [of True "\<lambda>_. a" "Ev_Dr n undefined z" s s'] event_counts [of True "\<lambda>_. a" "Ev_Dw n undefined z" s s']
    event_counts [of True "\<lambda>_. a" "Ev_Bc n undefined" s s'] event_counts [of True "\<lambda>_. a" "Ev_Bi n undefined" s s']
    NoX_counts [of n s s']
  by (auto intro!: counted_step [OF assms])

lemma counted_helper:
  assumes "exec_helper env h s = Some s'" "counted s acc" "length (acc @ accesses h) < 2 ^ 64"
  shows "counted s' (acc @ accesses h)"
  using assms by (cases h) (auto simp: helper_defs elim!: bind_SomeE dest!: counted_log [rotated -1])

lemma exec_left: "exec_list (exec_out env) ds (s, True) = Some (s, True)"
proof (induction ds)
  case (Cons d ds)
  then show ?case by (cases "(env, d, s, True)" rule: exec_out.cases) auto
qed simp

lemma counted_code:
  "exec_list (exec_out env) ds (s, False) = Some (s', x) \<Longrightarrow> counted s acc \<Longrightarrow>
   length (acc @ out_accesses env ds) < 2 ^ 64 \<Longrightarrow> counted s' (acc @ out_accesses env ds)"
proof (induction env ds arbitrary: s acc rule: out_accesses.induct)
  case (2 env h ds)
  then obtain s1 where s1: "exec_helper env h s = Some s1" "exec_list (exec_out env) ds (s1, False) = Some (s', x)"
    by (auto elim!: bind_SomeE)
  from counted_helper [OF s1(1) 2(3)] 2(4) have "counted s1 (acc @ accesses h)" by simp
  from 2(1) [OF s1(2) this] 2(4) show ?case by simp
next
  case (3 env g h ds)
  then obtain s1 where s1: "(if holds env g then exec_helper env h s else Some s) = Some s1"
    "exec_list (exec_out env) ds (s1, False) = Some (s', x)" by (auto elim!: bind_SomeE)
  have "counted s1 (acc @ (if holds env g then accesses h else []))"
    using counted_helper [of env h s s1 acc] s1(1) 3(3,4) by (auto split: if_splits)
  from 3(1) [OF s1(2) this] 3(4) show ?case by simp
next
  case (4 env st ds)
  show ?case
  proof (cases "leaves env st")
    case True
    then show ?thesis using 4(2,3) by (simp add: exec_left)
  next
    case False
    then show ?thesis using 4 by simp
  qed
qed simp

text \<open>C37: The counters are right and cannot be inconsistent. Starting from zeroed cost centres, after any code of
  fewer than \<open>2 ^ 64\<close> accesses the access counter of every source line and kind is the exact number of the accesses
  that its instructions made before the block was left, a guarded access counting when its guard held, and there are no more misses in the last level than in the first and no more of
  those than accesses; for branches, no more mispredictions than branches.\<close>

theorem counters_exact:
  assumes "exec_list (exec_out env) ds (s, False) = Some (s', x)" "\<And>p K. counts K (lines s p) = (0, 0, 0)"
    "length (out_accesses env ds) < 2 ^ 64" "counts K (lines s' p) = (a, m1, mL)"
  shows "unat a = accesses_of (insns s) p K (out_accesses env ds) \<and> mL \<le> m1 \<and> m1 \<le> a"
proof -
  have "counted s []" using assms(2) by (simp add: counted_def accesses_of_def)
  from counted_code [OF assms(1) this] assms(3) have "counted s' (out_accesses env ds)" by simp
  moreover have "insns s' = insns s" using out_shape [OF assms(1), of "sim s" "insns s"] by (simp add: same_shape_def)
  ultimately have "counted_as (accesses_of (insns s) p K (out_accesses env ds)) (counts K (lines s' p))"
    by (simp add: counted_def)
  then show ?thesis by (simp add: assms(4))
qed

text \<open>Two reads of one line and a guarded one whose guard fails, with tiny caches: two accesses and one miss.\<close>

definition tiny_cache :: cache_t2 where
  "tiny_cache = \<lparr>csize = 64, assoc = 2, line_size = 16, sets = 2, sets_min_1 = 1, line_size_bits = 4, tag_shift = 5, tags = replicate 4 0\<rparr>"

definition tiny_state :: cg where
  "tiny_state =
     \<lparr>sim = \<lparr>I1 = tiny_cache, D1 = tiny_cache, LL = tiny_cache\<rparr>, bp = \<lparr>shift_register = 0, counters = [], btac = []\<rparr>,
      insns = (\<lambda>n. \<lparr>instr_addr = word_of_nat n, instr_len = 1, parent = 0\<rparr>),
      lines = (\<lambda>p. \<lparr>loc = \<lparr>loc_file = [], loc_fn = [], loc_line = 0\<rparr>,
                    Ir = \<lparr>cc_a = 0, cc_m1 = 0, cc_mL = 0\<rparr>, Dr = \<lparr>cc_a = 0, cc_m1 = 0, cc_mL = 0\<rparr>,
                    Dw = \<lparr>cc_a = 0, cc_m1 = 0, cc_mL = 0\<rparr>, Bc = \<lparr>bc_b = 0, bc_mp = 0\<rparr>, Bi = \<lparr>bc_b = 0, bc_mp = 0\<rparr>\<rparr>)\<rparr>"

definition tiny_env :: "IRAtom \<Rightarrow> UWord" where
  "tiny_env at = (case at of Iex_RdTmp n \<Rightarrow> if n = 0 then 40 else 0 | Iex_Const (Ico_U64 w) \<Rightarrow> w | _ \<Rightarrow> 0)"

theorem counters_exact_witness:
  "\<exists>s'. exec_list (exec_out tiny_env) [O_Call None (H_0Ir_1Dr 0 (Iex_RdTmp 0) 4), O_Call (Some (Iex_RdTmp 1)) (H_0Ir_1Dr 1 (Iex_RdTmp 0) 4),
         O_Call None (H_0Ir_1Dr 1 (Iex_Const (Ico_U64 32)) 4)] (tiny_state, False) = Some (s', False)
     \<and> counts K_Dr (lines s' 0) = (2, 1, 1)
     \<and> accesses_of (insns tiny_state) 0 K_Dr [(0, K_Dr), (1, K_Dr)] = unat (2 :: ULong)"
  (is "\<exists>s'. exec_list ?f ?ds (tiny_state, False) = Some (s', False) \<and> _")
proof -
  have "map_option (\<lambda>(s', x). (counts K_Dr (lines s' 0), x)) (exec_list ?f ?ds (tiny_state, False)) = Some ((2, 1, 1), False)" by code_simp
  then obtain s' where s': "exec_list ?f ?ds (tiny_state, False) = Some (s', False)" "counts K_Dr (lines s' 0) = (2, 1, 1)" by auto
  have z: "counts K (lines tiny_state p) = (0, 0, 0)" for K p by (cases K) (simp_all add: tiny_state_def)
  have "unat (2 :: ULong) = accesses_of (insns tiny_state) 0 K_Dr (out_accesses tiny_env ?ds)"
    using counters_exact [OF s'(1) z _ s'(2)] by (simp add: tiny_env_def holds_def)
  with s' show ?thesis by (simp add: tiny_env_def holds_def)
qed

end
