(* ===== verification/Cachegrind_Block.thy ===== *)
theory Cachegrind_Block
  imports Cachegrind_Instr Cachegrind_Counts
begin

text \<open>
  The instrumentation of whole blocks by Cachegrind: for every well-formed block \<open>cg_instrument\<close> fails no assertion,
  and running the new block up to the side exit that is taken has the effect of logging each
  access of the executed statements at its place.
\<close>

section \<open>The accesses of a block\<close>

definition size_of :: "IRType \<Rightarrow> int" where
  "size_of ty = (case sizeofIRType ty of Some z \<Rightarrow> z | None \<Rightarrow> 0)"

definition atom_size :: "IRTypeEnv \<Rightarrow> IRExpr \<Rightarrow> int" where
  "atom_size te e = (case typeOfIRAtom te e of Some ty \<Rightarrow> size_of ty | None \<Rightarrow> 0)"

definition branch_kind :: "IRJumpKind \<Rightarrow> bool" where
  "branch_kind jk \<longleftrightarrow> jk = Ijk_Boring \<or> jk = Ijk_Call \<or> jk = Ijk_Ret"

text \<open>The accesses of a statement of the instruction with node \<open>n\<close> and the address \<open>nia\<close> of the one after it. A side
  exit to the next instruction is one whose condition the optimiser inverted: the branch is taken when
  the exit is not.\<close>

fun stmt_accesses :: "cg_options \<Rightarrow> IRTypeEnv \<Rightarrow> (IRAtom \<Rightarrow> UWord) \<Rightarrow> nat \<Rightarrow> UWord \<Rightarrow> IRStmt \<Rightarrow> access list" where
  "stmt_accesses opt te env n nia (Ist_IMark _ _ _) = [A_Ir n]"
| "stmt_accesses opt te env n nia (Ist_WrTmp _ e) =
     (case e of Iex_Load _ ty ea \<Rightarrow> [A_Dr n (size_of ty) ea] | _ \<Rightarrow> [])"
| "stmt_accesses opt te env n nia (Ist_Store _ ea data) = [A_Dw n (atom_size te data) ea]"
| "stmt_accesses opt te env n nia (Ist_StoreG sg) =
     [A_guarded n (atom_size te (sg_data sg)) (sg_addr sg) (holds env (sg_guard sg)) True]"
| "stmt_accesses opt te env n nia (Ist_LoadG lg) =
     (case typeOfIRLoadGOp (lg_cvt lg) of
        Some (_, ty) \<Rightarrow> [A_guarded n (size_of ty) (lg_addr lg) (holds env (lg_guard lg)) False] | None \<Rightarrow> [])"
| "stmt_accesses opt te env n nia (Ist_Dirty d) =
     (case d_mAddr d of None \<Rightarrow> []
      | Some ea \<Rightarrow>
          (if d_mFx d = Ifx_Read \<or> d_mFx d = Ifx_Modify then [A_Dr n (min (d_mSize d) (min_line_size opt)) ea] else [])
          @ (if d_mFx d = Ifx_Write \<or> d_mFx d = Ifx_Modify then [A_Dw n (min (d_mSize d) (min_line_size opt)) ea] else []))"
| "stmt_accesses opt te env n nia (Ist_CAS cas) =
     (let sz = min ((if cas_dataHi cas = None then 1 else 2) * atom_size te (cas_dataLo cas)) (min_line_size opt) in
      [A_Dr n sz (cas_addr cas), A_Dw n sz (cas_addr cas)])"
| "stmt_accesses opt te env n nia (Ist_LLSC _ res addr storedata) =
     (case storedata of None \<Rightarrow> [A_Dr n (atom_size te (Iex_RdTmp res)) addr, A_flush]
      | Some e \<Rightarrow> [A_Dw n (atom_size te e) addr])"
| "stmt_accesses opt te env n nia (Ist_Exit g dst jk _) =
     (if branch_kind jk then [A_Bc n (of_bool (holds env g \<noteq> (dst = Ico_U64 nia)))] else []) @ [A_flush]"
| "stmt_accesses opt te env n nia _ = []"

text \<open>Each instruction mark takes the next node.\<close>

fun block_accesses :: "cg_options \<Rightarrow> IRTypeEnv \<Rightarrow> (IRAtom \<Rightarrow> UWord) \<Rightarrow> nat \<Rightarrow> nat \<Rightarrow> UWord \<Rightarrow> IRStmt list \<Rightarrow> access list" where
  "block_accesses opt te env n k nia [] = []"
| "block_accesses opt te env n k nia (st # sts) =
     (case st of
        Ist_IMark addr len _ \<Rightarrow>
          stmt_accesses opt te env k nia st @ A_stmt False # block_accesses opt te env k (k + 1) (addr + ucast (fix_isize len)) sts
      | _ \<Rightarrow> stmt_accesses opt te env n nia st @ A_stmt (leaves env st) # block_accesses opt te env n k nia sts)"

definition before_IMark :: "IRSB \<Rightarrow> IRStmt list" where
  "before_IMark sb = takeWhile (\<lambda>st. \<not> is_IMark st) (stmts sb)"

definition from_IMark :: "IRSB \<Rightarrow> IRStmt list" where
  "from_IMark sb = dropWhile (\<lambda>st. \<not> is_IMark st) (stmts sb)"

definition n_marks :: "IRStmt list \<Rightarrow> nat" where
  "n_marks sts = length (filter is_IMark sts)"

definition is_RdTmp :: "IRExpr \<Rightarrow> bool" where
  "is_RdTmp e = (case e of Iex_RdTmp _ \<Rightarrow> True | _ \<Rightarrow> False)"

definition end_accesses :: "IRSB \<Rightarrow> nat \<Rightarrow> (IRAtom \<Rightarrow> UWord) \<Rightarrow> access list" where
  "end_accesses sb n env =
     (if (jumpkind sb = Ijk_Boring \<or> jumpkind sb = Ijk_Call) \<and> is_RdTmp (sb_next sb)
      then [A_Bi n (env (sb_next sb))] else []) @ [A_flush]"

definition sb_accesses :: "cg_options \<Rightarrow> (IRAtom \<Rightarrow> UWord) \<Rightarrow> nat \<Rightarrow> IRSB \<Rightarrow> access list" where
  "sb_accesses opt env base sb =
     map (\<lambda>st. A_stmt (leaves env st)) (before_IMark sb)
     @ block_accesses opt (tyenv sb) env 0 base 0 (from_IMark sb)
     @ end_accesses sb (base + n_marks (from_IMark sb) - 1) env"

section \<open>Well-formed blocks\<close>

definition sized :: "cg_options \<Rightarrow> IRType \<Rightarrow> bool" where
  "sized opt ty \<longleftrightarrow> sizeofIRType ty \<noteq> None \<and> size_of ty \<le> min_line_size opt"

definition sized_atom :: "cg_options \<Rightarrow> IRTypeEnv \<Rightarrow> IRExpr \<Rightarrow> bool" where
  "sized_atom opt te e \<longleftrightarrow> (case typeOfIRAtom te e of Some ty \<Rightarrow> sized opt ty | None \<Rightarrow> False)"

definition address :: "IRTypeEnv \<Rightarrow> IRExpr \<Rightarrow> bool" where
  "address te ea \<longleftrightarrow> typeOfIRAtom te ea = Some Ity_I64"

text \<open>What the front end of the translator guarantees: statements are flat and typed, an access fits a line, the
  effects of a helper call are described.\<close>

definition stmt_ok :: "cg_options \<Rightarrow> IRTypeEnv \<Rightarrow> IRStmt \<Rightarrow> bool" where
  "stmt_ok opt te st \<longleftrightarrow> isFlatIRStmt st = Some True \<and>
     (case st of
        Ist_IMark _ len _ \<Rightarrow> len \<le> 16 \<or> len = 19
      | Ist_WrTmp _ e \<Rightarrow> (case e of Iex_Load _ ty ea \<Rightarrow> sized opt ty | _ \<Rightarrow> True)
      | Ist_Store _ ea data \<Rightarrow> sized_atom opt te data \<and> address te ea
      | Ist_StoreG sg \<Rightarrow> sized_atom opt te (sg_data sg)
      | Ist_LoadG lg \<Rightarrow> (case typeOfIRLoadGOp (lg_cvt lg) of Some (_, ty) \<Rightarrow> sized opt ty | None \<Rightarrow> False)
      | Ist_Dirty d \<Rightarrow>
          (case d_mAddr d of None \<Rightarrow> d_mFx d = Ifx_None \<and> d_mSize d = 0
           | Some ea \<Rightarrow> d_mFx d \<noteq> Ifx_None \<and> address te ea \<and> 1 \<le> d_mSize d)
      | Ist_CAS cas \<Rightarrow> sized_atom opt te (cas_dataLo cas) \<and> address te (cas_addr cas)
      | Ist_LLSC _ res addr storedata \<Rightarrow>
          (case storedata of None \<Rightarrow> sized_atom opt te (Iex_RdTmp res) | Some e \<Rightarrow> sized_atom opt te e \<and> address te addr)
      | Ist_Exit g dst jk _ \<Rightarrow> branch_kind jk \<longrightarrow> (case dst of Ico_U64 _ \<Rightarrow> True | _ \<Rightarrow> False)
      | _ \<Rightarrow> True)"

definition block_ok :: "cg_options \<Rightarrow> IRSB \<Rightarrow> bool" where
  "block_ok opt sb \<longleftrightarrow> 1 \<le> min_line_size opt \<and> from_IMark sb \<noteq> [] \<and> list_all (stmt_ok opt (tyenv sb)) (from_IMark sb)
     \<and> (jumpkind sb = Ijk_Boring \<or> jumpkind sb = Ijk_Call \<longrightarrow>
         (case sb_next sb of Iex_Const _ \<Rightarrow> True | Iex_RdTmp t \<Rightarrow> address (tyenv sb) (Iex_RdTmp t) | _ \<Rightarrow> False))"

section \<open>Each statement\<close>

lemma sizedD: "sized opt ty \<Longrightarrow> sizeofIRType ty = Some (size_of ty) \<and> 1 \<le> size_of ty \<and> size_of ty \<le> min_line_size opt"
  by (auto simp: sized_def size_of_def dest: sizeofIRType_bounds)

lemma sized_atomD:
  "sized_atom opt te e \<Longrightarrow> sizeofIRAtom te e = Some (atom_size te e) \<and> 1 \<le> atom_size te e \<and> atom_size te e \<le> min_line_size opt"
  by (auto simp: sized_atom_def atom_size_def sizeofIRAtom_def dest: sizedD split: option.splits)

lemma copy_refines:
  assumes "queue_inv opt c is cur cgs" "is_Exit st \<Longrightarrow> events cgs = []"
  shows "op_refines opt c is cur (Some (addStmtToIRSB cgs st)) cgs (\<lambda>env. [A_stmt (leaves env st)])"
proof -
  have n: "live (exec_list (exec_event cs env) []) sx = Some sx" for cs env sx by (cases sx) simp
  have "meaning cs env (addStmtToIRSB cgs st) sx = (meaning cs env cgs sx \<bind> (\<lambda>sx. Some (fst sx, snd sx \<or> leaves env st)))" for cs env sx
  proof (cases "exec_list (exec_out env) (sbOut cgs) sx")
    case (Some s1)
    show ?thesis
    proof (cases "is_Exit st")
      case True
      then show ?thesis using assms(2) Some n by (simp add: meaning_def addStmtToIRSB_def exec_list_append)
    next
      case False
      then have "\<not> leaves env st" using leaves_Exit by blast
      moreover have "(m \<bind> (\<lambda>sx. Some (fst sx, snd sx))) = m" for m :: "(cg \<times> bool) option" by (cases m) simp_all
      ultimately show ?thesis using Some by (simp add: meaning_def addStmtToIRSB_def exec_list_append)
    qed
  qed (simp add: meaning_def addStmtToIRSB_def exec_list_append)
  then show ?thesis using assms(1) by (simp add: refines_defs addStmtToIRSB_def frame_def queue_inv_def)
qed

lemma StoreG_refines:
  assumes q: "queue_inv opt c is (Some n) cgs" and ok: "stmt_ok opt te (Ist_StoreG sg)"
  shows "op_refines opt c is (Some n) (instrument_StoreG opt te sg cgs n) cgs (\<lambda>env. stmt_accesses opt te env n nia (Ist_StoreG sg))"
proof -
  obtain ty where ty: "typeOfIRAtom te (sg_data sg) = Some ty" "sized opt ty"
    using ok by (auto simp: stmt_ok_def sized_atom_def split: option.splits)
  have "ty \<noteq> Ity_INVALID" using sizedD [OF ty(2)] by auto
  then show ?thesis using guarded_refines [OF q, of "sg_addr sg" "sg_guard sg" "size_of ty" n True] ok ty sizedD [OF ty(2)]
    by (simp add: instrument_StoreG_def stmt_ok_def atom_size_def)
qed

lemma LoadG_refines:
  assumes q: "queue_inv opt c is (Some n) cgs" and ok: "stmt_ok opt te (Ist_LoadG lg)"
  shows "op_refines opt c is (Some n) (instrument_LoadG opt lg cgs n) cgs (\<lambda>env. stmt_accesses opt te env n nia (Ist_LoadG lg))"
proof -
  obtain tw ty where ty: "typeOfIRLoadGOp (lg_cvt lg) = Some (tw, ty)" "sized opt ty"
    using ok by (auto simp: stmt_ok_def split: option.splits)
  have "ty \<noteq> Ity_INVALID" using sizedD [OF ty(2)] by auto
  then show ?thesis using guarded_refines [OF q, of "lg_addr lg" "lg_guard lg" "size_of ty" n False] ok ty sizedD [OF ty(2)]
    by (simp add: instrument_LoadG_def stmt_ok_def)
qed

lemma read_write_refines:
  assumes q: "queue_inv opt c is (Some n) cgs" and ea: "address te ea" and sz: "1 \<le> sz" "sz \<le> min_line_size opt"
  shows "op_refines opt c is (Some n)
    (do { cg \<leftarrow> (if rd then addEvent_Dr opt cgs n sz ea else Some cgs); if wr then addEvent_Dw opt cg n sz ea else Some cg }) cgs
    (\<lambda>env. (if rd then [A_Dr n sz ea] else []) @ (if wr then [A_Dw n sz ea] else []))"
proof (rule op_refines_seq)
  have at: "isIRAtom ea" using ea typeOfIRAtom_atom by (auto simp: address_def)
  show "op_refines opt c is (Some n) (if rd then addEvent_Dr opt cgs n sz ea else Some cgs) cgs (\<lambda>env. if rd then [A_Dr n sz ea] else [])"
    using Dr_refines [OF q at sz] skip_refines [OF q, of "\<lambda>_. []"] by (cases rd) simp_all
  fix cgs' assume q': "queue_inv opt c is (Some n) cgs'"
  show "op_refines opt c is (Some n) (if wr then addEvent_Dw opt cgs' n sz ea else Some cgs') cgs' (\<lambda>env. if wr then [A_Dw n sz ea] else [])"
    using Dw_refines [OF q' _ sz] ea skip_refines [OF q', of "\<lambda>_. []"] by (cases wr) (simp_all add: address_def)
qed

lemma Dirty_refines:
  assumes q: "queue_inv opt c is (Some n) cgs" and ok: "stmt_ok opt te (Ist_Dirty d)" and m: "1 \<le> min_line_size opt"
  shows "op_refines opt c is (Some n) (instrument_Dirty opt d cgs n) cgs (\<lambda>env. stmt_accesses opt te env n nia (Ist_Dirty d))"
proof (cases "d_mAddr d")
  case None
  then show ?thesis using ok skip_refines [OF q, of "\<lambda>_. []"] by (simp add: stmt_ok_def instrument_Dirty_def)
next
  case (Some ea)
  let ?sz = "min (d_mSize d) (min_line_size opt)"
  have a: "address te ea" "d_mFx d \<noteq> Ifx_None" "1 \<le> d_mSize d" using ok Some by (auto simp: stmt_ok_def)
  have "(if d_mSize d > min_line_size opt then min_line_size opt else d_mSize d) = ?sz" by (simp add: min_def)
  moreover have "1 \<le> ?sz" "?sz \<le> min_line_size opt" using a m by simp_all
  note read_write_refines [OF q a(1) this, of "d_mFx d = Ifx_Read \<or> d_mFx d = Ifx_Modify" "d_mFx d = Ifx_Write \<or> d_mFx d = Ifx_Modify"]
  ultimately show ?thesis using a Some by (simp add: instrument_Dirty_def Let_def)
qed

lemma CAS_refines:
  assumes q: "queue_inv opt c is (Some n) cgs" and ok: "stmt_ok opt te (Ist_CAS cas)" and m: "1 \<le> min_line_size opt"
  shows "op_refines opt c is (Some n) (instrument_CAS opt te cas cgs n) cgs (\<lambda>env. stmt_accesses opt te env n nia (Ist_CAS cas))"
proof -
  let ?a = "atom_size te (cas_dataLo cas)"
  let ?sz = "min ((if cas_dataHi cas = None then 1 else 2) * ?a) (min_line_size opt)"
  have a: "sizeofIRAtom te (cas_dataLo cas) = Some ?a" "1 \<le> ?a" "address te (cas_addr cas)"
    using ok sized_atomD by (auto simp: stmt_ok_def)
  have "instrument_CAS opt te cas cgs n = (addEvent_Dr opt cgs n ?sz (cas_addr cas) \<bind> (\<lambda>cg. addEvent_Dw opt cg n ?sz (cas_addr cas)))"
    using a(1) by (cases "cas_dataHi cas") (simp_all add: instrument_CAS_def Let_def min_def mult.commute)
  moreover have "1 \<le> ?sz" "?sz \<le> min_line_size opt" using a(2) m by simp_all
  note read_write_refines [OF q a(3) this, of True True]
  ultimately show ?thesis by (simp add: Let_def)
qed

lemma LLSC_refines:
  assumes q: "queue_inv opt c is (Some n) cgs" and ok: "stmt_ok opt te (Ist_LLSC en res addr sd)"
  shows "op_refines opt c is (Some n) (instrument_LLSC opt te res addr sd cgs n) cgs
    (\<lambda>env. stmt_accesses opt te env n nia (Ist_LLSC en res addr sd))"
proof (cases sd)
  case None
  let ?sz = "atom_size te (Iex_RdTmp res)"
  have sz: "sizeofIRAtom te (Iex_RdTmp res) = Some ?sz" "1 \<le> ?sz" "?sz \<le> min_line_size opt" and at: "isIRAtom addr"
    using ok None sized_atomD by (auto simp: stmt_ok_def)
  have "op_refines opt c is (Some n) (addEvent_Dr opt cgs n ?sz addr \<bind> flushEvents (clo_cache_sim opt)) cgs
      (\<lambda>env. [A_Dr n ?sz addr] @ [A_flush])"
    by (rule op_refines_seq [OF Dr_refines [OF q at sz(2,3)] flush_refines])
  moreover have "instrument_LLSC opt te res addr None cgs n = (addEvent_Dr opt cgs n ?sz addr \<bind> flushEvents (clo_cache_sim opt))"
    using sz(1) by (cases "typeOfIRTemp te res") (auto simp: instrument_LLSC_def sizeofIRAtom_def)
  ultimately show ?thesis using None by simp
next
  case (Some e)
  then show ?thesis using ok sized_atomD [of opt te e] Dw_refines [OF q, of te addr "atom_size te e"]
    by (simp add: stmt_ok_def instrument_LLSC_def address_def)
qed

text \<open>The guard of a side exit in a word: the temporary that holds it has the value of the branch in every
  valuation of the block.\<close>

lemma op_refines_env:
  assumes "op_refines opt c is cur res cgs as" "\<And>env cgs'. res = Some cgs' \<Longrightarrow> env_ok env (sbOut cgs') \<Longrightarrow> as env = bs env"
  shows "op_refines opt c is cur res cgs bs"
proof -
  from assms(1) obtain cgs' where r: "res = Some cgs'" "queue_inv opt c is cur cgs'" "frame cgs cgs'" "emits opt c is cgs cgs' as"
    by (auto simp: op_refines_def)
  have "emits opt c is cgs cgs' bs" using r(4) assms(2) [OF r(1)] unfolding emits_def by metis
  then show ?thesis using r by (auto simp: op_refines_def)
qed

lemma widen_guard_value:
  assumes "widen_guard Ity_I64 g iv cgs = (cgs', t)" "env_ok env (sbOut cgs')" "isIRAtom g"
  shows "env (Iex_RdTmp t) = of_bool (holds env g \<noteq> iv)"
proof -
  let ?n = "length (sbOut_tyenv cgs)"
  have t: "t = ?n + 2" and out: "sbOut cgs' = sbOut cgs @ [O_Stmt (Ist_WrTmp ?n g),
      O_Stmt (Ist_WrTmp (?n + 1) (Iex_Unop Iop_1Uto64 (Iex_RdTmp ?n))),
      O_Stmt (Ist_WrTmp (?n + 2) (if iv then Iex_Binop Iop_Xor64 (Iex_RdTmp (?n + 1)) (Iex_Const (Ico_U64 1)) else Iex_RdTmp (?n + 1)))]"
    using assms(1) by (auto simp: widen_guard_def newIRTemp_def addStmtToIRSB_def Let_def)
  have val: "env (Iex_RdTmp t') = v" if "O_Stmt (Ist_WrTmp t' e) \<in> set (sbOut cgs')" "eval env e = Some v" for t' e v
    using assms(2) that by (simp add: env_ok_def)
  have g: "eval env g = Some (env g)" using assms(3) by (cases g) (auto simp: isIRAtom_def)
  have 1: "env (Iex_RdTmp ?n) = env g" by (rule val [OF _ g]) (simp add: out)
  have 2: "env (Iex_RdTmp (?n + 1)) = env g AND 1"
    using val [of "?n + 1" "Iex_Unop Iop_1Uto64 (Iex_RdTmp ?n)"] 1 by (simp add: out)
  have one: "env (Iex_Const (Ico_U64 1)) = 1" using assms(2) by (simp add: env_ok_def)
  have "env (Iex_RdTmp (?n + 2)) = (if iv then (env g AND 1) XOR 1 else env g AND 1)"
    using val [of "?n + 2" "if iv then Iex_Binop Iop_Xor64 (Iex_RdTmp (?n + 1)) (Iex_Const (Ico_U64 1)) else Iex_RdTmp (?n + 1)"] 2 one
    by (simp add: out split: if_splits)
  moreover have "env g AND 1 = of_bool (holds env g)" by (simp add: holds_def and_one_eq mod2_eq_if bit_0)
  ultimately show ?thesis by (simp add: t)
qed

lemma widen_guard_refines:
  assumes q: "queue_inv opt c is cur cgs" and w: "widen_guard Ity_I64 g iv cgs = (cgs', t)"
  shows "op_refines opt c is cur (Some cgs') cgs (\<lambda>env. [])" "typeOfIRAtom (sbOut_tyenv cgs') (Iex_RdTmp t) = Some Ity_I64"
proof -
  note d = w [unfolded widen_guard_def newIRTemp_def addStmtToIRSB_def Let_def, simplified]
  have "(m \<bind> exec_list (exec_out env) [O_Stmt (Ist_WrTmp t1 e1), O_Stmt (Ist_WrTmp t2 e2), O_Stmt (Ist_WrTmp t3 e3)]) = m"
    for m env t1 t2 t3 e1 e2 e3 by (cases m) (simp_all add: leaves_def)
  then show "op_refines opt c is cur (Some cgs') cgs (\<lambda>env. [])"
    using d by (intro op_refines_same [OF q]) (auto simp: frame_def exec_list_append intro!: ext simp del: exec_list.simps)
  show "typeOfIRAtom (sbOut_tyenv cgs') (Iex_RdTmp t) = Some Ity_I64"
    using d by (auto simp: typeOfIRTemp_def nth_append)
qed

lemma exit_branch_refines:
  assumes q: "queue_inv opt c is cur cgs" and g: "isIRAtom g"
  shows "op_refines opt c is cur (case widen_guard Ity_I64 g iv cgs of (cg, guard) \<Rightarrow> addEvent_Bc opt cg n (Iex_RdTmp guard)) cgs
    (\<lambda>env. [A_Bc n (of_bool (holds env g \<noteq> iv))])"
proof -
  obtain c1 t where w: "widen_guard Ity_I64 g iv cgs = (c1, t)" by force
  note r = widen_guard_refines [OF q w]
  have s: "op_refines opt c is cur (Some c1 \<bind> (\<lambda>c. addEvent_Bc opt c n (Iex_RdTmp t))) cgs (\<lambda>env. [] @ [A_Bc n (env (Iex_RdTmp t))])"
    by (rule op_refines_seq [OF r(1)]) (use r(2) branch_refines(1) in auto)
  have v: "env (Iex_RdTmp t) = of_bool (holds env g \<noteq> iv)" if "addEvent_Bc opt c1 n (Iex_RdTmp t) = Some c2" "env_ok env (sbOut c2)" for env c2
  proof -
    have "queue_inv opt c is cur c1" using r(1) by (simp add: op_refines_def)
    from branch_refines(1) [OF this r(2), of n] that(1) have "frame c1 c2" by (simp add: op_refines_def)
    then show ?thesis using widen_guard_value [OF w _ g] frame_env that(2) by blast
  qed
  have "op_refines opt c is cur (Some c1 \<bind> (\<lambda>c. addEvent_Bc opt c n (Iex_RdTmp t))) cgs (\<lambda>env. [A_Bc n (of_bool (holds env g \<noteq> iv))])"
    by (rule op_refines_env [OF s]) (simp add: v)
  then show ?thesis by (simp add: w)
qed

lemma Exit_refines:
  assumes q: "queue_inv opt c is cur cgs" and ok: "stmt_ok opt te (Ist_Exit g dst jk offs)"
  shows "op_refines opt c is cur (instrument_Exit opt Ity_I64 nia g dst jk cgs n) cgs
    (\<lambda>env. stmt_accesses opt te env n nia (Ist_Exit g dst jk offs))"
proof -
  have g: "isIRAtom g" using ok by (simp add: stmt_ok_def)
  let ?b = "if jk = Ijk_Boring \<or> jk = Ijk_Call \<or> jk = Ijk_Ret then
      do { sea \<leftarrow> side_exit_address Ity_I64 dst;
           case widen_guard Ity_I64 g (nia = sea) cgs of (cg, guard) \<Rightarrow> addEvent_Bc opt cg n (Iex_RdTmp guard) }
      else Some cgs"
  have "op_refines opt c is cur ?b cgs (\<lambda>env. if branch_kind jk then [A_Bc n (of_bool (holds env g \<noteq> (dst = Ico_U64 nia)))] else [])"
  proof (cases "branch_kind jk")
    case True
    then obtain a where a: "dst = Ico_U64 a" using ok by (auto simp: stmt_ok_def split: IRConst.splits)
    then have "(dst = Ico_U64 nia) = (nia = a)" by auto
    then show ?thesis using True exit_branch_refines [OF q g, where iv = "nia = a"] by (simp add: branch_kind_def side_exit_address_def a)
  next
    case False
    then show ?thesis using skip_refines [OF q, of "\<lambda>_. []"] by (simp add: branch_kind_def)
  qed
  from op_refines_seq [OF this flush_refines] show ?thesis unfolding instrument_Exit_def by simp
qed

lemma Exit_flushed: "instrument_Exit opt ty nia g dst jk cgs n = Some cgs' \<Longrightarrow> events cgs' = []"
  unfolding instrument_Exit_def by (elim bind_SomeE flush_events)

section \<open>The loop over the statements\<close>

text \<open>After \<open>k\<close> instruction marks of a block with nodes from \<open>base\<close> on.\<close>

definition loop_inv :: "cg_options \<Rightarrow> cachesim \<Rightarrow> (nat \<Rightarrow> InstrInfo) \<Rightarrow> IRTypeEnv \<Rightarrow> nat \<Rightarrow> nat \<Rightarrow> nat \<Rightarrow> loop_state \<Rightarrow> bool" where
  "loop_inv opt c is te base N k ls \<longleftrightarrow>
     queue_inv opt c is (curr_inode ls) (ls_cgs ls)
     \<and> curr_inode ls = (if k = 0 then None else Some (base + k - 1))
     \<and> sbInfo_i (ls_cgs ls) = int k \<and> instrs (sbInfo (ls_cgs ls)) = base \<and> n_instrs (sbInfo (ls_cgs ls)) = int N
     \<and> (\<exists>e. sbOut_tyenv (ls_cgs ls) = te @ e)
     \<and> line_size_bits (I1 (sim (cgst (ls_tool ls)))) = line_size_bits (I1 c)
     \<and> line_size_bits (LL (sim (cgst (ls_tool ls)))) = line_size_bits (LL c)"

definition nia_of :: "loop_state \<Rightarrow> UWord" where
  "nia_of ls = cia ls + ucast (isize ls)"

definition grows :: "CgState \<Rightarrow> CgState \<Rightarrow> bool" where
  "grows cg cg' \<longleftrightarrow> (\<exists>xs. sbOut cg' = sbOut cg @ xs)"

text \<open>The statements other than marks only use the queue.\<close>

lemma on_cgs_stmt:
  assumes "loop_inv opt c is te base N k ls" "0 < k"
    and r: "\<And>cg n. queue_inv opt c is (Some n) cg \<Longrightarrow> op_refines opt c is (Some n) (f cg n) cg (as n)"
  shows "\<exists>cg. on_cgs ls f = Some (ls\<lparr>ls_cgs := cg\<rparr>) \<and> f (ls_cgs ls) (base + k - 1) = Some cg
    \<and> loop_inv opt c is te base N k (ls\<lparr>ls_cgs := cg\<rparr>)
    \<and> grows (ls_cgs ls) cg \<and> emits opt c is (ls_cgs ls) cg (as (base + k - 1))"
proof -
  have q: "queue_inv opt c is (Some (base + k - 1)) (ls_cgs ls)" and n: "curr_inode ls = Some (base + k - 1)"
    using assms(1,2) by (auto simp: loop_inv_def split: if_splits)
  from r [OF q] obtain cg where cg: "f (ls_cgs ls) (base + k - 1) = Some cg" "queue_inv opt c is (Some (base + k - 1)) cg"
    "frame (ls_cgs ls) cg" "emits opt c is (ls_cgs ls) cg (as (base + k - 1))" by (auto simp: op_refines_def)
  moreover have "loop_inv opt c is te base N k (ls\<lparr>ls_cgs := cg\<rparr>)" using assms(1) cg(2,3) n by (auto simp: loop_inv_def frame_def)
  ultimately show ?thesis using n by (auto simp: on_cgs_def frame_def grows_def)
qed

lemma copy_stmt:
  assumes "loop_inv opt c is te base N k ls" "is_Exit st \<Longrightarrow> events (ls_cgs ls) = []"
  shows "loop_inv opt c is te base N k (ls\<lparr>ls_cgs := addStmtToIRSB (ls_cgs ls) st\<rparr>)
    \<and> grows (ls_cgs ls) (addStmtToIRSB (ls_cgs ls) st)
    \<and> emits opt c is (ls_cgs ls) (addStmtToIRSB (ls_cgs ls) st) (\<lambda>env. [A_stmt (leaves env st)])"
proof -
  have "queue_inv opt c is (curr_inode ls) (ls_cgs ls)" using assms(1) unfolding loop_inv_def by blast
  from copy_refines [OF this, of st] assms(2) have "queue_inv opt c is (curr_inode ls) (addStmtToIRSB (ls_cgs ls) st)"
    "frame (ls_cgs ls) (addStmtToIRSB (ls_cgs ls) st)"
    "emits opt c is (ls_cgs ls) (addStmtToIRSB (ls_cgs ls) st) (\<lambda>env. [A_stmt (leaves env st)])" by (auto simp: op_refines_def)
  then show ?thesis using assms(1) by (auto simp: loop_inv_def frame_def grows_def)
qed

lemma on_cgs_copy:
  assumes inv: "loop_inv opt c is te base N k ls" "0 < k"
    and r: "\<And>cg n. queue_inv opt c is (Some n) cg \<Longrightarrow> op_refines opt c is (Some n) (f cg n) cg (as n)"
    and ex: "\<And>cg n cg'. f cg n = Some cg' \<Longrightarrow> is_Exit st \<Longrightarrow> events cg' = []"
  shows "\<exists>cg. do { ls \<leftarrow> on_cgs ls f; Some (ls\<lparr>ls_cgs := addStmtToIRSB (ls_cgs ls) st\<rparr>) } = Some (ls\<lparr>ls_cgs := cg\<rparr>)
    \<and> loop_inv opt c is te base N k (ls\<lparr>ls_cgs := cg\<rparr>)
    \<and> grows (ls_cgs ls) cg \<and> emits opt c is (ls_cgs ls) cg (\<lambda>env. as (base + k - 1) env @ [A_stmt (leaves env st)])"
proof -
  from on_cgs_stmt [OF inv r] obtain cg where cg: "on_cgs ls f = Some (ls\<lparr>ls_cgs := cg\<rparr>)" "f (ls_cgs ls) (base + k - 1) = Some cg"
    "loop_inv opt c is te base N k (ls\<lparr>ls_cgs := cg\<rparr>)" "grows (ls_cgs ls) cg" "emits opt c is (ls_cgs ls) cg (as (base + k - 1))" by blast
  from copy_stmt [OF cg(3), of st] ex [OF cg(2)] show ?thesis using cg(1,4) emits_trans [OF cg(5)]
    by (auto simp: grows_def)
qed

lemma plain_copy:
  assumes "loop_inv opt c is te base N k ls" "\<not> is_Exit st"
  shows "\<exists>cg. Some (ls\<lparr>ls_cgs := addStmtToIRSB (ls_cgs ls) st\<rparr>) = Some (ls\<lparr>ls_cgs := cg\<rparr>)
    \<and> loop_inv opt c is te base N k (ls\<lparr>ls_cgs := cg\<rparr>)
    \<and> grows (ls_cgs ls) cg \<and> emits opt c is (ls_cgs ls) cg (\<lambda>env. [] @ [A_stmt (leaves env st)])"
  using copy_stmt [OF assms(1), of st] assms(2) by auto

lemma stmt_step:
  assumes inv: "loop_inv opt c is te base N k ls" "0 < k" and ok: "stmt_ok opt te st" "1 \<le> min_line_size opt" "\<not> is_IMark st"
  shows "\<exists>cg. instrument_stmt opt dbg te Ity_I64 st ls = Some (ls\<lparr>ls_cgs := cg\<rparr>)
    \<and> loop_inv opt c is te base N k (ls\<lparr>ls_cgs := cg\<rparr>) \<and> grows (ls_cgs ls) cg
    \<and> emits opt c is (ls_cgs ls) cg (\<lambda>env. stmt_accesses opt te env (base + k - 1) (nia_of ls) st @ [A_stmt (leaves env st)])"
proof -
  note d = instrument_stmt_def and cp = on_cgs_copy [OF inv]
  have flat: "isFlatIRStmt st = Some True" using ok(1) by (simp add: stmt_ok_def)
  have ne: "\<not> is_Exit st \<Longrightarrow> f cg n = Some cg' \<Longrightarrow> is_Exit st \<Longrightarrow> events cg' = []" for f :: "CgState \<Rightarrow> nat \<Rightarrow> CgState option" and cg n cg' by simp
  show ?thesis
  proof (cases st)
    case (Ist_WrTmp t e)
    show ?thesis
    proof (cases "\<exists>en ty ea. e = Iex_Load en ty ea")
      case True
      then obtain en ty ea where e: "e = Iex_Load en ty ea" by blast
      have sz: "sizeofIRType ty = Some (size_of ty)" "1 \<le> size_of ty" "size_of ty \<le> min_line_size opt" and at: "isIRAtom ea"
        using ok(1) sizedD by (auto simp: stmt_ok_def Ist_WrTmp e)
      from cp [of "\<lambda>cg n. addEvent_Dr opt cg n (size_of ty) ea" "\<lambda>n env. [A_Dr n (size_of ty) ea]" st]
      show ?thesis using flat sz at Dr_refines by (auto simp: d Ist_WrTmp e is_Exit_def)
    next
      case False
      then show ?thesis using plain_copy [OF inv(1), of st] flat by (cases e) (auto simp: d Ist_WrTmp is_Exit_def)
    qed
  next
    case (Ist_Store en ea data)
    have sz: "sizeofIRAtom te data = Some (atom_size te data)" "1 \<le> atom_size te data" "atom_size te data \<le> min_line_size opt"
      and ad: "typeOfIRAtom te ea = Some Ity_I64" using ok(1) sized_atomD by (auto simp: stmt_ok_def Ist_Store address_def)
    from cp [of "\<lambda>cg n. addEvent_Dw opt cg n (atom_size te data) ea" "\<lambda>n env. [A_Dw n (atom_size te data) ea]" st]
    show ?thesis using flat sz Dw_refines [OF _ ad] by (auto simp: d Ist_Store is_Exit_def)
  next
    case (Ist_StoreG sg)
    show ?thesis using cp [of "instrument_StoreG opt te sg", OF StoreG_refines [OF _ ok(1) [unfolded Ist_StoreG]], of st] flat
      by (auto simp: d Ist_StoreG is_Exit_def)
  next
    case (Ist_LoadG lg)
    show ?thesis using cp [of "instrument_LoadG opt lg", OF LoadG_refines [OF _ ok(1) [unfolded Ist_LoadG]], of st] flat
      by (auto simp: d Ist_LoadG is_Exit_def)
  next
    case (Ist_Dirty di)
    show ?thesis using cp [of "instrument_Dirty opt di", OF Dirty_refines [OF _ ok(1) [unfolded Ist_Dirty] ok(2)], of st] flat
      by (auto simp: d Ist_Dirty is_Exit_def)
  next
    case (Ist_CAS cas)
    show ?thesis using cp [of "instrument_CAS opt te cas", OF CAS_refines [OF _ ok(1) [unfolded Ist_CAS] ok(2)], of st] flat
      by (auto simp: d Ist_CAS is_Exit_def)
  next
    case (Ist_LLSC en res addr sd)
    show ?thesis using cp [of "instrument_LLSC opt te res addr sd", OF LLSC_refines [OF _ ok(1) [unfolded Ist_LLSC]], of st] flat
      by (auto simp: d Ist_LLSC is_Exit_def)
  next
    case (Ist_Exit g dst jk offs)
    show ?thesis using cp [of "instrument_Exit opt Ity_I64 (nia_of ls) g dst jk", OF Exit_refines [OF _ ok(1) [unfolded Ist_Exit]] Exit_flushed, of st] flat
      by (auto simp: d Ist_Exit nia_of_def)
  qed (use flat ok(3) plain_copy [OF inv(1), of st] in \<open>auto simp: d is_Exit_def is_IMark_def\<close>)
qed

text \<open>A mark registers the instruction. The table of lines changes as \<open>get_lineCC\<close> says.\<close>

lemma get_debug_info_frame:
  "get_debug_info dbg ct a = (ct', dir, f, fn, l) \<Longrightarrow> cgst ct' = cgst ct \<and> n_lines ct' = n_lines ct
     \<and> instrInfoTable ct' = instrInfoTable ct \<and> next_inode ct' = next_inode ct"
  by (auto simp: get_debug_info_def Let_def split: option.splits if_splits)

lemma get_perm_string_id: "snd (get_perm_string ct s) = s"
  by (auto simp: get_perm_string_def find_Some_iff split: option.splits)

lemma get_perm_string_frame:
  "get_perm_string ct s = (ct', s') \<Longrightarrow> s' = s \<and> cgst ct' = cgst ct \<and> n_lines ct' = n_lines ct
     \<and> instrInfoTable ct' = instrInfoTable ct \<and> next_inode ct' = next_inode ct"
  using get_perm_string_id [of ct s] by (auto simp: get_perm_string_def split: option.splits)

lemma get_lineCC_frame:
  "get_lineCC dbg ct a = (ct', p) \<Longrightarrow> sim (cgst ct') = sim (cgst ct) \<and> insns (cgst ct') = insns (cgst ct)
     \<and> instrInfoTable ct' = instrInfoTable ct \<and> next_inode ct' = next_inode ct"
  by (auto simp: get_lineCC_def Let_def dest!: get_debug_info_frame get_perm_string_frame split: prod.splits option.splits)

definition mark_effect :: "debug_info \<Rightarrow> UWord \<Rightarrow> UInt \<Rightarrow> nat \<Rightarrow> cg_tool \<Rightarrow> cg_tool \<Rightarrow> bool" where
  "mark_effect dbg addr len n ct ct' \<longleftrightarrow> (\<exists>ct1 p. get_lineCC dbg ct addr = (ct1, p)
     \<and> cgst ct' = (cgst ct1)\<lparr>insns := (insns (cgst ct1))(n := \<lparr>instr_addr = addr, instr_len = ucast (fix_isize len), parent = p\<rparr>)\<rparr>
     \<and> n_lines ct' = n_lines ct1 \<and> instrInfoTable ct' = instrInfoTable ct \<and> next_inode ct' = next_inode ct)"

definition marked :: "(nat \<Rightarrow> InstrInfo) \<Rightarrow> nat \<Rightarrow> UWord \<Rightarrow> UInt \<Rightarrow> bool" where
  "marked is n addr len \<longleftrightarrow> instr_addr (is n) = addr \<and> instr_len (is n) = ucast (fix_isize len)"

lemma mark_size_ok:
  assumes "len \<le> 16 \<or> len = 19"
  shows "VG_MIN_INSTR_SZB \<le> fix_isize len \<and> fix_isize len \<le> VG_MAX_INSTR_SZB \<or> VG_CLREQ_SZB = fix_isize len"
proof -
  have "1 \<le> len" if "len \<noteq> 0" using that by (simp add: word_less_1 linorder_not_less [symmetric])
  then show ?thesis using assms by (auto simp: fix_isize_def VG_MIN_INSTR_SZB_def VG_MAX_INSTR_SZB_def VG_CLREQ_SZB_def)
qed

lemma addEvent_Ir_event:
  "add_event opt cg (ir_event (sim (cgst ct)) (insns (cgst ct) n) n) = Some cg' \<Longrightarrow>
   \<exists>ct2. addEvent_Ir opt ct cg n = Some (ct2, cg') \<and> cgst ct2 = cgst ct \<and> n_lines ct2 = n_lines ct
     \<and> instrInfoTable ct2 = instrInfoTable ct \<and> next_inode ct2 = next_inode ct"
  by (simp add: addEvent_Ir_def ir_event_def Let_def)

lemma IMark_step:
  assumes inv: "loop_inv opt c is te base N k ls" "k < N" and ok: "stmt_ok opt te (Ist_IMark addr len delta)"
    and m: "marked is (base + k) addr len"
  shows "\<exists>ls'. instrument_stmt opt dbg te Ity_I64 (Ist_IMark addr len delta) ls = Some ls'
    \<and> loop_inv opt c is te base N (k + 1) ls' \<and> nia_of ls' = addr + ucast (fix_isize len)
    \<and> grows (ls_cgs ls) (ls_cgs ls') \<and> mark_effect dbg addr len (base + k) (ls_tool ls) (ls_tool ls')
    \<and> emits opt c is (ls_cgs ls) (ls_cgs ls') (\<lambda>env. [A_Ir (base + k)] @ [A_stmt False])"
proof -
  let ?n = "base + k" and ?cg = "(ls_cgs ls)\<lparr>sbInfo_i := int k + 1\<rparr>"
  obtain ct1 p where g: "get_lineCC dbg (ls_tool ls) addr = (ct1, p)" by force
  let ?node = "\<lparr>instr_addr = addr, instr_len = ucast (fix_isize len), parent = p\<rparr>"
  let ?ct = "ct1\<lparr>cgst := (cgst ct1)\<lparr>insns := (insns (cgst ct1))(?n := ?node)\<rparr>\<rparr>"
  have i: "sbInfo_i (ls_cgs ls) = int k" "instrs (sbInfo (ls_cgs ls)) = base" "n_instrs (sbInfo (ls_cgs ls)) = int N"
    and lb: "line_size_bits (I1 (sim (cgst (ls_tool ls)))) = line_size_bits (I1 c)"
      "line_size_bits (LL (sim (cgst (ls_tool ls)))) = line_size_bits (LL c)"
    and q: "queue_inv opt c is (curr_inode ls) (ls_cgs ls)" using inv(1) unfolding loop_inv_def by blast+
  have su: "setup_InstrInfo dbg (ls_tool ls) (ls_cgs ls) addr (fix_isize len) = Some (?ct, ?cg, ?n)"
    using i inv(2) by (simp add: setup_InstrInfo_def g Let_def)
  have ir: "ir_event (sim (cgst ?ct)) (insns (cgst ?ct) ?n) ?n = ir_event c (is ?n) ?n"
    using m lb get_lineCC_frame [OF g] by (simp add: ir_event_def marked_def cachesim_is_IrNoX_def)
  have "queue_inv opt c is (curr_inode ls) ?cg" using q by (simp add: queue_inv_def)
  from Ir_refines [OF this, of ?n] obtain cg where cg: "add_event opt ?cg (ir_event c (is ?n) ?n) = Some cg"
    "queue_inv opt c is (Some ?n) cg" "frame ?cg cg" "emits opt c is ?cg cg (\<lambda>env. [A_Ir ?n])" by (auto simp: op_refines_def)
  from addEvent_Ir_event [OF cg(1) [unfolded ir [symmetric]]] obtain ct2 where
    ct2: "addEvent_Ir opt ?ct ?cg ?n = Some (ct2, cg)" "cgst ct2 = cgst ?ct" "n_lines ct2 = n_lines ?ct"
      "instrInfoTable ct2 = instrInfoTable ?ct" "next_inode ct2 = next_inode ?ct" by blast
  have eff: "mark_effect dbg addr len ?n (ls_tool ls) ct2" using g get_lineCC_frame [OF g] ct2 by (simp add: mark_effect_def)
  let ?ls = "\<lparr>ls_tool = ct2, ls_cgs = cg, curr_inode = Some ?n, cia = addr, isize = fix_isize len\<rparr>"
  have "loop_inv opt c is te base N (k + 1) ?ls"
    using inv(1) cg(2,3) ct2(2) lb get_lineCC_frame [OF g] by (auto simp: loop_inv_def frame_def)
  note cp = copy_stmt [OF this, of "Ist_IMark addr len delta"]
  have "instrument_IMark opt dbg addr len ls = Some ?ls"
    using mark_size_ok [of len] ok su ct2(1) by (simp add: instrument_IMark_def stmt_ok_def)
  then have "instrument_stmt opt dbg te Ity_I64 (Ist_IMark addr len delta) ls = Some (?ls\<lparr>ls_cgs := addStmtToIRSB cg (Ist_IMark addr len delta)\<rparr>)"
    by (simp add: instrument_stmt_def)
  moreover have "emits opt c is (ls_cgs ls) cg (\<lambda>env. [A_Ir ?n])" by (rule emits_cong [OF _ _ cg(4)]) simp_all
  then have "emits opt c is (ls_cgs ls) (addStmtToIRSB cg (Ist_IMark addr len delta)) (\<lambda>env. [A_Ir ?n] @ [A_stmt False])"
    using cp by (intro emits_trans) (auto simp: grows_def is_Exit_def leaves_def)
  moreover have "grows (ls_cgs ls) cg" using cg(3) by (simp add: frame_def grows_def)
  ultimately show ?thesis using cp eff
    by (auto simp: is_Exit_def nia_of_def grows_def)
qed

text \<open>The nodes of the marks of a block, and what all marks together do to the tables.\<close>

fun marks :: "IRStmt list \<Rightarrow> (UWord \<times> UInt) list" where
  "marks [] = []"
| "marks (st # sts) = (case st of Ist_IMark addr len _ \<Rightarrow> (addr, len) # marks sts | _ \<Rightarrow> marks sts)"

lemma length_marks: "length (marks sts) = n_marks sts"
  by (induction sts) (auto simp: n_marks_def is_IMark_def split: IRStmt.splits)

definition all_marked :: "(nat \<Rightarrow> InstrInfo) \<Rightarrow> nat \<Rightarrow> (UWord \<times> UInt) list \<Rightarrow> bool" where
  "all_marked is n ms \<longleftrightarrow> (\<forall>i < length ms. marked is (n + i) (fst (ms ! i)) (snd (ms ! i)))"

lemma all_marked_Nil [simp]: "all_marked is n []"
  by (simp add: all_marked_def)

lemma all_marked_Cons [simp]: "all_marked is n ((a, l) # ms) \<longleftrightarrow> marked is n a l \<and> all_marked is (n + 1) ms"
  unfolding all_marked_def by (simp add: All_less_Suc2)

lemma all_marked_ex: "\<exists>is. all_marked is n ms"
proof -
  let ?is = "\<lambda>m. \<lparr>instr_addr = fst (ms ! (m - n)), instr_len = ucast (fix_isize (snd (ms ! (m - n)))), parent = 0\<rparr>"
  have "all_marked ?is n ms" by (simp add: all_marked_def marked_def)
  then show ?thesis by blast
qed

fun marks_effect :: "debug_info \<Rightarrow> nat \<Rightarrow> (UWord \<times> UInt) list \<Rightarrow> cg_tool \<Rightarrow> cg_tool \<Rightarrow> bool" where
  "marks_effect dbg n [] ct ct' \<longleftrightarrow> ct' = ct"
| "marks_effect dbg n ((addr, len) # ms) ct ct' \<longleftrightarrow> (\<exists>ct1. mark_effect dbg addr len n ct ct1 \<and> marks_effect dbg (n + 1) ms ct1 ct')"

lemma emits_Nil: "emits opt c is cgs cgs (\<lambda>env. [])"
  by (simp add: emits_def)

lemma loop_step:
  assumes inv: "loop_inv opt c is te base N k ls" "k + n_marks (st # sts) \<le> N" "0 < k \<or> is_IMark st"
    and ok: "stmt_ok opt te st" "1 \<le> min_line_size opt" and m: "all_marked is (base + k) (marks (st # sts))"
  shows "\<exists>ls' k'. instrument_stmt opt dbg te Ity_I64 st ls = Some ls' \<and> loop_inv opt c is te base N k' ls'
    \<and> 0 < k' \<and> k' + n_marks sts = k + n_marks (st # sts) \<and> all_marked is (base + k') (marks sts)
    \<and> grows (ls_cgs ls) (ls_cgs ls')
    \<and> (\<forall>ct'. marks_effect dbg (base + k') (marks sts) (ls_tool ls') ct' \<longrightarrow> marks_effect dbg (base + k) (marks (st # sts)) (ls_tool ls) ct')
    \<and> (\<exists>as. emits opt c is (ls_cgs ls) (ls_cgs ls') as
        \<and> (\<forall>env. block_accesses opt te env (base + k - 1) (base + k) (nia_of ls) (st # sts)
             = as env @ block_accesses opt te env (base + k' - 1) (base + k') (nia_of ls') sts))"
proof (cases "is_IMark st")
  case True
  then obtain addr len delta where st: "st = Ist_IMark addr len delta" by (auto simp: is_IMark_def split: IRStmt.splits)
  have "k < N" "marked is (base + k) addr len" using inv(2) m by (simp_all add: n_marks_def is_IMark_def st)
  from IMark_step [OF inv(1) this(1) ok(1) [unfolded st] this(2), of dbg] obtain ls' where
    r: "instrument_stmt opt dbg te Ity_I64 st ls = Some ls'" "loop_inv opt c is te base N (k + 1) ls'"
      "nia_of ls' = addr + ucast (fix_isize len)" "grows (ls_cgs ls) (ls_cgs ls')"
      "mark_effect dbg addr len (base + k) (ls_tool ls) (ls_tool ls')"
      "emits opt c is (ls_cgs ls) (ls_cgs ls') (\<lambda>env. [A_Ir (base + k)] @ [A_stmt False])" unfolding st by blast
  then show ?thesis using m
    by (intro exI [of _ ls'] exI [of _ "k + 1"]) (auto simp: st n_marks_def is_IMark_def intro!: exI [of _ "\<lambda>env. [A_Ir (base + k)] @ [A_stmt False]"])
next
  case False
  then have k: "0 < k" using inv(3) by simp
  from stmt_step [OF inv(1) k ok False, of dbg] obtain cg where
    r: "instrument_stmt opt dbg te Ity_I64 st ls = Some (ls\<lparr>ls_cgs := cg\<rparr>)" "loop_inv opt c is te base N k (ls\<lparr>ls_cgs := cg\<rparr>)"
      "grows (ls_cgs ls) cg"
      "emits opt c is (ls_cgs ls) cg (\<lambda>env. stmt_accesses opt te env (base + k - 1) (nia_of ls) st @ [A_stmt (leaves env st)])" by blast
  have ms: "marks (st # sts) = marks sts" using False by (cases st) (auto simp: is_IMark_def)
  have "block_accesses opt te env n j nia (st # sts) = (stmt_accesses opt te env n nia st @ [A_stmt (leaves env st)])
      @ block_accesses opt te env n j nia sts" for env n j nia
    using False by (cases st) (auto simp: is_IMark_def)
  moreover have "nia_of (ls\<lparr>ls_cgs := cg\<rparr>) = nia_of ls" by (simp add: nia_of_def)
  ultimately show ?thesis using r k m ms False
    by (intro exI [of _ "ls\<lparr>ls_cgs := cg\<rparr>"] exI [of _ k])
      (auto simp: n_marks_def simp del: block_accesses.simps marks.simps
        intro!: exI [of _ "\<lambda>env. stmt_accesses opt te env (base + k - 1) (nia_of ls) st @ [A_stmt (leaves env st)]"])
qed

lemma loop_ok:
  "loop_inv opt c is te base N k ls \<Longrightarrow> k + n_marks sts \<le> N \<Longrightarrow> 0 < k \<or> (sts \<noteq> [] \<longrightarrow> is_IMark (hd sts)) \<Longrightarrow>
   list_all (stmt_ok opt te) sts \<Longrightarrow> 1 \<le> min_line_size opt \<Longrightarrow> all_marked is (base + k) (marks sts) \<Longrightarrow>
   \<exists>ls'. instrument_loop opt dbg te Ity_I64 sts ls = Some ls' \<and> loop_inv opt c is te base N (k + n_marks sts) ls'
     \<and> grows (ls_cgs ls) (ls_cgs ls') \<and> marks_effect dbg (base + k) (marks sts) (ls_tool ls) (ls_tool ls')
     \<and> emits opt c is (ls_cgs ls) (ls_cgs ls') (\<lambda>env. block_accesses opt te env (base + k - 1) (base + k) (nia_of ls) sts)"
proof (induction sts arbitrary: ls k)
  case Nil
  then show ?case by (simp add: n_marks_def grows_def emits_Nil)
next
  case (Cons st sts)
  have "0 < k \<or> is_IMark st" "stmt_ok opt te st" using Cons.prems(3,4) by simp_all
  from loop_step [OF Cons.prems(1,2) this Cons.prems(5,6), of dbg] obtain ls1 k1 as where
    r: "instrument_stmt opt dbg te Ity_I64 st ls = Some ls1" "loop_inv opt c is te base N k1 ls1" "0 < k1"
      "k1 + n_marks sts = k + n_marks (st # sts)" "all_marked is (base + k1) (marks sts)" "grows (ls_cgs ls) (ls_cgs ls1)"
      "\<And>ct'. marks_effect dbg (base + k1) (marks sts) (ls_tool ls1) ct' \<Longrightarrow> marks_effect dbg (base + k) (marks (st # sts)) (ls_tool ls) ct'"
      "emits opt c is (ls_cgs ls) (ls_cgs ls1) as"
      "\<And>env. block_accesses opt te env (base + k - 1) (base + k) (nia_of ls) (st # sts)
         = as env @ block_accesses opt te env (base + k1 - 1) (base + k1) (nia_of ls1) sts" by blast
  have "k1 + n_marks sts \<le> N" "list_all (stmt_ok opt te) sts" using r(4) Cons.prems(2,4) by simp_all
  from Cons.IH [OF r(2) this(1) _ this(2) Cons.prems(5) r(5)] r(3) obtain ls2 where
    l: "instrument_loop opt dbg te Ity_I64 sts ls1 = Some ls2" "loop_inv opt c is te base N (k1 + n_marks sts) ls2"
      "grows (ls_cgs ls1) (ls_cgs ls2)" "marks_effect dbg (base + k1) (marks sts) (ls_tool ls1) (ls_tool ls2)"
      "emits opt c is (ls_cgs ls1) (ls_cgs ls2) (\<lambda>env. block_accesses opt te env (base + k1 - 1) (base + k1) (nia_of ls1) sts)" by blast
  have "emits opt c is (ls_cgs ls) (ls_cgs ls2) (\<lambda>env. block_accesses opt te env (base + k - 1) (base + k) (nia_of ls) (st # sts))"
    unfolding r(9) using l(3) by (intro emits_trans [OF r(8) l(5)]) (simp add: grows_def)
  moreover have "grows (ls_cgs ls) (ls_cgs ls2)" using r(6) l(3) by (auto simp: grows_def)
  moreover have "instrument_loop opt dbg te Ity_I64 (st # sts) ls = Some ls2" using r(1) l(1) by simp
  ultimately show ?case using l(2) r(4) r(7) [OF l(4)] by auto
qed

section \<open>The tables\<close>

lemma mark_effect_insns:
  assumes "mark_effect dbg addr len n ct ct'"
  shows "\<exists>p. insns (cgst ct') = (insns (cgst ct))(n := \<lparr>instr_addr = addr, instr_len = ucast (fix_isize len), parent = p\<rparr>)"
    "sim (cgst ct') = sim (cgst ct)" "next_inode ct' = next_inode ct" "instrInfoTable ct' = instrInfoTable ct"
  using assms get_lineCC_frame [of dbg ct addr] by (auto simp: mark_effect_def)

lemma marks_effect_insns:
  "marks_effect dbg n ms ct ct' \<Longrightarrow> all_marked (insns (cgst ct')) n ms \<and> (\<forall>m. m < n \<or> n + length ms \<le> m \<longrightarrow> insns (cgst ct') m = insns (cgst ct) m)
     \<and> sim (cgst ct') = sim (cgst ct) \<and> next_inode ct' = next_inode ct \<and> instrInfoTable ct' = instrInfoTable ct"
proof (induction dbg n ms ct ct' rule: marks_effect.induct)
  case (2 dbg n addr len ms ct ct')
  from 2(2) obtain ct1 where r: "mark_effect dbg addr len n ct ct1" "marks_effect dbg (n + 1) ms ct1 ct'" by auto
  note ih = 2(1) [OF r(2)] and m = mark_effect_insns [OF r(1)]
  have "insns (cgst ct') n = insns (cgst ct1) n" using ih by simp
  then have "marked (insns (cgst ct')) n addr len" using m(1) by (auto simp: marked_def)
  then show ?case using ih m by auto
qed simp

section \<open>The block\<close>

lemma exec_copies:
  "exec_list (exec_out env) (map O_Stmt sts) sx = spec_run opt env (map (\<lambda>st. A_stmt (leaves env st)) sts) r sx"
  by (induction sts arbitrary: sx) simp_all

lemma spec_rs_copies: "spec_rs opt (map (\<lambda>st. A_stmt (leaves env st)) sts) r = r"
  by (induction sts) simp_all

definition instrument_end :: "cg_options \<Rightarrow> IRSB \<Rightarrow> nat \<Rightarrow> CgState \<Rightarrow> CgState option" where
  "instrument_end opt sb n cgs =
     do { cg \<leftarrow> (if jumpkind sb = Ijk_Boring \<or> jumpkind sb = Ijk_Call then
                    (case sb_next sb of Iex_Const _ \<Rightarrow> Some cgs | Iex_RdTmp _ \<Rightarrow> addEvent_Bi opt cgs n (sb_next sb) | _ \<Rightarrow> None)
                  else Some cgs);
          flushEvents (clo_cache_sim opt) cg }"

lemma end_refines:
  assumes q: "queue_inv opt c is (Some n) cgs" and te: "sbOut_tyenv cgs = te @ e"
    and nx: "jumpkind sb = Ijk_Boring \<or> jumpkind sb = Ijk_Call \<longrightarrow>
         (case sb_next sb of Iex_Const _ \<Rightarrow> True | Iex_RdTmp t \<Rightarrow> address te (Iex_RdTmp t) | _ \<Rightarrow> False)"
  shows "op_refines opt c is (Some n) (instrument_end opt sb n cgs) cgs (end_accesses sb n)"
  unfolding instrument_end_def end_accesses_def
proof (rule op_refines_seq [OF _ flush_refines])
  note sk = skip_refines [OF q, of "\<lambda>_. []"]
  let ?res = "if jumpkind sb = Ijk_Boring \<or> jumpkind sb = Ijk_Call then
      (case sb_next sb of Iex_Const _ \<Rightarrow> Some cgs | Iex_RdTmp _ \<Rightarrow> addEvent_Bi opt cgs n (sb_next sb) | _ \<Rightarrow> None) else Some cgs"
  let ?as = "\<lambda>env. if (jumpkind sb = Ijk_Boring \<or> jumpkind sb = Ijk_Call) \<and> is_RdTmp (sb_next sb)
      then [A_Bi n (env (sb_next sb))] else []"
  show "op_refines opt c is (Some n) ?res cgs ?as"
  proof (cases "jumpkind sb = Ijk_Boring \<or> jumpkind sb = Ijk_Call")
    case True
    show ?thesis
    proof (cases "sb_next sb")
      case (Iex_RdTmp t)
      then have "typeOfIRAtom (sbOut_tyenv cgs) (Iex_RdTmp t) = Some Ity_I64"
        using True nx typeOfIRAtom_append [of te "Iex_RdTmp t"] by (simp add: te address_def)
      from branch_refines(2) [OF q this, of n] show ?thesis using True Iex_RdTmp by (simp add: is_RdTmp_def)
    qed (use True nx sk in \<open>auto simp: is_RdTmp_def\<close>)
  qed (use sk in simp)
qed auto

text \<open>The state when the block runs: later blocks may have been added and the counters and caches have moved on,
  but the nodes of this block and the sizes of the lines are as they were.\<close>

definition runtime_of :: "cg_tool \<Rightarrow> cg_tool \<Rightarrow> cg \<Rightarrow> bool" where
  "runtime_of ct ct' s \<longleftrightarrow> (\<forall>n. next_inode ct \<le> n \<and> n < next_inode ct' \<longrightarrow> insns s n = insns (cgst ct') n)
     \<and> line_size_bits (I1 (sim s)) = line_size_bits (I1 (sim (cgst ct)))
     \<and> line_size_bits (LL (sim s)) = line_size_bits (LL (sim (cgst ct)))"

lemma n_marks_from: "length (filter is_IMark (stmts sb)) = n_marks (from_IMark sb)"
proof -
  have "filter is_IMark (takeWhile (\<lambda>st. \<not> is_IMark st) (stmts sb)) = []"
    by (auto simp: filter_empty_conv dest: set_takeWhileD)
  moreover have "filter is_IMark (stmts sb) = filter is_IMark (takeWhile (\<lambda>st. \<not> is_IMark st) (stmts sb) @ dropWhile (\<lambda>st. \<not> is_IMark st) (stmts sb))"
    by simp
  ultimately show ?thesis unfolding n_marks_def from_IMark_def by (simp del: takeWhile_dropWhile_id)
qed

lemma from_IMark_hd: "from_IMark sb \<noteq> [] \<Longrightarrow> is_IMark (hd (from_IMark sb))"
  unfolding from_IMark_def using hd_dropWhile [of "\<lambda>st. \<not> is_IMark st" "stmts sb"] by blast

text \<open>The accesses from the first mark on do not depend on what was current before it.\<close>

lemma block_accesses_start:
  "sts \<noteq> [] \<Longrightarrow> is_IMark (hd sts) \<Longrightarrow> block_accesses opt te env n k nia sts = block_accesses opt te env n' k nia' sts"
  by (cases sts) (auto simp: is_IMark_def split: IRStmt.splits)

definition start_state :: "cg_tool \<Rightarrow> UWord \<Rightarrow> IRSB \<Rightarrow> UWord \<Rightarrow> UInt \<Rightarrow> loop_state" where
  "start_state ct a sb addr len =
     (let info = \<lparr>SB_addr = a, n_instrs = int (n_marks (from_IMark sb)), instrs = next_inode ct\<rparr> in
      \<lparr>ls_tool = ct\<lparr>instrInfoTable := (instrInfoTable ct)(a := Some info), next_inode := next_inode ct + n_marks (from_IMark sb)\<rparr>,
       ls_cgs = \<lparr>events = [], sbInfo = info, sbInfo_i = 0, sbOut = map O_Stmt (before_IMark sb), sbOut_tyenv = tyenv sb\<rparr>,
       curr_inode = None, cia = addr, isize = fix_isize len\<rparr>)"

definition register_block :: "cg_tool \<Rightarrow> UWord \<Rightarrow> IRSB \<Rightarrow> cg_tool" where
  "register_block ct a sb =
     ct\<lparr>instrInfoTable := (instrInfoTable ct)(a := Some \<lparr>SB_addr = a, n_instrs = int (n_marks (from_IMark sb)), instrs = next_inode ct\<rparr>),
        next_inode := next_inode ct + n_marks (from_IMark sb)\<rparr>"

lemma instrument_block:
  assumes ok: "block_ok opt sb" and m: "all_marked is (next_inode ct) (marks (from_IMark sb))"
    and c: "line_size_bits (I1 c) = line_size_bits (I1 (sim (cgst ct)))" "line_size_bits (LL c) = line_size_bits (LL (sim (cgst ct)))"
    and n_def: "n = next_inode ct + n_marks (from_IMark sb) - 1" and s0_def: "s0 = start_state ct a sb addr len"
  shows "\<exists>ls cg'. instrument_loop opt dbg (tyenv sb) Ity_I64 (from_IMark sb) s0 = Some ls \<and> curr_inode ls = Some n
    \<and> instrument_end opt sb n (ls_cgs ls) = Some cg' \<and> sbInfo_i cg' = n_instrs (sbInfo cg')
    \<and> marks_effect dbg (next_inode ct) (marks (from_IMark sb)) (ls_tool s0) (ls_tool ls)
    \<and> emits opt c is (ls_cgs s0) cg'
        (\<lambda>env. block_accesses opt (tyenv sb) env 0 (next_inode ct) 0 (from_IMark sb) @ end_accesses sb n env)"
proof -
  let ?sts = "from_IMark sb" and ?base = "next_inode ct"
  let ?N = "n_marks ?sts"
  have ne: "?sts \<noteq> []" "list_all (stmt_ok opt (tyenv sb)) ?sts" "1 \<le> min_line_size opt"
    and nx: "jumpkind sb = Ijk_Boring \<or> jumpkind sb = Ijk_Call \<longrightarrow>
         (case sb_next sb of Iex_Const _ \<Rightarrow> True | Iex_RdTmp t \<Rightarrow> address (tyenv sb) (Iex_RdTmp t) | _ \<Rightarrow> False)"
    using ok by (simp_all add: block_ok_def)
  have Npos: "0 < ?N" using ne(1) from_IMark_hd [OF ne(1)] by (cases ?sts) (auto simp: n_marks_def)
  have "loop_inv opt c is (tyenv sb) ?base ?N 0 s0"
    using c by (simp add: loop_inv_def s0_def start_state_def Let_def queue_inv_empty)
  from loop_ok [OF this _ _ ne(2,3), of dbg] m from_IMark_hd [OF ne(1)] obtain ls where
    l: "instrument_loop opt dbg (tyenv sb) Ity_I64 ?sts s0 = Some ls" "loop_inv opt c is (tyenv sb) ?base ?N ?N ls"
      "marks_effect dbg ?base (marks ?sts) (ls_tool s0) (ls_tool ls)"
      "emits opt c is (ls_cgs s0) (ls_cgs ls) (\<lambda>env. block_accesses opt (tyenv sb) env (?base - 1) ?base (nia_of s0) ?sts)"
    by auto
  have "block_accesses opt (tyenv sb) env (?base - 1) ?base (nia_of s0) ?sts = block_accesses opt (tyenv sb) env 0 ?base 0 ?sts" for env
    by (rule block_accesses_start [OF ne(1) from_IMark_hd [OF ne(1)]])
  note em = l(4) [unfolded this]
  obtain e where q: "queue_inv opt c is (Some n) (ls_cgs ls)" "curr_inode ls = Some n"
    "sbOut_tyenv (ls_cgs ls) = tyenv sb @ e" using l(2) Npos by (auto simp: loop_inv_def n_def)
  from end_refines [OF q(1,3) nx] obtain cg' where
    r: "instrument_end opt sb n (ls_cgs ls) = Some cg'" "frame (ls_cgs ls) cg'" "emits opt c is (ls_cgs ls) cg' (end_accesses sb n)"
    unfolding op_refines_def by blast
  have "sbInfo_i cg' = n_instrs (sbInfo cg')" using l(2) r(2) by (simp add: loop_inv_def frame_def)
  moreover have "emits opt c is (ls_cgs s0) cg' (\<lambda>env. block_accesses opt (tyenv sb) env 0 ?base 0 ?sts @ end_accesses sb n env)"
    using r(2) by (intro emits_trans [OF em r(3)]) (simp add: frame_def)
  ultimately show ?thesis using l(1,3) q(2) r(1) by blast
qed

lemma cg_instrument_parts:
  assumes ne: "from_IMark sb \<noteq> []" "hd (from_IMark sb) = Ist_IMark addr len delta" and new: "instrInfoTable ct a = None"
    and l: "instrument_loop opt dbg (tyenv sb) Ity_I64 (from_IMark sb) (start_state ct a sb addr len) = Some ls" "curr_inode ls = Some n"
    and e: "instrument_end opt sb n (ls_cgs ls) = Some cg'" "sbInfo_i cg' = n_instrs (sbInfo cg')"
  shows "cg_instrument opt dbg ct a sb a Ity_I64 Ity_I64 = Some (ls_tool ls, cg')"
proof -
  have "stmts sb \<noteq> []" using ne(1) by (auto simp: from_IMark_def)
  moreover have "get_SB_info ct sb a = Some (ls_tool (start_state ct a sb addr len), sbInfo (ls_cgs (start_state ct a sb addr len)))"
    using new by (simp add: get_SB_info_def start_state_def n_marks_from Let_def)
  moreover note l [unfolded start_state_def Let_def, simplified] and e [unfolded instrument_end_def]
  ultimately show ?thesis using ne
    by (auto simp: cg_instrument_def Let_def from_IMark_def [symmetric] before_IMark_def [symmetric] start_state_def cong: if_cong IRExpr.case_cong split: option.splits elim!: bind_SomeE)
qed

lemma instrument_end_flushed: "instrument_end opt sb n cgs = Some cg' \<Longrightarrow> events cg' = []"
  unfolding instrument_end_def by (elim bind_SomeE flush_events)

lemma block_meaning:
  assumes em: "emits opt c is (ls_cgs (start_state ct a sb addr len)) cg'
      (\<lambda>env. block_accesses opt (tyenv sb) env 0 (next_inode ct) 0 (from_IMark sb)
         @ end_accesses sb (next_inode ct + n_marks (from_IMark sb) - 1) env)"
    and ev: "events cg' = []" and env: "env_ok env (sbOut cg')" and s: "same_shape c is s"
  shows "exec_list (exec_out env) (sbOut cg') (s, False) = spec_run opt env (sb_accesses opt env (next_inode ct) sb) None (s, False)"
proof -
  let ?s0 = "ls_cgs (start_state ct a sb addr len)"
  have nil: "(m \<bind> live (exec_list (exec_event cs env) [])) = m" for m cs
  proof (cases m)
    case (Some sx)
    then show ?thesis by (cases sx) simp
  qed simp
  have e0: "events ?s0 = []" "sbOut ?s0 = map O_Stmt (before_IMark sb)" by (simp_all add: start_state_def Let_def)
  have "exec_list (exec_out env) (sbOut cg') (s, False) = meaning (clo_cache_sim opt) env cg' (s, False)"
    by (simp add: meaning_def ev nil)
  also have "\<dots> = (exec_list (exec_out env) (sbOut ?s0) (s, False) \<bind> spec_run opt env
      (block_accesses opt (tyenv sb) env 0 (next_inode ct) 0 (from_IMark sb)
         @ end_accesses sb (next_inode ct + n_marks (from_IMark sb) - 1) env) None)"
    using emitsD(2) [OF em env, of "(s, False)"] s by (simp add: meaning_def e0(1) nil)
  finally show ?thesis
    by (simp add: e0(2) exec_copies [where opt = opt and r = None] sb_accesses_def spec_run_append [where as = "map _ _"] spec_rs_copies)
qed

lemma cg_instrument_block:
  assumes ok: "block_ok opt sb" and new: "instrInfoTable ct a = None"
  shows "\<exists>ct' cg'. cg_instrument opt dbg ct a sb a Ity_I64 Ity_I64 = Some (ct', cg') \<and> events cg' = []
    \<and> marks_effect dbg (next_inode ct) (marks (from_IMark sb)) (register_block ct a sb) ct'
    \<and> (\<forall>env s. env_ok env (sbOut cg') \<and> runtime_of ct ct' s \<longrightarrow>
         exec_list (exec_out env) (sbOut cg') (s, False) = spec_run opt env (sb_accesses opt env (next_inode ct) sb) None (s, False))"
proof -
  let ?n = "next_inode ct + n_marks (from_IMark sb) - 1" and ?ms = "marks (from_IMark sb)"
  have ne: "from_IMark sb \<noteq> []" using ok by (simp add: block_ok_def)
  obtain addr len delta where h: "hd (from_IMark sb) = Ist_IMark addr len delta"
    using from_IMark_hd [OF ne] by (auto simp: is_IMark_def split: IRStmt.splits)
  let ?s0 = "start_state ct a sb addr len"
  obtain is0 where m0: "all_marked is0 (next_inode ct) ?ms" using all_marked_ex by blast
  note blk = instrument_block [OF ok _ _ _ refl refl, of _ ct _ dbg a addr len]
  from blk [OF m0 refl refl] obtain ls cg' where
    r: "instrument_loop opt dbg (tyenv sb) Ity_I64 (from_IMark sb) ?s0 = Some ls" "curr_inode ls = Some ?n"
      "instrument_end opt sb ?n (ls_cgs ls) = Some cg'" "sbInfo_i cg' = n_instrs (sbInfo cg')"
      "marks_effect dbg (next_inode ct) ?ms (ls_tool ?s0) (ls_tool ls)" by blast
  have run: "cg_instrument opt dbg ct a sb a Ity_I64 Ity_I64 = Some (ls_tool ls, cg')"
    by (rule cg_instrument_parts [OF ne h new r(1-4)])
  have "exec_list (exec_out env) (sbOut cg') (s, False) = spec_run opt env (sb_accesses opt env (next_inode ct) sb) None (s, False)"
    if env: "env_ok env (sbOut cg')" and s: "runtime_of ct (ls_tool ls) s" for env s
  proof -
    have "next_inode (ls_tool ls) = next_inode ct + length ?ms" "all_marked (insns (cgst (ls_tool ls))) (next_inode ct) ?ms"
      using marks_effect_insns [OF r(5)] by (simp_all add: start_state_def Let_def length_marks)
    then have "all_marked (insns s) (next_inode ct) ?ms" using s by (simp add: all_marked_def marked_def runtime_of_def)
    from blk [OF this, of "sim s"] s r(1,3) have "emits opt (sim s) (insns s) (ls_cgs ?s0) cg'
        (\<lambda>env. block_accesses opt (tyenv sb) env 0 (next_inode ct) 0 (from_IMark sb) @ end_accesses sb ?n env)"
      by (auto simp: runtime_of_def)
    then show ?thesis by (rule block_meaning [OF _ instrument_end_flushed [OF r(3)] env]) (simp add: same_shape_def)
  qed
  moreover have "ls_tool ?s0 = register_block ct a sb" by (simp add: start_state_def register_block_def Let_def)
  ultimately show ?thesis using run instrument_end_flushed [OF r(3)] r(5) by auto
qed

text \<open>C34: The instrumentation of a block is right. For every block of flat, typed statements whose accesses fit a line, at an address
  that has no block yet, \<open>cg_instrument\<close> passes all its assertions and leaves nothing in its queue; and running the block
  it returns, for any values of the temporaries and up to whichever side exit is taken, does to caches, predictors and
  counters exactly what logging each executed access one by one does. In particular the statistics
  are up to date at every side exit, and an inverted exit counts the branch with its original sense.\<close>

theorem cg_instrument_correct:
  assumes ok: "block_ok opt sb" and new: "instrInfoTable ct a = None"
  shows "\<exists>ct' cg'. cg_instrument opt dbg ct a sb a Ity_I64 Ity_I64 = Some (ct', cg') \<and> events cg' = []
    \<and> (\<forall>env s. env_ok env (sbOut cg') \<and> runtime_of ct ct' s \<longrightarrow>
         exec_list (exec_out env) (sbOut cg') (s, False) = spec_run opt env (sb_accesses opt env (next_inode ct) sb) None (s, False))"
  using cg_instrument_block [OF assms, of dbg] by blast

text \<open>A load, an inverted side exit that is taken, and a store that is not reached; the block ends in an indirect
  jump.\<close>

definition ex_opt :: cg_options where
  "ex_opt = \<lparr>clo_cache_sim = True, clo_branch_sim = True, min_line_size = 16\<rparr>"

definition ex_dbg :: debug_info where
  "ex_dbg = \<lparr>get_filename_linenum = (\<lambda>a. None), get_fnname = (\<lambda>a. None)\<rparr>"

definition ex_tool :: cg_tool where
  "ex_tool = \<lparr>cgst = tiny_state, n_lines = 0, stringTable = [], instrInfoTable = (\<lambda>_. None), next_inode = 0,
     distinct_instrsGen = 0, distinct_instrsNoX = 0, full_debugs = 0, file_line_debugs = 0, fn_debugs = 0, no_debugs = 0\<rparr>"

definition ex_block :: IRSB where
  "ex_block = \<lparr>tyenv = [Ity_I64, Ity_I64, Ity_I1],
     stmts = [Ist_IMark 256 4 0, Ist_WrTmp 1 (Iex_Load 0 Ity_I64 (Iex_RdTmp 0)),
              Ist_Exit (Iex_RdTmp 2) (Ico_U64 260) Ijk_Boring 0,
              Ist_IMark 260 2 0, Ist_Store 0 (Iex_RdTmp 0) (Iex_RdTmp 1)],
     sb_next = Iex_RdTmp 1, jumpkind = Ijk_Boring\<rparr>"

definition ex_env :: "IRAtom \<Rightarrow> UWord" where
  "ex_env at = (case at of Iex_RdTmp n \<Rightarrow> [40, 7, 1, 1, 1, 0] ! n | Iex_Const (Ico_U64 w) \<Rightarrow> w | _ \<Rightarrow> 0)"

lemma ex_block_instrumented:
  "\<exists>ct' cg'. cg_instrument ex_opt ex_dbg ex_tool 256 ex_block 256 Ity_I64 Ity_I64 = Some (ct', cg')
     \<and> sim (cgst ct') = sim (cgst ex_tool) \<and> env_ok ex_env (sbOut cg')"
proof -
  let ?run = "cg_instrument ex_opt ex_dbg ex_tool 256 ex_block 256 Ity_I64 Ity_I64"
  have r: "map_option (\<lambda>(ct, cg). (sim (cgst ct) = sim (cgst ex_tool), [(t, e). O_Stmt (Ist_WrTmp t e) \<leftarrow> sbOut cg])) ?run
      = Some (True, [(1, Iex_Load 0 Ity_I64 (Iex_RdTmp 0)), (3, Iex_RdTmp 2), (4, Iex_Unop Iop_1Uto64 (Iex_RdTmp 3)),
          (5, Iex_Binop Iop_Xor64 (Iex_RdTmp 4) (Iex_Const (Ico_U64 1)))])" by code_simp
  then obtain ct' cg' where c: "?run = Some (ct', cg')" by (cases ?run) auto
  then have o: "sim (cgst ct') = sim (cgst ex_tool)" "[(t, e). O_Stmt (Ist_WrTmp t e) \<leftarrow> sbOut cg'] =
      [(1, Iex_Load 0 Ity_I64 (Iex_RdTmp 0)), (3, Iex_RdTmp 2), (4, Iex_Unop Iop_1Uto64 (Iex_RdTmp 3)),
       (5, Iex_Binop Iop_Xor64 (Iex_RdTmp 4) (Iex_Const (Ico_U64 1)))]" using r by simp_all
  have "(t, e) \<in> set [(t, e). O_Stmt (Ist_WrTmp t e) \<leftarrow> sbOut cg']" if "O_Stmt (Ist_WrTmp t e) \<in> set (sbOut cg')" for t e
    using that by force
  then have "env_ok ex_env (sbOut cg')" unfolding o(2) by (fastforce simp: env_ok_def ex_env_def)
  then show ?thesis using c o(1) by blast
qed

theorem cg_instrument_correct_witness:
  "\<exists>ct' cg'. cg_instrument ex_opt ex_dbg ex_tool 256 ex_block 256 Ity_I64 Ity_I64 = Some (ct', cg') \<and> events cg' = []
     \<and> exec_list (exec_out ex_env) (sbOut cg') (cgst ct', False)
       = spec_run ex_opt ex_env (sb_accesses ex_opt ex_env 0 ex_block) None (cgst ct', False)"
proof -
  have ok: "block_ok ex_opt ex_block" by code_simp
  have new: "instrInfoTable ex_tool 256 = None" "next_inode ex_tool = 0" by (simp_all add: ex_tool_def)
  from ex_block_instrumented obtain ct' cg' where r: "cg_instrument ex_opt ex_dbg ex_tool 256 ex_block 256 Ity_I64 Ity_I64 = Some (ct', cg')"
    "sim (cgst ct') = sim (cgst ex_tool)" "env_ok ex_env (sbOut cg')" by blast
  have "runtime_of ex_tool ct' (cgst ct')" using r(2) by (simp add: runtime_of_def)
  then show ?thesis using cg_instrument_correct [OF ok new(1), of ex_dbg] r(1,3) new(2) by auto
qed

end
