(* ===== verification/Cachegrind_Safe.thy ===== *)
theory Cachegrind_Safe
  imports Cachegrind_Block
begin

text \<open>
  The simulation never stops the program: with caches and predictors in the states that start-up and the
  simulation itself produce, the calls that an instrumented block makes reach neither a panic nor a
  failed assertion, as long as an instruction is no longer than a line, a line is shorter than 256 bytes and no
  access wraps around the address space. Both bounds are needed.
\<close>

section \<open>The state of the simulation\<close>

definition cache_ok :: "int \<Rightarrow> cache_t2 \<Rightarrow> bool" where
  "cache_ok m c \<longleftrightarrow> (\<exists>k j n h. cache_inv c k j n h \<and> m \<le> 2 ^ k)"

definition sim_inv :: "int \<Rightarrow> cg \<Rightarrow> bool" where
  "sim_inv m s \<longleftrightarrow> cache_ok m (I1 (sim s)) \<and> cache_ok m (D1 (sim s)) \<and> cache_ok m (LL (sim s))
     \<and> (\<exists>tr. bp_inv (bp s) tr) \<and> (\<exists>tr. ind_inv (bp s) tr)"

definition fits :: "int \<Rightarrow> UWord \<Rightarrow> UChar \<Rightarrow> bool" where
  "fits m a sz \<longleftrightarrow> 1 \<le> unat sz \<and> int (unat sz) \<le> m \<and> unat a + unat sz \<le> 2 ^ 64"

lemma ref_total:
  assumes "cache_ok m c" "fits m a sz"
  shows "\<exists>c' b. cachesim_ref_is_miss c a sz = Some (c', b) \<and> cache_ok m c'"
proof -
  from assms(1) obtain k j n h where c: "cache_inv c k j n h" "m \<le> 2 ^ k" by (auto simp: cache_ok_def)
  have "int (unat sz) \<le> int (2 ^ k)" using assms(2) c(2) by (simp add: fits_def)
  then have "valid_access k (a, sz)" using assms(2) by (simp only: of_nat_le_iff) (simp add: valid_access_def fits_def)
  from ref_inv [OF c(1) this] show ?thesis using c(2) unfolding cache_ok_def by blast
qed

lemma doref_total:
  assumes "cache_ok m (I1 c)" "cache_ok m (D1 c)" "cache_ok m (LL c)" "fits m a sz"
  shows "\<exists>c' b. cachesim_I1_doref_Gen c a sz = Some (c', b) \<and> cache_ok m (I1 c') \<and> cache_ok m (D1 c') \<and> cache_ok m (LL c')"
    "\<exists>c' b. cachesim_D1_doref c a sz = Some (c', b) \<and> cache_ok m (I1 c') \<and> cache_ok m (D1 c') \<and> cache_ok m (LL c')"
  using ref_total [OF assms(1,4)] ref_total [OF assms(2,4)] ref_total [OF assms(3,4)] assms(1-3)
  by (auto simp: cachesim_I1_doref_Gen_def cachesim_D1_doref_def)

definition keeps :: "int \<Rightarrow> (cg \<Rightarrow> cg option) \<Rightarrow> cg \<Rightarrow> bool" where
  "keeps m f s \<longleftrightarrow> (\<exists>s'. f s = Some s' \<and> sim_inv m s' \<and> insns s' = insns s)"

lemma on_parent_sim [simp]: "sim (on_parent n f s) = sim s" "bp (on_parent n f s) = bp s" "insns (on_parent n f s) = insns s"
  by (simp_all add: on_parent_def Let_def)

lemma log_total:
  assumes "sim_inv m s"
  shows "keeps m (log_1Ir n) s"
    "fits m (instr_addr (insns s n)) (instr_len (insns s n)) \<Longrightarrow> keeps m (log_1IrGen_0D_cache_access n) s"
    "fits m a (word_of_int sz) \<Longrightarrow> keeps m (log_0Ir_1Dr_cache_access n a sz) s"
    "fits m a (word_of_int sz) \<Longrightarrow> keeps m (log_0Ir_1Dw_cache_access n a sz) s"
  using assms doref_total [of m "sim s"]
  by (fastforce simp: keeps_def sim_inv_def log_1Ir_def log_1IrGen_0D_cache_access_def log_0Ir_1Dr_cache_access_def log_0Ir_1Dw_cache_access_def)+

lemma branch_total:
  assumes "sim_inv m s"
  shows "w = 0 \<or> w = 1 \<Longrightarrow> keeps m (log_cond_branch n w) s" "keeps m (log_ind_branch n w) s"
proof -
  from assms obtain tr tr' where b: "bp_inv (bp s) tr" "ind_inv (bp s) tr'" by (auto simp: sim_inv_def)
  show "keeps m (log_cond_branch n w) s" if "w = 0 \<or> w = 1"
  proof -
    have "sint w = (if w = 1 then 1 else 0)" using that by auto
    from cond_step [OF b(1) this, of "instr_addr (insns s n)"] obtain b' where
      "do_cond_branch_predict (bp s) (instr_addr (insns s n)) (sint w) = Some (b', if spec_mispredict tr (instr_addr (insns s n)) (w = 1) then 1 else 0)"
      "bp_inv b' ((instr_addr (insns s n), w = 1) # tr)" "btac b' = btac (bp s)" by blast
    then show ?thesis using assms b(2) by (auto simp: keeps_def log_cond_branch_def sim_inv_def ind_inv_def)
  qed
  from ind_step [OF b(2), of "instr_addr (insns s n)" w] obtain b' where
    i: "do_ind_branch_predict (bp s) (instr_addr (insns s n)) w = Some (b', if last_target tr' (instr_addr (insns s n)) \<noteq> w then 1 else 0)"
      "ind_inv b' ((instr_addr (insns s n), w) # tr')" by blast
  then have "shift_register b' = shift_register (bp s)" "counters b' = counters (bp s)"
    by (auto simp: do_ind_branch_predict_def Let_def elim!: bind_SomeE split: if_splits)
  then show "keeps m (log_ind_branch n w) s" using assms b(1) i by (auto simp: keeps_def log_ind_branch_def sim_inv_def bp_inv_def)
qed

section \<open>The accesses of a block\<close>

definition data_fits :: "int \<Rightarrow> (IRAtom \<Rightarrow> UWord) \<Rightarrow> int \<Rightarrow> IRAtom \<Rightarrow> bool" where
  "data_fits m env sz ea \<longleftrightarrow> 1 \<le> sz \<and> sz \<le> m \<and> sz < 256 \<and> int (unat (env ea)) + sz \<le> 2 ^ 64"

fun access_ok :: "int \<Rightarrow> (IRAtom \<Rightarrow> UWord) \<Rightarrow> (nat \<Rightarrow> InstrInfo) \<Rightarrow> access \<Rightarrow> bool" where
  "access_ok m env is (A_Ir n) \<longleftrightarrow> fits m (instr_addr (is n)) (instr_len (is n))"
| "access_ok m env is (A_Dr n sz ea) \<longleftrightarrow> data_fits m env sz ea"
| "access_ok m env is (A_Dw n sz ea) \<longleftrightarrow> data_fits m env sz ea"
| "access_ok m env is (A_guarded n sz ea h w) \<longleftrightarrow> h \<longrightarrow> data_fits m env sz ea"
| "access_ok m env is (A_Bc n w) \<longleftrightarrow> w = 0 \<or> w = 1"
| "access_ok m env is a \<longleftrightarrow> True"

lemma data_fits_word:
  assumes "data_fits m env sz ea"
  shows "fits m (env ea) (word_of_int sz)"
proof -
  have "uint (word_of_int sz :: UChar) = sz"
    using assms by (simp add: data_fits_def uint_word_of_int_eq take_bit_int_eq_self)
  then have "unat (word_of_int sz :: UChar) = nat sz" unfolding unat_eq_nat_uint by (rule arg_cong)
  moreover have "int (unat (env ea)) + sz \<le> 2 ^ 64" "0 \<le> sz" using assms by (simp_all add: data_fits_def)
  then have "int (unat (env ea) + nat sz) \<le> int (2 ^ 64)" by simp
  then have "unat (env ea) + nat sz \<le> 2 ^ 64" by (simp only: of_nat_le_iff)
  moreover have "1 \<le> nat sz" using assms by (simp add: data_fits_def Suc_le_eq)
  ultimately show ?thesis using assms by (simp add: data_fits_def fits_def)
qed

lemma keeps_live:
  "keeps m f s \<Longrightarrow> sim_inv m s \<Longrightarrow> \<exists>s' x'. live f (s, x) = Some (s', x') \<and> sim_inv m s' \<and> insns s' = insns s"
  by (cases x) (auto simp: keeps_def)

lemma keeps_Some: "sim_inv m s \<Longrightarrow> keeps m Some s"
  by (simp add: keeps_def)

lemma spec_f_total:
  assumes "sim_inv m s" "access_ok m env (insns s) a"
  shows "\<exists>s' x'. spec_f opt env a r (s, x) = Some (s', x') \<and> sim_inv m s' \<and> insns s' = insns s"
proof -
  note l = log_total [OF assms(1)] branch_total [OF assms(1)] keeps_Some [OF assms(1)]
  have "\<exists>f. spec_f opt env a r = live f \<and> keeps m f s" if "a \<noteq> A_flush" "\<And>b. a \<noteq> A_stmt b"
    using that assms(2) l data_fits_word by (cases a) auto
  then show ?thesis using keeps_live [of m _ s x] assms(1) by (cases a) fastforce+
qed

lemma spec_run_total:
  "sim_inv m s \<Longrightarrow> list_all (access_ok m env (insns s)) as \<Longrightarrow>
   \<exists>s' x'. spec_run opt env as r (s, x) = Some (s', x') \<and> sim_inv m s' \<and> insns s' = insns s"
proof (induction as arbitrary: r s x)
  case (Cons a as)
  from spec_f_total [OF Cons.prems(1), of env a opt r x] Cons.prems(2) obtain s1 x1 where
    s1: "spec_f opt env a r (s, x) = Some (s1, x1)" "sim_inv m s1" "insns s1 = insns s" by auto
  from Cons.IH [OF s1(2), of "spec_r opt a r" x1] Cons.prems(2) s1 show ?case by auto
qed auto

text \<open>The accesses of a block have the sizes that \<open>block_ok\<close> allows; what remains is that they do not wrap.\<close>

fun no_wrap :: "(IRAtom \<Rightarrow> UWord) \<Rightarrow> access \<Rightarrow> bool" where
  "no_wrap env (A_Dr n sz ea) \<longleftrightarrow> int (unat (env ea)) + sz \<le> 2 ^ 64"
| "no_wrap env (A_Dw n sz ea) \<longleftrightarrow> int (unat (env ea)) + sz \<le> 2 ^ 64"
| "no_wrap env (A_guarded n sz ea h w) \<longleftrightarrow> int (unat (env ea)) + sz \<le> 2 ^ 64"
| "no_wrap env a \<longleftrightarrow> True"

definition mark_fits :: "int \<Rightarrow> UWord \<times> UInt \<Rightarrow> bool" where
  "mark_fits m al \<longleftrightarrow> int (unat (snd al)) \<le> m \<and> unat (fst al) + unat (fix_isize (snd al)) \<le> 2 ^ 64"

fun size_ok :: "int \<Rightarrow> access \<Rightarrow> bool" where
  "size_ok m (A_Dr n sz ea) \<longleftrightarrow> 1 \<le> sz \<and> sz \<le> m"
| "size_ok m (A_Dw n sz ea) \<longleftrightarrow> 1 \<le> sz \<and> sz \<le> m"
| "size_ok m (A_guarded n sz ea h w) \<longleftrightarrow> 1 \<le> sz \<and> sz \<le> m"
| "size_ok m (A_Bc n w) \<longleftrightarrow> w = 0 \<or> w = 1"
| "size_ok m a \<longleftrightarrow> True"

lemma stmt_sizes:
  assumes "stmt_ok opt te st" "1 \<le> min_line_size opt"
  shows "list_all (size_ok (min_line_size opt)) (stmt_accesses opt te env n nia st)"
proof (cases st)
  case (Ist_WrTmp t e)
  then show ?thesis using assms sizedD by (cases e) (auto simp: stmt_ok_def)
next
  case (Ist_StoreG sg)
  then show ?thesis using assms sized_atomD by (auto simp: stmt_ok_def)
next
  case (Ist_LoadG lg)
  then show ?thesis using assms sizedD by (auto simp: stmt_ok_def split: option.splits)
next
  case (Ist_Dirty d)
  then show ?thesis using assms by (auto simp: stmt_ok_def split: option.splits)
next
  case (Ist_CAS cas)
  then have "1 \<le> atom_size te (cas_dataLo cas)" using assms sized_atomD by (auto simp: stmt_ok_def)
  then show ?thesis using assms(2) by (simp add: Ist_CAS Let_def)
next
  case (Ist_LLSC en res addr sd)
  then show ?thesis using assms sized_atomD by (cases sd) (auto simp: stmt_ok_def)
qed (use assms sized_atomD in \<open>auto simp: stmt_ok_def\<close>)

lemma mark_fits_node:
  assumes "marked is n addr len" "mark_fits m (addr, len)" "len \<le> 16 \<or> len = 19" "1 \<le> m"
  shows "fits m (instr_addr (is n)) (instr_len (is n))"
proof -
  let ?l = "fix_isize len"
  have l: "unat ?l \<le> 19" "1 \<le> unat ?l"
    using assms(3) by (auto simp: fix_isize_def VG_MIN_INSTR_SZB_def word_le_nat_alt unat_gt_0 Suc_le_eq)
  then have "unat (ucast ?l :: UChar) = unat ?l" by (simp add: unsigned_ucast_eq take_bit_nat_eq_self)
  moreover have "int (unat ?l) \<le> m" using assms(2,4) by (auto simp: fix_isize_def VG_MIN_INSTR_SZB_def mark_fits_def)
  ultimately show ?thesis using assms(1,2) l by (simp add: marked_def fits_def mark_fits_def)
qed

lemma block_access_ok:
  "list_all (stmt_ok opt te) sts \<Longrightarrow> 1 \<le> min_line_size opt \<Longrightarrow> min_line_size opt < 256 \<Longrightarrow>
   all_marked is k (marks sts) \<Longrightarrow> list_all (mark_fits (min_line_size opt)) (marks sts) \<Longrightarrow>
   list_all (no_wrap env) (block_accesses opt te env n k nia sts) \<Longrightarrow>
   list_all (access_ok (min_line_size opt) env is) (block_accesses opt te env n k nia sts)"
proof (induction sts arbitrary: n k nia)
  case (Cons st sts)
  have acc: "access_ok (min_line_size opt) env is a" if "size_ok (min_line_size opt) a" "no_wrap env a" "\<And>n. a \<noteq> A_Ir n" for a
    using that Cons.prems(3) by (cases a) (auto simp: data_fits_def)
  show ?case
  proof (cases "is_IMark st")
    case True
    then obtain addr len d where st: "st = Ist_IMark addr len d" by (auto simp: is_IMark_def split: IRStmt.splits)
    have "fits (min_line_size opt) (instr_addr (is k)) (instr_len (is k))"
      using mark_fits_node [of "is" k addr len] Cons.prems by (simp add: st stmt_ok_def)
    then show ?thesis using Cons by (simp add: st)
  next
    case False
    have "a \<noteq> A_Ir n'" if "a \<in> set (stmt_accesses opt te env n nia st)" for a n'
      using that False by (cases "(opt, te, env, n, nia, st)" rule: stmt_accesses.cases)
        (auto simp: is_IMark_def Let_def split: IRExpr.splits option.splits if_splits)
    moreover have "list_all (size_ok (min_line_size opt)) (stmt_accesses opt te env n nia st)"
      using stmt_sizes [of opt te st env n nia] Cons.prems(1,2) by simp
    moreover have b: "block_accesses opt te env n k nia (st # sts) =
        stmt_accesses opt te env n nia st @ A_stmt (leaves env st) # block_accesses opt te env n k nia sts" "marks (st # sts) = marks sts"
      using False by (cases st; auto simp: is_IMark_def)+
    moreover have "list_all (access_ok (min_line_size opt) env is) (block_accesses opt te env n k nia sts)"
      by (rule Cons.IH) (use Cons.prems b in \<open>simp_all del: block_accesses.simps marks.simps\<close>)
    ultimately show ?thesis using Cons.prems(6) acc by (auto simp: list_all_iff simp del: block_accesses.simps)
  qed
qed simp

lemma sb_access_ok:
  assumes ok: "block_ok opt sb" and m: "min_line_size opt < 256" "all_marked is base (marks (from_IMark sb))"
    "list_all (mark_fits (min_line_size opt)) (marks (from_IMark sb))" and w: "list_all (no_wrap env) (sb_accesses opt env base sb)"
  shows "list_all (access_ok (min_line_size opt) env is) (sb_accesses opt env base sb)"
proof -
  have "list_all (access_ok (min_line_size opt) env is) (block_accesses opt (tyenv sb) env 0 base 0 (from_IMark sb))"
    using ok m w by (intro block_access_ok) (simp_all add: block_ok_def sb_accesses_def)
  then show ?thesis by (auto simp: sb_accesses_def end_accesses_def list_all_iff)
qed

text \<open>The nodes of a block when it runs.\<close>

lemma runtime_marked:
  assumes "marks_effect dbg (next_inode ct) (marks (from_IMark sb)) (register_block ct a sb) ct'" "runtime_of ct ct' s"
  shows "all_marked (insns s) (next_inode ct) (marks (from_IMark sb))"
  using marks_effect_insns [OF assms(1)] assms(2)
  by (simp add: register_block_def length_marks all_marked_def marked_def runtime_of_def)

text \<open>C35: The tool does not stop the program. For every well-formed block at an address that has no block yet, a smallest
  line of less than 256 bytes that no instruction exceeds, and accesses that do not wrap around the address space, the
  instrumentation passes all its assertions and leaves nothing in its queue; and running the block it returns, in any state
  the simulation can be in, for any values of the temporaries and up to whichever side exit is taken, reaches no panic and
  no failed assertion, and leaves the simulation in such a state again.\<close>

theorem instrumented_block_runs:
  assumes ok: "block_ok opt sb" "instrInfoTable ct a = None"
    and m: "min_line_size opt < 256" "list_all (mark_fits (min_line_size opt)) (marks (from_IMark sb))"
    and w: "list_all (no_wrap env) (sb_accesses opt env (next_inode ct) sb)"
  shows "\<exists>ct' cg'. cg_instrument opt dbg ct a sb a Ity_I64 Ity_I64 = Some (ct', cg') \<and> events cg' = []
    \<and> (\<forall>s. env_ok env (sbOut cg') \<and> runtime_of ct ct' s \<and> sim_inv (min_line_size opt) s \<longrightarrow>
         (\<exists>s' x. exec_list (exec_out env) (sbOut cg') (s, False) = Some (s', x)
            \<and> sim_inv (min_line_size opt) s' \<and> insns s' = insns s))"
proof -
  let ?ms = "marks (from_IMark sb)"
  from cg_instrument_block [OF ok, of dbg] obtain ct' cg' where
    r: "cg_instrument opt dbg ct a sb a Ity_I64 Ity_I64 = Some (ct', cg')" "events cg' = []"
      "marks_effect dbg (next_inode ct) ?ms (register_block ct a sb) ct'"
      "\<And>s. env_ok env (sbOut cg') \<Longrightarrow> runtime_of ct ct' s \<Longrightarrow>
         exec_list (exec_out env) (sbOut cg') (s, False) = spec_run opt env (sb_accesses opt env (next_inode ct) sb) None (s, False)"
    by blast
  have "\<exists>s' x. exec_list (exec_out env) (sbOut cg') (s, False) = Some (s', x) \<and> sim_inv (min_line_size opt) s' \<and> insns s' = insns s"
    if e: "env_ok env (sbOut cg')" and s: "runtime_of ct ct' s" "sim_inv (min_line_size opt) s" for s
  proof -
    have "list_all (access_ok (min_line_size opt) env (insns s)) (sb_accesses opt env (next_inode ct) sb)"
      by (rule sb_access_ok [OF ok(1) m(1) runtime_marked [OF r(3) s(1)] m(2) w])
    then show ?thesis unfolding r(4) [OF e s(1)] by (rule spec_run_total [OF s(2)])
  qed
  then show ?thesis using r(1,2) by blast
qed

section \<open>Start-up\<close>

lemma initcache_ok:
  assumes "cache_geometry cfg k j" "cachesim_initcache cfg = Some c" "m \<le> line_size cfg"
  shows "cache_ok m c"
proof -
  have "line_size cfg = 2 ^ k" using assms(1) by (simp add: cache_geometry_def)
  then show ?thesis using init_inv [OF assms(1)] assms(2,3) unfolding cache_ok_def by auto
qed

text \<open>C38: Start-up establishes the state of the simulation. When the command line options were accepted and the tool starts, the
  smallest line is at least as long as the largest register, the caches and predictors satisfy the
  invariant of the simulation, and all tables are empty.\<close>

theorem cg_post_clo_init_ok:
  assumes "cg_post_clo_init ci clo r = Some (m, ct)"
    and "\<forall>c \<in> {clo_I1c clo, clo_D1c clo, clo_LLc clo}. cache_DEFINED c \<longrightarrow> (\<exists>k j. cache_geometry c k j)"
  shows "r \<le> m \<and> 16 \<le> m \<and> sim_inv m (cgst ct) \<and> (\<forall>a. instrInfoTable ct a = None) \<and> n_lines ct = 0"
proof -
  from assms(1) obtain i d l c where r: "post_clo_init_configure_caches ci clo = Some (i, d, l)" "m = min_line_size_of i d l"
    "r \<le> m" "cachesim_initcaches i d l = Some c" "sim (cgst ct) = c" "bp (cgst ct) = bpred_init"
    "instrInfoTable ct = (\<lambda>_. None)" "n_lines ct = 0"
    by (auto simp: cg_post_clo_init_def Let_def split: if_splits elim!: bind_SomeE)
  from configured_geometry [OF r(1) assms(2)] obtain ki ji kd jd kl jl where
    g: "cache_geometry i ki ji" "cache_geometry d kd jd" "cache_geometry l kl jl" by auto
  have le: "m \<le> line_size i" "m \<le> line_size d" "m \<le> line_size l" by (auto simp: r(2) min_line_size_of_def Let_def)
  have "16 \<le> line_size c" if "cache_geometry c k j" for c :: cache_t and k j
    using that power_increasing [of 4 k "2 :: int"] by (simp add: cache_geometry_def)
  then have "16 \<le> m" using g by (simp add: r(2) min_line_size_of_def Let_def)
  moreover have "cache_ok m (I1 c)" "cache_ok m (D1 c)" "cache_ok m (LL c)"
    using r(4) initcache_ok [OF g(1) _ le(1)] initcache_ok [OF g(2) _ le(2)] initcache_ok [OF g(3) _ le(3)]
    by (auto simp: cachesim_initcaches_def elim!: bind_SomeE)
  ultimately show ?thesis using r bp_inv_init ind_inv_init by (auto simp: sim_inv_def)
qed

text \<open>The example block with its tiny caches and fresh predictors.\<close>

theorem instrumented_block_runs_witness:
  "\<exists>ct' cg' s' x. cg_instrument ex_opt ex_dbg ex_tool 256 ex_block 256 Ity_I64 Ity_I64 = Some (ct', cg')
     \<and> exec_list (exec_out ex_env) (sbOut cg') ((cgst ct')\<lparr>bp := bpred_init\<rparr>, False) = Some (s', x)"
proof -
  have ok: "block_ok ex_opt ex_block" by code_simp
  have new: "instrInfoTable ex_tool 256 = None" "next_inode ex_tool = 0" by (simp_all add: ex_tool_def)
  from ex_block_instrumented obtain ct' cg' where r: "cg_instrument ex_opt ex_dbg ex_tool 256 ex_block 256 Ity_I64 Ity_I64 = Some (ct', cg')"
    "sim (cgst ct') = sim (cgst ex_tool)" "env_ok ex_env (sbOut cg')" by blast
  have "cachesim_initcache \<lparr>csize = 64, assoc = 2, line_size = 16\<rparr> = Some tiny_cache" by code_simp
  moreover have "cache_geometry \<lparr>csize = 64, assoc = 2, line_size = 16\<rparr> 4 1" by (simp add: cache_geometry_def)
  ultimately have "cache_ok 16 tiny_cache" using initcache_ok by fastforce
  then have "sim_inv (min_line_size ex_opt) ((cgst ct')\<lparr>bp := bpred_init\<rparr>)"
    using bp_inv_init ind_inv_init by (auto simp: sim_inv_def ex_opt_def r(2) ex_tool_def tiny_state_def)
  moreover have "runtime_of ex_tool ct' ((cgst ct')\<lparr>bp := bpred_init\<rparr>)" using r(2) by (simp add: runtime_of_def)
  moreover have "min_line_size ex_opt < 256" by (simp add: ex_opt_def)
  moreover have "marks (from_IMark ex_block) = [(256, 4), (260, 2)]" by code_simp
  then have "list_all (mark_fits (min_line_size ex_opt)) (marks (from_IMark ex_block))"
    by (simp add: mark_fits_def fix_isize_def ex_opt_def)
  moreover have "list_all (no_wrap ex_env) (sb_accesses ex_opt ex_env (next_inode ex_tool) ex_block)" by code_simp
  ultimately show ?thesis using instrumented_block_runs [OF ok new(1), of ex_env ex_dbg] r(1,3) by fastforce
qed

theorem cg_post_clo_init_ok_witness:
  "\<exists>ct. cg_post_clo_init \<lparr>num_levels = 0, caches = []\<rparr>
        \<lparr>clo_I1c = \<lparr>csize = 64, assoc = 2, line_size = 16\<rparr>, clo_D1c = \<lparr>csize = 64, assoc = 2, line_size = 16\<rparr>,
         clo_LLc = \<lparr>csize = -1, assoc = -1, line_size = -1\<rparr>\<rparr> 16 = Some (16, ct) \<and> sim_inv 16 (cgst ct)"
  (is "\<exists>ct. cg_post_clo_init ?ci ?clo 16 = Some (16, ct) \<and> _")
proof -
  let ?c = "\<lparr>csize = 64, assoc = 2, line_size = 16\<rparr>" and ?l = "cache_of 262144 8 64"
  have c: "post_clo_init_configure_caches ?ci ?clo = Some (?c, ?c, ?l)" by code_simp
  have g: "cache_geometry ?c 4 1" "cache_geometry ?l 6 9" by (simp_all add: cache_geometry_def cache_of_def)
  from init_inv [OF g(1)] init_inv [OF g(2)] obtain x y where "cachesim_initcache ?c = Some x" "cachesim_initcache ?l = Some y" by blast
  moreover have "min_line_size_of ?c ?c ?l = 16" by (simp add: min_line_size_of_def cache_of_def)
  ultimately obtain ct where ct: "cg_post_clo_init ?ci ?clo 16 = Some (16, ct)"
    by (simp add: cg_post_clo_init_def c cachesim_initcaches_def)
  moreover have "\<forall>c \<in> {clo_I1c ?clo, clo_D1c ?clo, clo_LLc ?clo}. cache_DEFINED c \<longrightarrow> (\<exists>k j. cache_geometry c k j)"
    using g(1) by (auto simp: cache_DEFINED_def)
  ultimately show ?thesis using cg_post_clo_init_ok [OF ct] by blast
qed

section \<open>The bounds are needed\<close>

lemma unat_drop: "unat (drop_bit k x) = unat x div 2 ^ k" for x :: UWord
  using unat_drop_bit_eq [of k x] drop_bit_eq_div [of k "unat x"] by (rule trans)

lemma unat_next_block:
  fixes x :: UWord
  assumes "0 < k"
  shows "unat (drop_bit k x + 1) = Suc (unat x div 2 ^ k)"
proof -
  have "unat x < 2 ^ 64" using unsigned_less [of x] by simp
  moreover have "unat x div 2 ^ k \<le> unat x div 2" using assms div_le_mono2 [of 2 "2 ^ k" "unat x"] by (simp add: self_le_power)
  ultimately have "Suc (unat x div 2 ^ k) < 2 ^ 64" by simp
  then show ?thesis by (simp add: unat_word_ariths unat_drop)
qed

lemma straddles_three:
  assumes "line_size_bits c = int k" "0 < k" "unat (a + ucast sz - 1) div 2 ^ k \<noteq> unat a div 2 ^ k"
    "unat (a + ucast sz - 1) div 2 ^ k \<noteq> Suc (unat a div 2 ^ k)"
  shows "cachesim_ref_is_miss c a sz = None"
proof -
  have "unat (drop_bit k (a + ucast sz - 1)) \<noteq> unat (drop_bit k a)" using assms(3) unfolding unat_drop .
  moreover have "unat (drop_bit k (a + ucast sz - 1)) \<noteq> unat (drop_bit k a + 1)"
    using assms(4) unfolding unat_drop unat_next_block [OF assms(2)] .
  ultimately show ?thesis using assms(1) by (auto simp: cachesim_ref_is_miss_def Let_def)
qed

lemma client_request_straddles:
  assumes "line_size_bits (I1 (sim s)) = 4" "instr_len (insns s n) = 19" "14 \<le> unat (instr_addr (insns s n)) mod 16"
    "unat (instr_addr (insns s n)) + 19 \<le> 2 ^ 64"
  shows "log_1IrGen_0D_cache_access n s = None"
proof -
  define a where "a = instr_addr (insns s n)"
  have e: "a + ucast (19 :: UChar) - 1 = a + 18" by simp
  have "unat (a + 18) = unat a + 18" using assms(4) by (simp add: unat_word_ariths a_def)
  moreover have "(unat a + 18) div 16 = unat a div 16 + 2"
  proof -
    have "unat a mod 16 < 16" by simp
    moreover have "unat a = 16 * (unat a div 16) + unat a mod 16" by simp
    ultimately show ?thesis using assms(3) unfolding a_def [symmetric] by linarith
  qed
  ultimately have "cachesim_ref_is_miss (I1 (sim s)) a 19 = None"
    using assms(1) by (intro straddles_three [where k = 4]) (simp_all add: e add.commute [of 18 a])
  then show ?thesis using assms(2) by (simp add: log_1IrGen_0D_cache_access_def cachesim_I1_doref_Gen_def a_def)
qed

text \<open>An option that was not given, and the options when only \<open>--I1\<close> is.\<close>

definition no_opt :: cache_t where
  "no_opt = \<lparr>csize = -1, assoc = -1, line_size = -1\<rparr>"

definition only_I1 :: "cache_t \<Rightarrow> clo_caches" where
  "only_I1 c = \<lparr>clo_I1c = c, clo_D1c = no_opt, clo_LLc = no_opt\<rparr>"

lemma only_I1_start:
  assumes machine: "post_clo_init_configure_caches ci (only_I1 no_opt) \<noteq> None"
    and c: "cache_geometry c 4 j" and r: "r \<le> 16"
  shows "\<exists>ct. cg_post_clo_init ci (only_I1 c) r = Some (16, ct) \<and> instrInfoTable ct = (\<lambda>_. None)
    \<and> line_size_bits (I1 (sim (cgst ct))) = 4"
proof -
  have l: "line_size c = 16" using c by (simp add: cache_geometry_def)
  then have df: "cache_DEFINED c" "\<not> cache_DEFINED no_opt" by (simp_all add: cache_DEFINED_def no_opt_def)
  from machine df obtain d ll where conf: "post_clo_init_configure_caches ci (only_I1 c) = Some (c, d, ll)"
    by (auto simp: post_clo_init_configure_caches_def check_cache_or_override_def vg_assert_def only_I1_def
        split: prod.splits if_splits elim!: bind_SomeE)
  have "\<forall>x \<in> {c, d, ll}. \<exists>k j. cache_geometry x k j"
    using configured_geometry [OF conf] c df by (auto simp: only_I1_def)
  then obtain kd jd kl jl where g: "cache_geometry d kd jd" "cache_geometry ll kl jl" by auto
  have "16 \<le> line_size x" if "cache_geometry x k j" for x :: cache_t and k j
    using that power_increasing [of 4 k "2 :: int"] by (simp add: cache_geometry_def)
  from this [OF g(1)] this [OF g(2)] have m: "min_line_size_of c d ll = 16" using l by (auto simp: min_line_size_of_def Let_def)
  from init_inv [OF c] init_inv [OF g(1)] init_inv [OF g(2)] obtain x y z where
    "cachesim_initcache c = Some x" "cachesim_initcache d = Some y" "cachesim_initcache ll = Some z" "line_size_bits x = 4"
    by (auto simp: cache_inv_def)
  then show ?thesis using r by (simp add: cg_post_clo_init_def conf m cachesim_initcaches_def)
qed

text \<open>C39: An instruction can be longer than a line, and start-up does not notice. On a machine whose own caches are accepted, let the user
  choose an I1 cache with lines of 16 bytes. Start-up accepts it whenever no register is longer than 16 bytes, with 16 as
  the smallest line size. Every well-formed block that begins with a client request, one instruction of \<open>VG_CLREQ_SZB\<close>
  bytes, at an address that is 14 or 15 modulo 16 is then instrumented without complaint; and each time the block
  runs, in whatever state the caches are, the request covers three lines and the simulator panics, although the test of the line sizes is
  there to exclude this.\<close>

theorem client_request_panics:
  assumes machine: "post_clo_init_configure_caches ci (only_I1 no_opt) \<noteq> None"
    and I1: "cache_geometry c 4 j" and r: "r \<le> 16"
    and sb: "stmts sb = Ist_IMark addr VG_CLREQ_SZB delta # rest"
      "block_ok \<lparr>clo_cache_sim = True, clo_branch_sim = b, min_line_size = 16\<rparr> sb"
    and addr: "14 \<le> unat addr mod 16" "unat addr + 19 \<le> 2 ^ 64"
  shows "\<exists>ct ct' cg'. cg_post_clo_init ci (only_I1 c) r = Some (16, ct)
    \<and> cg_instrument \<lparr>clo_cache_sim = True, clo_branch_sim = b, min_line_size = 16\<rparr> dbg ct a sb a Ity_I64 Ity_I64 = Some (ct', cg')
    \<and> (\<forall>env s. env_ok env (sbOut cg') \<and> runtime_of ct ct' s \<longrightarrow> exec_list (exec_out env) (sbOut cg') (s, False) = None)"
proof -
  let ?opt = "\<lparr>clo_cache_sim = True, clo_branch_sim = b, min_line_size = 16\<rparr>"
  from only_I1_start [OF machine I1 r] obtain ct where
    ct: "cg_post_clo_init ci (only_I1 c) r = Some (16, ct)" "instrInfoTable ct a = None" "line_size_bits (I1 (sim (cgst ct))) = 4"
    by auto
  from cg_instrument_block [OF sb(2) ct(2), of dbg] obtain ct' cg' where
    run: "cg_instrument ?opt dbg ct a sb a Ity_I64 Ity_I64 = Some (ct', cg')"
      "marks_effect dbg (next_inode ct) (marks (from_IMark sb)) (register_block ct a sb) ct'"
      "\<And>env s. env_ok env (sbOut cg') \<Longrightarrow> runtime_of ct ct' s \<Longrightarrow>
         exec_list (exec_out env) (sbOut cg') (s, False) = spec_run ?opt env (sb_accesses ?opt env (next_inode ct) sb) None (s, False)"
    by blast
  have fm: "from_IMark sb = stmts sb" "before_IMark sb = []" by (simp_all add: from_IMark_def before_IMark_def is_IMark_def sb(1))
  have "exec_list (exec_out env) (sbOut cg') (s, False) = None" if e: "env_ok env (sbOut cg')" and s: "runtime_of ct ct' s" for env s
  proof -
    have "marked (insns s) (next_inode ct) addr VG_CLREQ_SZB" using runtime_marked [OF run(2) s] by (simp add: fm sb(1))
    then have "log_1IrGen_0D_cache_access (next_inode ct) s = None"
      using addr s ct(3)
      by (intro client_request_straddles) (simp_all add: runtime_of_def marked_def fix_isize_def VG_CLREQ_SZB_def)
    then show ?thesis unfolding run(3) [OF e s] by (simp add: sb_accesses_def fm sb(1))
  qed
  then show ?thesis using ct(1) run(1) by blast
qed

text \<open>Caches of 64 bytes with lines of 16, a machine that reports no caches, and a client request at address 14.\<close>

definition clreq_block :: IRSB where
  "clreq_block = \<lparr>tyenv = [], stmts = [Ist_IMark 14 VG_CLREQ_SZB 0], sb_next = Iex_Const (Ico_U64 33), jumpkind = Ijk_ClientReq\<rparr>"

lemma flush_loop_calls: "flush_loop cs evs = Some ds \<Longrightarrow> O_Stmt st \<notin> set ds"
proof (induction cs evs arbitrary: ds rule: flush_loop.induct)
  case (1 cs evs)
  then show ?case by (subst (asm) (2) flush_loop.simps) (auto elim!: bind_SomeE split: if_splits)
qed

lemma clreq_block_out:
  assumes "cg_instrument opt dbg ct a clreq_block a Ity_I64 Ity_I64 = Some (ct', cg')"
  shows "O_Stmt (Ist_WrTmp t e) \<notin> set (sbOut cg')"
  using assms
  by (auto simp: cg_instrument_def clreq_block_def is_IMark_def instrument_stmt_def instrument_IMark_def setup_InstrInfo_def
      addEvent_Ir_def add_event_def flushEvents_def addStmtToIRSB_def get_SB_info_def Let_def
      dest!: flush_loop_calls elim!: bind_SomeE split: if_splits prod.splits)

theorem client_request_panics_witness:
  "\<exists>ct ct' cg'. cg_post_clo_init \<lparr>num_levels = 0, caches = []\<rparr> (only_I1 \<lparr>csize = 64, assoc = 2, line_size = 16\<rparr>) 16 = Some (16, ct)
     \<and> cg_instrument ex_opt ex_dbg ct 14 clreq_block 14 Ity_I64 Ity_I64 = Some (ct', cg')
     \<and> exec_list (exec_out ex_env) (sbOut cg') ((cgst ct)\<lparr>insns := insns (cgst ct')\<rparr>, False) = None"
proof -
  let ?c = "\<lparr>csize = 64, assoc = 2, line_size = 16\<rparr> :: cache_t"
  have machine: "post_clo_init_configure_caches \<lparr>num_levels = 0, caches = []\<rparr> (only_I1 no_opt) \<noteq> None" by code_simp
  have g: "cache_geometry ?c 4 1" by (simp add: cache_geometry_def)
  have st: "stmts clreq_block = Ist_IMark 14 VG_CLREQ_SZB 0 # []" by (simp add: clreq_block_def)
  have ok: "block_ok ex_opt clreq_block" by code_simp
  from client_request_panics [OF machine g _ st ok [unfolded ex_opt_def], of 16 ex_dbg 14] obtain ct ct' cg' where
    r: "cg_post_clo_init \<lparr>num_levels = 0, caches = []\<rparr> (only_I1 ?c) 16 = Some (16, ct)"
      "cg_instrument ex_opt ex_dbg ct 14 clreq_block 14 Ity_I64 Ity_I64 = Some (ct', cg')"
      "\<And>env s. env_ok env (sbOut cg') \<Longrightarrow> runtime_of ct ct' s \<Longrightarrow> exec_list (exec_out env) (sbOut cg') (s, False) = None"
    by (auto simp: ex_opt_def)
  have "env_ok ex_env (sbOut cg')" using clreq_block_out [OF r(2)] by (simp add: env_ok_def ex_env_def)
  moreover have "runtime_of ct ct' ((cgst ct)\<lparr>insns := insns (cgst ct')\<rparr>)" by (simp add: runtime_of_def)
  ultimately show ?thesis using r by blast
qed

text \<open>A size of 256 bytes is lost. The size of a data access is passed on in eight bits; with lines of 256 bytes the access of a helper call
  that is clipped to the line size arrives as 0, and when it starts at a multiple of 256 the simulator panics.\<close>

theorem data_size_256_panics:
  assumes "line_size_bits (D1 (sim s)) = 8" "256 dvd unat a"
  shows "log_0Ir_1Dr_cache_access n a 256 s = None"
proof -
  obtain q where q: "unat a = 256 * q" using assms(2) by (auto elim: dvdE)
  have e: "a + ucast (0 :: UChar) - 1 = a - 1" by simp
  have "unat (a - 1) div 256 \<noteq> q \<and> unat (a - 1) div 256 \<noteq> Suc q"
  proof (cases "a = 0")
    case True
    then show ?thesis using q by (simp add: unsigned_minus_1_eq_mask mask_eq_exp_minus_1)
  next
    case False
    then have "unat (a - 1) = 256 * q - 1" using q by (simp add: unat_minus_one)
    moreover have "0 < q" using False q by (metis mult_0_right neq0_conv unat_eq_zero)
    ultimately show ?thesis by (auto simp: less_mult_imp_div_less dest: arg_cong [of _ _ "\<lambda>x. x * 256"])
  qed
  then have "cachesim_ref_is_miss (D1 (sim s)) a 0 = None"
    using assms(1) q by (intro straddles_three [where k = 8]) (simp_all add: e)
  then have "cachesim_D1_doref (sim s) a 0 = None" by (simp add: cachesim_D1_doref_def)
  moreover have z: "(word_of_int 256 :: UChar) = 0" by transfer simp
  ultimately show ?thesis unfolding log_0Ir_1Dr_cache_access_def z by simp
qed

theorem data_size_256_panics_witness:
  "log_0Ir_1Dr_cache_access 0 4096 256 (tiny_state\<lparr>sim := (sim tiny_state)\<lparr>D1 := tiny_cache\<lparr>line_size_bits := 8\<rparr>\<rparr>\<rparr>) = None"
  by (rule data_size_256_panics) simp_all

end
