(* ===== verification/Cachegrind_Tables.thy ===== *)
theory Cachegrind_Tables
  imports Cachegrind_Safe
begin

text \<open>
  The table of source lines of Cachegrind: instrumenting a block attributes each instruction to the cost centre of its
  source location, creates a zeroed one for a new location and leaves the others alone. Blocks can be discarded and
  instrumented again.
\<close>

section \<open>Cost centres\<close>

definition location :: "debug_info \<Rightarrow> UWord \<Rightarrow> CodeLoc" where
  "location dbg a =
     (case get_filename_linenum dbg a of
        None \<Rightarrow> \<lparr>loc_file = ''???'', loc_fn = (case get_fnname dbg a of None \<Rightarrow> ''???'' | Some fn \<Rightarrow> fn), loc_line = 0\<rparr>
      | Some (f, dir, l) \<Rightarrow>
          \<lparr>loc_file = (if dir = [] then f else dir @ ''/'' @ f),
           loc_fn = (case get_fnname dbg a of None \<Rightarrow> ''???'' | Some fn \<Rightarrow> fn), loc_line = sint l\<rparr>)"

text \<open>No two cost centres are for the same location.\<close>

definition lines_inv :: "cg_tool \<Rightarrow> bool" where
  "lines_inv ct \<longleftrightarrow> inj_on (\<lambda>i. loc (lines (cgst ct) i)) {..<n_lines ct}"

definition zeroed :: "LineCC \<Rightarrow> bool" where
  "zeroed l \<longleftrightarrow> (\<forall>K. counts K l = (0, 0, 0))"

definition lines_extend :: "cg_tool \<Rightarrow> cg_tool \<Rightarrow> bool" where
  "lines_extend ct ct' \<longleftrightarrow> lines_inv ct' \<and> n_lines ct \<le> n_lines ct'
     \<and> (\<forall>i < n_lines ct. lines (cgst ct') i = lines (cgst ct) i)
     \<and> (\<forall>i. n_lines ct \<le> i \<and> i < n_lines ct' \<longrightarrow> zeroed (lines (cgst ct') i))"

lemma lines_extend_refl: "lines_inv ct \<Longrightarrow> lines_extend ct ct"
  by (auto simp: lines_extend_def)

lemma lines_extend_trans:
  assumes "lines_extend a b" "lines_extend b c"
  shows "lines_extend a c"
proof -
  have "zeroed (lines (cgst c) i)" if "n_lines a \<le> i" "i < n_lines c" for i
    using assms that by (cases "i < n_lines b") (simp_all add: lines_extend_def)
  then show ?thesis using assms by (simp add: lines_extend_def)
qed

lemma find_loc:
  "find P [0..<n] = None \<Longrightarrow> i < n \<Longrightarrow> \<not> P i" "find P [0..<n] = Some i \<Longrightarrow> i < n \<and> P i"
  by (auto simp: find_None_iff find_Some_iff)

lemma get_lineCC_ok:
  assumes g: "get_lineCC dbg ct a = (ct', p)" and inv: "lines_inv ct"
  shows "lines_extend ct ct' \<and> p < n_lines ct' \<and> loc (lines (cgst ct') p) = location dbg a"
proof -
  obtain ct1 dir f fn l where d: "get_debug_info dbg ct a = (ct1, dir, f, fn, l)" by (cases "get_debug_info dbg ct a")
  let ?file = "if dir \<noteq> [] then dir @ ''/'' @ f else f"
  let ?loc = "\<lparr>loc_file = ?file, loc_fn = fn, loc_line = sint l\<rparr>"
  have loc: "?loc = location dbg a" using d by (auto simp: get_debug_info_def location_def Let_def split: option.splits)
  note f1 = get_debug_info_frame [OF d]
  show ?thesis
  proof (cases "find (\<lambda>i. loc (lines (cgst ct) i) = ?loc) [0..<n_lines ct]")
    case (Some i)
    then have "ct' = ct1" "p = i" using g d f1 by (auto simp: get_lineCC_def Let_def)
    then show ?thesis using find_loc(2) [OF Some] inv f1 loc by (auto simp: lines_extend_def lines_inv_def)
  next
    case None
    obtain ct2 s2 where p2: "get_perm_string ct1 ?file = (ct2, s2)" by force
    obtain ct3 s3 where p3: "get_perm_string ct2 fn = (ct3, s3)" by force
    note f2 = get_perm_string_frame [OF p2] and f3 = get_perm_string_frame [OF p3]
    let ?n = "n_lines ct"
    let ?l = "\<lparr>loc = ?loc, Ir = zero_CC, Dr = zero_CC, Dw = zero_CC, Bc = zero_BC, Bi = zero_BC\<rparr>"
    have ct': "lines (cgst ct') = (lines (cgst ct))(?n := ?l)" "n_lines ct' = Suc ?n" "p = ?n"
      using g d None f1 f2 f3 p2 p3 by (auto simp: get_lineCC_def Let_def)
    have "zeroed ?l" by (auto simp: zeroed_def zero_CC_def zero_BC_def intro: counts.induct)
    moreover have "lines_inv ct'"
    proof -
      let ?g = "\<lambda>i. loc (lines (cgst ct') i)"
      have "inj_on ?g {..<?n}" using inv by (simp add: lines_inv_def ct'(1) inj_on_def)
      moreover have g: "?g ?n = ?loc" "\<And>i. i < ?n \<Longrightarrow> ?g i = loc (lines (cgst ct) i)" by (simp_all add: ct'(1))
      have "?g ?n \<notin> ?g ` {..<?n}"
      proof
        assume "?g ?n \<in> ?g ` {..<?n}"
        then obtain i where i: "?g ?n = ?g i" "i < ?n" by blast
        have "loc (lines (cgst ct) i) = ?loc" using i(1) [symmetric] unfolding g(1) g(2) [OF i(2)] .
        then show False using find_loc(1) [OF None i(2)] by contradiction
      qed
      ultimately show ?thesis by (simp add: lines_inv_def ct'(2) lessThan_Suc)
    qed
    ultimately show ?thesis using ct' loc by (auto simp: lines_extend_def less_Suc_eq)
  qed
qed

text \<open>A node is attributed to the cost centre of its location.\<close>

definition attributed :: "debug_info \<Rightarrow> cg_tool \<Rightarrow> nat \<Rightarrow> UWord \<Rightarrow> bool" where
  "attributed dbg ct n a \<longleftrightarrow> instr_addr (insns (cgst ct) n) = a \<and> parent (insns (cgst ct) n) < n_lines ct
     \<and> loc (lines (cgst ct) (parent (insns (cgst ct) n))) = location dbg a"

lemma mark_effect_lines:
  assumes "mark_effect dbg a len n ct ct'" "lines_inv ct"
  shows "lines_extend ct ct' \<and> attributed dbg ct' n a"
proof -
  from assms(1) obtain ct1 p where g: "get_lineCC dbg ct a = (ct1, p)"
    "cgst ct' = (cgst ct1)\<lparr>insns := (insns (cgst ct1))(n := \<lparr>instr_addr = a, instr_len = ucast (fix_isize len), parent = p\<rparr>)\<rparr>"
    "n_lines ct' = n_lines ct1" by (auto simp: mark_effect_def)
  then show ?thesis using get_lineCC_ok [OF g(1) assms(2)] by (simp add: lines_extend_def lines_inv_def attributed_def)
qed

lemma attributed_extend:
  "attributed dbg ct n a \<Longrightarrow> lines_extend ct ct' \<Longrightarrow> insns (cgst ct') n = insns (cgst ct) n \<Longrightarrow> attributed dbg ct' n a"
  by (simp add: attributed_def lines_extend_def)

lemma marks_effect_lines:
  "marks_effect dbg n ms ct ct' \<Longrightarrow> lines_inv ct \<Longrightarrow>
   lines_extend ct ct' \<and> (\<forall>i < length ms. attributed dbg ct' (n + i) (fst (ms ! i)))"
proof (induction dbg n ms ct ct' rule: marks_effect.induct)
  case (1 dbg n ct ct')
  then show ?case by (simp add: lines_extend_refl)
next
  case (2 dbg n a len ms ct ct')
  from 2(2) obtain ct1 where r: "mark_effect dbg a len n ct ct1" "marks_effect dbg (n + 1) ms ct1 ct'" by auto
  note m = mark_effect_lines [OF r(1) 2(3)]
  then have "lines_inv ct1" by (simp add: lines_extend_def)
  note ih = 2(1) [OF r(2) this]
  have "attributed dbg ct' n a"
    using attributed_extend [of dbg ct1 n a ct'] m ih marks_effect_insns [OF r(2)] by simp
  then show ?case using ih lines_extend_trans [of ct ct1 ct'] m by (auto simp: nth_Cons split: nat.splits)
qed

text \<open>C36: Each instruction is charged to its source line. When a block is instrumented, the node of every one of its instructions has its address and the
  cost centre of exactly the file, function and line that the debug information gives for it; locations keep one
  cost centre each; existing ones are not touched and new ones start with all counters zero. The block can then be discarded, which
  makes its address free again.\<close>

theorem instrument_attribution:
  assumes "block_ok opt sb" "instrInfoTable ct a = None" "lines_inv ct"
  shows "\<exists>ct' cg' ct''. cg_instrument opt dbg ct a sb a Ity_I64 Ity_I64 = Some (ct', cg') \<and> lines_extend ct ct'
    \<and> (\<forall>i < length (marks (from_IMark sb)). attributed dbg ct' (next_inode ct + i) (fst (marks (from_IMark sb) ! i)))
    \<and> cg_discard_superblock_info ct' [a] = Some ct'' \<and> instrInfoTable ct'' = instrInfoTable ct"
proof -
  from cg_instrument_block [OF assms(1,2), of dbg] obtain ct' cg' where
    r: "cg_instrument opt dbg ct a sb a Ity_I64 Ity_I64 = Some (ct', cg')"
      "marks_effect dbg (next_inode ct) (marks (from_IMark sb)) (register_block ct a sb) ct'" by blast
  have reg: "lines_inv (register_block ct a sb)" "lines_extend (register_block ct a sb) ct' = lines_extend ct ct'"
    using assms(3) by (simp_all add: register_block_def lines_inv_def lines_extend_def)
  have i: "instrInfoTable ct' = instrInfoTable (register_block ct a sb)" using marks_effect_insns [OF r(2)] by simp
  then have "instrInfoTable ct' a \<noteq> None" by (simp add: register_block_def)
  then have "cg_discard_superblock_info ct' [a] = Some (ct'\<lparr>instrInfoTable := (instrInfoTable ct')(a := None)\<rparr>)"
    by (simp add: cg_discard_superblock_info_def)
  moreover have "(instrInfoTable ct')(a := None) = instrInfoTable ct" using assms(2) by (auto simp: i register_block_def)
  ultimately show ?thesis using marks_effect_lines [OF r(2) reg(1)] reg(2) r(1) by auto
qed

theorem instrument_attribution_witness:
  "\<exists>ct' cg'. cg_instrument ex_opt ex_dbg ex_tool 256 ex_block 256 Ity_I64 Ity_I64 = Some (ct', cg')
     \<and> attributed ex_dbg ct' 1 260"
proof -
  have ok: "block_ok ex_opt ex_block" by code_simp
  have new: "instrInfoTable ex_tool 256 = None" "lines_inv ex_tool" "next_inode ex_tool = 0" by (simp_all add: ex_tool_def lines_inv_def)
  have "marks (from_IMark ex_block) = [(256, 4), (260, 2)]" by code_simp
  then show ?thesis using instrument_attribution [OF ok new(1,2), of ex_dbg] new(3) by (auto simp: nth_Cons')
qed

end
