(* ===== verification/Spec2Isabelle.thy ===== *)
theory Spec2Isabelle
  imports SeqMatch WordBag UDP_Props CString_Props RangeMap HashTable SparseWA_Iter OSet_Spec WordSet_Spec
    AMD64_Cond Cachegrind_Tables
begin

text \<open>
  Verification of the C code of the repository: the file transfer programs of the first
  assignment (\<open>PA1/udp\<close>), the data structures and C library at the core of the Valgrind
  sources that the repository carries (\<open>valgrind-3.11.0/coregrind\<close>), the tool Cachegrind of
  these sources (\<open>valgrind-3.11.0/cachegrind\<close>) with the intermediate representation it works on and the
  condition codes of the amd64 guest (\<open>valgrind-3.11.0/VEX\<close>), and the sets of words of the tool Helgrind
  (\<open>valgrind-3.11.0/helgrind\<close>).

  \<^bold>\<open>The programs and how they interact.\<close>
  The server and the client of \<open>PA1/udp\<close> exchange datagrams of 100 bytes: commands and their
  acknowledgements, a \<open>START\<close> frame with the size of a response, and frames with a sequence number
  and 91 characters, each sent until it is acknowledged. Valgrind's modules call each other: the
  bag of words is a client of the word map, the range map a client of the growable array, the
  growable array sorts with the library's quicksort and moves its elements with the library's
  memory functions, the pool allocator keeps its pools in a growable array, the ordered set takes
  its nodes from a pool or from the client's allocator, and Helgrind's sets of words find the number of a
  set through a word map whose comparison reads the vectors. Cachegrind configures three caches from its options and from what the machine
  reports, rewrites each block of guest code so that it calls helper functions, and these helpers
  run the accesses through the cache simulator and the branch predictors and add to the counters
  of source lines.

  \<^bold>\<open>Conventions\<close> (\<open>Prelude\<close>). A result of type \<open>option\<close> is \<open>None\<close> when an assertion of the code
  fails, when the code panics, or when it reads or writes outside an array; so a theorem with
  \<open>Some\<close> in its conclusion also says that none of this happens. \<open>UWord\<close> is a 64-bit word, \<open>UInt\<close>
  a 32-bit word, \<open>UChar\<close> a byte, with their wrap-around. Allocation succeeds: the allocators these
  modules take as arguments promise it by name (\<open>alloc_nofail\<close>); the two programs allocate with \<open>realloc\<close>, and
  there a size that overflows its \<open>int\<close> is a failure. Loops are recursive functions
  with a termination proof. Only \<open>generic_match\<close>, the quicksort \<open>bm_qsort\<close>, the iterator
  \<open>nextIter_run\<close> of the sparse array and the loops of the ordered set, which follow pointers, are
  \<open>partial_function\<close>s, and there the theorems state that they return. There is no fuel.

  \<^bold>\<open>The theories.\<close>
  \<^item> \<open>UDP_Base\<close>, \<open>UDP_Server\<close>, \<open>UDP_Client\<close>: what the programs use of C, and the two programs. A
    program's state is a record with the variables that live across a \<open>recvfrom\<close> and the place
    where it waits; \<open>server_recv\<close> and \<open>client_recv\<close> are what it does with one datagram. The
    position of the two control arrays on the stack, uninitialised memory and the output of
    \<open>ls\<close> are parameters. \<open>UDP_Frames\<close> has the arithmetic of frames; \<open>UDP_System\<close> the network as
    two queues, runs without loss, and a step relation with loss; \<open>UDP_System\<close> and \<open>UDP_Get\<close>
    show that \<open>put\<close> and \<open>get\<close> complete without loss, what a loss does to each, and that a \<open>put\<close>
    never stores a partial file; \<open>UDP_Props\<close> has the bounds of the buffers (the client's
    reading loop fails for certain small files and for those of more than \<open>2 ^ 30\<close> characters, and for no others) and the witnesses.
  \<^item> \<open>SeqMatch\<close> (\<open>m_seqmatch.c\<close>): the matcher against the recursive specification in its comment,
    and what wildcard patterns match.
  \<^item> \<open>WordFM\<close> (\<open>m_wordfm.c\<close>): the AVL tree with balance factors. \<open>WordFM_Props\<close>: invariant, lookup
    laws and refinement of a map, through the locale \<open>word_map\<close>; \<open>WordFM_Iter\<close>: both iterators with
    their stack of 32 elements and the size at which it overflows, deletion and copying.
  \<^item> \<open>WordBag\<close> (\<open>m_wordfm.c\<close>): the bag as a client of the map, refining multisets.
  \<^item> \<open>CMem\<close>, \<open>CNum\<close>, \<open>CString\<close>, \<open>CSort\<close> (\<open>m_libcbase.c\<close>): memory functions on a memory of bytes
    with their word-wise loops, number parsing, the checksum, string functions on memory suffixes,
    and the quicksort on elements and its exchange function on bytes. \<open>CString_Props\<close> and
    \<open>CSort_Props\<close> have the larger proofs.
  \<^item> \<open>XArray\<close>, \<open>XArray_Props\<close> (\<open>m_xarray.c\<close>): the growable array, its locale \<open>growable_array\<close> and the
    refinement of lists, failures included; sorting and searching through the theorems on the quicksort.
  \<^item> \<open>RangeMap\<close> (\<open>m_rangemap.c\<close>): the map from ranges as a client of the growable array, refining
    functions on words.
  \<^item> \<open>HashTable\<close> (\<open>m_hashtable.c\<close>): chains, resizing and iteration, refining multisets of nodes.
  \<^item> \<open>SparseWA\<close>, \<open>SparseWA_Iter\<close> (\<open>m_sparsewa.c\<close>): the tree of eight levels with 256 children,
    refining maps through the same locale \<open>word_map\<close> as the AVL tree, and its iterator.
  \<^item> \<open>PoolAlloc\<close> (\<open>m_poolalloc.c\<close>): fixed-size elements from large blocks, with the list of free
    elements threaded through the memory itself; what a client writes into its elements stays.
  \<^item> \<open>OSet\<close> (\<open>m_oset.c\<close>): the ordered set on a heap of nodes with addresses, magic numbers and
    destructive rotations. \<open>OSet_Props\<close> and \<open>OSet_Remove\<close> relate the heap to the trees of \<open>WordFM\<close>
    with addresses for keys and show that insertion and removal do on the heap what
    the functions of \<open>WordFM\<close> do on trees; \<open>OSet_Ops\<close> and \<open>OSet_Iter\<close> conclude what the
    operations and the iterator do to the list of elements, \<open>OSet_Destroy\<close> that destruction frees every
    node once, through the locale \<open>node_store\<close> for the plain allocator and for the pool;
    \<open>OSet_Spec\<close> has sequences of operations against sets of words and against sorted lists.
    The stack of 32 entries suffices below 9227464 elements.
  \<^item> \<open>WordSet\<close> (\<open>hg_wordset.c\<close>): universes of sets of words, each set known by a number, with the word map from
    vectors to numbers, the list of numbers of dead sets and four caches of results. \<open>WordSet_Props\<close> has the
    invariant that ties these together and the effect of each operation; \<open>WordSet_Spec\<close> has sequences of
    operations by a client that uses only live numbers, against finite sets, and shows that no vector leaks.
    It is stated for fewer operations than the numbers a 32-bit size can count.
  \<^item> \<open>VexFlags\<close>, \<open>AMD64_Flags\<close> (\<open>guest_amd64_helpers.c\<close>): how translated code computes the flags, the carry and
    the conditions from a thunk that records the last operation; the macros take the word type as a parameter, their
    width as a number. \<open>VexFlags_Props\<close> says with integers what the flags of sums, differences, products, shifts and
    rotations are and proves each macro; \<open>AMD64_Flags_Props\<close> adds the products of 64-bit numbers from 32-bit
    halves and concludes for every kind of thunk; \<open>AMD64_Cond\<close> has the conditions, what they say after a
    comparison, and the flags register of the guest state.
  \<^item> \<open>CacheConf\<close> (\<open>cg_arch.c\<close>): the options, the checks and the choice of the three caches; which
    texts are accepted, and that what is handed on has the geometry the simulator relies on.
  \<^item> \<open>CacheSim\<close> (\<open>cg_sim.c\<close>) and \<open>BranchPred\<close> (\<open>cg_branchpred.c\<close>): the simulator on its array of
    tags against a set-associative cache with least-recently-used replacement, the predictors
    against a table of two-bit counters and a table of last targets.
  \<^item> \<open>IR\<close> (\<open>libvex_ir.h\<close>, \<open>ir_defs.c\<close>): expressions, statements and blocks and the functions on them
    that Cachegrind calls. Arrays that double when they are full are lists.
  \<^item> \<open>Cachegrind\<close>, \<open>Cachegrind_Instr\<close> (\<open>cg_main.c\<close>): the helpers \<open>log_*\<close>, the queue of at most 16
    events with its merging rules, the tables, and \<open>cg_instrument\<close> case by case. A pointer to an
    instruction or a source line is its number; \<open>CC_table\<close> and \<open>stringTable\<close> are searched by key; what
    the debug information says of an address is a parameter.
  \<^item> \<open>Cachegrind_Queue\<close>, \<open>Cachegrind_Counts\<close>, \<open>Cachegrind_Block\<close>: merged helper calls have the effect
    of logging every access by itself, so an instrumented block does what the block and one log
    entry per access do, in the same order, also when a side exit is taken; the counters are exact.
  \<^item> \<open>Cachegrind_Safe\<close>, \<open>Cachegrind_Tables\<close>: no assertion fails in the instrumentation of a
    well-formed block or in a run of the result, under a condition on sizes that start-up only
    partly guarantees: with lines of 16 bytes, which it accepts, a block with a client request can make the simulator panic, and so
    can a data access of 256 bytes; the counters of an
    instruction are those of its source line, and discarding a block removes exactly its entry.

  \<^bold>\<open>Not modelled.\<close> The other assignments (\<open>PA2\<close> to \<open>PA4\<close>) are C++ programs on threads, sockets,
  regular expressions and shell commands. Of Valgrind: the scheduler, system calls, signals, address
  space and debug information, the translation library VEX and the other tools, which depend on machine
  and operating system; Cachegrind's output file and summary;
  \<open>strtod\<close> (floating point), \<open>xaprintf\<close> and \<open>HT_print_stats\<close> (formatted output).
\<close>

end
